(* ===== verification/Yans_Prelude.thy ===== *)
theory Yans_Prelude
  imports Main "HOL-Library.Word"
begin

text \<open>
  Shared vocabulary of the development: the machine types of the C code (the target is
  amd64, so \<open>size_t\<close> and \<open>long\<close> have 64 bits), bytes as \<open>char\<close>, the model of the
  memory allocator as a predicate on the requested size, and the functions of the C
  standard library the modelled code calls on strings.
\<close>

unbundle bit_operations_syntax

named_theorems yans_simps \<open>simplification rules shared by the component proofs\<close>
named_theorems yans_defs \<open>definitions unfolded to evaluate a component on concrete input\<close>

type_synonym u8 = "8 word"
type_synonym u16 = "16 word"
type_synonym u32 = "32 word"
type_synonym u64 = "64 word"
type_synonym size_t = u64
type_synonym byte = char
type_synonym bytes = "char list"

text \<open>A C status code: 0 or a component-specific negative number.\<close>

type_synonym status = int

text \<open>
  The allocator. \<open>ok n\<close> says whether a request for \<open>n\<close> bytes is granted; the C code
  sees NULL otherwise. No object of C is larger than \<open>PTRDIFF_MAX\<close> bytes, so an allocator
  that grants only representable objects satisfies \<open>alloc_bounded\<close>.
\<close>

type_synonym allocator = "size_t \<Rightarrow> bool"

definition alloc_bounded :: "allocator \<Rightarrow> bool" where
  "alloc_bounded ok \<longleftrightarrow> (\<forall>n. ok n \<longrightarrow> unat n < 2 ^ 62)"

lemma alloc_boundedD: "alloc_bounded ok \<Longrightarrow> ok n \<Longrightarrow> unat n < 2 ^ 62"
  by (simp add: alloc_bounded_def)

text \<open>
  A buffer that grows by half its size until it holds \<open>m\<close> bytes asks for at most \<open>2 * m + 16\<close>
  bytes; an operation may fail only if one of these requests is refused.
\<close>

definition refuses :: "allocator \<Rightarrow> nat \<Rightarrow> bool" where
  "refuses ok m \<longleftrightarrow> (\<exists>n. \<not> ok n \<and> unat n \<le> 2 * m + 16)"

lemma refuses_mono: "refuses ok m \<Longrightarrow> m \<le> m' \<Longrightarrow> refuses ok m'"
  unfolding refuses_def by (meson add_mono_thms_linordered_semiring(3) mult_le_mono2 order_trans)

lemma not_refuses_mono: "\<not> refuses ok m' \<Longrightarrow> m \<le> m' \<Longrightarrow> \<not> refuses ok m"
  by (blast intro: refuses_mono)

lemma refusesI: "\<not> ok n \<Longrightarrow> unat n \<le> 2 * m + 16 \<Longrightarrow> refuses ok m"
  unfolding refuses_def by blast

text \<open>An allocator that grants every request below one tebibyte.\<close>

definition tib_alloc :: allocator where
  "tib_alloc n \<longleftrightarrow> unat n < 2 ^ 40"

lemma tib_alloc_bounded [simp]: "alloc_bounded tib_alloc"
  by (simp add: alloc_bounded_def tib_alloc_def)

lemma tib_alloc_grants [simp]: "m < 2 ^ 38 \<Longrightarrow> \<not> refuses tib_alloc m"
  by (auto simp: refuses_def tib_alloc_def)

text \<open>The NUL byte that ends a C string; a C string is modelled by its bytes before it.\<close>

abbreviation NUL :: byte where
  "NUL \<equiv> CHR 0x00"

text \<open>Reading \<open>s[i]\<close> of a C string, the terminator included.\<close>

definition cnth :: "bytes \<Rightarrow> nat \<Rightarrow> byte" where
  "cnth s i = (if i < length s then s ! i else NUL)"

definition cstr :: "bytes \<Rightarrow> bytes" where
  "cstr s = takeWhile (\<lambda>c. c \<noteq> NUL) s"

lemma cstr_id: "NUL \<notin> set s \<Longrightarrow> cstr s = s"
  unfolding cstr_def by (induction s) auto

lemma cnth_Cons_0 [simp]: "cnth (c # s) 0 = c"
  by (simp add: cnth_def)

lemma cnth_Nil [simp]: "cnth [] i = NUL"
  by (simp add: cnth_def)

lemma cnth_Cons_Suc [simp]: "cnth (c # s) (Suc i) = cnth s i"
  by (simp add: cnth_def)

text \<open>\<open>strspn\<close> and \<open>strcspn\<close>.\<close>

definition strspn :: "bytes \<Rightarrow> bytes \<Rightarrow> nat" where
  "strspn s accept = length (takeWhile (\<lambda>c. c \<in> set accept) s)"

definition strcspn :: "bytes \<Rightarrow> bytes \<Rightarrow> nat" where
  "strcspn s reject = length (takeWhile (\<lambda>c. c \<notin> set reject) s)"

text \<open>Decimal digits.\<close>

definition is_digit :: "byte \<Rightarrow> bool" where
  "is_digit c \<longleftrightarrow> 48 \<le> (of_char c :: nat) \<and> (of_char c :: nat) \<le> 57"

definition digit_val :: "byte \<Rightarrow> nat" where
  "digit_val c = of_char c - 48"

definition digit_char :: "nat \<Rightarrow> byte" where
  "digit_char d = char_of (48 + d)"

lemma digit_val_le_9: "is_digit c \<Longrightarrow> digit_val c \<le> 9"
  unfolding is_digit_def digit_val_def by linarith

lemma is_digit_digit_char [simp]: "d < 10 \<Longrightarrow> is_digit (digit_char d)"
  by (simp add: is_digit_def digit_char_def)

lemma digit_val_digit_char [simp]: "d < 10 \<Longrightarrow> digit_val (digit_char d) = d"
  by (simp add: digit_val_def digit_char_def)

text \<open>The number a string of digits denotes, and the digits of a number.\<close>

definition dec_value :: "bytes \<Rightarrow> nat" where
  "dec_value ds = foldl (\<lambda>v c. 10 * v + digit_val c) 0 ds"

fun dec_digits :: "nat \<Rightarrow> bytes" where
  "dec_digits n = (if n < 10 then [digit_char n] else dec_digits (n div 10) @ [digit_char (n mod 10)])"

declare dec_digits.simps [simp del]

lemma dec_value_Nil [simp]: "dec_value [] = 0"
  by (simp add: dec_value_def)

lemma dec_value_snoc [simp]: "dec_value (ds @ [c]) = 10 * dec_value ds + digit_val c"
  by (simp add: dec_value_def)

lemma dec_value_dec_digits [simp]: "dec_value (dec_digits n) = n"
proof (induction n rule: dec_digits.induct)
  case (1 n)
  show ?case
  proof (cases "n < 10")
    case True
    then show ?thesis by (subst dec_digits.simps) (simp add: dec_value_def)
  next
    case False
    with 1 show ?thesis by (subst dec_digits.simps) simp
  qed
qed

lemma foldl_dec_ge: "v \<le> foldl (\<lambda>v c. 10 * v + digit_val c) v ds"
proof (induction ds arbitrary: v)
  case (Cons d ds)
  have "v \<le> 10 * v + digit_val d" by simp
  also have "\<dots> \<le> foldl (\<lambda>v c. 10 * v + digit_val c) (10 * v + digit_val d) ds" by (rule Cons)
  finally show ?case by simp
qed simp

lemma length_dec_digits: "n < 10 ^ Suc k \<Longrightarrow> length (dec_digits n) \<le> Suc k"
proof (induction k arbitrary: n)
  case 0
  then show ?case by (subst dec_digits.simps) simp
next
  case (Suc k)
  then have "n div 10 < 10 ^ Suc k" by (simp add: less_mult_imp_div_less)
  then show ?case using Suc.IH [of "n div 10"] by (subst dec_digits.simps) auto
qed

lemma set_dec_digits: "c \<in> set (dec_digits n) \<Longrightarrow> is_digit c"
proof (induction n rule: dec_digits.induct)
  case (1 n)
  then show ?case by (cases "n < 10") (auto simp: dec_digits.simps [of n])
qed

lemma dec_digits_neq_Nil [simp]: "dec_digits n \<noteq> []"
  by (subst dec_digits.simps) simp

text \<open>
  \<open>strtoul\<close> in base 10: white space, an optional sign and digits. The result is the value and
  the rest of the text after the digits; without digits the whole text is the rest.
\<close>

definition c_isspace :: "byte \<Rightarrow> bool" where
  "c_isspace c \<longleftrightarrow> c = CHR '' '' \<or> 9 \<le> (of_char c :: nat) \<and> (of_char c :: nat) \<le> 13"

definition strtoul10 :: "bytes \<Rightarrow> u64 \<times> bytes" where
  "strtoul10 s =
     (let t = dropWhile c_isspace s;
          neg = (t \<noteq> [] \<and> hd t = CHR ''-'');
          u = (if t \<noteq> [] \<and> (hd t = CHR ''-'' \<or> hd t = CHR ''+'') then tl t else t);
          ds = takeWhile is_digit u;
          v = dec_value ds
      in if ds = [] then (0, s)
         else (if v \<ge> 2 ^ 64 then - 1 else if neg then - of_nat v else of_nat v, dropWhile is_digit u))"

text \<open>\<open>strcmp\<close>: only the sign of its result is specified.\<close>

fun strcmp :: "bytes \<Rightarrow> bytes \<Rightarrow> int" where
  "strcmp [] [] = 0"
| "strcmp [] (d # t) = -1"
| "strcmp (c # s) [] = 1"
| "strcmp (c # s) (d # t) =
    (if c = d then strcmp s t else if (of_char c :: nat) < of_char d then -1 else 1)"

lemma strcmp_0: "strcmp s t = 0 \<longleftrightarrow> s = t"
  by (induction s t rule: strcmp.induct) auto

text \<open>Moving \<open>n\<close> elements inside an array.\<close>

definition memmove :: "nat \<Rightarrow> nat \<Rightarrow> nat \<Rightarrow> 'a list \<Rightarrow> 'a list" where
  "memmove dst src n xs = take dst xs @ take n (drop src xs) @ drop (dst + n) xs"

text \<open>The bytes of a number, least significant first, and the number they represent.\<close>

primrec le_bytes :: "nat \<Rightarrow> nat \<Rightarrow> bytes" where
  "le_bytes 0 n = []"
| "le_bytes (Suc k) n = char_of n # le_bytes k (n div 256)"

definition le_value :: "bytes \<Rightarrow> nat" where
  "le_value bs = foldr (\<lambda>b v. of_char b + 256 * v) bs 0"

lemma length_le_bytes [simp]: "length (le_bytes k n) = k"
  by (induction k arbitrary: n) simp_all

lemma le_value_le_bytes: "n < 256 ^ k \<Longrightarrow> le_value (le_bytes k n) = n"
proof (induction k arbitrary: n)
  case (Suc k)
  then have "n div 256 < 256 ^ k" by (simp add: less_mult_imp_div_less mult.commute)
  then show ?case using Suc.IH [of "n div 256"] by (simp add: le_value_def of_char_of mod_mult_div_eq)
qed (simp add: le_value_def)

section \<open>Machine words\<close>

lemma word_minus_take_bit: "w - take_bit n w = w AND NOT (mask n)" for w :: "'a::len word"
proof -
  have "w - take_bit n w = w AND NOT (take_bit n w)"
    by (rule disjunctive_diff_eq_and_not) (rule bit_word_eqI, simp add: bit_simps)
  also have "\<dots> = w AND NOT (mask n)"
    by (rule bit_word_eqI) (auto simp: bit_simps)
  finally show ?thesis .
qed

lemma unat_and_not_mask: "unat (w AND NOT (mask n)) = unat w - unat w mod 2 ^ n"
  for w :: "'a::len word"
proof -
  have t: "unat (take_bit n w) = unat w mod 2 ^ n"
    unfolding unsigned_take_bit_eq by (rule take_bit_eq_mod)
  then have "take_bit n w \<le> w"
    by (simp add: word_le_nat_alt)
  then have "unat (w - take_bit n w) = unat w - unat (take_bit n w)"
    by (rule unat_sub)
  then show ?thesis
    by (simp add: t word_minus_take_bit)
qed

lemma unat_and_mask: "unat (w AND mask n) = unat w mod 2 ^ n" for w :: "'a::len word"
  unfolding take_bit_eq_mask [symmetric] unsigned_take_bit_eq by (rule take_bit_eq_mod)

lemma unat_add_small: "unat a + unat b < 2 ^ LENGTH('a) \<Longrightarrow> unat (a + b) = unat a + unat b"
  for a b :: "'a::len word"
  by (rule unat_add_lem [THEN iffD1])

lemma unat_of_nat_small: "n < 2 ^ LENGTH('a) \<Longrightarrow> unat (of_nat n :: 'a::len word) = n"
  by (simp add: unat_of_nat)

lemma unat_less_exp: "unat w < 2 ^ LENGTH('a)" for w :: "'a::len word"
  by (rule unsigned_less)

lemma unat_mask: "k \<le> LENGTH('a) \<Longrightarrow> unat (mask k :: 'a::len word) = 2 ^ k - 1"
proof -
  assume k: "k \<le> LENGTH('a)"
  have "unat (mask k :: 'a word) = unat (take_bit k (- 1 :: 'a word))"
    by (simp only: take_bit_minus_one_eq_mask)
  also have "\<dots> = take_bit k (mask LENGTH('a))"
    by (simp only: unsigned_take_bit_eq unsigned_minus_1_eq_mask)
  also have "\<dots> = 2 ^ k - 1"
    using k by (simp only: take_bit_of_mask min_absorb1) (rule mask_eq_exp_minus_1)
  finally show ?thesis .
qed

text \<open>Reading an unsigned 32-bit number below \<open>2 ^ 31\<close> as a signed one.\<close>

lemma sint_small: "unat (w :: u32) < 2 ^ 31 \<Longrightarrow> sint w = int (unat w)"
proof -
  assume lt: "unat w < 2 ^ 31"
  define k where "k = unat w"
  have "- (2 ^ 31) \<le> int k \<and> int k < 2 ^ 31" using lt unfolding k_def [symmetric] by simp
  then have "- (2 ^ 31) \<le> int (unat w) \<and> int (unat w) < 2 ^ 31" by (simp only: k_def)
  then have "signed_take_bit 31 (int (unat w)) = int (unat w)"
    unfolding signed_take_bit_int_eq_self_iff .
  then show ?thesis by (simp add: sint_uint)
qed

lemma unat_Suc_small: "Suc (unat w) < 2 ^ 31 \<Longrightarrow> unat (w + 1) = Suc (unat w)" for w :: u32
  by (simp add: unat_word_ariths)

lemma unat_pred_small: "0 < unat w \<Longrightarrow> unat (w - 1) = unat w - 1" for w :: u32
  by (subst unat_minus_one) auto

lemma sint_less_small: "unat v < 2 ^ 31 \<Longrightarrow> unat w < 2 ^ 31 \<Longrightarrow> sint v < sint w \<longleftrightarrow> unat v < unat w"
  for v w :: u32
  by (simp only: sint_small of_nat_less_iff)

lemma sint_pos_small: "unat w < 2 ^ 31 \<Longrightarrow> 0 < sint w \<longleftrightarrow> 0 < unat w" for w :: u32
  by (simp only: sint_small of_nat_0_less_iff)

lemma unat_power2_u32: "k \<le> 31 \<Longrightarrow> unat (2 ^ k :: u32) = 2 ^ k"
proof -
  assume "k \<le> 31"
  then have "(2::nat) ^ k < 2 ^ 32" by (intro power_strict_increasing) auto
  moreover have "(2 ^ k :: u32) = of_nat (2 ^ k)" by simp
  ultimately show ?thesis by (simp only: unat_of_nat) simp
qed

lemma unat_ucast_u32 [simp]: "unat (ucast (w :: u32) :: u64) = unat w"
proof -
  have "unat w < 2 ^ 64" using unat_less_exp [of w] by simp
  then show ?thesis by (simp add: unsigned_ucast_eq take_bit_nat_eq_self)
qed

end
