(* ===== verification/Buf.thy ===== *)
theory Buf
  imports Yans_Prelude "HOL-Library.Monad_Syntax"
begin

unbundle bit_operations_syntax

text \<open>
  The growable memory buffer of \<^verbatim>\<open>lib/util/buf.c\<close> and \<^verbatim>\<open>lib/util/buf.h\<close>. Sizes are
  64-bit words, so the alignment and growth arithmetic wraps as it does in C. Every
  operation that allocates takes the allocator; the value \<^const>\<open>None\<close> stands for
  undefined behaviour (a write outside the allocation), and \<open>Some (st, b)\<close> for a return
  with status \<open>st\<close> and the buffer left in state \<open>b\<close>.
\<close>

section \<open>State\<close>

record buf_t =
  buf_cap :: size_t
  buf_len :: size_t
  buf_data :: "bytes option"

text \<open>\<open>BUF_ALIGNMENT\<close> is \<open>sizeof(long)\<close>.\<close>

definition BUF_ALIGNMENT :: size_t where
  "BUF_ALIGNMENT = 8"

definition buf_align_offset :: "size_t \<Rightarrow> size_t" where
  "buf_align_offset x = (x + (BUF_ALIGNMENT - 1)) AND NOT (BUF_ALIGNMENT - 1)"

section \<open>Operations\<close>

definition buf_init :: "allocator \<Rightarrow> size_t \<Rightarrow> buf_t option" where
  "buf_init ok n =
     (let acap = buf_align_offset n
      in if ok acap
         then Some \<lparr>buf_cap = acap, buf_len = 0, buf_data = Some (replicate (unat acap) NUL)\<rparr>
         else None)"

definition buf_cleanup :: "buf_t \<Rightarrow> buf_t" where
  "buf_cleanup b = \<lparr>buf_cap = 0, buf_len = 0, buf_data = None\<rparr>"

text \<open>The bytes the pointer gives access to: none when it is NULL.\<close>

definition mem :: "buf_t \<Rightarrow> bytes" where
  "mem b = (case buf_data b of None \<Rightarrow> [] | Some d \<Rightarrow> d)"

text \<open>
  \<open>realloc\<close> keeps the bytes up to the smaller of the two sizes; what it returns beyond
  them is unspecified, and is overwritten by the \<open>memset\<close> unless \<open>cap + added\<close> wrapped,
  in which case the \<open>memset\<close> writes outside the new block.
\<close>

definition buf_grow :: "allocator \<Rightarrow> buf_t \<Rightarrow> size_t \<Rightarrow> (status \<times> buf_t) option" where
  "buf_grow ok b needed =
     (let a0 = buf_align_offset (drop_bit 1 (buf_cap b));
          added = (if a0 < needed then buf_align_offset needed else a0);
          ncap = buf_cap b + added
      in if \<not> ok ncap then Some (-1, b)
         else if unat ncap < unat (buf_cap b) + unat added then None
         else Some (0, b\<lparr>buf_cap := ncap,
                         buf_data := Some (take (unat (buf_cap b)) (mem b) @ replicate (unat added) NUL)\<rparr>))"

definition buf_reserve :: "allocator \<Rightarrow> buf_t \<Rightarrow> size_t \<Rightarrow> (status \<times> buf_t) option" where
  "buf_reserve ok b nbytes =
     (let nleft = buf_cap b - buf_len b
      in if nleft < nbytes
         then do { (r, b') \<leftarrow> buf_grow ok b (nbytes - nleft);
                   Some (if r < 0 then -1 else 0, b') }
         else Some (0, b))"

text \<open>\<open>memcpy\<close> of \<open>xs\<close> to offset \<open>off\<close> of the block; outside the block it is undefined.\<close>

definition poke :: "nat \<Rightarrow> 'a list \<Rightarrow> 'a list \<Rightarrow> 'a list option" where
  "poke off xs d =
     (if off + length xs \<le> length d
      then Some (take off d @ xs @ drop (off + length xs) d) else None)"

definition buf_adata :: "allocator \<Rightarrow> buf_t \<Rightarrow> bytes \<Rightarrow> (status \<times> buf_t) option" where
  "buf_adata ok b xs =
     (if xs = [] then Some (0, b)
      else do {
        (r, b') \<leftarrow> buf_reserve ok b (of_nat (length xs));
        if r = 0
        then do { d \<leftarrow> poke (unat (buf_len b')) xs (mem b');
                  Some (r, b'\<lparr>buf_data := Some d, buf_len := buf_len b' + of_nat (length xs)\<rparr>) }
        else Some (r, b')
      })"

definition buf_achar :: "allocator \<Rightarrow> buf_t \<Rightarrow> byte \<Rightarrow> (status \<times> buf_t) option" where
  "buf_achar ok b ch =
     do {
       (r, b') \<leftarrow> buf_reserve ok b 1;
       if r = 0
       then do { d \<leftarrow> poke (unat (buf_len b')) [ch] (mem b');
                 Some (r, b'\<lparr>buf_data := Some d, buf_len := buf_len b' + 1\<rparr>) }
       else Some (r, b')
     }"

definition buf_align :: "allocator \<Rightarrow> buf_t \<Rightarrow> (status \<times> buf_t) option" where
  "buf_align ok b =
     (let noff = buf_align_offset (buf_len b)
      in if buf_cap b \<le> noff
         then do { (r, b') \<leftarrow> buf_grow ok b BUF_ALIGNMENT;
                   Some (if r < 0 then (-1, b') else (0, b'\<lparr>buf_len := noff\<rparr>)) }
         else Some (0, b\<lparr>buf_len := noff\<rparr>))"

text \<open>On success the offset is returned as well; on failure it is left as it was.\<close>

definition buf_alloc :: "allocator \<Rightarrow> buf_t \<Rightarrow> size_t \<Rightarrow> (status \<times> size_t option \<times> buf_t) option" where
  "buf_alloc ok b n =
     (if n = 0 then Some (-1, None, b)
      else do {
        (r, b') \<leftarrow> buf_reserve ok b n;
        let nlen = buf_len b' + n;
        if r \<noteq> 0 then Some (-1, None, b')
        else if nlen < buf_len b' then Some (-1, None, b')
        else Some (0, Some (buf_len b), b'\<lparr>buf_len := nlen\<rparr>)
      })"

definition buf_clear :: "buf_t \<Rightarrow> buf_t" where
  "buf_clear b = b\<lparr>buf_len := 0\<rparr>"

definition buf_shrink :: "buf_t \<Rightarrow> size_t \<Rightarrow> buf_t" where
  "buf_shrink b n = b\<lparr>buf_len := (if buf_len b < n then 0 else buf_len b - n)\<rparr>"

definition buf_truncate :: "buf_t \<Rightarrow> size_t \<Rightarrow> buf_t" where
  "buf_truncate b off = (if off < buf_len b then b\<lparr>buf_len := off\<rparr> else b)"

section \<open>Alignment\<close>

lemma unat_buf_align_offset:
  assumes "unat x < 2 ^ 63"
  shows "unat (buf_align_offset x) = (unat x + 7) - (unat x + 7) mod 8"
proof -
  have m: "BUF_ALIGNMENT - 1 = mask 3"
    by (simp add: BUF_ALIGNMENT_def mask_eq_exp_minus_1)
  have "unat (x + mask 3) = unat x + 7"
    using assms by (subst unat_add_small) (simp_all add: mask_eq_exp_minus_1)
  then show ?thesis
    by (simp add: buf_align_offset_def m unat_and_not_mask)
qed

lemma buf_align_offset_bounds:
  assumes "unat x < 2 ^ 63"
  shows "unat x \<le> unat (buf_align_offset x)"
    and "unat (buf_align_offset x) < unat x + 8"
    and "8 dvd unat (buf_align_offset x)"
proof -
  have div_mult_8: "(k :: nat) - k mod 8 = 8 * (k div 8)" for k
    by (simp add: minus_mod_eq_mult_div)
  show "unat x \<le> unat (buf_align_offset x)" and "unat (buf_align_offset x) < unat x + 8"
    unfolding unat_buf_align_offset [OF assms] by presburger+
  show "8 dvd unat (buf_align_offset x)"
    unfolding unat_buf_align_offset [OF assms] div_mult_8 by simp
qed

section \<open>The contents of a buffer and its invariant\<close>

definition buf_contents :: "buf_t \<Rightarrow> bytes" where
  "buf_contents b = take (unat (buf_len b)) (mem b)"

definition buf_wf :: "allocator \<Rightarrow> buf_t \<Rightarrow> bool" where
  "buf_wf ok b \<longleftrightarrow> alloc_bounded ok \<and> length (mem b) = unat (buf_cap b)
     \<and> buf_len b \<le> buf_cap b \<and> unat (buf_cap b) < 2 ^ 62"

lemma length_buf_contents: "buf_wf ok b \<Longrightarrow> length (buf_contents b) = unat (buf_len b)"
  by (simp add: buf_contents_def buf_wf_def word_le_nat_alt)

text \<open>The buffer of a zeroed struct, as \<open>buf_cleanup\<close> leaves it.\<close>

definition buf_zero :: buf_t where
  "buf_zero = \<lparr>buf_cap = 0, buf_len = 0, buf_data = None\<rparr>"

lemma buf_zero_wf [simp]: "alloc_bounded ok \<Longrightarrow> buf_wf ok buf_zero" "buf_contents buf_zero = []"
  "buf_len buf_zero = 0"
  by (simp_all add: buf_wf_def buf_zero_def mem_def buf_contents_def)

lemma mem_update [simp]: "mem (b\<lparr>buf_data := Some d\<rparr>) = d" "mem (b\<lparr>buf_cap := c\<rparr>) = mem b"
  "mem (b\<lparr>buf_len := n\<rparr>) = mem b"
  by (simp_all add: mem_def)

text \<open>
  Growing never runs into undefined behaviour: the new capacity is \<open>cap + added\<close> without
  wrap-around, holds the old bytes, and has room for the bytes that were needed.
\<close>

lemma buf_grow_cases:
  assumes wf: "buf_wf ok b" and n: "unat needed < 2 ^ 62"
  obtains (refused) n where "\<not> ok n" and "buf_grow ok b needed = Some (-1, b)"
      and "unat n \<le> unat (buf_cap b) + max (unat (buf_cap b) div 2) (unat needed) + 8"
  | (grown) b' where "buf_grow ok b needed = Some (0, b')" and "buf_wf ok b'"
      and "buf_len b' = buf_len b" and "unat (buf_cap b) + unat needed \<le> unat (buf_cap b')"
      and "take (unat (buf_cap b)) (mem b') = mem b"
proof -
  define a0 where "a0 = buf_align_offset (drop_bit 1 (buf_cap b))"
  define added where "added = (if a0 < needed then buf_align_offset needed else a0)"
  define ncap where "ncap = buf_cap b + added"
  have grow: "buf_grow ok b needed =
      (if \<not> ok ncap then Some (-1, b)
       else if unat ncap < unat (buf_cap b) + unat added then None
       else Some (0, b\<lparr>buf_cap := ncap,
              buf_data := Some (take (unat (buf_cap b)) (mem b) @ replicate (unat added) NUL)\<rparr>))"
    by (simp only: buf_grow_def Let_def a0_def added_def ncap_def)
  have cap: "unat (buf_cap b) < 2 ^ 62" and mem: "length (mem b) = unat (buf_cap b)"
    and le: "unat (buf_len b) \<le> unat (buf_cap b)" and bd: "alloc_bounded ok"
    using wf by (auto simp: buf_wf_def word_le_nat_alt)
  have half: "unat (drop_bit 1 (buf_cap b)) = unat (buf_cap b) div 2"
    by (simp add: drop_bit_eq_div unat_div)
  have a0: "unat a0 < unat (buf_cap b) div 2 + 8"
    using buf_align_offset_bounds(2) [of "drop_bit 1 (buf_cap b)"] half cap by (simp add: a0_def)
  have an: "unat (buf_align_offset needed) < unat needed + 8" "unat needed \<le> unat (buf_align_offset needed)"
    using buf_align_offset_bounds [of needed] n by simp_all
  have le_max: "unat added \<le> max (unat (buf_cap b) div 2) (unat needed) + 8"
    using a0 an by (auto simp: added_def)
  have added: "unat added < 2 ^ 62 + 8" "unat needed \<le> unat added"
    using a0 an n cap by (auto simp: added_def word_less_nat_alt)
  have nc: "unat ncap = unat (buf_cap b) + unat added"
    unfolding ncap_def using cap added(1) by (intro unat_add_small) simp
  show ?thesis
  proof (cases "ok ncap")
    case False
    then show ?thesis using nc le_max by (intro refused [of ncap]) (simp_all add: grow)
  next
    case True
    then have "unat ncap < 2 ^ 62" by (rule alloc_boundedD [OF bd])
    with True le mem bd nc added(2) show ?thesis
      by (intro grown [of "b\<lparr>buf_cap := ncap, buf_data := Some (mem b @ replicate (unat added) NUL)\<rparr>"])
        (simp_all add: grow buf_wf_def word_le_nat_alt)
  qed
qed

lemma buf_reserve_cases:
  assumes wf: "buf_wf ok b" and n: "unat n < 2 ^ 62"
  obtains (refused) "refuses ok (unat (buf_len b) + unat n)" and "buf_reserve ok b n = Some (-1, b)"
  | (reserved) b' where "buf_reserve ok b n = Some (0, b')" and "buf_wf ok b'"
      and "buf_len b' = buf_len b" and "unat (buf_len b) + unat n \<le> unat (buf_cap b')"
      and "buf_contents b' = buf_contents b"
proof -
  have le: "buf_len b \<le> buf_cap b" using wf by (simp add: buf_wf_def)
  then have sub: "unat (buf_cap b - buf_len b) = unat (buf_cap b) - unat (buf_len b)"
    by (rule unat_sub)
  show ?thesis
  proof (cases "buf_cap b - buf_len b < n")
    case False
    then have "unat (buf_len b) + unat n \<le> unat (buf_cap b)"
      using le sub by (simp add: word_less_nat_alt word_le_nat_alt)
    with False wf show ?thesis by (intro reserved [of b]) (simp_all add: buf_reserve_def)
  next
    case True
    then have nl: "unat (n - (buf_cap b - buf_len b)) = unat n - (unat (buf_cap b) - unat (buf_len b))"
      using sub by (subst unat_sub) simp_all
    then have small: "unat (n - (buf_cap b - buf_len b)) < 2 ^ 62" using n by linarith
    from wf small show ?thesis
    proof (cases rule: buf_grow_cases)
      case (refused m)
      have "unat (buf_cap b) < unat (buf_len b) + unat n"
        using True le sub by (simp add: word_less_nat_alt word_le_nat_alt)
      moreover have "unat (buf_len b) \<le> unat (buf_cap b)" using le by (simp add: word_le_nat_alt)
      ultimately have "unat m \<le> 2 * (unat (buf_len b) + unat n) + 16"
        using refused(3) unfolding nl max_def by (simp split: if_splits)
      with True refused show ?thesis by (intro that(1) refusesI [of ok m]) (simp_all add: buf_reserve_def)
    next
      case (grown b')
      have "take (unat (buf_len b)) (take (unat (buf_cap b)) (mem b')) = take (unat (buf_len b)) (mem b)"
        using grown(5) by simp
      then have "take (unat (buf_len b)) (mem b') = take (unat (buf_len b)) (mem b)"
        using le by (simp add: word_le_nat_alt min_absorb1)
      with True grown(1-4) nl le show ?thesis
        by (intro reserved [of b']) (simp_all add: buf_reserve_def buf_contents_def word_le_nat_alt)
    qed
  qed
qed

section \<open>Appending\<close>

text \<open>
  The contract of an appending operation: it returns (no undefined behaviour); with status 0
  the contents have grown by exactly the given bytes, with status -1 by a prefix of them, and
  the status is -1 only if the allocator refuses a request that the new size explains.
\<close>

definition appends ::
  "allocator \<Rightarrow> buf_t \<Rightarrow> bytes \<Rightarrow> (status \<times> buf_t) option \<Rightarrow> bool" where
  "appends ok b xs res \<longleftrightarrow>
     (\<exists>r b'. res = Some (r, b') \<and> buf_wf ok b' \<and>
        (r = 0 \<and> buf_contents b' = buf_contents b @ xs \<or>
         r = -1 \<and> refuses ok (length (buf_contents b) + length xs) \<and> (\<exists>ys zs. xs = ys @ zs \<and> buf_contents b' = buf_contents b @ ys)))"

lemma appendsI_ok:
  "res = Some (0, b') \<Longrightarrow> buf_wf ok b' \<Longrightarrow> buf_contents b' = buf_contents b @ xs \<Longrightarrow> appends ok b xs res"
  by (simp add: appends_def)

lemma appendsI_refused:
  "res = Some (-1, b) \<Longrightarrow> buf_wf ok b \<Longrightarrow> refuses ok (unat (buf_len b) + length xs) \<Longrightarrow> appends ok b xs res"
  by (auto simp: appends_def length_buf_contents)

lemma poke_contents:
  assumes "buf_wf ok b" and "unat (buf_len b) + length xs \<le> unat (buf_cap b)"
  obtains d where "poke (unat (buf_len b)) xs (mem b) = Some d"
    and "buf_wf ok (b\<lparr>buf_data := Some d, buf_len := buf_len b + of_nat (length xs)\<rparr>)"
    and "buf_contents (b\<lparr>buf_data := Some d, buf_len := buf_len b + of_nat (length xs)\<rparr>)
           = buf_contents b @ xs"
proof -
  let ?d = "take (unat (buf_len b)) (mem b) @ xs @ drop (unat (buf_len b) + length xs) (mem b)"
  from assms have m: "length (mem b) = unat (buf_cap b)" "unat (buf_cap b) < 2 ^ 62"
    by (auto simp: buf_wf_def)
  have n: "unat (of_nat (length xs) :: size_t) = length xs"
    using assms(2) m(2) by (intro unat_of_nat_small) simp
  have l: "unat (buf_len b + of_nat (length xs)) = unat (buf_len b) + length xs"
    using assms(2) m(2) n by (subst unat_add_small) simp_all
  show ?thesis
  proof (rule that [of ?d])
    show "poke (unat (buf_len b)) xs (mem b) = Some ?d"
      using assms(2) m by (simp add: poke_def)
  qed (use assms m l in \<open>auto simp: buf_wf_def buf_contents_def word_le_nat_alt\<close>)
qed

lemma buf_adata_appends:
  assumes wf: "buf_wf ok b" and n: "length xs < 2 ^ 62"
  shows "appends ok b xs (buf_adata ok b xs)"
proof (cases "xs = []")
  case True
  with wf show ?thesis by (intro appendsI_ok [of _ b]) (simp_all add: buf_adata_def)
next
  case False
  have u: "unat (of_nat (length xs) :: size_t) = length xs"
    using n by (intro unat_of_nat_small) simp
  then have "unat (of_nat (length xs) :: size_t) < 2 ^ 62" using n by simp
  with wf show ?thesis
  proof (cases rule: buf_reserve_cases)
    case refused
    with False wf u show ?thesis by (intro appendsI_refused) (simp_all add: buf_adata_def)
  next
    case (reserved b')
    from reserved(2-4) u obtain d where
        "poke (unat (buf_len b')) xs (mem b') = Some d"
        "buf_wf ok (b'\<lparr>buf_data := Some d, buf_len := buf_len b' + of_nat (length xs)\<rparr>)"
        "buf_contents (b'\<lparr>buf_data := Some d, buf_len := buf_len b' + of_nat (length xs)\<rparr>)
           = buf_contents b' @ xs"
      by (metis poke_contents)
    with False reserved(1,5) show ?thesis by (intro appendsI_ok) (simp_all add: buf_adata_def)
  qed
qed

lemma buf_achar_is_adata: "buf_achar ok b ch = buf_adata ok b [ch]"
  by (cases "buf_reserve ok b 1") (auto simp: buf_achar_def buf_adata_def)

lemma buf_achar_appends: "buf_wf ok b \<Longrightarrow> appends ok b [ch] (buf_achar ok b ch)"
  by (simp add: buf_achar_is_adata buf_adata_appends)

text \<open>While the allocator grants what the new size explains, every append succeeds.\<close>

lemma buf_adata_granted:
  assumes "buf_wf ok b" "length xs < 2 ^ 62" "\<not> refuses ok (length (buf_contents b) + length xs)"
  obtains b' where "buf_adata ok b xs = Some (0, b')" "buf_wf ok b'" "buf_contents b' = buf_contents b @ xs"
  using buf_adata_appends [OF assms(1,2)] assms(3) unfolding appends_def by blast

lemma buf_achar_granted:
  assumes "buf_wf ok b" "\<not> refuses ok (length (buf_contents b) + 1)"
  obtains b' where "buf_achar ok b c = Some (0, b')" "buf_wf ok b'" "buf_contents b' = buf_contents b @ [c]"
  using buf_achar_appends [OF assms(1), of c] assms(2) unfolding appends_def by auto

section \<open>The interface of the clients\<close>

text \<open>
  What the code that writes into a buffer relies on (netstrings, CSV, the textual form of
  port and address ranges): two appending operations that keep the contract. The rules for a
  sequence of appends are proved once here.
\<close>

locale byte_sink =
  fixes wf :: "'b \<Rightarrow> bool"
    and contents :: "'b \<Rightarrow> bytes"
    and fails :: "nat \<Rightarrow> bool"
    and adata :: "'b \<Rightarrow> bytes \<Rightarrow> (status \<times> 'b) option"
    and achar :: "'b \<Rightarrow> byte \<Rightarrow> (status \<times> 'b) option"
    and app :: "'b \<Rightarrow> bytes \<Rightarrow> (status \<times> 'b) option \<Rightarrow> bool"
  assumes app_iff: "app b xs res \<longleftrightarrow>
     (\<exists>r b'. res = Some (r, b') \<and> wf b' \<and>
        (r = 0 \<and> contents b' = contents b @ xs \<or>
         r = -1 \<and> fails (length (contents b) + length xs)
           \<and> (\<exists>ys zs. xs = ys @ zs \<and> contents b' = contents b @ ys)))"
    and fails_mono: "fails m \<Longrightarrow> m \<le> n \<Longrightarrow> fails n"
    and adata_app: "wf b \<Longrightarrow> length xs < 2 ^ 62 \<Longrightarrow> app b xs (adata b xs)"
    and achar_app: "wf b \<Longrightarrow> app b [c] (achar b c)"
begin

lemma app_nil: "wf b \<Longrightarrow> app b [] (Some (0, b))"
  by (simp add: app_iff)

lemma app_bind:
  assumes m: "app b xs m"
    and k: "\<And>b'. wf b' \<Longrightarrow> contents b' = contents b @ xs \<Longrightarrow> app b' ys (k b')"
  shows "app b (xs @ ys)
           (do { (r, b') \<leftarrow> m; if r < 0 then Some (-1, b') else k b' })"
proof -
  from m obtain r b' where m': "m = Some (r, b')" "wf b'"
      "r = 0 \<and> contents b' = contents b @ xs \<or>
       r = -1 \<and> fails (length (contents b) + length xs)
           \<and> (\<exists>ys zs. xs = ys @ zs \<and> contents b' = contents b @ ys)"
    by (auto simp: app_iff)
  from m'(3) show ?thesis
  proof
    assume "r = 0 \<and> contents b' = contents b @ xs"
    with k [of b'] m' have k': "app b' ys (k b')" and c: "contents b' = contents b @ xs" and r: "r = 0"
      by simp_all
    from k' show ?thesis unfolding app_iff c m'(1) r by (force simp: add.assoc)
  next
    assume "r = -1 \<and> fails (length (contents b) + length xs)
           \<and> (\<exists>ys zs. xs = ys @ zs \<and> contents b' = contents b @ ys)"
    with m' fails_mono [of "length (contents b) + length xs" "length (contents b) + length (xs @ ys)"]
    show ?thesis by (fastforce simp: app_iff)
  qed
qed

lemma app_cases:
  assumes "app b xs m"
  obtains (written) b' where "m = Some (0, b')" and "wf b'" and "contents b' = contents b @ xs"
  | (refused) b' ys zs where "m = Some (-1, b')" and "wf b'"
      and "fails (length (contents b) + length xs)" and "xs = ys @ zs"
      and "contents b' = contents b @ ys"
  using assms by (auto simp: app_iff)

end

interpretation bsink: byte_sink "buf_wf ok" buf_contents "refuses ok"
    "buf_adata ok" "buf_achar ok" "appends ok" for ok
  by unfold_locales (simp_all add: appends_def [symmetric] buf_adata_appends buf_achar_appends refuses_mono,
      simp add: appends_def)

section \<open>The other operations\<close>

lemma buf_init_cases:
  assumes "alloc_bounded ok" and "unat n < 2 ^ 63"
  obtains (refused) m where "buf_init ok n = None" "\<not> ok m" "unat m < unat n + 8"
  | (init) b where "buf_init ok n = Some b" "buf_wf ok b" "buf_contents b = []" "unat n \<le> unat (buf_cap b)"
      "8 dvd unat (buf_cap b)"
proof (cases "ok (buf_align_offset n)")
  case True
  with alloc_boundedD [OF assms(1) True] assms buf_align_offset_bounds [OF assms(2)] show thesis
    by (intro init [of "\<lparr>buf_cap = buf_align_offset n, buf_len = 0,
          buf_data = Some (replicate (unat (buf_align_offset n)) NUL)\<rparr>"])
      (simp_all add: buf_init_def Let_def buf_wf_def buf_contents_def mem_def)
next
  case False
  with buf_align_offset_bounds [OF assms(2)] show thesis
    by (intro refused) (simp_all add: buf_init_def Let_def)
qed

lemma buf_clear_wf: "buf_wf ok b \<Longrightarrow> buf_wf ok (buf_clear b)" "buf_contents (buf_clear b) = []"
  by (simp_all add: buf_wf_def buf_clear_def buf_contents_def)

lemma buf_shrink_contents:
  assumes "buf_wf ok b"
  shows "buf_wf ok (buf_shrink b n)"
    and "buf_contents (buf_shrink b n) = take (unat (buf_len b) - unat n) (buf_contents b)"
proof -
  have "unat (buf_len (buf_shrink b n)) = unat (buf_len b) - unat n"
    by (simp add: buf_shrink_def word_less_nat_alt unat_sub word_le_nat_alt)
  with assms show "buf_wf ok (buf_shrink b n)"
      "buf_contents (buf_shrink b n) = take (unat (buf_len b) - unat n) (buf_contents b)"
    by (auto simp: buf_wf_def buf_contents_def buf_shrink_def word_le_nat_alt min_def)
qed

lemma buf_truncate_contents:
  assumes "buf_wf ok b"
  shows "buf_wf ok (buf_truncate b n)" and "buf_contents (buf_truncate b n) = take (unat n) (buf_contents b)"
  using assms by (auto simp: buf_truncate_def buf_wf_def buf_contents_def word_less_nat_alt word_le_nat_alt
      min_absorb1 min_absorb2)

lemma buf_alloc_spec:
  assumes wf: "buf_wf ok b" and n: "unat n < 2 ^ 62" "n \<noteq> 0"
  obtains (refused) "buf_alloc ok b n = Some (-1, None, b)" "refuses ok (unat (buf_len b) + unat n)"
  | (allocated) b' where "buf_alloc ok b n = Some (0, Some (buf_len b), b')" "buf_wf ok b'"
      "unat (buf_len b') = unat (buf_len b) + unat n"
      "take (unat (buf_len b)) (buf_contents b') = buf_contents b"
  using wf n(1)
proof (cases rule: buf_reserve_cases)
  case refused
  with n show ?thesis by (intro that(1)) (simp_all add: buf_alloc_def)
next
  case (reserved b')
  have "unat (buf_len b' + n) = unat (buf_len b) + unat n"
    using reserved(2-4) n(1) unfolding reserved(3) by (intro unat_add_small) (simp add: buf_wf_def)
  moreover from this have "\<not> buf_len b' + n < buf_len b'"
    using reserved(3) by (simp add: word_less_nat_alt)
  ultimately show ?thesis
    using n reserved
    by (intro that(2) [of "b'\<lparr>buf_len := buf_len b' + n\<rparr>"])
      (simp_all add: buf_alloc_def buf_wf_def buf_contents_def word_le_nat_alt min_absorb1)
qed

section \<open>Properties\<close>

text \<open>
  C14. Appending bytes never touches memory outside the buffer. Either the status is 0 and the
  contents are the old contents followed by the bytes, or the status is -1, the buffer is as it
  was, and the allocator refuses a request of at most twice the new size.
\<close>

theorem buf_adata_correct:
  assumes "buf_wf ok b" and "length xs < 2 ^ 62"
  shows "(\<exists>b'. buf_adata ok b xs = Some (0, b') \<and> buf_wf ok b' \<and> buf_contents b' = buf_contents b @ xs)
    \<or> buf_adata ok b xs = Some (-1, b) \<and> refuses ok (length (buf_contents b) + length xs)"
proof (cases "xs = []")
  case True
  with assms show ?thesis by (simp add: buf_adata_def)
next
  case False
  have u: "unat (of_nat (length xs) :: size_t) = length xs"
    using assms(2) by (intro unat_of_nat_small) simp
  from assms u have "unat (of_nat (length xs) :: size_t) < 2 ^ 62" by simp
  with assms(1) show ?thesis
  proof (cases rule: buf_reserve_cases)
    case refused
    with False u assms(1) show ?thesis by (simp add: buf_adata_def length_buf_contents)
  next
    case (reserved b')
    from buf_adata_appends [OF assms] show ?thesis
    proof (cases rule: bsink.app_cases)
      case (refused b'' ys zs)
      with reserved(1) False show ?thesis by (auto simp: buf_adata_def bind_eq_Some_conv)
    qed blast
  qed
qed

theorem buf_adata_correct_witness:
  "(\<exists>b'. buf_adata tib_alloc buf_zero ''yans'' = Some (0, b')
     \<and> buf_contents b' = ''yans'')"
  using buf_adata_correct [of tib_alloc buf_zero "''yans''"]
  by auto

text \<open>
  Reserving space by \<open>buf_alloc\<close> returns the offset of the old end, extends the length by
  exactly the requested number of bytes and keeps what was stored; a request the allocator
  refuses leaves the buffer alone, and a request for no bytes is an error.
\<close>

theorem buf_alloc_correct:
  assumes "buf_wf ok b" and "unat n < 2 ^ 62"
  shows "if n = 0 then buf_alloc ok b n = Some (-1, None, b)
    else buf_alloc ok b n = Some (-1, None, b) \<and> refuses ok (unat (buf_len b) + unat n)
      \<or> (\<exists>b'. buf_alloc ok b n = Some (0, Some (buf_len b), b') \<and> buf_wf ok b'
           \<and> unat (buf_len b') = unat (buf_len b) + unat n
           \<and> take (unat (buf_len b)) (buf_contents b') = buf_contents b)"
proof (cases "n = 0")
  case True
  then show ?thesis by (simp add: buf_alloc_def)
next
  case False
  from assms False show ?thesis by (cases rule: buf_alloc_spec) (use False in auto)
qed

theorem buf_alloc_correct_witness:
  "\<exists>b'. buf_alloc tib_alloc buf_zero 24 = Some (0, Some 0, b')
     \<and> unat (buf_len b') = 24"
  using buf_alloc_correct [of tib_alloc buf_zero 24]
  by auto

end
