(* ===== verification/Netstring.thy ===== *)
theory Netstring
  imports Buf
begin

text \<open>
  Netstrings, \<^verbatim>\<open>lib/util/netstring.c\<close>: the framing of every message the daemons and
  their clients exchange. The parser is the loop of \<open>_netstring_parse\<close> with its three states
  and its 64-bit length accumulator; the encoders write into a \<^typ>\<open>buf_t\<close>; serialisation
  maps the fields of a struct to key/value pairs and back.
\<close>

section \<open>Status codes\<close>

datatype netstring_error = NETSTRING_ERRFMT | NETSTRING_ERRTOOLARGE | NETSTRING_ERRINCOMPLETE
  | NETSTRING_ERRMEM

definition NETSTRING_OK :: status where
  "NETSTRING_OK = 0"

fun netstring_code :: "netstring_error \<Rightarrow> status" where
  "netstring_code NETSTRING_ERRFMT = -1"
| "netstring_code NETSTRING_ERRTOOLARGE = -2"
| "netstring_code NETSTRING_ERRINCOMPLETE = -3"
| "netstring_code NETSTRING_ERRMEM = -4"

definition netstring_strerror :: "status \<Rightarrow> string" where
  "netstring_strerror code =
     (if code = NETSTRING_OK then ''success''
      else if code = netstring_code NETSTRING_ERRFMT then ''netstring format error''
      else if code = netstring_code NETSTRING_ERRTOOLARGE then ''netstring length too large''
      else if code = netstring_code NETSTRING_ERRINCOMPLETE then ''incomplete netstring''
      else if code = netstring_code NETSTRING_ERRMEM then ''netstring memory allocation error''
      else ''unknown netstring error'')"

section \<open>Parsing\<close>

definition NETSTRING_WS :: "byte \<Rightarrow> bool" where
  "NETSTRING_WS c \<longleftrightarrow> c = CHR 0x0D \<or> c = CHR 0x0A \<or> c = CHR 0x09 \<or> c = CHR '' ''"

datatype ns_state = NETSTRING_SWS | NETSTRING_SLEN | NETSTRING_SDATA

text \<open>
  The loop over the source. \<open>rest\<close> is what is left of \<open>src\<close> from index \<open>i\<close> on. The
  fall-through from \<open>NETSTRING_SWS\<close> is the recomputation of the state at the start of the
  body; \<open>i + len\<close> is computed in \<open>size_t\<close> and wraps.
\<close>

fun ns_loop ::
  "bytes \<Rightarrow> nat \<Rightarrow> ns_state \<Rightarrow> size_t \<Rightarrow> bytes \<Rightarrow> netstring_error + nat \<times> size_t" where
  "ns_loop src i S len [] = Inl NETSTRING_ERRINCOMPLETE"
| "ns_loop src i S len (c # rest) =
     (if S = NETSTRING_SWS \<and> NETSTRING_WS c then ns_loop src (Suc i) NETSTRING_SWS len rest
      else if S \<noteq> NETSTRING_SDATA then
        (if is_digit c then
           (let lenbuf = len * 10 + of_nat (digit_val c)
            in if lenbuf < len then Inl NETSTRING_ERRTOOLARGE
               else ns_loop src (Suc i) NETSTRING_SLEN lenbuf rest)
         else if i > 0 \<and> c = CHR '':'' then ns_loop src (Suc i) NETSTRING_SDATA len rest
         else Inl NETSTRING_ERRFMT)
      else
        (let e = of_nat i + len
         in if of_nat (length src) \<le> e then Inl NETSTRING_ERRINCOMPLETE
            else if src ! unat e \<noteq> CHR '','' then Inl NETSTRING_ERRFMT
            else Inr (i, len)))"

definition ns_parse :: "bytes \<Rightarrow> netstring_error + nat \<times> size_t" where
  "ns_parse src = ns_loop src 0 NETSTRING_SWS 0 src"

definition netstring_tryparse :: "bytes \<Rightarrow> netstring_error + size_t" where
  "netstring_tryparse src =
     (case ns_parse src of Inl e \<Rightarrow> Inl e | Inr (off, n) \<Rightarrow> Inr (of_nat off + n + 1))"

text \<open>
  \<open>netstring_parse\<close> also overwrites the terminating comma with a NUL byte. The result is the
  offset of the string in the source and the string; the second component is the source as
  the call leaves it.
\<close>

definition netstring_parse :: "bytes \<Rightarrow> (netstring_error + nat \<times> bytes) \<times> bytes" where
  "netstring_parse src =
     (case ns_parse src of
        Inl e \<Rightarrow> (Inl e, src)
      | Inr (off, n) \<Rightarrow>
          (Inr (off, take (unat n) (drop off src)), src[unat (of_nat off + n) := NUL]))"

definition netstring_next :: "bytes \<Rightarrow> (netstring_error + bytes \<times> bytes) \<times> bytes" where
  "netstring_next src =
     (if src = [] then (Inl NETSTRING_ERRINCOMPLETE, src)
      else case netstring_parse src of
        (Inl e, src') \<Rightarrow> (Inl e, src')
      | (Inr (off, out), src') \<Rightarrow>
          (let next_off = off + length out + 1
           in if next_off > length src then (Inl NETSTRING_ERRINCOMPLETE, src')
              else (Inr (out, drop next_off src'), src')))"

definition netstring_next_pair :: "bytes \<Rightarrow> (netstring_error + (bytes \<times> bytes) \<times> bytes) \<times> bytes" where
  "netstring_next_pair src =
     (if src = [] then (Inl NETSTRING_ERRINCOMPLETE, src)
      else case netstring_parse src of
        (Inl e, src') \<Rightarrow> (Inl e, src')
      | (Inr (koff, key), src') \<Rightarrow>
          (let next_off = koff + length key + 1
           in if next_off \<ge> length src then (Inl NETSTRING_ERRINCOMPLETE, src')
              else case netstring_parse (drop next_off src') of
                (Inl e, src'') \<Rightarrow> (Inl NETSTRING_ERRINCOMPLETE, take next_off src' @ src'')
              | (Inr (voff, val), src'') \<Rightarrow>
                  (Inr ((key, val), drop (voff + length val + 1) src''), take next_off src' @ src'')))"

section \<open>Encoding\<close>

text \<open>
  The do-while loop that writes the digits of the length backwards into \<open>szbuf\<close>, which
  already holds the colon.
\<close>

fun szptr_loop :: "nat \<Rightarrow> bytes \<Rightarrow> bytes" where
  "szptr_loop tmplen szbuf =
     (let szbuf' = digit_char (tmplen mod 10) # szbuf
      in if tmplen div 10 \<noteq> 0 then szptr_loop (tmplen div 10) szbuf' else szbuf')"

declare szptr_loop.simps [simp del]

definition netstring_append_buf :: "allocator \<Rightarrow> buf_t \<Rightarrow> bytes \<Rightarrow> (status \<times> buf_t) option" where
  "netstring_append_buf ok buf str =
     do {
       let oldlen = buf_len buf;
       let fail = (\<lambda>b. (netstring_code NETSTRING_ERRMEM, b\<lparr>buf_len := oldlen\<rparr>));
       (r1, b1) \<leftarrow> buf_adata ok buf (szptr_loop (length str) '':'');
       if r1 < 0 then Some (fail b1)
       else do {
         (r2, b2) \<leftarrow> buf_adata ok b1 str;
         if r2 < 0 then Some (fail b2)
         else do {
           (r3, b3) \<leftarrow> buf_achar ok b2 (CHR '','');
           Some (if r3 < 0 then fail b3 else (NETSTRING_OK, b3))
         }
       }
     }"

fun append_list_loop :: "allocator \<Rightarrow> size_t \<Rightarrow> buf_t \<Rightarrow> bytes list \<Rightarrow> (status \<times> buf_t) option" where
  "append_list_loop ok oldlen b [] = Some (NETSTRING_OK, b)"
| "append_list_loop ok oldlen b (e # es) =
     do {
       (r, b') \<leftarrow> netstring_append_buf ok b e;
       if r \<noteq> NETSTRING_OK then Some (r, b'\<lparr>buf_len := oldlen\<rparr>)
       else append_list_loop ok oldlen b' es
     }"

definition netstring_append_list :: "allocator \<Rightarrow> buf_t \<Rightarrow> bytes list \<Rightarrow> (status \<times> buf_t) option" where
  "netstring_append_list ok buf elems = append_list_loop ok (buf_len buf) buf elems"

definition netstring_append_pair ::
  "allocator \<Rightarrow> buf_t \<Rightarrow> bytes \<Rightarrow> bytes \<Rightarrow> (status \<times> buf_t) option" where
  "netstring_append_pair ok buf str0 str1 =
     do {
       let oldlen = buf_len buf;
       (r, b) \<leftarrow> netstring_append_buf ok buf str0;
       if r \<noteq> NETSTRING_OK then Some (r, b\<lparr>buf_len := oldlen\<rparr>)
       else do {
         (r', b') \<leftarrow> netstring_append_buf ok b str1;
         if r' \<noteq> NETSTRING_OK then Some (r', b'\<lparr>buf_len := oldlen\<rparr>)
         else Some (NETSTRING_OK, b')
       }
     }"

section \<open>Serialisation of structs\<close>

text \<open>
  A \<open>struct netstring_map\<close> entry without its length offset: in the structs the code uses,
  the length of a value lies beside the value. The struct itself is a map from value offset
  to the bytes the pointer stored there denotes (\<^const>\<open>None\<close> is the NULL pointer).
\<close>

record netstring_map =
  ns_key :: bytes
  ns_voff :: nat

type_synonym ns_struct = "nat \<Rightarrow> bytes option"

text \<open>\<open>*value != NULL && **value != '\0'\<close>\<close>

definition ns_present :: "bytes option \<Rightarrow> bool" where
  "ns_present v \<longleftrightarrow> (case v of None \<Rightarrow> False | Some s \<Rightarrow> cnth s 0 \<noteq> NUL)"

fun serialize_loop ::
  "allocator \<Rightarrow> ns_struct \<Rightarrow> netstring_map list \<Rightarrow> buf_t \<Rightarrow> (status \<times> buf_t) option" where
  "serialize_loop ok d [] tmp = Some (NETSTRING_OK, tmp)"
| "serialize_loop ok d (e # es) tmp =
     (if ns_present (d (ns_voff e))
      then do {
        (r, tmp') \<leftarrow> netstring_append_pair ok tmp (ns_key e) (the (d (ns_voff e)));
        if r \<noteq> NETSTRING_OK then Some (r, tmp') else serialize_loop ok d es tmp'
      }
      else serialize_loop ok d es tmp)"

text \<open>
  The result of \<open>buf_init\<close> is not checked: when the allocation of the temporary buffer is
  refused its fields are used uninitialised, which is undefined behaviour.
\<close>

definition netstring_serialize ::
  "allocator \<Rightarrow> ns_struct \<Rightarrow> netstring_map list \<Rightarrow> buf_t \<Rightarrow> (status \<times> buf_t) option" where
  "netstring_serialize ok d m out =
     do {
       tmp \<leftarrow> buf_init ok 1024;
       (r, tmp') \<leftarrow> serialize_loop ok d m tmp;
       if r \<noteq> NETSTRING_OK then Some (r, out)
       else netstring_append_buf ok out (buf_contents tmp')
     }"

text \<open>
  The inner do-while loop visits every entry of the map once, starting at the entry of the
  previous match; \<open>strcmp\<close> compares up to the first NUL byte.
\<close>

fun scan_map :: "netstring_map list \<Rightarrow> bytes \<Rightarrow> nat list \<Rightarrow> nat option" where
  "scan_map m key [] = None"
| "scan_map m key (i # is) =
     (if cstr (ns_key (m ! i)) = cstr key then Some i else scan_map m key is)"

definition visit_order :: "nat \<Rightarrow> nat \<Rightarrow> nat list" where
  "visit_order n mcurr = [mcurr..<n] @ [0..<mcurr]"

lemma ns_loop_off: "ns_loop src i S len rest = Inr (off, n) \<Longrightarrow> i \<le> off \<and> off < i + length rest"
  by (induction src i S len rest rule: ns_loop.induct)
    (fastforce simp: Let_def split: if_splits)+

lemma netstring_next_pair_shorter:
  "netstring_next_pair src = (Inr (kv, rest), src') \<Longrightarrow> length rest < length src"
  by (auto simp: netstring_next_pair_def netstring_parse_def Let_def split: if_splits sum.splits prod.splits)

function pairs_loop ::
  "netstring_map list \<Rightarrow> ns_struct \<Rightarrow> nat \<Rightarrow> bytes \<Rightarrow> ns_struct" where
  "pairs_loop m d mcurr cur =
     (case netstring_next_pair cur of
        (Inl e, cur') \<Rightarrow> d
      | (Inr ((key, val), cur'), _) \<Rightarrow>
          (case scan_map m key (visit_order (length m) mcurr) of
             None \<Rightarrow> pairs_loop m d mcurr cur'
           | Some j \<Rightarrow>
               pairs_loop m (if cnth val 0 \<noteq> NUL then d(ns_voff (m ! j) := Some val) else d) j cur'))"
  by pat_completeness auto
termination
  by (relation "measure (\<lambda>(m, d, mcurr, cur). length cur)")
    (auto dest: netstring_next_pair_shorter [OF sym])

declare pairs_loop.simps [simp del]

text \<open>
  The result is the status, the struct with the fields that were found, and \<open>*left\<close>, which
  is set whenever the outer netstring parses.
\<close>

definition netstring_deserialize ::
  "ns_struct \<Rightarrow> netstring_map list \<Rightarrow> bytes \<Rightarrow> status \<times> ns_struct \<times> size_t option" where
  "netstring_deserialize d m inp =
     (if m = [] then (NETSTRING_OK, d, None)
      else case netstring_parse inp of
        (Inl e, _) \<Rightarrow> (netstring_code e, d, None)
      | (Inr (off, cur), _) \<Rightarrow>
          (NETSTRING_OK, pairs_loop m d 0 cur,
           Some (of_nat (length inp) - of_nat (off + length cur + 1))))"

section \<open>What the parser accepts\<close>

text \<open>
  The overflow check \<open>lenbuf < len\<close> misses some overflows of \<open>len * 10\<close>, but every length
  it lets through after one is at least \<open>2\<^sup>6\<^sup>4 div 10\<close>, which no source of realistic size can
  satisfy.
\<close>

definition ns_limit :: nat where
  "ns_limit = 1844674407370955161"

definition ns_inv :: "ns_state \<Rightarrow> size_t \<Rightarrow> bytes \<Rightarrow> bool" where
  "ns_inv S len pre \<longleftrightarrow>
     (\<exists>ws ds t. pre = ws @ ds @ t \<and> (\<forall>c\<in>set ws. NETSTRING_WS c) \<and> (\<forall>c\<in>set ds. is_digit c)
        \<and> (S = NETSTRING_SWS \<longrightarrow> ds = [] \<and> t = []) \<and> (S = NETSTRING_SLEN \<longrightarrow> t = [])
        \<and> (S = NETSTRING_SDATA \<longrightarrow> t = '':'' \<and> ws @ ds \<noteq> [])
        \<and> (unat len = dec_value ds \<or> ns_limit \<le> unat len))"

lemma ns_inv_ws: "ns_inv NETSTRING_SWS len pre \<Longrightarrow> NETSTRING_WS c \<Longrightarrow> ns_inv NETSTRING_SWS len (pre @ [c])"
  unfolding ns_inv_def by (elim exE, rule_tac x = "pre @ [c]" in exI) auto

lemma ns_inv_headerE:
  assumes "ns_inv S len pre" and "S \<noteq> NETSTRING_SDATA"
  obtains ws ds where "pre = ws @ ds" and "\<forall>c\<in>set ws. NETSTRING_WS c" and "\<forall>c\<in>set ds. is_digit c"
    and "unat len = dec_value ds \<or> ns_limit \<le> unat len"
proof -
  from assms(1) obtain ws ds t where
      p: "pre = ws @ ds @ t" "\<forall>c\<in>set ws. NETSTRING_WS c" "\<forall>c\<in>set ds. is_digit c"
      "S = NETSTRING_SWS \<longrightarrow> ds = [] \<and> t = []" "S = NETSTRING_SLEN \<longrightarrow> t = []"
      "unat len = dec_value ds \<or> ns_limit \<le> unat len"
    unfolding ns_inv_def by blast
  moreover have "t = []" using p(4,5) assms(2) by (cases S) simp_all
  ultimately show thesis using that [of ws ds] by simp
qed

lemma ns_inv_colon:
  assumes "ns_inv S len pre" and "S \<noteq> NETSTRING_SDATA" and "pre \<noteq> []"
  shows "ns_inv NETSTRING_SDATA len (pre @ '':'')"
proof -
  from assms(1,2) obtain ws ds where
      "pre = ws @ ds" "\<forall>c\<in>set ws. NETSTRING_WS c" "\<forall>c\<in>set ds. is_digit c"
      "unat len = dec_value ds \<or> ns_limit \<le> unat len"
    by (rule ns_inv_headerE)
  with assms(3) show ?thesis
    unfolding ns_inv_def by (intro exI [of _ ws] exI [of _ ds] exI [of _ "'':''"]) simp
qed

lemma ns_inv_digit:
  assumes inv: "ns_inv S len pre" and S: "S \<noteq> NETSTRING_SDATA" and c: "is_digit c"
    and no: "\<not> len * 10 + of_nat (digit_val c) < len"
  shows "ns_inv NETSTRING_SLEN (len * 10 + of_nat (digit_val c)) (pre @ [c])"
proof -
  from inv S obtain ws ds where
      p: "pre = ws @ ds" "\<forall>c\<in>set ws. NETSTRING_WS c" "\<forall>c\<in>set ds. is_digit c"
      and l: "unat len = dec_value ds \<or> ns_limit \<le> unat len"
    by (rule ns_inv_headerE)
  have d: "digit_val c \<le> 9" using c by (rule digit_val_le_9)
  have "unat (len * 10 + of_nat (digit_val c)) = dec_value (ds @ [c]) \<or>
        ns_limit \<le> unat (len * 10 + of_nat (digit_val c))"
  proof (cases "ns_limit \<le> unat len")
    case True
    with no show ?thesis by (simp add: word_less_nat_alt)
  next
    case False
    then have "unat (len * 10) = unat len * 10"
      by (subst unat_mult_lem [THEN iffD1]) (simp_all add: ns_limit_def)
    moreover have "unat (of_nat (digit_val c) :: size_t) = digit_val c"
      using d by (intro unat_of_nat_small) simp
    ultimately have "unat (len * 10 + of_nat (digit_val c)) = unat len * 10 + digit_val c"
      using False d by (subst unat_add_small) (simp_all add: ns_limit_def)
    with False l show ?thesis by simp
  qed
  with p c show ?thesis
    unfolding ns_inv_def by (intro exI [of _ ws] exI [of _ "ds @ [c]"] exI [of _ "[]"]) auto
qed

lemma comma_not_header [simp]: "\<not> NETSTRING_WS CHR '',''" "\<not> is_digit CHR '',''"
  by (simp_all add: NETSTRING_WS_def is_digit_def)

lemma ns_inv_no_comma:
  assumes "ns_inv S len pre" shows "CHR '','' \<notin> set pre"
proof -
  from assms obtain ws ds t where "pre = ws @ ds @ t" "\<forall>c\<in>set ws. NETSTRING_WS c"
      "\<forall>c\<in>set ds. is_digit c" "t = [] \<or> t = '':''"
    unfolding ns_inv_def by (cases S) blast+
  then show ?thesis using comma_not_header by auto
qed

text \<open>The last step: the comma is where the length says, without wrap-around of \<open>i + len\<close>.\<close>

lemma ns_data_step:
  assumes inv: "ns_inv NETSTRING_SDATA len pre" and src: "src = pre @ rest" "length src < 2 ^ 64"
    and e: "of_nat (length pre) + len < (of_nat (length src) :: size_t)"
    and comma: "src ! unat (of_nat (length pre) + len :: size_t) = CHR '','' "
  shows "length pre + unat len < length src" and "src ! (length pre + unat len) = CHR '','' "
proof -
  have u2: "unat (of_nat (length src) :: size_t) = length src"
    using src(2) by (intro unat_of_nat_small) simp
  have u1: "unat (of_nat (length pre) :: size_t) = length pre"
    using src by (intro unat_of_nat_small) simp
  note u = u1 u2
  have nowrap: "length pre + unat len < 2 ^ 64"
  proof (rule ccontr)
    assume "\<not> length pre + unat len < 2 ^ 64"
    moreover have "unat len < 2 ^ 64" using unsigned_less [of len] by simp
    ultimately have "unat (of_nat (length pre) + len :: size_t) < length pre"
      using u by (simp add: unat_plus_if')
    then have "src ! unat (of_nat (length pre) + len :: size_t) \<in> set pre"
      using src by (simp add: nth_append)
    with comma ns_inv_no_comma [OF inv] show False by simp
  qed
  then have s: "unat (of_nat (length pre) + len :: size_t) = length pre + unat len"
    using u by (subst unat_add_small) simp_all
  with e comma u show "length pre + unat len < length src" "src ! (length pre + unat len) = CHR '','' "
    by (simp_all add: word_less_nat_alt)
qed

definition netstring_at :: "bytes \<Rightarrow> nat \<Rightarrow> nat \<Rightarrow> bool" where
  "netstring_at src off n \<longleftrightarrow>
     (\<exists>ws ds rest. src = ws @ ds @ '':'' @ take n (drop off src) @ '','' @ rest
        \<and> (\<forall>c\<in>set ws. NETSTRING_WS c) \<and> (\<forall>c\<in>set ds. is_digit c) \<and> ws @ ds \<noteq> []
        \<and> off = length (ws @ ds) + 1 \<and> dec_value ds = n)"

lemma ns_loop_sound:
  assumes "ns_loop src i S len rest = Inr (off, n)"
    and "src = pre @ rest" and "i = length pre" and "ns_inv S len pre" and "length src < ns_limit"
  shows "netstring_at src off (unat n)"
  using assms
proof (induction src i S len rest arbitrary: pre rule: ns_loop.induct)
  case (1 src i S len)
  then show ?case by simp
next
  case (2 src i S len c rest)
  note inv = \<open>ns_inv S len pre\<close> and src = \<open>src = pre @ c # rest\<close>
  consider (ws) "S = NETSTRING_SWS" "NETSTRING_WS c"
    | (digit) "\<not> (S = NETSTRING_SWS \<and> NETSTRING_WS c)" "S \<noteq> NETSTRING_SDATA" "is_digit c"
    | (other) "\<not> (S = NETSTRING_SWS \<and> NETSTRING_WS c)" "S \<noteq> NETSTRING_SDATA" "\<not> is_digit c"
    | (data) "S = NETSTRING_SDATA"
    by blast
  then show ?case
  proof cases
    case ws
    with 2(4) have l: "ns_loop src (Suc i) NETSTRING_SWS len rest = Inr (off, n)" by simp
    show ?thesis
      by (rule 2(1) [OF _ l, where pre = "pre @ [c]"])
        (use ws src inv 2(6,8) in \<open>simp_all add: ns_inv_ws\<close>)
  next
    case digit
    let ?l = "len * 10 + of_nat (digit_val c)"
    from digit 2(4) have no: "\<not> ?l < len" and l: "ns_loop src (Suc i) NETSTRING_SLEN ?l rest = Inr (off, n)"
      by (simp_all add: Let_def split: if_splits)
    show ?thesis
      by (rule 2(2) [OF digit refl no l, where pre = "pre @ [c]"])
        (use src ns_inv_digit [OF inv digit(2,3) no] 2(6,8) in simp_all)
  next
    case other
    with 2(4) have c: "0 < i \<and> c = CHR '':''"
        and l: "ns_loop src (Suc i) NETSTRING_SDATA len rest = Inr (off, n)"
      by (simp_all split: if_splits)
    from c 2(6) have "pre \<noteq> []" by auto
    then have "ns_inv NETSTRING_SDATA len (pre @ [c])"
      using c ns_inv_colon [OF inv other(2)] by simp
    then show ?thesis
      by (intro 2(3) [OF other c l, where pre = "pre @ [c]"]) (use src 2(6,8) in simp_all)
  next
    case data
    with 2(4,6) have r: "off = length pre" "n = len"
        and e: "of_nat (length pre) + len < (of_nat (length src) :: size_t)"
        and comma: "src ! unat (of_nat (length pre) + len :: size_t) = CHR '','' "
      by (auto simp: Let_def not_le split: if_splits)
    have lt: "length src < 2 ^ 64" using \<open>length src < ns_limit\<close> by (simp add: ns_limit_def)
    note e' = ns_data_step [OF inv [unfolded data] src lt e comma]
    from inv data obtain ws ds where p: "pre = ws @ ds @ '':''" "\<forall>c\<in>set ws. NETSTRING_WS c"
        "\<forall>c\<in>set ds. is_digit c" "ws @ ds \<noteq> []" "unat len = dec_value ds \<or> ns_limit \<le> unat len"
      by (auto simp: ns_inv_def)
    have "drop (length pre) src = take (unat len) (drop (length pre) src) @ '','' @ drop (length pre + unat len + 1) src"
      using e' id_take_nth_drop [of "unat len" "drop (length pre) src"] by (simp add: add.commute)
    then have "src = pre @ take (unat len) (drop (length pre) src) @ '','' @ drop (length pre + unat len + 1) src"
      using src by (metis append_eq_conv_conj)
    moreover have "dec_value ds = unat len"
      using p(5) e'(1) \<open>length src < ns_limit\<close> by linarith
    moreover have "length pre = length (ws @ ds) + 1" by (simp add: p(1))
    ultimately show ?thesis
      using p(2-4) unfolding netstring_at_def r
      by (intro exI [of _ ws] exI [of _ ds] exI [of _ "drop (length pre + unat len + 1) src"])
        (simp only: p(1) append_assoc simp_thms)
  qed
qed

lemma ns_parse_sound:
  assumes "ns_parse src = Inr (off, n)" and "length src < ns_limit"
  shows "netstring_at src off (unat n)"
proof (rule ns_loop_sound)
  show "ns_loop src 0 NETSTRING_SWS 0 src = Inr (off, n)" using assms(1) by (simp add: ns_parse_def)
qed (use assms(2) in \<open>auto simp: ns_inv_def\<close>)

section \<open>What the encoders write\<close>

text \<open>The netstring of \<open>s\<close>, as an abstract specification.\<close>

definition netstring_of :: "bytes \<Rightarrow> bytes" where
  "netstring_of s = dec_digits (length s) @ '':'' @ s @ '',''"

lemma szptr_loop_digits: "szptr_loop n szbuf = dec_digits n @ szbuf"
proof (induction n arbitrary: szbuf rule: less_induct)
  case (less n)
  show ?case
  proof (cases "n < 10")
    case True
    then show ?thesis by (simp add: szptr_loop.simps [of n] dec_digits.simps [of n])
  next
    case False
    then show ?thesis
      using less.IH [of "n div 10"] by (simp add: szptr_loop.simps [of n] dec_digits.simps [of n] Let_def)
  qed
qed

text \<open>The 48 bytes of \<open>szbuf\<close> are enough for every length.\<close>

lemma szptr_loop_fits: "n < 2 ^ 64 \<Longrightarrow> length (szptr_loop n '':'') \<le> 48"
  using length_dec_digits [of n 19] by (simp add: szptr_loop_digits)

lemma netstring_of_split: "netstring_of s = szptr_loop (length s) '':'' @ s @ '',''"
  by (simp add: netstring_of_def szptr_loop_digits)

text \<open>
  The contract of the netstring writers: all or nothing, and a failure only when the allocator
  refuses a request.
\<close>

definition ns_writes :: "allocator \<Rightarrow> buf_t \<Rightarrow> bytes \<Rightarrow> (status \<times> buf_t) option \<Rightarrow> bool" where
  "ns_writes ok b xs res \<longleftrightarrow>
     (\<exists>r b'. res = Some (r, b') \<and> buf_wf ok b' \<and>
        (r = NETSTRING_OK \<and> buf_contents b' = buf_contents b @ xs \<or>
         r = netstring_code NETSTRING_ERRMEM \<and> refuses ok (length (buf_contents b) + length xs)
           \<and> buf_contents b' = buf_contents b))"

lemma rollback:
  assumes "buf_wf ok b" and "buf_wf ok b'" and "buf_contents b' = buf_contents b @ ys"
  shows "buf_wf ok (b'\<lparr>buf_len := buf_len b\<rparr>)"
    and "buf_contents (b'\<lparr>buf_len := buf_len b\<rparr>) = buf_contents b"
proof -
  from assms have l: "unat (buf_len b) + length ys = unat (buf_len b')"
    by (metis length_append length_buf_contents)
  with assms(2) show "buf_wf ok (b'\<lparr>buf_len := buf_len b\<rparr>)"
    by (simp add: buf_wf_def word_le_nat_alt)
  have "take (unat (buf_len b)) (mem b') = take (unat (buf_len b)) (buf_contents b')"
    using l by (simp add: buf_contents_def min_absorb1)
  also have "\<dots> = buf_contents b"
    using assms by (simp add: length_buf_contents)
  finally show "buf_contents (b'\<lparr>buf_len := buf_len b\<rparr>) = buf_contents b"
    by (simp add: buf_contents_def)
qed

lemma ns_writes_ok: "res = Some (NETSTRING_OK, b') \<Longrightarrow> buf_wf ok b' \<Longrightarrow>
    buf_contents b' = buf_contents b @ xs \<Longrightarrow> ns_writes ok b xs res"
  by (simp add: ns_writes_def)

lemma ns_writes_mem:
  assumes "res = Some (netstring_code NETSTRING_ERRMEM, b'\<lparr>buf_len := buf_len b\<rparr>)"
    and "buf_wf ok b" and "buf_wf ok b'" and "buf_contents b' = buf_contents b @ ys"
    and "refuses ok m" and "m \<le> length (buf_contents b) + length xs"
  shows "ns_writes ok b xs res"
  using assms(1) refuses_mono [OF assms(5,6)] rollback [OF assms(2-4)] by (simp add: ns_writes_def)

lemma ns_writes_cases:
  assumes "ns_writes ok b xs res"
  obtains (written) b' where "res = Some (NETSTRING_OK, b')" "buf_wf ok b'" "buf_contents b' = buf_contents b @ xs"
  | (refused) b' where "res = Some (netstring_code NETSTRING_ERRMEM, b')" "buf_wf ok b'"
      "refuses ok (length (buf_contents b) + length xs)" "buf_contents b' = buf_contents b"
  using assms unfolding ns_writes_def by blast

lemma netstring_append_buf_writes:
  assumes wf: "buf_wf ok b" and n: "length str < 2 ^ 62"
  shows "ns_writes ok b (netstring_of str) (netstring_append_buf ok b str)"
proof -
  have dl: "length (szptr_loop (length str) '':'') < 2 ^ 62"
    using szptr_loop_fits [of "length str"] n by simp
  note mem = ns_writes_mem [where b = b and xs = "netstring_of str"]
  have "length (netstring_of str) = length (szptr_loop (length str) '':'') + length str + 1"
    by (simp add: netstring_of_split)
  note len = this
  from buf_adata_appends [OF wf dl] show ?thesis
  proof (cases rule: bsink.app_cases)
    case (refused b1 ys zs)
    with wf len show ?thesis by (intro mem [of _ b1]) (auto simp: netstring_append_buf_def)
  next
    case b1: (written b1)
    from buf_adata_appends [OF b1(2) n] show ?thesis
    proof (cases rule: bsink.app_cases)
      case (refused b2 ys zs)
      with wf b1 len show ?thesis by (intro mem [of _ b2]) (auto simp: netstring_append_buf_def)
    next
      case b2: (written b2)
      from buf_achar_appends [OF b2(2), of "CHR '',''"] show ?thesis
      proof (cases rule: bsink.app_cases)
        case (refused b3 ys zs)
        then have "length ys + length zs = 1" by (metis length_append length_Cons list.size(3) One_nat_def)
        with wf b1 b2 len refused show ?thesis
          by (intro mem [of _ b3]) (auto simp: netstring_append_buf_def)
      next
        case (written b3)
        with b1 b2 show ?thesis
          by (intro ns_writes_ok [of _ b3]) (simp_all add: netstring_append_buf_def netstring_of_split)
      qed
    qed
  qed
qed

lemma append_list_loop_writes:
  assumes "buf_wf ok b0" and "buf_wf ok b" and "\<forall>e\<in>set es. length e < 2 ^ 62"
    and "buf_contents b = buf_contents b0 @ pre"
  shows "ns_writes ok b0 (pre @ concat (map netstring_of es)) (append_list_loop ok (buf_len b0) b es)"
  using assms(2-)
proof (induction es arbitrary: b pre)
  case Nil
  then show ?case by (intro ns_writes_ok [of _ b]) simp_all
next
  case (Cons e es)
  from Cons.prems have "ns_writes ok b (netstring_of e) (netstring_append_buf ok b e)"
    by (intro netstring_append_buf_writes) simp_all
  then show ?case
  proof (cases rule: ns_writes_cases)
    case (written b')
    with Cons.prems Cons.IH [of b' "pre @ netstring_of e"] show ?thesis by simp
  next
    case (refused b')
    with Cons.prems show ?thesis
      by (intro ns_writes_mem [OF _ assms(1), of _ b' pre]) (auto simp: NETSTRING_OK_def)
  qed
qed

lemma netstring_append_list_writes:
  "buf_wf ok b \<Longrightarrow> \<forall>e\<in>set es. length e < 2 ^ 62 \<Longrightarrow>
     ns_writes ok b (concat (map netstring_of es)) (netstring_append_list ok b es)"
  using append_list_loop_writes [of ok b b es "[]"] by (simp add: netstring_append_list_def)

lemma netstring_append_pair_writes:
  assumes "buf_wf ok b" and "length k < 2 ^ 62" and "length v < 2 ^ 62"
  shows "ns_writes ok b (netstring_of k @ netstring_of v) (netstring_append_pair ok b k v)"
proof -
  have "netstring_append_pair ok b k v = netstring_append_list ok b [k, v]"
    unfolding netstring_append_pair_def netstring_append_list_def by (simp add: Let_def cong: if_cong)
  with netstring_append_list_writes [of ok b "[k, v]"] assms show ?thesis by simp
qed

section \<open>Round trips\<close>

lemma digit_not_ws: "is_digit c \<Longrightarrow> \<not> NETSTRING_WS c"
  by (auto simp: is_digit_def NETSTRING_WS_def)

lemma ns_loop_digits:
  assumes "\<forall>c\<in>set ds. is_digit c" and "S \<noteq> NETSTRING_SDATA"
    and "foldl (\<lambda>v c. 10 * v + digit_val c) v ds < ns_limit"
  shows "ns_loop src i S (of_nat v) (ds @ rest) =
    ns_loop src (i + length ds) (if ds = [] then S else NETSTRING_SLEN)
      (of_nat (foldl (\<lambda>v c. 10 * v + digit_val c) v ds)) rest"
  using assms
proof (induction ds arbitrary: v i S)
  case Nil
  then show ?case by simp
next
  case (Cons d ds)
  let ?v = "10 * v + digit_val d"
  from Cons.prems have d: "is_digit d" by simp
  have "?v \<le> foldl (\<lambda>v c. 10 * v + digit_val c) ?v ds" by (rule foldl_dec_ge)
  with Cons.prems(3) have lt: "?v < 2 ^ 64" by (simp add: ns_limit_def)
  have w: "of_nat v * 10 + of_nat (digit_val d) = (of_nat ?v :: size_t)" by simp
  have "\<not> (of_nat ?v :: size_t) < of_nat v"
    using lt by (simp add: word_less_nat_alt unat_of_nat_small del: of_nat_add of_nat_mult)
  with d Cons.prems(2) have
    "ns_loop src i S (of_nat v) ((d # ds) @ rest) = ns_loop src (Suc i) NETSTRING_SLEN (of_nat ?v) (ds @ rest)"
    by (simp add: Let_def w digit_not_ws del: of_nat_add of_nat_mult)
  also have "\<dots> = ns_loop src (Suc i + length ds) (if ds = [] then NETSTRING_SLEN else NETSTRING_SLEN)
      (of_nat (foldl (\<lambda>v c. 10 * v + digit_val c) ?v ds)) rest"
    using Cons.prems by (intro Cons.IH) simp_all
  finally show ?case by simp
qed

lemma ns_parse_encoded:
  assumes "length (netstring_of s @ rest) < ns_limit"
  shows "ns_parse (netstring_of s @ rest) = Inr (length (dec_digits (length s)) + 1, of_nat (length s))"
proof -
  let ?ds = "dec_digits (length s)" and ?src = "netstring_of s @ rest"
  let ?off = "length ?ds + 1"
  have v: "foldl (\<lambda>v c. 10 * v + digit_val c) 0 ?ds = length s"
    using dec_value_dec_digits [of "length s"] by (simp only: dec_value_def)
  have "length s < ns_limit" using assms by (simp add: netstring_of_def)
  then have "ns_parse ?src = ns_loop ?src (length ?ds) NETSTRING_SLEN (of_nat (length s)) ('':'' @ s @ '','' @ rest)"
    using ns_loop_digits [of ?ds NETSTRING_SWS 0 ?src 0 "'':'' @ s @ '','' @ rest"] set_dec_digits
    by (simp add: ns_parse_def netstring_of_def v)
  also have "\<dots> = ns_loop ?src ?off NETSTRING_SDATA (of_nat (length s)) (s @ '','' @ rest)"
    by (simp add: is_digit_def)
  also have "\<dots> = Inr (?off, of_nat (length s))"
  proof -
    have lt: "?off + length s < length ?src" "length ?src < 2 ^ 64"
      using assms by (simp_all add: netstring_of_def ns_limit_def)
    then have e: "of_nat ?off + of_nat (length s) < (of_nat (length ?src) :: size_t)"
        "unat (of_nat ?off + of_nat (length s) :: size_t) = ?off + length s"
      by (simp_all add: word_less_nat_alt unat_of_nat_small flip: of_nat_add del: of_nat_Suc)
    moreover have "?src ! (?off + length s) = CHR '','' "
      by (simp add: netstring_of_def nth_append)
    ultimately show ?thesis
      by (cases s) (simp_all add: Let_def not_le [symmetric])
  qed
  finally show ?thesis .
qed

text \<open>A netstring that is cut off is incomplete.\<close>

lemma ns_parse_cut_off:
  assumes cut: "xs @ ys = netstring_of s" "ys \<noteq> []" and small: "length (netstring_of s) < ns_limit"
  shows "ns_parse xs = Inl NETSTRING_ERRINCOMPLETE"
proof -
  let ?ds = "dec_digits (length s)"
  have v: "foldl (\<lambda>v c. 10 * v + digit_val c) 0 ?ds = length s"
    using dec_value_dec_digits [of "length s"] by (simp add: dec_value_def)
  have ls: "length s < ns_limit" using small by (simp add: netstring_of_def)
  have lim: "ns_limit < 2 ^ 62" by (simp add: ns_limit_def)
  show ?thesis
  proof (cases "length xs \<le> length ?ds")
    case True
    then obtain zs where zs: "?ds = xs @ zs"
      using cut(1) by (metis append_eq_append_conv_if append_eq_conv_conj netstring_of_def append_take_drop_id)
    then have "foldl (\<lambda>v c. 10 * v + digit_val c) 0 xs \<le> length s" using v foldl_dec_ge by (metis foldl_append)
    moreover have "\<forall>c\<in>set xs. is_digit c" using set_dec_digits [of _ "length s"] zs by simp
    ultimately show ?thesis
      using ns_loop_digits [of xs NETSTRING_SWS 0 xs 0 "[]"] ls by (simp add: ns_parse_def)
  next
    case False
    from cut(1) obtain us where "xs = ?ds @ us \<and> us @ ys = '':'' @ s @ '','' \<or> xs @ us = ?ds"
      unfolding netstring_of_def append_eq_append_conv2 by blast
    then have us: "xs = ?ds @ us" "us @ ys = '':'' @ s @ '',''" "us \<noteq> []"
      using False by (auto dest: arg_cong [of _ _ length])
    then obtain t where t: "xs = ?ds @ '':'' @ t" "t @ ys = s @ '',''" by (cases us) auto
    have lt: "length t \<le> length s" using t(2) cut(2) by (metis length_append length_append_singleton length_greater_0_conv less_Suc_eq_le less_add_same_cancel1)
    have "ns_parse xs = ns_loop xs (length ?ds) NETSTRING_SLEN (of_nat (length s)) (CHR '':'' # t)"
      using ns_loop_digits [of ?ds NETSTRING_SWS 0 xs 0 "'':'' @ t"] v ls set_dec_digits
      by (simp add: ns_parse_def t(1))
    also have "\<dots> = ns_loop xs (Suc (length ?ds)) NETSTRING_SDATA (of_nat (length s)) t"
      by (simp add: is_digit_def)
    also have "\<dots> = Inl NETSTRING_ERRINCOMPLETE"
    proof (cases t)
      case (Cons c t')
      have u: "unat (of_nat n :: size_t) = n" if "n < ns_limit" for n using that lim by (intro unat_of_nat_small) simp
      have le: "length xs \<le> Suc (length ?ds) + length s" "Suc (length ?ds) + length s < ns_limit"
        using small lt by (simp_all add: netstring_of_def t(1))
      then have "unat (of_nat (length xs) :: size_t) \<le> unat (of_nat (Suc (length ?ds) + length s) :: size_t)"
        by (subst (1 2) u) simp_all
      then have "(of_nat (length xs) :: size_t) \<le> of_nat (Suc (length ?ds)) + of_nat (length s)"
        by (simp only: word_le_nat_alt of_nat_add)
      then show ?thesis by (simp add: Cons del: of_nat_Suc)
    qed simp
    finally show ?thesis .
  qed
qed

lemma netstring_parse_encoded:
  assumes "length (netstring_of s @ rest) < ns_limit"
  shows "netstring_parse (netstring_of s @ rest) =
    (Inr (length (dec_digits (length s)) + 1, s),
     dec_digits (length s) @ '':'' @ s @ [NUL] @ rest)"
proof -
  let ?off = "length (dec_digits (length s)) + 1"
  have lt: "?off + length s < 2 ^ 64"
    using assms by (simp add: netstring_of_def ns_limit_def)
  then have "unat (of_nat (length s) :: size_t) = length s"
    by (intro unat_of_nat_small) simp
  moreover have "unat (of_nat ?off + of_nat (length s) :: size_t) = ?off + length s"
    using lt by (simp add: unat_of_nat_small flip: of_nat_add del: of_nat_Suc)
  ultimately show ?thesis
    using ns_parse_encoded [OF assms]
    by (simp add: netstring_parse_def netstring_of_def list_update_append)
qed

lemma netstring_next_encoded:
  assumes "length (netstring_of s @ rest) < ns_limit"
  shows "fst (netstring_next (netstring_of s @ rest)) = Inr (s, rest)"
  using netstring_parse_encoded [OF assms] by (simp add: netstring_next_def netstring_of_def)

lemma netstring_next_pair_encoded:
  assumes "length (netstring_of k @ netstring_of v @ rest) < ns_limit"
  shows "fst (netstring_next_pair (netstring_of k @ netstring_of v @ rest)) = Inr ((k, v), rest)"
proof -
  have "netstring_parse (netstring_of k @ netstring_of v @ rest) =
    (Inr (length (dec_digits (length k)) + 1, k),
     dec_digits (length k) @ '':'' @ k @ [NUL] @ netstring_of v @ rest)"
    using assms by (rule netstring_parse_encoded)
  moreover have "netstring_parse (netstring_of v @ rest) =
    (Inr (length (dec_digits (length v)) + 1, v), dec_digits (length v) @ '':'' @ v @ [NUL] @ rest)"
    using assms by (intro netstring_parse_encoded) simp
  moreover have "netstring_of v \<noteq> []" by (simp add: netstring_of_def)
  ultimately show ?thesis
    by (simp add: netstring_next_pair_def netstring_of_def [of k] Let_def)
qed

subsection \<open>Structs\<close>

definition pair_of :: "ns_struct \<Rightarrow> netstring_map \<Rightarrow> bytes" where
  "pair_of d e = (if ns_present (d (ns_voff e)) then netstring_of (ns_key e) @ netstring_of (the (d (ns_voff e))) else [])"

definition pairs_of :: "ns_struct \<Rightarrow> netstring_map list \<Rightarrow> bytes" where
  "pairs_of d m = concat (map (pair_of d) m)"

lemma pairs_of_simps [simp]: "pairs_of d [] = []" "pairs_of d (e # es) = pair_of d e @ pairs_of d es"
  by (simp_all add: pairs_of_def)

definition field_small :: "ns_struct \<Rightarrow> netstring_map \<Rightarrow> bool" where
  "field_small d e \<longleftrightarrow> length (ns_key e) < 2 ^ 62 \<and> (\<forall>v. d (ns_voff e) = Some v \<longrightarrow> length v < 2 ^ 62)"

lemma serialize_loop_writes:
  assumes "buf_wf ok tmp" and "\<forall>e\<in>set m. field_small d e"
  obtains (written) tmp' where "serialize_loop ok d m tmp = Some (NETSTRING_OK, tmp')" "buf_wf ok tmp'"
      "buf_contents tmp' = buf_contents tmp @ pairs_of d m"
  | (refused) tmp' where "serialize_loop ok d m tmp = Some (netstring_code NETSTRING_ERRMEM, tmp')"
      "refuses ok (length (buf_contents tmp) + length (pairs_of d m))"
proof -
  from assms have "(\<exists>tmp'. serialize_loop ok d m tmp = Some (NETSTRING_OK, tmp') \<and> buf_wf ok tmp' \<and>
      buf_contents tmp' = buf_contents tmp @ pairs_of d m) \<or>
    (\<exists>tmp'. serialize_loop ok d m tmp = Some (netstring_code NETSTRING_ERRMEM, tmp')
      \<and> refuses ok (length (buf_contents tmp) + length (pairs_of d m)))"
  proof (induction m arbitrary: tmp)
    case Nil
    then show ?case by simp
  next
    case (Cons e m)
    show ?case
    proof (cases "ns_present (d (ns_voff e))")
      case False
      with Cons show ?thesis by (simp add: pair_of_def)
    next
      case True
      then obtain v where v: "d (ns_voff e) = Some v" by (auto simp: ns_present_def split: option.splits)
      with Cons.prems have "ns_writes ok tmp (netstring_of (ns_key e) @ netstring_of v)
          (netstring_append_pair ok tmp (ns_key e) v)"
        by (intro netstring_append_pair_writes) (simp_all add: field_small_def)
      then show ?thesis
      proof (cases rule: ns_writes_cases)
        case (written tmp')
        with True v Cons.prems Cons.IH [of tmp'] show ?thesis by (simp add: pair_of_def add.assoc)
      next
        case (refused tmp')
        from refused(3) have "refuses ok (length (buf_contents tmp) + length (pairs_of d (e # m)))"
          using True v by (elim refuses_mono) (simp add: pair_of_def)
        with True v refused(1) show ?thesis by (simp add: NETSTRING_OK_def)
      qed
    qed
  qed
  then show thesis using that by blast
qed

lemma netstring_serialize_writes:
  assumes wf: "buf_wf ok out" and small: "\<forall>e\<in>set m. field_small d e"
    and init: "ok 1024" and fits: "length (pairs_of d m) < 2 ^ 62"
  shows "ns_writes ok out (netstring_of (pairs_of d m)) (netstring_serialize ok d m out)"
proof -
  have al: "buf_align_offset 1024 = 1024" by (simp add: buf_align_offset_def BUF_ALIGNMENT_def)
  define tmp where "tmp = \<lparr>buf_cap = 1024, buf_len = 0, buf_data = Some (replicate 1024 NUL)\<rparr>"
  have i: "buf_init ok 1024 = Some tmp" using init by (simp add: buf_init_def al tmp_def)
  have t: "buf_wf ok tmp" "buf_contents tmp = []"
    using wf by (simp_all add: tmp_def buf_wf_def mem_def buf_contents_def)
  from t(1) small show ?thesis
  proof (cases rule: serialize_loop_writes)
    case (written tmp')
    with netstring_append_buf_writes [OF wf, of "pairs_of d m"] fits i t(2) show ?thesis
      by (simp add: netstring_serialize_def)
  next
    case (refused tmp')
    have "length (pairs_of d m) \<le> length (netstring_of (pairs_of d m))" by (simp add: netstring_of_def)
    with refused(2) t(2) have "refuses ok (length (buf_contents out) + length (netstring_of (pairs_of d m)))"
      by (elim refuses_mono) simp
    with refused(1) i wf show ?thesis by (simp add: netstring_serialize_def ns_writes_def NETSTRING_OK_def)
  qed
qed

lemma set_visit_order: "k \<le> n \<Longrightarrow> set (visit_order n k) = {0..<n}"
  by (auto simp: visit_order_def)

lemma scan_map_found:
  assumes "i \<in> set is" and "cstr (ns_key (m ! i)) = cstr key"
    and "\<And>i'. i' \<in> set is \<Longrightarrow> cstr (ns_key (m ! i')) = cstr key \<Longrightarrow> i' = i"
  shows "scan_map m key is = Some i"
  using assms
proof (induction "is")
  case (Cons j js)
  show ?case
  proof (cases "cstr (ns_key (m ! j)) = cstr key")
    case True
    then have "j = i" using Cons.prems(3) [of j] by simp
    with True show ?thesis by simp
  next
    case False
    then have "i \<in> set js" using Cons.prems(1,2) by auto
    then have "scan_map m key js = Some i" using Cons.prems(2,3) by (intro Cons.IH) simp_all
    with False show ?thesis by simp
  qed
qed simp

definition map_wf :: "netstring_map list \<Rightarrow> bool" where
  "map_wf m \<longleftrightarrow> distinct (map ns_key m) \<and> (\<forall>e\<in>set m. NUL \<notin> set (ns_key e))"

lemma scan_map_entry:
  assumes wf: "map_wf m" and i: "i < length m" and k: "k \<le> length m"
  shows "scan_map m (ns_key (m ! i)) (visit_order (length m) k) = Some i"
proof (rule scan_map_found)
  show "i \<in> set (visit_order (length m) k)" using i k by (simp add: set_visit_order)
next
  fix j assume j: "j \<in> set (visit_order (length m) k)"
    and eq: "cstr (ns_key (m ! j)) = cstr (ns_key (m ! i))"
  from j k have jl: "j < length m" by (simp add: set_visit_order)
  with wf i eq have "map ns_key m ! j = map ns_key m ! i"
    by (simp add: map_wf_def cstr_id)
  moreover have "distinct (map ns_key m)" using wf by (simp add: map_wf_def)
  ultimately show "j = i"
    using i jl nth_eq_iff_index_eq [of "map ns_key m" j i] by simp
qed simp

lemma pairs_loop_pairs:
  assumes "map_wf m" and "m = pre @ es" and "k \<le> length m" and "length (pairs_of d es) < ns_limit"
  shows "pairs_loop m acc k (pairs_of d es) =
    (\<lambda>x. if x \<in> ns_voff ` set es \<and> ns_present (d x) then d x else acc x)"
  using assms
proof (induction es arbitrary: pre acc k)
  case Nil
  then show ?case by (simp add: pairs_loop.simps [where cur = "[]"] netstring_next_pair_def)
next
  case (Cons e es)
  show ?case
  proof (cases "ns_present (d (ns_voff e))")
    case False
    with Cons.prems Cons.IH [of "pre @ [e]" k acc] show ?thesis
      by (auto simp: pair_of_def fun_eq_iff)
  next
    case True
    then obtain v where v: "d (ns_voff e) = Some v" "cnth v 0 \<noteq> NUL"
      by (auto simp: ns_present_def split: option.splits)
    let ?i = "length pre"
    have i: "?i < length m" "m ! ?i = e" using Cons.prems(2) by simp_all
    have "length (netstring_of (ns_key e) @ netstring_of v @ pairs_of d es) < ns_limit"
      using Cons.prems(4) True v by (simp add: pair_of_def)
    from netstring_next_pair_encoded [OF this] obtain src' where
      np: "netstring_next_pair (pairs_of d (e # es)) = (Inr ((ns_key e, v), pairs_of d es), src')"
      using True v by (cases "netstring_next_pair (pairs_of d (e # es))") (simp add: pair_of_def)
    have "pairs_loop m acc k (pairs_of d (e # es)) =
        pairs_loop m (acc(ns_voff e := Some v)) ?i (pairs_of d es)"
      using np scan_map_entry [OF Cons.prems(1) i(1) Cons.prems(3)] i v(2)
      by (simp add: pairs_loop.simps [of m acc k])
    also have "\<dots> = (\<lambda>x. if x \<in> ns_voff ` set es \<and> ns_present (d x) then d x else (acc(ns_voff e := Some v)) x)"
      using Cons.prems i by (intro Cons.IH [of "pre @ [e]"]) simp_all
    finally show ?thesis using True v by (auto simp: fun_eq_iff)
  qed
qed

lemma netstring_deserialize_encoded:
  assumes "map_wf m" and "m \<noteq> []" and "length (netstring_of (pairs_of d m) @ rest) < ns_limit"
  shows "netstring_deserialize acc m (netstring_of (pairs_of d m) @ rest) =
    (NETSTRING_OK,
     (\<lambda>x. if x \<in> ns_voff ` set m \<and> ns_present (d x) then d x else acc x),
     Some (of_nat (length rest)))"
proof -
  have "length (pairs_of d m) < ns_limit" using assms(3) by (simp add: netstring_of_def)
  then have "pairs_loop m acc 0 (pairs_of d m) =
      (\<lambda>x. if x \<in> ns_voff ` set m \<and> ns_present (d x) then d x else acc x)"
    by (intro pairs_loop_pairs [OF assms(1), of "[]"]) simp_all
  with netstring_parse_encoded [OF assms(3)] assms(2) show ?thesis
    by (simp add: netstring_deserialize_def netstring_of_def algebra_simps)
qed

section \<open>Properties\<close>



text \<open>
  C15. Appending a list of strings as netstrings is all or nothing: with status \<open>OK\<close> the
  contents grow by exactly the netstrings of the elements in order, otherwise the status is
  \<open>ERRMEM\<close>, the allocator refuses a request of that size, and the contents are what they were.
\<close>

theorem netstring_append_list_atomic:
  assumes "buf_wf ok b" and "\<forall>e\<in>set es. length e < 2 ^ 62"
  shows "\<exists>r b'. netstring_append_list ok b es = Some (r, b') \<and> buf_wf ok b' \<and>
    (r = NETSTRING_OK \<and> buf_contents b' = buf_contents b @ concat (map netstring_of es) \<or>
     r = netstring_code NETSTRING_ERRMEM \<and> buf_contents b' = buf_contents b
       \<and> refuses ok (length (buf_contents b) + length (concat (map netstring_of es))))"
  using netstring_append_list_writes [OF assms] unfolding ns_writes_def by blast

theorem netstring_append_list_atomic_witness:
  "\<exists>b'. netstring_append_list tib_alloc buf_zero [''a'', ''bc'']
      = Some (NETSTRING_OK, b') \<and> buf_contents b' = ''1:a,2:bc,''"
proof -
  have "concat (map netstring_of [''a'', ''bc'']) = ''1:a,2:bc,''" by code_simp
  then show ?thesis
    using netstring_append_list_atomic [of tib_alloc buf_zero "[''a'', ''bc'']"]
    by auto
qed

text \<open>
  What \<open>netstring_append_buf\<close> writes into an empty buffer is read back by
  \<open>netstring_next\<close> as the same bytes, whatever bytes they are and whatever follows.
\<close>

theorem netstring_append_next:
  assumes "buf_wf ok b" and "buf_contents b = []" and "length s < 2 ^ 62"
    and "netstring_append_buf ok b s = Some (NETSTRING_OK, b')"
    and "length (buf_contents b' @ rest) < ns_limit"
  shows "fst (netstring_next (buf_contents b' @ rest)) = Inr (s, rest)"
proof -
  from netstring_append_buf_writes [OF assms(1,3)] assms(2,4)
  have "buf_contents b' = netstring_of s" by (simp add: ns_writes_def NETSTRING_OK_def)
  with netstring_next_encoded [of s rest] assms(5) show ?thesis by simp
qed

theorem netstring_append_next_witness:
  "\<exists>b'. netstring_append_buf tib_alloc buf_zero ''yans'' = Some (NETSTRING_OK, b')
    \<and> fst (netstring_next (buf_contents b' @ ''x'')) = Inr (''yans'', ''x'')"
proof -
  have l: "length (netstring_of ''yans'') = 7" by code_simp
  obtain b' where b': "netstring_append_buf tib_alloc buf_zero ''yans'' = Some (NETSTRING_OK, b')"
      "buf_contents b' = netstring_of ''yans''"
    using netstring_append_buf_writes [of tib_alloc buf_zero "''yans''"] l by (auto simp: ns_writes_def)
  then have "fst (netstring_next (buf_contents b' @ ''x'')) = Inr (''yans'', ''x'')"
    using l by (intro netstring_append_next [of tib_alloc buf_zero]) (simp_all add: ns_limit_def)
  with b'(1) show ?thesis by blast
qed

text \<open>
  C3. A struct that is serialized by \<open>netstring_serialize\<close> and then deserialized by
  \<open>netstring_deserialize\<close> with the same map comes back: every field of the map that is a
  non-empty string has its value again, the other fields keep what the target had, and the
  rest of the input is reported as left over.
\<close>

theorem netstring_struct_roundtrip:
  assumes "buf_wf ok out" and "buf_contents out = []" and "ok 1024" and "map_wf m" and "m \<noteq> []"
    and "\<forall>e\<in>set m. field_small d e" and "length (pairs_of d m) < 2 ^ 62"
    and "netstring_serialize ok d m out = Some (NETSTRING_OK, out')"
    and "length (buf_contents out' @ rest) < ns_limit"
  shows "netstring_deserialize acc m (buf_contents out' @ rest) =
    (NETSTRING_OK, (\<lambda>x. if x \<in> ns_voff ` set m \<and> ns_present (d x) then d x else acc x),
     Some (of_nat (length rest)))"
proof -
  from netstring_serialize_writes [OF assms(1,6,3,7)] assms(2,8)
  have "buf_contents out' = netstring_of (pairs_of d m)" by (simp add: ns_writes_def NETSTRING_OK_def)
  with netstring_deserialize_encoded [OF assms(4,5)] assms(9) show ?thesis by simp
qed

theorem netstring_struct_roundtrip_witness:
  "\<exists>out'. netstring_serialize tib_alloc [0 \<mapsto> ''GET'', 8 \<mapsto> []] [\<lparr>ns_key = ''verb'', ns_voff = 0\<rparr>, \<lparr>ns_key = ''body'', ns_voff = 8\<rparr>]
      buf_zero = Some (NETSTRING_OK, out')
    \<and> fst (snd (netstring_deserialize [8 \<mapsto> ''old''] [\<lparr>ns_key = ''verb'', ns_voff = 0\<rparr>, \<lparr>ns_key = ''body'', ns_voff = 8\<rparr>]
        (buf_contents out'))) = [0 \<mapsto> ''GET'', 8 \<mapsto> ''old'']"
proof -
  let ?m = "[\<lparr>ns_key = ''verb'', ns_voff = 0\<rparr>, \<lparr>ns_key = ''body'', ns_voff = 8\<rparr>]"
  let ?d = "[0 \<mapsto> ''GET'', 8 \<mapsto> []]"
  have p: "pairs_of ?d ?m = netstring_of ''verb'' @ netstring_of ''GET''"
    by (simp add: pair_of_def ns_present_def)
  have "netstring_of ''verb'' @ netstring_of ''GET'' = ''4:verb,3:GET,''" by code_simp
  then have l: "length (pairs_of ?d ?m) = 13" "length (netstring_of (pairs_of ?d ?m)) = 17"
    unfolding p by (simp, simp add: netstring_of_def dec_digits.simps)
  have f: "\<forall>e\<in>set ?m. field_small ?d e" by (simp add: field_small_def)
  have a: "tib_alloc 1024" by (simp add: tib_alloc_def)
  obtain out' where o: "netstring_serialize tib_alloc ?d ?m buf_zero = Some (NETSTRING_OK, out')"
      "buf_contents out' = netstring_of (pairs_of ?d ?m)"
    using netstring_serialize_writes [of tib_alloc buf_zero ?m ?d] l f a by (auto simp: ns_writes_def)
  have "netstring_deserialize [8 \<mapsto> ''old''] ?m (buf_contents out' @ []) = (NETSTRING_OK,
      (\<lambda>x. if x \<in> ns_voff ` set ?m \<and> ns_present (?d x) then ?d x else [8 \<mapsto> ''old''] x),
      Some (of_nat (length ([] :: bytes))))"
  proof (rule netstring_struct_roundtrip [where ok = tib_alloc and out = buf_zero])
    show "netstring_serialize tib_alloc ?d ?m buf_zero = Some (NETSTRING_OK, out')" by (rule o(1))
    show "length (buf_contents out' @ []) < ns_limit" unfolding o(2) append_Nil2 l(2) by (simp add: ns_limit_def)
    show "length (pairs_of ?d ?m) < 2 ^ 62" unfolding l(1) by simp
    show "\<forall>e\<in>set ?m. field_small ?d e" by (rule f)
  qed (use a in \<open>simp_all add: map_wf_def\<close>)
  then show ?thesis using o(1) by (auto simp: fun_eq_iff ns_present_def)
qed

text \<open>
  White space followed by a colon without any digit is accepted as the empty string,
  because the parser tests the number of bytes read and not the number of digits.
\<close>

theorem netstring_parse_no_digits: "netstring_parse '' :,'' = (Inr (2, []), '' :'' @ [NUL])"
  by (simp add: netstring_parse_def ns_parse_def NETSTRING_WS_def is_digit_def)

end
