(* ===== verification/Iterator.thy ===== *)
theory Iterator
  imports Yans_Prelude "HOL-Library.Multiset"
begin

text \<open>
  The interface shared by the iterators of the network code: the reordering block of
  \<^verbatim>\<open>lib/util/reorder.c\<close>, the port and address ranges of \<^verbatim>\<open>lib/net\<close> and their
  reordered variants. A call of \<open>next\<close> returns 1 and a value, or 0 at the end of a cycle;
  here that is \<^term>\<open>Some v\<close> or \<^const>\<open>None\<close>. The outer option is \<^const>\<open>None\<close> when
  the call does not return or reads outside an array.
\<close>

text \<open>A client that calls \<open>next\<close> up to \<open>n\<close> times and stops at the end of the cycle.\<close>

fun collect :: "('s \<Rightarrow> ('a option \<times> 's) option) \<Rightarrow> nat \<Rightarrow> 's \<Rightarrow> ('a list \<times> 's) option" where
  "collect next 0 s = Some ([], s)"
| "collect next (Suc n) s =
     (case next s of
        None \<Rightarrow> None
      | Some (None, s') \<Rightarrow> Some ([], s')
      | Some (Some v, s') \<Rightarrow> map_option (apfst (Cons v)) (collect next n s'))"

lemma mset_set_list:
  assumes "mset xs = mset_set A" and "finite A"
  shows "distinct xs" and "set xs = A"
proof -
  show "set xs = A" using assms by (metis finite_set_mset_mset_set set_mset_mset)
  have "card (set xs) = length xs"
    using assms \<open>set xs = A\<close> by (metis size_mset size_mset_set)
  then show "distinct xs" by (rule card_distinct)
qed

text \<open>
  The law of an iterator: \<open>pending s\<close> is what is left of the current cycle, \<open>next\<close> takes its
  head, and at the end of the cycle the state is reset to the start of a new cycle, which
  goes through all values again (\<open>content s\<close>, in some order).
\<close>

locale iterator =
  fixes inv :: "'s \<Rightarrow> bool"
    and pending :: "'s \<Rightarrow> 'a list"
    and content :: "'s \<Rightarrow> 'a multiset"
    and next_of :: "'s \<Rightarrow> ('a option \<times> 's) option"
  assumes next_head: "inv s \<Longrightarrow> pending s = v # vs \<Longrightarrow>
      \<exists>s'. next_of s = Some (Some v, s') \<and> inv s' \<and> pending s' = vs \<and> content s' = content s"
    and next_end: "inv s \<Longrightarrow> pending s = [] \<Longrightarrow>
      \<exists>s'. next_of s = Some (None, s') \<and> inv s' \<and> mset (pending s') = content s \<and> content s' = content s"
begin

lemma collect_prefix:
  assumes "inv s" and "n \<le> length (pending s)"
  shows "\<exists>s'. collect next_of n s = Some (take n (pending s), s') \<and> inv s'
    \<and> pending s' = drop n (pending s) \<and> content s' = content s"
  using assms
proof (induction n arbitrary: s)
  case 0
  then show ?case by simp
next
  case (Suc n)
  then obtain v vs where p: "pending s = v # vs" by (cases "pending s") auto
  from next_head [OF Suc.prems(1) p] obtain s1 where
    s1: "next_of s = Some (Some v, s1)" "inv s1" "pending s1 = vs" "content s1 = content s" by blast
  with Suc.IH [of s1] Suc.prems(2) p show ?case by auto
qed

lemma collect_all:
  assumes "inv s" and "length (pending s) < n"
  shows "\<exists>s'. collect next_of n s = Some (pending s, s') \<and> inv s'
    \<and> mset (pending s') = content s \<and> content s' = content s"
  using assms
proof (induction n arbitrary: s)
  case 0
  then show ?case by simp
next
  case (Suc n)
  show ?case
  proof (cases "pending s")
    case Nil
    with next_end [OF Suc.prems(1)] show ?thesis by auto
  next
    case (Cons v vs)
    from next_head [OF Suc.prems(1) Cons] obtain s1 where
      s1: "next_of s = Some (Some v, s1)" "inv s1" "pending s1 = vs" "content s1 = content s" by blast
    with Suc.IH [of s1] Suc.prems(2) Cons show ?thesis by auto
  qed
qed

text \<open>A call always returns, so an iteration makes progress.\<close>

lemma next_returns: "inv s \<Longrightarrow> \<exists>r s'. next_of s = Some (r, s') \<and> inv s'"
  using next_head [of s] next_end [of s] by (cases "pending s") blast+

end

text \<open>
  Where the order of the values is not part of the contract: \<open>remaining s\<close> is the multiset of
  what is left of the cycle.
\<close>

locale bag_iterator =
  fixes binv :: "'s \<Rightarrow> bool"
    and remaining :: "'s \<Rightarrow> 'a multiset"
    and whole :: "'s \<Rightarrow> 'a multiset"
    and bnext :: "'s \<Rightarrow> ('a option \<times> 's) option"
  assumes bnext_some: "binv s \<Longrightarrow> remaining s \<noteq> {#} \<Longrightarrow>
      \<exists>v s'. bnext s = Some (Some v, s') \<and> binv s' \<and> remaining s = add_mset v (remaining s')
        \<and> whole s' = whole s"
    and bnext_end: "binv s \<Longrightarrow> remaining s = {#} \<Longrightarrow>
      \<exists>s'. bnext s = Some (None, s') \<and> binv s' \<and> remaining s' = whole s \<and> whole s' = whole s"
begin

lemma collect_bag:
  assumes "binv s" and "size (remaining s) < n"
  shows "\<exists>vs s'. collect bnext n s = Some (vs, s') \<and> mset vs = remaining s \<and> binv s'
    \<and> remaining s' = whole s \<and> whole s' = whole s"
  using assms
proof (induction n arbitrary: s)
  case (Suc n)
  show ?case
  proof (cases "remaining s = {#}")
    case True
    with bnext_end [OF Suc.prems(1)] show ?thesis by auto
  next
    case False
    from bnext_some [OF Suc.prems(1) False] obtain v s1 where
      s1: "bnext s = Some (Some v, s1)" "binv s1" "remaining s = add_mset v (remaining s1)"
        "whole s1 = whole s" by blast
    with Suc.IH [of s1] Suc.prems(2) show ?thesis by auto
  qed
qed simp

end

sublocale iterator \<subseteq> bag: bag_iterator inv "\<lambda>s. mset (pending s)" content next_of
proof
  fix s assume "inv s" "mset (pending s) \<noteq> {#}"
  then obtain v vs where "pending s = v # vs" by (cases "pending s") auto
  from next_head [OF \<open>inv s\<close> this] \<open>pending s = v # vs\<close>
  show "\<exists>v s'. next_of s = Some (Some v, s') \<and> inv s' \<and> mset (pending s) = add_mset v (mset (pending s'))
      \<and> content s' = content s" by auto
next
  fix s assume "inv s" "mset (pending s) = {#}"
  then show "\<exists>s'. next_of s = Some (None, s') \<and> inv s' \<and> mset (pending s') = content s \<and> content s' = content s"
    using next_end [of s] by simp
qed

text \<open>Where every cycle goes through the same values in the same order.\<close>

locale cyclic_iterator =
  fixes inv :: "'s \<Rightarrow> bool"
    and pending :: "'s \<Rightarrow> 'a list"
    and cycle :: "'s \<Rightarrow> 'a list"
    and next_of :: "'s \<Rightarrow> ('a option \<times> 's) option"
  assumes cycle_head: "inv s \<Longrightarrow> pending s = v # vs \<Longrightarrow>
      \<exists>s'. next_of s = Some (Some v, s') \<and> inv s' \<and> pending s' = vs \<and> cycle s' = cycle s"
    and cycle_end: "inv s \<Longrightarrow> pending s = [] \<Longrightarrow>
      \<exists>s'. next_of s = Some (None, s') \<and> inv s' \<and> pending s' = cycle s \<and> cycle s' = cycle s"
begin

lemma collect_cycle:
  assumes "inv s" and "length (pending s) < n"
  shows "\<exists>s'. collect next_of n s = Some (pending s, s') \<and> inv s' \<and> pending s' = cycle s \<and> cycle s' = cycle s"
  using assms
proof (induction n arbitrary: s)
  case (Suc n)
  show ?case
  proof (cases "pending s")
    case Nil
    with cycle_end [OF Suc.prems(1)] show ?thesis by auto
  next
    case (Cons v vs)
    from cycle_head [OF Suc.prems(1) Cons] obtain s1 where
      s1: "next_of s = Some (Some v, s1)" "inv s1" "pending s1 = vs" "cycle s1 = cycle s" by blast
    with Suc.IH [of s1] Suc.prems(2) Cons show ?thesis by auto
  qed
qed simp

end

sublocale cyclic_iterator \<subseteq> iter: iterator inv pending "\<lambda>s. mset (cycle s)" next_of
proof
  fix s v vs assume "inv s" "pending s = v # vs"
  from cycle_head [OF this]
  show "\<exists>s'. next_of s = Some (Some v, s') \<and> inv s' \<and> pending s' = vs \<and> mset (cycle s') = mset (cycle s)" by auto
next
  fix s assume "inv s" "pending s = []"
  from cycle_end [OF this]
  show "\<exists>s'. next_of s = Some (None, s') \<and> inv s' \<and> mset (pending s') = mset (cycle s) \<and> mset (cycle s') = mset (cycle s)"
    by auto
qed

end
