(* ===== verification/Reorder.thy ===== *)
theory Reorder
  imports Iterator
begin

unbundle bit_operations_syntax

text \<open>
  The reordering block of \<^verbatim>\<open>lib/util/reorder.c\<close>: a range of 32-bit integers visited in
  the order of the linear congruential generator \<open>x \<mapsto> 5 x + 1\<close> modulo a power of two,
  values outside the range being rejected.
\<close>

section \<open>Definitions\<close>

record reorder32 =
  r_flags :: u32
  r_mask :: u32
  r_first :: u32
  r_last :: u32
  r_curr :: u32
  r_nitems :: u32
  r_ival :: u32

definition REORDER32_OVERFLOWED :: u32 where
  "REORDER32_OVERFLOWED = 1"

function r4block_mask_loop :: "u32 \<Rightarrow> nat \<Rightarrow> u32 \<Rightarrow> u32" where
  "r4block_mask_loop nitems i msk =
     (if i < 32 then
        if nitems AND push_bit (31 - i) 1 \<noteq> 0 then msk
        else r4block_mask_loop nitems (Suc i) (drop_bit 1 msk)
      else msk)"
  by pat_completeness auto
termination
  by (relation "measure (\<lambda>(nitems, i, msk). 32 - i)") auto

declare r4block_mask_loop.simps [simp del]

definition calc_r4block_mask :: "u32 \<Rightarrow> u32" where
  "calc_r4block_mask nitems = r4block_mask_loop nitems 0 0xffffffff"

definition reorder32_init :: "u32 \<Rightarrow> u32 \<Rightarrow> reorder32" where
  "reorder32_init a b =
     (let (lo, hi) = (if b < a then (b, a) else (a, b));
          nitems = hi - lo
      in \<lparr>r_flags = 0, r_mask = calc_r4block_mask nitems, r_first = lo, r_last = hi,
          r_curr = lo, r_nitems = nitems, r_ival = 0\<rparr>)"

text \<open>The rejection loop; \<^const>\<open>None\<close> would be a loop that never ends.\<close>

partial_function (option) lcg_loop :: "u32 \<Rightarrow> u32 \<Rightarrow> u32 \<Rightarrow> u32 option" where
  "lcg_loop msk nitems cur =
     (let cur' = (cur * 5 + 1) AND msk
      in if cur' > nitems then lcg_loop msk nitems cur' else Some cur')"

text \<open>
  \<open>Some v\<close> when the C function stores \<open>v\<close> and returns 1, \<^const>\<open>None\<close> when it returns 0.
  The last step is as in the source: the flag is combined with \<open>&=\<close>.
\<close>

definition reorder32_next :: "reorder32 \<Rightarrow> (u32 option \<times> reorder32) option" where
  "reorder32_next blk =
     (if r_ival blk > r_nitems blk \<or> r_flags blk AND REORDER32_OVERFLOWED \<noteq> 0
      then Some (None, reorder32_init (r_first blk) (r_last blk))
      else case lcg_loop (r_mask blk) (r_nitems blk) (r_curr blk) of
        None \<Rightarrow> None
      | Some c \<Rightarrow>
          (let blk' = blk\<lparr>r_curr := c\<rparr>;
               ival = r_ival blk' + 1;
               blk'' = (if ival < r_ival blk'
                        then blk'\<lparr>r_flags := r_flags blk' AND REORDER32_OVERFLOWED\<rparr> else blk')
           in Some (Some (r_first blk + c), blk''\<lparr>r_ival := ival\<rparr>)))"

section \<open>The generator has full period\<close>

text \<open>The geometric sum \<open>(5^n - 1) / 4\<close> and its divisibility by powers of two.\<close>

primrec geo5 :: "nat \<Rightarrow> nat" where
  "geo5 0 = 0"
| "geo5 (Suc n) = 5 * geo5 n + 1"

lemma pow5_geo5: "5 ^ n = 4 * geo5 n + 1"
  by (induction n) simp_all

lemma geo5_add: "geo5 (n + m) = geo5 n + 5 ^ n * geo5 m"
  by (induction n) (simp_all add: distrib_left mult.assoc)

lemma even_geo5: "even (geo5 n) \<longleftrightarrow> even n"
  by (induction n) auto

lemma geo5_double: "\<exists>q. odd q \<and> geo5 (2 * m) = 2 * (geo5 m * q)"
proof (intro exI conjI)
  have "geo5 (2 * m) = geo5 m * (1 + 5 ^ m)"
    using geo5_add [of m m] by (simp add: mult_2 [symmetric] distrib_left mult.commute)
  also have "\<dots> = 2 * (geo5 m * (2 * geo5 m + 1))"
    by (simp add: pow5_geo5 algebra_simps)
  finally show "geo5 (2 * m) = 2 * (geo5 m * (2 * geo5 m + 1))" .
qed simp

lemma pow2_dvd_mult_odd: "odd (q::nat) \<Longrightarrow> 2 ^ k dvd a * q \<longleftrightarrow> 2 ^ k dvd a"
  by (rule coprime_dvd_mult_left_iff) simp

lemma pow2_dvd_geo5: "2 ^ k dvd geo5 n \<longleftrightarrow> 2 ^ k dvd n"
proof (induction k arbitrary: n)
  case 0
  then show ?case by simp
next
  case (Suc k)
  show ?case
  proof (cases "even n")
    case False
    then have "odd (geo5 n)" by (simp add: even_geo5)
    with False show ?thesis by (meson dvd_power dvd_trans zero_less_Suc)
  next
    case True
    then obtain m where n: "n = 2 * m" by blast
    obtain q where q: "odd q" "geo5 n = 2 * (geo5 m * q)" using geo5_double [of m] n by auto
    have "2 ^ Suc k dvd geo5 n \<longleftrightarrow> 2 ^ k dvd geo5 m * q" by (simp add: q(2))
    also have "\<dots> \<longleftrightarrow> 2 ^ k dvd geo5 m" using q(1) by (rule pow2_dvd_mult_odd)
    also have "\<dots> \<longleftrightarrow> 2 ^ k dvd m" by (rule Suc.IH)
    finally show ?thesis by (simp add: n)
  qed
qed

definition lcg :: "nat \<Rightarrow> nat \<Rightarrow> nat" where
  "lcg M x = (5 * x + 1) mod M"

lemma lcg_iter: "(lcg (2 ^ k) ^^ n) x mod 2 ^ k = (5 ^ n * x + geo5 n) mod 2 ^ k"
proof (induction n)
  case 0
  then show ?case by simp
next
  case (Suc n)
  have "(lcg (2 ^ k) ^^ Suc n) x mod 2 ^ k = (5 * ((lcg (2 ^ k) ^^ n) x mod 2 ^ k) + 1) mod 2 ^ k"
    by (simp add: lcg_def) (metis mod_Suc_eq mod_mult_right_eq)
  also have "\<dots> = (5 * (5 ^ n * x + geo5 n) + 1) mod 2 ^ k"
    unfolding Suc by (metis mod_add_left_eq mod_mult_right_eq)
  finally show ?case by (simp add: algebra_simps)
qed

lemma lcg_iter_returns_iff: "(lcg (2 ^ k) ^^ n) x mod 2 ^ k = x mod 2 ^ k \<longleftrightarrow> 2 ^ k dvd n"
proof -
  have eq: "5 ^ n * x + geo5 n = x + geo5 n * (4 * x + 1)"
    by (simp add: pow5_geo5 algebra_simps)
  have "(lcg (2 ^ k) ^^ n) x mod 2 ^ k = x mod 2 ^ k \<longleftrightarrow> (x + geo5 n * (4 * x + 1)) mod 2 ^ k = x mod 2 ^ k"
    by (simp only: lcg_iter eq)
  also have "\<dots> \<longleftrightarrow> 2 ^ k dvd geo5 n * (4 * x + 1)"
    using mod_eq_dvd_iff_nat [of x "x + geo5 n * (4 * x + 1)" "2 ^ k"] by simp
  also have "\<dots> \<longleftrightarrow> 2 ^ k dvd geo5 n" by (rule pow2_dvd_mult_odd) simp
  also have "\<dots> \<longleftrightarrow> 2 ^ k dvd n" by (rule pow2_dvd_geo5)
  finally show ?thesis .
qed

text \<open>Hull and Dobell for this generator: \<open>2 ^ k\<close> steps visit every residue once.\<close>

definition orbit :: "nat \<Rightarrow> nat \<Rightarrow> nat list" where
  "orbit M x = map (\<lambda>n. (lcg M ^^ n) x) [1..<Suc M]"

lemma lcg_iter_less: "0 < n \<Longrightarrow> (lcg (2 ^ k) ^^ n) x < 2 ^ k"
  by (cases n) (simp_all add: lcg_def)

lemma distinct_orbit: "distinct (orbit (2 ^ k) x)"
proof -
  have "inj_on (\<lambda>n. (lcg (2 ^ k) ^^ n) x) {1..<Suc (2 ^ k)}"
  proof (rule linorder_inj_onI)
    fix n m assume nm: "n < m" "n \<in> {1..<Suc (2 ^ k)}" "m \<in> {1..<Suc (2 ^ k)}"
    let ?y = "(lcg (2 ^ k) ^^ n) x"
    have m: "(lcg (2 ^ k) ^^ m) x = (lcg (2 ^ k) ^^ (m - n)) ?y"
      using nm(1) funpow_add [of "m - n" n "lcg (2 ^ k)"] by simp
    have "\<not> 2 ^ k dvd m - n" using nm by (auto dest!: dvd_imp_le)
    then have "(lcg (2 ^ k) ^^ (m - n)) ?y mod 2 ^ k \<noteq> ?y mod 2 ^ k" by (simp add: lcg_iter_returns_iff)
    then show "(lcg (2 ^ k) ^^ n) x \<noteq> (lcg (2 ^ k) ^^ m) x" by (metis m)
  qed auto
  then show ?thesis by (simp only: orbit_def distinct_map distinct_upt set_upt simp_thms)
qed

lemma set_orbit: "set (orbit (2 ^ k) x) = {0..<(2::nat) ^ k}"
proof (rule card_subset_eq)
  show "set (orbit (2 ^ k) x) \<subseteq> {0..<(2::nat) ^ k}" by (auto simp: orbit_def lcg_iter_less)
  have "card (set (orbit (2 ^ k) x)) = length (orbit (2 ^ k) x)" by (rule distinct_card) (rule distinct_orbit)
  then show "card (set (orbit (2 ^ k) x)) = card {0..<(2::nat) ^ k}" by (simp add: orbit_def)
qed simp

text \<open>One step of the generator rotates the orbit.\<close>

lemma orbit_step: "orbit (2 ^ k) (lcg (2 ^ k) x) = tl (orbit (2 ^ k) x) @ [lcg (2 ^ k) x]"
  and orbit_hd: "orbit (2 ^ k) x = lcg (2 ^ k) x # tl (orbit (2 ^ k) x)"
proof -
  let ?f = "lcg (2 ^ k)" and ?M = "2 ^ k :: nat"
  have per: "(?f ^^ ?M) (?f x) = ?f x"
  proof -
    have "(?f ^^ ?M) (?f x) mod ?M = ?f x mod ?M" by (simp add: lcg_iter_returns_iff)
    moreover have "(?f ^^ ?M) (?f x) < ?M" by (rule lcg_iter_less) simp
    moreover have "?f x < ?M" by (simp add: lcg_def)
    ultimately show ?thesis by simp
  qed
  have upt: "[1..<Suc ?M] = 1 # map Suc [1..<?M]"
    using upt_conv_Cons [of 1 "Suc ?M"] by (simp add: map_Suc_upt del: upt_Suc)
  then have o: "orbit ?M x = ?f x # map (\<lambda>n. (?f ^^ n) (?f x)) [1..<?M]"
    by (simp add: orbit_def funpow_swap1 comp_def)
  then show "orbit ?M x = ?f x # tl (orbit ?M x)" by simp
  have "orbit ?M (?f x) = map (\<lambda>n. (?f ^^ n) (?f x)) [1..<?M] @ [(?f ^^ ?M) (?f x)]"
    by (simp add: orbit_def)
  then show "orbit ?M (?f x) = tl (orbit ?M x) @ [?f x]" by (simp add: o per)
qed

definition accepted :: "nat \<Rightarrow> nat \<Rightarrow> nat \<Rightarrow> nat list" where
  "accepted M n x = filter (\<lambda>v. v \<le> n) (orbit M x)"

lemma accepted_perm:
  assumes "n < 2 ^ k"
  shows "distinct (accepted (2 ^ k) n x)" and "set (accepted (2 ^ k) n x) = {0..n}"
    and "length (accepted (2 ^ k) n x) = Suc n"
proof -
  show d: "distinct (accepted (2 ^ k) n x)" by (simp add: accepted_def distinct_orbit)
  show s: "set (accepted (2 ^ k) n x) = {0..n}" using assms by (auto simp: accepted_def set_orbit)
  from d s show "length (accepted (2 ^ k) n x) = Suc n" by (metis distinct_card card_atLeastAtMost diff_zero)
qed

section \<open>The rejection loop\<close>

lemma unat_lcg_word:
  fixes x :: u32
  assumes "k \<le> 32"
  shows "unat ((x * 5 + 1) AND mask k) = lcg (2 ^ k) (unat x)"
proof -
  have "unat (x * 5 + 1) = (5 * unat x + 1) mod 2 ^ 32"
    by (simp add: unat_word_ariths mod_Suc_eq mult.commute)
  moreover have "(2::nat) ^ k dvd 2 ^ 32" using assms by (rule le_imp_power_dvd)
  ultimately show ?thesis
    by (simp only: unat_and_mask lcg_def mod_mod_cancel)
qed

lemma lcg_loop_accepted:
  assumes "k \<le> 32" and "unat nitems < 2 ^ k"
  obtains w vs where "lcg_loop (mask k) nitems cur = Some w"
    and "accepted (2 ^ k) (unat nitems) (unat cur) = unat w # vs"
    and "accepted (2 ^ k) (unat nitems) (unat w) = vs @ [unat w]"
proof -
  let ?n = "unat nitems"
  let ?rej = "\<lambda>x. length (takeWhile (\<lambda>v. \<not> v \<le> ?n) (orbit (2 ^ k) x))"
  have "\<exists>w vs. lcg_loop (mask k) nitems cur = Some w \<and> accepted (2 ^ k) ?n (unat cur) = unat w # vs
      \<and> accepted (2 ^ k) ?n (unat w) = vs @ [unat w]"
  proof (induction "?rej (unat cur)" arbitrary: cur rule: less_induct)
    case less
    let ?c = "(cur * 5 + 1) AND mask k"
    have c: "unat ?c = lcg (2 ^ k) (unat cur)" using assms(1) by (rule unat_lcg_word)
    note hd = orbit_hd [of k "unat cur", folded c]
    note step = orbit_step [of k "unat cur", folded c]
    show ?case
    proof (cases "unat ?c \<le> ?n")
      case True
      then have "lcg_loop (mask k) nitems cur = Some ?c"
        by (subst lcg_loop.simps) (simp add: Let_def word_less_nat_alt not_less)
      moreover have "accepted (2 ^ k) ?n (unat cur) = unat ?c # filter (\<lambda>v. v \<le> ?n) (tl (orbit (2 ^ k) (unat cur)))"
        unfolding accepted_def using True by (subst hd) simp
      moreover have "accepted (2 ^ k) ?n (unat ?c) = filter (\<lambda>v. v \<le> ?n) (tl (orbit (2 ^ k) (unat cur))) @ [unat ?c]"
        unfolding accepted_def step using True by simp
      ultimately show ?thesis by blast
    next
      case False
      then have l: "lcg_loop (mask k) nitems cur = lcg_loop (mask k) nitems ?c"
        by (subst lcg_loop.simps) (simp add: Let_def word_less_nat_alt)
      have a: "accepted (2 ^ k) ?n (unat cur) = accepted (2 ^ k) ?n (unat ?c)"
        unfolding accepted_def step using False by (subst hd) simp
      have "0 \<in> set (orbit (2 ^ k) (unat cur))" by (simp add: set_orbit)
      then have z: "0 \<in> set (tl (orbit (2 ^ k) (unat cur)))"
        using False by (subst (asm) hd) auto
      have "?rej (unat cur) = Suc (length (takeWhile (\<lambda>v. \<not> v \<le> ?n) (tl (orbit (2 ^ k) (unat cur)))))"
        using False by (subst hd) simp
      moreover have "?rej (unat ?c) = length (takeWhile (\<lambda>v. \<not> v \<le> ?n) (tl (orbit (2 ^ k) (unat cur))))"
        unfolding step using z by (subst takeWhile_append1 [of 0]) simp_all
      ultimately have "?rej (unat ?c) < ?rej (unat cur)" by simp
      from less.hyps [OF this] show ?thesis unfolding l a .
    qed
  qed
  then show thesis using that by blast
qed

section \<open>The block as an iterator\<close>

lemma r4block_mask_loop_mask:
  assumes "i \<le> 32" and "unat nitems < 2 ^ (32 - i)"
  shows "\<exists>k\<le>32. r4block_mask_loop nitems i (mask (32 - i)) = mask k \<and> unat nitems < 2 ^ k"
  using assms
proof (induction "32 - i" arbitrary: i)
  case 0
  then show ?case by (intro exI [of _ 0]) (simp add: r4block_mask_loop.simps)
next
  case (Suc j)
  then have i: "i < 32" "31 - i = j" "32 - i = Suc j" by simp_all
  show ?case
  proof (cases "bit nitems j")
    case True
    then have "nitems AND push_bit (31 - i) 1 \<noteq> 0"
      unfolding i push_bit_of_1 by (simp add: and_exp_eq_0_iff_not_bit)
    with i Suc.prems show ?thesis
      by (intro exI [of _ "Suc j"]) (simp add: r4block_mask_loop.simps [of nitems i])
  next
    case False
    then have z: "nitems AND push_bit (31 - i) 1 = 0"
      unfolding i push_bit_of_1 by (simp add: and_exp_eq_0_iff_not_bit)
    have dm: "drop_bit 1 (mask (Suc j)) = (mask j :: u32)"
      using i by (intro bit_word_eqI) (auto simp: bit_simps)
    have lt: "unat nitems < 2 ^ j"
    proof -
      have "nitems = take_bit (Suc j) nitems"
        using Suc.prems(2) i
        by (simp only: word_unat_eq_iff unsigned_take_bit_eq take_bit_nat_eq_self)
      also have "\<dots> = take_bit j nitems"
        using False by (auto intro!: bit_word_eqI simp: bit_simps less_Suc_eq)
      finally have "unat nitems = take_bit j (unat nitems)"
        by (metis unsigned_take_bit_eq)
      then show ?thesis by (metis take_bit_nat_less_exp)
    qed
    have j: "32 - Suc i = j" using i by simp
    have "\<exists>k\<le>32. r4block_mask_loop nitems (Suc i) (mask (32 - Suc i)) = mask k \<and> unat nitems < 2 ^ k"
      using lt i j by (intro Suc.hyps(1)) simp_all
    with i z dm j show ?thesis by (simp add: r4block_mask_loop.simps [of nitems i])
  qed
qed

lemma calc_r4block_mask_spec:
  obtains k where "k \<le> 32" and "calc_r4block_mask nitems = mask k" and "unat nitems < 2 ^ k"
proof -
  have "(0xffffffff :: u32) = mask (32 - 0)" by (simp add: mask_eq_exp_minus_1)
  then show thesis
    using that r4block_mask_loop_mask [of 0 nitems] unat_less_exp [of nitems]
    by (auto simp: calc_r4block_mask_def)
qed

text \<open>
  What is left of the current cycle: as many of the accepted values of the orbit as the
  iteration counter leaves. The range of all \<open>2 ^ 32\<close> values is excluded by the invariant; it
  is treated below.
\<close>

definition reorder32_pending :: "reorder32 \<Rightarrow> u32 list" where
  "reorder32_pending blk =
     map (\<lambda>v. r_first blk + of_nat v)
       (take (Suc (unat (r_nitems blk)) - unat (r_ival blk))
         (accepted (unat (r_mask blk) + 1) (unat (r_nitems blk)) (unat (r_curr blk))))"

definition reorder32_inv :: "reorder32 \<Rightarrow> bool" where
  "reorder32_inv blk \<longleftrightarrow> r_flags blk = 0 \<and> r_mask blk = calc_r4block_mask (r_nitems blk)
     \<and> r_last blk = r_first blk + r_nitems blk \<and> r_first blk \<le> r_last blk
     \<and> r_nitems blk \<noteq> 0xffffffff \<and> unat (r_ival blk) \<le> Suc (unat (r_nitems blk))"

lemma max_word32: "unat n = 4294967295 \<longleftrightarrow> n = 0xffffffff" for n :: u32
  by (simp add: word_unat_eq_iff)

lemma nitems_less: "n \<noteq> 0xffffffff \<Longrightarrow> Suc (unat n) < 2 ^ 32" for n :: u32
  using unat_less_exp [of n] max_word32 [of n] by simp

lemma mask_Suc_unat: "k \<le> 32 \<Longrightarrow> unat (mask k :: u32) + 1 = 2 ^ k"
  by (simp add: unat_mask)

lemma reorder32_init_inv:
  assumes "max a b - min a b \<noteq> 0xffffffff"
  shows "reorder32_inv (reorder32_init a b)"
  using assms by (auto simp: reorder32_inv_def reorder32_init_def Let_def max_def min_def not_less split: if_splits)

lemma reorder32_init_again:
  "reorder32_inv blk \<Longrightarrow> reorder32_inv (reorder32_init (r_first blk) (r_last blk))"
  by (rule reorder32_init_inv) (auto simp: reorder32_inv_def max_def min_def)

lemma reorder32_next_pending:
  assumes inv: "reorder32_inv blk" and iv: "unat (r_ival blk) \<le> unat (r_nitems blk)"
  shows "\<exists>v vs blk'. reorder32_pending blk = v # vs \<and> reorder32_next blk = Some (Some v, blk')
    \<and> reorder32_inv blk' \<and> reorder32_pending blk' = vs
    \<and> r_first blk' = r_first blk \<and> r_last blk' = r_last blk"
proof -
  let ?n = "unat (r_nitems blk)"
  obtain k where k: "k \<le> 32" "calc_r4block_mask (r_nitems blk) = mask k" "?n < 2 ^ k"
    by (rule calc_r4block_mask_spec)
  have msk: "r_mask blk = mask k" "Suc (unat (mask k :: u32)) = 2 ^ k"
    using inv k mask_Suc_unat by (simp_all add: reorder32_inv_def)
  from k(1,3) obtain w vs where w: "lcg_loop (mask k) (r_nitems blk) (r_curr blk) = Some w"
      "accepted (2 ^ k) ?n (unat (r_curr blk)) = unat w # vs"
      "accepted (2 ^ k) ?n (unat w) = vs @ [unat w]"
    by (rule lcg_loop_accepted)
  have len: "length vs = ?n" using accepted_perm(3) [OF k(3)] w(2) by (metis length_Cons nat.inject)
  have lt: "Suc ?n < 2 ^ 32" using inv by (intro nitems_less) (simp add: reorder32_inv_def)
  have i1: "unat (r_ival blk + 1) = Suc (unat (r_ival blk))"
    using iv lt by (subst unat_add_small) simp_all
  define blk' where "blk' = blk\<lparr>r_curr := w, r_ival := r_ival blk + 1\<rparr>"
  have nxt: "reorder32_next blk = Some (Some (r_first blk + w), blk')"
    using inv iv w(1) i1
    by (simp add: reorder32_next_def reorder32_inv_def msk word_less_nat_alt blk'_def Let_def)
  have rem: "Suc ?n - unat (r_ival blk) = Suc (?n - unat (r_ival blk))" using iv by simp
  have "reorder32_pending blk = (r_first blk + w) # map (\<lambda>v. r_first blk + of_nat v) (take (?n - unat (r_ival blk)) vs)"
    by (simp add: reorder32_pending_def msk w(2) rem)
  moreover have "reorder32_pending blk' = map (\<lambda>v. r_first blk + of_nat v) (take (?n - unat (r_ival blk)) vs)"
    using len by (simp add: reorder32_pending_def blk'_def msk w(3) i1)
  moreover have "reorder32_inv blk'"
    using inv iv i1 unfolding reorder32_inv_def blk'_def by auto
  moreover have "r_first blk' = r_first blk" "r_last blk' = r_last blk" by (simp_all add: blk'_def)
  ultimately show ?thesis using nxt by blast
qed

lemma reorder32_pending_Nil:
  assumes "reorder32_inv blk" and "reorder32_pending blk = []"
  shows "unat (r_nitems blk) < unat (r_ival blk)"
proof (rule ccontr)
  assume "\<not> ?thesis"
  then have "unat (r_ival blk) \<le> unat (r_nitems blk)" by simp
  from reorder32_next_pending [OF assms(1) this] assms(2) show False by auto
qed

definition reorder32_content :: "reorder32 \<Rightarrow> u32 multiset" where
  "reorder32_content blk = mset_set {r_first blk..r_last blk}"

lemma interval_offsets:
  assumes "lo \<le> (hi :: u32)"
  shows "(\<lambda>v. lo + of_nat v) ` {0..unat (hi - lo)} = {lo..hi}"
proof (intro equalityI subsetI)
  have d: "unat (hi - lo) = unat hi - unat lo" using assms by (rule unat_sub)
  have h: "unat hi < 2 ^ 32" using unat_less_exp [of hi] by simp
  fix x
  { assume "x \<in> (\<lambda>v. lo + of_nat v) ` {0..unat (hi - lo)}"
    then obtain v where v: "x = lo + of_nat v" "v \<le> unat hi - unat lo" using d by auto
    have uv: "unat (of_nat v :: u32) = v" using v(2) h by (intro unat_of_nat_small) simp
    then have "unat x = unat lo + v"
      unfolding v(1) using v(2) h assms by (subst unat_add_small) (simp_all add: word_le_nat_alt)
    then show "x \<in> {lo..hi}" using v(2) assms by (simp add: word_le_nat_alt) }
  { assume "x \<in> {lo..hi}"
    then have "x = lo + of_nat (unat (x - lo))" "unat (x - lo) \<le> unat (hi - lo)"
      using d by (auto simp: word_le_nat_alt unat_sub)
    then show "x \<in> (\<lambda>v. lo + of_nat v) ` {0..unat (hi - lo)}" by (intro image_eqI) simp_all }
qed

lemma reorder32_pending_init:
  "mset (reorder32_pending (reorder32_init a b)) = mset_set {min a b..max a b}"
proof -
  define lo hi where "lo = min a b" and "hi = max a b"
  have le: "lo \<le> hi" by (auto simp: lo_def hi_def min_def max_def)
  let ?n = "unat (hi - lo)"
  obtain k where k: "k \<le> 32" "calc_r4block_mask (hi - lo) = mask k" "?n < 2 ^ k"
    by (rule calc_r4block_mask_spec)
  have "reorder32_init a b = \<lparr>r_flags = 0, r_mask = calc_r4block_mask (hi - lo), r_first = lo,
      r_last = hi, r_curr = lo, r_nitems = hi - lo, r_ival = 0\<rparr>"
    by (auto simp: reorder32_init_def Let_def lo_def hi_def max_def min_def not_less)
  then have "reorder32_pending (reorder32_init a b) =
      map (\<lambda>v. lo + of_nat v) (accepted (2 ^ k) ?n (unat lo))"
    using accepted_perm(3) [OF k(3)] k mask_Suc_unat [of k] by (simp add: reorder32_pending_def)
  moreover have "inj_on (\<lambda>v. lo + of_nat v) {0..?n}"
  proof (rule inj_onI)
    fix v w assume vw: "v \<in> {0..?n}" "w \<in> {0..?n}" "lo + of_nat v = lo + (of_nat w :: u32)"
    then have "unat (of_nat v :: u32) = unat (of_nat w :: u32)" by simp
    with vw(1,2) unat_less_exp [of "hi - lo"] show "v = w" by (simp add: unat_of_nat_small)
  qed
  ultimately show ?thesis
    using accepted_perm(1,2) [OF k(3), of "unat lo"] interval_offsets [OF le]
    by (metis distinct_map lo_def hi_def mset_set_set set_map)
qed

interpretation reorder32: iterator reorder32_inv reorder32_pending reorder32_content reorder32_next
proof
  fix blk v vs assume inv: "reorder32_inv blk" and p: "reorder32_pending blk = v # vs"
  then have "unat (r_ival blk) \<le> unat (r_nitems blk)"
    by (auto simp: reorder32_pending_def intro: ccontr)
  from reorder32_next_pending [OF inv this] p
  show "\<exists>s'. reorder32_next blk = Some (Some v, s') \<and> reorder32_inv s' \<and> reorder32_pending s' = vs
      \<and> reorder32_content s' = reorder32_content blk"
    by (auto simp: reorder32_content_def)
next
  fix blk assume inv: "reorder32_inv blk" and p: "reorder32_pending blk = []"
  let ?s' = "reorder32_init (r_first blk) (r_last blk)"
  have le: "r_first blk \<le> r_last blk" using inv unfolding reorder32_inv_def by blast
  from inv p have "reorder32_next blk = Some (None, ?s')"
    by (simp add: reorder32_next_def word_less_nat_alt reorder32_pending_Nil)
  moreover have "mset (reorder32_pending ?s') = reorder32_content blk"
    using le by (simp add: reorder32_pending_init reorder32_content_def max_absorb2 min_absorb1)
  moreover have "reorder32_content ?s' = reorder32_content blk"
    using le by (auto simp: reorder32_init_def reorder32_content_def Let_def)
  ultimately show "\<exists>s'. reorder32_next blk = Some (None, s') \<and> reorder32_inv s' \<and>
      mset (reorder32_pending s') = reorder32_content blk \<and> reorder32_content s' = reorder32_content blk"
    using reorder32_init_again [OF inv] by blast
qed

text \<open>
  The range of all 32-bit values never ends: the counter wraps around before it can exceed
  \<open>nitems\<close>, and \<open>flags &= REORDER32_OVERFLOWED\<close> leaves the flag clear.
\<close>

definition full_block :: "reorder32 \<Rightarrow> bool" where
  "full_block blk \<longleftrightarrow> r_flags blk = 0 \<and> r_nitems blk = 0xffffffff \<and> r_mask blk = 0xffffffff"

lemma full_block_next:
  assumes "full_block blk"
  obtains v blk' where "reorder32_next blk = Some (Some v, blk')" and "full_block blk'"
proof -
  have m: "(mask 32 :: u32) = 0xffffffff" by (simp add: mask_eq_exp_minus_1)
  from lcg_loop_accepted [of 32 "0xffffffff" "r_curr blk"] obtain w where
    "lcg_loop 0xffffffff 0xffffffff (r_curr blk) = Some w" unfolding m by auto
  moreover have "\<not> 0xffffffff < r_ival blk"
    using unat_less_exp [of "r_ival blk"] by (simp add: word_less_nat_alt)
  ultimately show thesis
    using assms that by (auto simp: reorder32_next_def full_block_def Let_def)
qed

lemma calc_mask_full: "calc_r4block_mask 0xffffffff = 0xffffffff"
  by (simp add: calc_r4block_mask_def r4block_mask_loop.simps)

lemma full_block_init: "full_block (reorder32_init 0 0xffffffff)"
  by (simp add: full_block_def reorder32_init_def calc_mask_full)

lemma full_block_collect:
  "full_block blk \<Longrightarrow> \<exists>vs blk'. collect reorder32_next n blk = Some (vs, blk') \<and> length vs = n"
proof (induction n arbitrary: blk)
  case (Suc n)
  from Suc.prems obtain v blk1 where b1: "reorder32_next blk = Some (Some v, blk1)" "full_block blk1"
    by (rule full_block_next)
  from Suc.IH [OF b1(2)] b1(1) show ?case by auto
qed simp

section \<open>Properties\<close>

text \<open>
  C4. A reordering block started on an interval smaller than all of \<open>uint32_t\<close> returns every
  number of the interval exactly once and then reports the end of the cycle; every further
  cycle does so again. In particular every call returns.
\<close>

theorem reorder32_permutation:
  assumes "max a b - min a b \<noteq> 0xffffffff" and "unat (max a b - min a b) + 1 < n"
  shows "\<exists>vs s'. collect reorder32_next n (reorder32_init a b) = Some (vs, s')
    \<and> distinct vs \<and> set vs = {min a b..max a b} \<and> reorder32_inv s'
    \<and> mset (reorder32_pending s') = mset vs"
proof -
  let ?s = "reorder32_init a b"
  have i: "reorder32_inv ?s" using assms(1) by (rule reorder32_init_inv)
  have m: "mset (reorder32_pending ?s) = mset_set {min a b..max a b}" by (rule reorder32_pending_init)
  have d: "distinct (reorder32_pending ?s)" "set (reorder32_pending ?s) = {min a b..max a b}"
    using mset_set_list [OF m] by simp_all
  have c: "reorder32_content ?s = mset_set {min a b..max a b}"
    by (auto simp: reorder32_content_def reorder32_init_def Let_def max_def min_def not_less)
  have le: "min a b \<le> max a b" by (auto simp: min_def max_def)
  have "length (reorder32_pending ?s) = card {min a b..max a b}" using m by (metis size_mset size_mset_set)
  also have "\<dots> \<le> Suc (unat (max a b - min a b))"
    using card_image_le [of "{0..unat (max a b - min a b)}" "\<lambda>v. min a b + of_nat v"]
    unfolding interval_offsets [OF le] by simp
  finally have "length (reorder32_pending ?s) < n" using assms(2) by simp
  from reorder32.collect_all [OF i this] d c m show ?thesis by auto
qed

theorem reorder32_permutation_witness:
  "\<exists>vs s'. collect reorder32_next 5 (reorder32_init 12 10) = Some (vs, s') \<and> distinct vs \<and> set vs = {10..12}"
  using reorder32_permutation [of 12 10 5] by (auto simp: min_def max_def)

text \<open>
  C16. On the full interval a block never reports the end of a cycle: the flag that should
  mark the overflow of the counter is combined by a bitwise and, so it is never set, and any
  number of calls keeps returning values.
\<close>

theorem reorder32_full_never_ends:
  "\<exists>vs s'. collect reorder32_next n (reorder32_init 0 0xffffffff) = Some (vs, s') \<and> length vs = n"
  using full_block_collect [OF full_block_init] .

end
