(* ===== verification/Ports.thy ===== *)
theory Ports
  imports Buf Reorder
begin

text \<open>
  Port ranges, \<^verbatim>\<open>lib/net/ports.c\<close>: the parser of lists such as \<open>22,80-90\<close>, their
  normal form (sorted, overlapping and adjacent ranges joined), the iterator over all ports
  and the printer. The array \<open>ranges\<close> is a list of all allocated elements; \<open>nranges\<close>
  counts the used ones. An access outside the array is undefined behaviour, the outer
  \<^const>\<open>None\<close>. Counts of ranges are natural numbers: they are bounded by the allocated
  memory.
\<close>

section \<open>Data\<close>

datatype port_range = PortRange (pr_start: u16) (pr_end: u16)

text \<open>The comparison function given to \<open>qsort\<close>; the subtraction is on promoted ints.\<close>

definition rangecmp :: "port_range \<Rightarrow> port_range \<Rightarrow> int" where
  "rangecmp r0 r1 =
     (if pr_start r0 = pr_start r1 then uint (pr_end r0) - uint (pr_end r1)
      else uint (pr_start r0) - uint (pr_start r1))"

instantiation port_range :: linorder
begin

definition less_eq_port_range :: "port_range \<Rightarrow> port_range \<Rightarrow> bool" where
  "r0 \<le> r1 \<longleftrightarrow> rangecmp r0 r1 \<le> 0"

definition less_port_range :: "port_range \<Rightarrow> port_range \<Rightarrow> bool" where
  "r0 < r1 \<longleftrightarrow> rangecmp r0 r1 < 0"

instance
proof
  fix x y z :: port_range
  show "x < y \<longleftrightarrow> x \<le> y \<and> \<not> y \<le> x"
    by (auto simp: less_eq_port_range_def less_port_range_def rangecmp_def)
  show "x \<le> x" by (simp add: less_eq_port_range_def rangecmp_def)
  show "x \<le> y \<Longrightarrow> y \<le> z \<Longrightarrow> x \<le> z"
    by (auto simp: less_eq_port_range_def rangecmp_def word_uint_eq_iff split: if_splits)
  show "x \<le> y \<Longrightarrow> y \<le> x \<Longrightarrow> x = y"
    by (cases x; cases y) (auto simp: less_eq_port_range_def rangecmp_def word_uint_eq_iff split: if_splits)
  show "x \<le> y \<or> y \<le> x"
    by (auto simp: less_eq_port_range_def rangecmp_def)
qed

end

record port_ranges =
  pp_cap :: nat
  pp_nranges :: nat
  pp_ranges :: "port_range list"
  pp_curr_range :: nat
  pp_curr_port :: u16
  pp_dirty :: bool

definition port_ranges_zero :: port_ranges where
  "port_ranges_zero = \<lparr>pp_cap = 0, pp_nranges = 0, pp_ranges = [], pp_curr_range = 0,
     pp_curr_port = 0, pp_dirty = False\<rparr>"

section \<open>Normal form\<close>

text \<open>
  The loop of \<open>compress_ranges\<close>. As in the source, \<open>nranges\<close> is not adjusted after a
  \<open>memmove\<close>, so the loop goes on over stale copies of ranges it has already seen.
\<close>

function compress_loop ::
  "nat \<Rightarrow> nat \<Rightarrow> nat \<Rightarrow> port_range list \<Rightarrow> nat \<times> port_range list" where
  "compress_loop nranges cur nxt rs =
     (if nxt < nranges then
        if unat (pr_end (rs ! cur)) + 1 \<ge> unat (pr_start (rs ! nxt)) then
          compress_loop nranges cur (Suc nxt)
            (if pr_end (rs ! nxt) > pr_end (rs ! cur)
             then rs[cur := PortRange (pr_start (rs ! cur)) (pr_end (rs ! nxt))] else rs)
        else
          (let cur' = Suc cur
           in if nxt > cur'
              then compress_loop nranges cur' (Suc cur') (memmove cur' nxt (nranges - nxt) rs)
              else compress_loop nranges cur' (Suc nxt) rs)
      else (Suc cur, rs))"
  by pat_completeness auto
termination
  by (relation "measures [\<lambda>(n, cur, nxt, rs). 2 * n - cur, \<lambda>(n, cur, nxt, rs). n - nxt]") auto

declare compress_loop.simps [simp del]

definition compress_ranges :: "port_ranges \<Rightarrow> nat \<times> port_range list" where
  "compress_ranges rs = compress_loop (pp_nranges rs) 0 1 (pp_ranges rs)"

text \<open>
  \<open>qsort\<close> with a comparison function that is a linear order has one possible result.
\<close>

definition undirtify :: "port_ranges \<Rightarrow> port_ranges" where
  "undirtify rs =
     (let sorted = sort (take (pp_nranges rs) (pp_ranges rs)) @ drop (pp_nranges rs) (pp_ranges rs);
          (n, rs') = compress_loop (pp_nranges rs) 0 1 sorted
      in rs\<lparr>pp_ranges := rs', pp_nranges := n, pp_dirty := False\<rparr>)"

definition UNDIRTIFY :: "port_ranges \<Rightarrow> port_ranges" where
  "UNDIRTIFY rs = (if pp_dirty rs then undirtify rs else rs)"

section \<open>Operations\<close>

definition DIRT_LIMIT :: nat where
  "DIRT_LIMIT = 65536"

text \<open>
  \<open>realloc\<close> leaves the new elements unspecified: \<open>fresh i\<close> is what the memory of element \<open>i\<close>
  happens to hold. The boolean is whether the returned pointer is not NULL; a NULL array is an
  empty list.
\<close>

definition prep_insertion ::
  "allocator \<Rightarrow> (nat \<Rightarrow> port_range) \<Rightarrow> port_ranges \<Rightarrow> nat \<Rightarrow> bool \<times> port_ranges" where
  "prep_insertion ok fresh rs needed =
     (let rs = (if pp_nranges rs > DIRT_LIMIT then UNDIRTIFY rs else rs)
      in if needed > pp_cap rs - pp_nranges rs
         then (let n = pp_cap rs + needed;
                   n = n + n div 2
               in if ok (of_nat (4 * n))
                  then (True, rs\<lparr>pp_cap := n,
                          pp_ranges := pp_ranges rs @ map fresh [length (pp_ranges rs)..<n]\<rparr>)
                  else (False, rs))
         else (pp_ranges rs \<noteq> [], rs))"

definition port_ranges_add_ranges ::
  "allocator \<Rightarrow> (nat \<Rightarrow> port_range) \<Rightarrow> port_ranges \<Rightarrow> port_ranges \<Rightarrow> (status \<times> port_ranges) option" where
  "port_ranges_add_ranges ok fresh dst from =
     (if pp_nranges from = 0 then Some (0, dst)
      else case prep_insertion ok fresh dst (pp_nranges from) of
        (False, dst) \<Rightarrow> Some (-1, dst)
      | (True, dst) \<Rightarrow>
          do { a \<leftarrow> poke (pp_nranges dst) (take (pp_nranges from) (pp_ranges from)) (pp_ranges dst);
               Some (0, dst\<lparr>pp_ranges := a, pp_nranges := pp_nranges dst + pp_nranges from,
                             pp_dirty := True\<rparr>) })"

definition port_ranges_add_range ::
  "allocator \<Rightarrow> (nat \<Rightarrow> port_range) \<Rightarrow> port_ranges \<Rightarrow> port_range \<Rightarrow> (status \<times> port_ranges) option" where
  "port_ranges_add_range ok fresh dst r =
     (case prep_insertion ok fresh dst 1 of
        (False, dst) \<Rightarrow> Some (-1, dst)
      | (True, dst) \<Rightarrow>
          do { a \<leftarrow> poke (pp_nranges dst) [r] (pp_ranges dst);
               Some (0, dst\<lparr>pp_ranges := a, pp_nranges := pp_nranges dst + 1, pp_dirty := True\<rparr>) })"

definition port_ranges_add_port ::
  "allocator \<Rightarrow> (nat \<Rightarrow> port_range) \<Rightarrow> port_ranges \<Rightarrow> u16 \<Rightarrow> (status \<times> port_ranges) option" where
  "port_ranges_add_port ok fresh dst port = port_ranges_add_range ok fresh dst (PortRange port port)"

definition port_ranges_cleanup :: "port_ranges \<Rightarrow> port_ranges" where
  "port_ranges_cleanup rs =
     rs\<lparr>pp_ranges := [], pp_nranges := 0, pp_curr_range := 0, pp_curr_port := 0\<rparr>"

definition port_ranges_reset :: "port_ranges \<Rightarrow> port_ranges" where
  "port_ranges_reset rs = rs\<lparr>pp_curr_range := 0, pp_curr_port := 0\<rparr>"

text \<open>Reading element \<open>i\<close> of the array.\<close>

definition range_at :: "port_ranges \<Rightarrow> nat \<Rightarrow> port_range option" where
  "range_at rs i = (if i < length (pp_ranges rs) then Some (pp_ranges rs ! i) else None)"

text \<open>
  After the last port of a range the start of the next element is read, also when there is no
  next range.
\<close>

definition port_ranges_next :: "port_ranges \<Rightarrow> (u16 option \<times> port_ranges) option" where
  "port_ranges_next rs =
     (let rs = UNDIRTIFY rs
      in if pp_curr_range rs \<ge> pp_nranges rs then Some (None, port_ranges_reset rs)
         else do {
           r \<leftarrow> range_at rs (pp_curr_range rs);
           let rs = (if pp_curr_range rs = 0 \<and> pp_curr_port rs = 0
                     then rs\<lparr>pp_curr_port := pr_start r\<rparr> else rs);
           let out = pp_curr_port rs;
           if pr_end r > out then Some (Some out, rs\<lparr>pp_curr_port := out + 1\<rparr>)
           else do {
             r' \<leftarrow> range_at rs (pp_curr_range rs + 1);
             Some (Some out, rs\<lparr>pp_curr_range := pp_curr_range rs + 1, pp_curr_port := pr_start r'\<rparr>)
           }
         })"

text \<open>\<open>snprintf(pad, 16, "%s%hu-%hu", ...)\<close>\<close>

definition range_text :: "string \<Rightarrow> port_range \<Rightarrow> string" where
  "range_text sep r =
     (if pr_start r = pr_end r then sep @ dec_digits (unat (pr_start r))
      else sep @ dec_digits (unat (pr_start r)) @ ''-'' @ dec_digits (unat (pr_end r)))"

definition append_range :: "allocator \<Rightarrow> buf_t \<Rightarrow> port_range \<Rightarrow> string \<Rightarrow> (status \<times> buf_t) option" where
  "append_range ok b r sep =
     (let pad = range_text sep r
      in if length pad = 0 \<or> length pad \<ge> 16 then Some (-1, b)
         else do { (ret, b') \<leftarrow> buf_adata ok b pad; Some (if ret < 0 then -1 else 0, b') })"

fun append_ranges_loop :: "allocator \<Rightarrow> buf_t \<Rightarrow> port_range list \<Rightarrow> (status \<times> buf_t) option" where
  "append_ranges_loop ok b [] = Some (0, b)"
| "append_ranges_loop ok b (r # rs) =
     do { (ret, b') \<leftarrow> append_range ok b r '' '';
          if ret < 0 then Some (-1, b') else append_ranges_loop ok b' rs }"

text \<open>
  The first range is printed from the current port on; \<open>rs\<close> comes back clean, with the
  iteration position initialised.
\<close>

definition port_ranges_to_buf ::
  "allocator \<Rightarrow> port_ranges \<Rightarrow> buf_t \<Rightarrow> (status \<times> port_ranges \<times> buf_t) option" where
  "port_ranges_to_buf ok rs b =
     (let rs = UNDIRTIFY rs; b = buf_clear b
      in if pp_curr_range rs \<ge> pp_nranges rs then Some (0, rs, b)
         else do {
           r \<leftarrow> range_at rs (pp_curr_range rs);
           let rs = (if pp_curr_range rs = 0 \<and> pp_curr_port rs = 0
                     then rs\<lparr>pp_curr_port := pr_start r\<rparr> else rs);
           (ret, b) \<leftarrow> append_range ok b (PortRange (pp_curr_port rs) (pr_end r)) [];
           if ret < 0 then Some (-1, rs, b)
           else do {
             (ret, b) \<leftarrow> append_ranges_loop ok b
                (drop (pp_curr_range rs + 1) (take (pp_nranges rs) (pp_ranges rs)));
             Some (ret, rs, b)
           }
         })"

section \<open>Correctness of the normal form\<close>

definition range_set :: "port_range \<Rightarrow> u16 set" where
  "range_set r = {pr_start r..pr_end r}"

definition ports_of :: "port_range list \<Rightarrow> u16 set" where
  "ports_of rs = (\<Union>r\<in>set rs. range_set r)"

lemma ports_of_simps [simp]:
  "ports_of [] = {}" "ports_of (r # rs) = range_set r \<union> ports_of rs"
  "ports_of (rs @ qs) = ports_of rs \<union> ports_of qs"
  by (auto simp: ports_of_def)

definition range_ok :: "port_range \<Rightarrow> bool" where
  "range_ok r \<longleftrightarrow> pr_start r \<le> pr_end r"

text \<open>Sorted, disjoint and not adjacent.\<close>

definition apart :: "port_range \<Rightarrow> port_range \<Rightarrow> bool" where
  "apart r q \<longleftrightarrow> unat (pr_end r) + 1 < unat (pr_start q)"

definition normal :: "port_range list \<Rightarrow> bool" where
  "normal rs \<longleftrightarrow> (\<forall>r\<in>set rs. range_ok r) \<and> sorted_wrt apart rs"

lemma normal_simps [simp]: "normal []" "normal [r] \<longleftrightarrow> range_ok r"
  by (simp_all add: normal_def)

lemma apart_trans: "apart r q \<Longrightarrow> range_ok q \<Longrightarrow> apart q t \<Longrightarrow> apart r t"
  by (simp add: apart_def range_ok_def word_le_nat_alt)

lemma normal_snoc:
  assumes "normal (rs @ [r])" and "apart r q" and "range_ok q"
  shows "normal (rs @ [r, q])"
proof -
  have "apart t q" if "t \<in> set rs" for t
  proof (rule apart_trans)
    show "apart t r" "range_ok r" using assms(1) that by (auto simp: normal_def sorted_wrt_append)
  qed (rule assms(2))
  with assms show ?thesis by (auto simp: normal_def sorted_wrt_append)
qed

lemma normal_extend:
  assumes "normal (rs @ [r])" and "pr_end r \<le> e"
  shows "normal (rs @ [PortRange (pr_start r) e])"
  using assms by (auto simp: normal_def sorted_wrt_append range_ok_def apart_def word_le_nat_alt)

lemma normal_max:
  assumes "normal (rs @ [r])" and "p \<in> ports_of (rs @ [r])"
  shows "p \<le> pr_end r"
proof (cases "p \<in> range_set r")
  case True
  then show ?thesis by (simp add: range_set_def)
next
  case False
  then obtain t where "t \<in> set rs" "p \<in> range_set t" using assms(2) by (auto simp: ports_of_def)
  with assms(1) have "unat p \<le> unat (pr_end t)" "unat (pr_end t) + 1 < unat (pr_start r)"
      "unat (pr_start r) \<le> unat (pr_end r)"
    by (auto simp: range_set_def normal_def sorted_wrt_append apart_def range_ok_def word_le_nat_alt)
  then show ?thesis by (simp add: word_le_nat_alt)
qed

lemma range_set_merge:
  assumes "range_ok r" and "pr_start r \<le> pr_start q" and "unat (pr_start q) \<le> unat (pr_end r) + 1"
    and "pr_end r < pr_end q"
  shows "range_set (PortRange (pr_start r) (pr_end q)) = range_set r \<union> range_set q"
  using assms by (auto simp: range_set_def range_ok_def word_le_nat_alt word_less_nat_alt)

text \<open>
  The invariant of the loop: what has been merged so far (\<open>pre @ [r]\<close>) is in normal form, what
  lies ahead is a sorted list of ranges not seen yet followed by stale copies, and no element
  of the array has a port outside \<open>U\<close>.
\<close>

definition compress_inv ::
  "u16 set \<Rightarrow> port_range list \<Rightarrow> port_range \<Rightarrow> port_range list \<Rightarrow> port_range list \<Rightarrow> bool" where
  "compress_inv U pre r ahead junk \<longleftrightarrow>
     normal (pre @ [r]) \<and>
     (\<exists>live stale. ahead = live @ stale \<and> sorted (map pr_start live)
        \<and> (\<forall>l\<in>set live. pr_start r \<le> pr_start l)
        \<and> ports_of (pre @ [r]) \<union> ports_of live = U)
     \<and> (\<forall>q\<in>set (ahead @ junk). range_ok q \<and> range_set q \<subseteq> U)"

lemma compress_inv_merge:
  assumes inv: "compress_inv U pre r (q # ahead) junk"
    and m: "unat (pr_start q) \<le> unat (pr_end r) + 1"
  shows "compress_inv U pre
    (if pr_end q > pr_end r then PortRange (pr_start r) (pr_end q) else r) ahead (junk @ [q])"
    (is "compress_inv U pre ?r' ahead _")
proof -
  from inv obtain live stale where n: "normal (pre @ [r])" and a: "q # ahead = live @ stale"
      and s: "sorted (map pr_start live)" "\<forall>l\<in>set live. pr_start r \<le> pr_start l"
      and U: "ports_of (pre @ [r]) \<union> ports_of live = U"
      and q: "\<forall>q\<in>set (q # ahead @ junk). range_ok q \<and> range_set q \<subseteq> U"
    by (auto simp: compress_inv_def)
  have r: "range_ok r" using n by (simp add: normal_def)
  have n': "normal (pre @ [?r'])" using n normal_extend [OF n, of "pr_end q"] by simp
  show ?thesis
  proof (cases live)
    case Nil
    with U have "range_set q \<subseteq> ports_of (pre @ [r])" using q by simp
    moreover have "pr_end q \<in> range_set q" using q by (simp add: range_set_def range_ok_def)
    ultimately have "pr_end q \<le> pr_end r" using normal_max [OF n] by blast
    then have r': "?r' = r" by (auto dest: leD)
    show ?thesis
      unfolding compress_inv_def r' using n U a q Nil
      by (intro conjI exI [of _ "[]"] exI [of _ ahead]) auto
  next
    case (Cons l live')
    with a have l: "l = q" "ahead = live' @ stale" by simp_all
    have "range_set ?r' = range_set r \<union> range_set q"
    proof (cases "pr_end q > pr_end r")
      case True
      with r s m l Cons show ?thesis by (simp add: range_set_merge)
    next
      case False
      then have "range_set q \<subseteq> range_set r" using s l Cons by (auto simp: range_set_def)
      with False show ?thesis by auto
    qed
    with U Cons l have "ports_of (pre @ [?r']) \<union> ports_of live' = U" by auto
    moreover have "pr_start ?r' = pr_start r" by simp
    ultimately show ?thesis
      using n' s q l Cons unfolding compress_inv_def by (intro conjI exI [of _ live'] exI [of _ stale]) auto
  qed
qed

lemma compress_inv_advance:
  assumes inv: "compress_inv U pre r (q # ahead) junk"
    and m: "\<not> unat (pr_start q) \<le> unat (pr_end r) + 1"
    and junk': "set junk' \<subseteq> set (q # ahead @ junk)" and junk'': "set junk'' \<subseteq> set (q # ahead @ junk)"
  shows "compress_inv U (pre @ [r]) q (ahead @ junk') junk''"
proof -
  from inv obtain live stale where n: "normal (pre @ [r])" and a: "q # ahead = live @ stale"
      and s: "sorted (map pr_start live)"
      and U: "ports_of (pre @ [r]) \<union> ports_of live = U"
      and q: "\<forall>q\<in>set (q # ahead @ junk). range_ok q \<and> range_set q \<subseteq> U"
    by (auto simp: compress_inv_def)
  have "live \<noteq> []"
  proof
    assume "live = []"
    with U q have "range_set q \<subseteq> ports_of (pre @ [r])" by simp
    moreover have "pr_start q \<in> range_set q" using q by (simp add: range_set_def range_ok_def)
    ultimately have "pr_start q \<le> pr_end r" using normal_max [OF n] by blast
    with m show False by (simp add: word_le_nat_alt)
  qed
  then obtain live' where live: "live = q # live'" "ahead = live' @ stale" using a by (cases live) auto
  have "normal ((pre @ [r]) @ [q])"
    using normal_snoc [OF n, of q] m q by (simp add: apart_def)
  moreover have "ports_of ((pre @ [r]) @ [q]) \<union> ports_of live' = U" using U live by auto
  ultimately show ?thesis
    using s live q junk' junk'' unfolding compress_inv_def
    by (intro conjI exI [of _ live'] exI [of _ "stale @ junk'"]) auto
qed

lemma drop_take_Cons: "i < n \<Longrightarrow> n \<le> length xs \<Longrightarrow> drop i (take n xs) = xs ! i # drop (Suc i) (take n xs)"
  using Cons_nth_drop_Suc [of i "take n xs"] by simp

lemma take_Suc_snoc: "i < length xs \<Longrightarrow> take (Suc i) xs = take i xs @ [xs ! i]"
  by (rule take_Suc_conv_app_nth)

lemma drop_take_split:
  assumes "j \<le> i" and "i \<le> n" and "n \<le> length xs"
  shows "drop j (take n xs) = drop j (take i xs) @ drop i (take n xs)"
proof -
  have "take n xs = take i xs @ drop i (take n xs)"
    using append_take_drop_id [of i "take n xs"] assms by (simp add: min_absorb1)
  then have "drop j (take n xs) = drop j (take i xs @ drop i (take n xs))" by simp
  with assms show ?thesis by simp
qed

lemma memmove_spec:
  assumes "n \<le> length rs" and "nxt < n" and "c < nxt"
  defines "rs' \<equiv> memmove c nxt (n - nxt) rs"
  shows "length rs' = length rs" and "take c rs' = take c rs" and "rs' ! c = rs ! nxt"
    and "drop n rs' = drop n rs"
    and "drop (Suc c) (take n rs') = drop (Suc nxt) (take n rs) @ drop (c + (n - nxt)) (take n rs)"
proof -
  have d: "take (n - nxt) (drop nxt rs) = drop nxt (take n rs)" using assms(1-3) by (simp add: drop_take)
  have rs': "rs' = take c rs @ drop nxt (take n rs) @ drop (c + (n - nxt)) rs"
    by (simp add: rs'_def memmove_def d)
  show "length rs' = length rs" "take c rs' = take c rs" "rs' ! c = rs ! nxt"
    using assms(1-3) by (simp_all add: rs' nth_append)
  show "drop n rs' = drop n rs" using assms(1-3) by (simp add: rs')
  have "take n rs' = take c rs @ drop nxt (take n rs) @ drop (c + (n - nxt)) (take n rs)"
    using assms(1-3) by (simp add: rs' drop_take)
  then show "drop (Suc c) (take n rs') = drop (Suc nxt) (take n rs) @ drop (c + (n - nxt)) (take n rs)"
    using assms(1-3) drop_take_Cons [of nxt n rs] by simp
qed

definition compress_state :: "u16 set \<Rightarrow> nat \<Rightarrow> nat \<Rightarrow> nat \<Rightarrow> port_range list \<Rightarrow> bool" where
  "compress_state U n cur nxt rs \<longleftrightarrow> n \<le> length rs \<and> cur < nxt \<and> nxt \<le> n
     \<and> compress_inv U (take cur rs) (rs ! cur) (drop nxt (take n rs)) (drop (Suc cur) (take nxt rs))"

lemma compress_state_merge:
  assumes st: "compress_state U n cur nxt rs" and "nxt < n"
    and m: "unat (pr_start (rs ! nxt)) \<le> unat (pr_end (rs ! cur)) + 1"
  shows "compress_state U n cur (Suc nxt)
    (if pr_end (rs ! nxt) > pr_end (rs ! cur)
     then rs[cur := PortRange (pr_start (rs ! cur)) (pr_end (rs ! nxt))] else rs)"
    (is "compress_state U n cur (Suc nxt) ?rs'")
proof -
  from st have b: "n \<le> length rs" "cur < nxt" by (simp_all add: compress_state_def)
  let ?r = "if pr_end (rs ! nxt) > pr_end (rs ! cur) then PortRange (pr_start (rs ! cur)) (pr_end (rs ! nxt)) else rs ! cur"
  have "compress_inv U (take cur rs) (rs ! cur) (rs ! nxt # drop (Suc nxt) (take n rs)) (drop (Suc cur) (take nxt rs))"
    using st b \<open>nxt < n\<close> by (simp add: compress_state_def flip: drop_take_Cons)
  from compress_inv_merge [OF this m]
  have "compress_inv U (take cur rs) ?r (drop (Suc nxt) (take n rs)) (drop (Suc cur) (take nxt rs) @ [rs ! nxt])" .
  moreover have "take cur ?rs' = take cur rs" "?rs' ! cur = ?r" "length ?rs' = length rs"
      "drop (Suc nxt) (take n ?rs') = drop (Suc nxt) (take n rs)"
    using b \<open>nxt < n\<close> by (simp_all add: take_update_swap list_update_beyond)
  moreover have "drop (Suc cur) (take (Suc nxt) ?rs') = drop (Suc cur) (take nxt rs) @ [rs ! nxt]"
    using b \<open>nxt < n\<close> by (simp add: take_update_swap take_Suc_snoc)
  ultimately show ?thesis using b \<open>nxt < n\<close> by (simp add: compress_state_def)
qed

lemma compress_state_advance:
  assumes st: "compress_state U n cur nxt rs" and "nxt < n"
    and m: "\<not> unat (pr_start (rs ! nxt)) \<le> unat (pr_end (rs ! cur)) + 1"
  shows "nxt \<le> Suc cur \<Longrightarrow> compress_state U n (Suc cur) (Suc nxt) rs"
    and "Suc cur < nxt \<Longrightarrow> compress_state U n (Suc cur) (Suc (Suc cur)) (memmove (Suc cur) nxt (n - nxt) rs)"
proof -
  from st have b: "n \<le> length rs" "cur < nxt" by (simp_all add: compress_state_def)
  let ?j = "drop (Suc cur) (take nxt rs)"
  have inv: "compress_inv U (take cur rs) (rs ! cur) (rs ! nxt # drop (Suc nxt) (take n rs)) ?j"
    using st b \<open>nxt < n\<close> by (simp add: compress_state_def flip: drop_take_Cons)
  note adv = compress_inv_advance [OF inv m]
  have t: "take (Suc cur) rs = take cur rs @ [rs ! cur]" using b \<open>nxt < n\<close> by (simp add: take_Suc_snoc)
  { assume "nxt \<le> Suc cur"
    then have "nxt = Suc cur" using b by simp
    with adv [of "[]" "[]"] t b \<open>nxt < n\<close> show "compress_state U n (Suc cur) (Suc nxt) rs"
      by (simp add: compress_state_def) }
  { assume c: "Suc cur < nxt"
    let ?k = "drop (Suc cur + (n - nxt)) (take n rs)"
    have "drop (Suc cur) (take n rs) = ?j @ rs ! nxt # drop (Suc nxt) (take n rs)"
      using b c \<open>nxt < n\<close> drop_take_split [of "Suc cur" nxt n rs] by (simp flip: drop_take_Cons)
    moreover have "set ?k \<subseteq> set (drop (Suc cur) (take n rs))"
      by (rule set_drop_subset_set_drop) simp
    ultimately have "set ?k \<subseteq> set (rs ! nxt # drop (Suc nxt) (take n rs) @ ?j)" by auto
    from adv [OF this, of "[]"] t memmove_spec [OF b(1) \<open>nxt < n\<close> c] b c \<open>nxt < n\<close>
    show "compress_state U n (Suc cur) (Suc (Suc cur)) (memmove (Suc cur) nxt (n - nxt) rs)"
      by (simp add: compress_state_def) }
qed

lemma compress_state_end:
  assumes "compress_state U n cur nxt rs" and "\<not> nxt < n"
  shows "normal (take (Suc cur) rs)" and "ports_of (take (Suc cur) rs) = U" and "Suc cur \<le> n"
    and "\<forall>q\<in>set (take n rs). range_ok q" and "ports_of (take n rs) = U"
proof -
  from assms have c: "cur < n" "nxt = n" "n \<le> length rs" by (simp_all add: compress_state_def)
  then have t: "take (Suc cur) rs = take cur rs @ [rs ! cur]" by (simp add: take_Suc_snoc)
  from assms c have "compress_inv U (take cur rs) (rs ! cur) [] (drop (Suc cur) (take n rs))"
    by (simp add: compress_state_def)
  then show n: "normal (take (Suc cur) rs)" and U: "ports_of (take (Suc cur) rs) = U"
    and "Suc cur \<le> n" using c unfolding t by (auto simp: compress_inv_def)
  have j: "\<forall>q\<in>set (drop (Suc cur) (take n rs)). range_ok q \<and> range_set q \<subseteq> U"
    using \<open>compress_inv U _ _ [] _\<close> by (simp add: compress_inv_def)
  have s: "take n rs = take (Suc cur) rs @ drop (Suc cur) (take n rs)"
    using c append_take_drop_id [of "Suc cur" "take n rs"] by (simp add: min_absorb1)
  show "\<forall>q\<in>set (take n rs). range_ok q" using n j by (subst s) (auto simp: normal_def)
  show "ports_of (take n rs) = U" using U j by (subst s) (auto simp: ports_of_def)
qed

lemma compress_loop_correct:
  assumes "compress_state U n cur nxt rs" and "compress_loop n cur nxt rs = (m, rs')"
  shows "normal (take m rs') \<and> ports_of (take m rs') = U \<and> 0 < m \<and> m \<le> n \<and> length rs' = length rs
    \<and> (\<forall>q\<in>set (take n rs'). range_ok q) \<and> ports_of (take n rs') = U"
  using assms
proof (induction n cur nxt rs rule: compress_loop.induct)
  case (1 n cur nxt rs)
  note st = \<open>compress_state U n cur nxt rs\<close>
  show ?case
  proof (cases "nxt < n")
    case False
    with 1(5) have "m = Suc cur" "rs' = rs" by (simp_all add: compress_loop.simps [of n cur nxt rs])
    with compress_state_end [OF st False] show ?thesis by simp
  next
    case nxt: True
    show ?thesis
    proof (cases "unat (pr_start (rs ! nxt)) \<le> unat (pr_end (rs ! cur)) + 1")
      case True
      note st' = compress_state_merge [OF st nxt True]
      show ?thesis
        using 1(1) [OF nxt _ st'] True 1(5) nxt by (simp add: compress_loop.simps [of n cur nxt rs])
    next
      case False
      note st' = compress_state_advance [OF st nxt False]
      have len: "length (memmove (Suc cur) nxt (n - nxt) rs) = length rs" if "Suc cur < nxt"
        using st nxt that by (intro memmove_spec(1)) (simp_all add: compress_state_def)
      show ?thesis
      proof (cases "Suc cur < nxt")
        case c: True
        show ?thesis
          using 1(2) [OF nxt _ refl c st'(2) [OF c]] False 1(5) nxt c len
          by (simp add: compress_loop.simps [of n cur nxt rs])
      next
        case c: False
        then have c': "nxt \<le> Suc cur" by simp
        show ?thesis
          using 1(3) [OF nxt _ refl c st'(1) [OF c']] False 1(5) nxt c
          by (simp add: compress_loop.simps [of n cur nxt rs])
      qed
    qed
  qed
qed

definition ranges_wf :: "port_ranges \<Rightarrow> bool" where
  "ranges_wf rs \<longleftrightarrow> pp_nranges rs \<le> length (pp_ranges rs) \<and> pp_cap rs = length (pp_ranges rs)
     \<and> (\<forall>r\<in>set (take (pp_nranges rs) (pp_ranges rs)). range_ok r)
     \<and> (pp_dirty rs \<longrightarrow> 0 < pp_nranges rs)
     \<and> (\<not> pp_dirty rs \<longrightarrow> normal (take (pp_nranges rs) (pp_ranges rs)))"

definition used :: "port_ranges \<Rightarrow> port_range list" where
  "used rs = take (pp_nranges rs) (pp_ranges rs)"

lemma less_eq_start: "r \<le> q \<Longrightarrow> pr_start r \<le> pr_start q"
  by (auto simp: less_eq_port_range_def rangecmp_def word_le_def split: if_splits)

lemma sorted_starts: "sorted rs \<Longrightarrow> sorted (map pr_start rs)"
  by (induction rs) (auto dest: less_eq_start)

lemma compress_state_init:
  assumes "0 < n" and "n \<le> length rs" and "sorted (take n rs)" and "\<forall>r\<in>set (take n rs). range_ok r"
  shows "compress_state (ports_of (take n rs)) n 0 1 rs"
proof -
  obtain r0 t where t: "take n rs = r0 # t" using assms(1,2) by (cases "take n rs") auto
  have r0: "rs ! 0 = r0" "drop 1 (take n rs) = t"
    using assms(1) nth_take [of 0 n rs] by (simp_all add: t)
  have "range_ok r0" "sorted t" "\<forall>l\<in>set t. r0 \<le> l" "\<forall>r\<in>set t. range_ok r"
    using assms(3,4) by (simp_all add: t)
  moreover have "\<forall>q\<in>set t. range_set q \<subseteq> ports_of t" by (auto simp: ports_of_def)
  ultimately have "compress_inv (ports_of (take n rs)) [] r0 t []"
    unfolding compress_inv_def t
    by (intro conjI exI [of _ t] exI [of _ "[]"]) (auto intro: sorted_starts less_eq_start)
  then show ?thesis using assms(1,2) r0 by (simp add: compress_state_def)
qed

lemma undirtify_correct:
  assumes wf: "ranges_wf rs" and d: "pp_dirty rs"
  shows "ranges_wf (undirtify rs)" and "\<not> pp_dirty (undirtify rs)"
    and "normal (used (undirtify rs))" and "ports_of (used (undirtify rs)) = ports_of (used rs)"
    and "length (pp_ranges (undirtify rs)) = length (pp_ranges rs)"
    and "pp_nranges (undirtify rs) \<le> pp_nranges rs" and "0 < pp_nranges (undirtify rs)"
    and "\<forall>r\<in>set (take (pp_nranges rs) (pp_ranges (undirtify rs))). range_ok r"
    and "ports_of (take (pp_nranges rs) (pp_ranges (undirtify rs))) = ports_of (used rs)"
proof -
  let ?n = "pp_nranges rs"
  define srt where "srt = sort (take ?n (pp_ranges rs)) @ drop ?n (pp_ranges rs)"
  obtain m rs' where c: "compress_loop ?n 0 1 srt = (m, rs')" by fastforce
  have u: "undirtify rs = rs\<lparr>pp_ranges := rs', pp_nranges := m, pp_dirty := False\<rparr>"
    using c by (simp add: undirtify_def srt_def Let_def)
  have n: "0 < ?n" "?n \<le> length (pp_ranges rs)" using wf d by (simp_all add: ranges_wf_def)
  then have l: "length srt = length (pp_ranges rs)" by (simp add: srt_def)
  have t: "take ?n srt = sort (used rs)" using n by (simp add: srt_def used_def)
  have U: "ports_of (take ?n srt) = ports_of (used rs)" by (simp add: t ports_of_def)
  have "compress_state (ports_of (used rs)) ?n 0 1 srt"
    using compress_state_init [of ?n srt] n wf l unfolding U t
    by (simp add: ranges_wf_def used_def ports_of_def)
  from compress_loop_correct [OF this c] have
    r: "normal (take m rs')" "ports_of (take m rs') = ports_of (used rs)" "0 < m" "m \<le> ?n"
      "length rs' = length (pp_ranges rs)" and j: "\<forall>r\<in>set (take ?n rs'). range_ok r"
      "ports_of (take ?n rs') = ports_of (used rs)" by (simp_all add: l)
  then have ok: "\<forall>r\<in>set (take m rs'). range_ok r" by (simp add: normal_def)
  show "ranges_wf (undirtify rs)" using r wf n ok by (simp add: u ranges_wf_def)
  show "\<not> pp_dirty (undirtify rs)" "normal (used (undirtify rs))"
    "ports_of (used (undirtify rs)) = ports_of (used rs)"
    "length (pp_ranges (undirtify rs)) = length (pp_ranges rs)"
    "pp_nranges (undirtify rs) \<le> pp_nranges rs" "0 < pp_nranges (undirtify rs)"
    using r by (simp_all add: u used_def)
  show "\<forall>r\<in>set (take ?n (pp_ranges (undirtify rs))). range_ok r"
    "ports_of (take ?n (pp_ranges (undirtify rs))) = ports_of (used rs)" using j by (simp_all add: u)
qed

section \<open>Iteration\<close>

definition ports_from :: "u16 \<Rightarrow> u16 \<Rightarrow> u16 list" where
  "ports_from p e = map of_nat [unat p..<Suc (unat e)]"

definition range_ports :: "port_range \<Rightarrow> u16 list" where
  "range_ports r = ports_from (pr_start r) (pr_end r)"

lemma unat16_less: "n \<le> unat (e :: u16) \<Longrightarrow> n < 2 ^ 16"
  using unat_less_exp [of e] by simp

lemma set_ports_from: "set (ports_from p e) = {p..e}"
proof (intro equalityI subsetI)
  fix x assume "x \<in> set (ports_from p e)"
  then obtain n where n: "x = of_nat n" "unat p \<le> n" "n \<le> unat e" by (auto simp: ports_from_def)
  then have "unat x = n" using unat16_less by (simp add: unat_of_nat_small)
  with n show "x \<in> {p..e}" by (simp add: word_le_nat_alt)
next
  fix x assume "x \<in> {p..e}"
  then have "x = of_nat (unat x)" "unat x \<in> {unat p..<Suc (unat e)}"
    by (simp_all add: word_le_nat_alt less_Suc_eq_le)
  then show "x \<in> set (ports_from p e)" unfolding ports_from_def set_map set_upt by (rule image_eqI)
qed

lemma sorted_distinct_ports_from: "sorted_wrt (<) (ports_from p e)"
  unfolding ports_from_def sorted_wrt_map
proof (rule sorted_wrt_mono_rel [OF _ sorted_wrt_upt])
  fix x y assume a: "x \<in> set [unat p..<Suc (unat e)]" "y \<in> set [unat p..<Suc (unat e)]" "x < y"
  then have "x \<le> unat e" "y \<le> unat e" by auto
  then have "x < 2 ^ 16" "y < 2 ^ 16" by (blast intro: unat16_less)+
  with a(3) show "(of_nat x :: u16) < of_nat y" by (simp add: word_less_nat_alt unat_of_nat_small)
qed

lemma ports_from_step: "p < e \<Longrightarrow> ports_from p e = p # ports_from (p + 1) e"
proof -
  assume lt: "p < e"
  then have "unat (p + 1) = Suc (unat p)"
    using unat_less_exp [of e] by (subst unat_add_small) (simp_all add: word_less_nat_alt)
  with lt show ?thesis by (simp add: ports_from_def upt_conv_Cons word_less_nat_alt del: upt_Suc)
qed

lemma ports_from_last: "\<not> p < e \<Longrightarrow> p \<le> e \<Longrightarrow> ports_from p e = [p]"
  by (simp add: ports_from_def)

definition all_ports :: "port_range list \<Rightarrow> u16 list" where
  "all_ports rs = concat (map range_ports rs)"

lemma all_ports_simps [simp]: "all_ports [] = []" "all_ports (r # rs) = range_ports r @ all_ports rs"
  by (simp_all add: all_ports_def)

lemma set_all_ports [simp]: "set (all_ports rs) = ports_of rs"
  by (induction rs) (simp_all add: range_ports_def set_ports_from range_set_def)

lemma normal_Cons: "normal (r # rs) \<longleftrightarrow> range_ok r \<and> (\<forall>q\<in>set rs. apart r q) \<and> normal rs"
  by (auto simp: normal_def)

text \<open>In normal form the ports come in strictly ascending order.\<close>

lemma all_ports_ascending: "normal rs \<Longrightarrow> sorted_wrt (<) (all_ports rs)"
proof (induction rs)
  case (Cons r rs)
  have "p < q" if "p \<in> range_set r" "q \<in> ports_of rs" for p q
  proof -
    from that(2) obtain t where "t \<in> set rs" "q \<in> range_set t" by (auto simp: ports_of_def)
    with Cons.prems that(1) show ?thesis
      by (auto simp: normal_Cons apart_def range_set_def word_le_nat_alt word_less_nat_alt)
  qed
  with Cons show ?case
    by (auto simp: sorted_wrt_append normal_Cons range_ports_def sorted_distinct_ports_from
        set_ports_from range_set_def)
qed simp

lemma all_ports_sorted_list: "normal rs \<Longrightarrow> all_ports rs = sorted_list_of_set (ports_of rs)"
proof -
  assume "normal rs"
  then have "sorted_wrt (<) (all_ports rs)" by (rule all_ports_ascending)
  then show ?thesis
    using sorted_list_of_set.idem_if_sorted_distinct [of "all_ports rs"] by (simp add: strict_sorted_iff)
qed

text \<open>
  A valid position of the iterator. The position \<open>(0, 0)\<close> is the start of the iteration.
  There is an allocated element after the used ones, if any: the iterator reads it when it
  leaves the last range.
\<close>

definition iter_at :: "port_ranges \<Rightarrow> bool" where
  "iter_at s \<longleftrightarrow> pp_nranges s \<le> pp_curr_range s \<or> (pp_curr_range s = 0 \<and> pp_curr_port s = 0)
     \<or> pp_curr_port s \<in> range_set (pp_ranges s ! pp_curr_range s)"

definition port_ranges_inv :: "port_ranges \<Rightarrow> bool" where
  "port_ranges_inv s \<longleftrightarrow> ranges_wf s \<and> (pp_nranges s = 0 \<or> pp_nranges s < length (pp_ranges s))
     \<and> (pp_dirty s \<longrightarrow> pp_curr_range s = 0 \<and> pp_curr_port s = 0) \<and> iter_at s"

definition first_port :: "port_ranges \<Rightarrow> u16" where
  "first_port s = (if pp_curr_range s = 0 \<and> pp_curr_port s = 0
     then pr_start (pp_ranges s ! 0) else pp_curr_port s)"

definition clean_pending :: "port_ranges \<Rightarrow> u16 list" where
  "clean_pending s = (if pp_nranges s \<le> pp_curr_range s then []
     else ports_from (first_port s) (pr_end (pp_ranges s ! pp_curr_range s))
        @ all_ports (drop (Suc (pp_curr_range s)) (used s)))"

definition port_ranges_pending :: "port_ranges \<Rightarrow> u16 list" where
  "port_ranges_pending s = clean_pending (UNDIRTIFY s)"

definition port_ranges_content :: "port_ranges \<Rightarrow> u16 multiset" where
  "port_ranges_content s = mset (all_ports (used (UNDIRTIFY s)))"

lemma undirtify_position [simp]:
  "pp_curr_range (undirtify s) = pp_curr_range s" "pp_curr_port (undirtify s) = pp_curr_port s"
  by (simp_all add: undirtify_def Let_def split: prod.split)

lemma UNDIRTIFY_position [simp]:
  "pp_curr_range (UNDIRTIFY s) = pp_curr_range s" "pp_curr_port (UNDIRTIFY s) = pp_curr_port s"
  by (simp_all add: UNDIRTIFY_def)

lemma UNDIRTIFY_clean [simp]: "\<not> pp_dirty s \<Longrightarrow> UNDIRTIFY s = s"
  by (simp add: UNDIRTIFY_def)

text \<open>Whatever was added, \<open>UNDIRTIFY\<close> gives the normal form of the same set of ports.\<close>

lemma UNDIRTIFY_correct:
  assumes "ranges_wf s"
  shows "ranges_wf (UNDIRTIFY s)" and "\<not> pp_dirty (UNDIRTIFY s)" and "normal (used (UNDIRTIFY s))"
    and "ports_of (used (UNDIRTIFY s)) = ports_of (used s)"
    and "length (pp_ranges (UNDIRTIFY s)) = length (pp_ranges s)"
    and "pp_nranges (UNDIRTIFY s) \<le> pp_nranges s"
  using assms undirtify_correct [OF assms]
  by (auto simp: UNDIRTIFY_def ranges_wf_def used_def)

lemma UNDIRTIFY_inv: "port_ranges_inv s \<Longrightarrow> port_ranges_inv (UNDIRTIFY s)"
  using UNDIRTIFY_correct [of s] by (cases "pp_dirty s") (auto simp: port_ranges_inv_def iter_at_def)

lemma port_ranges_next_UNDIRTIFY:
  "ranges_wf s \<Longrightarrow> port_ranges_next (UNDIRTIFY s) = port_ranges_next s"
  using UNDIRTIFY_correct(2) [of s] by (simp add: port_ranges_next_def)

lemma used_nth: "i < pp_nranges s \<Longrightarrow> used s ! i = pp_ranges s ! i"
  by (simp add: used_def)

lemma inv_range_ok: "port_ranges_inv s \<Longrightarrow> i < pp_nranges s \<Longrightarrow> range_ok (pp_ranges s ! i)"
  by (force simp: port_ranges_inv_def ranges_wf_def in_set_conv_nth)

lemma first_port_in:
  assumes "port_ranges_inv s" and "pp_curr_range s < pp_nranges s"
  shows "first_port s \<in> range_set (pp_ranges s ! pp_curr_range s)"
  using assms inv_range_ok [OF assms] unfolding port_ranges_inv_def iter_at_def first_port_def
  by (auto simp: range_set_def range_ok_def)

lemma next_in_range:
  assumes inv: "port_ranges_inv s" and c: "\<not> pp_dirty s" and lt: "pp_curr_range s < pp_nranges s"
  shows "port_ranges_next s =
    (let p = first_port s; i = pp_curr_range s
     in if p < pr_end (pp_ranges s ! i) then Some (Some p, s\<lparr>pp_curr_port := p + 1\<rparr>)
        else Some (Some p, s\<lparr>pp_curr_range := Suc i, pp_curr_port := pr_start (pp_ranges s ! Suc i)\<rparr>))"
proof -
  have "pp_nranges s < length (pp_ranges s)" using inv lt by (auto simp: port_ranges_inv_def)
  with lt have "range_at s (pp_curr_range s) = Some (pp_ranges s ! pp_curr_range s)"
    "Suc (pp_curr_range s) < length (pp_ranges s)" by (simp_all add: range_at_def)
  with c lt show ?thesis by (auto simp: port_ranges_next_def first_port_def range_at_def Let_def)
qed

lemma ports_from_first:
  "p \<in> range_set r \<Longrightarrow> ports_from p (pr_end r) =
     p # (if p < pr_end r then ports_from (p + 1) (pr_end r) else [])"
  by (simp add: ports_from_step ports_from_last range_set_def)

lemma word_succ_nonzero: "p < (e :: u16) \<Longrightarrow> p + 1 \<noteq> 0 \<and> p < p + 1 \<and> p + 1 \<le> e"
proof -
  assume "p < e"
  then have "unat p + 1 \<le> unat e" by (simp add: word_less_nat_alt)
  then have "unat (p + 1) = unat p + 1"
    using unat_less_exp [of e] by (subst unat_add_small) simp_all
  with \<open>unat p + 1 \<le> unat e\<close> show ?thesis by (auto simp: word_less_nat_alt word_le_nat_alt)
qed

lemma inv_advance:
  assumes inv: "port_ranges_inv s" and c: "\<not> pp_dirty s" and lt: "pp_curr_range s < pp_nranges s"
    and p: "first_port s < pr_end (pp_ranges s ! pp_curr_range s)"
  defines "s' \<equiv> s\<lparr>pp_curr_port := first_port s + 1\<rparr>"
  shows "port_ranges_inv s'" and "clean_pending s = first_port s # clean_pending s'"
proof -
  let ?r = "pp_ranges s ! pp_curr_range s"
  have f: "first_port s \<in> range_set ?r" using first_port_in [OF inv lt] .
  have n: "first_port s + 1 \<noteq> 0" "first_port s < first_port s + 1" "first_port s + 1 \<le> pr_end ?r"
    using word_succ_nonzero [OF p] by auto
  with f have "first_port s + 1 \<in> range_set ?r" by (auto simp: range_set_def)
  with inv c show "port_ranges_inv s'"
    by (simp add: port_ranges_inv_def s'_def iter_at_def ranges_wf_def)
  have "first_port s' = first_port s + 1" using n by (simp add: s'_def first_port_def)
  then show "clean_pending s = first_port s # clean_pending s'"
    using lt p ports_from_first [OF f] by (simp add: clean_pending_def s'_def used_def)
qed

lemma inv_leave:
  assumes inv: "port_ranges_inv s" and c: "\<not> pp_dirty s" and lt: "pp_curr_range s < pp_nranges s"
    and p: "\<not> first_port s < pr_end (pp_ranges s ! pp_curr_range s)"
  defines "s' \<equiv> s\<lparr>pp_curr_range := Suc (pp_curr_range s),
    pp_curr_port := pr_start (pp_ranges s ! Suc (pp_curr_range s))\<rparr>"
  shows "port_ranges_inv s'" and "clean_pending s = first_port s # clean_pending s'"
proof -
  let ?i = "pp_curr_range s"
  have ok: "range_ok (pp_ranges s ! Suc ?i)" if "Suc ?i < pp_nranges s" using inv_range_ok [OF inv that] .
  then have "iter_at s'"
    by (cases "Suc ?i < pp_nranges s") (simp_all add: s'_def iter_at_def range_set_def range_ok_def)
  with inv c show "port_ranges_inv s'" by (simp add: port_ranges_inv_def s'_def ranges_wf_def)
  have l: "length (used s) = pp_nranges s" using inv by (simp add: port_ranges_inv_def ranges_wf_def used_def)
  have "clean_pending s' = all_ports (drop (Suc ?i) (used s))"
  proof (cases "Suc ?i < pp_nranges s")
    case True
    then have "drop (Suc ?i) (used s) = pp_ranges s ! Suc ?i # drop (Suc (Suc ?i)) (used s)"
      using l by (metis Cons_nth_drop_Suc used_nth)
    with True show ?thesis
      by (simp add: clean_pending_def s'_def first_port_def range_ports_def used_def)
  next
    case False
    with l show ?thesis by (simp add: clean_pending_def s'_def)
  qed
  then show "clean_pending s = first_port s # clean_pending s'"
    using lt p ports_from_first [OF first_port_in [OF inv lt]] by (simp add: clean_pending_def)
qed

lemma clean_pending_reset:
  assumes "\<not> pp_dirty s" and "port_ranges_inv s"
  shows "clean_pending (port_ranges_reset s) = all_ports (used s)"
proof (cases "pp_nranges s = 0")
  case True
  then show ?thesis by (simp add: clean_pending_def port_ranges_reset_def used_def)
next
  case False
  then have "used s = pp_ranges s ! 0 # drop 1 (used s)"
    using assms(2) used_nth [of 0 s] Cons_nth_drop_Suc [of 0 "used s"]
    by (simp add: port_ranges_inv_def ranges_wf_def used_def)
  then have "all_ports (used s) = range_ports (pp_ranges s ! 0) @ all_ports (drop 1 (used s))"
    by (metis all_ports_simps(2))
  with False show ?thesis
    by (simp add: clean_pending_def port_ranges_reset_def first_port_def range_ports_def used_def)
qed

lemma reset_inv: "port_ranges_inv s \<Longrightarrow> port_ranges_inv (port_ranges_reset s)"
  by (simp add: port_ranges_inv_def port_ranges_reset_def iter_at_def ranges_wf_def)

text \<open>The simulation behind the interpretation, on a clean state.\<close>

lemma port_ranges_next_step:
  assumes inv: "port_ranges_inv s" and c: "\<not> pp_dirty s" and lt: "pp_curr_range s < pp_nranges s"
  shows "\<exists>s'. port_ranges_next s = Some (Some (hd (clean_pending s)), s') \<and> port_ranges_inv s'
    \<and> \<not> pp_dirty s' \<and> clean_pending s' = tl (clean_pending s) \<and> used s' = used s
    \<and> pp_ranges s' = pp_ranges s"
proof (cases "first_port s < pr_end (pp_ranges s ! pp_curr_range s)")
  case True
  from next_in_range [OF inv c lt] inv_advance [OF inv c lt True] c True show ?thesis
    by (simp add: Let_def used_def)
next
  case False
  from next_in_range [OF inv c lt] inv_leave [OF inv c lt False] c False show ?thesis
    by (simp add: Let_def used_def)
qed

lemma port_ranges_next_some:
  assumes inv: "port_ranges_inv s" and p: "port_ranges_pending s = v # vs"
  shows "\<exists>s'. port_ranges_next s = Some (Some v, s') \<and> port_ranges_inv s' \<and> \<not> pp_dirty s'
      \<and> port_ranges_pending s' = vs \<and> used s' = used (UNDIRTIFY s) \<and> pp_ranges s' = pp_ranges (UNDIRTIFY s)"
proof -
  have wf: "ranges_wf s" using inv by (simp add: port_ranges_inv_def)
  have d: "\<not> pp_dirty (UNDIRTIFY s)" using UNDIRTIFY_correct(2) [OF wf] .
  have "pp_curr_range (UNDIRTIFY s) < pp_nranges (UNDIRTIFY s)"
    using p by (auto simp: port_ranges_pending_def clean_pending_def split: if_splits)
  from port_ranges_next_step [OF UNDIRTIFY_inv [OF inv] d this] p show ?thesis
    using port_ranges_next_UNDIRTIFY [OF wf] by (auto simp: port_ranges_pending_def)
qed

lemma port_ranges_next_none:
  assumes inv: "port_ranges_inv s" and p: "port_ranges_pending s = []"
  shows "port_ranges_next s = Some (None, port_ranges_reset (UNDIRTIFY s))"
    and "port_ranges_inv (port_ranges_reset (UNDIRTIFY s))"
    and "port_ranges_pending (port_ranges_reset (UNDIRTIFY s)) = all_ports (used (UNDIRTIFY s))"
    and "\<not> pp_dirty (port_ranges_reset (UNDIRTIFY s))"
    and "used (port_ranges_reset (UNDIRTIFY s)) = used (UNDIRTIFY s)"
proof -
  let ?s = "UNDIRTIFY s"
  have wf: "ranges_wf s" using inv by (simp add: port_ranges_inv_def)
  have d: "\<not> pp_dirty ?s" using UNDIRTIFY_correct(2) [OF wf] .
  have i: "port_ranges_inv ?s" using UNDIRTIFY_inv [OF inv] .
  have e: "pp_nranges ?s \<le> pp_curr_range ?s"
  proof (rule ccontr)
    assume "\<not> pp_nranges ?s \<le> pp_curr_range ?s"
    with p ports_from_first [OF first_port_in [OF i]] show False
      by (simp add: port_ranges_pending_def clean_pending_def)
  qed
  then show "port_ranges_next s = Some (None, port_ranges_reset ?s)"
    by (simp add: port_ranges_next_def Let_def)
  show r: "\<not> pp_dirty (port_ranges_reset ?s)" "used (port_ranges_reset ?s) = used ?s"
    using d by (simp_all add: port_ranges_reset_def used_def)
  show "port_ranges_inv (port_ranges_reset ?s)" using reset_inv [OF i] .
  show "port_ranges_pending (port_ranges_reset ?s) = all_ports (used ?s)"
    using clean_pending_reset [OF d i] r by (simp add: port_ranges_pending_def)
qed

interpretation port_ranges: iterator port_ranges_inv port_ranges_pending port_ranges_content port_ranges_next
proof
  fix s v vs assume "port_ranges_inv s" and "port_ranges_pending s = v # vs"
  from port_ranges_next_some [OF this]
  show "\<exists>s'. port_ranges_next s = Some (Some v, s') \<and> port_ranges_inv s'
      \<and> port_ranges_pending s' = vs \<and> port_ranges_content s' = port_ranges_content s"
    by (auto simp: port_ranges_content_def)
next
  fix s assume "port_ranges_inv s" and "port_ranges_pending s = []"
  from port_ranges_next_none [OF this]
  show "\<exists>s'. port_ranges_next s = Some (None, s') \<and> port_ranges_inv s'
      \<and> mset (port_ranges_pending s') = port_ranges_content s \<and> port_ranges_content s' = port_ranges_content s"
    by (simp add: port_ranges_content_def)
qed

text \<open>
  A copy of the struct that shares the array and is iterated sorts and merges the ranges under
  the original, which keeps its count and its dirty flag. What the original covers does not
  change: behind the merged ranges the array holds stale copies of them.
\<close>

definition ports_idle :: "port_ranges \<Rightarrow> bool" where
  "ports_idle s \<longleftrightarrow> port_ranges_inv s \<and> pp_curr_range s = 0 \<and> pp_curr_port s = 0"

lemma ports_idle_pending:
  "ports_idle s \<Longrightarrow> port_ranges_pending s = sorted_list_of_set (ports_of (used s))"
proof -
  assume idle: "ports_idle s"
  then have inv: "port_ranges_inv s" and pos: "pp_curr_range s = 0" "pp_curr_port s = 0"
    and wf: "ranges_wf s" by (simp_all add: ports_idle_def port_ranges_inv_def)
  have "port_ranges_reset (UNDIRTIFY s) = UNDIRTIFY s" using pos by (simp add: port_ranges_reset_def)
  with clean_pending_reset [OF UNDIRTIFY_correct(2) [OF wf] UNDIRTIFY_inv [OF inv]]
  show ?thesis
    using all_ports_sorted_list [OF UNDIRTIFY_correct(3) [OF wf]] UNDIRTIFY_correct(4) [OF wf]
    by (simp add: port_ranges_pending_def)
qed

lemma ports_idle_shared:
  assumes "ports_idle s"
  shows "ports_idle (s\<lparr>pp_ranges := pp_ranges (UNDIRTIFY s)\<rparr>)"
    and "ports_of (used (s\<lparr>pp_ranges := pp_ranges (UNDIRTIFY s)\<rparr>)) = ports_of (used s)"
proof -
  have wf: "ranges_wf s" using assms by (simp add: ports_idle_def port_ranges_inv_def)
  have "ports_idle (s\<lparr>pp_ranges := pp_ranges (UNDIRTIFY s)\<rparr>)
      \<and> ports_of (used (s\<lparr>pp_ranges := pp_ranges (UNDIRTIFY s)\<rparr>)) = ports_of (used s)"
  proof (cases "pp_dirty s")
    case True
    with assms undirtify_correct [OF wf True] show ?thesis
      by (auto simp: ports_idle_def port_ranges_inv_def ranges_wf_def iter_at_def UNDIRTIFY_def used_def)
  next
    case False
    then have "s\<lparr>pp_ranges := pp_ranges (UNDIRTIFY s)\<rparr> = s" by simp
    with assms show ?thesis by simp
  qed
  then show "ports_idle (s\<lparr>pp_ranges := pp_ranges (UNDIRTIFY s)\<rparr>)"
    "ports_of (used (s\<lparr>pp_ranges := pp_ranges (UNDIRTIFY s)\<rparr>)) = ports_of (used s)" by simp_all
qed

section \<open>Adding ranges\<close>

lemma used_append_fresh: "ranges_wf s \<Longrightarrow> used (s\<lparr>pp_cap := n, pp_ranges := pp_ranges s @ xs\<rparr>) = used s"
  by (simp add: used_def ranges_wf_def)

lemma prep_insertion_cases:
  assumes wf: "ranges_wf s" and n: "0 < needed"
  obtains (refused) s' m where "prep_insertion ok fresh s needed = (False, s')" "ranges_wf s'"
      "ports_of (used s') = ports_of (used s)" "\<not> ok (of_nat (4 * m))" "m \<le> 2 * (pp_cap s + needed)"
  | (room) s' where "prep_insertion ok fresh s needed = (True, s')" "ranges_wf s'"
      "ports_of (used s') = ports_of (used s)" "pp_nranges s' + needed \<le> length (pp_ranges s')"
proof -
  define s1 where "s1 = (if pp_nranges s > DIRT_LIMIT then UNDIRTIFY s else s)"
  have s1: "ranges_wf s1" "ports_of (used s1) = ports_of (used s)" "pp_cap s1 = pp_cap s"
    using UNDIRTIFY_correct [OF wf] wf by (auto simp: s1_def ranges_wf_def)
  define m where "m = pp_cap s1 + needed + (pp_cap s1 + needed) div 2"
  define s2 where "s2 = s1\<lparr>pp_cap := m, pp_ranges := pp_ranges s1 @ map fresh [length (pp_ranges s1)..<m]\<rparr>"
  have p: "prep_insertion ok fresh s needed =
      (if needed > pp_cap s1 - pp_nranges s1
       then if ok (of_nat (4 * m)) then (True, s2) else (False, s1) else (pp_ranges s1 \<noteq> [], s1))"
    by (simp only: prep_insertion_def Let_def s1_def m_def s2_def)
  have c: "pp_cap s1 = length (pp_ranges s1)" "pp_nranges s1 \<le> length (pp_ranges s1)"
    using s1(1) by (simp_all add: ranges_wf_def)
  then have s2: "ranges_wf s2" "used s2 = used s1" "pp_nranges s2 + needed \<le> length (pp_ranges s2)"
    using s1(1) by (simp_all add: s2_def used_append_fresh ranges_wf_def m_def)
  show thesis
  proof (cases "needed > pp_cap s1 - pp_nranges s1")
    case True
    then show ?thesis
      using p s1 s2 refused [of s1 m] room [of s2] by (cases "ok (of_nat (4 * m))") (simp_all add: m_def)
  next
    case False
    with n c have "pp_ranges s1 \<noteq> []" by auto
    with False show ?thesis using p s1 c room [of s1] by simp
  qed
qed

text \<open>
  The contract of the adding operations: they keep the invariant, the set of ports grows by
  exactly the given ones, and a failure leaves the set of ports alone.
\<close>

definition adds_ports :: "allocator \<Rightarrow> port_ranges \<Rightarrow> nat \<Rightarrow> u16 set \<Rightarrow> (status \<times> port_ranges) option \<Rightarrow> bool" where
  "adds_ports ok s n P res \<longleftrightarrow>
     (\<exists>r s'. res = Some (r, s') \<and> ranges_wf s' \<and>
        (r = 0 \<and> ports_of (used s') = ports_of (used s) \<union> P
         \<or> r = -1 \<and> ports_of (used s') = ports_of (used s) \<and> (\<exists>m\<le>2 * (pp_cap s + n). \<not> ok (of_nat (4 * m)))))"

lemma poke_used:
  assumes wf: "ranges_wf s" and r: "\<forall>r\<in>set rs. range_ok r" and n: "rs \<noteq> []"
    and room: "pp_nranges s + length rs \<le> length (pp_ranges s)"
  obtains a where "poke (pp_nranges s) rs (pp_ranges s) = Some a"
    and "ranges_wf (s\<lparr>pp_ranges := a, pp_nranges := pp_nranges s + length rs, pp_dirty := True\<rparr>)"
    and "used (s\<lparr>pp_ranges := a, pp_nranges := pp_nranges s + length rs, pp_dirty := True\<rparr>) = used s @ rs"
proof (rule that)
  let ?a = "take (pp_nranges s) (pp_ranges s) @ rs @ drop (pp_nranges s + length rs) (pp_ranges s)"
  show "poke (pp_nranges s) rs (pp_ranges s) = Some ?a" using room by (simp add: poke_def)
  have t: "take (pp_nranges s + length rs) ?a = take (pp_nranges s) (pp_ranges s) @ rs"
    using room by (simp add: min_absorb2)
  then show "used (s\<lparr>pp_ranges := ?a, pp_nranges := pp_nranges s + length rs, pp_dirty := True\<rparr>) = used s @ rs"
    by (simp add: used_def)
  show "ranges_wf (s\<lparr>pp_ranges := ?a, pp_nranges := pp_nranges s + length rs, pp_dirty := True\<rparr>)"
    using wf r n room t by (auto simp: ranges_wf_def)
qed

lemma port_ranges_add_ranges_adds:
  assumes wf: "ranges_wf dst" and fw: "ranges_wf frm"
  shows "adds_ports ok dst (pp_nranges frm) (ports_of (used frm)) (port_ranges_add_ranges ok fresh dst frm)"
proof (cases "pp_nranges frm = 0")
  case True
  with wf show ?thesis by (simp add: adds_ports_def port_ranges_add_ranges_def used_def)
next
  case False
  then have pos: "0 < pp_nranges frm" by simp
  have l: "length (used frm) = pp_nranges frm" "\<forall>r\<in>set (used frm). range_ok r"
    using fw by (simp_all add: ranges_wf_def used_def)
  from wf pos show ?thesis
  proof (cases rule: prep_insertion_cases [of _ _ ok fresh])
    case (refused s' m)
    with False show ?thesis by (auto simp: adds_ports_def port_ranges_add_ranges_def)
  next
    case (room s')
    have ne: "used frm \<noteq> []" using l(1) pos by auto
    from poke_used [OF room(2) l(2) ne] room(4) obtain a where
      a: "poke (pp_nranges s') (used frm) (pp_ranges s') = Some a"
        "ranges_wf (s'\<lparr>pp_ranges := a, pp_nranges := pp_nranges s' + pp_nranges frm, pp_dirty := True\<rparr>)"
        "used (s'\<lparr>pp_ranges := a, pp_nranges := pp_nranges s' + pp_nranges frm, pp_dirty := True\<rparr>)
          = used s' @ used frm" by (metis l(1))
    with False room show ?thesis
      by (simp add: adds_ports_def port_ranges_add_ranges_def used_def [symmetric])
  qed
qed

lemma port_ranges_add_range_adds:
  assumes wf: "ranges_wf dst" and r: "range_ok r"
  shows "adds_ports ok dst 1 (range_set r) (port_ranges_add_range ok fresh dst r)"
  using wf zero_less_one
proof (cases rule: prep_insertion_cases [of _ _ ok fresh])
  case (refused s' m)
  then show ?thesis by (auto simp: adds_ports_def port_ranges_add_range_def)
next
  case (room s')
  from poke_used [OF room(2), of "[r]"] r room(4) obtain a where
    "poke (pp_nranges s') [r] (pp_ranges s') = Some a"
    "ranges_wf (s'\<lparr>pp_ranges := a, pp_nranges := pp_nranges s' + 1, pp_dirty := True\<rparr>)"
    "used (s'\<lparr>pp_ranges := a, pp_nranges := pp_nranges s' + 1, pp_dirty := True\<rparr>) = used s' @ [r]"
    by auto
  with room show ?thesis by (simp add: adds_ports_def port_ranges_add_range_def Un_commute)
qed

section \<open>Properties\<close>

text \<open>
  C7. Cleaning a list of ranges keeps the set of ports and leaves the ranges sorted, disjoint
  and not adjacent, as the header promises (\<open>3-4,1\<close> becomes \<open>1,3-4\<close>; \<open>3-4,1-2\<close> becomes \<open>1-4\<close>),
  although the loop runs on over stale elements after it has moved memory.
\<close>

theorem UNDIRTIFY_normal_form:
  assumes "ranges_wf s"
  shows "normal (used (UNDIRTIFY s)) \<and> ports_of (used (UNDIRTIFY s)) = ports_of (used s)
    \<and> ranges_wf (UNDIRTIFY s) \<and> pp_nranges (UNDIRTIFY s) \<le> pp_nranges s"
  using UNDIRTIFY_correct [OF assms] by simp

theorem UNDIRTIFY_normal_form_witness:
  "used (UNDIRTIFY \<lparr>pp_cap = 3, pp_nranges = 3, pp_ranges = [PortRange 3 4, PortRange 9 9, PortRange 1 2],
      pp_curr_range = 0, pp_curr_port = 0, pp_dirty = True\<rparr>) = [PortRange 1 4, PortRange 9 9]
   \<and> ports_of [PortRange 1 4, PortRange 9 9] = ports_of [PortRange 3 4, PortRange 9 9, PortRange 1 2]"
proof -
  let ?s = "\<lparr>pp_cap = 3, pp_nranges = 3, pp_ranges = [PortRange 3 4, PortRange 9 9, PortRange 1 2],
      pp_curr_range = 0, pp_curr_port = 0, pp_dirty = True\<rparr>"
  have "ranges_wf ?s" "used ?s = [PortRange 3 4, PortRange 9 9, PortRange 1 2]"
    by (simp_all add: ranges_wf_def range_ok_def used_def)
  moreover have "used (UNDIRTIFY ?s) = [PortRange 1 4, PortRange 9 9]"
    by code_simp
  ultimately show ?thesis using UNDIRTIFY_normal_form [of ?s] by simp
qed

text \<open>
  C6. Iterating over port ranges from the start returns the ports of the ranges in ascending
  order, each once, and then reports the end; afterwards the next iteration starts over. The
  array must have one element more than is used, because the iterator reads past the last range.
\<close>

theorem port_ranges_iteration:
  assumes "ranges_wf s" and "pp_nranges s < length (pp_ranges s)"
    and "pp_curr_range s = 0" and "pp_curr_port s = 0" and "card (ports_of (used s)) < n"
  shows "\<exists>s'. collect port_ranges_next n s = Some (sorted_list_of_set (ports_of (used s)), s')
    \<and> mset (port_ranges_pending s') = mset_set (ports_of (used s))"
proof -
  have inv: "port_ranges_inv s" using assms(1-4) by (simp add: port_ranges_inv_def iter_at_def)
  have u: "ranges_wf (UNDIRTIFY s)" "normal (used (UNDIRTIFY s))" "\<not> pp_dirty (UNDIRTIFY s)"
      "ports_of (used (UNDIRTIFY s)) = ports_of (used s)"
    using UNDIRTIFY_correct [OF assms(1)] by simp_all
  have "port_ranges_reset (UNDIRTIFY s) = UNDIRTIFY s"
    using assms(3,4) by (simp add: port_ranges_reset_def)
  then have p: "port_ranges_pending s = all_ports (used (UNDIRTIFY s))"
    using clean_pending_reset [OF u(3) UNDIRTIFY_inv [OF inv]] by (simp add: port_ranges_pending_def)
  then have q: "port_ranges_pending s = sorted_list_of_set (ports_of (used s))"
    using all_ports_sorted_list [OF u(2)] u(4) by simp
  have "port_ranges_content s = mset (port_ranges_pending s)" by (simp add: port_ranges_content_def p)
  then have c: "port_ranges_content s = mset_set (ports_of (used s))" 
    by (metis q finite mset_set_set sorted_list_of_set.distinct_sorted_key_list_of_set
        sorted_list_of_set.set_sorted_key_list_of_set)
  have "length (port_ranges_pending s) < n" using assms(5) by (simp add: q)
  from port_ranges.collect_all [OF inv this] show ?thesis by (auto simp: q c)
qed

theorem port_ranges_iteration_witness:
  "\<exists>s'. collect port_ranges_next 9 \<lparr>pp_cap = 3, pp_nranges = 2, pp_ranges = [PortRange 80 81, PortRange 22 22, PortRange 0 0],
      pp_curr_range = 0, pp_curr_port = 0, pp_dirty = True\<rparr> = Some ([22, 80, 81], s')"
proof -
  let ?s = "\<lparr>pp_cap = 3, pp_nranges = 2, pp_ranges = [PortRange 80 81, PortRange 22 22, PortRange 0 0],
      pp_curr_range = 0, pp_curr_port = 0, pp_dirty = True\<rparr>"
  have "{80..81 :: u16} = {80, 81}"
    using set_ports_from [of 80 81] by (simp add: ports_from_def upt_conv_Cons)
  then have "ports_of (used ?s) = {22, 80, 81}"
    by (auto simp: used_def range_set_def)
  moreover have "ranges_wf ?s" by (simp add: ranges_wf_def range_ok_def)
  ultimately show ?thesis using port_ranges_iteration [of ?s 9] by auto
qed

text \<open>
  After a port is added to an empty list, the iterator reads one element past the end of
  the array: the array is grown to exactly one element.
\<close>

theorem port_ranges_next_past_end:
  "\<exists>s. port_ranges_add_port tib_alloc fresh port_ranges_zero p = Some (0, s) \<and> port_ranges_next s = None"
  by (simp add: port_ranges_add_port_def port_ranges_add_range_def prep_insertion_def port_ranges_zero_def
      DIRT_LIMIT_def tib_alloc_def poke_def port_ranges_next_def UNDIRTIFY_def undirtify_def
      compress_loop.simps range_at_def)

text \<open>
  Adding one list of ranges to another never writes outside the array, keeps both in
  order, and unites the sets of ports; if memory is short, the status is -1 and the set of
  ports is unchanged.
\<close>

theorem port_ranges_add_ranges_union:
  assumes "ranges_wf dst" and "ranges_wf frm"
  shows "\<exists>r dst'. port_ranges_add_ranges ok fresh dst frm = Some (r, dst') \<and> ranges_wf dst' \<and>
    (r = 0 \<and> ports_of (used dst') = ports_of (used dst) \<union> ports_of (used frm) \<or>
     r = -1 \<and> ports_of (used dst') = ports_of (used dst)
       \<and> (\<exists>m\<le>2 * (pp_cap dst + pp_nranges frm). \<not> ok (of_nat (4 * m))))"
  using port_ranges_add_ranges_adds [OF assms] unfolding adds_ports_def by blast

theorem port_ranges_add_ranges_union_witness:
  "\<exists>dst'. port_ranges_add_ranges (\<lambda>_. True) (\<lambda>_. PortRange 0 0) port_ranges_zero
      \<lparr>pp_cap = 1, pp_nranges = 1, pp_ranges = [PortRange 80 90], pp_curr_range = 0, pp_curr_port = 0,
       pp_dirty = True\<rparr> = Some (0, dst') \<and> ports_of (used dst') = {80..90}"
  using port_ranges_add_ranges_union [of port_ranges_zero "\<lparr>pp_cap = 1, pp_nranges = 1,
      pp_ranges = [PortRange 80 90], pp_curr_range = 0, pp_curr_port = 0, pp_dirty = True\<rparr>" "\<lambda>_. True" "\<lambda>_. PortRange 0 0"]
  by (auto simp: ranges_wf_def range_ok_def used_def port_ranges_zero_def range_set_def)

end
