(* ===== verification/Ports_Parse.thy ===== *)
theory Ports_Parse
  imports Ports
begin

text \<open>
  \<open>port_ranges_from_str\<close> of \<^verbatim>\<open>lib/net/ports.c\<close>: the state machine that reads lists of
  ports and port ranges, equal to a reference definition that splits the text into tokens and
  reads each token on its own, and the round trip with the printer.
\<close>

section \<open>The parser\<close>

definition is_port_range_sep :: "byte \<Rightarrow> bool" where
  "is_port_range_sep ch \<longleftrightarrow> ch \<in> {CHR 0x0D, CHR 0x0A, CHR 0x09, CHR '' '', CHR '',''}"

datatype port_state = SKIP_SEP | PARSE_LHS | PARSE_RHS

text \<open>
  The local variables of the parser. \<open>num\<close> is an \<open>unsigned int\<close>, which is at most
  655359 when it is compared with 65535, so that it never wraps.
\<close>

record port_parser =
  ps_state :: port_state
  ps_num :: nat
  ps_lhs :: bool
  ps_rhs :: bool
  ps_range :: port_range
  ps_buf :: buf_t

text \<open>The memory of a \<open>struct port_range\<close>: two little-endian 16-bit numbers.\<close>

definition u16_bytes :: "u16 \<Rightarrow> bytes" where
  "u16_bytes w = [char_of (unat w mod 256), char_of (unat w div 256)]"

definition range_bytes :: "port_range \<Rightarrow> bytes" where
  "range_bytes r = u16_bytes (pr_start r) @ u16_bytes (pr_end r)"

fun ranges_of_bytes :: "bytes \<Rightarrow> port_range list" where
  "ranges_of_bytes (a # b # c # d # s) =
     PortRange (of_nat (of_char a + 256 * of_char b)) (of_nat (of_char c + 256 * of_char d))
       # ranges_of_bytes s"
| "ranges_of_bytes _ = []"

definition ordered_range :: "port_range \<Rightarrow> port_range" where
  "ordered_range r = (if pr_end r < pr_start r then PortRange (pr_end r) (pr_start r) else r)"

text \<open>The result of \<open>buf_adata\<close> is ignored: a range the buffer has no room for is lost.\<close>

definition emit_range :: "allocator \<Rightarrow> buf_t \<Rightarrow> port_range \<Rightarrow> buf_t option" where
  "emit_range ok b r = map_option snd (buf_adata ok b (range_bytes (ordered_range r)))"

text \<open>One turn of the loop; the inner \<^const>\<open>None\<close> is the jump to \<open>fail\<close>.\<close>

definition parse_lhs :: "allocator \<Rightarrow> byte \<Rightarrow> port_parser \<Rightarrow> port_parser option option" where
  "parse_lhs ok ch p =
     (if ch = CHR ''-'' \<or> is_port_range_sep ch then
        (let start = of_nat (ps_num p)
         in if ch = CHR ''-'' then
              if \<not> ps_lhs p then Some None
              else Some (Some (p\<lparr>ps_range := PortRange start (pr_end (ps_range p)), ps_num := 0,
                                 ps_state := PARSE_RHS\<rparr>))
            else do { b \<leftarrow> emit_range ok (ps_buf p) (PortRange start start);
                      Some (Some (p\<lparr>ps_range := PortRange 0 0, ps_state := SKIP_SEP, ps_buf := b\<rparr>)) })
      else if \<not> is_digit ch then Some None
      else (let num = ps_num p * 10 + digit_val ch
            in if num > 65535 then Some None
               else Some (Some (p\<lparr>ps_lhs := True, ps_num := num\<rparr>))))"

definition parse_rhs :: "allocator \<Rightarrow> byte \<Rightarrow> port_parser \<Rightarrow> port_parser option option" where
  "parse_rhs ok ch p =
     (if is_port_range_sep ch then
        if \<not> ps_rhs p then Some None
        else do { b \<leftarrow> emit_range ok (ps_buf p) (PortRange (pr_start (ps_range p)) (of_nat (ps_num p)));
                  Some (Some (p\<lparr>ps_range := PortRange 0 0, ps_state := SKIP_SEP, ps_buf := b\<rparr>)) }
      else if \<not> is_digit ch then Some None
      else (let num = ps_num p * 10 + digit_val ch
            in if num > 65535 then Some None
               else Some (Some (p\<lparr>ps_rhs := True, ps_num := num\<rparr>))))"

definition from_str_step :: "allocator \<Rightarrow> byte \<Rightarrow> port_parser \<Rightarrow> port_parser option option" where
  "from_str_step ok ch p =
     (case ps_state p of
        SKIP_SEP \<Rightarrow>
          if is_port_range_sep ch then Some (Some p)
          else parse_lhs ok ch (p\<lparr>ps_num := 0, ps_lhs := False, ps_rhs := False, ps_state := PARSE_LHS\<rparr>)
      | PARSE_LHS \<Rightarrow> parse_lhs ok ch p
      | PARSE_RHS \<Rightarrow> parse_rhs ok ch p)"

text \<open>The loop over the string: the offset of the failure, or the final state.\<close>

fun from_str_loop :: "allocator \<Rightarrow> nat \<Rightarrow> bytes \<Rightarrow> port_parser \<Rightarrow> (nat + port_parser) option" where
  "from_str_loop ok off [] p = Some (Inr p)"
| "from_str_loop ok off (ch # s) p =
     (case from_str_step ok ch p of
        None \<Rightarrow> None
      | Some None \<Rightarrow> Some (Inl off)
      | Some (Some p') \<Rightarrow> from_str_loop ok (Suc off) s p')"

text \<open>The code after the loop, which appends the last element.\<close>

definition from_str_last :: "allocator \<Rightarrow> port_parser \<Rightarrow> buf_t option option" where
  "from_str_last ok p =
     (case ps_state p of
        SKIP_SEP \<Rightarrow> Some (Some (ps_buf p))
      | PARSE_LHS \<Rightarrow>
          map_option Some (emit_range ok (ps_buf p) (PortRange (of_nat (ps_num p)) (of_nat (ps_num p))))
      | PARSE_RHS \<Rightarrow>
          if \<not> ps_rhs p then Some None
          else map_option Some
            (emit_range ok (ps_buf p) (PortRange (pr_start (ps_range p)) (of_nat (ps_num p)))))"

text \<open>
  The status, the new ranges and the failure offset, which is set only when the text is
  malformed. The argument is \<^const>\<open>None\<close> for a NULL pointer.
\<close>

definition port_ranges_from_str ::
  "allocator \<Rightarrow> bytes option \<Rightarrow> (status \<times> port_ranges \<times> nat option) option" where
  "port_ranges_from_str ok str =
     (case str of
        None \<Rightarrow> Some (0, port_ranges_zero, None)
      | Some s0 \<Rightarrow>
         (let s = cstr s0
          in if s = [] then Some (0, port_ranges_zero, None)
             else case buf_init ok (256 * 4) of
               None \<Rightarrow> Some (-1, port_ranges_zero, None)
             | Some b \<Rightarrow>
                 do {
                   r \<leftarrow> from_str_loop ok 0 s
                     \<lparr>ps_state = SKIP_SEP, ps_num = 0, ps_lhs = False, ps_rhs = False,
                      ps_range = PortRange 0 0, ps_buf = b\<rparr>;
                   case r of
                     Inl off \<Rightarrow> Some (-1, port_ranges_zero, Some off)
                   | Inr p \<Rightarrow>
                       do {
                         e \<leftarrow> from_str_last ok p;
                         case e of
                           None \<Rightarrow> Some (-1, port_ranges_zero, Some (length s))
                         | Some b \<Rightarrow>
                             if buf_len b \<ge> 4
                             then Some (0, port_ranges_zero
                               \<lparr>pp_cap := unat (buf_cap b) div 4, pp_nranges := unat (buf_len b) div 4,
                                pp_ranges := ranges_of_bytes (mem b), pp_dirty := True\<rparr>, None)
                             else Some (0, port_ranges_zero, None)
                       }
                 }))"

section \<open>The reference\<close>

function tokens :: "bytes \<Rightarrow> bytes list" where
  "tokens [] = []"
| "tokens (c # s) =
     (if is_port_range_sep c then tokens s
      else (c # takeWhile (\<lambda>c. \<not> is_port_range_sep c) s) # tokens (dropWhile (\<lambda>c. \<not> is_port_range_sep c) s))"
  by pat_completeness auto
termination
  by (relation "measure length") (simp_all add: less_Suc_eq_le length_dropWhile_le)

definition port_number :: "bytes \<Rightarrow> u16 option" where
  "port_number t =
     (if t \<noteq> [] \<and> list_all is_digit t \<and> dec_value t \<le> 65535 then Some (of_nat (dec_value t)) else None)"

definition port_token :: "bytes \<Rightarrow> port_range option" where
  "port_token t =
     (if CHR ''-'' \<in> set t
      then do { a \<leftarrow> port_number (takeWhile (\<lambda>c. c \<noteq> CHR ''-'') t);
                b \<leftarrow> port_number (tl (dropWhile (\<lambda>c. c \<noteq> CHR ''-'') t));
                Some (ordered_range (PortRange a b)) }
      else map_option (\<lambda>v. PortRange v v) (port_number t))"

definition ref_ranges :: "bytes \<Rightarrow> port_range list option" where
  "ref_ranges s = those (map port_token (tokens s))"

text \<open>The number the parser has read after the characters \<open>t\<close>, unless it fails in them.\<close>

fun accum :: "nat \<Rightarrow> bytes \<Rightarrow> nat option" where
  "accum v [] = Some v"
| "accum v (c # t) =
     (if is_digit c \<and> v * 10 + digit_val c \<le> 65535 then accum (v * 10 + digit_val c) t else None)"

lemma accum_value:
  "v \<le> 65535 \<Longrightarrow> accum v t =
     (let w = foldl (\<lambda>v c. 10 * v + digit_val c) v t
      in if list_all is_digit t \<and> w \<le> 65535 then Some w else None)"
proof (induction t arbitrary: v)
  case (Cons c t)
  let ?v = "v * 10 + digit_val c"
  show ?case
  proof (cases "is_digit c \<and> ?v \<le> 65535")
    case True
    with Cons.IH [of ?v] show ?thesis by (simp add: mult.commute)
  next
    case False
    with foldl_dec_ge [of ?v t] show ?thesis by (auto simp: mult.commute)
  qed
qed simp

lemma port_number_accum:
  "port_number t = (if t = [] then None else map_option of_nat (accum 0 t))"
  by (auto simp: port_number_def accum_value dec_value_def Let_def)

lemma is_sep_simps [simp]: "\<not> is_port_range_sep (CHR ''-'')" "is_port_range_sep (CHR '' '')"
  by (simp_all add: is_port_range_sep_def)

lemma digit_simps: "is_digit c \<Longrightarrow> c \<noteq> CHR ''-''" "is_digit c \<Longrightarrow> \<not> is_port_range_sep c"
  by (auto simp: is_port_range_sep_def is_digit_def)

text \<open>Reading digits on the left and on the right of the dash.\<close>

lemma lhs_run:
  assumes "\<forall>c\<in>set t. c \<noteq> CHR ''-'' \<and> \<not> is_port_range_sep c" and "ps_state p = PARSE_LHS"
  shows "case accum (ps_num p) t of
      Some v \<Rightarrow> from_str_loop ok off (t @ s) p =
        from_str_loop ok (off + length t) s (p\<lparr>ps_lhs := ps_lhs p \<or> t \<noteq> [], ps_num := v\<rparr>)
    | None \<Rightarrow> \<exists>o'. from_str_loop ok off (t @ s) p = Some (Inl o') \<and> off \<le> o' \<and> o' < off + length t"
  using assms
proof (induction t arbitrary: p off)
  case (Cons c t)
  let ?v = "ps_num p * 10 + digit_val c"
  show ?case
  proof (cases "is_digit c \<and> ?v \<le> 65535")
    case True
    let ?p = "p\<lparr>ps_lhs := True, ps_num := ?v\<rparr>"
    have step: "from_str_loop ok off ((c # t) @ s) p = from_str_loop ok (Suc off) (t @ s) ?p"
      using Cons.prems True by (simp add: from_str_step_def parse_lhs_def)
    have a: "accum (ps_num p) (c # t) = accum (ps_num ?p) t" using True by simp
    have "\<forall>c\<in>set t. c \<noteq> CHR ''-'' \<and> \<not> is_port_range_sep c" "ps_state ?p = PARSE_LHS" using Cons.prems by simp_all
    from Cons.IH [OF this, of "Suc off"] show ?thesis unfolding step a
      by (auto split: option.splits)
  next
    case False
    then have "from_str_step ok c p = Some None" "accum (ps_num p) (c # t) = None"
      using Cons.prems by (cases "is_digit c"; simp add: from_str_step_def parse_lhs_def)+
    then show ?thesis by simp
  qed
qed simp

lemma rhs_run:
  assumes "\<forall>c\<in>set t. \<not> is_port_range_sep c" and "ps_state p = PARSE_RHS"
  shows "case accum (ps_num p) t of
      Some v \<Rightarrow> from_str_loop ok off (t @ s) p =
        from_str_loop ok (off + length t) s (p\<lparr>ps_rhs := ps_rhs p \<or> t \<noteq> [], ps_num := v\<rparr>)
    | None \<Rightarrow> \<exists>o'. from_str_loop ok off (t @ s) p = Some (Inl o') \<and> off \<le> o' \<and> o' < off + length t"
  using assms
proof (induction t arbitrary: p off)
  case (Cons c t)
  let ?v = "ps_num p * 10 + digit_val c"
  show ?case
  proof (cases "is_digit c \<and> ?v \<le> 65535")
    case True
    let ?p = "p\<lparr>ps_rhs := True, ps_num := ?v\<rparr>"
    have step: "from_str_loop ok off ((c # t) @ s) p = from_str_loop ok (Suc off) (t @ s) ?p"
      using Cons.prems True by (simp add: from_str_step_def parse_rhs_def)
    have a: "accum (ps_num p) (c # t) = accum (ps_num ?p) t" using True by simp
    have "\<forall>c\<in>set t. \<not> is_port_range_sep c" "ps_state ?p = PARSE_RHS" using Cons.prems by simp_all
    from Cons.IH [OF this, of "Suc off"] show ?thesis unfolding step a
      by (auto split: option.splits)
  next
    case False
    then have "from_str_step ok c p = Some None" "accum (ps_num p) (c # t) = None"
      using Cons.prems by (cases "is_digit c"; simp add: from_str_step_def parse_rhs_def)+
    then show ?thesis by simp
  qed
qed simp

text \<open>
  A whole token, from the state between tokens up to the separator after it: it fails, or it
  emits the range of the reference and is between tokens again.
\<close>

definition token_result ::
  "allocator \<Rightarrow> nat \<Rightarrow> bytes \<Rightarrow> bytes \<Rightarrow> port_parser \<Rightarrow> port_range option \<Rightarrow> bool" where
  "token_result ok off t s p tok \<longleftrightarrow>
     (case tok of
        Some r \<Rightarrow> \<exists>q. ps_state q = SKIP_SEP \<and> from_str_loop ok off (t @ s) p =
          (case emit_range ok (ps_buf p) r of
             None \<Rightarrow> None
           | Some b \<Rightarrow> from_str_loop ok (off + length t) s (q\<lparr>ps_buf := b\<rparr>))
      | None \<Rightarrow> \<exists>o'. from_str_loop ok off (t @ s) p = Some (Inl o') \<and> off \<le> o' \<and> o' \<le> off + length t)"

lemma token_fails:
  "from_str_loop ok off (t @ s) p = Some (Inl o') \<Longrightarrow> off \<le> o' \<Longrightarrow> o' \<le> off + length t \<Longrightarrow>
     token_result ok off t s p None"
  by (auto simp: token_result_def)

lemma ordered_range_idem [simp]: "ordered_range (ordered_range r) = ordered_range r"
  "ordered_range (PortRange v v) = PortRange v v"
  by (auto simp: ordered_range_def)

lemma emit_ordered [simp]: "emit_range ok b (ordered_range r) = emit_range ok b r"
  by (simp add: emit_range_def)

lemma single_run:
  assumes t: "\<forall>c\<in>set t. c \<noteq> CHR ''-'' \<and> \<not> is_port_range_sep c" "t \<noteq> []" and c: "is_port_range_sep c"
    and p: "ps_state p = PARSE_LHS" "ps_num p = 0"
  shows "token_result ok off t (c # s) p (map_option (\<lambda>v. PortRange v v) (port_number t))"
proof (cases "accum 0 t")
  case None
  with lhs_run [OF t(1) p(1), of ok off "c # s"] p(2) obtain o' where
    "from_str_loop ok off (t @ c # s) p = Some (Inl o')" "off \<le> o'" "o' < off + length t" by auto
  with None t(2) show ?thesis by (auto simp: port_number_accum intro: token_fails)
next
  case (Some v)
  let ?p = "p\<lparr>ps_lhs := True, ps_num := v\<rparr>"
  from lhs_run [OF t(1) p(1), of ok off "c # s"] Some p(2) t(2) have
    r: "from_str_loop ok off (t @ c # s) p = from_str_loop ok (off + length t) (c # s) ?p" by simp
  have "c \<noteq> CHR ''-''" using c by auto
  then have "from_str_step ok c ?p = (case emit_range ok (ps_buf p) (PortRange (of_nat v) (of_nat v)) of
      None \<Rightarrow> None | Some b \<Rightarrow> Some (Some (?p\<lparr>ps_range := PortRange 0 0, ps_state := SKIP_SEP, ps_buf := b\<rparr>)))"
    using c p by (simp add: from_str_step_def parse_lhs_def split: option.split)
  then show ?thesis unfolding token_result_def r using Some t(2) c
    by (auto simp: port_number_accum from_str_step_def split: option.split
        intro!: exI [of _ "?p\<lparr>ps_range := PortRange 0 0, ps_state := SKIP_SEP\<rparr>"])
qed

lemma rhs_token:
  assumes t: "\<forall>c\<in>set t. \<not> is_port_range_sep c" and c: "is_port_range_sep c"
    and p: "ps_state p = PARSE_RHS" "ps_num p = 0" "\<not> ps_rhs p"
  shows "token_result ok off t (c # s) p
    (map_option (\<lambda>v. ordered_range (PortRange (pr_start (ps_range p)) v)) (port_number t))"
proof (cases "accum 0 t")
  case None
  with rhs_run [OF t p(1), of ok off "c # s"] p(2) obtain o' where
    "from_str_loop ok off (t @ c # s) p = Some (Inl o')" "off \<le> o'" "o' < off + length t" by auto
  with None show ?thesis by (auto simp: port_number_accum intro: token_fails)
next
  case (Some v)
  let ?p = "p\<lparr>ps_rhs := t \<noteq> [], ps_num := v\<rparr>"
  from rhs_run [OF t p(1), of ok off "c # s"] Some p(2,3) have
    r: "from_str_loop ok off (t @ c # s) p = from_str_loop ok (off + length t) (c # s) ?p" by simp
  show ?thesis
  proof (cases "t = []")
    case True
    then have "from_str_step ok c p = Some None"
      using c p by (simp add: from_str_step_def parse_rhs_def)
    with True show ?thesis
      by (auto simp: port_number_accum r intro!: token_fails [of _ _ _ _ _ off])
  next
    case False
    let ?r = "PortRange (pr_start (ps_range p)) (of_nat v)"
    have "from_str_step ok c ?p = (case emit_range ok (ps_buf p) ?r of
      None \<Rightarrow> None | Some b \<Rightarrow> Some (Some (?p\<lparr>ps_range := PortRange 0 0, ps_state := SKIP_SEP, ps_buf := b\<rparr>)))"
      using c p False by (simp add: from_str_step_def parse_rhs_def split: option.split)
    then show ?thesis unfolding token_result_def r using Some False c
      by (auto simp: port_number_accum from_str_step_def split: option.split
          intro!: exI [of _ "?p\<lparr>ps_range := PortRange 0 0, ps_state := SKIP_SEP\<rparr>"])
  qed
qed

lemma token_result_shift:
  assumes "from_str_loop ok off (l @ t @ s) p = from_str_loop ok (off + length l) (t @ s) q"
    and "ps_buf q = ps_buf p" and "token_result ok (off + length l) t s q tok"
  shows "token_result ok off (l @ t) s p tok"
  using assms by (auto simp: token_result_def add.assoc split: option.splits)

lemma dash_run:
  assumes l: "\<forall>c\<in>set l. c \<noteq> CHR ''-'' \<and> \<not> is_port_range_sep c" and r: "\<forall>c\<in>set r. \<not> is_port_range_sep c"
    and c: "is_port_range_sep c"
    and p: "ps_state p = PARSE_LHS" "ps_num p = 0" "\<not> ps_lhs p" "\<not> ps_rhs p"
  shows "token_result ok off (l @ CHR ''-'' # r) (c # s) p
    (do { a \<leftarrow> port_number l; b \<leftarrow> port_number r; Some (ordered_range (PortRange a b)) })"
proof (cases "accum 0 l")
  case None
  with lhs_run [OF l p(1), of ok off "CHR ''-'' # r @ c # s"] p(2) obtain o' where
    "from_str_loop ok off (l @ CHR ''-'' # r @ c # s) p = Some (Inl o')" "off \<le> o'" "o' < off + length l" by auto
  with None show ?thesis by (auto simp: port_number_accum intro: token_fails)
next
  case (Some v)
  let ?p = "p\<lparr>ps_lhs := l \<noteq> [], ps_num := v\<rparr>"
  from lhs_run [OF l p(1), of ok off "CHR ''-'' # r @ c # s"] Some p(2,3) have
    run: "from_str_loop ok off (l @ CHR ''-'' # r @ c # s) p =
      from_str_loop ok (off + length l) (CHR ''-'' # r @ c # s) ?p" by simp
  show ?thesis
  proof (cases "l = []")
    case True
    then have "from_str_step ok (CHR ''-'') p = Some None" using p by (simp add: from_str_step_def parse_lhs_def)
    with True show ?thesis by (auto simp: port_number_accum intro!: token_fails [of _ _ _ _ _ off])
  next
    case False
    let ?q = "?p\<lparr>ps_range := PortRange (of_nat v) (pr_end (ps_range p)), ps_num := 0, ps_state := PARSE_RHS\<rparr>"
    have "from_str_step ok (CHR ''-'') ?p = Some (Some ?q)"
      using False p by (simp add: from_str_step_def parse_lhs_def)
    with run have run': "from_str_loop ok off ((l @ ''-'') @ r @ c # s) p =
        from_str_loop ok (off + length (l @ ''-'')) (r @ c # s) ?q" by simp
    have "token_result ok (off + length (l @ ''-'')) r (c # s) ?q
      (map_option (\<lambda>b. ordered_range (PortRange (of_nat v) b)) (port_number r))"
      using rhs_token [OF r c, of ?q ok "off + length (l @ ''-'')" s] p(4) by simp
    moreover have "port_number l = Some (of_nat v)" using Some False by (simp add: port_number_accum)
    ultimately show ?thesis
      using token_result_shift [OF run'] by (simp add: map_conv_bind_option comp_def)
  qed
qed

lemma token_run:
  assumes t: "\<forall>c\<in>set t. \<not> is_port_range_sep c" "t \<noteq> []" and c: "is_port_range_sep c"
    and p: "ps_state p = SKIP_SEP"
  shows "token_result ok off t (c # s) p (port_token t)"
proof -
  let ?p = "p\<lparr>ps_num := 0, ps_lhs := False, ps_rhs := False, ps_state := PARSE_LHS\<rparr>"
  from t obtain x u where x: "t = x # u" "\<not> is_port_range_sep x" by (cases t) auto
  then have "from_str_step ok x p = from_str_step ok x ?p" using p by (simp add: from_str_step_def)
  then have start: "from_str_loop ok off ([] @ t @ c # s) p = from_str_loop ok (off + length []) (t @ c # s) ?p"
    by (simp add: x)
  have "token_result ok (off + length []) t (c # s) ?p (port_token t)"
  proof (cases "CHR ''-'' \<in> set t")
    case False
    then have "\<forall>c\<in>set t. c \<noteq> CHR ''-'' \<and> \<not> is_port_range_sep c" using t by auto
    from single_run [OF this t(2) c, of ?p] False show ?thesis by (simp add: port_token_def)
  next
    case True
    let ?l = "takeWhile (\<lambda>c. c \<noteq> CHR ''-'') t" and ?d = "dropWhile (\<lambda>c. c \<noteq> CHR ''-'') t"
    from True have "?d \<noteq> []" by (simp add: dropWhile_eq_Nil_conv)
    then have "?d = CHR ''-'' # tl ?d" using hd_dropWhile [of "\<lambda>c. c \<noteq> CHR ''-''" t] by (cases ?d) auto
    then have split: "t = ?l @ CHR ''-'' # tl ?d" by (metis takeWhile_dropWhile_id)
    have l: "\<forall>c\<in>set ?l. c \<noteq> CHR ''-'' \<and> \<not> is_port_range_sep c" using t by (auto dest: set_takeWhileD)
    have "set (tl ?d) \<subseteq> set t" using split by (metis Un_upper2 set_append set_subset_Cons subset_trans)
    then have r: "\<forall>c\<in>set (tl ?d). \<not> is_port_range_sep c" using t by auto
    from dash_run [OF l r c, of ?p] split True show ?thesis by (simp add: port_token_def)
  qed
  from token_result_shift [OF start _ this] show ?thesis by simp
qed

section \<open>Equivalence with the reference\<close>

lemma emit_range_writes:
  assumes "buf_wf ok b" and "\<not> refuses ok (length (buf_contents b) + 4)"
  obtains b' where "emit_range ok b r = Some b'" and "buf_wf ok b'"
    and "buf_contents b' = buf_contents b @ range_bytes (ordered_range r)"
proof -
  have l: "length (range_bytes q) = 4" for q by (simp add: range_bytes_def u16_bytes_def)
  have "appends ok b (range_bytes (ordered_range r)) (buf_adata ok b (range_bytes (ordered_range r)))"
    using assms(1) by (intro buf_adata_appends) (simp_all add: l)
  then show thesis
  proof (cases rule: bsink.app_cases)
    case (written b')
    then show ?thesis by (intro that [of b']) (simp_all add: emit_range_def)
  next
    case (refused b' ys zs)
    with assms(2) show ?thesis by (metis l)
  qed
qed

definition encode_ranges :: "port_range list \<Rightarrow> bytes" where
  "encode_ranges rs = concat (map range_bytes rs)"

lemma encode_ranges_simps [simp]:
  "encode_ranges [] = []" "encode_ranges (r # rs) = range_bytes r @ encode_ranges rs"
  by (simp_all add: encode_ranges_def)

lemma port_token_ordered: "port_token t = Some r \<Longrightarrow> ordered_range r = r"
  by (auto simp: port_token_def bind_eq_Some_conv split: if_splits)

definition loop_result :: "allocator \<Rightarrow> nat \<Rightarrow> bytes \<Rightarrow> port_parser \<Rightarrow> bool" where
  "loop_result ok off s p \<longleftrightarrow>
     (case ref_ranges s of
        Some rs \<Rightarrow> \<exists>q. from_str_loop ok off s p = Some (Inr q) \<and> buf_wf ok (ps_buf q)
          \<and> buf_contents (ps_buf q) = buf_contents (ps_buf p) @ encode_ranges rs
      | None \<Rightarrow> \<exists>o'. from_str_loop ok off s p = Some (Inl o') \<and> off \<le> o' \<and> o' < off + length s)"

lemma ref_ranges_Cons:
  "ref_ranges (c # s) =
     (if is_port_range_sep c then ref_ranges s
      else do { r \<leftarrow> port_token (c # takeWhile (\<lambda>c. \<not> is_port_range_sep c) s);
                rs \<leftarrow> ref_ranges (dropWhile (\<lambda>c. \<not> is_port_range_sep c) s);
                Some (r # rs) })"
  by (simp add: ref_ranges_def map_conv_bind_option comp_def split: option.split)

lemma loop_tokens:
  assumes "buf_wf ok (ps_buf p)" and "ps_state p = SKIP_SEP" and "s = [] \<or> is_port_range_sep (last s)"
    and "\<not> refuses ok (length (buf_contents (ps_buf p)) + 4 * length s)"
  shows "loop_result ok off s p"
  using assms
proof (induction s arbitrary: p off rule: tokens.induct)
  case 1
  then show ?case by (simp add: loop_result_def ref_ranges_def)
next
  case (2 c s)
  show ?case
  proof (cases "is_port_range_sep c")
    case True
    then have "from_str_loop ok off (c # s) p = from_str_loop ok (Suc off) s p"
      using "2.prems" by (simp add: from_str_step_def)
    moreover have "\<not> refuses ok (length (buf_contents (ps_buf p)) + 4 * length s)"
      using "2.prems"(4) by (rule not_refuses_mono) simp
    then have "loop_result ok (Suc off) s p"
      using "2.prems" True by (intro "2.IH"(1)) (auto split: if_splits)
    ultimately show ?thesis
      using True by (auto simp: loop_result_def ref_ranges_Cons split: option.splits)
  next
    case False
    let ?u = "takeWhile (\<lambda>c. \<not> is_port_range_sep c) s" and ?d = "dropWhile (\<lambda>c. \<not> is_port_range_sep c) s"
    let ?t = "c # ?u"
    have d: "?d \<noteq> [] \<and> is_port_range_sep (last ?d) \<and> is_port_range_sep (hd ?d)"
    proof -
      have "s \<noteq> []" "is_port_range_sep (last s)" using "2.prems"(3) False by (auto split: if_splits)
      then have "?d \<noteq> []" by (metis dropWhile_eq_Nil_conv last_in_set)
      with \<open>is_port_range_sep (last s)\<close> show ?thesis
        using hd_dropWhile [of "\<lambda>c. \<not> is_port_range_sep c" s]
        by (metis last_append takeWhile_dropWhile_id)
    qed
    then obtain x v where x: "?d = x # v" by (cases ?d) auto
    have s: "c # s = ?t @ x # v" using takeWhile_dropWhile_id [of "\<lambda>c. \<not> is_port_range_sep c" s] x by simp
    have "\<forall>c\<in>set ?t. \<not> is_port_range_sep c" using False by (auto dest: set_takeWhileD)
    then have tok: "token_result ok off ?t (x # v) p (port_token ?t)"
      using d x "2.prems"(2) by (intro token_run) simp_all
    show ?thesis
    proof (cases "port_token ?t")
      case None
      then have "ref_ranges (c # s) = None" using False by (simp add: ref_ranges_Cons)
      with tok None show ?thesis unfolding loop_result_def s by (force simp: token_result_def)
    next
      case (Some r)
      with tok obtain q where q: "ps_state q = SKIP_SEP" "from_str_loop ok off (c # s) p =
          (case emit_range ok (ps_buf p) r of None \<Rightarrow> None
           | Some b \<Rightarrow> from_str_loop ok (off + length ?t) ?d (q\<lparr>ps_buf := b\<rparr>))"
        unfolding s x by (auto simp: token_result_def)
      have "length (c # s) = length ?t + length ?d" unfolding s x by simp
      then have len: "length (c # s) \<ge> Suc (length ?d)" "length (c # s) = length ?t + length ?d" by simp_all
      then have "\<not> refuses ok (length (buf_contents (ps_buf p)) + 4)"
        by (intro not_refuses_mono [OF "2.prems"(4)]) simp
      from emit_range_writes [OF "2.prems"(1) this] obtain b where
        b: "emit_range ok (ps_buf p) r = Some b" "buf_wf ok b"
          "buf_contents b = buf_contents (ps_buf p) @ range_bytes r"
        by (metis port_token_ordered [OF Some])
      have "length (range_bytes r) = 4" by (simp add: range_bytes_def u16_bytes_def)
      then have "\<not> refuses ok (length (buf_contents b) + 4 * length ?d)"
        using b(3) len(1) by (intro not_refuses_mono [OF "2.prems"(4)]) simp
      then have "loop_result ok (off + length ?t) ?d (q\<lparr>ps_buf := b\<rparr>)"
        using False b q(1) d by (intro "2.IH"(2)) auto
      then show ?thesis using q(2) b Some False len(2)
        by (auto simp: loop_result_def ref_ranges_Cons split: option.splits)
    qed
  qed
qed

text \<open>The code after the loop does what a separator at the end of the text would have done.\<close>

lemma last_is_sep:
  "(case from_str_last ok p of None \<Rightarrow> None | Some None \<Rightarrow> Some None | Some (Some b) \<Rightarrow> Some (Some b)) =
   (case from_str_step ok (CHR '' '') p of None \<Rightarrow> None | Some None \<Rightarrow> Some None
    | Some (Some q) \<Rightarrow> Some (Some (ps_buf q)))"
  by (auto simp: from_str_last_def from_str_step_def parse_lhs_def parse_rhs_def Let_def
      split: port_state.splits option.splits)

definition finish :: "allocator \<Rightarrow> nat \<Rightarrow> bytes \<Rightarrow> port_parser \<Rightarrow> (nat + buf_t) option" where
  "finish ok off s p =
     do { r \<leftarrow> from_str_loop ok off s p;
          case r of
            Inl o' \<Rightarrow> Some (Inl o')
          | Inr q \<Rightarrow> do { e \<leftarrow> from_str_last ok q;
                         case e of None \<Rightarrow> Some (Inl (off + length s)) | Some b \<Rightarrow> Some (Inr b) } }"

lemma finish_sep: "finish ok off s p = map_option (map_sum id ps_buf) (from_str_loop ok off (s @ '' '') p)"
proof (induction s arbitrary: off p)
  case Nil
  show ?case
    using last_is_sep [of ok p]
    by (auto simp: finish_def split: option.splits)
next
  case (Cons c s)
  show ?case
  proof (cases "from_str_step ok c p")
    case (Some r)
    show ?thesis
    proof (cases r)
      case (Some q)
      have e: "off + length (c # s) = Suc off + length s" by simp
      from Some \<open>from_str_step ok c p = Some r\<close> have
        "finish ok off (c # s) p = finish ok (Suc off) s q" unfolding finish_def e by simp
      with Cons.IH [of "Suc off" q] Some \<open>from_str_step ok c p = Some r\<close> show ?thesis by simp
    qed (use Some in \<open>simp add: finish_def\<close>)
  qed (simp add: finish_def)
qed

lemma ref_ranges_sep: "ref_ranges (s @ '' '') = ref_ranges s"
proof -
  have "tokens (s @ '' '') = tokens s"
  proof (induction s rule: tokens.induct)
    case (2 c s)
    show ?case
    proof (cases "is_port_range_sep c")
      case False
      then show ?thesis
        using "2.IH"(2) by (cases "\<forall>x\<in>set s. \<not> is_port_range_sep x")
          (auto simp: takeWhile_append dropWhile_append takeWhile_eq_all_conv [THEN iffD2]
             dropWhile_eq_Nil_conv [THEN iffD2])
    qed (use 2 in simp)
  qed simp
  then show ?thesis by (simp add: ref_ranges_def)
qed

lemma finish_ref:
  assumes "buf_wf ok (ps_buf p)" and "ps_state p = SKIP_SEP"
    and "\<not> refuses ok (length (buf_contents (ps_buf p)) + 4 * (length s + 1))"
  shows "case ref_ranges s of
      Some rs \<Rightarrow> \<exists>b. finish ok off s p = Some (Inr b) \<and> buf_wf ok b
        \<and> buf_contents b = buf_contents (ps_buf p) @ encode_ranges rs
    | None \<Rightarrow> \<exists>o'. finish ok off s p = Some (Inl o') \<and> off \<le> o' \<and> o' \<le> off + length s"
proof -
  have "loop_result ok off (s @ '' '') p" using assms by (intro loop_tokens) simp_all
  then show ?thesis
    unfolding loop_result_def ref_ranges_sep finish_sep by (auto split: option.splits)
qed

section \<open>The memory of the ranges\<close>

lemma length_ranges_of_bytes: "length (ranges_of_bytes s) = length s div 4"
  by (induction s rule: ranges_of_bytes.induct) (simp_all add: div_add_self1)

lemma u16_decode: "of_nat (unat w mod 256 + 256 * (unat w div 256)) = (w :: u16)"
  by (simp add: word_of_nat_eq_iff flip: word_unat_eq_iff)

lemma decode_range: "ranges_of_bytes (range_bytes r @ s) = r # ranges_of_bytes s"
proof -
  have u: "unat (w :: u16) div 256 mod 256 = unat w div 256" for w
    using unat_less_exp [of w] by simp
  show ?thesis
    using u16_decode [of "pr_start r"] u16_decode [of "pr_end r"]
    by (cases r) (simp add: range_bytes_def u16_bytes_def u)
qed

lemma decode_ranges: "take (length rs) (ranges_of_bytes (encode_ranges rs @ s)) = rs"
  by (induction rs) (simp_all add: decode_range)

lemma length_encode_ranges: "length (encode_ranges rs) = 4 * length rs"
  by (induction rs) (simp_all add: range_bytes_def u16_bytes_def)

text \<open>What the ranges of a filled buffer are.\<close>

lemma taken_over:
  assumes wf: "buf_wf ok b" and c: "buf_contents b = encode_ranges rs" and rs: "rs \<noteq> []"
    and ok: "\<forall>r\<in>set rs. range_ok r"
  defines "st \<equiv> port_ranges_zero\<lparr>pp_cap := unat (buf_cap b) div 4, pp_nranges := unat (buf_len b) div 4,
      pp_ranges := ranges_of_bytes (mem b), pp_dirty := True\<rparr>"
  shows "ranges_wf st" and "used st = rs" and "4 \<le> buf_len b"
proof -
  have l: "unat (buf_len b) = 4 * length rs"
    using length_buf_contents [OF wf] c by (simp add: length_encode_ranges)
  have "mem b = encode_ranges rs @ drop (unat (buf_len b)) (mem b)"
    using c by (metis append_take_drop_id buf_contents_def)
  then show u: "used st = rs"
    using decode_ranges [of rs "drop (unat (buf_len b)) (mem b)"] l by (simp add: used_def st_def)
  have "unat (buf_len b) \<le> unat (buf_cap b)" "length (mem b) = unat (buf_cap b)"
    using wf by (simp_all add: buf_wf_def word_le_nat_alt)
  then show "ranges_wf st"
    using u ok rs l by (auto simp: ranges_wf_def st_def used_def length_ranges_of_bytes)
  show "4 \<le> buf_len b" using l rs by (cases rs) (simp_all add: word_le_nat_alt)
qed

lemma ordered_range_ok: "ordered_range r = r \<Longrightarrow> range_ok r"
proof (rule ccontr)
  assume a: "ordered_range r = r" and "\<not> range_ok r"
  then have lt: "pr_end r < pr_start r" by (simp add: range_ok_def)
  with a have "pr_start (PortRange (pr_end r) (pr_start r)) = pr_start r" by (simp add: ordered_range_def)
  with lt show False by simp
qed

lemma port_token_ok: "port_token t = Some r \<Longrightarrow> range_ok r"
  by (rule ordered_range_ok) (rule port_token_ordered)

lemma those_tokens_ok: "those (map port_token ts) = Some rs \<Longrightarrow> \<forall>r\<in>set rs. range_ok r"
  by (induction ts arbitrary: rs) (auto split: option.splits dest: port_token_ok)

lemma port_ranges_from_str_finish:
  assumes "cstr s \<noteq> []" and "buf_init ok 1024 = Some b"
  defines "p \<equiv> \<lparr>ps_state = SKIP_SEP, ps_num = 0, ps_lhs = False, ps_rhs = False,
      ps_range = PortRange 0 0, ps_buf = b\<rparr>"
  shows "finish ok 0 (cstr s) p = Some (Inl off) \<Longrightarrow>
      port_ranges_from_str ok (Some s) = Some (-1, port_ranges_zero, Some off)"
    and "finish ok 0 (cstr s) p = Some (Inr b') \<Longrightarrow>
      port_ranges_from_str ok (Some s) =
        (if buf_len b' \<ge> 4
         then Some (0, port_ranges_zero\<lparr>pp_cap := unat (buf_cap b') div 4, pp_nranges := unat (buf_len b') div 4,
                     pp_ranges := ranges_of_bytes (mem b'), pp_dirty := True\<rparr>, None)
         else Some (0, port_ranges_zero, None))"
proof -
  have e: "port_ranges_from_str ok (Some s) =
      do { r \<leftarrow> finish ok 0 (cstr s) p;
           case r of
             Inl off \<Rightarrow> Some (-1, port_ranges_zero, Some off)
           | Inr b' \<Rightarrow> if buf_len b' \<ge> 4
               then Some (0, port_ranges_zero\<lparr>pp_cap := unat (buf_cap b') div 4, pp_nranges := unat (buf_len b') div 4,
                     pp_ranges := ranges_of_bytes (mem b'), pp_dirty := True\<rparr>, None)
               else Some (0, port_ranges_zero, None) }"
  proof (cases "from_str_loop ok 0 (cstr s) p")
    case None
    with assms show ?thesis by (simp add: port_ranges_from_str_def finish_def)
  next
    case (Some r)
    show ?thesis
    proof (cases r)
      case (Inl off)
      with Some assms show ?thesis by (simp add: port_ranges_from_str_def finish_def)
    next
      case (Inr q)
      show ?thesis
      proof (cases "from_str_last ok q")
        case None
        with Some Inr assms show ?thesis by (simp add: port_ranges_from_str_def finish_def)
      next
        case e: (Some e)
        with Some Inr assms show ?thesis
          by (cases e) (simp_all add: port_ranges_from_str_def finish_def)
      qed
    qed
  qed
  show "finish ok 0 (cstr s) p = Some (Inl off) \<Longrightarrow>
      port_ranges_from_str ok (Some s) = Some (-1, port_ranges_zero, Some off)" by (simp add: e)
  show "finish ok 0 (cstr s) p = Some (Inr b') \<Longrightarrow> port_ranges_from_str ok (Some s) =
        (if buf_len b' \<ge> 4
         then Some (0, port_ranges_zero\<lparr>pp_cap := unat (buf_cap b') div 4, pp_nranges := unat (buf_len b') div 4,
                     pp_ranges := ranges_of_bytes (mem b'), pp_dirty := True\<rparr>, None)
         else Some (0, port_ranges_zero, None))" by (simp add: e)
qed

lemma from_str_reference:
  assumes ok: "alloc_bounded ok" "\<not> refuses ok (4 * (length (cstr s) + 256))"
  shows "case ref_ranges (cstr s) of
      Some rs \<Rightarrow> \<exists>st. port_ranges_from_str ok (Some s) = Some (0, st, None) \<and> ranges_wf st
        \<and> used st = rs \<and> pp_curr_range st = 0 \<and> pp_curr_port st = 0
    | None \<Rightarrow> \<exists>off\<le>length (cstr s). port_ranges_from_str ok (Some s) = Some (-1, port_ranges_zero, Some off)"
proof (cases "cstr s = []")
  case True
  then show ?thesis
    by (simp add: port_ranges_from_str_def ref_ranges_def used_def ranges_wf_def port_ranges_zero_def)
next
  case False
  have "unat (1024 :: size_t) < 2 ^ 63" by simp
  with ok(1) obtain b where b: "buf_init ok 1024 = Some b" "buf_wf ok b" "buf_contents b = []"
  proof (cases rule: buf_init_cases)
    case (refused m)
    then have "refuses ok (4 * (length (cstr s) + 256))" by (intro refusesI [of ok m]) simp_all
    with ok(2) show thesis by simp
  qed blast
  define p where "p = \<lparr>ps_state = SKIP_SEP, ps_num = 0, ps_lhs = False, ps_rhs = False,
      ps_range = PortRange 0 0, ps_buf = b\<rparr>"
  have "\<not> refuses ok (length (buf_contents (ps_buf p)) + 4 * (length (cstr s) + 1))"
    by (rule not_refuses_mono [OF ok(2)]) (simp add: p_def b)
  then have f: "case ref_ranges (cstr s) of
      Some rs \<Rightarrow> \<exists>b. finish ok 0 (cstr s) p = Some (Inr b) \<and> buf_wf ok b \<and> buf_contents b = encode_ranges rs
    | None \<Rightarrow> \<exists>o'. finish ok 0 (cstr s) p = Some (Inl o') \<and> o' \<le> length (cstr s)"
    using finish_ref [of ok p "cstr s" 0] b by (auto simp: p_def split: option.splits)
  show ?thesis
  proof (cases "ref_ranges (cstr s)")
    case None
    with f port_ranges_from_str_finish(1) [OF False b(1)] show ?thesis by (auto simp: p_def)
  next
    case (Some rs)
    with f obtain b' where b': "finish ok 0 (cstr s) p = Some (Inr b')" "buf_wf ok b'"
      "buf_contents b' = encode_ranges rs" by auto
    note st = port_ranges_from_str_finish(2) [OF False b(1), of b', folded p_def, OF b'(1)]
    show ?thesis
    proof (cases "rs = []")
      case True
      then have "unat (buf_len b') = 0" using length_buf_contents [OF b'(2)] b'(3) by simp
      then have "\<not> 4 \<le> buf_len b'" by (simp add: word_le_nat_alt)
      with st Some True show ?thesis by (simp add: used_def ranges_wf_def port_ranges_zero_def)
    next
      case ne: False
      have "\<forall>r\<in>set rs. range_ok r" using Some those_tokens_ok unfolding ref_ranges_def by blast
      from taken_over [OF b'(2,3) ne this] st Some show ?thesis by (simp add: port_ranges_zero_def)
    qed
  qed
qed

section \<open>Printing\<close>

definition ranges_text :: "port_range list \<Rightarrow> bytes" where
  "ranges_text rs = (case rs of [] \<Rightarrow> [] | r # rs \<Rightarrow> range_text [] r @ concat (map (range_text '' '') rs))"

lemma length_port_digits: "length (dec_digits (unat (p :: u16))) \<le> 5"
  using unat_less_exp [of p] by (intro length_dec_digits [of _ 4, simplified]) simp

lemma append_range_appends:
  assumes "buf_wf ok b" and "length sep \<le> 1"
  shows "appends ok b (range_text sep r) (append_range ok b r sep)"
proof -
  have l: "length (range_text sep r) < 16" "range_text sep r \<noteq> []"
    using assms(2) length_port_digits [of "pr_start r"] length_port_digits [of "pr_end r"]
    by (auto simp: range_text_def)
  then have "appends ok b (range_text sep r) (buf_adata ok b (range_text sep r))"
    using assms(1) by (intro buf_adata_appends) simp_all
  then show ?thesis
  proof (cases rule: bsink.app_cases)
    case (written b')
    with l show ?thesis by (intro appendsI_ok [of _ b']) (simp_all add: append_range_def Let_def)
  next
    case (refused b' ys zs)
    with l show ?thesis by (auto simp: append_range_def Let_def appends_def)
  qed
qed

lemma append_ranges_loop_appends:
  "buf_wf ok b \<Longrightarrow> appends ok b (concat (map (range_text '' '') rs)) (append_ranges_loop ok b rs)"
proof (induction rs arbitrary: b)
  case Nil
  then show ?case by (simp add: bsink.app_nil)
next
  case (Cons r rs)
  have "appends ok b (range_text '' '' r) (append_range ok b r '' '')"
    using Cons.prems by (intro append_range_appends) simp_all
  from bsink.app_bind [OF this, of "concat (map (range_text '' '') rs)" "\<lambda>b. append_ranges_loop ok b rs"] Cons.IH
  show ?case by simp
qed

lemma to_buf_start:
  assumes "ranges_wf s" and "pp_curr_range s = 0" and "pp_curr_port s = 0"
    and "used (UNDIRTIFY s) = r # rs"
  shows "port_ranges_to_buf ok s b =
    do { (ret, b) \<leftarrow> do { (ret, b) \<leftarrow> append_range ok (buf_clear b) r [];
                            if ret < 0 then Some (-1, b) else append_ranges_loop ok b rs };
         Some (ret, (UNDIRTIFY s)\<lparr>pp_curr_port := pr_start r\<rparr>, b) }"
proof -
  let ?s = "UNDIRTIFY s"
  have wf: "pp_nranges ?s \<le> length (pp_ranges ?s)"
    using UNDIRTIFY_correct(1) [OF assms(1)] by (simp add: ranges_wf_def)
  have n: "0 < pp_nranges ?s" using assms(4) by (cases "pp_nranges ?s") (simp_all add: used_def)
  moreover have "pp_ranges ?s ! 0 = r" using used_nth [OF n] assms(4) by simp
  ultimately have n: "0 < pp_nranges ?s" "pp_ranges ?s ! 0 = r" .
  have d: "drop 1 (take (pp_nranges ?s) (pp_ranges ?s)) = rs" using assms(4) by (simp add: used_def)
  have e: "PortRange (pr_start r) (pr_end r) = r" by simp
  from n wf have "pp_ranges ?s \<noteq> []" by auto
  with assms(2,3) n d e show ?thesis
    by (cases "append_range ok (buf_clear b) r []") (auto simp: port_ranges_to_buf_def range_at_def Let_def)
qed

lemma to_buf_text:
  assumes wf: "ranges_wf s" and pos: "pp_curr_range s = 0" "pp_curr_port s = 0" and b: "buf_wf ok b"
    and ok: "\<not> refuses ok (length (ranges_text (used (UNDIRTIFY s))))"
  shows "\<exists>s' b'. port_ranges_to_buf ok s b = Some (0, s', b') \<and> buf_wf ok b'
    \<and> buf_contents b' = ranges_text (used (UNDIRTIFY s))"
proof (cases "used (UNDIRTIFY s)")
  case Nil
  then have "pp_nranges (UNDIRTIFY s) = 0"
    using UNDIRTIFY_correct(1) [OF wf] by (auto simp: used_def ranges_wf_def)
  with pos Nil buf_clear_wf(1) [OF b] buf_clear_wf(2) [of b] show ?thesis
    by (simp add: port_ranges_to_buf_def Let_def ranges_text_def)
next
  case (Cons r rs)
  have c: "buf_wf ok (buf_clear b)" "buf_contents (buf_clear b) = []" using buf_clear_wf b by simp_all
  have "appends ok (buf_clear b) (range_text [] r @ concat (map (range_text '' '') rs))
      (do { (ret, b) \<leftarrow> append_range ok (buf_clear b) r [];
            if ret < 0 then Some (-1, b) else append_ranges_loop ok b rs })"
    using c(1) by (intro bsink.app_bind append_range_appends append_ranges_loop_appends) simp_all
  then show ?thesis
  proof (cases rule: bsink.app_cases)
    case (written b')
    with c to_buf_start [OF wf pos Cons, of ok b] Cons show ?thesis by (simp add: ranges_text_def)
  next
    case (refused b' ys zs)
    with ok Cons c(2) show ?thesis by (simp add: ranges_text_def)
  qed
qed

lemma tokens_sep_free: "\<forall>c\<in>set t. \<not> is_port_range_sep c \<Longrightarrow> t \<noteq> [] \<Longrightarrow> tokens t = [t]"
  by (cases t) (simp_all add: takeWhile_eq_all_conv [THEN iffD2] dropWhile_eq_Nil_conv [THEN iffD2])

lemma tokens_sep:
  assumes "\<forall>c\<in>set t. \<not> is_port_range_sep c" "t \<noteq> []" "is_port_range_sep x"
  shows "tokens (t @ x # s) = t # tokens s"
proof -
  from assms obtain c u where "t = c # u" by (cases t) auto
  moreover have "takeWhile (\<lambda>c. \<not> is_port_range_sep c) (u @ x # s) = u"
    "dropWhile (\<lambda>c. \<not> is_port_range_sep c) (u @ x # s) = x # s"
    using assms \<open>t = c # u\<close> by (simp_all add: takeWhile_append2 dropWhile_append2)
  ultimately show ?thesis using assms by simp
qed

lemma sep_free_text: "\<forall>c\<in>set (range_text [] r). \<not> is_port_range_sep c" "range_text [] r \<noteq> []"
  by (auto simp: range_text_def dest: set_dec_digits digit_simps)

lemma port_number_digits: "port_number (dec_digits (unat p)) = Some p"
proof -
  have "unat p \<le> 65535" using unat_less_exp [of p] by simp
  moreover have "list_all is_digit (dec_digits (unat p))" by (auto simp: list_all_iff dest: set_dec_digits)
  ultimately show ?thesis by (simp add: port_number_def)
qed

lemma dash_not_digits: "CHR ''-'' \<notin> set (dec_digits n)"
  using digit_simps(1) set_dec_digits by blast

lemma port_token_text:
  assumes "range_ok r"
  shows "port_token (range_text [] r) = Some r"
proof (cases "pr_start r = pr_end r")
  case True
  then show ?thesis
    by (cases r) (simp add: range_text_def port_token_def dash_not_digits port_number_digits)
next
  case False
  have "takeWhile (\<lambda>c. c \<noteq> CHR ''-'') (dec_digits n @ CHR ''-'' # t) = dec_digits n"
    "dropWhile (\<lambda>c. c \<noteq> CHR ''-'') (dec_digits n @ CHR ''-'' # t) = CHR ''-'' # t" for n t
    using dash_not_digits [of n]
    by (subst takeWhile_append2 dropWhile_append2; auto)+
  moreover have "ordered_range r = r"
    using assms by (simp add: ordered_range_def range_ok_def leD)
  ultimately show ?thesis
    using False by (simp add: range_text_def port_token_def port_number_digits)
qed

lemma tokens_texts: "tokens (range_text [] r @ concat (map (range_text '' '') rs)) = map (range_text []) (r # rs)"
proof (induction rs arbitrary: r)
  case Nil
  then show ?case using sep_free_text [of r] by (simp add: tokens_sep_free)
next
  case (Cons q rs)
  have "range_text '' '' q = CHR '' '' # range_text [] q" by (simp add: range_text_def)
  with Cons.IH [of q] tokens_sep [OF sep_free_text [of r] is_sep_simps(2)] show ?case by simp
qed

lemma those_Some: "those (map Some xs) = Some xs"
  by (induction xs) simp_all

lemma ref_ranges_text: "\<forall>r\<in>set rs. range_ok r \<Longrightarrow> ref_ranges (ranges_text rs) = Some rs"
proof (cases rs)
  case (Cons r qs)
  assume "\<forall>r\<in>set rs. range_ok r"
  then have "map port_token (map (range_text []) rs) = map Some rs" by (simp add: port_token_text)
  then show ?thesis
    using Cons unfolding ref_ranges_def ranges_text_def by (simp only: list.case tokens_texts those_Some)
qed (simp add: ref_ranges_def ranges_text_def)

lemma NUL_not_in_text: "NUL \<notin> set (ranges_text rs)"
proof -
  have "NUL \<notin> set (dec_digits n)" for n using set_dec_digits [of NUL n] by (auto simp: is_digit_def)
  then show ?thesis by (cases rs) (auto simp: ranges_text_def range_text_def split: if_splits)
qed

section \<open>Properties\<close>



text \<open>
  C13. Printing port ranges and parsing the text gives back the normal form of the ranges,
  hence the same set of ports.
\<close>

theorem port_ranges_print_parse:
  assumes "ranges_wf s" and "pp_curr_range s = 0" and "pp_curr_port s = 0" and "buf_wf ok b"
    and "\<not> refuses ok (4 * (length (ranges_text (used (UNDIRTIFY s))) + 256))"
  shows "\<exists>s' b' st. port_ranges_to_buf ok s b = Some (0, s', b')
    \<and> port_ranges_from_str ok (Some (buf_contents b')) = Some (0, st, None)
    \<and> used st = used (UNDIRTIFY s) \<and> ports_of (used st) = ports_of (used s)"
proof -
  let ?rs = "used (UNDIRTIFY s)"
  have "\<not> refuses ok (length (ranges_text ?rs))" by (rule not_refuses_mono [OF assms(5)]) simp
  from to_buf_text [OF assms(1-4) this] obtain s' b' where
    t: "port_ranges_to_buf ok s b = Some (0, s', b')" "buf_contents b' = ranges_text ?rs" by blast
  have n: "\<forall>r\<in>set ?rs. range_ok r" using UNDIRTIFY_correct(3) [OF assms(1)] by (simp add: normal_def)
  have c: "cstr (ranges_text ?rs) = ranges_text ?rs" by (rule cstr_id) (rule NUL_not_in_text)
  have "alloc_bounded ok" using assms(4) by (simp add: buf_wf_def)
  from from_str_reference [OF this, of "ranges_text ?rs"] assms(5) obtain st where
    "port_ranges_from_str ok (Some (buf_contents b')) = Some (0, st, None)" "used st = ?rs"
    unfolding c ref_ranges_text [OF n] t(2) by auto
  with t UNDIRTIFY_correct(4) [OF assms(1)] show ?thesis by auto
qed

theorem port_ranges_print_parse_witness:
  "\<exists>s' b' st. port_ranges_to_buf tib_alloc \<lparr>pp_cap = 2, pp_nranges = 2, pp_ranges = [PortRange 80 81, PortRange 22 22],
      pp_curr_range = 0, pp_curr_port = 0, pp_dirty = True\<rparr> buf_zero = Some (0, s', b')
    \<and> port_ranges_from_str tib_alloc (Some (buf_contents b')) = Some (0, st, None)
    \<and> used st = [PortRange 22 22, PortRange 80 81]"
proof -
  let ?s = "\<lparr>pp_cap = 2, pp_nranges = 2, pp_ranges = [PortRange 80 81, PortRange 22 22],
      pp_curr_range = 0, pp_curr_port = 0, pp_dirty = True\<rparr>"
  have "ranges_wf ?s" by (simp add: ranges_wf_def range_ok_def)
  moreover have "used (UNDIRTIFY ?s) = [PortRange 22 22, PortRange 80 81]" by code_simp
  moreover have "length (ranges_text [PortRange 22 22, PortRange 80 81]) = 8" by code_simp
  ultimately show ?thesis using port_ranges_print_parse [of ?s tib_alloc buf_zero] by auto
qed

end
