(* ===== verification/Round_Robin.thy ===== *)
theory Round_Robin
  imports Iterator Reorder "HOL-Library.Monad_Syntax"
begin

text \<open>
  What the two reordered iterators share (\<open>port_r4ranges\<close> of \<^verbatim>\<open>lib/net/ports.c\<close> and
  \<open>ip_r4blocks\<close> of \<^verbatim>\<open>lib/net/ip.c\<close>): a map from turns to parts, filled with a permutation of
  the part indices, in which a depleted part is marked by a negative number, and the search
  for the next part that is not depleted.
\<close>

text \<open>
  \<open>do curr = (curr + 1) % n while (curr != mapindex && map[curr] < 0)\<close>.
\<close>

partial_function (option) next_turn :: "int list \<Rightarrow> nat \<Rightarrow> nat \<Rightarrow> nat option" where
  "next_turn tm idx cur =
     (let cur = (cur + 1) mod length tm
      in if cur \<ge> length tm then None
         else if cur \<noteq> idx \<and> tm ! cur < 0 then next_turn tm idx cur
         else Some cur)"

text \<open>
  The loop that fills the map: \<open>reorder32_next(&mapgen, &mapval)\<close> leaves \<open>mapval\<close> alone when it
  returns 0.
\<close>

fun turn_map_loop :: "nat \<Rightarrow> reorder32 \<Rightarrow> u32 \<Rightarrow> int list option" where
  "turn_map_loop 0 mapgen mapval = Some []"
| "turn_map_loop (Suc k) mapgen mapval =
     do {
       (r, mapgen) \<leftarrow> reorder32_next mapgen;
       let mapval = (case r of None \<Rightarrow> mapval | Some v \<Rightarrow> v);
       rest \<leftarrow> turn_map_loop k mapgen mapval;
       Some (sint mapval # rest)
     }"

definition turn_map :: "nat \<Rightarrow> int list option" where
  "turn_map n = turn_map_loop n (reorder32_init 0 (of_nat n - 1)) 0"

section \<open>Live parts\<close>

definition live :: "int list \<Rightarrow> nat set" where
  "live tm = {j. int j \<in> set tm}"

text \<open>Every part has at most one turn.\<close>

definition turns_wf :: "int list \<Rightarrow> bool" where
  "turns_wf tm \<longleftrightarrow> (\<forall>i<length tm. \<forall>j<length tm. 0 \<le> tm ! i \<longrightarrow> tm ! i = tm ! j \<longrightarrow> i = j)
     \<and> (\<forall>i<length tm. tm ! i < int (length tm))"

lemma finite_live [simp]: "finite (live tm)"
  by (rule finite_subset [of _ "nat ` set tm"]) (force simp: live_def)+

lemma live_bound: "turns_wf tm \<Longrightarrow> j \<in> live tm \<Longrightarrow> j < length tm"
  by (auto simp: turns_wf_def live_def in_set_conv_nth)

lemma live_nth: "i < length tm \<Longrightarrow> 0 \<le> tm ! i \<Longrightarrow> nat (tm ! i) \<in> live tm"
  by (simp add: live_def)

lemma deplete:
  assumes "turns_wf tm" and "i < length tm" and "0 \<le> tm ! i"
  shows "turns_wf (tm[i := -1])" and "live (tm[i := -1]) = live tm - {nat (tm ! i)}"
proof -
  show "turns_wf (tm[i := -1])" using assms by (auto simp: turns_wf_def nth_list_update)
  have "int j \<in> set (tm[i := -1]) \<longleftrightarrow> int j \<in> set tm \<and> j \<noteq> nat (tm ! i)" for j
  proof
    assume "int j \<in> set (tm[i := -1])"
    then obtain k where k': "k < length tm" "tm[i := -1] ! k = int j" by (auto simp: in_set_conv_nth)
    then have "k \<noteq> i" by auto
    with k' have k: "k < length tm" "k \<noteq> i" "tm ! k = int j" by simp_all
    then have "tm ! i \<noteq> int j" using assms unfolding turns_wf_def by (metis of_nat_0_le_iff)
    with k show "int j \<in> set tm \<and> j \<noteq> nat (tm ! i)" using assms(3) by (auto simp: in_set_conv_nth)
  next
    assume "int j \<in> set tm \<and> j \<noteq> nat (tm ! i)"
    then obtain k where "k < length tm" "tm ! k = int j" "k \<noteq> i"
      using assms(3) by (metis in_set_conv_nth nat_int)
    then show "int j \<in> set (tm[i := -1])" by (metis length_list_update nth_list_update_neq nth_mem)
  qed
  then show "live (tm[i := -1]) = live tm - {nat (tm ! i)}" by (auto simp: live_def)
qed

text \<open>The search ends, at a live part if there is one.\<close>

lemma next_turn_steps:
  assumes "k < length tm" and "idx < length tm"
    and "\<forall>j. 1 \<le> j \<and> j \<le> k \<longrightarrow> tm ! ((idx + j) mod length tm) < 0"
  shows "\<exists>j. k < j \<and> j \<le> length tm \<and> next_turn tm idx ((idx + k) mod length tm) = Some ((idx + j) mod length tm)
    \<and> (\<forall>i. 1 \<le> i \<and> i < j \<longrightarrow> tm ! ((idx + i) mod length tm) < 0)
    \<and> (0 \<le> tm ! ((idx + j) mod length tm) \<or> j = length tm)"
  using assms
proof (induction "length tm - k" arbitrary: k)
  case 0
  then show ?case by simp
next
  case (Suc d)
  let ?n = "length tm"
  define c where "c = (idx + Suc k) mod ?n"
  have c: "((idx + k) mod ?n + 1) mod ?n = c" by (simp add: mod_Suc_eq c_def)
  have lt: "c < ?n" using Suc.prems(2) unfolding c_def by (intro mod_less_divisor) linarith
  have step: "next_turn tm idx ((idx + k) mod ?n) =
      (if c \<noteq> idx \<and> tm ! c < 0 then next_turn tm idx c else Some c)"
    using lt by (subst next_turn.simps) (simp only: c Let_def, simp)
  show ?case
  proof (cases "c \<noteq> idx \<and> tm ! c < 0")
    case False
    have "Suc k = ?n" if "tm ! c < 0"
    proof -
      have "(idx + Suc k) mod ?n = idx mod ?n" using False that Suc.prems(2) by (simp add: c_def)
      then have "?n dvd Suc k" by (metis add_diff_cancel_left' mod_eq_dvd_iff_nat le_add1)
      with Suc.prems(1) show ?thesis by (simp add: dvd_imp_le le_antisym Suc_leI)
    qed
    with step False Suc.prems show ?thesis
      by (intro exI [of _ "Suc k"]) (auto simp: less_Suc_eq_le not_less c_def [symmetric] simp del: add_Suc_right)
  next
    case True
    have "c = idx" if "Suc k = ?n" using that Suc.prems(2) by (simp add: c_def)
    with True Suc.prems(1) have k: "Suc k < ?n" by (cases "Suc k = ?n") simp_all
    have neg: "\<forall>j. 1 \<le> j \<and> j \<le> Suc k \<longrightarrow> tm ! ((idx + j) mod ?n) < 0"
      using Suc.prems(3) True unfolding c_def by (metis le_Suc_eq)
    have "d = ?n - Suc k" using Suc.hyps(2) by simp
    from Suc.hyps(1) [OF this k Suc.prems(2) neg, folded c_def] obtain j where
      j: "Suc k < j" "j \<le> ?n" "next_turn tm idx c = Some ((idx + j) mod ?n)"
      "\<forall>i. 1 \<le> i \<and> i < j \<longrightarrow> tm ! ((idx + i) mod ?n) < 0" "0 \<le> tm ! ((idx + j) mod ?n) \<or> j = ?n"
      by blast
    have "next_turn tm idx ((idx + k) mod ?n) = Some ((idx + j) mod ?n)" using step True j(3) by simp
    with j show ?thesis by (intro exI [of _ j]) auto
  qed
qed

lemma next_turn_finds:
  assumes "idx < length tm"
  obtains c where "next_turn tm idx idx = Some c" and "c < length tm" and "0 \<le> tm ! c"
  | "next_turn tm idx idx = Some idx" and "tm ! idx < 0" and "live tm = {}"
proof -
  let ?n = "length tm"
  have "0 < ?n" using assms by linarith
  then have "\<exists>j. 0 < j \<and> j \<le> ?n \<and> next_turn tm idx ((idx + 0) mod ?n) = Some ((idx + j) mod ?n)
    \<and> (\<forall>i. 1 \<le> i \<and> i < j \<longrightarrow> tm ! ((idx + i) mod ?n) < 0) \<and> (0 \<le> tm ! ((idx + j) mod ?n) \<or> j = ?n)"
    using assms by (intro next_turn_steps) simp_all
  then obtain j where j: "0 < j" "j \<le> ?n" "next_turn tm idx idx = Some ((idx + j) mod ?n)"
    "\<forall>i. 1 \<le> i \<and> i < j \<longrightarrow> tm ! ((idx + i) mod ?n) < 0" "0 \<le> tm ! ((idx + j) mod ?n) \<or> j = ?n"
    using assms by auto
  show thesis
  proof (cases "0 \<le> tm ! ((idx + j) mod ?n)")
    case True
    with j(3) \<open>0 < ?n\<close> show ?thesis by (intro that(1)) simp_all
  next
    case False
    then have jn: "j = ?n" using j(5) by simp
    then have i: "(idx + j) mod ?n = idx" using assms by simp
    have "tm ! p < 0" if p: "p < ?n" for p
    proof (cases "p = idx")
      case True
      with False i show ?thesis by simp
    next
      case ne: False
      define q where "q = (if idx < p then p - idx else ?n + p - idx)"
      have "(idx + q) mod ?n = p" "1 \<le> q" "q < ?n"
        using p ne assms by (auto simp: q_def)
      with j(4) jn show ?thesis by auto
    qed
    then have "live tm = {}" by (force simp: live_def in_set_conv_nth)
    with j(3) i False show ?thesis by (intro that(2)) simp_all
  qed
qed

section \<open>The map of turns\<close>

lemma turn_map_loop_pending:
  "reorder32_inv g \<Longrightarrow> k \<le> length (reorder32_pending g) \<Longrightarrow>
     turn_map_loop k g v = Some (map sint (take k (reorder32_pending g)))"
proof (induction k arbitrary: g v)
  case (Suc k)
  then obtain w ws where p: "reorder32_pending g = w # ws" by (cases "reorder32_pending g") auto
  from reorder32.next_head [OF Suc.prems(1) p] obtain g' where
    "reorder32_next g = Some (Some w, g')" "reorder32_inv g'" "reorder32_pending g' = ws" by blast
  with Suc.IH [of g' w] Suc.prems(2) p show ?case by simp
qed simp

lemma permutation_turns:
  assumes "set tm = int ` {0..<n}" and "distinct tm" and "length tm = n"
  shows "turns_wf tm" and "live tm = {0..<n}"
proof -
  have "tm ! i < int n" if "i < n" for i using assms that nth_mem [of i tm] by auto
  with assms show "turns_wf tm" by (auto simp: turns_wf_def nth_eq_iff_index_eq)
  show "live tm = {0..<n}" using assms(1) by (auto simp: live_def)
qed

lemma turn_map_permutation:
  assumes n: "0 < n" "n < 2 ^ 31"
  obtains tm where "turn_map n = Some tm" and "length tm = n" and "turns_wf tm" and "live tm = {0..<n}"
proof -
  let ?hi = "of_nat n - 1 :: u32"
  let ?g = "reorder32_init 0 ?hi"
  have hi: "unat ?hi = n - 1"
  proof -
    have e: "?hi = of_nat (n - 1)" using n(1) by (simp add: of_nat_diff)
    show ?thesis unfolding e using n by (intro unat_of_nat_small) simp
  qed
  have mm: "max 0 ?hi = ?hi" "min 0 ?hi = 0" by (simp_all add: max_def min_def)
  have "reorder32_inv ?g"
    using hi n by (intro reorder32_init_inv) (auto simp: mm word_unat_eq_iff)
  define P where "P = reorder32_pending ?g"
  have P: "distinct P" "set P = {0..?hi}"
    using mset_set_list [OF reorder32_pending_init [of 0 ?hi]] by (simp_all add: P_def mm)
  have small: "unat w < n" if "w \<in> set P" for w
    using that hi n P(2) by (auto simp: word_le_nat_alt)
  have sint: "sint w = int (unat w)" if "w \<in> set P" for w
    using small [OF that] n(2) by (intro sint_small) simp
  have img: "unat ` set P = {0..<n}"
  proof (intro equalityI subsetI)
    fix x assume "x \<in> {0..<n}"
    then have "unat (of_nat x :: u32) = x" using n by (intro unat_of_nat_small) simp
    with \<open>x \<in> {0..<n}\<close> hi P(2) show "x \<in> unat ` set P"
      by (intro image_eqI [of _ _ "of_nat x"]) (auto simp: word_le_nat_alt)
  qed (use small in auto)
  have inj: "inj_on unat (set P)" by (auto intro!: inj_onI simp: word_unat_eq_iff)
  have len: "length P = n"
    using card_image [OF inj] P(1) by (simp add: img distinct_card)
  let ?tm = "map sint P"
  have "map sint P = map int (map unat P)" using sint by (simp del: of_nat_unat)
  then have "set ?tm = int ` {0..<n}" unfolding img [symmetric] by (metis set_map)
  moreover have "distinct ?tm" using P(1) sint by (auto simp: distinct_map inj_on_def word_uint_eq_iff)
  ultimately have "turns_wf ?tm" "live ?tm = {0..<n}"
    using len by (simp_all add: permutation_turns del: set_map)
  moreover have "turn_map n = Some ?tm"
    using turn_map_loop_pending [OF \<open>reorder32_inv ?g\<close>, of n 0] len by (simp add: turn_map_def P_def)
  ultimately show thesis using len by (intro that [of ?tm]) simp_all
qed

end
