(* ===== verification/Ports_R4.thy ===== *)
theory Ports_R4
  imports Ports Round_Robin
begin

text \<open>
  The reordered port iterator \<open>port_r4ranges\<close> of \<^verbatim>\<open>lib/net/ports.c\<close>: the ranges take turns in
  a permuted order, and each range is gone through by a reordering block.
\<close>

record port_r4ranges =
  r4_rs :: port_ranges
  r4_nranges :: nat
  r4_ranges :: "reorder32 list"
  r4_rangemap :: "int list"
  r4_mapindex :: nat

definition port_r4ranges_zero :: port_r4ranges where
  "port_r4ranges_zero = \<lparr>r4_rs = port_ranges_zero, r4_nranges = 0, r4_ranges = [], r4_rangemap = [],
     r4_mapindex = 0\<rparr>"

definition port_r4ranges_reset :: "port_r4ranges \<Rightarrow> port_r4ranges option" where
  "port_r4ranges_reset r4 =
     (if r4_nranges r4 > length (pp_ranges (r4_rs r4)) then None
      else do {
        tm \<leftarrow> turn_map (r4_nranges r4);
        Some (r4\<lparr>r4_rangemap := tm,
                 r4_ranges := map (\<lambda>r. reorder32_init (ucast (pr_start r)) (ucast (pr_end r)))
                   (take (r4_nranges r4) (pp_ranges (r4_rs r4)))\<rparr>)
      })"

text \<open>
  The ranges are cleaned first. With no ranges, or more than \<open>INT_MAX\<close>, only the counters are
  set. \<open>sizeof(struct reorder32)\<close> is 28, \<open>sizeof(int)\<close> is 4.
\<close>

definition port_r4ranges_init ::
  "allocator \<Rightarrow> port_ranges \<Rightarrow> (status \<times> port_r4ranges \<times> port_ranges) option" where
  "port_r4ranges_init ok rs =
     (let rs = UNDIRTIFY rs;
          r4 = port_r4ranges_zero\<lparr>r4_nranges := pp_nranges rs\<rparr>
      in if pp_nranges rs = 0 \<or> pp_nranges rs > 2147483647 then Some (0, r4, rs)
         else let r4 = r4\<lparr>r4_rs := rs\<rparr>
         in if \<not> ok (of_nat (28 * pp_nranges rs)) then Some (-1, r4, rs)
         else if \<not> ok (of_nat (4 * pp_nranges rs)) then Some (-1, r4, rs)
         else do { r4 \<leftarrow> port_r4ranges_reset r4; Some (0, r4, rs) })"

definition port_r4ranges_cleanup :: "port_r4ranges \<Rightarrow> port_r4ranges" where
  "port_r4ranges_cleanup r4 = r4\<lparr>r4_ranges := [], r4_rangemap := [], r4_nranges := 0\<rparr>"

partial_function (option) port_r4ranges_next :: "port_r4ranges \<Rightarrow> (u16 option \<times> port_r4ranges) option" where
  "port_r4ranges_next r4 =
     (if r4_nranges r4 = 0 then Some (None, r4)
      else Option.bind (next_turn (r4_rangemap r4) (r4_mapindex r4) (r4_mapindex r4)) (\<lambda>cur.
        if cur = r4_mapindex r4 \<and> r4_rangemap r4 ! cur < 0
        then Option.bind (port_r4ranges_reset r4) (\<lambda>r4. Some (None, r4))
        else (let r4 = r4\<lparr>r4_mapindex := cur\<rparr>;
                  mapped = nat (r4_rangemap r4 ! cur)
              in if mapped \<ge> length (r4_ranges r4) then None
                 else Option.bind (reorder32_next (r4_ranges r4 ! mapped)) (\<lambda>(r, blk).
                   let r4 = r4\<lparr>r4_ranges := (r4_ranges r4)[mapped := blk]\<rparr>
                   in case r of
                        None \<Rightarrow> port_r4ranges_next (r4\<lparr>r4_rangemap := (r4_rangemap r4)[cur := -1]\<rparr>)
                      | Some v \<Rightarrow> Some (Some (ucast v), r4)))))"

section \<open>Invariant\<close>

definition part_bag :: "reorder32 \<Rightarrow> u16 multiset" where
  "part_bag blk = mset (map ucast (reorder32_pending blk))"

definition part_of :: "port_range \<Rightarrow> reorder32 \<Rightarrow> bool" where
  "part_of r blk \<longleftrightarrow> reorder32_inv blk \<and> r_first blk = ucast (pr_start r) \<and> r_last blk = ucast (pr_end r)"

definition port_r4_inv :: "port_r4ranges \<Rightarrow> bool" where
  "port_r4_inv r4 \<longleftrightarrow>
     (let rs = used (r4_rs r4); n = r4_nranges r4
      in ranges_wf (r4_rs r4) \<and> \<not> pp_dirty (r4_rs r4) \<and> n = pp_nranges (r4_rs r4) \<and> n < 2 ^ 31
       \<and> (0 < n \<longrightarrow> length (r4_rangemap r4) = n \<and> r4_mapindex r4 < n \<and> turns_wf (r4_rangemap r4)
          \<and> list_all2 part_of rs (r4_ranges r4)))"

definition port_r4_remaining :: "port_r4ranges \<Rightarrow> u16 multiset" where
  "port_r4_remaining r4 = (if r4_nranges r4 = 0 then {#}
     else \<Sum>j\<in>live (r4_rangemap r4). part_bag (r4_ranges r4 ! j))"

definition port_r4_whole :: "port_r4ranges \<Rightarrow> u16 multiset" where
  "port_r4_whole r4 = mset_set (ports_of (used (r4_rs r4)))"

lemma unat_ucast_u16: "unat (ucast (p :: u16) :: u32) = unat p"
  by (simp add: unsigned_ucast_eq take_bit_nat_eq_self unsigned_less [where ?'b = 16, THEN order_less_le_trans])

lemma ucast_back: "ucast (ucast (p :: u16) :: u32) = p"
  by (rule bit_word_eqI) (simp add: bit_simps)

lemma part_bag_init:
  assumes "range_ok r"
  shows "part_bag (reorder32_init (ucast (pr_start r)) (ucast (pr_end r))) = mset_set (range_set r)"
proof -
  let ?s = "ucast (pr_start r) :: u32" and ?e = "ucast (pr_end r) :: u32"
  have le: "?s \<le> ?e" using assms by (simp add: word_le_nat_alt unat_ucast_u16 range_ok_def)
  have "{?s..?e} = ucast ` range_set r"
  proof (intro equalityI subsetI)
    fix x assume x: "x \<in> {?s..?e}"
    then have u: "unat x < 2 ^ 16" using unat_less_exp [of "pr_end r"]
      by (auto simp: word_le_nat_alt unat_ucast_u16)
    then have "unat (ucast x :: u16) = unat x" by (simp add: unsigned_ucast_eq take_bit_nat_eq_self)
    with x u show "x \<in> ucast ` range_set r"
      by (intro image_eqI [of _ _ "ucast x"])
        (auto simp: word_le_nat_alt unat_ucast_u16 range_set_def word_unat_eq_iff)
  qed (auto simp: word_le_nat_alt unat_ucast_u16 range_set_def)
  moreover have "inj (ucast :: u16 \<Rightarrow> u32)" by (rule inj_on_inverseI) (rule ucast_back)
  ultimately have "mset (reorder32_pending (reorder32_init ?s ?e)) = image_mset ucast (mset_set (range_set r))"
    using le reorder32_pending_init [of ?s ?e] by (simp add: image_mset_mset_set inj_on_subset max_def min_def)
  then have "part_bag (reorder32_init ?s ?e) = image_mset (\<lambda>p. ucast (ucast p :: u32)) (mset_set (range_set r))"
    by (simp add: part_bag_def image_mset.compositionality comp_def)
  then show ?thesis by (simp add: ucast_back)
qed

lemma part_init:
  assumes "range_ok r"
  shows "part_of r (reorder32_init (ucast (pr_start r)) (ucast (pr_end r)))"
proof -
  let ?s = "ucast (pr_start r) :: u32" and ?e = "ucast (pr_end r) :: u32"
  have le: "?s \<le> ?e" using assms by (simp add: word_le_nat_alt unat_ucast_u16 range_ok_def)
  then have "unat (?e - ?s) < 2 ^ 16"
    using unat_less_exp [of "pr_end r"] by (simp add: unat_sub unat_ucast_u16)
  then have "?e - ?s \<noteq> 0xffffffff" by auto
  then have "reorder32_inv (reorder32_init ?s ?e)" using le by (intro reorder32_init_inv) (simp add: max_def min_def)
  with le show ?thesis by (auto simp: part_of_def reorder32_init_def Let_def)
qed

lemma part_next:
  assumes "part_of r blk"
  obtains (val) v blk' where "reorder32_next blk = Some (Some v, blk')" and "part_of r blk'"
      and "part_bag blk = add_mset (ucast v) (part_bag blk')"
  | (over) blk' where "reorder32_next blk = Some (None, blk')" and "part_of r blk'" and "part_bag blk = {#}"
proof (cases "unat (r_ival blk) \<le> unat (r_nitems blk)")
  case True
  from reorder32_next_pending [OF _ True] assms show ?thesis
    by (auto simp: part_of_def part_bag_def intro: val)
next
  case False
  have inv: "reorder32_inv blk" using assms by (simp add: part_of_def)
  then have "reorder32_pending blk = []" using False by (simp add: reorder32_pending_def)
  moreover have le: "r_first blk \<le> r_last blk" using inv unfolding reorder32_inv_def by blast
  have "reorder32_next blk = Some (None, reorder32_init (r_first blk) (r_last blk))"
    using False by (simp add: reorder32_next_def word_less_nat_alt)
  moreover have "part_of r (reorder32_init (r_first blk) (r_last blk))"
    using assms le reorder32_init_again [OF inv] by (auto simp: part_of_def reorder32_init_def Let_def)
  ultimately show ?thesis by (intro over) (simp_all add: part_bag_def)
qed

section \<open>A cycle visits every port once\<close>

lemma mset_set_ports:
  "normal rs \<Longrightarrow> mset_set (ports_of rs) = (\<Sum>j\<in>{0..<length rs}. mset_set (range_set (rs ! j)))"
proof (induction rs)
  case (Cons r rs)
  have "range_set r \<inter> ports_of rs = {}"
    using Cons.prems by (force simp: normal_Cons apart_def range_set_def ports_of_def word_le_nat_alt)
  then have "mset_set (ports_of (r # rs)) = mset_set (range_set r) + mset_set (ports_of rs)"
    by (simp add: mset_set_Union)
  with Cons show ?case by (simp add: normal_Cons sum.atLeast0_lessThan_Suc_shift del: sum.op_ivl_Suc)
qed simp

lemma reset_r4:
  assumes inv: "port_r4_inv r4" and n: "0 < r4_nranges r4"
  obtains r4' where "port_r4ranges_reset r4 = Some r4'" and "port_r4_inv r4'"
    and "port_r4_remaining r4' = port_r4_whole r4" and "r4_rs r4' = r4_rs r4" and "r4_nranges r4' = r4_nranges r4"
proof -
  let ?n = "r4_nranges r4" and ?rs = "used (r4_rs r4)"
  let ?init = "\<lambda>r. reorder32_init (ucast (pr_start r)) (ucast (pr_end r))"
  have i: "ranges_wf (r4_rs r4)" "\<not> pp_dirty (r4_rs r4)" "?n = pp_nranges (r4_rs r4)" "?n < 2 ^ 31"
      "r4_mapindex r4 < ?n"
    using inv n by (simp_all add: port_r4_inv_def Let_def)
  then have l: "length ?rs = ?n" "?n \<le> length (pp_ranges (r4_rs r4))" and nf: "normal ?rs"
    by (simp_all add: used_def ranges_wf_def)
  obtain tm where tm: "turn_map ?n = Some tm" "length tm = ?n" "turns_wf tm" "live tm = {0..<?n}"
    using turn_map_permutation [OF n i(4)] by blast
  define r4' where "r4' = r4\<lparr>r4_rangemap := tm, r4_ranges := map ?init ?rs\<rparr>"
  have ok: "range_ok r" if "r \<in> set ?rs" for r using nf that by (simp add: normal_def)
  have r: "port_r4ranges_reset r4 = Some r4'"
    using l(2) tm(1) i(3) by (simp add: port_r4ranges_reset_def r4'_def used_def)
  have "list_all2 part_of ?rs (map ?init ?rs)"
    using ok by (auto simp: list_all2_conv_all_nth part_init)
  then have "port_r4_inv r4'" using i tm n by (simp add: port_r4_inv_def r4'_def Let_def)
  moreover have "part_bag (map ?init ?rs ! j) = mset_set (range_set (?rs ! j))" if "j \<in> {0..<?n}" for j
    using that l(1) ok by (simp add: part_bag_init)
  then have "port_r4_remaining r4' = (\<Sum>j\<in>{0..<?n}. mset_set (range_set (?rs ! j)))"
    using n tm(4) by (simp add: port_r4_remaining_def r4'_def)
  then have "port_r4_remaining r4' = port_r4_whole r4"
    using mset_set_ports [OF nf] l(1) by (simp add: port_r4_whole_def)
  ultimately show thesis using r by (intro that [of r4']) (simp_all add: r4'_def)
qed

text \<open>Taking a value from the part whose turn it is, or marking it as depleted.\<close>

lemma part_turn:
  assumes inv: "port_r4_inv r4" and n: "0 < r4_nranges r4"
    and c: "c < length (r4_rangemap r4)" "0 \<le> r4_rangemap r4 ! c"
  defines "j \<equiv> nat (r4_rangemap r4 ! c)"
  shows "j < length (r4_ranges r4)" and "part_of (used (r4_rs r4) ! j) (r4_ranges r4 ! j)"
    and "port_r4_remaining r4 = part_bag (r4_ranges r4 ! j)
      + (\<Sum>i\<in>live (r4_rangemap r4) - {j}. part_bag (r4_ranges r4 ! i))"
    and "part_of (used (r4_rs r4) ! j) blk \<Longrightarrow>
      port_r4_inv (r4\<lparr>r4_mapindex := c, r4_ranges := (r4_ranges r4)[j := blk]\<rparr>)"
    and "part_of (used (r4_rs r4) ! j) blk \<Longrightarrow>
      port_r4_inv (r4\<lparr>r4_mapindex := c, r4_ranges := (r4_ranges r4)[j := blk],
        r4_rangemap := (r4_rangemap r4)[c := -1]\<rparr>)"
proof -
  have i: "turns_wf (r4_rangemap r4)" "length (r4_rangemap r4) = r4_nranges r4"
      "list_all2 part_of (used (r4_rs r4)) (r4_ranges r4)" "r4_nranges r4 = pp_nranges (r4_rs r4)"
      "pp_nranges (r4_rs r4) \<le> length (pp_ranges (r4_rs r4))"
    using inv n by (simp_all add: port_r4_inv_def Let_def ranges_wf_def)
  have lv: "j \<in> live (r4_rangemap r4)" using c unfolding j_def by (rule live_nth)
  show j: "j < length (r4_ranges r4)"
    using live_bound [OF i(1) lv] i list_all2_lengthD [OF i(3)] by (simp add: used_def)
  show "part_of (used (r4_rs r4) ! j) (r4_ranges r4 ! j)" using i(3) j by (rule list_all2_nthD2)
  show "port_r4_remaining r4 = part_bag (r4_ranges r4 ! j)
      + (\<Sum>i\<in>live (r4_rangemap r4) - {j}. part_bag (r4_ranges r4 ! i))"
    using n lv by (simp add: port_r4_remaining_def sum.remove)
  assume p: "part_of (used (r4_rs r4) ! j) blk"
  then have "list_all2 part_of (used (r4_rs r4)) ((r4_ranges r4)[j := blk])"
    using i(3) j by (auto simp: list_all2_conv_all_nth nth_list_update)
  with inv n c(1) deplete(1) [OF i(1) c] i(2) show
    "port_r4_inv (r4\<lparr>r4_mapindex := c, r4_ranges := (r4_ranges r4)[j := blk]\<rparr>)"
    "port_r4_inv (r4\<lparr>r4_mapindex := c, r4_ranges := (r4_ranges r4)[j := blk],
        r4_rangemap := (r4_rangemap r4)[c := -1]\<rparr>)"
    by (simp_all add: port_r4_inv_def Let_def)
qed

definition r4_step :: "port_r4ranges \<Rightarrow> (u16 option \<times> port_r4ranges) option \<Rightarrow> bool" where
  "r4_step r4 res \<longleftrightarrow>
     (\<exists>r r4'. res = Some (r, r4') \<and> port_r4_inv r4' \<and> r4_rs r4' = r4_rs r4 \<and>
        (case r of
           Some v \<Rightarrow> port_r4_remaining r4 = add_mset v (port_r4_remaining r4')
         | None \<Rightarrow> port_r4_remaining r4 = {#} \<and> port_r4_remaining r4' = port_r4_whole r4))"

lemma port_r4ranges_next_step:
  assumes "port_r4_inv r4" and "0 < r4_nranges r4"
  shows "r4_step r4 (port_r4ranges_next r4)"
  using assms
proof (induction "card (live (r4_rangemap r4))" arbitrary: r4 rule: less_induct)
  case less
  let ?tm = "r4_rangemap r4" and ?i = "r4_mapindex r4"
  have inv: "turns_wf ?tm" "?i < length ?tm" using less.prems by (simp_all add: port_r4_inv_def Let_def)
  from inv(2) show ?case
  proof (cases rule: next_turn_finds)
    case 2
    from reset_r4 [OF less.prems] obtain r4' where r: "port_r4ranges_reset r4 = Some r4'" "port_r4_inv r4'"
      "port_r4_remaining r4' = port_r4_whole r4" "r4_rs r4' = r4_rs r4" by blast
    have "port_r4_remaining r4 = {#}" using 2 by (simp add: port_r4_remaining_def)
    moreover have "port_r4ranges_next r4 = Some (None, r4')"
      using 2 r(1) less.prems by (subst port_r4ranges_next.simps) simp
    ultimately show ?thesis using r by (simp add: r4_step_def)
  next
    case (1 c)
    define j where "j = nat (?tm ! c)"
    define q where "q = used (r4_rs r4) ! j"
    note t = part_turn [OF less.prems 1(2,3), folded j_def, folded q_def]
    have step: "port_r4ranges_next r4 =
        Option.bind (reorder32_next (r4_ranges r4 ! j)) (\<lambda>(r, blk).
           let r4 = r4\<lparr>r4_mapindex := c, r4_ranges := (r4_ranges r4)[j := blk]\<rparr>
           in case r of None \<Rightarrow> port_r4ranges_next (r4\<lparr>r4_rangemap := (r4_rangemap r4)[c := -1]\<rparr>)
              | Some v \<Rightarrow> Some (Some (ucast v), r4))"
      using 1 less.prems t(1) by (subst port_r4ranges_next.simps) (simp add: j_def Let_def)
    have d: "turns_wf (?tm[c := -1])" "live (?tm[c := -1]) = live ?tm - {j}"
      using deplete [OF inv(1) 1(2,3)] by (simp_all add: j_def)
    have jl: "j \<in> live ?tm" unfolding j_def using 1(2,3) by (rule live_nth)
    have others: "(\<Sum>i\<in>live ?tm - {j}. part_bag ((r4_ranges r4)[j := blk] ! i)) =
        (\<Sum>i\<in>live ?tm - {j}. part_bag (r4_ranges r4 ! i))" for blk by (rule sum.cong) auto
    from t(2) show ?thesis
    proof (cases rule: part_next)
      case (val v blk)
      let ?r4 = "r4\<lparr>r4_mapindex := c, r4_ranges := (r4_ranges r4)[j := blk]\<rparr>"
      have "port_r4_remaining ?r4 = part_bag blk + (\<Sum>i\<in>live ?tm - {j}. part_bag (r4_ranges r4 ! i))"
        using jl t(1) less.prems(2) others [of blk] by (simp add: port_r4_remaining_def sum.remove)
      with t(3,4) val step show ?thesis by (simp add: r4_step_def)
    next
      case (over blk)
      let ?r4 = "r4\<lparr>r4_mapindex := c, r4_ranges := (r4_ranges r4)[j := blk], r4_rangemap := ?tm[c := -1]\<rparr>"
      have e: "port_r4_remaining ?r4 = port_r4_remaining r4"
        using t(3) over(3) less.prems(2) d(2) others [of blk] by (simp add: port_r4_remaining_def)
      have "card (live (r4_rangemap ?r4)) < card (live ?tm)"
        using card_Diff1_less [OF finite_live jl] d(2) by simp
      moreover have "port_r4_inv ?r4" "0 < r4_nranges ?r4" using t(5) [OF over(2)] less.prems(2) by simp_all
      ultimately have ih: "r4_step ?r4 (port_r4ranges_next ?r4)" by (rule less.hyps)
      have n: "port_r4ranges_next r4 = port_r4ranges_next ?r4" using step over(1) by simp
      have w: "port_r4_whole ?r4 = port_r4_whole r4" "r4_rs ?r4 = r4_rs r4" by (simp_all add: port_r4_whole_def)
      from ih show ?thesis unfolding r4_step_def e w n .
    qed
  qed
qed

interpretation port_r4: bag_iterator port_r4_inv port_r4_remaining port_r4_whole port_r4ranges_next
proof
  fix r4 assume inv: "port_r4_inv r4" and "port_r4_remaining r4 \<noteq> {#}"
  then have "0 < r4_nranges r4" by (auto simp: port_r4_remaining_def split: if_splits)
  from port_r4ranges_next_step [OF inv this] \<open>port_r4_remaining r4 \<noteq> {#}\<close>
  show "\<exists>v s'. port_r4ranges_next r4 = Some (Some v, s') \<and> port_r4_inv s' \<and>
      port_r4_remaining r4 = add_mset v (port_r4_remaining s') \<and> port_r4_whole s' = port_r4_whole r4"
    by (auto simp: r4_step_def port_r4_whole_def split: option.splits)
next
  fix r4 assume inv: "port_r4_inv r4" and e: "port_r4_remaining r4 = {#}"
  show "\<exists>s'. port_r4ranges_next r4 = Some (None, s') \<and> port_r4_inv s' \<and>
      port_r4_remaining s' = port_r4_whole r4 \<and> port_r4_whole s' = port_r4_whole r4"
  proof (cases "r4_nranges r4 = 0")
    case True
    then have "used (r4_rs r4) = []" using inv by (simp add: port_r4_inv_def Let_def used_def)
    with True inv e show ?thesis by (subst port_r4ranges_next.simps) (simp add: port_r4_whole_def)
  next
    case False
    then have "0 < r4_nranges r4" by simp
    from port_r4ranges_next_step [OF inv this] e show ?thesis
      by (auto simp: r4_step_def port_r4_whole_def split: option.splits)
  qed
qed

section \<open>Properties\<close>

text \<open>
  The reordered port iterator returns every port of the ranges exactly once per cycle and
  then reports the end; every call returns, and the next cycle returns all ports again.
\<close>

theorem port_r4ranges_permutation:
  assumes "ranges_wf rs" and "0 < pp_nranges rs" and "pp_nranges rs < 2 ^ 31"
    and "port_r4ranges_init ok rs = Some (0, r4, rs')" and "card (ports_of (used rs)) < n"
  shows "\<exists>vs r4'. collect port_r4ranges_next n r4 = Some (vs, r4') \<and> distinct vs
    \<and> set vs = ports_of (used rs) \<and> port_r4_remaining r4' = mset vs"
proof -
  let ?rs = "UNDIRTIFY rs"
  have u: "ranges_wf ?rs" "\<not> pp_dirty ?rs" "ports_of (used ?rs) = ports_of (used rs)"
      "pp_nranges ?rs \<le> pp_nranges rs"
    using UNDIRTIFY_correct [OF assms(1)] by simp_all
  let ?r4 = "port_r4ranges_zero\<lparr>r4_nranges := pp_nranges ?rs, r4_rs := ?rs\<rparr>"
  show ?thesis
  proof (cases "pp_nranges ?rs = 0")
    case True
    then have "used ?rs = []" by (simp add: used_def)
    then have e: "ports_of (used rs) = {}" using u(3) by simp
    have "r4 = port_r4ranges_zero\<lparr>r4_nranges := 0\<rparr>"
      using assms(4) True by (simp add: port_r4ranges_init_def Let_def)
    then have "port_r4_inv r4" "port_r4_remaining r4 = {#}" "port_r4_whole r4 = {#}"
      by (simp_all add: port_r4_inv_def port_r4ranges_zero_def port_ranges_zero_def ranges_wf_def
          port_r4_remaining_def port_r4_whole_def used_def)
    with port_r4.collect_bag [of r4 n] assms(5) e show ?thesis by auto
  next
    case False
    have r: "port_r4ranges_reset ?r4 = Some r4"
      using assms(3,4) False u(4)
      by (auto simp: port_r4ranges_init_def Let_def bind_eq_Some_conv split: if_splits)
    obtain tm where tm: "turn_map (pp_nranges ?rs) = Some tm" "length tm = pp_nranges ?rs" "turns_wf tm"
        "live tm = {0..<pp_nranges ?rs}"
      using turn_map_permutation [of "pp_nranges ?rs"] False assms(3) u(4) by auto
    define r0 where "r0 = ?r4\<lparr>r4_rangemap := tm, r4_ranges :=
        map (\<lambda>r. reorder32_init (ucast (pr_start r)) (ucast (pr_end r))) (used ?rs)\<rparr>"
    have nf: "\<forall>r\<in>set (used ?rs). range_ok r" using u(1) by (simp add: ranges_wf_def used_def)
    have "port_r4_inv r0"
      using u tm False assms(3) nf
      by (auto simp: port_r4_inv_def r0_def port_r4ranges_zero_def Let_def list_all2_conv_all_nth part_init)
    moreover have "port_r4ranges_reset r0 = Some r4"
      using r tm(1) by (auto simp: port_r4ranges_reset_def r0_def split: if_splits)
    ultimately have r4: "port_r4_inv r4" "port_r4_remaining r4 = port_r4_whole r0" "r4_rs r4 = ?rs"
      using reset_r4 [of r0] False by (auto simp: r0_def)
    then have w: "port_r4_remaining r4 = mset_set (ports_of (used rs))"
        "port_r4_whole r4 = mset_set (ports_of (used rs))"
      using u(3) by (simp_all add: port_r4_whole_def r0_def)
    from port_r4.collect_bag [OF r4(1), of n] w assms(5) obtain vs r4' where
      "collect port_r4ranges_next n r4 = Some (vs, r4')" "mset vs = mset_set (ports_of (used rs))"
      "port_r4_remaining r4' = mset_set (ports_of (used rs))" by auto
    with mset_set_list [of vs "ports_of (used rs)"] show ?thesis by auto
  qed
qed

lemma port_r4ranges_init_returns:
  assumes "ranges_wf rs" and "pp_nranges rs < 2 ^ 31"
    and "\<And>k. k \<le> pp_nranges rs \<Longrightarrow> ok (of_nat (28 * k)) \<and> ok (of_nat (4 * k))"
  shows "\<exists>r4. port_r4ranges_init ok rs = Some (0, r4, UNDIRTIFY rs)"
proof (cases "pp_nranges (UNDIRTIFY rs) = 0")
  case False
  have u: "ranges_wf (UNDIRTIFY rs)" "pp_nranges (UNDIRTIFY rs) \<le> pp_nranges rs"
    using UNDIRTIFY_correct [OF assms(1)] by simp_all
  obtain tm where "turn_map (pp_nranges (UNDIRTIFY rs)) = Some tm"
    using turn_map_permutation [of "pp_nranges (UNDIRTIFY rs)"] False assms(2) u(2) by auto
  with False u assms(2,3) show ?thesis
    by (simp add: port_r4ranges_init_def port_r4ranges_reset_def Let_def ranges_wf_def)
qed (simp add: port_r4ranges_init_def Let_def)

theorem port_r4ranges_permutation_witness:
  "\<exists>r4 rs' vs r4'. port_r4ranges_init tib_alloc \<lparr>pp_cap = 2, pp_nranges = 2,
      pp_ranges = [PortRange 80 81, PortRange 22 22], pp_curr_range = 0, pp_curr_port = 0, pp_dirty = True\<rparr>
        = Some (0, r4, rs')
    \<and> collect port_r4ranges_next 9 r4 = Some (vs, r4') \<and> distinct vs \<and> set vs = {22, 80, 81}"
proof -
  let ?s = "\<lparr>pp_cap = 2, pp_nranges = 2, pp_ranges = [PortRange 80 81, PortRange 22 22],
      pp_curr_range = 0, pp_curr_port = 0, pp_dirty = True\<rparr>"
  have wf: "ranges_wf ?s" by (simp add: ranges_wf_def range_ok_def)
  have "{80..81 :: u16} = {80, 81}"
    using set_ports_from [of 80 81] by (simp add: ports_from_def upt_conv_Cons)
  then have p: "ports_of (used ?s) = {22, 80, 81}" by (auto simp: used_def range_set_def)
  have "tib_alloc (of_nat (28 * k)) \<and> tib_alloc (of_nat (4 * k))" if "k \<le> pp_nranges ?s" for k
  proof -
    have "k = 0 \<or> k = 1 \<or> k = 2" using that by auto
    then show ?thesis by (auto simp: tib_alloc_def)
  qed
  then have "\<exists>r4. port_r4ranges_init tib_alloc ?s = Some (0, r4, UNDIRTIFY ?s)"
    using wf by (intro port_r4ranges_init_returns) auto
  then obtain r4 where r4: "port_r4ranges_init tib_alloc ?s = Some (0, r4, UNDIRTIFY ?s)" by blast
  have "\<exists>vs r4'. collect port_r4ranges_next 9 r4 = Some (vs, r4') \<and> distinct vs
      \<and> set vs = ports_of (used ?s) \<and> port_r4_remaining r4' = mset vs"
    by (rule port_r4ranges_permutation [OF wf _ _ r4]) (simp_all add: p)
  with r4 p show ?thesis by auto
qed

end
