(* ===== verification/Ip.thy ===== *)
theory Ip
  imports Buf Iterator
begin

text \<open>
  Addresses and address blocks, \<^verbatim>\<open>lib/net/ip.c\<close>: comparison, arithmetic, netmasks, CIDR and
  range blocks and their textual forms. The resolver functions of the C library are
  parameters: \<open>gai s\<close> is what \<open>getaddrinfo\<close> finds for a numeric host \<open>s\<close> (an error code, or
  the socket addresses in order), \<open>gni a len\<close> is what \<open>getnameinfo\<close> writes into a buffer of
  \<open>len\<close> bytes.
\<close>

section \<open>Addresses\<close>

text \<open>
  The union \<open>ip_addr_t\<close> by its address family; every other family is \<open>AF_UNSPEC\<close>. The IPv4
  address and the four 32-bit parts of the IPv6 address are given in host byte order, so that
  \<open>memcmp\<close> on the bytes in network order is the comparison of the numbers, the first part
  being the most significant.
\<close>

datatype ip_addr_t = AF_UNSPEC | AF_INET u32 | AF_INET6 (s6_addr32: "u32 list") (scope_id: u32)

fun sa_family :: "ip_addr_t \<Rightarrow> nat" where
  "sa_family AF_UNSPEC = 0"
| "sa_family (AF_INET _) = 2"
| "sa_family (AF_INET6 _ _) = 10"

definition EAI_NONAME :: int where "EAI_NONAME = -2"
definition EAI_FAMILY :: int where "EAI_FAMILY = -6"
definition EAI_MEMORY :: int where "EAI_MEMORY = -10"
definition EAI_OVERFLOW :: int where "EAI_OVERFLOW = -12"

definition YANS_IP_ADDR_MAXLEN :: nat where
  "YANS_IP_ADDR_MAXLEN = 512"

definition ip_space :: "byte list" where
  "ip_space = '' '' @ [CHR 0x09, CHR 0x0D, CHR 0x0A]"

type_synonym getaddrinfo = "bytes \<Rightarrow> int + ip_addr_t list"
type_synonym getnameinfo = "ip_addr_t \<Rightarrow> nat \<Rightarrow> int + bytes"

text \<open>
  An error is the code stored in \<open>err\<close>, or \<^const>\<open>None\<close> when none is stored.
\<close>

definition ip_addr :: "getaddrinfo \<Rightarrow> bytes \<Rightarrow> int option + ip_addr_t" where
  "ip_addr gai s =
     (let addrbuf = take (YANS_IP_ADDR_MAXLEN - 1) s;
          start = drop (strspn addrbuf ip_space) addrbuf;
          start = take (strcspn start ip_space) start
      in case gai start of
           Inl e \<Rightarrow> Inl (Some e)
         | Inr ai \<Rightarrow>
             (case filter (\<lambda>a. a \<noteq> AF_UNSPEC) ai of [] \<Rightarrow> Inl None | a # _ \<Rightarrow> Inr a))"

definition ip_addr_str :: "getnameinfo \<Rightarrow> ip_addr_t \<Rightarrow> nat \<Rightarrow> int + bytes" where
  "ip_addr_str gni addr dstlen =
     (case addr of AF_UNSPEC \<Rightarrow> Inl EAI_FAMILY | _ \<Rightarrow> gni addr dstlen)"

text \<open>The comparison of two blocks of memory; only the sign of the result is specified.\<close>

fun words_cmp :: "u32 list \<Rightarrow> u32 list \<Rightarrow> int" where
  "words_cmp (a # as) (b # bs) = (if a < b then -1 else if a > b then 1 else words_cmp as bs)"
| "words_cmp _ _ = 0"

text \<open>The second component is the error code, if one is stored.\<close>

fun ip_addr_cmp :: "ip_addr_t \<Rightarrow> ip_addr_t \<Rightarrow> int \<times> int option" where
  "ip_addr_cmp (AF_INET _) (AF_INET6 _ _) = (-1, None)"
| "ip_addr_cmp (AF_INET6 _ _) (AF_INET _) = (1, None)"
| "ip_addr_cmp (AF_INET a) (AF_INET b) = (words_cmp [a] [b], None)"
| "ip_addr_cmp (AF_INET6 a _) (AF_INET6 b _) = (words_cmp a b, None)"
| "ip_addr_cmp _ _ = (-1, Some EAI_FAMILY)"

section \<open>Arithmetic\<close>

text \<open>
  The addition loop of \<open>ip_addr_add_ipv6\<close>, from the least significant part up; the lists are
  given in that order.
\<close>

fun add_ipv6_loop :: "u64 \<Rightarrow> u32 list \<Rightarrow> u32 list \<Rightarrow> u32 list" where
  "add_ipv6_loop acc (a # as) (e # es) =
     (let acc = ucast a + ucast e + acc
      in ucast acc # add_ipv6_loop (drop_bit 32 acc) as es)"
| "add_ipv6_loop acc _ _ = []"

definition ip_addr_add_ipv6 :: "u32 list \<Rightarrow> 32 word \<Rightarrow> u32 list" where
  "ip_addr_add_ipv6 addr n =
     (let x = (if sint n < 0 then 0xffffffff else 0);
          ext = [x, x, x, n]
      in rev (add_ipv6_loop 0 (rev addr) (rev ext)))"

fun ip_addr_add :: "ip_addr_t \<Rightarrow> 32 word \<Rightarrow> ip_addr_t" where
  "ip_addr_add (AF_INET a) n = AF_INET (a + n)"
| "ip_addr_add (AF_INET6 a z) n = AF_INET6 (ip_addr_add_ipv6 a n) z"
| "ip_addr_add AF_UNSPEC n = AF_UNSPEC"

definition ip_addr_sub :: "ip_addr_t \<Rightarrow> 32 word \<Rightarrow> ip_addr_t" where
  "ip_addr_sub addr n = ip_addr_add addr (- n)"

section \<open>Netmasks\<close>

text \<open>
  \<open>1 << (32 - k)\<close> is an \<open>int\<close> shift; for \<open>k = 1\<close> it overflows, which is undefined in C and
  wraps around on the supported compilers.
\<close>

definition low_mask :: "nat \<Rightarrow> u32" where
  "low_mask k = NOT (push_bit (32 - k) 1 - 1)"

definition ip6_netmask :: "nat \<Rightarrow> u32 list" where
  "ip6_netmask prefixlen =
     (let prefixlen = (if prefixlen > 128 then 128 else prefixlen);
          nset = prefixlen div 32;
          nsetmod = prefixlen mod 32;
          s6 = replicate nset 0xffffffff @ replicate (4 - nset) 0
      in if nsetmod \<noteq> 0 \<and> nset \<le> 3 then s6[nset := low_mask nsetmod] else s6)"

definition ip6_clearbits :: "u32 list \<Rightarrow> u32 list \<Rightarrow> u32 list" where
  "ip6_clearbits addr msk = map2 (AND) addr msk"

definition ip6_setbits :: "u32 list \<Rightarrow> u32 list \<Rightarrow> u32 list" where
  "ip6_setbits addr msk = map2 (\<lambda>a m. a OR NOT m) addr msk"

definition ip6_block_mask :: "u32 list \<Rightarrow> u32 list \<Rightarrow> nat \<Rightarrow> u32 list \<times> u32 list" where
  "ip6_block_mask lo hi prefixlen =
     (let msk = ip6_netmask prefixlen in (ip6_clearbits lo msk, ip6_setbits hi msk))"

definition ip4_netmask :: "nat \<Rightarrow> u32" where
  "ip4_netmask prefixlen =
     (if prefixlen = 0 then 0 else if prefixlen > 32 then 0xffffffff else low_mask prefixlen)"

definition ip4_block_mask :: "u32 \<Rightarrow> u32 \<Rightarrow> nat \<Rightarrow> u32 \<times> u32" where
  "ip4_block_mask lo hi prefixlen =
     (let msk = ip4_netmask prefixlen in (lo AND msk, hi OR NOT msk))"

section \<open>Blocks\<close>

record ip_block_t =
  blk_first :: ip_addr_t
  blk_last :: ip_addr_t

definition ip_block_cidr :: "getaddrinfo \<Rightarrow> bytes \<Rightarrow> bytes \<Rightarrow> int option + ip_block_t" where
  "ip_block_cidr gai addrstr plenstr =
     (case ip_addr gai addrstr of
        Inl e \<Rightarrow> Inl e
      | Inr addr \<Rightarrow>
          (case strtoul10 plenstr of
             (prefixlen, cptr) \<Rightarrow>
               if cptr \<noteq> [] then Inl (Some EAI_NONAME)
               else case addr of
                 AF_INET a \<Rightarrow>
                   if prefixlen > 32 then Inl (Some EAI_NONAME)
                   else (let (lo, hi) = ip4_block_mask a a (unat prefixlen)
                         in Inr \<lparr>blk_first = AF_INET lo, blk_last = AF_INET hi\<rparr>)
               | AF_INET6 a z \<Rightarrow>
                   if prefixlen > 128 then Inl (Some EAI_NONAME)
                   else (let (lo, hi) = ip6_block_mask a a (unat prefixlen)
                         in Inr \<lparr>blk_first = AF_INET6 lo z, blk_last = AF_INET6 hi z\<rparr>)
               | AF_UNSPEC \<Rightarrow> Inl (Some EAI_NONAME)))"

definition ip_block_from_addrs :: "ip_addr_t \<Rightarrow> ip_addr_t \<Rightarrow> int option + ip_block_t" where
  "ip_block_from_addrs a1 a2 =
     (if sa_family a1 \<noteq> sa_family a2 then Inl (Some EAI_FAMILY)
      else case ip_addr_cmp a1 a2 of
        (cmp, Some lerr) \<Rightarrow> Inl (Some lerr)
      | (cmp, None) \<Rightarrow>
          if cmp < 0 then Inr \<lparr>blk_first = a1, blk_last = a2\<rparr>
          else Inr \<lparr>blk_first = a2, blk_last = a1\<rparr>)"

definition ip_block_range :: "getaddrinfo \<Rightarrow> bytes \<Rightarrow> bytes \<Rightarrow> int option + ip_block_t" where
  "ip_block_range gai lo hi =
     (case ip_addr gai lo of
        Inl e \<Rightarrow> Inl e
      | Inr a1 \<Rightarrow> (case ip_addr gai hi of Inl e \<Rightarrow> Inl e | Inr a2 \<Rightarrow> ip_block_from_addrs a1 a2))"

definition ip_block_from_str :: "getaddrinfo \<Rightarrow> bytes \<Rightarrow> int option + ip_block_t" where
  "ip_block_from_str gai s =
     (let addrbuf = take (YANS_IP_ADDR_MAXLEN - 1) s
      in if CHR ''/'' \<in> set addrbuf then
           ip_block_cidr gai (takeWhile (\<lambda>c. c \<noteq> CHR ''/'') addrbuf)
             (tl (dropWhile (\<lambda>c. c \<noteq> CHR ''/'') addrbuf))
         else if CHR ''-'' \<in> set addrbuf then
           ip_block_range gai (takeWhile (\<lambda>c. c \<noteq> CHR ''-'') addrbuf)
             (tl (dropWhile (\<lambda>c. c \<noteq> CHR ''-'') addrbuf))
         else case ip_addr gai addrbuf of
           Inl e \<Rightarrow> Inl e
         | Inr a \<Rightarrow> Inr \<lparr>blk_first = a, blk_last = a\<rparr>)"

text \<open>
  The loop of \<open>calc_prefixlen\<close> over the bytes of a netmask, the last byte first: the number of
  zero bits at the end.
\<close>

function trailing_zeros :: "u8 \<Rightarrow> nat" where
  "trailing_zeros w = (if w = 0 \<or> odd (unat w) then 0 else Suc (trailing_zeros (drop_bit 1 w)))"
  by pat_completeness auto
termination
proof (relation "measure unat")
  fix w :: u8 assume "\<not> (w = 0 \<or> odd (unat w))"
  then show "(drop_bit 1 w, w) \<in> measure unat"
    by (simp add: drop_bit_eq_div unat_div unat_gt_0)
qed simp

declare trailing_zeros.simps [simp del]

fun prefixlen_loop :: "u8 list \<Rightarrow> nat" where
  "prefixlen_loop [] = 0"
| "prefixlen_loop (b # bs) = (if b = 0 then 8 + prefixlen_loop bs else trailing_zeros b)"

definition calc_prefixlen :: "u8 list \<Rightarrow> nat" where
  "calc_prefixlen data = length data * 8 - prefixlen_loop (rev data)"

text \<open>The bytes of a 32-bit number in network order.\<close>

definition be_bytes :: "u32 \<Rightarrow> u8 list" where
  "be_bytes w = [ucast (drop_bit 24 w), ucast (drop_bit 16 w), ucast (drop_bit 8 w), ucast w]"

definition ip_block_netmask :: "ip_addr_t \<Rightarrow> ip_addr_t \<Rightarrow> int + ip_block_t" where
  "ip_block_netmask addr netmask =
     (case (addr, netmask) of
        (AF_INET a, AF_INET m) \<Rightarrow>
          (let (lo, hi) = ip4_block_mask a a (calc_prefixlen (be_bytes m))
           in Inr \<lparr>blk_first = AF_INET lo, blk_last = AF_INET hi\<rparr>)
      | (AF_INET6 a z, AF_INET6 m _) \<Rightarrow>
          (let (lo, hi) = ip6_block_mask a a (calc_prefixlen (concat (map be_bytes m)))
           in Inr \<lparr>blk_first = AF_INET6 lo z, blk_last = AF_INET6 hi z\<rparr>)
      | _ \<Rightarrow> Inl EAI_FAMILY)"

definition ip_block_contains :: "ip_block_t \<Rightarrow> ip_addr_t \<Rightarrow> bool" where
  "ip_block_contains blk addr \<longleftrightarrow>
     sa_family (blk_first blk) = sa_family (blk_last blk) \<and> sa_family (blk_first blk) = sa_family addr
     \<and> fst (ip_addr_cmp addr (blk_last blk)) \<le> 0 \<and> fst (ip_addr_cmp addr (blk_first blk)) \<ge> 0"

text \<open>
  The text goes into a buffer of \<open>dstlen\<close> bytes, which must hold the terminating NUL too.
\<close>

definition ip_block_to_str :: "getnameinfo \<Rightarrow> ip_block_t \<Rightarrow> nat \<Rightarrow> int + bytes" where
  "ip_block_to_str gni blk dstlen =
     (case ip_addr_str gni (blk_first blk) dstlen of
        Inl e \<Rightarrow> Inl e
      | Inr dst \<Rightarrow>
          if fst (ip_addr_cmp (blk_first blk) (blk_last blk)) = 0 then Inr dst
          else (let left = dstlen - length dst
                in if left < 2 then Inl EAI_OVERFLOW
                   else case ip_addr_str gni (blk_last blk) (left - 1) of
                     Inl e \<Rightarrow> Inl e
                   | Inr t \<Rightarrow> Inr (dst @ ''-'' @ t)))"

section \<open>The value of an address\<close>

definition words_val :: "u32 list \<Rightarrow> nat" where
  "words_val ws = foldl (\<lambda>v w. v * 2 ^ 32 + unat w) 0 ws"

fun rev_val :: "u32 list \<Rightarrow> nat" where
  "rev_val [] = 0"
| "rev_val (w # ws) = unat w + 2 ^ 32 * rev_val ws"

fun ip_val :: "ip_addr_t \<Rightarrow> nat" where
  "ip_val AF_UNSPEC = 0"
| "ip_val (AF_INET a) = unat a"
| "ip_val (AF_INET6 a _) = words_val a"

fun ip_width :: "ip_addr_t \<Rightarrow> nat" where
  "ip_width AF_UNSPEC = 0"
| "ip_width (AF_INET _) = 32"
| "ip_width (AF_INET6 _ _) = 128"

fun ip_wf :: "ip_addr_t \<Rightarrow> bool" where
  "ip_wf AF_UNSPEC = False"
| "ip_wf (AF_INET _) = True"
| "ip_wf (AF_INET6 a _) = (length a = 4)"

lemma words_val_Nil [simp]: "words_val [] = 0"
  by (simp add: words_val_def)

lemma words_val_snoc: "words_val (ws @ [w]) = words_val ws * 2 ^ 32 + unat w"
  by (simp add: words_val_def)

lemma words_val_append: "words_val (vs @ ws) = words_val vs * 2 ^ (32 * length ws) + words_val ws"
proof (induction ws rule: rev_induct)
  case (snoc w ws)
  have "words_val (vs @ ws @ [w]) = words_val (vs @ ws) * 2 ^ 32 + unat w"
    using words_val_snoc [of "vs @ ws"] by simp
  with snoc show ?case by (simp add: words_val_snoc power_add algebra_simps)
qed simp

lemma words_val_Cons: "words_val (w # ws) = unat w * 2 ^ (32 * length ws) + words_val ws"
  using words_val_append [of "[w]" ws] by (simp add: words_val_def)

lemma words_val_rev: "words_val (rev ws) = rev_val ws"
  by (induction ws) (simp_all add: words_val_snoc)

lemma words_val_less: "words_val ws < 2 ^ (32 * length ws)"
proof (induction ws)
  case (Cons w ws)
  have "unat w < 2 ^ 32" using unat_less_exp [of w] by simp
  then have le: "(unat w + 1) * 2 ^ (32 * length ws) \<le> 2 ^ 32 * 2 ^ (32 * length ws)"
    by (intro mult_right_mono) simp_all
  have "words_val (w # ws) < (unat w + 1) * 2 ^ (32 * length ws)" using Cons by (simp add: words_val_Cons)
  also note le
  also have "2 ^ 32 * 2 ^ (32 * length ws) = (2 :: nat) ^ (32 * length (w # ws))" by (simp add: power_add)
  finally show ?case .
qed simp

lemma ip_val_less: "ip_wf a \<Longrightarrow> ip_val a < 2 ^ ip_width a"
  using words_val_less [of "s6_addr32 a"] unat_less_exp [where ?'a = 32] by (cases a) auto

text \<open>The comparison of addresses is the comparison of their values.\<close>

lemma words_cmp_sgn:
  "length as = length bs \<Longrightarrow> words_cmp as bs = sgn (int (words_val as) - int (words_val bs))"
proof (induction as bs rule: list_induct2)
  case (Cons a as b bs)
  have less: "words_val (x # xs) < words_val (y # ys)"
    if "x < y" "length xs = length ys" for x y :: u32 and xs ys
  proof -
    have "(unat x + 1) * 2 ^ (32 * length ys) \<le> unat y * 2 ^ (32 * length ys)"
      using that(1) by (intro mult_right_mono) (simp_all add: word_less_nat_alt)
    then show ?thesis
      using words_val_less [of xs] that(2) by (simp add: words_val_Cons algebra_simps)
  qed
  consider "a < b" | "b < a" | "a = b" by (meson linorder_less_linear)
  then show ?case
  proof cases
    case 1
    with less [OF 1 Cons.hyps(1)] show ?thesis by simp
  next
    case 2
    with less [OF 2 Cons.hyps(1) [symmetric]] show ?thesis by (simp add: not_less_iff_gr_or_eq)
  next
    case 3
    with Cons show ?thesis by (simp add: words_val_Cons)
  qed
qed simp

lemma ip_addr_cmp_sgn:
  assumes "ip_wf a" and "ip_wf b" and "sa_family a = sa_family b"
  shows "ip_addr_cmp a b = (sgn (int (ip_val a) - int (ip_val b)), None)"
  using assms by (cases a; cases b)
    (simp_all add: words_cmp_sgn words_val_Cons del: words_cmp.simps)

text \<open>Addition is addition modulo the size of the address space.\<close>

lemma add_ipv6_loop_value:
  assumes "length as = length es" and "unat acc < 2 ^ 32"
  shows "length (add_ipv6_loop acc as es) = length as
    \<and> rev_val (add_ipv6_loop acc as es) = (rev_val as + rev_val es + unat acc) mod 2 ^ (32 * length as)"
  using assms
proof (induction acc as es rule: add_ipv6_loop.induct)
  case (1 acc a as e es)
  let ?s = "ucast a + ucast e + acc :: u64"
  have u: "unat (ucast x :: u64) = unat x" "unat x < 2 ^ 32" for x :: u32
    using unat_less_exp [of x] by (simp_all add: unsigned_ucast_eq take_bit_nat_eq_self)
  have s: "unat ?s = unat a + unat e + unat acc"
    using u(2) [of a] u(2) [of e] "1.prems"(2) by (simp add: unat_add_small u)
  have d: "unat (drop_bit 32 ?s) = unat ?s div 2 ^ 32"
    by (simp add: drop_bit_eq_div unat_div)
  moreover have "unat ?s div 2 ^ 32 < 2 ^ 32" using s u(2) [of a] u(2) [of e] "1.prems"(2) by simp
  ultimately have ih: "length (add_ipv6_loop (drop_bit 32 ?s) as es) = length as"
    "rev_val (add_ipv6_loop (drop_bit 32 ?s) as es) =
      (rev_val as + rev_val es + unat ?s div 2 ^ 32) mod 2 ^ (32 * length as)"
    using "1.IH" [of ?s] "1.prems" by simp_all
  have w: "unat (ucast ?s :: u32) = unat ?s mod 2 ^ 32"
    by (simp add: unsigned_ucast_eq take_bit_eq_mod)
  have arith: "s mod 2 ^ 32 + 2 ^ 32 * ((x + s div 2 ^ 32) mod 2 ^ k) = (s + 2 ^ 32 * x) mod 2 ^ (32 + k)"
    for s x k :: nat
  proof -
    have "(s + 2 ^ 32 * x) mod (2 ^ 32 * 2 ^ k) =
        2 ^ 32 * ((s + 2 ^ 32 * x) div 2 ^ 32 mod 2 ^ k) + (s + 2 ^ 32 * x) mod 2 ^ 32"
      by (rule mod_mult2_eq)
    moreover have "(s + 2 ^ 32 * x) div 2 ^ 32 = x + s div 2 ^ 32" "(s + 2 ^ 32 * x) mod 2 ^ 32 = s mod 2 ^ 32"
      by simp_all
    ultimately show ?thesis by (simp only: power_add)
  qed
  have "rev_val (add_ipv6_loop acc (a # as) (e # es)) =
      unat ?s mod 2 ^ 32 + 2 ^ 32 * ((rev_val as + rev_val es + unat ?s div 2 ^ 32) mod 2 ^ (32 * length as))"
    using ih(2) w by (simp only: add_ipv6_loop.simps Let_def rev_val.simps)
  also have "\<dots> = (unat ?s + 2 ^ 32 * (rev_val as + rev_val es)) mod 2 ^ (32 + 32 * length as)"
    by (rule arith)
  also have "\<dots> = (rev_val (a # as) + rev_val (e # es) + unat acc) mod 2 ^ (32 * length (a # as))"
    unfolding s by (simp add: algebra_simps)
  finally show ?case using ih(1) by (simp only: add_ipv6_loop.simps Let_def list.size)
qed simp_all

lemma sint_cases: "sint (n :: 32 word) = (if unat n < 2 ^ 31 then int (unat n) else int (unat n) - 2 ^ 32)"
proof (cases "unat n < 2 ^ 31")
  case True
  then show ?thesis by (simp add: sint_small)
next
  case False
  define k where "k = unat n"
  have k: "2 ^ 31 \<le> k" "k < 2 ^ 32" using False unat_less_exp [of n] by (simp_all add: k_def)
  have u: "uint n = int k" by (simp add: k_def)
  have "signed_take_bit 31 (int k) = take_bit 32 (int k + 2 ^ 31) - 2 ^ 31"
    using signed_take_bit_eq_take_bit_shift [of 31 "int k"] by simp
  also have "take_bit 32 (int k + 2 ^ 31) = int k + 2 ^ 31 - 2 ^ 32"
  proof -
    have "(int k + 2 ^ 31) mod 2 ^ 32 = ((int k - 2 ^ 31) + 2 ^ 32) mod 2 ^ 32" by (simp add: algebra_simps)
    also have "\<dots> = (int k - 2 ^ 31) mod 2 ^ 32" by (rule mod_add_self2)
    also have "\<dots> = int k - 2 ^ 31" using k by (intro mod_pos_pos_trivial) simp_all
    finally show ?thesis by (simp add: take_bit_eq_mod)
  qed
  finally have "signed_take_bit 31 (int k) = int k - 2 ^ 32" by simp
  moreover have "sint n = signed_take_bit 31 (int k)" unfolding sint_uint u by simp
  ultimately show ?thesis using False by (simp only: k_def if_False)
qed

lemma ip_addr_add_ipv6_value:
  assumes "length a = 4"
  shows "length (ip_addr_add_ipv6 a n) = 4"
    and "int (words_val (ip_addr_add_ipv6 a n)) = (int (words_val a) + sint n) mod 2 ^ 128"
proof -
  define x :: u32 where "x = (if sint n < 0 then 0xffffffff else 0)"
  let ?ext = "[x, x, x, n]"
  have l: "length (rev a) = length (rev ?ext)" using assms by simp
  note add = add_ipv6_loop_value [OF l, of 0]
  have e: "ip_addr_add_ipv6 a n = rev (add_ipv6_loop 0 (rev a) (rev ?ext))"
    by (simp only: ip_addr_add_ipv6_def Let_def x_def)
  show "length (ip_addr_add_ipv6 a n) = 4" using add assms unfolding e by simp
  have v: "words_val (ip_addr_add_ipv6 a n) = (words_val a + rev_val (rev ?ext)) mod 2 ^ 128"
    unfolding e words_val_rev using add assms words_val_rev [of "rev a"] by simp
  have "int (rev_val (rev ?ext)) mod 2 ^ 128 = sint n mod 2 ^ 128"
  proof (cases "sint n < 0")
    case False
    have "unat n < 2 ^ 31"
    proof (rule ccontr)
      define k where "k = unat n"
      assume "\<not> unat n < 2 ^ 31"
      then have "sint n = int k - 2 ^ 32" by (simp add: sint_cases k_def)
      moreover have "k < 2 ^ 32" using unat_less_exp [of n] by (simp add: k_def)
      ultimately show False using False by simp
    qed
    then show ?thesis using False by (simp add: x_def sint_cases)
  next
    case True
    then have "sint n = int (unat n) - 2 ^ 32" by (auto simp: sint_cases split: if_splits)
    moreover have "int (rev_val (rev ?ext)) = int (unat n) - 2 ^ 32 + 2 ^ 128" using True by (simp add: x_def)
    ultimately show ?thesis by (simp only: mod_add_self2)
  qed
  then have "(int (words_val a) + int (rev_val (rev ?ext))) mod 2 ^ 128 = (int (words_val a) + sint n) mod 2 ^ 128"
    by (rule mod_add_cong [OF refl])
  then show "int (words_val (ip_addr_add_ipv6 a n)) = (int (words_val a) + sint n) mod 2 ^ 128"
    unfolding v by (simp add: zmod_int)
qed

lemma ip_addr_add_value:
  assumes "ip_wf a"
  shows "ip_wf (ip_addr_add a n)" and "sa_family (ip_addr_add a n) = sa_family a"
    and "ip_width (ip_addr_add a n) = ip_width a"
    and "int (ip_val (ip_addr_add a n)) = (int (ip_val a) + sint n) mod 2 ^ ip_width a"
proof -
  show "ip_wf (ip_addr_add a n)" "sa_family (ip_addr_add a n) = sa_family a"
    "ip_width (ip_addr_add a n) = ip_width a"
    using assms by (cases a; simp add: ip_addr_add_ipv6_value)+
  show "int (ip_val (ip_addr_add a n)) = (int (ip_val a) + sint n) mod 2 ^ ip_width a"
  proof (cases a)
    case (AF_INET w)
    have "int (unat (w + n)) = (int (unat w) + int (unat n)) mod 2 ^ 32"
      by (simp add: uint_word_ariths)
    also have "\<dots> = (int (unat w) + sint n) mod 2 ^ 32"
    proof (cases "unat n < 2 ^ 31")
      case False
      have "int (unat w) + (int (unat n) - 2 ^ 32) = int (unat w) + int (unat n) - 2 ^ 32" by simp
      with False show ?thesis unfolding sint_cases by (simp only: if_False minus_mod_self2)
    qed (simp add: sint_cases)
    finally show ?thesis using AF_INET by simp
  next
    case (AF_INET6 ws z)
    then show ?thesis using assms by (simp add: ip_addr_add_ipv6_value)
  qed (use assms in simp)
qed

section \<open>Netmasks and CIDR blocks\<close>

lemma low_mask_eq: "k \<le> 32 \<Longrightarrow> low_mask k = NOT (mask (32 - k))"
  by (simp add: low_mask_def mask_eq_exp_minus_1)

lemma unat_or_mask:
  fixes w :: "'a::len word"
  assumes "m \<le> LENGTH('a)"
  shows "unat (w OR mask m) = unat w - unat w mod 2 ^ m + (2 ^ m - 1)"
proof -
  have d: "(w AND NOT (mask m)) AND mask m = 0" by (rule bit_word_eqI) (simp add: bit_simps)
  have "w OR mask m = (w AND NOT (mask m)) OR mask m" by (rule bit_word_eqI) (auto simp: bit_simps)
  also have "\<dots> = (w AND NOT (mask m)) + mask m" using d by (rule disjunctive_add_eq_or [symmetric])
  finally have e: "w OR mask m = (w AND NOT (mask m)) + mask m" .
  have a: "unat (w AND NOT (mask m)) = unat w - unat w mod 2 ^ m" by (rule unat_and_not_mask)
  have k: "unat (mask m :: 'a word) = 2 ^ m - 1" using assms by (rule unat_mask)
  have "unat w - unat w mod 2 ^ m + (2 ^ m - 1) < 2 ^ LENGTH('a)"
  proof -
    obtain j where j: "LENGTH('a) = m + j" using assms by (metis le_Suc_ex)
    have q: "unat w div 2 ^ m < 2 ^ j"
      using unat_less_exp [of w] by (simp add: j power_add mult.commute less_mult_imp_div_less)
    have "unat w - unat w mod 2 ^ m = 2 ^ m * (unat w div 2 ^ m)" by (simp add: minus_mod_eq_mult_div)
    also have "\<dots> + (2 ^ m - 1) < 2 ^ m * (unat w div 2 ^ m + 1)"
      using zero_less_power [of "2 :: nat" m] unfolding distrib_left by linarith
    also have "\<dots> \<le> 2 ^ m * 2 ^ j" using q by (intro mult_le_mono2) simp
    finally show ?thesis by (simp add: j power_add)
  qed
  then show ?thesis unfolding e by (subst unat_add_small) (simp_all add: a k)
qed

lemma ip4_block_mask_value:
  assumes "p \<le> 32" and "ip4_block_mask a a p = (lo, hi)"
  shows "unat lo = unat a - unat a mod 2 ^ (32 - p)" and "unat hi = unat lo + (2 ^ (32 - p) - 1)"
proof -
  have m: "ip4_netmask p = NOT (mask (32 - p))"
  proof (cases "p = 0")
    case True
    have "mask 32 = (- 1 :: u32)" by (rule bit_word_eqI) (simp add: bit_simps)
    with True show ?thesis by (simp add: ip4_netmask_def)
  next
    case False
    with assms(1) show ?thesis by (simp add: ip4_netmask_def low_mask_eq)
  qed
  have "lo = a AND NOT (mask (32 - p))" "hi = a OR mask (32 - p)"
    using assms(2) by (simp_all add: ip4_block_mask_def m Let_def)
  then show "unat lo = unat a - unat a mod 2 ^ (32 - p)" "unat hi = unat lo + (2 ^ (32 - p) - 1)"
    by (simp_all add: unat_and_not_mask unat_or_mask)
qed

text \<open>The same on the four parts of an IPv6 address.\<close>

lemma words_zero: "words_val (replicate k 0) = 0"
  by (induction k) (simp_all add: words_val_Cons)

lemma words_ones: "words_val (replicate k 0xffffffff) = 2 ^ (32 * k) - 1"
proof (induction k)
  case (Suc k)
  have "(1 :: nat) \<le> 2 ^ (32 * k)" by simp
  with Suc show ?case by (simp add: words_val_Cons power_add)
qed simp

lemma map2_ones: "map2 (AND) xs (replicate (length xs) 0xffffffff) = (xs :: u32 list)"
  "map2 (\<lambda>a m. a OR NOT m) xs (replicate (length xs) 0xffffffff) = xs"
proof -
  have m: "(0xffffffff :: u32) = - 1" by simp
  show "map2 (AND) xs (replicate (length xs) 0xffffffff) = xs"
    "map2 (\<lambda>a m. a OR NOT m) xs (replicate (length xs) 0xffffffff) = xs"
    unfolding m by (induction xs) simp_all
qed

lemma map2_zeros: "map2 (AND) xs (replicate (length xs) (0 :: u32)) = replicate (length xs) 0"
  "map2 (\<lambda>a m. a OR NOT m) xs (replicate (length xs) (0 :: u32)) = replicate (length xs) 0xffffffff"
  by (induction xs) simp_all

lemma mod_parts:
  fixes V W T :: nat
  assumes "T < 2 ^ K" and "m \<le> 32"
  shows "((V * 2 ^ 32 + W) * 2 ^ K + T) mod 2 ^ (m + K) = (W mod 2 ^ m) * 2 ^ K + T"
proof -
  have "(2 :: nat) ^ m dvd 2 ^ 32" using assms(2) by (rule le_imp_power_dvd)
  then have "(2 :: nat) ^ m dvd V * 2 ^ 32" by (rule dvd_mult)
  then have "(V * 2 ^ 32 + W) mod 2 ^ m = W mod 2 ^ m" by (metis add_0 dvd_imp_mod_0 mod_add_left_eq)
  moreover have "((V * 2 ^ 32 + W) * 2 ^ K + T) mod (2 ^ K * 2 ^ m)
      = 2 ^ K * (((V * 2 ^ 32 + W) * 2 ^ K + T) div 2 ^ K mod 2 ^ m) + ((V * 2 ^ 32 + W) * 2 ^ K + T) mod 2 ^ K"
    by (rule mod_mult2_eq)
  ultimately show ?thesis using assms(1) by (simp add: power_add mult.commute)
qed

lemma ip6_netmask_parts:
  assumes "p < 128"
  shows "ip6_netmask p = replicate (p div 32) 0xffffffff @ NOT (mask (32 - p mod 32)) # replicate (3 - p div 32) 0"
proof -
  let ?q = "p div 32"
  have q: "?q \<le> 3" using assms by simp
  then have r: "replicate (4 - ?q) (0 :: u32) = 0 # replicate (3 - ?q) 0" by (simp add: Suc_diff_le flip: replicate_Suc)
  have z: "NOT (mask 32 :: u32) = 0" by (rule bit_word_eqI) (simp add: bit_simps)
  show ?thesis
  proof (cases "p mod 32 = 0")
    case True
    with assms z show ?thesis by (simp add: ip6_netmask_def Let_def r)
  next
    case False
    have "p mod 32 \<le> 32" using mod_less_divisor [of 32 p] by simp
    with False assms q show ?thesis by (simp add: ip6_netmask_def Let_def r low_mask_eq list_update_append)
  qed
qed

lemma ip6_block_mask_value:
  assumes a: "length a = 4" and p: "p \<le> 128" and b: "ip6_block_mask a a p = (lo, hi)"
  shows "length lo = 4" and "length hi = 4"
    and "words_val lo = words_val a - words_val a mod 2 ^ (128 - p)"
    and "words_val hi = words_val lo + (2 ^ (128 - p) - 1)"
proof -
  have lohi: "lo = ip6_clearbits a (ip6_netmask p)" "hi = ip6_setbits a (ip6_netmask p)"
    using b by (simp_all add: ip6_block_mask_def Let_def)
  have "length lo = 4 \<and> length hi = 4 \<and> words_val lo = words_val a - words_val a mod 2 ^ (128 - p)
      \<and> words_val hi = words_val lo + (2 ^ (128 - p) - 1)"
  proof (cases "p = 128")
    case True
    then have "ip6_netmask p = replicate (length a) 0xffffffff" using a by (simp add: ip6_netmask_def)
    then have "lo = a" "hi = a" using lohi unfolding ip6_clearbits_def ip6_setbits_def by (simp_all only: map2_ones)
    with True a show ?thesis by simp
  next
    case False
    define q where "q = p div 32"
    define m where "m = 32 - p mod 32"
    define V T where "V = take q a" and "T = drop (Suc q) a"
    define w where "w = a ! q"
    define K where "K = 32 * length T"
    have q: "q \<le> 3" "p < 128" using False p by (simp_all add: q_def)
    have "q < length a" using a q(1) by linarith
    then have av: "a = V @ w # T" unfolding V_def T_def w_def by (rule id_take_nth_drop)
    have lv: "length V = q" "length T = 3 - q" using a q by (simp_all add: V_def T_def)
    have mK: "128 - p = m + K" "m \<le> 32"
    proof -
      have "p = 32 * q + p mod 32" "p mod 32 < 32" by (simp_all add: q_def)
      then show "128 - p = m + K" "m \<le> 32" using q lv(2) unfolding m_def K_def by linarith+
    qed
    have msk: "ip6_netmask p = replicate (length V) 0xffffffff @ NOT (mask m) # replicate (length T) 0"
      using ip6_netmask_parts [OF q(2)] lv by (simp add: q_def m_def)
    have lo: "lo = V @ (w AND NOT (mask m)) # replicate (length T) 0"
      using lohi(1) unfolding ip6_clearbits_def msk by (simp add: av map2_ones map2_zeros)
    have hi: "hi = V @ (w OR mask m) # replicate (length T) 0xffffffff"
      using lohi(2) unfolding ip6_setbits_def msk by (simp add: av map2_ones map2_zeros)
    have val: "words_val (V @ x # U) = (words_val V * 2 ^ 32 + unat x) * 2 ^ K + words_val U"
      if "length U = length T" for x U
      using that by (simp add: words_val_append words_val_Cons K_def power_add algebra_simps)
    have t: "words_val T < 2 ^ K" using words_val_less [of T] by (simp add: K_def)
    have A: "words_val a mod 2 ^ (m + K) = (unat w mod 2 ^ m) * 2 ^ K + words_val T"
      unfolding av val [OF refl] using t mK(2) by (rule mod_parts)
    have le: "unat w mod 2 ^ m \<le> unat w" by simp
    have L: "words_val lo = (words_val V * 2 ^ 32 + (unat w - unat w mod 2 ^ m)) * 2 ^ K"
      unfolding lo by (simp add: val words_zero unat_and_not_mask)
    then have "words_val lo = words_val a - words_val a mod 2 ^ (m + K)"
      unfolding A using av val [of T w] le by (simp add: algebra_simps diff_mult_distrib2)
    moreover have "words_val hi = words_val lo + (2 ^ (m + K) - 1)"
    proof -
      have "unat (w OR mask m) = unat w - unat w mod 2 ^ m + (2 ^ m - 1)"
        using mK(2) by (intro unat_or_mask) simp
      moreover have "(2 ^ m - 1) * 2 ^ K + (2 ^ K - 1) = (2 :: nat) ^ (m + K) - 1"
        by (simp add: power_add algebra_simps diff_mult_distrib)
      moreover have "words_val hi = (words_val V * 2 ^ 32 + unat (w OR mask m)) * 2 ^ K + (2 ^ K - 1)"
        unfolding hi using val [of "replicate (length T) 0xffffffff" "w OR mask m"]
        by (simp only: length_replicate words_ones K_def)
      ultimately show ?thesis unfolding L by (simp only: add_mult_distrib add.assoc)
    qed
    ultimately show ?thesis using lo hi lv mK q(1) by simp
  qed
  then show "length lo = 4" "length hi = 4" "words_val lo = words_val a - words_val a mod 2 ^ (128 - p)"
    "words_val hi = words_val lo + (2 ^ (128 - p) - 1)" by simp_all
qed

section \<open>Prefix lengths of netmasks\<close>

definition low_zeros :: "nat \<Rightarrow> nat \<Rightarrow> bool" where
  "low_zeros v k \<longleftrightarrow> (\<exists>u. odd u \<and> v = 2 ^ k * u)"

lemma low_zeros_unique: "low_zeros v k \<Longrightarrow> low_zeros v l \<Longrightarrow> k = l"
proof -
  have "False" if "k < l" "odd u" "(2 :: nat) ^ k * u = 2 ^ l * t" for k l u t
  proof -
    have "l = k + Suc (l - k - 1)" using that(1) by simp
    then have "(2 :: nat) ^ l = 2 ^ k * (2 * 2 ^ (l - k - 1))" by (metis power_add power_Suc)
    with that(3) have "u = 2 * 2 ^ (l - k - 1) * t" by (simp add: mult.assoc)
    with that(2) show False by simp
  qed
  then show "low_zeros v k \<Longrightarrow> low_zeros v l \<Longrightarrow> k = l"
    unfolding low_zeros_def by (metis linorder_neqE_nat)
qed

lemma trailing_zeros_spec: "w \<noteq> 0 \<Longrightarrow> low_zeros (unat w) (trailing_zeros w)"
proof (induction w rule: trailing_zeros.induct)
  case (1 w)
  show ?case
  proof (cases "odd (unat w)")
    case True
    then show ?thesis by (simp add: trailing_zeros.simps [of w] low_zeros_def)
  next
    case False
    let ?h = "drop_bit 1 w"
    have h: "unat w = 2 * unat ?h" using False by (simp add: drop_bit_eq_div unat_div)
    then have "?h \<noteq> 0" using "1.prems" word_unat_eq_iff [of w 0] by auto
    with 1 False obtain u where "odd u" "unat ?h = 2 ^ trailing_zeros ?h * u" by (auto simp: low_zeros_def)
    with h False "1.prems" show ?thesis by (auto simp: trailing_zeros.simps [of w] low_zeros_def)
  qed
qed

fun rev_bytes_val :: "u8 list \<Rightarrow> nat" where
  "rev_bytes_val [] = 0"
| "rev_bytes_val (b # bs) = unat b + 256 * rev_bytes_val bs"

lemma prefixlen_loop_zero: "rev_bytes_val bs = 0 \<Longrightarrow> prefixlen_loop bs = 8 * length bs"
  by (induction bs) (auto simp: unat_eq_zero)

lemma prefixlen_loop_spec: "rev_bytes_val bs \<noteq> 0 \<Longrightarrow> low_zeros (rev_bytes_val bs) (prefixlen_loop bs)"
proof (induction bs)
  case (Cons b bs)
  show ?case
  proof (cases "b = 0")
    case True
    with Cons obtain u where "odd u" "rev_bytes_val bs = 2 ^ prefixlen_loop bs * u" by (auto simp: low_zeros_def)
    with True show ?thesis by (auto simp: low_zeros_def power_add)
  next
    case False
    from trailing_zeros_spec [OF False] obtain u where u: "odd u" "unat b = 2 ^ trailing_zeros b * u"
      by (auto simp: low_zeros_def)
    have "trailing_zeros b < 8"
    proof (rule ccontr)
      assume "\<not> trailing_zeros b < 8"
      then have "(2 :: nat) ^ 8 \<le> 2 ^ trailing_zeros b" by (intro power_increasing) simp_all
      also have "\<dots> \<le> unat b" using u by (cases u) simp_all
      finally show False using unat_less_exp [of b] by simp
    qed
    then have "(256 :: nat) = 2 ^ trailing_zeros b * (2 * 2 ^ (7 - trailing_zeros b))"
      by (simp flip: power_add power_Suc)
    then have "rev_bytes_val (b # bs) = 2 ^ trailing_zeros b * (u + 2 * 2 ^ (7 - trailing_zeros b) * rev_bytes_val bs)"
      using u(2) by (simp add: distrib_left mult.assoc)
    moreover have "odd (u + 2 * 2 ^ (7 - trailing_zeros b) * rev_bytes_val bs)" using u(1) by simp
    ultimately show ?thesis using False unfolding low_zeros_def by auto
  qed
qed simp

lemma rev_bytes_val_append: "rev_bytes_val (xs @ ys) = rev_bytes_val xs + 256 ^ length xs * rev_bytes_val ys"
  by (induction xs) (simp_all add: algebra_simps)

lemma be_bytes_val: "rev_bytes_val (rev (be_bytes w)) = unat w"
proof -
  have small: "unat w mod 4294967296 = unat w" using unat_less_exp [of w] by simp
  have "unat (ucast (drop_bit k w) :: u8) = unat w div 2 ^ k mod 256" for k
    by (simp only: unsigned_ucast_eq unsigned_drop_bit_eq) (simp add: take_bit_eq_mod drop_bit_eq_div small)
  note bytes = this
  define v where "v = unat w"
  define a where "a = v div 256"
  define b where "b = a div 256"
  have d: "v div 2 ^ 8 = a" "v div 2 ^ 16 = b" "v div 2 ^ 24 = b div 256"
    by (simp_all add: a_def b_def div_mult2_eq [symmetric])
  have "v < 2 ^ 32" using unat_less_exp [of w] by (simp add: v_def)
  then have c: "b div 256 mod 256 = b div 256" by (simp add: a_def b_def div_mult2_eq [symmetric])
  have "unat (ucast w :: u8) = v mod 256" using bytes [of 0] by (simp add: v_def)
  then have "rev_bytes_val (rev (be_bytes w)) = v mod 256 + 256 * (a mod 256 + 256 * (b mod 256 + 256 * (b div 256)))"
    using bytes [of 8] bytes [of 16] bytes [of 24] by (simp only: be_bytes_def rev.simps append.simps
        rev_bytes_val.simps v_def [symmetric] d c mult_0_right add_0_right)
  also have "b mod 256 + 256 * (b div 256) = b" by simp
  also have "a mod 256 + 256 * b = a" by (simp add: b_def)
  also have "v mod 256 + 256 * a = v" by (simp add: a_def)
  finally show ?thesis by (simp add: v_def)
qed

lemma be_words_val: "rev_bytes_val (rev (concat (map be_bytes ws))) = words_val ws"
proof (induction ws)
  case (Cons w ws)
  have "length (rev (concat (map be_bytes ws))) = 4 * length ws"
    by (induction ws) (simp_all add: be_bytes_def)
  then have "(256 :: nat) ^ length (rev (concat (map be_bytes ws))) = 2 ^ (32 * length ws)"
    by (simp add: power_mult)
  with Cons show ?case by (simp add: rev_bytes_val_append be_bytes_val words_val_Cons)
qed simp

lemma calc_prefixlen_mask:
  assumes v: "rev_bytes_val (rev data) = 2 ^ (8 * length data) - 2 ^ (8 * length data - p)"
    and p: "p \<le> 8 * length data"
  shows "calc_prefixlen data = p"
proof (cases "p = 0")
  case True
  then have "prefixlen_loop (rev data) = 8 * length data"
    using v prefixlen_loop_zero [of "rev data"] by simp
  with True show ?thesis by (simp add: calc_prefixlen_def)
next
  case False
  let ?W = "8 * length data"
  have "(2 :: nat) ^ ?W = 2 ^ (?W - p) * 2 ^ p" using p by (simp flip: power_add)
  then have e: "rev_bytes_val (rev data) = 2 ^ (?W - p) * (2 ^ p - 1)"
    using v by (simp add: diff_mult_distrib2)
  have "odd ((2 :: nat) ^ p - 1)" using False by simp
  then have z: "low_zeros (rev_bytes_val (rev data)) (?W - p)" unfolding low_zeros_def e by blast
  moreover have "(2 :: nat) ^ p - 1 \<noteq> 0" using \<open>odd ((2 :: nat) ^ p - 1)\<close> by (metis even_zero)
  then have "rev_bytes_val (rev data) \<noteq> 0" unfolding e by simp
  ultimately have "prefixlen_loop (rev data) = ?W - p"
    using prefixlen_loop_spec low_zeros_unique by blast
  with p show ?thesis by (simp add: calc_prefixlen_def)
qed

lemma pow_minus_mod: "k \<le> n \<Longrightarrow> (2 :: nat) ^ n - 1 - (2 ^ n - 1) mod 2 ^ k = 2 ^ n - 2 ^ k"
proof -
  assume "k \<le> n"
  then obtain j where n: "n = j + k" by (metis add.commute le_Suc_ex)
  have "(2 :: nat) ^ n - 1 = (2 ^ j - 1) * 2 ^ k + (2 ^ k - 1)"
    unfolding n by (simp add: power_add algebra_simps diff_mult_distrib)
  then have "((2 :: nat) ^ n - 1) mod 2 ^ k = (2 ^ k - 1) mod 2 ^ k" by (metis mod_mult_self3)
  then have "((2 :: nat) ^ n - 1) mod 2 ^ k = 2 ^ k - 1" by simp
  then show ?thesis by simp
qed

lemma ip4_netmask_value: "p \<le> 32 \<Longrightarrow> unat (ip4_netmask p) = 2 ^ 32 - 2 ^ (32 - p)"
proof -
  assume p: "p \<le> 32"
  have "ip4_block_mask (- 1) (- 1) p = (ip4_netmask p, - 1)" by (simp add: ip4_block_mask_def)
  moreover have "unat (- 1 :: u32) = 2 ^ 32 - 1" by (simp add: unsigned_minus_1_eq_mask mask_eq_exp_minus_1)
  ultimately show ?thesis
    using ip4_block_mask_value(1) [OF p, of "- 1"] pow_minus_mod [of "32 - p" 32] by simp
qed

lemma ip6_netmask_value:
  assumes "p \<le> 128"
  shows "length (ip6_netmask p) = 4" and "words_val (ip6_netmask p) = 2 ^ 128 - 2 ^ (128 - p)"
proof -
  have "p div 32 \<le> 4" using assms by simp
  then show l: "length (ip6_netmask p) = 4" using assms by (simp add: ip6_netmask_def Let_def)
  let ?a = "replicate 4 0xffffffff :: u32 list"
  have o: "(0xffffffff :: u32) = - 1" by simp
  have "map2 (AND) (replicate (length ms) (0xffffffff :: u32)) ms = ms" for ms
    unfolding o by (induction ms) simp_all
  from this [of "ip6_netmask p"] have c: "ip6_clearbits ?a (ip6_netmask p) = ip6_netmask p"
    using l by (simp add: ip6_clearbits_def)
  have "ip6_block_mask ?a ?a p = (ip6_netmask p, ip6_setbits ?a (ip6_netmask p))"
    by (simp add: ip6_block_mask_def Let_def c)
  from ip6_block_mask_value(3) [OF _ assms this] have
    "words_val (ip6_netmask p) = words_val ?a - words_val ?a mod 2 ^ (128 - p)" by simp
  moreover have "words_val ?a = 2 ^ 128 - 1" using words_ones [of 4] by simp
  ultimately show "words_val (ip6_netmask p) = 2 ^ 128 - 2 ^ (128 - p)"
    using pow_minus_mod [of "128 - p" 128] by simp
qed

lemma calc_prefixlen_netmask:
  "p \<le> 32 \<Longrightarrow> calc_prefixlen (be_bytes (ip4_netmask p)) = p"
  "p \<le> 128 \<Longrightarrow> calc_prefixlen (concat (map be_bytes (ip6_netmask p))) = p"
proof -
  assume "p \<le> 32"
  then show "calc_prefixlen (be_bytes (ip4_netmask p)) = p"
    by (intro calc_prefixlen_mask) (simp_all add: be_bytes_val ip4_netmask_value be_bytes_def [THEN arg_cong, of length])
next
  assume p: "p \<le> 128"
  have "length (concat (map be_bytes ws)) = 4 * length ws" for ws
    by (induction ws) (simp_all add: be_bytes_def)
  then have "length (concat (map be_bytes (ip6_netmask p))) = 16" using ip6_netmask_value [OF p] by simp
  then show "calc_prefixlen (concat (map be_bytes (ip6_netmask p))) = p"
    using p ip6_netmask_value [OF p] by (intro calc_prefixlen_mask) (simp_all add: be_words_val)
qed

lemma ip_block_contains_iff:
  assumes "ip_wf (blk_first blk)" "ip_wf (blk_last blk)" "ip_wf a"
    and "sa_family (blk_first blk) = sa_family a" "sa_family (blk_last blk) = sa_family a"
  shows "ip_block_contains blk a \<longleftrightarrow> ip_val (blk_first blk) \<le> ip_val a \<and> ip_val a \<le> ip_val (blk_last blk)"
proof -
  have "sgn (int x - int y) \<le> 0 \<longleftrightarrow> x \<le> y" "0 \<le> sgn (int x - int y) \<longleftrightarrow> y \<le> x" for x y
    by (auto simp: sgn_if)
  with assms show ?thesis by (auto simp: ip_block_contains_def ip_addr_cmp_sgn)
qed

section \<open>Properties\<close>

text \<open>
  C12. Adding a signed 32-bit number to an address adds it to the 32-bit or 128-bit value of
  the address modulo the size of the address space: the carries of the IPv6 loop are right
  also for negative numbers. The zone of an IPv6 address is kept.
\<close>

theorem ip_addr_add_correct:
  assumes "ip_wf a"
  shows "ip_wf (ip_addr_add a n) \<and> sa_family (ip_addr_add a n) = sa_family a
    \<and> int (ip_val (ip_addr_add a n)) = (int (ip_val a) + sint n) mod 2 ^ ip_width a"
  using ip_addr_add_value [OF assms] by simp

theorem ip_addr_add_correct_witness:
  "int (ip_val (ip_addr_add (AF_INET6 [0x20010db8, 0, 1, 0] 7) (- 1))) = 0x20010db80000000000000000ffffffff"
  using ip_addr_add_correct [of "AF_INET6 [0x20010db8, 0, 1, 0] 7" "- 1"]
  by (simp add: words_val_def)

text \<open>
  The block of an address and a netmask of \<open>p\<close> leading one bits is the CIDR block: its
  first address is the address with the low bits cleared, its last address has them set, so
  it has \<open>2 ^ (width - p)\<close> addresses and contains the address.
\<close>

theorem ip_block_netmask_correct:
  assumes "ip_wf a" and "p \<le> ip_width a"
    and "msk = (case a of AF_INET6 _ _ \<Rightarrow> AF_INET6 (ip6_netmask p) z | _ \<Rightarrow> AF_INET (ip4_netmask p))"
  shows "\<exists>blk. ip_block_netmask a msk = Inr blk
    \<and> ip_val (blk_first blk) = ip_val a - ip_val a mod 2 ^ (ip_width a - p)
    \<and> ip_val (blk_last blk) = ip_val (blk_first blk) + (2 ^ (ip_width a - p) - 1)
    \<and> ip_wf (blk_first blk) \<and> ip_wf (blk_last blk) \<and> ip_block_contains blk a"
proof -
  have "x - x mod 2 ^ k \<le> x \<and> x \<le> x - x mod 2 ^ k + (2 ^ k - 1)" for x k :: nat
  proof -
    have "x mod 2 ^ k < 2 ^ k" "x mod 2 ^ k \<le> x" by simp_all
    then show ?thesis by linarith
  qed
  note range = this
  show ?thesis
  proof (cases a)
    case (AF_INET w)
    obtain lo hi where b: "ip4_block_mask w w p = (lo, hi)" by fastforce
    let ?blk = "\<lparr>blk_first = AF_INET lo, blk_last = AF_INET hi\<rparr>"
    have p: "p \<le> 32" using assms(2) AF_INET by simp
    have "ip_block_netmask a msk = Inr ?blk"
      using AF_INET assms(3) b p by (simp add: ip_block_netmask_def calc_prefixlen_netmask)
    moreover have "ip_block_contains ?blk a"
      using AF_INET ip4_block_mask_value [OF p b] range [of "unat w" "32 - p"] by (simp add: ip_block_contains_iff)
    ultimately show ?thesis using AF_INET ip4_block_mask_value [OF p b] by (intro exI [of _ ?blk]) simp
  next
    case (AF_INET6 ws s)
    obtain lo hi where b: "ip6_block_mask ws ws p = (lo, hi)" by fastforce
    let ?blk = "\<lparr>blk_first = AF_INET6 lo s, blk_last = AF_INET6 hi s\<rparr>"
    have p: "p \<le> 128" and l: "length ws = 4" using assms(1,2) AF_INET6 by simp_all
    have "ip_block_netmask a msk = Inr ?blk"
      using AF_INET6 assms(3) b p by (simp add: ip_block_netmask_def calc_prefixlen_netmask)
    moreover have "ip_block_contains ?blk a"
      using AF_INET6 ip6_block_mask_value [OF l p b] l range [of "words_val ws" "128 - p"]
      by (simp add: ip_block_contains_iff)
    ultimately show ?thesis using AF_INET6 ip6_block_mask_value [OF l p b] by (intro exI [of _ ?blk]) simp
  qed (use assms in simp)
qed

theorem ip_block_netmask_correct_witness:
  "\<exists>blk. ip_block_netmask (AF_INET 0x0a010203) (AF_INET (ip4_netmask 24)) = Inr blk
    \<and> ip_val (blk_first blk) = 0x0a010200 \<and> ip_val (blk_last blk) = 0x0a0102ff"
  using ip_block_netmask_correct [of "AF_INET 0x0a010203" 24 "AF_INET (ip4_netmask 24)"] by auto

lemma strtoul10_digits: "p < 2 ^ 64 \<Longrightarrow> strtoul10 (dec_digits p) = (of_nat p, [])"
proof -
  assume p: "p < 2 ^ 64"
  have d: "\<forall>c\<in>set (dec_digits p). is_digit c" using set_dec_digits by blast
  then have "is_digit (hd (dec_digits p))" by (simp add: hd_in_set)
  then have h: "\<not> c_isspace (hd (dec_digits p))" "hd (dec_digits p) \<noteq> CHR ''-''" "hd (dec_digits p) \<noteq> CHR ''+''"
    by (auto simp: is_digit_def c_isspace_def)
  then have s: "dropWhile c_isspace (dec_digits p) = dec_digits p" by (cases "dec_digits p") simp_all
  have t: "takeWhile is_digit (dec_digits p) = dec_digits p" "dropWhile is_digit (dec_digits p) = []"
    using d by (simp_all add: takeWhile_eq_all_conv)
  have "strtoul10 (dec_digits p) = (if dec_value (dec_digits p) \<ge> 2 ^ 64 then - 1 else of_nat (dec_value (dec_digits p)), [])"
    using h by (simp add: strtoul10_def Let_def s t)
  with p show ?thesis by simp
qed

definition trim :: "bytes \<Rightarrow> bytes" where
  "trim s = (let t = drop (strspn s ip_space) s in take (strcspn t ip_space) t)"

lemma ip_addr_trim:
  "length s < 512 \<Longrightarrow> gai (trim s) = Inr [a] \<Longrightarrow> a \<noteq> AF_UNSPEC \<Longrightarrow> ip_addr gai s = Inr a"
  by (simp add: ip_addr_def trim_def YANS_IP_ADDR_MAXLEN_def Let_def)

lemma ip_block_from_str_slash:
  assumes "CHR ''/'' \<notin> set s" and "length (s @ ''/'' @ t) < 512"
  shows "ip_block_from_str gai (s @ ''/'' @ t) = ip_block_cidr gai s t"
proof -
  have "takeWhile (\<lambda>c. c \<noteq> CHR ''/'') (s @ ''/'' @ t) = s" "dropWhile (\<lambda>c. c \<noteq> CHR ''/'') (s @ ''/'' @ t) = ''/'' @ t"
    using assms(1) by (auto simp: takeWhile_append dropWhile_append)
  with assms(2) show ?thesis by (simp add: ip_block_from_str_def YANS_IP_ADDR_MAXLEN_def Let_def)
qed



text \<open>
  A slash with nothing after it is read as the prefix length 0: the text of one IPv4
  address and a slash denotes all IPv4 addresses.
\<close>

theorem ip_block_from_str_empty_prefix:
  assumes "gai (trim s) = Inr [AF_INET a]" and "CHR ''/'' \<notin> set s" and "length s < 511"
  shows "ip_block_from_str gai (s @ ''/'') = Inr \<lparr>blk_first = AF_INET 0, blk_last = AF_INET 0xffffffff\<rparr>"
proof -
  have "ip_addr gai s = Inr (AF_INET a)" using assms by (intro ip_addr_trim) simp_all
  moreover have "strtoul10 [] = (0, [])" by (simp add: strtoul10_def)
  ultimately show ?thesis
    using ip_block_from_str_slash [of s "[]" gai] assms
    by (simp add: ip_block_cidr_def ip4_block_mask_def ip4_netmask_def)
qed

theorem ip_block_from_str_empty_prefix_witness:
  "ip_block_from_str (\<lambda>t. if t = ''10.1.2.3'' then Inr [AF_INET 0x0a010203] else Inl EAI_NONAME) ''10.1.2.3/''
     = Inr \<lparr>blk_first = AF_INET 0, blk_last = AF_INET 0xffffffff\<rparr>"
  using ip_block_from_str_empty_prefix [of "\<lambda>t. if t = ''10.1.2.3'' then Inr [AF_INET 0x0a010203] else Inl EAI_NONAME"
      "''10.1.2.3''" "0x0a010203"]
  by (simp add: trim_def strspn_def strcspn_def ip_space_def)

end
