(* ===== verification/Ip_Blocks.thy ===== *)
theory Ip_Blocks
  imports Ip Ports_Parse
begin

text \<open>
  Lists of address blocks, \<^verbatim>\<open>struct ip_blocks\<close> of \<^verbatim>\<open>lib/net/ip.c\<close>: reading them from text,
  merging overlapping and adjacent blocks, iteration, membership and printing. \<open>qsort\<close> is a
  parameter: blocks that compare as equal may differ in their zones, and the order in which
  \<open>qsort\<close> leaves them is unspecified.
\<close>

section \<open>Operations\<close>

record ip_blocks =
  bs_nblocks :: nat
  bs_blocks :: "ip_block_t list"
  bs_curr_block :: nat
  bs_curr_addr :: ip_addr_t

definition ip_blocks_zero :: ip_blocks where
  "ip_blocks_zero = \<lparr>bs_nblocks = 0, bs_blocks = [], bs_curr_block = 0, bs_curr_addr = AF_UNSPEC\<rparr>"

definition is_ip_blocks_sep :: "byte \<Rightarrow> bool" where
  "is_ip_blocks_sep ch \<longleftrightarrow> ch \<in> {CHR 0x0D, CHR 0x0A, CHR 0x09, CHR '' '', CHR '',''}"

text \<open>
  The result is \<^const>\<open>None\<close> for success, or the error code. \<open>sizeof(ip_block_t)\<close> is 56.
\<close>

definition cons_block ::
  "getaddrinfo \<Rightarrow> allocator \<Rightarrow> ip_blocks \<Rightarrow> bytes \<Rightarrow> nat \<Rightarrow> nat \<Rightarrow> int option option \<times> ip_blocks" where
  "cons_block gai ok blks s start end =
     (let len = (if end - start \<ge> 256 then 255 else end - start);
          buf = take len (drop start s)
      in case ip_block_from_str gai buf of
           Inl e \<Rightarrow> (Some e, blks)
         | Inr blk \<Rightarrow>
             if \<not> ok (of_nat (56 * (bs_nblocks blks + 1))) then (Some (Some EAI_MEMORY), blks)
             else (None, blks\<lparr>bs_blocks := take (bs_nblocks blks) (bs_blocks blks) @ [blk],
                              bs_nblocks := bs_nblocks blks + 1\<rparr>))"

definition blockcmp :: "ip_block_t \<Rightarrow> ip_block_t \<Rightarrow> int" where
  "blockcmp b0 b1 =
     (let ret = fst (ip_addr_cmp (blk_first b0) (blk_first b1))
      in if ret = 0 then fst (ip_addr_cmp (blk_last b0) (blk_last b1)) else ret)"

definition diff_zones :: "ip_block_t \<Rightarrow> ip_block_t \<Rightarrow> bool" where
  "diff_zones b0 b1 \<longleftrightarrow>
     (case (blk_first b0, blk_first b1) of
        (AF_INET6 _ z0, AF_INET6 _ z1) \<Rightarrow> z0 \<noteq> z1 | _ \<Rightarrow> False)"

definition joins :: "ip_block_t \<Rightarrow> ip_block_t \<Rightarrow> bool" where
  "joins cur nxt \<longleftrightarrow> \<not> diff_zones cur nxt \<and> sa_family (blk_first cur) = sa_family (blk_first nxt)
     \<and> fst (ip_addr_cmp (ip_addr_add (blk_last cur) 1) (blk_first nxt)) \<ge> 0"

definition extend_blk :: "ip_block_t \<Rightarrow> ip_block_t \<Rightarrow> ip_block_t" where
  "extend_blk cur nxt =
     (if fst (ip_addr_cmp (blk_last nxt) (blk_last cur)) > 0 then cur\<lparr>blk_last := blk_last nxt\<rparr> else cur)"

function compress_blocks_loop ::
  "nat \<Rightarrow> nat \<Rightarrow> nat \<Rightarrow> ip_block_t list \<Rightarrow> nat \<times> ip_block_t list" where
  "compress_blocks_loop nblocks cur nxt bs =
     (if nxt < nblocks then
        if joins (bs ! cur) (bs ! nxt)
        then compress_blocks_loop nblocks cur (Suc nxt) (bs[cur := extend_blk (bs ! cur) (bs ! nxt)])
        else
          (let cur' = Suc cur
           in if nxt > cur'
              then compress_blocks_loop (nblocks - (nxt - cur')) cur' (Suc cur')
                     (memmove cur' nxt (nblocks - nxt) bs)
              else compress_blocks_loop nblocks cur' (Suc nxt) bs)
      else (Suc cur, bs))"
  by pat_completeness auto
termination
  by (relation "measure (\<lambda>(n, cur, nxt, bs). n - nxt)") auto

declare compress_blocks_loop.simps [simp del]

definition compress_blocks :: "ip_blocks \<Rightarrow> nat \<times> ip_block_t list" where
  "compress_blocks blks = compress_blocks_loop (bs_nblocks blks) 0 1 (bs_blocks blks)"

datatype blks_state = BLKS_FINDSTART | BLKS_FINDEND

text \<open>
  The loop of \<open>ip_blocks_init\<close>, on the rest of the text from \<open>pos\<close> on, and the check of the
  last element after it.
\<close>

fun init_loop ::
  "getaddrinfo \<Rightarrow> allocator \<Rightarrow> bytes \<Rightarrow> nat \<Rightarrow> bytes \<Rightarrow> blks_state \<Rightarrow> nat \<Rightarrow> ip_blocks
     \<Rightarrow> int option option \<times> ip_blocks" where
  "init_loop gai ok s pos [] BLKS_FINDSTART start blks = (None, blks)"
| "init_loop gai ok s pos [] BLKS_FINDEND start blks = cons_block gai ok blks s start pos"
| "init_loop gai ok s pos (c # cs) BLKS_FINDSTART start blks =
     (if is_ip_blocks_sep c then init_loop gai ok s (Suc pos) cs BLKS_FINDSTART start blks
      else init_loop gai ok s (Suc pos) cs BLKS_FINDEND pos blks)"
| "init_loop gai ok s pos (c # cs) BLKS_FINDEND start blks =
     (if is_ip_blocks_sep c
      then case cons_block gai ok blks s start pos of
             (Some e, blks) \<Rightarrow> (Some e, blks)
           | (None, blks) \<Rightarrow> init_loop gai ok s (Suc pos) cs BLKS_FINDSTART start blks
      else init_loop gai ok s (Suc pos) cs BLKS_FINDEND start blks)"

definition ip_blocks_init ::
  "getaddrinfo \<Rightarrow> allocator \<Rightarrow> (ip_block_t list \<Rightarrow> ip_block_t list) \<Rightarrow> bytes option
     \<Rightarrow> int option option \<times> ip_blocks" where
  "ip_blocks_init gai ok qsort str =
     (case str of
        None \<Rightarrow> (None, ip_blocks_zero)
      | Some s \<Rightarrow>
          (case init_loop gai ok s 0 s BLKS_FINDSTART 0 ip_blocks_zero of
             (Some e, blks) \<Rightarrow> (Some e, blks)
           | (None, blks) \<Rightarrow>
               if bs_nblocks blks = 0 then (None, blks)
               else (let blks = blks\<lparr>bs_blocks := qsort (bs_blocks blks)\<rparr>;
                         (n, bs) = compress_blocks blks
                     in (None, blks\<lparr>bs_blocks := bs, bs_nblocks := n\<rparr>))))"

definition ip_blocks_cleanup :: "ip_blocks \<Rightarrow> ip_blocks" where
  "ip_blocks_cleanup blks = ip_blocks_zero"

definition ip_blocks_reset :: "ip_blocks \<Rightarrow> ip_blocks" where
  "ip_blocks_reset blks = blks\<lparr>bs_curr_block := 0, bs_curr_addr := AF_UNSPEC\<rparr>"

definition ip_blocks_next :: "ip_blocks \<Rightarrow> (ip_addr_t option \<times> ip_blocks) option" where
  "ip_blocks_next blks =
     (if bs_curr_block blks \<ge> bs_nblocks blks then Some (None, ip_blocks_reset blks)
      else if bs_curr_block blks \<ge> length (bs_blocks blks) then None
      else
        (let blk = bs_blocks blks ! bs_curr_block blks;
             blks = (if bs_curr_block blks = 0 \<and> bs_curr_addr blks = AF_UNSPEC
                     then blks\<lparr>bs_curr_addr := blk_first blk\<rparr> else blks);
             addr = bs_curr_addr blks
         in if fst (ip_addr_cmp addr (blk_last blk)) < 0
            then Some (Some addr, blks\<lparr>bs_curr_addr := ip_addr_add addr 1\<rparr>)
            else (let blks = blks\<lparr>bs_curr_block := bs_curr_block blks + 1\<rparr>
                  in if bs_curr_block blks < bs_nblocks blks
                     then if bs_curr_block blks < length (bs_blocks blks)
                          then Some (Some addr, blks\<lparr>bs_curr_addr := blk_first (bs_blocks blks ! bs_curr_block blks)\<rparr>)
                          else None
                     else Some (Some addr, blks))))"

definition ip_blocks_contains :: "ip_blocks \<Rightarrow> ip_addr_t \<Rightarrow> bool" where
  "ip_blocks_contains blks addr \<longleftrightarrow>
     list_ex (\<lambda>blk. ip_block_contains blk addr)
       (drop (bs_curr_block blks) (take (bs_nblocks blks) (bs_blocks blks)))"

text \<open>
  Printing; a block goes through a buffer of 128 bytes. As in the source the result of
  appending the separating space is ignored.
\<close>

fun to_buf_loop ::
  "getnameinfo \<Rightarrow> allocator \<Rightarrow> buf_t \<Rightarrow> ip_block_t list \<Rightarrow> (int option \<times> buf_t) option" where
  "to_buf_loop gni ok b [] = Some (None, b)"
| "to_buf_loop gni ok b (blk # rest) =
     (case ip_block_to_str gni blk 128 of
        Inl e \<Rightarrow> Some (Some e, b)
      | Inr ipbuf \<Rightarrow>
          do { (_, b) \<leftarrow> buf_achar ok b (CHR '' '');
               (ret, b) \<leftarrow> buf_adata ok b ipbuf;
               if ret < 0 then Some (Some EAI_MEMORY, b) else to_buf_loop gni ok b rest })"

definition ip_blocks_to_buf ::
  "getnameinfo \<Rightarrow> allocator \<Rightarrow> ip_blocks \<Rightarrow> buf_t \<Rightarrow> (int option \<times> ip_blocks \<times> buf_t) option" where
  "ip_blocks_to_buf gni ok blks b =
     (let b = buf_clear b
      in if bs_curr_block blks \<ge> bs_nblocks blks then Some (None, blks, b)
         else if bs_curr_block blks \<ge> length (bs_blocks blks) then None
         else
           (let blk = bs_blocks blks ! bs_curr_block blks;
                blks = (if bs_curr_block blks = 0 \<and> bs_curr_addr blks = AF_UNSPEC
                        then blks\<lparr>bs_curr_addr := blk_first blk\<rparr> else blks)
            in case ip_block_to_str gni (blk\<lparr>blk_first := bs_curr_addr blks\<rparr>) 128 of
                 Inl e \<Rightarrow> Some (Some e, blks, b)
               | Inr ipbuf \<Rightarrow>
                   do { (ret, b) \<leftarrow> buf_adata ok b ipbuf;
                        if ret < 0 then Some (Some EAI_MEMORY, blks, b)
                        else do { (e, b) \<leftarrow> to_buf_loop gni ok b
                                    (drop (bs_curr_block blks + 1) (take (bs_nblocks blks) (bs_blocks blks)));
                                  Some (e, blks, b) } }))"

section \<open>Merging blocks\<close>

text \<open>What the loop computes, as a function on the list of blocks.\<close>

fun merge_blocks :: "ip_block_t \<Rightarrow> ip_block_t list \<Rightarrow> ip_block_t list" where
  "merge_blocks cur [] = [cur]"
| "merge_blocks cur (nxt # bs) =
     (if joins cur nxt then merge_blocks (extend_blk cur nxt) bs else cur # merge_blocks nxt bs)"

lemma memmove_down:
  assumes "c < nxt" and "nxt \<le> n" and "n \<le> length xs"
  shows "take c (memmove c nxt (n - nxt) xs) = take c xs"
    and "drop c (take (n - (nxt - c)) (memmove c nxt (n - nxt) xs)) = drop nxt (take n xs)"
    and "length (memmove c nxt (n - nxt) xs) = length xs"
proof -
  have "n - (nxt - c) = c + (n - nxt)" using assms by simp
  then show "drop c (take (n - (nxt - c)) (memmove c nxt (n - nxt) xs)) = drop nxt (take n xs)"
    using assms by (simp add: memmove_def drop_take)
qed (use assms in \<open>simp_all add: memmove_def\<close>)

lemma compress_blocks_loop_merge:
  assumes "compress_blocks_loop n cur nxt bs = (m, bs')" and "cur < nxt" and "nxt \<le> n" and "n \<le> length bs"
  shows "take m bs' = take cur bs @ merge_blocks (bs ! cur) (drop nxt (take n bs))
    \<and> m \<le> n \<and> length bs' = length bs \<and> 0 < m"
  using assms
proof (induction n cur nxt bs arbitrary: m bs' rule: compress_blocks_loop.induct)
  case (1 n cur nxt bs)
  show ?case
  proof (cases "nxt < n")
    case False
    with "1.prems" show ?thesis by (auto simp: compress_blocks_loop.simps [of n] take_Suc_conv_app_nth)
  next
    case lt: True
    have d: "drop nxt (take n bs) = bs ! nxt # drop (Suc nxt) (take n bs)"
      using lt "1.prems"(4) by (rule drop_take_Cons)
    show ?thesis
    proof (cases "joins (bs ! cur) (bs ! nxt)")
      case True
      let ?bs = "bs[cur := extend_blk (bs ! cur) (bs ! nxt)]"
      have "compress_blocks_loop n cur (Suc nxt) ?bs = (m, bs')"
        using "1.prems"(1) lt True by (simp add: compress_blocks_loop.simps [of n cur nxt])
      moreover have "drop (Suc nxt) (take n ?bs) = drop (Suc nxt) (take n bs)"
        using "1.prems"(2) by (simp add: take_update_swap)
      ultimately show ?thesis
        using "1.IH"(1) [OF lt True, of m bs'] "1.prems" lt True d by simp
    next
      case False
      have c: "take (Suc cur) bs = take cur bs @ [bs ! cur]"
        using "1.prems" by (simp add: take_Suc_conv_app_nth)
      show ?thesis
      proof (cases "nxt > Suc cur")
        case True
        let ?n = "n - (nxt - Suc cur)" and ?bs = "memmove (Suc cur) nxt (n - nxt) bs"
        note mv = memmove_down [OF True "1.prems"(3,4)]
        have r: "compress_blocks_loop ?n (Suc cur) (Suc (Suc cur)) ?bs = (m, bs')"
          using "1.prems"(1) lt True False by (simp add: compress_blocks_loop.simps [of n cur nxt] Let_def)
        have b: "Suc cur < ?n" "?n \<le> length ?bs" using lt True "1.prems"(4) mv(3) by simp_all
        have e: "?bs ! Suc cur # drop (Suc (Suc cur)) (take ?n ?bs) = bs ! nxt # drop (Suc nxt) (take n bs)"
          using drop_take_Cons [OF b] mv(2) d by simp
        from "1.IH"(2) [OF lt False refl True r] b mv(1,3) e c False d "1.prems"(3) show ?thesis
          by auto
      next
        case ge: False
        with "1.prems"(2) have nx: "nxt = Suc cur" by simp
        have "compress_blocks_loop n (Suc cur) (Suc nxt) bs = (m, bs')"
          using "1.prems"(1) lt False ge by (simp add: compress_blocks_loop.simps [of n cur nxt] Let_def)
        from "1.IH"(3) [OF lt False refl ge this] nx lt "1.prems"(4) c False d show ?thesis by simp
      qed
    qed
  qed
qed

text \<open>The addresses of a block: family, zone and value. The zone is that of the first address.\<close>

definition zone :: "ip_addr_t \<Rightarrow> u32" where
  "zone a = (case a of AF_INET6 _ z \<Rightarrow> z | _ \<Rightarrow> 0)"

definition addr_key :: "ip_addr_t \<Rightarrow> nat \<times> u32 \<times> nat" where
  "addr_key a = (sa_family a, zone a, ip_val a)"

definition blk_ok :: "ip_block_t \<Rightarrow> bool" where
  "blk_ok b \<longleftrightarrow> ip_wf (blk_first b) \<and> ip_wf (blk_last b) \<and> sa_family (blk_first b) = sa_family (blk_last b)
     \<and> ip_val (blk_first b) \<le> ip_val (blk_last b)"

definition blk_keys :: "ip_block_t \<Rightarrow> (nat \<times> u32 \<times> nat) set" where
  "blk_keys b = {sa_family (blk_first b)} \<times> {zone (blk_first b)} \<times> {ip_val (blk_first b)..ip_val (blk_last b)}"

definition all_keys :: "ip_block_t list \<Rightarrow> (nat \<times> u32 \<times> nat) set" where
  "all_keys bs = (\<Union>b\<in>set bs. blk_keys b)"

lemma all_keys_simps [simp]: "all_keys [] = {}" "all_keys (b # bs) = blk_keys b \<union> all_keys bs"
  by (simp_all add: all_keys_def)

definition before :: "ip_block_t \<Rightarrow> ip_block_t \<Rightarrow> bool" where
  "before b c \<longleftrightarrow> sa_family (blk_first b) < sa_family (blk_first c)
     \<or> sa_family (blk_first b) = sa_family (blk_first c) \<and> ip_val (blk_first b) \<le> ip_val (blk_first c)"

lemma before_trans: "before a b \<Longrightarrow> before b c \<Longrightarrow> before a c"
  by (auto simp: before_def)

lemma blockcmp_before:
  assumes "blk_ok b" and "blk_ok c" and "blockcmp b c \<le> 0"
  shows "before b c"
proof (cases "sa_family (blk_first b) = sa_family (blk_first c)")
  case True
  then have "fst (ip_addr_cmp (blk_first b) (blk_first c)) = sgn (int (ip_val (blk_first b)) - int (ip_val (blk_first c)))"
    using assms by (simp add: blk_ok_def ip_addr_cmp_sgn)
  with True assms(3) show ?thesis by (auto simp: blockcmp_def before_def Let_def sgn_if split: if_splits)
next
  case False
  with assms show ?thesis
    by (cases "blk_first b"; cases "blk_first c") (auto simp: blk_ok_def blockcmp_def before_def)
qed

lemma family_width: "ip_wf a \<Longrightarrow> ip_wf b \<Longrightarrow> sa_family a = sa_family b \<Longrightarrow> ip_width a = ip_width b"
  by (cases a; cases b) simp_all

lemma succ_value:
  assumes "ip_wf a"
  shows "ip_val (ip_addr_add a 1) = (if ip_val a + 1 = 2 ^ ip_width a then 0 else ip_val a + 1)"
proof -
  have "int (ip_val (ip_addr_add a 1)) = (int (ip_val a) + 1) mod 2 ^ ip_width a"
    using ip_addr_add_value(4) [OF assms, of 1] by simp
  also have "\<dots> = int ((ip_val a + 1) mod 2 ^ ip_width a)" by (simp add: zmod_int add.commute)
  finally have "ip_val (ip_addr_add a 1) = (ip_val a + 1) mod 2 ^ ip_width a" by (simp only: of_nat_eq_iff)
  then show ?thesis using ip_val_less [OF assms] by auto
qed

lemma joins_iff:
  assumes "blk_ok cur" and "blk_ok nxt" and "before cur nxt"
  shows "joins cur nxt \<longleftrightarrow> sa_family (blk_first cur) = sa_family (blk_first nxt)
    \<and> zone (blk_first cur) = zone (blk_first nxt)
    \<and> ip_val (blk_first nxt) \<le> ip_val (ip_addr_add (blk_last cur) 1)"
proof -
  have z: "diff_zones cur nxt \<longleftrightarrow> zone (blk_first cur) \<noteq> zone (blk_first nxt)"
    if "sa_family (blk_first cur) = sa_family (blk_first nxt)"
    using that by (cases "blk_first cur"; cases "blk_first nxt") (simp_all add: diff_zones_def zone_def)
  have "fst (ip_addr_cmp (ip_addr_add (blk_last cur) 1) (blk_first nxt)) =
      sgn (int (ip_val (ip_addr_add (blk_last cur) 1)) - int (ip_val (blk_first nxt)))"
    if "sa_family (blk_first cur) = sa_family (blk_first nxt)"
    using assms that ip_addr_add_value [of "blk_last cur" 1] by (simp add: blk_ok_def ip_addr_cmp_sgn)
  with z show ?thesis unfolding joins_def by (auto simp: sgn_if split: if_splits)
qed

lemma joins_extend:
  assumes ok: "blk_ok cur" "blk_ok nxt" and bf: "before cur nxt" and j: "joins cur nxt"
  shows "blk_ok (extend_blk cur nxt)" and "blk_first (extend_blk cur nxt) = blk_first cur"
    and "blk_keys (extend_blk cur nxt) = blk_keys cur \<union> blk_keys nxt"
    and "ip_val (blk_last (extend_blk cur nxt)) = max (ip_val (blk_last cur)) (ip_val (blk_last nxt))"
proof -
  let ?c = "blk_first cur" and ?l = "blk_last cur" and ?n = "blk_first nxt"
  from j have j': "sa_family ?c = sa_family ?n" "zone ?c = zone ?n" "ip_val ?n \<le> ip_val (ip_addr_add ?l 1)"
    unfolding joins_iff [OF ok bf] by auto
  have "ip_wf ?l" using ok by (simp add: blk_ok_def)
  from succ_value [OF this] j'(3) have n: "ip_val ?n \<le> ip_val ?l + 1" by (auto split: if_splits)
  have cmp: "fst (ip_addr_cmp (blk_last nxt) ?l) = sgn (int (ip_val (blk_last nxt)) - int (ip_val ?l))"
    using ok j'(1) by (simp add: blk_ok_def ip_addr_cmp_sgn)
  have c: "ip_val ?c \<le> ip_val ?n" using bf j'(1) by (simp add: before_def)
  show "blk_ok (extend_blk cur nxt)" "blk_first (extend_blk cur nxt) = blk_first cur"
    using ok j'(1) c by (auto simp: extend_blk_def blk_ok_def)
  show "ip_val (blk_last (extend_blk cur nxt)) = max (ip_val ?l) (ip_val (blk_last nxt))"
    using cmp by (auto simp: extend_blk_def sgn_if split: if_splits)
  have "{ip_val ?c..max (ip_val ?l) (ip_val (blk_last nxt))} =
      {ip_val ?c..ip_val ?l} \<union> {ip_val ?n..ip_val (blk_last nxt)}"
    using n c ok by (auto simp: blk_ok_def)
  then show "blk_keys (extend_blk cur nxt) = blk_keys cur \<union> blk_keys nxt"
    using j' \<open>ip_val (blk_last (extend_blk cur nxt)) = _\<close> \<open>blk_first (extend_blk cur nxt) = _\<close>
    by (simp add: blk_keys_def Sigma_Un_distrib2 Times_Un_distrib1)
qed

lemma merge_blocks_keys:
  assumes "blk_ok cur" and "\<forall>b\<in>set bs. blk_ok b" and "\<forall>b\<in>set bs. before cur b" and "sorted_wrt before bs"
  shows "all_keys (merge_blocks cur bs) = all_keys (cur # bs)
    \<and> (\<forall>b\<in>set (merge_blocks cur bs). blk_ok b \<and> before cur b)"
  using assms
proof (induction cur bs rule: merge_blocks.induct)
  case (1 cur)
  then show ?case by (simp add: before_def)
next
  case (2 cur nxt bs)
  show ?case
  proof (cases "joins cur nxt")
    case True
    from "2.prems" have je: "blk_ok (extend_blk cur nxt)" "blk_first (extend_blk cur nxt) = blk_first cur"
        "blk_keys (extend_blk cur nxt) = blk_keys cur \<union> blk_keys nxt"
      using joins_extend [OF _ _ _ True] by simp_all
    then have bf: "before (extend_blk cur nxt) b \<longleftrightarrow> before cur b" for b by (simp add: before_def)
    with True je 2 show ?thesis by (auto simp: bf)
  next
    case False
    have "all_keys (merge_blocks nxt bs) = all_keys (nxt # bs)
        \<and> (\<forall>b\<in>set (merge_blocks nxt bs). blk_ok b \<and> before nxt b)"
      using "2.prems" by (intro "2.IH"(2) [OF False]) simp_all
    moreover have "before cur nxt" "before cur cur" using "2.prems" by (simp_all add: before_def)
    ultimately show ?thesis using False "2.prems" by (auto intro: before_trans)
  qed
qed

text \<open>
  The blocks are apart when neither zones nor the end of the address space are involved.
\<close>

definition apart_blk :: "ip_block_t \<Rightarrow> ip_block_t \<Rightarrow> bool" where
  "apart_blk b c \<longleftrightarrow> sa_family (blk_first b) < sa_family (blk_first c)
     \<or> sa_family (blk_first b) = sa_family (blk_first c) \<and> ip_val (blk_last b) + 1 < ip_val (blk_first c)"

definition plain_blk :: "ip_block_t \<Rightarrow> bool" where
  "plain_blk b \<longleftrightarrow> zone (blk_first b) = 0 \<and> ip_val (blk_last b) + 1 < 2 ^ ip_width (blk_last b)"

lemma apart_before: "apart_blk b c \<Longrightarrow> before c d \<Longrightarrow> apart_blk b d"
  by (auto simp: apart_blk_def before_def)

lemma merge_blocks_apart:
  assumes "blk_ok cur" and "\<forall>b\<in>set bs. blk_ok b" and "\<forall>b\<in>set bs. before cur b" and "sorted_wrt before bs"
    and "plain_blk cur" and "\<forall>b\<in>set bs. plain_blk b"
  shows "sorted_wrt apart_blk (merge_blocks cur bs)"
  using assms
proof (induction cur bs rule: merge_blocks.induct)
  case (2 cur nxt bs)
  show ?case
  proof (cases "joins cur nxt")
    case True
    from "2.prems" have je: "blk_ok (extend_blk cur nxt)" "blk_first (extend_blk cur nxt) = blk_first cur"
        "ip_val (blk_last (extend_blk cur nxt)) = max (ip_val (blk_last cur)) (ip_val (blk_last nxt))"
      using joins_extend [OF _ _ _ True] by simp_all
    have "sa_family (blk_last cur) = sa_family (blk_last nxt)"
      using True "2.prems"(1,2) by (auto simp: joins_def blk_ok_def)
    with je "2.prems"(1,2) have "ip_width (blk_last (extend_blk cur nxt)) = ip_width (blk_last cur)"
        "ip_width (blk_last nxt) = ip_width (blk_last cur)"
      using family_width by (auto simp: blk_ok_def extend_blk_def)
    with je "2.prems"(5,6) have "plain_blk (extend_blk cur nxt)" by (simp add: plain_blk_def max_def)
    moreover have "before (extend_blk cur nxt) b \<longleftrightarrow> before cur b" for b using je(2) by (simp add: before_def)
    ultimately show ?thesis using True je(1) "2.prems" "2.IH"(1) [OF True] by simp
  next
    case False
    have bf: "before cur nxt" using "2.prems" by simp
    have wf: "ip_wf (blk_last cur)" using "2.prems"(1) by (simp add: blk_ok_def)
    from False have ap: "apart_blk cur nxt"
      using joins_iff [OF _ _ bf] "2.prems" succ_value [OF wf] bf
      by (auto simp: apart_blk_def before_def plain_blk_def)
    have "\<forall>b\<in>set (merge_blocks nxt bs). before nxt b"
      using merge_blocks_keys [of nxt bs] "2.prems" by simp
    with ap have "\<forall>b\<in>set (merge_blocks nxt bs). apart_blk cur b" by (auto intro: apart_before)
    moreover have "sorted_wrt apart_blk (merge_blocks nxt bs)"
      using "2.prems" by (intro "2.IH"(2) [OF False]) simp_all
    ultimately show ?thesis using False by simp
  qed
qed simp

section \<open>Reading blocks\<close>

definition cons_one ::
  "getaddrinfo \<Rightarrow> allocator \<Rightarrow> ip_blocks \<Rightarrow> bytes \<Rightarrow> int option option \<times> ip_blocks" where
  "cons_one gai ok blks t =
     (case ip_block_from_str gai (take 255 t) of
        Inl e \<Rightarrow> (Some e, blks)
      | Inr blk \<Rightarrow>
          if \<not> ok (of_nat (56 * (bs_nblocks blks + 1))) then (Some (Some EAI_MEMORY), blks)
          else (None, blks\<lparr>bs_blocks := take (bs_nblocks blks) (bs_blocks blks) @ [blk],
                           bs_nblocks := bs_nblocks blks + 1\<rparr>))"

fun cons_all ::
  "getaddrinfo \<Rightarrow> allocator \<Rightarrow> ip_blocks \<Rightarrow> bytes list \<Rightarrow> int option option \<times> ip_blocks" where
  "cons_all gai ok blks [] = (None, blks)"
| "cons_all gai ok blks (t # ts) =
     (case cons_one gai ok blks t of (Some e, blks) \<Rightarrow> (Some e, blks) | (None, blks) \<Rightarrow> cons_all gai ok blks ts)"

lemma cons_block_one: "cons_block gai ok blks s start e = cons_one gai ok blks (take (e - start) (drop start s))"
proof -
  have "(if e - start \<ge> 256 then 255 else e - start) = min 255 (e - start)" by (auto simp: min_def)
  then have "take (if e - start \<ge> 256 then 255 else e - start) (drop start s) = take 255 (take (e - start) (drop start s))"
    by (simp only: take_take)
  then show ?thesis by (simp only: cons_block_def cons_one_def Let_def)
qed

lemma same_separators: "is_ip_blocks_sep = is_port_range_sep"
  by (simp add: fun_eq_iff is_ip_blocks_sep_def is_port_range_sep_def)

lemma findend_token:
  assumes "drop pos s = cs" and "start \<le> pos" and "pos \<le> length s"
  defines "ns \<equiv> \<lambda>c. \<not> is_port_range_sep c"
  shows "init_loop gai ok s pos cs BLKS_FINDEND start blks =
    (case cons_one gai ok blks (take (pos - start) (drop start s) @ takeWhile ns cs) of
       (Some e, blks) \<Rightarrow> (Some e, blks)
     | (None, blks) \<Rightarrow> init_loop gai ok s (pos + length (takeWhile ns cs)) (dropWhile ns cs) BLKS_FINDSTART start blks)"
  using assms(1-3)
proof (induction cs arbitrary: pos)
  case Nil
  then show ?case by (simp add: cons_block_one split: prod.split option.split)
next
  case (Cons c cs)
  have n: "pos < length s" "drop (Suc pos) s = cs" "s ! pos = c"
    using Cons.prems(1) by (metis drop_eq_Nil list.discI not_le, metis drop_Suc tl_drop list.sel(3),
        metis Cons_nth_drop_Suc drop_eq_Nil list.discI list.inject not_le)
  show ?case
  proof (cases "is_port_range_sep c")
    case True
    then show ?thesis
      by (simp add: cons_block_one same_separators ns_def split: prod.split option.split)
  next
    case False
    have "take (Suc pos - start) (drop start s) = take (pos - start) (drop start s) @ [c]"
      using n Cons.prems(2) by (simp add: Suc_diff_le take_Suc_conv_app_nth)
    moreover have "pos + length (takeWhile ns (c # cs)) = Suc pos + length (takeWhile ns cs)"
      "takeWhile ns (c # cs) = c # takeWhile ns cs" "dropWhile ns (c # cs) = dropWhile ns cs"
      using False by (simp_all add: ns_def)
    moreover have "init_loop gai ok s pos (c # cs) BLKS_FINDEND start blks =
        init_loop gai ok s (Suc pos) cs BLKS_FINDEND start blks"
      using False by (simp add: same_separators)
    ultimately show ?thesis using Cons.IH [of "Suc pos"] n Cons.prems(2)
      by (simp only: append.assoc append.simps Suc_le_eq le_SucI)
  qed
qed

lemma init_loop_tokens:
  "drop pos s = cs \<Longrightarrow> pos \<le> length s \<Longrightarrow>
     init_loop gai ok s pos cs BLKS_FINDSTART start blks = cons_all gai ok blks (tokens cs)"
proof (induction cs arbitrary: pos start blks rule: tokens.induct)
  case (2 c cs)
  let ?ns = "\<lambda>c. \<not> is_port_range_sep c"
  have n: "pos < length s" "drop (Suc pos) s = cs"
    using "2.prems"(1) by (metis drop_eq_Nil list.discI not_le, metis drop_Suc tl_drop list.sel(3))
  have t: "take 1 (drop pos s) = [c]" using "2.prems"(1) by simp
  show ?case
  proof (cases "is_port_range_sep c")
    case True
    with "2.IH"(1) [OF True n(2)] n show ?thesis by (simp add: same_separators)
  next
    case False
    let ?p = "Suc pos + length (takeWhile ?ns cs)"
    have d: "drop ?p s = dropWhile ?ns cs"
      using n(2) by (metis add.commute drop_drop dropWhile_eq_drop)
    have l: "?p \<le> length s"
    proof -
      have "length (takeWhile ?ns cs) \<le> length cs" by (rule length_takeWhile_le)
      also have "\<dots> = length s - Suc pos" using n(2) by auto
      finally show ?thesis using n(1) by simp
    qed
    from findend_token [OF n(2), of pos gai ok blks] n(1) t False "2.IH"(2) [OF False d l] show ?thesis
      by (simp add: same_separators split: prod.split option.split)
  qed
qed simp

section \<open>Iteration\<close>

text \<open>\<open>n\<close> addresses from \<open>a\<close> on.\<close>

fun ip_seq :: "ip_addr_t \<Rightarrow> nat \<Rightarrow> ip_addr_t list" where
  "ip_seq a 0 = []"
| "ip_seq a (Suc n) = a # ip_seq (ip_addr_add a 1) n"

lemma length_ip_seq [simp]: "length (ip_seq a n) = n"
  by (induction n arbitrary: a) simp_all

definition seq_to :: "ip_addr_t \<Rightarrow> ip_addr_t \<Rightarrow> ip_addr_t list" where
  "seq_to a e = ip_seq a (Suc (ip_val e) - ip_val a)"

definition all_addrs :: "ip_block_t list \<Rightarrow> ip_addr_t list" where
  "all_addrs bs = concat (map (\<lambda>b. seq_to (blk_first b) (blk_last b)) bs)"

definition in_blk :: "ip_addr_t \<Rightarrow> ip_block_t \<Rightarrow> bool" where
  "in_blk a b \<longleftrightarrow> ip_wf a \<and> sa_family a = sa_family (blk_first b) \<and> zone a = zone (blk_first b)
     \<and> ip_val (blk_first b) \<le> ip_val a \<and> ip_val a \<le> ip_val (blk_last b)"

lemma zone_add [simp]: "zone (ip_addr_add a n) = zone a"
  by (cases a) (simp_all add: zone_def)

lemma in_blk_first: "blk_ok b \<Longrightarrow> in_blk (blk_first b) b"
  by (simp add: in_blk_def blk_ok_def)

lemma in_blk_cmp:
  "blk_ok b \<Longrightarrow> in_blk a b \<Longrightarrow> fst (ip_addr_cmp a (blk_last b)) < 0 \<longleftrightarrow> ip_val a < ip_val (blk_last b)"
  by (auto simp: in_blk_def blk_ok_def ip_addr_cmp_sgn sgn_if)

lemma in_blk_succ:
  assumes "blk_ok b" and "in_blk a b" and "ip_val a < ip_val (blk_last b)"
  shows "in_blk (ip_addr_add a 1) b" and "ip_val (ip_addr_add a 1) = ip_val a + 1"
proof -
  have w: "ip_wf a" "ip_width a = ip_width (blk_last b)"
    using assms(1,2) family_width by (auto simp: in_blk_def blk_ok_def)
  have "ip_val (blk_last b) < 2 ^ ip_width (blk_last b)" using assms(1) by (intro ip_val_less) (simp add: blk_ok_def)
  then show v: "ip_val (ip_addr_add a 1) = ip_val a + 1" using succ_value [OF w(1)] assms(3) w(2) by simp
  show "in_blk (ip_addr_add a 1) b"
    using assms ip_addr_add_value [OF w(1), of 1] v by (simp add: in_blk_def)
qed

lemma seq_to_step:
  assumes "blk_ok b" and "in_blk a b"
  shows "seq_to a (blk_last b) = a # (if ip_val a < ip_val (blk_last b) then seq_to (ip_addr_add a 1) (blk_last b) else [])"
proof (cases "ip_val a < ip_val (blk_last b)")
  case True
  then have "Suc (ip_val (blk_last b)) - ip_val a = Suc (Suc (ip_val (blk_last b)) - (ip_val a + 1))" by simp
  with True in_blk_succ(2) [OF assms True] show ?thesis by (simp add: seq_to_def)
next
  case False
  then have "Suc (ip_val (blk_last b)) - ip_val a = 1" using assms(2) by (simp add: in_blk_def)
  with False show ?thesis by (simp add: seq_to_def)
qed

text \<open>The keys of the addresses of a block are the keys of the block, each once.\<close>

lemma seq_to_keys:
  assumes "blk_ok b" and "in_blk a b"
  shows "map addr_key (seq_to a (blk_last b)) =
    map (\<lambda>v. (sa_family (blk_first b), zone (blk_first b), v)) [ip_val a..<Suc (ip_val (blk_last b))]"
  using assms
proof (induction "ip_val (blk_last b) - ip_val a" arbitrary: a)
  case 0
  then show ?case by (subst seq_to_step [of b a]) (auto simp: addr_key_def in_blk_def)
next
  case (Suc d)
  then have lt: "ip_val a < ip_val (blk_last b)" by simp
  note s = in_blk_succ [OF Suc.prems lt]
  have "map addr_key (seq_to (ip_addr_add a 1) (blk_last b)) =
      map (\<lambda>v. (sa_family (blk_first b), zone (blk_first b), v)) [ip_val a + 1..<Suc (ip_val (blk_last b))]"
    using Suc.hyps(1) [of "ip_addr_add a 1"] s Suc.hyps(2) Suc.prems(1) by simp
  with lt Suc.prems(2) show ?case
    by (subst seq_to_step [OF Suc.prems]) (simp add: addr_key_def in_blk_def upt_conv_Cons del: upt_Suc)
qed

definition ip_used :: "ip_blocks \<Rightarrow> ip_block_t list" where
  "ip_used blks = take (bs_nblocks blks) (bs_blocks blks)"

definition ip_blocks_inv :: "ip_blocks \<Rightarrow> bool" where
  "ip_blocks_inv blks \<longleftrightarrow> bs_nblocks blks \<le> length (bs_blocks blks) \<and> (\<forall>b\<in>set (ip_used blks). blk_ok b)
     \<and> (bs_nblocks blks \<le> bs_curr_block blks \<or> bs_curr_block blks = 0 \<and> bs_curr_addr blks = AF_UNSPEC
        \<or> in_blk (bs_curr_addr blks) (bs_blocks blks ! bs_curr_block blks))"

definition cur_addr :: "ip_blocks \<Rightarrow> ip_addr_t" where
  "cur_addr blks = (if bs_curr_block blks = 0 \<and> bs_curr_addr blks = AF_UNSPEC
     then blk_first (bs_blocks blks ! 0) else bs_curr_addr blks)"

definition ip_blocks_pending :: "ip_blocks \<Rightarrow> ip_addr_t list" where
  "ip_blocks_pending blks = (if bs_nblocks blks \<le> bs_curr_block blks then []
     else seq_to (cur_addr blks) (blk_last (bs_blocks blks ! bs_curr_block blks))
       @ all_addrs (drop (Suc (bs_curr_block blks)) (ip_used blks)))"

definition ip_blocks_content :: "ip_blocks \<Rightarrow> ip_addr_t multiset" where
  "ip_blocks_content blks = mset (all_addrs (ip_used blks))"

lemma inv_blk:
  assumes "ip_blocks_inv blks" and "i < bs_nblocks blks"
  shows "i < length (bs_blocks blks)" and "blk_ok (bs_blocks blks ! i)"
    and "drop i (ip_used blks) = bs_blocks blks ! i # drop (Suc i) (ip_used blks)"
proof -
  show l: "i < length (bs_blocks blks)" using assms by (simp add: ip_blocks_inv_def)
  have "bs_blocks blks ! i \<in> set (ip_used blks)"
    using assms by (auto simp: ip_blocks_inv_def ip_used_def in_set_conv_nth)
  then show "blk_ok (bs_blocks blks ! i)" using assms(1) by (simp add: ip_blocks_inv_def)
  show "drop i (ip_used blks) = bs_blocks blks ! i # drop (Suc i) (ip_used blks)"
    using assms unfolding ip_used_def by (intro drop_take_Cons) (simp_all add: ip_blocks_inv_def)
qed

lemma cur_addr_in:
  assumes "ip_blocks_inv blks" and "bs_curr_block blks < bs_nblocks blks"
  shows "in_blk (cur_addr blks) (bs_blocks blks ! bs_curr_block blks)"
  using assms inv_blk(2) [OF assms] unfolding ip_blocks_inv_def cur_addr_def by (auto intro: in_blk_first)

lemma in_blk_not_unspec: "in_blk a b \<Longrightarrow> a \<noteq> AF_UNSPEC"
  by (auto simp: in_blk_def)

lemma ip_blocks_next_cur:
  assumes "bs_curr_block blks < bs_nblocks blks" and "bs_curr_block blks < length (bs_blocks blks)"
    and "Suc (bs_curr_block blks) < bs_nblocks blks \<Longrightarrow> Suc (bs_curr_block blks) < length (bs_blocks blks)"
  shows "ip_blocks_next blks =
    (let a = cur_addr blks; i = bs_curr_block blks
     in if fst (ip_addr_cmp a (blk_last (bs_blocks blks ! i))) < 0
        then Some (Some a, blks\<lparr>bs_curr_addr := ip_addr_add a 1\<rparr>)
        else Some (Some a, blks\<lparr>bs_curr_block := Suc i,
               bs_curr_addr := if Suc i < bs_nblocks blks then blk_first (bs_blocks blks ! Suc i) else a\<rparr>))"
  using assms by (cases blks; cases "Suc (bs_curr_block blks) < bs_nblocks blks")
    (auto simp: ip_blocks_next_def cur_addr_def Let_def)

lemma ip_blocks_next_step:
  assumes inv: "ip_blocks_inv blks" and lt: "bs_curr_block blks < bs_nblocks blks"
  shows "\<exists>blks'. ip_blocks_next blks = Some (Some (hd (ip_blocks_pending blks)), blks') \<and> ip_blocks_inv blks'
    \<and> ip_blocks_pending blks' = tl (ip_blocks_pending blks) \<and> ip_used blks' = ip_used blks"
proof -
  let ?i = "bs_curr_block blks" and ?a = "cur_addr blks"
  define b where "b = bs_blocks blks ! ?i"
  note ib = inv_blk [OF inv lt, folded b_def]
  have ia: "in_blk ?a b" using cur_addr_in [OF inv lt] by (simp add: b_def)
  have p: "ip_blocks_pending blks = seq_to ?a (blk_last b) @ all_addrs (drop (Suc ?i) (ip_used blks))"
    using lt by (simp add: ip_blocks_pending_def b_def)
  have sl: "Suc ?i < length (bs_blocks blks)" if "Suc ?i < bs_nblocks blks"
    using that inv by (simp add: ip_blocks_inv_def)
  show ?thesis
  proof (cases "ip_val ?a < ip_val (blk_last b)")
    case True
    let ?s = "blks\<lparr>bs_curr_addr := ip_addr_add ?a 1\<rparr>"
    have n: "ip_blocks_next blks = Some (Some ?a, ?s)"
      using ip_blocks_next_cur [OF lt ib(1) sl] in_blk_cmp [OF ib(2) ia] True by (simp add: b_def Let_def)
    have s: "in_blk (ip_addr_add ?a 1) b" using in_blk_succ [OF ib(2) ia True] by simp
    then have c: "cur_addr ?s = ip_addr_add ?a 1" by (simp add: cur_addr_def in_blk_not_unspec)
    have "ip_blocks_inv ?s" using inv s by (simp add: ip_blocks_inv_def ip_used_def b_def)
    moreover have "ip_blocks_pending ?s = tl (ip_blocks_pending blks)"
      using seq_to_step [OF ib(2) ia] True c lt p by (simp add: ip_blocks_pending_def b_def ip_used_def)
    ultimately show ?thesis
      using n p seq_to_step [OF ib(2) ia] by (simp add: ip_used_def)
  next
    case False
    let ?c = "if Suc ?i < bs_nblocks blks then blk_first (bs_blocks blks ! Suc ?i) else ?a"
    let ?s = "blks\<lparr>bs_curr_block := Suc ?i, bs_curr_addr := ?c\<rparr>"
    have n: "ip_blocks_next blks = Some (Some ?a, ?s)"
      using ip_blocks_next_cur [OF lt ib(1) sl] in_blk_cmp [OF ib(2) ia] False by (simp add: b_def Let_def)
    have q: "ip_blocks_pending ?s = all_addrs (drop (Suc ?i) (ip_used blks))"
      using inv_blk(3) [OF inv, of "Suc ?i"] inv
      by (auto simp: ip_blocks_pending_def cur_addr_def ip_used_def all_addrs_def ip_blocks_inv_def)
    have "ip_blocks_inv ?s"
      using inv inv_blk(2) [OF inv, of "Suc ?i"] by (auto simp: ip_blocks_inv_def ip_used_def intro: in_blk_first)
    with n q p seq_to_step [OF ib(2) ia] False show ?thesis by (simp add: ip_used_def)
  qed
qed

lemma ip_blocks_reset_inv: "ip_blocks_inv blks \<Longrightarrow> ip_blocks_inv (ip_blocks_reset blks)"
  by (simp add: ip_blocks_inv_def ip_blocks_reset_def ip_used_def)

lemma pending_reset:
  assumes "ip_blocks_inv blks"
  shows "ip_blocks_pending (ip_blocks_reset blks) = all_addrs (ip_used blks)"
proof (cases "bs_nblocks blks = 0")
  case True
  then show ?thesis by (simp add: ip_blocks_pending_def ip_blocks_reset_def ip_used_def all_addrs_def)
next
  case False
  then have "ip_used blks = bs_blocks blks ! 0 # drop 1 (ip_used blks)" using inv_blk(3) [OF assms, of 0] by simp
  then have "all_addrs (ip_used blks) = all_addrs (bs_blocks blks ! 0 # drop 1 (ip_used blks))" by (rule arg_cong)
  also have "\<dots> =
      seq_to (blk_first (bs_blocks blks ! 0)) (blk_last (bs_blocks blks ! 0)) @ all_addrs (drop 1 (ip_used blks))"
    by (simp add: all_addrs_def)
  finally have "all_addrs (ip_used blks) =
      seq_to (blk_first (bs_blocks blks ! 0)) (blk_last (bs_blocks blks ! 0)) @ all_addrs (drop 1 (ip_used blks))" .
  with False show ?thesis
    by (simp add: ip_blocks_pending_def ip_blocks_reset_def cur_addr_def ip_used_def)
qed

interpretation ip_blocks: iterator ip_blocks_inv ip_blocks_pending ip_blocks_content ip_blocks_next
proof
  fix blks v vs assume inv: "ip_blocks_inv blks" and p: "ip_blocks_pending blks = v # vs"
  then have "bs_curr_block blks < bs_nblocks blks" by (auto simp: ip_blocks_pending_def split: if_splits)
  from ip_blocks_next_step [OF inv this] p
  show "\<exists>s'. ip_blocks_next blks = Some (Some v, s') \<and> ip_blocks_inv s' \<and> ip_blocks_pending s' = vs
      \<and> ip_blocks_content s' = ip_blocks_content blks" by (auto simp: ip_blocks_content_def)
next
  fix blks assume inv: "ip_blocks_inv blks" and p: "ip_blocks_pending blks = []"
  have "bs_nblocks blks \<le> bs_curr_block blks"
  proof (rule ccontr)
    assume "\<not> bs_nblocks blks \<le> bs_curr_block blks"
    then have lt: "bs_curr_block blks < bs_nblocks blks" by simp
    from seq_to_step [OF inv_blk(2) [OF inv lt] cur_addr_in [OF inv lt]] lt p show False
      by (simp add: ip_blocks_pending_def)
  qed
  then have "ip_blocks_next blks = Some (None, ip_blocks_reset blks)" by (simp add: ip_blocks_next_def)
  moreover have "ip_blocks_content (ip_blocks_reset blks) = ip_blocks_content blks"
    by (simp add: ip_blocks_content_def ip_blocks_reset_def ip_used_def)
  ultimately show "\<exists>s'. ip_blocks_next blks = Some (None, s') \<and> ip_blocks_inv s'
      \<and> mset (ip_blocks_pending s') = ip_blocks_content blks \<and> ip_blocks_content s' = ip_blocks_content blks"
    using ip_blocks_reset_inv [OF inv] pending_reset [OF inv] by (simp add: ip_blocks_content_def)
qed

lemma all_addrs_keys:
  "\<forall>b\<in>set bs. blk_ok b \<Longrightarrow> set (map addr_key (all_addrs bs)) = all_keys bs"
proof (induction bs)
  case (Cons b bs)
  have "set (map addr_key (seq_to (blk_first b) (blk_last b))) = blk_keys b"
    using seq_to_keys [of b "blk_first b"] Cons.prems in_blk_first [of b]
    by (auto simp: blk_keys_def simp del: upt_Suc)
  with Cons show ?case by (simp add: all_addrs_def image_Un)
qed (simp add: all_addrs_def)

lemma all_addrs_ascending:
  assumes "\<forall>b\<in>set bs. blk_ok b" and "sorted_wrt apart_blk bs"
  shows "sorted_wrt (\<lambda>(f, _, v) (g, _, w). f < g \<or> f = g \<and> v < w) (map addr_key (all_addrs bs))"
  using assms
proof (induction bs)
  case (Cons b bs)
  let ?lt = "\<lambda>(f, _, v) (g, _, w). f < g \<or> (f :: nat) = g \<and> v < (w :: nat)"
  have k: "map addr_key (seq_to (blk_first b) (blk_last b)) =
      map (\<lambda>v. (sa_family (blk_first b), zone (blk_first b), v)) [ip_val (blk_first b)..<Suc (ip_val (blk_last b))]"
    using Cons.prems in_blk_first [of b] by (intro seq_to_keys) simp_all
  have 1: "sorted_wrt ?lt (map addr_key (seq_to (blk_first b) (blk_last b)))"
    unfolding k sorted_wrt_map by (rule sorted_wrt_mono_rel [OF _ sorted_wrt_upt]) simp
  have 2: "?lt x y" if "x \<in> set (map addr_key (seq_to (blk_first b) (blk_last b)))" "y \<in> all_keys bs" for x y
  proof -
    from that(2) obtain c where c: "c \<in> set bs" "y \<in> blk_keys c" by (auto simp: all_keys_def)
    then have "apart_blk b c" using Cons.prems(2) by simp
    with that(1) c(2) show ?thesis unfolding k by (auto simp: blk_keys_def apart_blk_def simp del: upt_Suc)
  qed
  have "map addr_key (all_addrs (b # bs)) =
      map addr_key (seq_to (blk_first b) (blk_last b)) @ map addr_key (all_addrs bs)" by (simp add: all_addrs_def)
  moreover have "set (map addr_key (all_addrs bs)) = all_keys bs" using Cons.prems by (intro all_addrs_keys) simp
  ultimately show ?case using 1 2 Cons by (simp add: sorted_wrt_append)
qed (simp add: all_addrs_def)

section \<open>Reading, sorting and merging together\<close>

text \<open>What the C standard says of \<open>qsort\<close>, for blocks on which \<open>blockcmp\<close> is an order.\<close>

definition qsort_ok :: "(ip_block_t list \<Rightarrow> ip_block_t list) \<Rightarrow> bool" where
  "qsort_ok qs \<longleftrightarrow> (\<forall>bs. (\<forall>b\<in>set bs. blk_ok b) \<longrightarrow>
     mset (qs bs) = mset bs \<and> sorted_wrt (\<lambda>b c. blockcmp b c \<le> 0) (qs bs))"

definition blk_rank :: "ip_block_t \<Rightarrow> nat" where
  "blk_rank b = (sa_family (blk_first b) * 2 ^ 128 + ip_val (blk_first b)) * 2 ^ 128 + ip_val (blk_last b)"

lemma val_less_128: "ip_wf a \<Longrightarrow> ip_val a < 2 ^ 128"
proof -
  assume a: "ip_wf a"
  then have "(2 :: nat) ^ ip_width a \<le> 2 ^ 128" by (intro power_increasing) (cases a; simp)+
  with ip_val_less [OF a] show ?thesis by linarith
qed

lemma lex_le:
  fixes a b c d B :: nat
  assumes "a * B + b \<le> c * B + d" and "b < B" and "d < B"
  shows "a < c \<or> a = c \<and> b \<le> d"
proof (cases "a \<le> c")
  case True
  with assms show ?thesis by (cases "a = c") auto
next
  case False
  then have "(c + 1) * B \<le> a * B" by (intro mult_right_mono) simp_all
  with assms show ?thesis by (simp add: algebra_simps)
qed

lemma rank_blockcmp:
  assumes "blk_ok b" and "blk_ok c" and "blk_rank b \<le> blk_rank c"
  shows "blockcmp b c \<le> 0"
proof -
  have v: "ip_val (blk_first x) < 2 ^ 128" "ip_val (blk_last x) < 2 ^ 128" if "blk_ok x" for x
    using that val_less_128 by (simp_all add: blk_ok_def)
  from lex_le [OF assms(3) [unfolded blk_rank_def]] v [OF assms(1)] v [OF assms(2)]
  have "sa_family (blk_first b) * 2 ^ 128 + ip_val (blk_first b) < sa_family (blk_first c) * 2 ^ 128 + ip_val (blk_first c)
      \<or> sa_family (blk_first b) * 2 ^ 128 + ip_val (blk_first b) = sa_family (blk_first c) * 2 ^ 128 + ip_val (blk_first c)
        \<and> ip_val (blk_last b) \<le> ip_val (blk_last c)" by blast
  with lex_le [of "sa_family (blk_first b)" "2 ^ 128" "ip_val (blk_first b)" "sa_family (blk_first c)" "ip_val (blk_first c)"]
    v [OF assms(1)] v [OF assms(2)]
  have "sa_family (blk_first b) < sa_family (blk_first c) \<or> sa_family (blk_first b) = sa_family (blk_first c) \<and>
      (ip_val (blk_first b) < ip_val (blk_first c)
       \<or> ip_val (blk_first b) = ip_val (blk_first c) \<and> ip_val (blk_last b) \<le> ip_val (blk_last c))" by auto
  then show ?thesis
  proof
    assume "sa_family (blk_first b) < sa_family (blk_first c)"
    with assms(1,2) show ?thesis
      by (cases "blk_first b"; cases "blk_first c") (simp_all add: blockcmp_def blk_ok_def)
  next
    assume "sa_family (blk_first b) = sa_family (blk_first c) \<and>
      (ip_val (blk_first b) < ip_val (blk_first c)
       \<or> ip_val (blk_first b) = ip_val (blk_first c) \<and> ip_val (blk_last b) \<le> ip_val (blk_last c))"
    with assms(1,2) show ?thesis
      by (auto simp: blockcmp_def blk_ok_def ip_addr_cmp_sgn sgn_if)
  qed
qed

lemma qsort_ok_sort: "qsort_ok (sort_key blk_rank)"
  unfolding qsort_ok_def
proof (intro allI impI conjI)
  fix bs :: "ip_block_t list" assume ok: "\<forall>b\<in>set bs. blk_ok b"
  have "sorted (map blk_rank (sort_key blk_rank bs))" by simp
  then have "sorted_wrt (\<lambda>b c. blk_rank b \<le> blk_rank c) (sort_key blk_rank bs)" by (simp add: sorted_wrt_map)
  then show "sorted_wrt (\<lambda>b c. blockcmp b c \<le> 0) (sort_key blk_rank bs)"
    by (rule sorted_wrt_mono_rel [rotated]) (use ok rank_blockcmp in auto)
qed simp

lemma qsort_sorted:
  assumes "qsort_ok qs" and "\<forall>b\<in>set bs. blk_ok b"
  shows "set (qs bs) = set bs" and "length (qs bs) = length bs" and "sorted_wrt before (qs bs)"
proof -
  have m: "mset (qs bs) = mset bs" and s: "sorted_wrt (\<lambda>b c. blockcmp b c \<le> 0) (qs bs)"
    using assms by (simp_all add: qsort_ok_def)
  show e: "set (qs bs) = set bs" "length (qs bs) = length bs" using m by (metis set_mset_mset, metis size_mset)
  from s show "sorted_wrt before (qs bs)"
    by (rule sorted_wrt_mono_rel [rotated]) (use assms(2) e blockcmp_before in auto)
qed

text \<open>Merging a sorted list.\<close>

lemma compress_blocks_correct:
  assumes "bs \<noteq> []" and ok: "\<forall>b\<in>set bs. blk_ok b" and s: "sorted_wrt before bs"
    and c: "compress_blocks_loop (length bs) 0 1 bs = (m, bs')"
  shows "m \<le> length bs'" and "\<forall>b\<in>set (take m bs'). blk_ok b" and "all_keys (take m bs') = all_keys bs"
    and "\<forall>b\<in>set bs. plain_blk b \<Longrightarrow> sorted_wrt apart_blk (take m bs')"
proof -
  obtain b0 rest where bs: "bs = b0 # rest" using assms(1) by (cases bs) auto
  have "take m bs' = merge_blocks b0 rest \<and> m \<le> length bs \<and> length bs' = length bs"
    using compress_blocks_loop_merge [OF c] bs by simp
  moreover have p: "blk_ok b0" "\<forall>b\<in>set rest. blk_ok b" "\<forall>b\<in>set rest. before b0 b" "sorted_wrt before rest"
    using ok s bs by simp_all
  ultimately show "m \<le> length bs'" "\<forall>b\<in>set (take m bs'). blk_ok b" "all_keys (take m bs') = all_keys bs"
    using merge_blocks_keys [OF p] bs by simp_all
  assume "\<forall>b\<in>set bs. plain_blk b"
  with merge_blocks_apart [OF p] bs \<open>take m bs' = _ \<and> _\<close> show "sorted_wrt apart_blk (take m bs')" by simp
qed

lemma cons_all_ok:
  assumes "\<forall>t\<in>set ts. \<exists>b. ip_block_from_str gai (take 255 t) = Inr b" and "bs_nblocks blks = length (bs_blocks blks)"
    and "\<And>k. k \<le> bs_nblocks blks + length ts \<Longrightarrow> ok (of_nat (56 * k))"
  shows "cons_all gai ok blks ts = (None, blks\<lparr>bs_blocks := bs_blocks blks @ map (\<lambda>t. projr (ip_block_from_str gai (take 255 t))) ts,
    bs_nblocks := bs_nblocks blks + length ts\<rparr>)"
  using assms
proof (induction ts arbitrary: blks)
  case (Cons t ts)
  then obtain b where b: "ip_block_from_str gai (take 255 t) = Inr b" by auto
  let ?s = "blks\<lparr>bs_blocks := bs_blocks blks @ [b], bs_nblocks := bs_nblocks blks + 1\<rparr>"
  have "ok (of_nat (56 * (bs_nblocks blks + 1)))" by (rule Cons.prems(3)) simp
  then have one: "cons_one gai ok blks t = (None, ?s)" using b Cons.prems(2) by (simp add: cons_one_def)
  have "cons_all gai ok ?s ts = (None, ?s\<lparr>bs_blocks := bs_blocks ?s @ map (\<lambda>t. projr (ip_block_from_str gai (take 255 t))) ts,
    bs_nblocks := bs_nblocks ?s + length ts\<rparr>)"
    using Cons.prems by (intro Cons.IH) simp_all
  with one b show ?case by simp
qed simp

section \<open>Properties\<close>

text \<open>
  C8. \<open>ip_blocks_init\<close> on a text whose tokens all denote blocks: the resulting blocks contain
  exactly the addresses of the tokens, whatever order \<open>qsort\<close> leaves equal blocks in; and if
  no zone is given and no block ends at the last address of its family, the blocks come out
  sorted, disjoint and not adjacent.
\<close>

theorem ip_blocks_init_correct:
  assumes "qsort_ok qs" and "\<And>k. k \<le> length (tokens s) \<Longrightarrow> ok (of_nat (56 * k))"
    and "map (\<lambda>t. ip_block_from_str gai (take 255 t)) (tokens s) = map Inr bs" and "\<forall>b\<in>set bs. blk_ok b"
  shows "\<exists>blks. ip_blocks_init gai ok qs (Some s) = (None, blks) \<and> ip_blocks_inv blks
    \<and> bs_curr_block blks = 0 \<and> bs_curr_addr blks = AF_UNSPEC \<and> all_keys (ip_used blks) = all_keys bs
    \<and> ((\<forall>b\<in>set bs. plain_blk b) \<longrightarrow> sorted_wrt apart_blk (ip_used blks))"
proof -
  have "\<forall>t\<in>set (tokens s). \<exists>b. ip_block_from_str gai (take 255 t) = Inr b"
    using assms(3) by (metis (no_types, lifting) imageE image_eqI image_set)
  then have "cons_all gai ok ip_blocks_zero (tokens s) = (None, ip_blocks_zero\<lparr>bs_blocks := bs_blocks ip_blocks_zero @
      map (\<lambda>t. projr (ip_block_from_str gai (take 255 t))) (tokens s), bs_nblocks := bs_nblocks ip_blocks_zero + length (tokens s)\<rparr>)"
    using assms(2) by (intro cons_all_ok) (simp_all add: ip_blocks_zero_def)
  moreover have "map (\<lambda>t. projr (ip_block_from_str gai (take 255 t))) (tokens s) = bs"
    using arg_cong [OF assms(3), of "map projr"] by (simp add: comp_def)
  moreover have l: "length (tokens s) = length bs" using arg_cong [OF assms(3), of length] by simp
  ultimately have c: "init_loop gai ok s 0 s BLKS_FINDSTART 0 ip_blocks_zero =
      (None, ip_blocks_zero\<lparr>bs_blocks := bs, bs_nblocks := length bs\<rparr>)"
    by (simp add: init_loop_tokens ip_blocks_zero_def)
  show ?thesis
  proof (cases "bs = []")
    case True
    with c show ?thesis
      by (simp add: ip_blocks_init_def ip_blocks_inv_def ip_blocks_zero_def ip_used_def)
  next
    case False
    note q = qsort_sorted [OF assms(1,4)]
    obtain m bs' where m: "compress_blocks_loop (length bs) 0 1 (qs bs) = (m, bs')" by fastforce
    have k: "all_keys (qs bs) = all_keys bs" using q(1) by (simp add: all_keys_def)
    have "qs bs \<noteq> []" "\<forall>b\<in>set (qs bs). blk_ok b" using False q assms(4) by auto
    from compress_blocks_correct [OF this q(3), unfolded q(1,2) k, OF m] c False m show ?thesis
      by (simp add: ip_blocks_init_def compress_blocks_def ip_blocks_inv_def ip_used_def ip_blocks_zero_def)
  qed
qed

theorem ip_blocks_init_correct_witness:
  "\<exists>blks. ip_blocks_init (\<lambda>t. if t = ''::1'' then Inr [AF_INET6 [0, 0, 0, 1] 0] else Inr [AF_INET 7])
      tib_alloc (sort_key blk_rank) (Some ''::1,0.0.0.7'') = (None, blks)
    \<and> all_keys (ip_used blks) = {(10, 0, 1), (2, 0, 7)}"
proof -
  let ?gai = "\<lambda>t. if t = ''::1'' then Inr [AF_INET6 [0, 0, 0, 1] 0] else Inr [AF_INET 7]"
  let ?bs = "[\<lparr>blk_first = AF_INET6 [0, 0, 0, 1] 0, blk_last = AF_INET6 [0, 0, 0, 1] 0\<rparr>,
     \<lparr>blk_first = AF_INET 7, blk_last = AF_INET 7\<rparr>]"
  have t: "tokens ''::1,0.0.0.7'' = [''::1'', ''0.0.0.7'']" by (simp add: is_port_range_sep_def)
  have "map (\<lambda>t. ip_block_from_str ?gai (take 255 t)) (tokens ''::1,0.0.0.7'') = map Inr ?bs"
    unfolding t by (simp add: ip_block_from_str_def ip_addr_def YANS_IP_ADDR_MAXLEN_def Let_def strspn_def
        strcspn_def ip_space_def)
  moreover have "\<forall>b\<in>set ?bs. blk_ok b" by (simp add: blk_ok_def)
  moreover have "tib_alloc (of_nat (56 * k))" if "k \<le> length (tokens ''::1,0.0.0.7'')" for k
  proof -
    have "k = 0 \<or> k = 1 \<or> k = 2" using that unfolding t by auto
    then show ?thesis by (auto simp: tib_alloc_def)
  qed
  moreover have "all_keys ?bs = {(10, 0, 1), (2, 0, 7)}"
    by (auto simp: blk_keys_def zone_def words_val_def)
  ultimately show ?thesis
    using ip_blocks_init_correct [OF qsort_ok_sort, of "''::1,0.0.0.7''" tib_alloc ?gai ?bs] by auto
qed

text \<open>
  C10. Iterating over address blocks from the start returns the addresses of the blocks in
  order, then reports the end and starts over. If the blocks are apart, the addresses ascend
  strictly, so no address comes twice.
\<close>

theorem ip_blocks_iteration:
  assumes "ip_blocks_inv blks" and "bs_curr_block blks = 0" and "bs_curr_addr blks = AF_UNSPEC"
    and "length (all_addrs (ip_used blks)) < n"
  shows "\<exists>as blks'. collect ip_blocks_next n blks = Some (as, blks') \<and> set (map addr_key as) = all_keys (ip_used blks)
    \<and> (sorted_wrt apart_blk (ip_used blks) \<longrightarrow>
         sorted_wrt (\<lambda>(f, _, v) (g, _, w). f < g \<or> f = g \<and> v < w) (map addr_key as))
    \<and> mset (ip_blocks_pending blks') = mset as"
proof -
  have "ip_blocks_reset blks = blks" using assms(2,3) by (simp add: ip_blocks_reset_def)
  then have p: "ip_blocks_pending blks = all_addrs (ip_used blks)" using pending_reset [OF assms(1)] by simp
  have ok: "\<forall>b\<in>set (ip_used blks). blk_ok b" using assms(1) by (simp add: ip_blocks_inv_def)
  from ip_blocks.collect_all [OF assms(1), of n] assms(4) p obtain blks' where
    "collect ip_blocks_next n blks = Some (all_addrs (ip_used blks), blks')"
    "mset (ip_blocks_pending blks') = mset (all_addrs (ip_used blks))" by (auto simp: ip_blocks_content_def)
  with all_addrs_keys [OF ok] all_addrs_ascending [OF ok] show ?thesis by auto
qed

theorem ip_blocks_iteration_witness:
  "\<exists>as blks'. collect ip_blocks_next 9 \<lparr>bs_nblocks = 1, bs_blocks = [\<lparr>blk_first = AF_INET 0x7f000001,
      blk_last = AF_INET 0x7f000002\<rparr>], bs_curr_block = 0, bs_curr_addr = AF_UNSPEC\<rparr> = Some (as, blks')
    \<and> set (map addr_key as) = {(2, 0, 0x7f000001), (2, 0, 0x7f000002)}"
proof -
  let ?b = "\<lparr>blk_first = AF_INET 0x7f000001, blk_last = AF_INET 0x7f000002\<rparr>"
  let ?s = "\<lparr>bs_nblocks = 1, bs_blocks = [?b], bs_curr_block = 0, bs_curr_addr = AF_UNSPEC\<rparr>"
  have b: "ip_used ?s = [?b]" "blk_ok ?b" by (simp_all add: ip_used_def blk_ok_def)
  then have "ip_blocks_inv ?s" by (simp add: ip_blocks_inv_def)
  moreover have "length (all_addrs [?b]) = 2"
    by (simp add: all_addrs_def seq_to_def)
  moreover have "{0x7f000001..0x7f000002} = {0x7f000001, 0x7f000002 :: nat}" by auto
  then have "all_keys [?b] = {(2, 0, 0x7f000001), (2, 0, 0x7f000002)}"
    by (auto simp: blk_keys_def zone_def)
  ultimately show ?thesis using ip_blocks_iteration [of ?s 9] b by auto
qed

text \<open>
  A block that ends at the last address is not merged with a block it contains: the
  successor of the last address wraps around to 0. The address 1.2.3.4 stays in the list
  twice.
\<close>

theorem compress_blocks_wraps:
  "compress_blocks \<lparr>bs_nblocks = 2, bs_blocks = [\<lparr>blk_first = AF_INET 0, blk_last = AF_INET 0xffffffff\<rparr>,
      \<lparr>blk_first = AF_INET 0x01020304, blk_last = AF_INET 0x01020304\<rparr>], bs_curr_block = 0, bs_curr_addr = AF_UNSPEC\<rparr>
   = (2, [\<lparr>blk_first = AF_INET 0, blk_last = AF_INET 0xffffffff\<rparr>,
      \<lparr>blk_first = AF_INET 0x01020304, blk_last = AF_INET 0x01020304\<rparr>])"
  by (simp add: compress_blocks_def compress_blocks_loop.simps joins_def diff_zones_def)

end
