(* ===== verification/Ip_R4.thy ===== *)
theory Ip_R4
  imports Ip_Blocks Round_Robin
begin

text \<open>
  The reordered address iterator \<open>ip_r4blocks\<close> of \<^verbatim>\<open>lib/net/ip.c\<close>: the blocks take turns in a
  permuted order; an IPv4 block is gone through by a reordering block, an IPv6 block in order.
\<close>

record ip_r4blocks =
  ib_blocks :: ip_blocks
  ib_blockmap :: "int list"
  ib_ip4blocks :: "reorder32 list"
  ib_ip6_curraddrs :: "ip_addr_t list"
  ib_mapindex :: nat

definition reorder32_zero :: reorder32 where
  "reorder32_zero = \<lparr>r_flags = 0, r_mask = 0, r_first = 0, r_last = 0, r_curr = 0, r_nitems = 0, r_ival = 0\<rparr>"

text \<open>
  The loop that sets up the blocks; the status is -1 for an unsupported family. Both ends of a
  block have the same family.
\<close>

fun setup_loop ::
  "ip_block_t list \<Rightarrow> nat \<Rightarrow> reorder32 list \<Rightarrow> ip_addr_t list \<Rightarrow> status \<times> reorder32 list \<times> ip_addr_t list" where
  "setup_loop [] i ip4 ip6 = (0, ip4, ip6)"
| "setup_loop (b # bs) i ip4 ip6 =
     (case (blk_first b, blk_last b) of
        (AF_INET lo, AF_INET hi) \<Rightarrow> setup_loop bs (Suc i) (ip4[i := reorder32_init lo hi]) ip6
      | (AF_INET6 _ _, _) \<Rightarrow> setup_loop bs (Suc i) ip4 (ip6[i := blk_first b])
      | _ \<Rightarrow> (-1, ip4, ip6))"

definition ip_r4blocks_reset :: "ip_r4blocks \<Rightarrow> (status \<times> ip_r4blocks) option" where
  "ip_r4blocks_reset r4 =
     (let n = bs_nblocks (ib_blocks r4)
      in if n > length (bs_blocks (ib_blocks r4)) then None
         else do {
           tm \<leftarrow> turn_map n;
           let (st, ip4, ip6) = setup_loop (take n (bs_blocks (ib_blocks r4))) 0 (ib_ip4blocks r4) (ib_ip6_curraddrs r4);
           Some (st, r4\<lparr>ib_blockmap := tm, ib_ip4blocks := ip4, ib_ip6_curraddrs := ip6\<rparr>)
         })"

definition ip_r4blocks_zero :: ip_r4blocks where
  "ip_r4blocks_zero = \<lparr>ib_blocks = ip_blocks_zero, ib_blockmap = [], ib_ip4blocks = [], ib_ip6_curraddrs = [],
     ib_mapindex = 0\<rparr>"

text \<open>The three arrays have elements of 4, 28 and 28 bytes.\<close>

definition ip_r4blocks_init :: "allocator \<Rightarrow> ip_blocks \<Rightarrow> (status \<times> ip_r4blocks) option" where
  "ip_r4blocks_init ok blks =
     (let n = bs_nblocks blks
      in if n > 2147483647 then Some (-1, ip_r4blocks_zero)
         else let r4 = ip_r4blocks_zero\<lparr>ib_blocks := blks\<rparr>
         in if n = 0 then Some (0, r4)
         else if \<not> ok (of_nat (4 * n)) \<or> \<not> ok (of_nat (28 * n)) then Some (-1, r4)
         else do {
           (ret, r4) \<leftarrow> ip_r4blocks_reset (r4\<lparr>ib_blockmap := replicate n 0,
              ib_ip4blocks := replicate n reorder32_zero, ib_ip6_curraddrs := replicate n AF_UNSPEC\<rparr>);
           Some (if ret < 0 then (-1, r4) else (0, r4))
         })"

definition ip_r4blocks_cleanup :: "ip_r4blocks \<Rightarrow> ip_r4blocks" where
  "ip_r4blocks_cleanup r4 = ip_r4blocks_zero"

text \<open>
  For a block of another family \<open>*addr\<close> is left alone, here \<^const>\<open>AF_UNSPEC\<close>; the set-up has
  refused such blocks.
\<close>

partial_function (option) ip_r4blocks_next :: "ip_r4blocks \<Rightarrow> (ip_addr_t option \<times> ip_r4blocks) option" where
  "ip_r4blocks_next r4 =
     (if bs_nblocks (ib_blocks r4) = 0 then Some (None, r4)
      else Option.bind (next_turn (ib_blockmap r4) (ib_mapindex r4) (ib_mapindex r4)) (\<lambda>cur.
        if cur = ib_mapindex r4 \<and> ib_blockmap r4 ! cur < 0
        then Option.bind (ip_r4blocks_reset r4) (\<lambda>(_, r4). Some (None, r4))
        else (let r4 = r4\<lparr>ib_mapindex := cur\<rparr>;
                  mapped = nat (ib_blockmap r4 ! cur)
              in if mapped \<ge> length (bs_blocks (ib_blocks r4)) \<or> mapped \<ge> length (ib_ip4blocks r4)
                    \<or> mapped \<ge> length (ib_ip6_curraddrs r4) then None
                 else let blk = bs_blocks (ib_blocks r4) ! mapped
                 in case blk_first blk of
                      AF_INET _ \<Rightarrow>
                        Option.bind (reorder32_next (ib_ip4blocks r4 ! mapped)) (\<lambda>(r, b4).
                          let r4 = r4\<lparr>ib_ip4blocks := (ib_ip4blocks r4)[mapped := b4]\<rparr>
                          in case r of
                               None \<Rightarrow> ip_r4blocks_next (r4\<lparr>ib_blockmap := (ib_blockmap r4)[cur := -1]\<rparr>)
                             | Some next4 \<Rightarrow> Some (Some (AF_INET next4), r4))
                    | AF_INET6 _ _ \<Rightarrow>
                        (let curaddr = ib_ip6_curraddrs r4 ! mapped
                         in if fst (ip_addr_cmp curaddr (blk_last blk)) < 0
                            then Some (Some curaddr,
                              r4\<lparr>ib_ip6_curraddrs := (ib_ip6_curraddrs r4)[mapped := ip_addr_add curaddr 1]\<rparr>)
                            else Some (Some curaddr, r4\<lparr>ib_blockmap := (ib_blockmap r4)[cur := -1]\<rparr>))
                    | AF_UNSPEC \<Rightarrow> Some (Some AF_UNSPEC, r4))))"

section \<open>Invariant\<close>

text \<open>The state of one part: for IPv4 the reordering block, for IPv6 the current address.\<close>

definition ip_part :: "ip_block_t \<Rightarrow> reorder32 \<Rightarrow> ip_addr_t \<Rightarrow> bool" where
  "ip_part b b4 a6 \<longleftrightarrow> blk_ok b \<and>
     (case (blk_first b, blk_last b) of
        (AF_INET lo, AF_INET hi) \<Rightarrow> reorder32_inv b4 \<and> r_first b4 = lo \<and> r_last b4 = hi
      | (AF_INET6 _ _, AF_INET6 _ _) \<Rightarrow> in_blk a6 b
      | _ \<Rightarrow> False)"

definition ip_part_bag :: "ip_block_t \<Rightarrow> reorder32 \<Rightarrow> ip_addr_t \<Rightarrow> ip_addr_t multiset" where
  "ip_part_bag b b4 a6 =
     (case blk_first b of
        AF_INET _ \<Rightarrow> mset (map AF_INET (reorder32_pending b4))
      | _ \<Rightarrow> mset (seq_to a6 (blk_last b)))"

text \<open>A block the set-up can start: an IPv4 block must not be the whole address space.\<close>

definition ip_startable :: "ip_block_t \<Rightarrow> bool" where
  "ip_startable b \<longleftrightarrow> blk_ok b \<and> (\<forall>lo hi. blk_first b = AF_INET lo \<longrightarrow> blk_last b = AF_INET hi \<longrightarrow> hi - lo \<noteq> 0xffffffff)"

definition ip_r4_inv :: "ip_r4blocks \<Rightarrow> bool" where
  "ip_r4_inv r4 \<longleftrightarrow>
     (let bs = ip_used (ib_blocks r4); n = bs_nblocks (ib_blocks r4)
      in n \<le> length (bs_blocks (ib_blocks r4)) \<and> n < 2 ^ 31 \<and> (\<forall>b\<in>set bs. ip_startable b)
       \<and> (0 < n \<longrightarrow> length (ib_blockmap r4) = n \<and> ib_mapindex r4 < n \<and> turns_wf (ib_blockmap r4)
          \<and> length (ib_ip4blocks r4) = n \<and> length (ib_ip6_curraddrs r4) = n
          \<and> (\<forall>j<n. ip_part (bs ! j) (ib_ip4blocks r4 ! j) (ib_ip6_curraddrs r4 ! j))))"

definition ip_r4_bag :: "ip_r4blocks \<Rightarrow> nat \<Rightarrow> ip_addr_t multiset" where
  "ip_r4_bag r4 j = ip_part_bag (ip_used (ib_blocks r4) ! j) (ib_ip4blocks r4 ! j) (ib_ip6_curraddrs r4 ! j)"

definition ip_r4_remaining :: "ip_r4blocks \<Rightarrow> ip_addr_t multiset" where
  "ip_r4_remaining r4 = (if bs_nblocks (ib_blocks r4) = 0 then {#} else \<Sum>j\<in>live (ib_blockmap r4). ip_r4_bag r4 j)"

definition ip_r4_whole :: "ip_r4blocks \<Rightarrow> ip_addr_t multiset" where
  "ip_r4_whole r4 = mset (all_addrs (ip_used (ib_blocks r4)))"

section \<open>Setting up\<close>

lemma ip_seq_inet: "ip_seq (AF_INET a) n = map (\<lambda>k. AF_INET (a + of_nat k)) [0..<n]"
proof (induction n arbitrary: a)
  case (Suc n)
  have "[0..<Suc n] = 0 # map Suc [0..<n]" by (simp add: map_Suc_upt upt_conv_Cons)
  with Suc show ?case by (simp add: comp_def add.assoc del: upt_Suc)
qed simp

lemma start_bag_inet:
  assumes "lo \<le> hi"
  shows "mset (map AF_INET (reorder32_pending (reorder32_init lo hi))) = mset (seq_to (AF_INET lo) (AF_INET hi))"
proof -
  let ?f = "\<lambda>k. lo + of_nat k :: u32" and ?n = "Suc (unat hi) - unat lo"
  have n: "?n = Suc (unat (hi - lo))" using assms by (simp add: unat_sub word_le_nat_alt Suc_diff_le)
  have "inj_on ?f {0..<?n}"
  proof (rule inj_onI)
    fix v w assume vw: "v \<in> {0..<?n}" "w \<in> {0..<?n}" "?f v = ?f w"
    then have "unat (of_nat v :: u32) = unat (of_nat w :: u32)" by simp
    with vw(1,2) n unat_less_exp [of "hi - lo"] show "v = w" by (simp add: unat_of_nat_small)
  qed
  moreover have "mset [0..<?n] = mset_set {0..<?n}"
    using mset_set_set [of "[0..<?n]"] by simp
  ultimately have "mset (map ?f [0..<?n]) = mset_set (?f ` {0..<?n})"
    unfolding mset_map by (simp only: image_mset_mset_set)
  also have "?f ` {0..<?n} = {lo..hi}"
    using interval_offsets [OF assms] unfolding n by (simp add: atLeastLessThanSuc_atLeastAtMost)
  finally have "mset (map ?f [0..<?n]) = mset (reorder32_pending (reorder32_init lo hi))"
    using reorder32_pending_init [of lo hi] assms by (simp add: min_def max_def)
  moreover have "seq_to (AF_INET lo) (AF_INET hi) = map AF_INET (map ?f [0..<?n])"
    by (simp add: seq_to_def ip_seq_inet comp_def)
  ultimately show ?thesis by (metis mset_map)
qed

definition started :: "ip_block_t \<Rightarrow> reorder32 \<Rightarrow> ip_addr_t \<Rightarrow> bool" where
  "started b b4 a6 \<longleftrightarrow> ip_part b b4 a6 \<and> ip_part_bag b b4 a6 = mset (seq_to (blk_first b) (blk_last b))"

lemma started_inet:
  assumes "ip_startable b" and "blk_first b = AF_INET lo" and "blk_last b = AF_INET hi"
  shows "started b (reorder32_init lo hi) a6"
proof -
  have ok: "blk_ok b" and le: "lo \<le> hi" and ne: "hi - lo \<noteq> 0xffffffff"
    using assms by (simp_all add: ip_startable_def blk_ok_def word_le_nat_alt)
  have "reorder32_inv (reorder32_init lo hi)" using ne le by (intro reorder32_init_inv) (simp add: min_def max_def)
  moreover have "r_first (reorder32_init lo hi) = lo" "r_last (reorder32_init lo hi) = hi"
    using le by (auto simp: reorder32_init_def Let_def)
  ultimately show ?thesis
    using ok assms(2,3) start_bag_inet [OF le] by (simp add: started_def ip_part_def ip_part_bag_def)
qed

lemma started_inet6:
  assumes "ip_startable b" and "blk_first b = AF_INET6 ws z"
  shows "started b b4 (blk_first b)"
proof -
  have ok: "blk_ok b" using assms(1) by (simp add: ip_startable_def)
  then obtain vs y where "blk_last b = AF_INET6 vs y" using assms(2) by (cases "blk_last b") (auto simp: blk_ok_def)
  with assms(2) ok in_blk_first [OF ok] show ?thesis by (simp add: started_def ip_part_def ip_part_bag_def)
qed

lemma setup_loop_starts:
  assumes "\<forall>b\<in>set bs. ip_startable b" and "i + length bs \<le> length ip4" and "length ip6 = length ip4"
  shows "\<exists>ip4' ip6'. setup_loop bs i ip4 ip6 = (0, ip4', ip6') \<and> length ip4' = length ip4 \<and> length ip6' = length ip4
    \<and> (\<forall>j<length bs. started (bs ! j) (ip4' ! (i + j)) (ip6' ! (i + j)))
    \<and> (\<forall>k<i. ip4' ! k = ip4 ! k \<and> ip6' ! k = ip6 ! k)"
  using assms
proof (induction bs arbitrary: i ip4 ip6)
  case (Cons b bs)
  have st: "ip_startable b" using Cons.prems(1) by simp
  have il: "i < length ip4" using Cons.prems(2) by simp
  obtain ip4a ip6a where step: "setup_loop (b # bs) i ip4 ip6 = setup_loop bs (Suc i) ip4a ip6a"
    "length ip4a = length ip4" "length ip6a = length ip4" "started b (ip4a ! i) (ip6a ! i)"
    "\<forall>k<i. ip4a ! k = ip4 ! k \<and> ip6a ! k = ip6 ! k"
  proof (cases "blk_first b")
    case (AF_INET lo)
    then obtain hi where hi: "blk_last b = AF_INET hi"
      using st by (cases "blk_last b") (auto simp: ip_startable_def blk_ok_def)
    show thesis
      using AF_INET hi started_inet [OF st AF_INET hi] il Cons.prems(3)
      by (intro that [of "ip4[i := reorder32_init lo hi]" ip6]) simp_all
  next
    case (AF_INET6 ws z)
    show thesis
      using AF_INET6 started_inet6 [OF st AF_INET6] il Cons.prems(3)
      by (intro that [of ip4 "ip6[i := blk_first b]"]) simp_all
  qed (use st in \<open>simp add: ip_startable_def blk_ok_def\<close>)
  from Cons.IH [of "Suc i" ip4a ip6a] Cons.prems step(2,3) obtain ip4' ip6' where
    r: "setup_loop bs (Suc i) ip4a ip6a = (0, ip4', ip6')" "length ip4' = length ip4" "length ip6' = length ip4"
      "\<forall>j<length bs. started (bs ! j) (ip4' ! (Suc i + j)) (ip6' ! (Suc i + j))"
      "\<forall>k<Suc i. ip4' ! k = ip4a ! k \<and> ip6' ! k = ip6a ! k" by auto
  have "started ((b # bs) ! j) (ip4' ! (i + j)) (ip6' ! (i + j))" if "j < length (b # bs)" for j
    using that r(4,5) step(4) by (cases j) auto
  moreover have "\<forall>k<i. ip4' ! k = ip4 ! k \<and> ip6' ! k = ip6 ! k" using r(5) step(5) by simp
  ultimately show ?case using r(1-3) step(1) by (intro exI [of _ ip4'] exI [of _ ip6']) simp
qed simp

lemma mset_all_addrs:
  "mset (all_addrs bs) = (\<Sum>j\<in>{0..<length bs}. mset (seq_to (blk_first (bs ! j)) (blk_last (bs ! j))))"
  by (induction bs) (simp_all add: all_addrs_def sum.atLeast0_lessThan_Suc_shift del: sum.op_ivl_Suc)

lemma ip_reset_r4:
  assumes wf: "bs_nblocks (ib_blocks r4) \<le> length (bs_blocks (ib_blocks r4))"
    and n: "0 < bs_nblocks (ib_blocks r4)" "bs_nblocks (ib_blocks r4) < 2 ^ 31"
    and st: "\<forall>b\<in>set (ip_used (ib_blocks r4)). ip_startable b"
    and l: "length (ib_ip4blocks r4) = bs_nblocks (ib_blocks r4)" "length (ib_ip6_curraddrs r4) = bs_nblocks (ib_blocks r4)"
      "ib_mapindex r4 < bs_nblocks (ib_blocks r4)"
  obtains r4' where "ip_r4blocks_reset r4 = Some (0, r4')" and "ip_r4_inv r4'"
    and "ip_r4_remaining r4' = ip_r4_whole r4" and "ib_blocks r4' = ib_blocks r4"
proof -
  let ?n = "bs_nblocks (ib_blocks r4)" and ?bs = "ip_used (ib_blocks r4)"
  have lb: "length ?bs = ?n" using wf by (simp add: ip_used_def)
  obtain tm where tm: "turn_map ?n = Some tm" "length tm = ?n" "turns_wf tm" "live tm = {0..<?n}"
    using turn_map_permutation [OF n] by blast
  from setup_loop_starts [OF st, of 0 "ib_ip4blocks r4" "ib_ip6_curraddrs r4"] l lb obtain ip4 ip6 where
    s: "setup_loop ?bs 0 (ib_ip4blocks r4) (ib_ip6_curraddrs r4) = (0, ip4, ip6)" "length ip4 = ?n" "length ip6 = ?n"
      "\<forall>j<?n. started (?bs ! j) (ip4 ! j) (ip6 ! j)" by auto
  define r4' where "r4' = r4\<lparr>ib_blockmap := tm, ib_ip4blocks := ip4, ib_ip6_curraddrs := ip6\<rparr>"
  have "ip_r4blocks_reset r4 = Some (0, r4')"
    using wf tm(1) s(1) by (simp add: ip_r4blocks_reset_def Let_def r4'_def ip_used_def)
  moreover have "ip_r4_inv r4'"
    using wf n st tm s l(3) by (simp add: ip_r4_inv_def r4'_def Let_def started_def)
  moreover have "ip_r4_remaining r4' = (\<Sum>j\<in>{0..<?n}. mset (seq_to (blk_first (?bs ! j)) (blk_last (?bs ! j))))"
    using n(1) tm(4) s(4) by (simp add: ip_r4_remaining_def ip_r4_bag_def r4'_def started_def)
  ultimately show thesis
    using mset_all_addrs [of ?bs] lb by (intro that [of r4']) (simp_all add: ip_r4_whole_def r4'_def)
qed

text \<open>One turn of a live part.\<close>

lemma ip_part_turn:
  assumes "ip_part b b4 a6"
  obtains (ip4) lo v b4' where "blk_first b = AF_INET lo" "reorder32_next b4 = Some (Some v, b4')" "ip_part b b4' a6"
      "ip_part_bag b b4 a6 = add_mset (AF_INET v) (ip_part_bag b b4' a6)"
  | (over4) lo b4' where "blk_first b = AF_INET lo" "reorder32_next b4 = Some (None, b4')" "ip_part b b4' a6"
      "ip_part_bag b b4 a6 = {#}"
  | (ip6) ws z where "blk_first b = AF_INET6 ws z" "fst (ip_addr_cmp a6 (blk_last b)) < 0"
      "ip_part b b4 (ip_addr_add a6 1)" "ip_part_bag b b4 a6 = add_mset a6 (ip_part_bag b b4 (ip_addr_add a6 1))"
  | (last6) ws z where "blk_first b = AF_INET6 ws z" "\<not> fst (ip_addr_cmp a6 (blk_last b)) < 0"
      "ip_part_bag b b4 a6 = {#a6#}"
proof (cases "blk_first b")
  case (AF_INET lo)
  then obtain hi where hi: "blk_last b = AF_INET hi" using assms by (cases "blk_last b") (auto simp: ip_part_def)
  have inv: "reorder32_inv b4" "r_first b4 = lo" "r_last b4 = hi" using assms AF_INET hi by (simp_all add: ip_part_def)
  show thesis
  proof (cases "unat (r_ival b4) \<le> unat (r_nitems b4)")
    case True
    from reorder32_next_pending [OF inv(1) True] obtain v vs b4' where
      "reorder32_pending b4 = v # vs" "reorder32_next b4 = Some (Some v, b4')" "reorder32_inv b4'"
      "reorder32_pending b4' = vs" "r_first b4' = lo" "r_last b4' = hi" using inv by auto
    with assms AF_INET hi show thesis by (intro ip4 [of lo v b4']) (simp_all add: ip_part_def ip_part_bag_def)
  next
    case False
    let ?b = "reorder32_init lo hi"
    have le: "lo \<le> hi" using assms AF_INET hi by (simp add: ip_part_def blk_ok_def word_le_nat_alt)
    have "reorder32_next b4 = Some (None, ?b)"
      using False inv by (simp add: reorder32_next_def word_less_nat_alt)
    moreover have "ip_part b ?b a6"
      using assms AF_INET hi le reorder32_init_again [OF inv(1)] inv(2,3)
      by (auto simp: ip_part_def reorder32_init_def Let_def)
    ultimately show thesis using AF_INET False by (intro over4 [of lo ?b]) (simp_all add: ip_part_bag_def reorder32_pending_def)
  qed
next
  case (AF_INET6 ws z)
  then have ok: "blk_ok b" and ia: "in_blk a6 b" using assms by (auto simp: ip_part_def split: ip_addr_t.splits)
  show thesis
  proof (cases "ip_val a6 < ip_val (blk_last b)")
    case True
    with AF_INET6 assms ok ia in_blk_cmp [OF ok ia] in_blk_succ [OF ok ia True] seq_to_step [OF ok ia] show thesis
      by (intro ip6 [of ws z]) (auto simp: ip_part_def ip_part_bag_def split: ip_addr_t.splits)
  next
    case False
    with AF_INET6 in_blk_cmp [OF ok ia] seq_to_step [OF ok ia] show thesis
      by (intro last6 [of ws z]) (simp_all add: ip_part_bag_def)
  qed
qed (use assms in \<open>simp add: ip_part_def\<close>)

definition ip_r4_step :: "ip_r4blocks \<Rightarrow> (ip_addr_t option \<times> ip_r4blocks) option \<Rightarrow> bool" where
  "ip_r4_step r4 res \<longleftrightarrow>
     (\<exists>r r4'. res = Some (r, r4') \<and> ip_r4_inv r4' \<and> ib_blocks r4' = ib_blocks r4 \<and>
        (case r of
           Some v \<Rightarrow> ip_r4_remaining r4 = add_mset v (ip_r4_remaining r4')
         | None \<Rightarrow> ip_r4_remaining r4 = {#} \<and> ip_r4_remaining r4' = ip_r4_whole r4))"

text \<open>The state after a turn: part \<open>j\<close> has moved on, and its turn \<open>c\<close> may be depleted.\<close>

lemma ip_r4_update:
  assumes inv: "ip_r4_inv r4" and n: "0 < bs_nblocks (ib_blocks r4)"
    and c: "c < length (ib_blockmap r4)" "0 \<le> ib_blockmap r4 ! c" and j: "j = nat (ib_blockmap r4 ! c)"
    and p: "ip_part (ip_used (ib_blocks r4) ! j) b4 a6"
  defines "r4' \<equiv> r4\<lparr>ib_mapindex := c, ib_ip4blocks := (ib_ip4blocks r4)[j := b4],
      ib_ip6_curraddrs := (ib_ip6_curraddrs r4)[j := a6]\<rparr>"
  defines "rest \<equiv> \<Sum>i\<in>live (ib_blockmap r4) - {j}. ip_r4_bag r4 i"
  shows "ip_r4_inv r4'" and "ip_r4_inv (r4'\<lparr>ib_blockmap := (ib_blockmap r4)[c := -1]\<rparr>)"
    and "ip_r4_remaining r4' = ip_part_bag (ip_used (ib_blocks r4) ! j) b4 a6 + rest"
    and "ip_r4_remaining (r4'\<lparr>ib_blockmap := (ib_blockmap r4)[c := -1]\<rparr>) = rest"
    and "ip_r4_remaining r4 = ip_r4_bag r4 j + rest"
proof -
  have i: "turns_wf (ib_blockmap r4)" "length (ib_blockmap r4) = bs_nblocks (ib_blocks r4)"
      "length (ib_ip4blocks r4) = bs_nblocks (ib_blocks r4)" "length (ib_ip6_curraddrs r4) = bs_nblocks (ib_blocks r4)"
      "\<forall>k<bs_nblocks (ib_blocks r4). ip_part (ip_used (ib_blocks r4) ! k) (ib_ip4blocks r4 ! k) (ib_ip6_curraddrs r4 ! k)"
    using inv n by (simp_all add: ip_r4_inv_def Let_def)
  have jl: "j \<in> live (ib_blockmap r4)" unfolding j using c by (rule live_nth)
  have jn: "j < bs_nblocks (ib_blocks r4)" using live_bound [OF i(1) jl] i(2) by simp
  note d = deplete [OF i(1) c, folded j]
  have parts: "\<forall>k<bs_nblocks (ib_blocks r4). ip_part (ip_used (ib_blocks r4) ! k)
      ((ib_ip4blocks r4)[j := b4] ! k) ((ib_ip6_curraddrs r4)[j := a6] ! k)"
    using i(3-5) p jn by (auto simp: nth_list_update)
  show "ip_r4_inv r4'" "ip_r4_inv (r4'\<lparr>ib_blockmap := (ib_blockmap r4)[c := -1]\<rparr>)"
    using inv n i c(1) d(1) parts by (simp_all add: r4'_def ip_r4_inv_def Let_def)
  have others: "(\<Sum>k\<in>live (ib_blockmap r4) - {j}. ip_r4_bag r4' k) = rest"
    unfolding rest_def by (rule sum.cong) (auto simp: ip_r4_bag_def r4'_def)
  have bj: "ip_r4_bag r4' j = ip_part_bag (ip_used (ib_blocks r4) ! j) b4 a6"
    using jn i(3,4) by (simp add: ip_r4_bag_def r4'_def)
  show "ip_r4_remaining r4 = ip_r4_bag r4 j + rest"
    using n jl by (simp add: ip_r4_remaining_def rest_def sum.remove)
  have bm: "ib_blockmap r4' = ib_blockmap r4" "ib_blocks r4' = ib_blocks r4" by (simp_all add: r4'_def)
  show "ip_r4_remaining r4' = ip_part_bag (ip_used (ib_blocks r4) ! j) b4 a6 + rest"
    using n jl others bj by (simp add: ip_r4_remaining_def bm sum.remove)
  have "ip_r4_bag (r4'\<lparr>ib_blockmap := (ib_blockmap r4)[c := -1]\<rparr>) = ip_r4_bag r4'"
    by (simp add: fun_eq_iff ip_r4_bag_def)
  then show "ip_r4_remaining (r4'\<lparr>ib_blockmap := (ib_blockmap r4)[c := -1]\<rparr>) = rest"
    using n others d(2) by (simp add: ip_r4_remaining_def bm)
qed

lemma ip_r4blocks_next_step:
  assumes "ip_r4_inv r4" and "0 < bs_nblocks (ib_blocks r4)"
  shows "ip_r4_step r4 (ip_r4blocks_next r4)"
  using assms
proof (induction "card (live (ib_blockmap r4))" arbitrary: r4 rule: less_induct)
  case less
  let ?tm = "ib_blockmap r4" and ?i = "ib_mapindex r4" and ?bs = "ip_used (ib_blocks r4)"
  have inv: "turns_wf ?tm" "?i < length ?tm" "length ?tm = bs_nblocks (ib_blocks r4)"
      "length (ib_ip4blocks r4) = bs_nblocks (ib_blocks r4)" "length (ib_ip6_curraddrs r4) = bs_nblocks (ib_blocks r4)"
      "bs_nblocks (ib_blocks r4) \<le> length (bs_blocks (ib_blocks r4))" "bs_nblocks (ib_blocks r4) < 2 ^ 31"
      "\<forall>b\<in>set ?bs. ip_startable b"
      "\<forall>k<bs_nblocks (ib_blocks r4). ip_part (?bs ! k) (ib_ip4blocks r4 ! k) (ib_ip6_curraddrs r4 ! k)"
    using less.prems by (simp_all add: ip_r4_inv_def Let_def)
  from inv(2) show ?case
  proof (cases rule: next_turn_finds)
    case 2
    from inv(2,3) have "?i < bs_nblocks (ib_blocks r4)" by simp
    from ip_reset_r4 [OF inv(6) less.prems(2) inv(7,8,4,5) this] obtain r4' where
      r: "ip_r4blocks_reset r4 = Some (0, r4')" "ip_r4_inv r4'"
      "ip_r4_remaining r4' = ip_r4_whole r4" "ib_blocks r4' = ib_blocks r4" by blast
    have "ip_r4_remaining r4 = {#}" using 2 by (simp add: ip_r4_remaining_def)
    moreover have "ip_r4blocks_next r4 = Some (None, r4')"
      using 2 r(1) less.prems by (subst ip_r4blocks_next.simps) simp
    ultimately show ?thesis using r by (simp add: ip_r4_step_def)
  next
    case (1 c)
    define j where "j = nat (?tm ! c)"
    define b where "b = ?bs ! j"
    let ?b4 = "ib_ip4blocks r4 ! j" and ?a6 = "ib_ip6_curraddrs r4 ! j"
    have jl: "j \<in> live ?tm" unfolding j_def using 1(2,3) by (rule live_nth)
    have jn: "j < bs_nblocks (ib_blocks r4)" using live_bound [OF inv(1) jl] inv(3) by simp
    have bj: "bs_blocks (ib_blocks r4) ! j = b" using jn by (simp add: b_def ip_used_def)
    have part: "ip_part b ?b4 ?a6" using inv(9) jn by (simp add: b_def)
    note upd = ip_r4_update [OF less.prems 1(2,3) j_def, folded b_def]
    have same4: "(ib_ip4blocks r4)[j := ?b4] = ib_ip4blocks r4" and same6: "(ib_ip6_curraddrs r4)[j := ?a6] = ib_ip6_curraddrs r4"
      by simp_all
    have bag: "ip_r4_bag r4 j = ip_part_bag b ?b4 ?a6" by (simp add: ip_r4_bag_def b_def)
    note step = ip_r4blocks_next.simps [of r4]
    from part show ?thesis
    proof (cases rule: ip_part_turn)
      case (ip4 lo v b4)
      let ?r4 = "r4\<lparr>ib_mapindex := c, ib_ip4blocks := (ib_ip4blocks r4)[j := b4]\<rparr>"
      have n: "ip_r4blocks_next r4 = Some (Some (AF_INET v), ?r4)"
        using 1 less.prems(2) jn inv(4-6) ip4(1,2) bj by (subst step) (simp add: j_def [symmetric] Let_def)
      from upd [OF ip4(3)] ip4(4) bag n show ?thesis by (simp add: ip_r4_step_def same6)
    next
      case (over4 lo b4)
      let ?r4 = "r4\<lparr>ib_mapindex := c, ib_ip4blocks := (ib_ip4blocks r4)[j := b4], ib_blockmap := ?tm[c := -1]\<rparr>"
      have n: "ip_r4blocks_next r4 = ip_r4blocks_next ?r4"
        using 1 less.prems(2) jn inv(4-6) over4(1,2) bj by (subst step) (simp add: j_def [symmetric] Let_def)
      have u: "ip_r4_inv ?r4" "ip_r4_remaining ?r4 = ip_r4_remaining r4"
        using upd [OF over4(3)] over4(4) bag by (simp_all add: same6)
      have "card (live (ib_blockmap ?r4)) < card (live ?tm)"
        using card_Diff1_less [OF finite_live jl] deplete(2) [OF inv(1) 1(2,3)] by (simp add: j_def)
      then have ih: "ip_r4_step ?r4 (ip_r4blocks_next ?r4)" using u(1) less.prems(2) by (intro less.hyps) simp_all
      have w: "ip_r4_whole ?r4 = ip_r4_whole r4" "ib_blocks ?r4 = ib_blocks r4" by (simp_all add: ip_r4_whole_def)
      from ih show ?thesis unfolding ip_r4_step_def u(2) w n .
    next
      case (ip6 ws z)
      let ?r4 = "r4\<lparr>ib_mapindex := c, ib_ip6_curraddrs := (ib_ip6_curraddrs r4)[j := ip_addr_add ?a6 1]\<rparr>"
      have n: "ip_r4blocks_next r4 = Some (Some ?a6, ?r4)"
        using 1 less.prems(2) jn inv(4-6) ip6(1,2) bj by (subst step) (simp add: j_def [symmetric] Let_def)
      from upd [OF ip6(3)] ip6(4) bag n show ?thesis by (simp add: ip_r4_step_def same4)
    next
      case (last6 ws z)
      let ?r4 = "r4\<lparr>ib_mapindex := c, ib_blockmap := ?tm[c := -1]\<rparr>"
      have n: "ip_r4blocks_next r4 = Some (Some ?a6, ?r4)"
        using 1 less.prems(2) jn inv(4-6) last6(1,2) bj by (subst step) (simp add: j_def [symmetric] Let_def)
      from upd [OF part] last6(3) bag n show ?thesis by (simp add: ip_r4_step_def same4 same6)
    qed
  qed
qed

interpretation ip_r4: bag_iterator ip_r4_inv ip_r4_remaining ip_r4_whole ip_r4blocks_next
proof
  fix r4 assume inv: "ip_r4_inv r4" and "ip_r4_remaining r4 \<noteq> {#}"
  then have "0 < bs_nblocks (ib_blocks r4)" by (auto simp: ip_r4_remaining_def split: if_splits)
  from ip_r4blocks_next_step [OF inv this] \<open>ip_r4_remaining r4 \<noteq> {#}\<close>
  show "\<exists>v s'. ip_r4blocks_next r4 = Some (Some v, s') \<and> ip_r4_inv s' \<and>
      ip_r4_remaining r4 = add_mset v (ip_r4_remaining s') \<and> ip_r4_whole s' = ip_r4_whole r4"
    by (auto simp: ip_r4_step_def ip_r4_whole_def split: option.splits)
next
  fix r4 assume inv: "ip_r4_inv r4" and e: "ip_r4_remaining r4 = {#}"
  show "\<exists>s'. ip_r4blocks_next r4 = Some (None, s') \<and> ip_r4_inv s' \<and>
      ip_r4_remaining s' = ip_r4_whole r4 \<and> ip_r4_whole s' = ip_r4_whole r4"
  proof (cases "bs_nblocks (ib_blocks r4) = 0")
    case True
    then have "ip_used (ib_blocks r4) = []" by (simp add: ip_used_def)
    with True inv e show ?thesis
      by (subst ip_r4blocks_next.simps) (simp add: ip_r4_whole_def all_addrs_def)
  next
    case False
    then have "0 < bs_nblocks (ib_blocks r4)" by simp
    from ip_r4blocks_next_step [OF inv this] e show ?thesis
      by (auto simp: ip_r4_step_def ip_r4_whole_def split: option.splits)
  qed
qed

section \<open>Properties\<close>

text \<open>
  C9. The reordered address iterator returns the same addresses as the blocks contain, each
  as often as the blocks contain it, and then reports the end; every call returns and the next
  cycle returns them again. IPv4 blocks must not be the whole address space.
\<close>

theorem ip_r4blocks_permutation:
  assumes "ip_blocks_inv blks" and "bs_nblocks blks < 2 ^ 31" and "\<forall>b\<in>set (ip_used blks). ip_startable b"
    and "ok (of_nat (4 * bs_nblocks blks))" and "ok (of_nat (28 * bs_nblocks blks))"
    and "length (all_addrs (ip_used blks)) < n"
  shows "\<exists>r4 as r4'. ip_r4blocks_init ok blks = Some (0, r4) \<and> collect ip_r4blocks_next n r4 = Some (as, r4')
    \<and> mset as = mset (all_addrs (ip_used blks)) \<and> ip_r4_remaining r4' = mset as"
proof -
  let ?n = "bs_nblocks blks"
  have "\<exists>r4. ip_r4blocks_init ok blks = Some (0, r4) \<and> ip_r4_inv r4
      \<and> ip_r4_remaining r4 = mset (all_addrs (ip_used blks)) \<and> ib_blocks r4 = blks"
  proof (cases "?n = 0")
    case True
    then show ?thesis
      using assms(2) by (simp add: ip_r4blocks_init_def Let_def ip_r4_inv_def ip_r4_remaining_def ip_used_def all_addrs_def)
  next
    case False
    let ?r0 = "ip_r4blocks_zero\<lparr>ib_blocks := blks, ib_blockmap := replicate ?n 0,
        ib_ip4blocks := replicate ?n reorder32_zero, ib_ip6_curraddrs := replicate ?n AF_UNSPEC\<rparr>"
    obtain r4 where r: "ip_r4blocks_reset ?r0 = Some (0, r4)" "ip_r4_inv r4" "ip_r4_remaining r4 = ip_r4_whole ?r0"
        "ib_blocks r4 = blks"
    proof (rule ip_reset_r4 [of ?r0])
    qed (use assms False in \<open>auto simp: ip_blocks_inv_def ip_r4blocks_zero_def\<close>)
    then have "ip_r4blocks_init ok blks = Some (0, r4)"
      using assms(2,4,5) False by (simp add: ip_r4blocks_init_def Let_def)
    with r show ?thesis by (simp add: ip_r4_whole_def)
  qed
  then obtain r4 where r: "ip_r4blocks_init ok blks = Some (0, r4)" "ip_r4_inv r4"
      "ip_r4_remaining r4 = mset (all_addrs (ip_used blks))" "ib_blocks r4 = blks" by blast
  then have "size (ip_r4_remaining r4) < n" "ip_r4_whole r4 = mset (all_addrs (ip_used blks))"
    using assms(6) by (simp_all add: ip_r4_whole_def)
  with ip_r4.collect_bag [OF r(2), of n] r show ?thesis by auto
qed

theorem ip_r4blocks_permutation_witness:
  "\<exists>r4 as r4'. ip_r4blocks_init tib_alloc \<lparr>bs_nblocks = 1, bs_blocks = [\<lparr>blk_first = AF_INET 0x7f000001,
      blk_last = AF_INET 0x7f000002\<rparr>], bs_curr_block = 0, bs_curr_addr = AF_UNSPEC\<rparr> = Some (0, r4)
    \<and> collect ip_r4blocks_next 5 r4 = Some (as, r4') \<and> mset as = {#AF_INET 0x7f000001, AF_INET 0x7f000002#}"
proof -
  let ?b = "\<lparr>blk_first = AF_INET 0x7f000001, blk_last = AF_INET 0x7f000002\<rparr>"
  let ?s = "\<lparr>bs_nblocks = 1, bs_blocks = [?b], bs_curr_block = 0, bs_curr_addr = AF_UNSPEC\<rparr>"
  have b: "ip_used ?s = [?b]" "blk_ok ?b" "ip_startable ?b" by (simp_all add: ip_used_def blk_ok_def ip_startable_def)
  then have inv: "ip_blocks_inv ?s" by (simp add: ip_blocks_inv_def)
  have a: "all_addrs [?b] = [AF_INET 0x7f000001, AF_INET 0x7f000002]"
    by (simp add: all_addrs_def seq_to_def ip_seq_inet upt_conv_Cons)
  have "\<exists>r4 as r4'. ip_r4blocks_init tib_alloc ?s = Some (0, r4) \<and> collect ip_r4blocks_next 5 r4 = Some (as, r4')
    \<and> mset as = mset (all_addrs (ip_used ?s)) \<and> ip_r4_remaining r4' = mset as"
    by (rule ip_r4blocks_permutation [OF inv]) (simp_all add: b [simplified] a tib_alloc_def)
  then show ?thesis unfolding b(1) a by auto
qed

end
