(* ===== verification/Robin_Hood.thy ===== *)
theory Robin_Hood
  imports Yans_Prelude "HOL-Library.Multiset"
begin

text \<open>
  Open addressing with linear probing and displacement of the entries closer to their home
  slot. The id table, the object table and the deduplication table of lib/util carry the same
  three loops over an array of entries whose size is a power of two: probing for a key,
  inserting with displacement and, for the first two, closing the gap of a removed entry.
  The theory models each loop once, with the tests the tables make on an entry as arguments,
  and proves them against an invariant of the array seen as a cyclic sequence of slots.
\<close>

section \<open>The slots of a table\<close>

text \<open>
  A slot is vacant or holds a payload and its distance from the home slot. Its rank is 0 when
  vacant and one more than the distance otherwise.
\<close>

type_synonym 'p slot = "('p \<times> nat) option"

fun rk :: "'p slot \<Rightarrow> nat" where
  "rk None = 0"
| "rk (Some (p, d)) = Suc d"

definition cell :: "'p slot list \<Rightarrow> nat \<Rightarrow> 'p slot" where
  "cell t i = t ! (i mod length t)"

definition rank :: "'p slot list \<Rightarrow> nat \<Rightarrow> nat" where
  "rank t i = rk (cell t i)"

text \<open>Along the table the rank rises by at most one per slot, cyclically.\<close>

definition rising :: "'p slot list \<Rightarrow> bool" where
  "rising t \<longleftrightarrow> (\<forall>i < length t. rank t (Suc i) \<le> Suc (rank t i))"

definition placed :: "('p \<Rightarrow> nat) \<Rightarrow> 'p slot list \<Rightarrow> bool" where
  "placed home t \<longleftrightarrow> (\<forall>i < length t. case t ! i of None \<Rightarrow> True
     | Some (p, d) \<Rightarrow> d < length t \<and> (home p + d) mod length t = i)"

definition anchored :: "'p slot list \<Rightarrow> bool" where
  "anchored t \<longleftrightarrow> (\<exists>i < length t. rank t i \<le> 1)"

text \<open>The payloads of the table, and that no two of them are the same for the table.\<close>

fun pay :: "'p slot \<Rightarrow> 'p multiset" where
  "pay None = {#}"
| "pay (Some (p, d)) = {#p#}"

definition load :: "'p slot list \<Rightarrow> 'p multiset" where
  "load t = sum_list (map pay t)"

definition uniq :: "('p \<Rightarrow> 'p \<Rightarrow> bool) \<Rightarrow> 'p multiset \<Rightarrow> bool" where
  "uniq same M \<longleftrightarrow> (\<forall>p q. {#p, q#} \<subseteq># M \<longrightarrow> \<not> same p q)"

definition rh_inv :: "('p \<Rightarrow> nat) \<Rightarrow> ('p \<Rightarrow> 'p \<Rightarrow> bool) \<Rightarrow> 'p slot list \<Rightarrow> bool" where
  "rh_inv home same t \<longleftrightarrow> t \<noteq> [] \<and> placed home t \<and> rising t \<and> anchored t \<and> uniq same (load t)"

subsection \<open>Cyclic indices\<close>

lemma cell_mod [simp]: "cell t (i mod length t) = cell t i"
  by (simp add: cell_def)

lemma rank_mod [simp]: "rank t (i mod length t) = rank t i"
  by (simp add: rank_def)

lemma rank_round: "rank t (i + length t) = rank t i"
  by (metis rank_mod mod_add_self2)

lemma cell_cong: "i mod length t = j mod length t \<Longrightarrow> cell t i = cell t j"
  by (simp add: cell_def)

lemma cell_less: "i < length t \<Longrightarrow> cell t i = t ! i"
  by (simp add: cell_def)

lemma length_pos: "t \<noteq> [] \<Longrightarrow> i mod length t < length t"
  by simp

lemma cell_update: "t \<noteq> [] \<Longrightarrow> cell (t[i mod length t := v]) j
    = (if j mod length t = i mod length t then v else cell t j)"
  by (simp add: cell_def)

lemma rank_update: "t \<noteq> [] \<Longrightarrow> rank (t[i mod length t := v]) j
    = (if j mod length t = i mod length t then rk v else rank t j)"
  by (simp add: rank_def cell_update)

lemma rk_eq_0 [simp]: "rk s = 0 \<longleftrightarrow> s = None"
  by (cases s) auto

lemma rank_0: "rank t i = 0 \<longleftrightarrow> cell t i = None"
  by (simp add: rank_def)

lemma add_mod_cancel: "(h + i) mod n = (h + j) mod n \<longleftrightarrow> i mod n = j mod n" for h i j n :: nat
  by (simp only: nat_mod_eq_iff add.assoc add_left_cancel)

lemma offset_inj: "(h + i) mod n = (h + j) mod n \<longleftrightarrow> i = j" if "i < n" "j < n" for h i j n :: nat
  using that by (simp add: add_mod_cancel)

lemma Suc_mod_cong: "i mod n = j mod n \<Longrightarrow> Suc i mod n = Suc j mod n" for n :: nat
  by (metis mod_Suc_eq)

lemma Suc_mod_inj: "Suc i mod n = Suc j mod n \<Longrightarrow> i mod n = j mod n" for n :: nat
  using add_mod_cancel [of 1 i n j] by simp

lemma risingD: "rising t \<Longrightarrow> t \<noteq> [] \<Longrightarrow> rank t (Suc i) \<le> Suc (rank t i)"
proof -
  assume r: "rising t" and t: "t \<noteq> []"
  have "rank t (Suc (i mod length t)) \<le> Suc (rank t (i mod length t))"
    using r length_pos [OF t] unfolding rising_def by blast
  then show ?thesis by (metis rank_mod mod_Suc_eq)
qed

lemma rank_span: "rising t \<Longrightarrow> t \<noteq> [] \<Longrightarrow> rank t (i + j) \<le> rank t i + j"
proof (induction j)
  case (Suc j)
  then have "rank t (Suc (i + j)) \<le> Suc (rank t (i + j))" using risingD by blast
  with Suc show ?case by simp
qed simp

lemma placedD:
  assumes "placed home t" "t \<noteq> []" "cell t i = Some (p, d)"
  shows "d < length t" "(home p + d) mod length t = i mod length t"
proof -
  have "case t ! (i mod length t) of None \<Rightarrow> True
    | Some (p, d) \<Rightarrow> d < length t \<and> (home p + d) mod length t = i mod length t"
    using assms(1) length_pos [OF assms(2)] unfolding placed_def by blast
  then show "d < length t" "(home p + d) mod length t = i mod length t"
    using assms(3) by (simp_all add: cell_def)
qed

subsection \<open>Updates of one slot\<close>

lemma rising_raise:
  assumes "rising t" "t \<noteq> []" "rank t (Suc y) \<le> rk v" "rk v \<le> Suc (rank t y)"
  shows "rising (t[Suc y mod length t := v])"
  unfolding rising_def
proof (intro allI impI)
  fix i
  show "rank (t[Suc y mod length t := v]) (Suc i) \<le> Suc (rank (t[Suc y mod length t := v]) i)"
  proof (cases "i mod length t = Suc y mod length t")
    case True
    have "rank t (Suc i) \<le> Suc (rank t (Suc y))"
      using risingD [OF assms(1,2), of i] True by (metis rank_mod)
    then show ?thesis using assms True by (simp add: rank_update)
  next
    case False
    then show ?thesis
      using assms risingD [OF assms(1,2), of i]
      by (auto simp: rank_update) (metis Suc_mod_inj rank_mod)
  qed
qed

lemma rising_lower:
  assumes "rising t" "t \<noteq> []" "rk v \<le> rank t x" "rank t (Suc x) \<le> Suc (rk v)"
  shows "rising (t[x mod length t := v])"
  unfolding rising_def
proof (intro allI impI)
  fix i
  show "rank (t[x mod length t := v]) (Suc i) \<le> Suc (rank (t[x mod length t := v]) i)"
  proof (cases "i mod length t = x mod length t")
    case True
    then have "rank t (Suc i) = rank t (Suc x)" by (metis rank_mod Suc_mod_cong)
    then show ?thesis using assms True by (simp add: rank_update)
  next
    case False
    have "rank t (Suc i) \<le> Suc (rank t i)" by (rule risingD [OF assms(1,2)])
    moreover have "Suc i mod length t = x mod length t \<Longrightarrow> rank t (Suc i) = rank t x"
      by (metis rank_mod)
    ultimately show ?thesis using assms False by (auto simp: rank_update)
  qed
qed

lemma placed_update:
  assumes "placed home t" "t \<noteq> []"
    and "\<And>p d. v = Some (p, d) \<Longrightarrow> d < length t \<and> (home p + d) mod length t = x mod length t"
  shows "placed home (t[x mod length t := v])"
  using assms by (auto simp: placed_def nth_list_update split: option.splits)

lemma load_update: "i < length t \<Longrightarrow> load (t[i := v]) + pay (t ! i) = load t + pay v"
proof (induction t arbitrary: i)
  case (Cons a t)
  then show ?case by (cases i) (auto simp: load_def union_ac)
qed simp

lemma load_cell_update: "t \<noteq> [] \<Longrightarrow> load (t[x mod length t := v]) + pay (cell t x) = load t + pay v"
  unfolding cell_def by (simp add: load_update)

lemma cell_in_load: "t \<noteq> [] \<Longrightarrow> cell t x = Some (p, d) \<Longrightarrow> p \<in># load t"
  using load_cell_update [of t x None] by (metis add_mset_add_single pay.simps add.right_neutral union_single_eq_member)

lemma load_in_cell:
  assumes "p \<in># load t"
  obtains x d where "x < length t" "cell t x = Some (p, d)"
proof -
  have "\<exists>x<length t. \<exists>d. t ! x = Some (p, d)"
    using assms
  proof (induction t)
    case (Cons a t)
    show ?case
    proof (cases "p \<in># load t")
      case True
      then show ?thesis using Cons.IH by fastforce
    next
      case False
      then have "p \<in># pay a" using Cons.prems by (simp add: load_def)
      then show ?thesis by (cases a) auto
    qed
  qed (simp add: load_def)
  then show thesis using that by (auto simp: cell_def)
qed

lemma size_load: "size (load t) \<le> length t"
proof (induction t)
  case (Cons a t)
  then show ?case by (cases a) (auto simp: load_def)
qed (simp add: load_def)

lemma vacancy:
  assumes "size (load t) < length t"
  obtains x where "x < length t" "cell t x = None"
proof -
  have "\<exists>x<length t. t ! x = None"
    using assms
  proof (induction t)
    case (Cons a t)
    show ?case
    proof (cases a)
      case (Some b)
      then have "size (load t) < length t" using Cons.prems by (cases b) (simp add: load_def)
      then show ?thesis using Cons.IH by fastforce
    qed auto
  qed simp
  then show thesis using that by (auto simp: cell_def)
qed

lemma two_cells:
  assumes "t \<noteq> []" "cell t x = Some (p, d)" "cell t y = Some (q, c)" "x mod length t \<noteq> y mod length t"
  shows "{#p, q#} \<subseteq># load t"
proof -
  let ?t = "t[x mod length t := None]"
  have "cell ?t y = Some (q, c)" using assms by (simp add: cell_update)
  then have "q \<in># load ?t" using cell_in_load assms(1) by (metis length_0_conv length_list_update)
  moreover have "load t = add_mset p (load ?t)"
    using load_cell_update [OF assms(1), of x None] assms(2) by simp
  ultimately show ?thesis by simp
qed

lemma uniq_mono: "uniq same M \<Longrightarrow> N \<subseteq># M \<Longrightarrow> uniq same N"
  unfolding uniq_def by (meson subset_mset.order_trans)

lemma uniq_insert:
  assumes "uniq same M" "\<And>q. q \<in># M \<Longrightarrow> \<not> same p q \<and> \<not> same q p"
  shows "uniq same (add_mset p M)"
  unfolding uniq_def
proof (intro allI impI notI)
  fix a b assume s: "{#a, b#} \<subseteq># add_mset p M" and e: "same a b"
  show False
  proof (cases "{#a, b#} \<subseteq># M")
    case True
    then show False using assms(1) e unfolding uniq_def by blast
  next
    case False
    consider "a = p" | "b = p" | "a \<noteq> p" "b \<noteq> p" by blast
    then have "a = p \<and> b \<in># M \<or> b = p \<and> a \<in># M"
    proof cases
      case 3
      then have "{#a, b#} - {#p#} = {#a, b#}" by simp
      then show ?thesis using s False by (metis subset_eq_diff_conv add_mset_add_single)
    qed (use s in \<open>auto simp: add_mset_commute\<close>)
    then show False using assms(2) e by blast
  qed
qed

lemma uniq_remaining: "uniq same (add_mset p M) \<Longrightarrow> q \<in># M \<Longrightarrow> \<not> same p q"
  unfolding uniq_def by simp

section \<open>The loops\<close>

text \<open>
  The probing loop: \<open>look\<close> is what the loop body decides on the entry at the current position,
  given the distance counter. None stands for an access outside the array or a loop that does
  not end.
\<close>

datatype verdict = Found | Stop | Go

partial_function (option) probe_loop ::
  "(u32 \<Rightarrow> 'e \<Rightarrow> verdict) \<Rightarrow> u32 \<Rightarrow> 'e list \<Rightarrow> u32 \<Rightarrow> u32 \<Rightarrow> u32 \<Rightarrow> nat option option" where
  "probe_loop look modmask es start_pos current_pos distance =
    (if unat current_pos < length es then
      (case look distance (es ! unat current_pos) of
        Found \<Rightarrow> Some (Some (unat current_pos))
      | Stop \<Rightarrow> Some None
      | Go \<Rightarrow>
          let current_pos = (current_pos + 1) AND modmask in
          if current_pos = start_pos then Some None
          else probe_loop look modmask es start_pos current_pos (distance + 1))
     else None)"

text \<open>
  The insertion loop: it ends at a vacant slot or at an entry with the inserted key, with the
  element it carries at that point, or back at the start.
\<close>

datatype 'e outcome = Vacant u32 'e "'e list" | Match u32 'e "'e list" | Exhausted "'e list"

partial_function (option) insert_loop ::
  "('e \<Rightarrow> bool) \<Rightarrow> ('e \<Rightarrow> bool) \<Rightarrow> ('e \<Rightarrow> 'e \<Rightarrow> bool) \<Rightarrow> ('e \<Rightarrow> 'e) \<Rightarrow> u32 \<Rightarrow> u32 \<Rightarrow> u32 \<Rightarrow> 'e
    \<Rightarrow> 'e list \<Rightarrow> 'e outcome option" where
  "insert_loop is_empty same_key closer farther modmask start_pos current_pos elem es =
    (if unat current_pos < length es then
      let curr = es ! unat current_pos in
      if is_empty curr then Some (Vacant current_pos elem es)
      else if same_key curr then Some (Match current_pos elem es)
      else
        let (elem, es) = (if closer curr elem then (curr, es[unat current_pos := elem])
                          else (elem, es));
            elem = farther elem;
            current_pos = (current_pos + 1) AND modmask in
        if current_pos = start_pos then Some (Exhausted es)
        else insert_loop is_empty same_key closer farther modmask start_pos current_pos elem es
     else None)"

text \<open>The loop of a removal: entries away from home move one slot back over the gap.\<close>

partial_function (option) shift_loop ::
  "('e \<Rightarrow> bool) \<Rightarrow> ('e \<Rightarrow> 'e) \<Rightarrow> u32 \<Rightarrow> u32 \<Rightarrow> u32 \<Rightarrow> 'e list \<Rightarrow> (u32 \<times> 'e list) option" where
  "shift_loop displaced nearer modmask cur nxt es =
    (if unat cur < length es \<and> unat nxt < length es then
      if displaced (es ! unat nxt) then
        shift_loop displaced nearer modmask ((cur + 1) AND modmask) ((nxt + 1) AND modmask)
          (es[unat cur := nearer (es ! unat nxt)])
      else Some (cur, es)
     else None)"

text \<open>Arrays whose size is a power of two, and the mask that reduces an index.\<close>

definition sized :: "'e list \<Rightarrow> u32 \<Rightarrow> bool" where
  "sized es m \<longleftrightarrow> (\<exists>k \<le> 31. length es = 2 ^ k \<and> m = mask k)"

lemma sized_length: "sized es m \<Longrightarrow> 0 < length es \<and> length es \<le> 2 ^ 31 \<and> es \<noteq> []"
  unfolding sized_def using power_increasing [of _ 31 "2::nat"] by auto

lemma sized_update [simp]: "sized (es[i := e]) m \<longleftrightarrow> sized es m"
  by (simp add: sized_def)

lemma sized_index: "sized es m \<Longrightarrow> unat (w AND m) = unat w mod length es"
  unfolding sized_def
  by (metis take_bit_eq_mask unsigned_take_bit_eq take_bit_eq_mod)

lemma sized_index_less: "sized es m \<Longrightarrow> unat (w AND m) < length es"
  by (simp add: sized_index sized_length)

lemma sized_next:
  assumes "sized es m"
  shows "unat ((w + 1) AND m) = Suc (unat w) mod length es"
proof -
  obtain k where k: "k \<le> 31" "length es = 2 ^ k" using assms unfolding sized_def by blast
  have "unat (w + 1) = Suc (unat w) mod 2 ^ 32" by (simp add: unat_word_ariths)
  moreover have "(2::nat) ^ k dvd 2 ^ 32" by (rule le_imp_power_dvd) (use k in simp)
  ultimately show ?thesis using assms k by (simp add: sized_index mod_mod_cancel)
qed

lemma probe_loop_run:
  assumes "sized es m" "n = length es" "unat start = s" "s < n"
    and "unat pos = (s + j) mod n" "j < n" "j \<le> r" "r \<le> n"
    and "\<And>i. j \<le> i \<Longrightarrow> i < r \<Longrightarrow> look (of_nat i) (es ! ((s + i) mod n)) = Go"
    and "r < n \<Longrightarrow> look (of_nat r) (es ! ((s + r) mod n)) \<noteq> Go"
  shows "probe_loop look m es start pos (of_nat j)
    = (if r < n \<and> look (of_nat r) (es ! ((s + r) mod n)) = Found then Some (Some ((s + r) mod n))
       else Some None)"
  using assms
proof (induction "r - j" arbitrary: j pos)
  case 0
  then have "(s + j) mod n < length es" by (metis mod_less_divisor gr0I not_less_zero)
  with 0 show ?case
    by (subst probe_loop.simps) (auto split: verdict.splits)
next
  case (Suc x)
  then have g: "look (of_nat j) (es ! ((s + j) mod n)) = Go" by auto
  let ?pos = "(pos + 1) AND m"
  have b: "unat pos < length es" using Suc.prems sized_length [of es m] by simp
  have p: "unat ?pos = (s + Suc j) mod n"
    using Suc.prems sized_next [of es m pos] by (simp add: mod_Suc_eq)
  have e: "?pos = start \<longleftrightarrow> Suc j = n"
  proof -
    have "?pos = start \<longleftrightarrow> (s + Suc j) mod n = s mod n"
      using p Suc.prems by (simp add: word_unat_eq_iff)
    also have "\<dots> \<longleftrightarrow> Suc j mod n = 0 mod n" using add_mod_cancel [of s "Suc j" n 0] by simp
    also have "\<dots> \<longleftrightarrow> Suc j = n" using Suc.prems by (simp add: mod_Suc)
    finally show ?thesis .
  qed
  have step: "probe_loop look m es start pos (of_nat j)
    = (if Suc j = n then Some None else probe_loop look m es start ?pos (of_nat (Suc j)))"
    using Suc.prems g e b by (subst probe_loop.simps) (simp add: Let_def add.commute)
  show ?case
  proof (cases "Suc j = n")
    case True
    then have "r = n" using Suc.hyps(2) Suc.prems by linarith
    then show ?thesis using step True by simp
  next
    case False
    have "probe_loop look m es start ?pos (of_nat (Suc j))
      = (if r < n \<and> look (of_nat r) (es ! ((s + r) mod n)) = Found then Some (Some ((s + r) mod n))
         else Some None)"
      by (rule Suc.hyps(1)) (use Suc.hyps(2) Suc.prems False p in auto)
    then show ?thesis using step False by simp
  qed
qed

section \<open>The loops keep the invariant\<close>

text \<open>
  What the loops need to know of the entries of a table: \<open>view\<close> reads an entry as a slot, and
  the tests and updates of the loops agree with it as long as distances are below the largest
  table size.
\<close>

locale probing =
  fixes view :: "'e \<Rightarrow> 'p slot" and is_empty :: "'e \<Rightarrow> bool"
    and closer :: "'e \<Rightarrow> 'e \<Rightarrow> bool" and farther :: "'e \<Rightarrow> 'e"
  assumes is_empty_view: "is_empty e \<longleftrightarrow> view e = None"
    and closer_view: "\<lbrakk>view c = Some (q, x); view e = Some (p, d); x < 2 ^ 31; d < 2 ^ 31\<rbrakk>
      \<Longrightarrow> closer c e \<longleftrightarrow> x < d"
    and farther_view: "\<lbrakk>view e = Some (p, d); Suc d < 2 ^ 31\<rbrakk> \<Longrightarrow> view (farther e) = Some (p, Suc d)"
begin

abbreviation slots :: "'e list \<Rightarrow> 'p slot list" where
  "slots es \<equiv> map view es"

lemma cell_slots: "es \<noteq> [] \<Longrightarrow> cell (slots es) i = view (es ! (i mod length es))"
  by (simp add: cell_def)

lemma cell_slots_update: "es \<noteq> [] \<Longrightarrow> cell ((slots es)[i mod length es := v]) j
    = (if j mod length es = i mod length es then v else cell (slots es) j)"
  using cell_update [of "slots es" i v j] by simp

lemma rank_slots_update: "es \<noteq> [] \<Longrightarrow> rank ((slots es)[i mod length es := v]) j
    = (if j mod length es = i mod length es then rk v else rank (slots es) j)"
  using rank_update [of "slots es" i v j] by simp

lemma slots_update: "slots (es[i := e]) = (slots es)[i := view e]"
  by (rule map_update)

text \<open>The slots from the home of a payload to its place are occupied by entries as far away.\<close>

lemma before_place:
  assumes "rh_inv home same (slots es)" "cell (slots es) x = Some (p, d)" "j \<le> d"
  shows "\<exists>q c. cell (slots es) (home p + j) = Some (q, c) \<and> j \<le> c"
proof -
  let ?t = "slots es"
  have t: "?t \<noteq> []" "rising ?t" "placed home ?t" using assms(1) by (auto simp: rh_inv_def)
  have "cell ?t (home p + d) = Some (p, d)"
    using placedD(2) [OF t(3,1) assms(2)] assms(2) by (metis cell_mod)
  then have "Suc d \<le> rank ?t (home p + j) + (d - j)"
    using rank_span [OF t(2,1), of "home p + j" "d - j"] assms(3) by (simp add: rank_def)
  then have "Suc j \<le> rank ?t (home p + j)" using assms(3) by linarith
  then show ?thesis by (cases "cell ?t (home p + j)") (auto simp: rank_def)
qed

definition seeks :: "('p \<Rightarrow> bool) \<Rightarrow> (u32 \<Rightarrow> 'e \<Rightarrow> verdict) \<Rightarrow> bool" where
  "seeks hit look \<longleftrightarrow>
    (\<forall>i e. view e = None \<longrightarrow> look i e = Stop) \<and>
    (\<forall>i e p d. view e = Some (p, d) \<longrightarrow> \<not> hit p \<longrightarrow> look i e = (if d < unat i then Stop else Go)) \<and>
    (\<forall>i e p d. view e = Some (p, d) \<longrightarrow> hit p \<longrightarrow> unat i \<le> d \<longrightarrow> look i e = Found)"

lemma seeksD:
  assumes "seeks hit look"
  shows "view e = None \<Longrightarrow> look i e = Stop"
    and "view e = Some (p, d) \<Longrightarrow> \<not> hit p \<Longrightarrow> look i e = (if d < unat i then Stop else Go)"
    and "view e = Some (p, d) \<Longrightarrow> hit p \<Longrightarrow> unat i \<le> d \<Longrightarrow> look i e = Found"
  using assms unfolding seeks_def by blast+

lemma unat_small: "i < length es \<Longrightarrow> sized es m \<Longrightarrow> unat (of_nat i :: u32) = i"
  using sized_length [of es m] by (simp add: unat_of_nat)

lemma probe_found:
  assumes "sized es m" "rh_inv home same (slots es)" "seeks (same p0) look"
    and "cell (slots es) x = Some (p, d)" "same p0 p" "home p mod length es = unat start" 
    and "\<And>q r. same p0 q \<Longrightarrow> same p0 r \<Longrightarrow> same q r"
  shows "probe_loop look m es start start 0 = Some (Some (x mod length es))"
proof -
  let ?t = "slots es" and ?n = "length es" and ?s = "unat start"
  have t: "?t \<noteq> []" "placed home ?t" "uniq same (load ?t)" and es: "es \<noteq> []"
    using assms(2) by (auto simp: rh_inv_def)
  have d: "d < ?n" using placedD(1) [OF t(2,1) assms(4)] by simp
  have s: "?s < ?n" using assms(6) es by (metis length_greater_0_conv mod_less_divisor)
  have shift: "(home p + i) mod ?n = (?s + i) mod ?n" for i
    using assms(6) by (metis mod_add_left_eq)
  have x: "(?s + d) mod ?n = x mod ?n" using placedD(2) [OF t(2,1) assms(4)] shift by simp
  have "look (of_nat i) (es ! ((?s + i) mod ?n)) = Go" if i: "i < d" for i
  proof -
    obtain q c where q: "cell ?t (home p + i) = Some (q, c)" "i \<le> c"
      using before_place [OF assms(2,4), of i] i by auto
    have "(home p + i) mod ?n \<noteq> x mod ?n"
      using x shift i d offset_inj [of i ?n d ?s] by auto
    then have "\<not> same q p" using two_cells [OF t(1) q(1) assms(4)] t(3) by (auto simp: uniq_def)
    then have "\<not> same p0 q" using assms(5,7) by blast
    then show ?thesis
      using seeksD(2) [OF assms(3)] q unat_small [OF _ assms(1), of i] i d
      by (simp add: cell_slots es shift)
  qed
  moreover have "look (of_nat d) (es ! ((?s + d) mod ?n)) = Found"
    by (rule seeksD(3) [OF assms(3)])
      (use assms(4,5) x d unat_small [OF d assms(1)] in \<open>auto simp: cell_slots es\<close>)
  ultimately show ?thesis
    using probe_loop_run [where j = 0 and r = d and pos = start and look = look, OF assms(1) refl refl s]
    using s d x es by simp
qed

lemma probe_absent:
  assumes "sized es m" "seeks hit look" "unat start < length es"
    and "\<And>q. q \<in># load (slots es) \<Longrightarrow> \<not> hit q"
  shows "probe_loop look m es start start 0 = Some None"
proof -
  let ?n = "length es" and ?s = "unat start"
  let ?at = "\<lambda>i. look (of_nat i) (es ! ((?s + i) mod ?n))"
  have es: "es \<noteq> []" using assms(3) by auto
  define r where "r = (LEAST i. i = ?n \<or> ?at i \<noteq> Go)"
  have r: "r = ?n \<or> ?at r \<noteq> Go" unfolding r_def by (rule LeastI [of _ ?n]) simp
  have le: "r \<le> ?n" unfolding r_def by (rule Least_le) simp
  have before: "?at i = Go" if "i < r" for i using not_less_Least [OF that [unfolded r_def]] by blast
  have "?at i \<noteq> Found" for i
  proof (cases "cell (slots es) (?s + i)")
    case None
    then show ?thesis using seeksD(1) [OF assms(2)] by (simp add: cell_slots es)
  next
    case (Some pd)
    then obtain p d where pd: "cell (slots es) (?s + i) = Some (p, d)" by (cases pd) auto
    then have "\<not> hit p" using assms(4) [OF cell_in_load [OF _ pd]] es by simp
    then show ?thesis using seeksD(2) [OF assms(2)] pd by (simp add: cell_slots es)
  qed
  then show ?thesis
    using probe_loop_run [where j = 0 and r = r and pos = start and look = look, OF assms(1) refl refl assms(3)]
    using assms(3) le before r es by (cases "r = ?n") auto
qed

end

context probing
begin

text \<open>
  Carrying an entry to the next vacant slot, \<open>r\<close> slots ahead: the slots stay in order, the
  carried payload is added, and the slot after the vacant one still has rank at most 1.
\<close>

lemma insert_vacant:
  assumes "sized es m" "n = length es" "unat pos = Suc y mod n" "rising (slots es)" "placed home (slots es)"
    and "\<And>i. 0 < i \<Longrightarrow> i \<le> r \<Longrightarrow> (Suc y + i) mod n \<noteq> unat start"
    and "view e = Some (p, d)" "(home p + d) mod n = Suc y mod n" "d \<le> rank (slots es) y"
    and "r < n" "cell (slots es) (Suc y + r) = None"
    and "\<And>i. i < r \<Longrightarrow> cell (slots es) (Suc y + i) \<noteq> None \<and> \<not> same_key (es ! ((Suc y + i) mod n))"
    and "d = 0 \<or> Suc y mod n \<noteq> Suc (Suc y + r) mod n"
  shows "\<exists>x e' es'. insert_loop is_empty same_key closer farther m start pos e es = Some (Vacant x e' es')
    \<and> unat x < n \<and> length es' = n \<and> rising (slots (es'[unat x := e']))
    \<and> placed home (slots (es'[unat x := e'])) \<and> anchored (slots (es'[unat x := e']))
    \<and> load (slots (es'[unat x := e'])) = add_mset p (load (slots es))"
  using assms
proof (induction r arbitrary: pos y e p d es)
  case 0
  let ?t = "slots es"
  have es: "es \<noteq> []" and pos: "unat pos < n" using 0 by auto
  have vac: "view (es ! unat pos) = None" using 0 es by (simp add: cell_slots)
  have loop: "insert_loop is_empty same_key closer farther m start pos e es = Some (Vacant pos e es)"
    using vac pos 0(2) by (subst insert_loop.simps) (simp add: is_empty_view)
  have t': "slots (es[unat pos := e]) = ?t[Suc y mod length ?t := Some (p, d)]"
    using 0 by (simp add: map_update)
  have "Suc y + (n - 1) = y + length ?t" using 0(2,10) by simp
  then have "rank ?t y = rank ?t (Suc y + (n - 1))" by (simp only: rank_round)
  also have "\<dots> \<le> n - 1"
    using rank_span [OF 0(4), of "Suc y" "n - 1"] 0(11) es by (simp add: rank_def)
  finally have d: "d < n" using 0(9,10) by linarith
  have r: "rising (slots (es[unat pos := e]))" unfolding t'
    by (rule rising_raise [OF 0(4)]) (use es 0(9,11) in \<open>auto simp: rank_def\<close>)
  moreover have "placed home (slots (es[unat pos := e]))" unfolding t'
    by (rule placed_update [OF 0(5)]) (use es d 0(2,8) in auto)
  moreover have "load (slots (es[unat pos := e])) = add_mset p (load ?t)"
    using load_cell_update [of ?t "Suc y" "Some (p, d)"] 0(11) es unfolding t' by simp
  moreover have "rank (slots (es[unat pos := e])) (Suc (Suc y)) \<le> 1"
  proof (cases "Suc (Suc y) mod n = Suc y mod n")
    case True
    then show ?thesis using 0(2,13) es unfolding t' by (simp add: rank_slots_update)
  next
    case False
    have "rank ?t (Suc y) = 0" using 0(11) by (simp add: rank_0)
    then show ?thesis
      using False 0(2) es risingD [OF 0(4), of "Suc y"] unfolding t' by (simp add: rank_slots_update)
  qed
  then have "anchored (slots (es[unat pos := e]))"
    unfolding anchored_def using es
    by (intro exI [of _ "Suc (Suc y) mod n"]) (metis 0(2) length_list_update length_map length_pos map_is_Nil_conv rank_mod)
  ultimately show ?case using loop pos 0(2) by auto
next
  case (Suc r)
  let ?t = "slots es"
  have es: "es \<noteq> []" and pos: "unat pos < length es" and n31: "n \<le> 2 ^ 31"
    using Suc.prems sized_length [of es m] by auto
  obtain q c where q: "cell ?t (Suc y) = Some (q, c)" and nk: "\<not> same_key (es ! unat pos)"
    using Suc.prems(12) [of 0] Suc.prems(3) by auto
  have vc: "view (es ! unat pos) = Some (q, c)" using q Suc.prems(2,3) es by (simp add: cell_slots)
  have c: "c < n" "(home q + c) mod n = Suc y mod n"
    using placedD [OF Suc.prems(5) _ q] es Suc.prems(2) by auto
  have "Suc y + Suc r + (n - 1 - Suc r) = y + length ?t" using Suc.prems(2,10) by simp
  then have "rank ?t y = rank ?t (Suc y + Suc r + (n - 1 - Suc r))" by (simp only: rank_round)
  also have "\<dots> \<le> n - 1 - Suc r"
    using rank_span [OF Suc.prems(4), of "Suc y + Suc r" "n - 1 - Suc r"] Suc.prems(11) es
    by (simp add: rank_def)
  finally have d: "Suc d < n" using Suc.prems(9,10) by linarith
  let ?pos = "(pos + 1) AND m"
  have npos: "unat ?pos = Suc (Suc y) mod n"
    using Suc.prems sized_next [of es m pos] by (simp add: mod_Suc_eq)
  have nstart: "?pos \<noteq> start" using Suc.prems(6) [of 1] npos by auto
  have cl: "closer (es ! unat pos) e \<longleftrightarrow> c < d"
    by (rule closer_view [OF vc Suc.prems(7)]) (use c d n31 in auto)
  have ahead: "(Suc y + Suc i) mod n \<noteq> Suc y mod n" if "i \<le> r" for i
    using offset_inj [of "Suc i" n 0 "Suc y"] that Suc.prems(10) by auto
  have anch: "Suc (Suc y) mod n \<noteq> Suc (Suc (Suc y) + r) mod n"
    using ahead [of r] Suc_mod_inj [of "Suc y" n "Suc (Suc y) + r"] by auto
  show ?case
  proof (cases "c < d")
    case False
    have loop: "insert_loop is_empty same_key closer farther m start pos e es
      = insert_loop is_empty same_key closer farther m start ?pos (farther e) es"
      using vc nk cl False nstart pos
      by (subst insert_loop.simps) (simp add: is_empty_view Let_def)
    have fe: "view (farther e) = Some (p, Suc d)"
      by (rule farther_view [OF Suc.prems(7)]) (use d n31 in simp)
    have "Suc d \<le> rank ?t (Suc y)" using False q by (simp add: rank_def)
    moreover have "(home p + Suc d) mod n = Suc (Suc y) mod n"
      using Suc_mod_cong [OF Suc.prems(8)] by simp
    ultimately show ?thesis unfolding loop
      using Suc.IH [OF Suc.prems(1,2) npos Suc.prems(4,5) _ fe] Suc.prems(6) [of "Suc i" for i]
        Suc.prems(10,11) Suc.prems(12) [of "Suc i" for i] anch by simp
  next
    case True
    let ?es = "es[unat pos := e]"
    have t': "slots ?es = ?t[Suc y mod length ?t := Some (p, d)]"
      using Suc.prems by (simp add: map_update)
    have loop: "insert_loop is_empty same_key closer farther m start pos e es
      = insert_loop is_empty same_key closer farther m start ?pos (farther (es ! unat pos)) ?es"
      using vc nk cl True nstart pos
      by (subst insert_loop.simps) (simp add: is_empty_view Let_def)
    have fe: "view (farther (es ! unat pos)) = Some (q, Suc c)"
      by (rule farther_view [OF vc]) (use True d n31 in simp)
    have r: "rising (slots ?es)" unfolding t'
      by (rule rising_raise [OF Suc.prems(4)]) (use es Suc.prems(9) q True in \<open>auto simp: rank_def\<close>)
    have pl: "placed home (slots ?es)" unfolding t'
      by (rule placed_update [OF Suc.prems(5)]) (use es d Suc.prems(2,8) in auto)
    have hq: "(home q + Suc c) mod n = Suc (Suc y) mod n" using Suc_mod_cong [OF c(2)] by simp
    have rk: "Suc c \<le> rank (slots ?es) (Suc y)" unfolding t' using es True by (simp add: rank_slots_update)
    have same: "cell (slots ?es) (Suc (Suc y) + i) = cell ?t (Suc y + Suc i)
        \<and> ?es ! ((Suc (Suc y) + i) mod n) = es ! ((Suc y + Suc i) mod n)" if "i \<le> r" for i
      unfolding t' using ahead [OF that] es Suc.prems(2,3) by (simp add: cell_slots_update)
    have ld: "add_mset q (load (slots ?es)) = add_mset p (load ?t)"
      using load_cell_update [of ?t "Suc y" "Some (p, d)"] q es unfolding t' by simp
    have st: "(Suc (Suc y) + i) mod n \<noteq> unat start" if "0 < i" "i \<le> r" for i
      using Suc.prems(6) [of "Suc i"] that by simp
    have go: "cell (slots ?es) (Suc (Suc y) + i) \<noteq> None \<and> \<not> same_key (?es ! ((Suc (Suc y) + i) mod n))"
      if "i < r" for i using same [of i] Suc.prems(12) [of "Suc i"] that by simp
    show ?thesis unfolding loop
      using Suc.IH [OF _ _ npos r pl st fe hq rk _ _ go] same [of r] Suc.prems(1,2,10,11) anch
      unfolding ld by simp
  qed
qed

end

context probing
begin

lemma insert_new:
  assumes "sized es m" "rh_inv home same (slots es)" "size (load (slots es)) < length es"
    and "view e = Some (p0, 0)" "home p0 mod length es = unat start"
    and "\<And>c q x. view c = Some (q, x) \<Longrightarrow> same_key c \<longleftrightarrow> same p0 q"
    and "\<And>q. q \<in># load (slots es) \<Longrightarrow> \<not> same p0 q \<and> \<not> same q p0"
  shows "\<exists>x e' es'. insert_loop is_empty same_key closer farther m start start e es = Some (Vacant x e' es')
    \<and> unat x < length es \<and> length es' = length es \<and> rh_inv home same (slots (es'[unat x := e']))
    \<and> load (slots (es'[unat x := e'])) = add_mset p0 (load (slots es))"
proof -
  let ?t = "slots es" and ?n = "length es" and ?s = "unat start"
  have t: "?t \<noteq> []" "placed home ?t" "rising ?t" "uniq same (load ?t)" and es: "es \<noteq> []"
    using assms(2) by (auto simp: rh_inv_def)
  have s: "?s < ?n" using assms(5) es by (metis length_greater_0_conv mod_less_divisor)
  define y where "y = ?s + ?n - 1"
  have y: "Suc y = ?s + ?n" using s by (simp add: y_def)
  have at: "(Suc y + i) mod ?n = (?s + i) mod ?n" for i
    unfolding y by (metis add.commute add.left_commute mod_add_self2)
  define r where "r = (LEAST i. cell ?t (Suc y + i) = None)"
  obtain x where x: "x < ?n" "cell ?t x = None" using vacancy [of ?t] assms(3) by auto
  have "cell ?t (Suc y + (x + ?n - ?s) mod ?n) = cell ?t x"
    by (rule cell_cong) (use s x(1) at [of "(x + ?n - ?s) mod ?n"] in \<open>simp add: mod_add_right_eq\<close>)
  then have ex: "cell ?t (Suc y + (x + ?n - ?s) mod ?n) = None" using x(2) by simp
  have r: "cell ?t (Suc y + r) = None" unfolding r_def by (rule LeastI) (rule ex)
  have "r \<le> (x + ?n - ?s) mod ?n" unfolding r_def by (rule Least_le) (rule ex)
  then have rn: "r < ?n" using es by (meson length_greater_0_conv mod_less_divisor order_le_less_trans)
  have before: "cell ?t (Suc y + i) \<noteq> None \<and> \<not> same_key (es ! ((Suc y + i) mod ?n))" if "i < r" for i
  proof -
    have "cell ?t (Suc y + i) \<noteq> None" using not_less_Least [OF that [unfolded r_def]] .
    then obtain q c where q: "cell ?t (Suc y + i) = Some (q, c)" by auto
    then have "\<not> same p0 q" using assms(7) cell_in_load [OF t(1) q] by blast
    then show ?thesis using assms(6) q by (simp add: cell_slots es)
  qed
  have st: "(Suc y + i) mod ?n \<noteq> ?s" if "0 < i" "i \<le> r" for i
    using offset_inj [of i ?n 0 ?s] at [of i] that rn s es by simp
  have pos: "?s = Suc y mod ?n" using at [of 0] s by simp
  have "\<exists>x e' es'. insert_loop is_empty same_key closer farther m start start e es = Some (Vacant x e' es')
    \<and> unat x < ?n \<and> length es' = ?n \<and> rising (slots (es'[unat x := e']))
    \<and> placed home (slots (es'[unat x := e'])) \<and> anchored (slots (es'[unat x := e']))
    \<and> load (slots (es'[unat x := e'])) = add_mset p0 (load ?t)"
    by (rule insert_vacant [OF assms(1) refl pos t(3,2) st assms(4) _ _ rn r before])
      (use assms(5) pos in auto)
  moreover have "uniq same (add_mset p0 (load ?t))"
    by (rule uniq_insert [OF t(4)]) (use assms(7) in blast)
  moreover have "slots es' \<noteq> []" if "length es' = ?n" for es' :: "'e list" using that es by auto
  ultimately show ?thesis unfolding rh_inv_def by auto
qed

lemma insert_match_loop:
  assumes "sized es m" "n = length es" "unat start = s" "s < n" "unat pos = (s + j) mod n"
    and "view e = Some (p0, j)" "j \<le> d" "d < n"
    and "\<And>i. i < d \<Longrightarrow> \<exists>q c. view (es ! ((s + i) mod n)) = Some (q, c) \<and> i \<le> c \<and> c < n
      \<and> \<not> same_key (es ! ((s + i) mod n))"
    and "view (es ! ((s + d) mod n)) = Some (p, d)" "same_key (es ! ((s + d) mod n))"
  shows "\<exists>x e'. insert_loop is_empty same_key closer farther m start pos e es = Some (Match x e' es)
    \<and> unat x = (s + d) mod n \<and> view e' = Some (p0, d)"
  using assms
proof (induction "d - j" arbitrary: j pos e)
  case 0
  have "unat pos < length es" using 0 sized_length [of es m] by simp
  with 0 show ?case by (subst insert_loop.simps) (auto simp: is_empty_view)
next
  case (Suc x)
  then have j: "j < d" by simp
  obtain q c where q: "view (es ! ((s + j) mod n)) = Some (q, c)" "j \<le> c" "c < n"
    "\<not> same_key (es ! ((s + j) mod n))" using Suc.prems(9) [OF j] by auto
  have n31: "n \<le> 2 ^ 31" using sized_length [OF Suc.prems(1)] Suc.prems(2) by simp
  have b: "unat pos < length es" using Suc.prems sized_length [of es m] by simp
  have ncl: "\<not> closer (es ! ((s + j) mod n)) e"
    using closer_view [OF q(1) Suc.prems(6)] q(2,3) j Suc.prems(8) n31 by simp
  let ?pos = "(pos + 1) AND m"
  have np: "unat ?pos = (s + Suc j) mod n"
    using Suc.prems sized_next [of es m pos] by (simp add: mod_Suc_eq)
  have "(s + Suc j) mod n \<noteq> (s + 0) mod n"
    using offset_inj [of "Suc j" n 0 s] j Suc.prems(8) by simp
  then have ns: "?pos \<noteq> start" using np Suc.prems(3,4) by auto
  have fe: "view (farther e) = Some (p0, Suc j)"
    by (rule farther_view [OF Suc.prems(6)]) (use j Suc.prems(8) n31 in simp)
  have loop: "insert_loop is_empty same_key closer farther m start pos e es
    = insert_loop is_empty same_key closer farther m start ?pos (farther e) es"
    using q ncl ns b Suc.prems(5) by (subst insert_loop.simps) (simp add: is_empty_view Let_def)
  have dj: "x = d - Suc j" using Suc.hyps(2) by simp
  show ?case unfolding loop
    by (rule Suc.hyps(1) [OF dj Suc.prems(1-4) np fe _ Suc.prems(8-11)]) (use j in auto)
qed

lemma insert_existing:
  assumes "sized es m" "rh_inv home same (slots es)"
    and "view e = Some (p0, 0)" "home p mod length es = unat start" "home p0 mod length es = unat start"
    and "\<And>c q x. view c = Some (q, x) \<Longrightarrow> same_key c \<longleftrightarrow> same p0 q"
    and "cell (slots es) x0 = Some (p, d)" "same p0 p"
    and "\<And>q r. same p0 q \<Longrightarrow> same p0 r \<Longrightarrow> same q r"
  shows "\<exists>x e'. insert_loop is_empty same_key closer farther m start start e es = Some (Match x e' es)
    \<and> unat x = x0 mod length es \<and> view e' = Some (p0, d)"
proof -
  let ?t = "slots es" and ?n = "length es" and ?s = "unat start"
  have t: "?t \<noteq> []" "placed home ?t" "uniq same (load ?t)" and es: "es \<noteq> []"
    using assms(2) by (auto simp: rh_inv_def)
  have d: "d < ?n" using placedD(1) [OF t(2,1) assms(7)] by simp
  have s: "?s < ?n" using assms(4) es by (metis length_greater_0_conv mod_less_divisor)
  have shift: "(home p + i) mod ?n = (?s + i) mod ?n" for i
    using assms(4) by (metis mod_add_left_eq)
  have x: "(?s + d) mod ?n = x0 mod ?n" using placedD(2) [OF t(2,1) assms(7)] shift by simp
  have go: "\<exists>q c. view (es ! ((?s + i) mod ?n)) = Some (q, c) \<and> i \<le> c \<and> c < ?n
      \<and> \<not> same_key (es ! ((?s + i) mod ?n))" if i: "i < d" for i
  proof -
    obtain q c where q: "cell ?t (home p + i) = Some (q, c)" "i \<le> c"
      using before_place [OF assms(2,7), of i] i by auto
    have "(home p + i) mod ?n \<noteq> x0 mod ?n"
      using x shift i d offset_inj [of i ?n d ?s] by auto
    then have "\<not> same q p" using two_cells [OF t(1) q(1) assms(7)] t(3) by (auto simp: uniq_def)
    then have "\<not> same p0 q" using assms(8,9) by blast
    then show ?thesis
      using assms(6) q placedD(1) [OF t(2,1) q(1)] by (simp add: cell_slots es shift)
  qed
  have v: "view (es ! ((?s + d) mod ?n)) = Some (p, d)" using assms(7) x by (simp add: cell_slots es)
  have "\<exists>x e'. insert_loop is_empty same_key closer farther m start start e es = Some (Match x e' es)
    \<and> unat x = (?s + d) mod ?n \<and> view e' = Some (p0, d)"
    by (rule insert_match_loop [OF assms(1) refl refl s _ assms(3) _ d go v])
      (use s assms(6) [OF v] assms(8) in auto)
  then show ?thesis using x by simp
qed

text \<open>Overwriting an entry by one with the same key and distance.\<close>

lemma overwrite:
  assumes "rh_inv home same (slots es)" "cell (slots es) x = Some (p, d)" "view e = Some (p0, d)"
    and "home p0 mod length es = home p mod length es"
    and "\<And>q. same p0 q \<longleftrightarrow> same p q" "\<And>q. same q p0 \<longleftrightarrow> same q p"
  shows "rh_inv home same (slots (es[x mod length es := e]))"
    and "add_mset p (load (slots (es[x mod length es := e]))) = add_mset p0 (load (slots es))"
proof -
  let ?t = "slots es" and ?t' = "slots (es[x mod length es := e])"
  have t: "?t \<noteq> []" "placed home ?t" "rising ?t" "anchored ?t" "uniq same (load ?t)" and es: "es \<noteq> []"
    using assms(1) by (auto simp: rh_inv_def)
  have t': "?t' = ?t[x mod length ?t := Some (p0, d)]" using assms(3) by (simp add: map_update)
  have rank: "rank ?t' i = rank ?t i" for i
    unfolding t' rank_update [OF t(1)] using assms(2) by (auto simp: rank_def) (metis cell_cong length_map rk.simps(2))
  have r: "rising ?t'" "anchored ?t'"
    using t(3,4) rank by (simp_all add: rising_def anchored_def)
  have p: "placed home ?t'" unfolding t'
  proof (rule placed_update [OF t(2,1)])
    fix q c assume "Some (p0, d) = Some (q, c)"
    then have q: "q = p0" "c = d" by auto
    have "(home p0 + d) mod length es = (home p + d) mod length es" using assms(4) by (metis mod_add_left_eq)
    then show "c < length ?t \<and> (home q + c) mod length ?t = x mod length ?t"
      unfolding q using placedD [OF t(2,1) assms(2)] by simp
  qed
  show ld: "add_mset p (load ?t') = add_mset p0 (load ?t)"
    using load_cell_update [OF t(1), of x "Some (p0, d)"] assms(2) unfolding t' by simp
  have "p \<in># load ?t" using cell_in_load [OF t(1) assms(2)] .
  then obtain M where M: "load ?t = add_mset p M" by (metis mset_add)
  then have M': "load ?t' = add_mset p0 M" using ld by (simp add: add_mset_commute)
  have "uniq same (load ?t')" unfolding M'
  proof (rule uniq_insert)
    show "uniq same M" using t(5) M by (metis uniq_mono mset_subset_eq_add_right add_mset_add_single union_commute)
    fix q assume "q \<in># M"
    then have "{#p, q#} \<subseteq># load ?t" "{#q, p#} \<subseteq># load ?t" using M by (auto simp: add_mset_commute)
    then show "\<not> same p0 q \<and> \<not> same q p0" using t(5) assms(5,6) unfolding uniq_def by blast
  qed
  then show "rh_inv home same ?t'" using r p es by (simp add: rh_inv_def)
qed

end

text \<open>The tables that also remove entries: moving an entry one slot back.\<close>

locale shifting = probing view is_empty closer farther
  for view :: "'e \<Rightarrow> 'p slot" and is_empty :: "'e \<Rightarrow> bool"
    and closer :: "'e \<Rightarrow> 'e \<Rightarrow> bool" and farther :: "'e \<Rightarrow> 'e" +
  fixes displaced :: "'e \<Rightarrow> bool" and nearer :: "'e \<Rightarrow> 'e"
  assumes displaced_view: "(\<And>p d. view e = Some (p, d) \<Longrightarrow> d < 2 ^ 31) \<Longrightarrow> displaced e \<longleftrightarrow> 1 < rk (view e)"
    and nearer_view: "view e = Some (p, Suc d) \<Longrightarrow> Suc d < 2 ^ 31 \<Longrightarrow> view (nearer e) = Some (p, d)"
begin

lemma displaced_rank:
  assumes "sized es m" "placed home (slots es)" "unat pos = x mod length es"
  shows "displaced (es ! unat pos) \<longleftrightarrow> 1 < rank (slots es) x"
proof -
  have es: "es \<noteq> []" "length es \<le> 2 ^ 31" using sized_length [OF assms(1)] by auto
  have v: "view (es ! unat pos) = cell (slots es) x" using assms(3) es by (simp add: cell_slots)
  have "d < 2 ^ 31" if "view (es ! unat pos) = Some (p, d)" for p d
    using placedD(1) [OF assms(2), of x p d] that es v by simp
  then show ?thesis using displaced_view [of "es ! unat pos"] v by (simp add: rank_def)
qed

lemma gap_closed:
  assumes "sized es m" "n = length es" "unat cur = x mod n" "unat nxt = Suc x mod n"
    and "rising (slots es)" "placed home (slots es)" "cell (slots es) x = Some (p, d)"
    and "load (slots es) = add_mset p M" "rank (slots es) (Suc x) \<le> 1" "view gone = None"
  shows "\<exists>z es'. shift_loop displaced nearer m cur nxt es = Some (z, es')
    \<and> unat z < n \<and> length es' = n \<and> rising (slots (es'[unat z := gone]))
    \<and> placed home (slots (es'[unat z := gone])) \<and> anchored (slots (es'[unat z := gone]))
    \<and> load (slots (es'[unat z := gone])) = M"
proof -
  let ?t = "slots es" and ?t' = "slots (es[unat cur := gone])"
  have es: "es \<noteq> []" using sized_length [OF assms(1)] by simp
  have b: "unat cur < n" "unat nxt < n" using assms(2-4) es by simp_all
  have "\<not> displaced (es ! unat nxt)"
    using displaced_rank [OF assms(1,6), of nxt "Suc x"] assms(2,4,9) by simp
  then have loop: "shift_loop displaced nearer m cur nxt es = Some (cur, es)"
    using b assms(2) by (subst shift_loop.simps) simp
  have t': "?t' = ?t[x mod length ?t := None]" using assms(2,3,10) by (simp add: map_update)
  have "rising ?t'" unfolding t' by (rule rising_lower [OF assms(5)]) (use es assms(9) in auto)
  moreover have "placed home ?t'" unfolding t' by (rule placed_update [OF assms(6)]) (use es in auto)
  moreover have "rank ?t' x = 0" unfolding t' using es by (simp add: rank_slots_update)
  then have "anchored ?t'" unfolding anchored_def
    using b assms(2,3) rank_mod [of ?t' x] by (intro exI [of _ "x mod n"]) simp
  moreover have "load ?t' = M"
    using load_cell_update [of ?t x None] assms(7,8) es unfolding t' by simp
  ultimately show ?thesis using loop b assms(2) by blast
qed

text \<open>
  The gap is at \<open>x\<close>, where the array still holds an entry that is no longer counted: the
  payloads are \<open>M\<close> and that one. The loop ends because some slot ahead has rank at most 1.
\<close>

lemma shift_loop_run:
  assumes "sized es m" "n = length es" "unat cur = x mod n" "unat nxt = Suc x mod n"
    and "rising (slots es)" "placed home (slots es)" "cell (slots es) x = Some (p, d)"
    and "load (slots es) = add_mset p M" "rank (slots es) (Suc x + a) \<le> 1" "view gone = None"
  shows "\<exists>z es'. shift_loop displaced nearer m cur nxt es = Some (z, es')
    \<and> unat z < n \<and> length es' = n \<and> rising (slots (es'[unat z := gone]))
    \<and> placed home (slots (es'[unat z := gone])) \<and> anchored (slots (es'[unat z := gone]))
    \<and> load (slots (es'[unat z := gone])) = M"
  using assms
proof (induction a arbitrary: cur nxt x es p d)
  case (0 cur nxt x es p d)
  show ?case by (rule gap_closed [OF 0(1-8) _ 0(10)]) (use 0(9) in simp)
next
  case (Suc a)
  show ?case
  proof (cases "rank (slots es) (Suc x) \<le> 1")
    case True
    show ?thesis by (rule gap_closed [OF Suc.prems(1-8) True Suc.prems(10)])
  next
    case False
    let ?t = "slots es" and ?es = "es[unat cur := nearer (es ! unat nxt)]"
    have es: "es \<noteq> []" "length es \<le> 2 ^ 31" using sized_length [OF Suc.prems(1)] by auto
    have b: "unat cur < length es" "unat nxt < length es" using Suc.prems(2-4) es by simp_all
    obtain q c where q: "cell ?t (Suc x) = Some (q, Suc c)"
      using False by (cases "cell ?t (Suc x)" rule: rk.cases) (auto simp: rank_def gr0_conv_Suc)
    have c: "Suc c < n" "(home q + Suc c) mod n = Suc x mod n"
      using placedD [OF Suc.prems(6) _ q] es Suc.prems(2) by auto
    have ne: "Suc x mod n \<noteq> x mod n" using offset_inj [of 1 n 0 x] c(1) by simp
    have vn: "view (nearer (es ! unat nxt)) = Some (q, c)"
      by (rule nearer_view) (use q c es Suc.prems(2,4) in \<open>simp_all add: cell_slots\<close>)
    have dis: "displaced (es ! unat nxt)"
      using displaced_rank [OF Suc.prems(1,6), of nxt "Suc x"] Suc.prems(2,4) False by simp
    have loop: "shift_loop displaced nearer m cur nxt es
      = shift_loop displaced nearer m ((cur + 1) AND m) ((nxt + 1) AND m) ?es"
      using b dis by (subst shift_loop.simps) simp
    have t': "slots ?es = ?t[x mod length ?t := Some (q, c)]" using Suc.prems(2,3) vn by (simp add: map_update)
    have cr: "Suc c \<le> rank ?t x" using risingD [OF Suc.prems(5), of x] es q by (simp add: rank_def)
    have ri: "rising (slots ?es)" unfolding t'
      by (rule rising_lower [OF Suc.prems(5)]) (use es cr q in \<open>auto simp: rank_def\<close>)
    have "(home q + c) mod n = x mod n" using c(2) Suc_mod_inj by (metis add_Suc_right)
    then have pl: "placed home (slots ?es)" unfolding t'
      by (intro placed_update [OF Suc.prems(6)]) (use es c Suc.prems(2) in auto)
    have cl: "cell (slots ?es) (Suc x) = Some (q, Suc c)"
      unfolding t' using es ne q Suc.prems(2) by (simp add: cell_slots_update)
    have ld: "load (slots ?es) = add_mset q M"
      using load_cell_update [of ?t x "Some (q, c)"] es Suc.prems(7,8) unfolding t' by simp
    have an: "rank (slots ?es) (Suc (Suc x) + a) \<le> 1"
    proof (cases "(Suc (Suc x) + a) mod n = x mod n")
      case True
      then have "rank ?t x = rank ?t (Suc x + Suc a)"
        using Suc.prems(2) by (metis add_Suc_right add_Suc rank_mod length_map)
      then show ?thesis unfolding t' using es True cr Suc.prems(2,9) by (simp add: rank_slots_update)
    next
      case False
      then show ?thesis unfolding t' using es Suc.prems(2,9) by (simp add: rank_slots_update)
    qed
    have np: "unat ((cur + 1) AND m) = Suc x mod n" "unat ((nxt + 1) AND m) = Suc (Suc x) mod n"
      using Suc.prems(1-4) sized_next [of es m] by (simp_all add: mod_Suc_eq)
    show ?thesis unfolding loop
      by (rule Suc.IH [OF _ _ np ri pl cl ld an Suc.prems(10)]) (use Suc.prems(1,2) in simp_all)
  qed
qed

lemma removed:
  assumes "sized es m" "rh_inv home same (slots es)" "cell (slots es) x = Some (p, d)"
    and "unat cur = x mod length es" "view gone = None"
  shows "\<exists>z es' M. shift_loop displaced nearer m cur ((cur + 1) AND m) es = Some (z, es')
    \<and> unat z < length es \<and> length es' = length es \<and> rh_inv home same (slots (es'[unat z := gone]))
    \<and> load (slots (es'[unat z := gone])) = M \<and> load (slots es) = add_mset p M"
proof -
  let ?t = "slots es" and ?n = "length es"
  have t: "?t \<noteq> []" "placed home ?t" "rising ?t" "anchored ?t" "uniq same (load ?t)" and es: "es \<noteq> []"
    using assms(2) by (auto simp: rh_inv_def)
  obtain M where M: "load ?t = add_mset p M" using cell_in_load [OF t(1) assms(3)] by (metis mset_add)
  obtain i where i: "i < ?n" "rank ?t i \<le> 1" using t(4) unfolding anchored_def by auto
  define a where "a = i + ?n * Suc x - Suc x"
  have "Suc x \<le> ?n * Suc x" using es by (cases ?n) auto
  then have "Suc x + a = i + ?n * Suc x" unfolding a_def by linarith
  then have "rank ?t (Suc x + a) = rank ?t i"
    by (metis rank_mod mod_mult_self2 length_map)
  then have a: "rank ?t (Suc x + a) \<le> 1" using i by simp
  have n: "unat ((cur + 1) AND m) = Suc x mod ?n"
    using assms(4) sized_next [OF assms(1)] by (simp add: mod_Suc_eq)
  obtain z es' where "shift_loop displaced nearer m cur ((cur + 1) AND m) es = Some (z, es')"
    "unat z < ?n" "length es' = ?n" "rising (slots (es'[unat z := gone]))"
    "placed home (slots (es'[unat z := gone]))" "anchored (slots (es'[unat z := gone]))"
    "load (slots (es'[unat z := gone])) = M"
    using shift_loop_run [OF assms(1) refl assms(4) n t(3,2) assms(3) M a assms(5)] by blast
  moreover have "uniq same M" using t(5) M
    by (metis uniq_mono mset_subset_eq_add_right add_mset_add_single union_commute)
  moreover have "slots (es'[unat z := gone]) \<noteq> []" using calculation(3) es by auto
  ultimately show ?thesis using M unfolding rh_inv_def by blast
qed

end

section \<open>Capacities\<close>

text \<open>The rounding of a number of slots to a power of two, as each of the tables has it.\<close>

definition round_up_pow2 :: "u32 \<Rightarrow> u32" where
  "round_up_pow2 v =
    (let v = v - 1;
         v = v OR drop_bit 1 v;
         v = v OR drop_bit 2 v;
         v = v OR drop_bit 4 v;
         v = v OR drop_bit 8 v;
         v = v OR drop_bit 16 v
     in v + 1)"

lemma bit_smear:
  fixes v w :: u32
  assumes "\<And>i. bit v i \<longleftrightarrow> (\<exists>j < n. bit w (i + j))"
  shows "bit (v OR drop_bit n v) i \<longleftrightarrow> (\<exists>j < n + n. bit w (i + j))"
proof -
  have "bit (v OR drop_bit n v) i \<longleftrightarrow> (\<exists>j < n. bit w (i + j)) \<or> (\<exists>j < n. bit w (n + i + j))"
    by (simp add: bit_simps assms)
  also have "(\<exists>j < n. bit w (n + i + j)) \<longleftrightarrow> (\<exists>j. n \<le> j \<and> j < n + n \<and> bit w (i + j))"
  proof
    assume "\<exists>j < n. bit w (n + i + j)"
    then obtain j where "j < n" "bit w (n + i + j)" by blast
    then show "\<exists>j. n \<le> j \<and> j < n + n \<and> bit w (i + j)"
      by (intro exI [of _ "n + j"]) (simp add: ac_simps)
  next
    assume "\<exists>j. n \<le> j \<and> j < n + n \<and> bit w (i + j)"
    then obtain j where "n \<le> j" "j < n + n" "bit w (i + j)" by blast
    then show "\<exists>j < n. bit w (n + i + j)" by (intro exI [of _ "j - n"]) simp
  qed
  finally show ?thesis by (metis leI trans_less_add1)
qed

lemma smear_mask:
  fixes v w :: u32
  assumes "\<And>i. bit v i \<longleftrightarrow> (\<exists>j < 32. bit w (i + j))"
  obtains k where "k \<le> 32" "v = mask k" "unat w < 2 ^ k" "k = 0 \<or> 2 ^ (k - 1) \<le> unat w"
proof (cases "w = 0")
  case True
  then have "v = mask 0" by (intro bit_word_eqI) (simp add: assms)
  then show thesis using that [of 0] True by simp
next
  case False
  define K where "K = Max {j. bit w j}"
  have fin: "finite {j. bit w j}" by (rule finite_subset [of _ "{..<32}"]) (auto dest: bit_imp_le_length)
  have ne: "{j. bit w j} \<noteq> {}" using False by (auto simp: bit_eq_iff)
  have K: "bit w K" "\<And>j. bit w j \<Longrightarrow> j \<le> K"
    unfolding K_def using Max_in [OF fin ne] Max_ge [OF fin] by auto
  have K32: "K < 32" using bit_imp_le_length [OF K(1)] by simp
  have "bit v i \<longleftrightarrow> i \<le> K" for i
  proof
    assume "i \<le> K"
    then show "bit v i" unfolding assms using K(1) K32 by (intro exI [of _ "K - i"]) simp
  qed (use assms K(2) in \<open>meson add_leD1\<close>)
  then have "v = mask (Suc K)" by (intro bit_word_eqI) (simp add: bit_simps less_Suc_eq_le)
  moreover have "w = take_bit (Suc K) w"
    using K(2) by (intro bit_word_eqI) (auto simp: bit_simps less_Suc_eq_le)
  then have "unat w = unat w mod 2 ^ Suc K" by (metis unsigned_take_bit_eq take_bit_eq_mod)
  then have "unat w < 2 ^ Suc K" by (metis mod_less_divisor zero_less_numeral zero_less_power)
  moreover have "2 ^ K \<le> unat w"
  proof (rule ccontr)
    assume "\<not> 2 ^ K \<le> unat w"
    then have "unat w div 2 ^ K = 0" by simp
    moreover have "bit (unat w) K" using K(1) by (simp add: bit_unsigned_iff)
    ultimately show False by (simp add: bit_iff_odd)
  qed
  ultimately show thesis using that [of "Suc K"] K32 by simp
qed

lemma round_up_pow2_power:
  assumes "0 < v"
  obtains k where "k \<le> 32" "round_up_pow2 v = 2 ^ k" "unat v \<le> 2 ^ k" "2 ^ k < 2 * unat v"
proof -
  define w where "w = v - 1"
  have "v \<noteq> 0" using assms by auto
  then have "unat w = unat v - 1" "0 < unat v" by (simp_all add: w_def unat_minus_one unat_gt_0)
  then have v: "unat v = Suc (unat w)" by simp
  have s0: "bit w i \<longleftrightarrow> (\<exists>j < 1. bit w (i + j))" for i by simp
  define w1 where "w1 = w OR drop_bit 1 w"
  define w2 where "w2 = w1 OR drop_bit 2 w1"
  define w4 where "w4 = w2 OR drop_bit 4 w2"
  define w8 where "w8 = w4 OR drop_bit 8 w4"
  define w16 where "w16 = w8 OR drop_bit 16 w8"
  have s1: "bit w1 i \<longleftrightarrow> (\<exists>j < 2. bit w (i + j))" for i using bit_smear [OF s0] by (simp add: w1_def numeral_2_eq_2)
  have s2: "bit w2 i \<longleftrightarrow> (\<exists>j < 4. bit w (i + j))" for i using bit_smear [OF s1] by (simp add: w2_def)
  have s4: "bit w4 i \<longleftrightarrow> (\<exists>j < 8. bit w (i + j))" for i using bit_smear [OF s2] by (simp add: w4_def)
  have s8: "bit w8 i \<longleftrightarrow> (\<exists>j < 16. bit w (i + j))" for i using bit_smear [OF s4] by (simp add: w8_def)
  have s16: "bit w16 i \<longleftrightarrow> (\<exists>j < 32. bit w (i + j))" for i using bit_smear [OF s8] by (simp add: w16_def)
  obtain k where k: "k \<le> 32" "unat w < 2 ^ k" "k = 0 \<or> 2 ^ (k - 1) \<le> unat w" "w16 = mask k"
    using smear_mask [OF s16] by blast
  have r: "round_up_pow2 v = w16 + 1"
    unfolding round_up_pow2_def Let_def w16_def w8_def w4_def w2_def w1_def w_def ..
  have "2 ^ k < 2 * unat v" using k(3) v by (cases k) auto
  moreover have "round_up_pow2 v = 2 ^ k" using k(4) r by (simp add: mask_eq_exp_minus_1)
  ultimately show thesis using that k(1,2) v by simp
qed

lemma round_up_pow2_exact: "k \<le> 31 \<Longrightarrow> round_up_pow2 (2 ^ k) = 2 ^ k"
proof -
  assume k: "k \<le> 31"
  have u: "unat (2 ^ k :: u32) = 2 ^ k" by (rule unat_power2_u32 [OF k])
  then have "0 < (2 ^ k :: u32)" by (simp add: word_less_nat_alt)
  then obtain j where j: "round_up_pow2 (2 ^ k) = 2 ^ j" "(2::nat) ^ k \<le> 2 ^ j" "(2::nat) ^ j < 2 * 2 ^ k"
    using round_up_pow2_power u by metis
  have "(2::nat) ^ j < 2 ^ Suc k" using j(3) by simp
  then have "j < Suc k" by (rule power_less_imp_less_exp [rotated]) simp
  moreover have "k \<le> j" using j(2) by simp
  ultimately show ?thesis using j(1) by (metis antisym less_Suc_eq_le)
qed

lemma round_up_pow2_cap:
  assumes "0 < nslots" "nslots \<le> round_up_pow2 nslots"
  shows "0 < unat (round_up_pow2 nslots)"
    and "length es = unat (round_up_pow2 nslots) \<Longrightarrow> sized es (round_up_pow2 nslots - 1)"
proof -
  obtain k where k: "k \<le> 32" "round_up_pow2 nslots = 2 ^ k"
    using round_up_pow2_power [OF assms(1)] by blast
  show pos: "0 < unat (round_up_pow2 nslots)" using assms by (auto simp: unat_gt_0)
  then have "k \<noteq> 32" using k(2) by auto
  then have k31: "k \<le> 31" using k(1) by simp
  show "sized es (round_up_pow2 nslots - 1)" if "length es = unat (round_up_pow2 nslots)"
    unfolding sized_def using k31 k(2) that unat_power2_u32 [OF k31]
    by (intro exI [of _ k]) (simp add: mask_eq_exp_minus_1)
qed

text \<open>Rehashing happens at five sixths of the capacity, so there is a vacant slot below the limit.\<close>

definition FNV1A_OFFSET :: u32 where
  "FNV1A_OFFSET = 0x811c9dc5"

definition FNV1A_PRIME :: u32 where
  "FNV1A_PRIME = 0x1000193"

definition REHASH_ROUND_UP :: "u32 \<Rightarrow> u32" where
  "REHASH_ROUND_UP val = val + val div 6"

definition REHASH_LIMIT :: "u32 \<Rightarrow> u32" where
  "REHASH_LIMIT val = val - val div 6"

lemma REHASH_LIMIT_le: "REHASH_LIMIT n \<le> n"
  unfolding REHASH_LIMIT_def by (simp add: word_le_nat_alt unat_sub unat_div div_le_dividend)

lemma load_vacant [simp]: "load (replicate n None) = {#}"
  by (induction n) (auto simp: load_def)

lemma rh_inv_vacant:
  fixes home :: "'p \<Rightarrow> nat"
  assumes n: "0 < n"
  shows "rh_inv home same (replicate n None)"
proof -
  have "cell (replicate n None :: 'p slot list) i = None" for i using n by (simp add: cell_def)
  then show "rh_inv home same (replicate n None)" using n
    by (auto simp: rh_inv_def placed_def rising_def anchored_def uniq_def rank_def)
qed

end
