(* ===== verification/Simulation.thy ===== *)
theory Simulation
  imports Main
begin

text \<open>
  Refinement of a container to an abstract value. A component offers operations that may fail
  to return (None), keep an invariant and answer as a relation on the abstract values allows;
  the contract is a locale, and a sequence of calls is covered by one lemma of it.
\<close>

fun run_ops :: "('op \<Rightarrow> 's \<Rightarrow> ('r \<times> 's) option) \<Rightarrow> 'op list \<Rightarrow> 's \<Rightarrow> ('r list \<times> 's) option" where
  "run_ops step [] s = Some ([], s)"
| "run_ops step (opn # ops) s =
    (case step opn s of
      None \<Rightarrow> None
    | Some (r, s') \<Rightarrow> map_option (\<lambda>(rs, s''). (r # rs, s'')) (run_ops step ops s'))"

fun allowed_run :: "('op \<Rightarrow> 'a \<Rightarrow> 'r \<Rightarrow> 'a \<Rightarrow> bool) \<Rightarrow> 'op list \<Rightarrow> 'a \<Rightarrow> 'r list \<Rightarrow> 'a \<Rightarrow> bool" where
  "allowed_run spec [] a rs a' \<longleftrightarrow> rs = [] \<and> a' = a"
| "allowed_run spec (opn # ops) a rs a' \<longleftrightarrow>
    (\<exists>r rs' a1. rs = r # rs' \<and> spec opn a r a1 \<and> allowed_run spec ops a1 rs' a')"

locale simulation =
  fixes step :: "'op \<Rightarrow> 's \<Rightarrow> ('r \<times> 's) option"
    and valid :: "'op \<Rightarrow> bool"
    and inv :: "'s \<Rightarrow> bool"
    and abs :: "'s \<Rightarrow> 'a"
    and spec :: "'op \<Rightarrow> 'a \<Rightarrow> 'r \<Rightarrow> 'a \<Rightarrow> bool"
  assumes step_simulates: "\<lbrakk>inv s; valid opn\<rbrakk>
    \<Longrightarrow> \<exists>r s'. step opn s = Some (r, s') \<and> inv s' \<and> spec opn (abs s) r (abs s')"
begin

lemma run_simulates:
  "\<lbrakk>inv s; \<forall>opn \<in> set ops. valid opn\<rbrakk>
    \<Longrightarrow> \<exists>rs s'. run_ops step ops s = Some (rs, s') \<and> inv s' \<and> allowed_run spec ops (abs s) rs (abs s')"
proof (induction ops arbitrary: s)
  case (Cons opn ops)
  then obtain r s1 where s1: "step opn s = Some (r, s1)" "inv s1" "spec opn (abs s) r (abs s1)"
    using step_simulates [of s opn] by auto
  obtain rs s' where "run_ops step ops s1 = Some (rs, s')" "inv s'" "allowed_run spec ops (abs s1) rs (abs s')"
    using Cons.IH [OF s1(2)] Cons.prems by auto
  with s1 show ?case by auto
qed simp

end

end
