(* ===== verification/Idtbl.thy ===== *)
theory Idtbl
  imports Robin_Hood Simulation
begin

text \<open>
  The table from 32-bit ids to pointers (lib/util/idtbl.c, lib/util/idtbl.h). Ids are stored
  incremented by one, so that a zeroed entry is empty. The table is shown to refine a finite
  map; a lookup or a removal of the largest id, which wraps to the empty marker, does not.
\<close>

section \<open>Data\<close>

datatype idtbl_status = IDTBL_OK | IDTBL_ENOTFOUND | IDTBL_EFULL | IDTBL_EINVAL | IDTBL_ENOSLOT
  | IDTBL_ENOMEM

fun idtbl_code :: "idtbl_status \<Rightarrow> status" where
  "idtbl_code IDTBL_OK = 0"
| "idtbl_code IDTBL_ENOTFOUND = -1"
| "idtbl_code IDTBL_EFULL = -2"
| "idtbl_code IDTBL_EINVAL = -3"
| "idtbl_code IDTBL_ENOSLOT = -4"
| "idtbl_code IDTBL_ENOMEM = -5"

text \<open>The distance is an \<open>int32_t\<close>, kept as its bits; a pointer is its 64 bits.\<close>

record idtbl_entry =
  ie_distance :: u32
  ie_key :: u32
  ie_value :: u64

record idtbl_header =
  ih_cap :: u32
  ih_size :: u32
  ih_hashseed :: u32
  ih_modmask :: u32
  ih_rehash_limit :: u32

record idtbl_ctx =
  id_header :: idtbl_header
  id_entries :: "idtbl_entry list"

definition idtbl_size :: "idtbl_ctx \<Rightarrow> u32" where
  "idtbl_size ctx = ih_size (id_header ctx)"

text \<open>An entry with all bytes zero, as \<open>calloc\<close> and \<open>empty = {0}\<close> give it.\<close>

definition empty_entry :: idtbl_entry where
  "empty_entry = \<lparr>ie_distance = 0, ie_key = 0, ie_value = 0\<rparr>"

section \<open>Operations\<close>

definition IDTBL_SIZE :: "u32 \<Rightarrow> size_t" where
  "IDTBL_SIZE cap = ucast cap * 16"

definition TABLE_INDEX :: "idtbl_ctx \<Rightarrow> u32 \<Rightarrow> u32" where
  "TABLE_INDEX tbl val = val AND ih_modmask (id_header tbl)"

primrec hash_loop :: "nat \<Rightarrow> u32 \<Rightarrow> u32 \<Rightarrow> u32" where
  "hash_loop 0 hash key = hash"
| "hash_loop (Suc n) hash key =
    hash_loop n ((hash XOR (key AND 0xff)) * FNV1A_PRIME) (drop_bit 8 key)"

definition hashfunc :: "u32 \<Rightarrow> u32 \<Rightarrow> u32" where
  "hashfunc key seed = hash_loop 4 seed key"

definition init_header :: "u32 \<Rightarrow> u32 \<Rightarrow> idtbl_header option" where
  "init_header nslots seed =
    (let cap = round_up_pow2 nslots in
     if cap < nslots then None
     else Some \<lparr>ih_cap = cap, ih_size = 0, ih_hashseed = hashfunc seed FNV1A_OFFSET,
                ih_modmask = cap - 1, ih_rehash_limit = REHASH_LIMIT cap\<rparr>)"

definition init_table :: "allocator \<Rightarrow> u32 \<Rightarrow> u32 \<Rightarrow> idtbl_ctx option" where
  "init_table ok nslots seed =
    (case init_header nslots seed of
      None \<Rightarrow> None
    | Some hdr \<Rightarrow>
        if ok (IDTBL_SIZE (ih_cap hdr))
        then Some \<lparr>id_header = hdr, id_entries = replicate (unat (ih_cap hdr)) empty_entry\<rparr>
        else None)"

definition copy_table :: "allocator \<Rightarrow> idtbl_ctx \<Rightarrow> idtbl_ctx option" where
  "copy_table ok src =
    (if ok (IDTBL_SIZE (ih_cap (id_header src)))
     then Some (src\<lparr>id_entries := take (unat (ih_cap (id_header src))) (id_entries src)\<rparr>)
     else None)"

definition idtbl_cleanup :: "idtbl_ctx \<Rightarrow> idtbl_ctx" where
  "idtbl_cleanup ctx = \<lparr>id_header = \<lparr>ih_cap = 0, ih_size = 0, ih_hashseed = 0, ih_modmask = 0,
     ih_rehash_limit = 0\<rparr>, id_entries = []\<rparr>"

text \<open>The body of the probing loop; the comparison of the distances is unsigned.\<close>

definition find_look :: "u32 \<Rightarrow> u32 \<Rightarrow> idtbl_entry \<Rightarrow> verdict" where
  "find_look key distance elem =
    (if ie_key elem = key then Found
     else if ie_key elem = 0 \<or> ie_distance elem < distance then Stop
     else Go)"

text \<open>The result is the index of the entry.\<close>

definition find_table_entry :: "idtbl_ctx \<Rightarrow> u32 \<Rightarrow> nat option option" where
  "find_table_entry tbl key =
    (let key = key + 1;
         start_pos = TABLE_INDEX tbl (hashfunc key (ih_hashseed (id_header tbl)))
     in probe_loop (find_look key) (ih_modmask (id_header tbl)) (id_entries tbl) start_pos start_pos 0)"

definition idtbl_get :: "idtbl_ctx \<Rightarrow> u32 \<Rightarrow> (idtbl_status \<times> u64 option) option" where
  "idtbl_get ctx key = map_option (\<lambda>ent. case ent of
      None \<Rightarrow> (IDTBL_ENOTFOUND, None)
    | Some i \<Rightarrow> (IDTBL_OK, Some (ie_value (id_entries ctx ! i)))) (find_table_entry ctx key)"

definition idtbl_contains :: "idtbl_ctx \<Rightarrow> u32 \<Rightarrow> int option" where
  "idtbl_contains ctx key =
    map_option (\<lambda>ent. if ent = None then 0 else 1) (find_table_entry ctx key)"

definition shifts_back :: "idtbl_entry \<Rightarrow> bool" where
  "shifts_back e \<longleftrightarrow> ie_key e \<noteq> 0 \<and> 0 < sint (ie_distance e)"

definition idtbl_remove :: "idtbl_ctx \<Rightarrow> u32 \<Rightarrow> (idtbl_status \<times> idtbl_ctx) option" where
  "idtbl_remove ctx key =
    (case find_table_entry ctx key of
      None \<Rightarrow> None
    | Some None \<Rightarrow> Some (IDTBL_ENOTFOUND, ctx)
    | Some (Some i) \<Rightarrow>
        (let cur = of_nat i; nxt = TABLE_INDEX ctx (cur + 1) in
         case shift_loop shifts_back (\<lambda>e. e\<lparr>ie_distance := ie_distance e - 1\<rparr>)
             (ih_modmask (id_header ctx)) cur nxt (id_entries ctx) of
           None \<Rightarrow> None
         | Some (cur, es) \<Rightarrow>
             Some (IDTBL_OK, ctx\<lparr>id_header := (id_header ctx)\<lparr>ih_size := ih_size (id_header ctx) - 1\<rparr>,
               id_entries := es[unat cur := empty_entry]\<rparr>)))"

text \<open>
  Insertion; the comparison of the distances is signed, and the slot is compared with the
  inserted key, not with that of the element carried.
\<close>

definition set_table_value :: "idtbl_ctx \<Rightarrow> u32 \<Rightarrow> u64 \<Rightarrow> (idtbl_status \<times> idtbl_ctx) option" where
  "set_table_value tbl key val =
    (if key = 0xffffffff then Some (IDTBL_EINVAL, tbl)
     else if ih_size (id_header tbl) \<ge> ih_cap (id_header tbl) then Some (IDTBL_EFULL, tbl)
     else
       let key = key + 1;
           start_pos = TABLE_INDEX tbl (hashfunc key (ih_hashseed (id_header tbl)));
           elem = \<lparr>ie_distance = 0, ie_key = key, ie_value = val\<rparr> in
       map_option (\<lambda>r. case r of
           Vacant pos elem es \<Rightarrow>
             (IDTBL_OK, tbl\<lparr>id_header := (id_header tbl)\<lparr>ih_size := ih_size (id_header tbl) + 1\<rparr>,
               id_entries := es[unat pos := elem]\<rparr>)
         | Match pos elem es \<Rightarrow> (IDTBL_OK, tbl\<lparr>id_entries := es[unat pos := elem]\<rparr>)
         | Exhausted es \<Rightarrow> (IDTBL_ENOSLOT, tbl\<lparr>id_entries := es\<rparr>))
         (insert_loop (\<lambda>e. ie_key e = 0) (\<lambda>e. ie_key e = key)
           (\<lambda>c e. sint (ie_distance c) < sint (ie_distance e))
           (\<lambda>e. e\<lparr>ie_distance := ie_distance e + 1\<rparr>)
           (ih_modmask (id_header tbl)) start_pos start_pos elem (id_entries tbl)))"

fun reinsert :: "idtbl_entry list \<Rightarrow> idtbl_ctx \<Rightarrow> idtbl_ctx option" where
  "reinsert [] tbl = Some tbl"
| "reinsert (ent # es) tbl =
    (if ie_key ent \<noteq> 0 then
      (case set_table_value tbl (ie_key ent - 1) (ie_value ent) of
        None \<Rightarrow> None
      | Some (_, tbl) \<Rightarrow> reinsert es tbl)
     else reinsert es tbl)"

definition grow :: "allocator \<Rightarrow> idtbl_ctx \<Rightarrow> (idtbl_status \<times> idtbl_ctx) option" where
  "grow ok ctx =
    (let new_cap = push_bit 1 (ih_cap (id_header ctx)) in
     if new_cap < ih_cap (id_header ctx) then Some (IDTBL_ENOMEM, ctx)
     else
       case init_table ok new_cap (ih_hashseed (id_header ctx)) of
         None \<Rightarrow> Some (IDTBL_ENOMEM, ctx)
       | Some new_tbl \<Rightarrow>
           map_option (\<lambda>t. (IDTBL_OK, t))
             (reinsert (take (unat (ih_cap (id_header ctx))) (id_entries ctx)) new_tbl))"

definition idtbl_init :: "allocator \<Rightarrow> u32 \<Rightarrow> u32 \<Rightarrow> idtbl_status \<times> idtbl_ctx option" where
  "idtbl_init ok nslots seed =
    (let nslots = (if nslots = 0 then 1 else nslots);
         cap = REHASH_ROUND_UP nslots in
     if cap < nslots then (IDTBL_ENOMEM, None)
     else
       case init_table ok cap seed of
         None \<Rightarrow> (IDTBL_ENOMEM, None)
       | Some ctx \<Rightarrow> (IDTBL_OK, Some ctx))"

definition idtbl_insert :: "allocator \<Rightarrow> idtbl_ctx \<Rightarrow> u32 \<Rightarrow> u64 \<Rightarrow> (idtbl_status \<times> idtbl_ctx) option" where
  "idtbl_insert ok ctx key val =
    (if ih_size (id_header ctx) \<ge> ih_rehash_limit (id_header ctx) then
      (case grow ok ctx of
        None \<Rightarrow> None
      | Some (ret, ctx) \<Rightarrow>
          if ret \<noteq> IDTBL_OK then Some (ret, ctx) else set_table_value ctx key val)
     else set_table_value ctx key val)"

definition idtbl_copy :: "allocator \<Rightarrow> idtbl_ctx \<Rightarrow> idtbl_status \<times> idtbl_ctx option" where
  "idtbl_copy ok src =
    (case copy_table ok src of
      None \<Rightarrow> (IDTBL_ENOMEM, None)
    | Some dst \<Rightarrow> (IDTBL_OK, Some dst))"

text \<open>The comparison functions subtract in two's complement.\<close>

definition keycmp :: "idtbl_entry \<Rightarrow> idtbl_entry \<Rightarrow> int" where
  "keycmp ent0 ent1 = sint (ie_key ent1 - ie_key ent0)"

definition distcmp :: "idtbl_entry \<Rightarrow> idtbl_entry \<Rightarrow> int" where
  "distcmp ent0 ent1 = sint (ie_distance ent1 - ie_distance ent0)"

text \<open>
  Statistics. The average is kept as the two operands of the division the code makes in
  floating point; \<open>qsort cmp xs\<close> is the library's sort of an array.
\<close>

record idtbl_stats =
  is_nbytes :: size_t
  is_size :: size_t
  is_cap :: size_t
  is_mean_probe_distance :: u32
  is_max_probe_distance :: u32
  is_average_probe_distance :: "size_t \<times> u32"

fun tot_distance :: "idtbl_entry list \<Rightarrow> size_t" where
  "tot_distance [] = 0"
| "tot_distance (ent # es) =
    (if ie_key ent \<noteq> 0 then scast (ie_distance ent) else 0) + tot_distance es"

definition idtbl_calc_stats ::
  "allocator \<Rightarrow> ((idtbl_entry \<Rightarrow> idtbl_entry \<Rightarrow> int) \<Rightarrow> idtbl_entry list \<Rightarrow> idtbl_entry list)
    \<Rightarrow> idtbl_ctx \<Rightarrow> idtbl_status \<times> idtbl_stats option" where
  "idtbl_calc_stats ok qsort ctx =
    (case idtbl_copy ok ctx of
      (ret, None) \<Rightarrow> (ret, None)
    | (ret, Some dst) \<Rightarrow>
        let hdr = id_header dst;
            es = qsort keycmp (id_entries dst);
            n = unat (ih_size hdr);
            es = qsort distcmp (take n es) @ drop n es in
        (IDTBL_OK, Some \<lparr>is_nbytes = 32 + 16 * ucast (ih_cap hdr), is_size = ucast (ih_size hdr),
          is_cap = ucast (ih_cap hdr),
          is_mean_probe_distance = ie_distance (es ! unat (drop_bit 1 (ih_size hdr))),
          is_max_probe_distance = ie_distance (es ! 0),
          is_average_probe_distance = (tot_distance (id_entries dst), ih_size hdr)\<rparr>))"

definition idtbl_strerror :: "status \<Rightarrow> string" where
  "idtbl_strerror code =
    (if code = idtbl_code IDTBL_OK then ''success''
     else if code = idtbl_code IDTBL_ENOTFOUND then ''element not found''
     else if code = idtbl_code IDTBL_EFULL then ''table full''
     else if code = idtbl_code IDTBL_EINVAL then ''invalid argument''
     else if code = idtbl_code IDTBL_ENOSLOT then ''no slot available''
     else if code = idtbl_code IDTBL_ENOMEM then ''out of memory''
     else ''unknown error'')"

section \<open>The table as a map\<close>

text \<open>The payload of an entry is the stored key and the value.\<close>

definition id_view :: "idtbl_entry \<Rightarrow> (u32 \<times> u64) slot" where
  "id_view e = (if ie_key e = 0 then None else Some ((ie_key e, ie_value e), unat (ie_distance e)))"

definition id_home :: "u32 \<Rightarrow> u32 \<times> u64 \<Rightarrow> nat" where
  "id_home seed p = unat (hashfunc (fst p) seed)"

abbreviation same_id :: "u32 \<times> u64 \<Rightarrow> u32 \<times> u64 \<Rightarrow> bool" where
  "same_id p q \<equiv> fst p = fst q"

abbreviation id_load :: "idtbl_ctx \<Rightarrow> (u32 \<times> u64) multiset" where
  "id_load ctx \<equiv> load (map id_view (id_entries ctx))"

definition idtbl_wf :: "idtbl_ctx \<Rightarrow> bool" where
  "idtbl_wf ctx \<longleftrightarrow>
    sized (id_entries ctx) (ih_modmask (id_header ctx)) \<and>
    unat (ih_cap (id_header ctx)) = length (id_entries ctx) \<and>
    unat (ih_size (id_header ctx)) = size (id_load ctx) \<and>
    ih_rehash_limit (id_header ctx) = REHASH_LIMIT (ih_cap (id_header ctx)) \<and>
    rh_inv (id_home (ih_hashseed (id_header ctx))) same_id (map id_view (id_entries ctx))"

definition idtbl_map :: "idtbl_ctx \<Rightarrow> u32 \<Rightarrow> u64 option" where
  "idtbl_map ctx = map_of (map (\<lambda>e. (ie_key e - 1, ie_value e)) (filter (\<lambda>e. ie_key e \<noteq> 0) (id_entries ctx)))"

lemma id_view_Some: "id_view e = Some (p, d) \<longleftrightarrow>
    ie_key e \<noteq> 0 \<and> p = (ie_key e, ie_value e) \<and> d = unat (ie_distance e)"
  by (auto simp: id_view_def)

lemma id_view_None: "id_view e = None \<longleftrightarrow> ie_key e = 0"
  by (simp add: id_view_def)

interpretation id_probing: shifting id_view "\<lambda>e. ie_key e = 0"
  "\<lambda>c e. sint (ie_distance c) < sint (ie_distance e)" "\<lambda>e. e\<lparr>ie_distance := ie_distance e + 1\<rparr>"
  shifts_back "\<lambda>e. e\<lparr>ie_distance := ie_distance e - 1\<rparr>"
proof unfold_locales
  fix e :: idtbl_entry
  assume "\<And>p d. id_view e = Some (p, d) \<Longrightarrow> d < 2 ^ 31"
  then have "ie_key e \<noteq> 0 \<Longrightarrow> unat (ie_distance e) < 2 ^ 31" by (simp add: id_view_def)
  then show "shifts_back e \<longleftrightarrow> 1 < rk (id_view e)"
    by (auto simp: shifts_back_def id_view_def sint_pos_small)
qed (auto simp: id_view_Some id_view_None sint_less_small unat_Suc_small unat_pred_small)

lemma load_view: "(k, v) \<in># load (map id_view es) \<longleftrightarrow>
    k \<noteq> 0 \<and> (\<exists>e \<in> set es. ie_key e = k \<and> ie_value e = v)"
proof (induction es)
  case (Cons e es)
  then show ?case by (auto simp: load_def id_view_def)
qed (simp add: load_def)

lemma idtbl_wf_facts:
  assumes "idtbl_wf ctx"
  shows "sized (id_entries ctx) (ih_modmask (id_header ctx))"
    and "rh_inv (id_home (ih_hashseed (id_header ctx))) same_id (map id_view (id_entries ctx))"
    and "unat (ih_cap (id_header ctx)) = length (id_entries ctx)"
    and "unat (ih_size (id_header ctx)) = size (id_load ctx)"
    and "uniq same_id (id_load ctx)"
    and "id_entries ctx \<noteq> []"
  using assms unfolding idtbl_wf_def rh_inv_def by auto

lemma uniq_same_id: "uniq same_id M \<Longrightarrow> (k, v) \<in># M \<Longrightarrow> (k, v') \<in># M \<Longrightarrow> v = v'"
proof (rule ccontr)
  assume u: "uniq same_id M" and m: "(k, v) \<in># M" "(k, v') \<in># M" and "v \<noteq> v'"
  then have "{#(k, v), (k, v')#} \<subseteq># M"
    by (simp add: insert_subset_eq_iff in_diff_count)
  then show False using u unfolding uniq_def by force
qed

text \<open>The map of a table is its load, with the keys as the caller sees them.\<close>

lemma idtbl_map_load:
  assumes "idtbl_wf ctx"
  shows "idtbl_map ctx k = Some v \<longleftrightarrow> (k + 1, v) \<in># id_load ctx"
proof -
  let ?xs = "map (\<lambda>e. (ie_key e - 1, ie_value e)) (filter (\<lambda>e. ie_key e \<noteq> 0) (id_entries ctx))"
  have mem: "(k, v) \<in> set ?xs \<longleftrightarrow> (k + 1, v) \<in># id_load ctx" for k v
    unfolding load_view by (auto simp: image_iff)
  show ?thesis
  proof
    assume "idtbl_map ctx k = Some v"
    then show "(k + 1, v) \<in># id_load ctx" using mem unfolding idtbl_map_def by (blast dest: map_of_SomeD)
  next
    assume m: "(k + 1, v) \<in># id_load ctx"
    then obtain v' where v': "map_of ?xs k = Some v'" using mem weak_map_of_SomeI by fast
    then have "(k + 1, v') \<in># id_load ctx" using mem map_of_SomeD by fast
    then show "idtbl_map ctx k = Some v"
      using uniq_same_id [OF idtbl_wf_facts(5) [OF assms] m] v' by (simp add: idtbl_map_def)
  qed
qed

lemma succ_key_neq_0: "key \<noteq> 0xffffffff \<Longrightarrow> key + 1 \<noteq> (0 :: u32)"
proof -
  have "(0xffffffff :: u32) = - 1" by simp
  then show "key \<noteq> 0xffffffff \<Longrightarrow> key + 1 \<noteq> 0" using eq_neg_iff_add_eq_0 [of key 1] by metis
qed

lemma find_seeks: "k \<noteq> 0 \<Longrightarrow> id_probing.seeks (same_id (k, v)) (find_look k)"
  by (auto simp: id_probing.seeks_def find_look_def id_view_Some id_view_None word_less_nat_alt)

lemma id_home_start:
  assumes "idtbl_wf ctx"
  shows "id_home (ih_hashseed (id_header ctx)) (k, v) mod length (id_entries ctx)
    = unat (TABLE_INDEX ctx (hashfunc k (ih_hashseed (id_header ctx))))"
  by (simp add: id_home_def TABLE_INDEX_def sized_index [OF idtbl_wf_facts(1) [OF assms]])

lemma find_present:
  assumes "idtbl_wf ctx" "idtbl_map ctx key = Some v"
  obtains i d where "find_table_entry ctx key = Some (Some i)" "i < length (id_entries ctx)"
    "cell (map id_view (id_entries ctx)) i = Some ((key + 1, v), d)"
proof -
  note wf = idtbl_wf_facts [OF assms(1)]
  have m: "(key + 1, v) \<in># id_load ctx" using assms idtbl_map_load by blast
  then have k: "key + 1 \<noteq> 0" by (simp add: load_view)
  obtain x d where x: "x < length (id_entries ctx)" "cell (map id_view (id_entries ctx)) x = Some ((key + 1, v), d)"
    using load_in_cell [OF m] by auto
  have "find_table_entry ctx key = Some (Some (x mod length (id_entries ctx)))"
    unfolding find_table_entry_def Let_def
    by (rule id_probing.probe_found [OF wf(1,2) find_seeks [OF k] x(2) _ id_home_start [OF assms(1)]]) auto
  then show thesis using that x by simp
qed

lemma find_absent:
  assumes "idtbl_wf ctx" "idtbl_map ctx key = None" "key \<noteq> 0xffffffff"
  shows "find_table_entry ctx key = Some None"
proof -
  note wf = idtbl_wf_facts [OF assms(1)]
  have "\<not> same_id (key + 1, 0) q" if "q \<in># id_load ctx" for q
    using that assms(1,2) idtbl_map_load by (cases q) (metis fst_conv option.distinct(1))
  then show ?thesis unfolding find_table_entry_def Let_def TABLE_INDEX_def
    by (intro id_probing.probe_absent [OF wf(1) find_seeks [OF succ_key_neq_0 [OF assms(3)]]]
          sized_index_less [OF wf(1)])
qed

lemma idtbl_get_map:
  assumes "idtbl_wf ctx" "key \<noteq> 0xffffffff"
  shows "idtbl_get ctx key = Some (case idtbl_map ctx key of
    None \<Rightarrow> (IDTBL_ENOTFOUND, None) | Some v \<Rightarrow> (IDTBL_OK, Some v))"
proof (cases "idtbl_map ctx key")
  case None
  then show ?thesis using find_absent [OF assms(1) None assms(2)] by (simp add: idtbl_get_def)
next
  case (Some v)
  obtain i d where i: "find_table_entry ctx key = Some (Some i)" "i < length (id_entries ctx)"
    "cell (map id_view (id_entries ctx)) i = Some ((key + 1, v), d)" by (rule find_present [OF assms(1) Some])
  then have "id_view (id_entries ctx ! i) = Some ((key + 1, v), d)"
    using idtbl_wf_facts(6) [OF assms(1)] by (simp add: id_probing.cell_slots)
  then show ?thesis using i(1) Some by (simp add: idtbl_get_def id_view_Some)
qed

lemma idtbl_contains_map:
  assumes "idtbl_wf ctx" "key \<noteq> 0xffffffff"
  shows "idtbl_contains ctx key = Some (if key \<in> dom (idtbl_map ctx) then 1 else 0)"
proof (cases "idtbl_map ctx key")
  case None
  then show ?thesis using find_absent [OF assms(1) None assms(2)] by (auto simp: idtbl_contains_def)
next
  case (Some v)
  then show ?thesis
    by (rule find_present [OF assms(1)]) (use Some in \<open>auto simp: idtbl_contains_def\<close>)
qed

text \<open>Two tables whose loads differ by one entry, seen as maps.\<close>

lemma idtbl_map_eqI:
  assumes "idtbl_wf ctx" "\<And>k v. m k = Some v \<longleftrightarrow> (k + 1, v) \<in># id_load ctx"
  shows "idtbl_map ctx = m"
proof
  fix k
  show "idtbl_map ctx k = m k"
    using idtbl_map_load [OF assms(1), of k] assms(2) [of k] by (metis not_Some_eq)
qed

lemma idtbl_remove_map:
  assumes "idtbl_wf ctx" "key \<noteq> 0xffffffff"
  shows "\<exists>ctx'. idtbl_remove ctx key
      = Some (if key \<in> dom (idtbl_map ctx) then IDTBL_OK else IDTBL_ENOTFOUND, ctx')
    \<and> idtbl_wf ctx' \<and> idtbl_map ctx' = (idtbl_map ctx)(key := None)"
proof (cases "idtbl_map ctx key")
  case None
  then have "(idtbl_map ctx)(key := None) = idtbl_map ctx" by auto
  then show ?thesis using find_absent [OF assms(1) None assms(2)] assms(1) None
    by (auto simp: idtbl_remove_def)
next
  case (Some v)
  note wf = idtbl_wf_facts [OF assms(1)]
  obtain i d where i: "find_table_entry ctx key = Some (Some i)" "i < length (id_entries ctx)"
    "cell (map id_view (id_entries ctx)) i = Some ((key + 1, v), d)" by (rule find_present [OF assms(1) Some])
  have u: "unat (of_nat i :: u32) = i mod length (id_entries ctx)"
    using id_probing.unat_small [OF i(2) wf(1)] i(2) by simp
  obtain z es' M where s: "shift_loop shifts_back (\<lambda>e. e\<lparr>ie_distance := ie_distance e - 1\<rparr>)
      (ih_modmask (id_header ctx)) (of_nat i) (TABLE_INDEX ctx (of_nat i + 1)) (id_entries ctx) = Some (z, es')"
    "length es' = length (id_entries ctx)"
    "rh_inv (id_home (ih_hashseed (id_header ctx))) same_id (map id_view (es'[unat z := empty_entry]))"
    "load (map id_view (es'[unat z := empty_entry])) = M" "id_load ctx = add_mset (key + 1, v) M"
    unfolding TABLE_INDEX_def
    using id_probing.removed [OF wf(1,2) i(3) u, of empty_entry]
    by (auto simp: id_view_None empty_entry_def)
  let ?ctx = "ctx\<lparr>id_header := (id_header ctx)\<lparr>ih_size := ih_size (id_header ctx) - 1\<rparr>,
    id_entries := es'[unat z := empty_entry]\<rparr>"
  have sz: "unat (ih_size (id_header ctx) - 1) = size M"
    using wf(4) s(5) by (simp add: unat_pred_small)
  have wf': "idtbl_wf ?ctx"
    using assms(1) s sz unfolding idtbl_wf_def by (simp add: sized_def)
  have "idtbl_map ?ctx = (idtbl_map ctx)(key := None)"
  proof (rule idtbl_map_eqI [OF wf'])
    fix k v'
    have "(key + 1, v') \<notin># M"
      using uniq_remaining [of same_id "(key + 1, v)" M "(key + 1, v')"] wf(5) s(5) by auto
    then show "((idtbl_map ctx)(key := None)) k = Some v' \<longleftrightarrow> (k + 1, v') \<in># id_load ?ctx"
      using idtbl_map_load [OF assms(1), of k v'] s(4,5) by auto
  qed
  then show ?thesis using i(1) s(1) wf' Some by (auto simp: idtbl_remove_def Let_def)
qed

lemma set_table_value_map:
  assumes "idtbl_wf ctx" "key \<noteq> 0xffffffff" "ih_size (id_header ctx) < ih_cap (id_header ctx)"
  shows "\<exists>ctx'. set_table_value ctx key v = Some (IDTBL_OK, ctx') \<and> idtbl_wf ctx'
    \<and> idtbl_map ctx' = (idtbl_map ctx)(key \<mapsto> v)
    \<and> ih_cap (id_header ctx') = ih_cap (id_header ctx)
    \<and> unat (ih_size (id_header ctx')) \<le> Suc (unat (ih_size (id_header ctx)))"
proof -
  note wf = idtbl_wf_facts [OF assms(1)]
  let ?h = "id_header ctx" and ?es = "id_entries ctx" and ?p = "(key + 1, v)"
  let ?elem = "\<lparr>ie_distance = 0, ie_key = key + 1, ie_value = v\<rparr>"
  let ?start = "TABLE_INDEX ctx (hashfunc (key + 1) (ih_hashseed ?h))"
  let ?loop = "insert_loop (\<lambda>e. ie_key e = 0) (\<lambda>e. ie_key e = key + 1)
    (\<lambda>c e. sint (ie_distance c) < sint (ie_distance e)) (\<lambda>e. e\<lparr>ie_distance := ie_distance e + 1\<rparr>)
    (ih_modmask ?h) ?start ?start ?elem ?es"
  have k: "key + 1 \<noteq> 0" by (rule succ_key_neq_0 [OF assms(2)])
  have ve: "id_view ?elem = Some (?p, 0)" using k by (simp add: id_view_Some)
  have same: "ie_key c = key + 1 \<longleftrightarrow> same_id ?p q" if "id_view c = Some (q, x)" for c q x
    using that by (auto simp: id_view_Some)
  have sz: "size (id_load ctx) < length ?es"
    using assms(3) wf(3,4) by (simp add: word_less_nat_alt)
  have small: "Suc (size (id_load ctx)) < 2 ^ 32" using sz sized_length [OF wf(1)] by simp
  show ?thesis
  proof (cases "idtbl_map ctx key")
    case None
    then have new: "\<not> same_id ?p q \<and> \<not> same_id q ?p" if "q \<in># id_load ctx" for q
      using that assms(1) idtbl_map_load by (cases q) (metis fst_conv option.distinct(1))
    have "\<exists>x e' es'. ?loop = Some (Vacant x e' es') \<and> unat x < length ?es \<and> length es' = length ?es
      \<and> rh_inv (id_home (ih_hashseed ?h)) same_id (map id_view (es'[unat x := e']))
      \<and> load (map id_view (es'[unat x := e'])) = add_mset ?p (id_load ctx)"
      by (rule id_probing.insert_new [OF wf(1,2) sz ve id_home_start [OF assms(1)]]; erule same new)
    then obtain x e' es' where l: "?loop = Some (Vacant x e' es')" "length es' = length ?es"
      "rh_inv (id_home (ih_hashseed ?h)) same_id (map id_view (es'[unat x := e']))"
      "load (map id_view (es'[unat x := e'])) = add_mset ?p (id_load ctx)"
      by blast
    let ?ctx = "ctx\<lparr>id_header := ?h\<lparr>ih_size := ih_size ?h + 1\<rparr>, id_entries := es'[unat x := e']\<rparr>"
    have absent: "(key + 1, v') \<notin># id_load ctx" for v' using new [of "(key + 1, v')"] by auto
    have s1: "unat (ih_size ?h + 1) = Suc (size (id_load ctx))"
      using wf(4) small by (simp add: unat_word_ariths)
    have wf': "idtbl_wf ?ctx"
      using assms(1) l s1 unfolding idtbl_wf_def by (simp add: sized_def)
    have "idtbl_map ?ctx = (idtbl_map ctx)(key \<mapsto> v)"
      by (rule idtbl_map_eqI [OF wf'])
        (use idtbl_map_load [OF assms(1)] l(4) absent in \<open>auto split: if_splits\<close>)
    then show ?thesis using l(1) wf' s1 wf(4) assms(2,3) by (simp add: set_table_value_def Let_def)
  next
    case (Some v0)
    then have "(key + 1, v0) \<in># id_load ctx" using idtbl_map_load [OF assms(1)] by blast
    then obtain x0 d where x0: "x0 < length ?es" "cell (map id_view ?es) x0 = Some ((key + 1, v0), d)"
      using load_in_cell by (metis length_map)
    have "\<exists>x e'. ?loop = Some (Match x e' ?es) \<and> unat x = x0 mod length ?es \<and> id_view e' = Some (?p, d)"
      by (rule id_probing.insert_existing [OF wf(1,2) ve id_home_start [OF assms(1)] id_home_start [OF assms(1)] _ x0(2)])
        (erule same, auto)
    then obtain x e' where l: "?loop = Some (Match x e' ?es)" "unat x = x0 mod length ?es" "id_view e' = Some (?p, d)"
      by blast
    let ?ctx = "ctx\<lparr>id_entries := ?es[unat x := e']\<rparr>"
    have hm: "id_home (ih_hashseed ?h) ?p mod length ?es = id_home (ih_hashseed ?h) (key + 1, v0) mod length ?es"
      by (simp add: id_home_def)
    note ow = id_probing.overwrite [OF wf(2) x0(2) l(3) hm, simplified, folded l(2)]
    have ld: "add_mset (key + 1, v0) (id_load ?ctx) = add_mset ?p (id_load ctx)"
      using ow(2) l(2) by simp
    then have "size (id_load ?ctx) = size (id_load ctx)" by (metis size_add_mset nat.inject)
    then have wf': "idtbl_wf ?ctx"
      using assms(1) ow(1) l(2) unfolding idtbl_wf_def by (simp add: sized_def)
    obtain M where M1: "id_load ctx = add_mset (key + 1, v0) M"
      using \<open>(key + 1, v0) \<in># id_load ctx\<close> by (metis mset_add)
    have "add_mset (key + 1, v0) (id_load ?ctx) = add_mset (key + 1, v0) (add_mset ?p M)"
      unfolding ld M1 by (rule add_mset_commute)
    then have M2: "id_load ?ctx = add_mset ?p M" by (simp only: add_mset_add_mset_same_iff)
    note M = M1 M2
    have gone: "(key + 1, v') \<notin># M" for v'
      using uniq_remaining [of same_id "(key + 1, v0)" M "(key + 1, v')"] wf(5) M(1) by auto
    have "idtbl_map ?ctx = (idtbl_map ctx)(key \<mapsto> v)"
    proof (rule idtbl_map_eqI [OF wf'])
      fix k v'
      show "((idtbl_map ctx)(key \<mapsto> v)) k = Some v' \<longleftrightarrow> (k + 1, v') \<in># id_load ?ctx"
        unfolding M(2) using idtbl_map_load [OF assms(1), of k v'] gone unfolding M(1) by auto
    qed
    then show ?thesis using l(1) wf' assms(2,3) by (simp add: set_table_value_def Let_def)
  qed
qed

section \<open>Creating and growing a table\<close>

lemma init_table_wf:
  assumes "init_table ok nslots seed = Some ctx" "0 < nslots"
  shows "idtbl_wf ctx \<and> idtbl_map ctx = Map.empty \<and> ih_size (id_header ctx) = 0
    \<and> ih_cap (id_header ctx) = round_up_pow2 nslots \<and> nslots \<le> ih_cap (id_header ctx)
    \<and> (\<forall>e \<in> set (id_entries ctx). e = empty_entry)"
proof -
  have ge: "nslots \<le> round_up_pow2 nslots"
    and h: "id_header ctx = \<lparr>ih_cap = round_up_pow2 nslots, ih_size = 0, ih_hashseed = hashfunc seed FNV1A_OFFSET,
      ih_modmask = round_up_pow2 nslots - 1, ih_rehash_limit = REHASH_LIMIT (round_up_pow2 nslots)\<rparr>"
    and es: "id_entries ctx = replicate (unat (round_up_pow2 nslots)) empty_entry"
    using assms(1) by (auto simp: init_table_def init_header_def Let_def not_less split: if_splits option.splits)
  note c = round_up_pow2_cap [OF assms(2) ge]
  have sl: "map id_view (id_entries ctx) = replicate (unat (round_up_pow2 nslots)) None"
    unfolding es by (simp add: id_view_def empty_entry_def)
  have wf: "idtbl_wf ctx"
    unfolding idtbl_wf_def sl using h es c(1) c(2) [of "id_entries ctx"] rh_inv_vacant by simp
  moreover have "idtbl_map ctx = Map.empty"
    by (rule idtbl_map_eqI [OF wf]) (simp add: sl)
  ultimately show ?thesis using h es ge by simp
qed

definition id_pairs :: "idtbl_entry list \<Rightarrow> (u32 \<times> u64) list" where
  "id_pairs es = map (\<lambda>e. (ie_key e - 1, ie_value e)) (filter (\<lambda>e. ie_key e \<noteq> 0) es)"

lemma id_pairs_simps [simp]: "id_pairs [] = []"
  "id_pairs (e # es) = (if ie_key e \<noteq> 0 then (ie_key e - 1, ie_value e) # id_pairs es else id_pairs es)"
  by (simp_all add: id_pairs_def)

lemma pred_key_neq_max: "k \<noteq> 0 \<Longrightarrow> k - 1 \<noteq> (0xffffffff :: u32)"
proof -
  have m: "(0xffffffff :: u32) = - 1" by simp
  show "k \<noteq> 0 \<Longrightarrow> k - 1 \<noteq> 0xffffffff"
    unfolding m by (metis add.right_neutral add_diff_cancel_left' diff_eq_eq eq_neg_iff_add_eq_0)
qed

lemma reinsert_map:
  assumes "idtbl_wf ctx" "distinct (map fst (id_pairs es))"
    and "unat (ih_size (id_header ctx)) + length es < unat (ih_cap (id_header ctx))"
  shows "\<exists>ctx'. reinsert es ctx = Some ctx' \<and> idtbl_wf ctx'
    \<and> idtbl_map ctx' = idtbl_map ctx ++ map_of (id_pairs es)
    \<and> ih_cap (id_header ctx') = ih_cap (id_header ctx)"
  using assms
proof (induction es arbitrary: ctx)
  case (Cons e es)
  show ?case
  proof (cases "ie_key e = 0")
    case True
    then show ?thesis using Cons by simp
  next
    case False
    let ?k = "ie_key e - 1" and ?v = "ie_value e"
    have lt: "ih_size (id_header ctx) < ih_cap (id_header ctx)"
      using Cons.prems(3) by (simp add: word_less_nat_alt)
    obtain ctx1 where c: "set_table_value ctx ?k ?v = Some (IDTBL_OK, ctx1)" "idtbl_wf ctx1"
      "idtbl_map ctx1 = (idtbl_map ctx)(?k \<mapsto> ?v)" "ih_cap (id_header ctx1) = ih_cap (id_header ctx)"
      "unat (ih_size (id_header ctx1)) \<le> Suc (unat (ih_size (id_header ctx)))"
      using set_table_value_map [OF Cons.prems(1) pred_key_neq_max [OF False] lt] by blast
    have d: "distinct (map fst (id_pairs es))" "?k \<notin> dom (map_of (id_pairs es))"
      using Cons.prems(2) False by (simp_all add: dom_map_of_conv_image_fst)
    have "unat (ih_size (id_header ctx1)) + length es < unat (ih_cap (id_header ctx1))"
      using c(4,5) Cons.prems(3) by simp
    then obtain ctx' where r: "reinsert es ctx1 = Some ctx'" "idtbl_wf ctx'"
      "idtbl_map ctx' = idtbl_map ctx1 ++ map_of (id_pairs es)" "ih_cap (id_header ctx') = ih_cap (id_header ctx1)"
      using Cons.IH [OF c(2) d(1)] by blast
    have "(idtbl_map ctx)(?k \<mapsto> ?v) ++ map_of (id_pairs es)
        = idtbl_map ctx ++ map_of (id_pairs (e # es))"
      using d(2) False by (auto simp: fun_eq_iff map_add_def split: option.splits)
    then have "idtbl_map ctx' = idtbl_map ctx ++ map_of (id_pairs (e # es))" using r(3) c(3) by metis
    moreover have "reinsert (e # es) ctx = Some ctx'" using c(1) r(1) False by simp
    ultimately show ?thesis using r(2,4) c(4) by metis
  qed
qed simp

lemma idtbl_map_pairs: "idtbl_map ctx = map_of (id_pairs (id_entries ctx))"
  by (simp add: idtbl_map_def id_pairs_def)

lemma distinct_id_pairs:
  "uniq same_id (load (map id_view es)) \<Longrightarrow> distinct (map fst (id_pairs es))"
proof (induction es)
  case (Cons e es)
  have u: "uniq same_id (load (map id_view es))"
    using Cons.prems by (rule uniq_mono) (simp add: load_def)
  show ?case
  proof (cases "ie_key e = 0")
    case False
    have l: "load (map id_view (e # es)) = add_mset (ie_key e, ie_value e) (load (map id_view es))"
      using False by (simp add: load_def id_view_def)
    have "ie_key e - 1 \<notin> fst ` set (id_pairs es)"
    proof
      assume "ie_key e - 1 \<in> fst ` set (id_pairs es)"
      then obtain f where f: "f \<in> set es" "ie_key f \<noteq> 0" "ie_key f = ie_key e"
        by (auto simp: id_pairs_def)
      then have "(ie_key e, ie_value f) \<in># load (map id_view es)" by (auto simp: load_view)
      then show False using uniq_remaining [OF Cons.prems [unfolded l]] by fastforce
    qed
    then show ?thesis using False Cons.IH [OF u] by simp
  qed (use Cons.IH [OF u] in simp)
qed simp

lemma size_map: "idtbl_wf ctx \<Longrightarrow> unat (ih_size (id_header ctx)) = card (dom (idtbl_map ctx))"
proof -
  assume wf: "idtbl_wf ctx"
  have "size (load (map id_view es)) = length (id_pairs es)" for es
    by (induction es) (auto simp: load_def id_view_def)
  then show ?thesis
    using idtbl_wf_facts(4) [OF wf] distinct_id_pairs [OF idtbl_wf_facts(5) [OF wf]]
    by (simp add: idtbl_map_pairs dom_map_of_conv_image_fst distinct_card flip: set_map)
qed

lemma idtbl_cap_power:
  assumes "idtbl_wf ctx"
  obtains k where "k \<le> 31" "ih_cap (id_header ctx) = 2 ^ k" "length (id_entries ctx) = 2 ^ k"
proof -
  obtain k where k: "k \<le> 31" "length (id_entries ctx) = 2 ^ k"
    using idtbl_wf_facts(1) [OF assms] unfolding sized_def by blast
  have "ih_cap (id_header ctx) = 2 ^ k"
    using idtbl_wf_facts(3) [OF assms] k unat_power2_u32 [OF k(1)] by (metis word_unat_eq_iff)
  then show thesis using that k by blast
qed

lemma grow_map:
  assumes "idtbl_wf ctx"
  shows "\<exists>ret ctx'. grow ok ctx = Some (ret, ctx') \<and> idtbl_wf ctx' \<and> idtbl_map ctx' = idtbl_map ctx
    \<and> (ret = IDTBL_OK \<and> ih_size (id_header ctx') < ih_cap (id_header ctx')
       \<or> ret = IDTBL_ENOMEM \<and> ctx' = ctx
         \<and> (ih_cap (id_header ctx) = 2 ^ 31 \<or> \<not> ok (IDTBL_SIZE (2 * ih_cap (id_header ctx)))))"
proof -
  obtain k where k: "k \<le> 31" "ih_cap (id_header ctx) = 2 ^ k" "length (id_entries ctx) = 2 ^ k"
    by (rule idtbl_cap_power [OF assms])
  have nc: "push_bit 1 (ih_cap (id_header ctx)) = 2 ^ Suc k" "2 * ih_cap (id_header ctx) = 2 ^ Suc k"
    by (simp_all add: k(2) push_bit_eq_mult)
  show ?thesis
  proof (cases "k = 31")
    case True
    have "(2 ^ Suc 31 :: u32) < 2 ^ 31" by simp
    then show ?thesis using assms k(2) True nc by (simp add: grow_def Let_def)
  next
    case False
    then have k31: "Suc k \<le> 31" using k(1) by simp
    then have u: "unat (2 ^ Suc k :: u32) = 2 ^ Suc k" by (rule unat_power2_u32)
    have nl: "\<not> (2 ^ Suc k :: u32) < 2 ^ k"
      unfolding word_less_nat_alt u unat_power2_u32 [OF k(1)] by simp
    have tk: "take (unat (ih_cap (id_header ctx))) (id_entries ctx) = id_entries ctx"
      using idtbl_wf_facts(3) [OF assms] by simp
    have gd: "grow ok ctx = (case init_table ok (2 ^ Suc k) (ih_hashseed (id_header ctx)) of
        None \<Rightarrow> Some (IDTBL_ENOMEM, ctx)
      | Some new_tbl \<Rightarrow> map_option (\<lambda>t. (IDTBL_OK, t)) (reinsert (id_entries ctx) new_tbl))"
      unfolding grow_def Let_def nc(1) tk using nl k(2) by (simp only: if_False)
    show ?thesis
    proof (cases "init_table ok (2 ^ Suc k) (ih_hashseed (id_header ctx))")
      case None
      then have "\<not> ok (IDTBL_SIZE (2 ^ Suc k))"
        using round_up_pow2_exact [OF k31]
        by (auto simp: init_table_def init_header_def Let_def split: if_splits)
      then show ?thesis using None assms unfolding gd nc(2) by simp
    next
      case (Some new)
      have pos: "0 < (2 ^ Suc k :: u32)" unfolding word_less_nat_alt u by simp
      note n = init_table_wf [OF Some pos]
      have cap: "unat (ih_cap (id_header new)) = 2 ^ Suc k"
        using n round_up_pow2_exact [OF k31] u by simp
      obtain ctx' where c: "reinsert (id_entries ctx) new = Some ctx'" "idtbl_wf ctx'"
        "idtbl_map ctx' = idtbl_map new ++ map_of (id_pairs (id_entries ctx))"
        "ih_cap (id_header ctx') = ih_cap (id_header new)"
        using reinsert_map [of new "id_entries ctx"] n distinct_id_pairs [OF idtbl_wf_facts(5) [OF assms]] cap k(3)
        by auto
      have m: "idtbl_map ctx' = idtbl_map ctx" using c(3) n by (simp add: idtbl_map_pairs)
      have "unat (ih_size (id_header ctx')) = unat (ih_size (id_header ctx))"
        using size_map [OF assms] size_map [OF c(2)] m by simp
      also have "\<dots> \<le> 2 ^ k"
        using idtbl_wf_facts(4) [OF assms] size_load [of "map id_view (id_entries ctx)"] k(3) by simp
      also have "\<dots> < 2 ^ Suc k" by simp
      finally have "ih_size (id_header ctx') < ih_cap (id_header ctx')"
        using c(4) cap by (simp only: word_less_nat_alt)
      then show ?thesis using Some c(1,2) m unfolding gd by simp
    qed
  qed
qed

lemma idtbl_insert_map:
  assumes "idtbl_wf ctx"
  shows "\<exists>ret ctx'. idtbl_insert ok ctx key v = Some (ret, ctx') \<and> idtbl_wf ctx'
    \<and> (ret = IDTBL_OK \<and> key \<noteq> 0xffffffff \<and> idtbl_map ctx' = (idtbl_map ctx)(key \<mapsto> v)
       \<or> ret = IDTBL_EINVAL \<and> key = 0xffffffff \<and> idtbl_map ctx' = idtbl_map ctx
       \<or> ret = IDTBL_ENOMEM \<and> ctx' = ctx \<and> ih_rehash_limit (id_header ctx) \<le> ih_size (id_header ctx)
         \<and> (ih_cap (id_header ctx) = 2 ^ 31 \<or> \<not> ok (IDTBL_SIZE (2 * ih_cap (id_header ctx)))))"
proof -
  have put: "\<exists>ret ctx'. set_table_value c key v = Some (ret, ctx') \<and> idtbl_wf ctx'
    \<and> (ret = IDTBL_OK \<and> key \<noteq> 0xffffffff \<and> idtbl_map ctx' = (idtbl_map c)(key \<mapsto> v)
       \<or> ret = IDTBL_EINVAL \<and> key = 0xffffffff \<and> idtbl_map ctx' = idtbl_map c)"
    if c: "idtbl_wf c" "ih_size (id_header c) < ih_cap (id_header c)" for c
  proof (cases "key = 0xffffffff")
    case True
    then show ?thesis using c by (simp add: set_table_value_def)
  next
    case False
    then show ?thesis using set_table_value_map [OF c(1) False c(2)] by blast
  qed
  show ?thesis
  proof (cases "ih_rehash_limit (id_header ctx) \<le> ih_size (id_header ctx)")
    case True
    obtain ret ctx1 where g: "grow ok ctx = Some (ret, ctx1)" "idtbl_wf ctx1" "idtbl_map ctx1 = idtbl_map ctx"
      "ret = IDTBL_OK \<and> ih_size (id_header ctx1) < ih_cap (id_header ctx1)
       \<or> ret = IDTBL_ENOMEM \<and> ctx1 = ctx
         \<and> (ih_cap (id_header ctx) = 2 ^ 31 \<or> \<not> ok (IDTBL_SIZE (2 * ih_cap (id_header ctx))))"
      using grow_map [OF assms] by blast
    show ?thesis
    proof (cases "ret = IDTBL_OK")
      case ret: True
      then show ?thesis using put [OF g(2)] g True by (auto simp: idtbl_insert_def)
    next
      case False
      then show ?thesis using g True by (auto simp: idtbl_insert_def)
    qed
  next
    case False
    have "ih_rehash_limit (id_header ctx) \<le> ih_cap (id_header ctx)"
      using assms unfolding idtbl_wf_def REHASH_LIMIT_def
      by (simp add: word_le_nat_alt unat_sub unat_div div_le_dividend)
    then have "ih_size (id_header ctx) < ih_cap (id_header ctx)" using False by simp
    then show ?thesis using put [OF assms] False by (auto simp: idtbl_insert_def)
  qed
qed

section \<open>Refinement\<close>

text \<open>The calls of a client and what a finite map answers to them.\<close>

datatype id_op = Id_insert u32 u64 | Id_remove u32 | Id_get u32 | Id_contains u32

datatype id_answer = Status idtbl_status | Lookup idtbl_status "u64 option" | Flag int

fun id_step :: "allocator \<Rightarrow> id_op \<Rightarrow> idtbl_ctx \<Rightarrow> (id_answer \<times> idtbl_ctx) option" where
  "id_step ok (Id_insert k v) ctx = map_option (\<lambda>(r, c). (Status r, c)) (idtbl_insert ok ctx k v)"
| "id_step ok (Id_remove k) ctx = map_option (\<lambda>(r, c). (Status r, c)) (idtbl_remove ctx k)"
| "id_step ok (Id_get k) ctx = map_option (\<lambda>(r, v). (Lookup r v, ctx)) (idtbl_get ctx k)"
| "id_step ok (Id_contains k) ctx = map_option (\<lambda>b. (Flag b, ctx)) (idtbl_contains ctx k)"

fun id_key :: "id_op \<Rightarrow> u32" where
  "id_key (Id_insert k v) = k"
| "id_key (Id_remove k) = k"
| "id_key (Id_get k) = k"
| "id_key (Id_contains k) = k"

fun id_valid :: "id_op \<Rightarrow> bool" where
  "id_valid (Id_insert k v) = True"
| "id_valid opn \<longleftrightarrow> id_key opn \<noteq> 0xffffffff"

inductive id_allows :: "id_op \<Rightarrow> (u32 \<rightharpoonup> u64) \<Rightarrow> id_answer \<Rightarrow> (u32 \<rightharpoonup> u64) \<Rightarrow> bool" where
  insert_ok: "k \<noteq> 0xffffffff \<Longrightarrow> id_allows (Id_insert k v) m (Status IDTBL_OK) (m(k \<mapsto> v))"
| insert_invalid: "id_allows (Id_insert 0xffffffff v) m (Status IDTBL_EINVAL) m"
| insert_nomem: "id_allows (Id_insert k v) m (Status IDTBL_ENOMEM) m"
| remove_ok: "k \<in> dom m \<Longrightarrow> id_allows (Id_remove k) m (Status IDTBL_OK) (m(k := None))"
| remove_missing: "k \<notin> dom m \<Longrightarrow> id_allows (Id_remove k) m (Status IDTBL_ENOTFOUND) m"
| get_ok: "m k = Some v \<Longrightarrow> id_allows (Id_get k) m (Lookup IDTBL_OK (Some v)) m"
| get_missing: "m k = None \<Longrightarrow> id_allows (Id_get k) m (Lookup IDTBL_ENOTFOUND None) m"
| contains_yes: "k \<in> dom m \<Longrightarrow> id_allows (Id_contains k) m (Flag 1) m"
| contains_no: "k \<notin> dom m \<Longrightarrow> id_allows (Id_contains k) m (Flag 0) m"

interpretation id_table: simulation "id_step ok" id_valid idtbl_wf idtbl_map id_allows for ok
proof unfold_locales
  fix ctx opn
  assume wf: "idtbl_wf ctx" and v: "id_valid opn"
  show "\<exists>r c. id_step ok opn ctx = Some (r, c) \<and> idtbl_wf c \<and> id_allows opn (idtbl_map ctx) r (idtbl_map c)"
  proof (cases opn)
    case (Id_insert k x)
    then show ?thesis using idtbl_insert_map [OF wf, of ok k x]
      by (auto intro: id_allows.intros)
  next
    case (Id_remove k)
    obtain c where c: "idtbl_remove ctx k
        = Some (if k \<in> dom (idtbl_map ctx) then IDTBL_OK else IDTBL_ENOTFOUND, c)"
      "idtbl_wf c" "idtbl_map c = (idtbl_map ctx)(k := None)"
      using idtbl_remove_map [OF wf, of k] v Id_remove by auto
    have "k \<notin> dom (idtbl_map ctx) \<Longrightarrow> idtbl_map c = idtbl_map ctx" using c(3) by (auto simp: fun_upd_idem_iff)
    then show ?thesis using c Id_remove by (cases "k \<in> dom (idtbl_map ctx)") (auto intro: id_allows.intros)
  next
    case (Id_get k)
    then show ?thesis using idtbl_get_map [OF wf, of k] v wf
      by (cases "idtbl_map ctx k") (auto intro: id_allows.intros)
  next
    case (Id_contains k)
    then show ?thesis using idtbl_contains_map [OF wf, of k] v wf
      by (cases "k \<in> dom (idtbl_map ctx)") (auto intro: id_allows.intros)
  qed
qed

lemma idtbl_init_wf:
  assumes "idtbl_init ok nslots seed = (IDTBL_OK, Some ctx)"
  shows "idtbl_wf ctx" "idtbl_map ctx = Map.empty"
    and "ih_size (id_header ctx) = 0" "\<And>e. e \<in> set (id_entries ctx) \<Longrightarrow> e = empty_entry"
proof -
  define n where "n = (if nslots = 0 then 1 else nslots)"
  have n: "\<not> REHASH_ROUND_UP n < n" "init_table ok (REHASH_ROUND_UP n) seed = Some ctx"
    using assms unfolding idtbl_init_def n_def [symmetric] Let_def
    by (auto split: if_splits option.splits)
  have "0 < n" unfolding n_def by (simp add: word_gt_0)
  then have "0 < REHASH_ROUND_UP n" using n(1) by simp
  then show "idtbl_wf ctx" "idtbl_map ctx = Map.empty" "ih_size (id_header ctx) = 0"
    "\<And>e. e \<in> set (id_entries ctx) \<Longrightarrow> e = empty_entry" using init_table_wf [OF n(2)] by auto
qed


lemmas idtbl_eval = idtbl_init_def init_table_def init_header_def round_up_pow2_def REHASH_ROUND_UP_def
  REHASH_LIMIT_def hashfunc_def FNV1A_OFFSET_def FNV1A_PRIME_def IDTBL_SIZE_def empty_entry_def Let_def


text \<open>
  The id UINT32_MAX is rejected by an insertion but wraps to the marker of an empty slot in
  the other operations: on a new table it is reported as contained, and removing it reports
  success and makes the size of the empty table 2^32 - 1.
\<close>
theorem idtbl_max_id_matches_empty:
  assumes "idtbl_init ok nslots seed = (IDTBL_OK, Some ctx)"
  shows "idtbl_contains ctx 0xffffffff = Some 1
    \<and> (\<exists>ctx'. idtbl_remove ctx 0xffffffff = Some (IDTBL_OK, ctx') \<and> idtbl_size ctx' = 0xffffffff)"
proof -
  note init = idtbl_init_wf [OF assms]
  note wf = idtbl_wf_facts [OF init(1)]
  let ?start = "TABLE_INDEX ctx (hashfunc 0 (ih_hashseed (id_header ctx)))"
  have lt: "unat (TABLE_INDEX ctx w) < length (id_entries ctx)" for w
    unfolding TABLE_INDEX_def by (rule sized_index_less [OF wf(1)])
  have e: "id_entries ctx ! unat (TABLE_INDEX ctx w) = empty_entry" for w
    by (rule init(4)) (rule nth_mem [OF lt])
  have z: "(0xffffffff :: u32) + 1 = 0" by simp
  have f: "find_table_entry ctx 0xffffffff = Some (Some (unat ?start))"
    unfolding find_table_entry_def Let_def z using lt e
    by (subst probe_loop.simps) (simp add: find_look_def empty_entry_def)
  have "shift_loop shifts_back (\<lambda>e. e\<lparr>ie_distance := ie_distance e - 1\<rparr>) (ih_modmask (id_header ctx))
      ?start (TABLE_INDEX ctx (?start + 1)) (id_entries ctx) = Some (?start, id_entries ctx)"
    using lt e by (subst shift_loop.simps) (simp add: shifts_back_def empty_entry_def)
  then show ?thesis
    using f init(3) by (simp add: idtbl_contains_def idtbl_remove_def idtbl_size_def Let_def)
qed

theorem idtbl_max_id_matches_empty_witness:
  "\<exists>ctx. idtbl_init (\<lambda>_. True) 2 7 = (IDTBL_OK, Some ctx) \<and> idtbl_contains ctx 0xffffffff = Some 1"
proof -
  obtain ctx where c: "idtbl_init (\<lambda>_. True) 2 7 = (IDTBL_OK, Some ctx)"
    by (simp add: idtbl_eval)
  from idtbl_max_id_matches_empty [OF c] c show ?thesis by blast
qed

end
