(* ===== verification/Objtbl.thy ===== *)
theory Objtbl
  imports Robin_Hood Simulation
begin

text \<open>
  The table of objects with client-supplied hash and comparison functions (lib/util/objtbl.c,
  lib/util/objtbl.h). A pointer to an object is an option, None being NULL; the functions of
  the client take pointers. The table is shown to refine a set of objects that are pairwise
  different for the comparison.
\<close>

section \<open>Data\<close>

datatype objtbl_status = OBJTBL_OK | OBJTBL_ENOTFOUND | OBJTBL_EFULL | OBJTBL_EINVAL | OBJTBL_ENOSLOT
  | OBJTBL_ENOMEM

fun objtbl_code :: "objtbl_status \<Rightarrow> status" where
  "objtbl_code OBJTBL_OK = 0"
| "objtbl_code OBJTBL_ENOTFOUND = -1"
| "objtbl_code OBJTBL_EFULL = -2"
| "objtbl_code OBJTBL_EINVAL = -3"
| "objtbl_code OBJTBL_ENOSLOT = -4"
| "objtbl_code OBJTBL_ENOMEM = -5"

record 'o objtbl_entry =
  oe_hash :: u32
  oe_distance :: u32
  oe_value :: "'o option"

record 'o objtbl_opts =
  oo_hashseed :: u32
  oo_hashfunc :: "'o option \<Rightarrow> u32 \<Rightarrow> u32"
  oo_cmpfunc :: "'o option \<Rightarrow> 'o option \<Rightarrow> int"

record 'o objtbl_header =
  oh_cap :: u32
  oh_size :: u32
  oh_modmask :: u32
  oh_rehash_limit :: u32
  oh_opts :: "'o objtbl_opts"

record 'o objtbl_ctx =
  ob_header :: "'o objtbl_header"
  ob_entries :: "'o objtbl_entry list"

definition objtbl_size :: "'o objtbl_ctx \<Rightarrow> u32" where
  "objtbl_size ctx = oh_size (ob_header ctx)"

definition objtbl_cap :: "'o objtbl_ctx \<Rightarrow> u32" where
  "objtbl_cap ctx = oh_cap (ob_header ctx)"

definition ENTRY_IS_EMPTY :: "'o objtbl_entry \<Rightarrow> bool" where
  "ENTRY_IS_EMPTY e \<longleftrightarrow> oe_hash e = 0"

definition empty_entry :: "'o objtbl_entry" where
  "empty_entry = \<lparr>oe_hash = 0, oe_distance = 0, oe_value = None\<rparr>"

section \<open>Operations\<close>

definition OBJTBL_SIZE :: "u32 \<Rightarrow> size_t" where
  "OBJTBL_SIZE cap = ucast cap * 16"

definition TABLE_INDEX :: "'o objtbl_ctx \<Rightarrow> u32 \<Rightarrow> u32" where
  "TABLE_INDEX tbl val = val AND oh_modmask (ob_header tbl)"

text \<open>The header is filled in two steps; the options are stored by \<open>init_table\<close>.\<close>

definition init_header :: "'o objtbl_opts \<Rightarrow> u32 \<Rightarrow> 'o objtbl_header option" where
  "init_header opts nslots =
    (let cap = round_up_pow2 nslots in
     if cap < nslots then None
     else Some \<lparr>oh_cap = cap, oh_size = 0, oh_modmask = cap - 1, oh_rehash_limit = REHASH_LIMIT cap,
                oh_opts = opts\<rparr>)"

definition init_table :: "allocator \<Rightarrow> 'o objtbl_opts \<Rightarrow> u32 \<Rightarrow> 'o objtbl_ctx option" where
  "init_table ok opts nslots =
    (case init_header opts nslots of
      None \<Rightarrow> None
    | Some hdr \<Rightarrow>
        if ok (OBJTBL_SIZE (oh_cap hdr))
        then Some \<lparr>ob_header = hdr, ob_entries = replicate (unat (oh_cap hdr)) empty_entry\<rparr>
        else None)"

definition copy_table :: "allocator \<Rightarrow> 'o objtbl_ctx \<Rightarrow> 'o objtbl_ctx option" where
  "copy_table ok src =
    (if ok (OBJTBL_SIZE (oh_cap (ob_header src)))
     then Some (src\<lparr>ob_entries := take (unat (oh_cap (ob_header src))) (ob_entries src)\<rparr>)
     else None)"

text \<open>
  After a cleanup every field is zero, the function pointers included: a call through them is
  undefined.
\<close>

definition objtbl_cleanup :: "'o objtbl_ctx \<Rightarrow> 'o objtbl_ctx" where
  "objtbl_cleanup tbl = \<lparr>ob_header = \<lparr>oh_cap = 0, oh_size = 0, oh_modmask = 0, oh_rehash_limit = 0,
     oh_opts = \<lparr>oo_hashseed = 0, oo_hashfunc = (\<lambda>_ _. undefined), oo_cmpfunc = (\<lambda>_ _. undefined)\<rparr>\<rparr>,
     ob_entries = []\<rparr>"

definition calchash :: "'o objtbl_opts \<Rightarrow> 'o option \<Rightarrow> u32" where
  "calchash opts keyobj =
    (let h = oo_hashfunc opts keyobj (oo_hashseed opts) in if h = 0 then h + 1 else h)"

definition find_look :: "'o objtbl_opts \<Rightarrow> 'o option \<Rightarrow> u32 \<Rightarrow> 'o objtbl_entry \<Rightarrow> verdict" where
  "find_look opts keyobj distance elem =
    (if ENTRY_IS_EMPTY elem \<or> oe_distance elem < distance then Stop
     else if oo_cmpfunc opts keyobj (oe_value elem) = 0 then Found
     else Go)"

definition find_table_entry :: "'o objtbl_ctx \<Rightarrow> 'o option \<Rightarrow> nat option option" where
  "find_table_entry tbl keyobj =
    (if keyobj = None then Some None
     else
       let opts = oh_opts (ob_header tbl);
           start_pos = TABLE_INDEX tbl (calchash opts keyobj)
       in probe_loop (find_look opts keyobj) (oh_modmask (ob_header tbl)) (ob_entries tbl)
            start_pos start_pos 0)"

definition objtbl_get :: "'o objtbl_ctx \<Rightarrow> 'o option \<Rightarrow> (objtbl_status \<times> 'o option option) option" where
  "objtbl_get tbl keyobj = map_option (\<lambda>ent. case ent of
      None \<Rightarrow> (OBJTBL_ENOTFOUND, None)
    | Some i \<Rightarrow> (OBJTBL_OK, Some (oe_value (ob_entries tbl ! i)))) (find_table_entry tbl keyobj)"

definition objtbl_contains :: "'o objtbl_ctx \<Rightarrow> 'o option \<Rightarrow> int option" where
  "objtbl_contains tbl keyobj =
    map_option (\<lambda>ent. case ent of None \<Rightarrow> 0 | Some _ \<Rightarrow> 1) (find_table_entry tbl keyobj)"

definition shifts_back :: "'o objtbl_entry \<Rightarrow> bool" where
  "shifts_back e \<longleftrightarrow> \<not> ENTRY_IS_EMPTY e \<and> 0 < sint (oe_distance e)"

definition objtbl_remove :: "'o objtbl_ctx \<Rightarrow> 'o option \<Rightarrow> (objtbl_status \<times> 'o objtbl_ctx) option" where
  "objtbl_remove tbl keyobj =
    (case find_table_entry tbl keyobj of
      None \<Rightarrow> None
    | Some None \<Rightarrow> Some (OBJTBL_ENOTFOUND, tbl)
    | Some (Some i) \<Rightarrow>
        (let cur = of_nat i; nxt = TABLE_INDEX tbl (cur + 1) in
         case shift_loop shifts_back (\<lambda>e. e\<lparr>oe_distance := oe_distance e - 1\<rparr>)
             (oh_modmask (ob_header tbl)) cur nxt (ob_entries tbl) of
           None \<Rightarrow> None
         | Some (cur, es) \<Rightarrow>
             Some (OBJTBL_OK, tbl\<lparr>ob_header := (ob_header tbl)\<lparr>oh_size := oh_size (ob_header tbl) - 1\<rparr>,
               ob_entries := es[unat cur := empty_entry]\<rparr>)))"

definition set_table_value :: "'o objtbl_ctx \<Rightarrow> 'o option \<Rightarrow> (objtbl_status \<times> 'o objtbl_ctx) option" where
  "set_table_value tbl obj =
    (if obj = None then Some (OBJTBL_EINVAL, tbl)
     else if oh_size (ob_header tbl) \<ge> oh_cap (ob_header tbl) then Some (OBJTBL_EFULL, tbl)
     else
       let opts = oh_opts (ob_header tbl);
           hash = calchash opts obj;
           start_pos = TABLE_INDEX tbl hash;
           elem = \<lparr>oe_hash = hash, oe_distance = 0, oe_value = obj\<rparr> in
       map_option (\<lambda>r. case r of
           Vacant pos elem es \<Rightarrow>
             (OBJTBL_OK, tbl\<lparr>ob_header := (ob_header tbl)\<lparr>oh_size := oh_size (ob_header tbl) + 1\<rparr>,
               ob_entries := es[unat pos := elem]\<rparr>)
         | Match pos elem es \<Rightarrow> (OBJTBL_OK, tbl\<lparr>ob_entries := es[unat pos := elem]\<rparr>)
         | Exhausted es \<Rightarrow> (OBJTBL_ENOSLOT, tbl\<lparr>ob_entries := es\<rparr>))
         (insert_loop ENTRY_IS_EMPTY (\<lambda>e. oo_cmpfunc opts obj (oe_value e) = 0)
           (\<lambda>c e. sint (oe_distance c) < sint (oe_distance e))
           (\<lambda>e. e\<lparr>oe_distance := oe_distance e + 1\<rparr>)
           (oh_modmask (ob_header tbl)) start_pos start_pos elem (ob_entries tbl)))"

fun reinsert :: "'o objtbl_entry list \<Rightarrow> 'o objtbl_ctx \<Rightarrow> 'o objtbl_ctx option" where
  "reinsert [] tbl = Some tbl"
| "reinsert (ent # es) tbl =
    (if \<not> ENTRY_IS_EMPTY ent then
      (case set_table_value tbl (oe_value ent) of
        None \<Rightarrow> None
      | Some (_, tbl) \<Rightarrow> reinsert es tbl)
     else reinsert es tbl)"

definition grow :: "allocator \<Rightarrow> 'o objtbl_ctx \<Rightarrow> (objtbl_status \<times> 'o objtbl_ctx) option" where
  "grow ok tbl =
    (let new_cap = push_bit 1 (oh_cap (ob_header tbl)) in
     if new_cap < oh_cap (ob_header tbl) then Some (OBJTBL_ENOMEM, tbl)
     else
       case init_table ok (oh_opts (ob_header tbl)) new_cap of
         None \<Rightarrow> Some (OBJTBL_ENOMEM, tbl)
       | Some new_tbl \<Rightarrow>
           map_option (\<lambda>t. (OBJTBL_OK, t))
             (reinsert (take (unat (oh_cap (ob_header tbl))) (ob_entries tbl)) new_tbl))"

definition objtbl_init :: "allocator \<Rightarrow> 'o objtbl_opts \<Rightarrow> u32 \<Rightarrow> objtbl_status \<times> 'o objtbl_ctx option" where
  "objtbl_init ok opts nslots =
    (let nslots = (if nslots = 0 then 1 else nslots);
         cap = REHASH_ROUND_UP nslots in
     if cap < nslots then (OBJTBL_ENOMEM, None)
     else
       case init_table ok opts cap of
         None \<Rightarrow> (OBJTBL_ENOMEM, None)
       | Some tbl \<Rightarrow> (OBJTBL_OK, Some tbl))"

definition objtbl_insert :: "allocator \<Rightarrow> 'o objtbl_ctx \<Rightarrow> 'o option \<Rightarrow> (objtbl_status \<times> 'o objtbl_ctx) option" where
  "objtbl_insert ok tbl obj =
    (if oh_size (ob_header tbl) \<ge> oh_rehash_limit (ob_header tbl) then
      (case grow ok tbl of
        None \<Rightarrow> None
      | Some (ret, tbl) \<Rightarrow>
          if ret \<noteq> OBJTBL_OK then Some (ret, tbl) else set_table_value tbl obj)
     else set_table_value tbl obj)"

definition objtbl_copy :: "allocator \<Rightarrow> 'o objtbl_ctx \<Rightarrow> objtbl_status \<times> 'o objtbl_ctx option" where
  "objtbl_copy ok src =
    (case copy_table ok src of
      None \<Rightarrow> (OBJTBL_ENOMEM, None)
    | Some dst \<Rightarrow> (OBJTBL_OK, Some dst))"

text \<open>The callback returns its status and the client's data, which it may change.\<close>

fun foreach_loop :: "('d \<Rightarrow> 'o option \<Rightarrow> int \<times> 'd) \<Rightarrow> u32 \<Rightarrow> u32 \<Rightarrow> 'o objtbl_entry list \<Rightarrow> 'd \<Rightarrow> int \<times> 'd" where
  "foreach_loop func nsize nseen [] data = (0, data)"
| "foreach_loop func nsize nseen (ent # es) data =
    (if \<not> nseen < nsize then (0, data)
     else if ENTRY_IS_EMPTY ent then foreach_loop func nsize nseen es data
     else
       let (ret, data) = func data (oe_value ent) in
       if ret \<noteq> 1 then (ret, data) else foreach_loop func nsize (nseen + 1) es data)"

definition objtbl_foreach :: "'o objtbl_ctx \<Rightarrow> ('d \<Rightarrow> 'o option \<Rightarrow> int \<times> 'd) \<Rightarrow> 'd \<Rightarrow> int \<times> 'd" where
  "objtbl_foreach ctx func data =
    foreach_loop func (oh_size (ob_header ctx)) 0 (take (unat (oh_cap (ob_header ctx))) (ob_entries ctx)) data"

definition keycmp :: "'o objtbl_ctx \<Rightarrow> 'o objtbl_entry \<Rightarrow> 'o objtbl_entry \<Rightarrow> int" where
  "keycmp tbl ent0 ent1 =
    (if ENTRY_IS_EMPTY ent0 \<and> ENTRY_IS_EMPTY ent1 then 0
     else if ENTRY_IS_EMPTY ent0 \<and> \<not> ENTRY_IS_EMPTY ent1 then 1
     else if \<not> ENTRY_IS_EMPTY ent0 \<and> ENTRY_IS_EMPTY ent1 then -1
     else - oo_cmpfunc (oh_opts (ob_header tbl)) (oe_value ent0) (oe_value ent1))"

definition distcmp :: "'o objtbl_entry \<Rightarrow> 'o objtbl_entry \<Rightarrow> int" where
  "distcmp ent0 ent1 = sint (oe_distance ent1 - oe_distance ent0)"

text \<open>\<open>qsort_r cmp xs\<close> is the library's sort of an array.\<close>

type_synonym 'o entry_sort = "('o objtbl_entry \<Rightarrow> 'o objtbl_entry \<Rightarrow> int) \<Rightarrow> 'o objtbl_entry list \<Rightarrow> 'o objtbl_entry list"

definition objtbl_sort :: "'o entry_sort \<Rightarrow> 'o objtbl_ctx \<Rightarrow> 'o objtbl_ctx" where
  "objtbl_sort qsort_r tbl = tbl\<lparr>ob_entries := qsort_r (keycmp tbl) (ob_entries tbl)\<rparr>"

record objtbl_stats =
  os_nbytes :: size_t
  os_size :: size_t
  os_cap :: size_t
  os_mean_probe_distance :: u32
  os_max_probe_distance :: u32
  os_average_probe_distance :: "size_t \<times> u32"

fun tot_distance :: "'o objtbl_entry list \<Rightarrow> size_t" where
  "tot_distance [] = 0"
| "tot_distance (ent # es) =
    (if \<not> ENTRY_IS_EMPTY ent then scast (oe_distance ent) else 0) + tot_distance es"

definition objtbl_calc_stats :: "allocator \<Rightarrow> 'o entry_sort \<Rightarrow> 'o objtbl_ctx \<Rightarrow> objtbl_status \<times> objtbl_stats option" where
  "objtbl_calc_stats ok qsort_r tbl =
    (case objtbl_copy ok tbl of
      (ret, None) \<Rightarrow> (ret, None)
    | (ret, Some dst) \<Rightarrow>
        let hdr = ob_header dst;
            es = qsort_r (keycmp dst) (ob_entries dst);
            n = unat (oh_size hdr);
            es = qsort_r distcmp (take n es) @ drop n es in
        (OBJTBL_OK, Some \<lparr>os_nbytes = 48 + 16 * ucast (oh_cap hdr), os_size = ucast (oh_size hdr),
          os_cap = ucast (oh_cap hdr),
          os_mean_probe_distance = oe_distance (es ! unat (drop_bit 1 (oh_size hdr))),
          os_max_probe_distance = oe_distance (es ! 0),
          os_average_probe_distance = (tot_distance (ob_entries dst), oh_size hdr)\<rparr>))"

definition objtbl_strerror :: "status \<Rightarrow> string" where
  "objtbl_strerror code =
    (if code = objtbl_code OBJTBL_OK then ''success''
     else if code = objtbl_code OBJTBL_ENOTFOUND then ''element not found''
     else if code = objtbl_code OBJTBL_EFULL then ''table full''
     else if code = objtbl_code OBJTBL_EINVAL then ''invalid argument''
     else if code = objtbl_code OBJTBL_ENOSLOT then ''no slot available''
     else if code = objtbl_code OBJTBL_ENOMEM then ''out of memory''
     else ''unknown error'')"

text \<open>The default functions for C strings.\<close>

primrec seed_loop :: "nat \<Rightarrow> u32 \<Rightarrow> u32 \<Rightarrow> u32" where
  "seed_loop 0 hash seed = hash"
| "seed_loop (Suc n) hash seed =
    seed_loop n ((hash XOR (seed AND 0xff)) * FNV1A_PRIME) (drop_bit 8 seed)"

definition objtbl_strhash :: "bytes option \<Rightarrow> u32 \<Rightarrow> u32" where
  "objtbl_strhash obj seed =
    (case obj of
      None \<Rightarrow> seed
    | Some data \<Rightarrow> foldl (\<lambda>hash c. (hash XOR of_char c) * FNV1A_PRIME)
        (seed_loop 4 FNV1A_OFFSET seed) (cstr data))"

definition NULLCMP :: "'a option \<Rightarrow> 'b option \<Rightarrow> int option" where
  "NULLCMP l r =
    (if l = None \<and> r = None then Some 0
     else if l = None \<and> r \<noteq> None then Some 1
     else if l \<noteq> None \<and> r = None then Some (-1)
     else None)"

definition objtbl_strcmp :: "bytes option \<Rightarrow> bytes option \<Rightarrow> int" where
  "objtbl_strcmp k e =
    (case NULLCMP k e of
      Some r \<Rightarrow> r
    | None \<Rightarrow> strcmp (cstr (the k)) (cstr (the e)))"

section \<open>The table as a set of objects\<close>

text \<open>
  What the table relies on: the comparison with 0 is an equivalence and equal objects have
  equal hashes.
\<close>

definition opts_ok :: "'o objtbl_opts \<Rightarrow> bool" where
  "opts_ok opts \<longleftrightarrow>
    (\<forall>a. oo_cmpfunc opts a a = 0) \<and>
    (\<forall>a b. oo_cmpfunc opts a b = 0 \<longrightarrow> oo_cmpfunc opts b a = 0) \<and>
    (\<forall>a b c. oo_cmpfunc opts a b = 0 \<longrightarrow> oo_cmpfunc opts b c = 0 \<longrightarrow> oo_cmpfunc opts a c = 0) \<and>
    (\<forall>a b s. oo_cmpfunc opts a b = 0 \<longrightarrow> oo_hashfunc opts a s = oo_hashfunc opts b s)"

lemma opts_okD:
  assumes "opts_ok opts"
  shows "oo_cmpfunc opts a a = 0"
    and "oo_cmpfunc opts a b = 0 \<Longrightarrow> oo_cmpfunc opts b a = 0"
    and "oo_cmpfunc opts a b = 0 \<Longrightarrow> oo_cmpfunc opts b c = 0 \<Longrightarrow> oo_cmpfunc opts a c = 0"
    and "oo_cmpfunc opts a b = 0 \<Longrightarrow> calchash opts a = calchash opts b"
  using assms unfolding opts_ok_def calchash_def by (blast, blast, blast, metis)

definition obj_view :: "'o objtbl_entry \<Rightarrow> (u32 \<times> 'o option) slot" where
  "obj_view e = (if ENTRY_IS_EMPTY e then None else Some ((oe_hash e, oe_value e), unat (oe_distance e)))"

definition obj_home :: "u32 \<times> 'o option \<Rightarrow> nat" where
  "obj_home p = unat (fst p)"

definition same_obj :: "'o objtbl_opts \<Rightarrow> u32 \<times> 'o option \<Rightarrow> u32 \<times> 'o option \<Rightarrow> bool" where
  "same_obj opts p q \<longleftrightarrow> oo_cmpfunc opts (snd p) (snd q) = 0"

abbreviation obj_load :: "'o objtbl_ctx \<Rightarrow> (u32 \<times> 'o option) multiset" where
  "obj_load tbl \<equiv> load (map obj_view (ob_entries tbl))"

definition objtbl_wf :: "'o objtbl_opts \<Rightarrow> 'o objtbl_ctx \<Rightarrow> bool" where
  "objtbl_wf opts tbl \<longleftrightarrow>
    opts_ok opts \<and> oh_opts (ob_header tbl) = opts \<and>
    sized (ob_entries tbl) (oh_modmask (ob_header tbl)) \<and>
    unat (oh_cap (ob_header tbl)) = length (ob_entries tbl) \<and>
    unat (oh_size (ob_header tbl)) = size (obj_load tbl) \<and>
    oh_rehash_limit (ob_header tbl) = REHASH_LIMIT (oh_cap (ob_header tbl)) \<and>
    (\<forall>p \<in># obj_load tbl. fst p = calchash opts (snd p) \<and> snd p \<noteq> None) \<and>
    rh_inv obj_home (same_obj opts) (map obj_view (ob_entries tbl))"

text \<open>The objects of a table, in the order of the slots.\<close>

definition objtbl_objs :: "'o objtbl_ctx \<Rightarrow> 'o option list" where
  "objtbl_objs tbl = map oe_value (filter (\<lambda>e. \<not> ENTRY_IS_EMPTY e) (ob_entries tbl))"

lemma obj_view_Some: "obj_view e = Some (p, d) \<longleftrightarrow>
    oe_hash e \<noteq> 0 \<and> p = (oe_hash e, oe_value e) \<and> d = unat (oe_distance e)"
  by (auto simp: obj_view_def ENTRY_IS_EMPTY_def)

lemma obj_view_None: "obj_view e = None \<longleftrightarrow> oe_hash e = 0"
  by (simp add: obj_view_def ENTRY_IS_EMPTY_def)

interpretation obj_probing: shifting obj_view ENTRY_IS_EMPTY
  "\<lambda>c e. sint (oe_distance c) < sint (oe_distance e)" "\<lambda>e. e\<lparr>oe_distance := oe_distance e + 1\<rparr>"
  shifts_back "\<lambda>e. e\<lparr>oe_distance := oe_distance e - 1\<rparr>"
proof unfold_locales
  fix e :: "'o objtbl_entry"
  assume "\<And>p d. obj_view e = Some (p, d) \<Longrightarrow> d < 2 ^ 31"
  then have "oe_hash e \<noteq> 0 \<Longrightarrow> unat (oe_distance e) < 2 ^ 31" by (simp add: obj_view_def ENTRY_IS_EMPTY_def)
  then show "shifts_back e \<longleftrightarrow> 1 < rk (obj_view e)"
    by (auto simp: shifts_back_def obj_view_def ENTRY_IS_EMPTY_def sint_pos_small)
qed (auto simp: obj_view_Some obj_view_None ENTRY_IS_EMPTY_def sint_less_small unat_Suc_small unat_pred_small)

lemma objs_load: "mset (objtbl_objs tbl) = image_mset snd (obj_load tbl)"
proof -
  have "mset (map oe_value (filter (\<lambda>e. \<not> ENTRY_IS_EMPTY e) es)) = image_mset snd (load (map obj_view es))"
    for es :: "'a objtbl_entry list"
    by (induction es) (auto simp: load_def obj_view_def)
  then show ?thesis by (simp add: objtbl_objs_def)
qed

lemma set_objs: "set (objtbl_objs tbl) = snd ` set_mset (obj_load tbl)"
  by (metis objs_load set_image_mset set_mset_mset)

lemma objtbl_wf_facts:
  assumes "objtbl_wf opts tbl"
  shows "sized (ob_entries tbl) (oh_modmask (ob_header tbl))"
    and "rh_inv obj_home (same_obj opts) (map obj_view (ob_entries tbl))"
    and "unat (oh_cap (ob_header tbl)) = length (ob_entries tbl)"
    and "unat (oh_size (ob_header tbl)) = size (obj_load tbl)"
    and "uniq (same_obj opts) (obj_load tbl)"
    and "ob_entries tbl \<noteq> []" and "opts_ok opts" and "oh_opts (ob_header tbl) = opts"
    and "p \<in># obj_load tbl \<Longrightarrow> fst p = calchash opts (snd p) \<and> snd p \<noteq> None"
  using assms unfolding objtbl_wf_def rh_inv_def by auto

lemma obj_seeks: "obj_probing.seeks (same_obj opts (h, k)) (find_look opts k)"
  by (auto simp: obj_probing.seeks_def find_look_def obj_view_Some obj_view_None ENTRY_IS_EMPTY_def
      same_obj_def word_less_nat_alt)

lemma same_obj_trans:
  assumes "opts_ok opts" "same_obj opts p q" "same_obj opts p r"
  shows "same_obj opts q r"
  using assms opts_okD [OF assms(1)] unfolding same_obj_def by blast

lemma obj_home_start:
  assumes "objtbl_wf opts tbl" "fst p = calchash opts k"
  shows "obj_home p mod length (ob_entries tbl) = unat (TABLE_INDEX tbl (calchash opts k))"
  using assms(2) by (simp add: obj_home_def TABLE_INDEX_def sized_index [OF objtbl_wf_facts(1) [OF assms(1)]])

text \<open>An object of the table is stored under the hash of every object equal to it.\<close>

lemma stored:
  assumes "objtbl_wf opts tbl" "y \<in> set (objtbl_objs tbl)" "oo_cmpfunc opts k y = 0"
  obtains i d where "i < length (ob_entries tbl)"
    "cell (map obj_view (ob_entries tbl)) i = Some ((calchash opts k, y), d)"
    "(calchash opts k, y) \<in># obj_load tbl"
proof -
  note wf = objtbl_wf_facts [OF assms(1)]
  obtain h where h: "(h, y) \<in># obj_load tbl" using assms(2) unfolding set_objs by force
  then have "h = calchash opts k" using wf(9) opts_okD(4) [OF wf(7) assms(3)] by fastforce
  then show thesis using that load_in_cell [OF h] h by (metis length_map)
qed

lemma obj_found:
  assumes "objtbl_wf opts tbl" "y \<in> set (objtbl_objs tbl)" "oo_cmpfunc opts (Some k) y = 0"
  obtains i d where "find_table_entry tbl (Some k) = Some (Some i)" "i < length (ob_entries tbl)"
    "cell (map obj_view (ob_entries tbl)) i = Some ((calchash opts (Some k), y), d)"
proof -
  note wf = objtbl_wf_facts [OF assms(1)]
  let ?p = "(calchash opts (Some k), y)"
  obtain x d where x: "x < length (ob_entries tbl)" "cell (map obj_view (ob_entries tbl)) x = Some (?p, d)"
    by (rule stored [OF assms])
  have "same_obj opts (0, Some k) ?p" using assms(3) by (simp add: same_obj_def)
  moreover have "obj_home ?p mod length (ob_entries tbl) = unat (TABLE_INDEX tbl (calchash opts (Some k)))"
    by (rule obj_home_start [OF assms(1)]) simp
  ultimately have "probe_loop (find_look opts (Some k)) (oh_modmask (ob_header tbl)) (ob_entries tbl)
      (TABLE_INDEX tbl (calchash opts (Some k))) (TABLE_INDEX tbl (calchash opts (Some k))) 0
    = Some (Some (x mod length (ob_entries tbl)))"
    by (rule obj_probing.probe_found [OF wf(1,2) obj_seeks x(2)]) (rule same_obj_trans [OF wf(7)])
  then show thesis using that x wf(8) by (simp add: find_table_entry_def Let_def)
qed

lemma obj_missing:
  assumes "objtbl_wf opts tbl" "\<And>y. y \<in> set (objtbl_objs tbl) \<Longrightarrow> oo_cmpfunc opts (Some k) y \<noteq> 0"
  shows "find_table_entry tbl (Some k) = Some None"
proof -
  note wf = objtbl_wf_facts [OF assms(1)]
  have "\<not> same_obj opts (0, Some k) q" if "q \<in># obj_load tbl" for q
    using assms(2) [of "snd q"] that by (simp add: set_objs same_obj_def)
  then have "probe_loop (find_look opts (Some k)) (oh_modmask (ob_header tbl)) (ob_entries tbl)
      (TABLE_INDEX tbl (calchash opts (Some k))) (TABLE_INDEX tbl (calchash opts (Some k))) 0 = Some None"
    unfolding TABLE_INDEX_def
    by (intro obj_probing.probe_absent [OF wf(1) obj_seeks] sized_index_less [OF wf(1)])
  then show ?thesis using wf(8) by (simp add: find_table_entry_def Let_def)
qed

text \<open>The objects other than those equal to a key.\<close>

definition others :: "'o objtbl_opts \<Rightarrow> 'o option \<Rightarrow> 'o option set \<Rightarrow> 'o option set" where
  "others opts k S = {y \<in> S. oo_cmpfunc opts k y \<noteq> 0}"

lemma others_absent: "(\<And>y. y \<in> S \<Longrightarrow> oo_cmpfunc opts k y \<noteq> 0) \<Longrightarrow> others opts k S = S"
  by (auto simp: others_def)

lemma others_remaining:
  assumes "uniq (same_obj opts) (add_mset (h, y) M)" "opts_ok opts" "oo_cmpfunc opts k y = 0"
  shows "others opts k (snd ` set_mset (add_mset (h, y) M)) = snd ` set_mset M"
proof -
  have "oo_cmpfunc opts k (snd q) \<noteq> 0" if "q \<in># M" for q
    using uniq_remaining [OF assms(1) that] assms(3) opts_okD(2,3) [OF assms(2)]
    unfolding same_obj_def by (metis snd_conv)
  then show ?thesis using assms(3) by (auto simp: others_def)
qed

lemma objtbl_remove_set:
  assumes "objtbl_wf opts tbl"
  shows "\<exists>tbl'. objtbl_remove tbl (Some k) = Some (if \<exists>y \<in> set (objtbl_objs tbl). oo_cmpfunc opts (Some k) y = 0
      then OBJTBL_OK else OBJTBL_ENOTFOUND, tbl')
    \<and> objtbl_wf opts tbl' \<and> set (objtbl_objs tbl') = others opts (Some k) (set (objtbl_objs tbl))"
proof (cases "\<exists>y \<in> set (objtbl_objs tbl). oo_cmpfunc opts (Some k) y = 0")
  case False
  then show ?thesis using obj_missing [OF assms, of k] assms others_absent [of "set (objtbl_objs tbl)" opts "Some k"]
    by (auto simp: objtbl_remove_def)
next
  case True
  then obtain y where y: "y \<in> set (objtbl_objs tbl)" "oo_cmpfunc opts (Some k) y = 0" by blast
  note wf = objtbl_wf_facts [OF assms]
  obtain i d where i: "find_table_entry tbl (Some k) = Some (Some i)" "i < length (ob_entries tbl)"
    "cell (map obj_view (ob_entries tbl)) i = Some ((calchash opts (Some k), y), d)"
    by (rule obj_found [OF assms y])
  have u: "unat (of_nat i :: u32) = i mod length (ob_entries tbl)"
    using obj_probing.unat_small [OF i(2) wf(1)] i(2) by simp
  obtain z es' M where s: "shift_loop shifts_back (\<lambda>e. e\<lparr>oe_distance := oe_distance e - 1\<rparr>)
      (oh_modmask (ob_header tbl)) (of_nat i) (TABLE_INDEX tbl (of_nat i + 1)) (ob_entries tbl) = Some (z, es')"
    "length es' = length (ob_entries tbl)"
    "rh_inv obj_home (same_obj opts) (map obj_view (es'[unat z := empty_entry]))"
    "load (map obj_view (es'[unat z := empty_entry])) = M" "obj_load tbl = add_mset (calchash opts (Some k), y) M"
    unfolding TABLE_INDEX_def
    using obj_probing.removed [OF wf(1,2) i(3) u, of empty_entry]
    by (auto simp: obj_view_None empty_entry_def)
  let ?tbl = "tbl\<lparr>ob_header := (ob_header tbl)\<lparr>oh_size := oh_size (ob_header tbl) - 1\<rparr>,
    ob_entries := es'[unat z := empty_entry]\<rparr>"
  have sz: "unat (oh_size (ob_header tbl) - 1) = size M"
    using wf(4) s(5) by (simp add: unat_pred_small)
  have wf': "objtbl_wf opts ?tbl"
    using assms s sz unfolding objtbl_wf_def by (simp add: sized_def)
  have "set (objtbl_objs ?tbl) = others opts (Some k) (set (objtbl_objs tbl))"
    unfolding set_objs s(5) using others_remaining [OF _ wf(7) y(2)] wf(5) s(4,5) by simp
  then show ?thesis using i(1) s(1) wf' True by (auto simp: objtbl_remove_def Let_def)
qed

lemma obj_set_table_value:
  assumes "objtbl_wf opts tbl" "oh_size (ob_header tbl) < oh_cap (ob_header tbl)"
  shows "\<exists>tbl'. set_table_value tbl (Some k) = Some (OBJTBL_OK, tbl') \<and> objtbl_wf opts tbl'
    \<and> set (objtbl_objs tbl') = insert (Some k) (others opts (Some k) (set (objtbl_objs tbl)))
    \<and> oh_cap (ob_header tbl') = oh_cap (ob_header tbl)
    \<and> unat (oh_size (ob_header tbl')) = unat (oh_size (ob_header tbl))
      + (if \<exists>y \<in> set (objtbl_objs tbl). oo_cmpfunc opts (Some k) y = 0 then 0 else 1)"
proof -
  note wf = objtbl_wf_facts [OF assms(1)]
  note eq = opts_okD [OF wf(7)]
  let ?h = "ob_header tbl" and ?es = "ob_entries tbl" and ?c = "calchash opts (Some k)"
  let ?p = "(?c, Some k)" and ?elem = "\<lparr>oe_hash = ?c, oe_distance = 0, oe_value = Some k\<rparr>"
  let ?start = "TABLE_INDEX tbl ?c"
  let ?loop = "insert_loop ENTRY_IS_EMPTY (\<lambda>e. oo_cmpfunc opts (Some k) (oe_value e) = 0)
    (\<lambda>c e. sint (oe_distance c) < sint (oe_distance e)) (\<lambda>e. e\<lparr>oe_distance := oe_distance e + 1\<rparr>)
    (oh_modmask ?h) ?start ?start ?elem ?es"
  have c0: "?c \<noteq> 0" by (simp add: calchash_def Let_def)
  have ve: "obj_view ?elem = Some (?p, 0)" using c0 by (simp add: obj_view_Some)
  have same: "oo_cmpfunc opts (Some k) (oe_value c) = 0 \<longleftrightarrow> same_obj opts ?p q" if "obj_view c = Some (q, x)" for c q x
    using that by (auto simp: obj_view_Some same_obj_def)
  have sz: "size (obj_load tbl) < length ?es"
    using assms(2) wf(3,4) by (simp add: word_less_nat_alt)
  have small: "Suc (size (obj_load tbl)) < 2 ^ 32" using sz sized_length [OF wf(1)] by simp
  have home: "obj_home ?p mod length ?es = unat ?start" by (rule obj_home_start [OF assms(1)]) simp
  show ?thesis
  proof (cases "\<exists>y \<in> set (objtbl_objs tbl). oo_cmpfunc opts (Some k) y = 0")
    case False
    then have new: "\<not> same_obj opts ?p q \<and> \<not> same_obj opts q ?p" if "q \<in># obj_load tbl" for q
      using that eq(2) by (auto simp: set_objs same_obj_def)
    have "\<exists>x e' es'. ?loop = Some (Vacant x e' es') \<and> unat x < length ?es \<and> length es' = length ?es
      \<and> rh_inv obj_home (same_obj opts) (map obj_view (es'[unat x := e']))
      \<and> load (map obj_view (es'[unat x := e'])) = add_mset ?p (obj_load tbl)"
      by (rule obj_probing.insert_new [OF wf(1,2) sz ve home]; erule same new)
    then obtain x e' es' where l: "?loop = Some (Vacant x e' es')" "length es' = length ?es"
      "rh_inv obj_home (same_obj opts) (map obj_view (es'[unat x := e']))"
      "load (map obj_view (es'[unat x := e'])) = add_mset ?p (obj_load tbl)" by blast
    let ?tbl = "tbl\<lparr>ob_header := ?h\<lparr>oh_size := oh_size ?h + 1\<rparr>, ob_entries := es'[unat x := e']\<rparr>"
    have s1: "unat (oh_size ?h + 1) = Suc (size (obj_load tbl))"
      using wf(4) small by (simp add: unat_word_ariths)
    have wf': "objtbl_wf opts ?tbl"
      using assms(1) l s1 unfolding objtbl_wf_def by (simp add: sized_def)
    have "set (objtbl_objs ?tbl) = insert (Some k) (set (objtbl_objs tbl))"
      unfolding set_objs using l(4) by simp
    moreover have "others opts (Some k) (set (objtbl_objs tbl)) = set (objtbl_objs tbl)"
      using False by (intro others_absent) blast
    ultimately show ?thesis using l(1) wf' s1 wf(4,8) assms(2) False by (simp add: set_table_value_def Let_def)
  next
    case True
    then obtain y where y: "y \<in> set (objtbl_objs tbl)" "oo_cmpfunc opts (Some k) y = 0" by blast
    obtain x0 d where x0: "x0 < length ?es" "cell (map obj_view ?es) x0 = Some ((?c, y), d)"
      "(?c, y) \<in># obj_load tbl" by (rule stored [OF assms(1) y])
    have py: "same_obj opts ?p (?c, y)" using y(2) by (simp add: same_obj_def)
    have "\<exists>x e'. ?loop = Some (Match x e' ?es) \<and> unat x = x0 mod length ?es \<and> obj_view e' = Some (?p, d)"
      by (rule obj_probing.insert_existing [OF wf(1,2) ve _ home _ x0(2) py])
        (use home in \<open>simp add: obj_home_def\<close>, erule same, erule (1) same_obj_trans [OF wf(7)])
    then obtain x e' where l: "?loop = Some (Match x e' ?es)" "unat x = x0 mod length ?es" "obj_view e' = Some (?p, d)"
      by blast
    let ?tbl = "tbl\<lparr>ob_entries := ?es[unat x := e']\<rparr>"
    have eqv: "same_obj opts ?p q \<longleftrightarrow> same_obj opts (?c, y) q" "same_obj opts q ?p \<longleftrightarrow> same_obj opts q (?c, y)" for q
      using y(2) eq(2,3) unfolding same_obj_def by (metis snd_conv)+
    have hm: "obj_home ?p mod length ?es = obj_home (?c, y) mod length ?es" by (simp add: obj_home_def)
    note ow = obj_probing.overwrite [OF wf(2) x0(2) l(3) hm eqv, folded l(2)]
    obtain M where M1: "obj_load tbl = add_mset (?c, y) M" using x0(3) by (metis mset_add)
    have "add_mset (?c, y) (obj_load ?tbl) = add_mset (?c, y) (add_mset ?p M)"
      using ow(2) unfolding M1 by (simp add: add_mset_commute)
    then have M2: "obj_load ?tbl = add_mset ?p M" by (simp only: add_mset_add_mset_same_iff)
    have wf': "objtbl_wf opts ?tbl"
      using assms(1) ow(1) M1 M2 unfolding objtbl_wf_def by (simp add: sized_def)
    have "others opts (Some k) (set (objtbl_objs tbl)) = snd ` set_mset M"
      unfolding set_objs M1 by (rule others_remaining [OF _ wf(7) y(2)]) (use wf(5) M1 in simp)
    then have "set (objtbl_objs ?tbl) = insert (Some k) (others opts (Some k) (set (objtbl_objs tbl)))"
      unfolding set_objs M2 by simp
    then show ?thesis using l(1) wf' assms(2) wf(8) True by (simp add: set_table_value_def Let_def)
  qed
qed

section \<open>Creating and growing a table\<close>

lemma obj_init_table_wf:
  assumes "init_table ok opts nslots = Some tbl" "0 < nslots" "opts_ok opts"
  shows "objtbl_wf opts tbl \<and> objtbl_objs tbl = [] \<and> oh_size (ob_header tbl) = 0
    \<and> oh_cap (ob_header tbl) = round_up_pow2 nslots"
proof -
  have ge: "nslots \<le> round_up_pow2 nslots"
    and h: "ob_header tbl = \<lparr>oh_cap = round_up_pow2 nslots, oh_size = 0, oh_modmask = round_up_pow2 nslots - 1,
      oh_rehash_limit = REHASH_LIMIT (round_up_pow2 nslots), oh_opts = opts\<rparr>"
    and es: "ob_entries tbl = replicate (unat (round_up_pow2 nslots)) empty_entry"
    using assms(1) by (auto simp: init_table_def init_header_def Let_def not_less split: if_splits option.splits)
  note c = round_up_pow2_cap [OF assms(2) ge]
  have sl: "map obj_view (ob_entries tbl) = replicate (unat (round_up_pow2 nslots)) None"
    unfolding es by (simp add: obj_view_None empty_entry_def)
  have "objtbl_wf opts tbl"
    unfolding objtbl_wf_def sl using h es c(1) c(2) [of "ob_entries tbl"] rh_inv_vacant assms(3) by simp
  moreover have "objtbl_objs tbl = []"
    by (simp add: objtbl_objs_def es ENTRY_IS_EMPTY_def empty_entry_def)
  ultimately show ?thesis using h by simp
qed

abbreviation live_objs :: "'o objtbl_entry list \<Rightarrow> 'o option list" where
  "live_objs es \<equiv> map oe_value (filter (\<lambda>e. \<not> ENTRY_IS_EMPTY e) es)"

lemma live_objs_load: "x \<in> set (live_objs es) \<longleftrightarrow> (\<exists>h. (h, x) \<in># load (map obj_view es))"
  by (induction es) (auto simp: load_def obj_view_def)

lemma obj_reinsert:
  assumes "objtbl_wf opts tbl" "uniq (same_obj opts) (load (map obj_view es))"
    and "\<And>x. x \<in> set (live_objs es) \<Longrightarrow> x \<noteq> None"
    and "\<And>x y. x \<in> set (live_objs es) \<Longrightarrow> y \<in> set (objtbl_objs tbl) \<Longrightarrow> oo_cmpfunc opts x y \<noteq> 0"
    and "unat (oh_size (ob_header tbl)) + length es < unat (oh_cap (ob_header tbl))"
  shows "\<exists>tbl'. reinsert es tbl = Some tbl' \<and> objtbl_wf opts tbl'
    \<and> set (objtbl_objs tbl') = set (live_objs es) \<union> set (objtbl_objs tbl)
    \<and> oh_cap (ob_header tbl') = oh_cap (ob_header tbl)
    \<and> unat (oh_size (ob_header tbl')) \<le> unat (oh_size (ob_header tbl)) + length es"
  using assms
proof (induction es arbitrary: tbl)
  case (Cons e es)
  have u: "uniq (same_obj opts) (load (map obj_view es))"
    using Cons.prems(2) by (rule uniq_mono) (simp add: load_def)
  show ?case
  proof (cases "ENTRY_IS_EMPTY e")
    case True
    then show ?thesis using Cons.IH [OF Cons.prems(1) u] Cons.prems(3-5) by fastforce
  next
    case False
    then obtain k where k: "oe_value e = Some k" using Cons.prems(3) [of "oe_value e"] by auto
    have none: "\<not> (\<exists>y \<in> set (objtbl_objs tbl). oo_cmpfunc opts (Some k) y = 0)"
      using Cons.prems(4) [of "Some k"] False k by auto
    have lt: "oh_size (ob_header tbl) < oh_cap (ob_header tbl)"
      using Cons.prems(5) by (simp add: word_less_nat_alt)
    obtain t1 where t1: "set_table_value tbl (Some k) = Some (OBJTBL_OK, t1)" "objtbl_wf opts t1"
      "set (objtbl_objs t1) = insert (Some k) (others opts (Some k) (set (objtbl_objs tbl)))"
      "oh_cap (ob_header t1) = oh_cap (ob_header tbl)"
      "unat (oh_size (ob_header t1)) = unat (oh_size (ob_header tbl)) + 1"
      using obj_set_table_value [OF Cons.prems(1) lt, of k] none by auto
    have objs: "set (objtbl_objs t1) = insert (Some k) (set (objtbl_objs tbl))"
      using t1(3) none others_absent [of "set (objtbl_objs tbl)" opts "Some k"] by auto
    have l: "load (map obj_view (e # es)) = add_mset (oe_hash e, Some k) (load (map obj_view es))"
      using False k by (simp add: load_def obj_view_def)
    have sep: "oo_cmpfunc opts x (Some k) \<noteq> 0" if x: "x \<in> set (live_objs es)" for x
    proof -
      obtain h where "(h, x) \<in># load (map obj_view es)" using x live_objs_load by blast
      then have "\<not> same_obj opts (oe_hash e, Some k) (h, x)"
        using uniq_remaining [OF Cons.prems(2) [unfolded l]] by blast
      then show ?thesis
        using opts_okD(2) [OF objtbl_wf_facts(7) [OF Cons.prems(1)], of x "Some k"] by (auto simp: same_obj_def)
    qed
    have a: "x \<noteq> None" "\<And>y. y \<in> set (objtbl_objs t1) \<Longrightarrow> oo_cmpfunc opts x y \<noteq> 0"
      if x: "x \<in> set (live_objs es)" for x
      using Cons.prems(3) [of x] Cons.prems(4) [of x] x sep [OF x] False unfolding objs by auto
    have b: "unat (oh_size (ob_header t1)) + length es < unat (oh_cap (ob_header t1))"
      using t1(4,5) Cons.prems(5) by simp
    obtain t' where "reinsert es t1 = Some t'" "objtbl_wf opts t'"
      "set (objtbl_objs t') = set (live_objs es) \<union> set (objtbl_objs t1)"
      "oh_cap (ob_header t') = oh_cap (ob_header t1)"
      "unat (oh_size (ob_header t')) \<le> unat (oh_size (ob_header t1)) + length es"
      using Cons.IH [OF t1(2) u a b] by blast
    then show ?thesis using t1(1,4,5) objs False k by auto
  qed
qed simp

lemma obj_grow:
  assumes "objtbl_wf opts tbl"
  shows "\<exists>ret tbl'. grow ok tbl = Some (ret, tbl') \<and> objtbl_wf opts tbl'
    \<and> set (objtbl_objs tbl') = set (objtbl_objs tbl)
    \<and> (ret = OBJTBL_OK \<and> oh_size (ob_header tbl') < oh_cap (ob_header tbl')
       \<or> ret = OBJTBL_ENOMEM \<and> tbl' = tbl)"
proof -
  note wf = objtbl_wf_facts [OF assms]
  obtain k where k: "k \<le> 31" "length (ob_entries tbl) = 2 ^ k"
    using wf(1) unfolding sized_def by blast
  have cap: "oh_cap (ob_header tbl) = 2 ^ k"
    using wf(3) k unat_power2_u32 [OF k(1)] by (metis word_unat_eq_iff)
  have nc: "push_bit 1 (oh_cap (ob_header tbl)) = 2 ^ Suc k" by (simp add: cap push_bit_eq_mult)
  have tk: "take (unat (oh_cap (ob_header tbl))) (ob_entries tbl) = ob_entries tbl" using wf(3) by simp
  show ?thesis
  proof (cases "k = 31 \<or> init_table ok opts (2 ^ Suc k) = None")
    case True
    have "(2 ^ Suc 31 :: u32) < 2 ^ 31" by simp
    then have "grow ok tbl = Some (OBJTBL_ENOMEM, tbl)"
      using True nc cap wf(8) unfolding grow_def Let_def nc by (auto simp del: power_Suc)
    then show ?thesis using assms by simp
  next
    case False
    then have k31: "Suc k \<le> 31" using k(1) by simp
    then have u: "unat (2 ^ Suc k :: u32) = 2 ^ Suc k" by (rule unat_power2_u32)
    have nl: "\<not> (2 ^ Suc k :: u32) < 2 ^ k"
      unfolding word_less_nat_alt u unat_power2_u32 [OF k(1)] by simp
    obtain new where new: "init_table ok opts (2 ^ Suc k) = Some new" using False by blast
    have pos: "0 < (2 ^ Suc k :: u32)" unfolding word_less_nat_alt u by simp
    note n = obj_init_table_wf [OF new pos wf(7)]
    have ncap: "unat (oh_cap (ob_header new)) = 2 ^ Suc k"
      using n round_up_pow2_exact [OF k31] u by simp
    have nn: "x \<noteq> None" if "x \<in> set (live_objs (ob_entries tbl))" for x
      using that wf(9) set_objs [of tbl] by (force simp: objtbl_objs_def)
    obtain t' where t': "reinsert (ob_entries tbl) new = Some t'" "objtbl_wf opts t'"
      "set (objtbl_objs t') = set (live_objs (ob_entries tbl)) \<union> set (objtbl_objs new)"
      "oh_cap (ob_header t') = oh_cap (ob_header new)"
      "unat (oh_size (ob_header t')) \<le> unat (oh_size (ob_header new)) + length (ob_entries tbl)"
      using obj_reinsert [of opts new "ob_entries tbl"] n wf(5) nn ncap k(2) by auto
    have "grow ok tbl = Some (OBJTBL_OK, t')"
      unfolding grow_def Let_def nc tk using nl cap wf(8) new t'(1) by (simp del: power_Suc)
    moreover have "oh_size (ob_header t') < oh_cap (ob_header t')"
    proof -
      have "unat (oh_size (ob_header t')) \<le> 2 ^ k" using t'(5) n k(2) by simp
      also have "\<dots> < 2 ^ Suc k" by simp
      finally show ?thesis using t'(4) ncap by (simp only: word_less_nat_alt)
    qed
    moreover have "set (objtbl_objs t') = set (objtbl_objs tbl)"
    proof -
      have "set (objtbl_objs new) = {}" using n by simp
      moreover have "live_objs (ob_entries tbl) = objtbl_objs tbl" by (simp add: objtbl_objs_def)
      ultimately show ?thesis using t'(3) by (simp only: Un_empty_right)
    qed
    ultimately show ?thesis using t'(2) by blast
  qed
qed

lemma objtbl_insert_set:
  assumes "objtbl_wf opts tbl"
  shows "\<exists>ret tbl'. objtbl_insert ok tbl obj = Some (ret, tbl') \<and> objtbl_wf opts tbl'
    \<and> (ret = OBJTBL_OK \<and> obj \<noteq> None
         \<and> set (objtbl_objs tbl') = insert obj (others opts obj (set (objtbl_objs tbl)))
       \<or> ret = OBJTBL_EINVAL \<and> obj = None \<and> set (objtbl_objs tbl') = set (objtbl_objs tbl)
       \<or> ret = OBJTBL_ENOMEM \<and> tbl' = tbl)"
proof -
  have put: "\<exists>ret t'. set_table_value t obj = Some (ret, t') \<and> objtbl_wf opts t'
    \<and> (ret = OBJTBL_OK \<and> obj \<noteq> None \<and> set (objtbl_objs t') = insert obj (others opts obj (set (objtbl_objs t)))
       \<or> ret = OBJTBL_EINVAL \<and> obj = None \<and> set (objtbl_objs t') = set (objtbl_objs t))"
    if t: "objtbl_wf opts t" "oh_size (ob_header t) < oh_cap (ob_header t)" for t
  proof (cases obj)
    case None
    then show ?thesis using t by (simp add: set_table_value_def)
  next
    case (Some k)
    then show ?thesis using obj_set_table_value [OF t, of k] by blast
  qed
  show ?thesis
  proof (cases "oh_rehash_limit (ob_header tbl) \<le> oh_size (ob_header tbl)")
    case True
    obtain ret t1 where g: "grow ok tbl = Some (ret, t1)" "objtbl_wf opts t1"
      "set (objtbl_objs t1) = set (objtbl_objs tbl)"
      "ret = OBJTBL_OK \<and> oh_size (ob_header t1) < oh_cap (ob_header t1) \<or> ret = OBJTBL_ENOMEM \<and> t1 = tbl"
      using obj_grow [OF assms] by blast
    show ?thesis
    proof (cases "ret = OBJTBL_OK")
      case ret: True
      then show ?thesis using put [OF g(2)] g True by (auto simp: objtbl_insert_def)
    next
      case False
      then show ?thesis using g True by (auto simp: objtbl_insert_def)
    qed
  next
    case False
    have "oh_rehash_limit (ob_header tbl) \<le> oh_cap (ob_header tbl)"
      using assms REHASH_LIMIT_le unfolding objtbl_wf_def by simp
    then have "oh_size (ob_header tbl) < oh_cap (ob_header tbl)" using False by simp
    then show ?thesis using put [OF assms] False by (auto simp: objtbl_insert_def)
  qed
qed

lemma objtbl_get_set:
  assumes "objtbl_wf opts tbl"
  shows "(\<exists>y \<in> set (objtbl_objs tbl). oo_cmpfunc opts (Some k) y = 0 \<and> objtbl_get tbl (Some k) = Some (OBJTBL_OK, Some y)
      \<and> objtbl_contains tbl (Some k) = Some 1)
    \<or> others opts (Some k) (set (objtbl_objs tbl)) = set (objtbl_objs tbl)
      \<and> objtbl_get tbl (Some k) = Some (OBJTBL_ENOTFOUND, None) \<and> objtbl_contains tbl (Some k) = Some 0"
proof (cases "\<exists>y \<in> set (objtbl_objs tbl). oo_cmpfunc opts (Some k) y = 0")
  case False
  then show ?thesis
    using obj_missing [OF assms, of k] others_absent [of "set (objtbl_objs tbl)" opts "Some k"]
    by (auto simp: objtbl_get_def objtbl_contains_def)
next
  case True
  then obtain y where y: "y \<in> set (objtbl_objs tbl)" "oo_cmpfunc opts (Some k) y = 0" by blast
  obtain i d where i: "find_table_entry tbl (Some k) = Some (Some i)"
    "cell (map obj_view (ob_entries tbl)) i = Some ((calchash opts (Some k), y), d)"
    "i < length (ob_entries tbl)" by (rule obj_found [OF assms y])
  then have "obj_view (ob_entries tbl ! i) = Some ((calchash opts (Some k), y), d)"
    using objtbl_wf_facts(6) [OF assms] by (simp add: obj_probing.cell_slots)
  then have "objtbl_get tbl (Some k) = Some (OBJTBL_OK, Some y)" "objtbl_contains tbl (Some k) = Some 1"
    using i(1) by (simp_all add: objtbl_get_def objtbl_contains_def obj_view_Some)
  then show ?thesis using y by blast
qed

section \<open>Refinement\<close>

datatype 'o obj_op = Obj_insert "'o option" | Obj_remove "'o option" | Obj_get "'o option" | Obj_contains "'o option"

datatype 'o obj_answer = Status objtbl_status | Lookup objtbl_status "'o option option" | Flag int

fun obj_step :: "allocator \<Rightarrow> 'o obj_op \<Rightarrow> 'o objtbl_ctx \<Rightarrow> ('o obj_answer \<times> 'o objtbl_ctx) option" where
  "obj_step ok (Obj_insert k) tbl = map_option (\<lambda>(r, c). (Status r, c)) (objtbl_insert ok tbl k)"
| "obj_step ok (Obj_remove k) tbl = map_option (\<lambda>(r, c). (Status r, c)) (objtbl_remove tbl k)"
| "obj_step ok (Obj_get k) tbl = map_option (\<lambda>(r, v). (Lookup r v, tbl)) (objtbl_get tbl k)"
| "obj_step ok (Obj_contains k) tbl = map_option (\<lambda>b. (Flag b, tbl)) (objtbl_contains tbl k)"

text \<open>What a set of pairwise different objects answers; an object differs from every object of
  \<open>S\<close> when \<open>others opts k S = S\<close>.\<close>

inductive obj_allows :: "'o objtbl_opts \<Rightarrow> 'o obj_op \<Rightarrow> 'o option set \<Rightarrow> 'o obj_answer \<Rightarrow> 'o option set \<Rightarrow> bool"
  for opts where
  insert_ok: "k \<noteq> None \<Longrightarrow> obj_allows opts (Obj_insert k) S (Status OBJTBL_OK) (insert k (others opts k S))"
| insert_null: "obj_allows opts (Obj_insert None) S (Status OBJTBL_EINVAL) S"
| insert_nomem: "obj_allows opts (Obj_insert k) S (Status OBJTBL_ENOMEM) S"
| remove_ok: "k \<noteq> None \<Longrightarrow> y \<in> S \<Longrightarrow> oo_cmpfunc opts k y = 0
    \<Longrightarrow> obj_allows opts (Obj_remove k) S (Status OBJTBL_OK) (others opts k S)"
| remove_missing: "k = None \<or> others opts k S = S \<Longrightarrow> obj_allows opts (Obj_remove k) S (Status OBJTBL_ENOTFOUND) S"
| get_ok: "k \<noteq> None \<Longrightarrow> y \<in> S \<Longrightarrow> oo_cmpfunc opts k y = 0
    \<Longrightarrow> obj_allows opts (Obj_get k) S (Lookup OBJTBL_OK (Some y)) S"
| get_missing: "k = None \<or> others opts k S = S \<Longrightarrow> obj_allows opts (Obj_get k) S (Lookup OBJTBL_ENOTFOUND None) S"
| contains_yes: "k \<noteq> None \<Longrightarrow> y \<in> S \<Longrightarrow> oo_cmpfunc opts k y = 0 \<Longrightarrow> obj_allows opts (Obj_contains k) S (Flag 1) S"
| contains_no: "k = None \<or> others opts k S = S \<Longrightarrow> obj_allows opts (Obj_contains k) S (Flag 0) S"

interpretation obj_table: simulation "obj_step ok" "\<lambda>_. True" "objtbl_wf opts" "\<lambda>tbl. set (objtbl_objs tbl)"
  "obj_allows opts" for ok opts
proof unfold_locales
  fix tbl opn
  assume wf: "objtbl_wf opts tbl"
  let ?S = "set (objtbl_objs tbl)"
  show "\<exists>r t. obj_step ok opn tbl = Some (r, t) \<and> objtbl_wf opts t
    \<and> obj_allows opts opn ?S r (set (objtbl_objs t))"
  proof (cases opn)
    case (Obj_insert k)
    then show ?thesis using objtbl_insert_set [OF wf, of ok k]
      by (auto intro: obj_allows.intros simp: obj_allows.insert_ok)
  next
    case (Obj_remove k)
    show ?thesis
    proof (cases k)
      case None
      then show ?thesis using Obj_remove wf
        by (simp add: objtbl_remove_def find_table_entry_def obj_allows.intros)
    next
      case (Some x)
      obtain t where t: "objtbl_remove tbl (Some x) = Some (if \<exists>y \<in> ?S. oo_cmpfunc opts (Some x) y = 0
          then OBJTBL_OK else OBJTBL_ENOTFOUND, t)" "objtbl_wf opts t"
        "set (objtbl_objs t) = others opts (Some x) ?S"
        using objtbl_remove_set [OF wf, of x] by blast
      show ?thesis
      proof (cases "\<exists>y \<in> ?S. oo_cmpfunc opts (Some x) y = 0")
        case True
        then show ?thesis using t Obj_remove Some by (auto intro: obj_allows.intros)
      next
        case False
        then have "others opts (Some x) ?S = ?S" by (intro others_absent) blast
        then show ?thesis using False t Obj_remove Some by (auto intro: obj_allows.intros)
      qed
    qed
  next
    case (Obj_get k)
    show ?thesis
    proof (cases k)
      case None
      then show ?thesis using Obj_get wf by (simp add: objtbl_get_def find_table_entry_def obj_allows.intros)
    next
      case (Some x)
      then show ?thesis using Obj_get wf objtbl_get_set [OF wf, of x] by (auto intro: obj_allows.intros)
    qed
  next
    case (Obj_contains k)
    show ?thesis
    proof (cases k)
      case None
      then show ?thesis using Obj_contains wf by (simp add: objtbl_contains_def find_table_entry_def obj_allows.intros)
    next
      case (Some x)
      then show ?thesis using Obj_contains wf objtbl_get_set [OF wf, of x] by (auto intro: obj_allows.intros)
    qed
  qed
qed

lemma objtbl_init_wf:
  assumes "objtbl_init ok opts nslots = (OBJTBL_OK, Some tbl)" "opts_ok opts"
  shows "objtbl_wf opts tbl" "objtbl_objs tbl = []"
proof -
  define n where "n = (if nslots = 0 then 1 else nslots)"
  have n: "\<not> REHASH_ROUND_UP n < n" "init_table ok opts (REHASH_ROUND_UP n) = Some tbl"
    using assms(1) unfolding objtbl_init_def n_def [symmetric] Let_def
    by (auto split: if_splits option.splits)
  have "0 < n" unfolding n_def by (simp add: word_gt_0)
  then have "0 < REHASH_ROUND_UP n" using n(1) by simp
  then show "objtbl_wf opts tbl" "objtbl_objs tbl = []" using obj_init_table_wf [OF n(2) _ assms(2)] by auto
qed

definition string_opts :: "u32 \<Rightarrow> bytes objtbl_opts" where
  "string_opts seed = \<lparr>oo_hashseed = seed, oo_hashfunc = objtbl_strhash, oo_cmpfunc = objtbl_strcmp\<rparr>"

lemma objtbl_strcmp_0: "objtbl_strcmp k e = 0 \<longleftrightarrow> map_option cstr k = map_option cstr e"
  by (cases k; cases e) (auto simp: objtbl_strcmp_def NULLCMP_def strcmp_0)

lemma string_opts_ok: "opts_ok (string_opts seed)"
  by (auto simp: opts_ok_def string_opts_def objtbl_strcmp_0 objtbl_strhash_def split: option.splits)



section \<open>Iteration\<close>

text \<open>The reference: the callback applied along a list until it does not return 1.\<close>

fun visit :: "('d \<Rightarrow> 'x \<Rightarrow> int \<times> 'd) \<Rightarrow> 'x list \<Rightarrow> 'd \<Rightarrow> int \<times> 'd" where
  "visit func [] data = (0, data)"
| "visit func (x # xs) data =
    (case func data x of (ret, data) \<Rightarrow> if ret \<noteq> 1 then (ret, data) else visit func xs data)"

lemma foreach_loop_visit:
  "unat nsize = unat nseen + length (live_objs es)
    \<Longrightarrow> foreach_loop func nsize nseen es data = visit func (live_objs es) data"
proof (induction es arbitrary: nseen data)
  case (Cons e es)
  show ?case
  proof (cases "ENTRY_IS_EMPTY e")
    case True
    have "\<not> nseen < nsize \<Longrightarrow> live_objs es = []"
      using Cons.prems True by (auto simp: word_less_nat_alt)
    then show ?thesis using True Cons by auto
  next
    case False
    have lt: "nseen < nsize" using Cons.prems False by (simp add: word_less_nat_alt)
    have "Suc (unat nseen) < 2 ^ 32" using lt unat_less_exp [of nsize] by (simp add: word_less_nat_alt)
    then have "unat (nseen + 1) = Suc (unat nseen)" by (simp add: unat_word_ariths)
    then show ?thesis using False lt Cons by (auto split: prod.splits)
  qed
qed simp

lemma distinct_live_objs:
  "\<lbrakk>uniq (same_obj opts) (load (map obj_view es)); opts_ok opts\<rbrakk> \<Longrightarrow> distinct (live_objs es)"
proof (induction es)
  case (Cons e es)
  have u: "uniq (same_obj opts) (load (map obj_view es))"
    using Cons.prems(1) by (rule uniq_mono) (simp add: load_def)
  show ?case
  proof (cases "ENTRY_IS_EMPTY e")
    case False
    then have l: "load (map obj_view (e # es)) = add_mset (oe_hash e, oe_value e) (load (map obj_view es))"
      by (simp add: load_def obj_view_def)
    have "oe_value e \<notin> set (live_objs es)"
      using uniq_remaining [OF Cons.prems(1) [unfolded l]] opts_okD(1) [OF Cons.prems(2)]
      unfolding live_objs_load same_obj_def by fastforce
    then show ?thesis using False Cons.IH [OF u Cons.prems(2)] by simp
  qed (use Cons.IH [OF u Cons.prems(2)] in simp)
qed simp

text \<open>
  Iteration: objtbl_foreach calls the function on every object of the table exactly once,
  in the order of the slots, until the function does not return 1, and returns what the
  function returned last; the early exit after the last used slot loses nothing.
\<close>
theorem objtbl_foreach_visits:
  assumes "objtbl_wf opts tbl"
  shows "objtbl_foreach tbl func data = visit func (objtbl_objs tbl) data \<and> distinct (objtbl_objs tbl)"
proof
  note wf = objtbl_wf_facts [OF assms]
  have "size (obj_load tbl) = length (objtbl_objs tbl)"
    using arg_cong [OF objs_load [of tbl], of size] by simp
  then show "objtbl_foreach tbl func data = visit func (objtbl_objs tbl) data"
    unfolding objtbl_foreach_def using wf(3,4) foreach_loop_visit [of "oh_size (ob_header tbl)" 0 "ob_entries tbl"]
    by (simp add: objtbl_objs_def)
  show "distinct (objtbl_objs tbl)"
    using distinct_live_objs [OF wf(5,7)] by (simp add: objtbl_objs_def)
qed

theorem objtbl_foreach_visits_witness:
  "\<exists>tbl. objtbl_wf (string_opts 1) tbl \<and> objtbl_foreach tbl (\<lambda>d x. (1, d + 1)) (0::nat) = (0, 1)"
proof -
  obtain t0 where t0: "objtbl_init (\<lambda>_. True) (string_opts 1) 1 = (OBJTBL_OK, Some t0)"
    by (simp add: objtbl_init_def init_table_def init_header_def round_up_pow2_def REHASH_ROUND_UP_def Let_def)
  note i = objtbl_init_wf [OF t0 string_opts_ok]
  have "oh_size (ob_header t0) < oh_cap (ob_header t0)"
    using t0 by (auto simp: objtbl_init_def init_table_def init_header_def round_up_pow2_def REHASH_ROUND_UP_def Let_def)
  then obtain t where t: "objtbl_wf (string_opts 1) t" "set (objtbl_objs t) = {Some ''ab''}"
    using obj_set_table_value [OF i(1), of "''ab''"] i(2) by (auto simp: others_def)
  note v = objtbl_foreach_visits [OF t(1), of "\<lambda>d x. (1, d + 1)" "0 :: nat"]
  then have "objtbl_objs t = [Some ''ab'']"
    using t(2) by (cases "objtbl_objs t" rule: remdups_adj.cases) auto
  then show ?thesis using v t(1) by auto
qed

section \<open>Insertion with enough memory\<close>

lemma distinct_objs: "objtbl_wf opts tbl \<Longrightarrow> distinct (objtbl_objs tbl)"
  using objtbl_wf_facts(5,7) [of opts tbl] distinct_live_objs [of opts "ob_entries tbl"] by (simp add: objtbl_objs_def)

lemma length_objs: "objtbl_wf opts tbl \<Longrightarrow> length (objtbl_objs tbl) = unat (oh_size (ob_header tbl))"
  using objs_load [of tbl] objtbl_wf_facts(4) [of opts tbl] by (metis size_image_mset size_mset)

lemma grow_granted:
  assumes "objtbl_wf opts tbl" "unat (oh_cap (ob_header tbl)) < 2 ^ 31" "\<And>n. unat n < 2 ^ 40 \<Longrightarrow> ok n"
  shows "\<exists>tbl'. grow ok tbl = Some (OBJTBL_OK, tbl')"
proof -
  note wf = objtbl_wf_facts [OF assms(1)]
  obtain k where k: "k \<le> 31" "length (ob_entries tbl) = 2 ^ k" using wf(1) unfolding sized_def by blast
  have cap: "oh_cap (ob_header tbl) = 2 ^ k" using wf(3) k unat_power2_u32 [OF k(1)] by (metis word_unat_eq_iff)
  have "(2 :: nat) ^ k < 2 ^ 31" using assms(2) unfolding cap unat_power2_u32 [OF k(1)] .
  then have k31: "Suc k \<le> 31" using power_strict_increasing_iff [of "2 :: nat" k 31] by simp
  note u = unat_power2_u32 [OF k31]
  have nc: "push_bit 1 (oh_cap (ob_header tbl)) = 2 ^ Suc k" by (simp add: cap push_bit_eq_mult)
  have nl: "\<not> (2 ^ Suc k :: u32) < 2 ^ k" unfolding word_less_nat_alt u unat_power2_u32 [OF k(1)] by simp
  have "unat (OBJTBL_SIZE (2 ^ Suc k)) \<le> unat (ucast (2 ^ Suc k :: u32) :: size_t) * 16"
    unfolding OBJTBL_SIZE_def by (simp add: unat_word_ariths)
  also have "\<dots> = 2 ^ Suc k * 16" unfolding unat_ucast_u32 u ..
  also have "\<dots> \<le> 2 ^ 31 * 16" using power_increasing [OF k31, of "2 :: nat"] by simp
  finally have "ok (OBJTBL_SIZE (2 ^ Suc k))" by (intro assms(3)) simp
  then have "init_table ok opts (2 ^ Suc k) \<noteq> None"
    unfolding init_table_def init_header_def round_up_pow2_exact [OF k31] by (simp add: Let_def)
  then have "grow ok tbl \<noteq> Some (OBJTBL_ENOMEM, t)" for t
    using nl cap wf(8) unfolding grow_def Let_def nc by (auto simp del: power_Suc)
  then show ?thesis using obj_grow [OF assms(1), of ok] by blast
qed

lemma objtbl_insert_granted:
  assumes wf: "objtbl_wf opts tbl" and s: "length (objtbl_objs tbl) < 2 ^ 29" and ok: "\<And>n. unat n < 2 ^ 40 \<Longrightarrow> ok n"
  shows "\<exists>tbl'. objtbl_insert ok tbl (Some k) = Some (OBJTBL_OK, tbl') \<and> objtbl_wf opts tbl'
    \<and> set (objtbl_objs tbl') = insert (Some k) (others opts (Some k) (set (objtbl_objs tbl)))"
proof (cases "oh_rehash_limit (ob_header tbl) \<le> oh_size (ob_header tbl)")
  case True
  let ?c = "oh_cap (ob_header tbl)"
  have lim: "oh_rehash_limit (ob_header tbl) = REHASH_LIMIT ?c" using wf unfolding objtbl_wf_def by simp
  have "unat (REHASH_LIMIT ?c) = unat ?c - unat ?c div 6"
    unfolding REHASH_LIMIT_def by (subst unat_sub) (simp_all add: word_le_nat_alt unat_div)
  then have "unat ?c - unat ?c div 6 < 2 ^ 29"
    using True s length_objs [OF wf] unfolding lim word_le_nat_alt by simp
  then have "unat ?c < 2 ^ 31" by simp
  then obtain t1 where g: "grow ok tbl = Some (OBJTBL_OK, t1)" using grow_granted [OF wf, of ok] ok by blast
  then have t1: "objtbl_wf opts t1" "set (objtbl_objs t1) = set (objtbl_objs tbl)"
    "oh_size (ob_header t1) < oh_cap (ob_header t1)" using obj_grow [OF wf, of ok] by auto
  show ?thesis using obj_set_table_value [OF t1(1,3), of k] g t1(2) True by (auto simp: objtbl_insert_def)
next
  case False
  have "oh_rehash_limit (ob_header tbl) \<le> oh_cap (ob_header tbl)"
    using wf REHASH_LIMIT_le unfolding objtbl_wf_def by simp
  then have "oh_size (ob_header tbl) < oh_cap (ob_header tbl)" using False by simp
  then show ?thesis using obj_set_table_value [OF wf, of k] False by (auto simp: objtbl_insert_def)
qed

end
