(* ===== verification/Deduptbl.thy ===== *)
theory Deduptbl
  imports Robin_Hood Simulation
begin

text \<open>
  The deduplication table (lib/util/deduptbl.c, lib/util/deduptbl.h): a bounded set of SHA-1
  digests in a memory mapped array. A digest is the list of its five 32-bit words in the byte
  order of the machine; the all-zero digest marks an empty slot. SHA-1, the mapping and the
  file operations are parameters.
\<close>

section \<open>Data\<close>

datatype deduptbl_status = DEDUPTBL_OK | DEDUPTBL_EERRNO | DEDUPTBL_ETOOBIG | DEDUPTBL_EMAGIC | DEDUPTBL_ESIZE
  | DEDUPTBL_EFULL | DEDUPTBL_EEXIST | DEDUPTBL_ENOSLOT | DEDUPTBL_EHEADER

fun deduptbl_code :: "deduptbl_status \<Rightarrow> status" where
  "deduptbl_code DEDUPTBL_OK = 0"
| "deduptbl_code DEDUPTBL_EERRNO = -1"
| "deduptbl_code DEDUPTBL_ETOOBIG = -2"
| "deduptbl_code DEDUPTBL_EMAGIC = -3"
| "deduptbl_code DEDUPTBL_ESIZE = -4"
| "deduptbl_code DEDUPTBL_EFULL = -5"
| "deduptbl_code DEDUPTBL_EEXIST = -6"
| "deduptbl_code DEDUPTBL_ENOSLOT = -7"
| "deduptbl_code DEDUPTBL_EHEADER = -8"

type_synonym digest = "u32 list"

record deduptbl_entry =
  de_distance :: u32
  de_id :: digest

record deduptbl_table =
  dt_magic :: u32
  dt_nmax :: u32
  dt_nused :: u32
  dt_cap_log2 :: u32
  dt_entries :: "deduptbl_entry list"

record deduptbl_ctx =
  dc_table :: "deduptbl_table option"
  dc_filesize :: size_t
  dc_saved_errno :: int

definition DEDUPTBL_MAGIC :: u32 where
  "DEDUPTBL_MAGIC = 0x75646564"

definition DEDUPTBL_MAX_ENTRIES :: u32 where
  "DEDUPTBL_MAX_ENTRIES = 0x3fffffff"

definition DEDUPTBL_ID_EMPTY :: digest where
  "DEDUPTBL_ID_EMPTY = [0, 0, 0, 0, 0]"

section \<open>Operations\<close>

definition TABLE_INDEX :: "deduptbl_table \<Rightarrow> u32 \<Rightarrow> u32" where
  "TABLE_INDEX tbl val = val AND (push_bit (unat (dt_cap_log2 tbl)) 1 - 1)"

definition deduptbl_error :: "int \<Rightarrow> deduptbl_ctx \<Rightarrow> deduptbl_status \<Rightarrow> deduptbl_status \<times> deduptbl_ctx" where
  "deduptbl_error errno ctx err = (err, ctx\<lparr>dc_saved_errno := errno\<rparr>)"

definition deduptbl_id :: "(bytes \<Rightarrow> digest) \<Rightarrow> bytes \<Rightarrow> digest" where
  "deduptbl_id sha1 data =
    (let val = sha1 data in
     if val = DEDUPTBL_ID_EMPTY then val[0 := val ! 0 + 1] else val)"

definition deduptbl_idv :: "(bytes \<Rightarrow> digest) \<Rightarrow> bytes list \<Rightarrow> digest" where
  "deduptbl_idv sha1 vec =
    (let val = sha1 (concat vec) in
     if val = DEDUPTBL_ID_EMPTY then val[0 := val ! 0 + 1] else val)"

definition deduptbl_strerror :: "(int \<Rightarrow> string) \<Rightarrow> deduptbl_ctx \<Rightarrow> status \<Rightarrow> string" where
  "deduptbl_strerror strerror ctx err =
    (if err = deduptbl_code DEDUPTBL_OK then ''no error''
     else if err = deduptbl_code DEDUPTBL_EERRNO then strerror (dc_saved_errno ctx)
     else if err = deduptbl_code DEDUPTBL_ETOOBIG then ''table size too big''
     else if err = deduptbl_code DEDUPTBL_EMAGIC then ''invalid magic number in table''
     else if err = deduptbl_code DEDUPTBL_ESIZE then ''invalid table size''
     else if err = deduptbl_code DEDUPTBL_EFULL then ''table is full''
     else if err = deduptbl_code DEDUPTBL_EEXIST then ''entry already exist in table''
     else if err = deduptbl_code DEDUPTBL_ENOSLOT then ''no available slot in non-empty table''
     else if err = deduptbl_code DEDUPTBL_EHEADER then ''missing/invalid header''
     else ''unknown error'')"

text \<open>\<open>while (cap >>= 1) cap_log2++\<close>\<close>

function log2_loop :: "size_t \<Rightarrow> size_t \<Rightarrow> size_t" where
  "log2_loop cap cap_log2 =
    (let cap = drop_bit 1 cap in if cap \<noteq> 0 then log2_loop cap (cap_log2 + 1) else cap_log2)"
  by pat_completeness auto
termination
proof (relation "measure (unat \<circ> fst)")
  fix cap cap_log2 x :: size_t
  assume x: "x = drop_bit 1 cap" "x \<noteq> 0"
  then have u: "unat x = unat cap div 2" by (simp add: drop_bit_Suc unat_div)
  moreover have "0 < unat x" using x(2) by (simp add: unat_gt_0)
  ultimately show "((x, cap_log2 + 1), (cap, cap_log2)) \<in> measure (unat \<circ> fst)" by simp
qed simp

declare log2_loop.simps [simp del]

text \<open>
  The system calls a creation makes: whether \<open>ftruncate\<close> and \<open>mmap\<close> succeed, the error number
  they leave, and the entries found in the mapping of a file.
\<close>

record deduptbl_sys =
  sys_ftruncate :: "int \<Rightarrow> size_t \<Rightarrow> bool"
  sys_mmap :: "int \<Rightarrow> size_t \<Rightarrow> bool"
  sys_errno :: int
  sys_file :: "int \<Rightarrow> nat \<Rightarrow> deduptbl_entry"

definition zero_entry :: deduptbl_entry where
  "zero_entry = \<lparr>de_distance = 0, de_id = DEDUPTBL_ID_EMPTY\<rparr>"

definition deduptbl_cap :: "u32 \<Rightarrow> size_t" where
  "deduptbl_cap max_entries = ucast (round_up_pow2 (max (max_entries + max_entries div 6) 32))"

definition deduptbl_filesize :: "size_t \<Rightarrow> size_t" where
  "deduptbl_filesize cap = 16 + 24 * cap"

definition deduptbl_create :: "deduptbl_sys \<Rightarrow> u32 \<Rightarrow> int \<Rightarrow> deduptbl_status \<times> deduptbl_ctx" where
  "deduptbl_create sys max_entries fd =
    (let ctx = \<lparr>dc_table = None, dc_filesize = 0, dc_saved_errno = 0\<rparr> in
     if max_entries > DEDUPTBL_MAX_ENTRIES then deduptbl_error (sys_errno sys) ctx DEDUPTBL_ETOOBIG
     else
       let cap = deduptbl_cap max_entries;
           filesize = deduptbl_filesize cap in
       if fd \<ge> 0 \<and> \<not> sys_ftruncate sys fd filesize then deduptbl_error (sys_errno sys) ctx DEDUPTBL_EERRNO
       else if \<not> sys_mmap sys fd filesize then deduptbl_error (sys_errno sys) ctx DEDUPTBL_EERRNO
       else (DEDUPTBL_OK, \<lparr>dc_table = Some
           \<lparr>dt_magic = DEDUPTBL_MAGIC, dt_nmax = max_entries, dt_nused = 0,
            dt_cap_log2 = ucast (log2_loop cap 0),
            dt_entries = (if fd \<ge> 0 then map (sys_file sys fd) [0..<unat cap]
                          else replicate (unat cap) zero_entry)\<rparr>,
         dc_filesize = filesize, dc_saved_errno = 0\<rparr>))"

text \<open>
  Loading: the header read from the file (None when the read fails), the size \<open>fstat\<close> reports
  (None when it fails) and the mapped table (None for \<open>MAP_FAILED\<close>). The capacity is computed
  in \<open>int\<close> and converted with its sign.
\<close>

definition deduptbl_load :: "int \<Rightarrow> deduptbl_table option \<Rightarrow> size_t option \<Rightarrow> deduptbl_table option
    \<Rightarrow> deduptbl_ctx \<Rightarrow> deduptbl_status \<times> deduptbl_ctx" where
  "deduptbl_load errno header st_size mapped ctx =
    (case header of
      None \<Rightarrow> deduptbl_error errno ctx DEDUPTBL_EHEADER
    | Some tbl \<Rightarrow>
        if dt_magic tbl \<noteq> DEDUPTBL_MAGIC then deduptbl_error errno ctx DEDUPTBL_EMAGIC
        else (case st_size of
          None \<Rightarrow> deduptbl_error errno ctx DEDUPTBL_EERRNO
        | Some st \<Rightarrow>
            if scast (push_bit (unat (dt_cap_log2 tbl)) (1 :: u32)) * 24 + 16 \<noteq> st
            then deduptbl_error errno ctx DEDUPTBL_ESIZE
            else (case mapped of
              None \<Rightarrow> deduptbl_error errno ctx DEDUPTBL_EERRNO
            | Some data \<Rightarrow>
                (DEDUPTBL_OK, \<lparr>dc_table = Some data, dc_filesize = st, dc_saved_errno = 0\<rparr>))))"

definition deduptbl_cleanup :: "deduptbl_ctx \<Rightarrow> deduptbl_ctx" where
  "deduptbl_cleanup ctx = (if dc_table ctx \<noteq> None then ctx\<lparr>dc_table := None\<rparr> else ctx)"

definition contains_look :: "digest \<Rightarrow> u32 \<Rightarrow> deduptbl_entry \<Rightarrow> verdict" where
  "contains_look ident distance ent =
    (if de_id ent = ident then Found
     else if de_distance ent < distance \<or> de_id ent = DEDUPTBL_ID_EMPTY then Stop
     else Go)"

definition deduptbl_contains :: "deduptbl_table \<Rightarrow> digest \<Rightarrow> int option" where
  "deduptbl_contains tbl ident =
    (let start_pos = TABLE_INDEX tbl (ident ! 0) in
     map_option (\<lambda>r. case r of Some _ \<Rightarrow> 1 | None \<Rightarrow> 0)
       (probe_loop (contains_look ident) (push_bit (unat (dt_cap_log2 tbl)) 1 - 1) (dt_entries tbl)
          start_pos start_pos 0))"

definition deduptbl_update :: "deduptbl_table \<Rightarrow> digest \<Rightarrow> (deduptbl_status \<times> deduptbl_table) option" where
  "deduptbl_update tbl ident =
    (if dt_nused tbl \<ge> dt_nmax tbl then Some (DEDUPTBL_EFULL, tbl)
     else
       let start_pos = TABLE_INDEX tbl (ident ! 0);
           elem = \<lparr>de_distance = 0, de_id = ident\<rparr> in
       map_option (\<lambda>r. case r of
           Vacant pos elem es \<Rightarrow>
             (DEDUPTBL_OK, tbl\<lparr>dt_nused := dt_nused tbl + 1, dt_entries := es[unat pos := elem]\<rparr>)
         | Match pos elem es \<Rightarrow> (DEDUPTBL_EEXIST, tbl\<lparr>dt_entries := es\<rparr>)
         | Exhausted es \<Rightarrow> (DEDUPTBL_ENOSLOT, tbl\<lparr>dt_entries := es\<rparr>))
         (insert_loop (\<lambda>e. de_id e = DEDUPTBL_ID_EMPTY) (\<lambda>e. de_id e = ident)
           (\<lambda>c e. de_distance c < de_distance e)
           (\<lambda>e. e\<lparr>de_distance := de_distance e + 1\<rparr>)
           (push_bit (unat (dt_cap_log2 tbl)) 1 - 1) start_pos start_pos elem (dt_entries tbl)))"

section \<open>The table as a set of digests\<close>

definition ded_view :: "deduptbl_entry \<Rightarrow> digest slot" where
  "ded_view e = (if de_id e = DEDUPTBL_ID_EMPTY then None else Some (de_id e, unat (de_distance e)))"

definition ded_home :: "digest \<Rightarrow> nat" where
  "ded_home p = unat (p ! 0)"

abbreviation ded_load :: "deduptbl_table \<Rightarrow> digest multiset" where
  "ded_load tbl \<equiv> load (map ded_view (dt_entries tbl))"

definition deduptbl_wf :: "deduptbl_table \<Rightarrow> bool" where
  "deduptbl_wf tbl \<longleftrightarrow>
    sized (dt_entries tbl) (push_bit (unat (dt_cap_log2 tbl)) 1 - 1) \<and>
    unat (dt_nused tbl) = size (ded_load tbl) \<and>
    dt_nused tbl \<le> dt_nmax tbl \<and> unat (dt_nmax tbl) < length (dt_entries tbl) \<and>
    rh_inv ded_home (=) (map ded_view (dt_entries tbl))"

definition deduptbl_ids :: "deduptbl_table \<Rightarrow> digest set" where
  "deduptbl_ids tbl = set_mset (ded_load tbl)"

lemma ded_view_Some: "ded_view e = Some (p, d) \<longleftrightarrow>
    de_id e \<noteq> DEDUPTBL_ID_EMPTY \<and> p = de_id e \<and> d = unat (de_distance e)"
  by (auto simp: ded_view_def)

lemma ded_view_None: "ded_view e = None \<longleftrightarrow> de_id e = DEDUPTBL_ID_EMPTY"
  by (simp add: ded_view_def)

interpretation ded_probing: probing ded_view "\<lambda>e. de_id e = DEDUPTBL_ID_EMPTY"
  "\<lambda>c e. de_distance c < de_distance e" "\<lambda>e. e\<lparr>de_distance := de_distance e + 1\<rparr>"
  by unfold_locales (auto simp: ded_view_Some ded_view_None word_less_nat_alt unat_Suc_small)

lemma deduptbl_wf_facts:
  assumes "deduptbl_wf tbl"
  shows "sized (dt_entries tbl) (push_bit (unat (dt_cap_log2 tbl)) 1 - 1)"
    and "rh_inv ded_home (=) (map ded_view (dt_entries tbl))"
    and "unat (dt_nused tbl) = size (ded_load tbl)"
    and "size (ded_load tbl) < length (dt_entries tbl)"
    and "uniq (=) (ded_load tbl)" and "dt_entries tbl \<noteq> []"
  using assms unfolding deduptbl_wf_def rh_inv_def by (auto simp: word_le_nat_alt)

lemma ded_seeks: "ident \<noteq> DEDUPTBL_ID_EMPTY \<Longrightarrow> ded_probing.seeks ((=) ident) (contains_look ident)"
  by (auto simp: ded_probing.seeks_def contains_look_def ded_view_Some ded_view_None word_less_nat_alt)

lemma ded_home_start:
  assumes "deduptbl_wf tbl"
  shows "ded_home ident mod length (dt_entries tbl) = unat (TABLE_INDEX tbl (ident ! 0))"
  unfolding ded_home_def TABLE_INDEX_def by (rule sized_index [OF deduptbl_wf_facts(1) [OF assms], symmetric])

lemma deduptbl_contains_set:
  assumes "deduptbl_wf tbl" "ident \<noteq> DEDUPTBL_ID_EMPTY"
  shows "deduptbl_contains tbl ident = Some (if ident \<in> deduptbl_ids tbl then 1 else 0)"
proof (cases "ident \<in> deduptbl_ids tbl")
  case True
  note wf = deduptbl_wf_facts [OF assms(1)]
  obtain x d where x: "cell (map ded_view (dt_entries tbl)) x = Some (ident, d)"
    using True load_in_cell unfolding deduptbl_ids_def by metis
  have "probe_loop (contains_look ident) (push_bit (unat (dt_cap_log2 tbl)) 1 - 1) (dt_entries tbl)
      (TABLE_INDEX tbl (ident ! 0)) (TABLE_INDEX tbl (ident ! 0)) 0 = Some (Some (x mod length (dt_entries tbl)))"
    by (rule ded_probing.probe_found [OF wf(1,2) ded_seeks [OF assms(2)] x refl ded_home_start [OF assms(1)]]) simp
  then show ?thesis using True by (simp add: deduptbl_contains_def Let_def)
next
  case False
  note wf = deduptbl_wf_facts [OF assms(1)]
  have "probe_loop (contains_look ident) (push_bit (unat (dt_cap_log2 tbl)) 1 - 1) (dt_entries tbl)
      (TABLE_INDEX tbl (ident ! 0)) (TABLE_INDEX tbl (ident ! 0)) 0 = Some None"
    using False unfolding TABLE_INDEX_def deduptbl_ids_def
    by (intro ded_probing.probe_absent [OF wf(1) ded_seeks [OF assms(2)]] sized_index_less [OF wf(1)]) auto
  then show ?thesis using False by (simp add: deduptbl_contains_def Let_def)
qed

lemma card_uniq: "uniq (=) M \<Longrightarrow> card (set_mset M) = size M"
proof (induction M)
  case (add p M)
  have "uniq (=) M" using add.prems by (rule uniq_mono) simp
  moreover have "p \<notin># M" using uniq_remaining [OF add.prems] by blast
  ultimately show ?case using add.IH by simp
qed simp

lemma deduptbl_update_set:
  assumes "deduptbl_wf tbl" "ident \<noteq> DEDUPTBL_ID_EMPTY"
  shows "\<exists>ret tbl'. deduptbl_update tbl ident = Some (ret, tbl') \<and> deduptbl_wf tbl' \<and> dt_nmax tbl' = dt_nmax tbl
    \<and> ret = (if unat (dt_nmax tbl) \<le> card (deduptbl_ids tbl) then DEDUPTBL_EFULL
             else if ident \<in> deduptbl_ids tbl then DEDUPTBL_EEXIST else DEDUPTBL_OK)
    \<and> deduptbl_ids tbl' = (if ret = DEDUPTBL_OK then insert ident (deduptbl_ids tbl) else deduptbl_ids tbl)"
proof -
  note wf = deduptbl_wf_facts [OF assms(1)]
  have card: "card (deduptbl_ids tbl) = unat (dt_nused tbl)"
    unfolding deduptbl_ids_def using wf(3) card_uniq [OF wf(5)] by simp
  show ?thesis
  proof (cases "dt_nmax tbl \<le> dt_nused tbl")
    case True
    then show ?thesis using assms(1) card by (simp add: deduptbl_update_def word_le_nat_alt)
  next
    case False
    let ?elem = "\<lparr>de_distance = 0, de_id = ident\<rparr>" and ?s = "TABLE_INDEX tbl (ident ! 0)"
    let ?loop = "insert_loop (\<lambda>e. de_id e = DEDUPTBL_ID_EMPTY) (\<lambda>e. de_id e = ident)
      (\<lambda>c e. de_distance c < de_distance e) (\<lambda>e. e\<lparr>de_distance := de_distance e + 1\<rparr>)
      (push_bit (unat (dt_cap_log2 tbl)) 1 - 1) ?s ?s ?elem (dt_entries tbl)"
    have ve: "ded_view ?elem = Some (ident, 0)" using assms(2) by (simp add: ded_view_Some)
    have same: "de_id c = ident \<longleftrightarrow> ident = q" if "ded_view c = Some (q, x)" for c q x
      using that by (auto simp: ded_view_Some)
    note home = ded_home_start [OF assms(1), of ident]
    have nf: "\<not> unat (dt_nmax tbl) \<le> card (deduptbl_ids tbl)" using False card by (simp add: word_le_nat_alt)
    show ?thesis
    proof (cases "ident \<in> deduptbl_ids tbl")
      case True
      obtain x0 d where x0: "cell (map ded_view (dt_entries tbl)) x0 = Some (ident, d)"
        using True load_in_cell unfolding deduptbl_ids_def by metis
      have "\<exists>x e'. ?loop = Some (Match x e' (dt_entries tbl)) \<and> unat x = x0 mod length (dt_entries tbl)
          \<and> ded_view e' = Some (ident, d)"
        by (rule ded_probing.insert_existing [OF wf(1,2) ve home home _ x0 refl]) (erule same, simp)
      then show ?thesis using False True nf assms(1) by (auto simp: deduptbl_update_def Let_def)
    next
      case new: False
      then have n: "\<not> ident = q \<and> \<not> q = ident" if "q \<in># ded_load tbl" for q
        using that by (auto simp: deduptbl_ids_def)
      have "\<exists>x e' es'. ?loop = Some (Vacant x e' es') \<and> unat x < length (dt_entries tbl)
          \<and> length es' = length (dt_entries tbl) \<and> rh_inv ded_home (=) (map ded_view (es'[unat x := e']))
          \<and> load (map ded_view (es'[unat x := e'])) = add_mset ident (ded_load tbl)"
        by (rule ded_probing.insert_new [OF wf(1,2,4) ve home]; erule same n)
      then obtain x e' es' where l: "?loop = Some (Vacant x e' es')" "length es' = length (dt_entries tbl)"
        "rh_inv ded_home (=) (map ded_view (es'[unat x := e']))"
        "load (map ded_view (es'[unat x := e'])) = add_mset ident (ded_load tbl)" by blast
      let ?tbl = "tbl\<lparr>dt_nused := dt_nused tbl + 1, dt_entries := es'[unat x := e']\<rparr>"
      have "Suc (unat (dt_nused tbl)) \<le> unat (dt_nmax tbl)" using False by (simp add: word_le_nat_alt)
      moreover have "unat (dt_nused tbl + 1) = Suc (unat (dt_nused tbl))"
        using wf(3,4) sized_length [OF wf(1)] by (simp add: unat_word_ariths)
      ultimately have "deduptbl_wf ?tbl"
        using assms(1) l unfolding deduptbl_wf_def by (simp add: sized_def word_le_nat_alt)
      moreover have "deduptbl_ids ?tbl = insert ident (deduptbl_ids tbl)" using l(4) by (simp add: deduptbl_ids_def)
      ultimately show ?thesis using False new nf l(1) by (auto simp: deduptbl_update_def Let_def)
    qed
  qed
qed

section \<open>Creating and loading\<close>

lemma log2_loop_power: "k < 64 \<Longrightarrow> log2_loop (2 ^ k) a = a + of_nat k"
proof (induction k arbitrary: a)
  case 0
  then show ?case by (subst log2_loop.simps) simp
next
  case (Suc k)
  have "drop_bit 1 (2 ^ Suc k :: u64) = 2 ^ k"
    using Suc.prems by (intro bit_word_eqI) (auto simp: bit_simps)
  moreover have "(2 ^ k :: u64) \<noteq> 0" using Suc.prems by (simp add: exp_eq_zero_iff)
  ultimately show ?case using Suc by (subst log2_loop.simps) (simp add: Let_def)
qed

lemma deduptbl_cap_power:
  assumes "max_entries \<le> DEDUPTBL_MAX_ENTRIES"
  obtains k where "k \<le> 31" "deduptbl_cap max_entries = 2 ^ k" "unat max_entries < 2 ^ k" "5 \<le> k"
proof -
  let ?m = "max (max_entries + max_entries div 6) 32 :: u32"
  have me: "unat max_entries \<le> 0x3fffffff"
    using assms by (simp add: DEDUPTBL_MAX_ENTRIES_def word_le_nat_alt)
  have "unat (max_entries + max_entries div 6) = unat max_entries + unat max_entries div 6"
    using me by (simp add: unat_word_ariths)
  then have m: "unat ?m = max (unat max_entries + unat max_entries div 6) 32"
    by (simp add: max_def word_le_nat_alt)
  have pos: "0 < ?m" unfolding word_less_nat_alt m by simp
  obtain k where k: "k \<le> 32" "round_up_pow2 ?m = 2 ^ k" "unat ?m \<le> 2 ^ k" "2 ^ k < 2 * unat ?m"
    by (rule round_up_pow2_power [OF pos])
  have "unat max_entries div 6 \<le> 0x3fffffff div 6" using me by (rule div_le_mono)
  then have "unat ?m \<le> 2 ^ 31" unfolding m using me by simp
  then have "(2::nat) ^ k < 2 ^ 32" using k(4) by simp
  then have "k < 32" by (rule power_less_imp_less_exp [rotated]) simp
  then have k31: "k \<le> 31" by simp
  have "(2::nat) ^ 5 \<le> 2 ^ k" using k(3) m by simp
  then have "5 \<le> k" by (simp only: power_increasing_iff)
  moreover have "unat max_entries < 2 ^ k" using k(3) m me by (cases "unat max_entries < 32") auto
  moreover have "deduptbl_cap max_entries = 2 ^ k"
    unfolding deduptbl_cap_def k(2) using k31 by (intro bit_word_eqI) (auto simp: bit_simps)
  ultimately show thesis using that k31 by blast
qed

lemma deduptbl_create_table:
  assumes "deduptbl_create sys max_entries fd = (DEDUPTBL_OK, ctx)" "dc_table ctx = Some tbl"
  obtains k where "k \<le> 31" "5 \<le> k" "unat max_entries < 2 ^ k" "dt_cap_log2 tbl = of_nat k"
    "dc_filesize ctx = 16 + 24 * 2 ^ k" "dt_magic tbl = DEDUPTBL_MAGIC" "dt_nmax tbl = max_entries"
    "dt_nused tbl = 0" "length (dt_entries tbl) = 2 ^ k"
    "fd < 0 \<longrightarrow> dt_entries tbl = replicate (2 ^ k) zero_entry"
    "0 \<le> fd \<longrightarrow> dt_entries tbl = map (sys_file sys fd) [0..<2 ^ k]"
proof -
  have le: "max_entries \<le> DEDUPTBL_MAX_ENTRIES"
    using assms(1) by (auto simp: deduptbl_create_def deduptbl_error_def Let_def not_less split: if_splits)
  obtain k where k: "k \<le> 31" "deduptbl_cap max_entries = 2 ^ k" "unat max_entries < 2 ^ k" "5 \<le> k"
    by (rule deduptbl_cap_power [OF le])
  have u: "unat (2 ^ k :: u64) = 2 ^ k"
  proof -
    have "(2::nat) ^ k < 2 ^ 64" using k(1) by (intro power_strict_increasing) auto
    moreover have "(2 ^ k :: u64) = of_nat (2 ^ k)" by simp
    ultimately show ?thesis by (simp only: unat_of_nat) simp
  qed
  have "k < 2 ^ 64" using k(1) by simp
  then have lg: "ucast (log2_loop (2 ^ k) 0) = (of_nat k :: u32)"
    using log2_loop_power [of k 0] k(1) by (simp add: unsigned_of_nat take_bit_nat_eq_self)
  show thesis
    by (rule that [of k])
      (use assms k le u lg in \<open>auto simp: deduptbl_create_def deduptbl_error_def deduptbl_filesize_def Let_def
         split: if_splits\<close>)
qed

lemma mask_of_log2: "k \<le> 31 \<Longrightarrow> dt_cap_log2 tbl = of_nat k
    \<Longrightarrow> push_bit (unat (dt_cap_log2 tbl)) 1 - 1 = (mask k :: u32)"
  by (simp add: unat_of_nat mask_eq_exp_minus_1)

lemma deduptbl_create_wf:
  assumes "deduptbl_create sys max_entries fd = (DEDUPTBL_OK, ctx)" "dc_table ctx = Some tbl"
    and "0 \<le> fd \<Longrightarrow> \<forall>i. sys_file sys fd i = zero_entry"
  shows "deduptbl_wf tbl \<and> deduptbl_ids tbl = {} \<and> dt_nmax tbl = max_entries"
proof -
  obtain k where k: "k \<le> 31" "unat max_entries < 2 ^ k" "dt_cap_log2 tbl = of_nat k" "dt_nmax tbl = max_entries"
    "dt_nused tbl = 0" "length (dt_entries tbl) = 2 ^ k" "fd < 0 \<longrightarrow> dt_entries tbl = replicate (2 ^ k) zero_entry"
    "0 \<le> fd \<longrightarrow> dt_entries tbl = map (sys_file sys fd) [0..<2 ^ k]"
    using deduptbl_create_table [OF assms(1,2)] by blast
  have es: "dt_entries tbl = replicate (2 ^ k) zero_entry"
    using k(7,8) assms(3) by (cases "fd < 0") (auto simp: map_replicate_const intro: nth_equalityI)
  then have sl: "map ded_view (dt_entries tbl) = replicate (2 ^ k) None"
    by (simp add: ded_view_None zero_entry_def)
  have "sized (dt_entries tbl) (push_bit (unat (dt_cap_log2 tbl)) 1 - 1)"
    unfolding sized_def mask_of_log2 [OF k(1,3)] using k(1,6) by blast
  then show ?thesis
    unfolding deduptbl_wf_def deduptbl_ids_def sl using k(2,4,5,6) rh_inv_vacant [of "2 ^ k"] by simp
qed

section \<open>Refinement\<close>

datatype ded_op = Ded_update digest | Ded_contains digest

datatype ded_answer = Status deduptbl_status | Flag int

fun ded_step :: "ded_op \<Rightarrow> deduptbl_table \<Rightarrow> (ded_answer \<times> deduptbl_table) option" where
  "ded_step (Ded_update p) tbl = map_option (\<lambda>(r, t). (Status r, t)) (deduptbl_update tbl p)"
| "ded_step (Ded_contains p) tbl = map_option (\<lambda>b. (Flag b, tbl)) (deduptbl_contains tbl p)"

fun ded_valid :: "ded_op \<Rightarrow> bool" where
  "ded_valid (Ded_update p) \<longleftrightarrow> p \<noteq> DEDUPTBL_ID_EMPTY"
| "ded_valid (Ded_contains p) \<longleftrightarrow> p \<noteq> DEDUPTBL_ID_EMPTY"

text \<open>A set of at most \<open>n\<close> digests; a full set answers EFULL whether or not it has the digest.\<close>

inductive ded_allows :: "nat \<Rightarrow> ded_op \<Rightarrow> digest set \<Rightarrow> ded_answer \<Rightarrow> digest set \<Rightarrow> bool" for n where
  update_new: "card S < n \<Longrightarrow> p \<notin> S \<Longrightarrow> ded_allows n (Ded_update p) S (Status DEDUPTBL_OK) (insert p S)"
| update_known: "card S < n \<Longrightarrow> p \<in> S \<Longrightarrow> ded_allows n (Ded_update p) S (Status DEDUPTBL_EEXIST) S"
| update_full: "n \<le> card S \<Longrightarrow> ded_allows n (Ded_update p) S (Status DEDUPTBL_EFULL) S"
| contains_known: "p \<in> S \<Longrightarrow> ded_allows n (Ded_contains p) S (Flag 1) S"
| contains_unknown: "p \<notin> S \<Longrightarrow> ded_allows n (Ded_contains p) S (Flag 0) S"

interpretation ded_table: simulation ded_step ded_valid "\<lambda>t. deduptbl_wf t \<and> dt_nmax t = nmax" deduptbl_ids
  "ded_allows (unat nmax)" for nmax
proof unfold_locales
  fix tbl opn
  assume wf: "deduptbl_wf tbl \<and> dt_nmax tbl = nmax" and v: "ded_valid opn"
  show "\<exists>r t. ded_step opn tbl = Some (r, t) \<and> (deduptbl_wf t \<and> dt_nmax t = nmax)
    \<and> ded_allows (unat nmax) opn (deduptbl_ids tbl) r (deduptbl_ids t)"
  proof (cases opn)
    case (Ded_update p)
    then have p: "p \<noteq> DEDUPTBL_ID_EMPTY" using v by simp
    obtain ret t where t: "deduptbl_update tbl p = Some (ret, t)" "deduptbl_wf t" "dt_nmax t = dt_nmax tbl"
      "ret = (if unat (dt_nmax tbl) \<le> card (deduptbl_ids tbl) then DEDUPTBL_EFULL
              else if p \<in> deduptbl_ids tbl then DEDUPTBL_EEXIST else DEDUPTBL_OK)"
      "deduptbl_ids t = (if ret = DEDUPTBL_OK then insert p (deduptbl_ids tbl) else deduptbl_ids tbl)"
      using deduptbl_update_set [OF conjunct1 [OF wf] p] by blast
    then show ?thesis using Ded_update wf
      by (cases "unat nmax \<le> card (deduptbl_ids tbl)"; cases "p \<in> deduptbl_ids tbl")
        (auto intro: ded_allows.intros simp: ded_allows.update_new)
  next
    case (Ded_contains p)
    then show ?thesis using deduptbl_contains_set [of tbl p] wf v
      by (cases "p \<in> deduptbl_ids tbl") (auto intro: ded_allows.intros)
  qed
qed

text \<open>
  C19. Refinement of a bounded set: on a table created in memory or over an empty file, every
  sequence of updates and membership tests with digests other than the all-zero one returns
  and answers as a set of at most max_entries digests does; ENOSLOT does not occur.
\<close>
theorem deduptbl_refines_bounded_set:
  assumes "deduptbl_create sys max_entries fd = (DEDUPTBL_OK, ctx)" "dc_table ctx = Some tbl"
    and "0 \<le> fd \<longrightarrow> (\<forall>i. sys_file sys fd i = zero_entry)" "\<forall>opn \<in> set ops. ded_valid opn"
  shows "\<exists>rs tbl'. run_ops ded_step ops tbl = Some (rs, tbl') \<and> deduptbl_wf tbl'
    \<and> allowed_run (ded_allows (unat max_entries)) ops {} rs (deduptbl_ids tbl')"
proof -
  have wf: "deduptbl_wf tbl \<and> dt_nmax tbl = max_entries" "deduptbl_ids tbl = {}"
    using deduptbl_create_wf [OF assms(1,2)] assms(3) by auto
  then show ?thesis using ded_table.run_simulates [OF wf(1) assms(4)] by auto
qed

definition memory_sys :: deduptbl_sys where
  "memory_sys = \<lparr>sys_ftruncate = (\<lambda>_ _. True), sys_mmap = (\<lambda>_ _. True), sys_errno = 0,
     sys_file = (\<lambda>_ _. zero_entry)\<rparr>"

lemma memory_create: "max_entries \<le> DEDUPTBL_MAX_ENTRIES \<Longrightarrow>
    \<exists>ctx tbl. deduptbl_create memory_sys max_entries fd = (DEDUPTBL_OK, ctx) \<and> dc_table ctx = Some tbl"
  by (simp add: deduptbl_create_def memory_sys_def Let_def not_less [symmetric])

theorem deduptbl_refines_bounded_set_witness:
  "\<exists>ctx tbl rs tbl'. deduptbl_create memory_sys 1 (-1) = (DEDUPTBL_OK, ctx) \<and> dc_table ctx = Some tbl
    \<and> run_ops ded_step [Ded_update [1,2,3,4,5], Ded_update [9,2,3,4,5], Ded_contains [1,2,3,4,5]] tbl = Some (rs, tbl')
    \<and> allowed_run (ded_allows (unat (1::u32))) [Ded_update [1,2,3,4,5], Ded_update [9,2,3,4,5], Ded_contains [1,2,3,4,5]]
        {} rs (deduptbl_ids tbl')"
proof -
  obtain ctx tbl where c: "deduptbl_create memory_sys 1 (-1) = (DEDUPTBL_OK, ctx)" "dc_table ctx = Some tbl"
    using memory_create [of 1 "-1"] by (auto simp: DEDUPTBL_MAX_ENTRIES_def)
  have "\<forall>opn \<in> set [Ded_update [1,2,3,4,5], Ded_update [9,2,3,4,5], Ded_contains [1,2,3,4,5]]. ded_valid opn"
    by (simp add: DEDUPTBL_ID_EMPTY_def)
  then have "\<exists>rs tbl'. run_ops ded_step [Ded_update [1,2,3,4,5], Ded_update [9,2,3,4,5], Ded_contains [1,2,3,4,5]] tbl
      = Some (rs, tbl') \<and> deduptbl_wf tbl'
    \<and> allowed_run (ded_allows (unat (1::u32))) [Ded_update [1,2,3,4,5], Ded_update [9,2,3,4,5], Ded_contains [1,2,3,4,5]]
        {} rs (deduptbl_ids tbl')"
    by (intro deduptbl_refines_bounded_set [OF c]) simp_all
  with c show ?thesis by blast
qed

text \<open>
  Creating and loading: a table header written by deduptbl_create passes the checks of
  deduptbl_load on a file of the size the creation chose, except when the capacity is 2^31
  slots: there the capacity computed by the load is negative and the table is rejected as
  having an invalid size, although the number of entries is one the creation accepts.
\<close>
theorem deduptbl_create_load:
  assumes "deduptbl_create sys max_entries fd = (DEDUPTBL_OK, ctx)" "dc_table ctx = Some tbl"
  shows "fst (deduptbl_load errno (Some tbl) (Some (dc_filesize ctx)) (Some tbl) ctx')
    = (if length (dt_entries tbl) < 2 ^ 31 then DEDUPTBL_OK else DEDUPTBL_ESIZE)"
proof -
  obtain k where k: "k \<le> 31" "dt_cap_log2 tbl = of_nat k" "dc_filesize ctx = 16 + 24 * 2 ^ k"
    "dt_magic tbl = DEDUPTBL_MAGIC" "length (dt_entries tbl) = 2 ^ k"
    using deduptbl_create_table [OF assms] by blast
  have cap: "push_bit (unat (dt_cap_log2 tbl)) 1 = (2 ^ k :: u32)"
    using k(1,2) by (simp add: unat_of_nat)
  show ?thesis
  proof (cases "k = 31")
    case True
    have "scast (2 ^ 31 :: u32) * 24 + 16 \<noteq> (16 + 24 * 2 ^ 31 :: u64)" by simp
    then show ?thesis using k(3,4,5) True unfolding deduptbl_load_def option.case cap by (simp add: deduptbl_error_def)
  next
    case False
    then have "scast (2 ^ k :: u32) = (2 ^ k :: u64)"
      using k(1) by (intro bit_word_eqI) (auto simp: bit_simps)
    moreover have "(2::nat) ^ k < 2 ^ 31" using False k(1) by (intro power_strict_increasing) auto
    ultimately show ?thesis using k(3,4,5) unfolding deduptbl_load_def option.case cap by (simp add: ac_simps)
  qed
qed

theorem deduptbl_create_load_witness:
  "\<exists>ctx tbl. deduptbl_create memory_sys 0x3fffffff 3 = (DEDUPTBL_OK, ctx) \<and> dc_table ctx = Some tbl
    \<and> fst (deduptbl_load 0 (Some tbl) (Some (dc_filesize ctx)) (Some tbl) ctx) = DEDUPTBL_ESIZE"
proof -
  obtain ctx tbl where c: "deduptbl_create memory_sys 0x3fffffff 3 = (DEDUPTBL_OK, ctx)" "dc_table ctx = Some tbl"
    using memory_create [of "0x3fffffff" 3] by (auto simp: DEDUPTBL_MAX_ENTRIES_def)
  have "length (dt_entries tbl) = 2 ^ 31"
    using c by (auto simp: deduptbl_create_def memory_sys_def deduptbl_cap_def round_up_pow2_def Let_def
        DEDUPTBL_MAX_ENTRIES_def)
  then show ?thesis using deduptbl_create_load [OF c, of 0 ctx] c by simp
qed

end
