(* ===== verification/Versions.thy ===== *)
theory Versions
  imports Yans_Prelude "HOL-Library.List_Lexorder" "HOL-Library.Product_Lexorder"
begin

text \<open>
  The two version schemes: up to four dotted numbers (lib/util/vaguever.c) and dotted fields of
  a number and a suffix (lib/util/nalphaver.c). Printing and parsing of the first are inverse,
  and both comparisons are total preorders.
\<close>

section \<open>Dotted numbers\<close>

text \<open>The fields are \<open>int\<close>, kept as their 32 bits; the code ignores their overflow.\<close>

definition VAGUEVER_NFIELDS :: nat where
  "VAGUEVER_NFIELDS = 4"

record vaguever_version =
  vv_nused :: nat
  vv_fields :: "u32 list"

text \<open>
  The loop over the characters; the end of the list is the terminating NUL. The outer None is
  a store outside the fields.
\<close>

fun vv_loop :: "bytes \<Rightarrow> nat \<Rightarrow> u32 \<Rightarrow> bool \<Rightarrow> u32 list \<Rightarrow> (nat \<times> u32 list) option" where
  "vv_loop [] i val hasval flds =
    (if hasval then if i < length flds then Some (i + 1, flds[i := val]) else None
     else Some (i, flds))"
| "vv_loop (ch # s) i val hasval flds =
    (if is_digit ch then vv_loop s i (val * 10 + of_nat (digit_val ch)) True flds
     else if hasval \<and> \<not> i < length flds then None
     else
       let flds = (if hasval then flds[i := val] else flds);
           i = (if hasval then i + 1 else i) in
       if ch \<noteq> CHR ''.'' \<or> i \<ge> VAGUEVER_NFIELDS then Some (i, flds)
       else vv_loop s i 0 False flds)"

definition vaguever_init :: "bytes \<Rightarrow> vaguever_version option" where
  "vaguever_init str = map_option (\<lambda>(i, flds). \<lparr>vv_nused = max i 1, vv_fields = flds\<rparr>)
     (vv_loop (cstr str) 0 0 False (replicate VAGUEVER_NFIELDS 0))"

text \<open>\<open>snprintf\<close> writes at most \<open>len - 1\<close> bytes and the terminator; nothing when \<open>len\<close> is 0.\<close>

fun dotted :: "u32 list \<Rightarrow> bytes" where
  "dotted [] = []"
| "dotted [f] = dec_digits (unat f)"
| "dotted (f # fs) = dec_digits (unat f) @ ''.'' @ dotted fs"

definition vaguever_str :: "vaguever_version \<Rightarrow> nat \<Rightarrow> bytes option" where
  "vaguever_str v len =
    (let text = (if vv_nused v = 1 then dotted (take 1 (vv_fields v))
                 else if vv_nused v = 2 then dotted (take 2 (vv_fields v))
                 else if vv_nused v = 3 then dotted (take 3 (vv_fields v))
                 else dotted (take 4 (vv_fields v)))
     in if len = 0 then None else Some (take (len - 1) text))"

fun fields_cmp :: "u32 list \<Rightarrow> u32 list \<Rightarrow> int" where
  "fields_cmp (a # as) (b # bs) =
    (let diff = (if sint a > sint b then 1 else 0) - (if sint a < sint b then 1 else 0) in
     if diff \<noteq> 0 then diff else fields_cmp as bs)"
| "fields_cmp as bs = 0"

definition vaguever_cmp :: "vaguever_version \<Rightarrow> vaguever_version \<Rightarrow> int" where
  "vaguever_cmp v1 v2 = fields_cmp (take VAGUEVER_NFIELDS (vv_fields v1)) (take VAGUEVER_NFIELDS (vv_fields v2))"

section \<open>Fields with suffixes\<close>

record nalphaver_field =
  na_pos :: bytes
  na_suffix :: bytes
  na_val :: u32
  na_suffixlen :: u32

definition na_next :: "nalphaver_field \<Rightarrow> bool \<times> nalphaver_field" where
  "na_next na =
    (if na_pos na = [] then (False, na\<lparr>na_suffix := na_pos na, na_val := 0, na_suffixlen := 0\<rparr>)
     else
       let (l, cptr) = strtoul10 (na_pos na);
           l = min l 0x7fffffff;
           off = strcspn cptr ''.'';
           off = (if off > 0xffffffff then 0xffffffff else off);
           nxt = dropWhile (\<lambda>c. c = CHR ''.'') (drop off cptr)
       in (True, na\<lparr>na_pos := nxt, na_suffix := cptr, na_val := ucast l, na_suffixlen := of_nat off\<rparr>))"

text \<open>\<open>strncmp\<close>: only the sign of its result is specified.\<close>

fun strncmp :: "bytes \<Rightarrow> bytes \<Rightarrow> nat \<Rightarrow> int" where
  "strncmp s t 0 = 0"
| "strncmp [] [] (Suc n) = 0"
| "strncmp [] (d # t) (Suc n) = -1"
| "strncmp (c # s) [] (Suc n) = 1"
| "strncmp (c # s) (d # t) (Suc n) =
    (if c = d then strncmp s t n else if (of_char c :: nat) < of_char d then -1 else 1)"

definition na_cmp :: "nalphaver_field \<Rightarrow> nalphaver_field \<Rightarrow> int" where
  "na_cmp l r =
    (let val = sint (na_val l - na_val r);
         val = (if val = 0 then
                  let val = strncmp (na_suffix l) (na_suffix r) (unat (min (na_suffixlen l) (na_suffixlen r))) in
                  if val = 0 then sint (na_suffixlen l - na_suffixlen r) else val
                else val)
     in if val < -1 then -1 else if val > 1 then 1 else val)"

partial_function (option) na_loop :: "bool \<Rightarrow> bool \<Rightarrow> nalphaver_field \<Rightarrow> nalphaver_field \<Rightarrow> int option" where
  "na_loop r1 r2 left right =
    (if r1 \<or> r2 then
       let val = na_cmp left right in
       if val \<noteq> 0 then Some val
       else
         let (r1, left) = na_next left; (r2, right) = na_next right in
         na_loop r1 r2 left right
     else Some 0)"

definition nalphaver_cmp :: "bytes \<Rightarrow> bytes \<Rightarrow> int option" where
  "nalphaver_cmp s1 s2 =
    (let start = (\<lambda>s. \<lparr>na_pos = s, na_suffix = [], na_val = 0, na_suffixlen = 0\<rparr>);
         (r1, left) = na_next (start (cstr s1));
         (r2, right) = na_next (start (cstr s2)) in
     na_loop r1 r2 left right)"

section \<open>Printing and parsing\<close>

lemma vv_loop_digits: "\<forall>c \<in> set ds. is_digit c \<Longrightarrow> vv_loop (ds @ s) i v h fs
    = vv_loop s i (foldl (\<lambda>v c. v * 10 + of_nat (digit_val c)) v ds) (h \<or> ds \<noteq> []) fs"
  by (induction ds arbitrary: v h) auto

lemma foldl_of_nat: "foldl (\<lambda>v c. v * 10 + of_nat (digit_val c)) (of_nat a) ds
    = (of_nat (foldl (\<lambda>v c. 10 * v + digit_val c) a ds) :: u32)"
proof (induction ds arbitrary: a)
  case (Cons d ds)
  have "of_nat a * 10 + of_nat (digit_val d) = (of_nat (10 * a + digit_val d) :: u32)"
    by (simp add: mult.commute)
  then show ?case using Cons.IH [of "10 * a + digit_val d"] by (simp only: foldl_Cons)
qed simp

lemma vv_loop_number: "vv_loop (dec_digits (unat f) @ s) i 0 False fs = vv_loop s i f True fs"
proof -
  have "foldl (\<lambda>v c. v * 10 + of_nat (digit_val c)) 0 (dec_digits (unat f)) = f"
    using foldl_of_nat [of 0 "dec_digits (unat f)"] dec_value_dec_digits [of "unat f"]
    by (simp add: dec_value_def)
  then show ?thesis using vv_loop_digits [of "dec_digits (unat f)" s i 0 False fs] set_dec_digits by auto
qed

lemma vv_loop_dotted:
  assumes "fs \<noteq> []" "i + length fs \<le> VAGUEVER_NFIELDS" "length gs = VAGUEVER_NFIELDS"
  shows "vv_loop (dotted fs) i 0 False gs = Some (i + length fs, take i gs @ fs @ drop (i + length fs) gs)"
  using assms
proof (induction fs arbitrary: i gs rule: dotted.induct)
  case (2 f)
  have "vv_loop (dotted [f]) i 0 False gs = vv_loop [] i f True gs"
    using vv_loop_number [of f "[]" i gs] by simp
  then show ?case using 2 by (simp add: upd_conv_take_nth_drop)
next
  case (3 f g fs)
  have "vv_loop (dotted (f # g # fs)) i 0 False gs = vv_loop (''.'' @ dotted (g # fs)) i f True gs"
    using vv_loop_number [of f "''.'' @ dotted (g # fs)" i gs] by simp
  also have "\<dots> = vv_loop (dotted (g # fs)) (i + 1) 0 False (gs[i := f])"
    using 3(3,4) by (simp add: is_digit_def)
  also have "\<dots> = Some (i + 1 + length (g # fs), take (i + 1) (gs[i := f]) @ (g # fs) @ drop (i + 1 + length (g # fs)) (gs[i := f]))"
    by (rule 3(1)) (use 3(3,4) in auto)
  finally show ?case using 3(3,4) by (simp add: take_Suc_conv_app_nth take_update_swap drop_update_swap nth_append list_update_append)
qed simp

lemma dotted_no_NUL: "NUL \<notin> set (dotted fs)"
proof (induction fs rule: dotted.induct)
  case (2 f)
  then show ?case using set_dec_digits [of NUL "unat f"] by (auto simp: is_digit_def)
next
  case (3 f g fs)
  then show ?case using set_dec_digits [of NUL "unat f"] by (auto simp: is_digit_def)
qed simp

lemma length_dotted: "length (dotted fs) \<le> 11 * length fs"
proof (induction fs rule: dotted.induct)
  case (2 f)
  have "unat f < 10 ^ Suc 9" using unat_less_exp [of f] by simp
  from length_dec_digits [OF this] show ?case by simp
next
  case (3 f g fs)
  have "unat f < 10 ^ Suc 9" using unat_less_exp [of f] by simp
  from length_dec_digits [OF this] 3 show ?case by simp
qed simp

definition vaguever_wf :: "vaguever_version \<Rightarrow> bool" where
  "vaguever_wf v \<longleftrightarrow> length (vv_fields v) = VAGUEVER_NFIELDS \<and> 1 \<le> vv_nused v \<and> vv_nused v \<le> VAGUEVER_NFIELDS
    \<and> drop (vv_nused v) (vv_fields v) = replicate (VAGUEVER_NFIELDS - vv_nused v) 0"

text \<open>
  A version printed into a buffer of at least 45 bytes and parsed again is the same
  version: the number of fields and every field.
\<close>
theorem vaguever_print_parse:
  assumes "vaguever_wf v" "45 \<le> len"
  shows "\<exists>s. vaguever_str v len = Some s \<and> vaguever_init s = Some v"
proof -
  let ?n = "vv_nused v" and ?fs = "take (vv_nused v) (vv_fields v)"
  have n: "?n \<in> {1, 2, 3, 4}" using assms(1) by (auto simp: vaguever_wf_def VAGUEVER_NFIELDS_def)
  have l: "length ?fs = ?n" "?fs \<noteq> []" using assms(1) by (auto simp: vaguever_wf_def VAGUEVER_NFIELDS_def)
  have "length (dotted ?fs) \<le> len - 1" using length_dotted [of ?fs] l n assms(2) by auto
  then have s: "vaguever_str v len = Some (dotted ?fs)"
    using n assms(2) unfolding vaguever_str_def Let_def by auto
  have "vv_loop (dotted ?fs) 0 0 False (replicate VAGUEVER_NFIELDS 0)
      = Some (?n, ?fs @ drop ?n (replicate VAGUEVER_NFIELDS 0))"
    using vv_loop_dotted [of ?fs 0 "replicate VAGUEVER_NFIELDS 0"] l assms(1)
    by (simp add: vaguever_wf_def)
  also have "?fs @ drop ?n (replicate VAGUEVER_NFIELDS 0) = vv_fields v"
    using assms(1) by (metis append_take_drop_id drop_replicate vaguever_wf_def)
  finally show ?thesis using s n cstr_id [OF dotted_no_NUL] by (auto simp: vaguever_init_def max_def)
qed

theorem vaguever_print_parse_witness:
  "\<exists>s. vaguever_str \<lparr>vv_nused = 3, vv_fields = [1, 14, 0, 0]\<rparr> 64 = Some s
    \<and> vaguever_init s = Some \<lparr>vv_nused = 3, vv_fields = [1, 14, 0, 0]\<rparr>"
  by (rule vaguever_print_parse) (simp_all add: vaguever_wf_def VAGUEVER_NFIELDS_def)

section \<open>The order of suffixed versions\<close>

definition sign_cmp :: "'a::linorder \<Rightarrow> 'a \<Rightarrow> int" where
  "sign_cmp x y = (if x < y then -1 else if x = y then 0 else 1)"

lemma sign_cmp_sym: "sign_cmp y x = - sign_cmp x y"
  by (auto simp: sign_cmp_def)

lemma sign_cmp_trans: "sign_cmp x y \<le> 0 \<Longrightarrow> sign_cmp y z \<le> 0 \<Longrightarrow> sign_cmp x z \<le> 0"
  by (auto simp: sign_cmp_def split: if_splits)

lemma sign_cmp_pair: "sign_cmp (a, b) (c, d) = (if sign_cmp a c \<noteq> 0 then sign_cmp a c else sign_cmp b d)"
  by (auto simp: sign_cmp_def less_prod_def')

lemma sign_cmp_Cons: "sign_cmp (x # xs) (y # ys) = (if sign_cmp x y \<noteq> 0 then sign_cmp x y else sign_cmp xs ys)"
  by (auto simp: sign_cmp_def Cons_less_Cons)

definition clamp1 :: "int \<Rightarrow> int" where
  "clamp1 v = (if v < -1 then -1 else if v > 1 then 1 else v)"

definition codes :: "bytes \<Rightarrow> nat list" where
  "codes s = map of_char s"

lemma codes_simps [simp]: "codes [] = []" "codes (c # s) = of_char c # codes s"
  by (simp_all add: codes_def)

lemma strncmp_codes:
  "a \<le> length s \<Longrightarrow> b \<le> length t \<Longrightarrow>
    clamp1 (if strncmp s t (min a b) = 0 then int a - int b else strncmp s t (min a b))
      = sign_cmp (codes (take a s)) (codes (take b t))"
proof (induction s t "min a b" arbitrary: a b rule: strncmp.induct)
  case (1 s t)
  then have "a = 0 \<or> b = 0" by (simp add: min_def split: if_splits)
  with 1 show ?case
    by (cases a; cases b; cases s; cases t) (auto simp: clamp1_def sign_cmp_def)
next
  case (5 c s d t n)
  obtain a' b' where ab: "a = Suc a'" "b = Suc b'" using 5(2) by (cases a; cases b) auto
  have m: "min a b = Suc (min a' b')" by (simp add: ab)
  show ?case
  proof (cases "c = d")
    case True
    have "n = min a' b'" using 5(2) m by simp
    then have "clamp1 (if strncmp s t (min a' b') = 0 then int a' - int b' else strncmp s t (min a' b'))
        = sign_cmp (codes (take a' s)) (codes (take b' t))"
      using 5(1) [OF True, of a' b'] 5(3,4) ab by auto
    then show ?thesis using True unfolding m ab
      by (auto simp: sign_cmp_Cons sign_cmp_def [of "of_char d :: nat"] split: if_splits)
  next
    case False
    then show ?thesis unfolding m ab
      by (auto simp: clamp1_def sign_cmp_Cons sign_cmp_def [of "of_char c :: nat"])
  qed
qed auto

text \<open>The fields of a version, as the pairs the comparison sees.\<close>

definition na_field :: "nalphaver_field \<Rightarrow> nat \<times> nat list" where
  "na_field na = (unat (na_val na), codes (take (unat (na_suffixlen na)) (na_suffix na)))"

definition na_wf :: "nalphaver_field \<Rightarrow> bool" where
  "na_wf na \<longleftrightarrow> unat (na_val na) < 2 ^ 31 \<and> unat (na_suffixlen na) < 2 ^ 31
    \<and> unat (na_suffixlen na) \<le> length (na_suffix na)"

lemma sint_diff_small:
  fixes v w :: u32
  assumes "unat v < 2 ^ 31" "unat w < 2 ^ 31"
  shows "sint (v - w) = int (unat v) - int (unat w)"
proof -
  have s: "sint v = int (unat v)" "sint w = int (unat w)" using assms by (simp_all only: sint_small)
  define k l where "k = unat v" and "l = unat w"
  have kl: "k < 2 ^ 31" "l < 2 ^ 31" using assms by (simp_all only: k_def l_def)
  have "signed_take_bit 31 (int k - int l) = int k - int l"
    by (rule signed_take_bit_int_eq_self) (use kl in simp_all)
  moreover have "sint (v - w) = signed_take_bit 31 (sint v - sint w)"
    using sint_word_ariths(2) [of v w] by simp
  ultimately show ?thesis unfolding s k_def l_def by (simp only:)
qed

lemma na_cmp_field:
  assumes "na_wf l" "na_wf r"
  shows "na_cmp l r = sign_cmp (na_field l) (na_field r)"
proof -
  have v: "sint (na_val l - na_val r) = int (unat (na_val l)) - int (unat (na_val r))"
    and n: "sint (na_suffixlen l - na_suffixlen r) = int (unat (na_suffixlen l)) - int (unat (na_suffixlen r))"
    using assms by (simp_all only: na_wf_def sint_diff_small)
  have m: "unat (min (na_suffixlen l) (na_suffixlen r)) = min (unat (na_suffixlen l)) (unat (na_suffixlen r))"
    by (simp add: min_def word_le_nat_alt)
  define a b where "a = unat (na_suffixlen l)" and "b = unat (na_suffixlen r)"
  have c: "clamp1 (if strncmp (na_suffix l) (na_suffix r) (min a b) = 0 then int a - int b
      else strncmp (na_suffix l) (na_suffix r) (min a b))
    = sign_cmp (codes (take a (na_suffix l))) (codes (take b (na_suffix r)))"
    by (rule strncmp_codes) (use assms in \<open>simp_all add: na_wf_def a_def b_def\<close>)
  define x y where "x = unat (na_val l)" and "y = unat (na_val r)"
  have "na_cmp l r = clamp1 (if int x - int y = 0 then
      if strncmp (na_suffix l) (na_suffix r) (min a b) = 0 then int a - int b
      else strncmp (na_suffix l) (na_suffix r) (min a b) else int x - int y)"
    unfolding na_cmp_def Let_def clamp1_def v n m a_def b_def x_def y_def ..
  also have "\<dots> = (if x = y then sign_cmp (codes (take a (na_suffix l))) (codes (take b (na_suffix r)))
      else clamp1 (int x - int y))" using c by auto
  also have "\<dots> = sign_cmp (x, codes (take a (na_suffix l))) (y, codes (take b (na_suffix r)))"
    by (auto simp: sign_cmp_pair clamp1_def sign_cmp_def [of x])
  finally show ?thesis unfolding na_field_def a_def b_def x_def y_def .
qed

definition na_start :: "bytes \<Rightarrow> nalphaver_field" where
  "na_start s = \<lparr>na_pos = s, na_suffix = [], na_val = 0, na_suffixlen = 0\<rparr>"

lemma strtoul10_rest: "length (snd (strtoul10 s)) \<le> length s"
proof -
  let ?t = "dropWhile c_isspace s"
  let ?u = "if ?t \<noteq> [] \<and> (hd ?t = CHR ''-'' \<or> hd ?t = CHR ''+'') then tl ?t else ?t"
  have "length (dropWhile is_digit ?u) \<le> length ?u" by (rule length_dropWhile_le)
  also have "\<dots> \<le> length ?t" by simp
  also have "\<dots> \<le> length s" by (rule length_dropWhile_le)
  finally show ?thesis by (simp add: strtoul10_def Let_def)
qed

lemma na_next_progress: "na_pos na \<noteq> [] \<Longrightarrow> length (na_pos (snd (na_next na))) < length (na_pos na)"
proof -
  assume ne: "na_pos na \<noteq> []"
  obtain l cptr where lc: "strtoul10 (na_pos na) = (l, cptr)" by fastforce
  have le: "length cptr \<le> length (na_pos na)" using strtoul10_rest [of "na_pos na"] lc by simp
  define off where "off = (if strcspn cptr ''.'' > 0xffffffff then 0xffffffff else strcspn cptr ''.'')"
  define nxt where "nxt = dropWhile (\<lambda>c. c = CHR ''.'') (drop off cptr)"
  have pos: "na_pos (snd (na_next na)) = nxt"
    using ne lc by (simp add: na_next_def nxt_def off_def Let_def)
  have "length nxt < length (na_pos na)"
  proof (cases cptr)
    case Nil
    then show ?thesis using ne by (simp add: nxt_def)
  next
    case (Cons c cs)
    have "length nxt < length cptr"
    proof (cases "c = CHR ''.''")
      case True
      then have "off = 0" by (simp add: off_def strcspn_def Cons)
      then have "nxt = dropWhile (\<lambda>c. c = CHR ''.'') cs" using True by (simp add: nxt_def Cons)
      then show ?thesis using length_dropWhile_le [of "\<lambda>c. c = CHR ''.''" cs] by (simp add: Cons le_imp_less_Suc)
    next
      case False
      then have "0 < off" by (simp add: off_def strcspn_def Cons)
      then have "length (drop off cptr) < length cptr" by (simp add: Cons)
      then show ?thesis unfolding nxt_def using length_dropWhile_le le_less_trans by blast
    qed
    then show ?thesis using le by simp
  qed
  then show ?thesis using pos by simp
qed

function na_fields :: "bytes \<Rightarrow> (nat \<times> nat list) list" where
  "na_fields s = (if s = [] then []
    else na_field (snd (na_next (na_start s))) # na_fields (na_pos (snd (na_next (na_start s)))))"
  by pat_completeness auto
termination
  by (relation "measure length") (use na_next_progress [of "na_start _"] in \<open>auto simp: na_start_def\<close>)

declare na_fields.simps [simp del]

lemma na_fields_Nil [simp]: "na_fields [] = []"
  by (simp add: na_fields.simps)

text \<open>A version seen as a sequence of \<open>n\<close> fields, missing fields being 0 with no suffix.\<close>

definition na_key :: "nat \<Rightarrow> (nat \<times> nat list) list \<Rightarrow> (nat \<times> nat list) list" where
  "na_key n fs = fs @ replicate (n - length fs) (0, [])"

lemma na_next_wf:
  assumes "length (na_pos na) < 2 ^ 31"
  shows "na_wf (snd (na_next na))"
proof (cases "na_pos na = []")
  case True
  then show ?thesis by (simp add: na_next_def na_wf_def)
next
  case False
  obtain l cptr where lc: "strtoul10 (na_pos na) = (l, cptr)" by fastforce
  have "length cptr \<le> length (na_pos na)" using strtoul10_rest [of "na_pos na"] lc by simp
  moreover have off: "strcspn cptr ''.'' \<le> length cptr" by (simp add: strcspn_def length_takeWhile_le)
  ultimately have o: "strcspn cptr ''.'' < 2 ^ 31" using assms by linarith
  then have u: "unat (of_nat (strcspn cptr ''.'') :: u32) = strcspn cptr ''.''" by (simp add: unat_of_nat)
  define m where "m = min l 0x7fffffff"
  have "m \<le> 0x7fffffff" by (simp add: m_def)
  then have "unat m \<le> 0x7fffffff" by (simp add: word_le_nat_alt)
  then have "unat (ucast m :: u32) < 2 ^ 31" by (simp add: unsigned_ucast_eq take_bit_nat_eq_self)
  then show ?thesis using False lc o u off by (simp add: na_next_def na_wf_def m_def Let_def)
qed

lemma na_next_start: "na_pos na \<noteq> [] \<Longrightarrow> na_next na = (True, snd (na_next (na_start (na_pos na))))"
  by (cases na) (simp add: na_next_def na_start_def Let_def split: prod.splits)

text \<open>The fields still to compare: the current one, if the last step gave one, and the rest.\<close>

definition na_left :: "bool \<Rightarrow> nalphaver_field \<Rightarrow> (nat \<times> nat list) list" where
  "na_left r na = (if r then na_field na # na_fields (na_pos na) else [])"

definition na_state :: "bool \<Rightarrow> nalphaver_field \<Rightarrow> bool" where
  "na_state r na \<longleftrightarrow> na_wf na \<and> length (na_pos na) < 2 ^ 31 \<and> (\<not> r \<longrightarrow> na_pos na = [] \<and> na_field na = (0, []))"

lemma na_step:
  assumes "na_state r na"
  obtains r' na' where "na_next na = (r', na')" "na_state r' na'"
    "na_left r na = (if r then na_field na # na_left r' na' else [])" "\<not> r \<longrightarrow> \<not> r'"
proof (cases "na_pos na = []")
  case True
  let ?na = "na\<lparr>na_suffix := na_pos na, na_val := 0, na_suffixlen := 0\<rparr>"
  have n: "na_next na = (False, ?na)" using True by (simp add: na_next_def)
  show thesis by (rule that [OF n]) (use True assms in \<open>auto simp: na_state_def na_wf_def na_field_def na_left_def\<close>)
next
  case False
  let ?na = "snd (na_next (na_start (na_pos na)))"
  have n: "na_next na = (True, ?na)" by (rule na_next_start [OF False])
  have r: r using assms False by (auto simp: na_state_def)
  have lt: "length (na_pos ?na) < length (na_pos na)" using na_next_progress [OF False] n by simp
  have wf: "na_wf ?na" using na_next_wf [of na] assms n by (simp add: na_state_def)
  have "na_fields (na_pos na) = na_left True ?na"
    using False by (subst na_fields.simps) (simp add: na_left_def)
  then have "na_left r na = na_field na # na_left True ?na" using r by (simp add: na_left_def)
  then show thesis using that [OF n] wf lt r assms by (simp add: na_state_def)
qed

lemma na_key_Cons: "fs \<noteq> [] \<Longrightarrow> na_key (Suc n) fs = hd fs # na_key n (tl fs)"
  by (cases fs) (simp_all add: na_key_def)

lemma na_key_Nil: "na_key (Suc n) [] = (0, []) # na_key n []"
  by (simp add: na_key_def)

lemma na_loop_key:
  assumes "na_state r1 l" "na_state r2 r" "length (na_left r1 l) \<le> n" "length (na_left r2 r) \<le> n"
  shows "na_loop r1 r2 l r = Some (sign_cmp (na_key n (na_left r1 l)) (na_key n (na_left r2 r)))"
  using assms
proof (induction n arbitrary: r1 r2 l r)
  case 0
  then have "\<not> r1" "\<not> r2" by (auto simp: na_left_def split: if_splits)
  then show ?case by (subst na_loop.simps) (simp add: na_left_def na_key_def sign_cmp_def)
next
  case (Suc n)
  show ?case
  proof (cases "r1 \<or> r2")
    case False
    then show ?thesis by (subst na_loop.simps) (simp add: na_left_def sign_cmp_def)
  next
    case True
    obtain r1' l' where l: "na_next l = (r1', l')" "na_state r1' l'"
      "na_left r1 l = (if r1 then na_field l # na_left r1' l' else [])" "\<not> r1 \<longrightarrow> \<not> r1'"
      by (rule na_step [OF Suc.prems(1)])
    obtain r2' r' where r: "na_next r = (r2', r')" "na_state r2' r'"
      "na_left r2 r = (if r2 then na_field r # na_left r2' r' else [])" "\<not> r2 \<longrightarrow> \<not> r2'"
      by (rule na_step [OF Suc.prems(2)])
    have kl: "na_key (Suc n) (na_left r1 l) = na_field l # na_key n (na_left r1' l')"
      using l(3,4) Suc.prems(1) by (cases r1) (simp_all add: na_key_Cons na_key_Nil na_state_def na_left_def)
    have kr: "na_key (Suc n) (na_left r2 r) = na_field r # na_key n (na_left r2' r')"
      using r(3,4) Suc.prems(2) by (cases r2) (simp_all add: na_key_Cons na_key_Nil na_state_def na_left_def)
    have c: "na_cmp l r = sign_cmp (na_field l) (na_field r)"
      by (rule na_cmp_field) (use Suc.prems(1,2) in \<open>simp_all add: na_state_def\<close>)
    have "length (na_left r1' l') \<le> n" "length (na_left r2' r') \<le> n"
      using l(3,4) r(3,4) Suc.prems(3,4) by (cases r1; cases r2; simp add: na_left_def)+
    then have "na_loop r1' r2' l' r' = Some (sign_cmp (na_key n (na_left r1' l')) (na_key n (na_left r2' r')))"
      by (rule Suc.IH [OF l(2) r(2)])
    then show ?thesis using True l(1) r(1) c unfolding kl kr sign_cmp_Cons
      by (subst na_loop.simps) (simp add: Let_def)
  qed
qed

lemma nalphaver_cmp_key:
  assumes "length s < 2 ^ 31" "length t < 2 ^ 31"
    and "length (na_fields (cstr s)) \<le> n" "length (na_fields (cstr t)) \<le> n"
  shows "nalphaver_cmp s t = Some (sign_cmp (na_key n (na_fields (cstr s))) (na_key n (na_fields (cstr t))))"
proof -
  have ini: "\<exists>r na. na_next (na_start (cstr s)) = (r, na) \<and> na_state r na \<and> na_left r na = na_fields (cstr s)"
    if "length s < 2 ^ 31" for s
  proof -
    have le: "length (cstr s) < 2 ^ 31"
      using that length_takeWhile_le [of "\<lambda>c. c \<noteq> NUL" s] by (simp add: cstr_def)
    have "na_state True (na_start (cstr s))" using le by (simp add: na_state_def na_wf_def na_start_def)
    then obtain r na where n: "na_next (na_start (cstr s)) = (r, na)" "na_state r na"
      "na_left True (na_start (cstr s)) = na_field (na_start (cstr s)) # na_left r na"
      using na_step by (metis (full_types))
    then show ?thesis by (simp add: na_left_def [of True] na_start_def) 
  qed
  obtain r1 l where l: "na_next (na_start (cstr s)) = (r1, l)" "na_state r1 l" "na_left r1 l = na_fields (cstr s)"
    using ini [OF assms(1)] by blast
  obtain r2 r where r: "na_next (na_start (cstr t)) = (r2, r)" "na_state r2 r" "na_left r2 r = na_fields (cstr t)"
    using ini [OF assms(2)] by blast
  have "nalphaver_cmp s t = na_loop r1 r2 l r"
    using l(1) r(1) unfolding nalphaver_cmp_def na_start_def by (simp add: Let_def)
  then show ?thesis using na_loop_key [OF l(2) r(2), of n] l(3) r(3) assms(3,4) by simp
qed

text \<open>
  C22. The comparison of suffixed versions always returns for strings below 2 GiB and is a total
  preorder: swapping the arguments negates the result, and it is transitive.
\<close>
theorem nalphaver_cmp_preorder:
  assumes "length a < 2 ^ 31" "length b < 2 ^ 31" "length c < 2 ^ 31"
  shows "\<exists>x y z. nalphaver_cmp a b = Some x \<and> nalphaver_cmp b a = Some (- x) \<and> nalphaver_cmp b c = Some y
    \<and> nalphaver_cmp a c = Some z \<and> x \<in> {-1, 0, 1} \<and> (x \<le> 0 \<and> y \<le> 0 \<longrightarrow> z \<le> 0)"
proof -
  let ?f = "\<lambda>s. na_fields (cstr s)"
  define n where "n = max (length (?f a)) (max (length (?f b)) (length (?f c)))"
  define k where "k s = na_key n (?f s)" for s
  have n: "length (?f a) \<le> n" "length (?f b) \<le> n" "length (?f c) \<le> n" by (simp_all add: n_def)
  have "nalphaver_cmp a b = Some (sign_cmp (k a) (k b))" "nalphaver_cmp b a = Some (- sign_cmp (k a) (k b))"
    "nalphaver_cmp b c = Some (sign_cmp (k b) (k c))" "nalphaver_cmp a c = Some (sign_cmp (k a) (k c))"
    using nalphaver_cmp_key [OF assms(1,2) n(1,2)] nalphaver_cmp_key [OF assms(2,1) n(2,1)]
      nalphaver_cmp_key [OF assms(2,3) n(2,3)] nalphaver_cmp_key [OF assms(1,3) n(1,3)]
      sign_cmp_sym [of "k a" "k b"] by (simp_all only: k_def minus_minus)
  then show ?thesis using sign_cmp_trans [of "k a" "k b" "k c"] by (auto simp: sign_cmp_def split: if_splits)
qed

theorem nalphaver_cmp_preorder_witness:
  "\<exists>x y z. nalphaver_cmp ''1.2a'' ''1.2b'' = Some x \<and> nalphaver_cmp ''1.2b'' ''1.2a'' = Some (- x)
    \<and> nalphaver_cmp ''1.2b'' ''1.10'' = Some y \<and> nalphaver_cmp ''1.2a'' ''1.10'' = Some z
    \<and> x \<in> {-1, 0, 1} \<and> (x \<le> 0 \<and> y \<le> 0 \<longrightarrow> z \<le> 0)"
  by (rule nalphaver_cmp_preorder) simp_all

section \<open>The operations return\<close>

lemma vv_loop_returns: "length fs = VAGUEVER_NFIELDS \<Longrightarrow> i < VAGUEVER_NFIELDS \<Longrightarrow>
    \<exists>j gs. vv_loop s i v h fs = Some (j, gs) \<and> length gs = VAGUEVER_NFIELDS"
  by (induction s arbitrary: i v h fs) (auto simp: Let_def)

lemma vaguever_init_returns: "\<exists>v. vaguever_init s = Some v \<and> length (vv_fields v) = VAGUEVER_NFIELDS"
  using vv_loop_returns [of "replicate VAGUEVER_NFIELDS 0" 0 "cstr s" 0 False]
  by (auto simp: vaguever_init_def VAGUEVER_NFIELDS_def)

lemma na_loop_returns: "\<exists>x. na_loop r1 r2 l r = Some x"
proof (induction "length (na_pos l) + length (na_pos r)" arbitrary: r1 r2 l r rule: less_induct)
  case less
  obtain r1' l' where l: "na_next l = (r1', l')" by fastforce
  obtain r2' r' where r: "na_next r = (r2', r')" by fastforce
  have step: "na_loop r1 r2 l r = (if r1 \<or> r2 then if na_cmp l r \<noteq> 0 then Some (na_cmp l r)
      else na_loop r1' r2' l' r' else Some 0)"
    using l r by (subst na_loop.simps) (simp add: Let_def)
  have next_l: "na_pos l = [] \<Longrightarrow> \<not> r1' \<and> na_pos l' = []" "na_pos l \<noteq> [] \<Longrightarrow> length (na_pos l') < length (na_pos l)"
    using l na_next_progress [of l] by (auto simp: na_next_def)
  have next_r: "na_pos r = [] \<Longrightarrow> \<not> r2' \<and> na_pos r' = []" "na_pos r \<noteq> [] \<Longrightarrow> length (na_pos r') < length (na_pos r)"
    using r na_next_progress [of r] by (auto simp: na_next_def)
  have "\<exists>x. na_loop r1' r2' l' r' = Some x"
  proof (cases "na_pos l = [] \<and> na_pos r = []")
    case True
    then show ?thesis using next_l(1) next_r(1) by (subst na_loop.simps) simp
  next
    case False
    then have "length (na_pos l') + length (na_pos r') < length (na_pos l) + length (na_pos r)"
      using next_l next_r by (cases "na_pos l = []"; cases "na_pos r = []") auto
    then show ?thesis by (rule less)
  qed
  then show ?case using step by auto
qed

lemma nalphaver_cmp_returns: "\<exists>x. nalphaver_cmp s t = Some x"
  unfolding nalphaver_cmp_def Let_def by (simp add: na_loop_returns split: prod.splits)

end
