(* ===== verification/Vulnspec_Interp.thy ===== *)
theory Vulnspec_Interp
  imports Versions
begin

text \<open>
  Loading and evaluating compiled vulnerability specifications (lib/vulnspec/interp.c,
  lib/vulnspec/vulnspec.h). A program is a block of bytes with a header; nodes refer to each
  other by 32-bit offsets. A load validates every node that is reachable, an evaluation walks
  the same nodes without checks. The loops and recursions follow offsets, which may be cyclic,
  and are modelled with fuel: running out of it is a result of its own.
\<close>

section \<open>Running\<close>

text \<open>
  A run ends with a value, with the status of a \<open>longjmp\<close>, with an access outside the memory,
  or exceeds the fuel.
\<close>

datatype 'a run = Done 'a | Bail status | Fault | Timeout

fun andThen :: "'a run \<Rightarrow> ('a \<Rightarrow> 'b run) \<Rightarrow> 'b run" where
  "andThen (Done x) f = f x"
| "andThen (Bail e) f = Bail e"
| "andThen Fault f = Fault"
| "andThen Timeout f = Timeout"

text \<open>\<open>longjmp\<close> with 0 makes \<open>setjmp\<close> return 1.\<close>

definition longjmp :: "status \<Rightarrow> 'a run" where
  "longjmp e = Bail (if e = 0 then 1 else e)"

section \<open>Data\<close>

definition VULNSPEC_EINVALID_OFFSET :: status where "VULNSPEC_EINVALID_OFFSET = -4"
definition VULNSPEC_EINVALID_NODE :: status where "VULNSPEC_EINVALID_NODE = -5"
definition VULNSPEC_ELOAD :: status where "VULNSPEC_ELOAD = -6"
definition VULNSPEC_EHEADER :: status where "VULNSPEC_EHEADER = -7"

definition VULNSPEC_HEADER :: bytes where
  "VULNSPEC_HEADER = ''VM0'' @ replicate 5 NUL"

definition VULNSPEC_HEADER_SIZE :: size_t where
  "VULNSPEC_HEADER_SIZE = 8"

text \<open>The node types, in the order of the enumeration.\<close>

definition VULNSPEC_CVE_NODE :: u32 where "VULNSPEC_CVE_NODE = 1"
definition VULNSPEC_OR_NODE :: u32 where "VULNSPEC_OR_NODE = 2"
definition VULNSPEC_AND_NODE :: u32 where "VULNSPEC_AND_NODE = 3"
definition VULNSPEC_LT_NODE :: u32 where "VULNSPEC_LT_NODE = 5"
definition VULNSPEC_LE_NODE :: u32 where "VULNSPEC_LE_NODE = 6"
definition VULNSPEC_EQ_NODE :: u32 where "VULNSPEC_EQ_NODE = 7"
definition VULNSPEC_GE_NODE :: u32 where "VULNSPEC_GE_NODE = 8"
definition VULNSPEC_GT_NODE :: u32 where "VULNSPEC_GT_NODE = 9"

definition VULNSPEC_VVAGUE :: u32 where "VULNSPEC_VVAGUE = 0"
definition VULNSPEC_VNALPHA :: u32 where "VULNSPEC_VNALPHA = 1"

definition is_compar :: "u32 \<Rightarrow> bool" where
  "is_compar t \<longleftrightarrow> t = VULNSPEC_LT_NODE \<or> t = VULNSPEC_LE_NODE \<or> t = VULNSPEC_EQ_NODE
     \<or> t = VULNSPEC_GE_NODE \<or> t = VULNSPEC_GT_NODE"

definition is_boolean :: "u32 \<Rightarrow> bool" where
  "is_boolean t \<longleftrightarrow> t = VULNSPEC_AND_NODE \<or> t = VULNSPEC_OR_NODE"

text \<open>Reading memory: a little-endian 32-bit word and a C string.\<close>

definition le32 :: "bytes \<Rightarrow> u32" where
  "le32 bs = of_nat (foldr (\<lambda>b v. of_char b + 256 * v) bs 0)"

definition rd32 :: "bytes \<Rightarrow> size_t \<Rightarrow> u32 run" where
  "rd32 mem off =
    (if unat off + 4 \<le> length mem then Done (le32 (take 4 (drop (unat off) mem))) else Fault)"

definition rdstr :: "bytes \<Rightarrow> size_t \<Rightarrow> bytes run" where
  "rdstr mem off = (if NUL \<in> set (drop (unat off) mem) then Done (cstr (drop (unat off) mem)) else Fault)"

text \<open>
  The nodes and the offsets of their fields: a comparison has its type, the length and offset
  of the vendor and product, the version type and either a version of four numbers or the
  length and offset of a string; the nodes of a connective are a chain.
\<close>

record vulnspec_cvalue =
  cv_length :: u32
  cv_offset :: u32

record vulnspec_compar_node =
  cn_type :: u32
  cn_vendprod :: vulnspec_cvalue
  cn_vtype :: u32
  cn_vague :: vaguever_version
  cn_cval :: vulnspec_cvalue

record vulnspec_boolean_node =
  bn_type :: u32
  bn_next :: u32
  bn_value :: u32

record vulnspec_cve_node =
  ce_type :: u32
  ce_next :: u32
  ce_cvss2_base :: u32
  ce_cvss3_base :: u32
  ce_id :: vulnspec_cvalue
  ce_description :: vulnspec_cvalue
  ce_vulnexpr :: u32

definition rd_cvalue :: "bytes \<Rightarrow> size_t \<Rightarrow> vulnspec_cvalue run" where
  "rd_cvalue mem off =
    andThen (rd32 mem off) (\<lambda>l. andThen (rd32 mem (off + 4)) (\<lambda>v.
      Done \<lparr>cv_length = l, cv_offset = v\<rparr>))"

definition rd_vague :: "bytes \<Rightarrow> size_t \<Rightarrow> vaguever_version run" where
  "rd_vague mem off =
    andThen (rd32 mem off) (\<lambda>n. andThen (rd32 mem (off + 4)) (\<lambda>a. andThen (rd32 mem (off + 8)) (\<lambda>b.
    andThen (rd32 mem (off + 12)) (\<lambda>c. andThen (rd32 mem (off + 16)) (\<lambda>d.
      Done \<lparr>vv_nused = unat n, vv_fields = [a, b, c, d]\<rparr>)))))"

definition rd_compar :: "bytes \<Rightarrow> size_t \<Rightarrow> vulnspec_compar_node run" where
  "rd_compar mem off =
    andThen (rd32 mem off) (\<lambda>t. andThen (rd_cvalue mem (off + 4)) (\<lambda>vp. andThen (rd32 mem (off + 12)) (\<lambda>vt.
    andThen (rd_vague mem (off + 16)) (\<lambda>vague. andThen (rd_cvalue mem (off + 16)) (\<lambda>cval.
      Done \<lparr>cn_type = t, cn_vendprod = vp, cn_vtype = vt, cn_vague = vague, cn_cval = cval\<rparr>)))))"

definition rd_boolean :: "bytes \<Rightarrow> size_t \<Rightarrow> vulnspec_boolean_node run" where
  "rd_boolean mem off =
    andThen (rd32 mem off) (\<lambda>t. andThen (rd32 mem (off + 4)) (\<lambda>n. andThen (rd32 mem (off + 8)) (\<lambda>v.
      Done \<lparr>bn_type = t, bn_next = n, bn_value = v\<rparr>)))"

definition rd_cve :: "bytes \<Rightarrow> size_t \<Rightarrow> vulnspec_cve_node run" where
  "rd_cve mem off =
    andThen (rd32 mem off) (\<lambda>t. andThen (rd32 mem (off + 4)) (\<lambda>n. andThen (rd32 mem (off + 8)) (\<lambda>c2.
    andThen (rd32 mem (off + 12)) (\<lambda>c3. andThen (rd_cvalue mem (off + 16)) (\<lambda>i.
    andThen (rd_cvalue mem (off + 24)) (\<lambda>d. andThen (rd32 mem (off + 32)) (\<lambda>e.
      Done \<lparr>ce_type = t, ce_next = n, ce_cvss2_base = c2, ce_cvss3_base = c3, ce_id = i,
            ce_description = d, ce_vulnexpr = e\<rparr>)))))))"

section \<open>The validator\<close>

text \<open>The validator knows the address of the data, the data and their length.\<close>

record vulnspec_validator =
  vd_base :: u64
  vd_data :: bytes
  vd_len :: size_t

definition check :: "vulnspec_validator \<Rightarrow> size_t \<Rightarrow> size_t \<Rightarrow> unit run" where
  "check v offset len =
    (if offset < VULNSPEC_HEADER_SIZE then longjmp VULNSPEC_EINVALID_OFFSET
     else if offset + len > vd_len v then longjmp VULNSPEC_EINVALID_OFFSET
     else if vd_base v + offset < vd_base v then longjmp VULNSPEC_EINVALID_OFFSET
     else if vd_base v + offset + len < vd_base v then longjmp VULNSPEC_EINVALID_OFFSET
     else Done ())"

text \<open>The address of the last byte of a string is computed in 32 bits.\<close>

definition vstr :: "vulnspec_validator \<Rightarrow> vulnspec_cvalue \<Rightarrow> unit run" where
  "vstr v cval =
    andThen (check v (ucast (cv_offset cval)) (ucast (cv_length cval))) (\<lambda>_.
      let p = unat (cv_offset cval + cv_length cval - 1) in
      if p < length (vd_data v) then
        if vd_data v ! p \<noteq> NUL then longjmp VULNSPEC_EINVALID_NODE else Done ()
      else Fault)"

definition vcompar :: "vulnspec_validator \<Rightarrow> size_t \<Rightarrow> unit run" where
  "vcompar v offset =
    andThen (check v offset 36) (\<lambda>_.
    andThen (rd_compar (vd_data v) offset) (\<lambda>node.
    andThen (vstr v (cn_vendprod node)) (\<lambda>_.
      if cn_vtype node \<noteq> VULNSPEC_VVAGUE then vstr v (cn_cval node) else Done ())))"

fun vboolean :: "nat \<Rightarrow> vulnspec_validator \<Rightarrow> size_t \<Rightarrow> unit run"
  and vvulnexpr :: "nat \<Rightarrow> vulnspec_validator \<Rightarrow> size_t \<Rightarrow> unit run" where
  "vboolean 0 v offset = Timeout"
| "vboolean (Suc n) v offset =
    (if offset > 0 then
       andThen (check v offset 12) (\<lambda>_.
       andThen (rd_boolean (vd_data v) offset) (\<lambda>node.
         if \<not> is_boolean (bn_type node) then longjmp VULNSPEC_EINVALID_NODE
         else andThen (vvulnexpr n v (ucast (bn_value node))) (\<lambda>_.
           vboolean n v (ucast (bn_next node)))))
     else Done ())"
| "vvulnexpr 0 v offset = Timeout"
| "vvulnexpr (Suc n) v offset =
    andThen (check v offset 4) (\<lambda>_.
    andThen (rd32 (vd_data v) offset) (\<lambda>t.
      if is_compar t then vcompar v offset
      else if is_boolean t then vboolean n v offset
      else longjmp VULNSPEC_EINVALID_NODE))"

fun vcve :: "nat \<Rightarrow> vulnspec_validator \<Rightarrow> size_t \<Rightarrow> unit run" where
  "vcve 0 v offset = Timeout"
| "vcve (Suc n) v offset =
    (if offset > 0 then
       andThen (check v offset 36) (\<lambda>_.
       andThen (rd_cve (vd_data v) offset) (\<lambda>cve.
         if ce_type cve \<noteq> VULNSPEC_CVE_NODE then longjmp VULNSPEC_EINVALID_NODE
         else andThen (vstr v (ce_id cve)) (\<lambda>_.
           andThen (vstr v (ce_description cve)) (\<lambda>_.
           andThen (vvulnexpr n v (ucast (ce_vulnexpr cve))) (\<lambda>_.
             vcve n v (ucast (ce_next cve)))))))
     else Done ())"

definition vnode :: "nat \<Rightarrow> vulnspec_validator \<Rightarrow> size_t \<Rightarrow> unit run" where
  "vnode fuel v offset =
    andThen (check v offset 4) (\<lambda>_.
    andThen (rd32 (vd_data v) offset) (\<lambda>t.
      if t = VULNSPEC_CVE_NODE then vcve fuel v offset else longjmp VULNSPEC_EINVALID_NODE))"

definition validate :: "nat \<Rightarrow> u64 \<Rightarrow> bytes \<Rightarrow> size_t \<Rightarrow> status run" where
  "validate fuel base data len =
    (if len < VULNSPEC_HEADER_SIZE \<or> take 8 data \<noteq> VULNSPEC_HEADER then Done VULNSPEC_EHEADER
     else
       case vnode fuel \<lparr>vd_base = base, vd_data = data, vd_len = len\<rparr> VULNSPEC_HEADER_SIZE of
         Done _ \<Rightarrow> Done 0
       | Bail e \<Rightarrow> Done e
       | Fault \<Rightarrow> Fault
       | Timeout \<Rightarrow> Timeout)"

section \<open>The interpreter\<close>

text \<open>
  The scores are fixed point numbers with two decimals, which the code divides by 100 in
  floating point before the call. The callback works on the data of the client.
\<close>

record vulnspec_cve_match =
  cm_id :: bytes
  cm_cvss2_base :: u32
  cm_cvss3_base :: u32
  cm_desc :: bytes

record 'd vulnspec_params =
  vp_cve_on_match :: "(vulnspec_cve_match \<Rightarrow> 'd \<Rightarrow> int \<times> 'd) option"
  vp_cve_on_match_data :: 'd
  vp_cve_vendprod :: "bytes option"
  vp_cve_version :: "bytes option"
  vp_cve_vaguever_version :: vaguever_version

text \<open>\<open>vi_data\<close> is the memory that can be read at the data pointer.\<close>

record 'd vulnspec_interp =
  vi_params :: "'d vulnspec_params"
  vi_data :: bytes
  vi_len :: size_t

definition vulnspec_init :: "'d \<Rightarrow> 'd vulnspec_interp" where
  "vulnspec_init null = \<lparr>vi_params = \<lparr>vp_cve_on_match = None, vp_cve_on_match_data = null, vp_cve_vendprod = None,
     vp_cve_version = None, vp_cve_vaguever_version = \<lparr>vv_nused = 0, vv_fields = [0, 0, 0, 0]\<rparr>\<rparr>,
     vi_data = [], vi_len = 0\<rparr>"

text \<open>After \<open>munmap\<close> nothing can be read at the data pointer; the pointer and the length stay.\<close>

definition vulnspec_unloadfile :: "'d vulnspec_interp \<Rightarrow> 'd vulnspec_interp" where
  "vulnspec_unloadfile interp = (if vi_len interp > 0 then interp\<lparr>vi_data := []\<rparr> else interp)"

definition vulnspec_load :: "nat \<Rightarrow> 'd vulnspec_interp \<Rightarrow> u64 \<Rightarrow> bytes \<Rightarrow> size_t \<Rightarrow> (status \<times> 'd vulnspec_interp) run" where
  "vulnspec_load fuel interp base data len =
    andThen (validate fuel base data len) (\<lambda>ret.
      if ret \<noteq> 0 then Done (ret, interp)
      else Done (0, interp\<lparr>vi_data := data, vi_len := len\<rparr>))"

text \<open>\<open>mapped\<close> is the file in memory and its size, None when \<open>fstat\<close> or \<open>mmap\<close> fails.\<close>

definition vulnspec_loadfile :: "nat \<Rightarrow> 'd vulnspec_interp \<Rightarrow> u64 \<Rightarrow> (bytes \<times> size_t) option
    \<Rightarrow> (status \<times> 'd vulnspec_interp) run" where
  "vulnspec_loadfile fuel interp base mapped =
    (case mapped of
      None \<Rightarrow> Done (VULNSPEC_ELOAD, interp)
    | Some (data, len) \<Rightarrow>
        andThen (vulnspec_load fuel interp base data len) (\<lambda>(ret, interp).
          Done (ret, if ret < 0 then vulnspec_unloadfile interp else interp)))"

definition compar_result :: "u32 \<Rightarrow> int \<Rightarrow> bool" where
  "compar_result t cmp =
    (if t = VULNSPEC_LT_NODE then cmp < 0
     else if t = VULNSPEC_LE_NODE then cmp \<le> 0
     else if t = VULNSPEC_EQ_NODE then cmp = 0
     else if t = VULNSPEC_GE_NODE then cmp \<ge> 0
     else if t = VULNSPEC_GT_NODE then cmp > 0
     else False)"

definition ecompar :: "'d vulnspec_params \<Rightarrow> bytes \<Rightarrow> size_t \<Rightarrow> bool run" where
  "ecompar params mem offset =
    andThen (rd_compar mem offset) (\<lambda>node.
    andThen (rdstr mem (ucast (cv_offset (cn_vendprod node)))) (\<lambda>vendprod.
      case vp_cve_vendprod params of
        None \<Rightarrow> Fault
      | Some vp \<Rightarrow>
          if strcmp vendprod (cstr vp) \<noteq> 0 then Done False
          else if cn_vtype node = VULNSPEC_VVAGUE then
            Done (compar_result (cn_type node) (vaguever_cmp (vp_cve_vaguever_version params) (cn_vague node)))
          else if cn_vtype node = VULNSPEC_VNALPHA then
            andThen (rdstr mem (ucast (cv_offset (cn_cval node)))) (\<lambda>version.
              case vp_cve_version params of
                None \<Rightarrow> Fault
              | Some ver \<Rightarrow>
                  (case nalphaver_cmp ver version of
                    None \<Rightarrow> Timeout
                  | Some cmp \<Rightarrow> Done (compar_result (cn_type node) cmp)))
          else Done False))"

fun eboolean :: "nat \<Rightarrow> 'd vulnspec_params \<Rightarrow> bytes \<Rightarrow> size_t \<Rightarrow> bool \<Rightarrow> bool run"
  and evulnexpr :: "nat \<Rightarrow> 'd vulnspec_params \<Rightarrow> bytes \<Rightarrow> size_t \<Rightarrow> bool run" where
  "eboolean 0 params mem offset ret = Timeout"
| "eboolean (Suc n) params mem offset ret =
    (if offset > 0 then
       andThen (rd_boolean mem offset) (\<lambda>node.
         if \<not> is_boolean (bn_type node) then longjmp VULNSPEC_EINVALID_NODE
         else andThen (evulnexpr n params mem (ucast (bn_value node))) (\<lambda>ret.
           if \<not> ret \<and> bn_type node = VULNSPEC_AND_NODE then Done ret
           else if ret \<and> bn_type node = VULNSPEC_OR_NODE then Done ret
           else eboolean n params mem (ucast (bn_next node)) ret))
     else Done ret)"
| "evulnexpr 0 params mem offset = Timeout"
| "evulnexpr (Suc n) params mem offset =
    andThen (rd32 mem offset) (\<lambda>t.
      if is_compar t then ecompar params mem offset
      else if is_boolean t then eboolean n params mem offset False
      else longjmp VULNSPEC_EINVALID_NODE)"

definition missing :: "bytes option \<Rightarrow> bool" where
  "missing s \<longleftrightarrow> s = None \<or> cstr (the s) = []"

text \<open>
  The result is the status of a \<open>longjmp\<close>, or 0, and the data of the client, which the callback
  may have changed before.
\<close>

fun enodes :: "nat \<Rightarrow> 'd vulnspec_params \<Rightarrow> bytes \<Rightarrow> size_t \<Rightarrow> 'd \<Rightarrow> (status \<times> 'd) run" where
  "enodes 0 params mem offset data = Timeout"
| "enodes (Suc n) params mem offset data =
    (if offset > 0 then
       andThen (rd_cve mem offset) (\<lambda>cve.
         if ce_type cve \<noteq> VULNSPEC_CVE_NODE then Done (VULNSPEC_EINVALID_NODE, data)
         else if missing (vp_cve_version params) \<or> missing (vp_cve_vendprod params) then Done (0, data)
         else
           (case evulnexpr n params mem (ucast (ce_vulnexpr cve)) of
             Bail e \<Rightarrow> Done (e, data)
           | Fault \<Rightarrow> Fault
           | Timeout \<Rightarrow> Timeout
           | Done ret \<Rightarrow>
               (case (ret, vp_cve_on_match params) of
                 (True, Some cve_on_match) \<Rightarrow>
                   andThen (rdstr mem (ucast (cv_offset (ce_id cve)))) (\<lambda>i.
                   andThen (rdstr mem (ucast (cv_offset (ce_description cve)))) (\<lambda>d.
                     let (ret, data) = cve_on_match \<lparr>cm_id = i, cm_cvss2_base = ce_cvss2_base cve,
                           cm_cvss3_base = ce_cvss3_base cve, cm_desc = d\<rparr> data in
                     if ret \<le> 0 then Done (if ret = 0 then 1 else ret, data)
                     else enodes n params mem (ucast (ce_next cve)) data))
               | _ \<Rightarrow> enodes n params mem (ucast (ce_next cve)) data)))
     else Done (0, data))"

definition vulnspec_eval :: "nat \<Rightarrow> 'd vulnspec_interp \<Rightarrow> (status \<times> 'd) run" where
  "vulnspec_eval fuel interp =
    (let data = vp_cve_on_match_data (vi_params interp) in
     if vi_len interp \<le> VULNSPEC_HEADER_SIZE + 4 then Done (0, data)
     else enodes fuel (vi_params interp) (vi_data interp) VULNSPEC_HEADER_SIZE data)"

datatype 'd vulnspec_param = VULNSPEC_PCVEONMATCH "(vulnspec_cve_match \<Rightarrow> 'd \<Rightarrow> int \<times> 'd) option"
  | VULNSPEC_PCVEONMATCHDATA 'd | VULNSPEC_PCVEVENDPROD "bytes option" | VULNSPEC_PCVEVERSION bytes

fun vulnspec_set :: "'d vulnspec_interp \<Rightarrow> 'd vulnspec_param \<Rightarrow> 'd vulnspec_interp option" where
  "vulnspec_set interp (VULNSPEC_PCVEONMATCH f) =
    Some (interp\<lparr>vi_params := (vi_params interp)\<lparr>vp_cve_on_match := f\<rparr>\<rparr>)"
| "vulnspec_set interp (VULNSPEC_PCVEONMATCHDATA d) =
    Some (interp\<lparr>vi_params := (vi_params interp)\<lparr>vp_cve_on_match_data := d\<rparr>\<rparr>)"
| "vulnspec_set interp (VULNSPEC_PCVEVENDPROD s) =
    Some (interp\<lparr>vi_params := (vi_params interp)\<lparr>vp_cve_vendprod := s\<rparr>\<rparr>)"
| "vulnspec_set interp (VULNSPEC_PCVEVERSION s) =
    map_option (\<lambda>v. interp\<lparr>vi_params := (vi_params interp)\<lparr>vp_cve_version := Some s,
      vp_cve_vaguever_version := v\<rparr>\<rparr>) (vaguever_init s)"

section \<open>What a program says\<close>

text \<open>The expressions of a program and the strings they refer to.\<close>

datatype vexpr = Cmp vulnspec_compar_node bytes bytes | Chain vchain
  and vchain = End | Link bool vexpr vchain

primrec expr_sem :: "'d vulnspec_params \<Rightarrow> vexpr \<Rightarrow> bool"
  and chain_sem :: "'d vulnspec_params \<Rightarrow> vchain \<Rightarrow> bool \<Rightarrow> bool" where
  "expr_sem params (Cmp node vendprod version) \<longleftrightarrow>
    vendprod = cstr (the (vp_cve_vendprod params)) \<and>
    (if cn_vtype node = VULNSPEC_VVAGUE
     then compar_result (cn_type node) (vaguever_cmp (vp_cve_vaguever_version params) (cn_vague node))
     else cn_vtype node = VULNSPEC_VNALPHA
       \<and> compar_result (cn_type node) (the (nalphaver_cmp (the (vp_cve_version params)) version)))"
| "expr_sem params (Chain ch) = chain_sem params ch False"
| "chain_sem params End r = r"
| "chain_sem params (Link is_and e ch) r =
    (if is_and then expr_sem params e \<and> chain_sem params ch True
     else expr_sem params e \<or> chain_sem params ch False)"

record cve_entry =
  en_node :: vulnspec_cve_node
  en_id :: bytes
  en_desc :: bytes
  en_expr :: vexpr

text \<open>The matching entries are reported in order until the callback returns 0 or less.\<close>

fun report :: "'d vulnspec_params \<Rightarrow> cve_entry list \<Rightarrow> 'd \<Rightarrow> status \<times> 'd" where
  "report params [] data = (0, data)"
| "report params (c # cs) data =
    (if missing (vp_cve_version params) \<or> missing (vp_cve_vendprod params) then (0, data)
     else
       case (expr_sem params (en_expr c), vp_cve_on_match params) of
         (True, Some cve_on_match) \<Rightarrow>
           let (ret, data) = cve_on_match \<lparr>cm_id = en_id c, cm_cvss2_base = ce_cvss2_base (en_node c),
                 cm_cvss3_base = ce_cvss3_base (en_node c), cm_desc = en_desc c\<rparr> data in
           if ret \<le> 0 then (if ret = 0 then 1 else ret, data) else report params cs data
       | _ \<Rightarrow> report params cs data)"

text \<open>A string of the program: it is terminated, and inside its declared length when that is not 0.\<close>

definition str_at :: "bytes \<Rightarrow> vulnspec_cvalue \<Rightarrow> bytes \<Rightarrow> bool" where
  "str_at mem cval s \<longleftrightarrow> rdstr mem (ucast (cv_offset cval)) = Done s
    \<and> (0 < cv_length cval \<longrightarrow> length s < unat (cv_length cval))"

inductive expr_at :: "bytes \<Rightarrow> size_t \<Rightarrow> vexpr \<Rightarrow> bool"
  and chain_at :: "bytes \<Rightarrow> size_t \<Rightarrow> vchain \<Rightarrow> bool" for mem where
  compar_at: "\<lbrakk>rd32 mem off = Done t; is_compar t; rd_compar mem off = Done node;
    str_at mem (cn_vendprod node) vp; cn_vtype node \<noteq> VULNSPEC_VVAGUE \<longrightarrow> str_at mem (cn_cval node) ver\<rbrakk>
    \<Longrightarrow> expr_at mem off (Cmp node vp ver)"
| boolean_at: "\<lbrakk>rd32 mem off = Done t; is_boolean t; chain_at mem off ch\<rbrakk> \<Longrightarrow> expr_at mem off (Chain ch)"
| end_at: "chain_at mem 0 End"
| link_at: "\<lbrakk>0 < off; rd_boolean mem off = Done node; is_boolean (bn_type node);
    expr_at mem (ucast (bn_value node)) e; chain_at mem (ucast (bn_next node)) ch\<rbrakk>
    \<Longrightarrow> chain_at mem off (Link (bn_type node = VULNSPEC_AND_NODE) e ch)"

inductive cves_at :: "bytes \<Rightarrow> size_t \<Rightarrow> cve_entry list \<Rightarrow> bool" for mem where
  no_cve: "cves_at mem 0 []"
| cve_at: "\<lbrakk>0 < off; rd_cve mem off = Done node; ce_type node = VULNSPEC_CVE_NODE; str_at mem (ce_id node) i;
    str_at mem (ce_description node) d; expr_at mem (ucast (ce_vulnexpr node)) e;
    cves_at mem (ucast (ce_next node)) cs\<rbrakk>
    \<Longrightarrow> cves_at mem off (\<lparr>en_node = node, en_id = i, en_desc = d, en_expr = e\<rparr> # cs)"

section \<open>Evaluation computes the meaning\<close>

lemma compar_not_boolean: "is_compar t \<Longrightarrow> \<not> is_boolean t"
  by (auto simp: is_compar_def is_boolean_def VULNSPEC_LT_NODE_def VULNSPEC_LE_NODE_def VULNSPEC_EQ_NODE_def
      VULNSPEC_GE_NODE_def VULNSPEC_GT_NODE_def VULNSPEC_AND_NODE_def VULNSPEC_OR_NODE_def)

lemma and_not_or: "VULNSPEC_AND_NODE \<noteq> VULNSPEC_OR_NODE"
  by (simp add: VULNSPEC_AND_NODE_def VULNSPEC_OR_NODE_def)

lemma vague_not_nalpha: "VULNSPEC_VVAGUE \<noteq> VULNSPEC_VNALPHA"
  by (simp add: VULNSPEC_VVAGUE_def VULNSPEC_VNALPHA_def)

lemma ecompar_sem:
  assumes "rd_compar mem off = Done node" "str_at mem (cn_vendprod node) vp"
    and "cn_vtype node \<noteq> VULNSPEC_VVAGUE \<longrightarrow> str_at mem (cn_cval node) ver"
    and "vp_cve_vendprod params = Some v" "vp_cve_version params = Some w"
  shows "ecompar params mem off = Done (expr_sem params (Cmp node vp ver))"
proof -
  obtain x where x: "nalphaver_cmp w ver = Some x" using nalphaver_cmp_returns by blast
  show ?thesis
    using assms x vague_not_nalpha
    by (cases "cn_vtype node = VULNSPEC_VVAGUE") (auto simp: ecompar_def str_at_def strcmp_0)
qed

lemma eval_sem:
  assumes "vp_cve_vendprod params = Some v" "vp_cve_version params = Some w"
  shows "expr_at mem off e \<Longrightarrow> \<exists>n0. \<forall>n \<ge> n0. evulnexpr n params mem off = Done (expr_sem params e)"
    and "chain_at mem off' ch \<Longrightarrow> \<exists>n0. \<forall>n \<ge> n0. \<forall>r. eboolean n params mem off' r = Done (chain_sem params ch r)"
proof (induction rule: expr_at_chain_at.inducts)
  case (compar_at off t node vp ver)
  have "evulnexpr (Suc n) params mem off = Done (expr_sem params (Cmp node vp ver))" for n
    using compar_at ecompar_sem [of mem off node vp ver params v w] assms by simp
  then show ?case by (metis Suc_le_D)
next
  case (boolean_at off t ch)
  then obtain n0 where n0: "\<And>n r. n0 \<le> n \<Longrightarrow> eboolean n params mem off r = Done (chain_sem params ch r)" by blast
  have "\<not> is_compar t" using boolean_at compar_not_boolean by blast
  then have "evulnexpr (Suc n) params mem off = Done (expr_sem params (Chain ch))" if "n0 \<le> n" for n
    using boolean_at n0 [OF that] by simp
  then show ?case by (metis Suc_le_D Suc_le_mono)
next
  case end_at
  have "eboolean (Suc n) params mem 0 r = Done (chain_sem params End r)" for n r by simp
  then show ?case by (metis Suc_le_D)
next
  case (link_at off node e ch)
  then obtain n1 n2 where n1: "\<And>n. n1 \<le> n \<Longrightarrow> evulnexpr n params mem (ucast (bn_value node)) = Done (expr_sem params e)"
    and n2: "\<And>n r. n2 \<le> n \<Longrightarrow> eboolean n params mem (ucast (bn_next node)) r = Done (chain_sem params ch r)"
    by blast
  have "eboolean (Suc n) params mem off r = Done (chain_sem params (Link (bn_type node = VULNSPEC_AND_NODE) e ch) r)"
    if "max n1 n2 \<le> n" for n r
    using link_at n1 [of n] n2 [of n] that and_not_or
    by (cases "bn_type node = VULNSPEC_AND_NODE"; cases "expr_sem params e") (auto simp: is_boolean_def)
  then show ?case by (metis Suc_le_D Suc_le_mono)
qed

lemma enodes_report:
  "cves_at mem off cs \<Longrightarrow> \<exists>n0. \<forall>n \<ge> n0. \<forall>data. enodes n params mem off data = Done (report params cs data)"
proof (induction rule: cves_at.induct)
  case no_cve
  have "enodes (Suc n) params mem 0 data = Done (report params [] data)" for n data by simp
  then show ?case by (metis Suc_le_D)
next
  case (cve_at off node i d e cs)
  obtain n1 where n1: "\<And>n data. n1 \<le> n \<Longrightarrow> enodes n params mem (ucast (ce_next node)) data = Done (report params cs data)"
    using cve_at.IH by blast
  show ?case
  proof (cases "missing (vp_cve_version params) \<or> missing (vp_cve_vendprod params)")
    case True
    then have "enodes (Suc n) params mem off data
      = Done (report params (\<lparr>en_node = node, en_id = i, en_desc = d, en_expr = e\<rparr> # cs) data)" for n data
      using cve_at(1-3) by auto
    then show ?thesis by (metis Suc_le_D)
  next
    case False
    then obtain v w where "vp_cve_vendprod params = Some v" "vp_cve_version params = Some w"
      by (auto simp: missing_def)
    then obtain n2 where n2: "\<And>n. n2 \<le> n \<Longrightarrow> evulnexpr n params mem (ucast (ce_vulnexpr node)) = Done (expr_sem params e)"
      using eval_sem(1) [OF _ _ cve_at(6)] by blast
    have "enodes (Suc n) params mem off data
      = Done (report params (\<lparr>en_node = node, en_id = i, en_desc = d, en_expr = e\<rparr> # cs) data)"
      if "max n1 n2 \<le> n" for n data
      using cve_at(1-5) False n1 [of n] n2 [of n] that
      by (cases "expr_sem params e"; cases "vp_cve_on_match params") (auto simp: str_at_def split: prod.splits)
    then show ?thesis by (metis Suc_le_D Suc_le_mono)
  qed
qed

section \<open>Validated programs have a meaning\<close>

lemma andThen_Done: "andThen m f = Done x \<longleftrightarrow> (\<exists>y. m = Done y \<and> f y = Done x)"
  by (cases m) auto

lemma andThen_Fault: "andThen m f = Fault \<longleftrightarrow> m = Fault \<or> (\<exists>y. m = Done y \<and> f y = Fault)"
  by (cases m) auto

lemma longjmp_not [simp]: "longjmp e \<noteq> Done x" "longjmp e \<noteq> Fault" "longjmp e \<noteq> Timeout"
  by (simp_all add: longjmp_def)

lemma unat_u32_bound: "unat (w :: u32) < 2 ^ 32"
  using unat_less_exp [of w] by simp

lemma rd32_append: "rd32 data off = Done t \<Longrightarrow> rd32 (data @ tail) off = Done t"
  by (auto simp: rd32_def split: if_splits)

lemma rd_append:
  "rd_cvalue data off = Done c \<Longrightarrow> rd_cvalue (data @ tail) off = Done c"
  "rd_vague data off = Done vg \<Longrightarrow> rd_vague (data @ tail) off = Done vg"
  "rd_compar data off = Done node \<Longrightarrow> rd_compar (data @ tail) off = Done node"
  "rd_boolean data off = Done bnode \<Longrightarrow> rd_boolean (data @ tail) off = Done bnode"
  "rd_cve data off = Done cnode \<Longrightarrow> rd_cve (data @ tail) off = Done cnode"
  unfolding rd_compar_def rd_boolean_def rd_cve_def rd_cvalue_def rd_vague_def andThen_Done
  using rd32_append by (blast, blast, blast, blast, blast)

definition vd_wf :: "vulnspec_validator \<Rightarrow> bool" where
  "vd_wf v \<longleftrightarrow> unat (vd_len v) = length (vd_data v)"

lemma check_Done:
  assumes "check v off len = Done ()" "vd_wf v" "unat off < 2 ^ 32" "unat len < 2 ^ 32"
  shows "8 \<le> unat off \<and> unat off + unat len \<le> length (vd_data v)"
proof -
  have "unat (off + len) = unat off + unat len" using assms(3,4) by (simp add: unat_word_ariths)
  then show ?thesis using assms(1,2)
    by (auto simp: check_def vd_wf_def VULNSPEC_HEADER_SIZE_def not_less word_le_nat_alt split: if_splits)
qed

lemma cstr_stops: "s ! k = NUL \<Longrightarrow> length (cstr s) \<le> k"
proof (rule ccontr)
  assume z: "s ! k = NUL" and "\<not> length (cstr s) \<le> k"
  then have k: "k < length (takeWhile (\<lambda>c. c \<noteq> NUL) s)" by (simp add: cstr_def)
  have "takeWhile (\<lambda>c. c \<noteq> NUL) s ! k \<noteq> NUL" using set_takeWhileD [OF nth_mem [OF k]] by blast
  then show False using z takeWhile_nth [OF k] by simp
qed

lemma vstr_Done:
  assumes "vstr v cval = Done ()" "vd_wf v" "length (vd_data v) < 2 ^ 32" "NUL \<in> set tail"
  shows "\<exists>s. str_at (vd_data v @ tail) cval s"
proof -
  let ?off = "unat (cv_offset cval)" and ?len = "unat (cv_length cval)"
  let ?p = "unat (cv_offset cval + cv_length cval - 1)"
  let ?d = "drop ?off (vd_data v @ tail)"
  have c: "check v (ucast (cv_offset cval)) (ucast (cv_length cval)) = Done ()"
    and z: "vd_data v ! ?p = NUL"
    using assms(1) by (auto simp: vstr_def andThen_Done Let_def split: if_splits)
  have b: "8 \<le> ?off" "?off + ?len \<le> length (vd_data v)"
    using check_Done [OF c assms(2)] unat_u32_bound by auto
  have n: "NUL \<in> set ?d" using assms(4) b by simp
  have "length (cstr ?d) < ?len" if pos: "0 < cv_length cval"
  proof -
    have l: "0 < ?len" using pos by (simp add: word_less_nat_alt)
    have s: "unat (cv_offset cval + cv_length cval) = ?off + ?len" using b assms(3) by (simp add: unat_word_ariths)
    then have "cv_offset cval + cv_length cval \<noteq> 0" using l by auto
    then have p: "?p = ?off + (?len - 1)" using s l by (simp add: unat_minus_one)
    have "?len - 1 < length (vd_data v) - ?off" using b l by linarith
    then have "?d ! (?len - 1) = NUL" using z p b l by (simp add: nth_append)
    then have "length (cstr ?d) \<le> ?len - 1" by (rule cstr_stops)
    then show ?thesis using l by linarith
  qed
  then show ?thesis using n by (auto simp: str_at_def rdstr_def)
qed

lemma vcompar_Done:
  assumes "vcompar v off = Done ()" "vd_wf v" "length (vd_data v) < 2 ^ 32" "NUL \<in> set tail"
    and "rd32 (vd_data v) off = Done t" "is_compar t"
  shows "\<exists>e. expr_at (vd_data v @ tail) off e"
proof -
  obtain node where node: "rd_compar (vd_data v) off = Done node" "vstr v (cn_vendprod node) = Done ()"
    "cn_vtype node \<noteq> VULNSPEC_VVAGUE \<longrightarrow> vstr v (cn_cval node) = Done ()"
    using assms(1) by (auto simp: vcompar_def andThen_Done split: if_splits)
  obtain vp where vp: "str_at (vd_data v @ tail) (cn_vendprod node) vp" using vstr_Done [OF node(2) assms(2-4)] by blast
  obtain ver where ver: "cn_vtype node \<noteq> VULNSPEC_VVAGUE \<longrightarrow> str_at (vd_data v @ tail) (cn_cval node) ver"
    using vstr_Done [OF node(3) [rule_format] assms(2-4)] by blast
  show ?thesis using expr_at_chain_at.compar_at [OF rd32_append [OF assms(5)] assms(6) rd_append(3) [OF node(1)] vp ver] by blast
qed

lemma vexpr_Done:
  assumes "vd_wf v" "length (vd_data v) < 2 ^ 32" "NUL \<in> set tail"
  shows "vboolean n v off = Done () \<Longrightarrow> unat off < 2 ^ 32 \<Longrightarrow> \<exists>ch. chain_at (vd_data v @ tail) off ch"
    and "vvulnexpr n v off' = Done () \<Longrightarrow> unat off' < 2 ^ 32 \<Longrightarrow> \<exists>e. expr_at (vd_data v @ tail) off' e"
  using assms
proof (induction n v off and n v off' rule: vboolean_vvulnexpr.induct)
  case (2 n v off)
  show ?case
  proof (cases "off > 0")
    case True
    then obtain node where node: "rd_boolean (vd_data v) off = Done node" "is_boolean (bn_type node)"
      "vvulnexpr n v (ucast (bn_value node)) = Done ()" "vboolean n v (ucast (bn_next node)) = Done ()"
      using 2(3) by (auto simp: andThen_Done split: if_splits)
    obtain e where e: "expr_at (vd_data v @ tail) (ucast (bn_value node)) e"
      using 2(1) [OF True] node unat_u32_bound 2(5-7) by auto
    obtain ch where ch: "chain_at (vd_data v @ tail) (ucast (bn_next node)) ch"
      using 2(2) [OF True] node unat_u32_bound 2(5-7) by auto
    show ?thesis using expr_at_chain_at.link_at [OF True rd_append(4) [OF node(1)] node(2) e ch] by blast
  next
    case False
    then show ?thesis using expr_at_chain_at.end_at by (metis word_gt_0)
  qed
next
  case (4 n v off)
  obtain t where t: "rd32 (vd_data v) off = Done t" "check v off 4 = Done ()"
    "if is_compar t then vcompar v off = Done () else is_boolean t \<and> vboolean n v off = Done ()"
    using 4(2) by (auto simp: andThen_Done split: if_splits)
  show ?case
  proof (cases "is_compar t")
    case True
    then show ?thesis using vcompar_Done [OF _ 4(4-6) t(1)] t(3) by simp
  next
    case False
    then obtain ch where "chain_at (vd_data v @ tail) off ch" using 4(1) t 4(3-6) by auto
    then show ?thesis using expr_at_chain_at.boolean_at [OF rd32_append [OF t(1)]] False t(3) by auto
  qed
qed simp_all

lemma vcve_Done:
  assumes "vd_wf v" "length (vd_data v) < 2 ^ 32" "NUL \<in> set tail"
  shows "vcve n v off = Done () \<Longrightarrow> \<exists>cs. cves_at (vd_data v @ tail) off cs"
proof (induction n arbitrary: off)
  case (Suc n)
  show ?case
  proof (cases "off > 0")
    case True
    then obtain node where node: "rd_cve (vd_data v) off = Done node" "ce_type node = VULNSPEC_CVE_NODE"
      "vstr v (ce_id node) = Done ()" "vstr v (ce_description node) = Done ()"
      "vvulnexpr n v (ucast (ce_vulnexpr node)) = Done ()" "vcve n v (ucast (ce_next node)) = Done ()"
      using Suc.prems by (auto simp: andThen_Done split: if_splits)
    obtain i where i: "str_at (vd_data v @ tail) (ce_id node) i" using vstr_Done [OF node(3) assms] by blast
    obtain d where d: "str_at (vd_data v @ tail) (ce_description node) d" using vstr_Done [OF node(4) assms] by blast
    obtain e where e: "expr_at (vd_data v @ tail) (ucast (ce_vulnexpr node)) e"
      using vexpr_Done(2) [OF assms node(5)] unat_u32_bound by auto
    obtain cs where cs: "cves_at (vd_data v @ tail) (ucast (ce_next node)) cs" using Suc.IH [OF node(6)] by blast
    show ?thesis using cves_at.cve_at [OF True rd_append(5) [OF node(1)] node(2) i d e cs] by blast
  next
    case False
    then show ?thesis using cves_at.no_cve by (metis word_gt_0)
  qed
qed simp

text \<open>No \<open>longjmp\<close> arrives as 0, so that the status 0 means success.\<close>

lemma andThen_Bail: "andThen m f = Bail e \<longleftrightarrow> m = Bail e \<or> (\<exists>y. m = Done y \<and> f y = Bail e)"
  by (cases m) auto

lemma longjmp_not_0 [simp]: "longjmp e \<noteq> Bail 0"
  by (simp add: longjmp_def)

lemma rd_not_Bail [simp]:
  "rd32 mem off \<noteq> Bail e" "rd_cvalue mem off \<noteq> Bail e" "rd_vague mem off \<noteq> Bail e"
  "rd_compar mem off \<noteq> Bail e" "rd_boolean mem off \<noteq> Bail e" "rd_cve mem off \<noteq> Bail e"
proof -
  show a: "rd32 mem off \<noteq> Bail e" for off by (simp add: rd32_def)
  show b: "rd_cvalue mem off \<noteq> Bail e" for off by (simp add: rd_cvalue_def andThen_Bail a)
  show c: "rd_vague mem off \<noteq> Bail e" for off by (simp add: rd_vague_def andThen_Bail a)
  show "rd_compar mem off \<noteq> Bail e" by (simp add: rd_compar_def andThen_Bail a b c)
  show "rd_boolean mem off \<noteq> Bail e" by (simp add: rd_boolean_def andThen_Bail a)
  show "rd_cve mem off \<noteq> Bail e" by (simp add: rd_cve_def andThen_Bail a b)
qed

lemma check_not_Bail_0 [simp]: "check v off len \<noteq> Bail 0"
  by (simp add: check_def)

lemma vstr_not_Bail_0 [simp]: "vstr v cval \<noteq> Bail 0"
  by (simp add: vstr_def andThen_Bail Let_def)

lemma vcompar_not_Bail_0 [simp]: "vcompar v off \<noteq> Bail 0"
  by (simp add: vcompar_def andThen_Bail)

lemma vexpr_not_Bail_0 [simp]: "vboolean n v off \<noteq> Bail 0" "vvulnexpr n v off' \<noteq> Bail 0"
  by (induction n v off and n v off' rule: vboolean_vvulnexpr.induct) (auto simp: andThen_Bail)

lemma vcve_not_Bail_0 [simp]: "vcve n v off \<noteq> Bail 0"
  by (induction n v off rule: vcve.induct) (auto simp: andThen_Bail)

lemma vnode_not_Bail_0 [simp]: "vnode n v off \<noteq> Bail 0"
  by (simp add: vnode_def andThen_Bail)

lemma validate_0:
  assumes "validate fuel base data len = Done 0" "unat len = length data"
  shows "vcve fuel \<lparr>vd_base = base, vd_data = data, vd_len = len\<rparr> VULNSPEC_HEADER_SIZE = Done ()"
    and "44 \<le> length data"
proof -
  let ?v = "\<lparr>vd_base = base, vd_data = data, vd_len = len\<rparr>"
  have n: "vnode fuel ?v VULNSPEC_HEADER_SIZE = Done ()"
    using assms(1) by (auto simp: validate_def VULNSPEC_EHEADER_def split: if_splits run.splits)
  then show c: "vcve fuel ?v VULNSPEC_HEADER_SIZE = Done ()"
    by (auto simp: vnode_def andThen_Done split: if_splits)
  obtain n where "fuel = Suc n" using c by (cases fuel) auto
  then have "check ?v VULNSPEC_HEADER_SIZE 36 = Done ()"
    using c by (auto simp: andThen_Done VULNSPEC_HEADER_SIZE_def)
  from check_Done [OF this] show "44 \<le> length data"
    using assms(2) by (simp add: vd_wf_def VULNSPEC_HEADER_SIZE_def)
qed

section \<open>A concrete program\<close>

text \<open>A program with one vulnerability and one comparison, for concrete runs.\<close>

definition enc32 :: "nat \<Rightarrow> bytes" where
  "enc32 n = [char_of n, NUL, NUL, NUL]"

definition sample_words :: "nat \<Rightarrow> nat \<Rightarrow> nat \<Rightarrow> nat list" where
  "sample_words nxt vplen vpoff = [1, nxt, 0, 0, 1, 80, 1, 80, 44, 7, vplen, vpoff, 0, 1, 0, 0, 0, 0]"

definition sample :: "nat \<Rightarrow> nat \<Rightarrow> nat \<Rightarrow> bytes" where
  "sample nxt vplen vpoff = VULNSPEC_HEADER @ concat (map enc32 (sample_words nxt vplen vpoff)) @ [NUL]"

lemma le32_enc32: "n < 256 \<Longrightarrow> le32 (enc32 n) = of_nat n"
  by (simp add: le32_def enc32_def of_char_of)

lemma words_at: "i < length ws \<Longrightarrow> take 4 (drop (4 * i) (concat (map enc32 ws) @ rest)) = enc32 (ws ! i)"
proof (induction ws arbitrary: i)
  case (Cons w ws)
  show ?case
  proof (cases i)
    case 0
    then show ?thesis by (simp add: enc32_def)
  next
    case (Suc j)
    have "drop (4 * i) (concat (map enc32 (w # ws)) @ rest) = drop (4 * j) (concat (map enc32 ws) @ rest)"
      using drop_drop [of "4 * j" 4 "enc32 w @ concat (map enc32 ws) @ rest"]
      by (simp add: Suc enc32_def add.commute del: drop_drop drop_append drop_drop)
    then show ?thesis using Cons.IH [of j] Cons.prems Suc by (simp del: map_append concat_append)
  qed
qed simp

lemma length_sample: "length (sample nxt vplen vpoff) = 81"
  by (simp add: sample_def sample_words_def enc32_def VULNSPEC_HEADER_def)

lemma rd32_sample_nat:
  assumes "i < 18" "nxt < 256" "vplen < 256" "vpoff < 256"
  shows "rd32 (sample nxt vplen vpoff) (of_nat (8 + 4 * i)) = Done (of_nat (sample_words nxt vplen vpoff ! i))"
proof -
  let ?ws = "sample_words nxt vplen vpoff"
  have len: "length ?ws = 18" by (simp add: sample_words_def)
  have "drop 8 (sample nxt vplen vpoff) = concat (map enc32 ?ws) @ [NUL]"
    by (simp add: sample_def VULNSPEC_HEADER_def)
  then have "take 4 (drop (8 + 4 * i) (sample nxt vplen vpoff)) = enc32 (?ws ! i)"
    using words_at [of i ?ws "[NUL]"] len assms(1) by (metis add.commute drop_drop)
  moreover have "\<forall>w \<in> set ?ws. w < 256" using assms(2-4) by (simp add: sample_words_def)
  then have "?ws ! i < 256" using assms(1) len by simp
  moreover have "unat (of_nat (8 + 4 * i) :: size_t) = 8 + 4 * i"
    using assms(1) by (simp add: unat_of_nat del: of_nat_add of_nat_mult)
  ultimately show ?thesis using assms(1) by (simp add: rd32_def length_sample le32_enc32)
qed

lemma rd32_sample:
  assumes "nxt < 256" "vplen < 256" "vpoff < 256"
  shows "rd32 (sample nxt vplen vpoff) 8 = Done 1" "rd32 (sample nxt vplen vpoff) 12 = Done (of_nat nxt)"
    "rd32 (sample nxt vplen vpoff) 16 = Done 0" "rd32 (sample nxt vplen vpoff) 20 = Done 0"
    "rd32 (sample nxt vplen vpoff) 24 = Done 1" "rd32 (sample nxt vplen vpoff) 28 = Done 80"
    "rd32 (sample nxt vplen vpoff) 32 = Done 1" "rd32 (sample nxt vplen vpoff) 36 = Done 80"
    "rd32 (sample nxt vplen vpoff) 40 = Done 44" "rd32 (sample nxt vplen vpoff) 44 = Done 7"
    "rd32 (sample nxt vplen vpoff) 48 = Done (of_nat vplen)" "rd32 (sample nxt vplen vpoff) 52 = Done (of_nat vpoff)"
    "rd32 (sample nxt vplen vpoff) 56 = Done 0" "rd32 (sample nxt vplen vpoff) 60 = Done 1"
    "rd32 (sample nxt vplen vpoff) 64 = Done 0" "rd32 (sample nxt vplen vpoff) 68 = Done 0"
    "rd32 (sample nxt vplen vpoff) 72 = Done 0" "rd32 (sample nxt vplen vpoff) 76 = Done 0"
  using rd32_sample_nat [of 0, OF _ assms] rd32_sample_nat [of 1, OF _ assms] rd32_sample_nat [of 2, OF _ assms]
    rd32_sample_nat [of 3, OF _ assms] rd32_sample_nat [of 4, OF _ assms] rd32_sample_nat [of 5, OF _ assms]
    rd32_sample_nat [of 6, OF _ assms] rd32_sample_nat [of 7, OF _ assms] rd32_sample_nat [of 8, OF _ assms]
    rd32_sample_nat [of 9, OF _ assms] rd32_sample_nat [of 10, OF _ assms] rd32_sample_nat [of 11, OF _ assms]
    rd32_sample_nat [of 12, OF _ assms] rd32_sample_nat [of 13, OF _ assms] rd32_sample_nat [of 14, OF _ assms]
    rd32_sample_nat [of 15, OF _ assms] rd32_sample_nat [of 16, OF _ assms] rd32_sample_nat [of 17, OF _ assms]
  by (simp_all add: sample_words_def)

lemma rd_sample:
  assumes "nxt < 256" "vplen < 256" "vpoff < 256"
  shows "rd_cve (sample nxt vplen vpoff) 8 = Done \<lparr>ce_type = 1, ce_next = of_nat nxt, ce_cvss2_base = 0,
      ce_cvss3_base = 0, ce_id = \<lparr>cv_length = 1, cv_offset = 80\<rparr>,
      ce_description = \<lparr>cv_length = 1, cv_offset = 80\<rparr>, ce_vulnexpr = 44\<rparr>"
    and "rd_compar (sample nxt vplen vpoff) 44 = Done \<lparr>cn_type = 7,
      cn_vendprod = \<lparr>cv_length = of_nat vplen, cv_offset = of_nat vpoff\<rparr>, cn_vtype = 0,
      cn_vague = \<lparr>vv_nused = 1, vv_fields = [0, 0, 0, 0]\<rparr>, cn_cval = \<lparr>cv_length = 1, cv_offset = 0\<rparr>\<rparr>"
  by (simp_all add: rd_cve_def rd_compar_def rd_cvalue_def rd_vague_def rd32_sample [OF assms])

text \<open>The validator of the sample, at address 0, and the checks that it passes.\<close>

definition sample_v :: "nat \<Rightarrow> nat \<Rightarrow> nat \<Rightarrow> vulnspec_validator" where
  "sample_v nxt vplen vpoff = \<lparr>vd_base = 0, vd_data = sample nxt vplen vpoff, vd_len = 81\<rparr>"

lemma sample_v_sel [simp]:
  "vd_base (sample_v a b c) = 0" "vd_data (sample_v a b c) = sample a b c" "vd_len (sample_v a b c) = 81"
  by (simp_all add: sample_v_def)

lemma check_sample:
  "check (sample_v a b c) off len = (if off < 8 \<or> 81 < off + len then longjmp VULNSPEC_EINVALID_OFFSET else Done ())"
  by (simp add: check_def VULNSPEC_HEADER_SIZE_def)

lemma sample_80: "sample a b c ! 80 = NUL"
proof -
  have "length (VULNSPEC_HEADER @ concat (map enc32 (sample_words a b c))) = 80"
    by (simp add: sample_words_def enc32_def VULNSPEC_HEADER_def)
  then show ?thesis unfolding sample_def append_assoc [symmetric] by (metis nth_append_length)
qed

lemma vstr_sample: "vstr (sample_v a b c) \<lparr>cv_length = 1, cv_offset = 80\<rparr> = Done ()"
  by (simp add: vstr_def check_sample Let_def length_sample sample_80)

lemmas node_types = is_compar_def VULNSPEC_CVE_NODE_def VULNSPEC_EQ_NODE_def VULNSPEC_LT_NODE_def
  VULNSPEC_LE_NODE_def VULNSPEC_GE_NODE_def VULNSPEC_GT_NODE_def VULNSPEC_VVAGUE_def

lemma vvulnexpr_sample:
  assumes "nxt < 256" "vplen < 256" "vpoff < 256"
  shows "vvulnexpr (Suc n) (sample_v nxt vplen vpoff) 44
    = vstr (sample_v nxt vplen vpoff) \<lparr>cv_length = of_nat vplen, cv_offset = of_nat vpoff\<rparr>"
proof -
  have "vcompar (sample_v nxt vplen vpoff) 44
      = vstr (sample_v nxt vplen vpoff) \<lparr>cv_length = of_nat vplen, cv_offset = of_nat vpoff\<rparr>"
    by (cases "vstr (sample_v nxt vplen vpoff) \<lparr>cv_length = of_nat vplen, cv_offset = of_nat vpoff\<rparr>")
       (simp_all add: vcompar_def check_sample rd_sample [OF assms] node_types)
  then show ?thesis
    using assms by (simp add: check_sample rd32_sample node_types)
qed

lemma vcve_sample:
  assumes "nxt < 256" "vplen < 256" "vpoff < 256"
  shows "vcve (Suc n) (sample_v nxt vplen vpoff) 8
    = andThen (vvulnexpr n (sample_v nxt vplen vpoff) 44) (\<lambda>_. vcve n (sample_v nxt vplen vpoff) (of_nat nxt))"
proof -
  have "(ucast (of_nat nxt :: u32) :: size_t) = of_nat nxt"
    using assms(1) by (intro word_unat_eq_iff [THEN iffD2]) (simp add: unat_of_nat)
  then show ?thesis
    using assms by (simp add: check_sample rd_sample vstr_sample node_types)
qed

lemma validate_sample:
  assumes "nxt < 256" "vplen < 256" "vpoff < 256"
  shows "validate n 0 (sample nxt vplen vpoff) 81
    = (case vcve n (sample_v nxt vplen vpoff) 8 of
        Done _ \<Rightarrow> Done 0 | Bail e \<Rightarrow> Done e | Fault \<Rightarrow> Fault | Timeout \<Rightarrow> Timeout)"
proof -
  have "take 8 (sample nxt vplen vpoff) = VULNSPEC_HEADER" by (simp add: sample_def VULNSPEC_HEADER_def)
  moreover have "vnode n (sample_v nxt vplen vpoff) 8 = vcve n (sample_v nxt vplen vpoff) 8"
    using assms by (simp add: vnode_def check_sample rd32_sample node_types)
  ultimately show ?thesis 
    by (simp add: validate_def VULNSPEC_HEADER_SIZE_def flip: sample_v_def)
qed

lemma sample_loads: "validate (Suc (Suc n)) 0 (sample 0 1 80) 81 = Done 0"
proof -
  have "vcve (Suc (Suc n)) (sample_v 0 1 80) 8 = Done ()"
    using vcve_sample [of 0 1 80 "Suc n"] vvulnexpr_sample [of 0 1 80 n] vstr_sample [of 0 1 80]
    by (simp del: vcve.simps(2) vvulnexpr.simps) simp
  then show ?thesis by (simp add: validate_sample del: vcve.simps)
qed

section \<open>The validator stays inside the data\<close>

lemma rd32_in: "unat off + k + 4 \<le> length mem \<Longrightarrow> unat off < 2 ^ 32 \<Longrightarrow> k < 64 \<Longrightarrow> rd32 mem (off + of_nat k) \<noteq> Fault"
proof -
  assume a: "unat off + k + 4 \<le> length mem" "unat off < 2 ^ 32" "k < 64"
  then have "unat (off + of_nat k) = unat off + k" by (simp add: unat_word_ariths unat_of_nat)
  then show ?thesis using a by (simp add: rd32_def)
qed

lemma rd_in:
  assumes "unat off < 2 ^ 32"
  shows "unat off + 36 \<le> length mem \<Longrightarrow> rd_compar mem off \<noteq> Fault"
    and "unat off + 12 \<le> length mem \<Longrightarrow> rd_boolean mem off \<noteq> Fault"
    and "unat off + 36 \<le> length mem \<Longrightarrow> rd_cve mem off \<noteq> Fault"
  unfolding rd_compar_def rd_boolean_def rd_cve_def rd_cvalue_def rd_vague_def andThen_Fault
  using rd32_in [of off 0 mem] rd32_in [of off 4 mem] rd32_in [of off 8 mem] rd32_in [of off 12 mem]
    rd32_in [of off 16 mem] rd32_in [of off 20 mem] rd32_in [of off 24 mem] rd32_in [of off 28 mem]
    rd32_in [of off 32 mem] assms
  by (auto simp: add.assoc)

lemma vstr_safe: "vd_wf v \<Longrightarrow> vstr v cval \<noteq> Fault"
proof
  assume wf: "vd_wf v" and f: "vstr v cval = Fault"
  let ?off = "unat (cv_offset cval)" and ?len = "unat (cv_length cval)"
  have c: "check v (ucast (cv_offset cval)) (ucast (cv_length cval)) = Done ()"
    and p: "\<not> unat (cv_offset cval + cv_length cval - 1) < length (vd_data v)"
    using f by (auto simp: vstr_def andThen_Fault check_def Let_def split: if_splits)
  have b: "8 \<le> ?off" "?off + ?len \<le> length (vd_data v)"
    using check_Done [OF c wf] unat_u32_bound by auto
  have "cv_offset cval + cv_length cval - 1 = of_nat (?off + ?len - 1)"
    using b(1) by (simp add: of_nat_diff)
  then have "unat (cv_offset cval + cv_length cval - 1) \<le> ?off + ?len - 1"
    by (simp add: unat_of_nat)
  then show False using p b by linarith
qed

lemma vcompar_safe: "vd_wf v \<Longrightarrow> unat off < 2 ^ 32 \<Longrightarrow> vcompar v off \<noteq> Fault"
  using check_Done [of v off 36] rd_in(1) [of off "vd_data v"] vstr_safe
  by (auto simp: vcompar_def andThen_Fault check_def split: if_splits)

lemma vexpr_safe:
  assumes "vd_wf v"
  shows "unat off < 2 ^ 32 \<Longrightarrow> vboolean n v off \<noteq> Fault" "unat off' < 2 ^ 32 \<Longrightarrow> vvulnexpr n v off' \<noteq> Fault"
  using assms
proof (induction n v off and n v off' rule: vboolean_vvulnexpr.induct)
  case (2 n v off)
  then show ?case
    using check_Done [of v off 12] rd_in(2) [of off "vd_data v"] unat_u32_bound
    by (auto simp: andThen_Fault check_def split: if_splits)
next
  case (4 n v off)
  then show ?case
    using check_Done [of v off 4] rd32_in [of off 0 "vd_data v"] vcompar_safe [of v off]
    by (auto simp: andThen_Fault check_def split: if_splits)
qed simp_all

lemma vcve_safe: "vd_wf v \<Longrightarrow> unat off < 2 ^ 32 \<Longrightarrow> vcve n v off \<noteq> Fault"
proof (induction n arbitrary: off)
  case (Suc n)
  then show ?case
    using check_Done [of v off 36] rd_in(3) [of off "vd_data v"] vstr_safe vexpr_safe(2) [OF Suc.prems(1)]
      unat_u32_bound
    by (auto simp: andThen_Fault check_def split: if_splits)
qed simp

section \<open>Properties\<close>



text \<open>
  C21. The validator is memory safe: on any bytes it never reads outside of them, whatever they
  contain and however long it runs.
\<close>
theorem vulnspec_validate_safe:
  assumes "unat len = length data"
  shows "validate fuel base data len \<noteq> Fault"
proof -
  let ?v = "\<lparr>vd_base = base, vd_data = data, vd_len = len\<rparr>"
  have wf: "vd_wf ?v" using assms by (simp add: vd_wf_def)
  have "vnode fuel ?v VULNSPEC_HEADER_SIZE \<noteq> Fault"
    using check_Done [of ?v 8 4] wf rd32_in [of 8 0 data] vcve_safe [OF wf, of 8 fuel]
    by (auto simp: vnode_def andThen_Fault check_def VULNSPEC_HEADER_SIZE_def split: if_splits)
  then show ?thesis by (auto simp: validate_def split: run.splits)
qed

theorem vulnspec_validate_safe_witness: "validate 9 0 (sample 0 1 80) 81 \<noteq> Fault"
  by (rule vulnspec_validate_safe) (simp add: length_sample)

text \<open>
  A program whose entries form a cycle keeps the validator busy for ever: no number of
  steps is enough for the sample whose only entry names itself as its successor.
\<close>
theorem vulnspec_cyclic_never_validated: "validate fuel 0 (sample 8 1 80) 81 = Timeout"
proof -
  have "vcve fuel (sample_v 8 1 80) 8 = Timeout"
  proof (induction fuel)
    case (Suc n)
    have "vvulnexpr n (sample_v 8 1 80) 44 \<in> {Done (), Timeout}"
      using vvulnexpr_sample [of 8 1 80] vstr_sample [of 8 1 80] by (cases n) simp_all
    moreover have "vcve n (sample_v 8 1 80) (of_nat 8) = Timeout" using Suc.IH by simp
    ultimately show ?case using vcve_sample [of 8 1 80 n] by auto
  qed simp
  then show ?thesis by (simp add: validate_sample del: vcve.simps)
qed

lemma sample_empty_string_loads: "validate (Suc (Suc n)) 0 (sample 0 0 81) 81 = Done 0"
proof -
  have "vstr (sample_v 0 0 81) \<lparr>cv_length = 0, cv_offset = 81\<rparr> = Done ()"
    by (simp add: vstr_def check_sample Let_def length_sample sample_80)
  then have "vvulnexpr (Suc n) (sample_v 0 0 81) 44 = Done ()"
    using vvulnexpr_sample [of 0 0 81 n] by simp
  then have "vcve (Suc (Suc n)) (sample_v 0 0 81) 8 = Done ()"
    using vcve_sample [of 0 0 81 "Suc n"] by simp
  then show ?thesis by (simp add: validate_sample del: vcve.simps)
qed

text \<open>
  The validator looks at the byte before a string whose length is 0 and not at the string:
  it accepts a program whose product string starts behind its last byte, and the evaluation of
  that program reads outside the data as soon as a product and a version are set.
\<close>
theorem vulnspec_empty_string_overread:
  "\<exists>interp'. vulnspec_load 9 (vulnspec_init ()) 0 (sample 0 0 81) 81 = Done (0, interp')
    \<and> (\<forall>fuel vendprod version. \<not> missing (Some vendprod) \<longrightarrow> \<not> missing (Some version)
        \<longrightarrow> vulnspec_eval (Suc (Suc fuel)) (interp'\<lparr>vi_params := (vi_params interp')
              \<lparr>vp_cve_vendprod := Some vendprod, vp_cve_version := Some version\<rparr>\<rparr>) = Fault)"
proof -
  define i' :: "unit vulnspec_interp" where "i' = (vulnspec_init ())\<lparr>vi_data := sample 0 0 81, vi_len := 81\<rparr>"
  have l: "vulnspec_load 9 (vulnspec_init ()) 0 (sample 0 0 81) 81 = Done (0, i')"
    using sample_empty_string_loads [of 7] by (simp add: vulnspec_load_def i'_def)
  have "rdstr (sample 0 0 81) 81 = Fault" by (simp add: rdstr_def length_sample)
  then have "evulnexpr (Suc fuel) params (sample 0 0 81) 44 = Fault" for fuel and params :: "unit vulnspec_params"
    by (simp add: ecompar_def rd32_sample rd_sample node_types)
  then have "vulnspec_eval (Suc (Suc fuel)) (i'\<lparr>vi_params := (vi_params i')
      \<lparr>vp_cve_vendprod := Some vendprod, vp_cve_version := Some version\<rparr>\<rparr>) = Fault"
    if "\<not> missing (Some vendprod)" "\<not> missing (Some version)" for fuel vendprod version
    using that by (simp add: vulnspec_eval_def i'_def Let_def VULNSPEC_HEADER_SIZE_def rd_sample node_types)
  then show ?thesis using l by blast
qed

theorem vulnspec_empty_string_overread_witness:
  "\<exists>interp'. vulnspec_load 9 (vulnspec_init ()) 0 (sample 0 0 81) 81 = Done (0, interp')
    \<and> vulnspec_eval 9 (interp'\<lparr>vi_params := (vi_params interp')
        \<lparr>vp_cve_vendprod := Some ''nginx'', vp_cve_version := Some ''1.0''\<rparr>\<rparr>) = Fault"
proof -
  have "\<not> missing (Some ''nginx'')" "\<not> missing (Some ''1.0'')" by (simp_all add: missing_def cstr_def)
  moreover have "(9 :: nat) = Suc (Suc 7)" by simp
  ultimately show ?thesis using vulnspec_empty_string_overread by metis
qed

text \<open>
  A file that is refused takes the loaded program with it: when the validation fails,
  the program that was loaded before is unmapped while its length stays, and the next
  evaluation faults.
\<close>
theorem vulnspec_failed_loadfile_unmaps:
  assumes "validate fuel base data len = Done e" "e < 0" "vi_len interp > VULNSPEC_HEADER_SIZE + 4"
  shows "\<exists>interp'. vulnspec_loadfile fuel interp base (Some (data, len)) = Done (e, interp')
    \<and> vulnspec_eval (Suc n) interp' = Fault"
proof -
  have "vi_len interp > 0" using assms(3) by (metis word_gt_0 not_less word_zero_le le_less_trans)
  then have "vulnspec_loadfile fuel interp base (Some (data, len)) = Done (e, interp\<lparr>vi_data := []\<rparr>)"
    using assms by (simp add: vulnspec_loadfile_def vulnspec_load_def vulnspec_unloadfile_def)
  moreover have "rd_cve [] VULNSPEC_HEADER_SIZE = Fault" by (simp add: rd_cve_def rd32_def)
  then have "vulnspec_eval (Suc n) (interp\<lparr>vi_data := []\<rparr>) = Fault"
    using assms(3) by (simp add: vulnspec_eval_def Let_def VULNSPEC_HEADER_SIZE_def)
  ultimately show ?thesis by blast
qed

theorem vulnspec_failed_loadfile_unmaps_witness:
  "\<exists>interp'. vulnspec_loadfile 9 ((vulnspec_init ())\<lparr>vi_data := sample 0 1 80, vi_len := 81\<rparr>) 0 (Some ([], 0))
      = Done (VULNSPEC_EHEADER, interp') \<and> vulnspec_eval (Suc 8) interp' = Fault"
  by (rule vulnspec_failed_loadfile_unmaps)
     (simp_all add: validate_def VULNSPEC_EHEADER_def VULNSPEC_HEADER_SIZE_def)

end
