(* ===== verification/U8.thy ===== *)
theory U8
  imports Yans_Prelude
begin

unbundle bit_operations_syntax

text \<open>
  UTF-8 (\<^verbatim>\<open>lib/util/u8.c\<close>): decoding one code point, encoding one, and lower case.
  A code point is an \<open>int32_t\<close>, kept as its 32 bits.
\<close>

section \<open>Operations\<close>

definition UNICODE_REPLACEMENT_CHAR :: u32 where
  "UNICODE_REPLACEMENT_CHAR = 0xFFFD"

definition UNICODE_REPLACEMENT_CHAR_BYTES :: nat where
  "UNICODE_REPLACEMENT_CHAR_BYTES = 2"

text \<open>The byte at an index as an unsigned number.\<close>

definition ubyte :: "bytes \<Rightarrow> nat \<Rightarrow> u32" where
  "ubyte s i = of_char (s ! i)"

text \<open>The code point and the number of bytes it takes, for the bytes that may be read.\<close>

definition u8_to_cp :: "bytes \<Rightarrow> u32 \<times> nat" where
  "u8_to_cp s =
    (let len = length s in
     if len \<ge> 1 \<and> ubyte s 0 \<le> 0x7f then (ubyte s 0, 1)
     else if len \<ge> 2 \<and> ubyte s 0 AND 0xe0 = 0xc0 \<and> ubyte s 1 AND 0xc0 = 0x80 then
       (push_bit 6 (ubyte s 0 AND 0x1f) OR (ubyte s 1 AND 0x3f), 2)
     else if len \<ge> 3 \<and> ubyte s 0 AND 0xf0 = 0xe0 \<and> ubyte s 1 AND 0xc0 = 0x80 \<and> ubyte s 2 AND 0xc0 = 0x80 then
       (push_bit 12 (ubyte s 0 AND 0x0f) OR push_bit 6 (ubyte s 1 AND 0x3f) OR (ubyte s 2 AND 0x3f), 3)
     else if len \<ge> 4 \<and> ubyte s 0 AND 0xf8 = 0xf0 \<and> ubyte s 1 AND 0xc0 = 0x80 \<and> ubyte s 2 AND 0xc0 = 0x80
         \<and> ubyte s 3 AND 0xc0 = 0x80 then
       (push_bit 18 (ubyte s 0 AND 0x07) OR push_bit 12 (ubyte s 1 AND 0x3f)
         OR push_bit 6 (ubyte s 2 AND 0x3f) OR (ubyte s 3 AND 0x3f), 4)
     else (UNICODE_REPLACEMENT_CHAR, 1))"

text \<open>A store of the low eight bits.\<close>

definition store8 :: "u32 \<Rightarrow> byte" where
  "store8 w = char_of (unat w)"

text \<open>
  The status, the bytes that are written and the width. The jump back to the beginning is a
  recursive call; None is an encoder that does not return.
\<close>

partial_function (option) u8_from_cp :: "nat \<Rightarrow> u32 \<Rightarrow> (status \<times> bytes \<times> nat) option" where
  "u8_from_cp len cp =
    (if sint cp \<ge> 0 \<and> sint cp < 0x80 \<and> len \<ge> 1 then Some (0, [store8 cp], 1)
     else if sint cp < 0x800 \<and> len \<ge> 2 then
       Some (0, [store8 (drop_bit 6 cp OR 0xc0), store8 ((cp AND 0x3f) OR 0x80)], 2)
     else if sint cp < 0x10000 \<and> len \<ge> 3 then
       Some (0, [store8 (drop_bit 12 cp OR 0xe0), store8 ((drop_bit 6 cp AND 0x3f) OR 0x80),
         store8 ((cp AND 0x3f) OR 0x80)], 3)
     else if sint cp < 0x200000 \<and> len \<ge> 4 then
       Some (0, [store8 (drop_bit 18 cp OR 0xf0), store8 ((drop_bit 12 cp AND 0x3f) OR 0x80),
         store8 ((drop_bit 6 cp AND 0x3f) OR 0x80), store8 ((cp AND 0x3f) OR 0x80)], 4)
     else if len \<ge> UNICODE_REPLACEMENT_CHAR_BYTES then u8_from_cp len UNICODE_REPLACEMENT_CHAR
     else Some (-1, [], 0))"

definition u8_tolower :: "u32 \<Rightarrow> u32" where
  "u8_tolower cp =
    (if sint cp \<ge> 65 \<and> sint cp \<le> 90 then cp OR 0x20
     else if cp = 0xc5 then 0xe5
     else if cp = 0xc4 then 0xe4
     else if cp = 0xd6 then 0xf6
     else cp)"

section \<open>Bits\<close>

definition lo8 :: "u32 \<Rightarrow> u32" where
  "lo8 w = take_bit 8 w"

lemma ubyte_store8: "(of_char (store8 w) :: u32) = lo8 w"
proof -
  have "(of_char (store8 w) :: nat) = unat w mod 256"
    by (simp add: store8_def)
  moreover have "unat (of_char c :: u32) = of_char c" for c
  proof -
    have "(of_char c :: nat) < 256" by (metis of_char_mod_256 mod_less_divisor zero_less_numeral)
    then have "unat (of_nat (of_char c) :: u32) = of_char c"
      unfolding unat_of_nat by (intro mod_less) (rule less_trans, assumption, simp)
    then show ?thesis by (simp only: of_nat_of_char)
  qed
  ultimately show ?thesis
    using unsigned_take_bit_eq [of 8 w, where 'a = nat]
    by (intro word_unat_eq_iff [THEN iffD2]) (simp add: lo8_def take_bit_eq_mod [of 8 "unat w"])
qed

text \<open>The bits of the numerals of the code.\<close>

lemma u8_masks:
  "(0x7 :: u32) = mask 3" "(0xf :: u32) = mask 4" "(0x1f :: u32) = mask 5" "(0x3f :: u32) = mask 6"
  "(0x80 :: u32) = push_bit 7 (mask 1)" "(0xc0 :: u32) = push_bit 6 (mask 2)" "(0xe0 :: u32) = push_bit 5 (mask 3)"
  "(0xf0 :: u32) = push_bit 4 (mask 4)" "(0xf8 :: u32) = push_bit 3 (mask 5)"
  by (simp_all add: mask_eq_exp_minus_1 push_bit_eq_mult)

lemma u8_bits:
  "bit (0x7 :: u32) n \<longleftrightarrow> n < 3" "bit (0xf :: u32) n \<longleftrightarrow> n < 4" "bit (0x1f :: u32) n \<longleftrightarrow> n < 5"
  "bit (0x3f :: u32) n \<longleftrightarrow> n < 6" "bit (0x80 :: u32) n \<longleftrightarrow> n = 7" "bit (0xc0 :: u32) n \<longleftrightarrow> n = 6 \<or> n = 7"
  "bit (0xe0 :: u32) n \<longleftrightarrow> 5 \<le> n \<and> n < 8" "bit (0xf0 :: u32) n \<longleftrightarrow> 4 \<le> n \<and> n < 8"
  "bit (0xf8 :: u32) n \<longleftrightarrow> 3 \<le> n \<and> n < 8"
  by (simp_all only: u8_masks bit_push_bit_iff bit_mask_iff possible_bit_word) auto

lemma small_bits: "unat cp < 2 ^ k \<Longrightarrow> bit cp n \<Longrightarrow> n < k" for cp :: u32
proof (rule ccontr)
  assume a: "unat cp < 2 ^ k" "bit cp n" "\<not> n < k"
  then have "unat cp < 2 ^ n" by (meson le_less_trans linorder_not_less one_le_numeral power_increasing order.strict_trans2)
  then have "unat cp div 2 ^ n = 0" by simp
  moreover have "bit (unat cp) n" using a(2) by (simp add: bit_unsigned_iff bit_imp_le_length)
  ultimately show False by (simp add: bit_iff_odd)
qed

lemmas u8_bit_simps = lo8_def bit_and_iff bit_or_iff bit_take_bit_iff bit_push_bit_iff bit_drop_bit_eq comp_def
  possible_bit_word u8_bits

text \<open>A continuation byte and the lead bytes.\<close>

lemma cont_byte:
  "lo8 ((x AND 0x3f) OR 0x80) AND 0xc0 = (0x80 :: u32)"
  "lo8 ((x AND 0x3f) OR 0x80) AND 0x3f = x AND (0x3f :: u32)"
  by (rule bit_word_eqI, simp only: u8_bit_simps, auto)+

lemma lead_byte:
  fixes x :: u32
  assumes "\<And>n. bit x n \<Longrightarrow> n < k"
  shows "k \<le> 5 \<Longrightarrow> lo8 (x OR 0xc0) AND 0xe0 = 0xc0 \<and> lo8 (x OR 0xc0) AND 0x1f = x"
    and "k \<le> 4 \<Longrightarrow> lo8 (x OR 0xe0) AND 0xf0 = 0xe0 \<and> lo8 (x OR 0xe0) AND 0xf = x"
    and "k \<le> 3 \<Longrightarrow> lo8 (x OR 0xf0) AND 0xf8 = 0xf0 \<and> lo8 (x OR 0xf0) AND 0x7 = x"
  by (intro conjI, (rule bit_word_eqI, simp only: u8_bit_simps, use assms in fastforce)+)+

text \<open>A byte that decodes as a lead byte of one width does not decode as one of a smaller width.\<close>

lemma not_ascii: "bit w 7 \<Longrightarrow> \<not> w \<le> (0x7f :: u32)"
proof
  assume "bit w 7" "w \<le> (0x7f :: u32)"
  then have "unat w < 2 ^ 7" by (simp add: word_le_nat_alt)
  then show False using small_bits [of w 7 7] \<open>bit w 7\<close> by simp
qed

lemma lead_bits:
  "bit (lo8 (x OR 0xc0)) 7" "bit (lo8 (x OR 0xe0)) 7" "bit (lo8 (x OR 0xf0)) 7"
  "lo8 (x OR 0xe0) AND 0xe0 \<noteq> (0xc0 :: u32)" "lo8 (x OR 0xf0) AND 0xe0 \<noteq> (0xc0 :: u32)"
  "lo8 (x OR 0xf0) AND 0xf0 \<noteq> (0xe0 :: u32)" for x :: u32
proof -
  show "bit (lo8 (x OR 0xc0)) 7" "bit (lo8 (x OR 0xe0)) 7" "bit (lo8 (x OR 0xf0)) 7"
    by (simp_all only: u8_bit_simps) simp_all
  show "lo8 (x OR 0xe0) AND 0xe0 \<noteq> (0xc0 :: u32)" "lo8 (x OR 0xf0) AND 0xe0 \<noteq> (0xc0 :: u32)"
    by (rule notI, drule arg_cong [where f = "\<lambda>w. bit w 5"], simp only: u8_bit_simps, simp)+
  show "lo8 (x OR 0xf0) AND 0xf0 \<noteq> (0xe0 :: u32)"
    by (rule notI, drule arg_cong [where f = "\<lambda>w. bit w 4"], simp only: u8_bit_simps, simp)
qed

section \<open>Encoding and decoding\<close>

lemma ubyte_Cons [simp]: "ubyte (c # s) 0 = of_char c" "ubyte (c # s) (Suc i) = ubyte s i"
  by (simp_all add: ubyte_def)

lemma reassemble:
  fixes cp :: u32
  shows "push_bit 6 (drop_bit 6 cp) OR (cp AND 0x3f) = cp"
    and "push_bit 12 (drop_bit 12 cp) OR push_bit 6 (drop_bit 6 cp AND 0x3f) OR (cp AND 0x3f) = cp"
    and "push_bit 18 (drop_bit 18 cp) OR push_bit 12 (drop_bit 12 cp AND 0x3f)
      OR push_bit 6 (drop_bit 6 cp AND 0x3f) OR (cp AND 0x3f) = cp"
  by ((rule bit_word_eqI, simp only: u8_bit_simps, auto cong: conj_cong)[1])+

lemma drop_bits: "unat cp < 2 ^ (m + k) \<Longrightarrow> bit (drop_bit m cp) n \<Longrightarrow> n < k" for cp :: u32
  using small_bits [of cp "m + k" "m + n"] by (simp add: bit_drop_bit_eq)

text \<open>The four widths.\<close>

lemma decode_2:
  fixes cp :: u32
  assumes "unat cp < 2 ^ 11"
  shows "u8_to_cp ([store8 (drop_bit 6 cp OR 0xc0), store8 ((cp AND 0x3f) OR 0x80)] @ rest) = (cp, 2)"
  using lead_byte(1) [of "drop_bit 6 cp" 5] drop_bits [of cp 6 5] not_ascii [OF lead_bits(1)] assms
  by (simp add: u8_to_cp_def ubyte_store8 cont_byte reassemble)

lemma decode_3:
  fixes cp :: u32
  assumes "unat cp < 2 ^ 16"
  shows "u8_to_cp ([store8 (drop_bit 12 cp OR 0xe0), store8 ((drop_bit 6 cp AND 0x3f) OR 0x80),
    store8 ((cp AND 0x3f) OR 0x80)] @ rest) = (cp, 3)"
  using lead_byte(2) [of "drop_bit 12 cp" 4] drop_bits [of cp 12 4] not_ascii [OF lead_bits(2)] assms
  by (simp add: u8_to_cp_def ubyte_store8 cont_byte lead_bits reassemble numeral_2_eq_2 del: push_bit_and)

lemma decode_4:
  fixes cp :: u32
  assumes "unat cp < 2 ^ 21"
  shows "u8_to_cp ([store8 (drop_bit 18 cp OR 0xf0), store8 ((drop_bit 12 cp AND 0x3f) OR 0x80),
    store8 ((drop_bit 6 cp AND 0x3f) OR 0x80), store8 ((cp AND 0x3f) OR 0x80)] @ rest) = (cp, 4)"
  using lead_byte(3) [of "drop_bit 18 cp" 3] drop_bits [of cp 18 3] not_ascii [OF lead_bits(3)] assms
  by (simp add: u8_to_cp_def ubyte_store8 cont_byte lead_bits reassemble numeral_2_eq_2 numeral_3_eq_3 del: push_bit_and)

lemma decode_1: "unat cp < 2 ^ 7 \<Longrightarrow> u8_to_cp (store8 cp # rest) = (cp, 1)" for cp :: u32
proof -
  assume a: "unat cp < 2 ^ 7"
  have "lo8 cp = cp"
    by (rule bit_word_eqI) (use small_bits [OF a] in \<open>force simp: lo8_def bit_take_bit_iff\<close>)
  then show ?thesis using a by (simp add: u8_to_cp_def ubyte_store8 word_le_nat_alt)
qed

section \<open>Properties\<close>

text \<open>
  C23. Encoding and decoding: a code point below 0x200000 is encoded into a buffer of at least
  four bytes, and decoding the bytes, whatever follows them, gives the code point and the
  number of bytes back.
\<close>
theorem u8_encode_decode:
  assumes "unat cp < 0x200000" "4 \<le> len"
  shows "\<exists>bs. u8_from_cp len cp = Some (0, bs, length bs) \<and> length bs \<le> 4
    \<and> (\<forall>rest. u8_to_cp (bs @ rest) = (cp, length bs))"
proof -
  define k where "k = unat cp"
  have "sint cp = int (unat cp)" using assms(1) by (intro sint_small) simp
  then have s: "sint cp = int k" by (simp only: k_def)
  have k: "k < 0x200000" using assms(1) by (simp add: k_def)
  consider "k < 0x80" | "0x80 \<le> k" "k < 0x800" | "0x800 \<le> k" "k < 0x10000" | "0x10000 \<le> k"
    by linarith
  then show ?thesis
  proof cases
    case 1
    then have "u8_from_cp len cp = Some (0, [store8 cp], 1)"
      using assms(2) by (subst u8_from_cp.simps) (simp add: s)
    then show ?thesis using decode_1 [of cp] 1 by (simp add: k_def)
  next
    case 2
    then have "u8_from_cp len cp = Some (0, [store8 (drop_bit 6 cp OR 0xc0), store8 ((cp AND 0x3f) OR 0x80)], 2)"
      using assms(2) by (subst u8_from_cp.simps) (simp add: s)
    then show ?thesis using decode_2 [of cp] 2 by (simp add: k_def)
  next
    case 3
    then have "u8_from_cp len cp = Some (0, [store8 (drop_bit 12 cp OR 0xe0),
        store8 ((drop_bit 6 cp AND 0x3f) OR 0x80), store8 ((cp AND 0x3f) OR 0x80)], 3)"
      using assms(2) by (subst u8_from_cp.simps) (simp add: s)
    then show ?thesis using decode_3 [of cp] 3 by (simp add: k_def)
  next
    case 4
    then have "u8_from_cp len cp = Some (0, [store8 (drop_bit 18 cp OR 0xf0), store8 ((drop_bit 12 cp AND 0x3f) OR 0x80),
        store8 ((drop_bit 6 cp AND 0x3f) OR 0x80), store8 ((cp AND 0x3f) OR 0x80)], 4)"
      using assms(2) k by (subst u8_from_cp.simps) (simp add: s)
    then show ?thesis using decode_4 [of cp] assms(1) by simp
  qed
qed

theorem u8_encode_decode_witness:
  "\<exists>bs. u8_from_cp 4 0x20ac = Some (0, bs, length bs) \<and> u8_to_cp (bs @ ''x'') = (0x20ac, length bs)"
  using u8_encode_decode [of "0x20ac" 4] by auto

lemma u8_from_cp_some: "u8_from_cp len cp = Some r \<Longrightarrow> \<not> (len = 2 \<and> 0x800 \<le> sint cp)"
proof (rule u8_from_cp.raw_induct [where P = "\<lambda>len cp r. \<not> (len = 2 \<and> 0x800 \<le> sint cp)"])
  fix rec :: "nat \<Rightarrow> u32 \<Rightarrow> (status \<times> bytes \<times> nat) option" and len cp r
  assume a: "\<And>len cp r. rec len cp = Some r \<Longrightarrow> \<not> (len = 2 \<and> 0x800 \<le> sint cp)"
  have "sint UNICODE_REPLACEMENT_CHAR = 0xFFFD" by (simp add: UNICODE_REPLACEMENT_CHAR_def)
  then show "\<not> (len = 2 \<and> 0x800 \<le> sint cp)" if "(if sint cp \<ge> 0 \<and> sint cp < 0x80 \<and> len \<ge> 1 then Some (0, [store8 cp], 1)
     else if sint cp < 0x800 \<and> len \<ge> 2 then
       Some (0, [store8 (drop_bit 6 cp OR 0xc0), store8 ((cp AND 0x3f) OR 0x80)], 2)
     else if sint cp < 0x10000 \<and> len \<ge> 3 then
       Some (0, [store8 (drop_bit 12 cp OR 0xe0), store8 ((drop_bit 6 cp AND 0x3f) OR 0x80),
         store8 ((cp AND 0x3f) OR 0x80)], 3)
     else if sint cp < 0x200000 \<and> len \<ge> 4 then
       Some (0, [store8 (drop_bit 18 cp OR 0xf0), store8 ((drop_bit 12 cp AND 0x3f) OR 0x80),
         store8 ((drop_bit 6 cp AND 0x3f) OR 0x80), store8 ((cp AND 0x3f) OR 0x80)], 4)
     else if len \<ge> UNICODE_REPLACEMENT_CHAR_BYTES then rec len UNICODE_REPLACEMENT_CHAR
     else Some (-1, [], 0)) = Some r"
    using that a [of len UNICODE_REPLACEMENT_CHAR r]
    by (auto simp: UNICODE_REPLACEMENT_CHAR_BYTES_def split: if_splits)
qed

text \<open>
  C24. The encoder returns unless the buffer has exactly two bytes and the code point needs
  more: the replacement character, for which two bytes are taken to be enough, takes three.
\<close>
theorem u8_from_cp_returns: "u8_from_cp len cp = None \<longleftrightarrow> len = 2 \<and> 0x800 \<le> sint cp"
proof (cases "len = 2 \<and> 0x800 \<le> sint cp")
  case True
  then show ?thesis using u8_from_cp_some by (cases "u8_from_cp len cp") auto
next
  case False
  have "sint UNICODE_REPLACEMENT_CHAR = 0xFFFD" by (simp add: UNICODE_REPLACEMENT_CHAR_def)
  then have "u8_from_cp len UNICODE_REPLACEMENT_CHAR \<noteq> None" if "3 \<le> len"
    using that by (subst u8_from_cp.simps) simp
  then show ?thesis
    using False by (subst u8_from_cp.simps) (auto simp: UNICODE_REPLACEMENT_CHAR_BYTES_def)
qed

end
