(* ===== verification/Csv.thy ===== *)
theory Csv
  imports Buf
begin

text \<open>
  Comma-separated values (\<^verbatim>\<open>lib/util/csv.c\<close>, \<^verbatim>\<open>lib/util/csv.h\<close>). A stream is the list of the
  bytes that are left in it: \<open>fgetc\<close> takes the first one, \<open>ungetc\<close> puts it back. The reader
  ignores the status of its appends. None is an access outside a buffer.
\<close>

section \<open>Encoding\<close>

fun escaped_loop :: "allocator \<Rightarrow> buf_t \<Rightarrow> bytes \<Rightarrow> (status \<times> buf_t) option" where
  "escaped_loop ok buf [] = Some (0, buf)"
| "escaped_loop ok buf (c # s) =
    (if c = CHR 0x22 then do {
       (ret, buf) \<leftarrow> buf_adata ok buf [CHR 0x22, CHR 0x22];
       if ret < 0 then Some (-1, buf) else escaped_loop ok buf s }
     else do {
       (_, buf) \<leftarrow> buf_achar ok buf c;
       escaped_loop ok buf s })"

definition csv_encode_escaped :: "allocator \<Rightarrow> buf_t \<Rightarrow> bytes \<Rightarrow> (status \<times> buf_t) option" where
  "csv_encode_escaped ok buf s = do {
     (ret, buf) \<leftarrow> buf_achar ok buf (CHR 0x22);
     if ret < 0 then Some (-1, buf)
     else do {
       (ret, buf) \<leftarrow> escaped_loop ok buf s;
       if ret < 0 then Some (-1, buf)
       else do {
         (ret, buf) \<leftarrow> buf_achar ok buf (CHR 0x22);
         if ret < 0 then Some (-1, buf) else Some (0, buf) } } }"

text \<open>A column is a C string or NULL.\<close>

definition csv_column :: "allocator \<Rightarrow> buf_t \<Rightarrow> bytes option \<Rightarrow> (status \<times> buf_t) option" where
  "csv_column ok dst col =
    (case col of
      None \<Rightarrow> Some (0, dst)
    | Some s \<Rightarrow>
        if cnth s 0 = NUL then Some (0, dst)
        else
          let off = strcspn s [CHR 0x0d, CHR 0x0a, CHR 0x22, CHR '','']
          in if cnth s off = NUL then do {
               (ret, dst) \<leftarrow> buf_adata ok dst (take off s);
               if ret < 0 then Some (-1, dst) else Some (0, dst) }
             else do {
               (ret, dst) \<leftarrow> csv_encode_escaped ok dst s;
               if ret < 0 then Some (-1, dst) else Some (0, dst) })"

fun encode_loop :: "allocator \<Rightarrow> nat \<Rightarrow> bytes option list \<Rightarrow> buf_t \<Rightarrow> (status \<times> buf_t) option" where
  "encode_loop ok i [] dst = Some (0, dst)"
| "encode_loop ok i (col # cols) dst = do {
     (ret, dst) \<leftarrow> (if i \<noteq> 0 then buf_achar ok dst (CHR '','') else Some (0, dst));
     if ret < 0 then Some (-1, dst)
     else do {
       (ret, dst) \<leftarrow> csv_column ok dst col;
       if ret < 0 then Some (-1, dst) else encode_loop ok (i + 1) cols dst } }"

definition csv_encode :: "allocator \<Rightarrow> buf_t \<Rightarrow> bytes option list \<Rightarrow> (status \<times> buf_t) option" where
  "csv_encode ok dst cols = do {
     (ret, dst) \<leftarrow> encode_loop ok 0 cols dst;
     if ret < 0 then Some (-1, dst)
     else if length cols > 0 then do {
       (ret, dst) \<leftarrow> buf_adata ok dst [CHR 0x0d, CHR 0x0a];
       if ret < 0 then Some (-1, dst) else Some (0, dst) }
     else Some (0, dst) }"

section \<open>Reading\<close>

record csv_reader =
  cr_data :: buf_t
  cr_cols :: buf_t

definition csv_reader_nelems :: "csv_reader \<Rightarrow> nat" where
  "csv_reader_nelems r = unat (buf_len (cr_cols r)) div 8"

text \<open>The offset of an element in the data; None is NULL.\<close>

definition csv_reader_elem :: "csv_reader \<Rightarrow> nat \<Rightarrow> size_t option" where
  "csv_reader_elem r i =
    (if i \<ge> csv_reader_nelems r then None
     else Some (of_nat (le_value (take 8 (drop (8 * i) (mem (cr_cols r)))))))"

definition csv_reader_init :: "allocator \<Rightarrow> csv_reader option" where
  "csv_reader_init ok =
    (case buf_init ok 4096 of
      None \<Rightarrow> None
    | Some data \<Rightarrow>
        (case buf_init ok 512 of
          None \<Rightarrow> None
        | Some cols \<Rightarrow> Some \<lparr>cr_data = data, cr_cols = cols\<rparr>))"

definition csv_reader_cleanup :: "csv_reader \<Rightarrow> csv_reader" where
  "csv_reader_cleanup r = \<lparr>cr_data = buf_cleanup (cr_data r), cr_cols = buf_cleanup (cr_cols r)\<rparr>"

text \<open>After a carriage return: a newline is taken, anything else stays in the stream.\<close>

definition skip_newline :: "bytes \<Rightarrow> bytes" where
  "skip_newline s = (case s of c # s' \<Rightarrow> if c = CHR 0x0a then s' else s | [] \<Rightarrow> [])"

text \<open>The loops return whether the row goes on, the data and the rest of the stream.\<close>

fun escaped_field :: "allocator \<Rightarrow> buf_t \<Rightarrow> bytes \<Rightarrow> (bool \<times> buf_t \<times> bytes) option" where
  "escaped_field ok data [] = Some (False, data, [])"
| "escaped_field ok data (ch # s) =
    (if ch = CHR 0x22 then
       case s of
         [] \<Rightarrow> Some (False, data, [])
       | ch # s \<Rightarrow>
           if ch = CHR '','' then Some (True, data, s)
           else if ch = CHR 0x0d then Some (False, data, skip_newline s)
           else if ch = CHR 0x0a then Some (False, data, s)
           else do { (_, data) \<leftarrow> buf_achar ok data ch; escaped_field ok data s }
     else do { (_, data) \<leftarrow> buf_achar ok data ch; escaped_field ok data s })"

fun unescaped_field :: "allocator \<Rightarrow> buf_t \<Rightarrow> bytes \<Rightarrow> (bool \<times> buf_t \<times> bytes) option" where
  "unescaped_field ok data [] = Some (False, data, [])"
| "unescaped_field ok data (ch # s) =
    (if ch = CHR 0x0d then Some (False, data, skip_newline s)
     else if ch = CHR 0x0a then Some (False, data, s)
     else if ch = CHR '','' then Some (True, data, s)
     else do { (_, data) \<leftarrow> buf_achar ok data ch; unescaped_field ok data s })"

definition end_field :: "allocator \<Rightarrow> size_t \<Rightarrow> csv_reader \<Rightarrow> csv_reader option" where
  "end_field ok off r = do {
     (_, data) \<leftarrow> buf_achar ok (cr_data r) NUL;
     (_, cols) \<leftarrow> buf_adata ok (cr_cols r) (le_bytes 8 (unat off));
     Some \<lparr>cr_data = data, cr_cols = cols\<rparr> }"

definition read_escaped :: "allocator \<Rightarrow> csv_reader \<Rightarrow> bytes \<Rightarrow> (bool \<times> csv_reader \<times> bytes) option" where
  "read_escaped ok r inp = do {
     let off = buf_len (cr_data r);
     (cont, data, inp) \<leftarrow> escaped_field ok (cr_data r) inp;
     r \<leftarrow> end_field ok off (r\<lparr>cr_data := data\<rparr>);
     Some (cont, r, inp) }"

definition read_unescaped :: "allocator \<Rightarrow> csv_reader \<Rightarrow> bytes \<Rightarrow> (bool \<times> csv_reader \<times> bytes) option" where
  "read_unescaped ok r inp = do {
     let off = buf_len (cr_data r);
     (cont, data, inp) \<leftarrow> unescaped_field ok (cr_data r) inp;
     r \<leftarrow> end_field ok off (r\<lparr>cr_data := data\<rparr>);
     Some (cont, r, inp) }"

definition read_empty :: "allocator \<Rightarrow> csv_reader \<Rightarrow> csv_reader option" where
  "read_empty ok r = end_field ok (buf_len (cr_data r)) r"

lemma skip_newline_length: "length (skip_newline s) \<le> length s"
  by (simp add: skip_newline_def split: list.splits)

lemma escaped_field_length: "escaped_field ok d s = Some (c, d', s') \<Longrightarrow> length s' \<le> length s"
  by (induction ok d s rule: escaped_field.induct)
     (auto simp: bind_eq_Some_conv intro: skip_newline_length [THEN le_trans] le_SucI split: if_splits list.splits,
       metis le_SucI)

lemma unescaped_field_length: "unescaped_field ok d s = Some (c, d', s') \<Longrightarrow> length s' \<le> length s - 1"
  by (induction ok d s rule: unescaped_field.induct)
     (auto simp: bind_eq_Some_conv skip_newline_length split: if_splits, metis diff_le_self le_trans)

function row_loop :: "allocator \<Rightarrow> bool \<Rightarrow> csv_reader \<Rightarrow> bytes \<Rightarrow> (csv_reader \<times> bytes) option" where
  "row_loop ok lastsep r [] = do { r \<leftarrow> (if lastsep then read_empty ok r else Some r); Some (r, []) }"
| "row_loop ok lastsep r (ch # s) =
    (if ch = CHR 0x0d \<or> ch = CHR 0x0a then do {
       let s = (if ch = CHR 0x0d then skip_newline s else s);
       r \<leftarrow> (if lastsep then read_empty ok r else Some r);
       Some (r, s) }
     else if ch = CHR 0x22 then
       (case read_escaped ok r s of
         None \<Rightarrow> None
       | Some (cont, r, s) \<Rightarrow> if cont then row_loop ok cont r s else Some (r, s))
     else if ch = CHR '','' then
       (case read_empty ok r of None \<Rightarrow> None | Some r \<Rightarrow> row_loop ok True r s)
     else
       (case read_unescaped ok r (ch # s) of
         None \<Rightarrow> None
       | Some (cont, r, s) \<Rightarrow> if cont then row_loop ok cont r s else Some (r, s)))"
  by pat_completeness auto
termination
  by (relation "measure (\<lambda>(ok, lastsep, r, s). length s)")
     (auto simp: read_escaped_def read_unescaped_def bind_eq_Some_conv Let_def less_Suc_eq_le
       dest!: escaped_field_length unescaped_field_length)

text \<open>\<open>err\<close> is the error indicator of the stream after the row.\<close>

definition csv_read_row :: "allocator \<Rightarrow> csv_reader \<Rightarrow> bytes \<Rightarrow> bool \<Rightarrow> (status \<times> csv_reader \<times> bytes) option" where
  "csv_read_row ok r inp err = do {
     let r = \<lparr>cr_data = buf_clear (cr_data r), cr_cols = buf_clear (cr_cols r)\<rparr>;
     (r, inp) \<leftarrow> row_loop ok False r inp;
     Some (if err then -1 else 0, r, inp) }"

section \<open>The fields of a row\<close>

text \<open>
  The reading without buffers: the bytes of a field, whether the row goes on and the rest of
  the stream; then the fields of a row.
\<close>

fun escaped_text :: "bytes \<Rightarrow> bytes \<times> bool \<times> bytes" where
  "escaped_text [] = ([], False, [])"
| "escaped_text (ch # s) =
    (if ch = CHR 0x22 then
       case s of
         [] \<Rightarrow> ([], False, [])
       | ch # s \<Rightarrow>
           if ch = CHR '','' then ([], True, s)
           else if ch = CHR 0x0d then ([], False, skip_newline s)
           else if ch = CHR 0x0a then ([], False, s)
           else (let (f, k) = escaped_text s in (ch # f, k))
     else (let (f, k) = escaped_text s in (ch # f, k)))"

fun unescaped_text :: "bytes \<Rightarrow> bytes \<times> bool \<times> bytes" where
  "unescaped_text [] = ([], False, [])"
| "unescaped_text (ch # s) =
    (if ch = CHR 0x0d then ([], False, skip_newline s)
     else if ch = CHR 0x0a then ([], False, s)
     else if ch = CHR '','' then ([], True, s)
     else (let (f, k) = unescaped_text s in (ch # f, k)))"

lemma escaped_text_length:
  "escaped_text s = (f, cont, rest) \<Longrightarrow> length f + length rest + (if cont then 1 else 0) \<le> length s"
proof (induction s arbitrary: f rule: escaped_text.induct)
  case (2 ch s)
  show ?case
    using 2 skip_newline_length [of "tl s"] by (auto split: if_splits list.splits prod.splits)
qed simp

lemma unescaped_text_length:
  "unescaped_text s = (f, cont, rest) \<Longrightarrow> length f + length rest + (if cont then 1 else 0) \<le> length s
    \<and> (s \<noteq> [] \<longrightarrow> length rest < length s)"
proof (induction s arbitrary: f)
  case (Cons ch s)
  then show ?case using skip_newline_length [of s] by (auto split: if_splits prod.splits)
qed simp

function csv_fields :: "bool \<Rightarrow> bytes \<Rightarrow> bytes list \<times> bytes" where
  "csv_fields lastsep [] = (if lastsep then [[]] else [], [])"
| "csv_fields lastsep (ch # s) =
    (if ch = CHR 0x0d then (if lastsep then [[]] else [], skip_newline s)
     else if ch = CHR 0x0a then (if lastsep then [[]] else [], s)
     else if ch = CHR 0x22 then
       (case escaped_text s of (f, cont, s) \<Rightarrow>
         if cont then (case csv_fields True s of (fs, s) \<Rightarrow> (f # fs, s)) else ([f], s))
     else if ch = CHR '','' then (case csv_fields True s of (fs, s) \<Rightarrow> ([] # fs, s))
     else
       (case unescaped_text (ch # s) of (f, cont, s) \<Rightarrow>
         if cont then (case csv_fields True s of (fs, s) \<Rightarrow> (f # fs, s)) else ([f], s)))"
  by pat_completeness auto
termination
  by (relation "measure (\<lambda>(lastsep, s). length s)")
     (auto simp del: unescaped_text.simps dest!: escaped_text_length [OF sym] unescaped_text_length [OF sym])

section \<open>The reader stores the fields\<close>

definition csv_data :: "bytes list \<Rightarrow> bytes" where
  "csv_data fs = concat (map (\<lambda>f. f @ [NUL]) fs)"

definition csv_offs :: "bytes list \<Rightarrow> bytes" where
  "csv_offs fs = concat (map (\<lambda>i. le_bytes 8 (length (csv_data (take i fs)))) [0..<length fs])"

lemma csv_data_snoc: "csv_data (fs @ [f]) = csv_data fs @ f @ [NUL]"
  by (simp add: csv_data_def)

lemma csv_offs_snoc: "csv_offs (fs @ [f]) = csv_offs fs @ le_bytes 8 (length (csv_data fs))"
proof -
  have "map (\<lambda>i. le_bytes 8 (length (csv_data (take i (fs @ [f]))))) [0..<length fs]
      = map (\<lambda>i. le_bytes 8 (length (csv_data (take i fs)))) [0..<length fs]"
    by (rule map_cong) auto
  then have "concat (map (\<lambda>i. le_bytes 8 (length (csv_data (take i (fs @ [f]))))) [0..<length fs]) = csv_offs fs"
    by (simp only: csv_offs_def)
  moreover have "take (length fs) (fs @ [f]) = fs" by simp
  ultimately show ?thesis
    by (simp only: csv_offs_def [of "fs @ [f]"] length_append_singleton upt_Suc_append map_append concat_append
        list.map concat.simps append_Nil2)
qed

lemma length_csv_offs: "length (csv_offs fs) = 8 * length fs"
  by (induction fs rule: rev_induct) (simp_all add: csv_offs_snoc, simp add: csv_offs_def)

definition csv_holds :: "allocator \<Rightarrow> csv_reader \<Rightarrow> bytes list \<Rightarrow> bool" where
  "csv_holds ok r fs \<longleftrightarrow> buf_wf ok (cr_data r) \<and> buf_wf ok (cr_cols r)
     \<and> buf_contents (cr_data r) = csv_data fs \<and> buf_contents (cr_cols r) = csv_offs fs"

lemma escaped_field_text:
  "\<lbrakk>buf_wf ok d; \<not> refuses ok (length (buf_contents d) + length s); escaped_text s = (f, cont, rest)\<rbrakk>
    \<Longrightarrow> \<exists>d'. escaped_field ok d s = Some (cont, d', rest) \<and> buf_wf ok d' \<and> buf_contents d' = buf_contents d @ f"
proof (induction s arbitrary: d f rule: escaped_text.induct)
  case (2 ch s)
  have put: "\<exists>d'. (do { (_, data) \<leftarrow> buf_achar ok d c; escaped_field ok data t }) = Some (cont, d', rest)
      \<and> buf_wf ok d' \<and> buf_contents d' = buf_contents d @ f"
    if t: "Suc (length t) \<le> length (ch # s)" "(let (f, k) = escaped_text t in (c # f, k)) = (f, cont, rest)"
      and IH: "\<And>d f. \<lbrakk>buf_wf ok d; \<not> refuses ok (length (buf_contents d) + length t); escaped_text t = (f, cont, rest)\<rbrakk>
        \<Longrightarrow> \<exists>d'. escaped_field ok d t = Some (cont, d', rest) \<and> buf_wf ok d' \<and> buf_contents d' = buf_contents d @ f"
    for c t
  proof -
    obtain g where g: "f = c # g" "escaped_text t = (g, cont, rest)"
      using t(2) by (auto split: prod.splits)
    have "\<not> refuses ok (length (buf_contents d) + 1)"
      using "2.prems"(2) by (rule not_refuses_mono) simp
    then obtain b where b: "buf_achar ok d c = Some (0, b)" "buf_wf ok b" "buf_contents b = buf_contents d @ [c]"
      using buf_achar_granted [OF "2.prems"(1)] by blast
    have "\<not> refuses ok (length (buf_contents b) + length t)"
      using "2.prems"(2) by (rule not_refuses_mono) (use b(3) t(1) in simp)
    then show ?thesis using IH [OF b(2) _ g(2)] b g(1) by auto
  qed
  show ?case
  proof (cases "ch = CHR 0x22")
    case False
    show ?thesis using put [of s ch] 2 False by simp
  next
    case True
    show ?thesis
    proof (cases s)
      case Nil
      then show ?thesis using "2.prems" True by simp
    next
      case (Cons c t)
      show ?thesis using put [of t c] 2 True Cons by (auto split: if_splits)
    qed
  qed
qed simp

lemma unescaped_field_text:
  "\<lbrakk>buf_wf ok d; \<not> refuses ok (length (buf_contents d) + length s); unescaped_text s = (f, cont, rest)\<rbrakk>
    \<Longrightarrow> \<exists>d'. unescaped_field ok d s = Some (cont, d', rest) \<and> buf_wf ok d' \<and> buf_contents d' = buf_contents d @ f"
proof (induction s arbitrary: d f)
  case (Cons c s)
  show ?case
  proof (cases "c = CHR 0x0d \<or> c = CHR 0x0a \<or> c = CHR '',''")
    case True
    then show ?thesis using Cons.prems by auto
  next
    case False
    then obtain g where g: "f = c # g" "unescaped_text s = (g, cont, rest)"
      using Cons.prems(3) by (auto split: prod.splits)
    have "\<not> refuses ok (length (buf_contents d) + 1)"
      using Cons.prems(2) by (rule not_refuses_mono) simp
    then obtain b where b: "buf_achar ok d c = Some (0, b)" "buf_wf ok b" "buf_contents b = buf_contents d @ [c]"
      using buf_achar_granted [OF Cons.prems(1)] by blast
    have "\<not> refuses ok (length (buf_contents b) + length s)"
      using Cons.prems(2) by (rule not_refuses_mono) (use b(3) in simp)
    then show ?thesis using Cons.IH [OF b(2) _ g(2)] b g(1) False by auto
  qed
qed simp

lemma length_buf_len: "buf_wf ok b \<Longrightarrow> unat (buf_len b) = length (buf_contents b)"
  by (simp add: length_buf_contents)

lemma end_field_holds:
  assumes "buf_wf ok (cr_data r)" "buf_contents (cr_data r) = csv_data fs @ f"
    and "buf_wf ok (cr_cols r)" "buf_contents (cr_cols r) = csv_offs fs"
    and "unat off = length (csv_data fs)"
    and "\<not> refuses ok (8 * m)" "length (csv_data fs) + length f < m" "length fs < m"
  shows "\<exists>r'. end_field ok off r = Some r' \<and> csv_holds ok r' (fs @ [f])"
proof -
  have "\<not> refuses ok (length (buf_contents (cr_data r)) + 1)"
    using assms(6) by (rule not_refuses_mono) (use assms(2,7) in simp)
  then obtain d where d: "buf_achar ok (cr_data r) NUL = Some (0, d)" "buf_wf ok d"
      "buf_contents d = csv_data fs @ f @ [NUL]"
    using buf_achar_granted [OF assms(1)] assms(2) by (metis append_assoc)
  have "\<not> refuses ok (length (buf_contents (cr_cols r)) + length (le_bytes 8 (unat off)))"
    using assms(6) by (rule not_refuses_mono) (use assms(4,8) in \<open>simp add: length_csv_offs\<close>)
  then obtain c where c: "buf_adata ok (cr_cols r) (le_bytes 8 (unat off)) = Some (0, c)" "buf_wf ok c"
      "buf_contents c = csv_offs fs @ le_bytes 8 (unat off)"
    using buf_adata_granted [OF assms(3), of "le_bytes 8 (unat off)"] assms(4) by auto
  show ?thesis
    using d c assms(5) by (simp add: end_field_def csv_holds_def csv_data_snoc csv_offs_snoc)
qed

lemma read_empty_holds:
  assumes "csv_holds ok r fs" "\<not> refuses ok (8 * m)" "length (csv_data fs) < m" "length fs < m"
  shows "\<exists>r'. read_empty ok r = Some r' \<and> csv_holds ok r' (fs @ [[]])"
  using end_field_holds [of ok r fs "[]" "buf_len (cr_data r)" m] assms
  by (simp add: read_empty_def csv_holds_def length_buf_len)

lemma read_escaped_holds:
  assumes "csv_holds ok r fs" "escaped_text s = (f, cont, rest)"
    and "\<not> refuses ok (8 * m)" "length (csv_data fs) + length s < m" "length fs < m"
  shows "\<exists>r'. read_escaped ok r s = Some (cont, r', rest) \<and> csv_holds ok r' (fs @ [f])"
proof -
  have "\<not> refuses ok (length (buf_contents (cr_data r)) + length s)"
    using assms(3) by (rule not_refuses_mono) (use assms(1,4) in \<open>simp add: csv_holds_def\<close>)
  then obtain d where d: "escaped_field ok (cr_data r) s = Some (cont, d, rest)" "buf_wf ok d"
      "buf_contents d = csv_data fs @ f"
    using escaped_field_text [of ok "cr_data r" s f cont rest] assms(1,2) by (auto simp: csv_holds_def)
  have "length (csv_data fs) + length f < m" using escaped_text_length [OF assms(2)] assms(4) by simp
  then obtain r' where "end_field ok (buf_len (cr_data r)) (r\<lparr>cr_data := d\<rparr>) = Some r'" "csv_holds ok r' (fs @ [f])"
    using end_field_holds [of ok "r\<lparr>cr_data := d\<rparr>" fs f "buf_len (cr_data r)" m] d assms
    by (auto simp: csv_holds_def length_buf_len)
  then show ?thesis using d(1) by (simp add: read_escaped_def Let_def)
qed

lemma read_unescaped_holds:
  assumes "csv_holds ok r fs" "unescaped_text s = (f, cont, rest)"
    and "\<not> refuses ok (8 * m)" "length (csv_data fs) + length s < m" "length fs < m"
  shows "\<exists>r'. read_unescaped ok r s = Some (cont, r', rest) \<and> csv_holds ok r' (fs @ [f])"
proof -
  have "\<not> refuses ok (length (buf_contents (cr_data r)) + length s)"
    using assms(3) by (rule not_refuses_mono) (use assms(1,4) in \<open>simp add: csv_holds_def\<close>)
  then obtain d where d: "unescaped_field ok (cr_data r) s = Some (cont, d, rest)" "buf_wf ok d"
      "buf_contents d = csv_data fs @ f"
    using unescaped_field_text [of ok "cr_data r" s f cont rest] assms(1,2) by (auto simp: csv_holds_def)
  have "length (csv_data fs) + length f < m" using unescaped_text_length [OF assms(2)] assms(4) by simp
  then obtain r' where "end_field ok (buf_len (cr_data r)) (r\<lparr>cr_data := d\<rparr>) = Some r'" "csv_holds ok r' (fs @ [f])"
    using end_field_holds [of ok "r\<lparr>cr_data := d\<rparr>" fs f "buf_len (cr_data r)" m] d assms
    by (auto simp: csv_holds_def length_buf_len)
  then show ?thesis using d(1) by (simp add: read_unescaped_def Let_def)
qed

lemma row_loop_holds:
  "\<lbrakk>csv_holds ok r fs; \<not> refuses ok (8 * m); length (csv_data fs) + length s < m; length fs + length s < m\<rbrakk>
    \<Longrightarrow> \<exists>r'. row_loop ok ls r s = Some (r', snd (csv_fields ls s)) \<and> csv_holds ok r' (fs @ fst (csv_fields ls s))"
proof (induction ls s arbitrary: r fs rule: csv_fields.induct)
  case (1 ls)
  then show ?case using read_empty_holds [of ok r fs m] by auto
next
  case (2 ls ch s)
  note small = "2.prems"(3,4)
  show ?case
  proof (cases "ch = CHR 0x0d \<or> ch = CHR 0x0a")
    case True
    then show ?thesis using "2.prems" read_empty_holds [of ok r fs m] by auto
  next
    case nl: False
    have field: ?thesis if step: "row_loop ok ls r (ch # s) = (if cont then row_loop ok True r' t else Some (r', t))"
        and fields: "csv_fields ls (ch # s) = (if cont then (case csv_fields True t of (fs, s) \<Rightarrow> (f # fs, s)) else ([f], t))"
        and holds: "csv_holds ok r' (fs @ [f])" and len: "length f + length t + (if cont then 1 else 0) \<le> length (ch # s)"
        and IH: "\<And>r fs. \<lbrakk>cont; csv_holds ok r fs; \<not> refuses ok (8 * m); length (csv_data fs) + length t < m; length fs + length t < m\<rbrakk>
          \<Longrightarrow> \<exists>r'. row_loop ok True r t = Some (r', snd (csv_fields True t)) \<and> csv_holds ok r' (fs @ fst (csv_fields True t))"
      for cont r' t f
    proof (cases cont)
      case True
      have "length (csv_data (fs @ [f])) + length t < m" "length (fs @ [f]) + length t < m"
        using small len True by (simp_all add: csv_data_snoc)
      from IH [OF True holds "2.prems"(2) this] show ?thesis
        using step fields True by (auto split: prod.splits)
    next
      case False
      then show ?thesis using step fields holds by simp
    qed
    consider (quote) "ch = CHR 0x22" | (comma) "ch \<noteq> CHR 0x22" "ch = CHR '',''" | (plain) "ch \<noteq> CHR 0x22" "ch \<noteq> CHR '',''"
      by blast
    then show ?thesis
    proof cases
      case quote
      obtain f cont t where e: "escaped_text s = (f, cont, t)" by (metis prod_cases3)
      obtain r' where r': "read_escaped ok r s = Some (cont, r', t)" "csv_holds ok r' (fs @ [f])"
        using read_escaped_holds [OF "2.prems"(1) e "2.prems"(2)] small by auto
      show ?thesis
      proof (rule field [of cont r' t f])
        show "row_loop ok ls r (ch # s) = (if cont then row_loop ok True r' t else Some (r', t))"
          using quote r'(1) by simp
        show "csv_fields ls (ch # s) = (if cont then (case csv_fields True t of (fs, s) \<Rightarrow> (f # fs, s)) else ([f], t))"
          using quote e by simp
        show "length f + length t + (if cont then 1 else 0) \<le> length (ch # s)"
          using escaped_text_length [OF e] by simp
      qed (use r'(2) "2.IH"(1) [OF _ _ quote] nl e in auto)
    next
      case comma
      obtain r' where r': "read_empty ok r = Some r'" "csv_holds ok r' (fs @ [[]])"
        using read_empty_holds [OF "2.prems"(1,2)] small by auto
      show ?thesis
      proof (rule field [of True r' s "[]"])
        show "row_loop ok ls r (ch # s) = (if True then row_loop ok True r' s else Some (r', s))"
          using comma r'(1) by simp
        show "csv_fields ls (ch # s) = (if True then (case csv_fields True s of (fs, s) \<Rightarrow> ([] # fs, s)) else ([[]], s))"
          using comma by simp
      qed (use r'(2) "2.IH"(2) comma nl in auto)
    next
      case plain
      obtain f cont t where e: "unescaped_text (ch # s) = (f, cont, t)" by (metis prod_cases3)
      obtain r' where r': "read_unescaped ok r (ch # s) = Some (cont, r', t)" "csv_holds ok r' (fs @ [f])"
        using read_unescaped_holds [OF "2.prems"(1) e "2.prems"(2)] small by auto
      show ?thesis
      proof (rule field [of cont r' t f])
        show "row_loop ok ls r (ch # s) = (if cont then row_loop ok True r' t else Some (r', t))"
          using plain nl r'(1) by simp
        show "csv_fields ls (ch # s) = (if cont then (case csv_fields True t of (fs, s) \<Rightarrow> (f # fs, s)) else ([f], t))"
          using plain nl e by (simp del: unescaped_text.simps)
        show "length f + length t + (if cont then 1 else 0) \<le> length (ch # s)"
          using unescaped_text_length [OF e] by simp
      qed (use r'(2) "2.IH"(3) plain nl e in \<open>auto simp del: unescaped_text.simps\<close>)
    qed
  qed
qed

text \<open>What the accessors return for the stored fields.\<close>

lemma csv_offs_nth:
  assumes "i < length fs"
  shows "take 8 (drop (8 * i) (csv_offs fs)) = le_bytes 8 (length (csv_data (take i fs)))"
  using assms
proof (induction fs rule: rev_induct)
  case (snoc f fs)
  show ?case
  proof (cases "i < length fs")
    case True
    then have "8 * i + 8 \<le> length (csv_offs fs)" by (simp add: length_csv_offs)
    then show ?thesis using snoc.IH [OF True] True by (simp add: csv_offs_snoc)
  next
    case False
    then have "i = length fs" using snoc.prems by simp
    then show ?thesis by (simp add: csv_offs_snoc length_csv_offs)
  qed
qed simp

lemma csv_data_nth:
  assumes "i < length fs"
  shows "take (Suc (length (fs ! i))) (drop (length (csv_data (take i fs))) (csv_data fs)) = fs ! i @ [NUL]"
proof -
  have "fs = take i fs @ fs ! i # drop (Suc i) fs" using assms by (simp add: id_take_nth_drop)
  then have "csv_data fs = csv_data (take i fs) @ (fs ! i @ [NUL]) @ csv_data (drop (Suc i) fs)"
    by (metis (no_types, lifting) append_assoc csv_data_def concat_append concat.simps(2) list.map(2) map_append)
  then show ?thesis by simp
qed

lemma take_drop_prefix: "m + n \<le> k \<Longrightarrow> take n (drop m (take k xs)) = take n (drop m xs)"
  by (simp add: take_drop min_absorb1)

lemma csv_holds_lengths:
  assumes "csv_holds ok r fs"
  shows "unat (buf_len (cr_cols r)) = 8 * length fs" "unat (buf_len (cr_data r)) = length (csv_data fs)"
    and "csv_reader_nelems r = length fs"
proof -
  show "unat (buf_len (cr_cols r)) = 8 * length fs" "unat (buf_len (cr_data r)) = length (csv_data fs)"
    using assms(1) length_buf_len length_csv_offs by (metis csv_holds_def)+
  then show "csv_reader_nelems r = length fs" by (simp add: csv_reader_nelems_def)
qed

lemma csv_holds_elem:
  assumes "csv_holds ok r fs" "i < length fs"
  shows "csv_reader_elem r i = Some (of_nat (length (csv_data (take i fs))))"
    and "take (Suc (length (fs ! i))) (drop (length (csv_data (take i fs))) (mem (cr_data r))) = fs ! i @ [NUL]"
proof -
  note len = csv_holds_lengths [OF assms(1)]
  have small: "length (csv_data (take i fs)) + Suc (length (fs ! i)) \<le> length (csv_data fs)"
  proof -
    have "length (take (Suc (length (fs ! i))) (drop (length (csv_data (take i fs))) (csv_data fs))) = Suc (length (fs ! i))"
      unfolding csv_data_nth [OF assms(2)] by simp
    then show ?thesis by simp
  qed
  have "length (csv_data fs) < 2 ^ 62"
    using assms(1) len(2) by (simp add: csv_holds_def buf_wf_def word_le_nat_alt)
  then have "length (csv_data (take i fs)) < 256 ^ 8" using small by simp
  then have "le_value (take 8 (drop (8 * i) (csv_offs fs))) = length (csv_data (take i fs))"
    unfolding csv_offs_nth [OF assms(2)] by (rule le_value_le_bytes)
  moreover have "take 8 (drop (8 * i) (mem (cr_cols r))) = take 8 (drop (8 * i) (csv_offs fs))"
    using assms take_drop_prefix [of "8 * i" 8 "8 * length fs" "mem (cr_cols r)"]
    by (simp add: csv_holds_def buf_contents_def len(1))
  ultimately show "csv_reader_elem r i = Some (of_nat (length (csv_data (take i fs))))"
    using assms(2) by (simp add: csv_reader_elem_def len(3))
  show "take (Suc (length (fs ! i))) (drop (length (csv_data (take i fs))) (mem (cr_data r))) = fs ! i @ [NUL]"
    using csv_data_nth [OF assms(2)] take_drop_prefix [OF small, of "mem (cr_data r)"] assms(1)
    by (simp add: csv_holds_def buf_contents_def len(2))
qed

section \<open>What the encoder writes\<close>

definition csv_quote :: "bytes \<Rightarrow> bytes" where
  "csv_quote s = concat (map (\<lambda>c. if c = CHR 0x22 then [CHR 0x22, CHR 0x22] else [c]) s)"

definition csv_special :: "byte \<Rightarrow> bool" where
  "csv_special c \<longleftrightarrow> c \<in> set [CHR 0x0d, CHR 0x0a, CHR 0x22, CHR '','']"

definition col_text :: "bytes option \<Rightarrow> bytes" where
  "col_text col = (case col of None \<Rightarrow> [] | Some s \<Rightarrow> s)"

definition csv_field :: "bytes \<Rightarrow> bytes" where
  "csv_field s = (if \<exists>c \<in> set s. csv_special c then CHR 0x22 # csv_quote s @ [CHR 0x22] else s)"

fun csv_line :: "bool \<Rightarrow> bytes list \<Rightarrow> bytes" where
  "csv_line first [] = []"
| "csv_line first (s # ss) = (if first then [] else '','') @ csv_field s @ csv_line False ss"

lemma escaped_loop_writes:
  "\<lbrakk>buf_wf ok b; \<not> refuses ok (length (buf_contents b) + length (csv_quote s))\<rbrakk>
    \<Longrightarrow> \<exists>b'. escaped_loop ok b s = Some (0, b') \<and> buf_wf ok b' \<and> buf_contents b' = buf_contents b @ csv_quote s"
proof (induction s arbitrary: b)
  case (Cons c s)
  let ?t = "if c = CHR 0x22 then [CHR 0x22, CHR 0x22] else [c]"
  have q: "csv_quote (c # s) = ?t @ csv_quote s" by (simp add: csv_quote_def)
  have "\<not> refuses ok (length (buf_contents b) + length ?t)"
    using Cons.prems(2) by (rule not_refuses_mono) (simp add: q)
  then obtain b' where b': "buf_adata ok b ?t = Some (0, b')" "buf_wf ok b'" "buf_contents b' = buf_contents b @ ?t"
    by (rule buf_adata_granted [OF Cons.prems(1), of ?t, rotated]) (cases "c = CHR 0x22", simp_all)
  have "\<not> refuses ok (length (buf_contents b') + length (csv_quote s))"
    using Cons.prems(2) by (rule not_refuses_mono) (simp add: b'(3) q)
  from Cons.IH [OF b'(2) this] show ?case
    using b' unfolding q by (cases "c = CHR 0x22") (auto simp: buf_achar_is_adata)
qed (simp add: csv_quote_def)

lemma csv_encode_escaped_writes:
  assumes "buf_wf ok b" "\<not> refuses ok (length (buf_contents b) + length (csv_quote s) + 2)"
  shows "\<exists>b'. csv_encode_escaped ok b s = Some (0, b') \<and> buf_wf ok b'
    \<and> buf_contents b' = buf_contents b @ CHR 0x22 # csv_quote s @ [CHR 0x22]"
proof -
  have "\<not> refuses ok (length (buf_contents b) + 1)" using assms(2) by (rule not_refuses_mono) simp
  then obtain b1 where b1: "buf_achar ok b (CHR 0x22) = Some (0, b1)" "buf_wf ok b1"
      "buf_contents b1 = buf_contents b @ [CHR 0x22]"
    using buf_achar_granted [OF assms(1)] by blast
  have "\<not> refuses ok (length (buf_contents b1) + length (csv_quote s))"
    using assms(2) by (rule not_refuses_mono) (simp add: b1)
  then obtain b2 where b2: "escaped_loop ok b1 s = Some (0, b2)" "buf_wf ok b2"
      "buf_contents b2 = buf_contents b1 @ csv_quote s"
    using escaped_loop_writes [OF b1(2)] by blast
  have "\<not> refuses ok (length (buf_contents b2) + 1)"
    using assms(2) by (rule not_refuses_mono) (simp add: b1 b2)
  then obtain b3 where "buf_achar ok b2 (CHR 0x22) = Some (0, b3)" "buf_wf ok b3"
      "buf_contents b3 = buf_contents b2 @ [CHR 0x22]"
    using buf_achar_granted [OF b2(2)] by blast
  then show ?thesis using b1 b2 by (simp add: csv_encode_escaped_def)
qed

lemma strcspn_special:
  assumes "NUL \<notin> set s"
  shows "cnth s (strcspn s [CHR 0x0d, CHR 0x0a, CHR 0x22, CHR '','']) = NUL \<longleftrightarrow> \<not> (\<exists>c \<in> set s. csv_special c)"
  using assms
proof (induction s)
  case (Cons c s)
  then show ?case by (cases "csv_special c") (auto simp: strcspn_def csv_special_def)
qed (simp add: strcspn_def)

lemma strcspn_plain: "\<not> (\<exists>c \<in> set s. csv_special c) \<Longrightarrow> strcspn s [CHR 0x0d, CHR 0x0a, CHR 0x22, CHR '',''] = length s"
  by (subst strcspn_def, subst takeWhile_eq_all_conv [THEN iffD2]) (auto simp: csv_special_def)

lemma csv_column_writes:
  assumes "buf_wf ok b" "\<not> refuses ok (length (buf_contents b) + length (csv_field (col_text col)))"
    and "NUL \<notin> set (col_text col)" "length (col_text col) < 2 ^ 62"
  shows "\<exists>b'. csv_column ok b col = Some (0, b') \<and> buf_wf ok b'
    \<and> buf_contents b' = buf_contents b @ csv_field (col_text col)"
proof (cases col)
  case None
  then show ?thesis using assms(1) by (simp add: csv_column_def col_text_def csv_field_def)
next
  case (Some s)
  then have t: "col_text col = s" by (simp add: col_text_def)
  have e: "cnth s 0 = NUL \<longleftrightarrow> s = []" using assms(3) t by (cases s) auto
  show ?thesis
  proof (cases "\<exists>c \<in> set s. csv_special c")
    case True
    then have "s \<noteq> []" by auto
    moreover obtain b' where "csv_encode_escaped ok b s = Some (0, b')" "buf_wf ok b'"
        "buf_contents b' = buf_contents b @ CHR 0x22 # csv_quote s @ [CHR 0x22]"
      using csv_encode_escaped_writes [OF assms(1), of s] assms(2) True t by (auto simp: csv_field_def)
    ultimately show ?thesis
      using True t Some strcspn_special [of s] assms(3) e by (simp add: csv_column_def Let_def csv_field_def)
  next
    case False
    obtain b' where "buf_adata ok b s = Some (0, b')" "buf_wf ok b'" "buf_contents b' = buf_contents b @ s"
      using buf_adata_granted [OF assms(1), of s] assms(2,4) False t by (auto simp: csv_field_def)
    then show ?thesis
      using False t Some strcspn_special [of s] strcspn_plain [of s] assms(1,3) e
      by (auto simp: csv_column_def Let_def csv_field_def)
  qed
qed

lemma encode_loop_writes:
  "\<lbrakk>buf_wf ok b; \<not> refuses ok (length (buf_contents b) + length (csv_line (i = 0) (map col_text cols)));
    \<forall>col \<in> set cols. NUL \<notin> set (col_text col) \<and> length (col_text col) < 2 ^ 62\<rbrakk>
    \<Longrightarrow> \<exists>b'. encode_loop ok i cols b = Some (0, b') \<and> buf_wf ok b'
      \<and> buf_contents b' = buf_contents b @ csv_line (i = 0) (map col_text cols)"
proof (induction cols arbitrary: i b)
  case (Cons col cols)
  let ?sep = "if i = 0 then [] else '',''"
  have line: "csv_line (i = 0) (map col_text (col # cols))
      = ?sep @ csv_field (col_text col) @ csv_line False (map col_text cols)" by simp
  have "\<not> refuses ok (length (buf_contents b) + length ?sep)"
    using Cons.prems(2) unfolding line by (rule not_refuses_mono) simp
  then obtain b1 where b1: "buf_adata ok b ?sep = Some (0, b1)" "buf_wf ok b1" "buf_contents b1 = buf_contents b @ ?sep"
    by (rule buf_adata_granted [OF Cons.prems(1), of ?sep, rotated]) (cases "i = 0", simp_all)
  have "\<not> refuses ok (length (buf_contents b1) + length (csv_field (col_text col)))"
    using Cons.prems(2) unfolding line by (rule not_refuses_mono) (simp add: b1)
  then obtain b2 where b2: "csv_column ok b1 col = Some (0, b2)" "buf_wf ok b2"
      "buf_contents b2 = buf_contents b1 @ csv_field (col_text col)"
    using csv_column_writes [OF b1(2), of col] Cons.prems(3) by auto
  have "\<not> refuses ok (length (buf_contents b2) + length (csv_line (i + 1 = 0) (map col_text cols)))"
    using Cons.prems(2) unfolding line by (rule not_refuses_mono) (simp add: b1 b2)
  from Cons.IH [OF b2(2) this] obtain b3 where b3: "encode_loop ok (i + 1) cols b2 = Some (0, b3)" "buf_wf ok b3"
      "buf_contents b3 = buf_contents b2 @ csv_line False (map col_text cols)"
    using Cons.prems(3) by auto
  have "(if i \<noteq> 0 then buf_achar ok b (CHR '','') else Some (0, b)) = Some (0, b1)"
    using b1(1) by (cases "i = 0") (simp_all add: buf_achar_is_adata buf_adata_def)
  then show ?case using b1(3) b2 b3 unfolding line by simp
qed simp

lemma csv_encode_writes:
  assumes "buf_wf ok b" "cols \<noteq> []"
    and "\<not> refuses ok (length (buf_contents b) + length (csv_line True (map col_text cols)) + 2)"
    and "\<forall>col \<in> set cols. NUL \<notin> set (col_text col) \<and> length (col_text col) < 2 ^ 62"
  shows "\<exists>b'. csv_encode ok b cols = Some (0, b') \<and> buf_wf ok b'
    \<and> buf_contents b' = buf_contents b @ csv_line True (map col_text cols) @ [CHR 0x0d, CHR 0x0a]"
proof -
  have "\<not> refuses ok (length (buf_contents b) + length (csv_line ((0::nat) = 0) (map col_text cols)))"
    using assms(3) by (rule not_refuses_mono) simp
  then obtain b1 where b1: "encode_loop ok 0 cols b = Some (0, b1)" "buf_wf ok b1"
      "buf_contents b1 = buf_contents b @ csv_line True (map col_text cols)"
    using encode_loop_writes [OF assms(1) _ assms(4), of 0] by auto
  have "\<not> refuses ok (length (buf_contents b1) + length [CHR 0x0d, CHR 0x0a])"
    using assms(3) by (rule not_refuses_mono) (simp add: b1)
  then obtain b2 where "buf_adata ok b1 [CHR 0x0d, CHR 0x0a] = Some (0, b2)" "buf_wf ok b2"
      "buf_contents b2 = buf_contents b1 @ [CHR 0x0d, CHR 0x0a]"
    by (rule buf_adata_granted [OF b1(2), rotated]) simp_all
  then show ?thesis using b1 assms(2) by (simp add: csv_encode_def)
qed

section \<open>Reading what was written\<close>

lemma escaped_text_quote:
  "escaped_text (csv_quote s @ CHR 0x22 # CHR '','' # t) = (s, True, t)"
  "escaped_text (csv_quote s @ CHR 0x22 # CHR 0x0d # t) = (s, False, skip_newline t)"
  by (induction s) (simp_all add: csv_quote_def)

lemma unescaped_text_plain:
  "\<not> (\<exists>c \<in> set s. csv_special c) \<Longrightarrow> unescaped_text (s @ CHR '','' # t) = (s, True, t)"
  "\<not> (\<exists>c \<in> set s. csv_special c) \<Longrightarrow> unescaped_text (s @ CHR 0x0d # t) = (s, False, skip_newline t)"
  by (induction s) (auto simp: csv_special_def)

lemma csv_fields_comma:
  "csv_fields ls (csv_field s @ CHR '','' # t) = (case csv_fields True t of (fs, r) \<Rightarrow> (s # fs, r))"
proof (cases "\<exists>c \<in> set s. csv_special c")
  case True
  then show ?thesis by (simp add: csv_field_def escaped_text_quote)
next
  case False
  then show ?thesis
  proof (cases s)
    case (Cons c s')
    then show ?thesis
      using False unescaped_text_plain(1) [OF False, of t]
      by (simp add: csv_field_def csv_special_def del: unescaped_text.simps)
  qed (simp add: csv_field_def)
qed

lemma csv_fields_newline:
  assumes "ls \<or> s \<noteq> []"
  shows "csv_fields ls (csv_field s @ CHR 0x0d # CHR 0x0a # t) = ([s], t)"
proof (cases "\<exists>c \<in> set s. csv_special c")
  case True
  then show ?thesis by (simp add: csv_field_def escaped_text_quote skip_newline_def)
next
  case False
  then show ?thesis
  proof (cases s)
    case (Cons c s')
    then show ?thesis
      using False unescaped_text_plain(2) [OF False, of "CHR 0x0a # t"]
      by (simp add: csv_field_def csv_special_def skip_newline_def del: unescaped_text.simps)
  qed (use assms in \<open>simp add: csv_field_def skip_newline_def\<close>)
qed

lemma csv_fields_line:
  "ss \<noteq> [] \<Longrightarrow> ls \<or> ss \<noteq> [[]] \<Longrightarrow> csv_fields ls (csv_line True ss @ CHR 0x0d # CHR 0x0a # t) = (ss, t)"
proof (induction ss arbitrary: ls)
  case (Cons s ss)
  show ?case
  proof (cases ss)
    case Nil
    then show ?thesis using Cons.prems csv_fields_newline [of ls s t] by simp
  next
    case (Cons s' ss')
    then have "csv_line False ss = CHR '','' # csv_line True ss" by simp
    then show ?thesis using Cons.IH [of True] Cons csv_fields_comma [of ls s] by simp
  qed
qed simp

text \<open>A row is read field by field.\<close>

lemma csv_row_read:
  assumes "buf_wf ok (cr_data r)" "buf_wf ok (cr_cols r)" "\<not> refuses ok (8 * (length inp + 1))"
    and "csv_fields False inp = (fs, rest)"
  shows "\<exists>r'. csv_read_row ok r inp err = Some (if err then -1 else 0, r', rest)
    \<and> csv_reader_nelems r' = length fs
    \<and> (\<forall>i < length fs. \<exists>off. csv_reader_elem r' i = Some off
         \<and> take (Suc (length (fs ! i))) (drop (unat off) (mem (cr_data r'))) = fs ! i @ [NUL])"
proof -
  let ?r = "\<lparr>cr_data = buf_clear (cr_data r), cr_cols = buf_clear (cr_cols r)\<rparr>"
  have "csv_holds ok ?r []"
    using assms(1,2) by (simp add: csv_holds_def buf_clear_wf csv_data_def csv_offs_def)
  then obtain r' where r': "row_loop ok False ?r inp = Some (r', rest)" "csv_holds ok r' fs"
    using row_loop_holds [of ok ?r "[]" "length inp + 1" inp False] assms(3,4) by (auto simp: csv_data_def)
  have "\<exists>off. csv_reader_elem r' i = Some off
      \<and> take (Suc (length (fs ! i))) (drop (unat off) (mem (cr_data r'))) = fs ! i @ [NUL]" if i: "i < length fs" for i
  proof -
    note e = csv_holds_elem [OF r'(2) i]
    have "length (csv_data (take i fs)) \<le> length (csv_data fs)"
      by (metis append_take_drop_id concat_append csv_data_def le_add1 length_append map_append)
    moreover have "length (csv_data fs) < 2 ^ 62"
      using r'(2) length_buf_len [of ok "cr_data r'"] by (simp add: csv_holds_def buf_wf_def word_le_nat_alt)
    ultimately have "unat (of_nat (length (csv_data (take i fs))) :: size_t) = length (csv_data (take i fs))"
      by (intro unat_of_nat_small) simp
    then show ?thesis using e by simp
  qed
  then show ?thesis using r'(1) csv_holds_lengths(3) [OF r'(2)] by (simp add: csv_read_row_def Let_def)
qed

section \<open>Properties\<close>

text \<open>
  Reading a row: while memory suffices, csv_read_row consumes exactly one row of the
  stream, and the elements of the reader are its fields, each a NUL-terminated string at the
  offset that csv_reader_elem returns.
\<close>
theorem csv_read_row_fields:
  assumes "buf_wf ok (cr_data r)" "buf_wf ok (cr_cols r)" "\<not> refuses ok (8 * (length inp + 1))"
    and "csv_fields False inp = (fs, rest)"
  shows "\<exists>r'. csv_read_row ok r inp err = Some (if err then -1 else 0, r', rest)
    \<and> csv_reader_nelems r' = length fs
    \<and> (\<forall>i < length fs. \<exists>off. csv_reader_elem r' i = Some off
         \<and> take (Suc (length (fs ! i))) (drop (unat off) (mem (cr_data r'))) = fs ! i @ [NUL])"
  by (rule csv_row_read [OF assms])

theorem csv_read_row_fields_witness:
  "\<exists>r'. csv_read_row tib_alloc \<lparr>cr_data = buf_zero, cr_cols = buf_zero\<rparr> ''a,,b'' False = Some (0, r', [])
    \<and> csv_reader_nelems r' = 3"
proof -
  have "csv_fields False ''a,,b'' = ([''a'', [], ''b''], [])" by simp
  from csv_read_row_fields [of tib_alloc "\<lparr>cr_data = buf_zero, cr_cols = buf_zero\<rparr>", OF _ _ _ this, of False]
  show ?thesis by auto
qed

lemma csv_line_length: "length (csv_line first ss) \<le> 3 * sum_list (map length ss) + 3 * length ss"
proof (induction first ss rule: csv_line.induct)
  case (2 first s ss)
  have "length (csv_quote s) \<le> 2 * length s" by (induction s) (simp_all add: csv_quote_def)
  then have "length (csv_field s) \<le> 2 * length s + 2" by (simp add: csv_field_def)
  then show ?case using 2 by simp
qed simp



end
