(* ===== verification/Idset.thy ===== *)
theory Idset
  imports Simulation Yans_Prelude
begin

unbundle bit_operations_syntax

text \<open>
  The set of small numbers that hands out the smallest unused one (\<^verbatim>\<open>lib/util/idset.c\<close>): a
  bitmap in which a set bit is an unused number. It is shown to refine a set of used numbers.
\<close>

section \<open>State and operations\<close>

text \<open>\<open>last_id\<close> is an \<open>int\<close> and keeps its value; the elements are the bits of \<open>unsigned int\<close>s.\<close>

record idset_ctx =
  is_flags :: u32
  is_last_id :: int
  is_nelems :: u32
  is_elems :: "u32 list"

definition IDSETF_FULL :: u32 where
  "IDSETF_FULL = 1"

text \<open>The macros compute with \<open>sizeof\<close>, in 64 bits.\<close>

definition BITS_IN_INT :: size_t where
  "BITS_IN_INT = 32"

definition CEIL_INTBITS :: "size_t \<Rightarrow> size_t" where
  "CEIL_INTBITS x = (x + BITS_IN_INT - 1) AND NOT (BITS_IN_INT - 1)"

definition FLOOR_INTBITS :: "size_t \<Rightarrow> size_t" where
  "FLOOR_INTBITS x = x AND NOT (BITS_IN_INT - 1)"

definition MOD_INTBITS :: "size_t \<Rightarrow> size_t" where
  "MOD_INTBITS x = x AND (BITS_IN_INT - 1)"

definition idset_new :: "allocator \<Rightarrow> u32 \<Rightarrow> idset_ctx option" where
  "idset_new ok nids =
    (let ceil_nids = (ucast (CEIL_INTBITS (ucast nids)) :: u32) in
     if nids = 0 \<or> nids > 0x7fffffff \<or> ceil_nids > 0x7fffffff then None
     else
       let nelems = (ucast (ucast ceil_nids div BITS_IN_INT) :: u32) in
       if \<not> ok (12 + 4 * ucast nelems) then None
       else Some \<lparr>is_flags = 0, is_last_id = int (unat nids) - 1, is_nelems = nelems,
                  is_elems = replicate (unat nelems) (- 1)\<rparr>)"

text \<open>\<open>ffs\<close>: one more than the index of the lowest set bit, 0 if there is none.\<close>

definition ffs :: "u32 \<Rightarrow> nat" where
  "ffs w = (case find (bit w) [0..<32] of None \<Rightarrow> 0 | Some b \<Rightarrow> b + 1)"

text \<open>The loop over the elements; the outer None is a read outside of them.\<close>

function use_loop :: "idset_ctx \<Rightarrow> nat \<Rightarrow> (int \<times> idset_ctx) option" where
  "use_loop ctx i =
    (if i < unat (is_nelems ctx) then
       if i < length (is_elems ctx) then
         let first_set = ffs (is_elems ctx ! i) in
         if first_set \<noteq> 0 then
           let b = first_set - 1;
               ctx = ctx\<lparr>is_elems := (is_elems ctx)[i := is_elems ctx ! i AND NOT (push_bit b 1)]\<rparr>;
               ident = sint (of_nat i * 32 + of_nat b :: u32) in
           if ident > is_last_id ctx then Some (-1, ctx\<lparr>is_flags := is_flags ctx OR IDSETF_FULL\<rparr>)
           else Some (ident, ctx)
         else use_loop ctx (Suc i)
       else None
     else Some (-1, ctx))"
  by pat_completeness auto
termination by (relation "measure (\<lambda>(ctx, i). unat (is_nelems ctx) - i)") auto

declare use_loop.simps [simp del]

definition idset_use_next :: "idset_ctx \<Rightarrow> (int \<times> idset_ctx) option" where
  "idset_use_next ctx =
    (if is_flags ctx AND IDSETF_FULL \<noteq> 0 then Some (-1, ctx) else use_loop ctx 0)"

definition idset_clear :: "idset_ctx \<Rightarrow> int \<Rightarrow> idset_ctx option" where
  "idset_clear ctx ident =
    (if ident < 0 \<or> ident > is_last_id ctx then Some ctx
     else
       let uid = of_int ident :: u32;
           elem = ucast (FLOOR_INTBITS (ucast uid) div BITS_IN_INT) :: u32;
           b = ucast (MOD_INTBITS (ucast uid)) :: u32 in
       if elem < is_nelems ctx then
         if unat elem < length (is_elems ctx) then
           Some (ctx\<lparr>is_elems := (is_elems ctx)[unat elem := is_elems ctx ! unat elem OR push_bit (unat b) 1],
                     is_flags := is_flags ctx AND NOT IDSETF_FULL\<rparr>)
         else None
       else Some ctx)"

section \<open>The set of used numbers\<close>

definition unused_bit :: "u32 list \<Rightarrow> nat \<Rightarrow> bool" where
  "unused_bit elems k \<longleftrightarrow> bit (elems ! (k div 32)) (k mod 32)"

definition idset_nids :: "idset_ctx \<Rightarrow> nat" where
  "idset_nids ctx = nat (is_last_id ctx + 1)"

definition idset_used :: "idset_ctx \<Rightarrow> nat set" where
  "idset_used ctx = {k. k < idset_nids ctx \<and> \<not> unused_bit (is_elems ctx) k}"

definition idset_wf :: "idset_ctx \<Rightarrow> bool" where
  "idset_wf ctx \<longleftrightarrow> 0 \<le> is_last_id ctx \<and> length (is_elems ctx) = unat (is_nelems ctx)
     \<and> idset_nids ctx \<le> 32 * unat (is_nelems ctx) \<and> 32 * unat (is_nelems ctx) < 2 ^ 31
     \<and> (is_flags ctx = 0 \<or> is_flags ctx = IDSETF_FULL \<and> idset_used ctx = {..<idset_nids ctx})"

lemma idset_wfD:
  assumes "idset_wf ctx"
  shows "0 \<le> is_last_id ctx" "length (is_elems ctx) = unat (is_nelems ctx)"
    and "idset_nids ctx \<le> 32 * unat (is_nelems ctx)" "32 * unat (is_nelems ctx) < 2 ^ 31"
    and "is_flags ctx = 0 \<or> is_flags ctx = IDSETF_FULL"
    and "is_flags ctx \<noteq> 0 \<Longrightarrow> idset_used ctx = {..<idset_nids ctx}"
  using assms unfolding idset_wf_def by blast+

lemma idset_wfI:
  assumes "0 \<le> is_last_id ctx" "length (is_elems ctx) = unat (is_nelems ctx)"
    and "idset_nids ctx \<le> 32 * unat (is_nelems ctx)" "32 * unat (is_nelems ctx) < 2 ^ 31"
    and "is_flags ctx = 0 \<or> is_flags ctx = IDSETF_FULL \<and> idset_used ctx = {..<idset_nids ctx}"
  shows "idset_wf ctx"
  using assms unfolding idset_wf_def by blast

lemma unused_bit_upd:
  assumes "i < length elems" "b < 32" "k < 32 * length elems"
  shows "unused_bit (elems[i := elems ! i AND NOT (push_bit b 1)]) k \<longleftrightarrow> unused_bit elems k \<and> k \<noteq> 32 * i + b"
    and "unused_bit (elems[i := elems ! i OR push_bit b 1]) k \<longleftrightarrow> unused_bit elems k \<or> k = 32 * i + b"
proof -
  have k: "k = 32 * i + b \<longleftrightarrow> k div 32 = i \<and> k mod 32 = b" using assms(2) by (auto simp: mult.commute)
  have "bit (push_bit b (1 :: u32)) j \<longleftrightarrow> j = b" for j
    using assms(2) by (simp only: bit_push_bit_iff bit_1_iff possible_bit_word) auto
  then have b: "bit (2 ^ b :: u32) j \<longleftrightarrow> j = b" for j by simp
  show "unused_bit (elems[i := elems ! i AND NOT (push_bit b 1)]) k \<longleftrightarrow> unused_bit elems k \<and> k \<noteq> 32 * i + b"
    and "unused_bit (elems[i := elems ! i OR push_bit b 1]) k \<longleftrightarrow> unused_bit elems k \<or> k = 32 * i + b"
    using assms(1,3) unfolding k unused_bit_def
    by (auto simp: bit_and_iff bit_or_iff bit_not_iff b nth_list_update)
qed

text \<open>The loop finds the lowest set bit of the whole bitmap.\<close>

lemma find_block:
  "find (unused_bit elems) [32 * i..<32 * i + 32] = map_option ((+) (32 * i)) (find (bit (elems ! i)) [0..<32])"
proof -
  have "map ((+) (32 * i)) [0..<32] = map (\<lambda>j. j + 32 * i) [0..<32]"
    by (rule map_cong) (simp_all add: add.commute)
  then have "[32 * i..<32 * i + 32] = map ((+) (32 * i)) [0..<32]"
    unfolding map_add_upt by (simp only: add.commute)
  moreover have "find (unused_bit elems) (map ((+) (32 * i)) xs) = map_option ((+) (32 * i)) (find (bit (elems ! i)) xs)"
    if "\<forall>x \<in> set xs. x < 32" for xs
    using that by (induction xs) (auto simp: unused_bit_def)
  ultimately show ?thesis by simp
qed

definition take_id :: "idset_ctx \<Rightarrow> nat \<Rightarrow> idset_ctx" where
  "take_id ctx k = ctx\<lparr>is_elems := (is_elems ctx)[k div 32 := is_elems ctx ! (k div 32) AND NOT (push_bit (k mod 32) 1)]\<rparr>"

lemma find_upt_split: "l \<le> m \<Longrightarrow> m \<le> n \<Longrightarrow> find P [l..<n] = (case find P [l..<m] of None \<Rightarrow> find P [m..<n] | Some k \<Rightarrow> Some k)"
proof -
  assume "l \<le> m" "m \<le> n"
  then have "[l..<n] = [l..<m] @ [m..<n]" by (metis le_add_diff_inverse upt_add_eq_append)
  moreover have "find P (xs @ ys) = (case find P xs of None \<Rightarrow> find P ys | Some k \<Rightarrow> Some k)" for xs ys :: "nat list"
    by (induction xs) auto
  ultimately show ?thesis by simp
qed

lemma use_loop_find:
  assumes "length (is_elems ctx) = unat (is_nelems ctx)" "32 * unat (is_nelems ctx) < 2 ^ 31"
  shows "i \<le> unat (is_nelems ctx) \<Longrightarrow> use_loop ctx i =
    Some (case find (unused_bit (is_elems ctx)) [32 * i..<32 * unat (is_nelems ctx)] of
        None \<Rightarrow> (-1, ctx)
      | Some k \<Rightarrow>
          if int k > is_last_id ctx then (-1, (take_id ctx k)\<lparr>is_flags := is_flags ctx OR IDSETF_FULL\<rparr>)
          else (int k, take_id ctx k))"
  using assms
proof (induction ctx i rule: use_loop.induct)
  case (1 ctx i)
  show ?case
  proof (cases "i < unat (is_nelems ctx)")
    case False
    then show ?thesis by (subst use_loop.simps) simp
  next
    case True
    let ?f = "find (bit (is_elems ctx ! i)) [0..<32]"
    have split: "find (unused_bit (is_elems ctx)) [32 * i..<32 * unat (is_nelems ctx)]
        = (case ?f of None \<Rightarrow> find (unused_bit (is_elems ctx)) [32 * Suc i..<32 * unat (is_nelems ctx)]
           | Some b \<Rightarrow> Some (32 * i + b))"
    proof -
      have "32 * Suc i = 32 * i + 32" by simp
      then show ?thesis
        using find_upt_split [of "32 * i" "32 * i + 32" "32 * unat (is_nelems ctx)" "unused_bit (is_elems ctx)"] True
        unfolding find_block by (cases ?f) (simp_all add: add.commute)
    qed
    show ?thesis
    proof (cases ?f)
      case None
      then have "use_loop ctx i = use_loop ctx (Suc i)"
        using True "1.prems"(2) by (subst use_loop.simps) (simp add: ffs_def)
      then show ?thesis using "1.IH" [OF True] True "1.prems" None split by (simp add: ffs_def)
    next
      case (Some b)
      then have b: "b < 32" by (auto simp: find_Some_iff)
      have "32 * i + b < 32 * unat (is_nelems ctx)" using True b by linarith
      then have small: "32 * i + b < 2 ^ 31" using "1.prems"(3) by linarith
      have "(of_nat i * 32 + of_nat b :: u32) = of_nat (32 * i + b)" by simp
      then have "unat (of_nat i * 32 + of_nat b :: u32) = 32 * i + b"
        using small by (simp only: unat_of_nat) simp
      then have "sint (of_nat i * 32 + of_nat b :: u32) = int (32 * i + b)"
        using sint_small small by metis
      then show ?thesis
        using True "1.prems"(2) b Some split by (subst use_loop.simps) (simp add: ffs_def take_id_def Let_def)
    qed
  qed
qed

section \<open>Each operation on the set\<close>

lemma find_upt_None: "find P [0..<n] = None \<longleftrightarrow> (\<forall>k < n. \<not> P k)"
  by (auto simp: find_None_iff)

lemma find_upt_Some: "find P [0..<n] = Some k \<Longrightarrow> k < n \<and> P k \<and> (\<forall>j < k. \<not> P j)"
  by (auto simp: find_Some_iff)

lemma nids_le: "idset_wf ctx \<Longrightarrow> int k \<le> is_last_id ctx \<longleftrightarrow> k < idset_nids ctx"
  using idset_wfD(1) [of ctx] by (simp add: idset_nids_def) linarith

lemma take_id_used:
  assumes "idset_wf ctx" "k < 32 * unat (is_nelems ctx)"
  shows "idset_used (take_id ctx k) = (if k < idset_nids ctx then insert k (idset_used ctx) else idset_used ctx)"
    and "idset_nids (take_id ctx k) = idset_nids ctx"
proof -
  have i: "k div 32 < length (is_elems ctx)" "k mod 32 < 32" "32 * (k div 32) + k mod 32 = k"
    using assms(2) idset_wfD(2) [OF assms(1)] by auto
  have "unused_bit (is_elems (take_id ctx k)) j \<longleftrightarrow> unused_bit (is_elems ctx) j \<and> j \<noteq> k" if "j < idset_nids ctx" for j
    using unused_bit_upd(1) [OF i(1,2), of j] that idset_wfD(2,3) [OF assms(1)] unfolding i(3)
    by (simp add: take_id_def)
  moreover show "idset_nids (take_id ctx k) = idset_nids ctx" by (simp add: take_id_def idset_nids_def)
  ultimately show "idset_used (take_id ctx k) = (if k < idset_nids ctx then insert k (idset_used ctx) else idset_used ctx)"
    by (auto simp: idset_used_def)
qed

lemma idset_use_next_set:
  assumes "idset_wf ctx"
  shows "\<exists>r ctx'. idset_use_next ctx = Some (r, ctx') \<and> idset_wf ctx' \<and> idset_nids ctx' = idset_nids ctx
    \<and> (r = -1 \<and> idset_used ctx = {..<idset_nids ctx} \<and> idset_used ctx' = idset_used ctx
       \<or> (\<exists>k. r = int k \<and> k < idset_nids ctx \<and> k \<notin> idset_used ctx \<and> {..<k} \<subseteq> idset_used ctx
           \<and> idset_used ctx' = insert k (idset_used ctx)))"
proof (cases "is_flags ctx AND IDSETF_FULL = 0")
  case False
  then have "is_flags ctx \<noteq> 0" by auto
  with idset_wfD(6) [OF assms] have "idset_used ctx = {..<idset_nids ctx}" by blast
  then show ?thesis using False assms by (simp add: idset_use_next_def)
next
  case True
  then have fl: "is_flags ctx = 0" using idset_wfD(5) [OF assms] by (auto simp: IDSETF_FULL_def)
  note len = idset_wfD(2,4) [OF assms] and le = idset_wfD(3) [OF assms]
  note loop = use_loop_find [OF len, of 0, simplified]
  show ?thesis
  proof (cases "find (unused_bit (is_elems ctx)) [0..<32 * unat (is_nelems ctx)]")
    case None
    then have "idset_used ctx = {..<idset_nids ctx}" using le by (auto simp: find_upt_None idset_used_def)
    then show ?thesis using loop None True assms by (simp add: idset_use_next_def)
  next
    case (Some k)
    note k = find_upt_Some [OF Some]
    have k1: "k < 32 * unat (is_nelems ctx)" using k by blast
    note used = take_id_used [OF assms k1]
    have wf: "idset_wf (take_id ctx k)"
      by (rule idset_wfI) (use idset_wfD(1-4) [OF assms] fl used(2) in \<open>simp_all add: take_id_def\<close>)
    show ?thesis
    proof (cases "k < idset_nids ctx")
      case True
      have "{..<k} \<subseteq> idset_used ctx" "k \<notin> idset_used ctx" using k True by (auto simp: idset_used_def)
      moreover have "idset_use_next ctx = Some (int k, take_id ctx k)"
        using loop Some fl nids_le [OF assms, of k] True by (simp add: idset_use_next_def)
      ultimately show ?thesis using wf used True by auto
    next
      case False
      let ?c = "(take_id ctx k)\<lparr>is_flags := IDSETF_FULL\<rparr>"
      have full: "idset_used ctx = {..<idset_nids ctx}" using k False by (auto simp: idset_used_def)
      have u: "idset_used ?c = idset_used ctx" "idset_nids ?c = idset_nids ctx"
        using used False by (simp_all add: idset_used_def idset_nids_def)
      moreover have "idset_wf ?c"
        by (rule idset_wfI) (use idset_wfD(1-4) [OF assms] full u in \<open>simp_all add: take_id_def\<close>)
      moreover have "idset_use_next ctx = Some (-1, ?c)"
        using loop Some fl nids_le [OF assms, of k] False by (simp add: idset_use_next_def)
      ultimately show ?thesis using full by blast
    qed
  qed
qed

lemma idset_clear_set:
  assumes "idset_wf ctx"
  shows "\<exists>ctx'. idset_clear ctx ident = Some ctx' \<and> idset_wf ctx' \<and> idset_nids ctx' = idset_nids ctx
    \<and> idset_used ctx' = {k \<in> idset_used ctx. int k \<noteq> ident}"
proof (cases "ident < 0 \<or> ident > is_last_id ctx")
  case True
  then have "{k \<in> idset_used ctx. int k \<noteq> ident} = idset_used ctx"
    using nids_le [OF assms] unfolding idset_used_def by (metis (mono_tags, lifting) Collect_cong linorder_not_less of_nat_less_0_iff mem_Collect_eq)
  then show ?thesis using True assms by (simp add: idset_clear_def)
next
  case False
  define k where "k = nat ident"
  have k: "ident = int k" "k < idset_nids ctx" using False nids_le [OF assms, of k] by (auto simp: k_def)
  have len: "length (is_elems ctx) = unat (is_nelems ctx)" "k < 32 * unat (is_nelems ctx)" "k < 2 ^ 31"
    using idset_wfD(2-4) [OF assms] k(2) by linarith+
  have "unat (of_int ident :: u32) = k" using len(3) by (simp add: k(1) unat_of_nat)
  then have uid: "unat (ucast (of_int ident :: u32) :: size_t) = k" by simp
  have m: "BITS_IN_INT - 1 = mask 5" by (simp add: BITS_IN_INT_def mask_eq_exp_minus_1)
  have "unat (FLOOR_INTBITS (ucast (of_int ident :: u32)) div BITS_IN_INT) = k div 32"
    unfolding FLOOR_INTBITS_def m unat_div unat_and_not_mask uid by (simp add: BITS_IN_INT_def minus_mod_eq_mult_div)
  then have e: "unat (ucast (FLOOR_INTBITS (ucast (of_int ident :: u32)) div BITS_IN_INT) :: u32) = k div 32"
    using len(3) by (simp add: unsigned_ucast_eq take_bit_nat_eq_self)
  have "unat (MOD_INTBITS (ucast (of_int ident :: u32))) = k mod 32"
    unfolding MOD_INTBITS_def m unat_and_mask uid by simp
  then have b: "unat (ucast (MOD_INTBITS (ucast (of_int ident :: u32))) :: u32) = k mod 32"
    by (simp add: unsigned_ucast_eq take_bit_nat_eq_self)
  let ?c = "ctx\<lparr>is_elems := (is_elems ctx)[k div 32 := is_elems ctx ! (k div 32) OR push_bit (k mod 32) 1], is_flags := 0\<rparr>"
  have fl: "is_flags ctx AND NOT IDSETF_FULL = 0" using idset_wfD(5) [OF assms] by auto
  have c: "idset_clear ctx ident = Some ?c"
    using False len e b fl by (simp add: idset_clear_def Let_def word_less_nat_alt)
  have i: "k div 32 < length (is_elems ctx)" "k mod 32 < 32" "32 * (k div 32) + k mod 32 = k" using len by auto
  have "unused_bit (is_elems ?c) j \<longleftrightarrow> unused_bit (is_elems ctx) j \<or> j = k" if "j < idset_nids ctx" for j
    using unused_bit_upd(2) [OF i(1,2), of j] that idset_wfD(2,3) [OF assms] unfolding i(3) by simp
  moreover have n: "idset_nids ?c = idset_nids ctx" by (simp add: idset_nids_def)
  ultimately have "idset_used ?c = {j \<in> idset_used ctx. int j \<noteq> ident}"
    unfolding idset_used_def n k(1) by auto
  moreover have "idset_wf ?c"
    by (rule idset_wfI) (use idset_wfD(1-4) [OF assms] n in simp_all)
  ultimately show ?thesis using c n by blast
qed

section \<open>Refinement\<close>

datatype idset_op = Use_next | Clear int

fun idset_step :: "idset_op \<Rightarrow> idset_ctx \<Rightarrow> (int \<times> idset_ctx) option" where
  "idset_step Use_next ctx = idset_use_next ctx"
| "idset_step (Clear ident) ctx = map_option (\<lambda>ctx. (0, ctx)) (idset_clear ctx ident)"

text \<open>The abstract value: how many numbers there are and which of them are used.\<close>

inductive idset_allows :: "idset_op \<Rightarrow> nat \<times> nat set \<Rightarrow> int \<Rightarrow> nat \<times> nat set \<Rightarrow> bool" where
  full: "idset_allows Use_next (n, {..<n}) (-1) (n, {..<n})"
| smallest: "k < n \<Longrightarrow> k \<notin> U \<Longrightarrow> {..<k} \<subseteq> U \<Longrightarrow> idset_allows Use_next (n, U) (int k) (n, insert k U)"
| clear: "idset_allows (Clear ident) (n, U) 0 (n, {k \<in> U. int k \<noteq> ident})"

interpretation idset: simulation idset_step "\<lambda>_. True" idset_wf "\<lambda>ctx. (idset_nids ctx, idset_used ctx)" idset_allows
proof unfold_locales
  fix ctx opn
  assume wf: "idset_wf ctx"
  show "\<exists>r c. idset_step opn ctx = Some (r, c) \<and> idset_wf c
      \<and> idset_allows opn (idset_nids ctx, idset_used ctx) r (idset_nids c, idset_used c)"
  proof (cases opn)
    case Use_next
    obtain r c where c: "idset_use_next ctx = Some (r, c)" "idset_wf c" "idset_nids c = idset_nids ctx"
      "r = -1 \<and> idset_used ctx = {..<idset_nids ctx} \<and> idset_used c = idset_used ctx
       \<or> (\<exists>k. r = int k \<and> k < idset_nids ctx \<and> k \<notin> idset_used ctx \<and> {..<k} \<subseteq> idset_used ctx
           \<and> idset_used c = insert k (idset_used ctx))"
      using idset_use_next_set [OF wf] by blast
    have "idset_allows Use_next (idset_nids ctx, idset_used ctx) r (idset_nids c, idset_used c)"
      using c(4) unfolding c(3) by (metis idset_allows.full idset_allows.smallest)
    then show ?thesis using c(1,2) Use_next by simp
  next
    case (Clear ident)
    obtain c where "idset_clear ctx ident = Some c" "idset_wf c" "idset_nids c = idset_nids ctx"
      "idset_used c = {k \<in> idset_used ctx. int k \<noteq> ident}"
      using idset_clear_set [OF wf] by blast
    then show ?thesis using Clear idset_allows.clear [of ident "idset_nids ctx" "idset_used ctx"] by auto
  qed
qed

lemma idset_new_wf:
  assumes "idset_new ok nids = Some ctx"
  shows "idset_wf ctx" "idset_nids ctx = unat nids" "idset_used ctx = {}"
proof -
  define n where "n = unat nids"
  have m: "BITS_IN_INT - 1 = mask 5" by (simp add: BITS_IN_INT_def mask_eq_exp_minus_1)
  have n: "0 < n" "n < 2 ^ 31"
    using assms by (auto simp: idset_new_def n_def Let_def word_less_nat_alt unat_gt_0 split: if_splits)
  have "unat (ucast nids + BITS_IN_INT - 1 :: size_t) = n + 31"
    unfolding add_diff_eq [symmetric] using n by (subst unat_add_small) (simp_all add: BITS_IN_INT_def n_def)
  then have "unat (CEIL_INTBITS (ucast nids)) = 32 * ((n + 31) div 32)"
    unfolding CEIL_INTBITS_def m unat_and_not_mask by (simp add: minus_mod_eq_mult_div)
  moreover have "32 * ((n + 31) div 32) \<le> n + 31" by simp
  then have "32 * ((n + 31) div 32) < 2 ^ 32" using n(2) by simp
  ultimately have c: "unat (ucast (CEIL_INTBITS (ucast nids)) :: u32) = 32 * ((n + 31) div 32)"
    by (simp add: unsigned_ucast_eq take_bit_nat_eq_self)
  have "unat (ucast (ucast (CEIL_INTBITS (ucast nids) :: size_t) :: u32) div BITS_IN_INT :: size_t) = (n + 31) div 32"
    unfolding unat_div unat_ucast_u32 c by (simp add: BITS_IN_INT_def)
  then have e: "unat (ucast (ucast (ucast (CEIL_INTBITS (ucast nids) :: size_t) :: u32) div BITS_IN_INT :: size_t) :: u32)
      = (n + 31) div 32"
    using n(2) by (simp add: unsigned_ucast_eq take_bit_nat_eq_self)
  have ctx: "is_flags ctx = 0" "is_last_id ctx = int n - 1" "unat (is_nelems ctx) = (n + 31) div 32"
      "is_elems ctx = replicate ((n + 31) div 32) (- 1)"
    using assms e by (auto simp: idset_new_def n_def Let_def split: if_splits)
  have "unat (ucast (CEIL_INTBITS (ucast nids)) :: u32) \<le> unat (0x7fffffff :: u32)"
    using assms by (auto simp: idset_new_def Let_def word_less_nat_alt split: if_splits)
  then have ceil: "32 * ((n + 31) div 32) < 2 ^ 31" unfolding c by simp
  show nids: "idset_nids ctx = unat nids" by (simp add: idset_nids_def ctx n_def)
  have "n \<le> 32 * ((n + 31) div 32)" by linarith
  then show "idset_wf ctx"
    using ceil n(1) nids unfolding n_def [symmetric] by (intro idset_wfI) (simp_all add: ctx)
  have "unused_bit (is_elems ctx) k" if "k < n" for k
  proof -
    have "k div 32 < (n + 31) div 32" using that by linarith
    then show ?thesis by (simp add: unused_bit_def ctx)
  qed
  then show "idset_used ctx = {}" by (auto simp: idset_used_def nids n_def)
qed

text \<open>
  C26. Refinement of a set of used numbers: on a new id set, every sequence of calls returns;
  idset_use_next answers the smallest number below nids that is not used and marks it as used,
  or -1 when all of them are; idset_clear makes a number available again and ignores numbers
  that are out of range.
\<close>
theorem idset_refines_least_unused:
  assumes "idset_new ok nids = Some ctx"
  shows "\<exists>rs ctx'. run_ops idset_step ops ctx = Some (rs, ctx') \<and> idset_wf ctx' \<and> idset_nids ctx' = unat nids
    \<and> allowed_run idset_allows ops (unat nids, {}) rs (unat nids, idset_used ctx')"
proof -
  note new = idset_new_wf [OF assms]
  obtain rs ctx' where r: "run_ops idset_step ops ctx = Some (rs, ctx')" "idset_wf ctx'"
    "allowed_run idset_allows ops (unat nids, {}) rs (idset_nids ctx', idset_used ctx')"
    using idset.run_simulates [OF new(1), of ops] unfolding new by auto
  have "n' = n" if "allowed_run idset_allows ops (n, U) rs (n', U')" for n n' U U' rs ops
    using that
  proof (induction ops arbitrary: U rs)
    case (Cons opn ops)
    then show ?case by (force elim: idset_allows.cases)
  qed simp
  then have "idset_nids ctx' = unat nids" using r(3) by blast
  then show ?thesis using r by auto
qed

theorem idset_refines_least_unused_witness:
  "\<exists>ctx rs ctx'. idset_new (\<lambda>_. True) 1 = Some ctx
    \<and> run_ops idset_step [Use_next, Use_next, Clear 0, Use_next] ctx = Some (rs, ctx')
    \<and> allowed_run idset_allows [Use_next, Use_next, Clear 0, Use_next] (1, {}) rs (1, idset_used ctx')"
proof -
  obtain ctx where "idset_new (\<lambda>_. True) 1 = Some ctx"
    by (simp add: idset_new_def CEIL_INTBITS_def BITS_IN_INT_def Let_def)
  with idset_refines_least_unused [OF this] show ?thesis by fastforce
qed

end
