(* ===== verification/Str.thy ===== *)
theory Str
  imports Yans_Prelude
begin

unbundle bit_operations_syntax

text \<open>
  Fields of a string: mapping a function over them (\<^verbatim>\<open>lib/util/str.c\<close>) and sets of named flags
  (\<^verbatim>\<open>lib/util/flagset.c\<close>, \<^verbatim>\<open>lib/util/flagset.h\<close>).
\<close>

section \<open>Mapping a function over the fields\<close>

text \<open>The index of a character in a set of characters; None is NULL.\<close>

fun in_set :: "bytes \<Rightarrow> byte \<Rightarrow> nat option" where
  "in_set [] ch = None"
| "in_set (c # s) ch = (if c = ch then Some 0 else map_option Suc (in_set s ch))"

text \<open>
  The loop at index \<open>i\<close> of \<open>s\<close>; \<open>is_sep\<close> is the test for a separator and \<open>n\<close> the number of
  characters. The function of the client gets a field and the data, which it may change.
\<close>

function map_loop :: "(bytes \<Rightarrow> 'd \<Rightarrow> int \<times> 'd) \<Rightarrow> (byte \<Rightarrow> bool) \<Rightarrow> bytes \<Rightarrow> nat \<Rightarrow> nat \<Rightarrow> nat \<Rightarrow> bool \<Rightarrow> 'd \<Rightarrow> int \<times> 'd" where
  "map_loop func is_sep s n i start in_str data =
    (if i < n then
       if is_sep (s ! i) then
         if in_str then
           let (ret, data) = func (take (i - start) (drop start s)) data in
           if ret \<le> 0 then (ret, data)
           else map_loop func is_sep s n (Suc i) start False data
         else map_loop func is_sep s n (Suc i) start in_str data
       else if \<not> in_str then map_loop func is_sep s n (Suc i) i True data
       else map_loop func is_sep s n (Suc i) start in_str data
     else if in_str \<and> start < i then func (take (i - start) (drop start s)) data
     else (0, data))"
  by pat_completeness auto
termination by (relation "measure (\<lambda>(func, is_sep, s, n, i, start, in_str, data). n - i)") auto

declare map_loop.simps [simp del]

definition str_map_field :: "bytes \<Rightarrow> bytes \<Rightarrow> (bytes \<Rightarrow> 'd \<Rightarrow> int \<times> 'd) \<Rightarrow> 'd \<Rightarrow> int \<times> 'd" where
  "str_map_field s seps func data = map_loop func (\<lambda>ch. in_set seps ch \<noteq> None) s (length s) 0 0 False data"

text \<open>For C strings the loop stops at the terminator, and \<open>strchr\<close> tests for a separator.\<close>

definition str_map_fieldz :: "bytes \<Rightarrow> bytes \<Rightarrow> (bytes \<Rightarrow> 'd \<Rightarrow> int \<times> 'd) \<Rightarrow> 'd \<Rightarrow> int \<times> 'd" where
  "str_map_fieldz s seps func data =
    map_loop func (\<lambda>ch. ch \<in> set (cstr seps)) s (length (cstr s)) 0 0 False data"

section \<open>Sets of flags\<close>

definition FLAGSET_MAXSZ :: nat where
  "FLAGSET_MAXSZ = 31"

definition FLAGSET_SEPS :: bytes where
  "FLAGSET_SEPS = [CHR 0x0d, CHR 0x0a, CHR 0x09, CHR '' '', CHR ''|'', CHR '','']"

record flagset_map =
  fm_name :: bytes
  fm_namelen :: nat
  fm_flag :: u32

definition FLAGSET_ENTRY :: "bytes \<Rightarrow> u32 \<Rightarrow> flagset_map" where
  "FLAGSET_ENTRY name flag = \<lparr>fm_name = name, fm_namelen = length name, fm_flag = flag\<rparr>"

record flagset_result =
  fr_flags :: u32
  fr_errmsg :: "bytes option"
  fr_erroff :: nat

text \<open>The map ends with an entry without a name, the end of the list.\<close>

fun find_flag :: "flagset_map list \<Rightarrow> nat \<Rightarrow> bytes \<Rightarrow> u32 option" where
  "find_flag [] len s = None"
| "find_flag (e # m) len s =
    (if len = fm_namelen e \<and> take len (fm_name e) = take len s then Some (fm_flag e) else find_flag m len s)"

text \<open>The loop at the offset \<open>off\<close> of a flag; None is a loop that does not end.\<close>

partial_function (option) flags_loop ::
  "flagset_map list \<Rightarrow> bytes \<Rightarrow> nat \<Rightarrow> u32 \<Rightarrow> flagset_result \<Rightarrow> (status \<times> flagset_result) option" where
  "flags_loop m s off res out =
    (if s = [] then Some (0, out\<lparr>fr_flags := res\<rparr>)
     else
       let len = strcspn s FLAGSET_SEPS in
       if len > FLAGSET_MAXSZ then Some (-1, out\<lparr>fr_errmsg := Some ''flag too long'', fr_erroff := off\<rparr>)
       else
         case find_flag m len s of
           None \<Rightarrow> Some (-1, out\<lparr>fr_errmsg := Some ''flag does not exist'', fr_erroff := off\<rparr>)
         | Some f \<Rightarrow>
             let s = drop len s; n = strspn s FLAGSET_SEPS in
             flags_loop m (drop n s) (off + len + n) (res OR f) out)"

text \<open>The string is a pointer to a C string, None being NULL.\<close>

definition flagset_from_str :: "flagset_map list \<Rightarrow> bytes option \<Rightarrow> (status \<times> flagset_result) option" where
  "flagset_from_str m s =
    (let out = \<lparr>fr_flags = 0, fr_errmsg = None, fr_erroff = 0\<rparr> in
     case s of
       None \<Rightarrow> Some (0, out)
     | Some s \<Rightarrow>
         let s = cstr s in
         if s = [] then Some (0, out)
         else let n = strspn s FLAGSET_SEPS in flags_loop m (drop n s) n 0 out)"

section \<open>The fields\<close>

function fields_of :: "(byte \<Rightarrow> bool) \<Rightarrow> bytes \<Rightarrow> bytes list" where
  "fields_of P [] = []"
| "fields_of P (c # s) =
    (if P c then fields_of P s
     else (c # takeWhile (\<lambda>c. \<not> P c) s) # fields_of P (dropWhile (\<lambda>c. \<not> P c) s))"
  by pat_completeness auto
termination
  by (relation "measure (\<lambda>(P, s). length s)") (auto simp: le_imp_less_Suc length_dropWhile_le)

text \<open>
  The function is called on the fields in order until it returns 0 or less. The result of the
  last call is the result if the string ends with a field, otherwise it is 0.
\<close>

fun map_fields :: "(bytes \<Rightarrow> 'd \<Rightarrow> int \<times> 'd) \<Rightarrow> bool \<Rightarrow> bytes list \<Rightarrow> 'd \<Rightarrow> int \<times> 'd" where
  "map_fields func open_end [] data = (0, data)"
| "map_fields func open_end (f # fs) data =
    (let (ret, data) = func f data in
     if ret \<le> 0 \<or> (fs = [] \<and> open_end) then (ret, data) else map_fields func open_end fs data)"

text \<open>The text ends inside a field.\<close>

definition open_end :: "(byte \<Rightarrow> bool) \<Rightarrow> bytes \<Rightarrow> bool" where
  "open_end P s \<longleftrightarrow> s \<noteq> [] \<and> \<not> P (last s)"

definition on_fields :: "(bytes \<Rightarrow> 'd \<Rightarrow> int \<times> 'd) \<Rightarrow> (byte \<Rightarrow> bool) \<Rightarrow> bytes \<Rightarrow> 'd \<Rightarrow> int \<times> 'd" where
  "on_fields func P s data = map_fields func (open_end P s) (fields_of P s) data"

lemma in_set_iff: "in_set s ch \<noteq> None \<longleftrightarrow> ch \<in> set s"
  by (induction s) auto

lemma fields_of_field:
  assumes "f \<noteq> []" "\<forall>c \<in> set f. \<not> P c"
  shows "fields_of P f = [f]" "P c \<Longrightarrow> fields_of P (f @ c # s) = f # fields_of P s"
proof -
  obtain d g where f: "f = d # g" "\<not> P d" "\<forall>c \<in> set g. \<not> P c" using assms by (cases f) auto
  then have "takeWhile (\<lambda>c. \<not> P c) g = g" "dropWhile (\<lambda>c. \<not> P c) g = []" by simp_all
  then show "fields_of P f = [f]" unfolding f(1) by (simp only: fields_of.simps f(2) if_False)
  assume "P c"
  then have "takeWhile (\<lambda>c. \<not> P c) (g @ c # s) = g" "dropWhile (\<lambda>c. \<not> P c) (g @ c # s) = c # s"
    using f(3) by (simp_all add: takeWhile_append2 dropWhile_append2)
  then show "fields_of P (f @ c # s) = f # fields_of P s"
    unfolding f(1) append_Cons by (simp only: fields_of.simps f(2) \<open>P c\<close> if_False if_True)
qed

lemma no_fields: "fields_of P s = [] \<Longrightarrow> \<not> open_end P s"
  by (induction P s rule: fields_of.induct) (auto simp: open_end_def split: if_splits)

lemma map_fields_end: "fs = [] \<or> e = e' \<Longrightarrow> map_fields func e fs data = map_fields func e' fs data"
  by auto

lemma on_fields_Nil: "on_fields func P [] data = (0, data)"
  by (simp add: on_fields_def)

lemma on_fields_sep: "P c \<Longrightarrow> on_fields func P (c # s) data = on_fields func P s data"
  unfolding on_fields_def by (simp, rule map_fields_end) (auto simp: open_end_def)

lemma on_fields_last: "\<lbrakk>f \<noteq> []; \<forall>c \<in> set f. \<not> P c\<rbrakk> \<Longrightarrow> on_fields func P f data = func f data"
  by (auto simp: on_fields_def fields_of_field open_end_def split: prod.splits)

lemma on_fields_field:
  assumes "f \<noteq> []" "\<forall>c \<in> set f. \<not> P c" "P c"
  shows "on_fields func P (f @ c # s) data =
    (let (ret, data) = func f data in if ret \<le> 0 then (ret, data) else on_fields func P s data)"
proof -
  have e: "open_end P (f @ c # s) \<longleftrightarrow> open_end P s" if "s \<noteq> []" using that by (simp add: open_end_def)
  have n: "\<not> open_end P (f @ [c])" using assms(3) by (simp add: open_end_def)
  show ?thesis
    unfolding on_fields_def fields_of_field(2) [OF assms]
    using e n no_fields [of P s] by (cases "s = []") (auto split: prod.splits)
qed

text \<open>The loop between two fields, and inside a field that began at \<open>start\<close>.\<close>

lemma map_loop_fields:
  assumes "n \<le> length s"
  shows "\<lbrakk>i \<le> n; in_str \<Longrightarrow> start < i \<and> (\<forall>c \<in> set (take (i - start) (drop start s)). \<not> P c)\<rbrakk>
    \<Longrightarrow> map_loop func P s n i start in_str data =
      on_fields func P ((if in_str then take (i - start) (drop start s) else []) @ drop i (take n s)) data"
  using assms
proof (induction func P s n i start in_str data rule: map_loop.induct)
  case (1 func P s n i start in_str data)
  show ?case
  proof (cases "i < n")
    case False
    then have "i = n" using "1.prems" by simp
    then show ?thesis
      using "1.prems" by (subst map_loop.simps) (auto simp: on_fields_Nil on_fields_last)
  next
    case True
    then have rest: "drop i (take n s) = s ! i # drop (Suc i) (take n s)"
      using "1.prems"(3) by (metis Cons_nth_drop_Suc length_take min.absorb2 nth_take)
    show ?thesis
    proof (cases in_str)
      case out: False
      show ?thesis
      proof (cases "P (s ! i)")
        case True
        then show ?thesis
          using "1.IH"(2) [OF \<open>i < n\<close> True out] "1.prems" \<open>i < n\<close> out rest
          by (subst map_loop.simps) (simp add: on_fields_sep)
      next
        case False
        then show ?thesis
          using "1.IH"(3) [OF \<open>i < n\<close> False] "1.prems" \<open>i < n\<close> out rest
          by (subst map_loop.simps) (simp add: take_Suc hd_drop_conv_nth)
      qed
    next
      case ins: True
      let ?f = "take (i - start) (drop start s)"
      have f: "?f \<noteq> []" "\<forall>c \<in> set ?f. \<not> P c" using "1.prems" True ins by auto
      show ?thesis
      proof (cases "P (s ! i)")
        case True
        then show ?thesis
          using "1.IH"(1) [OF \<open>i < n\<close> True ins] "1.prems" \<open>i < n\<close> ins rest on_fields_field [OF f True, of func "drop (Suc i) (take n s)" data]
          by (subst map_loop.simps) (auto split: prod.splits)
      next
        case False
        have "start < i" using "1.prems" ins by simp
        then have "i - start < length (drop start s)" using "1.prems"(3) \<open>i < n\<close> by simp
        from take_Suc_conv_app_nth [OF this]
        have "take (Suc i - start) (drop start s) = ?f @ [s ! i]"
          using \<open>start < i\<close> "1.prems"(3) \<open>i < n\<close> by (simp add: Suc_diff_le)
        then show ?thesis
          using "1.IH"(4) [OF \<open>i < n\<close> False] "1.prems" \<open>i < n\<close> ins rest f False
          by (subst map_loop.simps) simp
      qed
    qed
  qed
qed

section \<open>What the flags mean\<close>

text \<open>The flag of a name in the map.\<close>

fun flag_of :: "flagset_map list \<Rightarrow> bytes \<Rightarrow> u32 option" where
  "flag_of [] f = None"
| "flag_of (e # m) f = (if fm_name e = f then Some (fm_flag e) else flag_of m f)"

abbreviation flag_sep :: "byte \<Rightarrow> bool" where
  "flag_sep c \<equiv> c \<in> set FLAGSET_SEPS"

text \<open>A flag is known when it is not too long and the map has it.\<close>

definition known_flag :: "flagset_map list \<Rightarrow> bytes \<Rightarrow> bool" where
  "known_flag m f \<longleftrightarrow> length f \<le> FLAGSET_MAXSZ \<and> flag_of m f \<noteq> None"

definition flags_value :: "flagset_map list \<Rightarrow> bytes list \<Rightarrow> u32 \<Rightarrow> u32" where
  "flags_value m fs res = foldl (\<lambda>r f. r OR the (flag_of m f)) res fs"

lemma find_flag_of:
  "\<forall>e \<in> set m. fm_namelen e = length (fm_name e) \<Longrightarrow> len \<le> length s \<Longrightarrow> find_flag m len s = flag_of m (take len s)"
proof (induction m)
  case (Cons e m)
  have "len = fm_namelen e \<and> take len (fm_name e) = take len s \<longleftrightarrow> fm_name e = take len s"
    using Cons.prems by (metis length_take list.set_intros(1) min.absorb2 take_all_iff order_refl)
  then show ?case using Cons by simp
qed simp

text \<open>
  The text at a flag: the flag, the separators and the rest. The loop ends with the value of
  all the flags, or at the first one that is not known.
\<close>

lemma text_at_field:
  assumes "s \<noteq> []" "\<not> P (hd s)"
  obtains f sep u where "s = f @ sep @ u" "f = takeWhile (\<lambda>c. \<not> P c) s" "f \<noteq> []" "\<forall>c \<in> set f. \<not> P c"
    "sep = takeWhile P (drop (length f) s)" "\<forall>c \<in> set sep. P c"
    "u = [] \<or> sep \<noteq> [] \<and> \<not> P (hd u)" "fields_of P s = f # fields_of P u"
proof -
  define f where "f = takeWhile (\<lambda>c. \<not> P c) s"
  define t where "t = dropWhile (\<lambda>c. \<not> P c) s"
  have s: "s = f @ t" by (simp add: f_def t_def)
  have f: "f \<noteq> []" "\<forall>c \<in> set f. \<not> P c"
    using assms by (auto simp: f_def takeWhile_eq_Nil_iff dest: set_takeWhileD)
  have t: "t \<noteq> [] \<Longrightarrow> P (hd t)" using hd_dropWhile [of "\<lambda>c. \<not> P c" s] by (auto simp: t_def)
  have d: "fields_of P t = fields_of P (dropWhile P t)" by (induction t) auto
  have "fields_of P s = f # fields_of P (dropWhile P t)"
  proof (cases t)
    case Nil
    then show ?thesis using s fields_of_field(1) [OF f] by simp
  next
    case (Cons c t')
    then show ?thesis using s fields_of_field(2) [OF f, of c t'] t d by simp
  qed
  moreover have "dropWhile P t = [] \<or> takeWhile P t \<noteq> [] \<and> \<not> P (hd (dropWhile P t))"
    using t hd_dropWhile [of P t] by (cases t) auto
  moreover have "s = f @ takeWhile P t @ dropWhile P t" using s by simp
  moreover have "takeWhile P t = takeWhile P (drop (length f) s)" using s by simp
  moreover have "\<forall>c \<in> set (takeWhile P t). P c" by (meson set_takeWhileD)
  ultimately show ?thesis using that f f_def by blast
qed

lemma strspn_drop: "drop (strspn s seps) s = dropWhile (\<lambda>c. c \<in> set seps) s"
  by (simp add: strspn_def dropWhile_eq_drop)

lemma flags_loop_step:
  assumes "\<forall>e \<in> set m. fm_namelen e = length (fm_name e)"
    and "s = f @ sep @ u" "f = takeWhile (\<lambda>c. \<not> flag_sep c) s" "f \<noteq> []" "sep = takeWhile flag_sep (drop (length f) s)"
  shows "flags_loop m s off res out =
    (if \<not> length f \<le> FLAGSET_MAXSZ then Some (-1, out\<lparr>fr_errmsg := Some ''flag too long'', fr_erroff := off\<rparr>)
     else case flag_of m f of
         None \<Rightarrow> Some (-1, out\<lparr>fr_errmsg := Some ''flag does not exist'', fr_erroff := off\<rparr>)
       | Some v \<Rightarrow> flags_loop m u (off + length f + length sep) (res OR v) out)"
proof -
  have len: "strcspn s FLAGSET_SEPS = length f" by (simp add: strcspn_def flip: assms(3))
  have "length f \<le> length s" "take (length f) s = f" by (subst assms(2), simp)+
  then have find: "find_flag m (length f) s = flag_of m f" using find_flag_of [OF assms(1)] by metis
  have n: "strspn (drop (length f) s) FLAGSET_SEPS = length sep" by (simp add: strspn_def flip: assms(5))
  have u: "drop (length sep) (drop (length f) s) = u" by (subst assms(2)) simp
  have "s \<noteq> []" using assms(2,4) by auto
  then show ?thesis by (subst flags_loop.simps) (simp add: len find n u Let_def not_le del: drop_drop split: option.splits)
qed

lemma flags_loop_fields:
  assumes "\<forall>e \<in> set m. fm_namelen e = length (fm_name e)"
  shows "s = [] \<or> \<not> flag_sep (hd s)
    \<Longrightarrow> (\<forall>f \<in> set (fields_of flag_sep s). known_flag m f)
        \<and> flags_loop m s off res out = Some (0, out\<lparr>fr_flags := flags_value m (fields_of flag_sep s) res\<rparr>)
      \<or> (\<exists>pre f rest msg. s = pre @ f @ rest \<and> \<not> known_flag m f
          \<and> fields_of flag_sep s = fields_of flag_sep pre @ f # fields_of flag_sep rest
          \<and> (\<forall>g \<in> set (fields_of flag_sep pre). known_flag m g)
          \<and> flags_loop m s off res out = Some (-1, out\<lparr>fr_errmsg := Some msg, fr_erroff := off + length pre\<rparr>))"
proof (induction s arbitrary: off res rule: length_induct)
  case (1 s)
  show ?case
  proof (cases "s = []")
    case True
    then show ?thesis by (subst (1 2) flags_loop.simps) (simp add: flags_value_def)
  next
    case False
    then have hd: "\<not> flag_sep (hd s)" using "1.prems" by simp
    obtain f sep u where p: "s = f @ sep @ u" "f = takeWhile (\<lambda>c. \<not> flag_sep c) s" "f \<noteq> []" "\<forall>c \<in> set f. \<not> flag_sep c"
      "sep = takeWhile flag_sep (drop (length f) s)" "\<forall>c \<in> set sep. flag_sep c"
      "u = [] \<or> sep \<noteq> [] \<and> \<not> flag_sep (hd u)" "fields_of flag_sep s = f # fields_of flag_sep u"
      using text_at_field [of s flag_sep, OF False hd] by metis
    note step = flags_loop_step [OF assms p(1,2,3,5), of off res out]
    have sep: "fields_of flag_sep (sep @ v) = fields_of flag_sep v" for v
      using p(6) by (induction sep) auto
    show ?thesis
    proof (cases "known_flag m f")
      case False
      then obtain msg where "flags_loop m s off res out = Some (-1, out\<lparr>fr_errmsg := Some msg, fr_erroff := off\<rparr>)"
        unfolding step known_flag_def by (cases "length f \<le> FLAGSET_MAXSZ") auto
      then have "s = [] @ f @ sep @ u \<and> \<not> known_flag m f
          \<and> fields_of flag_sep s = fields_of flag_sep [] @ f # fields_of flag_sep (sep @ u)
          \<and> (\<forall>g \<in> set (fields_of flag_sep []). known_flag m g)
          \<and> flags_loop m s off res out = Some (-1, out\<lparr>fr_errmsg := Some msg, fr_erroff := off + length []\<rparr>)"
        using False p(1,8) sep by simp
      then show ?thesis by blast
    next
      case True
      then obtain v where v: "length f \<le> FLAGSET_MAXSZ" "flag_of m f = Some v" by (auto simp: known_flag_def)
      have eq: "flags_loop m s off res out = flags_loop m u (off + length f + length sep) (res OR v) out"
        using step v by simp
      have "length u < length s" using p(1,3) by (metis length_append length_greater_0_conv less_add_same_cancel2 add.assoc add_gr_0)
      have u0: "u = [] \<or> \<not> flag_sep (hd u)" using p(7) by blast
      have "(\<forall>f \<in> set (fields_of flag_sep u). known_flag m f)
          \<and> flags_loop m s off res out = Some (0, out\<lparr>fr_flags := flags_value m (fields_of flag_sep u) (res OR v)\<rparr>)
        \<or> (\<exists>pre g rest msg. u = pre @ g @ rest \<and> \<not> known_flag m g
          \<and> fields_of flag_sep u = fields_of flag_sep pre @ g # fields_of flag_sep rest
          \<and> (\<forall>g \<in> set (fields_of flag_sep pre). known_flag m g)
          \<and> flags_loop m s off res out
              = Some (-1, out\<lparr>fr_errmsg := Some msg, fr_erroff := off + length f + length sep + length pre\<rparr>))"
        unfolding eq by (rule "1.IH" [rule_format, OF \<open>length u < length s\<close> u0])
      then show ?thesis
      proof (elim disjE exE conjE)
        assume "\<forall>f \<in> set (fields_of flag_sep u). known_flag m f"
          "flags_loop m s off res out = Some (0, out\<lparr>fr_flags := flags_value m (fields_of flag_sep u) (res OR v)\<rparr>)"
        then show ?thesis using p(8) True v(2) by (simp add: flags_value_def)
      next
        fix pre g rest msg
        assume a: "u = pre @ g @ rest" "\<not> known_flag m g"
          "fields_of flag_sep u = fields_of flag_sep pre @ g # fields_of flag_sep rest"
          "\<forall>g \<in> set (fields_of flag_sep pre). known_flag m g"
          "flags_loop m s off res out
            = Some (-1, out\<lparr>fr_errmsg := Some msg, fr_erroff := off + length f + length sep + length pre\<rparr>)"
        have "fields_of flag_sep (f @ sep @ pre) = f # fields_of flag_sep pre"
        proof (cases sep)
          case Nil
          then have "u = []" using p(7) by blast
          then show ?thesis using Nil a(1) fields_of_field(1) [OF p(3,4)] by simp
        next
          case (Cons c sep')
          then show ?thesis
            using fields_of_field(2) [OF p(3,4), of c "sep' @ pre"] p(6) sep [of pre] by simp
        qed
        then have "s = (f @ sep @ pre) @ g @ rest \<and> \<not> known_flag m g
          \<and> fields_of flag_sep s = fields_of flag_sep (f @ sep @ pre) @ g # fields_of flag_sep rest
          \<and> (\<forall>g \<in> set (fields_of flag_sep (f @ sep @ pre)). known_flag m g)
          \<and> flags_loop m s off res out = Some (-1, out\<lparr>fr_errmsg := Some msg, fr_erroff := off + length (f @ sep @ pre)\<rparr>)"
          using a p(1,8) True by (simp add: add.assoc)
        then show ?thesis by blast
      qed
    qed
  qed
qed

section \<open>Properties\<close>


text \<open>
  flagset_from_str always returns. It succeeds with the union of the flags if every field
  of the string is a known flag, and otherwise returns -1 with the offset of the first field
  that is too long or not in the map, and no flags.
\<close>
theorem flagset_from_str_correct:
  assumes "\<forall>e \<in> set m. fm_namelen e = length (fm_name e)" "NUL \<notin> set s"
  shows "(\<forall>f \<in> set (fields_of flag_sep s). known_flag m f)
      \<and> flagset_from_str m (Some s)
          = Some (0, \<lparr>fr_flags = flags_value m (fields_of flag_sep s) 0, fr_errmsg = None, fr_erroff = 0\<rparr>)
    \<or> (\<exists>pre f rest msg. s = pre @ f @ rest \<and> \<not> known_flag m f
        \<and> fields_of flag_sep s = fields_of flag_sep pre @ f # fields_of flag_sep rest
        \<and> (\<forall>g \<in> set (fields_of flag_sep pre). known_flag m g)
        \<and> flagset_from_str m (Some s) = Some (-1, \<lparr>fr_flags = 0, fr_errmsg = Some msg, fr_erroff = length pre\<rparr>))"
proof (cases "s = []")
  case True
  then show ?thesis by (simp add: flagset_from_str_def cstr_def flags_value_def)
next
  case False
  define sep where "sep = takeWhile flag_sep s"
  define u where "u = dropWhile flag_sep s"
  have s: "s = sep @ u" by (simp add: sep_def u_def)
  have sep: "fields_of flag_sep (sep @ v) = fields_of flag_sep v" for v
    unfolding sep_def by (induction s) auto
  have u: "u = [] \<or> \<not> flag_sep (hd u)" using hd_dropWhile [of flag_sep s] by (auto simp: u_def)
  have eq: "flagset_from_str m (Some s)
      = flags_loop m u (length sep) 0 \<lparr>fr_flags = 0, fr_errmsg = None, fr_erroff = 0\<rparr>"
    using False cstr_id [OF assms(2)]
    by (simp add: flagset_from_str_def Let_def strspn_def dropWhile_eq_drop sep_def u_def)
  from flags_loop_fields [OF assms(1) u, of "length sep" 0 "\<lparr>fr_flags = 0, fr_errmsg = None, fr_erroff = 0\<rparr>"]
  show ?thesis
  proof (elim disjE exE conjE)
    assume "\<forall>f \<in> set (fields_of flag_sep u). known_flag m f"
      "flags_loop m u (length sep) 0 \<lparr>fr_flags = 0, fr_errmsg = None, fr_erroff = 0\<rparr> = Some (0, \<lparr>fr_flags = 0,
        fr_errmsg = None, fr_erroff = 0\<rparr>\<lparr>fr_flags := flags_value m (fields_of flag_sep u) 0\<rparr>)"
    then show ?thesis unfolding eq using s sep [of u] by simp
  next
    fix pre f rest msg
    assume a: "u = pre @ f @ rest" "\<not> known_flag m f"
      "fields_of flag_sep u = fields_of flag_sep pre @ f # fields_of flag_sep rest"
      "\<forall>g \<in> set (fields_of flag_sep pre). known_flag m g"
      "flags_loop m u (length sep) 0 \<lparr>fr_flags = 0, fr_errmsg = None, fr_erroff = 0\<rparr> = Some (-1, \<lparr>fr_flags = 0,
        fr_errmsg = None, fr_erroff = 0\<rparr>\<lparr>fr_errmsg := Some msg, fr_erroff := length sep + length pre\<rparr>)"
    have "s = (sep @ pre) @ f @ rest \<and> \<not> known_flag m f
        \<and> fields_of flag_sep s = fields_of flag_sep (sep @ pre) @ f # fields_of flag_sep rest
        \<and> (\<forall>g \<in> set (fields_of flag_sep (sep @ pre)). known_flag m g)
        \<and> flagset_from_str m (Some s) = Some (-1, \<lparr>fr_flags = 0, fr_errmsg = Some msg, fr_erroff = length (sep @ pre)\<rparr>)"
      unfolding eq using a s sep [of u] sep [of pre] by simp
    then show ?thesis by blast
  qed
qed

theorem flagset_from_str_correct_witness:
  "flagset_from_str [FLAGSET_ENTRY ''ro'' 1, FLAGSET_ENTRY ''rw'' 2] (Some ''rw, ro'')
    = Some (0, \<lparr>fr_flags = 3, fr_errmsg = None, fr_erroff = 0\<rparr>)"
proof -
  let ?m = "[FLAGSET_ENTRY ''ro'' 1, FLAGSET_ENTRY ''rw'' 2]"
  have f: "fields_of flag_sep ''rw, ro'' = [''rw'', ''ro'']" by (simp add: FLAGSET_SEPS_def)
  have "known_flag ?m ''rw''" "known_flag ?m ''ro''" "flags_value ?m [''rw'', ''ro''] 0 = 3"
    by (simp_all add: known_flag_def FLAGSET_ENTRY_def FLAGSET_MAXSZ_def flags_value_def)
  then show ?thesis
    using flagset_from_str_correct [of ?m "''rw, ro''"] unfolding f
    by (auto simp: FLAGSET_ENTRY_def Cons_eq_append_conv)
qed

end
