(* ===== verification/Lines.thy ===== *)
theory Lines
  imports Yans_Prelude
begin

text \<open>
  Reading a file by lines (\<^verbatim>\<open>lib/util/lines.c\<close>, \<^verbatim>\<open>lib/util/lines.h\<close>): chunks of the file are read into
  a buffer and the lines of a chunk are handed out one by one. Sizes are natural numbers, the
  buffer has a fixed size and no sum of them overflows. None is an access outside the buffer.
\<close>

section \<open>State\<close>

definition LINES_CONTINUE :: status where "LINES_CONTINUE = 1"
definition LINES_OK :: status where "LINES_OK = 0"
definition LINES_ENOMEM :: status where "LINES_ENOMEM = -1"
definition LINES_EREAD :: status where "LINES_EREAD = -2"

definition LINES_CHUNKSIZE :: nat where "LINES_CHUNKSIZE = 1024 * 512"

text \<open>
  A stream: the bytes that are left, whether an error comes after them, and the indicators for
  the end of the file and for an error. \<open>fread\<close> of \<open>n\<close> bytes sets one of them when there are
  fewer than \<open>n\<close>.
\<close>

record stream =
  st_rest :: bytes
  st_fails :: bool
  st_eof :: bool
  st_error :: bool

definition fread :: "stream \<Rightarrow> nat \<Rightarrow> bytes \<times> stream" where
  "fread fp n =
    (take n (st_rest fp),
     if length (st_rest fp) < n
     then fp\<lparr>st_rest := [], st_eof := st_eof fp \<or> \<not> st_fails fp, st_error := st_error fp \<or> st_fails fp\<rparr>
     else fp\<lparr>st_rest := drop n (st_rest fp)\<rparr>)"

record lines_ctx =
  lc_fp :: "stream option"
  lc_cap :: nat
  lc_len :: nat
  lc_end :: nat
  lc_lineoff :: nat
  lc_data :: bytes

section \<open>Operations\<close>

text \<open>\<open>fresh\<close> are the bytes of the new block. On failure the stream is closed.\<close>

definition lines_init :: "allocator \<Rightarrow> bytes \<Rightarrow> stream \<Rightarrow> status \<times> lines_ctx option" where
  "lines_init ok fresh fp =
    (if ok (of_nat (LINES_CHUNKSIZE + 1)) then
       (LINES_OK, Some \<lparr>lc_fp = Some fp, lc_cap = LINES_CHUNKSIZE, lc_len = 0, lc_end = 0, lc_lineoff = 0,
         lc_data = fresh\<rparr>)
     else (LINES_ENOMEM, None))"

definition lines_cleanup :: "lines_ctx \<Rightarrow> lines_ctx" where
  "lines_cleanup ctx = \<lparr>lc_fp = None, lc_cap = 0, lc_len = 0, lc_end = 0, lc_lineoff = 0, lc_data = []\<rparr>"

text \<open>A store of bytes at an offset of the block.\<close>

definition store_at :: "nat \<Rightarrow> bytes \<Rightarrow> bytes \<Rightarrow> bytes option" where
  "store_at off xs d =
    (if off + length xs \<le> length d then Some (take off d @ xs @ drop (off + length xs) d) else None)"

text \<open>The loop that looks for the last newline, downwards from \<open>i\<close> and stopping at 0.\<close>

fun last_newline :: "bytes \<Rightarrow> nat \<Rightarrow> nat" where
  "last_newline d i = (if i > 0 \<and> d ! i \<noteq> CHR 0x0a then last_newline d (i - 1) else i)"

declare last_newline.simps [simp del]

definition lines_next_chunk :: "lines_ctx \<Rightarrow> (status \<times> lines_ctx) option" where
  "lines_next_chunk ctx =
    (case lc_fp ctx of
      None \<Rightarrow> None
    | Some fp \<Rightarrow>
        if st_eof fp then Some (LINES_OK, ctx)
        else
          let part = (if lc_end ctx < lc_len ctx
                      then take (lc_len ctx - (lc_end ctx + 1)) (drop (lc_end ctx + 1) (lc_data ctx)) else []) in
          case store_at 0 (part @ [NUL]) (lc_data ctx) of
            None \<Rightarrow> None
          | Some d \<Rightarrow>
              let ctx = ctx\<lparr>lc_data := d, lc_len := length part\<rparr>;
                  (got, fp) = fread fp (lc_cap ctx - lc_len ctx) in
              if got = [] then
                Some (if st_error fp then LINES_EREAD else LINES_OK,
                      ctx\<lparr>lc_fp := Some fp\<rparr>)
              else
                case store_at (lc_len ctx) (got @ [NUL]) (lc_data ctx) of
                  None \<Rightarrow> None
                | Some d \<Rightarrow>
                    let len = lc_len ctx + length got;
                        i = last_newline d (len - 1) in
                    Some (LINES_CONTINUE, ctx\<lparr>lc_fp := Some fp, lc_data := d, lc_len := len,
                      lc_end := (if i = 0 then len else i), lc_lineoff := 0\<rparr>))"

text \<open>The index of the first newline from \<open>i\<close> on, at most \<open>e\<close>.\<close>

function next_newline :: "bytes \<Rightarrow> nat \<Rightarrow> nat \<Rightarrow> nat" where
  "next_newline d e i = (if i < e \<and> d ! i \<noteq> CHR 0x0a then next_newline d e (Suc i) else i)"
  by pat_completeness auto
termination by (relation "measure (\<lambda>(d, e, i). e - i)") auto

declare next_newline.simps [simp del]

text \<open>The line is returned as its bytes.\<close>

definition lines_next :: "lines_ctx \<Rightarrow> (status \<times> bytes option \<times> lines_ctx) option" where
  "lines_next ctx =
    (if lc_lineoff ctx \<ge> lc_end ctx then Some (LINES_OK, None, ctx)
     else
       let i = next_newline (lc_data ctx) (lc_end ctx) (lc_lineoff ctx) in
       case store_at i [NUL] (lc_data ctx) of
         None \<Rightarrow> None
       | Some d \<Rightarrow>
           Some (LINES_CONTINUE, Some (take (i - lc_lineoff ctx) (drop (lc_lineoff ctx) d)),
             ctx\<lparr>lc_data := d, lc_lineoff := i + 1\<rparr>))"

definition lines_strerror :: "status \<Rightarrow> bytes" where
  "lines_strerror err =
    (if err = LINES_CONTINUE then ''continue''
     else if err = LINES_OK then ''ok''
     else if err = LINES_ENOMEM then ''no memory''
     else if err = LINES_EREAD then ''read error''
     else ''unknown error'')"

section \<open>Reading a whole file\<close>

text \<open>
  The way the clients use it: the lines of a chunk until there are no more, then the next
  chunk. Both loops are bounded by a number of steps; None is a loop that takes more.
\<close>

fun chunk_lines :: "nat \<Rightarrow> lines_ctx \<Rightarrow> (bytes list \<times> lines_ctx) option" where
  "chunk_lines 0 ctx = None"
| "chunk_lines (Suc n) ctx =
    (case lines_next ctx of
      None \<Rightarrow> None
    | Some (st, line, ctx) \<Rightarrow>
        if st = LINES_CONTINUE
        then map_option (\<lambda>(ls, ctx). (the line # ls, ctx)) (chunk_lines n ctx)
        else Some ([], ctx))"

fun file_lines :: "nat \<Rightarrow> lines_ctx \<Rightarrow> (status \<times> bytes list) option" where
  "file_lines 0 ctx = None"
| "file_lines (Suc n) ctx =
    (case lines_next_chunk ctx of
      None \<Rightarrow> None
    | Some (st, ctx) \<Rightarrow>
        if st = LINES_CONTINUE
        then
          (case chunk_lines (Suc (lc_len ctx)) ctx of
            None \<Rightarrow> None
          | Some (ls, ctx) \<Rightarrow> map_option (\<lambda>(st, ls'). (st, ls @ ls')) (file_lines n ctx))
        else Some (st, []))"

section \<open>The lines of a chunk\<close>

text \<open>The lines of a text whose last line has no newline at its end; an empty one there is no line.\<close>

abbreviation not_nl :: "byte \<Rightarrow> bool" where
  "not_nl c \<equiv> c \<noteq> CHR 0x0a"

function lines_of :: "bytes \<Rightarrow> bytes list" where
  "lines_of [] = []"
| "lines_of (c # s) = takeWhile not_nl (c # s) # lines_of (drop 1 (dropWhile not_nl (c # s)))"
  by pat_completeness auto
termination
  by (relation "measure length") (auto simp: length_dropWhile_le less_Suc_eq_le intro: le_trans [OF diff_le_self])

declare lines_of.simps(2) [simp del]

lemma lines_of_unfold: "t \<noteq> [] \<Longrightarrow> lines_of t = takeWhile not_nl t # lines_of (drop (Suc (length (takeWhile not_nl t))) t)"
proof -
  assume "t \<noteq> []"
  moreover have "drop 1 (dropWhile not_nl t) = drop (Suc (length (takeWhile not_nl t))) t"
    by (simp add: dropWhile_eq_drop)
  ultimately show ?thesis by (cases t) (blast, simp only: lines_of.simps(2))
qed

lemma next_newline_eq:
  "\<lbrakk>i \<le> e; e \<le> length d\<rbrakk> \<Longrightarrow> next_newline d e i = i + length (takeWhile not_nl (take (e - i) (drop i d)))"
proof (induction d e i rule: next_newline.induct)
  case (1 d e i)
  show ?case
  proof (cases "i < e")
    case True
    then have "take (e - i) (drop i d) = d ! i # take (e - Suc i) (drop (Suc i) d)"
      using "1.prems"(2) by (simp add: Cons_nth_drop_Suc [symmetric] Suc_diff_Suc [symmetric])
    then show ?thesis using 1 True by (subst next_newline.simps) auto
  next
    case False
    then show ?thesis using "1.prems" by (subst next_newline.simps) simp
  qed
qed

lemma store_at_nth: "i < length d \<Longrightarrow> store_at i [c] d = Some (d[i := c])"
  by (simp add: store_at_def upd_conv_take_nth_drop)

lemma lines_next_line:
  assumes "lc_lineoff ctx < lc_end ctx" "lc_end ctx < length (lc_data ctx)"
    and "t = take (lc_end ctx - lc_lineoff ctx) (drop (lc_lineoff ctx) (lc_data ctx))"
  shows "\<exists>d'. lines_next ctx = Some (LINES_CONTINUE, Some (takeWhile not_nl t),
        ctx\<lparr>lc_data := d', lc_lineoff := lc_lineoff ctx + length (takeWhile not_nl t) + 1\<rparr>)
      \<and> length d' = length (lc_data ctx) \<and> drop (lc_end ctx + 1) d' = drop (lc_end ctx + 1) (lc_data ctx)
      \<and> (\<forall>j. drop (lc_lineoff ctx + length (takeWhile not_nl t) + 1 + j) d'
           = drop (lc_lineoff ctx + length (takeWhile not_nl t) + 1 + j) (lc_data ctx))"
proof -
  define k where "k = length (takeWhile not_nl t)"
  define i where "i = lc_lineoff ctx + k"
  have "length t = lc_end ctx - lc_lineoff ctx" using assms by simp
  then have k: "k \<le> lc_end ctx - lc_lineoff ctx" unfolding k_def by (metis length_takeWhile_le)
  have i: "next_newline (lc_data ctx) (lc_end ctx) (lc_lineoff ctx) = i" "i \<le> lc_end ctx"
    using assms k by (simp_all add: next_newline_eq i_def k_def)
  let ?d = "(lc_data ctx)[i := NUL]"
  have "take (i - lc_lineoff ctx) (drop (lc_lineoff ctx) ?d) = take k t"
    using k assms by (simp add: i_def drop_update_swap take_update_swap min_def list_update_beyond)
  moreover have "take k t = takeWhile not_nl t" unfolding k_def by (rule takeWhile_eq_take [symmetric])
  ultimately have "lines_next ctx = Some (LINES_CONTINUE, Some (takeWhile not_nl t),
      ctx\<lparr>lc_data := ?d, lc_lineoff := i + 1\<rparr>)"
    using assms(1,2) i by (simp add: lines_next_def Let_def store_at_nth)
  moreover have "drop (i + 1 + j) ?d = drop (i + 1 + j) (lc_data ctx)" for j by simp
  moreover have "drop (lc_end ctx + 1) ?d = drop (lc_end ctx + 1) (lc_data ctx)" using i(2) by simp
  ultimately show ?thesis unfolding i_def k_def by (intro exI [of _ ?d]) (simp add: i_def k_def)
qed

lemma chunk_lines_eq:
  "\<lbrakk>lc_end ctx - lc_lineoff ctx < n; lc_end ctx < length (lc_data ctx)\<rbrakk>
    \<Longrightarrow> \<exists>ctx'. chunk_lines n ctx
          = Some (lines_of (take (lc_end ctx - lc_lineoff ctx) (drop (lc_lineoff ctx) (lc_data ctx))), ctx')
      \<and> lc_fp ctx' = lc_fp ctx \<and> lc_cap ctx' = lc_cap ctx \<and> lc_len ctx' = lc_len ctx \<and> lc_end ctx' = lc_end ctx
      \<and> length (lc_data ctx') = length (lc_data ctx)
      \<and> drop (lc_end ctx + 1) (lc_data ctx') = drop (lc_end ctx + 1) (lc_data ctx)"
proof (induction n arbitrary: ctx)
  case (Suc n)
  show ?case
  proof (cases "lc_lineoff ctx < lc_end ctx")
    case False
    then show ?thesis by (simp add: lines_next_def LINES_OK_def LINES_CONTINUE_def)
  next
    case True
    define t where "t = take (lc_end ctx - lc_lineoff ctx) (drop (lc_lineoff ctx) (lc_data ctx))"
    define k where "k = length (takeWhile not_nl t)"
    have len: "length t = lc_end ctx - lc_lineoff ctx" using Suc.prems(2) by (simp add: t_def)
    obtain d' where d': "lines_next ctx = Some (LINES_CONTINUE, Some (takeWhile not_nl t),
          ctx\<lparr>lc_data := d', lc_lineoff := lc_lineoff ctx + k + 1\<rparr>)"
        "length d' = length (lc_data ctx)" "drop (lc_end ctx + 1) d' = drop (lc_end ctx + 1) (lc_data ctx)"
        "\<And>j. drop (lc_lineoff ctx + k + 1 + j) d' = drop (lc_lineoff ctx + k + 1 + j) (lc_data ctx)"
      using lines_next_line [OF True Suc.prems(2) t_def] unfolding k_def by blast
    let ?c = "ctx\<lparr>lc_data := d', lc_lineoff := lc_lineoff ctx + k + 1\<rparr>"
    have tx: "take (lc_end ?c - lc_lineoff ?c) (drop (lc_lineoff ?c) (lc_data ?c)) = drop (Suc k) t"
      using d'(4) [of 0] by (simp add: t_def drop_take add.commute add.left_commute)
    have "lc_end ?c - lc_lineoff ?c < n" "lc_end ?c < length (lc_data ?c)" using Suc.prems True d'(2) by auto
    from Suc.IH [OF this] obtain c' where c': "chunk_lines n ?c = Some (lines_of (drop (Suc k) t), c')"
        "lc_fp c' = lc_fp ctx" "lc_cap c' = lc_cap ctx" "lc_len c' = lc_len ctx" "lc_end c' = lc_end ctx"
        "length (lc_data c') = length (lc_data ctx)" "drop (lc_end ctx + 1) (lc_data c') = drop (lc_end ctx + 1) (lc_data ctx)"
      unfolding tx using d'(2,3) by auto
    have "t \<noteq> []" using len True by auto
    then have "lines_of t = takeWhile not_nl t # lines_of (drop (Suc k) t)"
      unfolding k_def by (rule lines_of_unfold)
    then show ?thesis using d'(1) c' unfolding t_def [symmetric] by simp
  qed
qed simp

section \<open>Chunks of a text of lines\<close>

definition unlines :: "bytes list \<Rightarrow> bytes" where
  "unlines L = concat (map (\<lambda>l. l @ [CHR 0x0a]) L)"

lemma unlines_simps [simp]: "unlines [] = []" "unlines (l # L) = l @ CHR 0x0a # unlines L" "unlines (L @ M) = unlines L @ unlines M"
  by (simp_all add: unlines_def)

definition good_line :: "bytes \<Rightarrow> bool" where
  "good_line l \<longleftrightarrow> l \<noteq> [] \<and> CHR 0x0a \<notin> set l"

lemma takeWhile_line: "CHR 0x0a \<notin> set l \<Longrightarrow> takeWhile not_nl (l @ CHR 0x0a # s) = l"
  "CHR 0x0a \<notin> set l \<Longrightarrow> takeWhile not_nl l = l"
  by (induction l) auto

lemma unlines_split:
  "\<lbrakk>\<forall>l \<in> set L. good_line l; e < length (unlines L); unlines L ! e = CHR 0x0a\<rbrakk>
    \<Longrightarrow> \<exists>L1 L2. L = L1 @ L2 \<and> L1 \<noteq> [] \<and> unlines L1 = take (Suc e) (unlines L) \<and> lines_of (take e (unlines L)) = L1"
proof (induction L arbitrary: e)
  case (Cons l L)
  have l: "l \<noteq> []" "CHR 0x0a \<notin> set l" using Cons.prems(1) by (auto simp: good_line_def)
  have ge: "length l \<le> e"
    using Cons.prems(3) l(2) by (auto simp: nth_append not_less [symmetric] split: if_splits dest: nth_mem)
  show ?case
  proof (cases "e = length l")
    case True
    have "lines_of l = [l]" using lines_of_unfold [OF l(1)] takeWhile_line(2) [OF l(2)] by simp
    then show ?thesis using True by (intro exI [of _ "[l]"] exI [of _ L]) simp
  next
    case False
    define f where "f = e - Suc (length l)"
    have e: "e = length l + Suc f" using ge False by (simp add: f_def)
    have "f < length (unlines L)" "unlines L ! f = CHR 0x0a"
      using Cons.prems(2,3) e by (simp_all add: nth_append)
    moreover have "\<forall>l \<in> set L. good_line l" using Cons.prems(1) by simp
    ultimately obtain L1 L2 where L: "L = L1 @ L2" "L1 \<noteq> []" "unlines L1 = take (Suc f) (unlines L)"
        "lines_of (take f (unlines L)) = L1" using Cons.IH by blast
    have t: "take e (unlines (l # L)) = l @ CHR 0x0a # take f (unlines L)" using e by simp
    have "drop (Suc (length l)) (l @ CHR 0x0a # take f (unlines L)) = take f (unlines L)" by simp
    then have "lines_of (l @ CHR 0x0a # take f (unlines L)) = l # L1"
      using lines_of_unfold [of "l @ CHR 0x0a # take f (unlines L)"] takeWhile_line(1) [OF l(2)] L(4)
      by (metis append_is_Nil_conv list.discI)
    then have "lines_of (take e (unlines (l # L))) = l # L1" by (simp only: t)
    moreover have "unlines (l # L1) = take (Suc e) (unlines (l # L))" using L(3) e by simp
    moreover have "l # L = (l # L1) @ L2" using L(1) by simp
    ultimately show ?thesis by blast
  qed
qed simp

lemma last_newline_eq:
  "\<lbrakk>0 < j; j \<le> n; d ! j = CHR 0x0a; \<And>m. j < m \<Longrightarrow> m \<le> n \<Longrightarrow> d ! m \<noteq> CHR 0x0a\<rbrakk> \<Longrightarrow> last_newline d n = j"
proof (induction n)
  case (Suc n)
  then show ?case by (cases "j = Suc n") (subst last_newline.simps, simp)+
qed simp

text \<open>The part of the buffer that was not handed out.\<close>

definition left_over :: "lines_ctx \<Rightarrow> bytes" where
  "left_over ctx = (if lc_end ctx < lc_len ctx
     then take (lc_len ctx - (lc_end ctx + 1)) (drop (lc_end ctx + 1) (lc_data ctx)) else [])"

definition lines_inv :: "lines_ctx \<Rightarrow> stream \<Rightarrow> bool" where
  "lines_inv ctx fp \<longleftrightarrow> lc_fp ctx = Some fp \<and> \<not> st_fails fp \<and> \<not> st_error fp \<and> (st_eof fp \<longrightarrow> st_rest fp = [])
     \<and> length (lc_data ctx) = Suc (lc_cap ctx) \<and> lc_len ctx \<le> lc_cap ctx \<and> CHR 0x0a \<notin> set (left_over ctx)"

lemma store_at_0: "length xs \<le> length d \<Longrightarrow> store_at 0 xs d = Some (xs @ drop (length xs) d)"
  by (simp add: store_at_def)

lemma next_chunk_fills:
  assumes "lines_inv ctx fp" "st_rest fp \<noteq> []" "U = left_over ctx @ st_rest fp" "length (left_over ctx) < lc_cap ctx"
    and "B = take (lc_cap ctx) U"
  shows "\<exists>d. lines_next_chunk ctx = Some (LINES_CONTINUE, ctx\<lparr>lc_fp := Some (fp\<lparr>st_rest := drop (lc_cap ctx) U,
          st_eof := length U < lc_cap ctx\<rparr>), lc_data := d, lc_len := length B,
          lc_end := (let i = last_newline d (length B - 1) in if i = 0 then length B else i), lc_lineoff := 0\<rparr>)
      \<and> length d = Suc (lc_cap ctx) \<and> take (length B) d = B"
proof -
  let ?p = "left_over ctx" and ?c = "lc_cap ctx"
  let ?got = "take (?c - length ?p) (st_rest fp)"
  have inv: "lc_fp ctx = Some fp" "\<not> st_fails fp" "\<not> st_error fp" "\<not> st_eof fp" "length (lc_data ctx) = Suc ?c"
    using assms(1,2) by (auto simp: lines_inv_def)
  have B: "B = ?p @ ?got" "length B \<le> ?c" using assms(4) by (simp_all add: assms(3,5))
  define d1 where "d1 = (?p @ [NUL]) @ drop (length (?p @ [NUL])) (lc_data ctx)"
  have d1: "store_at 0 (?p @ [NUL]) (lc_data ctx) = Some d1" "length d1 = Suc ?c" "take (length ?p) d1 = ?p"
    unfolding d1_def using assms(4) inv(5) by (simp_all add: store_at_0)
  define d2 where "d2 = take (length ?p) d1 @ (?got @ [NUL]) @ drop (length ?p + length (?got @ [NUL])) d1"
  have "length ?p + length (?got @ [NUL]) \<le> length d1" using d1(2) assms(4) by simp
  then have d2: "store_at (length ?p) (?got @ [NUL]) d1 = Some d2" "length d2 = Suc ?c"
    unfolding d2_def using d1(2) by (simp_all add: store_at_def)
  have "d2 = B @ NUL # drop (length ?p + length (?got @ [NUL])) d1" unfolding d2_def d1(3) B(1) by simp
  then have d3: "take (length B) d2 = B" by simp
  have got: "?got \<noteq> []" using assms(2,4) by simp
  have fr: "fread fp (?c - length ?p) = (?got, fp\<lparr>st_rest := drop ?c U, st_eof := length U < ?c\<rparr>)"
    using inv assms(3,4) by (auto simp: fread_def)
  have "lines_next_chunk ctx = Some (LINES_CONTINUE, ctx\<lparr>lc_fp := Some (fp\<lparr>st_rest := drop ?c U,
          st_eof := length U < ?c\<rparr>), lc_data := d2, lc_len := length B,
          lc_end := (let i = last_newline d2 (length B - 1) in if i = 0 then length B else i), lc_lineoff := 0\<rparr>)"
    unfolding lines_next_chunk_def left_over_def [symmetric]
    using inv d1(1) d2(1) got fr B by (simp add: Let_def)
  then show ?thesis using d2 d3 by blast
qed

lemma left_over_small: "lines_inv ctx fp \<Longrightarrow> 0 < lc_cap ctx \<Longrightarrow> length (left_over ctx) < lc_cap ctx"
  by (auto simp: lines_inv_def left_over_def)

lemma prefix_newline:
  assumes "u @ v = x @ c # y" "c \<notin> set v"
  shows "\<exists>z. u = x @ c # z \<and> z @ v = y"
proof -
  from assms(1) obtain us where "u = x @ us \<and> us @ v = c # y \<or> u @ us = x \<and> v = us @ c # y"
    unfolding append_eq_append_conv2 by blast
  then show ?thesis using assms(2) by (auto simp: append_eq_Cons_conv)
qed

text \<open>One chunk: the complete lines at its beginning are handed out, the rest stays.\<close>

lemma chunk_step:
  assumes inv: "lines_inv ctx fp" and U: "left_over ctx @ st_rest fp = unlines L @ tail" "L \<noteq> []"
    and tail: "CHR 0x0a \<notin> set tail"
    and good: "\<forall>l \<in> set L. good_line l \<and> length l < lc_cap ctx"
  obtains L1 L2 c1 c2 fp' where "lines_next_chunk ctx = Some (LINES_CONTINUE, c1)"
    "chunk_lines (Suc (lc_len c1)) c1 = Some (L1, c2)" "L = L1 @ L2" "L1 \<noteq> []"
    "lines_inv c2 fp'" "left_over c2 @ st_rest fp' = unlines L2 @ tail" "lc_cap c2 = lc_cap ctx"
    "st_eof fp' \<longleftrightarrow> length (unlines L @ tail) < lc_cap ctx"
proof -
  obtain l0 L0 where L: "L = l0 # L0" using U(2) by (cases L) auto
  have l0: "l0 \<noteq> []" "CHR 0x0a \<notin> set l0" "length l0 < lc_cap ctx" using good L by (auto simp: good_line_def)
  have "CHR 0x0a \<in> set (left_over ctx @ st_rest fp)" using U(1) L by simp
  then have rest: "st_rest fp \<noteq> []" using inv by (auto simp: lines_inv_def)
  define U where "U = left_over ctx @ st_rest fp"
  define B where "B = take (lc_cap ctx) U"
  have Ul: "U = l0 @ CHR 0x0a # unlines L0 @ tail" using U(1) L by (simp add: U_def)
  have "CHR 0x0a \<in> set B" using Ul l0(3) by (simp add: B_def take_Cons')
  then obtain X Y where XY: "B = X @ CHR 0x0a # Y" "CHR 0x0a \<notin> set Y" by (metis split_list_last)
  have "X \<noteq> []"
  proof
    assume "X = []"
    then have "hd B = CHR 0x0a" using XY(1) by simp
    moreover have "hd B = hd l0" using Ul l0(1,3) by (simp add: B_def)
    ultimately show False using l0(1,2) by (metis list.set_sel(1))
  qed
  obtain d where d: "lines_next_chunk ctx = Some (LINES_CONTINUE, ctx\<lparr>lc_fp := Some (fp\<lparr>st_rest := drop (lc_cap ctx) U,
          st_eof := length U < lc_cap ctx\<rparr>), lc_data := d, lc_len := length B,
          lc_end := (let i = last_newline d (length B - 1) in if i = 0 then length B else i), lc_lineoff := 0\<rparr>)"
      "length d = Suc (lc_cap ctx)" "take (length B) d = B"
    using next_chunk_fills [OF inv rest U_def _ B_def] left_over_small [OF inv] l0(3) by auto
  have nth: "d ! m = B ! m" if "m < length B" for m using that d(3) by (metis nth_take)
  have j: "last_newline d (length B - 1) = length X"
  proof (rule last_newline_eq)
    show "d ! length X = CHR 0x0a" using nth [of "length X"] XY(1) by simp
    show "d ! m \<noteq> CHR 0x0a" if "length X < m" "m \<le> length B - 1" for m
    proof -
      have "m < length B" using that XY(1) by simp
      then have "B ! m \<in> set Y" using that(1) XY(1) by (simp add: nth_append nth_Cons' )
      then show ?thesis using XY(2) nth [OF \<open>m < length B\<close>] by auto
    qed
  qed (use \<open>X \<noteq> []\<close> XY(1) in auto)
  define fp' where "fp' = fp\<lparr>st_rest := drop (lc_cap ctx) U, st_eof := length U < lc_cap ctx\<rparr>"
  define c1 where "c1 = ctx\<lparr>lc_fp := Some fp', lc_data := d, lc_len := length B, lc_end := length X, lc_lineoff := 0\<rparr>"
  have c1: "lines_next_chunk ctx = Some (LINES_CONTINUE, c1)"
    using d(1) j \<open>X \<noteq> []\<close> by (simp add: c1_def fp'_def Let_def)
  have le: "length B \<le> lc_cap ctx" by (simp add: B_def)
  have "take (length X) d = take (length X) (take (length B) d)" using XY(1) by simp
  then have "take (length X) d = X" unfolding d(3) using XY(1) by simp
  moreover have "lc_end c1 - lc_lineoff c1 < Suc (lc_len c1)" "lc_end c1 < length (lc_data c1)"
    using XY(1) d(2) le by (simp_all add: c1_def)
  ultimately obtain c2 where c2: "chunk_lines (Suc (lc_len c1)) c1 = Some (lines_of X, c2)" "lc_fp c2 = Some fp'"
      "lc_cap c2 = lc_cap ctx" "lc_len c2 = length B" "lc_end c2 = length X" "length (lc_data c2) = Suc (lc_cap ctx)"
      "drop (length X + 1) (lc_data c2) = drop (length X + 1) d"
    using chunk_lines_eq [of c1 "Suc (lc_len c1)"] d(2) by (auto simp: c1_def)
  have UX: "U = X @ CHR 0x0a # Y @ drop (lc_cap ctx) U"
    using XY(1) by (metis B_def append.assoc append_Cons append_take_drop_id)
  have "unlines L @ tail = X @ CHR 0x0a # Y @ drop (lc_cap ctx) U" using UX U(1) U_def by metis
  from prefix_newline [OF this tail]
  obtain Z where UZ: "unlines L = X @ CHR 0x0a # Z" "Z @ tail = Y @ drop (lc_cap ctx) U" by blast
  have X: "length X < length (unlines L)" "unlines L ! length X = CHR 0x0a" "take (length X) (unlines L) = X"
    unfolding UZ(1) by simp_all
  have "\<forall>l \<in> set L. good_line l" using good by blast
  from unlines_split [OF this X(1,2)] obtain L1 L2 where L12: "L = L1 @ L2" "L1 \<noteq> []" "unlines L1 = take (Suc (length X)) (unlines L)" "lines_of X = L1"
    unfolding X(3) by blast
  have "left_over c2 = take (length Y) (drop (length X + 1) d)"
    using c2 XY(1) by (simp add: left_over_def)
  also have "\<dots> = drop (length X + 1) (take (length B) d)" using XY(1) by (simp add: drop_take)
  also have "\<dots> = drop (length X + 1) B" by (simp only: d(3))
  finally have lo: "left_over c2 = Y" using XY(1) by simp
  have "unlines L = unlines L1 @ unlines L2" using L12(1) by simp
  moreover have "unlines L1 = X @ [CHR 0x0a]" using L12(3) unfolding UZ(1) by simp
  ultimately have "Z = unlines L2" using UZ(1) by simp
  then have "left_over c2 @ st_rest fp' = unlines L2 @ tail" using UZ(2) by (simp add: lo fp'_def)
  moreover have "lines_inv c2 fp'"
    using inv c2 le lo XY(2) by (auto simp: lines_inv_def fp'_def)
  moreover have "st_eof fp' \<longleftrightarrow> length (unlines L @ tail) < lc_cap ctx"
    using U(1) by (simp add: fp'_def U_def)
  ultimately show ?thesis using that c1 c2(1,3) L12(1,2,4) by blast
qed

lemma no_more_chunks:
  assumes "lines_inv ctx fp" "left_over ctx = []" "st_rest fp = []"
  shows "\<exists>ctx'. lines_next_chunk ctx = Some (LINES_OK, ctx')"
proof (cases "st_eof fp")
  case True
  then show ?thesis using assms(1) by (simp add: lines_next_chunk_def lines_inv_def)
next
  case False
  have "store_at 0 ([] @ [NUL]) (lc_data ctx) \<noteq> None"
    using assms(1) by (auto simp: store_at_def lines_inv_def)
  then show ?thesis
    using assms False unfolding lines_next_chunk_def left_over_def [symmetric]
    by (auto simp: fread_def lines_inv_def Let_def split: option.splits)
qed

lemma file_lines_complete:
  "\<lbrakk>lines_inv ctx fp; left_over ctx @ st_rest fp = unlines L; \<forall>l \<in> set L. good_line l \<and> length l < lc_cap ctx;
    length L < n\<rbrakk> \<Longrightarrow> file_lines n ctx = Some (LINES_OK, L)"
proof (induction n arbitrary: ctx fp L)
  case (Suc n)
  show ?case
  proof (cases "L = []")
    case True
    then obtain ctx' where "lines_next_chunk ctx = Some (LINES_OK, ctx')"
      using no_more_chunks [OF Suc.prems(1)] Suc.prems(2) by auto
    then show ?thesis using True by (simp add: LINES_OK_def LINES_CONTINUE_def)
  next
    case False
    obtain L1 L2 c1 c2 fp' where c: "lines_next_chunk ctx = Some (LINES_CONTINUE, c1)"
        "chunk_lines (Suc (lc_len c1)) c1 = Some (L1, c2)" "L = L1 @ L2" "L1 \<noteq> []"
        "lines_inv c2 fp'" "left_over c2 @ st_rest fp' = unlines L2" "lc_cap c2 = lc_cap ctx"
      using chunk_step [of ctx fp L "[]", OF Suc.prems(1) _ False _ Suc.prems(3)] Suc.prems(2)
      unfolding append_Nil2 by (metis empty_iff list.set(1))
    have "length L = length L1 + length L2" "0 < length L1" using c(3,4) by simp_all
    then have "length L2 < n" using Suc.prems(4) by linarith
    moreover have "\<forall>l \<in> set L2. good_line l \<and> length l < lc_cap c2" using Suc.prems(3) c(3,7) by simp
    ultimately have "file_lines n c2 = Some (LINES_OK, L2)" using Suc.IH [OF c(5,6)] by blast
    then show ?thesis using c(1,2,3) by simp
  qed
qed simp

section \<open>Properties\<close>



text \<open>
  The last line is lost when it has no newline at its end: of a file that fits into the
  buffer, whose lines are followed by a text without a newline, only the lines are read, and
  the end is reported as the normal one.
\<close>
theorem lines_last_line_lost:
  assumes "lines_init ok fresh fp = (LINES_OK, Some ctx)" "length fresh = LINES_CHUNKSIZE + 1"
    and "fp = \<lparr>st_rest = unlines L @ tail, st_fails = False, st_eof = False, st_error = False\<rparr>"
    and "L \<noteq> []" "\<forall>l \<in> set L. good_line l" "CHR 0x0a \<notin> set tail" "length (unlines L @ tail) < LINES_CHUNKSIZE"
  shows "file_lines (Suc (Suc n)) ctx = Some (LINES_OK, L)"
proof -
  have ctx: "ctx = \<lparr>lc_fp = Some fp, lc_cap = LINES_CHUNKSIZE, lc_len = 0, lc_end = 0, lc_lineoff = 0, lc_data = fresh\<rparr>"
    using assms(1) by (auto simp: lines_init_def LINES_OK_def LINES_ENOMEM_def split: if_splits)
  have inv: "lines_inv ctx fp" and lo: "left_over ctx @ st_rest fp = unlines L @ tail"
    using assms(2,3) ctx by (simp_all add: lines_inv_def left_over_def)
  have "length l < lc_cap ctx" if "l \<in> set L" for l
  proof -
    from split_list [OF that] obtain A B where "L = A @ l # B" by blast
    then show ?thesis using assms(7) ctx by simp
  qed
  then have good: "\<forall>l \<in> set L. good_line l \<and> length l < lc_cap ctx" using assms(5) by blast
  obtain L1 L2 c1 c2 fp' where c: "lines_next_chunk ctx = Some (LINES_CONTINUE, c1)"
      "chunk_lines (Suc (lc_len c1)) c1 = Some (L1, c2)" "L = L1 @ L2" "L1 \<noteq> []"
      "lines_inv c2 fp'" "left_over c2 @ st_rest fp' = unlines L2 @ tail" "lc_cap c2 = lc_cap ctx"
      "st_eof fp' \<longleftrightarrow> length (unlines L @ tail) < lc_cap ctx"
    by (rule chunk_step [OF inv lo assms(4,6) good])
  have eof: "st_eof fp'" using c(8) assms(7) ctx by simp
  then have "st_rest fp' = []" "CHR 0x0a \<notin> set (left_over c2)" using c(5) by (simp_all add: lines_inv_def)
  then have "CHR 0x0a \<notin> set (unlines L2)" using arg_cong [OF c(6), of set] by auto
  then have "L2 = []" by (cases L2) auto
  then have "L1 = L" using c(3) by simp
  moreover have "lines_next_chunk c2 = Some (LINES_OK, c2)"
    using eof c(5) by (simp add: lines_next_chunk_def lines_inv_def)
  ultimately show ?thesis using c(1,2) by (simp add: LINES_OK_def LINES_CONTINUE_def del: chunk_lines.simps)
qed

theorem lines_last_line_lost_witness:
  "\<exists>ctx. lines_init (\<lambda>_. True) (replicate (LINES_CHUNKSIZE + 1) NUL)
      \<lparr>st_rest = unlines [''ab''] @ ''c'', st_fails = False, st_eof = False, st_error = False\<rparr> = (LINES_OK, Some ctx)
    \<and> file_lines 2 ctx = Some (LINES_OK, [''ab''])"
proof -
  let ?fp = "\<lparr>st_rest = unlines [''ab''] @ ''c'', st_fails = False, st_eof = False, st_error = False\<rparr>"
  obtain ctx where c: "lines_init (\<lambda>_. True) (replicate (LINES_CHUNKSIZE + 1) NUL) ?fp = (LINES_OK, Some ctx)"
    by (simp add: lines_init_def)
  have "file_lines (Suc (Suc 0)) ctx = Some (LINES_OK, [''ab''])"
    by (rule lines_last_line_lost [OF c length_replicate refl]) (simp_all add: good_line_def LINES_CHUNKSIZE_def)
  then show ?thesis using c by (simp add: numeral_2_eq_2)
qed

end
