(* ===== verification/Dsts.thy ===== *)
theory Dsts
  imports Ip_Blocks Ports_Parse
begin

text \<open>
  The destinations of a scan, \<^verbatim>\<open>lib/net/dsts.c\<close> and \<^verbatim>\<open>lib/net/dsts.h\<close>: a list of pairs of
  address blocks and port ranges, and an iterator that goes through every address of every
  destination with every port. It is built on the iterators of \<open>Ip_Blocks\<close> and \<open>Ports\<close>.

  The destinations are an array of structs in a buffer. The model keeps the buffer, whose
  bytes are the representation \<open>repr d\<close> of the structs, and beside it the structs themselves
  (\<open>ds_dsts\<close>). \<open>dsts_next_dst\<close> copies a struct, so \<open>currdst\<close> and the struct in the array
  point to the same array of port ranges: what \<open>port_ranges_next\<close> does to that array is seen
  through both (\<open>set_ports\<close>).
\<close>

unbundle bit_operations_syntax

section \<open>State\<close>

record dst_ctx =
  dc_addrs :: ip_blocks
  dc_ports :: port_ranges
  dc_data :: u64

text \<open>\<open>sizeof(struct dst_ctx)\<close>\<close>

definition sizeof_dst :: nat where
  "sizeof_dst = 104"

record dsts_ctx =
  ds_flags :: u32
  ds_buf :: buf_t
  ds_dsts :: "dst_ctx list"
  ds_next :: nat
  ds_currdst :: dst_ctx
  ds_curraddr :: ip_addr_t

definition DSTS_FINITED :: u32 where
  "DSTS_FINITED = 1"

definition dst_zero :: dst_ctx where
  "dst_zero = \<lparr>dc_addrs = ip_blocks_zero, dc_ports = port_ranges_zero, dc_data = 0\<rparr>"

section \<open>Operations\<close>

definition dst_init ::
  "getaddrinfo \<Rightarrow> allocator \<Rightarrow> (ip_block_t list \<Rightarrow> ip_block_t list) \<Rightarrow> bytes \<Rightarrow> bytes \<Rightarrow> u64
     \<Rightarrow> (status \<times> dst_ctx) option" where
  "dst_init gai ok qsort addrs ports dstdata =
     (case ip_blocks_init gai ok qsort (Some addrs) of
        (Some _, as) \<Rightarrow> Some (-1, dst_zero\<lparr>dc_addrs := as\<rparr>)
      | (None, as) \<Rightarrow>
          do { (ret, ps, _) \<leftarrow> port_ranges_from_str ok (Some ports);
               if ret < 0 then Some (-1, dst_zero\<lparr>dc_addrs := as, dc_ports := ps\<rparr>)
               else Some (0, \<lparr>dc_addrs = as, dc_ports = ps, dc_data = dstdata\<rparr>) })"

definition dst_free :: "dst_ctx \<Rightarrow> dst_ctx" where
  "dst_free d = d\<lparr>dc_addrs := ip_blocks_cleanup (dc_addrs d), dc_ports := port_ranges_cleanup (dc_ports d)\<rparr>"

definition dsts_init :: "allocator \<Rightarrow> status \<times> dsts_ctx" where
  "dsts_init ok =
     (let dsts = \<lparr>ds_flags = 0, ds_buf = buf_zero, ds_dsts = [], ds_next = 0, ds_currdst = dst_zero,
                  ds_curraddr = AF_UNSPEC\<rparr>
      in case buf_init ok (of_nat (sizeof_dst * 16)) of
           None \<Rightarrow> (-1, dsts)
         | Some b \<Rightarrow> (0, dsts\<lparr>ds_buf := b\<rparr>))"

definition dsts_cleanup :: "dsts_ctx \<Rightarrow> dsts_ctx" where
  "dsts_cleanup dsts =
     dsts\<lparr>ds_dsts := map dst_free (take (unat (buf_len (ds_buf dsts)) div sizeof_dst) (ds_dsts dsts)),
          ds_buf := buf_cleanup (ds_buf dsts)\<rparr>"

definition dsts_add ::
  "getaddrinfo \<Rightarrow> allocator \<Rightarrow> (ip_block_t list \<Rightarrow> ip_block_t list) \<Rightarrow> (dst_ctx \<Rightarrow> bytes) \<Rightarrow> dsts_ctx
     \<Rightarrow> bytes option \<Rightarrow> bytes option \<Rightarrow> u64 \<Rightarrow> (status \<times> dsts_ctx) option" where
  "dsts_add gai ok qsort repr dsts addrs ports dstdata =
     (case (addrs, ports) of
        (Some a, Some p) \<Rightarrow>
          do { (ret, dst) \<leftarrow> dst_init gai ok qsort a p dstdata;
               if ret < 0 then Some (-1, dsts)
               else do { (ret, b) \<leftarrow> buf_adata ok (ds_buf dsts) (repr dst);
                         if ret < 0 then Some (-1, dsts\<lparr>ds_buf := b\<rparr>)
                         else Some (0, dsts\<lparr>ds_buf := b, ds_dsts := ds_dsts dsts @ [dst]\<rparr>) } }
      | _ \<Rightarrow> Some (0, dsts))"

function dsts_next_dst :: "dsts_ctx \<Rightarrow> (bool \<times> dsts_ctx) option" where
  "dsts_next_dst dsts =
     (if ds_next dsts + sizeof_dst - 1 < unat (buf_len (ds_buf dsts)) then
        if ds_next dsts div sizeof_dst < length (ds_dsts dsts) then
          (let dst = ds_dsts dsts ! (ds_next dsts div sizeof_dst);
               dsts = dsts\<lparr>ds_currdst := dst, ds_next := ds_next dsts + sizeof_dst\<rparr>
           in case ip_blocks_next (dc_addrs dst) of
                None \<Rightarrow> None
              | Some (Some a, as) \<Rightarrow>
                  Some (True, dsts\<lparr>ds_currdst := dst\<lparr>dc_addrs := as\<rparr>, ds_curraddr := a\<rparr>)
              | Some (None, as) \<Rightarrow> dsts_next_dst (dsts\<lparr>ds_currdst := dst\<lparr>dc_addrs := as\<rparr>\<rparr>))
        else None
      else Some (False, dsts))"
  by pat_completeness auto
termination
  by (relation "measure (\<lambda>dsts. unat (buf_len (ds_buf dsts)) - ds_next dsts)")
    (auto simp: sizeof_dst_def)

declare dsts_next_dst.simps [simp del]

text \<open>
  The state after \<open>port_ranges_next\<close> left the current ports as \<open>ps\<close>: the struct \<open>currdst\<close> was
  loaded from lies before the offset of the next one, and shares its array.
\<close>

definition set_ports :: "dsts_ctx \<Rightarrow> port_ranges \<Rightarrow> dsts_ctx" where
  "set_ports dsts ps =
     (let i = ds_next dsts div sizeof_dst - 1; d = ds_dsts dsts ! i
      in dsts\<lparr>ds_currdst := (ds_currdst dsts)\<lparr>dc_ports := ps\<rparr>,
              ds_dsts := (ds_dsts dsts)[i := d\<lparr>dc_ports := (dc_ports d)\<lparr>pp_ranges := pp_ranges ps\<rparr>\<rparr>]\<rparr>)"

text \<open>A socket address with its port in network byte order.\<close>

datatype sockaddr = sockaddr_in u16 u32 | sockaddr_in6 u16 "u32 list" u32

definition htons :: "u16 \<Rightarrow> u16" where
  "htons p = push_bit 8 p OR drop_bit 8 p"

fun to_sockaddr :: "ip_addr_t \<Rightarrow> u16 \<Rightarrow> (sockaddr \<times> nat) option" where
  "to_sockaddr (AF_INET a) p = Some (sockaddr_in (htons p) a, 16)"
| "to_sockaddr (AF_INET6 a z) p = Some (sockaddr_in6 (htons p) a z, 28)"
| "to_sockaddr AF_UNSPEC p = None"

text \<open>The code from the label \<open>again\<close> on.\<close>

partial_function (option) next_again :: "dsts_ctx \<Rightarrow> ((sockaddr \<times> nat \<times> u64) option \<times> dsts_ctx) option" where
  "next_again dsts =
     do {
       (port, ps) \<leftarrow> port_ranges_next (dc_ports (ds_currdst dsts));
       let dsts = set_ports dsts ps;
       case port of
         None \<Rightarrow>
           do {
             (addr, as) \<leftarrow> ip_blocks_next (dc_addrs (ds_currdst dsts));
             let dsts = dsts\<lparr>ds_currdst := (ds_currdst dsts)\<lparr>dc_addrs := as\<rparr>\<rparr>;
             case addr of
               Some a \<Rightarrow> next_again (dsts\<lparr>ds_curraddr := a\<rparr>)
             | None \<Rightarrow>
                 do {
                   (more, dsts) \<leftarrow> dsts_next_dst dsts;
                   if more then next_again dsts
                   else Some (None, dsts\<lparr>ds_flags := ds_flags dsts AND NOT DSTS_FINITED\<rparr>)
                 }
           }
       | Some p \<Rightarrow>
           (case to_sockaddr (ds_curraddr dsts) p of
              Some (sa, len) \<Rightarrow> Some (Some (sa, len, dc_data (ds_currdst dsts)), dsts)
            | None \<Rightarrow> next_again dsts)
     }"

definition dsts_next :: "dsts_ctx \<Rightarrow> ((sockaddr \<times> nat \<times> u64) option \<times> dsts_ctx) option" where
  "dsts_next dsts =
     (if unat (buf_len (ds_buf dsts)) < sizeof_dst then Some (None, dsts)
      else if ds_flags dsts AND DSTS_FINITED = 0 then
        do {
          (more, dsts) \<leftarrow> dsts_next_dst (dsts\<lparr>ds_next := 0\<rparr>);
          if more then next_again (dsts\<lparr>ds_flags := ds_flags dsts OR DSTS_FINITED\<rparr>)
          else Some (None, dsts)
        }
      else next_again dsts)"

section \<open>What is enumerated\<close>

text \<open>
  A destination as it is stored: both of its iterators are at their start. The targets of a
  destination are its addresses, in order, each with all ports in ascending order.
\<close>

definition dst_ok :: "dst_ctx \<Rightarrow> bool" where
  "dst_ok d \<longleftrightarrow> ip_blocks_inv (dc_addrs d) \<and> bs_curr_block (dc_addrs d) = 0
     \<and> bs_curr_addr (dc_addrs d) = AF_UNSPEC \<and> ports_idle (dc_ports d)"

definition dst_addrs :: "dst_ctx \<Rightarrow> ip_addr_t list" where
  "dst_addrs d = all_addrs (ip_used (dc_addrs d))"

definition dst_ports :: "dst_ctx \<Rightarrow> u16 list" where
  "dst_ports d = sorted_list_of_set (ports_of (used (dc_ports d)))"

definition target :: "u64 \<Rightarrow> ip_addr_t \<Rightarrow> u16 \<Rightarrow> sockaddr \<times> nat \<times> u64" where
  "target data a p = (case the (to_sockaddr a p) of (sa, len) \<Rightarrow> (sa, len, data))"

definition targets :: "u64 \<Rightarrow> ip_addr_t list \<Rightarrow> u16 list \<Rightarrow> (sockaddr \<times> nat \<times> u64) list" where
  "targets data as ps = concat (map (\<lambda>a. map (target data a) ps) as)"

definition dst_targets :: "dst_ctx \<Rightarrow> (sockaddr \<times> nat \<times> u64) list" where
  "dst_targets d = targets (dc_data d) (dst_addrs d) (dst_ports d)"

definition all_targets :: "dst_ctx list \<Rightarrow> (sockaddr \<times> nat \<times> u64) list" where
  "all_targets ds = concat (map dst_targets ds)"

lemma targets_simps [simp]:
  "targets data [] ps = []" "targets data (a # as) ps = map (target data a) ps @ targets data as ps"
  by (simp_all add: targets_def)

lemma all_targets_simps [simp]:
  "all_targets [] = []" "all_targets (d # ds) = dst_targets d @ all_targets ds"
  by (simp_all add: all_targets_def)

lemma no_unspec_seq: "a \<noteq> AF_UNSPEC \<Longrightarrow> AF_UNSPEC \<notin> set (ip_seq a n)"
proof (induction n arbitrary: a)
  case (Suc n)
  from Suc.prems have "ip_addr_add a 1 \<noteq> AF_UNSPEC" by (cases a) simp_all
  from Suc.IH [OF this] Suc.prems show ?case by simp
qed simp

lemma no_unspec_addrs: "\<forall>b\<in>set bs. blk_ok b \<Longrightarrow> AF_UNSPEC \<notin> set (all_addrs bs)"
proof -
  assume ok: "\<forall>b\<in>set bs. blk_ok b"
  have "AF_UNSPEC \<notin> set (seq_to (blk_first b) (blk_last b))" if "b \<in> set bs" for b
  proof -
    have "ip_wf (blk_first b)" using ok that by (simp add: blk_ok_def)
    then have "blk_first b \<noteq> AF_UNSPEC" by auto
    then show ?thesis unfolding seq_to_def by (rule no_unspec_seq)
  qed
  then show ?thesis by (auto simp: all_addrs_def)
qed

lemma dst_ok_addrs:
  assumes "dst_ok d"
  shows "ip_blocks_pending (dc_addrs d) = dst_addrs d" and "AF_UNSPEC \<notin> set (dst_addrs d)"
proof -
  from assms have "ip_blocks_reset (dc_addrs d) = dc_addrs d" and inv: "ip_blocks_inv (dc_addrs d)"
    by (simp_all add: dst_ok_def ip_blocks_reset_def)
  with pending_reset [OF inv] show "ip_blocks_pending (dc_addrs d) = dst_addrs d" by (simp add: dst_addrs_def)
  from inv show "AF_UNSPEC \<notin> set (dst_addrs d)"
    unfolding dst_addrs_def by (intro no_unspec_addrs) (simp add: ip_blocks_inv_def)
qed

definition dsts_wf :: "dsts_ctx \<Rightarrow> bool" where
  "dsts_wf s \<longleftrightarrow> unat (buf_len (ds_buf s)) = sizeof_dst * length (ds_dsts s) \<and> (\<forall>d\<in>set (ds_dsts s). dst_ok d)"

text \<open>An iteration in progress: \<open>currdst\<close> was copied from the destination before \<open>ds_next\<close>.\<close>

definition ds_index :: "dsts_ctx \<Rightarrow> nat" where
  "ds_index s = ds_next s div sizeof_dst"

definition running :: "dsts_ctx \<Rightarrow> bool" where
  "running s \<longleftrightarrow> dsts_wf s \<and> sizeof_dst dvd ds_next s \<and> 0 < ds_index s \<and> ds_index s \<le> length (ds_dsts s)
     \<and> (let d = ds_dsts s ! (ds_index s - 1); c = ds_currdst s
        in dc_data c = dc_data d \<and> pp_ranges (dc_ports c) = pp_ranges (dc_ports d)
           \<and> (dc_ports c = dc_ports d \<or> \<not> pp_dirty (dc_ports c))
           \<and> ports_of (used (dc_ports c)) = ports_of (used (dc_ports d))
           \<and> port_ranges_inv (dc_ports c) \<and> ip_blocks_inv (dc_addrs c)
           \<and> ds_curraddr s \<noteq> AF_UNSPEC \<and> AF_UNSPEC \<notin> set (ip_blocks_pending (dc_addrs c)))"

definition run_pending :: "dsts_ctx \<Rightarrow> (sockaddr \<times> nat \<times> u64) list" where
  "run_pending s =
     (let c = ds_currdst s
      in map (target (dc_data c) (ds_curraddr s)) (port_ranges_pending (dc_ports c))
         @ targets (dc_data c) (ip_blocks_pending (dc_addrs c)) (dst_ports c)
         @ all_targets (drop (ds_index s) (ds_dsts s)))"

lemma running_flags [simp]:
  "running (s\<lparr>ds_flags := f\<rparr>) = running s" "run_pending (s\<lparr>ds_flags := f\<rparr>) = run_pending s"
  by (simp_all add: running_def run_pending_def dsts_wf_def ds_index_def)

text \<open>How often \<open>next_again\<close> can still go round.\<close>

definition rounds_from :: "dst_ctx list \<Rightarrow> nat" where
  "rounds_from ds = sum_list (map (\<lambda>d. Suc (length (dst_addrs d))) ds)"

definition rounds :: "dsts_ctx \<Rightarrow> nat" where
  "rounds s = length (ip_blocks_pending (dc_addrs (ds_currdst s))) + rounds_from (drop (ds_index s) (ds_dsts s))"

text \<open>What an iteration leaves as it is.\<close>

definition kept :: "dsts_ctx \<Rightarrow> dsts_ctx \<Rightarrow> bool" where
  "kept s s' \<longleftrightarrow> ds_buf s' = ds_buf s \<and> map dst_targets (ds_dsts s') = map dst_targets (ds_dsts s)
     \<and> map dst_addrs (ds_dsts s') = map dst_addrs (ds_dsts s)"

lemma kept_trans: "kept s t \<Longrightarrow> kept t u \<Longrightarrow> kept s u"
  by (simp add: kept_def)

lemma kept_refl [simp]: "kept s s"
  by (simp add: kept_def)

lemma kept_targets:
  assumes "kept s s'"
  shows "all_targets (drop i (ds_dsts s')) = all_targets (drop i (ds_dsts s))"
    and "rounds_from (drop i (ds_dsts s')) = rounds_from (drop i (ds_dsts s))"
    and "length (ds_dsts s') = length (ds_dsts s)"
proof -
  have m: "map dst_targets (drop i (ds_dsts s')) = map dst_targets (drop i (ds_dsts s))"
    "map dst_addrs (drop i (ds_dsts s')) = map dst_addrs (drop i (ds_dsts s))"
    using assms by (simp_all add: kept_def flip: drop_map)
  then show "all_targets (drop i (ds_dsts s')) = all_targets (drop i (ds_dsts s))"
    by (simp add: all_targets_def)
  have "map (\<lambda>d. Suc (length (dst_addrs d))) ds = map (Suc \<circ> length) (map dst_addrs ds)" for ds by simp
  with m(2) show "rounds_from (drop i (ds_dsts s')) = rounds_from (drop i (ds_dsts s))"
    unfolding rounds_from_def by metis
  show "length (ds_dsts s') = length (ds_dsts s)" using assms unfolding kept_def by (metis length_map)
qed

section \<open>The next destination\<close>

lemma sizeof_dst_pos [simp]: "0 < sizeof_dst" "sizeof_dst \<noteq> 0"
  by (simp_all add: sizeof_dst_def)

lemma index_step: "ds_next s = sizeof_dst * i \<Longrightarrow> ds_next s div sizeof_dst = i"
  "(sizeof_dst + sizeof_dst * i) div sizeof_dst = Suc i"
  "(sizeof_dst * i + sizeof_dst) div sizeof_dst = Suc i"
  by (simp_all add: sizeof_dst_def)

lemma next_dst_loads:
  assumes wf: "dsts_wf s" and n: "ds_next s = sizeof_dst * i" and i: "i < length (ds_dsts s)"
  defines "d \<equiv> ds_dsts s ! i"
  defines "s1 \<equiv> s\<lparr>ds_currdst := d, ds_next := sizeof_dst * Suc i\<rparr>"
  shows "dsts_next_dst s =
    (case ip_blocks_next (dc_addrs d) of
       None \<Rightarrow> None
     | Some (Some a, as) \<Rightarrow> Some (True, s1\<lparr>ds_currdst := d\<lparr>dc_addrs := as\<rparr>, ds_curraddr := a\<rparr>)
     | Some (None, as) \<Rightarrow> dsts_next_dst (s1\<lparr>ds_currdst := d\<lparr>dc_addrs := as\<rparr>\<rparr>))"
proof -
  have "sizeof_dst * Suc i \<le> sizeof_dst * length (ds_dsts s)" using i by (intro mult_le_mono) simp_all
  then have "ds_next s + sizeof_dst - 1 < unat (buf_len (ds_buf s))"
    using wf n by (simp add: dsts_wf_def sizeof_dst_def)
  with n i show ?thesis
    unfolding d_def s1_def
    by (subst dsts_next_dst.simps) (simp add: Let_def add.commute cong: option.case_cong prod.case_cong)
qed

lemma next_dst_at_end:
  assumes wf: "dsts_wf s" and n: "ds_next s = sizeof_dst * i" and i: "length (ds_dsts s) \<le> i"
  shows "dsts_next_dst s = Some (False, s)"
proof -
  have "sizeof_dst * length (ds_dsts s) \<le> sizeof_dst * i" using i by simp
  then have "\<not> ds_next s + sizeof_dst - 1 < unat (buf_len (ds_buf s))"
    using wf n by (simp add: dsts_wf_def sizeof_dst_def)
  then show ?thesis by (subst dsts_next_dst.simps) simp
qed

text \<open>Loading a destination starts an iteration over what lies from it on.\<close>

lemma dsts_next_dst_spec:
  assumes "dsts_wf s" and "ds_next s = sizeof_dst * i"
  shows "\<exists>more s'. dsts_next_dst s = Some (more, s') \<and> ds_buf s' = ds_buf s \<and> ds_dsts s' = ds_dsts s
    \<and> ds_flags s' = ds_flags s
    \<and> (more \<longrightarrow> running s' \<and> run_pending s' = all_targets (drop i (ds_dsts s))
         \<and> rounds s' < rounds_from (drop i (ds_dsts s)))
    \<and> (\<not> more \<longrightarrow> all_targets (drop i (ds_dsts s)) = [])"
  using assms
proof (induction "length (ds_dsts s) - i" arbitrary: s i)
  case 0
  then show ?case using next_dst_at_end [of s i] by (intro exI [of _ False] exI [of _ s]) simp
next
  case (Suc n)
  then have i: "i < length (ds_dsts s)" by simp
  define d where "d = ds_dsts s ! i"
  have d: "dst_ok d" using Suc.prems(1) i by (simp add: dsts_wf_def d_def)
  have D: "drop i (ds_dsts s) = d # drop (Suc i) (ds_dsts s)" using i by (simp add: d_def Cons_nth_drop_Suc)
  note l = next_dst_loads [OF Suc.prems i, folded d_def]
  have inv: "ip_blocks_inv (dc_addrs d)" and idle: "ports_idle (dc_ports d)" using d by (simp_all add: dst_ok_def)
  show ?case
  proof (cases "dst_addrs d")
    case Nil
    with dst_ok_addrs(1) [OF d] ip_blocks.next_end [OF inv] obtain as where
      as: "ip_blocks_next (dc_addrs d) = Some (None, as)" by auto
    define s1 where "s1 = s\<lparr>ds_next := sizeof_dst * Suc i, ds_currdst := d\<lparr>dc_addrs := as\<rparr>\<rparr>"
    have e: "dsts_next_dst s = dsts_next_dst s1" using l as by (simp add: s1_def)
    have "n = length (ds_dsts s1) - Suc i" "dsts_wf s1" "ds_next s1 = sizeof_dst * Suc i"
      using Suc.hyps(2) Suc.prems by (simp_all add: s1_def dsts_wf_def)
    from Suc.hyps(1) [OF this] Nil show ?thesis
      unfolding e D by (auto simp: s1_def dst_targets_def rounds_from_def)
  next
    case (Cons a vs)
    with dst_ok_addrs(1) [OF d] ip_blocks.next_head [OF inv, of a vs] obtain as where
      as: "ip_blocks_next (dc_addrs d) = Some (Some a, as)" "ip_blocks_inv as" "ip_blocks_pending as = vs" by auto
    define s1 where "s1 = s\<lparr>ds_next := sizeof_dst * Suc i, ds_currdst := d\<lparr>dc_addrs := as\<rparr>, ds_curraddr := a\<rparr>"
    have e: "dsts_next_dst s = Some (True, s1)" using l as by (simp add: s1_def)
    have x: "ds_index s1 = Suc i" by (simp add: ds_index_def s1_def index_step)
    have "AF_UNSPEC \<notin> set (a # vs)" using dst_ok_addrs(2) [OF d] Cons by simp
    then have "running s1"
      using Suc.prems i as idle d unfolding running_def x
      by (auto simp: s1_def dsts_wf_def d_def ports_idle_def Let_def)
    moreover have "run_pending s1 = all_targets (drop i (ds_dsts s))"
      using Cons as ports_idle_pending [OF idle] unfolding D run_pending_def x
      by (simp add: s1_def dst_targets_def dst_ports_def Let_def)
    moreover have "rounds s1 < rounds_from (drop i (ds_dsts s))"
      using Cons as unfolding D rounds_def x by (simp add: s1_def rounds_from_def)
    moreover have "ds_buf s1 = ds_buf s" "ds_dsts s1 = ds_dsts s" "ds_flags s1 = ds_flags s"
      by (simp_all add: s1_def)
    ultimately show ?thesis unfolding e by blast
  qed
qed

section \<open>One round\<close>

text \<open>
  Advancing the ports of the current destination: through the shared array the stored struct
  changes, but not what it stands for.
\<close>

lemma set_ports_spec:
  assumes run: "running s" and ps: "port_ranges_inv ps" "\<not> pp_dirty ps"
    and r: "pp_ranges ps = pp_ranges (UNDIRTIFY (dc_ports (ds_currdst s)))"
    and u: "used ps = used (UNDIRTIFY (dc_ports (ds_currdst s)))"
  shows "running (set_ports s ps)" and "kept s (set_ports s ps)"
    and "dst_ports (ds_currdst (set_ports s ps)) = dst_ports (ds_currdst s)"
proof -
  let ?i = "ds_index s - 1" and ?c = "ds_currdst s"
  define d where "d = ds_dsts s ! ?i"
  define d' where "d' = d\<lparr>dc_ports := (dc_ports d)\<lparr>pp_ranges := pp_ranges ps\<rparr>\<rparr>"
  from run have wf: "dsts_wf s" and i: "?i < length (ds_dsts s)"
    and c: "dc_data ?c = dc_data d" "pp_ranges (dc_ports ?c) = pp_ranges (dc_ports d)"
      "dc_ports ?c = dc_ports d \<or> \<not> pp_dirty (dc_ports ?c)"
      "ports_of (used (dc_ports ?c)) = ports_of (used (dc_ports d))"
    and inv: "port_ranges_inv (dc_ports ?c)"
    by (auto simp: running_def d_def Let_def)
  have d: "dst_ok d" using wf i by (auto simp: dsts_wf_def d_def)
  have e: "set_ports s ps = s\<lparr>ds_currdst := ?c\<lparr>dc_ports := ps\<rparr>, ds_dsts := (ds_dsts s)[?i := d']\<rparr>"
    by (simp add: set_ports_def d_def d'_def ds_index_def Let_def)
  have w: "ranges_wf (dc_ports ?c)" using inv by (simp add: port_ranges_inv_def)
  have U: "ports_of (used ps) = ports_of (used (dc_ports d))" using UNDIRTIFY_correct(4) [OF w] u c(4) by simp
  have p: "ports_idle (dc_ports d') \<and> ports_of (used (dc_ports d')) = ports_of (used (dc_ports d))"
  proof (cases "dc_ports ?c = dc_ports d")
    case True
    with ports_idle_shared [of "dc_ports d"] d r show ?thesis by (simp add: d'_def dst_ok_def)
  next
    case False
    then have "pp_ranges ps = pp_ranges (dc_ports d)" using c r by simp
    then have "d' = d" by (simp add: d'_def)
    with d show ?thesis by (simp add: dst_ok_def)
  qed
  have a: "dc_addrs d' = dc_addrs d" "dc_data d' = dc_data d" by (simp_all add: d'_def)
  then have t: "dst_targets d' = dst_targets d" "dst_addrs d' = dst_addrs d" "dst_ok d'"
    using p d by (simp_all add: dst_targets_def dst_addrs_def dst_ports_def dst_ok_def)
  then show k: "kept s (set_ports s ps)"
    unfolding e by (simp add: kept_def map_update d_def)
       (metis d_def list_update_id map_update)
  have "dsts_wf (set_ports s ps)" using wf t(3) unfolding e by (auto simp: dsts_wf_def dest: set_update_subset_insert [THEN subsetD])
  then show "running (set_ports s ps)"
    using run i ps p U a c(1) unfolding e running_def
    by (simp add: ds_index_def Let_def d'_def)
  show "dst_ports (ds_currdst (set_ports s ps)) = dst_ports ?c" using U c(4) unfolding e by (simp add: dst_ports_def)
qed

lemma set_ports_fields [simp]:
  "ds_next (set_ports s ps) = ds_next s" "ds_flags (set_ports s ps) = ds_flags s"
  "ds_curraddr (set_ports s ps) = ds_curraddr s" "ds_index (set_ports s ps) = ds_index s"
  "ds_currdst (set_ports s ps) = (ds_currdst s)\<lparr>dc_ports := ps\<rparr>"
  by (simp_all add: set_ports_def Let_def ds_index_def)

lemma to_sockaddr_target: "a \<noteq> AF_UNSPEC \<Longrightarrow> \<exists>sa len. to_sockaddr a p = Some (sa, len) \<and> target data a p = (sa, len, data)"
  by (cases a) (simp_all add: target_def)

lemma next_again_port:
  assumes run: "running s" and p: "port_ranges_pending (dc_ports (ds_currdst s)) = p # rest"
  shows "\<exists>s'. next_again s = Some (Some (hd (run_pending s)), s') \<and> running s' \<and> run_pending s' = tl (run_pending s)
    \<and> kept s s' \<and> ds_flags s' = ds_flags s"
proof -
  let ?c = "ds_currdst s"
  from run have inv: "port_ranges_inv (dc_ports ?c)" and a: "ds_curraddr s \<noteq> AF_UNSPEC"
    by (simp_all add: running_def Let_def)
  from port_ranges_next_some [OF inv p] obtain ps where
    ps: "port_ranges_next (dc_ports ?c) = Some (Some p, ps)" "port_ranges_inv ps" "\<not> pp_dirty ps"
      "port_ranges_pending ps = rest" "used ps = used (UNDIRTIFY (dc_ports ?c))"
      "pp_ranges ps = pp_ranges (UNDIRTIFY (dc_ports ?c))" by blast
  note sp = set_ports_spec [OF run ps(2,3,6,5)]
  from to_sockaddr_target [OF a] obtain sa len where
    sa: "to_sockaddr (ds_curraddr s) p = Some (sa, len)" "target (dc_data ?c) (ds_curraddr s) p = (sa, len, dc_data ?c)" by blast
  have "next_again s = Some (Some (sa, len, dc_data ?c), set_ports s ps)"
    using ps(1) sa(1) by (simp add: next_again.simps [of s])
  moreover have "run_pending (set_ports s ps) = tl (run_pending s)" "hd (run_pending s) = (sa, len, dc_data ?c)"
    using p ps(4) sa(2) sp(3) kept_targets(1) [OF sp(2)] by (simp_all add: run_pending_def Let_def)
  ultimately show ?thesis using sp by simp
qed

text \<open>When the ports are used up, the next address or the next destination takes over.\<close>

lemma next_again_round:
  assumes run: "running s" and p: "port_ranges_pending (dc_ports (ds_currdst s)) = []"
  shows "(\<exists>s'. next_again s = next_again s' \<and> running s' \<and> run_pending s' = run_pending s \<and> kept s s'
      \<and> ds_flags s' = ds_flags s \<and> rounds s' < rounds s)
    \<or> run_pending s = [] \<and> (\<exists>s'. next_again s = Some (None, s') \<and> dsts_wf s' \<and> kept s s'
      \<and> ds_flags s' = ds_flags s AND NOT DSTS_FINITED)"
proof -
  let ?c = "ds_currdst s"
  define ps where "ps = port_ranges_reset (UNDIRTIFY (dc_ports ?c))"
  define s1 where "s1 = set_ports s ps"
  from run have inv: "port_ranges_inv (dc_ports ?c)" and ai: "ip_blocks_inv (dc_addrs ?c)"
    by (simp_all add: running_def Let_def)
  then have wf: "ranges_wf (dc_ports ?c)" by (simp add: port_ranges_inv_def)
  note n = port_ranges_next_none [OF inv p, folded ps_def]
  have "pp_ranges ps = pp_ranges (UNDIRTIFY (dc_ports ?c))" by (simp add: ps_def port_ranges_reset_def)
  note sp = set_ports_spec [OF run n(2,4) this n(5), folded s1_def]
  have P: "port_ranges_pending ps = dst_ports ?c"
    using n(3) all_ports_sorted_list [OF UNDIRTIFY_correct(3) [OF wf]] UNDIRTIFY_correct(4) [OF wf]
    by (simp add: dst_ports_def)
  have c1: "ds_currdst s1 = ?c\<lparr>dc_ports := ps\<rparr>" "ds_flags s1 = ds_flags s" "ds_index s1 = ds_index s"
    "ds_next s1 = ds_next s" by (simp_all add: s1_def)
  note k = kept_targets [OF sp(2)]
  show ?thesis
  proof (cases "ip_blocks_pending (dc_addrs ?c)")
    case (Cons a vs)
    from ip_blocks.next_head [OF ai Cons] obtain as where
      as: "ip_blocks_next (dc_addrs ?c) = Some (Some a, as)" "ip_blocks_inv as" "ip_blocks_pending as = vs" by blast
    define s2 where "s2 = s1\<lparr>ds_currdst := ?c\<lparr>dc_ports := ps, dc_addrs := as\<rparr>, ds_curraddr := a\<rparr>"
    have e: "next_again s = next_again s2"
      using n(1) as(1) c1 by (simp add: next_again.simps [of s] s2_def flip: s1_def)
    have x: "ds_index s2 = ds_index s" "ds_dsts s2 = ds_dsts s1" using c1(3) by (simp_all add: s2_def ds_index_def)
    have "a \<noteq> AF_UNSPEC" "AF_UNSPEC \<notin> set vs" using run Cons by (auto simp: running_def Let_def)
    then have "running s2" using sp(1) as(2,3) c1 unfolding running_def x
      by (simp add: s2_def Let_def dsts_wf_def)
    moreover have "run_pending s2 = run_pending s"
      using P k(1) sp(3) c1(1) p as(3) Cons unfolding run_pending_def x
      by (simp add: s2_def Let_def dst_ports_def)
    moreover have "rounds s2 < rounds s" using k(2) as(3) Cons unfolding rounds_def x by (simp add: s2_def)
    moreover have "kept s s2" "ds_flags s2 = ds_flags s" using sp(2) c1(2) by (simp_all add: kept_def s2_def)
    ultimately show ?thesis using e by blast
  next
    case Nil
    from ip_blocks.next_end [OF ai Nil] obtain as where
      as: "ip_blocks_next (dc_addrs ?c) = Some (None, as)" by blast
    define s2 where "s2 = s1\<lparr>ds_currdst := ?c\<lparr>dc_ports := ps, dc_addrs := as\<rparr>\<rparr>"
    have "dsts_wf s2" "ds_next s2 = sizeof_dst * ds_index s"
      using sp(1) c1 run by (simp_all add: running_def dsts_wf_def s2_def ds_index_def)
    from dsts_next_dst_spec [OF this] obtain more s3 where
      s3: "dsts_next_dst s2 = Some (more, s3)" "ds_buf s3 = ds_buf s2" "ds_dsts s3 = ds_dsts s2" "ds_flags s3 = ds_flags s2"
        "more \<Longrightarrow> running s3 \<and> run_pending s3 = all_targets (drop (ds_index s) (ds_dsts s2))
           \<and> rounds s3 < rounds_from (drop (ds_index s) (ds_dsts s2))"
        "\<not> more \<Longrightarrow> all_targets (drop (ds_index s) (ds_dsts s2)) = []" by blast
    have e: "next_again s = (if more then next_again s3 else Some (None, s3\<lparr>ds_flags := ds_flags s3 AND NOT DSTS_FINITED\<rparr>))"
      using n(1) as c1 s3(1) by (simp add: next_again.simps [of s] s2_def flip: s1_def)
    have k3: "kept s s3" "ds_flags s3 = ds_flags s" "ds_dsts s3 = ds_dsts s1" "ds_buf s3 = ds_buf s1" "ds_dsts s2 = ds_dsts s1"
      using sp(2) c1 s3(2-4) by (simp_all add: kept_def s2_def)
    have rp: "run_pending s = all_targets (drop (ds_index s) (ds_dsts s1))"
      using p Nil k(1) by (simp add: run_pending_def Let_def)
    show ?thesis
    proof (cases more)
      case True
      with e s3(5) k3 rp k(2) show ?thesis by (auto simp: rounds_def)
    next
      case False
      have "dsts_wf s1" using sp(1) by (simp add: running_def)
      with False e s3(6) k3 rp show ?thesis by (auto simp: dsts_wf_def kept_def)
    qed
  qed
qed

lemma next_again_spec:
  assumes "running s"
  shows "case run_pending s of
      v # vs \<Rightarrow> \<exists>s'. next_again s = Some (Some v, s') \<and> running s' \<and> run_pending s' = vs \<and> kept s s'
        \<and> ds_flags s' = ds_flags s
    | [] \<Rightarrow> \<exists>s'. next_again s = Some (None, s') \<and> dsts_wf s' \<and> kept s s'
        \<and> ds_flags s' = ds_flags s AND NOT DSTS_FINITED"
  using assms
proof (induction "rounds s" arbitrary: s rule: less_induct)
  case less
  show ?case
  proof (cases "port_ranges_pending (dc_ports (ds_currdst s))")
    case (Cons p rest)
    then have "run_pending s \<noteq> []" by (simp add: run_pending_def Let_def)
    with next_again_port [OF less.prems Cons] show ?thesis by (auto split: list.split)
  next
    case Nil
    from next_again_round [OF less.prems Nil] show ?thesis
    proof (elim disjE exE conjE)
      fix s1 assume s1: "next_again s = next_again s1" "running s1" "run_pending s1 = run_pending s"
        "kept s s1" "ds_flags s1 = ds_flags s" "rounds s1 < rounds s"
      from less.hyps [OF s1(6,2)] show ?thesis
        unfolding s1(1,3,5) using kept_trans [OF s1(4)] by (cases "run_pending s") auto
    qed auto
  qed
qed

section \<open>The iterator\<close>

lemma finited_bit [simp]: "(f OR DSTS_FINITED) AND DSTS_FINITED \<noteq> 0" "(f AND NOT DSTS_FINITED) AND DSTS_FINITED = 0"
proof -
  have "bit ((f OR DSTS_FINITED) AND DSTS_FINITED) 0" by (simp add: DSTS_FINITED_def bit_simps)
  then show "(f OR DSTS_FINITED) AND DSTS_FINITED \<noteq> 0" by (metis bit_0_eq bot_apply bot_bool_def)
  show "(f AND NOT DSTS_FINITED) AND DSTS_FINITED = 0" by (rule bit_eqI) (simp add: bit_simps)
qed

definition finited :: "dsts_ctx \<Rightarrow> bool" where
  "finited s \<longleftrightarrow> ds_flags s AND DSTS_FINITED \<noteq> 0"

definition dsts_inv :: "dsts_ctx \<Rightarrow> bool" where
  "dsts_inv s \<longleftrightarrow> (if finited s then running s else dsts_wf s)"

definition dsts_pending :: "dsts_ctx \<Rightarrow> (sockaddr \<times> nat \<times> u64) list" where
  "dsts_pending s = (if finited s then run_pending s else all_targets (ds_dsts s))"

lemma kept_all_targets: "kept s s' \<Longrightarrow> all_targets (ds_dsts s') = all_targets (ds_dsts s)"
  using kept_targets(1) [of s s' 0] by simp

lemma again_result:
  assumes run: "running s" and f: "finited s"
  shows "case run_pending s of
      v # vs \<Rightarrow> \<exists>s'. next_again s = Some (Some v, s') \<and> dsts_inv s' \<and> finited s' \<and> dsts_pending s' = vs \<and> kept s s'
    | [] \<Rightarrow> \<exists>s'. next_again s = Some (None, s') \<and> dsts_inv s' \<and> \<not> finited s' \<and> kept s s'"
proof (cases "run_pending s")
  case Nil
  with next_again_spec [OF run] obtain s' where "next_again s = Some (None, s')" "dsts_wf s'" "kept s s'"
    "ds_flags s' = ds_flags s AND NOT DSTS_FINITED" by auto
  moreover from this(4) have "\<not> finited s'" by (simp only: finited_def finited_bit not_not)
  ultimately show ?thesis using Nil by (simp add: dsts_inv_def)
next
  case (Cons v vs)
  with next_again_spec [OF run] obtain s' where "next_again s = Some (Some v, s')" "running s'" "kept s s'"
    "ds_flags s' = ds_flags s" "run_pending s' = vs" by auto
  moreover from this(4) have "finited s'" using f by (simp only: finited_def simp_thms)
  ultimately show ?thesis using Cons by (simp add: dsts_inv_def dsts_pending_def)
qed

lemma dsts_next_spec:
  assumes "dsts_inv s"
  shows "case dsts_pending s of
      v # vs \<Rightarrow> \<exists>s'. dsts_next s = Some (Some v, s') \<and> dsts_inv s' \<and> finited s' \<and> dsts_pending s' = vs \<and> kept s s'
    | [] \<Rightarrow> \<exists>s'. dsts_next s = Some (None, s') \<and> dsts_inv s' \<and> \<not> finited s' \<and> kept s s'"
proof (cases "finited s")
  case True
  with assms have run: "running s" by (simp add: dsts_inv_def)
  then have "0 < length (ds_dsts s)" by (auto simp: running_def)
  with run have "\<not> unat (buf_len (ds_buf s)) < sizeof_dst"
    by (cases "ds_dsts s") (simp_all add: running_def dsts_wf_def sizeof_dst_def)
  then have "dsts_next s = next_again s" using True by (simp add: dsts_next_def finited_def)
  then show ?thesis using again_result [OF run True] True by (simp only: dsts_pending_def if_True)
next
  case False
  with assms have wf: "dsts_wf s" by (simp add: dsts_inv_def)
  show ?thesis
  proof (cases "ds_dsts s")
    case Nil
    with wf False show ?thesis by (simp add: dsts_next_def dsts_pending_def dsts_inv_def dsts_wf_def)
  next
    case (Cons d ds)
    have "dsts_wf (s\<lparr>ds_next := 0\<rparr>)" "ds_next (s\<lparr>ds_next := 0\<rparr>) = sizeof_dst * 0" using wf by (simp_all add: dsts_wf_def)
    from dsts_next_dst_spec [OF this] obtain more s1 where
      s1: "dsts_next_dst (s\<lparr>ds_next := 0\<rparr>) = Some (more, s1)" "ds_buf s1 = ds_buf s" "ds_dsts s1 = ds_dsts s"
        "ds_flags s1 = ds_flags s" "more \<Longrightarrow> running s1 \<and> run_pending s1 = all_targets (ds_dsts s)"
        "\<not> more \<Longrightarrow> all_targets (ds_dsts s) = []" by auto
    define s2 where "s2 = s1\<lparr>ds_flags := ds_flags s1 OR DSTS_FINITED\<rparr>"
    have k: "kept s s1" "kept s s2" using s1 by (simp_all add: kept_def s2_def)
    have e: "dsts_next s = (if more then next_again s2 else Some (None, s1))"
      using wf Cons False s1(1) by (simp add: dsts_next_def finited_def dsts_wf_def s2_def)
    show ?thesis
    proof (cases more)
      case True
      with s1(5) have r: "running s2" "run_pending s2 = all_targets (ds_dsts s)" by (simp_all add: s2_def)
      have "finited s2" unfolding s2_def finited_def by (simp add: DSTS_FINITED_def)
      note again = again_result [OF r(1) this]
      have "dsts_pending s = run_pending s2" using False r(2) by (simp add: dsts_pending_def)
      then show ?thesis
        using again kept_trans [OF k(2)] True unfolding e by (cases "run_pending s2") auto
    next
      case False
      with s1 e k \<open>\<not> finited s\<close> wf show ?thesis
        by (simp add: dsts_pending_def dsts_inv_def finited_def dsts_wf_def)
    qed
  qed
qed

interpretation dsts: cyclic_iterator dsts_inv dsts_pending "\<lambda>s. all_targets (ds_dsts s)" dsts_next
proof
  fix s v vs assume "dsts_inv s" and p: "dsts_pending s = v # vs"
  from dsts_next_spec [OF this(1)] p obtain s' where
    "dsts_next s = Some (Some v, s')" "dsts_inv s'" "dsts_pending s' = vs" "kept s s'" by auto
  with kept_all_targets show "\<exists>s'. dsts_next s = Some (Some v, s') \<and> dsts_inv s' \<and> dsts_pending s' = vs
      \<and> all_targets (ds_dsts s') = all_targets (ds_dsts s)" by blast
next
  fix s assume "dsts_inv s" and p: "dsts_pending s = []"
  from dsts_next_spec [OF this(1)] p obtain s' where
    s': "dsts_next s = Some (None, s')" "dsts_inv s'" "\<not> finited s'" "kept s s'" by auto
  then have "dsts_pending s' = all_targets (ds_dsts s')" by (simp add: dsts_pending_def)
  with s' kept_all_targets [OF s'(4)]
  show "\<exists>s'. dsts_next s = Some (None, s') \<and> dsts_inv s' \<and> dsts_pending s' = all_targets (ds_dsts s)
      \<and> all_targets (ds_dsts s') = all_targets (ds_dsts s)" by auto
qed

section \<open>Adding destinations\<close>

lemma add_keeps:
  assumes "dsts_inv s" and "dst_ok d" and "unat (buf_len b) = sizeof_dst * Suc (length (ds_dsts s))"
  defines "s' \<equiv> s\<lparr>ds_buf := b, ds_dsts := ds_dsts s @ [d]\<rparr>"
  shows "dsts_inv s'" and "dsts_pending s' = dsts_pending s @ dst_targets d"
proof -
  have f: "finited s' = finited s" and x: "ds_index s' = ds_index s"
    by (simp_all add: s'_def finited_def ds_index_def)
  have wf: "dsts_wf s'" if "dsts_wf s" using that assms(2,3) by (auto simp: dsts_wf_def s'_def)
  have "dsts_inv s' \<and> dsts_pending s' = dsts_pending s @ dst_targets d"
  proof (cases "finited s")
    case True
    with assms(1) have run: "running s" by (simp add: dsts_inv_def)
    then have i: "0 < ds_index s" "ds_index s \<le> length (ds_dsts s)" by (simp_all add: running_def)
    then have n: "ds_dsts s' ! (ds_index s - 1) = ds_dsts s ! (ds_index s - 1)" by (simp add: s'_def nth_append)
    have "dsts_wf s'" using run wf by (simp add: running_def)
    with run i n have "running s'" unfolding running_def x by (simp add: s'_def)
    moreover have "run_pending s' = run_pending s @ dst_targets d"
      using i unfolding run_pending_def x by (simp add: s'_def Let_def all_targets_def)
    ultimately show ?thesis using True f by (simp add: dsts_inv_def dsts_pending_def)
  next
    case False
    with assms(1) f wf show ?thesis by (simp add: dsts_inv_def dsts_pending_def s'_def all_targets_def)
  qed
  then show "dsts_inv s'" "dsts_pending s' = dsts_pending s @ dst_targets d" by simp_all
qed

lemma buf_field_update:
  "dsts_inv s \<Longrightarrow> buf_len b = buf_len (ds_buf s) \<Longrightarrow> dsts_inv (s\<lparr>ds_buf := b\<rparr>)"
  "dsts_pending (s\<lparr>ds_buf := b\<rparr>) = dsts_pending s"
  by (auto simp: dsts_inv_def dsts_pending_def finited_def running_def run_pending_def ds_index_def dsts_wf_def)

lemma dsts_inv_len: "dsts_inv s \<Longrightarrow> unat (buf_len (ds_buf s)) = sizeof_dst * length (ds_dsts s)"
  by (auto simp: dsts_inv_def running_def dsts_wf_def split: if_splits)

lemma adata_unchanged_len:
  assumes "buf_wf ok b" and "length xs < 2 ^ 62" and "buf_adata ok b xs = Some (-1, b')"
  shows "buf_len b' = buf_len b"
  using assms(3) by (auto simp: buf_adata_def buf_reserve_def buf_grow_def Let_def split: if_splits bind_splits)

lemma add_stored:
  assumes inv: "dsts_inv s" and wf: "buf_wf ok (ds_buf s)" and r: "\<And>d. length (repr d) = sizeof_dst"
    and d: "dst_ok d"
  shows "\<exists>ret s'. do { (ret, b) \<leftarrow> buf_adata ok (ds_buf s) (repr d);
                    if ret < 0 then Some (-1, s\<lparr>ds_buf := b\<rparr>)
                    else Some (0, s\<lparr>ds_buf := b, ds_dsts := ds_dsts s @ [d]\<rparr>) } = Some (ret, s') \<and> dsts_inv s'
    \<and> (ret = 0 \<and> dsts_pending s' = dsts_pending s @ dst_targets d
       \<or> ret = -1 \<and> refuses ok (sizeof_dst * Suc (length (ds_dsts s))) \<and> dsts_pending s' = dsts_pending s)"
proof -
  have l: "length (repr d) < 2 ^ 62" by (simp add: r sizeof_dst_def)
  note n = dsts_inv_len [OF inv]
  have c: "length (buf_contents (ds_buf s)) = sizeof_dst * length (ds_dsts s)" using length_buf_contents [OF wf] n by simp
  from buf_adata_appends [OF wf l] show ?thesis
  proof (cases rule: bsink.app_cases)
    case (written b)
    then have "unat (buf_len b) = sizeof_dst * Suc (length (ds_dsts s))"
      using length_buf_contents [OF written(2)] c r by simp
    from add_keeps [OF inv d this] written(1) show ?thesis by auto
  next
    case (refused b ys zs)
    have "refuses ok (sizeof_dst * Suc (length (ds_dsts s)))"
      using refused(3) r [of d] by (simp add: c add.commute)
    moreover have "buf_len b = buf_len (ds_buf s)" using adata_unchanged_len [OF wf l refused(1)] .
    ultimately show ?thesis using buf_field_update(1) [OF inv] buf_field_update(2) refused(1) by auto
  qed
qed

section \<open>Properties\<close>




lemma one_block:
  "\<exists>as. ip_blocks_init (\<lambda>t. Inr [AF_INET 7]) tib_alloc (sort_key blk_rank) (Some ''a'') = (None, as)
     \<and> ip_blocks_inv as \<and> bs_curr_block as = 0 \<and> bs_curr_addr as = AF_UNSPEC \<and> all_addrs (ip_used as) = [AF_INET 7]"
proof -
  let ?as = "\<lparr>bs_nblocks = 1, bs_blocks = [\<lparr>blk_first = AF_INET 7, blk_last = AF_INET 7\<rparr>],
    bs_curr_block = 0, bs_curr_addr = AF_UNSPEC\<rparr>"
  have "ip_blocks_init (\<lambda>t. Inr [AF_INET 7]) tib_alloc (sort_key blk_rank) (Some ''a'') = (None, ?as)"
    by (simp add: ip_blocks_init_def ip_blocks_zero_def cons_block_def ip_block_from_str_def ip_addr_def
        YANS_IP_ADDR_MAXLEN_def Let_def strspn_def strcspn_def ip_space_def tib_alloc_def compress_blocks_def
        is_ip_blocks_sep_def compress_blocks_loop.simps)
  moreover have "ip_used ?as = [\<lparr>blk_first = AF_INET 7, blk_last = AF_INET 7\<rparr>]" by (simp add: ip_used_def)
  ultimately show ?thesis by (auto simp: ip_blocks_inv_def blk_ok_def all_addrs_def seq_to_def)
qed

lemma one_port:
  "\<exists>ps. port_ranges_from_str tib_alloc (Some ''80'') = Some (0, ps, None) \<and> ports_idle ps
     \<and> ports_of (used ps) = {80}"
proof -
  have "\<exists>ps. port_ranges_from_str tib_alloc (Some ''80'') = Some (0, ps, None) \<and> pp_cap ps = 256"
    by (simp add: port_ranges_from_str_def tib_alloc_def Let_def buf_init_def cstr_def from_str_step_def
        parse_lhs_def is_digit_def digit_val_def is_port_range_sep_def from_str_last_def emit_range_def
        buf_adata_def ordered_range_def range_bytes_def u16_bytes_def buf_reserve_def buf_align_offset_def
        BUF_ALIGNMENT_def poke_def mem_def)
  moreover have "length (cstr ''80'') = 2" by (simp add: cstr_def)
  moreover have "ref_ranges (cstr ''80'') = Some [PortRange 80 80]"
    by (simp add: ref_ranges_def cstr_def is_port_range_sep_def port_token_def port_number_def dec_value_def
        is_digit_def digit_val_def)
  ultimately obtain ps where ps: "port_ranges_from_str tib_alloc (Some ''80'') = Some (0, ps, None)" "pp_cap ps = 256"
      "ranges_wf ps" "used ps = [PortRange 80 80]" "pp_curr_range ps = 0" "pp_curr_port ps = 0"
    using from_str_reference [of tib_alloc "''80''"] by auto
  then have "length (pp_ranges ps) = 256" by (simp add: ranges_wf_def)
  moreover have "length (used ps) = 1" using ps(4) by simp
  ultimately have "pp_nranges ps = 1" by (simp add: used_def min_def split: if_splits)
  with ps \<open>length (pp_ranges ps) = 256\<close> show ?thesis
    by (auto simp: ports_idle_def port_ranges_inv_def iter_at_def range_set_def)
qed


end
