(* ===== verification/Urlquery.thy ===== *)
theory Urlquery
  imports Str "HOL-Library.Monad_Syntax"
begin

text \<open>
  The query part of a URL, \<^verbatim>\<open>lib/net/urlquery.c\<close>: percent-decoding in place and the split into
  pairs. The memory is a list of bytes and a pointer an index into it, so that the strings the
  functions overwrite while they still read them are overwritten in the model too.
  \<^const>\<open>None\<close> is an access outside the memory.
\<close>

section \<open>Operations\<close>

definition byte_at :: "bytes \<Rightarrow> nat \<Rightarrow> byte option" where
  "byte_at m p = (if p < length m then Some (m ! p) else None)"

definition put_byte :: "bytes \<Rightarrow> nat \<Rightarrow> byte \<Rightarrow> bytes option" where
  "put_byte m p c = (if p < length m then Some (m[p := c]) else None)"

definition fromhex :: "byte \<Rightarrow> nat" where
  "fromhex ch =
     (let c = of_char ch :: nat
      in if 48 \<le> c \<and> c \<le> 57 then c - 48
         else if 65 \<le> c \<and> c \<le> 70 then c - 65 + 10
         else if 97 \<le> c \<and> c \<le> 102 then c - 97 + 10
         else 0)"

text \<open>\<open>isxdigit\<close> of \<open><ctype.h>\<close>, in the C locale\<close>

definition isxdigit :: "byte \<Rightarrow> bool" where
  "isxdigit ch \<longleftrightarrow>
     (let c = of_char ch :: nat in 48 \<le> c \<and> c \<le> 57 \<or> 65 \<le> c \<and> c \<le> 70 \<or> 97 \<le> c \<and> c \<le> 102)"

text \<open>The condition on the two characters after a percent sign; the second one is read only after the first.\<close>

definition hex_pair :: "bytes \<Rightarrow> nat \<Rightarrow> nat option option" where
  "hex_pair m p =
     do { a \<leftarrow> byte_at m (p + 1);
          if isxdigit a
          then do { b \<leftarrow> byte_at m (p + 2);
                    Some (if isxdigit b then Some (fromhex a * 16 + fromhex b) else None) }
          else Some None }"

function decode_loop :: "bytes \<Rightarrow> nat \<Rightarrow> nat \<Rightarrow> (bytes \<times> nat) option" where
  "decode_loop m dst str =
     (if str < length m then
        if m ! str = NUL then do { m \<leftarrow> put_byte m dst NUL; Some (m, dst) }
        else do {
          num \<leftarrow> (if m ! str = CHR ''%'' then hex_pair m str else Some None);
          case num of
            Some n \<Rightarrow> if dst < length m then decode_loop (m[dst := char_of n]) (dst + 1) (str + 3) else None
          | None \<Rightarrow>
              if dst < length m
              then decode_loop (m[dst := if m ! str = CHR ''+'' then CHR '' '' else m ! str]) (dst + 1) (str + 1)
              else None
        }
      else None)"
  by pat_completeness auto
termination
  by (relation "measure (\<lambda>(m, dst, str). length m - str)") auto

declare decode_loop.simps [simp del]

text \<open>The memory afterwards and the end of the decoded string; \<^const>\<open>None\<close> as argument is NULL.\<close>

definition urlquery_decode :: "bytes \<Rightarrow> nat option \<Rightarrow> (bytes \<times> nat option) option" where
  "urlquery_decode m str =
     (case str of
        None \<Rightarrow> Some (m, None)
      | Some p \<Rightarrow> map_option (apsnd Some) (decode_loop m p p))"

text \<open>The C string at an address, and the library functions on it.\<close>

definition cstr_at :: "bytes \<Rightarrow> nat \<Rightarrow> bytes" where
  "cstr_at m p = cstr (drop p m)"

definition strchr_at :: "bytes \<Rightarrow> nat \<Rightarrow> byte \<Rightarrow> nat option" where
  "strchr_at m p c =
     (let k = length (takeWhile (\<lambda>x. x \<noteq> c) (cstr_at m p))
      in if k < length (cstr_at m p) then Some (p + k) else None)"

definition parse_pair :: "bytes \<Rightarrow> nat \<Rightarrow> (bytes \<times> nat \<times> nat) option" where
  "parse_pair m pair =
     (case strchr_at m pair (CHR ''='') of
        Some v \<Rightarrow>
          do { m \<leftarrow> put_byte m v NUL;
               (m, _) \<leftarrow> urlquery_decode m (Some pair);
               (m, _) \<leftarrow> urlquery_decode m (Some (v + 1));
               Some (m, pair, v + 1) }
      | None \<Rightarrow>
          do { (m, tmp) \<leftarrow> urlquery_decode m (Some pair);
               tmp \<leftarrow> tmp;
               Some (m, pair, tmp) })"

text \<open>
  The memory, the updated \<open>*str\<close> and the key and the value, if there is a pair. \<^const>\<open>None\<close> as
  argument is a NULL pointer.
\<close>

definition urlquery_next_pair :: "bytes \<Rightarrow> nat option \<Rightarrow> (bytes \<times> nat option \<times> (nat \<times> nat) option) option" where
  "urlquery_next_pair m str =
     (case str of
        None \<Rightarrow> Some (m, None, None)
      | Some cur \<Rightarrow>
          (let cur = cur + strspn (cstr_at m cur) ''&''
           in do {
             c \<leftarrow> byte_at m cur;
             if c = NUL then Some (m, Some cur, None)
             else do {
               let pair = cur;
               let cur = cur + strcspn (cstr_at m cur) ''&'';
               c \<leftarrow> byte_at m cur;
               (m, cur) \<leftarrow> (if c \<noteq> NUL then do { m \<leftarrow> put_byte m cur NUL; Some (m, cur + 1) } else Some (m, cur));
               (m, key, val) \<leftarrow> parse_pair m pair;
               Some (m, Some cur, Some (key, val))
             }
           }))"

section \<open>The reference\<close>

fun query_decode :: "bytes \<Rightarrow> bytes" where
  "query_decode (CHR ''%'' # a # b # s) =
     (if isxdigit a \<and> isxdigit b then char_of (fromhex a * 16 + fromhex b) # query_decode s
      else CHR ''%'' # query_decode (a # b # s))"
| "query_decode (c # s) = (if c = CHR ''+'' then CHR '' '' else c) # query_decode s"
| "query_decode [] = []"

text \<open>The value of the two hexadecimal digits after a percent sign at the start of a string.\<close>

fun hex_after :: "bytes \<Rightarrow> nat option" where
  "hex_after (c # a # b # s) =
     (if c = CHR ''%'' \<and> isxdigit a \<and> isxdigit b then Some (fromhex a * 16 + fromhex b) else None)"
| "hex_after _ = None"

lemma query_decode_step:
  "query_decode (c # s) =
     (case hex_after (c # s) of
        Some n \<Rightarrow> char_of n # query_decode (drop 2 s)
      | None \<Rightarrow> (if c = CHR ''+'' then CHR '' '' else c) # query_decode s)"
proof (cases "c = CHR ''%''")
  case True
  show ?thesis
  proof (cases s)
    case (Cons a t)
    with True show ?thesis by (cases t) simp_all
  qed (simp add: True)
next
  case False
  then have "query_decode (c # s) = (if c = CHR ''+'' then CHR '' '' else c) # query_decode s"
    by (cases "c # s" rule: query_decode.cases) auto
  moreover have "hex_after (c # s) = None" using False by (cases "c # s" rule: hex_after.cases) auto
  ultimately show ?thesis by simp
qed

lemma hex_after_length: "hex_after (c # s) = Some n \<Longrightarrow> 2 \<le> length s"
  by (cases "c # s" rule: hex_after.cases) auto

lemma length_query_decode: "length (query_decode s) \<le> length s"
proof (induction "length s" arbitrary: s rule: less_induct)
  case less
  show ?case
  proof (cases s)
    case (Cons c t)
    have "length (query_decode t) \<le> length t" "length (query_decode (drop 2 t)) \<le> length (drop 2 t)"
      using less [of t] less [of "drop 2 t"] Cons by simp_all
    then show ?thesis unfolding Cons query_decode_step by (cases "hex_after (c # t)") auto
  qed simp
qed

section \<open>Decoding in place\<close>

lemma NUL_not_xdigit [simp]: "\<not> isxdigit NUL"
  by (simp add: isxdigit_def)

lemma byte_at_drop: "drop p m = l \<Longrightarrow> i < length l \<Longrightarrow> byte_at m (p + i) = Some (l ! i)"
  by (auto simp: byte_at_def nth_drop)

lemma hex_pair_after:
  assumes d: "drop p m = CHR ''%'' # s @ NUL # r" and "NUL \<notin> set s"
  shows "hex_pair m p = Some (hex_after (CHR ''%'' # s))"
proof -
  have 1: "byte_at m (Suc p) = Some ((s @ NUL # r) ! 0)"
    using byte_at_drop [OF d, of 1] by simp
  show ?thesis
  proof (cases s)
    case Nil
    with 1 show ?thesis by (simp add: hex_pair_def)
  next
    case (Cons a t)
    have 2: "byte_at m (Suc (Suc p)) = Some ((t @ NUL # r) ! 0)"
      using byte_at_drop [OF d, of 2] Cons by simp
    show ?thesis using 1 2 Cons by (cases t) (simp_all add: hex_pair_def)
  qed
qed

lemma take_put: "dst < length m \<Longrightarrow> take (Suc dst) (m[dst := c]) = take dst m @ [c]"
  by (simp add: take_Suc_conv_app_nth)

lemma decode_loop_spec:
  assumes "drop str m = s @ NUL # r" and "NUL \<notin> set s" and "dst \<le> str"
  shows "decode_loop m dst str =
    Some (take dst m @ query_decode s @ NUL # drop (dst + length (query_decode s) + 1) m, dst + length (query_decode s))"
  using assms
proof (induction "length s" arbitrary: s m dst str rule: less_induct)
  case less
  note d = less.prems(1)
  have l: "str < length m" using d by (metis drop_eq_Nil append_is_Nil_conv list.distinct(1) not_le_imp_less)
  with less.prems(3) have dl: "dst < length m" by simp
  have h: "m ! str = hd (s @ NUL # r)" using d l by (metis hd_drop_conv_nth)
  show ?case
  proof (cases s)
    case Nil
    with l dl h show ?thesis
      by (simp add: decode_loop.simps [of m dst str] put_byte_def upd_conv_take_nth_drop)
  next
    case (Cons c t)
    then have c: "m ! str = c" "c \<noteq> NUL" using h less.prems(2) by auto
    define num where "num = hex_after s"
    have n: "(if m ! str = CHR ''%'' then hex_pair m str else Some None) = Some num"
    proof (cases "c = CHR ''%''")
      case True
      with hex_pair_after [of str m t r] d Cons less.prems(2) c show ?thesis by (simp add: num_def)
    next
      case False
      then have "hex_after (c # t) = None" by (cases "c # t" rule: hex_after.cases) auto
      with False c Cons show ?thesis by (simp add: num_def)
    qed
    define x where "x = (case num of Some n \<Rightarrow> char_of n | None \<Rightarrow> if c = CHR ''+'' then CHR '' '' else c)"
    define k where "k = (case num of Some n \<Rightarrow> (3 :: nat) | None \<Rightarrow> 1)"
    define u where "u = drop (k - 1) t"
    have e: "decode_loop m dst str = decode_loop (m[dst := x]) (Suc dst) (str + k)"
      using l dl c n by (simp add: decode_loop.simps [of m dst str] x_def k_def split: option.split)
    have q: "query_decode s = x # query_decode u"
      unfolding Cons query_decode_step by (simp add: x_def u_def k_def num_def Cons split: option.split)
    have kt: "k - 1 \<le> length t" "0 < k"
      using hex_after_length [of c t] by (auto simp: k_def num_def Cons split: option.split)
    have "drop (str + k) m = drop k (s @ NUL # r)" using d by (metis add.commute drop_drop)
    also have "\<dots> = u @ NUL # r" using kt unfolding Cons u_def by (cases k) simp_all
    finally have "drop (str + k) (m[dst := x]) = u @ NUL # r" using less.prems(3) kt by simp
    moreover have "length u < length s" "NUL \<notin> set u"
      using less.prems(2) by (auto simp: Cons u_def dest: in_set_dropD)
    ultimately have "decode_loop (m[dst := x]) (Suc dst) (str + k) =
      Some (take (Suc dst) (m[dst := x]) @ query_decode u @ NUL # drop (Suc dst + length (query_decode u) + 1) (m[dst := x]),
        Suc dst + length (query_decode u))"
      using less.prems(3) kt by (intro less.hyps) simp_all
    then show ?thesis using dl by (simp add: e q take_put)
  qed
qed

text \<open>What a caller sees: the decoded string, and nothing changed before it or behind its old end.\<close>

lemma decode_in_place:
  assumes d: "drop p m = s @ NUL # r" and "NUL \<notin> set s"
  obtains m' where "urlquery_decode m (Some p) = Some (m', Some (p + length (query_decode s)))"
    and "length m' = length m" and "take p m' = take p m" and "drop (p + length s) m' = NUL # r"
    and "cstr_at m' p = cstr (query_decode s)" and "cstr_at m' (p + length (query_decode s)) = []"
proof -
  let ?q = "query_decode s"
  let ?m = "take p m @ ?q @ NUL # drop (p + length ?q + 1) m"
  have p: "p + length s < length m" using arg_cong [OF d, of length] by simp
  have q: "length ?q \<le> length s" by (rule length_query_decode)
  have dn: "drop (p + length ?q) ?m = NUL # drop (p + length ?q + 1) m" using p by simp
  have "drop (p + length s) ?m = NUL # r"
  proof -
    have s: "drop (p + length s) m = NUL # r" using d by (metis add.commute append_eq_conv_conj drop_drop)
    show ?thesis
    proof (cases "length ?q = length s")
      case True
      have "drop (p + length s + 1) m = tl (drop (p + length s) m)" by (simp add: drop_Suc tl_drop)
      with dn s True show ?thesis by simp
    next
      case False
      then have "drop (p + length s) ?m = drop (length s - length ?q) (drop (p + length ?q) ?m)"
        using q by (simp add: add.commute del: drop_append)
      also have "\<dots> = drop (length s - length ?q - 1) (drop (p + length ?q + 1) m)"
        unfolding dn using False q by (cases "length s - length ?q") simp_all
      also have "\<dots> = drop (length s - length ?q - 1 + (p + length ?q + 1)) m" by (rule drop_drop)
      also have "length s - length ?q - 1 + (p + length ?q + 1) = p + length s" using False q by linarith
      finally show ?thesis using s by simp
    qed
  qed
  moreover have "length ?m = length m" "take p ?m = take p m" using p q by simp_all
  moreover have "cstr_at ?m p = cstr ?q"
    using p by (simp add: cstr_at_def cstr_def takeWhile_tail)
  moreover have "cstr_at ?m (p + length ?q) = []" unfolding cstr_at_def dn by (simp add: cstr_def)
  moreover have "urlquery_decode m (Some p) = Some (?m, Some (p + length ?q))"
    using decode_loop_spec [OF assms] by (simp add: urlquery_decode_def)
  ultimately show thesis by (intro that)
qed

section \<open>Pairs\<close>

text \<open>
  The reference: the pairs are the non-empty parts between ampersands; the first equals sign
  separates the key from the value, and without one the value is empty. A decoded NUL byte ends
  the string a C program sees.
\<close>

abbreviation amp :: "byte \<Rightarrow> bool" where
  "amp \<equiv> \<lambda>c. c = CHR ''&''"

definition query_pair :: "bytes \<Rightarrow> bytes \<times> bytes" where
  "query_pair t = (cstr (query_decode (takeWhile (\<lambda>c. c \<noteq> CHR ''='') t)),
     cstr (query_decode (drop 1 (dropWhile (\<lambda>c. c \<noteq> CHR ''='') t))))"

definition query_pairs :: "bytes \<Rightarrow> (bytes \<times> bytes) list" where
  "query_pairs s = map query_pair (fields_of amp s)"

lemma cstr_at_drop: "drop p m = s @ NUL # r \<Longrightarrow> NUL \<notin> set s \<Longrightarrow> cstr_at m p = s"
  using cstr_id [of s] by (simp add: cstr_at_def cstr_def takeWhile_tail)

lemma byte_at_end: "drop p m = s @ c # r \<Longrightarrow> byte_at m (p + length s) = Some c"
  by (simp add: byte_at_drop [of p m "s @ c # r"])

lemma put_byte_drop:
  assumes "drop p m = s @ c # r"
  obtains m' where "put_byte m (p + length s) x = Some m'" and "drop p m' = s @ x # r" and "length m' = length m"
proof
  have "p + length s < length m" using arg_cong [OF assms, of length] by simp
  then show "put_byte m (p + length s) x = Some (m[p + length s := x])" by (simp add: put_byte_def)
  show "drop p (m[p + length s := x]) = s @ x # r"
    using assms by (simp add: drop_update_swap list_update_append)
qed simp

lemma drop_further: "drop p m = s @ r \<Longrightarrow> drop (p + length s) m = r"
  by (metis add.commute append_eq_conv_conj drop_drop)

text \<open>A string that ends before an address depends on the bytes up to there only.\<close>

lemma cstr_at_prefix:
  assumes "take (v + 1) m' = take (v + 1) m" and "drop v m = NUL # r" and "p \<le> v"
  shows "cstr_at m' p = cstr_at m p"
proof -
  have l: "v < length m" using assms(2) by (metis drop_eq_Nil list.distinct(1) not_le_imp_less)
  have n: "m ! v = NUL" using assms(2) l by (metis hd_drop_conv_nth list.sel(1))
  have l': "v < length m'" using arg_cong [OF assms(1), of length] l by simp
  have split: "drop p x = drop p (take (v + 1) x) @ drop (v + 1) x" if "v < length x" for x :: bytes
  proof -
    have "drop p (take (v + 1) x @ drop (v + 1) x) = drop p (take (v + 1) x) @ drop (v + 1) x"
      using that assms(3) by (simp only: drop_append length_take min_def) simp
    then show ?thesis by simp
  qed
  have "NUL \<in> set (drop p (take (v + 1) m))"
  proof -
    have "drop p (take (v + 1) m) ! (v - p) = NUL" "v - p < length (drop p (take (v + 1) m))"
      using assms(3) l n by simp_all
    then show ?thesis by (metis nth_mem)
  qed
  then show ?thesis
    unfolding cstr_at_def cstr_def split [OF l] split [OF l'] assms(1) by (simp add: takeWhile_append1)
qed

lemma parse_pair_spec:
  assumes d: "drop p m = t @ NUL # r" and t: "NUL \<notin> set t"
  obtains m' k v where "parse_pair m p = Some (m', k, v)" and "length m' = length m"
    and "drop (p + length t) m' = NUL # r" and "(cstr_at m' k, cstr_at m' v) = query_pair t"
proof (cases "CHR ''='' \<in> set t")
  case False
  then have w: "takeWhile (\<lambda>c. c \<noteq> CHR ''='') t = t" "dropWhile (\<lambda>c. c \<noteq> CHR ''='') t = []" by auto
  have "strchr_at m p (CHR ''='') = None" by (simp only: strchr_at_def cstr_at_drop [OF d t] Let_def w) simp
  moreover obtain m' where "urlquery_decode m (Some p) = Some (m', Some (p + length (query_decode t)))"
    "length m' = length m" "drop (p + length t) m' = NUL # r" "cstr_at m' p = cstr (query_decode t)"
    "cstr_at m' (p + length (query_decode t)) = []" using decode_in_place [OF d t] .
  ultimately show ?thesis by (intro that [of m' p]) (simp_all add: parse_pair_def query_pair_def cstr_def w del: takeWhile_eq_all_conv)
next
  case True
  then obtain k w where t': "t = k @ CHR ''='' # w" "CHR ''='' \<notin> set k" by (meson split_list_first)
  define v where "v = p + length k"
  have k: "\<forall>c\<in>set k. c \<noteq> CHR ''=''" using t'(2) by blast
  have kw: "takeWhile (\<lambda>c. c \<noteq> CHR ''='') t = k" "dropWhile (\<lambda>c. c \<noteq> CHR ''='') t = CHR ''='' # w"
    using k by (simp_all add: t'(1) takeWhile_append2 dropWhile_append2)
  have s: "strchr_at m p (CHR ''='') = Some v" using kw by (simp add: strchr_at_def cstr_at_drop [OF d t] Let_def v_def t'(1))
  have nk: "NUL \<notin> set k" "NUL \<notin> set w" using t by (auto simp: t'(1))
  have d0: "drop p m = k @ CHR ''='' # w @ NUL # r" using d by (simp add: t'(1))
  obtain m1 where m1: "put_byte m v NUL = Some m1" "drop p m1 = k @ NUL # w @ NUL # r" "length m1 = length m"
    using put_byte_drop [OF d0] unfolding v_def .
  obtain m2 where m2: "urlquery_decode m1 (Some p) = Some (m2, Some (p + length (query_decode k)))" "length m2 = length m1"
    "drop v m2 = NUL # w @ NUL # r" "cstr_at m2 p = cstr (query_decode k)"
    using decode_in_place [OF m1(2) nk(1)] unfolding v_def by blast
  have d2: "drop (v + 1) m2 = w @ NUL # r" using drop_further [of v m2 "[NUL]"] m2(3) by simp
  obtain m3 where m3: "urlquery_decode m2 (Some (v + 1)) = Some (m3, Some (v + 1 + length (query_decode w)))"
    "length m3 = length m2" "take (v + 1) m3 = take (v + 1) m2" "drop (v + 1 + length w) m3 = NUL # r"
    "cstr_at m3 (v + 1) = cstr (query_decode w)"
    using decode_in_place [OF d2 nk(2)] by blast
  have "cstr_at m3 p = cstr (query_decode k)" using cstr_at_prefix [OF m3(3) m2(3)] m2(4) by (simp add: v_def)
  moreover have "parse_pair m p = Some (m3, p, v + 1)" using s m1 m2 m3 by (simp add: parse_pair_def)
  ultimately show ?thesis
    using m1(3) m2(2) m3 kw by (intro that [of m3 p "v + 1"]) (simp_all add: query_pair_def t'(1) v_def add.assoc)
qed

text \<open>One call: the first pair of the string, or the end of it.\<close>

lemma next_pair_spec:
  assumes d: "drop p m = s @ NUL # r" and s: "NUL \<notin> set s"
  shows "\<exists>m' q. length m' = length m \<and>
     (case fields_of amp s of
        [] \<Rightarrow> urlquery_next_pair m (Some p) = Some (m', Some q, None) \<and> m' = m \<and> q = p + length s
      | t # ts \<Rightarrow> \<exists>k v u. urlquery_next_pair m (Some p) = Some (m', Some q, Some (k, v))
          \<and> (cstr_at m' k, cstr_at m' v) = query_pair t \<and> drop q m' = u @ NUL # r \<and> NUL \<notin> set u
          \<and> fields_of amp u = ts \<and> length u < length s)"
proof -
  let ?a = "takeWhile amp s" and ?s = "dropWhile amp s"
  have f: "fields_of amp s = fields_of amp ?s" by (induction s) auto
  define c where "c = p + length ?a"
  have dc: "drop c m = ?s @ NUL # r"
    using drop_further [of p m ?a "?s @ NUL # r"] d takeWhile_dropWhile_id [of amp s] by (simp add: c_def)
  have sp: "strspn (cstr_at m p) ''&'' = length ?a" by (simp add: strspn_def cstr_at_drop [OF d s])
  have ns: "NUL \<notin> set ?s" using s by (auto dest: set_dropWhileD)
  show ?thesis
  proof (cases ?s)
    case Nil
    then have "length ?a = length s" using takeWhile_dropWhile_id [of amp s] by (metis append_Nil2)
    moreover have "byte_at m c = Some NUL" using byte_at_end [of c m "[]" NUL r] dc Nil by simp
    moreover have "fields_of amp s = []" unfolding f Nil by simp
    ultimately show ?thesis
      using sp by (intro exI [of _ m] exI [of _ c]) (simp add: urlquery_next_pair_def c_def)
  next
    case (Cons x y)
    then have x: "x \<noteq> CHR ''&''" by (metis (mono_tags) hd_dropWhile list.distinct(1) list.sel(1))
    define t where "t = takeWhile (\<lambda>c. c \<noteq> CHR ''&'') ?s"
    define w where "w = dropWhile (\<lambda>c. c \<noteq> CHR ''&'') ?s"
    have tw: "?s = t @ w" by (simp add: t_def w_def)
    have t0: "t \<noteq> []" "NUL \<notin> set t" "NUL \<notin> set w"
      using x ns unfolding t_def w_def Cons by (auto dest: set_takeWhileD set_dropWhileD)
    have ff: "fields_of amp ?s = t # fields_of amp w" unfolding t_def w_def by (simp add: Cons x)
    have b0: "byte_at m c = Some x" "x \<noteq> NUL"
      using byte_at_end [of c m "[]" x "y @ NUL # r"] dc Cons ns by auto
    have cs: "strcspn (cstr_at m c) ''&'' = length t"
      by (simp add: strcspn_def cstr_at_drop [OF dc ns] t_def)
    have dt: "drop c m = t @ w @ NUL # r" using dc tw by simp
    have ls: "length t + length w \<le> length s"
      using arg_cong [OF tw, of length] length_dropWhile_le [of amp s] by simp
    show ?thesis
    proof (cases w)
      case Nil
      with dt have d1: "drop c m = t @ NUL # r" by simp
      obtain m' k v where p: "parse_pair m c = Some (m', k, v)" "length m' = length m"
        "drop (c + length t) m' = NUL # r" "(cstr_at m' k, cstr_at m' v) = query_pair t"
        by (rule parse_pair_spec [OF d1 t0(2)])
      have n: "urlquery_next_pair m (Some p) = Some (m', Some (c + length t), Some (k, v))"
        using sp b0 cs p(1) byte_at_end [OF d1] by (simp add: urlquery_next_pair_def flip: c_def)
      have "0 < length t" using t0(1) by simp
      then have s0: "length ([] :: bytes) < length s" using ls by (cases s) auto
      have u: "drop (c + length t) m' = [] @ NUL # r" "NUL \<notin> set ([] :: bytes)" using p(3) by simp_all
      have g: "fields_of amp s = t # fields_of amp []" using ff f Nil by simp
      show ?thesis unfolding g list.case
        by (rule exI [of _ m'], rule exI [of _ "c + length t"], rule conjI, rule p(2), rule exI [of _ k],
            rule exI [of _ v], rule exI [of _ "[]"]) (intro conjI n p(4) u s0 refl)
    next
      case (Cons z u)
      have z: "z = CHR ''&''" using hd_dropWhile [of "\<lambda>c. c \<noteq> CHR ''&''" ?s, folded w_def] Cons by simp
      from dt Cons have d1: "drop c m = t @ z # u @ NUL # r" by simp
      obtain m1 where m1: "put_byte m (c + length t) NUL = Some m1" "drop c m1 = t @ NUL # u @ NUL # r" "length m1 = length m"
        using put_byte_drop [OF d1] .
      obtain m' k v where p: "parse_pair m1 c = Some (m', k, v)" "length m' = length m1"
        "drop (c + length t) m' = NUL # u @ NUL # r" "(cstr_at m' k, cstr_at m' v) = query_pair t"
        by (rule parse_pair_spec [OF m1(2) t0(2)])
      have n: "urlquery_next_pair m (Some p) = Some (m', Some (c + length t + 1), Some (k, v))"
        using sp b0 cs p(1) m1(1) byte_at_end [OF d1] z by (simp add: urlquery_next_pair_def flip: c_def)
      have du: "drop (c + length t + 1) m' = u @ NUL # r"
        using drop_further [of "c + length t" m' "[NUL]"] p(3) by simp
      have "fields_of amp w = fields_of amp u" using Cons z by simp
      then have g: "fields_of amp s = t # fields_of amp u" using ff f by simp
      have b: "NUL \<notin> set u" "length u < length s" "length m' = length m"
        using t0 ls Cons p(2) m1(3) by auto
      show ?thesis unfolding g list.case
        by (rule exI [of _ m'], rule exI [of _ "c + length t + 1"], rule conjI, rule b(3), rule exI [of _ k],
            rule exI [of _ v], rule exI [of _ u]) (intro conjI n p(4) du b refl)
    qed
  qed
qed

text \<open>A caller that reads the pairs of a query string until there are no more.\<close>

fun all_pairs :: "nat \<Rightarrow> bytes \<Rightarrow> nat option \<Rightarrow> (bytes \<times> bytes) list option" where
  "all_pairs 0 m str = None"
| "all_pairs (Suc n) m str =
     do { (m, str, kv) \<leftarrow> urlquery_next_pair m str;
          case kv of
            None \<Rightarrow> Some []
          | Some (k, v) \<Rightarrow> map_option (Cons (cstr_at m k, cstr_at m v)) (all_pairs n m str) }"

lemma all_pairs_fields:
  assumes "drop p m = s @ NUL # r" and "NUL \<notin> set s" and "length s < n"
  shows "all_pairs n m (Some p) = Some (map query_pair (fields_of amp s))"
  using assms
proof (induction n arbitrary: s p m)
  case (Suc n)
  note sp = next_pair_spec [OF Suc.prems(1,2)]
  show ?case
  proof (cases "fields_of amp s")
    case Nil
    with sp show ?thesis by auto
  next
    case (Cons t ts)
    with sp obtain m' q k v u where u: "urlquery_next_pair m (Some p) = Some (m', Some q, Some (k, v))"
      "(cstr_at m' k, cstr_at m' v) = query_pair t" "drop q m' = u @ NUL # r" "NUL \<notin> set u"
      "fields_of amp u = ts" "length u < length s" by auto
    with Suc.IH [OF u(3,4)] Suc.prems(3) Cons show ?thesis by simp
  qed
qed simp

section \<open>Encoding\<close>

text \<open>
  How a client encodes a query string: letters and digits stand for themselves, all other bytes
  are written as a percent sign and two hexadecimal digits.
\<close>

definition hex_digit :: "nat \<Rightarrow> byte" where
  "hex_digit d = char_of (if d < 10 then 48 + d else 55 + d)"

definition plain_char :: "byte \<Rightarrow> bool" where
  "plain_char ch \<longleftrightarrow>
     (let c = of_char ch :: nat in 48 \<le> c \<and> c \<le> 57 \<or> 65 \<le> c \<and> c \<le> 90 \<or> 97 \<le> c \<and> c \<le> 122)"

definition pct :: "byte \<Rightarrow> bytes" where
  "pct c = (if plain_char c then [c] else [CHR ''%'', hex_digit (of_char c div 16), hex_digit (of_char c mod 16)])"

definition query_encode :: "bytes \<Rightarrow> bytes" where
  "query_encode s = concat (map pct s)"

definition encode_pair :: "bytes \<times> bytes \<Rightarrow> bytes" where
  "encode_pair kv = query_encode (fst kv) @ CHR ''='' # query_encode (snd kv)"

fun encode_pairs :: "(bytes \<times> bytes) list \<Rightarrow> bytes" where
  "encode_pairs [] = []"
| "encode_pairs (kv # kvs) = encode_pair kv @ (if kvs = [] then [] else CHR ''&'' # encode_pairs kvs)"

lemma nat_less_16: "d < 16 \<Longrightarrow> d \<in> set [0 ..< 16]" for d :: nat
  by simp

lemma hex_digit_props:
  assumes "d < 16"
  shows "isxdigit (hex_digit d)" and "fromhex (hex_digit d) = d" and "plain_char (hex_digit d)"
proof -
  have "\<forall>d\<in>set [0 ..< 16]. isxdigit (hex_digit d) \<and> fromhex (hex_digit d) = d \<and> plain_char (hex_digit d)"
    by (simp add: upt_rec isxdigit_def fromhex_def hex_digit_def plain_char_def Let_def)
  with assms show "isxdigit (hex_digit d)" "fromhex (hex_digit d) = d" "plain_char (hex_digit d)"
    using nat_less_16 by blast+
qed

lemma nibble_less: "of_char c div 16 < (16 :: nat)" "of_char c mod 16 < (16 :: nat)"
proof -
  have "(of_char c :: nat) < 256" using nat_of_char_less_256 by simp
  then show "of_char c div 16 < (16 :: nat)" by linarith
qed simp

lemma query_decode_pct: "query_decode (pct c @ s) = c # query_decode s"
proof (cases "plain_char c")
  case True
  then have "c \<noteq> CHR ''%''" "c \<noteq> CHR ''+''" by (auto simp: plain_char_def)
  then have "hex_after (c # s) = None" by (cases "c # s" rule: hex_after.cases) auto
  with True \<open>c \<noteq> CHR ''+''\<close> show ?thesis by (simp add: pct_def query_decode_step)
next
  case False
  have "(of_char c :: nat) div 16 * 16 + of_char c mod 16 = of_char c" by simp
  with False show ?thesis by (simp add: pct_def hex_digit_props nibble_less)
qed

lemma query_decode_encode: "query_decode (query_encode s) = s"
  by (induction s) (simp_all add: query_encode_def query_decode_pct)

lemma pct_chars: "x \<in> set (pct c) \<Longrightarrow> plain_char x \<or> x = CHR ''%''"
  by (auto simp: pct_def hex_digit_props nibble_less split: if_splits)

lemma encode_chars: "x \<in> set (query_encode s) \<Longrightarrow> plain_char x \<or> x = CHR ''%''"
  by (auto simp: query_encode_def dest: pct_chars)

lemma encode_no_separators:
  "CHR ''='' \<notin> set (query_encode s)" "CHR ''&'' \<notin> set (query_encode s)" "NUL \<notin> set (query_encode s)"
  by (auto simp: plain_char_def dest: encode_chars)

lemma query_pair_encoded:
  assumes "NUL \<notin> set (fst kv)" and "NUL \<notin> set (snd kv)"
  shows "query_pair (encode_pair kv) = kv"
proof -
  have "\<forall>c\<in>set (query_encode (fst kv)). c \<noteq> CHR ''=''" using encode_no_separators(1) by blast
  then show ?thesis
    using assms by (simp add: query_pair_def encode_pair_def takeWhile_append2 dropWhile_append2
        query_decode_encode cstr_id)
qed

lemma encode_pair_field:
  "encode_pair kv \<noteq> []" "\<forall>c\<in>set (encode_pair kv). \<not> amp c" "NUL \<notin> set (encode_pair kv)"
  using encode_no_separators by (auto simp: encode_pair_def)

lemma fields_of_encoded: "fields_of amp (encode_pairs kvs) = map encode_pair kvs"
proof (induction kvs)
  case (Cons kv kvs)
  then show ?case
    using fields_of_field [OF encode_pair_field(1,2) [of kv]] by simp
qed simp

lemma encode_pairs_no_NUL: "NUL \<notin> set (encode_pairs kvs)"
  using encode_pair_field(3) by (induction kvs) auto

section \<open>Properties\<close>



text \<open>
  C32. Any list of keys and values, whatever characters but NUL they contain, survives encoding
  and reading.
\<close>

theorem urlquery_roundtrip:
  assumes "\<forall>(k, v)\<in>set kvs. NUL \<notin> set k \<and> NUL \<notin> set v" and "length (encode_pairs kvs) < n"
  shows "all_pairs n (encode_pairs kvs @ [NUL]) (Some 0) = Some kvs"
proof -
  have "map query_pair (map encode_pair kvs) = kvs"
    using assms(1) query_pair_encoded by (induction kvs) auto
  with all_pairs_fields [OF _ encode_pairs_no_NUL assms(2), of 0 _ "[]"] show ?thesis
    by (simp add: fields_of_encoded)
qed

theorem urlquery_roundtrip_witness:
  "all_pairs 30 (encode_pairs [(''a&b'', ''='')] @ [NUL]) (Some 0) = Some [(''a&b'', ''='')]"
  using urlquery_roundtrip [of "[(''a&b'', ''='')]" 30]
  by (simp add: encode_pair_def query_encode_def pct_def plain_char_def)

end
