(* ===== verification/Arena.thy ===== *)
theory Arena
  imports Buf
begin

text \<open>
  The linear allocators \<^verbatim>\<open>lib/alloc/linvar.c\<close> (chunks of any size, from \<open>mmap\<close>) and
  \<^verbatim>\<open>lib/alloc/linfix.c\<close> (elements of one size, from \<open>calloc\<close>). Memory is handed out from the
  front of the newest block and given back all at once. The list of blocks is in the order of the
  \<open>next\<close> pointers, newest first; a pointer is the number of the block, counted from the oldest one,
  and an offset into its data. The interface both have in common is the locale \<open>arena\<close>.
\<close>

unbundle bit_operations_syntax

type_synonym chunk_ptr = "nat \<times> nat"

section \<open>Variably sized chunks\<close>

record linvar_block =
  lv_offset :: size_t
  lv_cap :: size_t
  lv_chunks :: bytes

record linvar_ctx =
  lv_blksize :: size_t
  lv_blkmask :: size_t
  lv_blks :: "linvar_block list"

definition CHUNK_ALIGNMENT :: size_t where "CHUNK_ALIGNMENT = 4"
definition DFL_BLK_ALIGNMENT :: int where "DFL_BLK_ALIGNMENT = 4096"
definition sizeof_linvar_block :: size_t where "sizeof_linvar_block = 24"

text \<open>\<open>pagesz\<close> is the answer of \<open>sysconf\<close>.\<close>

definition linvar_init :: "int \<Rightarrow> size_t \<Rightarrow> linvar_ctx" where
  "linvar_init pagesz blksize =
     (let pagesz = (if pagesz \<le> 0 then DFL_BLK_ALIGNMENT else pagesz);
          blkmask = word_of_int pagesz - 1
      in \<lparr>lv_blksize = (blksize + blkmask) AND NOT blkmask, lv_blkmask = blkmask, lv_blks = []\<rparr>)"

text \<open>The mappings that are removed, by their sizes.\<close>

definition linvar_cleanup :: "linvar_ctx \<Rightarrow> size_t list" where
  "linvar_cleanup ctx = map (\<lambda>b. lv_cap b + sizeof_linvar_block) (lv_blks ctx)"

text \<open>\<open>ok\<close> is whether \<open>mmap\<close> succeeds; a new mapping is zeroed.\<close>

definition linvar_alloc :: "allocator \<Rightarrow> linvar_ctx \<Rightarrow> size_t \<Rightarrow> chunk_ptr option \<times> linvar_ctx" where
  "linvar_alloc ok ctx len =
     (if len = 0 \<or> len > 0xffffffff then (None, ctx)
      else
        (let chunk_needed = (len + CHUNK_ALIGNMENT - 1) AND NOT (CHUNK_ALIGNMENT - 1);
             fits = (case lv_blks ctx of [] \<Rightarrow> False | b # _ \<Rightarrow> \<not> lv_cap b - lv_offset b < chunk_needed);
             blk_needed = (sizeof_linvar_block + chunk_needed + lv_blkmask ctx) AND NOT (lv_blkmask ctx);
             blk_needed = (if lv_blksize ctx > blk_needed then lv_blksize ctx else blk_needed);
             cap = blk_needed - sizeof_linvar_block
         in if \<not> fits \<and> \<not> ok blk_needed then (None, ctx)
            else
              (let ctx = (if fits then ctx
                          else ctx\<lparr>lv_blks := \<lparr>lv_offset = 0, lv_cap = cap, lv_chunks = replicate (unat cap) NUL\<rparr>
                                              # lv_blks ctx\<rparr>)
               in case lv_blks ctx of
                    [] \<Rightarrow> (None, ctx)
                  | b # bs \<Rightarrow> (Some (length bs, unat (lv_offset b)),
                                ctx\<lparr>lv_blks := b\<lparr>lv_offset := lv_offset b + chunk_needed\<rparr> # bs\<rparr>))))"

text \<open>\<^const>\<open>None\<close> as a whole is a \<open>memcpy\<close> outside the block.\<close>

definition linvar_strdup :: "allocator \<Rightarrow> linvar_ctx \<Rightarrow> bytes \<Rightarrow> (chunk_ptr option \<times> linvar_ctx) option" where
  "linvar_strdup ok ctx s =
     (let s = cstr s @ [NUL]
      in case linvar_alloc ok ctx (of_nat (length s)) of
           (None, ctx) \<Rightarrow> Some (None, ctx)
         | (Some (k, off), ctx) \<Rightarrow>
             (case lv_blks ctx of
                [] \<Rightarrow> None
              | b # bs \<Rightarrow>
                  do { d \<leftarrow> poke off s (lv_chunks b);
                       Some (Some (k, off), ctx\<lparr>lv_blks := b\<lparr>lv_chunks := d\<rparr> # bs\<rparr>) }))"

section \<open>Elements of one size\<close>

record linfix_block =
  lf_used :: u32
  lf_data :: bytes

record linfix_ctx =
  lf_size :: u32
  lf_nmemb :: u32
  lf_blks :: "linfix_block list"

definition linfix_init :: "u32 \<Rightarrow> u32 \<Rightarrow> linfix_ctx" where
  "linfix_init sz nmemb = \<lparr>lf_size = sz, lf_nmemb = nmemb, lf_blks = []\<rparr>"

text \<open>The number of blocks that are freed.\<close>

definition linfix_cleanup :: "linfix_ctx \<Rightarrow> nat" where
  "linfix_cleanup ctx = length (lf_blks ctx)"

text \<open>
  \<open>nmemb * size\<close> and \<open>used * size\<close> are products of unsigned ints and wrap at \<open>2 ^ 32\<close>. The data
  starts at byte 12 of a block, whose struct has 16 bytes.
\<close>

definition linfix_alloc :: "allocator \<Rightarrow> linfix_ctx \<Rightarrow> chunk_ptr option \<times> linfix_ctx" where
  "linfix_alloc ok ctx =
     (let fits = (case lf_blks ctx of [] \<Rightarrow> False | b # _ \<Rightarrow> lf_used b \<noteq> lf_nmemb ctx);
          n = (16 :: size_t) + ucast (lf_nmemb ctx * lf_size ctx)
      in if \<not> fits \<and> \<not> ok n then (None, ctx)
         else
           (let ctx = (if fits then ctx
                       else ctx\<lparr>lf_blks := \<lparr>lf_used = 0, lf_data = replicate (unat n - 12) NUL\<rparr> # lf_blks ctx\<rparr>)
            in case lf_blks ctx of
                 [] \<Rightarrow> (None, ctx)
               | b # bs \<Rightarrow> (Some (length bs, unat (lf_used b * lf_size ctx)),
                             ctx\<lparr>lf_blks := b\<lparr>lf_used := lf_used b + 1\<rparr> # bs\<rparr>)))"

section \<open>The interface\<close>

text \<open>A client that makes requests in a row, with the state and the answer of each.\<close>

fun run_allocs :: "('s \<Rightarrow> 'r \<Rightarrow> chunk_ptr option \<times> 's) \<Rightarrow> 's \<Rightarrow> 'r list \<Rightarrow> (chunk_ptr option \<times> 'r) list \<times> 's" where
  "run_allocs alloc s [] = ([], s)"
| "run_allocs alloc s (r # rs) =
     (let (p, s1) = alloc s r; (ps, s2) = run_allocs alloc s1 rs in ((p, r) # ps, s2))"

text \<open>The bytes of a request that was answered.\<close>

fun region :: "('r \<Rightarrow> nat) \<Rightarrow> chunk_ptr option \<times> 'r \<Rightarrow> (nat \<times> nat) set" where
  "region len (Some (b, off), r) = {b} \<times> {off..<off + len r}"
| "region len (None, r) = {}"

text \<open>
  Of block \<open>b\<close> the first \<open>used s b\<close> bytes are handed out, of \<open>room s b\<close> bytes in all (none, before
  there is such a block). A new chunk lies behind what was handed out before.
\<close>

locale arena =
  fixes inv :: "'s \<Rightarrow> bool"
    and len :: "'r \<Rightarrow> nat"
    and alloc :: "'s \<Rightarrow> 'r \<Rightarrow> chunk_ptr option \<times> 's"
    and used room :: "'s \<Rightarrow> nat \<Rightarrow> nat"
  assumes within: "inv s \<Longrightarrow> used s b \<le> room s b"
    and kept: "inv s \<Longrightarrow> alloc s r = (p, s') \<Longrightarrow> inv s' \<and> used s b \<le> used s' b \<and> room s b \<le> room s' b"
    and granted: "inv s \<Longrightarrow> alloc s r = (Some (b, off), s') \<Longrightarrow> used s b \<le> off \<and> off + len r \<le> used s' b"
begin

lemma run_kept:
  "inv s \<Longrightarrow> run_allocs alloc s rs = (ps, s') \<Longrightarrow> inv s' \<and> used s b \<le> used s' b \<and> room s b \<le> room s' b"
proof (induction rs arbitrary: s ps)
  case (Cons r rs)
  obtain p s1 where a: "alloc s r = (p, s1)" by fastforce
  obtain qs where "run_allocs alloc s1 rs = (qs, s')" using Cons.prems(2) a by (auto simp: split_beta prod_eq_iff)
  with Cons.IH [of s1 qs] kept [OF Cons.prems(1) a, of b] show ?case by auto
qed simp

lemma run_regions:
  assumes "inv s" and "run_allocs alloc s rs = (ps, s')" and "pr \<in> set ps"
  shows "region len pr \<subseteq> {(b, i). used s b \<le> i \<and> i < used s' b}"
  using assms
proof (induction rs arbitrary: s ps)
  case (Cons r rs)
  obtain p s1 where a: "alloc s r = (p, s1)" by fastforce
  obtain qs where q: "run_allocs alloc s1 rs = (qs, s')" "ps = (p, r) # qs"
    using Cons.prems(2) a by (auto simp: split_beta prod_eq_iff)
  have i: "inv s1" and m: "\<And>b. used s b \<le> used s1 b" using kept [OF Cons.prems(1) a] by auto
  note m2 = run_kept [OF i q(1)]
  show ?case
  proof (cases "pr \<in> set qs")
    case True
    from Cons.IH [OF i q(1) True] m show ?thesis by (auto intro: order_trans)
  next
    case False
    with Cons.prems(3) q(2) have pr: "pr = (p, r)" by simp
    show ?thesis
    proof (cases p)
      case (Some bo)
      obtain b off where "bo = (b, off)" by fastforce
      with Some a granted [OF Cons.prems(1)] have "used s b \<le> off \<and> off + len r \<le> used s1 b" by simp
      with m2 [of b] show ?thesis unfolding pr Some \<open>bo = (b, off)\<close> by auto
    qed (simp add: pr)
  qed
qed simp

text \<open>Chunks never overlap, and lie inside their block.\<close>

lemma run_disjoint:
  assumes "inv s" and "run_allocs alloc s rs = (ps, s')"
  shows "(\<forall>i<length ps. \<forall>j<i. region len (ps ! j) \<inter> region len (ps ! i) = {})
    \<and> (\<forall>pr\<in>set ps. region len pr \<subseteq> {(b, i). i < room s' b})"
proof
  show "\<forall>i<length ps. \<forall>j<i. region len (ps ! j) \<inter> region len (ps ! i) = {}"
    using assms
  proof (induction rs arbitrary: s ps)
    case (Cons r rs)
    obtain p s1 where a: "alloc s r = (p, s1)" by fastforce
    obtain qs where q: "run_allocs alloc s1 rs = (qs, s')" "ps = (p, r) # qs"
      using Cons.prems(2) a by (auto simp: split_beta prod_eq_iff)
    have i: "inv s1" using kept [OF Cons.prems(1) a] by auto
    have p: "region len (p, r) \<subseteq> {(b, i). i < used s1 b}"
    proof (cases p)
      case (Some bo)
      obtain b off where "bo = (b, off)" by fastforce
      with Some a granted [OF Cons.prems(1)] have "off + len r \<le> used s1 b" by simp
      then show ?thesis unfolding Some \<open>bo = (b, off)\<close> by auto
    qed simp
    have "region len (p, r) \<inter> region len (qs ! k) = {}" if "k < length qs" for k
      using p run_regions [OF i q(1) nth_mem [OF that]] by fastforce
    with Cons.IH [OF i q(1)] show ?case unfolding q(2) by (auto simp: nth_Cons split: nat.split)
  qed simp
  have "used s' b \<le> room s' b" for b using run_kept [OF assms] within by blast
  then show "\<forall>pr\<in>set ps. region len pr \<subseteq> {(b, i). i < room s' b}"
    using run_regions [OF assms] by (fastforce intro: order_less_le_trans)
qed

end

section \<open>Chunks\<close>

definition lv_block_ok :: "linvar_block \<Rightarrow> bool" where
  "lv_block_ok b \<longleftrightarrow> lv_offset b \<le> lv_cap b \<and> unat (lv_cap b) < 2 ^ 62
     \<and> length (lv_chunks b) = unat (lv_cap b) \<and> 4 dvd unat (lv_offset b)"

definition linvar_inv :: "linvar_ctx \<Rightarrow> bool" where
  "linvar_inv ctx \<longleftrightarrow> (\<exists>k\<le>30. lv_blkmask ctx = mask k) \<and> unat (lv_blksize ctx) < 2 ^ 62
     \<and> (\<forall>b\<in>set (lv_blks ctx). lv_block_ok b)"

text \<open>Block \<open>k\<close>, counted from the oldest one.\<close>

definition at_block :: "('b \<Rightarrow> nat) \<Rightarrow> 'b list \<Rightarrow> nat \<Rightarrow> nat" where
  "at_block f bs k = (if k < length bs then f (rev bs ! k) else 0)"

lemma at_block_Cons: "at_block f (b # bs) k = (if k = length bs then f b else at_block f bs k)"
  by (simp add: at_block_def nth_append)

lemma at_block_beyond: "at_block f bs (length bs) = 0"
  by (simp add: at_block_def)

lemma at_block_grow: "b # bs = xs \<or> bs = xs \<Longrightarrow> f b \<le> g b' \<Longrightarrow> \<forall>x\<in>set bs. f x = g x \<Longrightarrow>
    at_block f xs k \<le> at_block g (b' # bs) k"
  by (elim disjE) (auto simp: at_block_def nth_append rev_nth)

lemma at_block_head: "b # bs = xs \<or> f b = 0 \<and> bs = xs \<Longrightarrow> at_block f xs (length bs) = f b"
  by (elim disjE) (auto simp: at_block_Cons at_block_beyond)

lemma at_block_mono: "\<forall>b\<in>set bs. f b \<le> g b \<Longrightarrow> at_block f bs k \<le> at_block g bs k"
  by (simp add: at_block_def rev_nth)

definition lv_used :: "linvar_ctx \<Rightarrow> nat \<Rightarrow> nat" where
  "lv_used ctx = at_block (\<lambda>b. unat (lv_offset b)) (lv_blks ctx)"

definition lv_room :: "linvar_ctx \<Rightarrow> nat \<Rightarrow> nat" where
  "lv_room ctx = at_block (\<lambda>b. unat (lv_cap b)) (lv_blks ctx)"

lemma linvar_init_inv:
  assumes "pagesz = 2 ^ k" and "k \<le> 30" and "unat blksize < 2 ^ 61"
  shows "linvar_inv (linvar_init pagesz blksize)"
proof -
  have m: "word_of_int pagesz - 1 = (mask k :: size_t)"
    using assms(1) by (simp add: mask_eq_exp_minus_1 of_int_power)
  have k: "unat (mask k :: size_t) < 2 ^ 30"
    using assms(2) power_increasing [of k 30 "2 :: nat"] by (simp add: unat_mask min_def)
  then have "unat (blksize + mask k) < 2 ^ 62"
    using assms(3) by (subst unat_add_small) simp_all
  moreover have "unat ((blksize + mask k) AND NOT (mask k)) \<le> unat (blksize + mask k)"
    by (simp add: unat_and_not_mask)
  ultimately have "unat ((blksize + mask k) AND NOT (mask k)) < 2 ^ 62" by linarith
  moreover have "\<not> pagesz \<le> 0" using assms(1) by simp
  ultimately show ?thesis using m assms(2) by (auto simp: linvar_inv_def linvar_init_def Let_def)
qed

lemma linvar_sizes:
  assumes l: "len \<noteq> 0" "len \<le> (0xffffffff :: size_t)" and k: "k \<le> 30"
  defines "c \<equiv> (len + CHUNK_ALIGNMENT - 1) AND NOT (CHUNK_ALIGNMENT - 1)"
  defines "b \<equiv> (sizeof_linvar_block + c + mask k) AND NOT (mask k)"
  shows "unat len \<le> unat c" and "unat c < 2 ^ 33" and "4 dvd unat c"
    and "24 + unat c \<le> unat b" and "unat b < 2 ^ 34"
proof -
  have n: "unat len \<le> 2 ^ 32 - 1" using l(2) by (simp add: word_le_nat_alt)
  have m: "CHUNK_ALIGNMENT - 1 = mask 2" by (simp add: CHUNK_ALIGNMENT_def mask_eq_exp_minus_1)
  have e: "len + CHUNK_ALIGNMENT - 1 = len + mask 2" by (simp add: CHUNK_ALIGNMENT_def mask_eq_exp_minus_1)
  have u3: "unat (len + mask 2) = unat len + 3"
    using n by (subst unat_add_small) (simp_all add: mask_eq_exp_minus_1)
  have c: "unat c = unat len + 3 - (unat len + 3) mod 4"
    unfolding c_def e m unat_and_not_mask u3 by simp
  then have "unat len \<le> unat c" "unat c \<le> unat len + 3" by linarith+
  then show c1: "unat len \<le> unat c" and c2: "unat c < 2 ^ 33" using n by simp_all
  show "4 dvd unat c" unfolding c by (metis dvd_minus_mod)
  have p: "(2 :: nat) ^ k \<le> 2 ^ 30" using k by (intro power_increasing) simp_all
  have "unat (sizeof_linvar_block + c) = 24 + unat c"
    using c2 by (subst unat_add_small) (simp_all add: sizeof_linvar_block_def)
  moreover have mk: "unat (mask k :: size_t) = 2 ^ k - 1" using k by (simp add: unat_mask min_def)
  ultimately have u: "unat (sizeof_linvar_block + c + mask k) = 24 + unat c + (2 ^ k - 1)"
    using c2 p by (subst unat_add_small) simp_all
  have b: "unat b = 24 + unat c + (2 ^ k - 1) - (24 + unat c + (2 ^ k - 1)) mod 2 ^ k"
    unfolding b_def unat_and_not_mask u ..
  have "(24 + unat c + (2 ^ k - 1)) mod 2 ^ k \<le> 2 ^ k - 1"
    using mod_less_divisor [of "2 ^ k" "24 + unat c + (2 ^ k - 1)"] by (simp add: less_eq_Suc_le)
  then show "24 + unat c \<le> unat b" unfolding b by linarith
  have "unat b \<le> 24 + unat c + (2 ^ k - 1)" unfolding b by simp
  then show "unat b < 2 ^ 34" using c2 p by simp
qed

text \<open>A chunk comes from the newest block, or from a new one.\<close>

lemma linvar_alloc_cases:
  assumes inv: "linvar_inv ctx"
  obtains (refused) "linvar_alloc ok ctx len = (None, ctx)"
      and "len = 0 \<or> 0xffffffff < len \<or> (\<exists>n. \<not> ok n)"
  | (chunk) b bs c where "linvar_alloc ok ctx len =
        (Some (length bs, unat (lv_offset b)), ctx\<lparr>lv_blks := b\<lparr>lv_offset := lv_offset b + c\<rparr> # bs\<rparr>)"
      and "b # bs = lv_blks ctx \<or> lv_offset b = 0 \<and> bs = lv_blks ctx"
      and "lv_block_ok b" and "unat (lv_offset b) + unat c \<le> unat (lv_cap b)" and "unat len \<le> unat c"
      and "4 dvd unat c" and "len \<noteq> 0"
proof (cases "len = 0 \<or> len > 0xffffffff")
  case True
  then show ?thesis by (intro refused) (auto simp: linvar_alloc_def)
next
  case False
  from inv obtain k where k: "k \<le> 30" "lv_blkmask ctx = mask k" and z: "unat (lv_blksize ctx) < 2 ^ 62"
    and ok: "\<forall>b\<in>set (lv_blks ctx). lv_block_ok b" by (auto simp: linvar_inv_def)
  define c where "c = (len + CHUNK_ALIGNMENT - 1) AND NOT (CHUNK_ALIGNMENT - 1)"
  define n0 where "n0 = (sizeof_linvar_block + c + mask k) AND NOT (mask k)"
  define n where "n = (if lv_blksize ctx > n0 then lv_blksize ctx else n0)"
  have "len \<le> 0xffffffff" using False by (simp add: not_less)
  then have sz: "unat len \<le> unat c" "unat c < 2 ^ 33" "4 dvd unat c" "24 + unat c \<le> unat n0" "unat n0 < 2 ^ 34"
    using linvar_sizes [of len k] False k(1) unfolding c_def n0_def by auto
  have n: "24 + unat c \<le> unat n" "unat n < 2 ^ 62"
    using sz z by (auto simp: n_def word_less_nat_alt)
  then have cap: "unat (n - sizeof_linvar_block) = unat n - 24"
    by (simp add: unat_sub word_le_nat_alt sizeof_linvar_block_def)
  define fits where "fits = (case lv_blks ctx of [] \<Rightarrow> False | b # _ \<Rightarrow> \<not> lv_cap b - lv_offset b < c)"
  have e: "linvar_alloc ok ctx len =
     (if \<not> fits \<and> \<not> ok n then (None, ctx)
      else (let ctx = (if fits then ctx
              else ctx\<lparr>lv_blks := \<lparr>lv_offset = 0, lv_cap = n - sizeof_linvar_block,
                lv_chunks = replicate (unat (n - sizeof_linvar_block)) NUL\<rparr> # lv_blks ctx\<rparr>)
            in case lv_blks ctx of [] \<Rightarrow> (None, ctx)
               | b # bs \<Rightarrow> (Some (length bs, unat (lv_offset b)), ctx\<lparr>lv_blks := b\<lparr>lv_offset := lv_offset b + c\<rparr> # bs\<rparr>)))"
    using False unfolding linvar_alloc_def Let_def n_def n0_def c_def fits_def k(2) by simp
  consider "fits" | "\<not> fits" "ok n" | "\<not> fits" "\<not> ok n" by blast
  then show ?thesis
  proof cases
    case 1
    then obtain b bs where b: "lv_blks ctx = b # bs" "c \<le> lv_cap b - lv_offset b"
      by (auto simp: fits_def split: list.splits)
    have o: "lv_block_ok b" using ok b by simp
    then have "unat (lv_cap b - lv_offset b) = unat (lv_cap b) - unat (lv_offset b)" "unat (lv_offset b) \<le> unat (lv_cap b)"
      by (simp_all add: lv_block_ok_def unat_sub word_le_nat_alt)
    then have "unat (lv_offset b) + unat c \<le> unat (lv_cap b)" using b(2) by (simp add: word_le_nat_alt)
    with 1 e b o sz False show ?thesis by (intro chunk [of bs b c]) simp_all
  next
    case 2
    define b where "b = \<lparr>lv_offset = 0, lv_cap = n - sizeof_linvar_block,
                lv_chunks = replicate (unat (n - sizeof_linvar_block)) NUL\<rparr>"
    have "lv_block_ok b" "unat (lv_offset b) + unat c \<le> unat (lv_cap b)" using n by (simp_all add: b_def lv_block_ok_def cap)
    with 2 e sz False show ?thesis by (intro chunk [of "lv_blks ctx" b c]) (simp_all add: b_def)
  next
    case 3
    with e show ?thesis by (intro refused) auto
  qed
qed

interpretation linvar: arena linvar_inv unat "linvar_alloc ok" lv_used lv_room for ok
proof
  fix ctx k assume "linvar_inv ctx"
  then show "lv_used ctx k \<le> lv_room ctx k"
    unfolding lv_used_def lv_room_def
    by (intro at_block_mono) (simp add: linvar_inv_def lv_block_ok_def word_le_nat_alt)
next
  fix ctx len p ctx' k assume inv: "linvar_inv ctx" and a: "linvar_alloc ok ctx len = (p, ctx')"
  from inv show "linvar_inv ctx' \<and> lv_used ctx k \<le> lv_used ctx' k \<and> lv_room ctx k \<le> lv_room ctx' k"
  proof (cases rule: linvar_alloc_cases [of ctx ok len])
    case refused
    with inv a show ?thesis by simp
  next
    case (chunk b bs c)
    have u: "unat (lv_offset b + c) = unat (lv_offset b) + unat c"
      using chunk(3,4) by (subst unat_add_small) (simp_all add: lv_block_ok_def)
    have "lv_block_ok (b\<lparr>lv_offset := lv_offset b + c\<rparr>)"
      using chunk(3,4,6) by (simp add: lv_block_ok_def word_le_nat_alt u)
    moreover have "set bs \<subseteq> set (lv_blks ctx)" using chunk(2) by (elim disjE) (metis set_subset_Cons, simp)
    ultimately have "linvar_inv ctx'" using inv a chunk(1) by (auto simp: linvar_inv_def)
    moreover have "lv_used ctx k \<le> lv_used ctx' k" "lv_room ctx k \<le> lv_room ctx' k"
      using a chunk(1) u at_block_grow [of b bs "lv_blks ctx"] chunk(2) by (auto simp: lv_used_def lv_room_def)
    ultimately show ?thesis by simp
  qed
next
  fix ctx len b off ctx' assume inv: "linvar_inv ctx" and a: "linvar_alloc ok ctx len = (Some (b, off), ctx')"
  from inv show "lv_used ctx b \<le> off \<and> off + unat len \<le> lv_used ctx' b"
  proof (cases rule: linvar_alloc_cases [of ctx ok len])
    case refused
    with a show ?thesis by simp
  next
    case (chunk blk bs c)
    have u: "unat (lv_offset blk + c) = unat (lv_offset blk) + unat c"
      using chunk(3,4) by (subst unat_add_small) (simp_all add: lv_block_ok_def)
    then show ?thesis
      using a chunk(1,2,5) at_block_head [of blk bs "lv_blks ctx" "\<lambda>b. unat (lv_offset b)"]
      by (auto simp: lv_used_def at_block_Cons)
  qed
qed

lemma linvar_run_granted:
  assumes "linvar_inv ctx" and "run_allocs (linvar_alloc ok) ctx lens = (ps, ctx')" and "\<forall>n. ok n"
  shows "\<forall>(p, len)\<in>set ps. 0 < len \<and> len \<le> 0xffffffff \<longrightarrow> p \<noteq> None"
  using assms
proof (induction lens arbitrary: ctx ps)
  case (Cons len lens)
  obtain p c where a: "linvar_alloc ok ctx len = (p, c)" by fastforce
  obtain qs where q: "run_allocs (linvar_alloc ok) c lens = (qs, ctx')" "ps = (p, len) # qs"
    using Cons.prems(2) a by (auto simp: split_beta prod_eq_iff)
  have "0 < len \<and> len \<le> 0xffffffff \<longrightarrow> p \<noteq> None"
    using Cons.prems(1)
  proof (cases rule: linvar_alloc_cases [of ctx ok len])
    case refused
    with Cons.prems(3) show ?thesis by (auto simp: not_less [symmetric])
  qed (use a in auto)
  with Cons.IH [OF conjunct1 [OF linvar.kept [OF Cons.prems(1) a]] q(1) Cons.prems(3)] show ?case by (simp add: q(2))
qed simp

section \<open>Elements\<close>

text \<open>The hypothesis the code needs: the elements of a block have less than \<open>2 ^ 32\<close> bytes.\<close>

definition linfix_inv :: "linfix_ctx \<Rightarrow> bool" where
  "linfix_inv ctx \<longleftrightarrow> 0 < lf_nmemb ctx \<and> unat (lf_nmemb ctx) * unat (lf_size ctx) < 2 ^ 32
     \<and> (\<forall>b\<in>set (lf_blks ctx). lf_used b \<le> lf_nmemb ctx
          \<and> length (lf_data b) = 4 + unat (lf_nmemb ctx) * unat (lf_size ctx))"

definition lf_bytes :: "linfix_ctx \<Rightarrow> nat \<Rightarrow> nat" where
  "lf_bytes ctx = at_block (\<lambda>b. unat (lf_used b) * unat (lf_size ctx)) (lf_blks ctx)"

definition lf_room :: "linfix_ctx \<Rightarrow> nat \<Rightarrow> nat" where
  "lf_room ctx = at_block (\<lambda>b. length (lf_data b)) (lf_blks ctx)"

lemma linfix_init_inv: "0 < nmemb \<Longrightarrow> unat nmemb * unat sz < 2 ^ 32 \<Longrightarrow> linfix_inv (linfix_init sz nmemb)"
  by (simp add: linfix_inv_def linfix_init_def)

lemma linfix_alloc_cases:
  assumes inv: "linfix_inv ctx"
  obtains (refused) "linfix_alloc ok ctx = (None, ctx)" and "\<exists>n. \<not> ok n"
  | (element) b bs where "linfix_alloc ok ctx =
        (Some (length bs, unat (lf_used b) * unat (lf_size ctx)), ctx\<lparr>lf_blks := b\<lparr>lf_used := lf_used b + 1\<rparr> # bs\<rparr>)"
      and "b # bs = lf_blks ctx \<or> lf_used b = 0 \<and> bs = lf_blks ctx"
      and "unat (lf_used b + 1) = unat (lf_used b) + 1" and "lf_used b + 1 \<le> lf_nmemb ctx"
      and "length (lf_data b) = 4 + unat (lf_nmemb ctx) * unat (lf_size ctx)"
proof -
  let ?m = "unat (lf_nmemb ctx)" and ?z = "unat (lf_size ctx)"
  from inv have m: "0 < ?m" "?m * ?z < 2 ^ 32" by (simp_all add: linfix_inv_def word_less_nat_alt)
  define n where "n = (16 :: size_t) + ucast (lf_nmemb ctx * lf_size ctx)"
  have "unat (lf_nmemb ctx * lf_size ctx) = ?m * ?z" using m(2) by (simp add: unat_word_ariths)
  then have n: "unat n = 16 + ?m * ?z"
    unfolding n_def using m(2) by (subst unat_add_small) (simp_all add: unat_ucast_u32)
  define fits where "fits = (case lf_blks ctx of [] \<Rightarrow> False | b # _ \<Rightarrow> lf_used b \<noteq> lf_nmemb ctx)"
  have prod: "unat (u * lf_size ctx) = unat u * ?z" "unat (u + 1) = unat u + 1" "u + 1 \<le> lf_nmemb ctx"
    if "u < lf_nmemb ctx" for u
  proof -
    have l: "unat u < ?m" using that by (simp add: word_less_nat_alt)
    then have "unat u * ?z \<le> ?m * ?z" by simp
    with m(2) have "unat u * ?z < 2 ^ 32" by linarith
    then show "unat (u * lf_size ctx) = unat u * ?z" by (simp add: unat_word_ariths)
    show "unat (u + 1) = unat u + 1" using l unat_less_exp [of "lf_nmemb ctx"] by (subst unat_add_small) simp_all
    then show "u + 1 \<le> lf_nmemb ctx" using l by (simp add: word_le_nat_alt)
  qed
  show ?thesis
  proof (cases "fits \<or> ok n")
    case False
    then show ?thesis by (intro refused) (auto simp: linfix_alloc_def fits_def n_def Let_def)
  next
    case True
    obtain b bs where b: "(if fits then lf_blks ctx else \<lparr>lf_used = 0, lf_data = replicate (unat n - 12) NUL\<rparr> # lf_blks ctx) = b # bs"
      by (cases fits; cases "lf_blks ctx") (auto simp: fits_def)
    have u: "lf_used b < lf_nmemb ctx \<and> length (lf_data b) = 4 + ?m * ?z"
    proof (cases fits)
      case True
      with b inv show ?thesis by (auto simp: fits_def linfix_inv_def)
    next
      case False
      then have "lf_used b = 0" "length (lf_data b) = unat n - 12" using b by auto
      with n m show ?thesis by (simp add: word_less_nat_alt)
    qed
    note pr = prod [OF conjunct1 [OF u]]
    have "linfix_alloc ok ctx =
        (Some (length bs, unat (lf_used b) * ?z), ctx\<lparr>lf_blks := b\<lparr>lf_used := lf_used b + 1\<rparr> # bs\<rparr>)"
      using True b pr(1) by (auto simp: linfix_alloc_def fits_def [symmetric] n_def [symmetric] Let_def split: if_splits)
    moreover have "b # bs = lf_blks ctx \<or> lf_used b = 0 \<and> bs = lf_blks ctx" using b by (auto split: if_splits)
    ultimately show ?thesis by (rule element) (use pr u in auto)
  qed
qed

interpretation linfix: arena "\<lambda>ctx. linfix_inv ctx \<and> lf_size ctx = sz" "\<lambda>_. unat sz"
    "\<lambda>ctx (_ :: unit). linfix_alloc ok ctx" lf_bytes lf_room for ok sz
proof
  fix ctx k assume inv: "linfix_inv ctx \<and> lf_size ctx = sz"
  then have "unat (lf_used b) * unat sz \<le> unat (lf_nmemb ctx) * unat sz" if "b \<in> set (lf_blks ctx)" for b
    using that by (intro mult_le_mono1) (simp add: linfix_inv_def word_le_nat_alt)
  with inv show "lf_bytes ctx k \<le> lf_room ctx k"
    unfolding lf_bytes_def lf_room_def by (intro at_block_mono) (auto simp: linfix_inv_def trans_le_add2)
next
  fix ctx r p ctx' k assume inv: "linfix_inv ctx \<and> lf_size ctx = sz" and a: "linfix_alloc ok ctx = (p, ctx')"
  from inv have "linfix_inv ctx" by simp
  then show "(linfix_inv ctx' \<and> lf_size ctx' = sz) \<and> lf_bytes ctx k \<le> lf_bytes ctx' k \<and> lf_room ctx k \<le> lf_room ctx' k"
  proof (cases rule: linfix_alloc_cases [of ctx ok])
    case refused
    with inv a show ?thesis by simp
  next
    case (element b bs)
    have "set bs \<subseteq> set (lf_blks ctx)" using element(2) by (elim disjE) (metis set_subset_Cons, simp)
    then have "\<forall>x\<in>set bs. lf_used x \<le> lf_nmemb ctx \<and> length (lf_data x) = 4 + unat (lf_nmemb ctx) * unat (lf_size ctx)"
      using inv unfolding linfix_inv_def by blast
    then have "linfix_inv ctx' \<and> lf_size ctx' = sz" using inv a element(1,4,5) by (auto simp: linfix_inv_def)
    moreover have "lf_bytes ctx k \<le> lf_bytes ctx' k" "lf_room ctx k \<le> lf_room ctx' k"
      using a element(1,3) at_block_grow [of b bs "lf_blks ctx"] element(2) by (auto simp: lf_bytes_def lf_room_def)
    ultimately show ?thesis by simp
  qed
next
  fix ctx r b off ctx' assume inv: "linfix_inv ctx \<and> lf_size ctx = sz" and a: "linfix_alloc ok ctx = (Some (b, off), ctx')"
  from inv have "linfix_inv ctx" by simp
  then show "lf_bytes ctx b \<le> off \<and> off + unat sz \<le> lf_bytes ctx' b"
  proof (cases rule: linfix_alloc_cases [of ctx ok])
    case refused
    with a show ?thesis by simp
  next
    case (element blk bs)
    then show ?thesis
      using a inv at_block_head [of blk bs "lf_blks ctx" "\<lambda>b. unat (lf_used b) * unat sz"]
      by (auto simp: lf_bytes_def at_block_Cons)
  qed
qed

section \<open>Copied strings\<close>

text \<open>The bytes at a pointer.\<close>

definition lv_read :: "linvar_ctx \<Rightarrow> chunk_ptr \<Rightarrow> bytes" where
  "lv_read ctx p = (if fst p < length (lv_blks ctx) then drop (snd p) (lv_chunks (rev (lv_blks ctx) ! fst p)) else [])"

lemma lv_read_Cons: "lv_read (ctx\<lparr>lv_blks := b # bs\<rparr>) (k, i) =
    (if k = length bs then drop i (lv_chunks b) else lv_read (ctx\<lparr>lv_blks := bs\<rparr>) (k, i))"
  by (auto simp: lv_read_def nth_append)

lemma cstr_terminated: "NUL \<notin> set s \<Longrightarrow> cstr (s @ NUL # t) = s"
  using cstr_id [of s] by (simp add: cstr_def takeWhile_tail)

lemma poke_take: "poke off xs d = Some d' \<Longrightarrow> n \<le> off \<Longrightarrow> take n d' = take n d"
  by (auto simp: poke_def min_def split: if_splits)

lemma linvar_strdup_spec:
  assumes inv: "linvar_inv ctx" and l: "length (cstr s) + 1 < 2 ^ 32"
  shows "\<exists>p ctx'. linvar_strdup ok ctx s = Some (p, ctx') \<and> linvar_inv ctx'
    \<and> (p = None \<longrightarrow> (\<exists>n. \<not> ok n)) \<and> (\<forall>q. p = Some q \<longrightarrow> cstr (lv_read ctx' q) = cstr s)
    \<and> (\<forall>b. take (lv_used ctx b) (lv_read ctx' (b, 0)) = take (lv_used ctx b) (lv_read ctx (b, 0)))"
proof -
  let ?s = "cstr s @ [NUL]"
  have n: "unat (of_nat (length ?s) :: size_t) = length ?s" using l by (intro unat_of_nat_small) simp
  have NUL: "NUL \<notin> set (cstr s)" by (auto simp: cstr_def dest: set_takeWhileD)
  from inv show ?thesis
  proof (cases rule: linvar_alloc_cases [of ctx ok "of_nat (length ?s)"])
    case refused
    have "(of_nat (length ?s) :: size_t) \<noteq> 0" "\<not> 0xffffffff < (of_nat (length ?s) :: size_t)"
      using n l by (auto simp: word_less_nat_alt simp flip: unat_eq_0)
    with refused inv show ?thesis by (simp add: linvar_strdup_def Let_def)
  next
    case (chunk b bs c)
    let ?off = "unat (lv_offset b)"
    have "?off + length ?s \<le> length (lv_chunks b)" using chunk(3,4,5) n by (simp add: lv_block_ok_def)
    then obtain d where d: "poke ?off ?s (lv_chunks b) = Some d" "drop ?off d = ?s @ drop (?off + length ?s) (lv_chunks b)"
        "length d = length (lv_chunks b)"
      by (auto simp: poke_def)
    define ctx' where "ctx' = ctx\<lparr>lv_blks := b\<lparr>lv_offset := lv_offset b + c, lv_chunks := d\<rparr> # bs\<rparr>"
    have e: "linvar_strdup ok ctx s = Some (Some (length bs, ?off), ctx')"
      using chunk(1) d(1) by (simp add: linvar_strdup_def Let_def ctx'_def)
    from linvar.kept [OF inv chunk(1)] d(3) have "linvar_inv ctx'"
      by (auto simp: linvar_inv_def lv_block_ok_def ctx'_def)
    moreover have "cstr (lv_read ctx' (length bs, ?off)) = cstr s"
      using d(2) cstr_terminated [OF NUL] by (simp add: ctx'_def lv_read_Cons)
    moreover have "take (lv_used ctx k) (lv_read ctx' (k, 0)) = take (lv_used ctx k) (lv_read ctx (k, 0))" for k
    proof (cases "k = length bs")
      case True
      have u: "lv_used ctx k = ?off"
        using at_block_head [of b bs "lv_blks ctx" "\<lambda>b. unat (lv_offset b)"] chunk(2) True by (auto simp: lv_used_def)
      have "lv_read ctx' (k, 0) = d" using True by (simp add: ctx'_def lv_read_Cons)
      moreover have "?off = 0 \<or> lv_read ctx (k, 0) = lv_chunks b"
        using chunk(2) lv_read_Cons [where ctx = ctx and b = b and bs = bs and k = k and i = 0] True by auto
      ultimately show ?thesis using u poke_take [OF d(1), of ?off] by auto
    next
      case False
      then have "lv_read ctx' (k, 0) = lv_read (ctx\<lparr>lv_blks := bs\<rparr>) (k, 0)" by (simp add: ctx'_def lv_read_Cons)
      also have "\<dots> = lv_read ctx (k, 0)"
        using chunk(2) False lv_read_Cons [where ctx = ctx and b = b and bs = bs and k = k and i = 0] by auto
      finally show ?thesis by simp
    qed
    ultimately show ?thesis using e by auto
  qed
qed

section \<open>Properties\<close>

text \<open>
  C33. Whatever sizes are requested, the chunks \<open>linvar_alloc\<close> hands out do not overlap, have the
  length that was asked for and lie inside their block. A request fails only if its size is 0 or
  larger than \<open>UINT_MAX\<close>, or if \<open>mmap\<close> fails.
\<close>

theorem linvar_alloc_disjoint:
  assumes "pagesz = 2 ^ k" and "k \<le> 30" and "unat blksize < 2 ^ 61"
    and "run_allocs (linvar_alloc ok) (linvar_init pagesz blksize) lens = (ps, ctx)"
  shows "(\<forall>i<length ps. \<forall>j<i. region unat (ps ! j) \<inter> region unat (ps ! i) = {})
    \<and> (\<forall>pr\<in>set ps. region unat pr \<subseteq> {(b, i). i < lv_room ctx b})
    \<and> ((\<forall>n. ok n) \<longrightarrow> (\<forall>(p, len)\<in>set ps. 0 < len \<and> len \<le> 0xffffffff \<longrightarrow> p \<noteq> None))"
proof -
  note inv = linvar_init_inv [OF assms(1-3)]
  have "(\<forall>n. ok n) \<longrightarrow> (\<forall>(p, len)\<in>set ps. 0 < len \<and> len \<le> 0xffffffff \<longrightarrow> p \<noteq> None)"
    using linvar_run_granted [OF inv assms(4)] by blast
  with linvar.run_disjoint [OF inv assms(4)] show ?thesis by blast
qed

theorem linvar_alloc_disjoint_witness:
  "\<exists>ps ctx. run_allocs (linvar_alloc (\<lambda>_. True)) (linvar_init 4096 1) [5, 4000, 9000] = (ps, ctx)
    \<and> length ps = 3 \<and> (\<forall>i<3. \<forall>j<i. region unat (ps ! j) \<inter> region unat (ps ! i) = {})"
proof -
  obtain ps ctx where r: "run_allocs (linvar_alloc (\<lambda>_. True)) (linvar_init 4096 1) [5, 4000, 9000] = (ps, ctx)" by fastforce
  then have "length ps = 3" by (auto simp: Let_def split: prod.splits)
  with linvar_alloc_disjoint [of 4096 12 1 "\<lambda>_. True" "[5, 4000, 9000]" ps ctx] r show ?thesis by simp
qed

text \<open>
  A string copied with \<open>linvar_strdup\<close> is found at the returned address, and no byte that was
  handed out before has changed.
\<close>

theorem linvar_strdup_correct:
  assumes "linvar_inv ctx" and "length (cstr s) + 1 < 2 ^ 32"
  shows "\<exists>p ctx'. linvar_strdup ok ctx s = Some (p, ctx') \<and> linvar_inv ctx'
    \<and> (p = None \<longrightarrow> (\<exists>n. \<not> ok n)) \<and> (\<forall>q. p = Some q \<longrightarrow> cstr (lv_read ctx' q) = cstr s)
    \<and> (\<forall>b. take (lv_used ctx b) (lv_read ctx' (b, 0)) = take (lv_used ctx b) (lv_read ctx (b, 0)))"
  by (rule linvar_strdup_spec [OF assms])

theorem linvar_strdup_correct_witness:
  "\<exists>q ctx'. linvar_strdup (\<lambda>_. True) (linvar_init 4096 1) ''name'' = Some (Some q, ctx')
    \<and> cstr (lv_read ctx' q) = ''name''"
proof -
  have "linvar_inv (linvar_init 4096 1)" by (rule linvar_init_inv [of _ 12]) simp_all
  moreover have "cstr ''name'' = ''name''" by (simp add: cstr_def)
  ultimately show ?thesis using linvar_strdup_correct [of "linvar_init 4096 1" "''name''" "\<lambda>_. True"] by auto
qed

text \<open>
  The elements \<open>linfix_alloc\<close> hands out do not overlap and lie inside their block, if a block
  has at least one element and all its elements together have less than \<open>2 ^ 32\<close> bytes.
\<close>

theorem linfix_alloc_disjoint:
  assumes "0 < nmemb" and "unat nmemb * unat sz < 2 ^ 32"
    and "run_allocs (\<lambda>ctx (_ :: unit). linfix_alloc ok ctx) (linfix_init sz nmemb) rs = (ps, ctx)"
  shows "(\<forall>i<length ps. \<forall>j<i. region (\<lambda>_. unat sz) (ps ! j) \<inter> region (\<lambda>_. unat sz) (ps ! i) = {})
    \<and> (\<forall>pr\<in>set ps. region (\<lambda>_. unat sz) pr \<subseteq> {(b, i). i < lf_room ctx b})"
proof -
  have "linfix_inv (linfix_init sz nmemb) \<and> lf_size (linfix_init sz nmemb) = sz"
    using linfix_init_inv [OF assms(1,2)] by (simp add: linfix_init_def)
  from linfix.run_disjoint [OF this assms(3)] show ?thesis .
qed

theorem linfix_alloc_disjoint_witness:
  "\<exists>ps ctx. run_allocs (\<lambda>ctx (_ :: unit). linfix_alloc (\<lambda>_. True) ctx) (linfix_init 24 2) [(), (), ()] = (ps, ctx)
    \<and> length ps = 3 \<and> (\<forall>i<3. \<forall>j<i. region (\<lambda>_. unat (24 :: u32)) (ps ! j) \<inter> region (\<lambda>_. unat (24 :: u32)) (ps ! i) = {})"
proof -
  obtain ps ctx where r: "run_allocs (\<lambda>ctx (_ :: unit). linfix_alloc (\<lambda>_. True) ctx) (linfix_init 24 2) [(), (), ()] = (ps, ctx)"
    by fastforce
  then have "length ps = 3" by (auto simp: Let_def split: prod.splits)
  with linfix_alloc_disjoint [of 2 24 "\<lambda>_. True" "[(), (), ()]" ps ctx] r show ?thesis by simp
qed

text \<open>
  Without the hypothesis the size of a block wraps: with \<open>2 ^ 16\<close> elements of \<open>2 ^ 16\<close> bytes the
  second element lies outside the block.
\<close>

theorem linfix_size_wraps:
  "\<exists>ctx. run_allocs (\<lambda>ctx (_ :: unit). linfix_alloc (\<lambda>_. True) ctx) (linfix_init 0x10000 0x10000) [(), ()] =
      ([(Some (0, 0), ()), (Some (0, 0x10000), ())], ctx) \<and> lf_room ctx 0 = 4"
  by (simp add: linfix_init_def linfix_alloc_def lf_room_def at_block_def Let_def)

end
