(* ===== verification/Sindex.thy ===== *)
theory Sindex
  imports Yans_Prelude
begin

text \<open>
  The index of the store, \<^verbatim>\<open>lib/util/sindex.c\<close> and \<^verbatim>\<open>lib/util/sindex.h\<close>: a file of fixed-size entries
  that is appended to and read in pages from its end. The file is its bytes; how the system calls
  on it turn out is a parameter of every operation.
\<close>

section \<open>State\<close>

definition SINDEX_IDSZ :: nat where "SINDEX_IDSZ = 20"
definition SINDEX_NAMESZ :: nat where "SINDEX_NAMESZ = 44"
definition SINDEX_MAGIC :: u16 where "SINDEX_MAGIC = 0x29a"

datatype sindex_error = SINDEX_ESTAT | SINDEX_EWRITE | SINDEX_EBADINDEX | SINDEX_ESEEK

text \<open>The last field is the padding at the end of the struct.\<close>

record sindex_entry =
  se_indexed :: u64
  se_id :: bytes
  se_name :: bytes
  se_magic :: u16
  se_reserved0 :: u16
  se_padding :: u32

text \<open>\<open>errno\<close> is a number; the file is opened with \<open>a+\<close>, so every write goes to its end.\<close>

record sindex_ctx =
  si_file :: bytes
  si_err :: sindex_error
  si_oerrno :: int

text \<open>
  How system calls turn out: the \<open>errno\<close> of a failed \<open>fwrite\<close>, \<open>fflush\<close>, \<open>fstat\<close> or \<open>fseeko\<close>, if
  it fails, and how many of the bytes of a failed write still reach the file.
\<close>

record file_io =
  io_fwrite :: "int option"
  io_fflush :: "int option"
  io_fstat :: "int option"
  io_fseeko :: "int option"
  io_written :: nat

section \<open>Operations\<close>

text \<open>\<open>sizeof(struct sindex_entry)\<close>, and the representation of an entry in memory\<close>

definition sizeof_sindex_entry :: nat where "sizeof_sindex_entry = 80"

definition entry_bytes :: "sindex_entry \<Rightarrow> bytes" where
  "entry_bytes e = le_bytes 8 (unat (se_indexed e)) @ se_id e @ se_name e @ le_bytes 2 (unat (se_magic e))
     @ le_bytes 2 (unat (se_reserved0 e)) @ le_bytes 4 (unat (se_padding e))"

definition entry_of_bytes :: "bytes \<Rightarrow> sindex_entry" where
  "entry_of_bytes b =
     \<lparr>se_indexed = of_nat (le_value (take 8 b)), se_id = take 20 (drop 8 b), se_name = take 44 (drop 28 b),
      se_magic = of_nat (le_value (take 2 (drop 72 b))), se_reserved0 = of_nat (le_value (take 2 (drop 74 b))),
      se_padding = of_nat (le_value (take 4 (drop 76 b)))\<rparr>"

definition sindex_init :: "bytes \<Rightarrow> sindex_ctx" where
  "sindex_init fp = \<lparr>si_file = fp, si_err = SINDEX_ESTAT, si_oerrno = 0\<rparr>"

definition SETERR :: "sindex_ctx \<Rightarrow> sindex_error \<Rightarrow> sindex_ctx" where
  "SETERR ctx code = ctx\<lparr>si_err := code, si_oerrno := 0\<rparr>"

definition SETERR_ERRNO :: "sindex_ctx \<Rightarrow> sindex_error \<Rightarrow> int \<Rightarrow> sindex_ctx" where
  "SETERR_ERRNO ctx code errno = ctx\<lparr>si_err := code, si_oerrno := errno\<rparr>"

text \<open>The entry is returned too: its magic number is set.\<close>

definition sindex_put :: "file_io \<Rightarrow> sindex_ctx \<Rightarrow> sindex_entry \<Rightarrow> int \<times> sindex_ctx \<times> sindex_entry" where
  "sindex_put io ctx e =
     (let e = e\<lparr>se_magic := SINDEX_MAGIC\<rparr>;
          part = ctx\<lparr>si_file := si_file ctx @ take (io_written io) (entry_bytes e)\<rparr>
      in case io_fwrite io of
           Some n \<Rightarrow> (-1, SETERR_ERRNO part SINDEX_EWRITE n, e)
         | None \<Rightarrow>
             (case io_fflush io of
                Some n \<Rightarrow> (-1, SETERR_ERRNO part SINDEX_EWRITE n, e)
              | None \<Rightarrow> (0, ctx\<lparr>si_file := si_file ctx @ entry_bytes e\<rparr>, e)))"

definition get_nelems :: "file_io \<Rightarrow> sindex_ctx \<Rightarrow> int \<times> sindex_ctx" where
  "get_nelems io ctx =
     (case io_fstat io of
        Some n \<Rightarrow> (-1, SETERR_ERRNO ctx SINDEX_ESTAT n)
      | None \<Rightarrow>
          (let off = length (si_file ctx)
           in if off mod sizeof_sindex_entry \<noteq> 0 then (-1, SETERR ctx SINDEX_EBADINDEX)
              else (int (off div sizeof_sindex_entry), ctx)))"

text \<open>\<open>fread\<close> of up to \<open>n\<close> whole elements at a byte offset\<close>

fun read_entries :: "bytes \<Rightarrow> nat \<Rightarrow> sindex_entry list" where
  "read_entries b 0 = []"
| "read_entries b (Suc n) =
     (if length b < sizeof_sindex_entry then []
      else entry_of_bytes (take sizeof_sindex_entry b) # read_entries (drop sizeof_sindex_entry b) n)"

text \<open>
  The number of elements, the elements themselves, and the new value of \<open>*last\<close>, if it is set.
\<close>

definition sindex_get ::
  "file_io \<Rightarrow> sindex_ctx \<Rightarrow> nat \<Rightarrow> nat \<Rightarrow> int \<times> sindex_entry list \<times> nat option \<times> sindex_ctx" where
  "sindex_get io ctx nelems before =
     (case get_nelems io ctx of
        (nelems_index, ctx) \<Rightarrow>
          if nelems_index < 0 then (-1, [], None, ctx)
          else
            (let before = (if before = 0 then nat nelems_index else min before (nat nelems_index));
                 nelems = min nelems before
             in if nelems = 0 then (0, [], None, ctx)
                else
                  (let off = before - nelems
                   in case io_fseeko io of
                        Some n \<Rightarrow> (-1, [], None, SETERR_ERRNO ctx SINDEX_ESEEK n)
                      | None \<Rightarrow>
                          (let elems = read_entries (drop (off * sizeof_sindex_entry) (si_file ctx)) nelems;
                               nread = length elems
                           in (int nread, elems, Some (before - nread), ctx)))))"

text \<open>
  The calls of \<open>snprintf\<close> that \<open>sindex_geterr\<close> makes, in order: there is no \<open>break\<close> in the switch.
  The last one determines the message.
\<close>

definition geterr_messages :: "(int \<Rightarrow> bytes) \<Rightarrow> sindex_error \<Rightarrow> int \<Rightarrow> bytes list" where
  "geterr_messages strerror err n =
     (let deflt = [''unknown failure''];
          eseek = (''seek failure: '' @ strerror n) # deflt;
          ebadindex = ''corrupt index'' # eseek;
          ewrite = (''write error: '' @ strerror n) # ebadindex;
          estat = (''unable to stat file: '' @ strerror n) # ewrite
      in case err of SINDEX_ESTAT \<Rightarrow> estat | SINDEX_EWRITE \<Rightarrow> ewrite | SINDEX_EBADINDEX \<Rightarrow> ebadindex | SINDEX_ESEEK \<Rightarrow> eseek)"

definition sindex_geterr :: "(int \<Rightarrow> bytes) \<Rightarrow> sindex_ctx \<Rightarrow> nat \<Rightarrow> bytes" where
  "sindex_geterr strerror ctx len = take (len - 1) (last (geterr_messages strerror (si_err ctx) (si_oerrno ctx)))"

section \<open>Entries in a file\<close>

definition entry_ok :: "sindex_entry \<Rightarrow> bool" where
  "entry_ok e \<longleftrightarrow> length (se_id e) = SINDEX_IDSZ \<and> length (se_name e) = SINDEX_NAMESZ"

lemma length_entry_bytes: "entry_ok e \<Longrightarrow> length (entry_bytes e) = sizeof_sindex_entry"
  by (simp add: entry_ok_def entry_bytes_def SINDEX_IDSZ_def SINDEX_NAMESZ_def sizeof_sindex_entry_def)

lemma entry_roundtrip:
  assumes "entry_ok e"
  shows "entry_of_bytes (entry_bytes e) = e"
proof -
  have l: "length (se_id e) = 20" "length (se_name e) = 44" using assms by (simp_all add: entry_ok_def SINDEX_IDSZ_def SINDEX_NAMESZ_def)
  have u: "le_value (le_bytes 8 (unat x)) = unat x" "le_value (le_bytes 2 (unat y)) = unat y"
    "le_value (le_bytes 4 (unat z)) = unat z" for x :: u64 and y :: u16 and z :: u32
    using unat_less_exp [of x] unat_less_exp [of y] unat_less_exp [of z]
    by (auto intro!: le_value_le_bytes simp del: le_bytes.simps)
  show ?thesis using l by (cases e) (simp add: entry_of_bytes_def entry_bytes_def u)
qed

definition index_bytes :: "sindex_entry list \<Rightarrow> bytes" where
  "index_bytes es = concat (map entry_bytes es)"

lemma length_index_bytes: "\<forall>e\<in>set es. entry_ok e \<Longrightarrow> length (index_bytes es) = length es * sizeof_sindex_entry"
  by (induction es) (simp_all add: index_bytes_def length_entry_bytes)

lemma drop_index_bytes:
  "\<forall>e\<in>set es. entry_ok e \<Longrightarrow> drop (k * sizeof_sindex_entry) (index_bytes es) = index_bytes (drop k es)"
proof (induction es arbitrary: k)
  case (Cons e es)
  then show ?case
    by (cases k) (simp_all add: index_bytes_def length_entry_bytes)
qed (simp add: index_bytes_def)

lemma read_index_bytes:
  "\<forall>e\<in>set es. entry_ok e \<Longrightarrow> read_entries (index_bytes es) n = take n es"
proof (induction n arbitrary: es)
  case (Suc n)
  show ?case
  proof (cases es)
    case Nil
    then show ?thesis by (simp add: index_bytes_def sizeof_sindex_entry_def)
  next
    case (Cons e es')
    with Suc.prems have "index_bytes es = entry_bytes e @ index_bytes es'" "length (entry_bytes e) = sizeof_sindex_entry"
      by (simp_all add: index_bytes_def length_entry_bytes)
    with Cons Suc show ?thesis by (simp add: entry_roundtrip)
  qed
qed simp

section \<open>Pages\<close>

definition io_works :: file_io where
  "io_works = \<lparr>io_fwrite = None, io_fflush = None, io_fstat = None, io_fseeko = None, io_written = 0\<rparr>"

text \<open>The page before row \<open>before\<close>, or before the end.\<close>

lemma sindex_get_page:
  fixes before :: nat
  assumes f: "si_file ctx = index_bytes es" and ok: "\<forall>e\<in>set es. entry_ok e" and n: "0 < n" and es: "es \<noteq> []"
    and io: "io_fstat io = None" "io_fseeko io = None"
  defines "e \<equiv> if before = 0 then length es else min before (length es)"
  shows "sindex_get io ctx n before = (int (min n e), take (min n e) (drop (e - n) es), Some (e - n), ctx)"
proof -
  have l: "length (si_file ctx) = length es * sizeof_sindex_entry" using f length_index_bytes [OF ok] by simp
  then have g: "get_nelems io ctx = (int (length es), ctx)"
    using io by (simp add: get_nelems_def sizeof_sindex_entry_def)
  have e: "0 < e" "e \<le> length es" using es by (auto simp: e_def)
  have x: "e - min n e = e - n" by simp
  have "read_entries (drop ((e - n) * sizeof_sindex_entry) (si_file ctx)) (min n e) = take (min n e) (drop (e - n) es)"
    unfolding f drop_index_bytes [OF ok] using ok by (intro read_index_bytes) (auto dest: in_set_dropD)
  moreover have "length (take (min n e) (drop (e - n) es)) = min n e" using e by simp
  moreover have "(if before = 0 then nat (int (length es)) else min before (nat (int (length es)))) = e" by (simp add: e_def)
  ultimately show ?thesis using g io n e x unfolding sindex_get_def Let_def by (simp add: min_def)
qed

text \<open>A client that shows the index page by page, as \<open>store index\<close> does with \<open>before\<close> set to the last row it showed.\<close>

fun all_pages :: "nat \<Rightarrow> file_io \<Rightarrow> sindex_ctx \<Rightarrow> nat \<Rightarrow> nat \<Rightarrow> sindex_entry list list" where
  "all_pages 0 io ctx n before = []"
| "all_pages (Suc k) io ctx n before =
     (case sindex_get io ctx n before of
        (r, es, Some prev, ctx) \<Rightarrow> es # (if prev = 0 then [] else all_pages k io ctx n prev)
      | _ \<Rightarrow> [])"

lemma all_pages_before:
  assumes f: "si_file ctx = index_bytes es" and ok: "\<forall>e\<in>set es. entry_ok e" and n: "0 < n"
    and io: "io_fstat io = None" "io_fseeko io = None" and "0 < b" and "b \<le> length es" and "b \<le> k"
  shows "concat (rev (all_pages k io ctx n b)) = take b es"
  using assms(6-8)
proof (induction k arbitrary: b)
  case (Suc k)
  then have es: "es \<noteq> []" by auto
  have "(if b = 0 then length es else min b (length es)) = b" using Suc.prems by simp
  note p = sindex_get_page [OF f ok n es io, of b, unfolded this]
  show ?case
  proof (cases "b \<le> n")
    case True
    with p show ?thesis by simp
  next
    case False
    then have "concat (rev (all_pages k io ctx n (b - n))) = take (b - n) es" using Suc n by simp
    moreover have "take b es = take (b - n) es @ take n (drop (b - n) es)"
      using False take_add [of "b - n" n es] by simp
    ultimately show ?thesis using p False by simp
  qed
qed simp

section \<open>Properties\<close>



text \<open>
  A write that fails after a part of the entry makes the whole index unreadable, and the message
  is the same for every error.
\<close>

theorem sindex_partial_write_corrupts:
  assumes "si_file ctx = index_bytes es" and "\<forall>e\<in>set es. entry_ok e" and "entry_ok e"
    and "io_fwrite io = Some n" and "0 < io_written io" and "io_written io < sizeof_sindex_entry" and "io_fstat io' = None"
  shows "\<exists>ctx' e'. sindex_put io ctx e = (-1, ctx', e') \<and> fst (sindex_get io' ctx' k b) = -1
    \<and> si_err (snd (snd (snd (sindex_get io' ctx' k b)))) = SINDEX_EBADINDEX"
proof -
  let ?e = "e\<lparr>se_magic := SINDEX_MAGIC\<rparr>"
  have "entry_ok ?e" using assms(3) by (simp add: entry_ok_def)
  then have "length (si_file ctx @ take (io_written io) (entry_bytes ?e)) mod sizeof_sindex_entry = io_written io"
    using assms(1,2,5,6) by (simp add: length_index_bytes length_entry_bytes)
  with assms(4,5,7) show ?thesis
    by (simp add: sindex_put_def sindex_get_def get_nelems_def SETERR_def SETERR_ERRNO_def Let_def)
qed

theorem sindex_geterr_always_unknown: "sindex_geterr strerror ctx 256 = ''unknown failure''"
  by (cases "si_err ctx") (simp_all add: sindex_geterr_def geterr_messages_def)

end
