(* ===== verification/Io.thy ===== *)
theory Io
  imports Buf
begin

text \<open>
  Reading and writing file descriptors, \<^verbatim>\<open>lib/util/io.c\<close>. What the kernel answers is a list of
  events that the system calls consume: data that arrives or is taken, and errors. A read that
  finds no event fails with \<open>EAGAIN\<close>; a loop that then waits in \<open>poll\<close> does not return, which is
  \<^const>\<open>None\<close>. The functions that only pass arguments to one system call (\<open>io_open\<close>,
  \<open>io_listen_unix\<close> and the like) are not modelled.
\<close>

section \<open>The kernel\<close>

definition EINTR :: int where "EINTR = 4"
definition EAGAIN :: int where "EAGAIN = 11"
definition EWOULDBLOCK :: int where "EWOULDBLOCK = 11"
definition EINPROGRESS :: int where "EINPROGRESS = 115"

text \<open>\<open>Data []\<close> is the end of the stream. \<open>RPoll e\<close> is the failure of the next \<open>poll\<close>.\<close>

datatype read_event = Data bytes | RErrno int | RPoll int

fun sys_read :: "nat \<Rightarrow> read_event list \<Rightarrow> (int + bytes) \<times> read_event list" where
  "sys_read n [] = (Inl EAGAIN, [])"
| "sys_read n (Data d # es) = (Inr (take n d), if n < length d then Data (drop n d) # es else es)"
| "sys_read n (RErrno e # es) = (Inl e, es)"
| "sys_read n (RPoll e # es) = sys_read n es"

datatype write_event = Took nat | WErrno int | WPoll int

fun sys_write :: "nat \<Rightarrow> write_event list \<Rightarrow> (int + nat) \<times> write_event list" where
  "sys_write n [] = (Inl EAGAIN, [])"
| "sys_write n (Took k # es) = (Inr (min k n), es)"
| "sys_write n (WErrno e # es) = (Inl e, es)"
| "sys_write n (WPoll e # es) = sys_write n es"

section \<open>State\<close>

definition IO_AGAIN :: status where "IO_AGAIN = 1"
definition IO_OK :: status where "IO_OK = 0"
definition IO_ERR :: status where "IO_ERR = -1"
definition READBUF_GROWSZ :: size_t where "READBUF_GROWSZ = 256"

lemmas io_codes = IO_AGAIN_def IO_OK_def IO_ERR_def

text \<open>The text in \<open>errbuf\<close>: empty, a fixed text, or the name of a function and an \<open>errno\<close>.\<close>

datatype io_error = IO_NOERR | IO_SETERR bytes | IO_PERROR bytes int

record io_t =
  io_fd :: int
  io_errbuf :: io_error

definition IO_INIT :: "int \<Rightarrow> io_t" where
  "IO_INIT fd = \<lparr>io_fd = fd, io_errbuf = IO_NOERR\<rparr>"

fun io_strerror :: "(int \<Rightarrow> bytes) \<Rightarrow> io_error \<Rightarrow> bytes" where
  "io_strerror strerror IO_NOERR = []"
| "io_strerror strerror (IO_SETERR m) = take 127 m"
| "io_strerror strerror (IO_PERROR f e) = take 127 (f @ '': '' @ strerror e)"

section \<open>Operations\<close>

definition would_block :: "int \<Rightarrow> bool" where
  "would_block e \<longleftrightarrow> e = EAGAIN \<or> e = EWOULDBLOCK \<or> e = EINPROGRESS"

text \<open>\<open>io_wpoll\<close> and \<open>io_rpoll\<close>: the error of \<open>poll\<close>, if it fails\<close>

fun io_wpoll :: "write_event list \<Rightarrow> int option \<times> write_event list" where
  "io_wpoll (WPoll e # es) = (Some e, es)"
| "io_wpoll es = (None, es)"

fun io_rpoll :: "read_event list \<Rightarrow> int option \<times> read_event list" where
  "io_rpoll (RPoll e # es) = (Some e, es)"
| "io_rpoll es = (None, es)"

lemma sys_write_less: "(r, es') = sys_write n es \<Longrightarrow> es \<noteq> [] \<Longrightarrow> length es' < length es"
proof (induction n es rule: sys_write.induct)
  case (4 n e es)
  then show ?case by (cases es) auto
qed auto

lemma sys_read_less: "(Inl e, es') = sys_read n es \<Longrightarrow> es \<noteq> [] \<Longrightarrow> length es' < length es"
proof (induction n es rule: sys_read.induct)
  case (4 n e es)
  then show ?case by (cases es) auto
qed auto

lemma sys_read_le: "(r, es') = sys_read n es \<Longrightarrow> length es' \<le> length es"
  by (induction n es rule: sys_read.induct) (auto split: if_splits)

lemma sys_read_progress:
  "(Inr b, es') = sys_read n es \<Longrightarrow> b \<noteq> [] \<Longrightarrow> 0 < n \<Longrightarrow> n - length b + length es' < n + length es"
  using sys_read_le [of "Inr b" es' n es] by (cases b) auto

lemma io_wpoll_le: "(r, es') = io_wpoll es \<Longrightarrow> length es' \<le> length es"
  by (cases es rule: io_wpoll.cases) auto

lemma io_rpoll_le: "(r, es') = io_rpoll es \<Longrightarrow> length es' \<le> length es"
  by (cases es rule: io_rpoll.cases) auto

text \<open>
  The status, the bytes that were written, the handle and the events that are left. The loop that
  waits for a descriptor that never gets ready does not return.
\<close>

function io_writeall :: "io_t \<Rightarrow> write_event list \<Rightarrow> bytes \<Rightarrow> (status \<times> bytes \<times> io_t \<times> write_event list) option" where
  "io_writeall io es d =
     (if d = [] then Some (IO_OK, [], io, es)
      else if es = [] then None
      else case sys_write (length d) es of
        (Inl e, es') \<Rightarrow>
          if e = EINTR then io_writeall io es' d
          else if would_block e then
            (case io_wpoll es' of
               (Some p, es'') \<Rightarrow> Some (IO_ERR, [], io\<lparr>io_errbuf := IO_PERROR ''poll'' p\<rparr>, es'')
             | (None, es'') \<Rightarrow> io_writeall io es'' d)
          else Some (IO_ERR, [], io\<lparr>io_errbuf := IO_PERROR ''write'' e\<rparr>, es')
      | (Inr n, es') \<Rightarrow>
          if n = 0 then Some (IO_ERR, [], io\<lparr>io_errbuf := IO_SETERR ''write: unexpected EOF''\<rparr>, es')
          else map_option (apsnd (apfst (append (take n d)))) (io_writeall io es' (drop n d)))"
  by pat_completeness auto
termination
  by (relation "measure (\<lambda>(io, es, d). length es)") (auto dest!: sys_write_less io_wpoll_le)

declare io_writeall.simps [simp del]

text \<open>
  The elements of the vector that are still to be written, and the lengths of the elements that
  lie in memory behind the vector: the loop that steps over elements does not stop at \<open>iovcnt\<close>.
  The result is the unwritten elements and how much of the first one is written.
\<close>

fun advance_iov :: "nat list \<Rightarrow> bytes list \<Rightarrow> nat \<Rightarrow> (bytes list \<times> nat) option" where
  "advance_iov past (v # vs) ret = (if length v \<le> ret then advance_iov past vs (ret - length v) else Some (v # vs, ret))"
| "advance_iov (p # past) [] ret = (if p \<le> ret then advance_iov past [] (ret - p) else Some ([], ret))"
| "advance_iov [] [] ret = None"

function io_writevall ::
  "nat list \<Rightarrow> io_t \<Rightarrow> write_event list \<Rightarrow> bytes list \<Rightarrow> (status \<times> bytes \<times> io_t \<times> write_event list) option" where
  "io_writevall past io es iov =
     (if iov = [] then Some (IO_OK, [], io, es)
      else if es = [] then None
      else case sys_write (length (concat iov)) es of
        (Inl e, es') \<Rightarrow>
          if e = EINTR then io_writevall past io es' iov
          else if would_block e then
            (case io_wpoll es' of
               (Some p, es'') \<Rightarrow> Some (IO_ERR, [], io\<lparr>io_errbuf := IO_PERROR ''poll'' p\<rparr>, es'')
             | (None, es'') \<Rightarrow> io_writevall past io es'' iov)
          else Some (IO_ERR, [], io\<lparr>io_errbuf := IO_PERROR ''writev'' e\<rparr>, es')
      | (Inr n, es') \<Rightarrow>
          if n = 0 then Some (IO_ERR, [], io\<lparr>io_errbuf := IO_SETERR ''writev: unexpected EOF''\<rparr>, es')
          else
            (case advance_iov past iov n of
               None \<Rightarrow> None
             | Some (iov', r) \<Rightarrow>
                 (let iov' = (case iov' of [] \<Rightarrow> [] | v # vs \<Rightarrow> drop r v # vs)
                  in map_option (apsnd (apfst (append (take n (concat iov))))) (io_writevall past io es' iov'))))"
  by pat_completeness auto
termination
  by (relation "measure (\<lambda>(past, io, es, d). length es)") (auto dest!: sys_write_less io_wpoll_le)

declare io_writevall.simps [simp del]

text \<open>The status, the bytes read and the events left.\<close>

function io_readfull :: "io_t \<Rightarrow> read_event list \<Rightarrow> nat \<Rightarrow> (status \<times> bytes \<times> io_t \<times> read_event list) option" where
  "io_readfull io es len =
     (if len = 0 then Some (IO_OK, [], io, es)
      else if es = [] then None
      else case sys_read len es of
        (Inl e, es') \<Rightarrow>
          if e = EINTR then io_readfull io es' len
          else if would_block e then
            (case io_rpoll es' of
               (Some p, es'') \<Rightarrow> Some (IO_ERR, [], io\<lparr>io_errbuf := IO_PERROR ''poll'' p\<rparr>, es'')
             | (None, es'') \<Rightarrow> io_readfull io es'' len)
          else Some (IO_ERR, [], io\<lparr>io_errbuf := IO_PERROR ''read'' e\<rparr>, es')
      | (Inr d, es') \<Rightarrow>
          if d = [] then Some (IO_ERR, [], io\<lparr>io_errbuf := IO_SETERR ''read: unexpected EOF''\<rparr>, es')
          else map_option (apsnd (apfst (append d))) (io_readfull io es' (len - length d)))"
  by pat_completeness auto
termination
  by (relation "measure (\<lambda>(io, es, len). len + length es)") (auto dest!: sys_read_less io_rpoll_le intro: sys_read_progress)

declare io_readfull.simps [simp del]

text \<open>The loop around \<open>read\<close> that ignores signals.\<close>

function read_retry :: "nat \<Rightarrow> read_event list \<Rightarrow> (int + bytes) \<times> read_event list" where
  "read_retry n es =
     (case sys_read n es of
        (Inl e, es') \<Rightarrow> if e = EINTR \<and> es \<noteq> [] then read_retry n es' else (Inl e, es')
      | (Inr d, es') \<Rightarrow> (Inr d, es'))"
  by pat_completeness auto
termination
  by (relation "measure (\<lambda>(n, es). length es)") (auto dest!: sys_read_less)

declare read_retry.simps [simp del]

text \<open>
  The status, the number of bytes read, and the buffer. The bytes are stored behind the contents
  of the buffer; \<^const>\<open>None\<close> is a store outside of it.
\<close>

definition io_readbuf ::
  "allocator \<Rightarrow> io_t \<Rightarrow> read_event list \<Rightarrow> buf_t \<Rightarrow> (status \<times> nat \<times> buf_t \<times> io_t \<times> read_event list) option" where
  "io_readbuf ok io es b =
     do {
       (r, b) \<leftarrow> (if buf_cap b - buf_len b < READBUF_GROWSZ then buf_grow ok b READBUF_GROWSZ else Some (0, b));
       if r < 0 then Some (IO_ERR, 0, b, io\<lparr>io_errbuf := IO_PERROR ''buf_grow'' 12\<rparr>, es)
       else
         (case read_retry (unat (buf_cap b - buf_len b)) es of
            (Inl e, es) \<Rightarrow>
              Some (if would_block e then (IO_AGAIN, 0, b, io, es)
                    else (IO_ERR, 0, b, io\<lparr>io_errbuf := IO_PERROR ''read'' e\<rparr>, es))
          | (Inr d, es) \<Rightarrow>
              do { m \<leftarrow> poke (unat (buf_len b)) d (mem b);
                   Some (IO_OK, length d, b\<lparr>buf_data := Some m, buf_len := buf_len b + of_nat (length d)\<rparr>, io, es) })
     }"

section \<open>Streams\<close>

text \<open>The bytes that arrive, in order, whatever the system calls return in between.\<close>

fun arriving :: "read_event list \<Rightarrow> bytes" where
  "arriving [] = []"
| "arriving (Data d # es) = d @ arriving es"
| "arriving (_ # es) = arriving es"

lemma sys_read_arriving: "sys_read n es = (r, es') \<Longrightarrow> arriving es = (case r of Inr d \<Rightarrow> d | Inl _ \<Rightarrow> []) @ arriving es'"
  by (induction n es rule: sys_read.induct) (auto split: if_splits)

lemma sys_read_bound: "sys_read n es = (Inr d, es') \<Longrightarrow> length d \<le> n"
  by (induction n es rule: sys_read.induct) auto

lemma io_rpoll_arriving: "io_rpoll es = (r, es') \<Longrightarrow> arriving es = arriving es'"
  by (cases es rule: io_rpoll.cases) auto

lemma read_retry_arriving:
  "read_retry n es = (r, es') \<Longrightarrow> arriving es = (case r of Inr d \<Rightarrow> d | Inl _ \<Rightarrow> []) @ arriving es'
     \<and> (\<forall>d. r = Inr d \<longrightarrow> length d \<le> n)"
proof (induction n es rule: read_retry.induct)
  case (1 n es)
  obtain q es1 where s: "sys_read n es = (q, es1)" by fastforce
  note a = sys_read_arriving [OF s]
  show ?case
  proof (cases q)
    case (Inr d)
    with s 1(2) a sys_read_bound [of n es d es1] show ?thesis by (auto simp: read_retry.simps [of n es])
  next
    case (Inl e)
    show ?thesis
    proof (cases "e = EINTR \<and> es \<noteq> []")
      case True
      with 1(2) s Inl have "read_retry n es1 = (r, es')" by (simp add: read_retry.simps [of n es])
      with 1(1) [OF s [symmetric] Inl _ ] True a Inl show ?thesis by simp
    next
      case False
      with 1(2) s Inl a show ?thesis by (auto simp: read_retry.simps [of n es] split: if_splits)
    qed
  qed
qed

lemma io_readbuf_consumes:
  assumes "io_readbuf ok io es b = Some (r, n, b', io', es')"
  shows "length (arriving es) = n + length (arriving es')"
    and "unat (buf_len b') \<le> unat (buf_len b) + n"
proof -
  have g: "buf_grow ok b READBUF_GROWSZ = Some (q, b1) \<Longrightarrow> buf_len b1 = buf_len b" for q b1
    by (auto simp: buf_grow_def Let_def split: if_splits option.splits bind_splits)
  have u: "unat (x + of_nat k :: size_t) \<le> unat x + k" for x k
    by (simp add: unat_word_ariths unat_of_nat)
  show "length (arriving es) = n + length (arriving es')"
    using assms
    by (auto simp: io_readbuf_def split: bind_splits if_splits prod.splits sum.splits dest!: read_retry_arriving)
  show "unat (buf_len b') \<le> unat (buf_len b) + n"
    using assms u
    by (auto simp: io_readbuf_def dest!: g split: bind_splits if_splits prod.splits sum.splits)
qed

text \<open>A stream on which nothing goes wrong: data, signals, and pauses.\<close>

fun quiet_event :: "read_event \<Rightarrow> bool" where
  "quiet_event (Data d) \<longleftrightarrow> d \<noteq> []"
| "quiet_event (RErrno e) \<longleftrightarrow> e = EINTR \<or> would_block e"
| "quiet_event (RPoll e) \<longleftrightarrow> False"

definition quiet :: "read_event list \<Rightarrow> bool" where
  "quiet es \<longleftrightarrow> (\<forall>e\<in>set es. quiet_event e)"

lemma quiet_Cons [simp]: "quiet (e # es) \<longleftrightarrow> quiet_event e \<and> quiet es" and quiet_Nil [simp]: "quiet []"
  by (simp_all add: quiet_def)

lemma sys_read_quiet: "sys_read n es = (r, es') \<Longrightarrow> (quiet es \<longrightarrow> quiet es') \<and>
    (case r of Inr d \<Rightarrow> quiet es \<and> 0 < n \<longrightarrow> d \<noteq> [] | Inl e \<Rightarrow> quiet es \<longrightarrow> e = EINTR \<or> would_block e)"
  by (induction n es rule: sys_read.induct) (auto simp: would_block_def split: if_splits sum.splits)

lemma read_retry_events:
  "read_retry n es = (r, es') \<Longrightarrow> length es' \<le> length es \<and> (quiet es \<longrightarrow> quiet es') \<and>
     (case r of Inr d \<Rightarrow> quiet es \<and> 0 < n \<longrightarrow> d \<noteq> []
      | Inl e \<Rightarrow> (es = [] \<or> length es' < length es) \<and> (quiet es \<longrightarrow> would_block e))"
proof (induction n es rule: read_retry.induct)
  case (1 n es)
  obtain q es1 where s: "sys_read n es = (q, es1)" by fastforce
  note e = sys_read_quiet [OF s] sys_read_le [OF s [symmetric]]
  show ?case
  proof (cases q)
    case (Inr d)
    with s 1(2) e show ?thesis by (auto simp: read_retry.simps [of n es])
  next
    case (Inl x)
    have l: "es \<noteq> [] \<Longrightarrow> length es1 < length es" using sys_read_less [OF s [symmetric, unfolded Inl]] .
    show ?thesis
    proof (cases "x = EINTR \<and> es \<noteq> []")
      case True
      with 1(2) s Inl have "read_retry n es1 = (r, es')" by (simp add: read_retry.simps [of n es])
      from 1(1) [OF s [symmetric] Inl True this] e Inl l True show ?thesis
        by (cases r) auto
    next
      case False
      with 1(2) s Inl have "r = Inl x" "es' = es1" by (auto simp: read_retry.simps [of n es])
      with False s Inl e l show ?thesis by (cases es) (auto simp: would_block_def)
    qed
  qed
qed

text \<open>Before it reads, \<open>io_readbuf\<close> makes room for at least one byte.\<close>

lemma readbuf_room:
  assumes wf: "buf_wf ok b"
  defines "step \<equiv> (if buf_cap b - buf_len b < READBUF_GROWSZ then buf_grow ok b READBUF_GROWSZ else Some (0, b))"
  obtains (refused) "step = Some (-1, b)" "refuses ok (length (buf_contents b) + 256)"
  | (room) b1 where "step = Some (0, b1)" "buf_wf ok b1" "buf_contents b1 = buf_contents b" "0 < unat (buf_cap b1 - buf_len b1)"
proof (cases "buf_cap b - buf_len b < READBUF_GROWSZ")
  case True
  have le: "unat (buf_len b) \<le> unat (buf_cap b)" using wf by (simp add: buf_wf_def word_le_nat_alt)
  then have sub: "unat (buf_cap b - buf_len b) = unat (buf_cap b) - unat (buf_len b)"
    by (simp add: unat_sub word_le_nat_alt)
  with True have small: "unat (buf_cap b) < unat (buf_len b) + 256"
    by (simp add: word_less_nat_alt READBUF_GROWSZ_def)
  have "unat READBUF_GROWSZ < 2 ^ 62" by (simp add: READBUF_GROWSZ_def)
  from wf this show ?thesis
  proof (cases rule: buf_grow_cases)
    case (refused n)
    then have "refuses ok (length (buf_contents b) + 256)"
      using small wf by (intro refusesI [of ok n]) (auto simp: length_buf_contents READBUF_GROWSZ_def max_def split: if_splits)
    with refused True that(1) show ?thesis by (simp add: step_def)
  next
    case (grown b1)
    have "take (unat (buf_len b)) (mem b1) = take (unat (buf_len b)) (mem b)"
      using grown(5) le by (metis min.absorb1 take_take)
    moreover have "unat (buf_cap b1 - buf_len b1) = unat (buf_cap b1) - unat (buf_len b)"
      using grown(2,3) by (simp add: unat_sub buf_wf_def)
    ultimately show ?thesis using grown le True that(2) [of b1] by (simp add: step_def buf_contents_def READBUF_GROWSZ_def)
  qed
next
  case False
  then show ?thesis
    using that(2) [of b] wf by (simp add: step_def READBUF_GROWSZ_def word_less_nat_alt)
qed

text \<open>
  \<open>io_readbuf\<close> appends what it reads to the contents of the buffer. Otherwise it leaves the contents
  as they are and returns \<open>IO_AGAIN\<close>, or \<open>IO_ERR\<close> for want of memory or because of an error.
\<close>

lemma io_readbuf_spec:
  assumes wf: "buf_wf ok b"
  obtains (got) d b' es' where "io_readbuf ok io es b = Some (IO_OK, length d, b', io, es')" and "buf_wf ok b'"
      and "buf_contents b' = buf_contents b @ d" and "arriving es = d @ arriving es'"
      and "length es' \<le> length es" and "quiet es \<Longrightarrow> quiet es' \<and> d \<noteq> []"
  | (paused) b' es' where "io_readbuf ok io es b = Some (IO_AGAIN, 0, b', io, es')" and "buf_wf ok b'"
      and "buf_contents b' = buf_contents b" and "arriving es = arriving es'"
      and "length es' \<le> length es" and "es = [] \<or> length es' < length es" and "quiet es \<Longrightarrow> quiet es'"
  | (failed) b' io' es' where "io_readbuf ok io es b = Some (IO_ERR, 0, b', io', es')" and "buf_wf ok b'"
      and "buf_contents b' = buf_contents b" and "arriving es = arriving es'"
      and "length es' \<le> length es" and "quiet es \<Longrightarrow> refuses ok (length (buf_contents b) + 256)"
  using wf
proof (cases rule: readbuf_room)
  case refused
  show ?thesis
    by (rule failed [of b "io\<lparr>io_errbuf := IO_PERROR ''buf_grow'' 12\<rparr>" es])
      (use wf refused in \<open>auto simp: io_readbuf_def\<close>)
next
  case (room b1)
  note run = io_readbuf_def [of ok io es b, unfolded room(1) Option.bind.simps prod.case]
  obtain q es1 where q: "read_retry (unat (buf_cap b1 - buf_len b1)) es = (q, es1)" by fastforce
  note a = read_retry_arriving [OF q] and ev = read_retry_events [OF q]
  show ?thesis
  proof (cases q)
    case (Inl e)
    show ?thesis
    proof (cases "would_block e")
      case True
      show ?thesis
        by (rule paused [of b1 es1]) (use True q room a ev Inl in \<open>auto simp: run\<close>)
    next
      case nb: False
      show ?thesis
        by (rule failed [of b1 "io\<lparr>io_errbuf := IO_PERROR ''read'' e\<rparr>" es1]) (use nb q room a ev Inl in \<open>auto simp: run\<close>)
    qed
  next
    case (Inr d)
    have le: "buf_len b1 \<le> buf_cap b1" using room(2) by (simp add: buf_wf_def)
    then have "unat (buf_cap b1 - buf_len b1) = unat (buf_cap b1) - unat (buf_len b1)" by (rule unat_sub)
    then have "unat (buf_len b1) + length d \<le> unat (buf_cap b1)"
      using a Inr le by (simp add: word_le_nat_alt le_diff_conv2 add.commute)
    from poke_contents [OF room(2) this] obtain m where
      m: "poke (unat (buf_len b1)) d (mem b1) = Some m"
        "buf_wf ok (b1\<lparr>buf_data := Some m, buf_len := buf_len b1 + of_nat (length d)\<rparr>)"
        "buf_contents (b1\<lparr>buf_data := Some m, buf_len := buf_len b1 + of_nat (length d)\<rparr>) = buf_contents b1 @ d" .
    show ?thesis
      by (rule got [of d "b1\<lparr>buf_data := Some m, buf_len := buf_len b1 + of_nat (length d)\<rparr>" es1])
        (use m q room a ev Inr in \<open>auto simp: run\<close>)
  qed
qed

section \<open>Properties\<close>

text \<open>
  What \<open>io_readfull\<close> returns are the first bytes that arrive, no more than were asked for, and
  all of them if it succeeds; nothing is lost from the stream.
\<close>

theorem io_readfull_prefix:
  assumes "io_readfull io es len = Some (r, d, io', es')"
  shows "(if r = IO_OK then length d = len else r = IO_ERR \<and> length d < len) \<and> d @ arriving es' = arriving es"
  using assms
proof (induction io es len arbitrary: r d io' es' rule: io_readfull.induct)
  case (1 io es len)
  show ?case
  proof (cases "len = 0 \<or> es = []")
    case True
    with 1(4) show ?thesis by (auto simp: io_readfull.simps [of io es len] split: if_splits)
  next
    case False
    then have c: "len \<noteq> 0" "es \<noteq> []" by auto
    obtain q es1 where s: "sys_read len es = (q, es1)" by fastforce
    note a = sys_read_arriving [OF s] and run = 1(4) [unfolded io_readfull.simps [of io es len] s prod.case]
    show ?thesis
    proof (cases q)
      case (Inr b)
      show ?thesis
      proof (cases "b = []")
        case False
        with run c Inr obtain d1 where "io_readfull io es1 (len - length b) = Some (r, d1, io', es')" "d = b @ d1"
          by auto
        with 1(3) [OF c s [symmetric] Inr False this(1)] a Inr sys_read_bound [of len es b es1] s show ?thesis
          by (auto split: if_splits)
      qed (use run c Inr a in \<open>auto simp: io_codes\<close>)
    next
      case (Inl e)
      obtain p es2 where p: "io_rpoll es1 = (p, es2)" by fastforce
      note ap = io_rpoll_arriving [OF p]
      consider "e = EINTR" | "e \<noteq> EINTR" "would_block e" "p = None" | "e \<noteq> EINTR" "\<not> (would_block e \<and> p = None)" by blast
      then show ?thesis
      proof cases
        case 1
        with "1.IH"(1) [OF c s [symmetric] Inl] run c Inl a show ?thesis by simp
      next
        case 2
        with "1.IH"(2) [OF c s [symmetric] Inl _ _ p [symmetric]] run c Inl p a ap show ?thesis by simp
      next
        case 3
        with run c Inl p a ap show ?thesis by (auto simp: io_codes split: if_splits option.splits)
      qed
    qed
  qed
qed

theorem io_readfull_prefix_witness:
  "io_readfull (IO_INIT 3) [Data ''ab'', RErrno EINTR, RErrno EAGAIN, Data ''cdef''] 5
     = Some (IO_OK, ''abcde'', IO_INIT 3, [Data ''f''])
   \<and> (if IO_OK = IO_OK then length ''abcde'' = 5 else IO_OK = IO_ERR \<and> length ''abcde'' < 5)
   \<and> ''abcde'' @ arriving [Data ''f''] = arriving [Data ''ab'', RErrno EINTR, RErrno EAGAIN, Data ''cdef'']"
proof -
  have "io_readfull (IO_INIT 3) [Data ''ab'', RErrno EINTR, RErrno EAGAIN, Data ''cdef''] 5
      = Some (IO_OK, ''abcde'', IO_INIT 3, [Data ''f''])"
    by code_simp
  from this io_readfull_prefix [OF this] show ?thesis by (rule conjI)
qed

lemma sys_write_bound: "sys_write n es = (Inr k, es') \<Longrightarrow> k \<le> n"
  by (induction n es rule: sys_write.induct) auto

text \<open>
  What \<open>io_writeall\<close> has written is a beginning of the data, and all of it exactly if it succeeds,
  whatever short writes, signals and full buffers come in between.
\<close>

theorem io_writeall_prefix:
  assumes "io_writeall io es d = Some (r, out, io', es')"
  shows "\<exists>rest. d = out @ rest \<and> (if rest = [] then r = IO_OK else r = IO_ERR)"
  using assms
proof (induction io es d arbitrary: r out io' es' rule: io_writeall.induct)
  case (1 io es d)
  show ?case
  proof (cases "d = [] \<or> es = []")
    case True
    with 1(4) show ?thesis by (auto simp: io_writeall.simps [of io es d] split: if_splits)
  next
    case False
    then have c: "d \<noteq> []" "es \<noteq> []" by auto
    obtain q es1 where s: "sys_write (length d) es = (q, es1)" by fastforce
    note run = 1(4) [unfolded io_writeall.simps [of io es d] s prod.case]
    show ?thesis
    proof (cases q)
      case (Inr n)
      show ?thesis
      proof (cases "n = 0")
        case False
        with run c Inr obtain o1 where "io_writeall io es1 (drop n d) = Some (r, o1, io', es')" "out = take n d @ o1"
          by auto
        with 1(3) [OF c s [symmetric] Inr False this(1)] show ?thesis
          by (metis append.assoc append_take_drop_id)
      qed (use run c Inr in \<open>auto simp: io_codes\<close>)
    next
      case (Inl e)
      obtain p es2 where p: "io_wpoll es1 = (p, es2)" by fastforce
      consider "e = EINTR" | "e \<noteq> EINTR" "would_block e" "p = None" | "e \<noteq> EINTR" "\<not> (would_block e \<and> p = None)" by blast
      then show ?thesis
      proof cases
        case 1
        with "1.IH"(1) [OF c s [symmetric] Inl] run c Inl show ?thesis by simp
      next
        case 2
        with "1.IH"(2) [OF c s [symmetric] Inl _ _ p [symmetric]] run c Inl p show ?thesis by simp
      next
        case 3
        with run c Inl p show ?thesis by (auto simp: io_codes split: if_splits option.splits)
      qed
    qed
  qed
qed

theorem io_writeall_prefix_witness:
  "io_writeall (IO_INIT 3) [Took 2, WErrno EAGAIN, Took 9] ''abcd'' = Some (IO_OK, ''abcd'', IO_INIT 3, [])
   \<and> (\<exists>rest. ''abcd'' = ''abcd'' @ rest \<and> (if rest = [] then IO_OK = IO_OK else IO_OK = IO_ERR))"
proof -
  have "io_writeall (IO_INIT 3) [Took 2, WErrno EAGAIN, Took 9] ''abcd'' = Some (IO_OK, ''abcd'', IO_INIT 3, [])"
    by code_simp
  from this io_writeall_prefix [OF this] show ?thesis by (rule conjI)
qed

text \<open>Stepping over written elements, when something that is not empty lies behind the vector\<close>

lemma advance_iov_stops:
  "n \<le> length (concat iov) \<Longrightarrow> 0 < p \<Longrightarrow>
     \<exists>iov' k. advance_iov (p # past) iov n = Some (iov', k)
        \<and> concat (case iov' of [] \<Rightarrow> [] | v # vs \<Rightarrow> drop k v # vs) = drop n (concat iov)"
  by (induction iov arbitrary: n) auto

lemma advance_iov_overrun: "length (concat iov) \<le> n \<Longrightarrow> advance_iov [] iov n = None"
  by (induction iov arbitrary: n) auto

text \<open>
  The same holds of \<open>io_writevall\<close>, for the concatenation of the elements, if an element that is not
  empty happens to lie in memory behind the vector.
\<close>

theorem io_writevall_prefix:
  assumes "io_writevall (p # past) io es iov = Some (r, out, io', es')" and "0 < p"
  shows "\<exists>rest. concat iov = out @ rest \<and> (r = IO_OK \<longrightarrow> rest = []) \<and> r \<in> {IO_OK, IO_ERR}"
  using assms
proof (induction "p # past" io es iov arbitrary: r out io' es' rule: io_writevall.induct)
  case (1 io es iov)
  show ?case
  proof (cases "iov = [] \<or> es = []")
    case True
    with 1(4) show ?thesis by (auto simp: io_writevall.simps [of _ io es iov] split: if_splits)
  next
    case False
    then have c: "iov \<noteq> []" "es \<noteq> []" by auto
    obtain q es1 where s: "sys_write (length (concat iov)) es = (q, es1)" by fastforce
    note run = 1(4) [unfolded io_writevall.simps [of _ io es iov] s prod.case]
    show ?thesis
    proof (cases q)
      case (Inr n)
      show ?thesis
      proof (cases "n = 0")
        case False
        obtain iov1 k where v: "advance_iov (p # past) iov n = Some (iov1, k)"
            "concat (case iov1 of [] \<Rightarrow> [] | v # vs \<Rightarrow> drop k v # vs) = drop n (concat iov)"
          using advance_iov_stops [of n iov p past] sys_write_bound s Inr 1(5) by blast
        with run c Inr False obtain o1 where
          o1: "io_writevall (p # past) io es1 (case iov1 of [] \<Rightarrow> [] | v # vs \<Rightarrow> drop k v # vs) = Some (r, o1, io', es')"
            "out = take n (concat iov) @ o1"
          by auto
        from 1(3) [OF c s [symmetric] Inr False v(1) refl refl o1(1) 1(5)] v(2) o1(2) show ?thesis
          by (metis append.assoc append_take_drop_id)
      qed (use run c Inr in \<open>auto simp: io_codes\<close>)
    next
      case (Inl e)
      obtain p' es2 where p': "io_wpoll es1 = (p', es2)" by fastforce
      consider "e = EINTR" | "e \<noteq> EINTR" "would_block e" "p' = None" | "e \<noteq> EINTR" "\<not> (would_block e \<and> p' = None)" by blast
      then show ?thesis
      proof cases
        case 1
        with "1.hyps"(1) [OF c s [symmetric] Inl] "1.prems" run c Inl show ?thesis by simp
      next
        case 2
        with "1.hyps"(2) [OF c s [symmetric] Inl _ _ p' [symmetric]] "1.prems" run c Inl p' show ?thesis by simp
      next
        case 3
        with run c Inl p' show ?thesis by (auto simp: io_codes split: if_splits option.splits)
      qed
    qed
  qed
qed

theorem io_writevall_prefix_witness:
  "io_writevall [7] (IO_INIT 3) [Took 3, Took 9] [''ab'', ''cd''] = Some (IO_OK, ''abcd'', IO_INIT 3, [])
   \<and> (\<exists>rest. concat [''ab'', ''cd''] = ''abcd'' @ rest \<and> (IO_OK = IO_OK \<longrightarrow> rest = []) \<and> IO_OK \<in> {IO_OK, IO_ERR})"
proof -
  have "io_writevall [7] (IO_INIT 3) [Took 3, Took 9] [''ab'', ''cd''] = Some (IO_OK, ''abcd'', IO_INIT 3, [])"
    by code_simp
  from this io_writevall_prefix [OF this] show ?thesis by (intro conjI) simp_all
qed

text \<open>
  The loop that steps over written elements reads the element behind the vector whenever \<open>writev\<close> takes
  everything: with no element there, the call has no defined result.
\<close>

theorem io_writevall_overrun:
  assumes "concat iov \<noteq> []" and "length (concat iov) \<le> n"
  shows "io_writevall [] io (Took n # es) iov = None"
  using assms advance_iov_overrun [of iov "length (concat iov)"]
  by (subst io_writevall.simps) (auto simp: min_absorb2)

section \<open>Descriptors\<close>

text \<open>
  The functions that open and close descriptors work on the set of descriptors the process has open.
  What the system calls return is a parameter: an error number, or the descriptor.
\<close>

type_synonym 'a sysret = "int + 'a"

definition io_open :: "int sysret \<Rightarrow> io_t \<Rightarrow> int set \<Rightarrow> status \<times> io_t \<times> int set" where
  "io_open ret io fds =
     (case ret of
        Inl e \<Rightarrow> (IO_ERR, io\<lparr>io_errbuf := IO_PERROR ''open'' e\<rparr>, fds)
      | Inr fd \<Rightarrow> (IO_OK, io\<lparr>io_fd := fd\<rparr>, insert fd fds))"

text \<open>The operations on paths, in order; \<open>sun_path\<close> has room for 107 bytes and the NUL.\<close>

datatype path_op = Unlink bytes | Bind bytes | Connect bytes | Chmod bytes nat

definition sun_path :: "bytes \<Rightarrow> bytes" where
  "sun_path path = take 107 path"

definition io_listen_unix ::
  "int sysret \<Rightarrow> int option \<Rightarrow> int option \<Rightarrow> io_t \<Rightarrow> bytes \<Rightarrow> int set \<Rightarrow> status \<times> io_t \<times> int set \<times> path_op list" where
  "io_listen_unix sock bound listening io path fds =
     (case sock of
        Inl e \<Rightarrow> (IO_ERR, io\<lparr>io_errbuf := IO_PERROR ''socket'' e\<rparr>, fds, [])
      | Inr fd \<Rightarrow>
          let fds = insert fd fds; ops = [Unlink (sun_path path), Bind (sun_path path)]
          in case bound of
               Some e \<Rightarrow> (IO_ERR, io\<lparr>io_errbuf := IO_PERROR ''bind'' e\<rparr>, fds - {fd}, ops)
             | None \<Rightarrow>
                 (case listening of
                    Some e \<Rightarrow> (IO_ERR, io\<lparr>io_errbuf := IO_PERROR ''listen'' e\<rparr>, fds - {fd}, ops)
                  | None \<Rightarrow> (IO_OK, io\<lparr>io_fd := fd\<rparr>, fds, ops @ [Chmod path 511])))"

definition io_connect_unix ::
  "int sysret \<Rightarrow> int option \<Rightarrow> io_t \<Rightarrow> bytes option \<Rightarrow> int set \<Rightarrow> status \<times> io_t \<times> int set \<times> path_op list" where
  "io_connect_unix sock connected io path fds =
     (if path = None \<or> the path = [] then
        (IO_ERR, io\<lparr>io_errbuf := IO_SETERR ''io_connect_unix: invalid path''\<rparr>, fds, [])
      else
        case sock of
          Inl e \<Rightarrow> (IO_ERR, io\<lparr>io_errbuf := IO_PERROR ''socket'' e\<rparr>, fds, [])
        | Inr fd \<Rightarrow>
            let fds = insert fd fds; ops = [Connect (sun_path (the path))]
            in case connected of
                 Some e \<Rightarrow> (IO_ERR, io\<lparr>io_errbuf := IO_PERROR (the path) e\<rparr>, fds - {fd}, ops)
               | None \<Rightarrow> (IO_OK, io\<lparr>io_fd := fd\<rparr>, fds, ops))"

text \<open>A call that is retried when a signal interrupts it: the first answer that is not \<open>EINTR\<close>\<close>

fun retry_intr :: "'a sysret list \<Rightarrow> 'a sysret option" where
  "retry_intr [] = None"
| "retry_intr (Inl e # rs) = (if e = EINTR then retry_intr rs else Some (Inl e))"
| "retry_intr (Inr x # rs) = Some (Inr x)"

definition io_accept :: "int sysret list \<Rightarrow> io_t \<Rightarrow> io_t \<Rightarrow> int set \<Rightarrow> (status \<times> io_t \<times> io_t \<times> int set) option" where
  "io_accept rets io out fds =
     map_option (\<lambda>ret. case ret of
         Inl e \<Rightarrow> (IO_ERR, io\<lparr>io_errbuf := IO_PERROR ''accept'' e\<rparr>, out, fds)
       | Inr fd \<Rightarrow> (IO_OK, io, out\<lparr>io_fd := fd\<rparr>, insert fd fds)) (retry_intr rets)"

text \<open>The descriptor is released even if \<open>close\<close> reports an error.\<close>

definition io_close :: "int option \<Rightarrow> io_t \<Rightarrow> int set \<Rightarrow> status \<times> io_t \<times> int set" where
  "io_close closed io fds =
     (if 0 \<le> io_fd io then
        (case closed of
           Some e \<Rightarrow> (IO_ERR, io\<lparr>io_errbuf := IO_PERROR ''close'' e, io_fd := -1\<rparr>, fds - {io_fd io})
         | None \<Rightarrow> (IO_OK, io\<lparr>io_fd := -1\<rparr>, fds - {io_fd io}))
      else (IO_OK, io, fds))"

text \<open>A message carries a number and descriptors.\<close>

definition io_sendfd :: "unit sysret list \<Rightarrow> io_t \<Rightarrow> int \<Rightarrow> int \<Rightarrow> (status \<times> io_t \<times> (int \<times> int list) option) option" where
  "io_sendfd rets io fd err =
     map_option (\<lambda>ret. case ret of
         Inl e \<Rightarrow> if would_block e then (IO_AGAIN, io, None)
                  else (IO_ERR, io\<lparr>io_errbuf := IO_PERROR ''sendmsg'' e\<rparr>, None)
       | Inr _ \<Rightarrow> (IO_OK, io, Some (err, [fd]))) (retry_intr rets)"

text \<open>
  The control messages are the lists of descriptors they bring, or other kinds. The kernel has
  entered the descriptors of the message into the table of the process when \<open>recvmsg\<close> returns.
\<close>

datatype cmsg = Rights "int list" | OtherCmsg

fun find_fd :: "cmsg list \<Rightarrow> int" where
  "find_fd [] = -1"
| "find_fd (Rights [fd] # cs) = fd"
| "find_fd (c # cs) = find_fd cs"

fun received :: "cmsg list \<Rightarrow> int set" where
  "received [] = {}"
| "received (Rights fds # cs) = set fds \<union> received cs"
| "received (OtherCmsg # cs) = received cs"

definition io_recvfd ::
  "(int \<Rightarrow> bytes) \<Rightarrow> (int \<times> cmsg list) sysret list \<Rightarrow> io_t \<Rightarrow> int set \<Rightarrow> (status \<times> io_t \<times> int option \<times> int set) option" where
  "io_recvfd strerror rets io fds =
     map_option (\<lambda>ret. case ret of
         Inl e \<Rightarrow> if would_block e then (IO_AGAIN, io, None, fds)
                  else (IO_ERR, io\<lparr>io_errbuf := IO_PERROR ''recvmsg'' e\<rparr>, None, fds)
       | Inr (m, cs) \<Rightarrow>
           let fd = find_fd cs; fds = fds \<union> received cs
           in if fd < 0 then (IO_ERR, io\<lparr>io_errbuf := IO_SETERR ''no file descriptor received''\<rparr>, None, fds)
              else if m \<noteq> 0 then (IO_ERR, io\<lparr>io_errbuf := IO_SETERR (strerror m)\<rparr>, None, fds - {fd})
              else (IO_OK, io, Some fd, fds)) (retry_intr rets)"

text \<open>The flags before, and what the second \<open>fcntl\<close> returns, if it is called; the flags after\<close>

definition FD_CLOEXEC :: "32 word" where "FD_CLOEXEC = 1"
definition O_NONBLOCK :: "32 word" where "O_NONBLOCK = 2048"

definition set_flag :: "32 word \<Rightarrow> int option \<Rightarrow> io_t \<Rightarrow> 32 word \<Rightarrow> bool \<Rightarrow> status \<times> io_t \<times> 32 word" where
  "set_flag flag set_ret io flags val =
     (let newflags = (if val then flags OR flag else flags AND NOT flag)
      in if newflags \<noteq> flags then
           (case set_ret of
              Some e \<Rightarrow> (IO_ERR, io\<lparr>io_errbuf := IO_PERROR ''fcntl'' e\<rparr>, flags)
            | None \<Rightarrow> (IO_OK, io, newflags))
         else (IO_OK, io, flags))"

definition io_setcloexec :: "int option \<Rightarrow> io_t \<Rightarrow> 32 word \<Rightarrow> bool \<Rightarrow> status \<times> io_t \<times> 32 word" where
  "io_setcloexec = set_flag FD_CLOEXEC"

definition io_setnonblock :: "int option \<Rightarrow> io_t \<Rightarrow> 32 word \<Rightarrow> bool \<Rightarrow> status \<times> io_t \<times> 32 word" where
  "io_setnonblock = set_flag O_NONBLOCK"

lemmas fd_ops = io_open_def io_listen_unix_def io_connect_unix_def io_accept_def io_close_def io_sendfd_def io_recvfd_def



text \<open>
  A descriptor that is passed over a socket arrives together with the error number. An error number
  makes the receiver close the descriptor and fail, so that nothing is left open.
\<close>

theorem io_fd_passing:
  assumes sent: "io_sendfd rets io fd err = Some (r, io', Some (m, [fd]))" and new: "fd' \<notin> fds" "0 \<le> fd'"
  shows "r = IO_OK \<and> io_recvfd strerror [Inl EINTR, Inr (m, [Rights [fd']])] io2 fds
      = Some (if err = 0 then (IO_OK, io2, Some fd', insert fd' fds)
              else (IO_ERR, io2\<lparr>io_errbuf := IO_SETERR (strerror err)\<rparr>, None, fds))"
proof (cases "retry_intr rets")
  case (Some z)
  with assms show ?thesis by (cases z) (auto simp: fd_ops Let_def split: if_splits)
qed (use sent in \<open>simp add: io_sendfd_def\<close>)

theorem io_fd_passing_witness:
  "io_sendfd [Inr ()] (IO_INIT 4) 9 2 = Some (IO_OK, IO_INIT 4, Some (2, [9]))
   \<and> IO_OK = IO_OK \<and> io_recvfd (\<lambda>_. ''gone'') [Inl EINTR, Inr (2, [Rights [6]])] (IO_INIT 5) {5}
      = Some (if (2 :: int) = 0 then (IO_OK, IO_INIT 5, Some 6, insert 6 {5})
              else (IO_ERR, (IO_INIT 5)\<lparr>io_errbuf := IO_SETERR ''gone''\<rparr>, None, {5}))"
proof -
  have "io_sendfd [Inr ()] (IO_INIT 4) 9 2 = Some (IO_OK, IO_INIT 4, Some (2, [9]))" by (simp add: io_sendfd_def)
  with io_fd_passing [OF this, of 6 "{5}" "\<lambda>_. ''gone''" "IO_INIT 5"] show ?thesis by simp
qed

text \<open>
  A message with two descriptors fits in the control buffer, but \<open>io_recvfd\<close> looks for exactly one: it
  reports that none came, and both stay open without a name.
\<close>

theorem io_recvfd_leaks_pair:
  "io_recvfd strerror [Inr (m, [Rights [a, b]])] io fds
     = Some (IO_ERR, io\<lparr>io_errbuf := IO_SETERR ''no file descriptor received''\<rparr>, None, fds \<union> {a, b})"
  by (simp add: io_recvfd_def)

lemma set_flag_bits: "set_flag flag None io flags val = (IO_OK, io, if val then flags OR flag else flags AND NOT flag)"
  by (simp add: set_flag_def Let_def)

lemma set_flag_idem:
  "snd (snd (set_flag flag a io (snd (snd (set_flag flag None io flags val))) val)) = (if val then flags OR flag else flags AND NOT flag)"
  by (simp add: set_flag_bits) (simp add: set_flag_def Let_def)

end
