(* ===== verification/Fcgi.thy ===== *)
theory Fcgi
  imports Io
begin

text \<open>
  The FastCGI responder, \<^verbatim>\<open>lib/net/fcgi.c\<close>: records are read from a descriptor into a message buffer,
  the parameter records and the standard input records of the request are collected, and the
  parameters are split into pairs. A record that is not complete yet makes the calls return
  \<open>FCGI_AGAIN\<close>, and they are resumed when more data arrives. \<^const>\<open>None\<close> is a failed assertion or an
  access outside of a buffer.
\<close>

section \<open>Data\<close>

definition INIT_MBUFSZ :: size_t where "INIT_MBUFSZ = 2048"
definition INIT_PBUFSZ :: size_t where "INIT_PBUFSZ = 2048"
definition INIT_BBUFSZ :: size_t where "INIT_BBUFSZ = 2048"
definition MAX_PARAMSZ :: size_t where "MAX_PARAMSZ = 2 ^ 20 * 2"
definition MAX_BODYSZ :: size_t where "MAX_BODYSZ = 2 ^ 20 * 10"

definition RSTATE_INCOMPLETE :: int where "RSTATE_INCOMPLETE = 1"
definition RSTATE_COMPLETE :: int where "RSTATE_COMPLETE = 2"
definition PSTATE_EXPECT_BEGIN_REQUEST :: int where "PSTATE_EXPECT_BEGIN_REQUEST = 1"
definition PSTATE_EXPECT_PARAMS :: int where "PSTATE_EXPECT_PARAMS = 2"
definition PSTATE_DONE :: int where "PSTATE_DONE = 3"

definition FCGIERR_CLOSED :: int where "FCGIERR_CLOSED = -1"
definition FCGIERR_UNEXPECTEDMSG :: int where "FCGIERR_UNEXPECTEDMSG = -2"
definition FCGIERR_INVALIDSTATE :: int where "FCGIERR_INVALIDSTATE = -3"
definition FCGIERR_MALFORMED :: int where "FCGIERR_MALFORMED = -4"
definition FCGIERR_PARAMSIZE :: int where "FCGIERR_PARAMSIZE = -5"
definition FCGIERR_BODYSIZE :: int where "FCGIERR_BODYSIZE = -6"

definition FCGI_ERR :: status where "FCGI_ERR = -1"
definition FCGI_OK :: status where "FCGI_OK = 0"
definition FCGI_AGAIN :: status where "FCGI_AGAIN = 1"

definition FCGI_BEGIN_REQUEST :: u8 where "FCGI_BEGIN_REQUEST = 1"
definition FCGI_END_REQUEST :: u8 where "FCGI_END_REQUEST = 3"
definition FCGI_PARAMS :: u8 where "FCGI_PARAMS = 4"
definition FCGI_STDIN :: u8 where "FCGI_STDIN = 5"
definition FCGI_REQUEST_COMPLETE :: u8 where "FCGI_REQUEST_COMPLETE = 0"

lemmas fcgi_codes = FCGI_ERR_def FCGI_OK_def FCGI_AGAIN_def
lemmas fcgi_states = RSTATE_INCOMPLETE_def RSTATE_COMPLETE_def PSTATE_EXPECT_BEGIN_REQUEST_def
  PSTATE_EXPECT_PARAMS_def PSTATE_DONE_def
lemmas fcgi_types = FCGI_BEGIN_REQUEST_def FCGI_END_REQUEST_def FCGI_PARAMS_def FCGI_STDIN_def

record fcgi_header =
  h_version :: u8
  h_t :: u8
  h_id :: u16
  h_clenB1 :: u8
  h_clenB0 :: u8
  h_plen :: u8
  h_reserved :: u8

definition sizeof_fcgi_header :: nat where "sizeof_fcgi_header = 8"

definition FCGI_CLEN :: "fcgi_header \<Rightarrow> nat" where
  "FCGI_CLEN hdr = unat (h_clenB1 hdr) * 2 ^ 8 + unat (h_clenB0 hdr)"

record fcgi_cli =
  fc_id :: u16
  fc_buf :: buf_t
  fc_params :: buf_t
  fc_body :: buf_t
  fc_read_state :: int
  fc_param_state :: int
  fc_errcode :: int
  fc_io :: io_t

text \<open>The header, and the offset of the data in the message buffer\<close>

record fcgi_msg =
  msg_header :: fcgi_header
  msg_data :: nat

text \<open>Offsets from the start of the parameter buffer\<close>

record fcgi_pair =
  p_keylen :: size_t
  p_valuelen :: size_t
  p_key :: size_t
  p_value :: size_t

text \<open>The header in memory; the identifier is stored the way the (little-endian) machine reads it.\<close>

definition header_bytes :: "fcgi_header \<Rightarrow> bytes" where
  "header_bytes h = map char_of [unat (h_version h), unat (h_t h), unat (h_id h) mod 256, unat (h_id h) div 256,
     unat (h_clenB1 h), unat (h_clenB0 h), unat (h_plen h), unat (h_reserved h)]"

definition header_at :: "bytes \<Rightarrow> fcgi_header option" where
  "header_at m =
     (if length m < sizeof_fcgi_header then None
      else Some \<lparr>h_version = of_char (m ! 0), h_t = of_char (m ! 1), h_id = of_char (m ! 2) + 256 * of_char (m ! 3),
        h_clenB1 = of_char (m ! 4), h_clenB0 = of_char (m ! 5), h_plen = of_char (m ! 6), h_reserved = of_char (m ! 7)\<rparr>)"

definition peek :: "nat \<Rightarrow> nat \<Rightarrow> 'a list \<Rightarrow> 'a list option" where
  "peek off n m = (if off + n \<le> length m then Some (take n (drop off m)) else None)"

section \<open>Operations\<close>

definition fcgi_cli_init :: "allocator \<Rightarrow> int \<Rightarrow> fcgi_cli option" where
  "fcgi_cli_init ok fd =
     do { b \<leftarrow> buf_init ok INIT_MBUFSZ;
          p \<leftarrow> buf_init ok INIT_PBUFSZ;
          y \<leftarrow> buf_init ok INIT_BBUFSZ;
          Some \<lparr>fc_id = 0, fc_buf = b, fc_params = p, fc_body = y, fc_read_state = RSTATE_INCOMPLETE,
            fc_param_state = PSTATE_EXPECT_BEGIN_REQUEST, fc_errcode = 0, fc_io = IO_INIT fd\<rparr> }"

definition fcgi_cli_cleanup :: "fcgi_cli \<Rightarrow> fcgi_cli" where
  "fcgi_cli_cleanup c =
     c\<lparr>fc_buf := buf_cleanup (fc_buf c), fc_params := buf_cleanup (fc_params c), fc_body := buf_cleanup (fc_body c)\<rparr>"

definition msglen :: "fcgi_header \<Rightarrow> nat" where
  "msglen hdr = sizeof_fcgi_header + FCGI_CLEN hdr + unat (h_plen hdr)"

definition fcgi_is_complete_msg :: "fcgi_cli \<Rightarrow> bool option" where
  "fcgi_is_complete_msg c =
     (if unat (buf_len (fc_buf c)) < sizeof_fcgi_header then Some False
      else do { hdr \<leftarrow> header_at (mem (fc_buf c)); Some (\<not> msglen hdr > unat (buf_len (fc_buf c))) })"

text \<open>
  The first part of \<open>fcgi_cli_readmsg\<close>: the message of the call before is removed from the buffer. The
  result says if there is a complete message behind it.
\<close>

definition drop_message :: "fcgi_cli \<Rightarrow> (bool \<times> fcgi_cli) option" where
  "drop_message c =
     (if fc_read_state c = RSTATE_COMPLETE then
        if unat (buf_len (fc_buf c)) < sizeof_fcgi_header then None
        else do {
          hdr \<leftarrow> header_at (mem (fc_buf c));
          let len = msglen hdr;
          if len < unat (buf_len (fc_buf c)) then do {
            let nlen = unat (buf_len (fc_buf c)) - len;
            tail \<leftarrow> peek len nlen (mem (fc_buf c));
            m \<leftarrow> poke 0 tail (mem (fc_buf c));
            let c = c\<lparr>fc_buf := fc_buf c\<lparr>buf_data := Some m, buf_len := of_nat nlen\<rparr>\<rparr>;
            full \<leftarrow> fcgi_is_complete_msg c;
            Some (full, if full then c else c\<lparr>fc_read_state := RSTATE_INCOMPLETE\<rparr>)
          } else Some (False, c\<lparr>fc_buf := buf_clear (fc_buf c), fc_read_state := RSTATE_INCOMPLETE\<rparr>)
        }
      else Some (False, c))"

text \<open>The loop that reads until a message is complete: the last results of \<open>io_readbuf\<close>, and if it is\<close>

function fill :: "allocator \<Rightarrow> fcgi_cli \<Rightarrow> read_event list \<Rightarrow> (status \<times> nat \<times> bool \<times> fcgi_cli \<times> read_event list) option" where
  "fill ok c es =
     (case io_readbuf ok (fc_io c) es (fc_buf c) of
        None \<Rightarrow> None
      | Some (ret, nread, b, io, es') \<Rightarrow>
          let c' = c\<lparr>fc_buf := b, fc_io := io\<rparr>
          in case fcgi_is_complete_msg c' of
               None \<Rightarrow> None
             | Some is_complete \<Rightarrow>
                 if \<not> is_complete \<and> ret = IO_OK \<and> nread > 0 then fill ok c' es'
                 else Some (ret, nread, is_complete, c', es'))"
  by pat_completeness auto
termination
  by (relation "measure (\<lambda>(ok, c, es). length (arriving es))") (auto dest!: io_readbuf_consumes(1))

declare fill.simps [simp del]

text \<open>The part after the loop: \<open>FCGI_OK\<close> when there is a message in the buffer\<close>

definition read_message :: "allocator \<Rightarrow> fcgi_cli \<Rightarrow> read_event list \<Rightarrow> (status \<times> fcgi_cli \<times> read_event list) option" where
  "read_message ok c es =
     do {
       (ret, nread, is_complete, c, es) \<leftarrow> fill ok c es;
       Some (if is_complete then (FCGI_OK, c\<lparr>fc_read_state := RSTATE_COMPLETE\<rparr>, es)
             else if ret = IO_AGAIN then (FCGI_AGAIN, c, es)
             else if ret = IO_OK \<and> nread = 0 then (FCGI_ERR, c\<lparr>fc_errcode := FCGIERR_CLOSED\<rparr>, es)
             else (FCGI_ERR, c, es))
     }"

text \<open>One round of \<open>fcgi_cli_readmsg\<close>, from the label \<open>again\<close> to the check of the identifier\<close>

definition next_message :: "allocator \<Rightarrow> fcgi_cli \<Rightarrow> read_event list \<Rightarrow> (status \<times> fcgi_cli \<times> read_event list) option" where
  "next_message ok c es =
     do { (full, c) \<leftarrow> drop_message c; if full then Some (FCGI_OK, c, es) else read_message ok c es }"

text \<open>Every round uses up a message, or completes one in the buffer.\<close>

definition left :: "fcgi_cli \<Rightarrow> read_event list \<Rightarrow> nat" where
  "left c es = unat (buf_len (fc_buf c)) + length (arriving es)"

lemma fill_left:
  "fill ok c es = Some (ret, nread, done, c', es') \<Longrightarrow> left c' es' \<le> left c es \<and> fc_read_state c' = fc_read_state c"
proof (induction ok c es arbitrary: ret nread "done" c' es' rule: fill.induct)
  case (1 ok c es)
  obtain r n b io es1 where i: "io_readbuf ok (fc_io c) es (fc_buf c) = Some (r, n, b, io, es1)"
    using 1(2) by (auto simp: fill.simps [of ok c es] split: option.splits)
  let ?c = "c\<lparr>fc_buf := b, fc_io := io\<rparr>"
  have l: "left ?c es1 \<le> left c es" using io_readbuf_consumes [OF i] by (simp add: left_def)
  obtain full where f: "fcgi_is_complete_msg ?c = Some full"
    using 1(2) i by (auto simp: fill.simps [of ok c es] Let_def split: option.splits)
  show ?case
  proof (cases "\<not> full \<and> r = IO_OK \<and> n > 0")
    case True
    with 1(2) i f have "fill ok ?c es1 = Some (ret, nread, done, c', es')"
      by (simp add: fill.simps [of ok c es] Let_def)
    from 1(1) [OF i refl refl refl refl refl f True this] l show ?thesis by simp
  next
    case False
    with 1(2) i f l show ?thesis by (auto simp: fill.simps [of ok c es] Let_def)
  qed
qed

lemma unat_of_nat_diff: "unat (of_nat (unat (x :: size_t) - n) :: size_t) = unat x - n"
proof -
  have "unat x - n < 2 ^ LENGTH(64)" using unsigned_less [of x, where ?'a = nat] by linarith
  then show ?thesis by (simp add: unat_of_nat take_bit_nat_eq_self del: of_nat_diff)
qed

lemma msglen_pos [simp]: "0 < msglen h"
  by (simp add: msglen_def sizeof_fcgi_header_def)

lemma drop_message_left:
  assumes "drop_message c = Some (full, c')"
  shows "if fc_read_state c = RSTATE_COMPLETE then left c' es < left c es else left c' es = left c es"
    and "full \<longrightarrow> fc_read_state c' = RSTATE_COMPLETE"
  using assms
  by (auto simp: drop_message_def left_def sizeof_fcgi_header_def buf_clear_def Let_def unat_of_nat_diff
      simp del: of_nat_diff split: if_splits bind_splits)

lemma next_message_left:
  assumes "next_message ok c es = Some (FCGI_OK, c', es')"
  shows "fc_read_state c' = RSTATE_COMPLETE \<and> left c' es' \<le> left c es
    \<and> (fc_read_state c = RSTATE_COMPLETE \<longrightarrow> left c' es' < left c es)"
proof -
  from assms obtain full c1 where d: "drop_message c = Some (full, c1)" by (auto simp: next_message_def split: bind_splits)
  note l = drop_message_left(1) [OF d, of es] drop_message_left(2) [OF d]
  show ?thesis
  proof (cases full)
    case True
    with assms d l show ?thesis by (auto simp: next_message_def split: if_splits)
  next
    case False
    with assms d obtain ret n c2 where "fill ok c1 es = Some (ret, n, True, c2, es')" "c' = c2\<lparr>fc_read_state := RSTATE_COMPLETE\<rparr>"
      by (auto simp: next_message_def read_message_def fcgi_codes split: if_splits bind_splits)
    with fill_left [OF this(1)] l show ?thesis by (auto simp: left_def split: if_splits)
  qed
qed

text \<open>Messages with another identifier are ignored.\<close>

function fcgi_cli_readmsg ::
  "allocator \<Rightarrow> fcgi_cli \<Rightarrow> read_event list \<Rightarrow> (status \<times> fcgi_msg option \<times> fcgi_cli \<times> read_event list) option" where
  "fcgi_cli_readmsg ok c es =
     (case next_message ok c es of
        None \<Rightarrow> None
      | Some (r, c', es') \<Rightarrow>
          if r \<noteq> FCGI_OK then Some (r, None, c', es')
          else case header_at (mem (fc_buf c')) of
            None \<Rightarrow> None
          | Some hdr \<Rightarrow>
              if fc_param_state c' \<noteq> PSTATE_EXPECT_BEGIN_REQUEST \<and> h_id hdr \<noteq> fc_id c' then fcgi_cli_readmsg ok c' es'
              else Some (FCGI_OK, Some \<lparr>msg_header = hdr, msg_data = sizeof_fcgi_header\<rparr>, c', es'))"
  by pat_completeness auto
termination
  by (relation "measure (\<lambda>(ok, c, es). 2 * left c es + (if fc_read_state c = RSTATE_COMPLETE then 0 else 1))")
    (auto dest!: next_message_left)

declare fcgi_cli_readmsg.simps [simp del]

definition cost :: "fcgi_cli \<Rightarrow> read_event list \<Rightarrow> nat" where
  "cost c es = 2 * left c es + (if fc_read_state c = RSTATE_COMPLETE then 0 else 1)"

lemma readmsg_cost: "fcgi_cli_readmsg ok c es = Some (FCGI_OK, m, c', es') \<Longrightarrow> cost c' es' < cost c es"
proof (induction ok c es rule: fcgi_cli_readmsg.induct)
  case (1 ok c es)
  from 1(2) obtain r c1 es1 where n: "next_message ok c es = Some (r, c1, es1)"
    by (auto simp: fcgi_cli_readmsg.simps [of ok c es] split: option.splits)
  from 1(2) n have r: "\<not> r \<noteq> FCGI_OK" by (auto simp: fcgi_cli_readmsg.simps [of ok c es] split: if_splits)
  with n have l: "cost c1 es1 < cost c es" using next_message_left [of ok c es c1 es1] by (auto simp: cost_def)
  from 1(2) n r obtain h where h: "header_at (mem (fc_buf c1)) = Some h"
    by (auto simp: fcgi_cli_readmsg.simps [of ok c es] split: option.splits)
  show ?case
  proof (cases "fc_param_state c1 \<noteq> PSTATE_EXPECT_BEGIN_REQUEST \<and> h_id h \<noteq> fc_id c1")
    case True
    with 1(2) n r h have "fcgi_cli_readmsg ok c1 es1 = Some (FCGI_OK, m, c', es')"
      by (simp add: fcgi_cli_readmsg.simps [of ok c es])
    with 1(1) [OF n refl refl r h True] l show ?thesis by simp
  next
    case False
    with 1(2) n r h l show ?thesis by (auto simp: fcgi_cli_readmsg.simps [of ok c es])
  qed
qed

definition fcgi_error :: "int \<Rightarrow> fcgi_cli \<Rightarrow> status option \<times> fcgi_cli" where
  "fcgi_error e c = (Some FCGI_ERR, c\<lparr>fc_errcode := e\<rparr>)"

text \<open>
  The body of the loop of \<open>fcgi_cli_readparams\<close>: a status, when it returns. The result of \<open>buf_adata\<close> is
  ignored.
\<close>

definition params_record :: "allocator \<Rightarrow> fcgi_msg \<Rightarrow> fcgi_cli \<Rightarrow> (status option \<times> fcgi_cli) option" where
  "params_record ok msg c =
     (let hdr = msg_header msg; clen = FCGI_CLEN hdr
      in if fc_param_state c = PSTATE_EXPECT_BEGIN_REQUEST then
           Some (if h_t hdr \<noteq> FCGI_BEGIN_REQUEST then fcgi_error FCGIERR_UNEXPECTEDMSG c
                 else (None, c\<lparr>fc_id := h_id hdr, fc_param_state := PSTATE_EXPECT_PARAMS\<rparr>))
         else if fc_param_state c = PSTATE_EXPECT_PARAMS then
           if h_t hdr \<noteq> FCGI_PARAMS then Some (fcgi_error FCGIERR_UNEXPECTEDMSG c)
           else if clen = 0 then Some (Some FCGI_OK, c\<lparr>fc_param_state := PSTATE_DONE\<rparr>)
           else if buf_len (fc_params c) + of_nat clen > MAX_PARAMSZ then Some (fcgi_error FCGIERR_PARAMSIZE c)
           else do {
             d \<leftarrow> peek (msg_data msg) clen (mem (fc_buf c));
             (_, p) \<leftarrow> buf_adata ok (fc_params c) d;
             Some (None, c\<lparr>fc_params := p\<rparr>)
           }
         else Some (fcgi_error FCGIERR_INVALIDSTATE c))"

definition body_record :: "allocator \<Rightarrow> fcgi_msg \<Rightarrow> fcgi_cli \<Rightarrow> (status option \<times> fcgi_cli) option" where
  "body_record ok msg c =
     (let hdr = msg_header msg; clen = FCGI_CLEN hdr
      in if h_t hdr \<noteq> FCGI_STDIN then Some (fcgi_error FCGIERR_UNEXPECTEDMSG c)
         else if clen = 0 then Some (Some FCGI_OK, c)
         else if buf_len (fc_body c) + of_nat clen > MAX_BODYSZ then Some (fcgi_error FCGIERR_BODYSIZE c)
         else do {
           d \<leftarrow> peek (msg_data msg) clen (mem (fc_buf c));
           (_, b) \<leftarrow> buf_adata ok (fc_body c) d;
           Some (None, c\<lparr>fc_body := b\<rparr>)
         })"

lemma params_record_cost: "params_record ok msg c = Some (s, c') \<Longrightarrow> cost c' = cost c"
  by (rule ext) (auto simp: params_record_def fcgi_error_def cost_def left_def Let_def split: if_splits bind_splits)

lemma body_record_cost: "body_record ok msg c = Some (s, c') \<Longrightarrow> cost c' = cost c"
  by (rule ext) (auto simp: body_record_def fcgi_error_def cost_def left_def Let_def split: if_splits bind_splits)

text \<open>The two loops: messages are read and handled until there is a status or no message.\<close>

function params_loop :: "allocator \<Rightarrow> fcgi_cli \<Rightarrow> read_event list \<Rightarrow> (status \<times> fcgi_cli \<times> read_event list) option" where
  "params_loop ok c es =
     (case fcgi_cli_readmsg ok c es of
        None \<Rightarrow> None
      | Some (r, None, c', es') \<Rightarrow> if r = FCGI_OK then None else Some (r, c', es')
      | Some (r, Some msg, c', es') \<Rightarrow>
          if r = FCGI_OK then
            (case params_record ok msg c' of
               None \<Rightarrow> None
             | Some (Some s, c'') \<Rightarrow> Some (s, c'', es')
             | Some (None, c'') \<Rightarrow> params_loop ok c'' es')
          else Some (r, c', es'))"
  by pat_completeness auto
termination
  by (relation "measure (\<lambda>(ok, c, es). cost c es)") (auto dest!: readmsg_cost params_record_cost)

function fcgi_cli_readbody :: "allocator \<Rightarrow> fcgi_cli \<Rightarrow> read_event list \<Rightarrow> (status \<times> fcgi_cli \<times> read_event list) option" where
  "fcgi_cli_readbody ok c es =
     (case fcgi_cli_readmsg ok c es of
        None \<Rightarrow> None
      | Some (r, None, c', es') \<Rightarrow> if r = FCGI_OK then None else Some (r, c', es')
      | Some (r, Some msg, c', es') \<Rightarrow>
          if r = FCGI_OK then
            (case body_record ok msg c' of
               None \<Rightarrow> None
             | Some (Some s, c'') \<Rightarrow> Some (s, c'', es')
             | Some (None, c'') \<Rightarrow> fcgi_cli_readbody ok c'' es')
          else Some (r, c', es'))"
  by pat_completeness auto
termination
  by (relation "measure (\<lambda>(ok, c, es). cost c es)") (auto dest!: readmsg_cost body_record_cost)

declare params_loop.simps [simp del] fcgi_cli_readbody.simps [simp del]

definition fcgi_cli_readparams :: "allocator \<Rightarrow> fcgi_cli \<Rightarrow> read_event list \<Rightarrow> (status \<times> fcgi_cli \<times> read_event list) option" where
  "fcgi_cli_readparams ok c es = (if fc_param_state c = PSTATE_DONE then Some (FCGI_OK, c, es) else params_loop ok c es)"

definition fcgi_cli_readreq :: "allocator \<Rightarrow> fcgi_cli \<Rightarrow> read_event list \<Rightarrow> (status \<times> fcgi_cli \<times> read_event list) option" where
  "fcgi_cli_readreq ok c es =
     (if fc_param_state c = PSTATE_DONE then fcgi_cli_readbody ok c es
      else do {
        (ret, c, es) \<leftarrow> fcgi_cli_readparams ok c es;
        if ret = FCGI_OK then fcgi_cli_readbody ok c es else Some (ret, c, es)
      })"

text \<open>
  The number of bytes of a length field, and the length. The bytes are of the type \<open>char\<close>, which is
  signed here: the conversion to \<open>size_t\<close> extends the sign.
\<close>

definition char_to_size :: "byte \<Rightarrow> size_t" where
  "char_to_size c = scast (of_char c :: u8)"

definition get_length :: "bytes \<Rightarrow> (nat \<times> size_t) option" where
  "get_length data =
     (if length data < 1 then None
      else if (of_char (data ! 0) :: u8) AND 0x80 \<noteq> 0 then
        if length data < 4 then None
        else Some (4, push_bit 24 (char_to_size (data ! 0)) OR push_bit 16 (char_to_size (data ! 1))
               OR push_bit 8 (char_to_size (data ! 2)) OR char_to_size (data ! 3))
      else Some (1, char_to_size (data ! 0)))"

text \<open>\<open>FCGI_AGAIN\<close> with a pair, or \<open>FCGI_OK\<close> at the end; the new offset\<close>

definition fcgi_cli_next_param :: "fcgi_cli \<Rightarrow> size_t \<Rightarrow> status \<times> fcgi_pair option \<times> size_t" where
  "fcgi_cli_next_param c off =
     (if off \<ge> buf_len (fc_params c) then (FCGI_OK, None, off)
      else let data = drop (unat off) (buf_contents (fc_params c))
           in case get_length data of
                None \<Rightarrow> (FCGI_OK, None, off)
              | Some (l0, keylen) \<Rightarrow>
                  (case get_length (drop l0 data) of
                     None \<Rightarrow> (FCGI_OK, None, off)
                   | Some (l1, valuelen) \<Rightarrow>
                       let left = of_nat (length data - l0 - l1); ptr = off + of_nat (l0 + l1)
                       in if keylen + valuelen > left then (FCGI_OK, None, off)
                          else (FCGI_AGAIN,
                            Some \<lparr>p_keylen = keylen, p_valuelen = valuelen, p_key = ptr, p_value = ptr + keylen\<rparr>,
                            off + (of_nat (l0 + l1) + keylen + valuelen))))"

definition fcgi_cli_format_header :: "fcgi_cli \<Rightarrow> fcgi_header \<Rightarrow> u8 \<Rightarrow> u16 \<Rightarrow> fcgi_header" where
  "fcgi_cli_format_header c h t clen =
     h\<lparr>h_version := 1, h_t := t, h_id := fc_id c, h_clenB1 := ucast (drop_bit 8 clen),
       h_clenB0 := ucast (clen AND 0xff), h_plen := 0\<rparr>"

record fcgi_end_request =
  er_header :: fcgi_header
  er_appstatusB3 :: u8
  er_appstatusB2 :: u8
  er_appstatusB1 :: u8
  er_appstatusB0 :: u8
  er_pstatus :: u8
  er_res :: "u8 list"

definition fcgi_cli_format_endmsg :: "fcgi_cli \<Rightarrow> fcgi_end_request \<Rightarrow> u32 \<Rightarrow> fcgi_end_request" where
  "fcgi_cli_format_endmsg c r st =
     r\<lparr>er_header := fcgi_cli_format_header c (er_header r) FCGI_END_REQUEST 8,
       er_appstatusB3 := ucast (drop_bit 24 st), er_appstatusB2 := ucast (drop_bit 16 st),
       er_appstatusB1 := ucast (drop_bit 8 st), er_appstatusB0 := ucast (st AND 0xff),
       er_pstatus := FCGI_REQUEST_COMPLETE\<rparr>"

definition fcgi_cli_strerror :: "(int \<Rightarrow> bytes) \<Rightarrow> fcgi_cli \<Rightarrow> bytes" where
  "fcgi_cli_strerror strerror c =
     (if fc_errcode c = 0 then io_strerror strerror (io_errbuf (fc_io c))
      else if fc_errcode c = FCGIERR_CLOSED then ''premature connection termination''
      else if fc_errcode c = FCGIERR_UNEXPECTEDMSG then ''an unexpected message was received''
      else if fc_errcode c = FCGIERR_INVALIDSTATE then ''invalid internal state''
      else if fc_errcode c = FCGIERR_MALFORMED then ''malformed message''
      else if fc_errcode c = FCGIERR_PARAMSIZE then ''FCGI_PARAMS buffer limit exceeded''
      else if fc_errcode c = FCGIERR_BODYSIZE then ''FCGI_STDIN buffer limit exceeded''
      else ''unknown error'')"

definition fcgi_type_to_str :: "int \<Rightarrow> bytes" where
  "fcgi_type_to_str t =
     (let names = [''FCGI_BEGIN_REQUEST'', ''FCGI_ABORT_REQUEST'', ''FCGI_END_REQUEST'', ''FCGI_PARAMS'', ''FCGI_STDIN'',
        ''FCGI_STDOUT'', ''FCGI_STDERR'', ''FCGI_DATA'', ''FCGI_GET_VALUES'', ''FCGI_GET_VALUES_RESULT'', ''FCGI_UNKNOWN_TYPE'']
      in if 1 \<le> t \<and> t \<le> 11 then names ! nat (t - 1) else ''FCGI_???'')"

section \<open>The message buffer\<close>

text \<open>A sequence of bytes that starts with a complete message, and what is behind the message\<close>

definition first_len :: "bytes \<Rightarrow> nat" where
  "first_len xs = msglen (the (header_at xs))"

definition complete :: "bytes \<Rightarrow> bool" where
  "complete xs \<longleftrightarrow> sizeof_fcgi_header \<le> length xs \<and> first_len xs \<le> length xs"

definition fcgi_inv :: "allocator \<Rightarrow> fcgi_cli \<Rightarrow> bool" where
  "fcgi_inv ok c \<longleftrightarrow> buf_wf ok (fc_buf c) \<and> buf_wf ok (fc_params c) \<and> buf_wf ok (fc_body c)
     \<and> (fc_read_state c = RSTATE_COMPLETE \<longrightarrow> complete (buf_contents (fc_buf c)))"

definition pending :: "fcgi_cli \<Rightarrow> bytes" where
  "pending c = (let xs = buf_contents (fc_buf c) in if fc_read_state c = RSTATE_COMPLETE then drop (first_len xs) xs else xs)"

definition stream :: "fcgi_cli \<Rightarrow> read_event list \<Rightarrow> bytes" where
  "stream c es = pending c @ arriving es"

text \<open>What reading messages does not touch\<close>

definition request :: "fcgi_cli \<Rightarrow> u16 \<times> buf_t \<times> buf_t \<times> int" where
  "request c = (fc_id c, fc_params c, fc_body c, fc_param_state c)"

lemma header_at_contents:
  assumes "buf_wf ok b" and "sizeof_fcgi_header \<le> length (buf_contents b)"
  shows "header_at (mem b) = header_at (buf_contents b)"
proof -
  have "length (buf_contents b) \<le> length (mem b)" by (simp add: buf_contents_def)
  moreover have "buf_contents b ! i = mem b ! i" if "i < 8" for i
    using that assms by (simp add: buf_contents_def sizeof_fcgi_header_def)
  ultimately show ?thesis using assms by (simp add: header_at_def sizeof_fcgi_header_def)
qed

lemma header_at_Some: "sizeof_fcgi_header \<le> length xs \<Longrightarrow> header_at xs = Some (the (header_at xs))"
  by (simp add: header_at_def)

lemma peek_contents:
  assumes "buf_wf ok b" and "off + n \<le> length (buf_contents b)"
  shows "peek off n (mem b) = Some (take n (drop off (buf_contents b)))"
proof -
  have "length (buf_contents b) \<le> length (mem b)" by (simp add: buf_contents_def)
  moreover have "n \<le> unat (buf_len b) - off" using assms(2) by (auto simp: buf_contents_def)
  then have "take n (drop off (buf_contents b)) = take n (drop off (mem b))"
    by (simp add: buf_contents_def drop_take take_take min_absorb1)
  ultimately show ?thesis using assms by (simp add: peek_def)
qed

lemma is_complete_msg:
  assumes "buf_wf ok (fc_buf c)"
  shows "fcgi_is_complete_msg c = Some (complete (buf_contents (fc_buf c)))"
proof (cases "sizeof_fcgi_header \<le> length (buf_contents (fc_buf c))")
  case True
  then obtain h where "header_at (buf_contents (fc_buf c)) = Some h" using header_at_Some by blast
  with True assms header_at_contents [OF assms] show ?thesis
    by (auto simp: fcgi_is_complete_msg_def complete_def first_len_def length_buf_contents)
qed (use assms in \<open>auto simp: fcgi_is_complete_msg_def complete_def length_buf_contents\<close>)

lemma drop_message_spec:
  assumes inv: "fcgi_inv ok c"
  obtains c' where "drop_message c = Some (fc_read_state c = RSTATE_COMPLETE \<and> complete (pending c), c')"
    and "fcgi_inv ok c'" and "buf_contents (fc_buf c') = pending c" and "request c' = request c" and "fc_io c' = fc_io c"
    and "fc_read_state c' = RSTATE_COMPLETE \<longleftrightarrow> fc_read_state c = RSTATE_COMPLETE \<and> complete (pending c)"
proof (cases "fc_read_state c = RSTATE_COMPLETE")
  case False
  show ?thesis
    by (rule that [of c]) (use False inv in \<open>auto simp: drop_message_def pending_def Let_def\<close>)
next
  case True
  let ?xs = "buf_contents (fc_buf c)"
  let ?n = "unat (buf_len (fc_buf c)) - first_len ?xs"
  have wf: "buf_wf ok (fc_buf c)" and full: "complete ?xs" using inv True by (auto simp: fcgi_inv_def)
  note len = length_buf_contents [OF wf]
  have h: "header_at (mem (fc_buf c)) = Some (the (header_at ?xs))" "8 \<le> length ?xs" "first_len ?xs \<le> length ?xs"
    using full header_at_contents [OF wf] header_at_Some [of ?xs] by (auto simp: complete_def sizeof_fcgi_header_def)
  show ?thesis
  proof (cases "first_len ?xs < length ?xs")
    case shorter: True
    let ?m = "drop (first_len ?xs) ?xs @ drop ?n (mem (fc_buf c))"
    let ?b = "fc_buf c\<lparr>buf_data := Some ?m, buf_len := of_nat ?n\<rparr>"
    have n: "unat (of_nat ?n :: size_t) = ?n" by (rule unat_of_nat_diff)
    have cap: "length (mem (fc_buf c)) = unat (buf_cap (fc_buf c))" "unat (buf_len (fc_buf c)) \<le> unat (buf_cap (fc_buf c))"
      using wf by (auto simp: buf_wf_def word_le_nat_alt)
    have lm: "length ?m = unat (buf_cap (fc_buf c))" using len cap by simp
    have wfb: "buf_wf ok ?b" using wf lm cap by (simp add: buf_wf_def word_le_nat_alt n del: of_nat_diff)
    have cb: "buf_contents ?b = drop (first_len ?xs) ?xs" using len by (simp add: buf_contents_def [of ?b] n del: of_nat_diff)
    have pk: "peek (first_len ?xs) ?n (mem (fc_buf c)) = Some (drop (first_len ?xs) ?xs)"
      using peek_contents [OF wf, of "first_len ?xs" ?n] h(3) len by simp
    have po: "poke 0 (drop (first_len ?xs) ?xs) (mem (fc_buf c)) = Some ?m" using len cap by (simp add: poke_def)
    have pe: "pending c = drop (first_len ?xs) ?xs" using True by (simp add: pending_def Let_def)
    let ?c = "c\<lparr>fc_buf := ?b\<rparr>"
    have ic: "fcgi_is_complete_msg ?c = Some (complete (pending c))"
      using is_complete_msg [of ok ?c] wfb cb pe by simp
    show ?thesis
    proof (rule that [of "if complete (pending c) then ?c else ?c\<lparr>fc_read_state := RSTATE_INCOMPLETE\<rparr>"])
      show "drop_message c = Some (fc_read_state c = RSTATE_COMPLETE \<and> complete (pending c),
          if complete (pending c) then ?c else ?c\<lparr>fc_read_state := RSTATE_INCOMPLETE\<rparr>)"
        using True h shorter len pk po ic
        by (simp add: drop_message_def first_len_def sizeof_fcgi_header_def Let_def del: of_nat_diff)
    qed (use inv wfb cb pe True in \<open>auto simp: fcgi_inv_def request_def fcgi_states\<close>)
  next
    case False
    with h(3) have eq: "first_len ?xs = length ?xs" by simp
    have pe: "pending c = []" "\<not> complete []" using True eq by (simp_all add: pending_def complete_def sizeof_fcgi_header_def)
    show ?thesis
      by (rule that [of "c\<lparr>fc_buf := buf_clear (fc_buf c), fc_read_state := RSTATE_INCOMPLETE\<rparr>"])
        (use True h eq len pe inv buf_clear_wf(1) [OF wf] buf_clear_wf(2) [of "fc_buf c"] in
          \<open>auto simp: drop_message_def first_len_def sizeof_fcgi_header_def Let_def fcgi_inv_def request_def fcgi_states\<close>)
  qed
qed

text \<open>
  Reading loses nothing: it moves bytes from the descriptor into the buffer, until there is a complete
  message. On a quiet stream it fails only for want of memory, and every pause uses up an event.
\<close>

lemma fill_spec:
  assumes "fcgi_inv ok c" and "fc_read_state c \<noteq> RSTATE_COMPLETE"
  shows "\<exists>ret nread c' es'. fill ok c es = Some (ret, nread, complete (buf_contents (fc_buf c')), c', es')
    \<and> fcgi_inv ok c' \<and> fc_read_state c' = fc_read_state c \<and> request c' = request c
    \<and> buf_contents (fc_buf c') @ arriving es' = buf_contents (fc_buf c) @ arriving es
    \<and> length es' \<le> length es \<and> (ret = IO_AGAIN \<longrightarrow> es = [] \<or> length es' < length es)
    \<and> (ret = IO_OK \<and> nread \<noteq> 0 \<longrightarrow> complete (buf_contents (fc_buf c')))
    \<and> (quiet es \<longrightarrow> quiet es' \<and> (ret = IO_OK \<longrightarrow> nread \<noteq> 0)
         \<or> refuses ok (length (buf_contents (fc_buf c) @ arriving es) + 256))
    \<and> (quiet es \<and> ret \<noteq> IO_OK \<and> ret \<noteq> IO_AGAIN \<longrightarrow> refuses ok (length (buf_contents (fc_buf c) @ arriving es) + 256))"
  using assms
proof (induction ok c es rule: fill.induct)
  case (1 ok c es)
  have wf: "buf_wf ok (fc_buf c)" using 1(2) by (simp add: fcgi_inv_def)
  let ?c = "\<lambda>b io. c\<lparr>fc_buf := b, fc_io := io\<rparr>"
  have inv: "fcgi_inv ok (?c b io)" if "buf_wf ok b" for b io
    using that 1(2,3) by (simp add: fcgi_inv_def)
  note stop = is_complete_msg [of ok "?c b io" for b io, simplified] and run = fill.simps [of ok c es]
  from wf show ?case
  proof (cases rule: io_readbuf_spec [where io = "fc_io c" and es = es])
    case (got d b es1)
    show ?thesis
    proof (cases "\<not> complete (buf_contents b) \<and> length d > 0")
      case True
      then have f: "fcgi_is_complete_msg (?c b (fc_io c)) = Some False" by (subst stop [OF got(2)]) simp
      have t: "\<not> False \<and> IO_OK = IO_OK \<and> length d > 0" using True by simp
      have run': "fill ok c es = fill ok (?c b (fc_io c)) es1" using got(1) f True by (simp add: run Let_def)
      have eq: "buf_contents b @ arriving es1 = buf_contents (fc_buf c) @ arriving es" using got(3,4) by simp
      have ne: "es \<noteq> []" using got(4) True by auto
      from 1(1) [OF got(1) refl refl refl refl refl f t inv [OF got(2)]] 1(3) run' eq got(5,6) ne
      show ?thesis by (fastforce simp: request_def)
    next
      case False
      with got(1) stop [OF got(2)] have "fill ok c es = Some (IO_OK, length d, complete (buf_contents b), ?c b (fc_io c), es1)"
        by (auto simp: run Let_def)
      with False got inv [OF got(2), of "fc_io c"] 1(3) show ?thesis by (auto simp: request_def io_codes)
    qed
  next
    case (paused b es1)
    with stop [OF paused(2)] have "fill ok c es = Some (IO_AGAIN, 0, complete (buf_contents b), ?c b (fc_io c), es1)"
      by (simp add: run Let_def)
    with paused inv [OF paused(2), of "fc_io c"] 1(3) show ?thesis by (auto simp: request_def io_codes)
  next
    case (failed b io es1)
    with stop [OF failed(2)] have "fill ok c es = Some (IO_ERR, 0, complete (buf_contents b), ?c b io, es1)"
      by (simp add: run Let_def)
    with failed inv [OF failed(2)] 1(3) refuses_mono [of ok "length (buf_contents (fc_buf c)) + 256"]
    show ?thesis by (auto simp: request_def io_codes)
  qed
qed

lemma next_message_spec:
  assumes inv: "fcgi_inv ok c"
  obtains r c' es' where "next_message ok c es = Some (r, c', es')" and "fcgi_inv ok c'" and "request c' = request c"
    and "r \<in> {FCGI_OK, FCGI_AGAIN, FCGI_ERR}" and "length es' \<le> length es"
    and "if r = FCGI_OK then fc_read_state c' = RSTATE_COMPLETE \<and> buf_contents (fc_buf c') @ arriving es' = stream c es
         else \<not> complete (pending c') \<and> stream c' es' = stream c es"
    and "r = FCGI_AGAIN \<longrightarrow> es = [] \<or> length es' < length es"
    and "quiet es \<and> \<not> refuses ok (length (stream c es) + 256) \<longrightarrow> quiet es' \<and> r \<noteq> FCGI_ERR"
proof -
  from drop_message_spec [OF inv] obtain c1 where
    d: "drop_message c = Some (fc_read_state c = RSTATE_COMPLETE \<and> complete (pending c), c1)" "fcgi_inv ok c1"
      "buf_contents (fc_buf c1) = pending c" "request c1 = request c"
      "fc_read_state c1 = RSTATE_COMPLETE \<longleftrightarrow> fc_read_state c = RSTATE_COMPLETE \<and> complete (pending c)" .
  show ?thesis
  proof (cases "fc_read_state c = RSTATE_COMPLETE \<and> complete (pending c)")
    case True
    with d show ?thesis by (intro that [of FCGI_OK c1 es]) (auto simp: next_message_def stream_def fcgi_codes)
  next
    case False
    with d have ns: "fc_read_state c1 \<noteq> RSTATE_COMPLETE" by simp
    from fill_spec [OF d(2) this, of es] obtain ret nread c2 es2 where
      f: "fill ok c1 es = Some (ret, nread, complete (buf_contents (fc_buf c2)), c2, es2)" "fcgi_inv ok c2"
        "fc_read_state c2 = fc_read_state c1" "request c2 = request c1"
        "buf_contents (fc_buf c2) @ arriving es2 = stream c es" "length es2 \<le> length es"
        "ret = IO_AGAIN \<longrightarrow> es = [] \<or> length es2 < length es"
        "ret = IO_OK \<and> nread \<noteq> 0 \<longrightarrow> complete (buf_contents (fc_buf c2))"
        "quiet es \<longrightarrow> quiet es2 \<and> (ret = IO_OK \<longrightarrow> nread \<noteq> 0) \<or> refuses ok (length (stream c es) + 256)"
        "quiet es \<and> ret \<noteq> IO_OK \<and> ret \<noteq> IO_AGAIN \<longrightarrow> refuses ok (length (stream c es) + 256)"
      unfolding d(3) stream_def [symmetric] by blast
    have run: "next_message ok c es = read_message ok c1 es" using d(1) False by (simp add: next_message_def)
    have p: "pending c2 = buf_contents (fc_buf c2)" using f(3) ns by (simp add: pending_def)
    show ?thesis
    proof (cases "complete (buf_contents (fc_buf c2))")
      case True
      with run f d(4) show ?thesis
        by (intro that [of FCGI_OK "c2\<lparr>fc_read_state := RSTATE_COMPLETE\<rparr>" es2])
          (auto simp: read_message_def fcgi_inv_def request_def fcgi_codes)
    next
      case nc: False
      define c3 where "c3 = (if ret \<noteq> IO_AGAIN \<and> ret = IO_OK \<and> nread = 0 then c2\<lparr>fc_errcode := FCGIERR_CLOSED\<rparr> else c2)"
      have c3: "fcgi_inv ok c3" "request c3 = request c" "pending c3 = buf_contents (fc_buf c2)"
        using f(2,4) d(4) p by (auto simp: c3_def fcgi_inv_def request_def pending_def)
      have "next_message ok c es = Some (if ret = IO_AGAIN then FCGI_AGAIN else FCGI_ERR, c3, es2)"
        using run f(1) nc by (simp add: read_message_def c3_def io_codes)
      with nc f c3 show ?thesis
        by (intro that [of "if ret = IO_AGAIN then FCGI_AGAIN else FCGI_ERR" c3 es2])
          (auto simp: stream_def fcgi_codes split: if_splits)
    qed
  qed
qed

section \<open>Records\<close>

text \<open>A record on the wire: header, content, padding\<close>

type_synonym frec = "fcgi_header \<times> bytes \<times> bytes"

fun rec_ok :: "frec \<Rightarrow> bool" where
  "rec_ok (h, content, padding) \<longleftrightarrow> FCGI_CLEN h = length content \<and> unat (h_plen h) = length padding"

fun enc :: "frec \<Rightarrow> bytes" where
  "enc (h, content, padding) = header_bytes h @ content @ padding"

fun rec_id :: "frec \<Rightarrow> u16" where "rec_id (h, _, _) = h_id h"
fun rec_t :: "frec \<Rightarrow> u8" where "rec_t (h, _, _) = h_t h"
fun content :: "frec \<Rightarrow> bytes" where "content (_, d, _) = d"

lemma of_char_u8: "(of_char (char_of n) :: 'a::len word) = of_nat (n mod 256)" for n :: nat
  by (metis of_char_of of_nat_of_char)

lemma id_halves: "of_nat (unat w mod 256) + 256 * of_nat (unat w div 256 mod 256) = w" for w :: u16
proof -
  have hi: "unat w div 256 mod 256 = unat w div 256" using unat_less_exp [of w] by simp
  have "of_nat (unat w mod 256) + 256 * of_nat (unat w div 256 mod 256) = (of_nat (unat w mod 256 + 256 * (unat w div 256)) :: u16)"
    by (simp only: hi of_nat_add of_nat_mult of_nat_numeral)
  also have "\<dots> = w" by (simp only: mod_mult_div_eq) simp
  finally show ?thesis .
qed

lemma header_at_bytes [simp]: "header_at (header_bytes h @ xs) = Some h"
proof -
  have "of_nat (unat w mod 256) = w" for w :: u8
    using unat_less_exp [of w] by simp
  then show ?thesis
    by (simp add: header_at_def header_bytes_def sizeof_fcgi_header_def of_char_u8 id_halves)
qed

lemma length_header_bytes [simp]: "length (header_bytes h) = 8"
  by (simp add: header_bytes_def)

lemma first_len_enc: "rec_ok m \<Longrightarrow> first_len (enc m @ rest) = length (enc m)"
  by (cases m) (simp add: first_len_def msglen_def sizeof_fcgi_header_def)

lemma complete_enc: "rec_ok m \<Longrightarrow> complete (enc m @ rest)"
  using first_len_enc [of m rest] by (cases m) (simp add: complete_def sizeof_fcgi_header_def)

lemma first_len_append: "sizeof_fcgi_header \<le> length xs \<Longrightarrow> first_len (xs @ ys) = first_len xs"
proof -
  assume "sizeof_fcgi_header \<le> length xs"
  moreover from this have "(xs @ ys) ! i = xs ! i" if "i < 8" for i
    using that by (simp add: nth_append sizeof_fcgi_header_def)
  ultimately show ?thesis by (simp add: first_len_def header_at_def sizeof_fcgi_header_def del: nth_append)
qed

lemma complete_prefix:
  assumes "complete xs" and "xs @ ys = enc m @ rest" and "rec_ok m"
  obtains rest1 where "xs = enc m @ rest1" and "rest = rest1 @ ys"
proof -
  have "first_len xs = length (enc m)"
    using first_len_append [of xs ys] assms first_len_enc [of m rest] by (simp add: complete_def)
  then have "length (enc m) \<le> length xs" using assms(1) by (simp add: complete_def)
  moreover from assms(2) obtain us where "xs = enc m @ us \<and> us @ ys = rest \<or> xs @ us = enc m \<and> ys = us @ rest"
    unfolding append_eq_append_conv2 by blast
  moreover have "us = []" if "xs @ us = enc m" "length (enc m) \<le> length xs"
    using that by (metis append_Nil2 append_eq_append_conv_if append_eq_conv_conj take_all)
  ultimately show ?thesis using that [of us] by auto
qed

definition msg_of :: "frec \<Rightarrow> fcgi_msg" where
  "msg_of m = \<lparr>msg_header = fst m, msg_data = sizeof_fcgi_header\<rparr>"

text \<open>The memory that a connection may need for its message buffer, and a stream that does not disturb\<close>

definition calm :: "allocator \<Rightarrow> fcgi_cli \<Rightarrow> read_event list \<Rightarrow> bool" where
  "calm ok c es \<longleftrightarrow> quiet es \<and> \<not> refuses ok (length (stream c es) + 256)"

lemma calmI: "quiet es' \<Longrightarrow> length (stream c' es') \<le> length (stream c es) \<Longrightarrow> calm ok c es \<Longrightarrow> calm ok c' es'"
  unfolding calm_def using refuses_mono add_le_mono1 by blast

lemma next_message_record:
  assumes inv: "fcgi_inv ok c" and str: "stream c es = enc m @ rest" and m: "rec_ok m" and calm: "calm ok c es"
  obtains (got) c' es' where "next_message ok c es = Some (FCGI_OK, c', es')" and "fcgi_inv ok c'" and "request c' = request c"
      and "header_at (mem (fc_buf c')) = Some (fst m)" and "peek sizeof_fcgi_header (FCGI_CLEN (fst m)) (mem (fc_buf c')) = Some (content m)"
      and "stream c' es' = rest" and "length es' \<le> length es" and "calm ok c' es'"
  | (paused) c' es' where "next_message ok c es = Some (FCGI_AGAIN, c', es')" and "fcgi_inv ok c'" and "request c' = request c"
      and "stream c' es' = enc m @ rest" and "length es' < length es" and "calm ok c' es'"
proof -
  from next_message_spec [OF inv, of es] obtain r c' es' where
    n: "next_message ok c es = Some (r, c', es')" "fcgi_inv ok c'" "request c' = request c"
      "r \<in> {FCGI_OK, FCGI_AGAIN, FCGI_ERR}" "length es' \<le> length es"
      "if r = FCGI_OK then fc_read_state c' = RSTATE_COMPLETE \<and> buf_contents (fc_buf c') @ arriving es' = stream c es
         else \<not> complete (pending c') \<and> stream c' es' = stream c es"
      "r = FCGI_AGAIN \<longrightarrow> es = [] \<or> length es' < length es"
      "quiet es \<and> \<not> refuses ok (length (stream c es) + 256) \<longrightarrow> quiet es' \<and> r \<noteq> FCGI_ERR" .
  from n(8) calm have q: "quiet es'" "r \<noteq> FCGI_ERR" by (auto simp: calm_def)
  have wf: "buf_wf ok (fc_buf c')" using n(2) by (simp add: fcgi_inv_def)
  show ?thesis
  proof (cases "r = FCGI_OK")
    case True
    with n(6) have s: "fc_read_state c' = RSTATE_COMPLETE" "buf_contents (fc_buf c') @ arriving es' = enc m @ rest"
      using str by auto
    with n(2) have "complete (buf_contents (fc_buf c'))" by (simp add: fcgi_inv_def)
    from complete_prefix [OF this s(2) m] obtain rest1 where
      b: "buf_contents (fc_buf c') = enc m @ rest1" "rest = rest1 @ arriving es'" .
    have "pending c' = rest1" using s(1) b(1) first_len_enc [OF m, of rest1] by (simp add: pending_def Let_def)
    then have st: "stream c' es' = rest" using b(2) by (simp add: stream_def)
    have "header_at (mem (fc_buf c')) = Some (fst m)"
      using header_at_contents [OF wf] b(1) by (cases m) (simp add: sizeof_fcgi_header_def)
    moreover have "peek sizeof_fcgi_header (FCGI_CLEN (fst m)) (mem (fc_buf c')) = Some (content m)"
      using peek_contents [OF wf, of sizeof_fcgi_header "FCGI_CLEN (fst m)"] b(1) m
      by (cases m) (simp add: sizeof_fcgi_header_def)
    moreover from st str have "calm ok c' es'" by (intro calmI [OF q(1) _ calm]) simp
    ultimately show ?thesis using True n(1-3,5) st by (intro got [of c' es']) simp_all
  next
    case False
    with n(4) q have r: "r = FCGI_AGAIN" by auto
    with n(6) str have s: "stream c' es' = enc m @ rest" "\<not> complete (pending c')" by (auto simp: fcgi_codes)
    have "es \<noteq> []"
    proof
      assume "es = []"
      with n(5) s(1) have "pending c' = enc m @ rest" by (simp add: stream_def)
      with s(2) complete_enc [OF m] show False by simp
    qed
    moreover have "calm ok c' es'" using s str by (intro calmI [OF q(1) _ calm]) simp
    ultimately show ?thesis using n(1-3,7) r s by (intro paused [of c' es']) simp_all
  qed
qed

text \<open>\<open>fcgi_cli_readmsg\<close> skips the records of other requests and delivers the next one of this request.\<close>

definition own :: "fcgi_cli \<Rightarrow> frec \<Rightarrow> bool" where
  "own c m \<longleftrightarrow> fc_param_state c = PSTATE_EXPECT_BEGIN_REQUEST \<or> rec_id m = fc_id c"

lemma own_request: "request c = request c' \<Longrightarrow> own c = own c'"
  by (auto simp: own_def request_def fun_eq_iff)

lemma readmsg_records:
  assumes "fcgi_inv ok c" and "stream c es = concat (map enc fs) @ enc m @ rest" and "calm ok c es"
    and "\<forall>f\<in>set (fs @ [m]). rec_ok f" and "\<forall>f\<in>set fs. \<not> own c f" and "own c m"
  shows "(\<exists>c' es'. fcgi_cli_readmsg ok c es = Some (FCGI_OK, Some (msg_of m), c', es') \<and> fcgi_inv ok c' \<and> request c' = request c
      \<and> peek sizeof_fcgi_header (FCGI_CLEN (fst m)) (mem (fc_buf c')) = Some (content m)
      \<and> stream c' es' = rest \<and> length es' \<le> length es \<and> calm ok c' es')
    \<or> (\<exists>c' es' fs1 fs2. fcgi_cli_readmsg ok c es = Some (FCGI_AGAIN, None, c', es') \<and> fcgi_inv ok c' \<and> request c' = request c
      \<and> fs = fs1 @ fs2 \<and> stream c' es' = concat (map enc fs2) @ enc m @ rest \<and> length es' < length es \<and> calm ok c' es')"
  (is "?got c es \<or> ?paused c es fs")
  using assms
proof (induction fs arbitrary: c es)
  case Nil
  have "stream c es = enc m @ rest" "rec_ok m" using Nil(2,4) by simp_all
  from Nil(1) this Nil(3) show ?case
  proof (cases rule: next_message_record)
    case (got c' es')
    have "own c' m" using Nil(6) own_request [OF got(3)] by simp
    with got have "?got c es"
      by (cases m) (auto simp: fcgi_cli_readmsg.simps [of ok c es] own_def msg_of_def)
    then show ?thesis ..
  next
    case (paused c' es')
    then have "?paused c es []" by (auto simp: fcgi_cli_readmsg.simps [of ok c es] fcgi_codes)
    then show ?thesis ..
  qed
next
  case (Cons f fs)
  have "stream c es = enc f @ (concat (map enc fs) @ enc m @ rest)" "rec_ok f" using Cons(3,5) by simp_all
  from Cons(2) this Cons(4) show ?case
  proof (cases rule: next_message_record)
    case (got c1 es1)
    note ow = own_request [OF got(3)]
    have "\<not> own c1 f" using Cons(6) ow by simp
    with got have run: "fcgi_cli_readmsg ok c es = fcgi_cli_readmsg ok c1 es1"
      by (cases f) (auto simp: fcgi_cli_readmsg.simps [of ok c es] own_def)
    from Cons(1) [OF got(2,6,8)] Cons(5,6,7) ow have "?got c1 es1 \<or> ?paused c1 es1 fs" by simp
    then show ?thesis
    proof
      assume "?got c1 es1"
      with run got(3,7) show ?thesis by (intro disjI1) auto
    next
      assume "?paused c1 es1 fs"
      then obtain c' es' fs1 fs2 where
        p: "fcgi_cli_readmsg ok c1 es1 = Some (FCGI_AGAIN, None, c', es')" "fcgi_inv ok c'" "request c' = request c1"
          "fs = fs1 @ fs2" "stream c' es' = concat (map enc fs2) @ enc m @ rest" "length es' < length es1" "calm ok c' es'"
        by blast
      from p(4) have "f # fs = (f # fs1) @ fs2" by simp
      moreover from p(6) got(7) have "length es' < length es" by simp
      ultimately show ?thesis using p(1-3,5,7) run got(3) by (intro disjI2 exI conjI) simp_all
    qed
  next
    case (paused c' es')
    then show ?thesis
      by (intro disjI2 exI [of _ c'] exI [of _ es'] exI [of _ "[]"] exI [of _ "f # fs"])
        (simp add: fcgi_cli_readmsg.simps [of ok c es] fcgi_codes)
  qed
qed

section \<open>Collecting the records of a stream\<close>

text \<open>
  The parameters and the body are read by loops of the same form: records of one type are collected
  until an empty one. \<open>acc\<close> is what is collected, \<open>other\<close> what the loop leaves alone, \<open>fin\<close> the state
  when the empty record was seen.
\<close>

locale fcgi_collector =
  fixes ok :: allocator
    and loop :: "fcgi_cli \<Rightarrow> read_event list \<Rightarrow> (status \<times> fcgi_cli \<times> read_event list) option"
    and step :: "fcgi_msg \<Rightarrow> fcgi_cli \<Rightarrow> (status option \<times> fcgi_cli) option"
    and good :: "fcgi_cli \<Rightarrow> bool"
    and acc :: "fcgi_cli \<Rightarrow> bytes"
    and other :: "fcgi_cli \<Rightarrow> 'o"
    and fin :: "fcgi_cli \<Rightarrow> fcgi_cli"
    and kind :: u8
    and limit :: nat
  assumes loop_again: "fcgi_cli_readmsg ok c es = Some (FCGI_AGAIN, None, c1, es1) \<Longrightarrow> loop c es = Some (FCGI_AGAIN, c1, es1)"
    and loop_step: "fcgi_cli_readmsg ok c es = Some (FCGI_OK, Some msg, c1, es1) \<Longrightarrow> step msg c1 = Some (None, c2)
      \<Longrightarrow> loop c es = loop c2 es1"
    and loop_stop: "fcgi_cli_readmsg ok c es = Some (FCGI_OK, Some msg, c1, es1) \<Longrightarrow> step msg c1 = Some (Some s, c2)
      \<Longrightarrow> loop c es = Some (s, c2, es1)"
    and request_eq: "request c = request c1 \<Longrightarrow> good c = good c1 \<and> acc c = acc c1 \<and> other c = other c1"
    and started: "good c \<Longrightarrow> fc_param_state c \<noteq> PSTATE_EXPECT_BEGIN_REQUEST"
    and step_end: "good c \<Longrightarrow> h_t (msg_header msg) = kind \<Longrightarrow> FCGI_CLEN (msg_header msg) = 0 \<Longrightarrow> step msg c = Some (Some FCGI_OK, fin c)"
    and step_data: "good c \<Longrightarrow> fcgi_inv ok c \<Longrightarrow> h_t (msg_header msg) = kind
      \<Longrightarrow> peek (msg_data msg) (FCGI_CLEN (msg_header msg)) (mem (fc_buf c)) = Some d \<Longrightarrow> d \<noteq> []
      \<Longrightarrow> length (acc c) + length d \<le> limit \<Longrightarrow> \<not> refuses ok limit
      \<Longrightarrow> \<exists>c'. step msg c = Some (None, c') \<and> good c' \<and> fcgi_inv ok c' \<and> acc c' = acc c @ d \<and> other c' = other c
             \<and> fc_id c' = fc_id c \<and> pending c' = pending c"
begin

definition belongs :: "fcgi_cli \<Rightarrow> frec \<Rightarrow> bool" where
  "belongs c m \<longleftrightarrow> rec_id m = fc_id c \<longrightarrow> rec_t m = kind \<and> content m \<noteq> []"

definition mine :: "fcgi_cli \<Rightarrow> frec list \<Rightarrow> bytes" where
  "mine c rs = concat (map content (filter (\<lambda>m. rec_id m = fc_id c) rs))"

text \<open>The state of a loop that still has the records \<open>rs\<close> to collect and the empty record \<open>z\<close> to see\<close>

definition collecting :: "fcgi_cli \<Rightarrow> read_event list \<Rightarrow> frec list \<Rightarrow> frec \<Rightarrow> bytes \<Rightarrow> bool" where
  "collecting c es rs z rest \<longleftrightarrow> fcgi_inv ok c \<and> good c \<and> calm ok c es \<and> \<not> refuses ok limit
     \<and> stream c es = concat (map enc rs) @ enc z @ rest \<and> (\<forall>m\<in>set rs. rec_ok m \<and> belongs c m)
     \<and> rec_ok z \<and> rec_id z = fc_id c \<and> rec_t z = kind \<and> content z = [] \<and> length (acc c @ mine c rs) \<le> limit"

lemma collect:
  assumes "collecting c es rs z rest"
  shows "(\<exists>c' es'. loop c es = Some (FCGI_OK, fin c', es') \<and> fcgi_inv ok c' \<and> good c' \<and> calm ok c' es' \<and> fc_id c' = fc_id c
      \<and> acc c' = acc c @ mine c rs \<and> other c' = other c \<and> stream c' es' = rest \<and> length es' \<le> length es)
    \<or> (\<exists>c' es' rs'. loop c es = Some (FCGI_AGAIN, c', es') \<and> collecting c' es' rs' z rest \<and> fc_id c' = fc_id c
      \<and> acc c' @ mine c rs' = acc c @ mine c rs \<and> other c' = other c \<and> length es' < length es)"
  (is "?done c es rs \<or> ?paused c es rs")
  using assms
proof (induction "length (filter (\<lambda>m. rec_id m = fc_id c) rs)" arbitrary: c es rs)
  case 0
  note col = 0(2) [unfolded collecting_def]
  have mine: "mine c rs = []" using 0(1) by (simp add: mine_def)
  have ow: "own c m \<longleftrightarrow> rec_id m = fc_id c" for m using started col by (simp add: own_def)
  have foreign: "\<forall>f\<in>set rs. \<not> own c f" using 0(1) by (auto simp: ow filter_empty_conv)
  consider (got) c1 es1 where "fcgi_cli_readmsg ok c es = Some (FCGI_OK, Some (msg_of z), c1, es1)" "fcgi_inv ok c1"
      "request c1 = request c" "stream c1 es1 = rest" "length es1 \<le> length es" "calm ok c1 es1"
    | (paused) c1 es1 rs1 rs2 where "fcgi_cli_readmsg ok c es = Some (FCGI_AGAIN, None, c1, es1)" "fcgi_inv ok c1"
      "request c1 = request c" "rs = rs1 @ rs2" "stream c1 es1 = concat (map enc rs2) @ enc z @ rest" "length es1 < length es" "calm ok c1 es1"
    using readmsg_records [of ok c es rs z rest] col foreign ow by auto
  then show ?case
  proof cases
    case got
    from request_eq [OF got(3)] got(3) have same: "good c1" "acc c1 = acc c" "other c1 = other c" "fc_id c1 = fc_id c"
      using col by (auto simp: request_def)
    have "step (msg_of z) c1 = Some (Some FCGI_OK, fin c1)"
      using step_end [OF same(1), of "msg_of z"] col by (cases z) (simp add: msg_of_def)
    from loop_stop [OF got(1) this] got same mine show ?thesis by auto
  next
    case paused
    from request_eq [OF paused(3)] paused(3) have same: "good c1" "acc c1 = acc c" "other c1 = other c" "fc_id c1 = fc_id c"
      using col by (auto simp: request_def)
    have m2: "mine c rs2 = []" "mine c1 rs2 = []" using mine paused(4) same by (auto simp: mine_def)
    have "collecting c1 es1 rs2 z rest" using col paused same m2 mine by (auto simp: collecting_def belongs_def)
    with loop_again [OF paused(1)] paused same mine m2 show ?thesis by auto
  qed
next
  case (Suc n)
  note col = Suc(3) [unfolded collecting_def]
  have ow: "own c m \<longleftrightarrow> rec_id m = fc_id c" for m using started col by (simp add: own_def)
  obtain m ms where "filter (\<lambda>m. rec_id m = fc_id c) rs = m # ms" "length ms = n"
    using Suc(2) by (cases "filter (\<lambda>m. rec_id m = fc_id c) rs") auto
  then obtain fs rs1 where rs: "rs = fs @ m # rs1" and foreign: "\<forall>f\<in>set fs. rec_id f \<noteq> fc_id c"
    and m: "rec_id m = fc_id c" and n: "n = length (filter (\<lambda>m. rec_id m = fc_id c) rs1)"
    by (auto simp: filter_eq_Cons_iff)
  have pre: "stream c es = concat (map enc fs) @ enc m @ (concat (map enc rs1) @ enc z @ rest)"
      "\<forall>f\<in>set (fs @ [m]). rec_ok f" "\<forall>f\<in>set fs. \<not> own c f" "own c m"
    using col foreign m by (simp_all add: rs ow)
  have mine: "mine c rs = content m @ mine c rs1" using foreign m by (simp add: rs mine_def filter_empty_conv)
  consider (got) c1 es1 where "fcgi_cli_readmsg ok c es = Some (FCGI_OK, Some (msg_of m), c1, es1)" "fcgi_inv ok c1"
      "request c1 = request c" "peek sizeof_fcgi_header (FCGI_CLEN (fst m)) (mem (fc_buf c1)) = Some (content m)"
      "stream c1 es1 = concat (map enc rs1) @ enc z @ rest" "length es1 \<le> length es" "calm ok c1 es1"
    | (paused) c1 es1 fs1 fs2 where "fcgi_cli_readmsg ok c es = Some (FCGI_AGAIN, None, c1, es1)" "fcgi_inv ok c1"
      "request c1 = request c" "fs = fs1 @ fs2" "stream c1 es1 = concat (map enc fs2) @ enc m @ concat (map enc rs1) @ enc z @ rest"
      "length es1 < length es" "calm ok c1 es1"
    using readmsg_records [OF _ pre(1) _ pre(2-4)] col by blast
  then show ?case
  proof cases
    case got
    from request_eq [OF got(3)] got(3) have same: "good c1" "acc c1 = acc c" "other c1 = other c" "fc_id c1 = fc_id c"
      using col by (auto simp: request_def)
    have t: "rec_t m = kind" "content m \<noteq> []" using col m by (auto simp: rs belongs_def)
    have "\<exists>c2. step (msg_of m) c1 = Some (None, c2) \<and> good c2 \<and> fcgi_inv ok c2 \<and> acc c2 = acc c1 @ content m
        \<and> other c2 = other c1 \<and> fc_id c2 = fc_id c1 \<and> pending c2 = pending c1"
      using same(1) got(2) t got(4) col same(2) mine
      by (intro step_data) (cases m, auto simp: msg_of_def)+
    then obtain c2 where c2: "step (msg_of m) c1 = Some (None, c2)" "good c2" "fcgi_inv ok c2" "acc c2 = acc c @ content m"
        "other c2 = other c" "fc_id c2 = fc_id c" "pending c2 = pending c1" using same by auto
    have st: "stream c2 es1 = stream c1 es1" using c2(7) by (simp add: stream_def)
    have mine2: "mine c2 = mine c" using c2(6) by (simp add: mine_def fun_eq_iff)
    have "collecting c2 es1 rs1 z rest"
      using col got(5,7) c2 st mine mine2 rs by (auto simp: collecting_def belongs_def calm_def)
    with Suc(1) [of c2 rs1 es1] n c2(6) have "?done c2 es1 rs1 \<or> ?paused c2 es1 rs1" by simp
    with loop_step [OF got(1) c2(1)] c2(4-6) mine mine2 got(6) show ?thesis
      by (elim disjE; intro disjI1 disjI2) fastforce+
  next
    case paused
    from request_eq [OF paused(3)] paused(3) have same: "good c1" "acc c1 = acc c" "other c1 = other c" "fc_id c1 = fc_id c"
      using col by (auto simp: request_def)
    let ?rs = "fs2 @ m # rs1"
    have m2: "mine c ?rs = mine c rs" "mine c1 = mine c"
      using foreign m paused(4) same by (auto simp: rs mine_def fun_eq_iff filter_empty_conv)
    have "collecting c1 es1 ?rs z rest" using col paused same m2 rs by (auto simp: collecting_def belongs_def)
    with loop_again [OF paused(1)] paused(6) same m2 show ?thesis
      by (intro disjI2 exI [of _ c1] exI [of _ es1] exI [of _ ?rs]) simp
  qed
qed

end

text \<open>Appending content below a limit\<close>

lemma within_limit:
  assumes wf: "buf_wf ok b" and le: "length (buf_contents b) + n \<le> unat lim" and lim: "unat lim < 2 ^ 62"
  shows "\<not> buf_len b + of_nat n > lim"
proof -
  have n: "unat (of_nat n :: size_t) = n" using le lim by (intro unat_of_nat_small) simp
  have "unat (buf_len b) + n \<le> unat lim" using le length_buf_contents [OF wf] by simp
  with n lim have "unat (buf_len b + of_nat n) \<le> unat lim" by (subst unat_add_small) simp_all
  then show ?thesis by (simp add: word_less_nat_alt)
qed

lemma append_within:
  assumes wf: "buf_wf ok b" and le: "length (buf_contents b) + length d \<le> unat lim" and lim: "unat lim < 2 ^ 62"
    and ok: "\<not> refuses ok (unat lim)"
  obtains b' where "buf_adata ok b d = Some (0, b')" "buf_wf ok b'" "buf_contents b' = buf_contents b @ d"
    "\<not> buf_len b + of_nat (length d) > lim"
proof -
  have "length d < 2 ^ 62" "\<not> refuses ok (length (buf_contents b) + length d)"
    using le lim not_refuses_mono [OF ok le] by auto
  from buf_adata_granted [OF wf this] within_limit [OF wf le lim] that show ?thesis by blast
qed

lemma peek_length: "peek off n m = Some d \<Longrightarrow> length d = n"
  by (auto simp: peek_def split: if_splits)

lemma limits: "unat MAX_PARAMSZ = 2097152" "unat MAX_BODYSZ = 10485760"
  by (simp_all add: MAX_PARAMSZ_def MAX_BODYSZ_def)

interpretation params: fcgi_collector ok "params_loop ok" "params_record ok" "\<lambda>c. fc_param_state c = PSTATE_EXPECT_PARAMS"
    "\<lambda>c. buf_contents (fc_params c)" "fc_body" "\<lambda>c. c\<lparr>fc_param_state := PSTATE_DONE\<rparr>" FCGI_PARAMS "unat MAX_PARAMSZ" for ok
proof (unfold_locales, goal_cases)
  case (7 c msg d)
  then have clen: "FCGI_CLEN (msg_header msg) = length d" by (simp add: peek_length)
  have wf: "buf_wf ok (fc_params c)" using 7(2) by (simp add: fcgi_inv_def)
  from append_within [OF wf 7(6) _ 7(7)] limits obtain p where
    "buf_adata ok (fc_params c) d = Some (0, p)" "buf_wf ok p" "buf_contents p = buf_contents (fc_params c) @ d"
    "\<not> buf_len (fc_params c) + of_nat (length d) > MAX_PARAMSZ" by auto
  with 7 clen show ?case
    by (intro exI [of _ "c\<lparr>fc_params := p\<rparr>"])
      (auto simp: params_record_def Let_def fcgi_states fcgi_inv_def pending_def)
qed (auto simp: params_loop.simps params_record_def fcgi_codes fcgi_states request_def Let_def)

interpretation body: fcgi_collector ok "fcgi_cli_readbody ok" "body_record ok" "\<lambda>c. fc_param_state c = PSTATE_DONE"
    "\<lambda>c. buf_contents (fc_body c)" "fc_params" "\<lambda>c. c" FCGI_STDIN "unat MAX_BODYSZ" for ok
proof (unfold_locales, goal_cases)
  case (7 c msg d)
  then have clen: "FCGI_CLEN (msg_header msg) = length d" by (simp add: peek_length)
  have wf: "buf_wf ok (fc_body c)" using 7(2) by (simp add: fcgi_inv_def)
  from append_within [OF wf 7(6) _ 7(7)] limits obtain p where
    "buf_adata ok (fc_body c) d = Some (0, p)" "buf_wf ok p" "buf_contents p = buf_contents (fc_body c) @ d"
    "\<not> buf_len (fc_body c) + of_nat (length d) > MAX_BODYSZ" by auto
  with 7 clen show ?case
    by (intro exI [of _ "c\<lparr>fc_body := p\<rparr>"])
      (auto simp: body_record_def Let_def fcgi_states fcgi_inv_def pending_def)
qed (auto simp: fcgi_cli_readbody.simps body_record_def fcgi_codes fcgi_states request_def Let_def)

section \<open>Whole requests\<close>

lemma unaffected [simp]: "pending (c\<lparr>fc_param_state := s\<rparr>) = pending c" "pending (c\<lparr>fc_id := i\<rparr>) = pending c"
  "fcgi_inv ok (c\<lparr>fc_param_state := s\<rparr>) = fcgi_inv ok c" "fcgi_inv ok (c\<lparr>fc_id := i\<rparr>) = fcgi_inv ok c"
  by (simp_all add: pending_def fcgi_inv_def)

lemma unaffected_stream [simp]: "stream (c\<lparr>fc_param_state := s\<rparr>) = stream c" "stream (c\<lparr>fc_id := i\<rparr>) = stream c"
  by (simp_all add: stream_def fun_eq_iff)

lemma unaffected_calm [simp]: "calm ok (c\<lparr>fc_param_state := s\<rparr>) = calm ok c" "calm ok (c\<lparr>fc_id := i\<rparr>) = calm ok c"
  by (simp_all add: calm_def fun_eq_iff)

text \<open>The caller resumes \<open>fcgi_cli_readreq\<close> when the descriptor is readable again, at most \<open>n\<close> times.\<close>

fun drive :: "nat \<Rightarrow> allocator \<Rightarrow> fcgi_cli \<Rightarrow> read_event list \<Rightarrow> (status \<times> fcgi_cli \<times> read_event list) option" where
  "drive 0 ok c es = Some (FCGI_AGAIN, c, es)"
| "drive (Suc n) ok c es =
     do { (r, c', es') \<leftarrow> fcgi_cli_readreq ok c es; if r = FCGI_AGAIN then drive n ok c' es' else Some (r, c', es') }"

text \<open>What a request brings: the contents of the records with its identifier\<close>

definition contents_of :: "u16 \<Rightarrow> frec list \<Rightarrow> bytes" where
  "contents_of i rs = concat (map content (filter (\<lambda>m. rec_id m = i) rs))"

lemma mine_contents: "fcgi_collector.mine c rs = contents_of (fc_id c) rs"
  by (simp add: params.mine_def contents_of_def)

lemma readbody_drive:
  assumes "body.collecting ok c es ss w rest" and "length es < n"
  shows "\<exists>c' es'. drive n ok c es = Some (FCGI_OK, c', es') \<and> fc_id c' = fc_id c \<and> fc_params c' = fc_params c
    \<and> buf_contents (fc_body c') = buf_contents (fc_body c) @ contents_of (fc_id c) ss \<and> stream c' es' = rest"
  using assms
proof (induction n arbitrary: c es ss)
  case (Suc n)
  have st: "fc_param_state c = PSTATE_DONE" using Suc(2) by (simp add: body.collecting_def)
  from body.collect [OF Suc(2)] show ?case
  proof (elim disjE exE conjE)
    fix c' es' ss'
    assume p: "fcgi_cli_readbody ok c es = Some (FCGI_AGAIN, c', es')" "body.collecting ok c' es' ss' w rest" "fc_id c' = fc_id c"
      "buf_contents (fc_body c') @ body.mine c ss' = buf_contents (fc_body c) @ body.mine c ss"
      "fc_params c' = fc_params c" "length es' < length es"
    from Suc(1) [OF p(2)] p(6) Suc(3) p(3-5) show ?thesis
      by (auto simp: fcgi_cli_readreq_def st p(1) mine_contents append_assoc [symmetric] simp del: append_assoc)
  qed (auto simp: fcgi_cli_readreq_def st mine_contents fcgi_codes)
qed simp

lemma readparams_drive:
  assumes "params.collecting ok c es rs z (concat (map enc ss) @ enc w @ rest)" and "length es < n"
    and "\<And>c1 es1. fcgi_inv ok c1 \<Longrightarrow> calm ok c1 es1 \<Longrightarrow> fc_id c1 = fc_id c \<Longrightarrow> fc_param_state c1 = PSTATE_DONE
      \<Longrightarrow> fc_body c1 = fc_body c \<Longrightarrow> stream c1 es1 = concat (map enc ss) @ enc w @ rest \<Longrightarrow> body.collecting ok c1 es1 ss w rest"
  shows "\<exists>c' es'. drive n ok c es = Some (FCGI_OK, c', es') \<and> fc_id c' = fc_id c
    \<and> buf_contents (fc_params c') = buf_contents (fc_params c) @ contents_of (fc_id c) rs
    \<and> buf_contents (fc_body c') = buf_contents (fc_body c) @ contents_of (fc_id c) ss \<and> stream c' es' = rest"
  using assms
proof (induction n arbitrary: c es rs)
  case (Suc n)
  have st: "fc_param_state c = PSTATE_EXPECT_PARAMS" using Suc(2) by (simp add: params.collecting_def)
  then have run: "fcgi_cli_readreq ok c es = params_loop ok c es \<bind>
      (\<lambda>(ret, c, es). if ret = FCGI_OK then fcgi_cli_readbody ok c es else Some (ret, c, es))"
    by (simp add: fcgi_cli_readreq_def fcgi_cli_readparams_def fcgi_states)
  from params.collect [OF Suc(2)] show ?case
  proof (elim disjE exE conjE)
    fix c' es' rs'
    assume p: "params_loop ok c es = Some (FCGI_AGAIN, c', es')"
      "params.collecting ok c' es' rs' z (concat (map enc ss) @ enc w @ rest)" "fc_id c' = fc_id c"
      "buf_contents (fc_params c') @ params.mine c rs' = buf_contents (fc_params c) @ params.mine c rs"
      "fc_body c' = fc_body c" "length es' < length es"
    have "length es' < n" using p(6) Suc(3) by simp
    from Suc(1) [OF p(2) this] Suc(4) obtain c2 es2 where "drive n ok c' es' = Some (FCGI_OK, c2, es2)" "fc_id c2 = fc_id c"
        "buf_contents (fc_params c2) = buf_contents (fc_params c') @ contents_of (fc_id c) rs'"
        "buf_contents (fc_body c2) = buf_contents (fc_body c) @ contents_of (fc_id c) ss" "stream c2 es2 = rest"
      unfolding p(3,5) by blast
    with p(1,4) show ?thesis by (simp add: run mine_contents fcgi_codes)
  next
    fix c' es'
    assume d: "params_loop ok c es = Some (FCGI_OK, c'\<lparr>fc_param_state := PSTATE_DONE\<rparr>, es')" "fcgi_inv ok c'" "calm ok c' es'"
      "fc_id c' = fc_id c" "buf_contents (fc_params c') = buf_contents (fc_params c) @ params.mine c rs" "fc_body c' = fc_body c"
      "stream c' es' = concat (map enc ss) @ enc w @ rest" "length es' \<le> length es"
    let ?c = "c'\<lparr>fc_param_state := PSTATE_DONE\<rparr>"
    have "body.collecting ok ?c es' ss w rest"
      using d by (intro Suc(4)) simp_all
    moreover have "fcgi_cli_readreq ok ?c es' = fcgi_cli_readbody ok ?c es'" by (simp add: fcgi_cli_readreq_def)
    then have "drive (Suc n) ok c es = drive (Suc n) ok ?c es'" by (simp add: run d(1))
    ultimately show ?thesis using readbody_drive [of ok ?c es' ss w rest "Suc n"] Suc(3) d(4-6,8)
      by (auto simp: mine_contents)
  qed
qed simp

lemma begin_drive:
  assumes "fcgi_inv ok c" and "fc_param_state c = PSTATE_EXPECT_BEGIN_REQUEST" and "calm ok c es"
    and "stream c es = enc b @ tail" and "rec_ok b" and "rec_t b = FCGI_BEGIN_REQUEST" and "length es < n"
  shows "\<exists>c' es' n'. drive n ok c es = drive n' ok c' es' \<and> length es' < n' \<and> fcgi_inv ok c' \<and> calm ok c' es' \<and> stream c' es' = tail
    \<and> fc_id c' = rec_id b \<and> fc_param_state c' = PSTATE_EXPECT_PARAMS \<and> fc_params c' = fc_params c \<and> fc_body c' = fc_body c"
  using assms
proof (induction n arbitrary: c es)
  case (Suc n)
  have ow: "own c b" using Suc(3) by (simp add: own_def)
  have run: "fcgi_cli_readreq ok c es = params_loop ok c es \<bind>
      (\<lambda>(ret, c, es). if ret = FCGI_OK then fcgi_cli_readbody ok c es else Some (ret, c, es))"
    if "fc_param_state c \<noteq> PSTATE_DONE" for c es
    using that by (simp add: fcgi_cli_readreq_def fcgi_cli_readparams_def)
  have nd: "fc_param_state c \<noteq> PSTATE_DONE" using Suc(3) by (simp add: fcgi_states)
  consider (got) c1 es1 where "fcgi_cli_readmsg ok c es = Some (FCGI_OK, Some (msg_of b), c1, es1)" "fcgi_inv ok c1"
      "request c1 = request c" "stream c1 es1 = tail" "length es1 \<le> length es" "calm ok c1 es1"
    | (paused) c1 es1 where "fcgi_cli_readmsg ok c es = Some (FCGI_AGAIN, None, c1, es1)" "fcgi_inv ok c1"
      "request c1 = request c" "stream c1 es1 = enc b @ tail" "length es1 < length es" "calm ok c1 es1"
    using readmsg_records [of ok c es "[]" b tail] Suc(2,4-6) ow by auto
  then show ?case
  proof cases
    case got
    let ?c = "c1\<lparr>fc_id := rec_id b, fc_param_state := PSTATE_EXPECT_PARAMS\<rparr>"
    have "params_record ok (msg_of b) c1 = Some (None, ?c)"
      using got(3) Suc(3,7) by (cases b) (simp add: params_record_def request_def msg_of_def)
    then have "params_loop ok c es = params_loop ok ?c es1" using got(1) by (simp add: params_loop.simps [of ok c es])
    then have "drive (Suc n) ok c es = drive (Suc n) ok ?c es1" using run [of c es] nd run [of ?c es1] by (simp add: fcgi_states)
    moreover have "length es1 < Suc n" using got(5) Suc(8) by simp
    ultimately show ?thesis using got(2-4,6)
      by (intro exI [of _ ?c] exI [of _ es1] exI [of _ "Suc n"]) (simp add: request_def)
  next
    case paused
    then have "drive (Suc n) ok c es = drive n ok c1 es1"
      using run [of c es] nd by (simp add: params_loop.simps [of ok c es] fcgi_codes)
    moreover have "length es1 < n" "fc_param_state c1 = PSTATE_EXPECT_BEGIN_REQUEST" "fc_params c1 = fc_params c" "fc_body c1 = fc_body c"
      using paused(3,5) Suc(3,8) by (auto simp: request_def)
    ultimately show ?thesis using Suc(1) [OF paused(2) _ paused(6,4) Suc(6,7)] by simp
  qed
qed simp

section \<open>Properties\<close>

lemma fcgi_cli_init_state:
  assumes "fcgi_cli_init ok fd = Some c" and "alloc_bounded ok"
  shows "fcgi_inv ok c" and "stream c es = arriving es" and "fc_param_state c = PSTATE_EXPECT_BEGIN_REQUEST"
    and "buf_contents (fc_params c) = []" and "buf_contents (fc_body c) = []"
proof -
  have b: "buf_wf ok b \<and> buf_contents b = []" if "buf_init ok n = Some b" "n = 2048" for n b
  proof -
    have "unat n < 2 ^ 63" by (simp add: that(2))
    from assms(2) this show ?thesis by (cases rule: buf_init_cases) (use that(1) in auto)
  qed
  from assms(1) show "fcgi_inv ok c" "stream c es = arriving es" "fc_param_state c = PSTATE_EXPECT_BEGIN_REQUEST"
    "buf_contents (fc_params c) = []" "buf_contents (fc_body c) = []"
    by (auto simp: fcgi_cli_init_def fcgi_inv_def stream_def pending_def fcgi_states INIT_MBUFSZ_def INIT_PBUFSZ_def
        INIT_BBUFSZ_def split: bind_splits dest!: b)
qed

text \<open>The records of a request: one that begins it, its parameters and its standard input, each followed by an empty record\<close>

definition request_records :: "u16 \<Rightarrow> frec \<Rightarrow> frec list \<Rightarrow> frec \<Rightarrow> frec list \<Rightarrow> frec \<Rightarrow> bool" where
  "request_records i b rs z ss w \<longleftrightarrow> (\<forall>m\<in>set (b # z # w # rs @ ss). rec_ok m)
     \<and> rec_id b = i \<and> rec_t b = FCGI_BEGIN_REQUEST
     \<and> (\<forall>m\<in>set rs. rec_id m = i \<longrightarrow> rec_t m = FCGI_PARAMS \<and> content m \<noteq> [])
     \<and> rec_id z = i \<and> rec_t z = FCGI_PARAMS \<and> content z = []
     \<and> (\<forall>m\<in>set ss. rec_id m = i \<longrightarrow> rec_t m = FCGI_STDIN \<and> content m \<noteq> [])
     \<and> rec_id w = i \<and> rec_t w = FCGI_STDIN \<and> content w = []
     \<and> length (contents_of i rs) \<le> unat MAX_PARAMSZ \<and> length (contents_of i ss) \<le> unat MAX_BODYSZ"

text \<open>
  C36. A request that arrives in pieces of any size, with pauses and signals in between and with records of
  other requests among its own, is read completely: the parameters and the body are the contents of
  its records in order, and what follows the request stays in the stream. One call per event is enough.
\<close>

theorem fcgi_readreq_complete:
  assumes init: "fcgi_cli_init ok fd = Some c"
    and mem: "alloc_bounded ok" "\<not> refuses ok (length (arriving es) + 2 ^ 24)"
    and rec: "request_records i b rs z ss w"
    and arr: "arriving es = enc b @ concat (map enc rs) @ enc z @ concat (map enc ss) @ enc w @ rest"
    and quiet: "quiet es" and n: "length es < n"
  shows "\<exists>c' es'. drive n ok c es = Some (FCGI_OK, c', es') \<and> fc_id c' = i \<and> buf_contents (fc_params c') = contents_of i rs
    \<and> buf_contents (fc_body c') = contents_of i ss \<and> stream c' es' = rest"
proof -
  note c = fcgi_cli_init_state [OF init mem(1)]
  have calm: "calm ok c es" using quiet not_refuses_mono [OF mem(2)] by (simp add: calm_def c(2))
  have lim: "\<not> refuses ok (unat MAX_PARAMSZ)" "\<not> refuses ok (unat MAX_BODYSZ)"
    using not_refuses_mono [OF mem(2)] by (simp_all add: limits)
  have str: "stream c es = enc b @ (concat (map enc rs) @ enc z @ concat (map enc ss) @ enc w @ rest)" using arr by (simp add: c(2))
  have b: "rec_ok b" "rec_t b = FCGI_BEGIN_REQUEST" "rec_id b = i" using rec by (auto simp: request_records_def)
  from begin_drive [OF c(1,3) calm str b(1,2) n, unfolded b(3)] obtain c1 es1 n1 where
    d: "drive n ok c es = drive n1 ok c1 es1" "length es1 < n1" "fcgi_inv ok c1" "calm ok c1 es1"
      "stream c1 es1 = concat (map enc rs) @ enc z @ concat (map enc ss) @ enc w @ rest"
      "fc_id c1 = i" "fc_param_state c1 = PSTATE_EXPECT_PARAMS" "fc_params c1 = fc_params c" "fc_body c1 = fc_body c" by blast
  have col: "params.collecting ok c1 es1 rs z (concat (map enc ss) @ enc w @ rest)"
    unfolding params.collecting_def params.belongs_def mine_contents d(5,6,8) c(4)
    using d(3,4,7) rec lim by (simp add: request_records_def)
  have "body.collecting ok c2 es2 ss w rest"
    if "fcgi_inv ok c2" "calm ok c2 es2" "fc_id c2 = fc_id c1" "fc_param_state c2 = PSTATE_DONE" "fc_body c2 = fc_body c1"
      "stream c2 es2 = concat (map enc ss) @ enc w @ rest" for c2 es2
    unfolding body.collecting_def body.belongs_def mine_contents that(3,5,6) d(6,9) c(5)
    using that(1,2,4) rec lim by (simp add: request_records_def)
  from readparams_drive [OF col d(2) this, unfolded d(6,8,9) c(4,5) append_Nil] show ?thesis unfolding d(1) .
qed

definition mkrec :: "u8 \<Rightarrow> u16 \<Rightarrow> bytes \<Rightarrow> frec" where
  "mkrec t i d = (\<lparr>h_version = 1, h_t = t, h_id = i, h_clenB1 = 0, h_clenB0 = of_nat (length d), h_plen = 0, h_reserved = 0\<rparr>, d, [])"

lemma mkrec_sel [simp]: "rec_id (mkrec t i d) = i" "rec_t (mkrec t i d) = t" "content (mkrec t i d) = d"
  "length d < 256 \<Longrightarrow> rec_ok (mkrec t i d)"
  by (simp_all add: mkrec_def FCGI_CLEN_def unat_of_nat_small)

text \<open>A request with two parameter records, a record of another request between them, and a body\<close>

definition demo :: "frec list" where
  "demo = [mkrec FCGI_PARAMS 7 ''ab'', mkrec FCGI_PARAMS 9 ''foreign'', mkrec FCGI_PARAMS 7 ''c'']"

definition demo_stream :: bytes where
  "demo_stream = enc (mkrec FCGI_BEGIN_REQUEST 7 ''role'') @ concat (map enc demo) @ enc (mkrec FCGI_PARAMS 7 [])
     @ concat (map enc [mkrec FCGI_STDIN 7 ''body'']) @ enc (mkrec FCGI_STDIN 7 [])"

theorem fcgi_readreq_complete_witness:
  "\<exists>c c' es'. fcgi_cli_init tib_alloc 3 = Some c
    \<and> drive 4 tib_alloc c [Data (take 5 demo_stream), RErrno EAGAIN, Data (drop 5 demo_stream)] = Some (FCGI_OK, c', es')
    \<and> buf_contents (fc_params c') = ''abc'' \<and> buf_contents (fc_body c') = ''body''"
proof -
  have len: "length demo_stream = 74" by (simp add: demo_stream_def demo_def mkrec_def)
  let ?es = "[Data (take 5 demo_stream), RErrno EAGAIN, Data (drop 5 demo_stream)]"
  obtain c where c: "fcgi_cli_init tib_alloc 3 = Some c"
    by (simp add: fcgi_cli_init_def buf_init_def Let_def INIT_MBUFSZ_def INIT_PBUFSZ_def INIT_BBUFSZ_def tib_alloc_def
        buf_align_offset_def BUF_ALIGNMENT_def)
  have rec: "request_records 7 (mkrec FCGI_BEGIN_REQUEST 7 ''role'') demo (mkrec FCGI_PARAMS 7 []) [mkrec FCGI_STDIN 7 ''body''] (mkrec FCGI_STDIN 7 [])"
    by (simp add: request_records_def demo_def contents_of_def limits)
  have "\<not> refuses tib_alloc (length (arriving ?es) + 2 ^ 24)" using len by (intro tib_alloc_grants) simp
  moreover have "arriving ?es = enc (mkrec FCGI_BEGIN_REQUEST 7 ''role'') @ concat (map enc demo) @ enc (mkrec FCGI_PARAMS 7 [])
     @ concat (map enc [mkrec FCGI_STDIN 7 ''body'']) @ enc (mkrec FCGI_STDIN 7 []) @ []"
    by (simp only: append_Nil2 demo_stream_def [symmetric]) simp
  moreover have "quiet ?es" using len by (auto simp: would_block_def)
  ultimately have "\<exists>c' es'. drive 4 tib_alloc c ?es = Some (FCGI_OK, c', es') \<and> fc_id c' = 7
      \<and> buf_contents (fc_params c') = contents_of 7 demo \<and> buf_contents (fc_body c') = contents_of 7 [mkrec FCGI_STDIN 7 ''body''] \<and> stream c' es' = []"
    using fcgi_readreq_complete [OF c _ _ rec, of ?es "[]" 4] by simp
  with c show ?thesis by (auto simp: contents_of_def demo_def)
qed

text \<open>What arrives may be anything: no call leaves the buffers or fails an assertion.\<close>

lemma readmsg_safe:
  assumes "fcgi_inv ok c"
  shows "\<exists>r msg c' es'. fcgi_cli_readmsg ok c es = Some (r, msg, c', es') \<and> fcgi_inv ok c' \<and> request c' = request c
    \<and> r \<in> {FCGI_OK, FCGI_AGAIN, FCGI_ERR} \<and> (r = FCGI_OK \<longrightarrow> (\<exists>h d. msg = Some \<lparr>msg_header = h, msg_data = sizeof_fcgi_header\<rparr>
      \<and> peek sizeof_fcgi_header (FCGI_CLEN h) (mem (fc_buf c')) = Some d)) \<and> (r \<noteq> FCGI_OK \<longrightarrow> msg = None)"
  using assms
proof (induction ok c es rule: fcgi_cli_readmsg.induct)
  case (1 ok c es)
  from next_message_spec [OF 1(2), of es] obtain r c1 es1 where
    n: "next_message ok c es = Some (r, c1, es1)" "fcgi_inv ok c1" "request c1 = request c" "r \<in> {FCGI_OK, FCGI_AGAIN, FCGI_ERR}"
      "r = FCGI_OK \<longrightarrow> fc_read_state c1 = RSTATE_COMPLETE" by (metis (full_types))
  note run = fcgi_cli_readmsg.simps [of ok c es]
  show ?case
  proof (cases "r = FCGI_OK")
    case False
    with n show ?thesis by (auto simp: run)
  next
    case True
    let ?xs = "buf_contents (fc_buf c1)"
    have wf: "buf_wf ok (fc_buf c1)" and full: "complete ?xs" using n True by (auto simp: fcgi_inv_def)
    have h: "header_at (mem (fc_buf c1)) = Some (the (header_at ?xs))"
      using full header_at_contents [OF wf] header_at_Some [of ?xs] by (simp add: complete_def)
    have pk: "\<exists>d. peek sizeof_fcgi_header (FCGI_CLEN (the (header_at ?xs))) (mem (fc_buf c1)) = Some d"
      using peek_contents [OF wf, of sizeof_fcgi_header "FCGI_CLEN (the (header_at ?xs))"] full
      by (simp add: complete_def first_len_def msglen_def)
    show ?thesis
    proof (cases "fc_param_state c1 \<noteq> PSTATE_EXPECT_BEGIN_REQUEST \<and> h_id (the (header_at ?xs)) \<noteq> fc_id c1")
      case other: True
      with n True h have "fcgi_cli_readmsg ok c es = fcgi_cli_readmsg ok c1 es1" by (simp add: run)
      with 1(1) [OF n(1) refl refl _ h other n(2)] True n(3) show ?thesis by simp
    next
      case False
      with n True h pk show ?thesis by (auto simp: run)
    qed
  qed
qed

lemma adata_wf:
  assumes "buf_wf ok b" and "length d < 2 ^ 62"
  obtains r b' where "buf_adata ok b d = Some (r, b')" and "buf_wf ok b'"
  using buf_adata_appends [OF assms] unfolding appends_def by blast

lemma peek_small: "buf_wf ok b \<Longrightarrow> peek off n (mem b) = Some d \<Longrightarrow> length d < 2 ^ 62"
  by (auto simp: peek_def buf_wf_def split: if_splits)

lemma params_record_safe:
  assumes inv: "fcgi_inv ok c" and pk: "peek (msg_data msg) (FCGI_CLEN (msg_header msg)) (mem (fc_buf c)) = Some d"
  obtains s c' where "params_record ok msg c = Some (s, c')" "fcgi_inv ok c'"
proof -
  have wf: "buf_wf ok (fc_buf c)" "buf_wf ok (fc_params c)" using inv by (auto simp: fcgi_inv_def)
  from adata_wf [OF wf(2) peek_small [OF wf(1) pk]] obtain r p where "buf_adata ok (fc_params c) d = Some (r, p)" "buf_wf ok p" .
  with inv pk have "\<exists>s c'. params_record ok msg c = Some (s, c') \<and> fcgi_inv ok c'"
    by (auto simp: params_record_def fcgi_error_def Let_def fcgi_inv_def)
  with that show ?thesis by blast
qed

lemma body_record_safe:
  assumes inv: "fcgi_inv ok c" and pk: "peek (msg_data msg) (FCGI_CLEN (msg_header msg)) (mem (fc_buf c)) = Some d"
  obtains s c' where "body_record ok msg c = Some (s, c')" "fcgi_inv ok c'"
proof -
  have wf: "buf_wf ok (fc_buf c)" "buf_wf ok (fc_body c)" using inv by (auto simp: fcgi_inv_def)
  from adata_wf [OF wf(2) peek_small [OF wf(1) pk]] obtain r p where "buf_adata ok (fc_body c) d = Some (r, p)" "buf_wf ok p" .
  with inv pk have "\<exists>s c'. body_record ok msg c = Some (s, c') \<and> fcgi_inv ok c'"
    by (auto simp: body_record_def fcgi_error_def Let_def fcgi_inv_def)
  with that show ?thesis by blast
qed

lemma params_loop_safe: "fcgi_inv ok c \<Longrightarrow> \<exists>r c' es'. params_loop ok c es = Some (r, c', es') \<and> fcgi_inv ok c'"
proof (induction ok c es rule: params_loop.induct)
  case (1 ok c es)
  from readmsg_safe [OF 1(2), of es] obtain r msg c1 es1 where
    m: "fcgi_cli_readmsg ok c es = Some (r, msg, c1, es1)" "fcgi_inv ok c1"
      "r = FCGI_OK \<longrightarrow> (\<exists>h d. msg = Some \<lparr>msg_header = h, msg_data = sizeof_fcgi_header\<rparr>
        \<and> peek sizeof_fcgi_header (FCGI_CLEN h) (mem (fc_buf c1)) = Some d)" "r \<noteq> FCGI_OK \<longrightarrow> msg = None" by blast
  show ?case
  proof (cases "r = FCGI_OK")
    case True
    with m(3) obtain x d where x: "msg = Some x" "peek (msg_data x) (FCGI_CLEN (msg_header x)) (mem (fc_buf c1)) = Some d" by auto
    from params_record_safe [OF m(2) x(2)] obtain s c2 where s: "params_record ok x c1 = Some (s, c2)" "fcgi_inv ok c2" .
    with 1(1) [OF m(1) refl refl x(1) refl True s(1) refl] m x True show ?thesis
      by (cases s) (auto simp: params_loop.simps [of ok c es])
  qed (use m in \<open>auto simp: params_loop.simps [of ok c es]\<close>)
qed

lemma readbody_safe: "fcgi_inv ok c \<Longrightarrow> \<exists>r c' es'. fcgi_cli_readbody ok c es = Some (r, c', es') \<and> fcgi_inv ok c'"
proof (induction ok c es rule: fcgi_cli_readbody.induct)
  case (1 ok c es)
  from readmsg_safe [OF 1(2), of es] obtain r msg c1 es1 where
    m: "fcgi_cli_readmsg ok c es = Some (r, msg, c1, es1)" "fcgi_inv ok c1"
      "r = FCGI_OK \<longrightarrow> (\<exists>h d. msg = Some \<lparr>msg_header = h, msg_data = sizeof_fcgi_header\<rparr>
        \<and> peek sizeof_fcgi_header (FCGI_CLEN h) (mem (fc_buf c1)) = Some d)" "r \<noteq> FCGI_OK \<longrightarrow> msg = None" by blast
  show ?case
  proof (cases "r = FCGI_OK")
    case True
    with m(3) obtain x d where x: "msg = Some x" "peek (msg_data x) (FCGI_CLEN (msg_header x)) (mem (fc_buf c1)) = Some d" by auto
    from body_record_safe [OF m(2) x(2)] obtain s c2 where s: "body_record ok x c1 = Some (s, c2)" "fcgi_inv ok c2" .
    with 1(1) [OF m(1) refl refl x(1) refl True s(1) refl] m x True show ?thesis
      by (cases s) (auto simp: fcgi_cli_readbody.simps [of ok c es])
  qed (use m in \<open>auto simp: fcgi_cli_readbody.simps [of ok c es]\<close>)
qed

text \<open>
  C37. Whatever arrives, \<open>fcgi_cli_readreq\<close> returns, keeps the invariant, and never fails an assertion or
  accesses memory outside of a buffer.
\<close>

theorem fcgi_readreq_safe:
  assumes "fcgi_inv ok c"
  shows "\<exists>r c' es'. fcgi_cli_readreq ok c es = Some (r, c', es') \<and> fcgi_inv ok c'"
proof (cases "fc_param_state c = PSTATE_DONE")
  case True
  with readbody_safe [OF assms] show ?thesis by (simp add: fcgi_cli_readreq_def)
next
  case False
  from params_loop_safe [OF assms, of es] obtain r c1 es1 where "params_loop ok c es = Some (r, c1, es1)" "fcgi_inv ok c1" by blast
  with False readbody_safe [of ok c1 es1] show ?thesis by (simp add: fcgi_cli_readreq_def fcgi_cli_readparams_def)
qed

theorem fcgi_readreq_safe_witness:
  "\<exists>c r c' es'. fcgi_cli_init tib_alloc 3 = Some c
     \<and> fcgi_cli_readreq tib_alloc c [Data (replicate 300 CHR 0xFF), RErrno 5] = Some (r, c', es') \<and> fcgi_inv tib_alloc c'"
proof -
  obtain c where c: "fcgi_cli_init tib_alloc 3 = Some c"
    by (simp add: fcgi_cli_init_def buf_init_def Let_def INIT_MBUFSZ_def INIT_PBUFSZ_def INIT_BBUFSZ_def tib_alloc_def
        buf_align_offset_def BUF_ALIGNMENT_def)
  have "fcgi_inv tib_alloc c" using fcgi_cli_init_state(1) [OF c] by simp
  from fcgi_readreq_safe [OF this] c show ?thesis by blast
qed

section \<open>Parameters\<close>

lemma short_length_byte:
  "n < 128 \<Longrightarrow> (of_nat n :: u8) AND 0x80 = 0 \<and> (scast (of_nat n :: u8) :: size_t) = of_nat n"
proof -
  have "\<forall>n\<in>set [0..<128]. (of_nat n :: u8) AND 0x80 = 0 \<and> (scast (of_nat n :: u8) :: size_t) = of_nat n"
    by code_simp
  moreover assume "n < 128"
  ultimately show ?thesis by simp
qed

lemma get_length_short: "n < 128 \<Longrightarrow> get_length (char_of n # xs) = Some (1, of_nat n)"
  using short_length_byte [of n] by (simp add: get_length_def char_to_size_def of_char_u8)

definition enc_pair :: "bytes \<times> bytes \<Rightarrow> bytes" where
  "enc_pair kv = (case kv of (k, v) \<Rightarrow> char_of (length k) # char_of (length v) # k @ v)"

text \<open>The bytes a pair points to, and all pairs\<close>

definition pair_bytes :: "fcgi_cli \<Rightarrow> fcgi_pair \<Rightarrow> bytes \<times> bytes" where
  "pair_bytes c p =
     (let m = buf_contents (fc_params c)
      in (take (unat (p_keylen p)) (drop (unat (p_key p)) m), take (unat (p_valuelen p)) (drop (unat (p_value p)) m)))"

fun all_params :: "nat \<Rightarrow> fcgi_cli \<Rightarrow> size_t \<Rightarrow> (bytes \<times> bytes) list option" where
  "all_params 0 c off = None"
| "all_params (Suc n) c off =
     (case fcgi_cli_next_param c off of
        (r, Some p, off') \<Rightarrow> if r = FCGI_AGAIN then map_option ((#) (pair_bytes c p)) (all_params n c off') else Some []
      | (r, None, off') \<Rightarrow> Some [])"

lemma next_param_short:
  assumes wf: "buf_wf ok (fc_params c)" and m: "buf_contents (fc_params c) = pre @ enc_pair (k, v) @ post"
    and len: "length k < 128" "length v < 128"
  obtains p where "fcgi_cli_next_param c (of_nat (length pre)) = (FCGI_AGAIN, Some p, of_nat (length (pre @ enc_pair (k, v))))"
    and "pair_bytes c p = (k, v)"
proof -
  let ?off = "of_nat (length pre) :: size_t" and ?N = "length (buf_contents (fc_params c))"
  have small: "?N < 2 ^ 62" using length_buf_contents [OF wf] wf by (auto simp: buf_wf_def word_le_nat_alt)
  have tot: "?N = length pre + 2 + length k + length v + length post" by (simp add: m enc_pair_def)
  have u: "unat (of_nat n :: size_t) = n" if "n \<le> ?N" for n using that small by (intro unat_of_nat_small) simp
  have off: "unat ?off = length pre" using tot by (intro u) simp
  have lt: "\<not> ?off \<ge> buf_len (fc_params c)"
    using off length_buf_contents [OF wf] tot by (simp add: word_le_nat_alt)
  have data: "drop (unat ?off) (buf_contents (fc_params c)) = char_of (length k) # char_of (length v) # k @ v @ post"
    by (simp add: off m enc_pair_def)
  have sum: "\<not> of_nat (length k) + of_nat (length v) > (of_nat (length k + (length v + length post)) :: size_t)"
    using tot by (simp add: of_nat_add [symmetric] word_less_nat_alt u del: of_nat_add)
  let ?p = "\<lparr>p_keylen = of_nat (length k), p_valuelen = of_nat (length v), p_key = of_nat (length pre + 2),
    p_value = of_nat (length pre + 2 + length k)\<rparr>"
  have "fcgi_cli_next_param c ?off = (FCGI_AGAIN, Some ?p, of_nat (length (pre @ enc_pair (k, v))))"
    using lt sum by (simp add: fcgi_cli_next_param_def data get_length_short len Let_def enc_pair_def)
  moreover have "unat (of_nat (length k) :: size_t) = length k" "unat (of_nat (length v) :: size_t) = length v"
      "unat (of_nat (length pre + 2) :: size_t) = length pre + 2"
      "unat (of_nat (length pre + 2 + length k) :: size_t) = length pre + 2 + length k"
    using tot by (intro u; simp)+
  then have "pair_bytes c ?p = (k, v)"
    by (simp only: pair_bytes_def Let_def fcgi_pair.simps) (simp add: m enc_pair_def)
  ultimately show ?thesis by (rule that)
qed

text \<open>
  C38. Parameters whose names and values are shorter than 128 bytes are read back as they were sent.
\<close>

theorem fcgi_params_roundtrip:
  assumes "buf_wf ok (fc_params c)" and "buf_contents (fc_params c) = concat (map enc_pair kvs)"
    and "\<forall>(k, v)\<in>set kvs. length k < 128 \<and> length v < 128" and "length kvs < n"
  shows "all_params n c 0 = Some kvs"
proof -
  have "all_params n c (of_nat (length pre)) = Some kvs'"
    if "buf_contents (fc_params c) = pre @ concat (map enc_pair kvs')" "\<forall>(k, v)\<in>set kvs'. length k < 128 \<and> length v < 128"
      "length kvs' < n" for pre kvs' n
    using that
  proof (induction kvs' arbitrary: pre n)
    case Nil
    then obtain n' where "n = Suc n'" by (cases n) auto
    moreover have "of_nat (length pre) \<ge> buf_len (fc_params c)"
      using Nil length_buf_contents [OF assms(1)] by simp
    ultimately show ?case by (simp add: fcgi_cli_next_param_def)
  next
    case (Cons kv kvs')
    obtain k v where kv: "kv = (k, v)" by fastforce
    obtain n' where n: "n = Suc n'" "length kvs' < n'" using Cons(4) by (cases n) auto
    have m: "buf_contents (fc_params c) = pre @ enc_pair (k, v) @ concat (map enc_pair kvs')" using Cons(2) by (simp add: kv)
    have kl: "length k < 128" "length v < 128" using Cons(3) by (auto simp: kv)
    from next_param_short [OF assms(1) m kl] obtain p where
      p: "fcgi_cli_next_param c (of_nat (length pre)) = (FCGI_AGAIN, Some p, of_nat (length (pre @ enc_pair (k, v))))"
        "pair_bytes c p = (k, v)" .
    have "all_params n' c (of_nat (length (pre @ enc_pair (k, v)))) = Some kvs'"
      using Cons(3) m n(2) by (intro Cons(1)) auto
    with p n(1) show ?case by (simp add: kv)
  qed
  from this [of "[]" kvs n] assms(2-4) show ?thesis by simp
qed

text \<open>
  A length of four bytes is not decoded: the sign of its first byte, which marks the form, is kept and
  extended, so the result is at least \<open>2 ^ 63\<close> instead of less than \<open>2 ^ 31\<close>.
\<close>

theorem get_length_long_wrong:
  assumes "get_length data = Some (4, n)"
  shows "2 ^ 63 \<le> unat n"
proof -
  have "(of_char (data ! 0) :: u8) AND 0x80 \<noteq> 0" and
    n: "n = push_bit 24 (char_to_size (data ! 0)) OR push_bit 16 (char_to_size (data ! 1))
               OR push_bit 8 (char_to_size (data ! 2)) OR char_to_size (data ! 3)"
    using assms by (auto simp: get_length_def split: if_splits)
  moreover have "(0x80 :: u8) = 2 ^ 7" by simp
  ultimately have "bit (of_char (data ! 0) :: u8) 7" by (metis and_exp_eq_0_iff_not_bit)
  then have "bit (char_to_size (data ! 0)) 39" by (simp add: char_to_size_def bit_simps)
  then have "bit n 63" by (simp add: n bit_simps)
  then have "bit (unat n) 63" by (simp add: bit_simps)
  then have "odd (unat n div 2 ^ 63)" unfolding bit_iff_odd .
  then show ?thesis by (metis div_less even_zero not_le)
qed

theorem fcgi_params_roundtrip_witness:
  "\<exists>c. buf_contents (fc_params c) = concat (map enc_pair [(''QUERY'', ''a=1''), (''EMPTY'', '''')])
     \<and> all_params 3 c 0 = Some [(''QUERY'', ''a=1''), (''EMPTY'', '''')]"
proof -
  let ?kvs = "[(''QUERY'', ''a=1''), (''EMPTY'', '''')] :: (bytes \<times> bytes) list"
  obtain b where b: "buf_wf tib_alloc b" "buf_contents b = concat (map enc_pair ?kvs)"
    using buf_adata_granted [of tib_alloc buf_zero "concat (map enc_pair ?kvs)"] by (auto simp: enc_pair_def)
  let ?c = "\<lparr>fc_id = 1, fc_buf = buf_zero, fc_params = b, fc_body = buf_zero, fc_read_state = RSTATE_INCOMPLETE,
    fc_param_state = PSTATE_DONE, fc_errcode = 0, fc_io = IO_INIT 3\<rparr>"
  have "all_params 3 ?c 0 = Some ?kvs"
    by (rule fcgi_params_roundtrip [where ok = tib_alloc]) (use b in simp_all)
  with b(2) show ?thesis by (intro exI [of _ ?c]) simp
qed

text \<open>
  The sum of a long length and a short one can wrap around: the check of the lengths then accepts a name
  of \<open>2 ^ 64 - 1\<close> bytes.
\<close>

theorem fcgi_next_param_overread:
  assumes wf: "buf_wf ok (fc_params c)"
    and m: "buf_contents (fc_params c) = CHR 0xFF # CHR 0xFF # CHR 0xFF # CHR 0xFF # CHR 0x01 # rest"
  shows "fcgi_cli_next_param c 0 = (FCGI_AGAIN, Some \<lparr>p_keylen = -1, p_valuelen = 1, p_key = 5, p_value = 4\<rparr>, 5)"
proof -
  have ff: "char_to_size (CHR 0xFF) = -1" "(of_char (CHR 0xFF) :: u8) AND 0x80 \<noteq> 0" by code_simp+
  have one: "char_to_size (CHR 0x01) = 1" "(of_char (CHR 0x01) :: u8) AND 0x80 = 0" by code_simp+
  have "unat (buf_len (fc_params c)) = length rest + 5" using length_buf_contents [OF wf] m by simp
  then have "\<not> 0 \<ge> buf_len (fc_params c)" by (auto simp: word_le_nat_alt)
  moreover have "get_length (CHR 0xFF # CHR 0xFF # CHR 0xFF # CHR 0xFF # xs) = Some (4, -1)" for xs
    using ff by (simp add: get_length_def)
  moreover have "get_length (CHR 0x01 # xs) = Some (1, 1)" for xs using one by (simp add: get_length_def)
  ultimately show ?thesis by (simp add: fcgi_cli_next_param_def m Let_def)
qed

text \<open>The content length of a formatted header is the one that was asked for.\<close>

lemma format_header_clen: "FCGI_CLEN (fcgi_cli_format_header c h t n) = unat n"
proof -
  have "unat n div 256 < 256" using unat_less_exp [of n] by simp
  then have "unat (ucast (drop_bit 8 n) :: u8) = unat n div 256"
    by (simp add: unsigned_ucast_eq drop_bit_eq_div unat_div take_bit_nat_eq_self)
  moreover have ff: "(0xff :: u16) = mask 8" by (simp add: mask_eq_exp_minus_1)
  have "unat (ucast (n AND 0xff) :: u8) = unat n mod 256"
    unfolding ff by (simp only: unsigned_ucast_eq unat_and_mask) (simp add: take_bit_eq_mod)
  ultimately show ?thesis by (simp add: FCGI_CLEN_def fcgi_cli_format_header_def)
qed

text \<open>A message that is sent with such a header is complete and has this length for a reader.\<close>

lemma format_header_read:
  "length d < 2 ^ 16 \<Longrightarrow> rec_ok (fcgi_cli_format_header c h t (of_nat (length d)), d, [])"
  using format_header_clen [of c h t "of_nat (length d)"]
  by (simp add: unat_of_nat_small fcgi_cli_format_header_def)

end
