(* ===== verification/Scgi.thy ===== *)
theory Scgi
  imports Netstring Io
begin

text \<open>
  SCGI requests, \<^verbatim>\<open>lib/net/scgi.c\<close>. The header of a request is a netstring of NUL-terminated names and
  values; it is read into a buffer, and what was read behind it is the start of the body. Pointers
  into the buffer are offsets. \<^const>\<open>None\<close> is an access outside of the buffer.
\<close>

section \<open>Data\<close>

definition DFL_HDRBUF :: size_t where "DFL_HDRBUF = 2 ^ 15"
definition SCGIF_HAS_HEADER :: u32 where "SCGIF_HAS_HEADER = 1"
definition SCGI_AGAIN :: status where "SCGI_AGAIN = 1"
definition SCGI_OK :: status where "SCGI_OK = 0"
definition SCGI_EMEM :: status where "SCGI_EMEM = -1"
definition SCGI_EIO :: status where "SCGI_EIO = -2"
definition SCGI_EPREMATURE_CONN_TERM :: status where "SCGI_EPREMATURE_CONN_TERM = -3"
definition SCGI_EMSG_TOO_LARGE :: status where "SCGI_EMSG_TOO_LARGE = -4"
definition SCGI_EPARSE :: status where "SCGI_EPARSE = -5"
definition SCGI_ENO_HEADER :: status where "SCGI_ENO_HEADER = -6"

lemmas scgi_codes = SCGI_AGAIN_def SCGI_OK_def SCGI_EMEM_def SCGI_EIO_def SCGI_EPREMATURE_CONN_TERM_def
  SCGI_EMSG_TOO_LARGE_def SCGI_EPARSE_def SCGI_ENO_HEADER_def

record scgi_ctx =
  sc_flags :: u32
  sc_fd :: int
  sc_buf :: buf_t
  sc_maxhdrsz :: size_t
  sc_nextoff :: size_t
  sc_hdr :: "nat option"
  sc_hdrlen :: nat
  sc_errbuf :: bytes

record scgi_header =
  hd_key :: nat
  hd_keylen :: nat
  hd_value :: "nat option"
  hd_valuelen :: nat

section \<open>Operations\<close>

definition scgi_init :: "allocator \<Rightarrow> int \<Rightarrow> size_t \<Rightarrow> status + scgi_ctx" where
  "scgi_init ok fd maxhdrsz =
     (case buf_init ok (min DFL_HDRBUF maxhdrsz) of
        None \<Rightarrow> Inl SCGI_EMEM
      | Some b \<Rightarrow> Inr \<lparr>sc_flags = 0, sc_fd = fd, sc_buf = b, sc_maxhdrsz = maxhdrsz, sc_nextoff = 0, sc_hdr = None,
          sc_hdrlen = 0, sc_errbuf = []\<rparr>)"

definition scgi_cleanup :: "scgi_ctx \<Rightarrow> scgi_ctx" where
  "scgi_cleanup ctx = ctx\<lparr>sc_buf := buf_cleanup (sc_buf ctx), sc_fd := -1, sc_maxhdrsz := 0\<rparr>"

text \<open>\<open>netstring_tryparse\<close> on the buffer, which stores the offset behind the netstring in the context\<close>

definition tryparse :: "scgi_ctx \<Rightarrow> (netstring_error + unit) \<times> scgi_ctx" where
  "tryparse ctx =
     (case netstring_tryparse (buf_contents (sc_buf ctx)) of
        Inl e \<Rightarrow> (Inl e, ctx)
      | Inr off \<Rightarrow> (Inr (), ctx\<lparr>sc_nextoff := off\<rparr>))"

definition scgi_adata :: "allocator \<Rightarrow> scgi_ctx \<Rightarrow> bytes \<Rightarrow> (status \<times> scgi_ctx) option" where
  "scgi_adata ok ctx data =
     do {
       (ret, b) \<leftarrow> buf_adata ok (sc_buf ctx) data;
       if ret < 0 then Some (SCGI_EMEM, ctx\<lparr>sc_buf := b\<rparr>)
       else Some (case tryparse (ctx\<lparr>sc_buf := b\<rparr>) of
           (Inl e, ctx) \<Rightarrow> (if e = NETSTRING_ERRINCOMPLETE then SCGI_OK else SCGI_EPARSE, ctx)
         | (Inr _, ctx) \<Rightarrow> (SCGI_OK, ctx))
     }"

text \<open>The loop of \<open>scgi_read_header\<close>: a status, when it returns from inside\<close>

function read_loop ::
  "allocator \<Rightarrow> scgi_ctx \<Rightarrow> io_t \<Rightarrow> read_event list \<Rightarrow> ((status + netstring_error + unit) \<times> scgi_ctx \<times> read_event list) option" where
  "read_loop ok ctx io es =
     (let parsed = tryparse ctx; ctx' = (if buf_len (sc_buf ctx) = 0 then ctx else snd parsed)
      in if buf_len (sc_buf ctx) = 0 \<or> fst parsed = Inl NETSTRING_ERRINCOMPLETE then
           (case io_readbuf ok io es (sc_buf ctx') of
              None \<Rightarrow> None
            | Some (ret, nread, b, io', es') \<Rightarrow>
                let ctx'' = ctx'\<lparr>sc_buf := b\<rparr>
                in if ret = IO_AGAIN then Some (Inl SCGI_AGAIN, ctx'', es')
                   else if ret \<noteq> IO_OK then Some (Inl SCGI_EIO, ctx'', es')
                   else if nread = 0 then Some (Inl SCGI_EPREMATURE_CONN_TERM, ctx'', es')
                   else if buf_len b \<ge> sc_maxhdrsz ctx'' then
                     Some (Inl SCGI_EMSG_TOO_LARGE, ctx''\<lparr>sc_errbuf := ''message too large''\<rparr>, es')
                   else read_loop ok ctx'' io' es')
         else Some (Inr (fst parsed), ctx', es))"
  by pat_completeness auto
termination
  by (relation "measure (\<lambda>(ok, ctx, io, es). length (arriving es))") (auto dest!: io_readbuf_consumes(1))

declare read_loop.simps [simp del]

definition scgi_read_header :: "allocator \<Rightarrow> scgi_ctx \<Rightarrow> read_event list \<Rightarrow> (status \<times> scgi_ctx \<times> read_event list) option" where
  "scgi_read_header ok ctx es =
     (if sc_flags ctx AND SCGIF_HAS_HEADER \<noteq> 0 then Some (SCGI_OK, ctx, es)
      else map_option (\<lambda>(r, ctx, es). case r of
          Inl st \<Rightarrow> (st, ctx, es)
        | Inr (Inl e) \<Rightarrow> (SCGI_EPARSE, ctx, es)
        | Inr (Inr _) \<Rightarrow> (SCGI_OK, ctx\<lparr>sc_flags := sc_flags ctx OR SCGIF_HAS_HEADER\<rparr>, es))
        (read_loop ok ctx (IO_INIT (sc_fd ctx)) es))"

text \<open>The netstring is terminated in place: the comma behind it becomes a NUL byte.\<close>

definition scgi_parse_header :: "scgi_ctx \<Rightarrow> status \<times> scgi_ctx" where
  "scgi_parse_header ctx =
     (if sc_hdr ctx \<noteq> None then (SCGI_OK, ctx)
      else case netstring_parse (buf_contents (sc_buf ctx)) of
        (Inl e, _) \<Rightarrow> (SCGI_EPARSE, ctx)
      | (Inr (off, s), src') \<Rightarrow>
          (SCGI_OK, ctx\<lparr>sc_buf := sc_buf ctx\<lparr>buf_data := Some (src' @ drop (unat (buf_len (sc_buf ctx))) (mem (sc_buf ctx)))\<rparr>,
             sc_hdr := Some off, sc_hdrlen := length s\<rparr>))"

text \<open>\<open>strlen\<close> of a string in the buffer\<close>

definition strlen_at :: "bytes \<Rightarrow> nat \<Rightarrow> nat option" where
  "strlen_at m off = (if NUL \<in> set (drop off m) then Some (length (cstr (drop off m))) else None)"

definition scgi_get_next_header :: "scgi_ctx \<Rightarrow> scgi_header \<Rightarrow> (status \<times> scgi_header) option" where
  "scgi_get_next_header ctx h =
     (case sc_hdr ctx of
        None \<Rightarrow> Some (SCGI_ENO_HEADER, h)
      | Some hdr \<Rightarrow>
          let m = mem (sc_buf ctx); limit = hdr + sc_hdrlen ctx;
              start = (case hd_value h of
                  None \<Rightarrow> Some hdr
                | Some v \<Rightarrow>
                    if v < hdr \<or> v \<ge> limit then Some hdr
                    else let s = v + hd_valuelen h + 1 in if s < hdr \<or> s \<ge> limit then None else Some s)
          in case start of
               None \<Rightarrow> Some (SCGI_OK, h)
             | Some s \<Rightarrow>
                 do {
                   len \<leftarrow> strlen_at m s;
                   if len = 0 then Some (SCGI_OK, h)
                   else do {
                     let h = h\<lparr>hd_key := s, hd_keylen := len\<rparr>;
                     let v = s + len + 1;
                     if v \<ge> limit then Some (SCGI_EPARSE, h)
                     else do { vlen \<leftarrow> strlen_at m v; Some (SCGI_AGAIN, h\<lparr>hd_value := Some v, hd_valuelen := vlen\<rparr>) }
                   }
                 })"

definition scgi_get_rest :: "scgi_ctx \<Rightarrow> nat option \<times> size_t" where
  "scgi_get_rest ctx =
     (if sc_nextoff ctx > 0 then
        (let nlen = buf_len (sc_buf ctx) - sc_nextoff ctx in (if nlen > 0 then Some (unat (sc_nextoff ctx)) else None, nlen))
      else (None, 0))"

definition scgi_strerror :: "status \<Rightarrow> bytes" where
  "scgi_strerror code =
     (if code = SCGI_OK then ''success'' else if code = SCGI_AGAIN then ''again''
      else if code = SCGI_EMEM then ''memory allocation error'' else if code = SCGI_EIO then ''i/o error''
      else if code = SCGI_EPREMATURE_CONN_TERM then ''premature connection termination''
      else if code = SCGI_EMSG_TOO_LARGE then ''message too large'' else if code = SCGI_EPARSE then ''parse error''
      else if code = SCGI_ENO_HEADER then ''no/missing/unparsed header'' else ''unknown error'')"

section \<open>Reading the header\<close>

lemma tryparse_header:
  assumes "buf_contents (sc_buf ctx) = netstring_of h @ got" and "length (netstring_of h @ got) < ns_limit"
  shows "tryparse ctx = (Inr (), ctx\<lparr>sc_nextoff := of_nat (length (netstring_of h))\<rparr>)"
  using ns_parse_encoded [OF assms(2)]
  by (simp add: tryparse_def netstring_tryparse_def assms(1)) (simp add: netstring_of_def algebra_simps)

lemma tryparse_incomplete:
  assumes "buf_contents (sc_buf ctx) @ ys = netstring_of h" and "ys \<noteq> []" and "length (netstring_of h) < ns_limit"
  shows "tryparse ctx = (Inl NETSTRING_ERRINCOMPLETE, ctx)"
  using ns_parse_cut_off [OF assms] by (simp add: tryparse_def netstring_tryparse_def)

text \<open>The state of a context that is to read the rest of the header \<open>h\<close>, and some of the \<open>body\<close> behind it\<close>

definition reading :: "allocator \<Rightarrow> scgi_ctx \<Rightarrow> read_event list \<Rightarrow> bytes \<Rightarrow> bytes \<Rightarrow> bool" where
  "reading ok ctx es h body \<longleftrightarrow> buf_wf ok (sc_buf ctx) \<and> buf_contents (sc_buf ctx) @ arriving es = netstring_of h @ body
     \<and> quiet es \<and> \<not> refuses ok (length (netstring_of h @ body) + 256)
     \<and> length (netstring_of h @ body) < unat (sc_maxhdrsz ctx) \<and> length (netstring_of h @ body) < ns_limit"

lemma read_loop_spec:
  assumes "reading ok ctx es h body"
  shows "(\<exists>b es' got. read_loop ok ctx io es = Some (Inr (Inr ()), ctx\<lparr>sc_buf := b, sc_nextoff := of_nat (length (netstring_of h))\<rparr>, es')
      \<and> buf_wf ok b \<and> buf_contents b = netstring_of h @ got \<and> got @ arriving es' = body)
    \<or> (\<exists>b es'. read_loop ok ctx io es = Some (Inl SCGI_AGAIN, ctx\<lparr>sc_buf := b\<rparr>, es')
      \<and> reading ok (ctx\<lparr>sc_buf := b\<rparr>) es' h body \<and> length es' < length es)"
  using assms
proof (induction "length (arriving es)" arbitrary: ctx es rule: less_induct)
  case less
  note rd = less(2) [unfolded reading_def]
  let ?xs = "buf_contents (sc_buf ctx)"
  have wf: "buf_wf ok (sc_buf ctx)" using rd by simp
  have zero: "buf_len (sc_buf ctx) = 0 \<longleftrightarrow> ?xs = []" using length_buf_contents [OF wf] by (metis length_0_conv unat_eq_zero)
  from rd obtain us where "?xs = netstring_of h @ us \<and> us @ arriving es = body \<or> ?xs @ us = netstring_of h \<and> arriving es = us @ body"
    unfolding append_eq_append_conv2 by blast
  then consider (full) got where "?xs = netstring_of h @ got" "got @ arriving es = body"
    | (cut) ys where "?xs @ ys = netstring_of h" "ys \<noteq> []" "arriving es = ys @ body" by force
  then show ?case
  proof cases
    case full
    then have "length (netstring_of h @ got) < ns_limit" using rd by auto
    from tryparse_header [OF full(1) this] zero full wf show ?thesis
      by (intro disjI1 exI [of _ "sc_buf ctx"] exI [of _ es] exI [of _ got])
        (simp add: read_loop.simps [of ok ctx io es] netstring_of_def)
  next
    case cut
    have tp: "tryparse ctx = (Inl NETSTRING_ERRINCOMPLETE, ctx)"
      using rd by (intro tryparse_incomplete [OF cut(1,2)]) simp
    have le: "length ?xs \<le> length (netstring_of h @ body)" using arg_cong [OF cut(1), of length] by simp
    note run = read_loop.simps [of ok ctx io es, unfolded tp Let_def fst_conv snd_conv if_cancel]
    from wf show ?thesis
    proof (cases rule: io_readbuf_spec [where io = io and es = es])
      case (got d b es1)
      then have d: "d \<noteq> []" using rd by auto
      have len: "\<not> buf_len b \<ge> sc_maxhdrsz ctx"
      proof -
        have "?xs @ d @ arriving es1 = netstring_of h @ body" using rd got(4) by simp
        then have "length ?xs + length d + length (arriving es1) = length (netstring_of h @ body)" by (metis add.assoc length_append)
        with length_buf_contents [OF got(2)] got(3) rd show ?thesis by (auto simp: word_le_nat_alt)
      qed
      let ?ctx = "ctx\<lparr>sc_buf := b\<rparr>"
      have rd1: "reading ok ?ctx es1 h body" using rd got d by (auto simp: reading_def)
      have step: "read_loop ok ctx io es = read_loop ok ?ctx io es1"
        using run got(1) d len by (simp add: io_codes)
      have "length (arriving es1) < length (arriving es)" using got(4) d by simp
      from less(1) [OF this rd1] show ?thesis using step got(5) by auto
    next
      case (paused b es1)
      have "es \<noteq> []" using cut(2,3) by auto
      with paused rd have "reading ok (ctx\<lparr>sc_buf := b\<rparr>) es1 h body" "length es1 < length es" by (auto simp: reading_def)
      with run paused(1) show ?thesis by (intro disjI2) (auto simp: io_codes)
    next
      case (failed b io' es1)
      then show ?thesis using rd refuses_mono [of ok "length ?xs + 256" "length (netstring_of h @ body) + 256"] le by auto
    qed
  qed
qed

section \<open>The header fields\<close>

definition field :: "bytes \<times> bytes \<Rightarrow> bytes" where
  "field kv = fst kv @ [NUL] @ snd kv @ [NUL]"

definition field_ok :: "bytes \<times> bytes \<Rightarrow> bool" where
  "field_ok kv \<longleftrightarrow> fst kv \<noteq> [] \<and> NUL \<notin> set (fst kv) \<and> NUL \<notin> set (snd kv)"

definition header_block :: "(bytes \<times> bytes) list \<Rightarrow> bytes" where
  "header_block kvs = concat (map field kvs)"

text \<open>The bytes a header points to, and all headers until there are no more, with the last status\<close>

definition field_of :: "scgi_ctx \<Rightarrow> scgi_header \<Rightarrow> bytes \<times> bytes" where
  "field_of ctx h =
     (let m = mem (sc_buf ctx)
      in (take (hd_keylen h) (drop (hd_key h) m), take (hd_valuelen h) (drop (the (hd_value h)) m)))"

fun all_headers :: "nat \<Rightarrow> scgi_ctx \<Rightarrow> scgi_header \<Rightarrow> (status \<times> (bytes \<times> bytes) list) option" where
  "all_headers 0 ctx h = None"
| "all_headers (Suc n) ctx h =
     do {
       (r, h') \<leftarrow> scgi_get_next_header ctx h;
       if r = SCGI_AGAIN then map_option (apsnd ((#) (field_of ctx h'))) (all_headers n ctx h') else Some (r, [])
     }"

definition no_header :: scgi_header where
  "no_header = \<lparr>hd_key = 0, hd_keylen = 0, hd_value = None, hd_valuelen = 0\<rparr>"

lemma strlen_at_string: "NUL \<notin> set s \<Longrightarrow> strlen_at (pre @ s @ NUL # post) (length pre) = Some (length s)"
proof -
  assume "NUL \<notin> set s"
  then have "takeWhile (\<lambda>c. c \<noteq> NUL) (s @ NUL # post) = s" by (induction s) auto
  then show ?thesis by (simp add: strlen_at_def cstr_def)
qed

text \<open>Where the next field starts\<close>

definition starts :: "scgi_ctx \<Rightarrow> nat \<Rightarrow> scgi_header \<Rightarrow> nat \<Rightarrow> bool" where
  "starts ctx hdr h s \<longleftrightarrow>
     (case hd_value h of
        None \<Rightarrow> s = hdr
      | Some v \<Rightarrow> hdr \<le> v \<and> v < hdr + sc_hdrlen ctx \<and> s = v + hd_valuelen h + 1)"

lemma next_header_field:
  assumes hdr: "sc_hdr ctx = Some hdr" and st: "starts ctx hdr h s"
    and m: "mem (sc_buf ctx) = pre @ field (k, v) @ post" "s = length pre" "field_ok (k, v)"
    and lim: "hdr \<le> s" "s + length (field (k, v)) \<le> hdr + sc_hdrlen ctx"
  obtains h' where "scgi_get_next_header ctx h = Some (SCGI_AGAIN, h')" and "field_of ctx h' = (k, v)"
    and "starts ctx hdr h' (s + length (field (k, v)))"
proof -
  have k: "strlen_at (mem (sc_buf ctx)) s = Some (length k)"
    using strlen_at_string [of k pre "v @ NUL # post"] m by (simp add: field_def field_ok_def)
  have v: "strlen_at (mem (sc_buf ctx)) (s + length k + 1) = Some (length v)"
    using strlen_at_string [of v "pre @ k @ [NUL]" post] m by (simp add: field_def field_ok_def)
  let ?h = "h\<lparr>hd_key := s, hd_keylen := length k, hd_value := Some (s + length k + 1), hd_valuelen := length v\<rparr>"
  have ne: "length k \<noteq> 0" "s + length k + 1 < hdr + sc_hdrlen ctx" "s < hdr + sc_hdrlen ctx"
    using m(3) lim(2) by (simp_all add: field_def field_ok_def)
  have "scgi_get_next_header ctx h = Some (SCGI_AGAIN, ?h)"
    using st ne lim(1) k v hdr by (auto simp: scgi_get_next_header_def starts_def Let_def split: option.splits)
  moreover have "field_of ctx ?h = (k, v)" by (simp add: field_of_def m(1,2) field_def Let_def)
  moreover have "starts ctx hdr ?h (s + length (field (k, v)))" using ne lim by (simp add: starts_def field_def)
  ultimately show ?thesis by (rule that)
qed

lemma all_headers_block:
  assumes hdr: "sc_hdr ctx = Some hdr" and st: "starts ctx hdr h s"
    and m: "mem (sc_buf ctx) = pre @ header_block kvs @ [NUL] @ post" "s = length pre"
    and kvs: "\<forall>kv\<in>set kvs. field_ok kv" and lim: "hdr \<le> s" "s + length (header_block kvs) = hdr + sc_hdrlen ctx" and n: "length kvs < n"
  shows "all_headers n ctx h = Some (SCGI_OK, kvs)"
  using st m kvs lim n
proof (induction kvs arbitrary: h s pre n)
  case Nil
  then obtain n' where n': "n = Suc n'" by (cases n) auto
  have z: "strlen_at (mem (sc_buf ctx)) s = Some 0" using Nil(2,3) strlen_at_string [of "[]" pre post] by (simp add: header_block_def)
  have "scgi_get_next_header ctx h = Some (SCGI_OK, h)"
    using Nil(1,5,6) z hdr by (auto simp: scgi_get_next_header_def starts_def Let_def header_block_def split: option.splits)
  then show ?case by (simp add: n' scgi_codes)
next
  case (Cons kv kvs)
  obtain k v where kv: "kv = (k, v)" by fastforce
  obtain n' where n': "n = Suc n'" "length kvs < n'" using Cons(8) by (cases n) auto
  have m: "mem (sc_buf ctx) = pre @ field (k, v) @ (header_block kvs @ [NUL] @ post)" using Cons(3) by (simp add: kv header_block_def)
  have "s + length (field (k, v)) \<le> hdr + sc_hdrlen ctx" using Cons(7) by (simp add: kv header_block_def)
  from next_header_field [OF hdr Cons(2) m Cons(4) _ Cons(6) this] Cons(5) obtain h' where
    h': "scgi_get_next_header ctx h = Some (SCGI_AGAIN, h')" "field_of ctx h' = (k, v)"
      "starts ctx hdr h' (s + length (field (k, v)))" by (auto simp: kv)
  have "all_headers n' ctx h' = Some (SCGI_OK, kvs)"
  proof (rule Cons(1) [OF h'(3)])
    show "mem (sc_buf ctx) = (pre @ field (k, v)) @ header_block kvs @ [NUL] @ post" using m by simp
  qed (use Cons(4-7) n'(2) in \<open>simp_all add: kv header_block_def\<close>)
  with h' show ?case by (simp add: n' kv)
qed

section \<open>Properties\<close>

text \<open>Reading is repeated while it has to wait, as the callers do, at most \<open>n\<close> times.\<close>

fun read_header_n :: "nat \<Rightarrow> allocator \<Rightarrow> scgi_ctx \<Rightarrow> read_event list \<Rightarrow> (status \<times> scgi_ctx \<times> read_event list) option" where
  "read_header_n 0 ok ctx es = Some (SCGI_AGAIN, ctx, es)"
| "read_header_n (Suc n) ok ctx es =
     do { (r, ctx', es') \<leftarrow> scgi_read_header ok ctx es; if r = SCGI_AGAIN then read_header_n n ok ctx' es' else Some (r, ctx', es') }"

lemma read_header_reads:
  assumes "reading ok ctx es h body" and "sc_flags ctx = 0" and "length es < n"
  shows "\<exists>b es' got. read_header_n n ok ctx es = Some (SCGI_OK,
        ctx\<lparr>sc_buf := b, sc_nextoff := of_nat (length (netstring_of h)), sc_flags := SCGIF_HAS_HEADER\<rparr>, es')
      \<and> buf_wf ok b \<and> buf_contents b = netstring_of h @ got \<and> got @ arriving es' = body"
  using assms
proof (induction n arbitrary: ctx es)
  case (Suc n)
  from read_loop_spec [OF Suc(2), of "IO_INIT (sc_fd ctx)"] show ?case
  proof (elim disjE exE conjE)
    fix b es' got
    assume "read_loop ok ctx (IO_INIT (sc_fd ctx)) es
        = Some (Inr (Inr ()), ctx\<lparr>sc_buf := b, sc_nextoff := of_nat (length (netstring_of h))\<rparr>, es')"
      "buf_wf ok b" "buf_contents b = netstring_of h @ got" "got @ arriving es' = body"
    with Suc(3) show ?thesis
      by (intro exI [of _ b] exI [of _ es'] exI [of _ got]) (simp add: scgi_read_header_def scgi_codes)
  next
    fix b es'
    assume p: "read_loop ok ctx (IO_INIT (sc_fd ctx)) es = Some (Inl SCGI_AGAIN, ctx\<lparr>sc_buf := b\<rparr>, es')"
      "reading ok (ctx\<lparr>sc_buf := b\<rparr>) es' h body" "length es' < length es"
    have run: "read_header_n (Suc n) ok ctx es = read_header_n n ok (ctx\<lparr>sc_buf := b\<rparr>) es'"
      using p(1) Suc(3) by (simp add: scgi_read_header_def)
    have "length es' < n" using p(3) Suc(4) by simp
    with Suc(1) [OF p(2)] Suc(3) show ?thesis unfolding run by simp
  qed
qed simp

definition rest_bytes :: "scgi_ctx \<Rightarrow> bytes" where
  "rest_bytes ctx =
     (case scgi_get_rest ctx of
        (Some off, len) \<Rightarrow> take (unat len) (drop off (mem (sc_buf ctx)))
      | (None, len) \<Rightarrow> [])"

lemma parse_header_block:
  assumes wf: "buf_wf ok b" and c: "buf_contents b = netstring_of h @ got" and small: "length (netstring_of h @ got) < ns_limit"
    and ctx: "sc_buf ctx = b" "sc_hdr ctx = None" "sc_nextoff ctx = of_nat (length (netstring_of h))"
  obtains ctx' post where "scgi_parse_header ctx = (SCGI_OK, ctx')" and "sc_hdrlen ctx' = length h"
    and "sc_hdr ctx' = Some (length (dec_digits (length h) @ '':''))"
    and "mem (sc_buf ctx') = (dec_digits (length h) @ '':'') @ h @ [NUL] @ post" and "rest_bytes ctx' = got"
proof -
  let ?off = "length (dec_digits (length h)) + 1" and ?src = "dec_digits (length h) @ '':'' @ h @ [NUL] @ got"
  let ?m = "?src @ drop (unat (buf_len b)) (mem b)"
  let ?ctx = "ctx\<lparr>sc_buf := b\<lparr>buf_data := Some ?m\<rparr>, sc_hdr := Some ?off, sc_hdrlen := length h\<rparr>"
  have lim: "ns_limit < 2 ^ 64" by (simp add: ns_limit_def)
  have len: "unat (buf_len b) = length (netstring_of h @ got)" using length_buf_contents [OF wf] c by simp
  have off: "unat (of_nat (length (netstring_of h)) :: size_t) = length (netstring_of h)"
    using small lim by (intro unat_of_nat_small) simp
  have sub: "unat (buf_len b - of_nat (length (netstring_of h))) = length got"
    using len off by (subst unat_sub) (simp_all add: word_le_nat_alt)
  have pos: "0 < (of_nat (length (netstring_of h)) :: size_t)"
    using off by (metis length_greater_0_conv netstring_of_def append_is_Nil_conv not_Cons_self2 unat_gt_0 word_neq_0_conv)
  have z: "0 < buf_len b - of_nat (length (netstring_of h)) \<longleftrightarrow> got \<noteq> []"
    using sub by (metis length_greater_0_conv unat_gt_0 word_neq_0_conv)
  have "rest_bytes ?ctx = got"
    using pos z sub off ctx(3) by (simp add: rest_bytes_def scgi_get_rest_def Let_def) (simp add: netstring_of_def)
  moreover have "scgi_parse_header ctx = (SCGI_OK, ?ctx)"
    using netstring_parse_encoded [OF small] by (simp add: scgi_parse_header_def ctx c)
  ultimately show ?thesis by (intro that [of ?ctx "got @ drop (unat (buf_len b)) (mem b)"]) simp_all
qed

text \<open>
  C39. A request that arrives in any pieces, with pauses and signals in between, is read and taken apart
  correctly: the header fields come out as they were sent, in order, and what was read behind the
  header together with what is still to come is the body.
\<close>

theorem scgi_request_read:
  assumes init: "scgi_init ok fd maxhdrsz = Inr ctx" and ab: "alloc_bounded ok"
    and arr: "arriving es = netstring_of (header_block kvs) @ body" and quiet: "quiet es"
    and kvs: "\<forall>kv\<in>set kvs. field_ok kv"
    and mem: "\<not> refuses ok (length (arriving es) + 256)" and max: "length (arriving es) < unat maxhdrsz"
    and small: "length (arriving es) < ns_limit" and n: "length es < n" "length kvs < k"
  shows "\<exists>ctx1 es' ctx2. read_header_n n ok ctx es = Some (SCGI_OK, ctx1, es') \<and> scgi_parse_header ctx1 = (SCGI_OK, ctx2)
    \<and> all_headers k ctx2 no_header = Some (SCGI_OK, kvs) \<and> rest_bytes ctx2 @ arriving es' = body"
proof -
  let ?h = "header_block kvs"
  obtain b0 where b0: "buf_init ok (min DFL_HDRBUF maxhdrsz) = Some b0" and ctx: "sc_buf ctx = b0" "sc_flags ctx = 0"
      "sc_maxhdrsz ctx = maxhdrsz" "sc_hdr ctx = None"
    using init by (auto simp: scgi_init_def split: option.splits)
  have "min DFL_HDRBUF maxhdrsz \<le> DFL_HDRBUF" by (rule min.cobounded1)
  then have "unat (min DFL_HDRBUF maxhdrsz) \<le> unat DFL_HDRBUF" by (simp only: word_le_nat_alt)
  then have "unat (min DFL_HDRBUF maxhdrsz) < 2 ^ 63" by (simp add: DFL_HDRBUF_def)
  from ab this have wf0: "buf_wf ok b0 \<and> buf_contents b0 = []" by (cases rule: buf_init_cases) (use b0 in auto)
  have "reading ok ctx es ?h body"
    using wf0 ctx arr quiet mem max small by (simp add: reading_def)
  from read_header_reads [OF this ctx(2) n(1)] obtain b es' got where
    r: "read_header_n n ok ctx es = Some (SCGI_OK,
        ctx\<lparr>sc_buf := b, sc_nextoff := of_nat (length (netstring_of ?h)), sc_flags := SCGIF_HAS_HEADER\<rparr>, es')"
      "buf_wf ok b" "buf_contents b = netstring_of ?h @ got" "got @ arriving es' = body" by blast
  let ?c = "ctx\<lparr>sc_buf := b, sc_nextoff := of_nat (length (netstring_of ?h)), sc_flags := SCGIF_HAS_HEADER\<rparr>"
  have "length (netstring_of ?h @ got) < ns_limit" using small arr r(4) by auto
  from parse_header_block [OF r(2,3) this, of ?c] ctx(4) obtain ctx2 post where
    p: "scgi_parse_header ?c = (SCGI_OK, ctx2)" "sc_hdrlen ctx2 = length ?h"
      "sc_hdr ctx2 = Some (length (dec_digits (length ?h) @ '':''))"
      "mem (sc_buf ctx2) = (dec_digits (length ?h) @ '':'') @ ?h @ [NUL] @ post" "rest_bytes ctx2 = got" by auto
  have "all_headers k ctx2 no_header = Some (SCGI_OK, kvs)"
    by (rule all_headers_block [OF p(3) _ p(4) refl kvs]) (simp_all add: starts_def no_header_def p(2) n(2))
  with r(1,4) p(1,5) show ?thesis by blast
qed

theorem scgi_request_read_witness:
  "\<exists>ctx ctx1 es' ctx2. scgi_init tib_alloc 3 1048576 = Inr ctx
     \<and> read_header_n 5 tib_alloc ctx [Data ''13:A'', RErrno EAGAIN, Data ([NUL] @ ''1'' @ [NUL] @ ''BC'' @ [NUL] @ ''2 3 4'' @ [NUL] @ '',bo''), Data ''dy'']
         = Some (SCGI_OK, ctx1, es') \<and> scgi_parse_header ctx1 = (SCGI_OK, ctx2)
     \<and> all_headers 3 ctx2 no_header = Some (SCGI_OK, [(''A'', ''1''), (''BC'', ''2 3 4'')]) \<and> rest_bytes ctx2 @ arriving es' = ''body''"
proof -
  let ?es = "[Data ''13:A'', RErrno EAGAIN, Data ([NUL] @ ''1'' @ [NUL] @ ''BC'' @ [NUL] @ ''2 3 4'' @ [NUL] @ '',bo''), Data ''dy'']"
  let ?kvs = "[(''A'', ''1''), (''BC'', ''2 3 4'')]"
  obtain ctx where ctx: "scgi_init tib_alloc 3 1048576 = Inr ctx"
    by (simp add: scgi_init_def buf_init_def Let_def DFL_HDRBUF_def tib_alloc_def buf_align_offset_def BUF_ALIGNMENT_def min_def)
  have arr: "arriving ?es = netstring_of (header_block ?kvs) @ ''body''" by code_simp
  have len: "length (arriving ?es) = 21" by simp
  have "\<exists>ctx1 es' ctx2. read_header_n 5 tib_alloc ctx ?es = Some (SCGI_OK, ctx1, es') \<and> scgi_parse_header ctx1 = (SCGI_OK, ctx2)
      \<and> all_headers 3 ctx2 no_header = Some (SCGI_OK, ?kvs) \<and> rest_bytes ctx2 @ arriving es' = ''body''"
  proof (rule scgi_request_read [OF ctx tib_alloc_bounded arr])
    show "quiet ?es" by (simp add: would_block_def)
    show "\<forall>kv\<in>set ?kvs. field_ok kv" by (simp add: field_ok_def)
    show "\<not> refuses tib_alloc (length (arriving ?es) + 256)" by (intro tib_alloc_grants) (simp only: len, simp)
    show "length (arriving ?es) < unat (1048576 :: size_t)" "length (arriving ?es) < ns_limit" by (simp_all only: len, simp_all add: ns_limit_def)
  qed simp_all
  with ctx show ?thesis by blast
qed

text \<open>
  After a header is parsed, a NUL byte lies behind it: asking for a field stays inside of the buffer, whatever
  the header contains.
\<close>

theorem scgi_next_header_safe:
  assumes "sc_hdr ctx = Some hdr" and "hdr + sc_hdrlen ctx < length (mem (sc_buf ctx))" and "mem (sc_buf ctx) ! (hdr + sc_hdrlen ctx) = NUL"
  shows "\<exists>r h'. scgi_get_next_header ctx h = Some (r, h')"
proof -
  have str: "\<exists>n. strlen_at (mem (sc_buf ctx)) s = Some n" if "s \<le> hdr + sc_hdrlen ctx" for s
  proof -
    have "NUL = drop s (mem (sc_buf ctx)) ! (hdr + sc_hdrlen ctx - s)" using that assms(2,3) by simp
    then have "NUL \<in> set (drop s (mem (sc_buf ctx)))" using that assms(2) by (metis diff_less_mono length_drop nth_mem)
    then show ?thesis by (simp add: strlen_at_def)
  qed
  have "\<exists>r h'. do {
        len \<leftarrow> strlen_at (mem (sc_buf ctx)) s;
        if len = 0 then Some (SCGI_OK, h)
        else if s + len + 1 \<ge> hdr + sc_hdrlen ctx then Some (SCGI_EPARSE, h\<lparr>hd_key := s, hd_keylen := len\<rparr>)
        else do {
          vlen \<leftarrow> strlen_at (mem (sc_buf ctx)) (s + len + 1);
          Some (SCGI_AGAIN, h\<lparr>hd_key := s, hd_keylen := len, hd_value := Some (s + len + 1), hd_valuelen := vlen\<rparr>)
        }
      } = Some (r, h')" if le: "s \<le> hdr + sc_hdrlen ctx" for s
  proof -
    obtain len where len: "strlen_at (mem (sc_buf ctx)) s = Some len" using str [OF le] by blast
    show ?thesis
    proof (cases "s + len + 1 \<ge> hdr + sc_hdrlen ctx")
      case False
      then obtain vlen where "strlen_at (mem (sc_buf ctx)) (s + len + 1) = Some vlen" using str [of "s + len + 1"] by auto
      with len False show ?thesis by auto
    qed (use len in auto)
  qed
  then show ?thesis
    unfolding scgi_get_next_header_def Let_def using assms(1) by (auto split: option.splits if_splits)
qed

end
