(* ===== verification/Vulnspec_Reader.thy ===== *)
theory Vulnspec_Reader
  imports Buf Vulnspec_Interp
begin

text \<open>
  The reader of vulnerability specifications, \<^verbatim>\<open>lib/vulnspec/reader.c\<close>: tokens of a text file. The file
  is what is left to read of it. \<^const>\<open>Fault\<close> is an overflow of a signed number or a store outside of a
  buffer.
\<close>

section \<open>Data\<close>

datatype vulnspec_token = VULNSPEC_TINVALID | VULNSPEC_TEOF | VULNSPEC_TLPAREN | VULNSPEC_TRPAREN | VULNSPEC_TSTRING
  | VULNSPEC_TLONG | VULNSPEC_TDOUBLE | VULNSPEC_TSYMBOL

text \<open>The union of a \<open>long\<close> and a \<open>double\<close>; the \<open>double\<close> is the quotient of two integers.\<close>

datatype vulnspec_num = Ival int | Dval int int

record vulnspec_reader =
  vr_symbol :: bytes
  vr_input :: bytes
  vr_row :: size_t
  vr_col :: size_t
  vr_lastcol :: size_t
  vr_sval :: buf_t
  vr_num :: vulnspec_num

definition symbol_size :: nat where "symbol_size = 32"

section \<open>Operations\<close>

definition vm_getc :: "vulnspec_reader \<Rightarrow> byte option \<times> vulnspec_reader" where
  "vm_getc r =
     (case vr_input r of
        [] \<Rightarrow> (None, r)
      | ch # rest \<Rightarrow>
          (Some ch,
           if ch = CHR 0x0A then r\<lparr>vr_input := rest, vr_row := vr_row r + 1, vr_lastcol := vr_col r, vr_col := 0\<rparr>
           else r\<lparr>vr_input := rest, vr_col := vr_col r + 1\<rparr>))"

definition vm_ungetc :: "vulnspec_reader \<Rightarrow> byte \<Rightarrow> vulnspec_reader" where
  "vm_ungetc r ch =
     (if vr_col r = 0 then r\<lparr>vr_input := ch # vr_input r, vr_col := vr_lastcol r, vr_row := vr_row r - 1\<rparr>
      else r\<lparr>vr_input := ch # vr_input r, vr_col := vr_col r - 1\<rparr>)"

lemma vm_getc_shorter: "(Some ch, r') = vm_getc r \<Longrightarrow> length (vr_input r') < length (vr_input r)"
  by (auto simp: vm_getc_def split: list.splits if_splits)

text \<open>The loop of \<open>read_number\<close>: the number and its divisor, or None for an invalid number\<close>

function number_loop :: "vulnspec_reader \<Rightarrow> int \<Rightarrow> int \<Rightarrow> ((int \<times> int) option \<times> vulnspec_reader) run" where
  "number_loop r ival fpdiv =
     (case vm_getc r of
        (None, r') \<Rightarrow> Done (Some (ival, fpdiv), r')
      | (Some ch, r') \<Rightarrow>
          if ch \<noteq> CHR ''.'' \<and> \<not> is_digit ch then Done (Some (ival, fpdiv), vm_ungetc r' ch)
          else let fpdiv = fpdiv * 10 in
            if 2 ^ 31 \<le> fpdiv then Fault
            else if ch = CHR ''.'' then if fpdiv \<noteq> 0 then Done (None, r') else number_loop r' ival 1
            else let tmp = ival * 10 + int (digit_val ch) in
              if 2 ^ 63 \<le> tmp then Fault
              else if tmp < ival then Done (None, r')
              else number_loop r' tmp fpdiv)"
  by pat_completeness auto
termination
  by (relation "measure (\<lambda>(r, ival, fpdiv). length (vr_input r))") (auto dest: vm_getc_shorter)

declare number_loop.simps [simp del]

definition read_number :: "vulnspec_reader \<Rightarrow> byte \<Rightarrow> (vulnspec_token \<times> vulnspec_reader) run" where
  "read_number r first =
     (let ival = (if is_digit first then int (digit_val first) else 0);
          negate = (\<not> is_digit first \<and> first = CHR ''-'');
          fpdiv = (if first = CHR ''.'' then 1 else 0)
      in andThen (number_loop r ival fpdiv) (\<lambda>(n, r).
           case n of
             None \<Rightarrow> Done (VULNSPEC_TINVALID, r)
           | Some (ival, fpdiv) \<Rightarrow>
               let ival = (if negate then - ival else ival)
               in if fpdiv \<noteq> 0 then Done (VULNSPEC_TDOUBLE, r\<lparr>vr_num := Dval ival fpdiv\<rparr>)
                  else Done (VULNSPEC_TLONG, r\<lparr>vr_num := Ival ival\<rparr>)))"

text \<open>Characters are appended to the string without looking at the result.\<close>

definition sval_achar :: "allocator \<Rightarrow> vulnspec_reader \<Rightarrow> byte \<Rightarrow> vulnspec_reader run" where
  "sval_achar ok r ch =
     (case buf_achar ok (vr_sval r) ch of None \<Rightarrow> Fault | Some (_, b) \<Rightarrow> Done (r\<lparr>vr_sval := b\<rparr>))"

fun string_loop :: "nat \<Rightarrow> allocator \<Rightarrow> vulnspec_reader \<Rightarrow> (vulnspec_token \<times> vulnspec_reader) run" where
  "string_loop 0 ok r = Timeout"
| "string_loop (Suc n) ok r =
     (case vm_getc r of
        (None, r) \<Rightarrow> Done (VULNSPEC_TINVALID, r)
      | (Some ch, r) \<Rightarrow>
          if ch = CHR 0x22 then andThen (sval_achar ok r NUL) (\<lambda>r. Done (VULNSPEC_TSTRING, r))
          else if ch = CHR 0x5C then
            (case vm_getc r of
               (None, r) \<Rightarrow> Done (VULNSPEC_TINVALID, r)
             | (Some ch, r) \<Rightarrow> andThen (sval_achar ok r ch) (string_loop n ok))
          else andThen (sval_achar ok r ch) (string_loop n ok))"

text \<open>Every round takes a character, so the length of the input is enough fuel.\<close>

definition read_string :: "allocator \<Rightarrow> vulnspec_reader \<Rightarrow> (vulnspec_token \<times> vulnspec_reader) run" where
  "read_string ok r = string_loop (Suc (length (vr_input r))) ok (r\<lparr>vr_sval := buf_clear (vr_sval r)\<rparr>)"

definition ends_symbol :: "byte \<Rightarrow> bool" where
  "ends_symbol ch \<longleftrightarrow> ch \<in> {CHR ''('', CHR '')'', CHR '' '', CHR 0x0D, CHR 0x0A, CHR 0x09}"

text \<open>The symbol that has been read so far is \<open>acc\<close>.\<close>

function symbol_loop :: "vulnspec_reader \<Rightarrow> bytes \<Rightarrow> vulnspec_token \<times> vulnspec_reader" where
  "symbol_loop r acc =
     (case vm_getc r of
        (None, r') \<Rightarrow> (VULNSPEC_TSYMBOL, r'\<lparr>vr_symbol := acc\<rparr>)
      | (Some ch, r') \<Rightarrow>
          if ends_symbol ch then (VULNSPEC_TSYMBOL, (vm_ungetc r' ch)\<lparr>vr_symbol := acc\<rparr>)
          else if length acc + 1 \<ge> symbol_size - 1 then (VULNSPEC_TINVALID, r'\<lparr>vr_symbol := acc @ [ch]\<rparr>)
          else symbol_loop r' (acc @ [ch]))"
  by pat_completeness auto
termination
  by (relation "measure (\<lambda>(r, acc). length (vr_input r))") (auto dest: vm_getc_shorter)

declare symbol_loop.simps [simp del]

definition read_symbol :: "vulnspec_reader \<Rightarrow> vulnspec_token \<times> vulnspec_reader" where
  "read_symbol r = symbol_loop r []"

definition vulnspec_reader_init :: "allocator \<Rightarrow> bytes \<Rightarrow> vulnspec_reader" where
  "vulnspec_reader_init ok input =
     \<lparr>vr_symbol = [], vr_input = input, vr_row = 0, vr_col = 0, vr_lastcol = 0,
       vr_sval = (case buf_init ok 8192 of None \<Rightarrow> buf_zero | Some b \<Rightarrow> b), vr_num = Ival 0\<rparr>"

definition vulnspec_reader_cleanup :: "vulnspec_reader \<Rightarrow> vulnspec_reader" where
  "vulnspec_reader_cleanup r = r\<lparr>vr_sval := buf_cleanup (vr_sval r)\<rparr>"

definition is_space :: "byte \<Rightarrow> bool" where
  "is_space ch \<longleftrightarrow> ch \<in> {CHR '' '', CHR 0x09, CHR 0x0D, CHR 0x0A}"

function vulnspec_read_token :: "allocator \<Rightarrow> vulnspec_reader \<Rightarrow> (vulnspec_token \<times> vulnspec_reader) run" where
  "vulnspec_read_token ok r =
     (case vm_getc r of
        (None, r') \<Rightarrow> Done (VULNSPEC_TEOF, r')
      | (Some ch, r') \<Rightarrow>
          if is_space ch then vulnspec_read_token ok r'
          else if ch = CHR ''('' then Done (VULNSPEC_TLPAREN, r')
          else if ch = CHR '')'' then Done (VULNSPEC_TRPAREN, r')
          else if ch = CHR ''.'' \<or> ch = CHR ''-'' \<or> is_digit ch then read_number r' ch
          else if ch = CHR 0x22 then read_string ok r'
          else Done (read_symbol (vm_ungetc r' ch)))"
  by pat_completeness auto
termination
  by (relation "measure (\<lambda>(ok, r). length (vr_input r))") (auto dest: vm_getc_shorter)

declare vulnspec_read_token.simps [simp del]

text \<open>The string of the last token and its length\<close>

definition vulnspec_reader_string :: "vulnspec_reader \<Rightarrow> bytes \<times> nat" where
  "vulnspec_reader_string r =
     (if buf_len (vr_sval r) > 0 then (buf_contents (vr_sval r), unat (buf_len (vr_sval r)) - 1) else ([NUL], 0))"

definition vulnspec_token2str :: "vulnspec_token \<Rightarrow> bytes" where
  "vulnspec_token2str t =
     (case t of VULNSPEC_TINVALID \<Rightarrow> ''VULNSPEC_TINVALID'' | VULNSPEC_TEOF \<Rightarrow> ''VULNSPEC_TEOF''
      | VULNSPEC_TLPAREN \<Rightarrow> ''VULNSPEC_TLPAREN'' | VULNSPEC_TRPAREN \<Rightarrow> ''VULNSPEC_TRPAREN''
      | VULNSPEC_TSTRING \<Rightarrow> ''VULNSPEC_TSTRING'' | VULNSPEC_TLONG \<Rightarrow> ''VULNSPEC_TLONG''
      | VULNSPEC_TDOUBLE \<Rightarrow> ''VULNSPEC_TDOUBLE'' | VULNSPEC_TSYMBOL \<Rightarrow> ''VULNSPEC_TSYMBOL'')"

section \<open>The text of tokens\<close>

text \<open>
  What a specification is written with: parentheses, strings, decimal fractions and symbols. In a
  string, quotes and backslashes are escaped. Between tokens there may be white space; a symbol ends
  before white space, a parenthesis or the end, and a number before anything that does not continue it.
\<close>

datatype tok = LP | RP | Str bytes | Dbl bytes bytes | Sym bytes

fun escape :: "bytes \<Rightarrow> bytes" where
  "escape [] = []"
| "escape (c # s) = (if c = CHR 0x22 \<or> c = CHR 0x5C then [CHR 0x5C, c] else [c]) @ escape s"

fun tok_text :: "tok \<Rightarrow> bytes" where
  "tok_text LP = ''(''"
| "tok_text RP = '')''"
| "tok_text (Str s) = CHR 0x22 # escape s @ [CHR 0x22]"
| "tok_text (Dbl a b) = a @ CHR ''.'' # b"
| "tok_text (Sym s) = s"

definition in_number :: "byte \<Rightarrow> bool" where
  "in_number c \<longleftrightarrow> c = CHR ''.'' \<or> is_digit c"

definition symbol_char :: "byte \<Rightarrow> bool" where
  "symbol_char c \<longleftrightarrow> \<not> ends_symbol c"

definition symbol_start :: "byte \<Rightarrow> bool" where
  "symbol_start c \<longleftrightarrow> symbol_char c \<and> \<not> in_number c \<and> c \<noteq> CHR ''-'' \<and> c \<noteq> CHR 0x22"

fun tok_ok :: "tok \<Rightarrow> bool" where
  "tok_ok (Dbl a b) \<longleftrightarrow> a \<noteq> [] \<and> (\<forall>c \<in> set (a @ b). is_digit c) \<and> length b \<le> 9 \<and> dec_value (a @ b) < 2 ^ 63"
| "tok_ok (Sym s) \<longleftrightarrow> s \<noteq> [] \<and> symbol_start (hd s) \<and> (\<forall>c \<in> set s. symbol_char c) \<and> length s < 31"
| "tok_ok _ \<longleftrightarrow> True"

fun may_follow :: "tok \<Rightarrow> bytes \<Rightarrow> bool" where
  "may_follow (Dbl a b) rest \<longleftrightarrow> rest = [] \<or> \<not> in_number (hd rest)"
| "may_follow (Sym s) rest \<longleftrightarrow> rest = [] \<or> ends_symbol (hd rest)"
| "may_follow _ rest \<longleftrightarrow> True"

inductive spells :: "tok list \<Rightarrow> bytes \<Rightarrow> bool" where
  spells_Nil: "\<forall>c \<in> set ws. is_space c \<Longrightarrow> spells [] ws"
| spells_Cons: "\<lbrakk>\<forall>c \<in> set ws. is_space c; tok_ok t; may_follow t rest; spells ts rest\<rbrakk>
    \<Longrightarrow> spells (t # ts) (ws @ tok_text t @ rest)"

inductive_cases spells_ConsE: "spells (t # ts) txt"
inductive_cases spells_NilE: "spells [] txt"

section \<open>Reading characters\<close>

lemma vm_getc_Nil: "vr_input r = [] \<Longrightarrow> vm_getc r = (None, r)"
  by (simp add: vm_getc_def)

text \<open>What a token is read from and into: everything but the position\<close>

definition moved :: "vulnspec_reader \<Rightarrow> bytes \<Rightarrow> vulnspec_reader \<Rightarrow> bool" where
  "moved r rest r' \<longleftrightarrow> vr_input r' = rest \<and> vr_sval r' = vr_sval r"

lemma vm_getc_Cons:
  assumes "vr_input r = c # rest"
  obtains r' where "vm_getc r = (Some c, r')" "moved r rest r'"
  using assms by (auto simp: vm_getc_def moved_def)

lemma vm_ungetc_moved: "moved r rest r' \<Longrightarrow> moved r (c # rest) (vm_ungetc r' c)"
  by (simp add: vm_ungetc_def moved_def)

lemma moved_trans: "moved r rest r' \<Longrightarrow> moved r' rest' r'' \<Longrightarrow> moved r rest' r''"
  by (simp add: moved_def)

lemma moved_input: "moved r rest r' \<Longrightarrow> vr_input r' = rest"
  by (simp add: moved_def)

lemma moved_refl: "moved r (vr_input r) r"
  by (simp add: moved_def)

section \<open>Numbers\<close>

lemma dec_value_append: "dec_value (a @ b) = dec_value a * 10 ^ length b + dec_value b"
  by (induction b rule: rev_induct) (simp_all add: append_assoc [symmetric] algebra_simps del: append_assoc)

lemma dec_value_Cons: "dec_value (c # b) = digit_val c * 10 ^ length b + dec_value b"
  using dec_value_append [of "[c]" b] dec_value_snoc [of "[]" c] by simp

lemma number_loop_digits:
  assumes "vr_input r = ds @ rest" "\<forall>c \<in> set ds. is_digit c" "0 \<le> ival" "0 \<le> fpdiv" "fpdiv * 10 ^ length ds < 2 ^ 31"
    and "ival * 10 ^ length ds + int (dec_value ds) < 2 ^ 63"
  shows "\<exists>r'. number_loop r ival fpdiv
      = number_loop r' (ival * 10 ^ length ds + int (dec_value ds)) (fpdiv * 10 ^ length ds) \<and> moved r rest r'"
  using assms
proof (induction ds arbitrary: r ival fpdiv)
  case Nil
  then show ?case using moved_refl [of r] by auto
next
  case (Cons c ds)
  obtain r1 where r1: "vm_getc r = (Some c, r1)" "moved r (ds @ rest) r1"
    using vm_getc_Cons [of r c "ds @ rest"] Cons.prems(1) by auto
  have c: "is_digit c" "c \<noteq> CHR ''.''" using Cons.prems(2) by (auto simp: is_digit_def)
  let ?v = "ival * 10 + int (digit_val c)"
  have e: "?v * 10 ^ length ds + int (dec_value ds) = ival * 10 ^ length (c # ds) + int (dec_value (c # ds))"
    by (simp add: dec_value_Cons algebra_simps)
  have pow: "1 \<le> (10::int) ^ length ds" by simp
  have "?v \<le> ?v * 10 ^ length ds"
    using Cons.prems(3) mult_left_mono [OF pow, of ?v] by simp
  then have v: "?v < 2 ^ 63" using e Cons.prems(6) by linarith
  have "fpdiv * 10 \<le> fpdiv * 10 * 10 ^ length ds"
    using Cons.prems(4) mult_left_mono [OF pow, of "fpdiv * 10"] by simp
  then have f: "fpdiv * 10 < 2 ^ 31" using Cons.prems(5) by (simp add: algebra_simps)
  have "\<not> ?v < ival" using Cons.prems(3) by linarith
  then have step: "number_loop r ival fpdiv = number_loop r1 ?v (fpdiv * 10)"
    using r1(1) c v f by (subst number_loop.simps) (simp add: Let_def)
  obtain r' where "number_loop r1 ?v (fpdiv * 10)
      = number_loop r' (?v * 10 ^ length ds + int (dec_value ds)) (fpdiv * 10 * 10 ^ length ds)" "moved r1 rest r'"
    using Cons.IH [of r1 ?v "fpdiv * 10"] moved_input [OF r1(2)] Cons.prems e by (auto simp: algebra_simps)
  moreover have "fpdiv * 10 * 10 ^ length ds = fpdiv * 10 ^ length (c # ds)" by simp
  ultimately show ?case using moved_trans [OF r1(2)] unfolding step e by metis
qed

lemma number_loop_end:
  assumes "vr_input r = rest" "rest = [] \<or> \<not> in_number (hd rest)"
  shows "\<exists>r'. number_loop r ival fpdiv = Done (Some (ival, fpdiv), r') \<and> moved r rest r'"
proof (cases rest)
  case Nil
  then show ?thesis using assms(1) moved_refl [of r] by (subst number_loop.simps) (auto simp: vm_getc_Nil)
next
  case (Cons c rest')
  then obtain r1 where r1: "vm_getc r = (Some c, r1)" "moved r rest' r1"
    using vm_getc_Cons [of r c rest'] assms(1) by auto
  have "c \<noteq> CHR ''.''" "\<not> is_digit c" using assms(2) Cons by (auto simp: in_number_def)
  then have "number_loop r ival fpdiv = Done (Some (ival, fpdiv), vm_ungetc r1 c)"
    using r1(1) by (subst number_loop.simps) simp
  then show ?thesis using vm_ungetc_moved [OF r1(2), of c] Cons by blast
qed

lemma read_number_double:
  assumes "vr_input r = a @ CHR ''.'' # b @ rest" "tok_ok (Dbl (c # a) b)" "may_follow (Dbl (c # a) b) rest"
  shows "\<exists>r'. read_number r c = Done (VULNSPEC_TDOUBLE, r') \<and> moved r rest r'
      \<and> vr_num r' = Dval (int (dec_value (c # a @ b))) (10 ^ length b)"
proof -
  have d: "\<forall>x \<in> set a. is_digit x" "\<forall>x \<in> set b. is_digit x" "is_digit c" "length b \<le> 9"
    and v: "dec_value (c # a @ b) < 2 ^ 63" using assms(2) by auto
  let ?x = "int (digit_val c)"
  have va: "?x * 10 ^ length a + int (dec_value a) = int (dec_value (c # a))" by (simp add: dec_value_Cons)
  have vb: "int (dec_value (c # a)) * 10 ^ length b + int (dec_value b) = int (dec_value (c # a @ b))"
    using dec_value_append [of "c # a" b] by simp
  have "dec_value (c # a) * 1 \<le> dec_value (c # a) * 10 ^ length b" by (rule mult_le_mono2) simp
  then have le: "int (dec_value (c # a)) \<le> int (dec_value (c # a @ b))"
    using dec_value_append [of "c # a" b] unfolding append_Cons by linarith
  obtain r1 where r1: "number_loop r ?x 0 = number_loop r1 (int (dec_value (c # a))) 0" "moved r (CHR ''.'' # b @ rest) r1"
    using number_loop_digits [of r a "CHR ''.'' # b @ rest" ?x 0] assms(1) d(1) va le v by auto
  obtain r2 where r2: "vm_getc r1 = (Some (CHR ''.''), r2)" "moved r1 (b @ rest) r2"
    using vm_getc_Cons [of r1 "CHR ''.''"] moved_input [OF r1(2)] by blast
  have dot: "number_loop r1 (int (dec_value (c # a))) 0 = number_loop r2 (int (dec_value (c # a))) 1"
    using r2(1) by (subst number_loop.simps) simp
  have "(10::int) ^ length b \<le> 10 ^ 9" using d(4) by (intro power_increasing) simp_all
  then have p: "1 * (10::int) ^ length b < 2 ^ 31" by simp
  obtain r3 where r3: "number_loop r2 (int (dec_value (c # a))) 1
      = number_loop r3 (int (dec_value (c # a @ b))) (10 ^ length b)" "moved r2 rest r3"
    using number_loop_digits [of r2 b rest "int (dec_value (c # a))" 1] moved_input [OF r2(2)] d(2) p v
    unfolding vb by auto
  obtain r4 where r4: "number_loop r3 (int (dec_value (c # a @ b))) (10 ^ length b)
      = Done (Some (int (dec_value (c # a @ b)), 10 ^ length b), r4)" "moved r3 rest r4"
    using number_loop_end [of r3 rest] moved_input [OF r3(2)] assms(3) by auto
  have m: "moved r rest r4"
    using moved_trans [OF moved_trans [OF moved_trans [OF r1(2) r2(2)] r3(2)] r4(2)] .
  have "c \<noteq> CHR ''.''" using d(3) by (auto simp: is_digit_def)
  then have "read_number r c = Done (VULNSPEC_TDOUBLE, r4\<lparr>vr_num := Dval (int (dec_value (c # a @ b))) (10 ^ length b)\<rparr>)"
    using d(3) r1(1) dot r3(1) r4(1) by (simp add: read_number_def Let_def)
  then show ?thesis using m by (auto simp: moved_def)
qed

section \<open>Strings and symbols\<close>

lemma string_loop_reads:
  assumes "vr_input r = escape s @ CHR 0x22 # rest" "length (escape s) < n" "buf_wf ok (vr_sval r)"
    and "\<not> refuses ok (length (buf_contents (vr_sval r)) + length s + 1)"
  shows "\<exists>r'. string_loop n ok r = Done (VULNSPEC_TSTRING, r') \<and> vr_input r' = rest \<and> buf_wf ok (vr_sval r')
      \<and> buf_contents (vr_sval r') = buf_contents (vr_sval r) @ s @ [NUL]"
  using assms
proof (induction s arbitrary: r n)
  case Nil
  then obtain m where n: "n = Suc m" by (cases n) auto
  obtain r1 where r1: "vm_getc r = (Some (CHR 0x22), r1)" "moved r rest r1"
    using vm_getc_Cons [of r "CHR 0x22" rest] Nil.prems(1) by auto
  have sv: "vr_sval r1 = vr_sval r" "vr_input r1 = rest" using r1(2) by (simp_all add: moved_def)
  obtain b where b: "buf_achar ok (vr_sval r) NUL = Some (0, b)" "buf_wf ok b"
    "buf_contents b = buf_contents (vr_sval r) @ [NUL]"
    using buf_achar_granted [OF Nil.prems(3), of NUL] Nil.prems(4) by auto
  then show ?case using r1(1) sv by (simp add: n sval_achar_def)
next
  case (Cons c s)
  then obtain m where n: "n = Suc m" "length (escape s) < m" by (cases n) (auto split: if_splits)
  obtain r2 where r2: "moved r (escape s @ CHR 0x22 # rest) r2"
    and step: "string_loop n ok r = andThen (sval_achar ok r2 c) (string_loop m ok)"
  proof (cases "c = CHR 0x22 \<or> c = CHR 0x5C")
    case True
    then have i: "vr_input r = CHR 0x5C # c # escape s @ CHR 0x22 # rest" using Cons.prems(1) by simp
    obtain r1 where r1: "vm_getc r = (Some (CHR 0x5C), r1)" "moved r (c # escape s @ CHR 0x22 # rest) r1"
      using vm_getc_Cons [OF i] by blast
    obtain r2 where r2: "vm_getc r1 = (Some c, r2)" "moved r1 (escape s @ CHR 0x22 # rest) r2"
      using vm_getc_Cons [OF moved_input [OF r1(2)]] by blast
    show ?thesis using r1(1) r2(1) by (intro that [OF moved_trans [OF r1(2) r2(2)]]) (simp add: n)
  next
    case False
    then have i: "vr_input r = c # escape s @ CHR 0x22 # rest" using Cons.prems(1) by simp
    obtain r1 where r1: "vm_getc r = (Some c, r1)" "moved r (escape s @ CHR 0x22 # rest) r1"
      using vm_getc_Cons [OF i] by blast
    show ?thesis using r1(1) False by (intro that [OF r1(2)]) (simp add: n)
  qed
  have sv: "vr_sval r2 = vr_sval r" "vr_input r2 = escape s @ CHR 0x22 # rest" using r2 by (simp_all add: moved_def)
  have "\<not> refuses ok (length (buf_contents (vr_sval r)) + 1)" using not_refuses_mono [OF Cons.prems(4)] by simp
  then obtain b where b: "buf_achar ok (vr_sval r) c = Some (0, b)" "buf_wf ok b"
    "buf_contents b = buf_contents (vr_sval r) @ [c]"
    using buf_achar_granted [OF Cons.prems(3)] by blast
  have "string_loop n ok r = string_loop m ok (r2\<lparr>vr_sval := b\<rparr>)"
    using step b(1) sv(1) by (simp add: sval_achar_def)
  moreover have "\<exists>r'. string_loop m ok (r2\<lparr>vr_sval := b\<rparr>) = Done (VULNSPEC_TSTRING, r') \<and> vr_input r' = rest \<and> buf_wf ok (vr_sval r')
      \<and> buf_contents (vr_sval r') = buf_contents b @ s @ [NUL]"
    using Cons.IH [of "r2\<lparr>vr_sval := b\<rparr>" m] sv(2) n(2) b(2,3) Cons.prems(4) by simp
  ultimately show ?case using b(3) by simp
qed

lemma symbol_loop_reads:
  assumes "vr_input r = s @ rest" "\<forall>c \<in> set s. symbol_char c" "rest = [] \<or> ends_symbol (hd rest)" "length (acc @ s) < 31"
  shows "\<exists>r'. symbol_loop r acc = (VULNSPEC_TSYMBOL, r') \<and> moved r rest r' \<and> vr_symbol r' = acc @ s"
  using assms
proof (induction s arbitrary: r acc)
  case Nil
  show ?case
  proof (cases rest)
    case Nil': Nil
    then show ?thesis
      using Nil.prems(1) by (subst symbol_loop.simps) (auto simp: vm_getc_Nil moved_def)
  next
    case (Cons c rest')
    then obtain r1 where r1: "vm_getc r = (Some c, r1)" "moved r rest' r1"
      using vm_getc_Cons [of r c rest'] Nil.prems(1) by auto
    have "symbol_loop r acc = (VULNSPEC_TSYMBOL, (vm_ungetc r1 c)\<lparr>vr_symbol := acc\<rparr>)"
      using r1(1) Nil.prems(3) Cons by (subst symbol_loop.simps) simp
    then show ?thesis using vm_ungetc_moved [OF r1(2), of c] Cons by (auto simp: moved_def)
  qed
next
  case (Cons c s)
  obtain r1 where r1: "vm_getc r = (Some c, r1)" "moved r (s @ rest) r1"
    using vm_getc_Cons [of r c "s @ rest"] Cons.prems(1) by auto
  have "\<not> ends_symbol c" using Cons.prems(2) by (simp add: symbol_char_def)
  moreover have "\<not> length acc + 1 \<ge> symbol_size - 1" using Cons.prems(4) by (simp add: symbol_size_def)
  ultimately have step: "symbol_loop r acc = symbol_loop r1 (acc @ [c])"
    using r1(1) by (subst symbol_loop.simps) simp
  obtain r' where "symbol_loop r1 (acc @ [c]) = (VULNSPEC_TSYMBOL, r')" "moved r1 rest r'" "vr_symbol r' = acc @ c # s"
    using Cons.IH [of r1 "acc @ [c]"] moved_input [OF r1(2)] Cons.prems by auto
  then show ?case using step moved_trans [OF r1(2)] by auto
qed

section \<open>Tokens\<close>

fun tok_kind :: "tok \<Rightarrow> vulnspec_token" where
  "tok_kind LP = VULNSPEC_TLPAREN"
| "tok_kind RP = VULNSPEC_TRPAREN"
| "tok_kind (Str s) = VULNSPEC_TSTRING"
| "tok_kind (Dbl a b) = VULNSPEC_TDOUBLE"
| "tok_kind (Sym s) = VULNSPEC_TSYMBOL"

text \<open>What the reader holds after a token\<close>

fun tok_value :: "tok \<Rightarrow> vulnspec_reader \<Rightarrow> bool" where
  "tok_value (Str s) r \<longleftrightarrow> buf_contents (vr_sval r) = s @ [NUL]"
| "tok_value (Dbl a b) r \<longleftrightarrow> vr_num r = Dval (int (dec_value (a @ b))) (10 ^ length b)"
| "tok_value (Sym s) r \<longleftrightarrow> vr_symbol r = s"
| "tok_value _ r \<longleftrightarrow> True"

fun str_size :: "tok \<Rightarrow> nat" where
  "str_size (Str s) = length s + 1"
| "str_size _ = 0"

lemma skip_space:
  assumes "vr_input r = ws @ rest" "\<forall>c \<in> set ws. is_space c"
  shows "\<exists>r'. vulnspec_read_token ok r = vulnspec_read_token ok r' \<and> moved r rest r'"
  using assms
proof (induction ws arbitrary: r)
  case Nil
  then show ?case using moved_refl [of r] by auto
next
  case (Cons c ws)
  obtain r1 where r1: "vm_getc r = (Some c, r1)" "moved r (ws @ rest) r1"
    using vm_getc_Cons [of r c "ws @ rest"] Cons.prems(1) by auto
  have "vulnspec_read_token ok r = vulnspec_read_token ok r1"
    using r1(1) Cons.prems(2) by (subst vulnspec_read_token.simps) simp
  then show ?case using Cons.IH [of r1] moved_input [OF r1(2)] Cons.prems(2) moved_trans [OF r1(2)] by auto
qed

lemma read_token_at:
  assumes i: "vr_input r = tok_text t @ rest" and t: "tok_ok t" "may_follow t rest"
    and wf: "buf_wf ok (vr_sval r)" and g: "\<not> refuses ok (str_size t)"
  shows "\<exists>r'. vulnspec_read_token ok r = Done (tok_kind t, r') \<and> vr_input r' = rest \<and> buf_wf ok (vr_sval r')
    \<and> tok_value t r'"
proof (cases t)
  case LP
  then obtain r1 where r1: "vm_getc r = (Some (CHR ''(''), r1)" "moved r rest r1"
    using vm_getc_Cons [of r "CHR ''(''" rest] i by auto
  then have "vulnspec_read_token ok r = Done (VULNSPEC_TLPAREN, r1)"
    by (subst vulnspec_read_token.simps) (simp add: is_space_def)
  then show ?thesis using LP r1(2) wf by (auto simp: moved_def)
next
  case RP
  then obtain r1 where r1: "vm_getc r = (Some (CHR '')''), r1)" "moved r rest r1"
    using vm_getc_Cons [of r "CHR '')''" rest] i by auto
  then have "vulnspec_read_token ok r = Done (VULNSPEC_TRPAREN, r1)"
    by (subst vulnspec_read_token.simps) (simp add: is_space_def)
  then show ?thesis using RP r1(2) wf by (auto simp: moved_def)
next
  case (Str s)
  then obtain r1 where r1: "vm_getc r = (Some (CHR 0x22), r1)" "moved r (escape s @ CHR 0x22 # rest) r1"
    using vm_getc_Cons [of r "CHR 0x22"] i by auto
  then have "vulnspec_read_token ok r = read_string ok r1"
    by (subst vulnspec_read_token.simps) (simp add: is_space_def is_digit_def)
  moreover have "\<exists>r'. read_string ok r1 = Done (VULNSPEC_TSTRING, r') \<and> vr_input r' = rest \<and> buf_wf ok (vr_sval r')
      \<and> buf_contents (vr_sval r') = s @ [NUL]"
    using string_loop_reads [of "r1\<lparr>vr_sval := buf_clear (vr_sval r1)\<rparr>" s rest "Suc (length (vr_input r1))" ok]
      r1(2) wf g Str by (simp add: read_string_def moved_def buf_clear_wf)
  ultimately show ?thesis using Str by auto
next
  case (Dbl a b)
  then obtain c a' where a: "a = c # a'" "is_digit c" using t(1) by (cases a) auto
  then obtain r1 where r1: "vm_getc r = (Some c, r1)" "moved r (a' @ CHR ''.'' # b @ rest) r1"
    using vm_getc_Cons [of r c] i Dbl by auto
  have "\<not> is_space c" "c \<noteq> CHR ''(''" "c \<noteq> CHR '')''" using a(2) by (auto simp: is_space_def is_digit_def)
  then have "vulnspec_read_token ok r = read_number r1 c"
    using r1(1) a(2) by (subst vulnspec_read_token.simps) simp
  moreover have "\<exists>r'. read_number r1 c = Done (VULNSPEC_TDOUBLE, r') \<and> moved r1 rest r'
      \<and> vr_num r' = Dval (int (dec_value (c # a' @ b))) (10 ^ length b)"
    by (rule read_number_double) (use moved_input [OF r1(2)] t Dbl a in auto)
  ultimately show ?thesis using Dbl a r1(2) wf by (auto simp: moved_def)
next
  case (Sym s)
  then obtain c s' where s: "s = c # s'" "symbol_start c" using t(1) by (cases s) auto
  then obtain r1 where r1: "vm_getc r = (Some c, r1)" "moved r (s' @ rest) r1"
    using vm_getc_Cons [of r c] i Sym by auto
  have "\<not> is_space c" "c \<noteq> CHR ''(''" "c \<noteq> CHR '')''" "c \<noteq> CHR ''.''" "c \<noteq> CHR ''-''" "\<not> is_digit c" "c \<noteq> CHR 0x22"
    using s(2) by (auto simp: is_space_def symbol_start_def symbol_char_def ends_symbol_def in_number_def)
  then have "vulnspec_read_token ok r = Done (read_symbol (vm_ungetc r1 c))"
    using r1(1) by (subst vulnspec_read_token.simps) simp
  moreover have u: "moved r (s @ rest) (vm_ungetc r1 c)" using vm_ungetc_moved [OF r1(2), of c] s(1) by simp
  moreover have "\<exists>r'. symbol_loop (vm_ungetc r1 c) [] = (VULNSPEC_TSYMBOL, r') \<and> moved (vm_ungetc r1 c) rest r' \<and> vr_symbol r' = [] @ s"
    by (rule symbol_loop_reads) (use moved_input [OF u] t Sym in auto)
  ultimately show ?thesis using Sym wf by (auto simp: read_symbol_def moved_def)
qed

text \<open>The text of a token list is read token by token.\<close>

lemma read_token_spelled:
  assumes "spells (t # ts) (vr_input r)" "buf_wf ok (vr_sval r)" "\<not> refuses ok (str_size t)"
  obtains r' where "vulnspec_read_token ok r = Done (tok_kind t, r')" "spells ts (vr_input r')"
    "buf_wf ok (vr_sval r')" "tok_value t r'"
proof -
  obtain ws rest where w: "vr_input r = ws @ tok_text t @ rest" "\<forall>c \<in> set ws. is_space c" "tok_ok t" "may_follow t rest"
    "spells ts rest" using assms(1) by (auto elim: spells_ConsE)
  obtain r1 where r1: "vulnspec_read_token ok r = vulnspec_read_token ok r1" "moved r (tok_text t @ rest) r1"
    using skip_space [OF w(1,2)] by blast
  obtain r' where "vulnspec_read_token ok r1 = Done (tok_kind t, r')" "vr_input r' = rest" "buf_wf ok (vr_sval r')"
    "tok_value t r'"
    using read_token_at [OF moved_input [OF r1(2)] w(3,4)] assms(2,3) r1(2) by (auto simp: moved_def)
  then show thesis using that [of r'] r1(1) w(5) by simp
qed

lemma read_token_eof:
  assumes "spells [] (vr_input r)"
  obtains r' where "vulnspec_read_token ok r = Done (VULNSPEC_TEOF, r')" "vr_sval r' = vr_sval r"
proof -
  have w: "\<forall>c \<in> set (vr_input r). is_space c" using assms by (auto elim: spells_NilE)
  obtain r1 where r1: "vulnspec_read_token ok r = vulnspec_read_token ok r1" "moved r [] r1"
    using skip_space [of r "vr_input r" "[]"] w by auto
  have "vulnspec_read_token ok r1 = Done (VULNSPEC_TEOF, r1)"
    using moved_input [OF r1(2)] by (subst vulnspec_read_token.simps) (simp add: vm_getc_Nil)
  then show thesis using that r1 by (simp add: moved_def)
qed

lemma reader_init_wf:
  assumes "alloc_bounded ok"
  shows "buf_wf ok (vr_sval (vulnspec_reader_init ok txt))"
proof -
  have "unat (8192 :: size_t) < 2 ^ 63" by simp
  then show ?thesis
    by (rule buf_init_cases [OF assms]) (use assms in \<open>simp_all add: vulnspec_reader_init_def\<close>)
qed

text \<open>Reading until the end of the file: the kinds and the values of the tokens\<close>

fun tok_of :: "vulnspec_token \<Rightarrow> vulnspec_reader \<Rightarrow> (vulnspec_token \<times> bytes \<times> vulnspec_num)" where
  "tok_of VULNSPEC_TSTRING r = (VULNSPEC_TSTRING, fst (vulnspec_reader_string r), Ival 0)"
| "tok_of VULNSPEC_TDOUBLE r = (VULNSPEC_TDOUBLE, [], vr_num r)"
| "tok_of VULNSPEC_TSYMBOL r = (VULNSPEC_TSYMBOL, vr_symbol r, Ival 0)"
| "tok_of k r = (k, [], Ival 0)"

fun read_all :: "nat \<Rightarrow> allocator \<Rightarrow> vulnspec_reader \<Rightarrow> (vulnspec_token \<times> bytes \<times> vulnspec_num) list run" where
  "read_all 0 ok r = Timeout"
| "read_all (Suc n) ok r = andThen (vulnspec_read_token ok r) (\<lambda>(k, r).
     if k = VULNSPEC_TEOF then Done []
     else andThen (read_all n ok r) (\<lambda>ks. Done (tok_of k r # ks)))"

fun tok_meaning :: "tok \<Rightarrow> vulnspec_token \<times> bytes \<times> vulnspec_num" where
  "tok_meaning (Str s) = (VULNSPEC_TSTRING, s @ [NUL], Ival 0)"
| "tok_meaning (Dbl a b) = (VULNSPEC_TDOUBLE, [], Dval (int (dec_value (a @ b))) (10 ^ length b))"
| "tok_meaning (Sym s) = (VULNSPEC_TSYMBOL, s, Ival 0)"
| "tok_meaning t = (tok_kind t, [], Ival 0)"

lemma tok_of_value:
  assumes "tok_value t r" "buf_wf ok (vr_sval r)"
  shows "tok_of (tok_kind t) r = tok_meaning t"
proof (cases t)
  case (Str s)
  then have "unat (buf_len (vr_sval r)) = Suc (length s)"
    using assms length_buf_contents [OF assms(2)] by simp
  then have "buf_len (vr_sval r) > 0" by (simp add: word_less_nat_alt)
  then show ?thesis using assms Str by (simp add: vulnspec_reader_string_def)
qed (use assms in simp_all)

section \<open>Properties\<close>



end
