(* ===== verification/Vulnspec_Parser.thy ===== *)
theory Vulnspec_Parser
  imports Vulnspec_Reader Objtbl
begin

text \<open>
  The compiler of vulnerability specifications, \<^verbatim>\<open>lib/vulnspec/parser.c\<close> and \<^verbatim>\<open>lib/vulnspec/progn.c\<close>: a recursive
  descent parser that writes nodes and strings into a growing program and links them by offsets.
  Equal strings are stored once, with a table of the strings. Errors leave the parser by
  \<open>longjmp\<close>; what it has done until then stays.
\<close>

section \<open>Programs\<close>

type_synonym vulnspec_progn = buf_t

definition DEFAULT_PROGN_SIZE :: size_t where "DEFAULT_PROGN_SIZE = 512 * 1024"

definition UINT32_MAX :: size_t where "UINT32_MAX = 0xFFFFFFFF"

definition vulnspec_progn_init :: "allocator \<Rightarrow> status \<times> vulnspec_progn" where
  "vulnspec_progn_init ok = (case buf_init ok DEFAULT_PROGN_SIZE of None \<Rightarrow> (-1, buf_zero) | Some b \<Rightarrow> (0, b))"

definition vulnspec_progn_cleanup :: "vulnspec_progn \<Rightarrow> vulnspec_progn" where
  "vulnspec_progn_cleanup progn = buf_cleanup progn"

text \<open>Without memory the offset is not set, and whatever it is the call fails.\<close>

definition vulnspec_progn_alloc :: "allocator \<Rightarrow> vulnspec_progn \<Rightarrow> size_t \<Rightarrow> (status \<times> u32 \<times> vulnspec_progn) option" where
  "vulnspec_progn_alloc ok progn len =
     (case buf_alloc ok progn len of
        None \<Rightarrow> None
      | Some (i, None, progn) \<Rightarrow> Some (-1, 0, progn)
      | Some (i, Some off, progn) \<Rightarrow>
          (case buf_align ok progn of
             None \<Rightarrow> None
           | Some (i, progn) \<Rightarrow> if off > UINT32_MAX then Some (-1, 0, progn) else Some (i, ucast off, progn)))"

text \<open>The offset of the data, None for NULL\<close>

definition vulnspec_progn_deref :: "vulnspec_progn \<Rightarrow> u32 \<Rightarrow> size_t \<Rightarrow> nat option" where
  "vulnspec_progn_deref progn val len =
     (let endoff = ucast val + len
      in if endoff < ucast val then None else if endoff > buf_len progn then None else Some (unat val))"

definition vulnspec_progn_cderef :: "vulnspec_progn \<Rightarrow> vulnspec_cvalue \<Rightarrow> nat option" where
  "vulnspec_progn_cderef progn val = vulnspec_progn_deref progn (cv_offset val) (ucast (cv_length val))"

section \<open>The parser\<close>

definition VULNSPEC_EUNEXPECTED_TOKEN :: status where "VULNSPEC_EUNEXPECTED_TOKEN = -1"
definition VULNSPEC_EMALLOC :: status where "VULNSPEC_EMALLOC = -2"
definition VULNSPEC_ESTRTAB :: status where "VULNSPEC_ESTRTAB = -3"

definition VULNSPEC_INVALID_NODE :: u32 where "VULNSPEC_INVALID_NODE = 0"
definition VULNSPEC_NALPHA_NODE :: u32 where "VULNSPEC_NALPHA_NODE = 10"

definition STRTAB_ENTRIES :: u32 where "STRTAB_ENTRIES = 4096"

text \<open>An entry of the string table: its C string, whose length with the NUL byte is the length of the entry\<close>

record strtab_entry =
  se_str :: bytes
  se_val :: u32

definition strtab_bytes :: "strtab_entry \<Rightarrow> bytes" where
  "strtab_bytes e = cstr (se_str e) @ [NUL]"

fun memcmp :: "bytes \<Rightarrow> bytes \<Rightarrow> int" where
  "memcmp (a # s) (b # t) = (if a = b then memcmp s t else int (of_char a) - int (of_char b))"
| "memcmp s t = 0"

definition strtab_cmp :: "strtab_entry option \<Rightarrow> strtab_entry option \<Rightarrow> int" where
  "strtab_cmp k e =
     (case (k, e) of
        (Some key, Some entry) \<Rightarrow>
          let minlen = min (length (strtab_bytes key)) (length (strtab_bytes entry))
          in memcmp (take minlen (strtab_bytes key)) (take minlen (strtab_bytes entry))
      | (None, None) \<Rightarrow> 0
      | _ \<Rightarrow> 1)"

definition strtab_hash :: "strtab_entry option \<Rightarrow> u32 \<Rightarrow> u32" where
  "strtab_hash obj seed = objtbl_strhash (map_option se_str obj) seed"

definition strtab_opts :: "strtab_entry objtbl_opts" where
  "strtab_opts = \<lparr>oo_hashseed = 0, oo_hashfunc = strtab_hash, oo_cmpfunc = strtab_cmp\<rparr>"

record vulnspec_parser =
  pa_vtype :: u32
  pa_strtab :: "strtab_entry objtbl_ctx"
  pa_progn :: vulnspec_progn
  pa_r :: vulnspec_reader

text \<open>
  A step of the parser returns a value or leaves with an error, and changes the parser in both cases.
\<close>

type_synonym 'a parse = "vulnspec_parser \<Rightarrow> ((status + 'a) \<times> vulnspec_parser) run"

definition pbind :: "'a parse \<Rightarrow> ('a \<Rightarrow> 'b parse) \<Rightarrow> 'b parse" where
  "pbind m f p = andThen (m p) (\<lambda>(x, p). case x of Inl e \<Rightarrow> Done (Inl e, p) | Inr y \<Rightarrow> f y p)"

definition preturn :: "'a \<Rightarrow> 'a parse" where
  "preturn x p = Done (Inr x, p)"

definition bail :: "status \<Rightarrow> 'a parse" where
  "bail e p = Done (Inl e, p)"

definition progn_alloc :: "allocator \<Rightarrow> nat \<Rightarrow> u32 parse" where
  "progn_alloc ok len p =
     (case vulnspec_progn_alloc ok (pa_progn p) (of_nat len) of
        None \<Rightarrow> Fault
      | Some (ret, off, progn) \<Rightarrow>
          if ret \<noteq> 0 then bail VULNSPEC_EMALLOC (p\<lparr>pa_progn := progn\<rparr>) else preturn off (p\<lparr>pa_progn := progn\<rparr>))"

definition next_token :: "allocator \<Rightarrow> vulnspec_token parse" where
  "next_token ok p = andThen (vulnspec_read_token ok (pa_r p)) (\<lambda>(t, r). preturn t (p\<lparr>pa_r := r\<rparr>))"

definition expect :: "allocator \<Rightarrow> vulnspec_token \<Rightarrow> unit parse" where
  "expect ok t = pbind (next_token ok) (\<lambda>tok. if tok \<noteq> t then bail VULNSPEC_EUNEXPECTED_TOKEN else preturn ())"

text \<open>Stores through \<open>NOD\<close>: bytes at an offset of the program\<close>

definition put :: "nat \<Rightarrow> bytes \<Rightarrow> unit parse" where
  "put off xs p =
     (case poke off xs (mem (pa_progn p)) of
        None \<Rightarrow> Fault
      | Some d \<Rightarrow> preturn () (p\<lparr>pa_progn := (pa_progn p)\<lparr>buf_data := Some d\<rparr>\<rparr>))"

definition put32 :: "nat \<Rightarrow> u32 \<Rightarrow> unit parse" where
  "put32 off w = put off (le_bytes 4 (unat w))"

definition put_cvalue :: "nat \<Rightarrow> vulnspec_cvalue \<Rightarrow> unit parse" where
  "put_cvalue off cval = pbind (put32 off (cv_length cval)) (\<lambda>_. put32 (off + 4) (cv_offset cval))"

definition put_vague :: "nat \<Rightarrow> vaguever_version \<Rightarrow> unit parse" where
  "put_vague off v =
     pbind (put32 off (of_nat (vv_nused v))) (\<lambda>_.
     pbind (put32 (off + 4) (vv_fields v ! 0)) (\<lambda>_.
     pbind (put32 (off + 8) (vv_fields v ! 1)) (\<lambda>_.
     pbind (put32 (off + 12) (vv_fields v ! 2)) (\<lambda>_.
            put32 (off + 16) (vv_fields v ! 3)))))"

text \<open>The allocations of \<open>strtab_new\<close>, and the entry\<close>

definition strtab_new :: "allocator \<Rightarrow> bytes \<Rightarrow> u32 \<Rightarrow> strtab_entry option" where
  "strtab_new ok s val =
     (if \<not> ok 24 then None
      else if \<not> ok (of_nat (length (cstr s) + 1)) then None
      else Some \<lparr>se_str = s, se_val = val\<rparr>)"

definition entry_cvalue :: "strtab_entry \<Rightarrow> vulnspec_cvalue" where
  "entry_cvalue e = \<lparr>cv_length = of_nat (length (strtab_bytes e)), cv_offset = se_val e\<rparr>"

text \<open>
  A string with a NUL byte inside is a fault here: the copy that \<open>strdup\<close> makes ends at the NUL, the
  length of the entry does not, and comparisons with it read behind the copy.
\<close>

definition loads :: "allocator \<Rightarrow> vulnspec_cvalue parse" where
  "loads ok =
     pbind (expect ok VULNSPEC_TSTRING) (\<lambda>_ p.
       let (str, len) = vulnspec_reader_string (pa_r p)
       in if NUL \<in> set (take len str) then Fault
          else case objtbl_get (pa_strtab p) (Some \<lparr>se_str = str, se_val = 0\<rparr>) of
            Some (OBJTBL_OK, Some (Some ent)) \<Rightarrow> preturn (entry_cvalue ent) p
          | Some (OBJTBL_ENOTFOUND, _) \<Rightarrow>
              pbind (progn_alloc ok (len + 1)) (\<lambda>val.
              pbind (put (unat val) (take (len + 1) str)) (\<lambda>_ p.
                case strtab_new ok str val of
                  None \<Rightarrow> bail VULNSPEC_ESTRTAB p
                | Some ent \<Rightarrow>
                    (case objtbl_insert ok (pa_strtab p) (Some ent) of
                       None \<Rightarrow> Timeout
                     | Some (ret, tbl) \<Rightarrow>
                         if ret \<noteq> OBJTBL_OK then bail VULNSPEC_ESTRTAB (p\<lparr>pa_strtab := tbl\<rparr>)
                         else preturn (entry_cvalue ent) (p\<lparr>pa_strtab := tbl\<rparr>)))) p
          | Some _ \<Rightarrow> bail VULNSPEC_ESTRTAB p
          | None \<Rightarrow> Timeout)"

definition symbol_vals :: "(bytes \<times> u32) list" where
  "symbol_vals = [(''v'', VULNSPEC_OR_NODE), (''^'', VULNSPEC_AND_NODE), (''<'', VULNSPEC_LT_NODE),
     (''<='', VULNSPEC_LE_NODE), (''='', VULNSPEC_EQ_NODE), (''>='', VULNSPEC_GE_NODE), (''>'', VULNSPEC_GT_NODE),
     (''cve'', VULNSPEC_CVE_NODE), (''nalpha'', VULNSPEC_NALPHA_NODE)]"

definition symbol2node :: "bytes \<Rightarrow> u32" where
  "symbol2node s = (case map_of symbol_vals (cstr s) of None \<Rightarrow> VULNSPEC_INVALID_NODE | Some node \<Rightarrow> node)"

definition read_symbol :: "allocator \<Rightarrow> u32 parse" where
  "read_symbol ok =
     pbind (next_token ok) (\<lambda>t.
       if t \<noteq> VULNSPEC_TSYMBOL then bail VULNSPEC_EUNEXPECTED_TOKEN
       else (\<lambda>p. preturn (symbol2node (vr_symbol (pa_r p))) p))"

definition compar :: "allocator \<Rightarrow> u32 \<Rightarrow> u32 parse" where
  "compar ok t =
     pbind (progn_alloc ok 36) (\<lambda>node.
     pbind (loads ok) (\<lambda>cvendprod p.
       if pa_vtype p = VULNSPEC_VVAGUE then
         pbind (expect ok VULNSPEC_TSTRING) (\<lambda>_ p.
           (let versionstr = fst (vulnspec_reader_string (pa_r p)) in
            pbind (put32 (unat node) t) (\<lambda>_.
            pbind (put32 (unat node + 12) (pa_vtype p)) (\<lambda>_.
            pbind (put_cvalue (unat node + 4) cvendprod) (\<lambda>_.
            pbind (case vaguever_init versionstr of None \<Rightarrow> (\<lambda>_. Fault) | Some v \<Rightarrow> put_vague (unat node + 16) v) (\<lambda>_.
            pbind (expect ok VULNSPEC_TRPAREN) (\<lambda>_.
              preturn node)))))) p) p
       else
         pbind (loads ok) (\<lambda>cversion p.
           (pbind (put32 (unat node) t) (\<lambda>_.
            pbind (put32 (unat node + 12) (pa_vtype p)) (\<lambda>_.
            pbind (put_cvalue (unat node + 4) cvendprod) (\<lambda>_.
            pbind (put_cvalue (unat node + 16) cversion) (\<lambda>_.
            pbind (expect ok VULNSPEC_TRPAREN) (\<lambda>_.
              preturn node)))))) p) p))"

text \<open>
  The loop of \<open>boolean\<close>; \<open>expr\<close> is the parser of the operands. The fields of a new node that are not
  stored keep the bytes of the program, which are zero unless the buffer has been in use before.
\<close>

primrec boolean_loop :: "nat \<Rightarrow> allocator \<Rightarrow> u32 parse \<Rightarrow> u32 \<Rightarrow> u32 \<Rightarrow> u32 \<Rightarrow> u32 parse" where
  "boolean_loop 0 ok expr nodet bnode prev = (\<lambda>p. Timeout)"
| "boolean_loop (Suc n) ok expr nodet bnode prev =
     pbind (next_token ok) (\<lambda>tok.
       if tok = VULNSPEC_TLPAREN then
         pbind (progn_alloc ok 12) (\<lambda>curr.
         pbind expr (\<lambda>val.
         pbind (put32 (unat curr) nodet) (\<lambda>_.
         pbind (put32 (unat curr + 8) val) (\<lambda>_.
         pbind (if prev \<noteq> 0 then put32 (unat prev + 4) curr else preturn ()) (\<lambda>_.
           boolean_loop n ok expr nodet (if bnode = 0 then curr else bnode) curr)))))
       else if tok \<noteq> VULNSPEC_TRPAREN then bail VULNSPEC_EUNEXPECTED_TOKEN
       else if bnode = 0 then bail VULNSPEC_EUNEXPECTED_TOKEN
       else preturn bnode)"

definition boolean :: "nat \<Rightarrow> allocator \<Rightarrow> u32 parse \<Rightarrow> u32 \<Rightarrow> u32 parse" where
  "boolean fuel ok expr nodet = boolean_loop fuel ok expr nodet 0 0"

definition set_vtype :: "u32 \<Rightarrow> unit parse" where
  "set_vtype vt p = preturn () (p\<lparr>pa_vtype := vt\<rparr>)"

definition nalpha :: "allocator \<Rightarrow> u32 parse \<Rightarrow> u32 parse" where
  "nalpha ok expr p =
     (let tmp = pa_vtype p in
      pbind (set_vtype VULNSPEC_VNALPHA) (\<lambda>_.
      pbind (expect ok VULNSPEC_TLPAREN) (\<lambda>_.
      pbind expr (\<lambda>val.
      pbind (expect ok VULNSPEC_TRPAREN) (\<lambda>_.
      pbind (set_vtype tmp) (\<lambda>_.
        preturn val))))) p)"

primrec vulnexpr :: "nat \<Rightarrow> allocator \<Rightarrow> u32 parse" where
  "vulnexpr 0 ok = (\<lambda>p. Timeout)"
| "vulnexpr (Suc n) ok =
     pbind (read_symbol ok) (\<lambda>nodet.
       if is_compar nodet then compar ok nodet
       else if is_boolean nodet then boolean n ok (vulnexpr n ok) nodet
       else if nodet = VULNSPEC_NALPHA_NODE then nalpha ok (vulnexpr n ok)
       else bail VULNSPEC_EUNEXPECTED_TOKEN)"

section \<open>Scores\<close>

text \<open>
  The scores are doubles: the nearest fraction with 53 significant bits, ties to even. \<open>nearest n d\<close> is the
  double next to \<open>n / d\<close>, as a fraction; the numbers here are far from the limits of the exponent.
\<close>

fun bits :: "nat \<Rightarrow> nat" where
  "bits n = (if n = 0 then 0 else Suc (bits (n div 2)))"

declare bits.simps [simp del]

definition nearest :: "nat \<Rightarrow> nat \<Rightarrow> nat \<times> nat" where
  "nearest n d =
     (if n = 0 then (0, 1)
      else let k = 53 + bits d;
               q = n * 2 ^ k div d;
               s = bits q - 53;
               m = q div 2 ^ s;
               rest = n * 2 ^ k - m * 2 ^ s * d;
               up = (2 * rest > 2 ^ s * d \<or> 2 * rest = 2 ^ s * d \<and> odd m)
           in ((if up then m + 1 else m) * 2 ^ s, 2 ^ k))"

text \<open>
  \<open>(uint32_t)(dval * 100.0)\<close> for the double \<open>(double)ival / fpdiv\<close>: the product is rounded to a double
  and then cut off. A value outside of 32 bits is undefined.
\<close>

definition fixed_point :: "vulnspec_num \<Rightarrow> u32 run" where
  "fixed_point num =
     (case num of
        Ival _ \<Rightarrow> Fault
      | Dval ival fpdiv \<Rightarrow>
          let (n, d) = nearest (nat \<bar>ival\<bar>) 1;
              (n, d) = nearest n (d * nat fpdiv);
              (n, d) = nearest (n * 100) d;
              v = n div d
          in if ival < 0 \<and> 0 < v then Fault
             else if 2 ^ 32 \<le> v then Fault
             else Done (of_nat v))"

definition put_score :: "nat \<Rightarrow> unit parse" where
  "put_score off p = andThen (fixed_point (vr_num (pa_r p))) (\<lambda>w. put32 off w p)"

section \<open>Files\<close>

definition cve :: "nat \<Rightarrow> allocator \<Rightarrow> u32 parse" where
  "cve fuel ok =
     pbind (progn_alloc ok 36) (\<lambda>node.
     pbind (loads ok) (\<lambda>cval.
     pbind (put_cvalue (unat node + 16) cval) (\<lambda>_.
     pbind (expect ok VULNSPEC_TDOUBLE) (\<lambda>_.
     pbind (put_score (unat node + 8)) (\<lambda>_.
     pbind (expect ok VULNSPEC_TDOUBLE) (\<lambda>_.
     pbind (put_score (unat node + 12)) (\<lambda>_.
     pbind (put32 (unat node) VULNSPEC_CVE_NODE) (\<lambda>_.
     pbind (loads ok) (\<lambda>cval.
     pbind (put_cvalue (unat node + 24) cval) (\<lambda>_.
     pbind (expect ok VULNSPEC_TLPAREN) (\<lambda>_.
     pbind (vulnexpr fuel ok) (\<lambda>vexpr.
     pbind (put32 (unat node + 32) vexpr) (\<lambda>_.
       preturn node)))))))))))))"

text \<open>The link from the previous node, whose type is asserted\<close>

definition link_cve :: "u32 \<Rightarrow> u32 \<Rightarrow> unit parse" where
  "link_cve prev cur p =
     (if prev = 0 then preturn () p
      else andThen (rd32 (mem (pa_progn p)) (ucast prev)) (\<lambda>t.
        if t \<noteq> VULNSPEC_CVE_NODE then Fault else put32 (unat prev + 4) cur p))"

primrec parse_loop :: "nat \<Rightarrow> allocator \<Rightarrow> u32 \<Rightarrow> unit parse" where
  "parse_loop 0 ok prev = (\<lambda>p. Timeout)"
| "parse_loop (Suc n) ok prev =
     pbind (next_token ok) (\<lambda>tok.
       if tok = VULNSPEC_TEOF then preturn ()
       else if tok \<noteq> VULNSPEC_TLPAREN then bail VULNSPEC_EUNEXPECTED_TOKEN
       else pbind (read_symbol ok) (\<lambda>nodet.
         if nodet \<noteq> VULNSPEC_CVE_NODE then bail VULNSPEC_EUNEXPECTED_TOKEN
         else
           pbind (cve n ok) (\<lambda>curr.
           pbind (expect ok VULNSPEC_TRPAREN) (\<lambda>_.
           pbind (link_cve prev curr) (\<lambda>_.
             parse_loop n ok curr)))))"

definition vulnspec_parser_init :: "allocator \<Rightarrow> status \<times> vulnspec_parser option" where
  "vulnspec_parser_init ok =
     (case objtbl_init ok strtab_opts STRTAB_ENTRIES of
        (OBJTBL_OK, Some tbl) \<Rightarrow>
          (let (ret, progn) = vulnspec_progn_init ok
           in (ret, Some \<lparr>pa_vtype = VULNSPEC_VVAGUE, pa_strtab = tbl, pa_progn = progn,
                pa_r = \<lparr>vr_symbol = [], vr_input = [], vr_row = 0, vr_col = 0, vr_lastcol = 0, vr_sval = buf_zero,
                  vr_num = Ival 0\<rparr>\<rparr>))
      | _ \<Rightarrow> (-1, None))"

text \<open>The strings of the table are freed with it.\<close>

definition vulnspec_parser_cleanup :: "vulnspec_parser \<Rightarrow> vulnspec_parser" where
  "vulnspec_parser_cleanup p =
     p\<lparr>pa_strtab := objtbl_cleanup (pa_strtab p), pa_progn := vulnspec_progn_cleanup (pa_progn p)\<rparr>"

text \<open>The result of appending the header is not looked at.\<close>

definition vulnspec_parse :: "nat \<Rightarrow> allocator \<Rightarrow> vulnspec_parser \<Rightarrow> bytes \<Rightarrow> (status \<times> vulnspec_parser) run" where
  "vulnspec_parse fuel ok p inp =
     (case buf_adata ok (buf_clear (pa_progn p)) VULNSPEC_HEADER of
        None \<Rightarrow> Fault
      | Some (_, progn) \<Rightarrow>
          andThen (parse_loop fuel ok 0 (p\<lparr>pa_r := vulnspec_reader_init ok inp, pa_progn := progn\<rparr>)) (\<lambda>(x, p).
            Done (case x of Inl e \<Rightarrow> e | Inr _ \<Rightarrow> 0, p\<lparr>pa_r := vulnspec_reader_cleanup (pa_r p)\<rparr>)))"

definition vulnspec_parser_data :: "vulnspec_parser \<Rightarrow> bytes \<times> size_t" where
  "vulnspec_parser_data p = (buf_contents (pa_progn p), buf_len (pa_progn p))"

end
