(* ===== verification/Vulnspec_Image.thy ===== *)
theory Vulnspec_Image
  imports Vulnspec_Parser
begin

text \<open>
  Specifications as written, their meaning, and what it is for a program to hold a specification: its nodes
  and strings lie at known addresses, the rest of the memory does not matter. A program that holds
  a specification passes the validator, and its evaluation reports what the specification means.
\<close>

section \<open>Specifications\<close>

text \<open>
  A comparison with the version of a product, a conjunction or disjunction, or an expression whose
  versions are alphanumeric.
\<close>

datatype src_expr = SCompar bytes bytes bytes | SBool bool "src_expr list" | SNalpha src_expr

record src_cve =
  sc_id :: bytes
  sc_cvss2 :: "bytes \<times> bytes"
  sc_cvss3 :: "bytes \<times> bytes"
  sc_desc :: bytes
  sc_expr :: src_expr

definition bool_symbol :: "bool \<Rightarrow> bytes" where
  "bool_symbol is_and = (if is_and then ''^'' else ''v'')"

definition bool_node :: "bool \<Rightarrow> u32" where
  "bool_node is_and = (if is_and then VULNSPEC_AND_NODE else VULNSPEC_OR_NODE)"

text \<open>The tokens of an expression after its opening parenthesis, and those of a file\<close>

fun expr_toks :: "src_expr \<Rightarrow> tok list" where
  "expr_toks (SCompar s vp ver) = [Sym s, Str vp, Str ver, RP]"
| "expr_toks (SBool b es) = Sym (bool_symbol b) # concat (map (\<lambda>e. LP # expr_toks e) es) @ [RP]"
| "expr_toks (SNalpha e) = [Sym ''nalpha'', LP] @ expr_toks e @ [RP]"

definition cve_toks :: "src_cve \<Rightarrow> tok list" where
  "cve_toks c = [LP, Sym ''cve'', Str (sc_id c), Dbl (fst (sc_cvss2 c)) (snd (sc_cvss2 c)),
     Dbl (fst (sc_cvss3 c)) (snd (sc_cvss3 c)), Str (sc_desc c), LP] @ expr_toks (sc_expr c) @ [RP]"

text \<open>The meaning of an expression for the parameters of an evaluation; \<open>vt\<close> is the kind of its versions.\<close>

fun src_sem :: "'d vulnspec_params \<Rightarrow> u32 \<Rightarrow> src_expr \<Rightarrow> bool" where
  "src_sem params vt (SCompar s vp ver) \<longleftrightarrow>
     vp = cstr (the (vp_cve_vendprod params)) \<and>
     compar_result (symbol2node s)
       (if vt = VULNSPEC_VVAGUE then vaguever_cmp (vp_cve_vaguever_version params) (the (vaguever_init ver))
        else the (nalphaver_cmp (the (vp_cve_version params)) ver))"
| "src_sem params vt (SBool b es) \<longleftrightarrow>
     (if b then list_all (src_sem params vt) es else list_ex (src_sem params vt) es)"
| "src_sem params vt (SNalpha e) \<longleftrightarrow> src_sem params VULNSPEC_VNALPHA e"

definition score :: "bytes \<times> bytes \<Rightarrow> u32 run" where
  "score ds = fixed_point (Dval (int (dec_value (fst ds @ snd ds))) (10 ^ length (snd ds)))"

definition the_score :: "bytes \<times> bytes \<Rightarrow> u32" where
  "the_score ds = (case score ds of Done w \<Rightarrow> w | _ \<Rightarrow> 0)"

text \<open>The vulnerabilities that match are reported in order until the callback returns 0 or less.\<close>

fun src_report :: "'d vulnspec_params \<Rightarrow> src_cve list \<Rightarrow> 'd \<Rightarrow> status \<times> 'd" where
  "src_report params [] data = (0, data)"
| "src_report params (c # cs) data =
    (if missing (vp_cve_version params) \<or> missing (vp_cve_vendprod params) then (0, data)
     else
       case (src_sem params VULNSPEC_VVAGUE (sc_expr c), vp_cve_on_match params) of
         (True, Some cve_on_match) \<Rightarrow>
           let (ret, data) = cve_on_match \<lparr>cm_id = sc_id c, cm_cvss2_base = the_score (sc_cvss2 c),
                 cm_cvss3_base = the_score (sc_cvss3 c), cm_desc = sc_desc c\<rparr> data in
           if ret \<le> 0 then (if ret = 0 then 1 else ret, data) else src_report params cs data
       | _ \<Rightarrow> src_report params cs data)"

text \<open>What can be compiled: the symbols are comparisons, the connectives have operands, strings have no NUL\<close>

fun expr_ok :: "src_expr \<Rightarrow> bool" where
  "expr_ok (SCompar s vp ver) \<longleftrightarrow> s \<in> {''<'', ''<='', ''='', ''>='', ''>''} \<and> NUL \<notin> set vp \<and> NUL \<notin> set ver"
| "expr_ok (SBool b es) \<longleftrightarrow> es \<noteq> [] \<and> list_all expr_ok es"
| "expr_ok (SNalpha e) \<longleftrightarrow> expr_ok e"

definition cve_ok :: "src_cve \<Rightarrow> bool" where
  "cve_ok c \<longleftrightarrow> NUL \<notin> set (sc_id c) \<and> NUL \<notin> set (sc_desc c) \<and> expr_ok (sc_expr c)
     \<and> (\<exists>w. score (sc_cvss2 c) = Done w) \<and> (\<exists>w. score (sc_cvss3 c) = Done w)"

section \<open>Programs that hold a specification\<close>

definition str_img :: "nat set \<Rightarrow> bytes \<Rightarrow> vulnspec_cvalue \<Rightarrow> bytes \<Rightarrow> bool" where
  "str_img F m cval s \<longleftrightarrow> NUL \<notin> set s \<and> unat (cv_length cval) = length s + 1 \<and> 8 \<le> unat (cv_offset cval)
     \<and> {unat (cv_offset cval)..unat (cv_offset cval) + length s} \<subseteq> F
     \<and> (\<forall>i \<le> length s. unat (cv_offset cval) + i < length m \<and> m ! (unat (cv_offset cval) + i) = (s @ [NUL]) ! i)"

inductive expr_img :: "nat set \<Rightarrow> bytes \<Rightarrow> u32 \<Rightarrow> u32 \<Rightarrow> src_expr \<Rightarrow> bool"
  and chain_img :: "nat set \<Rightarrow> bytes \<Rightarrow> u32 \<Rightarrow> bool \<Rightarrow> u32 \<Rightarrow> src_expr list \<Rightarrow> bool" for F m where
  compar_img: "\<lbrakk>8 \<le> unat off; {unat off..<unat off + 36} \<subseteq> F; rd_compar m (ucast off) = Done node;
    cn_type node = symbol2node s; s \<in> {''<'', ''<='', ''='', ''>='', ''>''}; cn_vtype node = vt;
    vt = VULNSPEC_VVAGUE \<or> vt = VULNSPEC_VNALPHA; str_img F m (cn_vendprod node) vp;
    vt = VULNSPEC_VVAGUE \<longrightarrow> vaguever_init ver = Some (cn_vague node); vt \<noteq> VULNSPEC_VVAGUE \<longrightarrow> str_img F m (cn_cval node) ver\<rbrakk>
    \<Longrightarrow> expr_img F m vt off (SCompar s vp ver)"
| bool_img: "\<lbrakk>chain_img F m vt b off es; es \<noteq> []\<rbrakk> \<Longrightarrow> expr_img F m vt off (SBool b es)"
| nalpha_img: "expr_img F m VULNSPEC_VNALPHA off e \<Longrightarrow> expr_img F m vt off (SNalpha e)"
| end_img: "chain_img F m vt b 0 []"
| link_img: "\<lbrakk>8 \<le> unat off; {unat off..<unat off + 12} \<subseteq> F; rd_boolean m (ucast off) = Done node;
    bn_type node = bool_node b; expr_img F m vt (bn_value node) e; chain_img F m vt b (bn_next node) es\<rbrakk>
    \<Longrightarrow> chain_img F m vt b off (e # es)"

inductive cves_img :: "nat set \<Rightarrow> bytes \<Rightarrow> u32 \<Rightarrow> src_cve list \<Rightarrow> bool" for F m where
  no_cve_img: "cves_img F m 0 []"
| cve_img: "\<lbrakk>8 \<le> unat off; {unat off..<unat off + 36} \<subseteq> F; rd_cve m (ucast off) = Done node;
    ce_type node = VULNSPEC_CVE_NODE; score (sc_cvss2 c) = Done (ce_cvss2_base node); score (sc_cvss3 c) = Done (ce_cvss3_base node);
    str_img F m (ce_id node) (sc_id c); str_img F m (ce_description node) (sc_desc c);
    expr_img F m VULNSPEC_VVAGUE (ce_vulnexpr node) (sc_expr c); cves_img F m (ce_next node) cs\<rbrakk>
    \<Longrightarrow> cves_img F m off (c # cs)"

section \<open>Only the addresses count\<close>

definition agree :: "nat set \<Rightarrow> bytes \<Rightarrow> bytes \<Rightarrow> bool" where
  "agree F m m' \<longleftrightarrow> (\<forall>a \<in> F. a < length m \<longrightarrow> a < length m' \<and> m' ! a = m ! a)"

lemma agree_mono: "agree F m m' \<Longrightarrow> F' \<subseteq> F \<Longrightarrow> agree F' m m'"
  by (auto simp: agree_def)

lemma agree_trans: "agree F m m' \<Longrightarrow> agree F m' m'' \<Longrightarrow> agree F m m''"
  by (auto simp: agree_def)

lemma agree_refl: "agree F m m"
  by (simp add: agree_def)

lemma rd32_agree:
  assumes "agree F m m'" "{unat off..<unat off + 4} \<subseteq> F" "rd32 m off = Done t"
  shows "rd32 m' off = Done t"
proof -
  have l: "unat off + 4 \<le> length m" and t: "t = le32 (take 4 (drop (unat off) m))"
    using assms(3) by (auto simp: rd32_def split: if_splits)
  have a: "unat off + i < length m' \<and> m' ! (unat off + i) = m ! (unat off + i)" if "i < 4" for i
  proof -
    have "unat off + i \<in> F" using assms(2) that by auto
    then show ?thesis using assms(1) l that unfolding agree_def by auto
  qed
  have l': "unat off + 4 \<le> length m'" using a [of 3] by simp
  have "take 4 (drop (unat off) m') = take 4 (drop (unat off) m)"
    by (rule nth_equalityI) (use l l' a in auto)
  then show ?thesis using l' t by (simp add: rd32_def)
qed

lemma rd32_agree_at:
  assumes "agree F m m'" "unat off < 2 ^ 32" "k < 64" "{unat off + k..<unat off + k + 4} \<subseteq> F" "rd32 m (off + of_nat k) = Done t"
  shows "rd32 m' (off + of_nat k) = Done t"
proof -
  have "unat (off + of_nat k) = unat off + k" using assms(2,3) by (simp add: unat_word_ariths unat_of_nat)
  then show ?thesis using rd32_agree [OF assms(1) _ assms(5)] assms(4) by simp
qed

lemma rd_agree:
  assumes "agree F m m'" "unat off < 2 ^ 32"
  shows "{unat off..<unat off + 36} \<subseteq> F \<Longrightarrow> rd_compar m off = Done cn \<Longrightarrow> rd_compar m' off = Done cn"
    and "{unat off..<unat off + 12} \<subseteq> F \<Longrightarrow> rd_boolean m off = Done bn \<Longrightarrow> rd_boolean m' off = Done bn"
    and "{unat off..<unat off + 36} \<subseteq> F \<Longrightarrow> rd_cve m off = Done ce \<Longrightarrow> rd_cve m' off = Done ce"
proof -
  have *: "rd32 m' (off + of_nat k) = Done t" if "{unat off..<unat off + n} \<subseteq> F" "k + 4 \<le> n" "k < 64" "rd32 m (off + of_nat k) = Done t"
    for k t n
    by (rule rd32_agree_at [OF assms that(3) _ that(4)]) (use that(1,2) in auto)
  have 0: "rd32 m' off = Done t" if "{unat off..<unat off + n} \<subseteq> F" "4 \<le> n" "rd32 m off = Done t" for t n
    using * [of n 0 t] that by simp
  have k: "rd32 m' (off + 4) = Done t" if "{unat off..<unat off + n} \<subseteq> F" "8 \<le> n" "rd32 m (off + 4) = Done t" for t n
    using * [of n 4 t] that by simp
  have k8: "rd32 m' (off + 8) = Done t" if "{unat off..<unat off + n} \<subseteq> F" "12 \<le> n" "rd32 m (off + 8) = Done t" for t n
    using * [of n 8 t] that by simp
  have k12: "rd32 m' (off + 12) = Done t" if "{unat off..<unat off + n} \<subseteq> F" "16 \<le> n" "rd32 m (off + 12) = Done t" for t n
    using * [of n 12 t] that by simp
  have k16: "rd32 m' (off + 16) = Done t" if "{unat off..<unat off + n} \<subseteq> F" "20 \<le> n" "rd32 m (off + 16) = Done t" for t n
    using * [of n 16 t] that by simp
  have k20: "rd32 m' (off + 20) = Done t" if "{unat off..<unat off + n} \<subseteq> F" "24 \<le> n" "rd32 m (off + 20) = Done t" for t n
    using * [of n 20 t] that by simp
  have k24: "rd32 m' (off + 24) = Done t" if "{unat off..<unat off + n} \<subseteq> F" "28 \<le> n" "rd32 m (off + 24) = Done t" for t n
    using * [of n 24 t] that by simp
  have k28: "rd32 m' (off + 28) = Done t" if "{unat off..<unat off + n} \<subseteq> F" "32 \<le> n" "rd32 m (off + 28) = Done t" for t n
    using * [of n 28 t] that by simp
  have k32: "rd32 m' (off + 32) = Done t" if "{unat off..<unat off + n} \<subseteq> F" "36 \<le> n" "rd32 m (off + 32) = Done t" for t n
    using * [of n 32 t] that by simp
  note all = 0 k k8 k12 k16 k20 k24 k28 k32
  show "{unat off..<unat off + 36} \<subseteq> F \<Longrightarrow> rd_compar m off = Done cn \<Longrightarrow> rd_compar m' off = Done cn"
    using all [of 36] by (auto simp: rd_compar_def rd_cvalue_def rd_vague_def andThen_Done add.assoc)
  show "{unat off..<unat off + 12} \<subseteq> F \<Longrightarrow> rd_boolean m off = Done bn \<Longrightarrow> rd_boolean m' off = Done bn"
    using all [of 12] by (auto simp: rd_boolean_def andThen_Done)
  show "{unat off..<unat off + 36} \<subseteq> F \<Longrightarrow> rd_cve m off = Done ce \<Longrightarrow> rd_cve m' off = Done ce"
    using all [of 36] by (auto simp: rd_cve_def rd_cvalue_def andThen_Done add.assoc)
qed

lemma unat_ucast_less: "unat (ucast (w :: u32) :: size_t) < 2 ^ 32"
  using unat_u32_bound [of w] by simp

lemma str_img_agree: "str_img F m cval s \<Longrightarrow> agree F m m' \<Longrightarrow> F \<subseteq> F' \<Longrightarrow> str_img F' m' cval s"
  unfolding str_img_def agree_def by (auto simp: subset_iff)

lemma expr_img_agree:
  assumes "agree F m m'" "F \<subseteq> F'"
  shows "expr_img F m vt off e \<Longrightarrow> expr_img F' m' vt off e"
    and "chain_img F m vt' b off' es \<Longrightarrow> chain_img F' m' vt' b off' es"
proof (induction rule: expr_img_chain_img.inducts)
  case (compar_img off node s vt vp ver)
  have "{unat off..<unat off + 36} \<subseteq> F'" using compar_img assms(2) by blast
  moreover have "rd_compar m' (ucast off) = Done node"
    using rd_agree(1) [OF assms(1) unat_ucast_less] compar_img by simp
  ultimately show ?case
    using compar_img str_img_agree [OF _ assms] by (intro expr_img_chain_img.compar_img) auto
next
  case (link_img off node b vt e es)
  have "{unat off..<unat off + 12} \<subseteq> F'" using link_img assms(2) by blast
  moreover have "rd_boolean m' (ucast off) = Done node"
    using rd_agree(2) [OF assms(1) unat_ucast_less] link_img by simp
  ultimately show ?case using link_img by (intro expr_img_chain_img.link_img) auto
qed (auto intro: expr_img_chain_img.intros)

lemma cves_img_agree:
  assumes "cves_img F m off cs" "agree F m m'" "F \<subseteq> F'"
  shows "cves_img F' m' off cs"
  using assms(1)
proof induction
  case no_cve_img
  show ?case by (rule cves_img.no_cve_img)
next
  case (cve_img off node c cs)
  have "{unat off..<unat off + 36} \<subseteq> F'" using cve_img assms(3) by blast
  moreover have "rd_cve m' (ucast off) = Done node"
    using rd_agree(3) [OF assms(2) unat_ucast_less] cve_img by simp
  ultimately show ?case
    using cve_img str_img_agree [OF _ assms(2,3)] expr_img_agree(1) [OF assms(2,3)] by (intro cves_img.cve_img) auto
qed

section \<open>Evaluation\<close>

lemma str_img_at:
  assumes "str_img F m cval s"
  shows "str_at m cval s"
proof -
  let ?o = "unat (cv_offset cval)"
  have s: "NUL \<notin> set s" "unat (cv_length cval) = length s + 1"
    and b: "\<And>i. i \<le> length s \<Longrightarrow> ?o + i < length m \<and> m ! (?o + i) = (s @ [NUL]) ! i"
    using assms by (auto simp: str_img_def)
  have len: "?o + length s < length m" using b [of "length s"] by simp
  have "take (Suc (length s)) (drop ?o m) = s @ [NUL]"
  proof (rule nth_equalityI)
    show "length (take (Suc (length s)) (drop ?o m)) = length (s @ [NUL])" using len by simp
  next
    fix i assume "i < length (take (Suc (length s)) (drop ?o m))"
    then have "i \<le> length s" by simp
    then show "take (Suc (length s)) (drop ?o m) ! i = (s @ [NUL]) ! i" using b [of i] len by simp
  qed
  then have d: "drop ?o m = (s @ [NUL]) @ drop (Suc (length s)) (drop ?o m)"
    by (metis append_take_drop_id)
  then have n: "NUL \<in> set (drop ?o m)" by (metis in_set_conv_decomp append_Cons append_assoc)
  have "cstr (s @ NUL # t) = s" for t
    using s(1) by (induction s) (auto simp: cstr_def)
  then have "cstr (drop ?o m) = s" by (subst d) simp
  then show ?thesis using n s(2) by (simp add: str_at_def rdstr_def)
qed

lemma rd_type:
  "rd_compar m off = Done cn \<Longrightarrow> rd32 m off = Done (cn_type cn)"
  "rd_boolean m off = Done bn \<Longrightarrow> rd32 m off = Done (bn_type bn)"
  "rd_cve m off = Done ce \<Longrightarrow> rd32 m off = Done (ce_type ce)"
  by (auto simp: rd_compar_def rd_boolean_def rd_cve_def andThen_Done)

lemma compar_symbol: "s \<in> {''<'', ''<='', ''='', ''>='', ''>''} \<Longrightarrow> is_compar (symbol2node s)"
  by (auto simp: symbol2node_def symbol_vals_def is_compar_def cstr_def)

lemma bool_node_boolean: "is_boolean (bool_node b)"
  by (simp add: bool_node_def is_boolean_def)

lemma bool_node_and: "bool_node b = VULNSPEC_AND_NODE \<longleftrightarrow> b"
  using and_not_or by (auto simp: bool_node_def)

text \<open>The expressions of the interpreter that are read from the memory mean what was written.\<close>

lemma img_expr_at:
  "expr_img F m vt off e \<Longrightarrow>
     \<exists>ve. expr_at m (ucast off) ve \<and> (\<forall>params :: 'd vulnspec_params. expr_sem params ve = src_sem params vt e)"
  "chain_img F m vt' b off' es \<Longrightarrow>
     \<exists>ch. chain_at m (ucast off') ch \<and> (\<forall>params :: 'd vulnspec_params. \<forall>r. chain_sem params ch r
       = (if es = [] then r else if b then list_all (src_sem params vt') es else list_ex (src_sem params vt') es))"
proof (induction rule: expr_img_chain_img.inducts)
  case (compar_img off node s vt vp ver)
  have "expr_at m (ucast off) (Cmp node vp ver)"
    using compar_img str_img_at compar_symbol rd_type(1) by (intro expr_at_chain_at.compar_at [of m _ "cn_type node"]) auto
  moreover have "expr_sem params (Cmp node vp ver) = src_sem params vt (SCompar s vp ver)" for params :: "'d vulnspec_params"
    using compar_img vague_not_nalpha by (cases "vt = VULNSPEC_VVAGUE") auto
  ultimately show ?case by blast
next
  case (bool_img vt b off es)
  then obtain ch where ch: "chain_at m (ucast off) ch"
    "\<And>(params :: 'd vulnspec_params) r. chain_sem params ch r = src_sem params vt (SBool b es)"
    by (metis (no_types, lifting) src_sem.simps(2))
  obtain e es' where es: "es = e # es'" using bool_img by (cases es) auto
  obtain node where "rd_boolean m (ucast off) = Done node" "bn_type node = bool_node b"
    using bool_img unfolding es by (auto elim: chain_img.cases)
  then have "expr_at m (ucast off) (Chain ch)"
    using ch(1) bool_node_boolean rd_type(2) by (intro expr_at_chain_at.boolean_at [of m _ "bn_type node"]) auto
  then show ?case using ch(2) by (intro exI [of _ "Chain ch"]) auto
next
  case (nalpha_img off e vt)
  then show ?case by simp
next
  case (end_img vt b)
  have "chain_at m 0 End" by (rule expr_at_chain_at.end_at)
  then show ?case by (intro exI [of _ End]) simp
next
  case (link_img off node b vt e es)
  then obtain ve ch where ve: "expr_at m (ucast (bn_value node)) ve" "\<And>params :: 'd vulnspec_params. expr_sem params ve = src_sem params vt e"
    and ch: "chain_at m (ucast (bn_next node)) ch" "\<And>(params :: 'd vulnspec_params) r. chain_sem params ch r
       = (if es = [] then r else if b then list_all (src_sem params vt) es else list_ex (src_sem params vt) es)" by auto
  have "0 < (ucast off :: size_t)" using link_img(1) by (simp add: word_less_nat_alt)
  then have at: "chain_at m (ucast off) (Link (bn_type node = VULNSPEC_AND_NODE) ve ch)"
    using link_img ve(1) ch(1) bool_node_boolean by (intro expr_at_chain_at.link_at) auto
  have bt: "bn_type node = bool_node b" using link_img by simp
  have "chain_sem params (Link (bn_type node = VULNSPEC_AND_NODE) ve ch) r
      = (if b then list_all (src_sem params vt) (e # es) else list_ex (src_sem params vt) (e # es))" for params :: "'d vulnspec_params" and r
    using ve(2) ch(2) bt bool_node_and by auto
  then show ?case using at by (intro exI [of _ "Link (bn_type node = VULNSPEC_AND_NODE) ve ch"]) simp
qed

lemma img_cves_at:
  "cves_img F m off cs \<Longrightarrow>
     \<exists>es. cves_at m (ucast off) es \<and> (\<forall>(params :: 'd vulnspec_params) data. report params es data = src_report params cs data)"
proof (induction rule: cves_img.induct)
  case no_cve_img
  have "cves_at m 0 []" by (rule cves_at.no_cve)
  then show ?case by (intro exI [of _ "[]"]) simp
next
  case (cve_img off node c cs)
  then obtain es where es: "cves_at m (ucast (ce_next node)) es"
    "\<And>(params :: 'd vulnspec_params) data. report params es data = src_report params cs data" by blast
  obtain ve where ve: "expr_at m (ucast (ce_vulnexpr node)) ve"
    "\<And>params :: 'd vulnspec_params. expr_sem params ve = src_sem params VULNSPEC_VVAGUE (sc_expr c)"
    using img_expr_at(1) [OF cve_img(9)] by blast
  let ?e = "\<lparr>en_node = node, en_id = sc_id c, en_desc = sc_desc c, en_expr = ve\<rparr>"
  have "0 < (ucast off :: size_t)" using cve_img(1) by (simp add: word_less_nat_alt)
  then have "cves_at m (ucast off) (?e # es)"
    using cve_img ve(1) es(1) str_img_at by (intro cves_at.cve_at) auto
  moreover have "report params (?e # es) data = src_report params (c # cs) data" for params :: "'d vulnspec_params" and data
    using ve(2) es(2) cve_img(5,6)
    by (cases "src_sem params VULNSPEC_VVAGUE (sc_expr c)"; cases "vp_cve_on_match params")
      (simp_all add: the_score_def split: prod.splits)
  ultimately show ?case by blast
qed

section \<open>Validation\<close>

text \<open>Everything lies in a program of less than 4 GiB, whose address does not wrap around.\<close>

definition loaded :: "vulnspec_validator \<Rightarrow> bool" where
  "loaded v \<longleftrightarrow> vd_wf v \<and> length (vd_data v) < 2 ^ 32 \<and> unat (vd_base v) + length (vd_data v) < 2 ^ 64"

lemma check_loaded:
  assumes "loaded v" "8 \<le> unat off" "unat off + unat len \<le> length (vd_data v)"
  shows "check v off len = Done ()"
proof -
  have l: "unat (vd_len v) = length (vd_data v)" "length (vd_data v) < 2 ^ 32"
    "unat (vd_base v) + length (vd_data v) < 2 ^ 64" using assms(1) by (auto simp: loaded_def vd_wf_def)
  have a: "unat (off + len) = unat off + unat len" using assms(3) l(2) by (intro unat_add_small) simp
  have b: "unat (vd_base v + off) = unat (vd_base v) + unat off" using assms(3) l(3) by (intro unat_add_small) simp
  have c: "unat (vd_base v + off + len) = unat (vd_base v) + unat off + unat len"
    using assms(3) l(3) unfolding b [symmetric] by (intro unat_add_small) (simp add: b)
  show ?thesis
    using a b c assms(2,3) l(1) by (simp add: check_def VULNSPEC_HEADER_SIZE_def word_less_nat_alt)
qed

lemma vstr_loaded:
  assumes "loaded v" "str_img {..<length (vd_data v)} (vd_data v) cval s"
  shows "vstr v cval = Done ()"
proof -
  let ?o = "unat (cv_offset cval)"
  have s: "unat (cv_length cval) = length s + 1" "8 \<le> ?o"
    and b: "?o + length s < length (vd_data v)" "vd_data v ! (?o + length s) = NUL"
    using assms(2) by (auto simp: str_img_def)
  have l: "length (vd_data v) < 2 ^ 32" using assms(1) by (simp add: loaded_def)
  have "unat (cv_offset cval + cv_length cval) = ?o + (length s + 1)"
    using s b l by (subst unat_add_small) simp_all
  then have p: "unat (cv_offset cval + cv_length cval - 1) = ?o + length s"
    by (subst unat_pred_small) simp_all
  have "check v (ucast (cv_offset cval)) (ucast (cv_length cval)) = Done ()"
    using s b by (intro check_loaded [OF assms(1)]) simp_all
  then show ?thesis using p b by (simp add: vstr_def)
qed

lemma range_le: "{a..<a + n} \<subseteq> {..<k} \<Longrightarrow> 0 < n \<Longrightarrow> a + n \<le> (k :: nat)"
  by (cases n) (auto simp: subset_iff Suc_le_eq dest: spec [of _ "a + (n - 1)"])

lemma vexpr_loaded:
  assumes "loaded v" "F = {..<length (vd_data v)}" "m = vd_data v"
  shows "expr_img F m vt off e \<Longrightarrow> \<exists>n0. \<forall>n \<ge> n0. vvulnexpr n v (ucast off) = Done ()"
    and "chain_img F m vt' b off' es \<Longrightarrow> \<exists>n0. \<forall>n \<ge> n0. vboolean n v (ucast off') = Done ()"
proof (induction rule: expr_img_chain_img.inducts)
  case (compar_img off node s vt vp ver)
  have l: "unat off + 36 \<le> length (vd_data v)"
    using compar_img assms(2) by (intro range_le) auto
  have "vcompar v (ucast off) = Done ()"
    using check_loaded [OF assms(1), of "ucast off" 36] l compar_img vstr_loaded [OF assms(1)] assms(2,3)
    by (auto simp: vcompar_def)
  moreover have "check v (ucast off) 4 = Done ()"
    using check_loaded [OF assms(1), of "ucast off" 4] l compar_img by simp
  moreover have "rd32 (vd_data v) (ucast off) = Done (symbol2node s)" "is_compar (symbol2node s)"
    using rd_type(1) compar_symbol compar_img assms(3) by metis+
  ultimately have "vvulnexpr (Suc n) v (ucast off) = Done ()" for n by simp
  then show ?case by (metis Suc_le_D)
next
  case (bool_img vt b off es)
  obtain e es' where es: "es = e # es'" using bool_img by (cases es) auto
  obtain node where node: "rd_boolean m (ucast off) = Done node" "bn_type node = bool_node b"
    "8 \<le> unat off" "{unat off..<unat off + 12} \<subseteq> F"
    using bool_img unfolding es by (auto elim: chain_img.cases)
  have l: "unat off + 12 \<le> length (vd_data v)" using node(4) assms(2) by (intro range_le) auto
  then have "check v (ucast off) 4 = Done ()" using check_loaded [OF assms(1), of "ucast off" 4] node(3) by simp
  moreover have "rd32 (vd_data v) (ucast off) = Done (bool_node b)" using rd_type(2) [OF node(1)] node(2) assms(3) by simp
  moreover have "\<not> is_compar (bool_node b)" using compar_not_boolean bool_node_boolean by blast
  moreover obtain n0 where "\<And>n. n0 \<le> n \<Longrightarrow> vboolean n v (ucast off) = Done ()" using bool_img.IH by blast
  ultimately have "vvulnexpr (Suc n) v (ucast off) = Done ()" if "n0 \<le> n" for n
    using that bool_node_boolean by simp
  then show ?case by (metis Suc_le_D Suc_le_mono)
next
  case (nalpha_img off e vt)
  then show ?case by simp
next
  case (end_img vt b)
  have "vboolean (Suc n) v 0 = Done ()" for n by simp
  then show ?case by (metis Suc_le_D ucast_0)
next
  case (link_img off node b vt e es)
  obtain n1 n2 where n1: "\<And>n. n1 \<le> n \<Longrightarrow> vvulnexpr n v (ucast (bn_value node)) = Done ()"
    and n2: "\<And>n. n2 \<le> n \<Longrightarrow> vboolean n v (ucast (bn_next node)) = Done ()" using link_img.IH by blast
  have l: "unat off + 12 \<le> length (vd_data v)" using link_img assms(2) by (intro range_le) auto
  have "0 < (ucast off :: size_t)" using link_img(1) by (simp add: word_less_nat_alt)
  moreover have "check v (ucast off) 12 = Done ()" using check_loaded [OF assms(1), of "ucast off" 12] l link_img by simp
  moreover have "rd_boolean (vd_data v) (ucast off) = Done node" "is_boolean (bn_type node)"
    using link_img assms(3) bool_node_boolean by auto
  ultimately have "vboolean (Suc n) v (ucast off) = Done ()" if "max n1 n2 \<le> n" for n
    using n1 [of n] n2 [of n] that by simp
  then show ?case by (metis Suc_le_D Suc_le_mono)
qed

lemma vcve_loaded:
  assumes "loaded v" "F = {..<length (vd_data v)}" "m = vd_data v"
  shows "cves_img F m off cs \<Longrightarrow> \<exists>n0. \<forall>n \<ge> n0. vcve n v (ucast off) = Done ()"
proof (induction rule: cves_img.induct)
  case no_cve_img
  have "vcve (Suc n) v 0 = Done ()" for n by simp
  then show ?case by (metis Suc_le_D ucast_0)
next
  case (cve_img off node c cs)
  obtain n1 where n1: "\<And>n. n1 \<le> n \<Longrightarrow> vvulnexpr n v (ucast (ce_vulnexpr node)) = Done ()"
    using vexpr_loaded(1) [OF assms cve_img(9)] by blast
  obtain n2 where n2: "\<And>n. n2 \<le> n \<Longrightarrow> vcve n v (ucast (ce_next node)) = Done ()" using cve_img.IH by blast
  have l: "unat off + 36 \<le> length (vd_data v)" using cve_img assms(2) by (intro range_le) auto
  have "0 < (ucast off :: size_t)" using cve_img(1) by (simp add: word_less_nat_alt)
  moreover have "check v (ucast off) 36 = Done ()" using check_loaded [OF assms(1), of "ucast off" 36] l cve_img by simp
  ultimately have "vcve (Suc n) v (ucast off) = Done ()" if "max n1 n2 \<le> n" for n
    using n1 [of n] n2 [of n] that cve_img(3,4,7,8) assms vstr_loaded [OF assms(1)] by simp
  then show ?case by (metis Suc_le_D Suc_le_mono)
qed

text \<open>A program that holds a specification is loaded, and its evaluation reports what the specification says.\<close>

lemma img_load_eval:
  fixes interp :: "'d vulnspec_interp"
  assumes img: "cves_img {..<length data} data 8 cs" "cs \<noteq> []" and h: "take 8 data = VULNSPEC_HEADER"
    and len: "unat len = length data" "length data < 2 ^ 32" "unat base + length data < 2 ^ 64"
  shows "\<exists>n0. \<forall>n \<ge> n0. vulnspec_load n interp base data len = Done (0, interp\<lparr>vi_data := data, vi_len := len\<rparr>)"
    and "\<exists>n0. \<forall>n \<ge> n0. vulnspec_eval n (interp\<lparr>vi_data := data, vi_len := len\<rparr>)
      = Done (src_report (vi_params interp) cs (vp_cve_on_match_data (vi_params interp)))"
proof -
  let ?v = "\<lparr>vd_base = base, vd_data = data, vd_len = len\<rparr>"
  have v: "loaded ?v" using len by (simp add: loaded_def vd_wf_def)
  obtain c cs' where cs: "cs = c # cs'" using img(2) by (cases cs) auto
  obtain node where node: "rd_cve data (ucast (8 :: u32)) = Done node" "ce_type node = VULNSPEC_CVE_NODE"
    "{unat (8 :: u32)..<unat (8 :: u32) + 36} \<subseteq> {..<length data}"
    using img(1) unfolding cs by cases auto
  have l: "44 \<le> length data" using range_le [OF node(3)] by simp
  have u: "(ucast (8 :: u32) :: size_t) = 8" by simp
  obtain n0 where n0: "\<And>n. n0 \<le> n \<Longrightarrow> vcve n ?v 8 = Done ()"
    using vcve_loaded [OF v refl refl, of 8 cs] img(1) u by auto
  have "check ?v 8 4 = Done ()" using check_loaded [OF v, of 8 4] l by simp
  moreover have "rd32 data 8 = Done VULNSPEC_CVE_NODE" using rd_type(3) [OF node(1)] node(2) u by simp
  moreover have "\<not> len < 8" using l len(1) by (simp add: word_less_nat_alt)
  ultimately have "validate n base data len = Done 0" if "n0 \<le> n" for n
    using n0 [OF that] h by (simp add: validate_def vnode_def VULNSPEC_HEADER_SIZE_def)
  then have "vulnspec_load n interp base data len = Done (0, interp\<lparr>vi_data := data, vi_len := len\<rparr>)" if "n0 \<le> n" for n
    using that by (simp add: vulnspec_load_def)
  then show "\<exists>n0. \<forall>n \<ge> n0. vulnspec_load n interp base data len = Done (0, interp\<lparr>vi_data := data, vi_len := len\<rparr>)" by blast
  obtain es where es: "cves_at data (ucast (8 :: u32)) es"
    "\<And>(params :: 'd vulnspec_params) d. report params es d = src_report params cs d" using img_cves_at [OF img(1)] by blast
  obtain n1 where n1: "\<And>n d. n1 \<le> n \<Longrightarrow> enodes n (vi_params interp) data 8 d = Done (report (vi_params interp) es d)"
    using enodes_report [OF es(1), of "vi_params interp"] u by metis
  have "\<not> len \<le> 12" using l len(1) by (simp add: word_le_nat_alt)
  then have "vulnspec_eval n (interp\<lparr>vi_data := data, vi_len := len\<rparr>)
      = Done (src_report (vi_params interp) cs (vp_cve_on_match_data (vi_params interp)))" if "n1 \<le> n" for n
    using n1 [OF that] es(2) by (simp add: vulnspec_eval_def VULNSPEC_HEADER_SIZE_def)
  then show "\<exists>n0. \<forall>n \<ge> n0. vulnspec_eval n (interp\<lparr>vi_data := data, vi_len := len\<rparr>)
      = Done (src_report (vi_params interp) cs (vp_cve_on_match_data (vi_params interp)))" by blast
qed

end
