(* ===== verification/Vulnspec_Compile.thy ===== *)
theory Vulnspec_Compile
  imports Vulnspec_Image
begin

text \<open>
  The compiler of \<^verbatim>\<open>lib/vulnspec/parser.c\<close> is correct: the text of a specification is compiled into a program
  that holds it, so that the program is loaded and evaluated as the specification says. The
  memory of the program grows; nodes are completed after their operands, and the proof keeps track
  of the addresses that are final.
\<close>

section \<open>Memory of the program\<close>

definition wr32 :: "nat \<Rightarrow> u32 \<Rightarrow> bytes \<Rightarrow> bytes" where
  "wr32 off w m = take off m @ le_bytes 4 (unat w) @ drop (off + 4) m"

lemma length_wr32 [simp]: "off + 4 \<le> length m \<Longrightarrow> length (wr32 off w m) = length m"
  by (simp add: wr32_def)

lemma nth_wr32: "off + 4 \<le> length m \<Longrightarrow> a < off \<or> off + 4 \<le> a \<Longrightarrow> wr32 off w m ! a = m ! a"
  by (auto simp: wr32_def nth_append)

lemma agree_wr32:
  assumes "off + 4 \<le> length m" "F \<inter> {off..<off + 4} = {}"
  shows "agree F m (wr32 off w m)"
proof -
  have "a < off \<or> off + 4 \<le> a" if "a \<in> F" for a using assms(2) that by (auto simp: disjoint_iff)
  then show ?thesis using assms(1) by (auto simp: agree_def nth_wr32)
qed

lemma rd32_wr32:
  assumes "unat o' + 4 \<le> length m"
  shows "rd32 (wr32 (unat o') w m) o' = Done w"
proof -
  have "take 4 (drop (unat o') (wr32 (unat o') w m)) = le_bytes 4 (unat w)"
    using assms by (simp add: wr32_def)
  moreover have "le32 (le_bytes 4 (unat w)) = w"
    using le_value_le_bytes [of "unat w" 4] unat_u32_bound [of w] by (simp add: le32_def le_value_def)
  ultimately show ?thesis using assms by (simp add: rd32_def)
qed

lemma rd32_wr32_other:
  assumes "off + 4 \<le> length m" "unat o' + 4 \<le> off \<or> off + 4 \<le> unat o'"
  shows "rd32 (wr32 off w m) o' = rd32 m o'"
proof -
  have "take 4 (drop (unat o') (wr32 off w m)) = take 4 (drop (unat o') m)"
    by (rule nth_equalityI) (use assms in \<open>auto simp: nth_wr32\<close>)
  then show ?thesis using assms(1) by (simp add: rd32_def)
qed

text \<open>Growing a buffer adds zeros.\<close>

lemma buf_grow_mem:
  assumes "buf_wf ok b" "buf_grow ok b n = Some (0, b')"
  shows "\<exists>k. mem b' = mem b @ replicate k NUL"
  using assms by (auto simp: buf_grow_def buf_wf_def Let_def split: if_splits)

lemma buf_alloc_mem:
  assumes "buf_wf ok b" "buf_alloc ok b n = Some (0, off, b')"
  shows "\<exists>k. mem b' = mem b @ replicate k NUL"
proof -
  obtain b1 where b1: "buf_reserve ok b n = Some (0, b1)" "b' = b1\<lparr>buf_len := buf_len b1 + n\<rparr>"
    using assms(2) by (auto simp: buf_alloc_def bind_eq_Some_conv Let_def split: if_splits)
  show ?thesis
  proof (cases "buf_cap b - buf_len b < n")
    case True
    then obtain r where "buf_grow ok b (n - (buf_cap b - buf_len b)) = Some (r, b1)" "\<not> r < 0"
      using b1(1) by (auto simp: buf_reserve_def bind_eq_Some_conv split: if_splits)
    moreover from this have "r = 0" by (auto simp: buf_grow_def Let_def split: if_splits)
    ultimately show ?thesis using buf_grow_mem [OF assms(1)] b1(2) by auto
  next
    case False
    then show ?thesis using b1 by (auto simp: buf_reserve_def intro: exI [of _ 0])
  qed
qed

lemma buf_align_zeroed:
  assumes wf: "buf_wf ok b" and g: "\<not> refuses ok (unat (buf_len b) + 8)" and s: "unat (buf_len b) < 2 ^ 40"
  obtains b' k where "buf_align ok b = Some (0, b')" "buf_wf ok b'" "mem b' = mem b @ replicate k NUL"
    "buf_len b' = buf_align_offset (buf_len b)"
proof -
  let ?o = "buf_align_offset (buf_len b)"
  have o: "unat (buf_len b) \<le> unat ?o" "unat ?o < unat (buf_len b) + 8"
    using buf_align_offset_bounds [of "buf_len b"] s by auto
  have le: "unat (buf_len b) \<le> unat (buf_cap b)" using wf by (simp add: buf_wf_def word_le_nat_alt)
  show ?thesis
  proof (cases "buf_cap b \<le> ?o")
    case False
    then show ?thesis using wf by (intro that [of "b\<lparr>buf_len := ?o\<rparr>" 0]) (auto simp: buf_align_def buf_wf_def)
  next
    case True
    have "unat BUF_ALIGNMENT < 2 ^ 62" by (simp add: BUF_ALIGNMENT_def)
    from wf this show ?thesis
    proof (cases rule: buf_grow_cases)
      case (refused m)
      have "unat (buf_cap b) \<le> unat ?o" using True by (simp add: word_le_nat_alt)
      then have "unat m \<le> 2 * (unat (buf_len b) + 8) + 16"
        using refused(3) o(2) by (simp add: BUF_ALIGNMENT_def max_def split: if_splits)
      then have "refuses ok (unat (buf_len b) + 8)" using refused(1) by (intro refusesI [of ok m])
      then show ?thesis using g by simp
    next
      case (grown b')
      obtain k where k: "mem b' = mem b @ replicate k NUL" using buf_grow_mem [OF wf grown(1)] by blast
      have "unat ?o \<le> unat (buf_cap b')" using grown(4) o(2) le by (simp add: BUF_ALIGNMENT_def)
      then show ?thesis using True grown(1,2) k
        by (intro that [of "b'\<lparr>buf_len := ?o\<rparr>" k]) (auto simp: buf_align_def buf_wf_def word_le_nat_alt)
    qed
  qed
qed

section \<open>The state of the parser\<close>

definition grants :: "allocator \<Rightarrow> bool" where
  "grants ok \<longleftrightarrow> alloc_bounded ok \<and> (\<forall>n. unat n < 2 ^ 40 \<longrightarrow> ok n)"

lemma grants_refuses: "grants ok \<Longrightarrow> m < 2 ^ 38 \<Longrightarrow> \<not> refuses ok m"
  by (auto simp: grants_def refuses_def)

abbreviation plen :: "vulnspec_parser \<Rightarrow> nat" where
  "plen p \<equiv> unat (buf_len (pa_progn p))"

abbreviation pmem :: "vulnspec_parser \<Rightarrow> bytes" where
  "pmem p \<equiv> mem (pa_progn p)"

abbreviation pinput :: "vulnspec_parser \<Rightarrow> bytes" where
  "pinput p \<equiv> vr_input (pa_r p)"

definition entries :: "vulnspec_parser \<Rightarrow> strtab_entry set" where
  "entries p = {e. Some e \<in> set (objtbl_objs (pa_strtab p))}"

definition entry_addrs :: "strtab_entry \<Rightarrow> nat set" where
  "entry_addrs e = {unat (se_val e)..unat (se_val e) + length (cstr (se_str e))}"

text \<open>The addresses of the strings\<close>

definition str_addrs :: "vulnspec_parser \<Rightarrow> nat set" where
  "str_addrs p = (\<Union>e \<in> entries p. entry_addrs e)"

text \<open>Behind the program there are zeros, and every entry of the table has its string in the program.\<close>

definition parser_inv :: "allocator \<Rightarrow> vulnspec_parser \<Rightarrow> bool" where
  "parser_inv ok p \<longleftrightarrow> buf_wf ok (pa_progn p) \<and> 8 dvd plen p \<and> 8 \<le> plen p
     \<and> (\<forall>a. plen p \<le> a \<longrightarrow> a < length (pmem p) \<longrightarrow> pmem p ! a = NUL)
     \<and> buf_wf ok (vr_sval (pa_r p)) \<and> objtbl_wf strtab_opts (pa_strtab p)
     \<and> 8 * length (objtbl_objs (pa_strtab p)) \<le> plen p \<and> str_addrs p \<subseteq> {..<plen p}
     \<and> (\<forall>e \<in> entries p. str_img (str_addrs p) (pmem p) (entry_cvalue e) (cstr (se_str e)))"

text \<open>What a step leaves as it was: the program so far, up to a hole, and the strings\<close>

definition ext :: "nat set \<Rightarrow> vulnspec_parser \<Rightarrow> vulnspec_parser \<Rightarrow> bool" where
  "ext H p p' \<longleftrightarrow> plen p \<le> plen p' \<and> str_addrs p \<subseteq> str_addrs p' \<and> str_addrs p' \<subseteq> str_addrs p \<union> {plen p..}
     \<and> agree ({..<plen p} - H) (pmem p) (pmem p') \<and> pa_vtype p' = pa_vtype p"

lemma ext_refl: "ext H p p"
  by (simp add: ext_def agree_refl)

lemma ext_trans:
  assumes "ext H p p1" "ext H' p1 p2" "H' \<inter> {..<plen p} \<subseteq> H"
  shows "ext H p p2"
proof -
  have "{..<plen p} - H \<subseteq> {..<plen p1} - H'" using assms(1,3) by (auto simp: ext_def)
  then have "agree ({..<plen p} - H) (pmem p1) (pmem p2)" using assms(2) agree_mono by (auto simp: ext_def)
  then have "agree ({..<plen p} - H) (pmem p) (pmem p2)" using assms(1) agree_trans by (auto simp: ext_def)
  moreover have "{plen p1..} \<subseteq> {plen p..}" using assms(1) by (auto simp: ext_def)
  ultimately show ?thesis using assms(1,2) by (auto simp: ext_def)
qed

lemma pbind_Done: "m p = Done (Inr x, p1) \<Longrightarrow> pbind m f p = f x p1"
  by (simp add: pbind_def)

text \<open>Steps of the reader do not touch the program.\<close>

lemma reader_inv:
  assumes "parser_inv ok p" "buf_wf ok (vr_sval r)"
  shows "parser_inv ok (p\<lparr>pa_r := r\<rparr>)" "ext H p (p\<lparr>pa_r := r\<rparr>)" "ext H (p\<lparr>pa_r := r\<rparr>) p' = ext H p p'"
    "str_addrs (p\<lparr>pa_r := r\<rparr>) = str_addrs p"
proof -
  have e: "entries (p\<lparr>pa_r := r\<rparr>) = entries p" by (simp add: entries_def)
  then show s: "str_addrs (p\<lparr>pa_r := r\<rparr>) = str_addrs p" by (simp add: str_addrs_def)
  show "parser_inv ok (p\<lparr>pa_r := r\<rparr>)" using assms e s by (simp add: parser_inv_def)
  show "ext H p (p\<lparr>pa_r := r\<rparr>)" "ext H (p\<lparr>pa_r := r\<rparr>) p' = ext H p p'" using s by (simp_all add: ext_def agree_refl)
qed

lemma token_step:
  assumes "parser_inv ok p" "grants ok" "spells (t # ts) (pinput p)" "str_size t < 2 ^ 32"
  obtains r where "next_token ok p = Done (Inr (tok_kind t), p\<lparr>pa_r := r\<rparr>)" "parser_inv ok (p\<lparr>pa_r := r\<rparr>)"
    "spells ts (vr_input r)" "tok_value t r"
proof -
  have wf: "buf_wf ok (vr_sval (pa_r p))" using assms(1) by (simp add: parser_inv_def)
  have g: "\<not> refuses ok (str_size t)" using assms(2,4) by (intro grants_refuses) auto
  obtain r where r: "vulnspec_read_token ok (pa_r p) = Done (tok_kind t, r)" "spells ts (vr_input r)"
    "buf_wf ok (vr_sval r)" "tok_value t r" by (rule read_token_spelled [OF assms(3) wf g])
  show thesis
    by (rule that [of r]) (use r reader_inv(1) [OF assms(1) r(3)] in \<open>simp_all add: next_token_def preturn_def\<close>)
qed

lemma expect_step:
  assumes "parser_inv ok p" "grants ok" "spells (t # ts) (pinput p)" "str_size t < 2 ^ 32"
  obtains r where "expect ok (tok_kind t) p = Done (Inr (), p\<lparr>pa_r := r\<rparr>)" "parser_inv ok (p\<lparr>pa_r := r\<rparr>)"
    "spells ts (vr_input r)" "tok_value t r"
proof -
  obtain r where r: "next_token ok p = Done (Inr (tok_kind t), p\<lparr>pa_r := r\<rparr>)" "parser_inv ok (p\<lparr>pa_r := r\<rparr>)"
    "spells ts (vr_input r)" "tok_value t r" by (rule token_step [OF assms])
  show thesis
    by (rule that [of r]) (use r in \<open>simp_all add: expect_def pbind_def preturn_def\<close>)
qed

section \<open>Allocating and storing\<close>

text \<open>The program after an allocation: longer, with zeros behind it\<close>

lemma alloc_step:
  assumes inv: "parser_inv ok p" and g: "grants ok" and n: "0 < n" "plen p + n + 8 < 2 ^ 32"
  obtains p' where "progn_alloc ok n p = Done (Inr (of_nat (plen p)), p')" "parser_inv ok p'" "ext {} p p'"
    "plen p + n \<le> plen p'" "plen p' < plen p + n + 8" "str_addrs p' = str_addrs p" "pa_r p' = pa_r p" "pa_strtab p' = pa_strtab p"
    "plen p' \<le> length (pmem p')" "\<And>a. plen p \<le> a \<Longrightarrow> a < plen p' \<Longrightarrow> pmem p' ! a = NUL"
proof -
  let ?b = "pa_progn p"
  have wf: "buf_wf ok ?b" and clean: "\<And>a. plen p \<le> a \<Longrightarrow> a < length (pmem p) \<Longrightarrow> pmem p ! a = NUL"
    using inv by (auto simp: parser_inv_def)
  have un: "unat (of_nat n :: size_t) = n" using n(2) by (intro unat_of_nat_small) simp
  have n0: "(of_nat n :: size_t) \<noteq> 0" using n(1) un by (metis unat_0 less_numeral_extra(3))
  have lt: "unat (of_nat n :: size_t) < 2 ^ 62" using n(2) un by simp
  have gr: "\<not> refuses ok (plen p + unat (of_nat n :: size_t))" unfolding un using g n(2) by (intro grants_refuses) auto
  obtain b1 where b1: "buf_alloc ok ?b (of_nat n) = Some (0, Some (buf_len ?b), b1)" "buf_wf ok b1"
    "unat (buf_len b1) = plen p + n"
    by (rule buf_alloc_spec [OF wf lt n0]) (use gr un in auto)
  obtain k1 where k1: "mem b1 = pmem p @ replicate k1 NUL" using buf_alloc_mem [OF wf b1(1)] by blast
  have gr1: "\<not> refuses ok (unat (buf_len b1) + 8)" unfolding b1(3) using g n(2) by (intro grants_refuses) auto
  have l1: "unat (buf_len b1) < 2 ^ 40" using b1(3) n(2) by simp
  obtain b2 k2 where b2: "buf_align ok b1 = Some (0, b2)" "buf_wf ok b2" "mem b2 = mem b1 @ replicate k2 NUL"
    "buf_len b2 = buf_align_offset (buf_len b1)" by (rule buf_align_zeroed [OF b1(2) gr1 l1])
  have al: "unat (buf_len b1) \<le> unat (buf_len b2)" "unat (buf_len b2) < unat (buf_len b1) + 8" "8 dvd unat (buf_len b2)"
    using buf_align_offset_bounds [of "buf_len b1"] l1 b2(4) by auto
  have m: "mem b2 = pmem p @ replicate (k1 + k2) NUL" using k1 b2(3) by (simp add: replicate_add)
  let ?p = "p\<lparr>pa_progn := b2\<rparr>"
  have "\<not> buf_len ?b > UINT32_MAX" using n(2) by (simp add: UINT32_MAX_def word_less_nat_alt)
  moreover have "(ucast (buf_len ?b) :: u32) = of_nat (plen p)" by simp
  ultimately have r: "progn_alloc ok n p = Done (Inr (of_nat (plen p)), ?p)"
    using b1(1) b2(1) by (simp add: progn_alloc_def vulnspec_progn_alloc_def preturn_def)
  have s: "str_addrs ?p = str_addrs p" "entries ?p = entries p" by (simp_all add: str_addrs_def entries_def)
  have nul: "mem b2 ! a = NUL" if "plen p \<le> a" "a < length (mem b2)" for a
    using clean [of a] that unfolding m by (simp add: nth_append)
  have ag: "agree F (pmem p) (mem b2)" for F unfolding m by (auto simp: agree_def nth_append)
  have le: "plen p \<le> unat (buf_len b2)" using al(1) b1(3) by simp
  have "parser_inv ok ?p"
    using inv b2(2) al(3) le nul s str_img_agree [OF _ ag order_refl] unfolding parser_inv_def by fastforce
  moreover have "ext {} p ?p" using s le ag by (simp add: ext_def)
  moreover have "unat (buf_len b2) \<le> length (mem b2)" using b2(2) by (simp add: buf_wf_def word_le_nat_alt)
  ultimately show thesis
    by (intro that [of ?p]) (use r s al b1(3) nul in auto)
qed

definition upd :: "nat \<Rightarrow> u32 \<Rightarrow> vulnspec_parser \<Rightarrow> vulnspec_parser" where
  "upd off w p = p\<lparr>pa_progn := (pa_progn p)\<lparr>buf_data := Some (wr32 off w (pmem p))\<rparr>\<rparr>"

lemma upd_simps [simp]:
  "plen (upd off w p) = plen p" "pmem (upd off w p) = wr32 off w (pmem p)" "pa_r (upd off w p) = pa_r p"
  "pa_strtab (upd off w p) = pa_strtab p" "pa_vtype (upd off w p) = pa_vtype p" "entries (upd off w p) = entries p"
  "str_addrs (upd off w p) = str_addrs p"
  by (simp_all add: upd_def entries_def str_addrs_def)

lemma plen_le: "parser_inv ok p \<Longrightarrow> plen p \<le> length (pmem p)"
  by (simp add: parser_inv_def buf_wf_def word_le_nat_alt)

lemma put_step: "parser_inv ok p \<Longrightarrow> off + 4 \<le> plen p \<Longrightarrow> put32 off w p = Done (Inr (), upd off w p)"
  using plen_le [of ok p] by (simp add: put32_def put_def poke_def preturn_def upd_def wr32_def)

lemma upd_inv:
  assumes "parser_inv ok p" "off + 4 \<le> plen p" "str_addrs p \<inter> {off..<off + 4} = {}"
  shows "parser_inv ok (upd off w p)"
proof -
  have l: "off + 4 \<le> length (pmem p)" using plen_le [OF assms(1)] assms(2) by simp
  have "agree (str_addrs p) (pmem p) (wr32 off w (pmem p))" using l assms(3) by (rule agree_wr32)
  then have "str_img (str_addrs p) (wr32 off w (pmem p)) (entry_cvalue e) (cstr (se_str e))" if "e \<in> entries p" for e
    using assms(1) that str_img_agree unfolding parser_inv_def by blast
  moreover have "buf_wf ok (pa_progn (upd off w p))"
    using assms(1) l by (simp add: parser_inv_def buf_wf_def upd_def)
  moreover have "wr32 off w (pmem p) ! a = NUL" if "plen p \<le> a" "a < length (pmem p)" for a
    using assms(1,2) that l unfolding parser_inv_def by (subst nth_wr32) auto
  ultimately show ?thesis using assms(1) l unfolding parser_inv_def by simp
qed

lemma upd_ext:
  assumes "ext H p p'" "off + 4 \<le> length (pmem p')" "{off..<off + 4} \<inter> {..<plen p} \<subseteq> H"
  shows "ext H p (upd off w p')"
proof -
  have "({..<plen p} - H) \<inter> {off..<off + 4} = {}" using assms(3) by blast
  then have "agree ({..<plen p} - H) (pmem p') (wr32 off w (pmem p'))" by (rule agree_wr32 [OF assms(2)])
  then show ?thesis using assms(1) agree_trans unfolding ext_def by auto
qed

section \<open>The string table\<close>

lemma memcmp_0: "length s = length t \<Longrightarrow> memcmp s t = 0 \<longleftrightarrow> s = t"
  by (induction s t rule: list_induct2) auto

lemma cstr_no_NUL: "NUL \<notin> set (cstr s)"
  by (auto simp: cstr_def dest: set_takeWhileD)

lemma terminated_prefix:
  assumes "NUL \<notin> set s" "NUL \<notin> set t" "length s \<le> length t" "s @ [NUL] = take (length s + 1) (t @ [NUL])"
  shows "s = t"
proof (cases "length s = length t")
  case True
  then show ?thesis using assms(4) by simp
next
  case False
  then have "s @ [NUL] = take (length s + 1) t" using assms(3,4) by simp
  then have "NUL \<in> set t" by (metis in_set_conv_decomp in_set_takeD)
  then show ?thesis using assms(2) by simp
qed

lemma terminated_take:
  assumes "NUL \<notin> set s" "NUL \<notin> set t"
  shows "take (min (length s + 1) (length t + 1)) (s @ [NUL]) = take (min (length s + 1) (length t + 1)) (t @ [NUL]) \<longleftrightarrow> s = t"
proof (cases "length s \<le> length t")
  case True
  then have "take (min (length s + 1) (length t + 1)) (s @ [NUL]) = s @ [NUL]" "min (length s + 1) (length t + 1) = length s + 1" by simp_all
  then show ?thesis using terminated_prefix [OF assms True] by (metis length_append_singleton Suc_eq_plus1 take_all_iff order_refl)
next
  case False
  then have "take (min (length s + 1) (length t + 1)) (t @ [NUL]) = t @ [NUL]" "min (length s + 1) (length t + 1) = length t + 1" by simp_all
  then show ?thesis using terminated_prefix [OF assms(2,1)] False by (metis length_append_singleton Suc_eq_plus1 take_all_iff order_refl nat_le_linear)
qed

lemma strtab_cmp_0: "strtab_cmp k e = 0 \<longleftrightarrow> map_option (cstr \<circ> se_str) k = map_option (cstr \<circ> se_str) e"
proof (cases "k = None \<or> e = None")
  case True
  then show ?thesis by (cases k; cases e) (auto simp: strtab_cmp_def)
next
  case False
  then obtain a b where ab: "k = Some a" "e = Some b" by auto
  let ?s = "cstr (se_str a)" and ?t = "cstr (se_str b)"
  let ?n = "min (length ?s + 1) (length ?t + 1)"
  have "take ?n (?s @ [NUL]) = take ?n (?t @ [NUL]) \<longleftrightarrow> ?s = ?t"
    by (rule terminated_take [OF cstr_no_NUL cstr_no_NUL])
  then show ?thesis by (simp add: ab strtab_cmp_def strtab_bytes_def Let_def memcmp_0)
qed

lemma strtab_opts_ok: "opts_ok strtab_opts"
proof -
  have "strtab_hash a s = strtab_hash b s" if "strtab_cmp a b = 0" for a b s
    using that unfolding strtab_cmp_0 by (cases a; cases b) (auto simp: strtab_hash_def objtbl_strhash_def)
  moreover have "strtab_cmp a a = 0" "strtab_cmp a b = 0 \<Longrightarrow> strtab_cmp b a = 0"
    "strtab_cmp a b = 0 \<Longrightarrow> strtab_cmp b c = 0 \<Longrightarrow> strtab_cmp a c = 0" for a b c by (simp_all add: strtab_cmp_0)
  ultimately show ?thesis unfolding opts_ok_def strtab_opts_def objtbl_opts.simps by blast
qed

lemma reader_string:
  assumes "buf_wf ok (vr_sval r)" "buf_contents (vr_sval r) = s @ [NUL]"
  shows "vulnspec_reader_string r = (s @ [NUL], length s)"
proof -
  have "unat (buf_len (vr_sval r)) = Suc (length s)" using length_buf_contents [OF assms(1)] assms(2) by simp
  moreover from this have "buf_len (vr_sval r) > 0" by (simp add: word_less_nat_alt)
  ultimately show ?thesis using assms(2) by (simp add: vulnspec_reader_string_def)
qed

lemma cstr_snoc_NUL: "NUL \<notin> set s \<Longrightarrow> cstr (s @ [NUL]) = s"
  by (induction s) (auto simp: cstr_def)

text \<open>A new string: allocated at the end of the program, copied there and entered into the table\<close>

definition add_string :: "bytes \<Rightarrow> u32 \<Rightarrow> strtab_entry objtbl_ctx \<Rightarrow> vulnspec_parser \<Rightarrow> vulnspec_parser" where
  "add_string s off tbl p = p\<lparr>pa_progn := (pa_progn p)\<lparr>buf_data := Some (take (unat off) (pmem p) @ (s @ [NUL])
      @ drop (unat off + length s + 1) (pmem p))\<rparr>, pa_strtab := tbl\<rparr>"

lemma add_string_inv:
  assumes inv: "parser_inv ok p" and s: "NUL \<notin> set s" and off: "8 \<le> unat off" "unat off + length s + 1 \<le> plen p"
    "str_addrs p \<subseteq> {..<unat off}" "plen p < 2 ^ 32"
    and tbl: "objtbl_wf strtab_opts tbl"
      "set (objtbl_objs tbl) = insert (Some \<lparr>se_str = s @ [NUL], se_val = off\<rparr>) (set (objtbl_objs (pa_strtab p)))"
      "8 * (length (objtbl_objs (pa_strtab p)) + 1) \<le> plen p"
  shows "parser_inv ok (add_string s off tbl p)"
    and "str_addrs (add_string s off tbl p) = str_addrs p \<union> {unat off..unat off + length s}"
    and "agree {..<unat off} (pmem p) (pmem (add_string s off tbl p))"
    and "str_img (str_addrs (add_string s off tbl p)) (pmem (add_string s off tbl p))
      \<lparr>cv_length = of_nat (length s + 1), cv_offset = off\<rparr> s"
proof -
  let ?e = "\<lparr>se_str = s @ [NUL], se_val = off\<rparr>" and ?p = "add_string s off tbl p"
  let ?m = "take (unat off) (pmem p) @ (s @ [NUL]) @ drop (unat off + length s + 1) (pmem p)"
  note cs = cstr_snoc_NUL [OF s]
  have l: "plen p \<le> length (pmem p)" by (rule plen_le [OF inv])
  have lm: "length ?m = length (pmem p)" using l off(2) by simp
  have p: "pmem ?p = ?m" "plen ?p = plen p" "pa_r ?p = pa_r p" "pa_strtab ?p = tbl" by (simp_all add: add_string_def)
  have ent: "entries ?p = insert ?e (entries p)" using tbl(2) by (auto simp: entries_def p)
  then show sa: "str_addrs ?p = str_addrs p \<union> {unat off..unat off + length s}"
    by (auto simp: str_addrs_def entry_addrs_def cs)
  show ag: "agree {..<unat off} (pmem p) (pmem ?p)" using l off(2) by (auto simp: agree_def p nth_append)
  have len: "unat (of_nat (length s + 1) :: u32) = length s + 1" using off(2,4) by (intro unat_of_nat_small) simp
  have b: "?m ! (unat off + i) = (s @ [NUL]) ! i \<and> unat off + i < length ?m" if "i \<le> length s" for i
    using that l off(2) unfolding lm by (auto simp: nth_append)
  show new: "str_img (str_addrs ?p) (pmem ?p) \<lparr>cv_length = of_nat (length s + 1), cv_offset = off\<rparr> s"
    unfolding str_img_def p sa using s len off(1) b by auto
  have old: "str_img (str_addrs ?p) (pmem ?p) (entry_cvalue e) (cstr (se_str e))" if "e \<in> entries p" for e
  proof (rule str_img_agree)
    show "str_img (str_addrs p) (pmem p) (entry_cvalue e) (cstr (se_str e))" using inv that by (simp add: parser_inv_def)
  qed (use agree_mono [OF ag off(3)] sa in auto)
  have "length (objtbl_objs tbl) = card (set (objtbl_objs tbl))" using distinct_objs [OF tbl(1)] by (simp add: distinct_card)
  also have "\<dots> \<le> length (objtbl_objs (pa_strtab p)) + 1" unfolding tbl(2) using card_insert_le_m1 card_length by (metis card_insert_if finite_set le_SucI Suc_eq_plus1 add_le_mono1)
  finally have "8 * length (objtbl_objs tbl) \<le> plen p" using tbl(3) by simp
  moreover have "buf_wf ok (pa_progn ?p)" using inv lm by (simp add: parser_inv_def buf_wf_def add_string_def)
  moreover have "?m ! a = NUL" if "plen p \<le> a" "a < length ?m" for a
    using inv that lm off(2) l unfolding parser_inv_def by (auto simp: nth_append)
  moreover have "str_addrs ?p \<subseteq> {..<plen p}" using off(2,3) sa by auto
  moreover have "str_img (str_addrs ?p) (pmem ?p) (entry_cvalue ?e) (cstr (se_str ?e))"
    using new by (simp add: entry_cvalue_def strtab_bytes_def cs)
  ultimately show "parser_inv ok ?p" using inv tbl(1) old ent unfolding parser_inv_def p by auto
qed

lemma loads_new:
  assumes inv: "parser_inv ok p" and g: "grants ok" and s: "NUL \<notin> set s" and len: "plen p + length s + 16 < 2 ^ 32"
    and absent: "others strtab_opts (Some \<lparr>se_str = s @ [NUL], se_val = 0\<rparr>) (set (objtbl_objs (pa_strtab p))) = set (objtbl_objs (pa_strtab p))"
  obtains cv p' where "pbind (progn_alloc ok (length s + 1)) (\<lambda>val.
      pbind (put (unat val) (s @ [NUL])) (\<lambda>_ p.
        case strtab_new ok (s @ [NUL]) val of
          None \<Rightarrow> bail VULNSPEC_ESTRTAB p
        | Some ent \<Rightarrow>
            (case objtbl_insert ok (pa_strtab p) (Some ent) of
               None \<Rightarrow> Timeout
             | Some (ret, tbl) \<Rightarrow>
                 if ret \<noteq> OBJTBL_OK then bail VULNSPEC_ESTRTAB (p\<lparr>pa_strtab := tbl\<rparr>)
                 else preturn (entry_cvalue ent) (p\<lparr>pa_strtab := tbl\<rparr>)))) p = Done (Inr cv, p')"
    "parser_inv ok p'" "ext {} p p'" "plen p' \<le> plen p + length s + 8" "pa_r p' = pa_r p"
    "str_img (str_addrs p') (pmem p') cv s"
proof -
  let ?off = "of_nat (plen p) :: u32"
  obtain p1 where p1: "progn_alloc ok (length s + 1) p = Done (Inr ?off, p1)" "parser_inv ok p1" "ext {} p p1"
    "plen p + (length s + 1) \<le> plen p1" "plen p1 < plen p + (length s + 1) + 8" "str_addrs p1 = str_addrs p" "pa_r p1 = pa_r p"
    "pa_strtab p1 = pa_strtab p" "plen p1 \<le> length (pmem p1)"
    by (rule alloc_step [OF inv g, of "length s + 1"]) (use len in auto)
  have uo: "unat ?off = plen p" using len by (intro unat_of_nat_small) simp
  let ?e = "\<lparr>se_str = s @ [NUL], se_val = ?off\<rparr>"
  have i: "8 dvd plen p" "8 dvd plen p1" "8 \<le> plen p" "str_addrs p \<subseteq> {..<plen p}" "8 * length (objtbl_objs (pa_strtab p)) \<le> plen p"
    "objtbl_wf strtab_opts (pa_strtab p)" using inv p1(2) by (auto simp: parser_inv_def)
  have "others strtab_opts (Some ?e) S = others strtab_opts (Some \<lparr>se_str = s @ [NUL], se_val = 0\<rparr>) S" for S
    by (simp add: others_def strtab_opts_def strtab_cmp_0)
  then obtain tbl where tbl: "objtbl_insert ok (pa_strtab p) (Some ?e) = Some (OBJTBL_OK, tbl)" "objtbl_wf strtab_opts tbl"
    "set (objtbl_objs tbl) = insert (Some ?e) (set (objtbl_objs (pa_strtab p)))"
    using objtbl_insert_granted [OF i(6), of ok ?e] absent i(5) len g by (auto simp: grants_def)
  obtain k k1 where k: "plen p = 8 * k" "plen p1 = 8 * k1" using i(1,2) by (auto elim!: dvdE)
  then have "k < k1" using p1(4) by simp
  then have n: "plen p + 8 \<le> plen p1" using k by simp
  let ?p = "add_string s ?off tbl p1"
  have "parser_inv ok ?p" "str_addrs ?p = str_addrs p1 \<union> {unat ?off..unat ?off + length s}"
    "agree {..<unat ?off} (pmem p1) (pmem ?p)"
    "str_img (str_addrs ?p) (pmem ?p) \<lparr>cv_length = of_nat (length s + 1), cv_offset = ?off\<rparr> s"
    by (rule add_string_inv [OF p1(2) s]; (use uo i n p1 len tbl in \<open>simp; fail\<close>)?)+
  note a = this
  have ex: "ext {} p ?p"
    using p1(3,6) a(2,3) uo agree_trans [of "{..<plen p}" "pmem p" "pmem p1" "pmem ?p"]
    by (auto simp: ext_def add_string_def)
  have cs: "cstr (s @ [NUL]) = s" by (rule cstr_snoc_NUL [OF s])
  have "unat (of_nat (length s + 1) :: size_t) = length s + 1" using len by (intro unat_of_nat_small) simp
  then have mk: "strtab_new ok (s @ [NUL]) ?off = Some ?e"
    using g len unfolding strtab_new_def cs grants_def by simp
  have pk: "put (unat ?off) (s @ [NUL]) p1 = Done (Inr (), ?p\<lparr>pa_strtab := pa_strtab p1\<rparr>)"
    using uo p1(4,9) by (simp add: put_def poke_def preturn_def add_string_def)
  have cv: "entry_cvalue ?e = \<lparr>cv_length = of_nat (length s + 1), cv_offset = ?off\<rparr>"
    by (simp add: entry_cvalue_def strtab_bytes_def cs)
  show thesis
    by (rule that [of "entry_cvalue ?e" ?p])
      (use a(1,4) ex p1 pk mk tbl(1) cv in \<open>simp_all add: pbind_def preturn_def add_string_def\<close>)
qed

text \<open>A string is read and found or entered; its length and offset are returned.\<close>

lemma loads_step:
  assumes inv: "parser_inv ok p" and g: "grants ok" and sp: "spells (Str s # ts) (pinput p)" and s: "NUL \<notin> set s"
    and len: "plen p + length s + 16 < 2 ^ 32"
  obtains cv p' where "loads ok p = Done (Inr cv, p')" "parser_inv ok p'" "ext {} p p'" "plen p' \<le> plen p + length s + 8"
    "spells ts (pinput p')" "str_img (str_addrs p') (pmem p') cv s"
proof -
  have "str_size (Str s) < 2 ^ 32" using len by simp
  then obtain r where r: "expect ok VULNSPEC_TSTRING p = Done (Inr (), p\<lparr>pa_r := r\<rparr>)" "parser_inv ok (p\<lparr>pa_r := r\<rparr>)"
    "spells ts (vr_input r)" "tok_value (Str s) r" using expect_step [OF inv g sp] by auto
  let ?p = "p\<lparr>pa_r := r\<rparr>" and ?k = "\<lparr>se_str = s @ [NUL], se_val = 0\<rparr>"
  have wf: "buf_wf ok (vr_sval r)" "objtbl_wf strtab_opts (pa_strtab p)" using r(2) by (auto simp: parser_inv_def)
  have str: "vulnspec_reader_string r = (s @ [NUL], length s)" using reader_string [OF wf(1)] r(4) by simp
  note ri = reader_inv [OF inv wf(1)]
  consider (found) y where "y \<in> set (objtbl_objs (pa_strtab p))" "strtab_cmp (Some ?k) y = 0"
      "objtbl_get (pa_strtab p) (Some ?k) = Some (OBJTBL_OK, Some y)"
    | (absent) "others strtab_opts (Some ?k) (set (objtbl_objs (pa_strtab p))) = set (objtbl_objs (pa_strtab p))"
      "objtbl_get (pa_strtab p) (Some ?k) = Some (OBJTBL_ENOTFOUND, None)"
    using objtbl_get_set [OF wf(2), of ?k] by (auto simp: strtab_opts_def)
  then show thesis
  proof cases
    case found
    have "map_option (cstr \<circ> se_str) y = Some s" using found(2) cstr_snoc_NUL [OF s] unfolding strtab_cmp_0 by simp
    then obtain e where e: "y = Some e" "cstr (se_str e) = s" by auto
    then have "str_img (str_addrs p) (pmem p) (entry_cvalue e) s" using inv found(1) by (auto simp: parser_inv_def entries_def)
    moreover have "loads ok p = Done (Inr (entry_cvalue e), ?p)"
      using r(1) str s found(3) e(1) by (simp add: loads_def pbind_def preturn_def)
    ultimately show thesis using that [of "entry_cvalue e" ?p] r(2,3) ri by simp
  next
    case absent
    obtain cv p' where p': "pbind (progn_alloc ok (length s + 1)) (\<lambda>val.
      pbind (put (unat val) (s @ [NUL])) (\<lambda>_ p.
        case strtab_new ok (s @ [NUL]) val of
          None \<Rightarrow> bail VULNSPEC_ESTRTAB p
        | Some ent \<Rightarrow>
            (case objtbl_insert ok (pa_strtab p) (Some ent) of
               None \<Rightarrow> Timeout
             | Some (ret, tbl) \<Rightarrow>
                 if ret \<noteq> OBJTBL_OK then bail VULNSPEC_ESTRTAB (p\<lparr>pa_strtab := tbl\<rparr>)
                 else preturn (entry_cvalue ent) (p\<lparr>pa_strtab := tbl\<rparr>)))) ?p = Done (Inr cv, p')"
      "parser_inv ok p'" "ext {} ?p p'" "plen p' \<le> plen ?p + length s + 8" "pa_r p' = pa_r ?p"
      "str_img (str_addrs p') (pmem p') cv s"
      by (rule loads_new [OF r(2) g s]) (use len absent(1) in simp_all)
    have "loads ok p = Done (Inr cv, p')"
      using r(1) str s absent(2) p'(1) by (simp add: loads_def pbind_def)
    then show thesis using that [of cv p'] p'(2-6) r(3) ri(3) by simp
  qed
qed

section \<open>Nodes\<close>

text \<open>Reading and storing fields by the number of their address\<close>

definition rdn :: "bytes \<Rightarrow> nat \<Rightarrow> u32 run" where
  "rdn m a = rd32 m (of_nat a)"

lemma rdn_Done: "a < 2 ^ 40 \<Longrightarrow> a + 4 \<le> length m \<Longrightarrow> rdn m a = Done (le32 (take 4 (drop a m)))"
  by (simp add: rdn_def rd32_def unat_of_nat)

lemma rdn_wr32: "a < 2 ^ 40 \<Longrightarrow> a + 4 \<le> length m \<Longrightarrow> rdn (wr32 a w m) a = Done w"
  using rd32_wr32 [of "of_nat a" m w] by (simp add: rdn_def unat_of_nat)

lemma rdn_wr32_other: "a < 2 ^ 40 \<Longrightarrow> off + 4 \<le> length m \<Longrightarrow> a + 4 \<le> off \<or> off + 4 \<le> a \<Longrightarrow> rdn (wr32 off w m) a = rdn m a"
  using rd32_wr32_other [of off m "of_nat a" w] by (simp add: rdn_def unat_of_nat)

lemma ucast_of_nat_u32: "o' < 2 ^ 32 \<Longrightarrow> (ucast (of_nat o' :: u32) :: size_t) = of_nat o'"
  by (intro word_unat_eq_iff [THEN iffD2]) (simp add: unat_of_nat)

lemma rd_nodes:
  assumes "o' < 2 ^ 32"
  shows "rd_compar m (ucast (of_nat o' :: u32)) =
      andThen (rdn m o') (\<lambda>t. andThen (andThen (rdn m (o' + 4)) (\<lambda>l. andThen (rdn m (o' + 8)) (\<lambda>v. Done \<lparr>cv_length = l, cv_offset = v\<rparr>))) (\<lambda>vp.
      andThen (rdn m (o' + 12)) (\<lambda>vt.
      andThen (andThen (rdn m (o' + 16)) (\<lambda>n. andThen (rdn m (o' + 20)) (\<lambda>a. andThen (rdn m (o' + 24)) (\<lambda>b.
        andThen (rdn m (o' + 28)) (\<lambda>c. andThen (rdn m (o' + 32)) (\<lambda>d. Done \<lparr>vv_nused = unat n, vv_fields = [a, b, c, d]\<rparr>)))))) (\<lambda>vague.
      andThen (andThen (rdn m (o' + 16)) (\<lambda>l. andThen (rdn m (o' + 20)) (\<lambda>v. Done \<lparr>cv_length = l, cv_offset = v\<rparr>))) (\<lambda>cval.
        Done \<lparr>cn_type = t, cn_vendprod = vp, cn_vtype = vt, cn_vague = vague, cn_cval = cval\<rparr>)))))"
    and "rd_boolean m (ucast (of_nat o' :: u32)) =
      andThen (rdn m o') (\<lambda>t. andThen (rdn m (o' + 4)) (\<lambda>n. andThen (rdn m (o' + 8)) (\<lambda>v.
        Done \<lparr>bn_type = t, bn_next = n, bn_value = v\<rparr>)))"
    and "rd_cve m (ucast (of_nat o' :: u32)) =
      andThen (rdn m o') (\<lambda>t. andThen (rdn m (o' + 4)) (\<lambda>n. andThen (rdn m (o' + 8)) (\<lambda>c2.
      andThen (rdn m (o' + 12)) (\<lambda>c3.
      andThen (andThen (rdn m (o' + 16)) (\<lambda>l. andThen (rdn m (o' + 20)) (\<lambda>v. Done \<lparr>cv_length = l, cv_offset = v\<rparr>))) (\<lambda>i.
      andThen (andThen (rdn m (o' + 24)) (\<lambda>l. andThen (rdn m (o' + 28)) (\<lambda>v. Done \<lparr>cv_length = l, cv_offset = v\<rparr>))) (\<lambda>d.
      andThen (rdn m (o' + 32)) (\<lambda>e.
        Done \<lparr>ce_type = t, ce_next = n, ce_cvss2_base = c2, ce_cvss3_base = c3, ce_id = i,
            ce_description = d, ce_vulnexpr = e\<rparr>)))))))"
  unfolding ucast_of_nat_u32 [OF assms] rd_compar_def rd_boolean_def rd_cve_def rd_cvalue_def rd_vague_def rdn_def
  by (simp_all add: add.assoc)

lemma put_at: "plen p \<le> length (pmem p) \<Longrightarrow> off + 4 \<le> plen p \<Longrightarrow> put32 off w p = Done (Inr (), upd off w p)"
  by (simp add: put32_def put_def poke_def preturn_def upd_def wr32_def)

lemma put_cvalue_at:
  "plen p \<le> length (pmem p) \<Longrightarrow> off + 8 \<le> plen p \<Longrightarrow>
    put_cvalue off cv p = Done (Inr (), upd (off + 4) (cv_offset cv) (upd off (cv_length cv) p))"
  by (simp add: put_cvalue_def pbind_def put_at)

lemma put_vague_at:
  "plen p \<le> length (pmem p) \<Longrightarrow> off + 20 \<le> plen p \<Longrightarrow>
    put_vague off v p = Done (Inr (), upd (off + 16) (vv_fields v ! 3) (upd (off + 12) (vv_fields v ! 2)
      (upd (off + 8) (vv_fields v ! 1) (upd (off + 4) (vv_fields v ! 0) (upd off (of_nat (vv_nused v)) p)))))"
  by (simp add: put_vague_def pbind_def put_at)

text \<open>The addresses of a node that was allocated before are not those of strings.\<close>

lemma node_disjoint:
  assumes "parser_inv ok p" "ext {} p p1" "str_addrs p1 = str_addrs p" "plen p + n \<le> plen p1" "ext H p1 p2"
  shows "plen p \<le> a \<Longrightarrow> a + 4 \<le> plen p + n \<Longrightarrow> str_addrs p2 \<inter> {a..<a + 4} = {}"
proof -
  assume a: "plen p \<le> a" "a + 4 \<le> plen p + n"
  have "str_addrs p \<subseteq> {..<plen p}" using assms(1) by (simp add: parser_inv_def)
  moreover have "str_addrs p2 \<subseteq> str_addrs p1 \<union> {plen p1..}" using assms(5) by (simp add: ext_def)
  ultimately show ?thesis using a assms(3,4) by fastforce
qed

lemma vaguever_init_shape:
  assumes "vaguever_init s = Some v"
  shows "vv_nused v \<le> 4" "vv_fields v = [vv_fields v ! 0, vv_fields v ! 1, vv_fields v ! 2, vv_fields v ! 3]"
proof -
  have "vv_loop t i x h fs = Some (j, gs) \<Longrightarrow> i \<le> 4 \<Longrightarrow> length fs = 4 \<Longrightarrow> j \<le> 4 \<and> length gs = 4" for t i x h fs j gs
    by (induction t arbitrary: i x h fs) (auto simp: Let_def VAGUEVER_NFIELDS_def split: if_splits)
  then have l: "vv_nused v \<le> 4" "length (vv_fields v) = 4"
    using assms by (auto simp: vaguever_init_def VAGUEVER_NFIELDS_def)
  then show "vv_nused v \<le> 4" by simp
  show "vv_fields v = [vv_fields v ! 0, vv_fields v ! 1, vv_fields v ! 2, vv_fields v ! 3]"
    using l(2) by (cases "vv_fields v" rule: list.exhaust) (auto simp: length_Suc_conv numeral_eq_Suc)
qed

text \<open>What a step of the compiler for an expression establishes\<close>

definition compiled :: "allocator \<Rightarrow> vulnspec_parser \<Rightarrow> vulnspec_parser \<Rightarrow> nat \<Rightarrow> tok list \<Rightarrow> bool" where
  "compiled ok p p' n ts \<longleftrightarrow> parser_inv ok p' \<and> ext {} p p' \<and> plen p' \<le> plen p + n \<and> spells ts (pinput p')"

text \<open>While a node is filled, the program before it and the strings stay.\<close>

definition filling :: "allocator \<Rightarrow> vulnspec_parser \<Rightarrow> vulnspec_parser \<Rightarrow> vulnspec_parser \<Rightarrow> bool" where
  "filling ok p0 p2 p \<longleftrightarrow> parser_inv ok p \<and> ext {} p0 p \<and> agree (str_addrs p2) (pmem p2) (pmem p) \<and> str_addrs p = str_addrs p2
     \<and> plen p = plen p2 \<and> pinput p = pinput p2"

lemma filling_refl: "parser_inv ok p \<Longrightarrow> ext {} p0 p \<Longrightarrow> filling ok p0 p p"
  by (simp add: filling_def agree_refl)

lemma filling_upd:
  assumes "filling ok p0 p2 p" "plen p0 \<le> a" "a + 4 \<le> plen p2" "str_addrs p2 \<inter> {a..<a + 4} = {}"
  shows "filling ok p0 p2 (upd a w p)"
proof -
  have f: "parser_inv ok p" "ext {} p0 p" "agree (str_addrs p2) (pmem p2) (pmem p)" "str_addrs p = str_addrs p2" "plen p = plen p2"
    using assms(1) by (auto simp: filling_def)
  have l: "a + 4 \<le> length (pmem p)" using plen_le [OF f(1)] assms(3) f(5) by simp
  have "parser_inv ok (upd a w p)" using upd_inv [OF f(1)] assms(3,4) f(4,5) by simp
  moreover have "{a..<a + 4} \<inter> {..<plen p0} \<subseteq> {}" using assms(2) by auto
  then have "ext {} p0 (upd a w p)" by (rule upd_ext [OF f(2) l])
  moreover have "agree (str_addrs p2) (pmem p2) (wr32 a w (pmem p))"
    by (rule agree_trans [OF f(3) agree_wr32 [OF l assms(4)]])
  ultimately show ?thesis using assms(1) by (simp add: filling_def)
qed

lemma filling_node:
  assumes "\<And>a. plen p0 \<le> a \<Longrightarrow> a + 4 \<le> plen p0 + n \<Longrightarrow> str_addrs p2 \<inter> {a..<a + 4} = {}" "plen p0 + n \<le> plen p2"
  shows "filling ok p0 p2 p \<Longrightarrow> plen p0 \<le> a \<Longrightarrow> a + 4 \<le> plen p0 + n \<Longrightarrow> filling ok p0 p2 (upd a w p)"
  using filling_upd [of ok p0 p2 p a w] assms by simp

lemma compar_node_vague:
  assumes "o' + 36 \<le> length m" "o' < 2 ^ 32" "vaguever_init ver = Some v"
  shows "rd_compar (wr32 (o' + 32) (vv_fields v ! 3) (wr32 (o' + 28) (vv_fields v ! 2) (wr32 (o' + 24) (vv_fields v ! 1)
      (wr32 (o' + 20) (vv_fields v ! 0) (wr32 (o' + 16) (of_nat (vv_nused v)) (wr32 (o' + 8) vo (wr32 (o' + 4) vl
      (wr32 (o' + 12) vt (wr32 o' t m))))))))) (ucast (of_nat o' :: u32))
    = Done \<lparr>cn_type = t, cn_vendprod = \<lparr>cv_length = vl, cv_offset = vo\<rparr>, cn_vtype = vt, cn_vague = v,
        cn_cval = \<lparr>cv_length = of_nat (vv_nused v), cv_offset = vv_fields v ! 0\<rparr>\<rparr>"
proof -
  note v = vaguever_init_shape [OF assms(3)]
  have "unat (of_nat (vv_nused v) :: u32) = vv_nused v" using v(1) by (intro unat_of_nat_small) simp
  then have "\<lparr>vv_nused = unat (of_nat (vv_nused v) :: u32), vv_fields = [vv_fields v ! 0, vv_fields v ! 1, vv_fields v ! 2, vv_fields v ! 3]\<rparr> = v"
    using v(2) by simp
  then show ?thesis
    using assms(1,2) by (simp add: rd_nodes rdn_wr32 rdn_wr32_other)
qed

lemma compar_node_cval:
  assumes "o' + 36 \<le> length m" "o' < 2 ^ 32"
  shows "\<exists>vague. rd_compar (wr32 (o' + 20) co (wr32 (o' + 16) cl (wr32 (o' + 8) vo (wr32 (o' + 4) vl
      (wr32 (o' + 12) vt (wr32 o' t m)))))) (ucast (of_nat o' :: u32))
    = Done \<lparr>cn_type = t, cn_vendprod = \<lparr>cv_length = vl, cv_offset = vo\<rparr>, cn_vtype = vt, cn_vague = vague,
        cn_cval = \<lparr>cv_length = cl, cv_offset = co\<rparr>\<rparr>"
proof -
  obtain x y z where "rdn m (o' + 24) = Done x" "rdn m (o' + 28) = Done y" "rdn m (o' + 32) = Done z"
    using rdn_Done [of _ m] assms by force
  then show ?thesis using assms by (simp add: rd_nodes rdn_wr32 rdn_wr32_other)
qed

lemma unat_of_nat_u32: "n < 2 ^ 32 \<Longrightarrow> unat (of_nat n :: u32) = n"
  by (rule unat_of_nat_small) simp

text \<open>A node is allocated, and the string that follows is read.\<close>

lemma node_and_string:
  assumes inv: "parser_inv ok p" and g: "grants ok" and sp: "spells (Str s # ts) (pinput p)" and nul: "NUL \<notin> set s"
    and len: "plen p + length s + 72 < 2 ^ 32"
  obtains p1 cv p2 where "progn_alloc ok 36 p = Done (Inr (of_nat (plen p)), p1)" "loads ok p1 = Done (Inr cv, p2)"
    "parser_inv ok p2" "ext {} p p2" "plen p2 \<le> plen p + 44 + length s + 8" "spells ts (pinput p2)"
    "str_img (str_addrs p2) (pmem p2) cv s" "plen p + 36 \<le> plen p2"
    "parser_inv ok p1" "ext {} p p1" "ext {} p1 p2" "str_addrs p1 = str_addrs p" "plen p + 36 \<le> plen p1"
    "\<forall>a. plen p \<le> a \<longrightarrow> a < plen p + 36 \<longrightarrow> pmem p2 ! a = NUL"
proof -
  obtain p1 where p1: "progn_alloc ok 36 p = Done (Inr (of_nat (plen p)), p1)" "parser_inv ok p1" "ext {} p p1"
    "plen p + 36 \<le> plen p1" "plen p1 < plen p + 36 + 8" "str_addrs p1 = str_addrs p" "pa_r p1 = pa_r p"
    "plen p1 \<le> length (pmem p1)" "\<And>a. plen p \<le> a \<Longrightarrow> a < plen p1 \<Longrightarrow> pmem p1 ! a = NUL"
    by (rule alloc_step [OF inv g, of 36]) (use len in auto)
  have sp1: "spells (Str s # ts) (pinput p1)" and l1: "plen p1 + length s + 16 < 2 ^ 32" using sp p1 len by auto
  obtain cv p2 where p2: "loads ok p1 = Done (Inr cv, p2)" "parser_inv ok p2" "ext {} p1 p2"
    "plen p2 \<le> plen p1 + length s + 8" "spells ts (pinput p2)" "str_img (str_addrs p2) (pmem p2) cv s"
    by (rule loads_step [OF p1(2) g sp1 nul l1])
  have "ext {} p p2" using ext_trans [OF p1(3) p2(3)] by simp
  moreover have "pmem p2 ! a = NUL" if "plen p \<le> a" "a < plen p + 36" for a
    using p2(3) p1(4,8,9) that unfolding ext_def agree_def by auto
  moreover have "plen p + 36 \<le> plen p2" using p1(4) p2(3) by (simp add: ext_def)
  ultimately show thesis using p1 p2 by (intro that [of p1 cv p2]) auto
qed

lemma compar_img_at:
  assumes f: "filling ok p p3 p4" and o': "8 \<le> plen p" "plen p < 2 ^ 32" "plen p + 36 \<le> plen p3"
    and rd: "rd_compar (pmem p4) (ucast (of_nat (plen p) :: u32)) = Done node"
    and n: "cn_type node = symbol2node s" "s \<in> {''<'', ''<='', ''='', ''>='', ''>''}" "cn_vtype node = vt" "vt = VULNSPEC_VVAGUE \<or> vt = VULNSPEC_VNALPHA"
    and st: "str_img (str_addrs p3) (pmem p3) (cn_vendprod node) vp"
      "vt = VULNSPEC_VVAGUE \<Longrightarrow> vaguever_init ver = Some (cn_vague node)" "vt \<noteq> VULNSPEC_VVAGUE \<Longrightarrow> str_img (str_addrs p3) (pmem p3) (cn_cval node) ver"
  shows "expr_img ({plen p..<plen p4} \<union> str_addrs p4) (pmem p4) vt (of_nat (plen p)) (SCompar s vp ver)"
proof (rule compar_img)
  have u: "unat (of_nat (plen p) :: u32) = plen p" using o'(2) by (intro unat_of_nat_small) simp
  have fp: "agree (str_addrs p3) (pmem p3) (pmem p4)" "str_addrs p4 = str_addrs p3" "plen p4 = plen p3" using f by (auto simp: filling_def)
  show "8 \<le> unat (of_nat (plen p) :: u32)" "{unat (of_nat (plen p) :: u32)..<unat (of_nat (plen p) :: u32) + 36} \<subseteq> {plen p..<plen p4} \<union> str_addrs p4"
    using o' fp unfolding u by auto
  have "str_addrs p3 \<subseteq> {plen p..<plen p4} \<union> str_addrs p4" using fp by simp
  note si = str_img_agree [OF _ fp(1) this]
  show "str_img ({plen p..<plen p4} \<union> str_addrs p4) (pmem p4) (cn_vendprod node) vp" by (rule si [OF st(1)])
  show "vt \<noteq> VULNSPEC_VVAGUE \<longrightarrow> str_img ({plen p..<plen p4} \<union> str_addrs p4) (pmem p4) (cn_cval node) ver" using si [OF st(3)] by blast
qed (use rd n st in auto)

lemma compar_vague_step:
  assumes inv: "parser_inv ok p" and g: "grants ok" and sp: "spells (Str vp # Str ver # RP # ts) (pinput p)"
    and e: "expr_ok (SCompar s vp ver)" and vt: "pa_vtype p = VULNSPEC_VVAGUE"
    and len: "plen p + length vp + length ver + 96 < 2 ^ 32"
  shows "\<exists>p'. compar ok (symbol2node s) p = Done (Inr (of_nat (plen p)), p')
    \<and> compiled ok p p' (44 + length vp + 8) ts
    \<and> expr_img ({plen p..<plen p'} \<union> str_addrs p') (pmem p') (pa_vtype p) (of_nat (plen p)) (SCompar s vp ver)"
proof -
  let ?o = "plen p" and ?t = "symbol2node s"
  have nul: "NUL \<notin> set vp" "NUL \<notin> set ver" and s: "s \<in> {''<'', ''<='', ''='', ''>='', ''>''}" using e by simp_all
  have lo: "?o < 2 ^ 32" using len by simp
  note uo = unat_of_nat_u32 [OF lo] lo
  have o8: "8 \<le> ?o" using inv by (simp add: parser_inv_def)
  have len1: "?o + length vp + 72 < 2 ^ 32" using len by simp
  obtain p1 cv p2 where p2: "progn_alloc ok 36 p = Done (Inr (of_nat ?o), p1)" "loads ok p1 = Done (Inr cv, p2)"
    "parser_inv ok p2" "ext {} p p2" "plen p2 \<le> ?o + 44 + length vp + 8" "spells (Str ver # RP # ts) (pinput p2)"
    "str_img (str_addrs p2) (pmem p2) cv vp" "?o + 36 \<le> plen p2"
    and p1: "parser_inv ok p1" "ext {} p p1" "ext {} p1 p2" "str_addrs p1 = str_addrs p" "?o + 36 \<le> plen p1"
    by (rule node_and_string [OF inv g sp nul(1) len1])
  have vt2: "pa_vtype p2 = VULNSPEC_VVAGUE" using p2(4) vt by (simp add: ext_def)
  have "str_size (Str ver) < 2 ^ 32" using len by simp
  then obtain r where r: "expect ok VULNSPEC_TSTRING p2 = Done (Inr (), p2\<lparr>pa_r := r\<rparr>)" "parser_inv ok (p2\<lparr>pa_r := r\<rparr>)"
    "spells (RP # ts) (vr_input r)" "tok_value (Str ver) r" using expect_step [OF p2(3) g p2(6)] by auto
  let ?p3 = "p2\<lparr>pa_r := r\<rparr>"
  have wf: "buf_wf ok (vr_sval r)" using r(2) by (simp add: parser_inv_def)
  note ri = reader_inv [OF p2(3) wf]
  have str: "vulnspec_reader_string r = (ver @ [NUL], length ver)" using reader_string [OF wf] r(4) by simp
  obtain v where "vaguever_init ver = Some v" using vaguever_init_returns by blast
  then have v: "vaguever_init ver = Some v" "vaguever_init (ver @ [NUL]) = Some v"
    unfolding vaguever_init_def cstr_snoc_NUL [OF nul(2)] cstr_id [OF nul(2)] by simp_all
  let ?p4 = "upd (?o + 32) (vv_fields v ! 3) (upd (?o + 28) (vv_fields v ! 2) (upd (?o + 24) (vv_fields v ! 1)
      (upd (?o + 20) (vv_fields v ! 0) (upd (?o + 16) (of_nat (vv_nused v)) (upd (?o + 8) (cv_offset cv)
      (upd (?o + 4) (cv_length cv) (upd (?o + 12) VULNSPEC_VVAGUE (upd ?o ?t ?p3))))))))"
  have l: "plen p2 \<le> length (pmem p2)" by (rule plen_le [OF p2(3)])
  have d: "str_addrs ?p3 \<inter> {a..<a + 4} = {}" if "?o \<le> a" "a + 4 \<le> ?o + 36" for a
    using node_disjoint [OF inv p1(2,4,5,3) that] ri by simp
  have "ext {} p ?p3" using p2(4) by (simp add: ext_def str_addrs_def entries_def)
  then have "filling ok p ?p3 ?p3" by (rule filling_refl [OF r(2)])
  moreover have "?o + 36 \<le> plen ?p3" using p2(8) by simp
  note fill = filling_node [of p 36 ?p3, OF d this]
  ultimately have f: "filling ok p ?p3 ?p4" by (intro fill) simp_all
  then have i4: "parser_inv ok ?p4" "ext {} p ?p4" by (auto simp: filling_def)
  have "spells (RP # ts) (pinput ?p4)" using r(3) by simp
  then obtain r5 where r5: "expect ok VULNSPEC_TRPAREN ?p4 = Done (Inr (), ?p4\<lparr>pa_r := r5\<rparr>)" "parser_inv ok (?p4\<lparr>pa_r := r5\<rparr>)"
    "spells ts (vr_input r5)" using expect_step [OF i4(1) g, of RP ts] by auto
  have run: "compar ok ?t p = Done (Inr (of_nat ?o), ?p4\<lparr>pa_r := r5\<rparr>)"
    using p2(1,2,8) vt2 r(1) str v(2) l uo r5(1)
    by (simp add: compar_def pbind_def preturn_def put_at put_cvalue_at put_vague_at add.assoc)
  have rd: "rd_compar (pmem ?p4) (ucast (of_nat ?o :: u32)) = Done \<lparr>cn_type = ?t, cn_vendprod = cv, cn_vtype = VULNSPEC_VVAGUE, cn_vague = v,
        cn_cval = \<lparr>cv_length = of_nat (vv_nused v), cv_offset = vv_fields v ! 0\<rparr>\<rparr>"
    using compar_node_vague [of ?o "pmem p2" ver v "cv_offset cv" "cv_length cv" VULNSPEC_VVAGUE ?t] l p2(8) uo(2) v(1) by simp
  have "expr_img ({?o..<plen ?p4} \<union> str_addrs ?p4) (pmem ?p4) VULNSPEC_VVAGUE (of_nat ?o) (SCompar s vp ver)"
    using p2(7,8) s v(1) ri by (intro compar_img_at [OF f o8 uo(2) _ rd]) simp_all
  moreover have "compiled ok p (?p4\<lparr>pa_r := r5\<rparr>) (44 + length vp + 8) ts"
    using r5 p2(5) i4(2) by (simp add: compiled_def ext_def str_addrs_def entries_def)
  ultimately show ?thesis using run vt by (intro exI [of _ "?p4\<lparr>pa_r := r5\<rparr>"]) (simp add: str_addrs_def entries_def)
qed

lemma compar_cval_step:
  assumes inv: "parser_inv ok p" and g: "grants ok" and sp: "spells (Str vp # Str ver # RP # ts) (pinput p)"
    and e: "expr_ok (SCompar s vp ver)" and vt: "pa_vtype p = VULNSPEC_VNALPHA"
    and len: "plen p + length vp + length ver + 96 < 2 ^ 32"
  shows "\<exists>p'. compar ok (symbol2node s) p = Done (Inr (of_nat (plen p)), p')
    \<and> compiled ok p p' (44 + length vp + 8 + (length ver + 8)) ts
    \<and> expr_img ({plen p..<plen p'} \<union> str_addrs p') (pmem p') (pa_vtype p) (of_nat (plen p)) (SCompar s vp ver)"
proof -
  let ?o = "plen p" and ?t = "symbol2node s"
  have nul: "NUL \<notin> set vp" "NUL \<notin> set ver" and s: "s \<in> {''<'', ''<='', ''='', ''>='', ''>''}" using e by simp_all
  have lo: "?o < 2 ^ 32" using len by simp
  note uo = unat_of_nat_u32 [OF lo] lo
  have o8: "8 \<le> ?o" using inv by (simp add: parser_inv_def)
  have len1: "?o + length vp + 72 < 2 ^ 32" using len by simp
  obtain p1 cv p2 where p2: "progn_alloc ok 36 p = Done (Inr (of_nat ?o), p1)" "loads ok p1 = Done (Inr cv, p2)"
    "parser_inv ok p2" "ext {} p p2" "plen p2 \<le> ?o + 44 + length vp + 8" "spells (Str ver # RP # ts) (pinput p2)"
    "str_img (str_addrs p2) (pmem p2) cv vp" "?o + 36 \<le> plen p2"
    and p1: "parser_inv ok p1" "ext {} p p1" "ext {} p1 p2" "str_addrs p1 = str_addrs p" "?o + 36 \<le> plen p1"
    by (rule node_and_string [OF inv g sp nul(1) len1])
  have vt2: "pa_vtype p2 = VULNSPEC_VNALPHA" using p2(4) vt by (simp add: ext_def)
  have len2: "plen p2 + length ver + 16 < 2 ^ 32" using p2(5) len by simp
  obtain cw p3 where p3: "loads ok p2 = Done (Inr cw, p3)" "parser_inv ok p3" "ext {} p2 p3" "plen p3 \<le> plen p2 + length ver + 8"
    "spells (RP # ts) (pinput p3)" "str_img (str_addrs p3) (pmem p3) cw ver"
    by (rule loads_step [OF p2(3) g p2(6) nul(2) len2])
  have e3: "ext {} p p3" "ext {} p1 p3" using ext_trans [OF p2(4) p3(3)] ext_trans [OF p1(3) p3(3)] by simp_all
  have l3: "?o + 36 \<le> plen p3" "pa_vtype p3 = VULNSPEC_VNALPHA" using p2(8) vt2 p3(3) by (simp_all add: ext_def)
  have st: "str_img (str_addrs p3) (pmem p3) cv vp"
  proof (rule str_img_agree [OF p2(7)])
    have "str_addrs p2 \<subseteq> {..<plen p2}" using p2(3) by (simp add: parser_inv_def)
    then show "agree (str_addrs p2) (pmem p2) (pmem p3)" using p3(3) agree_mono by (auto simp: ext_def)
    show "str_addrs p2 \<subseteq> str_addrs p3" using p3(3) by (simp add: ext_def)
  qed
  let ?p4 = "upd (?o + 20) (cv_offset cw) (upd (?o + 16) (cv_length cw) (upd (?o + 8) (cv_offset cv)
      (upd (?o + 4) (cv_length cv) (upd (?o + 12) VULNSPEC_VNALPHA (upd ?o ?t p3)))))"
  have l: "plen p3 \<le> length (pmem p3)" by (rule plen_le [OF p3(2)])
  have d: "str_addrs p3 \<inter> {a..<a + 4} = {}" if "?o \<le> a" "a + 4 \<le> ?o + 36" for a
    using node_disjoint [OF inv p1(2,4,5) e3(2) that] .
  note fill = filling_node [of p 36 p3, OF d l3(1)]
  have f: "filling ok p p3 ?p4" by (intro fill filling_refl [OF p3(2) e3(1)]) simp_all
  then have i4: "parser_inv ok ?p4" "ext {} p ?p4" by (auto simp: filling_def)
  have "spells (RP # ts) (pinput ?p4)" using p3(5) by simp
  then obtain r5 where r5: "expect ok VULNSPEC_TRPAREN ?p4 = Done (Inr (), ?p4\<lparr>pa_r := r5\<rparr>)" "parser_inv ok (?p4\<lparr>pa_r := r5\<rparr>)"
    "spells ts (vr_input r5)" using expect_step [OF i4(1) g, of RP ts] by auto
  have run: "compar ok ?t p = Done (Inr (of_nat ?o), ?p4\<lparr>pa_r := r5\<rparr>)"
    using p2(1,2) vt2 p3(1) l l3 uo r5(1) vague_not_nalpha
    by (simp add: compar_def pbind_def preturn_def put_at put_cvalue_at add.assoc)
  obtain vague where rd: "rd_compar (pmem ?p4) (ucast (of_nat ?o :: u32))
      = Done \<lparr>cn_type = ?t, cn_vendprod = cv, cn_vtype = VULNSPEC_VNALPHA, cn_vague = vague, cn_cval = cw\<rparr>"
    using compar_node_cval [of ?o "pmem p3" "cv_offset cw" "cv_length cw" "cv_offset cv" "cv_length cv" VULNSPEC_VNALPHA ?t] l l3 uo(2) by auto
  have "expr_img ({?o..<plen ?p4} \<union> str_addrs ?p4) (pmem ?p4) VULNSPEC_VNALPHA (of_nat ?o) (SCompar s vp ver)"
    using st p3(6) l3(1) s vague_not_nalpha by (intro compar_img_at [OF f o8 uo(2) _ rd]) simp_all
  moreover have "compiled ok p (?p4\<lparr>pa_r := r5\<rparr>) (44 + length vp + 8 + (length ver + 8)) ts"
    using r5 p2(5) p3(4) i4(2) by (simp add: compiled_def ext_def str_addrs_def entries_def)
  ultimately show ?thesis using run vt by (intro exI [of _ "?p4\<lparr>pa_r := r5\<rparr>"]) (simp add: str_addrs_def entries_def)
qed

text \<open>The size of the program of an expression, at most\<close>

fun expr_size :: "src_expr \<Rightarrow> nat" where
  "expr_size (SCompar s vp ver) = 60 + length vp + length ver"
| "expr_size (SBool b es) = sum_list (map (\<lambda>e. 20 + expr_size e) es)"
| "expr_size (SNalpha e) = expr_size e"

definition expr_done :: "allocator \<Rightarrow> vulnspec_parser \<Rightarrow> src_expr \<Rightarrow> tok list \<Rightarrow> (status + u32) \<times> vulnspec_parser \<Rightarrow> bool" where
  "expr_done ok p e ts res \<longleftrightarrow> (\<exists>p'. res = (Inr (of_nat (plen p)), p') \<and> compiled ok p p' (expr_size e) ts
     \<and> expr_img ({plen p..<plen p'} \<union> str_addrs p') (pmem p') (pa_vtype p) (of_nat (plen p)) e)"

lemma compar_step:
  assumes "parser_inv ok p" "grants ok" "spells (Str vp # Str ver # RP # ts) (pinput p)" "expr_ok (SCompar s vp ver)"
    "pa_vtype p \<in> {VULNSPEC_VVAGUE, VULNSPEC_VNALPHA}" "plen p + length vp + length ver + 96 < 2 ^ 32"
  shows "\<exists>res. compar ok (symbol2node s) p = Done res \<and> expr_done ok p (SCompar s vp ver) ts res"
proof -
  have mono: "compiled ok p p' (expr_size (SCompar s vp ver)) ts" if "compiled ok p p' n ts" "n \<le> 60 + length vp + length ver" for p' n
    using that by (auto simp: compiled_def)
  show ?thesis
  proof (cases "pa_vtype p = VULNSPEC_VVAGUE")
    case True
    obtain p' where p': "compar ok (symbol2node s) p = Done (Inr (of_nat (plen p)), p')"
      "compiled ok p p' (44 + length vp + 8) ts"
      "expr_img ({plen p..<plen p'} \<union> str_addrs p') (pmem p') (pa_vtype p) (of_nat (plen p)) (SCompar s vp ver)"
      using compar_vague_step [OF assms(1-4) True assms(6)] by blast
    have "compiled ok p p' (expr_size (SCompar s vp ver)) ts" by (rule mono [OF p'(2)]) simp
    then show ?thesis using p'(1,3) unfolding expr_done_def by blast
  next
    case False
    then have vt: "pa_vtype p = VULNSPEC_VNALPHA" using assms(5) by simp
    obtain p' where p': "compar ok (symbol2node s) p = Done (Inr (of_nat (plen p)), p')"
      "compiled ok p p' (44 + length vp + 8 + (length ver + 8)) ts"
      "expr_img ({plen p..<plen p'} \<union> str_addrs p') (pmem p') (pa_vtype p) (of_nat (plen p)) (SCompar s vp ver)"
      using compar_cval_step [OF assms(1-4) vt assms(6)] by blast
    have "compiled ok p p' (expr_size (SCompar s vp ver)) ts" by (rule mono [OF p'(2)]) simp
    then show ?thesis using p'(1,3) unfolding expr_done_def by blast
  qed
qed

section \<open>Connectives\<close>

text \<open>The link of the previous node is the only place before the program's end that a round stores to.\<close>

definition hole :: "u32 \<Rightarrow> nat set" where
  "hole prev = (if prev = 0 then {} else {unat prev + 4..<unat prev + 4 + 4})"

definition prev_ok :: "vulnspec_parser \<Rightarrow> u32 \<Rightarrow> bool" where
  "prev_ok p prev \<longleftrightarrow> prev = 0 \<or> unat prev + 12 \<le> plen p \<and> str_addrs p \<inter> hole prev = {}"

definition relink :: "u32 \<Rightarrow> u32 \<Rightarrow> vulnspec_parser \<Rightarrow> vulnspec_parser" where
  "relink prev w p = (if prev = 0 then p else upd (unat prev + 4) w p)"

lemma relink_simps [simp]:
  "plen (relink prev w p) = plen p" "pa_r (relink prev w p) = pa_r p" "str_addrs (relink prev w p) = str_addrs p"
  "pa_vtype (relink prev w p) = pa_vtype p"
  by (simp_all add: relink_def)

lemma relink_inv:
  assumes "parser_inv ok p" "ext {} p0 p" "prev_ok p0 prev" "str_addrs p \<inter> hole prev = {}"
  shows "parser_inv ok (relink prev w p)" "ext (hole prev) p0 (relink prev w p)" "F \<inter> hole prev = {} \<Longrightarrow> agree F (pmem p) (pmem (relink prev w p))"
proof -
  have l: "prev \<noteq> 0 \<Longrightarrow> unat prev + 12 \<le> plen p" using assms(2,3) by (auto simp: prev_ok_def ext_def)
  have lm: "prev \<noteq> 0 \<Longrightarrow> unat prev + 4 + 4 \<le> length (pmem p)" using l plen_le [OF assms(1)] by simp
  show "parser_inv ok (relink prev w p)"
    using upd_inv [OF assms(1), of "unat prev + 4" w] l assms(1,4) by (auto simp: relink_def hole_def)
  have "ext (hole prev) p0 p" using assms(2) agree_mono [of "{..<plen p0}" _ _ "{..<plen p0} - hole prev"] by (auto simp: ext_def)
  then show "ext (hole prev) p0 (relink prev w p)"
    using upd_ext [of "hole prev" p0 p "unat prev + 4" w] lm by (auto simp: relink_def hole_def)
  show "F \<inter> hole prev = {} \<Longrightarrow> agree F (pmem p) (pmem (relink prev w p))"
    using agree_wr32 [of "unat prev + 4" "pmem p" F w] lm by (auto simp: relink_def hole_def agree_refl)
qed

lemma rdn_agree: "agree F m m' \<Longrightarrow> {a..<a + 4} \<subseteq> F \<Longrightarrow> a < 2 ^ 40 \<Longrightarrow> rdn m a = Done t \<Longrightarrow> rdn m' a = Done t"
  unfolding rdn_def by (erule rd32_agree) (simp_all add: unat_of_nat)

lemma rdn_zero:
  assumes "a < 2 ^ 40" "a + 4 \<le> length m" "\<And>i. i < 4 \<Longrightarrow> m ! (a + i) = NUL"
  shows "rdn m a = Done 0"
proof -
  have "take 4 (drop a m) = replicate 4 NUL" by (rule nth_equalityI) (use assms in auto)
  moreover have "replicate 4 NUL = [NUL, NUL, NUL, NUL]" by (simp add: numeral_eq_Suc)
  ultimately show ?thesis using rdn_Done [OF assms(1,2)] by (simp add: le32_def)
qed

text \<open>An operand of a connective: its node at the end of the program, the operand behind it, and the link to the node\<close>

definition elem_done :: "allocator \<Rightarrow> vulnspec_parser \<Rightarrow> bool \<Rightarrow> src_expr \<Rightarrow> tok list \<Rightarrow> u32 \<Rightarrow> vulnspec_parser \<Rightarrow> nat \<Rightarrow> bool" where
  "elem_done ok p b e ts prev p' q \<longleftrightarrow> parser_inv ok p' \<and> ext (hole prev) p p' \<and> plen p' \<le> plen p + 20 + expr_size e \<and> spells ts (pinput p')
     \<and> plen p + 12 \<le> q \<and> q \<le> plen p' \<and> str_addrs p' \<inter> {plen p..<plen p + 12} = {}
     \<and> rdn (pmem p') (plen p) = Done (bool_node b) \<and> rdn (pmem p') (plen p + 4) = Done 0 \<and> rdn (pmem p') (plen p + 8) = Done (of_nat q)
     \<and> expr_img ({q..<plen p'} \<union> str_addrs p') (pmem p') (pa_vtype p) (of_nat q) e
     \<and> (prev \<noteq> 0 \<longrightarrow> rdn (pmem p') (unat prev + 4) = Done (of_nat (plen p)))"

lemma bool_elem:
  assumes inv: "parser_inv ok p" and g: "grants ok" and sp: "spells (LP # expr_toks e @ ts) (pinput p)" and prev: "prev_ok p prev"
    and len: "plen p + expr_size e + 140 < 2 ^ 32"
    and expr: "\<And>p1. parser_inv ok p1 \<Longrightarrow> spells (expr_toks e @ ts) (pinput p1) \<Longrightarrow> pa_vtype p1 = pa_vtype p
      \<Longrightarrow> plen p1 + expr_size e + 120 < 2 ^ 32 \<Longrightarrow> \<exists>res. expr p1 = Done res \<and> expr_done ok p1 e ts res"
  obtains p' q where "boolean_loop (Suc n) ok expr (bool_node b) bnode prev p
      = boolean_loop n ok expr (bool_node b) (if bnode = 0 then of_nat (plen p) else bnode) (of_nat (plen p)) p'"
    "elem_done ok p b e ts prev p' q"
proof -
  let ?o = "plen p"
  have lo: "?o < 2 ^ 32" using len by simp
  note uo = unat_of_nat_u32 [OF lo] lo
  obtain r where r: "next_token ok p = Done (Inr VULNSPEC_TLPAREN, p\<lparr>pa_r := r\<rparr>)" "parser_inv ok (p\<lparr>pa_r := r\<rparr>)"
    "spells (expr_toks e @ ts) (vr_input r)" using token_step [OF inv g sp] by auto
  let ?pa = "p\<lparr>pa_r := r\<rparr>"
  have same: "str_addrs ?pa = str_addrs p" "ext H ?pa p' = ext H p p'" for H p' by (auto simp: ext_def str_addrs_def entries_def)
  obtain p1 where p1: "progn_alloc ok 12 ?pa = Done (Inr (of_nat ?o), p1)" "parser_inv ok p1" "ext {} p p1"
    "?o + 12 \<le> plen p1" "plen p1 < ?o + 20" "str_addrs p1 = str_addrs p" "pinput p1 = vr_input r"
    "plen p1 \<le> length (pmem p1)" "\<And>a. ?o \<le> a \<Longrightarrow> a < plen p1 \<Longrightarrow> pmem p1 ! a = NUL"
    by (rule alloc_step [OF r(2) g, of 12]) (use len same in \<open>auto simp: ext_def\<close>)
  have "pa_vtype p1 = pa_vtype p" "plen p1 + expr_size e + 120 < 2 ^ 32" using p1(3,5) len by (auto simp: ext_def)
  then obtain p2 where p2: "expr p1 = Done (Inr (of_nat (plen p1)), p2)" "parser_inv ok p2" "ext {} p1 p2"
    "plen p2 \<le> plen p1 + expr_size e" "spells ts (pinput p2)"
    "expr_img ({plen p1..<plen p2} \<union> str_addrs p2) (pmem p2) (pa_vtype p) (of_nat (plen p1)) e"
    using expr [OF p1(2)] r(3) p1(7) unfolding expr_done_def compiled_def by fastforce
  have e2: "ext {} p p2" using ext_trans [OF p1(3) p2(3)] by simp
  have l2: "?o + 12 \<le> plen p2" "plen p2 \<le> length (pmem p2)" using p1(4) p2(3) plen_le [OF p2(2)] by (auto simp: ext_def)
  have d: "str_addrs p2 \<inter> {a..<a + 4} = {}" if "?o \<le> a" "a + 4 \<le> ?o + 12" for a
    using node_disjoint [OF inv p1(3,6,4) p2(3) that] .
  let ?p3 = "upd (?o + 8) (of_nat (plen p1)) (upd ?o (bool_node b) p2)" and ?q = "plen p1"
  note fill = filling_node [of p 12 p2, OF d l2(1)]
  have f: "filling ok p p2 ?p3" by (intro fill filling_refl [OF p2(2) e2]) simp_all
  then have f3: "parser_inv ok ?p3" "ext {} p ?p3" by (auto simp: filling_def)
  have sh: "str_addrs p2 \<inter> hole prev = {}"
  proof -
    have "hole prev \<subseteq> {..<plen p}" "str_addrs p \<inter> hole prev = {}" using prev by (auto simp: prev_ok_def hole_def)
    then show ?thesis using e2 by (fastforce simp: ext_def)
  qed
  have sh3: "str_addrs ?p3 \<inter> hole prev = {}" using sh by simp
  let ?p = "relink prev (of_nat ?o) ?p3"
  note rl = relink_inv [OF f3 prev sh3, where w = "of_nat ?o"]
  have hb: "hole prev \<subseteq> {..<?o}" using prev by (auto simp: prev_ok_def hole_def)
  have run: "boolean_loop (Suc n) ok expr (bool_node b) bnode prev p
      = boolean_loop n ok expr (bool_node b) (if bnode = 0 then of_nat ?o else bnode) (of_nat ?o) ?p"
  proof -
    have "prev \<noteq> 0 \<Longrightarrow> unat prev + 12 \<le> plen p2" using prev e2 by (auto simp: prev_ok_def ext_def)
    then show ?thesis
      using r(1) p1(1) p2(1) l2 uo by (cases "prev = 0") (simp_all add: pbind_def preturn_def put_at relink_def)
  qed
  have m3: "rdn (pmem ?p3) ?o = Done (bool_node b)" "rdn (pmem ?p3) (?o + 8) = Done (of_nat ?q)" "rdn (pmem ?p3) (?o + 4) = Done 0"
  proof -
    have "pmem p2 ! (?o + 4 + i) = NUL" if "i < 4" for i
      using p1(4,8,9) p2(3) that unfolding ext_def agree_def by auto
    then have "rdn (pmem p2) (?o + 4) = Done 0" using uo(2) l2 by (intro rdn_zero) auto
    then show "rdn (pmem ?p3) ?o = Done (bool_node b)" "rdn (pmem ?p3) (?o + 8) = Done (of_nat ?q)" "rdn (pmem ?p3) (?o + 4) = Done 0"
      using l2 uo(2) by (simp_all add: rdn_wr32 rdn_wr32_other)
  qed
  have "agree ({?o..} \<union> str_addrs p2) (pmem ?p3) (pmem ?p)" using hb sh by (intro rl(3)) auto
  note ag = this rdn_agree [OF this]
  have m: "rdn (pmem ?p) ?o = Done (bool_node b)" by (rule ag(2) [OF _ _ m3(1)]) (use uo(2) in auto)
  have m8: "rdn (pmem ?p) (?o + 8) = Done (of_nat ?q)" by (rule ag(2) [OF _ _ m3(2)]) (use uo(2) in auto)
  have m4: "rdn (pmem ?p) (?o + 4) = Done 0" by (rule ag(2) [OF _ _ m3(3)]) (use uo(2) in auto)
  have "agree ({?q..<plen p2} \<union> str_addrs p2) (pmem p2) (pmem ?p)"
  proof (rule agree_trans)
    have "agree ({?q..<plen p2} \<union> str_addrs p2) (pmem p2) (wr32 ?o (bool_node b) (pmem p2))"
      using d [of ?o] p1(4) l2 by (intro agree_wr32) auto
    moreover have "agree ({?q..<plen p2} \<union> str_addrs p2) (wr32 ?o (bool_node b) (pmem p2)) (pmem ?p3)"
      using d [of "?o + 8"] p1(4) l2 unfolding upd_simps by (intro agree_wr32) auto
    ultimately show "agree ({?q..<plen p2} \<union> str_addrs p2) (pmem p2) (pmem ?p3)" by (rule agree_trans)
    show "agree ({?q..<plen p2} \<union> str_addrs p2) (pmem ?p3) (pmem ?p)" using p1(4) by (intro agree_mono [OF ag(1)]) auto
  qed
  then have img: "expr_img ({?q..<plen ?p} \<union> str_addrs ?p) (pmem ?p) (pa_vtype p) (of_nat ?q) e"
    by (rule expr_img_agree(1) [OF _ _ p2(6)]) simp
  have nx: "prev \<noteq> 0 \<longrightarrow> rdn (pmem ?p) (unat prev + 4) = Done (of_nat ?o)"
    using prev uo(2) l2 by (auto simp: relink_def prev_ok_def intro!: rdn_wr32)
  have sd: "str_addrs ?p \<inter> {?o..<?o + 12} = {}" using d [of ?o] d [of "?o + 4"] d [of "?o + 8"] by (fastforce simp: disjoint_iff)
  have "elem_done ok p b e ts prev ?p ?q"
    unfolding elem_done_def using rl(1,2) p2(4,5) p1(4,5) p2(3) sd m m8 m4 img nx by (auto simp: ext_def)
  then show thesis using run that by blast
qed

definition chain_done :: "allocator \<Rightarrow> vulnspec_parser \<Rightarrow> bool \<Rightarrow> src_expr list \<Rightarrow> tok list \<Rightarrow> u32 \<Rightarrow> vulnspec_parser \<Rightarrow> bool" where
  "chain_done ok p b es ts prev p' \<longleftrightarrow> parser_inv ok p' \<and> ext (if es = [] then {} else hole prev) p p'
     \<and> plen p' \<le> plen p + expr_size (SBool b es) \<and> spells ts (pinput p')
     \<and> (es \<noteq> [] \<longrightarrow> chain_img ({plen p..<plen p'} \<union> str_addrs p') (pmem p') (pa_vtype p) b (of_nat (plen p)) es
          \<and> (prev \<noteq> 0 \<longrightarrow> rdn (pmem p') (unat prev + 4) = Done (of_nat (plen p))))"

lemma chain_done_Cons:
  assumes inv: "parser_inv ok p" and el: "elem_done ok p b e ts0 prev p3 q" and prev: "prev_ok p prev" and lo: "plen p < 2 ^ 32"
    and ch: "chain_done ok p3 b es ts (of_nat (plen p)) p4"
  shows "chain_done ok p b (e # es) ts prev p4"
proof -
  let ?o = "plen p" and ?H = "if es = [] then {} else hole (of_nat (plen p))"
  note uo = unat_of_nat_u32 [OF lo]
  have o8: "8 \<le> ?o" using inv by (simp add: parser_inv_def)
  then have o0: "(of_nat ?o :: u32) \<noteq> 0" using uo by (metis unat_0 not_numeral_le_zero)
  have H: "?H \<subseteq> {?o + 4..<?o + 8}" "hole (of_nat ?o) = {?o + 4..<?o + 4 + 4}" using uo o0 by (auto simp: hole_def)
  have c: "parser_inv ok p4" "ext ?H p3 p4" "plen p4 \<le> plen p3 + expr_size (SBool b es)" "spells ts (pinput p4)"
    using ch unfolding chain_done_def by blast+
  have e: "parser_inv ok p3" "ext (hole prev) p p3" "plen p3 \<le> ?o + 20 + expr_size e" "?o + 12 \<le> q" "q \<le> plen p3"
    "str_addrs p3 \<inter> {?o..<?o + 12} = {}" "rdn (pmem p3) ?o = Done (bool_node b)" "rdn (pmem p3) (?o + 4) = Done 0"
    "rdn (pmem p3) (?o + 8) = Done (of_nat q)" "expr_img ({q..<plen p3} \<union> str_addrs p3) (pmem p3) (pa_vtype p) (of_nat q) e"
    "prev \<noteq> 0 \<longrightarrow> rdn (pmem p3) (unat prev + 4) = Done (of_nat ?o)"
    using el by (simp_all add: elem_done_def)
  have hb: "hole prev \<subseteq> {..<?o}" using prev by (auto simp: prev_ok_def hole_def)
  have ex: "ext (hole prev) p p4" using H(1) by (intro ext_trans [OF e(2) c(2)]) auto
  have ag: "agree ({..<plen p3} - ?H) (pmem p3) (pmem p4)" using c(2) by (simp add: ext_def)
  have le: "plen p3 \<le> plen p4" "str_addrs p3 \<subseteq> str_addrs p4" "pa_vtype p3 = pa_vtype p" using c(2) e(2) by (auto simp: ext_def)
  have rd: "rdn (pmem p4) a = Done w" if "rdn (pmem p3) a = Done w" "a + 4 \<le> plen p3" "a + 4 \<le> ?o + 4 \<or> ?o + 8 \<le> a" "a < 2 ^ 40" for a w
    by (rule rdn_agree [OF ag _ that(4,1)]) (use that(2,3) H(1) in fastforce)
  have t: "rdn (pmem p4) ?o = Done (bool_node b)" by (rule rd [OF e(7)]) (use e(4,5) lo in auto)
  have v: "rdn (pmem p4) (?o + 8) = Done (of_nat q)" by (rule rd [OF e(9)]) (use e(4,5) lo in auto)
  obtain nx where nx: "rdn (pmem p4) (?o + 4) = Done nx" "chain_img ({?o..<plen p4} \<union> str_addrs p4) (pmem p4) (pa_vtype p) b nx es"
  proof (cases "es = []")
    case True
    have "rdn (pmem p4) (?o + 4) = Done 0"
      by (rule rdn_agree [OF ag _ _ e(8)]) (use True e(4,5) lo in auto)
    then show ?thesis using that [of 0] end_img True by blast
  next
    case False
    then have "chain_img ({plen p3..<plen p4} \<union> str_addrs p4) (pmem p4) (pa_vtype p) b (of_nat (plen p3)) es"
      "rdn (pmem p4) (?o + 4) = Done (of_nat (plen p3))"
      using ch o0 uo le(3) by (simp_all add: chain_done_def)
    then show ?thesis using e(4,5) by (intro that [OF _ expr_img_agree(2) [OF agree_refl]]) auto
  qed
  have im: "expr_img ({?o..<plen p4} \<union> str_addrs p4) (pmem p4) (pa_vtype p) (of_nat q) e"
  proof (rule expr_img_agree(1) [OF _ _ e(10)])
    have "str_addrs p3 \<subseteq> {..<plen p3}" using e(1) by (simp add: parser_inv_def)
    then have "{q..<plen p3} \<union> str_addrs p3 \<subseteq> {..<plen p3} - ?H" using H(1) e(4,6) by fastforce
    then show "agree ({q..<plen p3} \<union> str_addrs p3) (pmem p3) (pmem p4)" by (rule agree_mono [OF ag])
    show "{q..<plen p3} \<union> str_addrs p3 \<subseteq> {?o..<plen p4} \<union> str_addrs p4" using e(4) le by auto
  qed
  have "chain_img ({?o..<plen p4} \<union> str_addrs p4) (pmem p4) (pa_vtype p) b (of_nat ?o) (e # es)"
  proof (rule link_img)
    show "rd_boolean (pmem p4) (ucast (of_nat ?o :: u32)) = Done \<lparr>bn_type = bool_node b, bn_next = nx, bn_value = of_nat q\<rparr>"
      unfolding rd_nodes(2) [OF lo] t v nx(1) by simp
  qed (use uo o8 e(4,5) le(1) im nx(2) in auto)
  moreover have "prev \<noteq> 0 \<longrightarrow> rdn (pmem p4) (unat prev + 4) = Done (of_nat ?o)"
  proof
    assume n0: "prev \<noteq> 0"
    then have "unat prev + 12 \<le> ?o" using prev by (simp add: prev_ok_def)
    then show "rdn (pmem p4) (unat prev + 4) = Done (of_nat ?o)"
      using n0 e(4,5,11) lo by (intro rd) auto
  qed
  ultimately show ?thesis using c ex e(3) by (simp add: chain_done_def)
qed

lemma bool_loop:
  assumes g: "grants ok"
    and expr: "\<And>e p ts. e \<in> set es \<Longrightarrow> parser_inv ok p \<Longrightarrow> spells (expr_toks e @ ts) (pinput p) \<Longrightarrow> pa_vtype p = vt
      \<Longrightarrow> plen p + expr_size e + 120 < 2 ^ 32 \<Longrightarrow> \<exists>res. expr p = Done res \<and> expr_done ok p e ts res"
    and "parser_inv ok p" "pa_vtype p = vt" "prev_ok p prev" "bnode \<noteq> 0 \<or> es \<noteq> []"
    and "spells (concat (map (\<lambda>e. LP # expr_toks e) es) @ RP # ts) (pinput p)" "length es < n"
    and "plen p + expr_size (SBool b es) + 120 < 2 ^ 32"
  shows "\<exists>p'. boolean_loop n ok expr (bool_node b) bnode prev p = Done (Inr (if bnode = 0 then of_nat (plen p) else bnode), p')
    \<and> chain_done ok p b es ts prev p'"
  using assms(2-)
proof (induction es arbitrary: p prev bnode n)
  case Nil
  then obtain m where n: "n = Suc m" by (cases n) auto
  obtain r where r: "next_token ok p = Done (Inr VULNSPEC_TRPAREN, p\<lparr>pa_r := r\<rparr>)" "parser_inv ok (p\<lparr>pa_r := r\<rparr>)" "spells ts (vr_input r)"
    using token_step [OF Nil.prems(2) g, of RP ts] Nil.prems(6) by auto
  then have "boolean_loop n ok expr (bool_node b) bnode prev p = Done (Inr bnode, p\<lparr>pa_r := r\<rparr>)"
    using Nil.prems(5) by (simp add: n pbind_def preturn_def)
  moreover have "chain_done ok p b [] ts prev (p\<lparr>pa_r := r\<rparr>)"
    using r by (simp add: chain_done_def ext_def str_addrs_def entries_def agree_refl)
  ultimately show ?case using Nil.prems(5) by auto
next
  case (Cons e es)
  then obtain m where n: "n = Suc m" "length es < m" by (cases n) auto
  let ?ts = "concat (map (\<lambda>e. LP # expr_toks e) es) @ RP # ts" and ?o = "plen p"
  have sp: "spells (LP # expr_toks e @ ?ts) (pinput p)" and len: "?o + expr_size e + 140 < 2 ^ 32" using Cons.prems(6,8) by auto
  have lo: "?o < 2 ^ 32" using len by simp
  have ex: "\<exists>res. expr p1 = Done res \<and> expr_done ok p1 e ?ts res"
    if "parser_inv ok p1" "spells (expr_toks e @ ?ts) (pinput p1)" "pa_vtype p1 = pa_vtype p" "plen p1 + expr_size e + 120 < 2 ^ 32" for p1
    using Cons.prems(1) [OF _ that(1,2)] that(3,4) Cons.prems(3) by simp
  obtain p3 q where run: "boolean_loop (Suc m) ok expr (bool_node b) bnode prev p
      = boolean_loop m ok expr (bool_node b) (if bnode = 0 then of_nat ?o else bnode) (of_nat ?o) p3"
    and el: "elem_done ok p b e ?ts prev p3 q"
    by (rule bool_elem [OF Cons.prems(2) g sp Cons.prems(4) len ex])
  have e3: "parser_inv ok p3" "ext (hole prev) p p3" "plen p3 \<le> ?o + 20 + expr_size e" "spells ?ts (pinput p3)" "?o + 12 \<le> plen p3"
    "str_addrs p3 \<inter> {?o..<?o + 12} = {}" using el by (auto simp: elem_done_def)
  note uo = unat_of_nat_u32 [OF lo]
  have "8 \<le> ?o" using Cons.prems(2) by (simp add: parser_inv_def)
  then have o0: "(of_nat ?o :: u32) \<noteq> 0" using uo by (metis unat_0 not_numeral_le_zero)
  have pk: "prev_ok p3 (of_nat ?o)" using e3(5,6) uo by (auto simp: prev_ok_def hole_def disjoint_iff)
  have vt3: "pa_vtype p3 = vt" using e3(2) Cons.prems(3) by (simp add: ext_def)
  have "\<exists>p'. boolean_loop m ok expr (bool_node b) (if bnode = 0 then of_nat ?o else bnode) (of_nat ?o) p3
      = Done (Inr (if (if bnode = 0 then of_nat ?o else bnode) = 0 then of_nat (plen p3) else (if bnode = 0 then of_nat ?o else bnode)), p')
      \<and> chain_done ok p3 b es ts (of_nat ?o) p'"
    by (rule Cons.IH) (use Cons.prems e3 vt3 pk o0 n in \<open>auto simp del: of_nat_unat\<close>)
  then obtain p4 where p4: "boolean_loop m ok expr (bool_node b) (if bnode = 0 then of_nat ?o else bnode) (of_nat ?o) p3
      = Done (Inr (if bnode = 0 then of_nat ?o else bnode), p4)" "chain_done ok p3 b es ts (of_nat ?o) p4"
    using o0 by auto
  have "chain_done ok p b (e # es) ts prev p4" by (rule chain_done_Cons [OF Cons.prems(2) el Cons.prems(4) lo p4(2)])
  moreover have "boolean_loop n ok expr (bool_node b) bnode prev p = Done (Inr (if bnode = 0 then of_nat ?o else bnode), p4)"
    unfolding n(1) run by (rule p4(1))
  ultimately show ?case by blast
qed

section \<open>Expressions\<close>

lemma symbol_step:
  assumes "parser_inv ok p" "grants ok" "spells (Sym s # ts) (pinput p)"
  obtains r where "read_symbol ok p = Done (Inr (symbol2node s), p\<lparr>pa_r := r\<rparr>)" "parser_inv ok (p\<lparr>pa_r := r\<rparr>)"
    "spells ts (vr_input r)"
proof -
  obtain r where r: "next_token ok p = Done (Inr VULNSPEC_TSYMBOL, p\<lparr>pa_r := r\<rparr>)" "parser_inv ok (p\<lparr>pa_r := r\<rparr>)"
    "spells ts (vr_input r)" "vr_symbol r = s" using token_step [OF assms] by auto
  then show thesis using that [of r] by (simp add: read_symbol_def pbind_def preturn_def)
qed

lemma expr_done_reader: "expr_done ok (p\<lparr>pa_r := r\<rparr>) e ts res = expr_done ok p e ts res"
  by (simp add: expr_done_def compiled_def ext_def str_addrs_def entries_def)

lemma node_symbols:
  "symbol2node (bool_symbol b) = bool_node b" "symbol2node ''nalpha'' = VULNSPEC_NALPHA_NODE" "symbol2node ''cve'' = VULNSPEC_CVE_NODE"
  "\<not> is_compar VULNSPEC_NALPHA_NODE" "\<not> is_boolean VULNSPEC_NALPHA_NODE" "\<not> is_compar (bool_node b)"
  using compar_not_boolean [of "bool_node b"] bool_node_boolean
  by (auto simp: symbol2node_def symbol_vals_def bool_symbol_def bool_node_def cstr_def is_compar_def is_boolean_def
      VULNSPEC_NALPHA_NODE_def VULNSPEC_LT_NODE_def VULNSPEC_LE_NODE_def VULNSPEC_EQ_NODE_def VULNSPEC_GE_NODE_def
      VULNSPEC_GT_NODE_def VULNSPEC_AND_NODE_def VULNSPEC_OR_NODE_def)

lemma toks_bound: "e \<in> set es \<Longrightarrow> length (expr_toks e) \<le> length (concat (map (\<lambda>e. LP # expr_toks e) es))"
  by (induction es) auto

lemma toks_count: "length es \<le> length (concat (map (\<lambda>e. LP # expr_toks e) es))"
  by (induction es) auto

lemma size_bound: "e \<in> set es \<Longrightarrow> 20 + expr_size e \<le> expr_size (SBool b es)"
  by (induction es) auto

lemma nalpha_step:
  assumes inv: "parser_inv ok p" and g: "grants ok" and sp: "spells (LP # expr_toks e @ RP # ts) (pinput p)"
    and expr: "\<And>p1. parser_inv ok p1 \<Longrightarrow> spells (expr_toks e @ RP # ts) (pinput p1) \<Longrightarrow> pa_vtype p1 = VULNSPEC_VNALPHA
      \<Longrightarrow> plen p1 = plen p \<Longrightarrow> \<exists>res. expr p1 = Done res \<and> expr_done ok p1 e (RP # ts) res"
  shows "\<exists>res. nalpha ok expr p = Done res \<and> expr_done ok p (SNalpha e) ts res"
proof -
  let ?p0 = "p\<lparr>pa_vtype := VULNSPEC_VNALPHA\<rparr>"
  have inv0: "parser_inv ok ?p0" and sp0: "spells (LP # expr_toks e @ RP # ts) (pinput ?p0)"
    using inv sp by (simp_all add: parser_inv_def str_addrs_def entries_def)
  obtain r where r: "expect ok VULNSPEC_TLPAREN ?p0 = Done (Inr (), ?p0\<lparr>pa_r := r\<rparr>)" "parser_inv ok (?p0\<lparr>pa_r := r\<rparr>)"
    "spells (expr_toks e @ RP # ts) (vr_input r)" using expect_step [OF inv0 g sp0] by auto
  let ?p1 = "?p0\<lparr>pa_r := r\<rparr>"
  obtain p2 where p2: "expr ?p1 = Done (Inr (of_nat (plen p)), p2)" "parser_inv ok p2" "ext {} ?p1 p2" "plen p2 \<le> plen p + expr_size e"
    "spells (RP # ts) (pinput p2)" "expr_img ({plen p..<plen p2} \<union> str_addrs p2) (pmem p2) VULNSPEC_VNALPHA (of_nat (plen p)) e"
    using expr [OF r(2)] r(3) unfolding expr_done_def compiled_def by fastforce
  obtain r3 where r3: "expect ok VULNSPEC_TRPAREN p2 = Done (Inr (), p2\<lparr>pa_r := r3\<rparr>)" "parser_inv ok (p2\<lparr>pa_r := r3\<rparr>)"
    "spells ts (vr_input r3)" using expect_step [OF p2(2) g p2(5)] by auto
  let ?p4 = "p2\<lparr>pa_r := r3, pa_vtype := pa_vtype p\<rparr>"
  have "nalpha ok expr p = Done (Inr (of_nat (plen p)), ?p4)"
    unfolding nalpha_def using r(1) p2(1) r3(1) by (simp add: pbind_def preturn_def set_vtype_def)
  moreover have "parser_inv ok ?p4" using r3(2) by (simp add: parser_inv_def str_addrs_def entries_def)
  moreover have "ext {} p ?p4" using p2(3) by (simp add: ext_def str_addrs_def entries_def)
  moreover have "expr_img ({plen p..<plen ?p4} \<union> str_addrs ?p4) (pmem ?p4) (pa_vtype p) (of_nat (plen p)) (SNalpha e)"
    using nalpha_img [OF p2(6)] by (simp add: str_addrs_def entries_def)
  ultimately show ?thesis using p2(4) r3(3) unfolding expr_done_def compiled_def by force
qed

lemma vulnexpr_step:
  assumes "grants ok"
  shows "parser_inv ok p \<Longrightarrow> spells (expr_toks e @ ts) (pinput p) \<Longrightarrow> expr_ok e \<Longrightarrow> pa_vtype p \<in> {VULNSPEC_VVAGUE, VULNSPEC_VNALPHA}
    \<Longrightarrow> plen p + expr_size e + 120 < 2 ^ 32 \<Longrightarrow> length (expr_toks e) \<le> n
    \<Longrightarrow> \<exists>res. vulnexpr n ok p = Done res \<and> expr_done ok p e ts res"
proof (induction e arbitrary: p ts n)
  case (SCompar s vp ver)
  then obtain m where n: "n = Suc m" by (cases n) auto
  obtain r where r: "read_symbol ok p = Done (Inr (symbol2node s), p\<lparr>pa_r := r\<rparr>)" "parser_inv ok (p\<lparr>pa_r := r\<rparr>)"
    "spells (Str vp # Str ver # RP # ts) (vr_input r)" using symbol_step [OF SCompar.prems(1) assms] SCompar.prems(2) by auto
  have "is_compar (symbol2node s)" using SCompar.prems(3) by (intro compar_symbol) simp
  moreover obtain res where "compar ok (symbol2node s) (p\<lparr>pa_r := r\<rparr>) = Done res" "expr_done ok p (SCompar s vp ver) ts res"
    using compar_step [OF r(2) assms, of vp ver ts s] r(3) SCompar.prems(3-5) by (auto simp: expr_done_reader)
  ultimately show ?case using r(1) by (simp add: n pbind_def)
next
  case (SBool b es)
  then obtain m where n: "n = Suc m" by (cases n) auto
  let ?ts = "concat (map (\<lambda>e. LP # expr_toks e) es) @ RP # ts"
  obtain r where r: "read_symbol ok p = Done (Inr (bool_node b), p\<lparr>pa_r := r\<rparr>)" "parser_inv ok (p\<lparr>pa_r := r\<rparr>)" "spells ?ts (vr_input r)"
    using symbol_step [OF SBool.prems(1) assms, of "bool_symbol b" ?ts] SBool.prems(2) node_symbols(1) by auto
  let ?p = "p\<lparr>pa_r := r\<rparr>"
  have fuel: "length (concat (map (\<lambda>e. LP # expr_toks e) es)) < m" using SBool.prems(6) n by simp
  have "\<exists>p'. boolean_loop m ok (vulnexpr m ok) (bool_node b) 0 0 ?p = Done (Inr (if (0 :: u32) = 0 then of_nat (plen ?p) else 0), p')
    \<and> chain_done ok ?p b es ts 0 p'"
  proof (rule bool_loop [OF assms, where vt = "pa_vtype p"])
    fix e p1 ts1
    assume a: "e \<in> set es" "parser_inv ok p1" "spells (expr_toks e @ ts1) (pinput p1)" "pa_vtype p1 = pa_vtype p" "plen p1 + expr_size e + 120 < 2 ^ 32"
    have "expr_ok e" using SBool.prems(3) a(1) by (simp add: list_all_iff)
    moreover have "length (expr_toks e) \<le> m" using toks_bound [OF a(1)] fuel by simp
    ultimately show "\<exists>res. vulnexpr m ok p1 = Done res \<and> expr_done ok p1 e ts1 res"
      using SBool.IH [OF a(1-3)] a(4,5) SBool.prems(4) by simp
  qed (use r SBool.prems fuel toks_count [of es] in \<open>auto simp: prev_ok_def\<close>)
  then obtain p' where p': "boolean_loop m ok (vulnexpr m ok) (bool_node b) 0 0 ?p = Done (Inr (of_nat (plen p)), p')"
    "chain_done ok ?p b es ts 0 p'" by auto
  have "es \<noteq> []" using SBool.prems(3) by simp
  then have "expr_done ok ?p (SBool b es) ts (Inr (of_nat (plen ?p)), p')"
    using p'(2) bool_img unfolding expr_done_def compiled_def chain_done_def by (simp add: hole_def)
  moreover have "vulnexpr n ok p = Done (Inr (of_nat (plen p)), p')"
    using r(1) p'(1) node_symbols(6) bool_node_boolean by (simp add: n pbind_def boolean_def)
  ultimately show ?case using expr_done_reader by auto
next
  case (SNalpha e)
  then obtain m where n: "n = Suc m" by (cases n) auto
  obtain r where r: "read_symbol ok p = Done (Inr VULNSPEC_NALPHA_NODE, p\<lparr>pa_r := r\<rparr>)" "parser_inv ok (p\<lparr>pa_r := r\<rparr>)"
    "spells (LP # expr_toks e @ RP # ts) (vr_input r)"
    using symbol_step [OF SNalpha.prems(1) assms, of "''nalpha''" "LP # expr_toks e @ RP # ts"] SNalpha.prems(2) node_symbols(2) by auto
  have "\<exists>res. nalpha ok (vulnexpr m ok) (p\<lparr>pa_r := r\<rparr>) = Done res \<and> expr_done ok (p\<lparr>pa_r := r\<rparr>) (SNalpha e) ts res"
    using SNalpha.prems n by (intro nalpha_step [OF r(2) assms] SNalpha.IH) (use r(3) in auto)
  then show ?case using r(1) node_symbols(4,5) by (simp add: n pbind_def expr_done_reader)
qed

section \<open>Vulnerabilities\<close>

text \<open>A node of \<open>k\<close> bytes has been allocated at the end of \<open>p\<close> and is being filled.\<close>

definition node_state :: "allocator \<Rightarrow> vulnspec_parser \<Rightarrow> nat \<Rightarrow> vulnspec_parser \<Rightarrow> bool" where
  "node_state ok p k q \<longleftrightarrow> parser_inv ok q \<and> ext {} p q \<and> plen p + k \<le> plen q \<and> str_addrs q \<inter> {plen p..<plen p + k} = {}"

lemma node_state_upd:
  assumes "node_state ok p k q" "plen p \<le> a" "a + 4 \<le> plen p + k"
  shows "node_state ok p k (upd a w q)"
    and "str_img (str_addrs q) (pmem q) cv s \<Longrightarrow> str_img (str_addrs (upd a w q)) (pmem (upd a w q)) cv s"
proof -
  have q: "parser_inv ok q" "ext {} p q" "plen p + k \<le> plen q" "str_addrs q \<inter> {plen p..<plen p + k} = {}"
    using assms(1) by (simp_all add: node_state_def)
  have d: "str_addrs q \<inter> {a..<a + 4} = {}" using q(4) assms(2,3) by fastforce
  have l: "a + 4 \<le> length (pmem q)" using plen_le [OF q(1)] q(3) assms(3) by simp
  have "parser_inv ok (upd a w q)" using upd_inv [OF q(1) _ d] q(3) assms(3) by simp
  moreover have "{a..<a + 4} \<inter> {..<plen p} \<subseteq> {}" using assms(2) by auto
  then have "ext {} p (upd a w q)" by (rule upd_ext [OF q(2) l])
  ultimately show "node_state ok p k (upd a w q)" using q(3,4) by (simp add: node_state_def)
  show "str_img (str_addrs q) (pmem q) cv s \<Longrightarrow> str_img (str_addrs (upd a w q)) (pmem (upd a w q)) cv s"
    using str_img_agree [OF _ agree_wr32 [OF l d] order_refl] by simp
qed

lemma node_state_reader: "node_state ok p k q \<Longrightarrow> parser_inv ok (q\<lparr>pa_r := r\<rparr>) \<Longrightarrow> node_state ok p k (q\<lparr>pa_r := r\<rparr>)"
  by (simp add: node_state_def ext_def str_addrs_def entries_def)

lemma node_state_ext:
  assumes "node_state ok p k q" "parser_inv ok q'" "ext {} q q'"
  shows "node_state ok p k q'"
    and "str_img (str_addrs q) (pmem q) cv s \<Longrightarrow> str_img (str_addrs q') (pmem q') cv s"
    and "a + 4 \<le> plen q \<Longrightarrow> a < 2 ^ 40 \<Longrightarrow> rdn (pmem q) a = Done w \<Longrightarrow> rdn (pmem q') a = Done w"
proof -
  have q: "parser_inv ok q" "ext {} p q" "plen p + k \<le> plen q" "str_addrs q \<inter> {plen p..<plen p + k} = {}"
    using assms(1) by (simp_all add: node_state_def)
  have e: "plen q \<le> plen q'" "str_addrs q \<subseteq> str_addrs q'" "str_addrs q' \<subseteq> str_addrs q \<union> {plen q..}"
    "agree {..<plen q} (pmem q) (pmem q')" using assms(3) by (simp_all add: ext_def)
  have "ext {} p q'" using ext_trans [OF q(2) assms(3)] by simp
  moreover have "str_addrs q' \<inter> {plen p..<plen p + k} = {}" using e(3) q(3,4) by fastforce
  ultimately show "node_state ok p k q'" using assms(2) q(3) e(1) by (simp add: node_state_def)
  have "str_addrs q \<subseteq> {..<plen q}" using q(1) by (simp add: parser_inv_def)
  then show "str_img (str_addrs q) (pmem q) cv s \<Longrightarrow> str_img (str_addrs q') (pmem q') cv s"
    using str_img_agree [OF _ agree_mono [OF e(4)] e(2)] by blast
  show "a + 4 \<le> plen q \<Longrightarrow> a < 2 ^ 40 \<Longrightarrow> rdn (pmem q) a = Done w \<Longrightarrow> rdn (pmem q') a = Done w"
    by (rule rdn_agree [OF e(4)]) auto
qed

lemma node_state_len: "node_state ok p k q \<Longrightarrow> plen p + k \<le> plen q \<and> plen q \<le> length (pmem q)"
  using plen_le by (auto simp: node_state_def)

lemma score_step:
  assumes "node_state ok p 36 q" "grants ok" "spells (Dbl a b # ts) (pinput q)" "score (a, b) = Done w" "k + 4 \<le> 36"
  obtains r where "expect ok VULNSPEC_TDOUBLE q = Done (Inr (), q\<lparr>pa_r := r\<rparr>)"
    "put_score (plen p + k) (q\<lparr>pa_r := r\<rparr>) = Done (Inr (), upd (plen p + k) w (q\<lparr>pa_r := r\<rparr>))"
    "node_state ok p 36 (upd (plen p + k) w (q\<lparr>pa_r := r\<rparr>))" "spells ts (vr_input r)"
proof -
  have "parser_inv ok q" using assms(1) by (simp add: node_state_def)
  then obtain r where r: "expect ok VULNSPEC_TDOUBLE q = Done (Inr (), q\<lparr>pa_r := r\<rparr>)" "parser_inv ok (q\<lparr>pa_r := r\<rparr>)"
    "spells ts (vr_input r)" "tok_value (Dbl a b) r" using expect_step [OF _ assms(2,3)] by auto
  have n: "node_state ok p 36 (q\<lparr>pa_r := r\<rparr>)" by (rule node_state_reader [OF assms(1) r(2)])
  have l: "plen p + 36 \<le> plen q" "plen q \<le> length (pmem q)" using node_state_len [OF assms(1)] by simp_all
  have "fixed_point (vr_num r) = Done w" using assms(4) r(4) by (simp add: score_def)
  then have "put_score (plen p + k) (q\<lparr>pa_r := r\<rparr>) = Done (Inr (), upd (plen p + k) w (q\<lparr>pa_r := r\<rparr>))"
    using l assms(5) by (simp add: put_score_def put_at)
  then show thesis using that [OF r(1)] node_state_upd(1) [OF n] r(3) assms(5) by simp
qed

lemma agree_upd: "agree F m m' \<Longrightarrow> a + 4 \<le> length m' \<Longrightarrow> F \<inter> {a..<a + 4} = {} \<Longrightarrow> agree F m (wr32 a w m')"
  by (rule agree_trans [OF _ agree_wr32])

definition cve_size :: "src_cve \<Rightarrow> nat" where
  "cve_size c = 60 + length (sc_id c) + length (sc_desc c) + expr_size (sc_expr c)"

text \<open>The fields of a node, except for the expression\<close>

definition cve_fields :: "vulnspec_parser \<Rightarrow> src_cve \<Rightarrow> vulnspec_cvalue \<Rightarrow> vulnspec_cvalue \<Rightarrow> nat \<Rightarrow> bool" where
  "cve_fields q c i d a \<longleftrightarrow> rdn (pmem q) a = Done VULNSPEC_CVE_NODE \<and> rdn (pmem q) (a + 4) = Done 0
     \<and> rdn (pmem q) (a + 8) = Done (the_score (sc_cvss2 c)) \<and> rdn (pmem q) (a + 12) = Done (the_score (sc_cvss3 c))
     \<and> rdn (pmem q) (a + 16) = Done (cv_length i) \<and> rdn (pmem q) (a + 20) = Done (cv_offset i)
     \<and> rdn (pmem q) (a + 24) = Done (cv_length d) \<and> rdn (pmem q) (a + 28) = Done (cv_offset d)
     \<and> str_img (str_addrs q) (pmem q) i (sc_id c) \<and> str_img (str_addrs q) (pmem q) d (sc_desc c)"

lemma cve_head:
  assumes inv: "parser_inv ok p" and g: "grants ok" and c: "cve_ok c" and len: "plen p + cve_size c + 140 < 2 ^ 32"
    and sp: "spells ([Str (sc_id c), Dbl (fst (sc_cvss2 c)) (snd (sc_cvss2 c)), Dbl (fst (sc_cvss3 c)) (snd (sc_cvss3 c)), Str (sc_desc c)] @ ts) (pinput p)"
  obtains q i d where "cve n ok p = pbind (expect ok VULNSPEC_TLPAREN) (\<lambda>_. pbind (vulnexpr n ok) (\<lambda>vexpr.
      pbind (put32 (plen p + 32) vexpr) (\<lambda>_. preturn (of_nat (plen p))))) q"
    "node_state ok p 36 q" "cve_fields q c i d (plen p)" "plen q \<le> plen p + 60 + length (sc_id c) + length (sc_desc c)" "spells ts (pinput q)"
proof -
  let ?o = "plen p"
  have lo: "?o < 2 ^ 32" and len1: "?o + length (sc_id c) + 72 < 2 ^ 32" using len by (simp_all add: cve_size_def)
  note uo = unat_of_nat_u32 [OF lo]
  have cn: "NUL \<notin> set (sc_id c)" "NUL \<notin> set (sc_desc c)" using c by (simp_all add: cve_ok_def)
  have sc: "score (fst (sc_cvss2 c), snd (sc_cvss2 c)) = Done (the_score (sc_cvss2 c))"
    "score (fst (sc_cvss3 c), snd (sc_cvss3 c)) = Done (the_score (sc_cvss3 c))" using c by (auto simp: cve_ok_def the_score_def)
  let ?ts3 = "Str (sc_desc c) # ts" let ?ts2 = "Dbl (fst (sc_cvss3 c)) (snd (sc_cvss3 c)) # ?ts3"
  let ?ts1 = "Dbl (fst (sc_cvss2 c)) (snd (sc_cvss2 c)) # ?ts2"
  have sp1: "spells (Str (sc_id c) # ?ts1) (pinput p)" using sp by simp
  obtain p1 i p2 where p2: "progn_alloc ok 36 p = Done (Inr (of_nat ?o), p1)" "loads ok p1 = Done (Inr i, p2)"
    "parser_inv ok p2" "ext {} p p2" "plen p2 \<le> ?o + 44 + length (sc_id c) + 8" "spells ?ts1 (pinput p2)"
    "str_img (str_addrs p2) (pmem p2) i (sc_id c)" "?o + 36 \<le> plen p2"
    and p1: "parser_inv ok p1" "ext {} p p1" "ext {} p1 p2" "str_addrs p1 = str_addrs p" "?o + 36 \<le> plen p1"
    and z: "\<forall>a. ?o \<le> a \<longrightarrow> a < ?o + 36 \<longrightarrow> pmem p2 ! a = NUL"
    by (rule node_and_string [OF inv g sp1 cn(1) len1])
  have ns2: "node_state ok p 36 p2"
  proof -
    have "str_addrs p \<subseteq> {..<?o}" "str_addrs p2 \<subseteq> str_addrs p1 \<union> {plen p1..}" using inv p1(3) by (auto simp: parser_inv_def ext_def)
    then have "str_addrs p2 \<inter> {?o..<?o + 36} = {}" using p1(4,5) by fastforce
    then show ?thesis using p2 by (simp add: node_state_def)
  qed
  have l2: "plen p2 \<le> length (pmem p2)" using node_state_len [OF ns2] by simp
  have z4: "rdn (pmem p2) (?o + 4) = Done 0" using z lo l2 p2(8) by (intro rdn_zero) auto
  let ?p3 = "upd (?o + 20) (cv_offset i) (upd (?o + 16) (cv_length i) p2)"
  have ns3: "node_state ok p 36 ?p3" by (intro node_state_upd(1) ns2) simp_all
  have sp3: "spells ?ts1 (pinput ?p3)" using p2(6) by simp
  obtain r4 where r4: "expect ok VULNSPEC_TDOUBLE ?p3 = Done (Inr (), ?p3\<lparr>pa_r := r4\<rparr>)"
    "put_score (?o + 8) (?p3\<lparr>pa_r := r4\<rparr>) = Done (Inr (), upd (?o + 8) (the_score (sc_cvss2 c)) (?p3\<lparr>pa_r := r4\<rparr>))"
    "node_state ok p 36 (upd (?o + 8) (the_score (sc_cvss2 c)) (?p3\<lparr>pa_r := r4\<rparr>))" "spells ?ts2 (vr_input r4)"
    by (rule score_step [OF ns3 g sp3 sc(1), of 8]) simp
  let ?p4 = "upd (?o + 8) (the_score (sc_cvss2 c)) (?p3\<lparr>pa_r := r4\<rparr>)"
  have sp4: "spells ?ts2 (pinput ?p4)" using r4(4) by simp
  obtain r5 where r5: "expect ok VULNSPEC_TDOUBLE ?p4 = Done (Inr (), ?p4\<lparr>pa_r := r5\<rparr>)"
    "put_score (?o + 12) (?p4\<lparr>pa_r := r5\<rparr>) = Done (Inr (), upd (?o + 12) (the_score (sc_cvss3 c)) (?p4\<lparr>pa_r := r5\<rparr>))"
    "node_state ok p 36 (upd (?o + 12) (the_score (sc_cvss3 c)) (?p4\<lparr>pa_r := r5\<rparr>))" "spells ?ts3 (vr_input r5)"
    by (rule score_step [OF r4(3) g sp4 sc(2), of 12]) simp
  let ?p5 = "upd (?o + 12) (the_score (sc_cvss3 c)) (?p4\<lparr>pa_r := r5\<rparr>)" let ?p6 = "upd ?o VULNSPEC_CVE_NODE ?p5"
  have ns6: "node_state ok p 36 ?p6" by (intro node_state_upd(1) r5(3)) simp_all
  have inv6: "parser_inv ok ?p6" using ns6 by (simp add: node_state_def)
  have sp6: "spells ?ts3 (pinput ?p6)" and len6: "plen ?p6 + length (sc_desc c) + 16 < 2 ^ 32"
    using r5(4) p2(5) len by (simp_all add: cve_size_def)
  obtain d p7 where p7: "loads ok ?p6 = Done (Inr d, p7)" "parser_inv ok p7" "ext {} ?p6 p7" "plen p7 \<le> plen ?p6 + length (sc_desc c) + 8"
    "spells ts (pinput p7)" "str_img (str_addrs p7) (pmem p7) d (sc_desc c)"
    by (rule loads_step [OF inv6 g sp6 cn(2) len6])
  note ns7 = node_state_ext [OF ns6 p7(2,3)]
  have l7: "?o + 36 \<le> plen p7" "plen p7 \<le> length (pmem p7)" using node_state_len [OF ns7(1)] by simp_all
  let ?q = "upd (?o + 28) (cv_offset d) (upd (?o + 24) (cv_length d) p7)"
  have nsq: "node_state ok p 36 ?q" by (intro node_state_upd(1) ns7(1)) simp_all
  have run: "cve n ok p = pbind (expect ok VULNSPEC_TLPAREN) (\<lambda>_. pbind (vulnexpr n ok) (\<lambda>vexpr.
      pbind (put32 (?o + 32) vexpr) (\<lambda>_. preturn (of_nat ?o)))) ?q"
    using p2(1,2,8) l2 r4(1,2) r5(1,2) p7(1) l7 uo by (simp add: cve_def pbind_def put_at put_cvalue_at add.assoc)
  have f6: "rdn (pmem ?p6) ?o = Done VULNSPEC_CVE_NODE" "rdn (pmem ?p6) (?o + 4) = Done 0"
    "rdn (pmem ?p6) (?o + 8) = Done (the_score (sc_cvss2 c))" "rdn (pmem ?p6) (?o + 12) = Done (the_score (sc_cvss3 c))"
    "rdn (pmem ?p6) (?o + 16) = Done (cv_length i)" "rdn (pmem ?p6) (?o + 20) = Done (cv_offset i)"
    using lo l2 p2(8) z4 by (simp_all add: rdn_wr32 rdn_wr32_other)
  have l6: "?o + 36 \<le> plen ?p6" using p2(8) by simp
  have f7: "rdn (pmem p7) ?o = Done VULNSPEC_CVE_NODE" by (rule ns7(3) [OF _ _ f6(1)]) (use lo l6 in auto)
  have f7': "rdn (pmem p7) (?o + 4) = Done 0" by (rule ns7(3) [OF _ _ f6(2)]) (use lo l6 in auto)
  have f8: "rdn (pmem p7) (?o + 8) = Done (the_score (sc_cvss2 c))" by (rule ns7(3) [OF _ _ f6(3)]) (use lo l6 in auto)
  have f9: "rdn (pmem p7) (?o + 12) = Done (the_score (sc_cvss3 c))" by (rule ns7(3) [OF _ _ f6(4)]) (use lo l6 in auto)
  have f10: "rdn (pmem p7) (?o + 16) = Done (cv_length i)" by (rule ns7(3) [OF _ _ f6(5)]) (use lo l6 in auto)
  have f11: "rdn (pmem p7) (?o + 20) = Done (cv_offset i)" by (rule ns7(3) [OF _ _ f6(6)]) (use lo l6 in auto)
  have d2: "str_addrs p2 \<inter> {a..<a + 4} = {}" if "?o \<le> a" "a + 4 \<le> ?o + 36" for a
    using ns2 that by (fastforce simp: node_state_def)
  have m6: "pmem ?p6 = wr32 ?o VULNSPEC_CVE_NODE (wr32 (?o + 12) (the_score (sc_cvss3 c)) (wr32 (?o + 8) (the_score (sc_cvss2 c))
      (wr32 (?o + 20) (cv_offset i) (wr32 (?o + 16) (cv_length i) (pmem p2)))))" by simp
  have "agree (str_addrs p2) (pmem p2) (pmem ?p6)"
    using l2 p2(8) unfolding m6 by (intro agree_upd agree_refl d2) simp_all
  then have "str_img (str_addrs ?p6) (pmem ?p6) i (sc_id c)"
    by (rule str_img_agree [OF p2(7)]) (simp add: str_addrs_def entries_def)
  then have i7: "str_img (str_addrs p7) (pmem p7) i (sc_id c)" by (rule ns7(2))
  have d7: "str_addrs p7 \<inter> {a..<a + 4} = {}" if "?o \<le> a" "a + 4 \<le> ?o + 36" for a
    using ns7(1) that by (fastforce simp: node_state_def)
  have ag: "agree (str_addrs p7) (pmem p7) (pmem ?q)"
    using l7 unfolding upd_simps by (intro agree_upd agree_refl d7) simp_all
  have iq: "str_img (str_addrs ?q) (pmem ?q) i (sc_id c)" by (rule str_img_agree [OF i7 ag]) simp
  have dq: "str_img (str_addrs ?q) (pmem ?q) d (sc_desc c)" by (rule str_img_agree [OF p7(6) ag]) simp
  have "cve_fields ?q c i d ?o"
    using lo l7 f7 f7' f8 f9 f10 f11 iq dq by (simp add: cve_fields_def rdn_wr32 rdn_wr32_other)
  then show thesis using that [OF run nsq] p7(4,5) p2(5) by simp
qed

definition cve_done :: "allocator \<Rightarrow> vulnspec_parser \<Rightarrow> src_cve \<Rightarrow> vulnspec_parser \<Rightarrow> vulnspec_cvalue \<Rightarrow> vulnspec_cvalue \<Rightarrow> u32 \<Rightarrow> bool" where
  "cve_done ok p c p' i d v \<longleftrightarrow> cve_fields p' c i d (plen p) \<and> rdn (pmem p') (plen p + 32) = Done v
     \<and> expr_img ({plen p + 36..<plen p'} \<union> str_addrs p') (pmem p') VULNSPEC_VVAGUE v (sc_expr c)
     \<and> str_addrs p' \<inter> {plen p..<plen p + 36} = {} \<and> plen p + 36 \<le> plen p' \<and> plen p' \<le> plen p + cve_size c"

text \<open>A finished node stays when the memory behind it and the strings do.\<close>

lemma cve_fields_agree:
  assumes "cve_fields q c i d a" "agree ({a..<a + 4} \<union> {a + 8..<a + 32} \<union> str_addrs q) (pmem q) (pmem q')" "str_addrs q \<subseteq> str_addrs q'"
    "rdn (pmem q') (a + 4) = Done nx" "a < 2 ^ 39"
  shows "rdn (pmem q') a = Done VULNSPEC_CVE_NODE \<and> rdn (pmem q') (a + 8) = Done (the_score (sc_cvss2 c))
     \<and> rdn (pmem q') (a + 12) = Done (the_score (sc_cvss3 c))
     \<and> rdn (pmem q') (a + 16) = Done (cv_length i) \<and> rdn (pmem q') (a + 20) = Done (cv_offset i)
     \<and> rdn (pmem q') (a + 24) = Done (cv_length d) \<and> rdn (pmem q') (a + 28) = Done (cv_offset d)
     \<and> str_img (str_addrs q') (pmem q') i (sc_id c) \<and> str_img (str_addrs q') (pmem q') d (sc_desc c)"
proof -
  have rd: "rdn (pmem q') (a + k) = Done w" if "rdn (pmem q) (a + k) = Done w" "k = 0 \<or> 8 \<le> k" "k + 4 \<le> 32" for k w
    by (rule rdn_agree [OF assms(2) _ _ that(1)]) (use that(2,3) assms(5) in auto)
  have "agree (str_addrs q) (pmem q) (pmem q')" by (rule agree_mono [OF assms(2)]) auto
  then show ?thesis
    using assms(1) rd [of 0] rd [of 8] rd [of 12] rd [of 16] rd [of 20] rd [of 24] rd [of 28] str_img_agree [OF _ _ assms(3)]
    unfolding cve_fields_def by auto
qed

lemma cve_step:
  assumes inv: "parser_inv ok p" and g: "grants ok" and c: "cve_ok c" and len: "plen p + cve_size c + 140 < 2 ^ 32"
    and vt: "pa_vtype p = VULNSPEC_VVAGUE" and n: "length (expr_toks (sc_expr c)) \<le> n"
    and sp: "spells ([Str (sc_id c), Dbl (fst (sc_cvss2 c)) (snd (sc_cvss2 c)), Dbl (fst (sc_cvss3 c)) (snd (sc_cvss3 c)), Str (sc_desc c)]
      @ LP # expr_toks (sc_expr c) @ ts) (pinput p)"
  obtains p' i d v where "cve n ok p = Done (Inr (of_nat (plen p)), p')" "parser_inv ok p'" "ext {} p p'" "cve_done ok p c p' i d v" "spells ts (pinput p')"
proof -
  let ?o = "plen p"
  have lo: "?o < 2 ^ 32" using len by simp
  obtain q i d where run: "cve n ok p = pbind (expect ok VULNSPEC_TLPAREN) (\<lambda>_. pbind (vulnexpr n ok) (\<lambda>vexpr.
      pbind (put32 (?o + 32) vexpr) (\<lambda>_. preturn (of_nat ?o)))) q"
    and q: "node_state ok p 36 q" "cve_fields q c i d ?o" "plen q \<le> ?o + 60 + length (sc_id c) + length (sc_desc c)"
      "spells (LP # expr_toks (sc_expr c) @ ts) (pinput q)"
    by (rule cve_head [OF inv g c len sp])
  have qi: "parser_inv ok q" "pa_vtype q = VULNSPEC_VVAGUE" "?o + 36 \<le> plen q" using q(1) vt by (auto simp: node_state_def ext_def)
  obtain r where r: "expect ok VULNSPEC_TLPAREN q = Done (Inr (), q\<lparr>pa_r := r\<rparr>)" "parser_inv ok (q\<lparr>pa_r := r\<rparr>)"
    "spells (expr_toks (sc_expr c) @ ts) (vr_input r)" using expect_step [OF qi(1) g q(4)] by auto
  let ?q = "q\<lparr>pa_r := r\<rparr>"
  have "\<exists>res. vulnexpr n ok ?q = Done res \<and> expr_done ok ?q (sc_expr c) ts res"
    by (rule vulnexpr_step [OF g r(2)]) (use r(3) c qi(2) q(3) len n in \<open>auto simp: cve_ok_def cve_size_def\<close>)
  then obtain p5 where p5: "vulnexpr n ok ?q = Done (Inr (of_nat (plen q)), p5)" "parser_inv ok p5" "ext {} q p5"
    "plen p5 \<le> plen q + expr_size (sc_expr c)" "spells ts (pinput p5)"
    "expr_img ({plen q..<plen p5} \<union> str_addrs p5) (pmem p5) VULNSPEC_VVAGUE (of_nat (plen q)) (sc_expr c)"
    using qi(2) by (auto simp: expr_done_def compiled_def ext_def str_addrs_def entries_def)
  note n5 = node_state_ext [OF q(1) p5(2,3)]
  have l5: "plen p5 \<le> length (pmem p5)" "?o + 36 \<le> plen p5" using node_state_len [OF n5(1)] by simp_all
  have d5: "str_addrs p5 \<inter> {?o..<?o + 36} = {}" using n5(1) by (simp add: node_state_def)
  have f5: "cve_fields p5 c i d ?o"
    using q(2) n5(2,3) qi(3) lo unfolding cve_fields_def by auto
  let ?p = "upd (?o + 32) (of_nat (plen q)) p5"
  have ns: "node_state ok p 36 ?p" by (rule node_state_upd(1) [OF n5(1)]) simp_all
  have ag: "agree F (pmem p5) (pmem ?p)" if "F \<inter> {?o + 32..<?o + 32 + 4} = {}" for F
    using agree_wr32 [OF _ that, of "pmem p5" "of_nat (plen q)"] l5 by simp
  have ds: "str_addrs p5 \<inter> {?o + 32..<?o + 32 + 4} = {}" using d5 by fastforce
  have "cve_fields ?p c i d ?o"
    using f5 lo l5 str_img_agree [OF _ ag [OF ds] order_refl] unfolding cve_fields_def by (simp add: rdn_wr32_other)
  moreover have "rdn (pmem ?p) (?o + 32) = Done (of_nat (plen q))" using lo l5 unfolding upd_simps by (intro rdn_wr32) auto
  moreover have "expr_img ({?o + 36..<plen ?p} \<union> str_addrs ?p) (pmem ?p) VULNSPEC_VVAGUE (of_nat (plen q)) (sc_expr c)"
    by (rule expr_img_agree(1) [OF ag _ p5(6)]) (use ds qi(3) in auto)
  ultimately have "cve_done ok p c ?p i d (of_nat (plen q))"
    using d5 l5(2) p5(4) q(3) unfolding cve_done_def cve_size_def by auto
  moreover have "cve n ok p = Done (Inr (of_nat ?o), ?p)"
    unfolding run using r(1) p5(1) l5 by (simp add: pbind_def preturn_def put_at)
  ultimately show thesis using ns p5(5) that [of ?p] by (auto simp: node_state_def)
qed

section \<open>Files\<close>

definition prev_cve :: "vulnspec_parser \<Rightarrow> u32 \<Rightarrow> bool" where
  "prev_cve p prev \<longleftrightarrow> prev_ok p prev \<and> (prev \<noteq> 0 \<longrightarrow> rdn (pmem p) (unat prev) = Done VULNSPEC_CVE_NODE)"

text \<open>A round of the loop: the node of the vulnerability at the end of the program, and the link to it\<close>

lemma cve_round:
  assumes inv: "parser_inv ok p" and g: "grants ok" and c: "cve_ok c" and len: "plen p + cve_size c + 140 < 2 ^ 32"
    and vt: "pa_vtype p = VULNSPEC_VVAGUE" and n: "length (expr_toks (sc_expr c)) \<le> n" and prev: "prev_cve p prev"
    and sp: "spells (cve_toks c @ ts) (pinput p)"
  obtains p' i d v where "parse_loop (Suc n) ok prev p = parse_loop n ok (of_nat (plen p)) p'" "parser_inv ok p'" "ext (hole prev) p p'"
    "cve_done ok p c p' i d v" "spells ts (pinput p')" "prev \<noteq> 0 \<longrightarrow> rdn (pmem p') (unat prev + 4) = Done (of_nat (plen p))"
proof -
  let ?o = "plen p"
  have lo: "?o < 2 ^ 32" using len by simp
  let ?ts = "[Str (sc_id c), Dbl (fst (sc_cvss2 c)) (snd (sc_cvss2 c)), Dbl (fst (sc_cvss3 c)) (snd (sc_cvss3 c)), Str (sc_desc c)]
      @ LP # expr_toks (sc_expr c) @ RP # ts"
  have sp': "spells (LP # Sym ''cve'' # ?ts) (pinput p)" using sp by (simp add: cve_toks_def)
  obtain r where r: "next_token ok p = Done (Inr VULNSPEC_TLPAREN, p\<lparr>pa_r := r\<rparr>)" "parser_inv ok (p\<lparr>pa_r := r\<rparr>)"
    "spells (Sym ''cve'' # ?ts) (vr_input r)" using token_step [OF inv g sp'] by auto
  have "spells (Sym ''cve'' # ?ts) (pinput (p\<lparr>pa_r := r\<rparr>))" using r(3) by simp
  then obtain r1 where r1: "read_symbol ok (p\<lparr>pa_r := r\<rparr>) = Done (Inr VULNSPEC_CVE_NODE, p\<lparr>pa_r := r1\<rparr>)" "parser_inv ok (p\<lparr>pa_r := r1\<rparr>)"
    "spells ?ts (vr_input r1)" using symbol_step [OF r(2) g, of "''cve''" ?ts] node_symbols(3) by auto
  let ?p1 = "p\<lparr>pa_r := r1\<rparr>"
  have same: "str_addrs ?p1 = str_addrs p" "ext H ?p1 p' = ext H p p'" "cve_done ok ?p1 c p' i d v = cve_done ok p c p' i d v" for H p' i d v
    by (auto simp: ext_def str_addrs_def entries_def cve_done_def)
  have len1: "plen ?p1 + cve_size c + 140 < 2 ^ 32" and vt1: "pa_vtype ?p1 = VULNSPEC_VVAGUE" and sp1: "spells ?ts (pinput ?p1)"
    using len vt r1(3) by simp_all
  obtain p2 i d v where p2: "cve n ok ?p1 = Done (Inr (of_nat (plen ?p1)), p2)" "parser_inv ok p2" "ext {} ?p1 p2" "cve_done ok ?p1 c p2 i d v"
    "spells (RP # ts) (pinput p2)" by (rule cve_step [OF r1(2) g c len1 vt1 n sp1])
  obtain r3 where r3: "expect ok VULNSPEC_TRPAREN p2 = Done (Inr (), p2\<lparr>pa_r := r3\<rparr>)" "parser_inv ok (p2\<lparr>pa_r := r3\<rparr>)"
    "spells ts (vr_input r3)" using expect_step [OF p2(2) g p2(5)] by auto
  let ?p3 = "p2\<lparr>pa_r := r3\<rparr>" let ?p = "relink prev (of_nat ?o) ?p3"
  have e3: "ext {} p ?p3" using p2(3) by (simp add: ext_def str_addrs_def entries_def)
  have pk: "prev_ok p prev" using prev by (simp add: prev_cve_def)
  have hb: "hole prev \<subseteq> {..<?o}" using pk by (auto simp: prev_ok_def hole_def)
  have sh: "str_addrs ?p3 \<inter> hole prev = {}"
    using pk e3 hb by (fastforce simp: ext_def prev_ok_def hole_def)
  note rl = relink_inv [OF r3(2) e3 pk sh, where w = "of_nat ?o"]
  have l3: "plen p2 \<le> length (pmem p2)" "?o \<le> plen p2" using plen_le [OF p2(2)] p2(3) by (auto simp: ext_def)
  have lk: "link_cve prev (of_nat ?o) ?p3 = Done (Inr (), ?p)"
  proof (cases "prev = 0")
    case False
    then have u: "unat prev + 12 \<le> ?o" "rdn (pmem p) (unat prev) = Done VULNSPEC_CVE_NODE" using prev by (auto simp: prev_cve_def prev_ok_def)
    have "agree {..<?o} (pmem p) (pmem p2)" using e3 by (simp add: ext_def)
    then have "rdn (pmem p2) (unat prev) = Done VULNSPEC_CVE_NODE" by (rule rdn_agree [OF _ _ _ u(2)]) (use u(1) lo in auto)
    then have "rd32 (pmem p2) (ucast prev) = Done VULNSPEC_CVE_NODE" by (simp add: rdn_def)
    then show ?thesis using False u(1) l3 by (simp add: link_cve_def relink_def put_at)
  qed (simp add: link_cve_def relink_def preturn_def)
  have run: "parse_loop (Suc n) ok prev p = parse_loop n ok (of_nat ?o) ?p"
    using r(1) r1(1) p2(1) r3(1) lk by (simp add: pbind_def)
  have cd: "cve_done ok p c p2 i d v" using p2(4) same by simp
  have eq3: "str_addrs ?p3 = str_addrs p2" by (simp add: str_addrs_def entries_def)
  then have "({?o..} \<union> str_addrs p2) \<inter> hole prev = {}" using hb sh by fastforce
  then have ag: "agree ({?o..} \<union> str_addrs p2) (pmem p2) (pmem ?p)" using rl(3) by simp
  have eq: "str_addrs ?p = str_addrs p2" "plen ?p = plen p2" using eq3 by simp_all
  have f4: "rdn (pmem ?p) (?o + 4) = Done 0" 
    by (rule rdn_agree [OF ag]) (use cd lo in \<open>auto simp: cve_done_def cve_fields_def\<close>)
  have "agree ({?o..<?o + 4} \<union> {?o + 8..<?o + 32} \<union> str_addrs p2) (pmem p2) (pmem ?p)" by (rule agree_mono [OF ag]) auto
  note cf = cve_fields_agree [OF _ this _ f4]
  have "cve_fields ?p c i d ?o" unfolding cve_fields_def
    using cf [of c i d] cd eq f4 lo by (auto simp: cve_done_def)
  moreover have "rdn (pmem ?p) (?o + 32) = Done v" by (rule rdn_agree [OF ag]) (use cd lo in \<open>auto simp: cve_done_def\<close>)
  moreover have "expr_img ({?o + 36..<plen ?p} \<union> str_addrs ?p) (pmem ?p) VULNSPEC_VVAGUE v (sc_expr c)"
    unfolding eq using cd by (intro expr_img_agree(1) [OF agree_mono [OF ag] order_refl]) (auto simp: cve_done_def)
  ultimately have "cve_done ok p c ?p i d v" using cd eq unfolding cve_done_def by simp
  moreover have "prev \<noteq> 0 \<longrightarrow> rdn (pmem ?p) (unat prev + 4) = Done (of_nat ?o)"
    using pk lo l3 by (auto simp: relink_def prev_ok_def intro!: rdn_wr32)
  ultimately show thesis using that [OF run rl(1,2)] r3(3) by simp
qed

definition cves_size :: "src_cve list \<Rightarrow> nat" where
  "cves_size cs = sum_list (map cve_size cs)"

definition cves_done :: "allocator \<Rightarrow> vulnspec_parser \<Rightarrow> src_cve list \<Rightarrow> u32 \<Rightarrow> vulnspec_parser \<Rightarrow> bool" where
  "cves_done ok p cs prev p' \<longleftrightarrow> parser_inv ok p' \<and> ext (if cs = [] then {} else hole prev) p p' \<and> plen p' \<le> plen p + cves_size cs
     \<and> (cs \<noteq> [] \<longrightarrow> cves_img ({plen p..<plen p'} \<union> str_addrs p') (pmem p') (of_nat (plen p)) cs
          \<and> (prev \<noteq> 0 \<longrightarrow> rdn (pmem p') (unat prev + 4) = Done (of_nat (plen p))))"

lemma cves_done_Cons:
  assumes inv: "parser_inv ok p" and p3: "parser_inv ok p3" "ext (hole prev) p p3" and cd: "cve_done ok p c p3 i d v"
    and nx: "prev \<noteq> 0 \<longrightarrow> rdn (pmem p3) (unat prev + 4) = Done (of_nat (plen p))" and prev: "prev_ok p prev" and lo: "plen p < 2 ^ 32"
    and c: "cve_ok c" and ch: "cves_done ok p3 cs (of_nat (plen p)) p4"
  shows "cves_done ok p (c # cs) prev p4"
proof -
  let ?o = "plen p" and ?H = "if cs = [] then {} else hole (of_nat (plen p))" and ?F = "{plen p..<plen p4} \<union> str_addrs p4"
  note uo = unat_of_nat_u32 [OF lo]
  have o8: "8 \<le> ?o" using inv by (simp add: parser_inv_def)
  then have o0: "(of_nat ?o :: u32) \<noteq> 0" using uo by (metis unat_0 not_numeral_le_zero)
  have H: "?H \<subseteq> {?o + 4..<?o + 8}" using uo o0 by (auto simp: hole_def)
  have c4: "parser_inv ok p4" "ext ?H p3 p4" "plen p4 \<le> plen p3 + cves_size cs" using ch unfolding cves_done_def by blast+
  have ag: "agree ({..<plen p3} - ?H) (pmem p3) (pmem p4)" "plen p3 \<le> plen p4" "str_addrs p3 \<subseteq> str_addrs p4"
    using c4(2) by (auto simp: ext_def)
  have e: "cve_fields p3 c i d ?o" "rdn (pmem p3) (?o + 32) = Done v" "?o + 36 \<le> plen p3" "plen p3 \<le> ?o + cve_size c"
    "expr_img ({?o + 36..<plen p3} \<union> str_addrs p3) (pmem p3) VULNSPEC_VVAGUE v (sc_expr c)" "str_addrs p3 \<inter> {?o..<?o + 36} = {}"
    using cd by (simp_all add: cve_done_def)
  have s3: "str_addrs p3 \<subseteq> {..<plen p3} - ?H" using p3(1) H e(6) by (fastforce simp: parser_inv_def)
  have fin: "{?o..<?o + 4} \<union> {?o + 8..<plen p3} \<union> str_addrs p3 \<subseteq> {..<plen p3} - ?H" using H e(3) s3 by fastforce
  obtain nxt where nxt: "rdn (pmem p4) (?o + 4) = Done nxt" "cves_img ?F (pmem p4) nxt cs"
  proof (cases "cs = []")
    case True
    have "rdn (pmem p3) (?o + 4) = Done 0" using e(1) by (simp add: cve_fields_def)
    then have "rdn (pmem p4) (?o + 4) = Done 0" by (rule rdn_agree [OF ag(1), rotated 2]) (use True e(3) lo in auto)
    then show ?thesis using that [of 0] no_cve_img True by blast
  next
    case False
    then have "cves_img ({plen p3..<plen p4} \<union> str_addrs p4) (pmem p4) (of_nat (plen p3)) cs" "rdn (pmem p4) (?o + 4) = Done (of_nat (plen p3))"
      using ch o0 uo by (simp_all add: cves_done_def)
    then show ?thesis using e(3) by (intro that [OF _ cves_img_agree [OF _ agree_refl]]) auto
  qed
  have "agree ({?o..<?o + 4} \<union> {?o + 8..<?o + 32} \<union> str_addrs p3) (pmem p3) (pmem p4)" by (rule agree_mono [OF ag(1)]) (use fin e(3) in fastforce)
  note f = cve_fields_agree [OF e(1) this ag(3) nxt(1)]
  have "{?o + 32..<?o + 32 + 4} \<subseteq> {?o + 8..<plen p3}" using e(3) by auto
  then have sv: "{?o + 32..<?o + 32 + 4} \<subseteq> {..<plen p3} - ?H" using fin by blast
  have v: "rdn (pmem p4) (?o + 32) = Done v" by (rule rdn_agree [OF ag(1) sv _ e(2)]) (use lo in simp)
  have "{?o + 36..<plen p3} \<union> str_addrs p3 \<subseteq> {?o + 8..<plen p3} \<union> str_addrs p3" by auto
  then have sx: "{?o + 36..<plen p3} \<union> str_addrs p3 \<subseteq> {..<plen p3} - ?H" using fin by blast
  have sF: "{?o + 36..<plen p3} \<union> str_addrs p3 \<subseteq> ?F" using ag(2,3) by auto
  have ex: "expr_img ?F (pmem p4) VULNSPEC_VVAGUE v (sc_expr c)"
    by (rule expr_img_agree(1) [OF agree_mono [OF ag(1) sx] sF e(5)])
  have st: "str_img ?F (pmem p4) i (sc_id c)" "str_img ?F (pmem p4) d (sc_desc c)"
    using f lo str_img_agree [OF _ agree_refl, of "str_addrs p4" "pmem p4" _ _ ?F] by auto
  have "cves_img ?F (pmem p4) (of_nat ?o) (c # cs)"
  proof (rule cve_img)
    show "rd_cve (pmem p4) (ucast (of_nat ?o :: u32)) = Done \<lparr>ce_type = VULNSPEC_CVE_NODE, ce_next = nxt, ce_cvss2_base = the_score (sc_cvss2 c),
        ce_cvss3_base = the_score (sc_cvss3 c), ce_id = i, ce_description = d, ce_vulnexpr = v\<rparr>"
      unfolding rd_nodes(3) [OF lo] using f lo v nxt(1) by simp
  qed (use uo o8 e(3) ag(2) st ex nxt(2) c in \<open>auto simp: cve_ok_def the_score_def\<close>)
  moreover have "prev \<noteq> 0 \<longrightarrow> rdn (pmem p4) (unat prev + 4) = Done (of_nat ?o)"
  proof
    assume n0: "prev \<noteq> 0"
    then have "unat prev + 12 \<le> ?o" using prev by (simp add: prev_ok_def)
    moreover from this have "{unat prev + 4..<unat prev + 4 + 4} \<subseteq> {..<plen p3} - ?H" using H e(3) by fastforce
    ultimately show "rdn (pmem p4) (unat prev + 4) = Done (of_nat ?o)"
      using rdn_agree [OF ag(1)] nx n0 lo by simp
  qed
  moreover have "ext (hole prev) p p4" using H by (intro ext_trans [OF p3(2) c4(2)]) auto
  ultimately show ?thesis using c4 e(4) by (simp add: cves_done_def cves_size_def)
qed

lemma parse_loop_done:
  assumes "grants ok" "parser_inv ok p" "pa_vtype p = VULNSPEC_VVAGUE" "prev_cve p prev" "\<forall>c \<in> set cs. cve_ok c"
    "spells (concat (map cve_toks cs)) (pinput p)" "plen p + cves_size cs + 140 < 2 ^ 32" "length (concat (map cve_toks cs)) < n"
  shows "\<exists>p'. parse_loop n ok prev p = Done (Inr (), p') \<and> cves_done ok p cs prev p'"
  using assms(2-)
proof (induction cs arbitrary: p prev n)
  case Nil
  then obtain m where n: "n = Suc m" by (cases n) auto
  have sp: "spells [] (pinput p)" using Nil.prems(5) by simp
  obtain r where r: "vulnspec_read_token ok (pa_r p) = Done (VULNSPEC_TEOF, r)" "vr_sval r = vr_sval (pa_r p)"
    by (rule read_token_eof [OF sp])
  then have "parse_loop n ok prev p = Done (Inr (), p\<lparr>pa_r := r\<rparr>)" by (simp add: n pbind_def preturn_def next_token_def)
  moreover have "buf_wf ok (vr_sval r)" using r(2) Nil.prems(1) by (simp add: parser_inv_def)
  ultimately show ?case using reader_inv [OF Nil.prems(1), of r] by (auto simp: cves_done_def)
next
  case (Cons c cs)
  then obtain m where n: "n = Suc m" by (cases n) auto
  have cl: "length (cve_toks c) = length (expr_toks (sc_expr c)) + 8" by (simp add: cve_toks_def)
  have lo: "plen p < 2 ^ 32" and len: "plen p + cve_size c + 140 < 2 ^ 32" and ok: "cve_ok c" and fuel: "length (expr_toks (sc_expr c)) \<le> m"
    and sp: "spells (cve_toks c @ concat (map cve_toks cs)) (pinput p)"
    using Cons.prems n cl by (auto simp: cves_size_def)
  obtain p3 i d v where p3: "parse_loop (Suc m) ok prev p = parse_loop m ok (of_nat (plen p)) p3" "parser_inv ok p3" "ext (hole prev) p p3"
    "cve_done ok p c p3 i d v" "spells (concat (map cve_toks cs)) (pinput p3)" "prev \<noteq> 0 \<longrightarrow> rdn (pmem p3) (unat prev + 4) = Done (of_nat (plen p))"
    by (rule cve_round [OF Cons.prems(1) assms(1) ok len Cons.prems(2) fuel Cons.prems(3) sp])
  note uo = unat_of_nat_u32 [OF lo]
  have cd: "plen p + 36 \<le> plen p3" "plen p3 \<le> plen p + cve_size c" "str_addrs p3 \<inter> {plen p..<plen p + 36} = {}"
    "rdn (pmem p3) (plen p) = Done VULNSPEC_CVE_NODE" using p3(4) by (auto simp: cve_done_def cve_fields_def)
  have pc: "prev_cve p3 (of_nat (plen p))"
    unfolding prev_cve_def prev_ok_def hole_def uo using cd by (auto simp: disjoint_iff)
  have "\<exists>p'. parse_loop m ok (of_nat (plen p)) p3 = Done (Inr (), p') \<and> cves_done ok p3 cs (of_nat (plen p)) p'"
    by (rule Cons.IH [OF p3(2) _ pc]) (use Cons.prems p3 cd n cl in \<open>auto simp: ext_def cves_size_def\<close>)
  then obtain p4 where p4: "parse_loop m ok (of_nat (plen p)) p3 = Done (Inr (), p4)" "cves_done ok p3 cs (of_nat (plen p)) p4" by blast
  have "prev_ok p prev" using Cons.prems(3) by (simp add: prev_cve_def)
  then have "cves_done ok p (c # cs) prev p4"
    by (rule cves_done_Cons [OF Cons.prems(1) p3(2,3,4,6) _ lo ok p4(2)])
  moreover have "parse_loop n ok prev p = Done (Inr (), p4)" unfolding n p3(1) by (rule p4(1))
  ultimately show ?case by blast
qed

section \<open>The compiler\<close>

lemma header_length [simp]: "length VULNSPEC_HEADER = 8"
  by (simp add: VULNSPEC_HEADER_def)

text \<open>The parser as it is initialised, with the header in its program and the text to read\<close>

lemma parser_start:
  assumes g: "grants ok"
  obtains p progn where "vulnspec_parser_init ok = (0, Some p)" "buf_adata ok (buf_clear (pa_progn p)) VULNSPEC_HEADER = Some (0, progn)"
    "parser_inv ok (p\<lparr>pa_r := vulnspec_reader_init ok txt, pa_progn := progn\<rparr>)" "pa_vtype p = VULNSPEC_VVAGUE"
    "take 8 (mem progn) = VULNSPEC_HEADER" "buf_len progn = 8"
proof -
  have ok: "ok n" if "unat n < 2 ^ 40" for n using g that by (simp add: grants_def)
  have b: "alloc_bounded ok" using g by (simp add: grants_def)
  have "ok (OBJTBL_SIZE (round_up_pow2 (REHASH_ROUND_UP STRTAB_ENTRIES)))"
    by (rule ok) (simp add: OBJTBL_SIZE_def round_up_pow2_def REHASH_ROUND_UP_def STRTAB_ENTRIES_def)
  then obtain tbl where t: "objtbl_init ok strtab_opts STRTAB_ENTRIES = (OBJTBL_OK, Some tbl)"
    by (simp add: objtbl_init_def init_table_def init_header_def round_up_pow2_def REHASH_ROUND_UP_def Let_def STRTAB_ENTRIES_def)
  note tw = objtbl_init_wf [OF t strtab_opts_ok]
  define D where "D = (512 * 1024 :: nat)"
  let ?b = "\<lparr>buf_cap = DEFAULT_PROGN_SIZE, buf_len = 0, buf_data = Some (replicate D NUL)\<rparr>"
  have al: "buf_align_offset DEFAULT_PROGN_SIZE = DEFAULT_PROGN_SIZE" by (simp add: buf_align_offset_def DEFAULT_PROGN_SIZE_def BUF_ALIGNMENT_def)
  have D: "unat DEFAULT_PROGN_SIZE = D" by (simp add: DEFAULT_PROGN_SIZE_def D_def)
  have i: "vulnspec_progn_init ok = (0, ?b)"
    using ok [of DEFAULT_PROGN_SIZE] by (simp add: vulnspec_progn_init_def buf_init_def al D) (simp add: D_def)
  let ?p = "\<lparr>pa_vtype = VULNSPEC_VVAGUE, pa_strtab = tbl, pa_progn = ?b,
    pa_r = \<lparr>vr_symbol = [], vr_input = [], vr_row = 0, vr_col = 0, vr_lastcol = 0, vr_sval = buf_zero, vr_num = Ival 0\<rparr>\<rparr>"
  let ?m = "VULNSPEC_HEADER @ replicate (D - 8) NUL"
  let ?g = "?b\<lparr>buf_len := 8, buf_data := Some ?m\<rparr>"
  have "\<not> DEFAULT_PROGN_SIZE < 8" "8 \<le> DEFAULT_PROGN_SIZE" by (simp_all add: DEFAULT_PROGN_SIZE_def)
  moreover have D8: "8 \<le> D" "D < 2 ^ 62" by (simp_all add: D_def)
  ultimately have a: "buf_adata ok (buf_clear ?b) VULNSPEC_HEADER = Some (0, ?g)"
    by (simp add: buf_adata_def buf_clear_def buf_reserve_def poke_def mem_def VULNSPEC_HEADER_def [THEN arg_cong, of "\<lambda>x. x = []"])
  have e: "entries (?p\<lparr>pa_r := vulnspec_reader_init ok txt, pa_progn := ?g\<rparr>) = {}" using tw(2) by (simp add: entries_def)
  have w: "buf_wf ok ?g" using b D D8 by (simp add: buf_wf_def mem_def word_le_nat_alt)
  have inv: "parser_inv ok (?p\<lparr>pa_r := vulnspec_reader_init ok txt, pa_progn := ?g\<rparr>)"
    unfolding parser_inv_def str_addrs_def e using w tw D8 reader_init_wf [OF b, of "txt"] by (auto simp: nth_append mem_def)
  show thesis by (rule that [OF _ _ inv]) (use t i a in \<open>simp_all add: vulnspec_parser_init_def mem_def\<close>)
qed


text \<open>The tokens with spaces between them are a text for them.\<close>

definition spaced :: "tok list \<Rightarrow> bytes" where
  "spaced ts = concat (map (\<lambda>t. CHR '' '' # tok_text t) ts)"

lemma spells_spaced: "list_all tok_ok ts \<Longrightarrow> spells ts (spaced ts)"
proof (induction ts)
  case Nil
  then show ?case by (simp add: spaced_def spells_Nil)
next
  case (Cons t ts)
  have "may_follow t (spaced ts)"
    by (cases t; cases ts) (simp_all add: spaced_def ends_symbol_def symbol_char_def in_number_def is_digit_def)
  then have "spells (t # ts) ('' '' @ tok_text t @ spaced ts)" using Cons by (intro spells_Cons) (simp_all add: is_space_def)
  then show ?case by (simp add: spaced_def)
qed

lemma bits_numeral: "bits (numeral k) = Suc (bits (numeral k div 2))" "bits 0 = 0" "bits (Suc 0) = 1" "bits 1 = 1"
  by (simp_all add: bits.simps)

definition sample_cve :: src_cve where
  "sample_cve = \<lparr>sc_id = ''CVE-1'', sc_cvss2 = (''7'', ''5''), sc_cvss3 = (''9'', ''8''), sc_desc = ''x'',
     sc_expr = SBool True [SCompar ''<'' ''a/b'' ''1.2'', SCompar ''>='' ''a/b'' ''1'']\<rparr>"

lemma sample_scores: "score (''7'', ''5'') = Done 750" "score (''9'', ''8'') = Done 980"
  by (simp_all add: score_def dec_value_def digit_val_def fixed_point_def nearest_def bits_numeral)

definition sample_params :: "vulnspec_cve_match list vulnspec_params" where
  "sample_params = \<lparr>vp_cve_on_match = Some (\<lambda>m ms. (1, ms @ [m])), vp_cve_on_match_data = [], vp_cve_vendprod = Some ''a/b'',
     vp_cve_version = Some ''1.1'', vp_cve_vaguever_version = \<lparr>vv_nused = 2, vv_fields = [1, 1, 0, 0]\<rparr>\<rparr>"

lemma sample_sem: "src_sem sample_params VULNSPEC_VVAGUE (sc_expr sample_cve)"
proof -
  have v: "vaguever_init ''1.2'' = Some \<lparr>vv_nused = 2, vv_fields = [1, 2, 0, 0]\<rparr>" "vaguever_init ''1'' = Some \<lparr>vv_nused = 1, vv_fields = [1, 0, 0, 0]\<rparr>"
    by (simp_all add: vaguever_init_def cstr_def VAGUEVER_NFIELDS_def is_digit_def digit_val_def eval_nat_numeral)
  have n: "symbol2node ''<'' = VULNSPEC_LT_NODE" "symbol2node ''>='' = VULNSPEC_GE_NODE"
    by (simp_all add: symbol2node_def symbol_vals_def cstr_def)
  show ?thesis
    by (simp add: sample_params_def sample_cve_def v n compar_result_def vaguever_cmp_def VAGUEVER_NFIELDS_def cstr_def
        VULNSPEC_LT_NODE_def VULNSPEC_GE_NODE_def VULNSPEC_LE_NODE_def VULNSPEC_EQ_NODE_def Let_def)
qed

lemma sample_report: "src_report sample_params [sample_cve] []
    = (0, [\<lparr>cm_id = ''CVE-1'', cm_cvss2_base = 750, cm_cvss3_base = 980, cm_desc = ''x''\<rparr>])"
proof -
  have "\<not> missing (vp_cve_version sample_params)" "\<not> missing (vp_cve_vendprod sample_params)"
    by (simp_all add: sample_params_def missing_def cstr_def)
  moreover have "vp_cve_on_match sample_params = Some (\<lambda>m ms. (1, ms @ [m]))" by (simp add: sample_params_def)
  ultimately show ?thesis using sample_sem by (simp add: the_score_def) (simp add: sample_cve_def sample_scores)
qed


text \<open>
  A score of 4.1 is stored as 409 and printed as 4.09: neither 4.1 nor its product with 100.0 is a
  double, and the product is below 410.
\<close>

lemma score_cut_off: "score (''4'', ''1'') = Done 409" "score (''9'', ''2'') = Done 919"
  by (simp_all add: score_def dec_value_def digit_val_def fixed_point_def nearest_def bits_numeral)

end
