(* ===== verification/Spec2Isabelle.thy ===== *)
theory Spec2Isabelle
  imports Netstring Ports_Parse Ports_R4 Ip_R4 Idtbl Objtbl Deduptbl Vulnspec_Interp U8 Csv Idset Str Lines Dsts Urlquery Arena Sindex Io Fcgi Scgi Vulnspec_Reader Vulnspec_Parser Vulnspec_Image Vulnspec_Compile
begin

text \<open>
  A verification library for yans, a network scanner and the services around it, written in C. A
  scan reads its targets as text, visits every pair of an address and a port in a scattered order,
  and stores what it finds; daemons exchange netstring-framed messages, and web front ends
  answer FastCGI and SCGI requests. The library models the code under \<^verbatim>\<open>src/lib\<close> that carries this
  logic, and the daemons' code where it can be read apart from the system it runs on.

  \<^bold>\<open>Conventions.\<close> The target is amd64: \<^verbatim>\<open>int\<close> and \<^verbatim>\<open>uint32_t\<close> are \<open>32 word\<close>, \<^verbatim>\<open>size_t\<close> and \<^verbatim>\<open>long\<close>
  \<open>64 word\<close>, and a byte is a \<open>char\<close> (\<open>Yans_Prelude\<close>). A struct is a record, a pointer into a
  block an offset, a block of memory a function from addresses to bytes or a list of them. The
  outer \<open>None\<close> of a result is an access outside of a block, a failed assertion or a call that does not
  return, so that \<open>Some\<close> in a conclusion states safety and termination; errors of the code
  are values. Names are those of the code; where a loop or a macro of a function has a
  definition of its own, the name says what it does.

  \<^bold>\<open>Parameters.\<close> Code outside of the sources is an argument: the allocator (\<open>ok\<close> says which sizes it
  grants), \<^verbatim>\<open>getaddrinfo\<close> and \<^verbatim>\<open>getnameinfo\<close>, \<^verbatim>\<open>qsort\<close>, SHA-1, \<^verbatim>\<open>mmap\<close>, \<^verbatim>\<open>strerror\<close>, the byte
  representation of structs, and the clients' callbacks. What a descriptor delivers is a list of
  events (data in pieces of any size, a pause, a signal, an error, the end), so a theorem over all
  lists covers every interleaving with the peer.

  \<^bold>\<open>The theories.\<close>

  \<^item> \<open>Yans_Prelude\<close>: machine types, the allocator, lemmas on lists and words.
  \<^item> \<open>Buf\<close> (\<^verbatim>\<open>lib/util/buf\<close>): the growable buffer that most components append to. The locale
    \<open>byte_sink\<close> states what appending promises; all or nothing, never outside of the block.
  \<^item> \<open>Netstring\<close> (\<^verbatim>\<open>lib/util/netstring\<close>): parser, writers and the struct serializer of the messages; the
    parser accepts only netstrings inside of its source, and structs survive the round trip.
  \<^item> \<open>Iterator\<close>: the contract of the iterators, locales \<open>iterator\<close> (a list to deliver, then the end,
    then again), \<open>bag_iterator\<close> (the same up to order, a \<open>sublocale\<close>) and \<open>cyclic_iterator\<close>.
    Interpreted by \<open>Reorder\<close> (\<^verbatim>\<open>lib/util/reorder\<close>, the permutation by a linear congruential generator),
    \<open>Ports\<close> and \<open>Ports_Parse\<close> (\<^verbatim>\<open>lib/net/ports\<close>: the normal form of port ranges, their parser against a
    reference, printing), \<open>Ip\<close> and \<open>Ip_Blocks\<close> (\<^verbatim>\<open>lib/net/ip\<close>: addresses, CIDR blocks, lists of
    blocks), \<open>Ports_R4\<close> and \<open>Ip_R4\<close> (the reordered iterators, over \<open>Round_Robin\<close>) and \<open>Dsts\<close>
    (\<^verbatim>\<open>lib/net/dsts\<close>: the pairs a scan visits).
  \<^item> \<open>Robin_Hood\<close>: open addressing, once for three tables. The locales \<open>probing\<close> and \<open>shifting\<close>
    assume what the tests on an entry mean; \<open>Idtbl\<close>, \<open>Objtbl\<close> and \<open>Deduptbl\<close> (\<^verbatim>\<open>lib/util\<close>) interpret
    them. The locale \<open>simulation\<close> (theory \<open>Simulation\<close>) turns one simulated step into every sequence of
    calls; it is interpreted by the tables and by \<open>Idset\<close> (\<^verbatim>\<open>lib/util/idset\<close>).
  \<^item> \<open>Versions\<close> (\<^verbatim>\<open>lib/util/vaguever\<close>, \<^verbatim>\<open>nalphaver\<close>): comparison of versions as preorders.
  \<^item> \<open>Vulnspec_Interp\<close> (\<^verbatim>\<open>lib/vulnspec/interp.c\<close>): the validator and the interpreter of compiled
    specifications; what the validator accepts is evaluated as its meaning says.
  \<^item> \<open>U8\<close>, \<open>Csv\<close>, \<open>Str\<close> (with the flag sets), \<open>Lines\<close> (\<^verbatim>\<open>lib/util\<close>) and \<open>Urlquery\<close> (\<^verbatim>\<open>lib/net/urlquery\<close>): text; each parser
    equals a reference definition, and encoders and decoders are inverse where the code means it.
  \<^item> \<open>Arena\<close> (\<^verbatim>\<open>lib/alloc\<close>): the linear allocators, both interpretations of the locale \<open>arena\<close>:
    chunks are disjoint.
  \<^item> \<open>Sindex\<close> (\<^verbatim>\<open>lib/util/sindex\<close>): the index file of the store, read page by page.
  \<^item> \<open>Io\<close> (\<^verbatim>\<open>lib/util/io\<close>): descriptors over events, and which of them are open.
  \<^item> \<open>Fcgi\<close> and \<open>Scgi\<close> (\<^verbatim>\<open>lib/net\<close>): requests that arrive in pieces. The locale \<open>fcgi_collector\<close>
    is the loop shared by parameters and body, interpreted for both.
  \<^item> \<open>Vulnspec_Reader\<close>, \<open>Vulnspec_Parser\<close> (\<^verbatim>\<open>lib/vulnspec/reader.c\<close>, \<^verbatim>\<open>parser.c\<close>, \<^verbatim>\<open>progn.c\<close>): the compiler of
    specifications, down to the stores into the program, the string table and the rounding of scores.
    \<open>Vulnspec_Image\<close> says what a program that holds a specification looks like and that it is loaded and
    evaluated as the specification says; \<open>Vulnspec_Compile\<close> shows that the compiler writes such a program.

  \<^bold>\<open>Loops and fuel.\<close> Loops over data are recursive with a measure. Where offsets in a file may
  be cyclic (\<open>Vulnspec_Interp\<close>) fuel bounds the walk, running out of it is a value of its own, and the
  theorems show that for a validated program the number of its bytes is enough. The client loops
  (\<open>Lines\<close>, \<open>all_pairs\<close> in \<open>Urlquery\<close>, \<open>all_pages\<close> in \<open>Sindex\<close>, \<open>all_params\<close> in \<open>Fcgi\<close>, \<open>all_headers\<close> and
  \<open>read_header_n\<close> in \<open>Scgi\<close>) take fuel that the theorems bound by the length of the input: every turn consumes some of it.
  The compiler (\<open>vulnexpr\<close>, \<open>boolean_loop\<close>, \<open>parse_loop\<close>) takes fuel, too; more than the number of tokens is enough.

  \<^bold>\<open>Not modelled.\<close> System calls as such (processes, signals, sandboxes, capabilities), output for
  people (logging, hex dumps), wrappers of libraries that are not part of the sources (the SSL library, zlib,
  RE2, libcurl), threads (the resolver pool), generated code (messages, lexer and parser of
  \<^verbatim>\<open>apps/yclgen\<close>), and the command line programs, which connect the modelled libraries by such calls.
\<close>

end
